(* ===== verification/Limb_Prelude.thy ===== *)
theory Limb_Prelude
  imports Main "HOL-Library.Word"
begin

text \<open>
  Prelude of the library: the limb type of the MPIR build that XCL links against (64-bit
  limbs without nails, \<^verbatim>\<open>GMP_NUMB_BITS = GMP_LIMB_BITS = 64\<close>), the integer that a
  little-endian limb vector denotes, and the facts about single limbs and limb vectors that
  every component of the development shares.
\<close>

unbundle bit_operations_syntax

named_theorems limb_simps \<open>value of the elementary limb operations as integers\<close>
named_theorems lval_simps \<open>value of limb vectors\<close>

type_synonym limb = "64 word"

definition B :: int where
  "B = 2 ^ 64"

lemma B_pos [simp]: "0 < B"
  by (simp add: B_def)

lemma B_ge_0 [simp]: "0 \<le> B"
  by (simp add: B_def)

lemma B_ne_0 [simp]: "B \<noteq> 0"
  by (simp add: B_def)

lemma B_gt_1 [simp]: "1 < B"
  by (simp add: B_def)

lemma B_ge_1 [simp]: "1 \<le> B"
  by (simp add: B_def)

lemma B_pow_pos [simp]: "0 < B ^ n"
  by simp

lemma B_pow_ge_1 [simp]: "1 \<le> B ^ n"
  by (simp add: B_def)

subsection \<open>Integer division\<close>

lemma zdiv_lt_iff:
  fixes x h k :: int
  assumes "0 < h"
  shows "x div h < k \<longleftrightarrow> x < k * h"
proof
  assume "x div h < k"
  then have "x div h * h \<le> (k - 1) * h" using assms by (intro mult_right_mono) auto
  moreover have "x = x div h * h + x mod h" "x mod h < h" using assms by simp_all
  moreover have "(k - 1) * h = k * h - h" by algebra
  ultimately show "x < k * h" by linarith
next
  assume x: "x < k * h"
  show "x div h < k"
  proof (rule ccontr)
    assume "\<not> x div h < k"
    then have "k * h \<le> x div h * h" using assms by (intro mult_right_mono) auto
    moreover have "x = x div h * h + x mod h" "0 \<le> x mod h" using assms by simp_all
    ultimately show False using x by linarith
  qed
qed

lemma zdiv_mod_unique:
  fixes n d q r :: int
  assumes "n = q * d + r" "0 \<le> r" "r < d"
  shows "n div d = q" and "n mod d = r"
  using assms by (auto simp: div_pos_pos_trivial)

subsection \<open>Single limbs\<close>

lemma uint_lt_B [simp]: "uint (x :: limb) < B"
  using uint_bounded [of x] by (simp add: B_def)

lemma uint_le_B_minus_1: "uint (x :: limb) \<le> B - 1"
  using uint_lt_B [of x] by linarith

lemma uint_add_limb [limb_simps]:
  "uint ((a :: limb) + b) = (if uint a + uint b < B then uint a + uint b else uint a + uint b - B)"
  using uint_bounded [of a] uint_bounded [of b]
  by (simp add: uint_word_ariths(1) B_def mod_add_if_z) 

lemma uint_sub_limb [limb_simps]:
  "uint ((a :: limb) - b) = (if uint b \<le> uint a then uint a - uint b else uint a - uint b + B)"
  using uint_bounded [of a] uint_bounded [of b]
  by (simp add: uint_word_ariths(2) B_def mod_sub_if_z)


lemma less_limb_iff: "(a :: limb) < b \<longleftrightarrow> uint a < uint b"
  by (simp add: word_less_def)

lemma le_limb_iff: "(a :: limb) \<le> b \<longleftrightarrow> uint a \<le> uint b"
  by (simp add: word_le_def)

lemma eq_limb_iff: "(a :: limb) = b \<longleftrightarrow> uint a = uint b"
  by (simp add: word_uint_eq_iff)

lemma limb_eq_0_iff: "(a :: limb) = 0 \<longleftrightarrow> uint a = 0"
  by (simp add: eq_limb_iff)

lemma limb_ne_0_iff: "(a :: limb) \<noteq> 0 \<longleftrightarrow> 0 < uint a"
  unfolding limb_eq_0_iff using uint_ge_0 [of a] by linarith

lemma uint_of_bool_limb [limb_simps, simp]: "uint (of_bool b :: limb) = of_bool b"
  by simp

lemma uint_neg_limb [limb_simps]:
  "uint (- (a :: limb)) = (if a = 0 then 0 else B - uint a)"
proof -
  have "uint (0 - a) = (if uint a \<le> uint (0 :: limb) then uint (0 :: limb) - uint a
      else uint (0 :: limb) - uint a + B)"
    by (rule uint_sub_limb)
  then show ?thesis using uint_ge_0 [of a] by (auto simp: eq_limb_iff)
qed

lemma uint_not_limb [limb_simps]: "uint (NOT (a :: limb)) = B - 1 - uint a"
proof -
  have le: "1 \<le> B - uint a" using uint_lt_B [of a] by linarith
  have "NOT a = - a - 1" by (simp add: not_eq_complement)
  then have "uint (NOT a) = uint (- a - 1)" by simp
  also have "\<dots> = B - 1 - uint a"
    using le
    by (simp add: uint_sub_limb uint_neg_limb limb_eq_0_iff)
  finally show ?thesis .
qed

lemma uint_limb_max: "uint (- 1 :: limb) = B - 1"
  using uint_not_limb [of 0] by simp

lemma sint_limb: "sint (x :: limb) = (if uint x < 2 ^ 63 then uint x else uint x - B)"
proof -
  have "sint x = (uint x + 2 ^ 63) mod B - 2 ^ 63"
    by (simp add: sint_uint signed_take_bit_eq_take_bit_shift take_bit_eq_mod B_def)
  moreover have "(uint x + 2 ^ 63) mod B = (if uint x < 2 ^ 63 then uint x + 2 ^ 63 else uint x + 2 ^ 63 - B)"
    using uint_lt_B [of x] by (subst mod_add_if_z) (auto simp: B_def)
  ultimately show ?thesis by (simp split: if_splits)
qed

lemma uint_of_int_limb: "0 \<le> k \<Longrightarrow> k < B \<Longrightarrow> uint (word_of_int k :: limb) = k"
  by (simp add: B_def uint_word_of_int)

lemma take_bit_uint_limb [simp]: "take_bit 64 (uint (x :: limb)) = uint x"
  using uint_bounded [of x] by (intro take_bit_int_eq_self) simp_all

lemma uint_drop_limb [limb_simps]: "uint (drop_bit n (x :: limb)) = uint x div 2 ^ n"
  by (simp add: unsigned_drop_bit_eq flip: drop_bit_eq_div)

lemma uint_take_limb [limb_simps]: "uint (take_bit n (x :: limb)) = uint x mod 2 ^ n"
  by (simp add: unsigned_take_bit_eq flip: take_bit_eq_mod)

lemma uint_push_limb [limb_simps]: "uint (push_bit n (x :: limb)) = uint x * 2 ^ n mod B"
proof -
  have "uint (push_bit n x) = take_bit 64 (push_bit n (uint x))"
    by (simp add: unsigned_push_bit_eq)
  then show ?thesis by (simp only: take_bit_eq_mod push_bit_eq_mult B_def)
qed

lemma uint_mult_limb_no_overflow:
  "uint (a :: limb) * uint b < B \<Longrightarrow> uint (a * b) = uint a * uint b"
  by (simp add: uint_word_ariths(3) B_def)

lemma uint_add_limb_no_overflow:
  "uint (a :: limb) + uint b < B \<Longrightarrow> uint (a + b) = uint a + uint b"
  by (simp add: uint_add_limb)

text \<open>The carry and borrow tests of the C code.\<close>

lemma add_limb_carry_left: "(a :: limb) + b < a \<longleftrightarrow> B \<le> uint a + uint b"
  using uint_lt_B [of b] uint_ge_0 [of b] by (auto simp: less_limb_iff uint_add_limb)

lemma add_limb_carry_right: "(a :: limb) + b < b \<longleftrightarrow> B \<le> uint a + uint b"
  using add_limb_carry_left [of b a] by (simp add: add.commute)

lemma sub_limb_borrow: "(a :: limb) < a - b \<longleftrightarrow> uint a < uint b"
  using uint_lt_B [of b] uint_ge_0 [of b] by (auto simp: less_limb_iff uint_sub_limb)

lemma add_limb_value: "uint ((a :: limb) + b) = uint a + uint b - of_bool (B \<le> uint a + uint b) * B"
  by (simp add: uint_add_limb)

lemma sub_limb_value: "uint ((a :: limb) - b) = uint a - uint b + of_bool (uint a < uint b) * B"
  by (simp add: uint_sub_limb)

text \<open>A carry or borrow limb is 0 or 1.\<close>

lemma limb_le_1_cases: "(c :: limb) \<le> 1 \<Longrightarrow> c = 0 \<or> c = 1"
  using uint_ge_0 [of c] unfolding le_limb_iff eq_limb_iff uint_0_eq uint_1_eq by linarith

lemma or_of_bool_limb: "(of_bool p OR of_bool q :: limb) = of_bool (p \<or> q)"
  by (cases p; cases q) simp_all

subsection \<open>Limb vectors\<close>

primrec lval :: "limb list \<Rightarrow> int" where
  "lval [] = 0"
| "lval (x # xs) = uint x + B * lval xs"

lemma lval_nonneg [simp]: "0 \<le> lval xs"
  by (induction xs) auto

lemma lval_lt [simp]: "lval xs < B ^ length xs"
proof (induction xs)
  case Nil
  then show ?case by simp
next
  case (Cons x xs)
  have "uint x + B * lval xs < B + B * lval xs" by simp
  also have "\<dots> = B * (lval xs + 1)" by (simp add: algebra_simps)
  also have "\<dots> \<le> B * B ^ length xs"
    using Cons by (intro mult_left_mono) auto
  finally show ?case by simp
qed

lemma lval_append [lval_simps]: "lval (xs @ ys) = lval xs + B ^ length xs * lval ys"
  by (induction xs) (auto simp: algebra_simps)

lemma lval_replicate_0 [simp]: "lval (replicate n 0) = 0"
  by (induction n) auto

lemma lval_eq_0_iff: "lval xs = 0 \<longleftrightarrow> (\<forall>x \<in> set xs. x = 0)"
proof (induction xs)
  case (Cons x xs)
  have "uint x + B * lval xs = 0 \<longleftrightarrow> uint x = 0 \<and> B * lval xs = 0"
    by (intro add_nonneg_eq_0_iff) auto
  with Cons show ?case by (simp add: limb_eq_0_iff)
qed simp

lemma lval_take_drop: "lval xs = lval (take n xs) + B ^ min (length xs) n * lval (drop n xs)"
  using lval_append [of "take n xs" "drop n xs"] by simp

lemma lval_mod_B: "lval (x # xs) mod B = uint x"
  by simp

lemma lval_snoc: "lval (xs @ [x]) = lval xs + B ^ length xs * uint x"
  by (simp add: lval_append)

lemma lval_butlast_last:
  "xs \<noteq> [] \<Longrightarrow> lval xs = lval (butlast xs) + B ^ (length xs - 1) * uint (last xs)"
  using lval_snoc [of "butlast xs" "last xs"] by simp

lemma lval_ge_of_last:
  assumes "xs \<noteq> []" "last xs \<noteq> 0"
  shows "B ^ (length xs - 1) \<le> lval xs"
proof -
  have "1 \<le> uint (last xs)"
    using assms(2) by (simp add: limb_ne_0_iff)
  then have "B ^ (length xs - 1) * 1 \<le> B ^ (length xs - 1) * uint (last xs)"
    by (intro mult_left_mono) auto
  then show ?thesis
    using lval_butlast_last [OF assms(1)] lval_nonneg [of "butlast xs"] by linarith
qed

lemma lval_pos_of_last: "xs \<noteq> [] \<Longrightarrow> last xs \<noteq> 0 \<Longrightarrow> 0 < lval xs"
  by (rule less_le_trans [OF _ lval_ge_of_last]) auto

lemma lval_cong_length:
  "length xs = length ys \<Longrightarrow> lval xs = lval ys \<Longrightarrow> xs = ys"
proof (induction xs ys rule: list_induct2)
  case (Cons x xs y ys)
  have "uint x = uint y"
  proof -
    have "uint z = lval (z # zs) mod B" for z zs
      by (simp add: mod_pos_pos_trivial)
    with Cons.prems show ?thesis by metis
  qed
  with Cons.prems have "lval xs = lval ys" by simp
  with Cons.IH \<open>uint x = uint y\<close> show ?case by (simp add: eq_limb_iff)
qed simp

lemma lval_shorter_lt:
  assumes "length xs < length ys" "last ys \<noteq> 0"
  shows "lval xs < lval ys"
proof -
  have "lval xs < B ^ length xs" by simp
  also have "\<dots> \<le> B ^ (length ys - 1)"
    using assms(1) B_gt_1 by (intro power_increasing) auto
  also have "\<dots> \<le> lval ys"
    using assms by (intro lval_ge_of_last) auto
  finally show ?thesis .
qed

end
