(* ===== verification/Longlong.thy ===== *)
theory Longlong
  imports Limb_Prelude
begin

text \<open>
  The portable double-limb primitives of \<^verbatim>\<open>mpir/longlong.h\<close>: the two-limb sum and
  difference, the 64x64 to 128 bit product built from half-limb products, and the
  128 by 64 bit division built from two half-limb estimation steps.
\<close>

definition ll_B :: limb where
  "ll_B = push_bit 32 1"

definition ll_lowpart :: "limb \<Rightarrow> limb" where
  "ll_lowpart t = t AND (ll_B - 1)"

definition ll_highpart :: "limb \<Rightarrow> limb" where
  "ll_highpart t = drop_bit 32 t"

definition add_ssaaaa :: "limb \<Rightarrow> limb \<Rightarrow> limb \<Rightarrow> limb \<Rightarrow> limb \<times> limb" where
  "add_ssaaaa ah al bh bl =
     (let x = al + bl in (ah + bh + of_bool (x < al), x))"

definition sub_ddmmss :: "limb \<Rightarrow> limb \<Rightarrow> limb \<Rightarrow> limb \<Rightarrow> limb \<times> limb" where
  "sub_ddmmss ah al bh bl =
     (let x = al - bl in (ah - bh - of_bool (al < bl), x))"

definition umul_ppmm :: "limb \<Rightarrow> limb \<Rightarrow> limb \<times> limb" where
  "umul_ppmm u v =
     (let ul = ll_lowpart u; uh = ll_highpart u;
          vl = ll_lowpart v; vh = ll_highpart v;
          x0 = ul * vl; x1 = ul * vh; x2 = uh * vl; x3 = uh * vh;
          x1 = x1 + ll_highpart x0;
          x1 = x1 + x2;
          x3 = (if x1 < x2 then x3 + ll_B else x3)
      in (x3 + ll_highpart x1, push_bit 32 x1 + ll_lowpart x0))"

subsection \<open>Half limbs\<close>

lemma uint_ll_lowpart: "uint (ll_lowpart t) = uint t mod 2 ^ 32"
proof -
  have "ll_lowpart t = take_bit 32 t"
    by (simp only: ll_lowpart_def ll_B_def take_bit_eq_mask mask_eq_exp_minus_1 push_bit_eq_mult
        mult_1)
  then show ?thesis
    by (simp only: uint_take_limb)
qed

lemma uint_ll_highpart: "uint (ll_highpart t) = uint t div 2 ^ 32"
  by (simp only: ll_highpart_def uint_drop_limb)

lemma uint_ll_B: "uint ll_B = 2 ^ 32"
  by (simp add: ll_B_def)

subsection \<open>Product\<close>

text \<open>The half-limb product on integers, with the carry out of the middle sum.\<close>

lemma half_limb_product:
  fixes ul uh vl vh h s c :: int
  assumes h: "0 < h" and b: "0 \<le> ul" "ul < h" "0 \<le> vl" "vl < h"
    and s: "s = ul * vh + (ul * vl) div h + uh * vl"
  shows "(uh * vh + c * h + (s - c * (h * h)) div h) * (h * h)
       + ((s - c * (h * h)) mod h * h + (ul * vl) mod h) = (uh * h + ul) * (vh * h + vl)"
proof -
  let ?t = "s - c * (h * h)"
  have t: "?t div h * h + ?t mod h = ?t" by simp
  have x: "(ul * vl) div h * h + (ul * vl) mod h = ul * vl" by simp
  have "(uh * vh + c * h + ?t div h) * (h * h) + (?t mod h * h + (ul * vl) mod h)
      = uh * vh * (h * h) + c * (h * h) * h + (?t div h * h + ?t mod h) * h + (ul * vl) mod h"
    by algebra
  also have "\<dots> = uh * vh * (h * h) + s * h + (ul * vl) mod h"
    unfolding t by algebra
  also have "\<dots> = uh * vh * (h * h) + (ul * vh + uh * vl) * h
      + ((ul * vl) div h * h + (ul * vl) mod h)"
    unfolding s by algebra
  also have "\<dots> = (uh * h + ul) * (vh * h + vl)"
    unfolding x by algebra
  finally show ?thesis .
qed

lemma mult_le_of_half:
  fixes a b h :: int
  assumes "0 \<le> a" "a < h" "0 \<le> b" "b < h"
  shows "a * b \<le> (h - 1) * (h - 1)"
  using assms by (intro mult_mono) auto

lemma umul_ppmm_value:
  assumes "umul_ppmm u v = (w1, w0)"
  shows "uint w1 * B + uint w0 = uint u * uint v"
proof -
  define h :: int where "h = 2 ^ 32"
  have hB: "B = h * h" by (simp add: h_def B_def)
  have h0: "0 < h" by (simp add: h_def)
  define ul uh vl vh where "ul = uint u mod h" and "uh = uint u div h"
    and "vl = uint v mod h" and "vh = uint v div h"
  note defs = ul_def uh_def vl_def vh_def
  have hi: "x div h < h" if "x < B" for x
    using that h0 by (simp add: hB zdiv_lt_iff)
  have bnd: "0 \<le> ul" "ul < h" "0 \<le> vl" "vl < h" "0 \<le> uh" "uh < h" "0 \<le> vh" "vh < h"
    using h0 by (auto simp: defs hi pos_imp_zdiv_nonneg_iff)
  have uv: "uint u = uh * h + ul" "uint v = vh * h + vl"
    by (simp_all add: defs)
  have m: "a * b < B" if "0 \<le> a" "a < h" "0 \<le> b" "b < h" for a b
    using mult_le_of_half [OF that] h0 by (simp add: hB algebra_simps)
  define s where "s = ul * vh + (ul * vl) div h + uh * vl"
  define c :: int where "c = of_bool (B \<le> s)"
  have x0: "uint (ll_lowpart u * ll_lowpart v) = ul * vl"
    using m [OF bnd(1-4)]
    by (subst uint_mult_limb_no_overflow) (simp_all add: uint_ll_lowpart defs h_def)
  have x1: "uint (ll_lowpart u * ll_highpart v) = ul * vh"
    using m [OF bnd(1,2,7,8)]
    by (subst uint_mult_limb_no_overflow) (simp_all add: uint_ll_lowpart uint_ll_highpart defs h_def)
  have x2: "uint (ll_highpart u * ll_lowpart v) = uh * vl"
    using m [OF bnd(5,6,3,4)]
    by (subst uint_mult_limb_no_overflow) (simp_all add: uint_ll_lowpart uint_ll_highpart defs h_def)
  have x3: "uint (ll_highpart u * ll_highpart v) = uh * vh"
    using m [OF bnd(5-8)]
    by (subst uint_mult_limb_no_overflow) (simp_all add: uint_ll_highpart defs h_def)
  have dh: "(ul * vl) div h \<le> h - 1"
    unfolding zle_diff1_eq using m [OF bnd(1-4)] h0 by (simp add: hB zdiv_lt_iff)
  have dh0: "0 \<le> (ul * vl) div h" using bnd h0 by (simp add: pos_imp_zdiv_nonneg_iff)
  have y1: "uint (ll_lowpart u * ll_highpart v + ll_highpart (ll_lowpart u * ll_lowpart v))
      = ul * vh + (ul * vl) div h"
  proof (subst uint_add_limb_no_overflow)
    show "uint (ll_lowpart u * ll_highpart v) + uint (ll_highpart (ll_lowpart u * ll_lowpart v)) < B"
      unfolding x1 uint_ll_highpart x0 hB h_def [symmetric]
      using mult_le_of_half [OF bnd(1,2,7,8)] dh h0 by (simp add: algebra_simps)
  qed (simp add: x1 uint_ll_highpart x0 h_def)
  let ?x1 = "ll_lowpart u * ll_highpart v + ll_highpart (ll_lowpart u * ll_lowpart v)
      + ll_highpart u * ll_lowpart v"
  have uhvl: "0 \<le> uh * vl" "uh * vl < B" using m [OF bnd(5,6,3,4)] bnd by simp_all
  have y2: "uint ?x1 = s - c * B" and cc: "?x1 < ll_highpart u * ll_lowpart v \<longleftrightarrow> c = 1"
    unfolding add_limb_value [of _ "ll_highpart u * ll_lowpart v"] add_limb_carry_right y1 x2
    by (simp_all add: s_def c_def)
  let ?t = "s - c * B"
  have tm: "0 \<le> ?t mod h" "?t mod h \<le> h - 1" "0 \<le> (ul * vl) mod h" "(ul * vl) mod h \<le> h - 1"
    unfolding zle_diff1_eq using h0 by simp_all
  let ?w0 = "push_bit 32 ?x1 + ll_lowpart (ll_lowpart u * ll_lowpart v)"
  have ps: "uint (push_bit 32 ?x1) = ?t mod h * h"
    unfolding uint_push_limb y2 hB h_def [symmetric] by (rule mod_mult_mult2)
  have "?t mod h * h \<le> (h - 1) * h" using tm h0 by (intro mult_right_mono) simp_all
  moreover have "(h - 1) * h = B - h" unfolding hB by algebra
  ultimately have le: "?t mod h * h \<le> B - h" by simp
  have lo: "uint (ll_lowpart (ll_lowpart u * ll_lowpart v)) = (ul * vl) mod h"
    unfolding uint_ll_lowpart x0 h_def ..
  have "uint (push_bit 32 ?x1) + uint (ll_lowpart (ll_lowpart u * ll_lowpart v)) < B"
    unfolding ps lo using le tm(4) by linarith
  then have w0: "uint ?w0 = ?t mod h * h + (ul * vl) mod h"
    by (simp only: uint_add_limb_no_overflow ps lo)
  let ?W1 = "uh * vh + c * h + ?t div h"
  have eq: "?W1 * B + (?t mod h * h + (ul * vl) mod h) = uint u * uint v"
    unfolding uv hB using half_limb_product [OF h0 bnd(1-4) s_def, of c] by simp
  have "uint u * uint v < B * B"
    by (intro mult_strict_mono) simp_all
  have "0 \<le> ?t mod h * h + (ul * vl) mod h" using tm h0 by simp
  with eq \<open>uint u * uint v < B * B\<close> have "?W1 * B < B * B" by linarith
  then have W1: "?W1 < B" by simp
  have t0: "0 \<le> ?t div h" using y2 uint_ge_0 [of ?x1] h0 by (simp add: pos_imp_zdiv_nonneg_iff)
  have c01: "c = 0 \<or> c = 1" by (simp add: c_def)
  have llB: "uint ll_B = h" unfolding uint_ll_B h_def ..
  let ?x3 = "if ?x1 < ll_highpart u * ll_lowpart v then ll_highpart u * ll_highpart v + ll_B
      else ll_highpart u * ll_highpart v"
  have x3': "uint ?x3 = uh * vh + c * h"
    using c01 W1 t0 by (auto simp: cc uint_add_limb x3 llB)
  have w1: "uint (?x3 + ll_highpart ?x1) = ?W1"
    using W1 by (subst uint_add_limb_no_overflow) (simp_all only: x3' uint_ll_highpart y2 h_def)
  have "w1 = ?x3 + ll_highpart ?x1" "w0 = ?w0"
    using assms by (simp_all add: umul_ppmm_def Let_def)
  with eq w0 w1 show ?thesis by simp
qed

lemma umul_ppmm_high_lt:
  assumes "umul_ppmm u v = (w1, w0)"
  shows "uint w1 \<le> B - 2"
proof -
  have "uint u * uint v \<le> (B - 1) * (B - 1)" by (rule mult_le_of_half) simp_all
  then have "uint w1 * B \<le> (B - 1) * (B - 1)"
    using umul_ppmm_value [OF assms] uint_ge_0 [of w0] by linarith
  also have "\<dots> < (B - 1) * B" by simp
  finally have "uint w1 < B - 1" by simp
  then show ?thesis by simp
qed

subsection \<open>Counting zeros (longlong.h, mp\_clz\_tab.c)\<close>

definition clz_tab :: "nat list" where
  "clz_tab = [1, 2, 3, 3] @ replicate 4 4 @ replicate 8 5 @ replicate 16 6 @ replicate 32 7 @ replicate 64 8"

fun clz_loop :: "limb \<Rightarrow> nat \<Rightarrow> nat" where
  "clz_loop xr a =
     (if a > 0 then if drop_bit a xr AND 0xff \<noteq> 0 then a else clz_loop xr (a - 8) else a)"

declare clz_loop.simps [simp del]

definition count_leading_zeros :: "limb \<Rightarrow> nat" where
  "count_leading_zeros x = (let a = clz_loop x (64 - 8) + 1 in 64 + 1 - a - clz_tab ! unat (drop_bit a x))"

definition count_trailing_zeros :: "limb \<Rightarrow> nat" where
  "count_trailing_zeros x = (let c = count_leading_zeros (x AND - x) in 64 - 1 - c)"

text \<open>The table holds bit lengths, plus one.\<close>

lemma clz_tab_spec:
  assumes "k < 128"
  shows "1 \<le> clz_tab ! k" "clz_tab ! k \<le> 8" "k < 2 ^ (clz_tab ! k - 1)"
    and "k \<noteq> 0 \<Longrightarrow> 2 \<le> clz_tab ! k \<and> 2 ^ (clz_tab ! k - 2) \<le> k"
proof -
  have "list_all (\<lambda>k. 1 \<le> clz_tab ! k \<and> clz_tab ! k \<le> 8 \<and> k < 2 ^ (clz_tab ! k - 1) \<and>
      (k \<noteq> 0 \<longrightarrow> 2 \<le> clz_tab ! k \<and> 2 ^ (clz_tab ! k - 2) \<le> k)) [0..<128]"
    by code_simp
  then show "1 \<le> clz_tab ! k" "clz_tab ! k \<le> 8" "k < 2 ^ (clz_tab ! k - 1)"
    "k \<noteq> 0 \<Longrightarrow> 2 \<le> clz_tab ! k \<and> 2 ^ (clz_tab ! k - 2) \<le> k"
    using assms by (auto simp: list_all_iff)
qed

lemma and_ff_limb: "x AND 0xff = 0 \<longleftrightarrow> uint (x :: limb) mod 2 ^ 8 = 0"
proof -
  have "x AND 0xff = take_bit 8 x" by (simp add: take_bit_eq_mask mask_eq_exp_minus_1)
  then show ?thesis by (simp only: limb_eq_0_iff uint_take_limb)
qed

lemma clz_loop_spec:
  assumes "uint x < 2 ^ (a + 8)" "8 dvd a" "x \<noteq> 0" "r = clz_loop x a"
  shows "r \<le> a \<and> uint x < 2 ^ (r + 8) \<and> 2 ^ r \<le> uint x"
  using assms
proof (induction x a arbitrary: r rule: clz_loop.induct)
  case (1 x a)
  let ?q = "uint x div 2 ^ a"
  have q: "?q mod 2 ^ 8 = ?q"
  proof (rule mod_pos_pos_trivial)
    show "0 \<le> ?q" by (simp add: pos_imp_zdiv_nonneg_iff)
    show "?q < 2 ^ 8" using 1(2) by (simp add: zdiv_lt_iff power_add mult.commute)
  qed
  have nz: "drop_bit a x AND 0xff \<noteq> 0 \<longleftrightarrow> 2 ^ a \<le> uint x"
    unfolding and_ff_limb uint_drop_limb q
    using pos_imp_zdiv_pos_iff [of "2 ^ a" "uint x"] pos_imp_zdiv_nonneg_iff [of "2 ^ a" "uint x"] 
    by auto
  show ?case
  proof (cases "a > 0 \<and> \<not> 2 ^ a \<le> uint x")
    case True
    then have a: "8 \<le> a" using 1(3) by (auto dest: dvd_imp_le)
    then have a8: "uint x < 2 ^ (a - 8 + 8)" "8 dvd a - 8" using True 1(3) by auto
    have "r = clz_loop x (a - 8)" using True nz 1(5) by (simp add: clz_loop.simps [of x a])
    then show ?thesis using 1(1) [OF _ _ a8 1(4)] True nz by fastforce
  next
    case False
    then have "r = a" using nz 1(5) by (auto simp: clz_loop.simps [of x a])
    then show ?thesis using False 1(2,4) by (auto simp: limb_ne_0_iff)
  qed
qed

lemma count_leading_zeros_spec:
  assumes "x \<noteq> 0"
  shows "count_leading_zeros x < 64" "2 ^ (63 - count_leading_zeros x) \<le> uint x"
    "uint x < 2 ^ (64 - count_leading_zeros x)"
proof -
  define a where "a = clz_loop x 56"
  define k where "k = uint x div 2 ^ (a + 1)"
  define t where "t = clz_tab ! nat k"
  have a: "a \<le> 56" "uint x < 2 ^ (a + 8)" "2 ^ a \<le> uint x"
    using clz_loop_spec [of x 56 a] assms uint_lt_B [of x] by (auto simp: a_def B_def)
  have k: "0 \<le> k" "k < 128"
    using a(2) by (auto simp: k_def zdiv_lt_iff power_add pos_imp_zdiv_nonneg_iff)
  have x: "k * 2 ^ (a + 1) \<le> uint x" "uint x < (k + 1) * 2 ^ (a + 1)"
  proof -
    have "uint x = k * 2 ^ (a + 1) + uint x mod 2 ^ (a + 1)"
      unfolding k_def by (rule div_mult_mod_eq [symmetric])
    moreover have "0 \<le> uint x mod 2 ^ (a + 1)" "uint x mod 2 ^ (a + 1) < 2 ^ (a + 1)" by auto
    ultimately show "k * 2 ^ (a + 1) \<le> uint x" "uint x < (k + 1) * 2 ^ (a + 1)"
      unfolding distrib_right by linarith+
  qed
  have c: "count_leading_zeros x = 64 - a - t"
    by (simp add: count_leading_zeros_def a_def [symmetric] t_def k_def unat_eq_nat_uint uint_drop_limb)
  note tab = clz_tab_spec [of "nat k", folded t_def]
  have t: "1 \<le> t" "t \<le> 8" "nat k < 2 ^ (t - 1)" using tab k by auto
  then have kt: "k + 1 \<le> 2 ^ (t - 1)" using k by (simp add: nat_less_iff)
  show "count_leading_zeros x < 64" using a t unfolding c by simp
  have "(k + 1) * 2 ^ (a + 1) \<le> 2 ^ (t - 1) * 2 ^ (a + 1)"
    using kt by (intro mult_right_mono) auto
  also have "\<dots> = 2 ^ (64 - count_leading_zeros x)"
    unfolding c power_add [symmetric] using a(1) t by (intro arg_cong [where f = "\<lambda>n. 2 ^ n"]) simp
  finally show "uint x < 2 ^ (64 - count_leading_zeros x)" using x(2) by linarith
  show "2 ^ (63 - count_leading_zeros x) \<le> uint x"
  proof (cases "k = 0")
    case True
    then have "t = 1" by (simp add: t_def clz_tab_def)
    then show ?thesis using a unfolding c by simp
  next
    case False
    then have t2: "2 \<le> t" "(2 :: int) ^ (t - 2) \<le> k"
      using tab(4) k by (auto simp: le_nat_iff)
    have "63 - count_leading_zeros x = (t - 2) + (a + 1)" unfolding c using a(1) t t2 by simp
    then have "(2 :: int) ^ (63 - count_leading_zeros x) = 2 ^ (t - 2) * 2 ^ (a + 1)"
      by (simp add: power_add)
    also have "\<dots> \<le> k * 2 ^ (a + 1)" using t2 by (intro mult_right_mono) auto
    finally show ?thesis using x(1) by linarith
  qed
qed

text \<open>The lowest set bit of a number: \<open>k - 1\<close> has the same bits above it and ones below.\<close>

lemma bit_pred_lowest:
  fixes k :: int
  assumes "bit k t" "\<And>j. j < t \<Longrightarrow> \<not> bit k j"
  shows "bit (k - 1) n \<longleftrightarrow> (if n < t then True else n \<noteq> t \<and> bit k n)"
proof -
  let ?h = "push_bit (Suc t) (drop_bit (Suc t) k)"
  have "k = ?h OR push_bit t 1"
  proof (rule bit_eqI)
    fix n
    show "bit k n = bit (?h OR push_bit t 1) n"
      using assms by (cases n t rule: linorder_cases)
        (auto simp: bit_or_iff bit_push_bit_iff bit_drop_bit_eq bit_exp_iff simp del: push_bit_Suc)
  qed
  also have "\<dots> = ?h + push_bit t 1"
    by (rule disjunctive_add_eq_or [symmetric], rule bit_eqI)
      (auto simp: bit_and_iff bit_push_bit_iff bit_exp_iff simp del: push_bit_Suc)
  finally have "k - 1 = ?h + mask t" by (simp add: mask_eq_exp_minus_1 push_bit_eq_mult)
  also have "\<dots> = ?h OR mask t"
    by (rule disjunctive_add_eq_or) (auto simp: bit_eq_iff bit_simps)
  finally have "bit (k - 1) n \<longleftrightarrow> bit (?h OR mask t) n" by simp
  then show ?thesis
    by (cases n t rule: linorder_cases)
      (auto simp: bit_or_iff bit_push_bit_iff bit_drop_bit_eq bit_mask_iff simp del: push_bit_Suc)
qed

lemma isolate_lowest_bit:
  fixes x :: limb
  assumes "bit x t" "\<And>j. j < t \<Longrightarrow> \<not> bit x j"
  shows "uint (x AND - x) = 2 ^ t"
proof -
  have t: "t < 64" using bit_imp_le_length [OF assms(1)] by simp
  have x0: "x \<noteq> 0" using assms(1) by auto
  then have u: "uint (x - 1) = uint x - 1" by (simp add: uint_sub_limb limb_ne_0_iff)
  have "bit (x AND - x) n \<longleftrightarrow> n = t" for n
  proof (cases "n < 64")
    case True
    have "bit (x - 1) n \<longleftrightarrow> bit (uint x - 1) n" using True by (simp add: bit_uint_iff flip: u)
    also have "\<dots> \<longleftrightarrow> (if n < t then True else n \<noteq> t \<and> bit (uint x) n)"
      using assms t by (intro bit_pred_lowest) (auto simp: bit_uint_iff)
    finally show ?thesis
      using True assms by (auto simp: minus_eq_not_minus_1 bit_simps)
  qed (use t in \<open>auto simp: bit_simps dest: bit_imp_le_length\<close>)
  then have "x AND - x = push_bit t 1" using t by (intro bit_eqI) (auto simp: bit_simps bit_1_iff)
  then have "uint (x AND - x) = 2 ^ t mod B" by (simp only: uint_push_limb) simp
  also have "(2 :: int) ^ t < B" using t unfolding B_def by (intro power_strict_increasing) auto
  then have "2 ^ t mod B = 2 ^ t" by simp
  finally show ?thesis .
qed

lemma lowest_bit_exists:
  fixes x :: limb
  assumes "x \<noteq> 0"
  obtains t where "bit x t" "\<And>j. j < t \<Longrightarrow> \<not> bit x j"
proof -
  obtain n where "bit x n" using assms by (metis bit_0_eq bit_eqI bot_apply bot_bool_def)
  then show thesis using that exists_least_iff [of "bit x"] by auto
qed

lemma count_trailing_zeros_eq:
  fixes x :: limb
  assumes "bit x t" "\<And>j. j < t \<Longrightarrow> \<not> bit x j"
  shows "count_trailing_zeros x = t"
proof -
  let ?c = "count_leading_zeros (x AND - x)"
  have u: "uint (x AND - x) = 2 ^ t" by (rule isolate_lowest_bit [OF assms])
  then have ne: "x AND - x \<noteq> 0" by (metis power_not_zero unsigned_0 zero_neq_numeral)
  note c = count_leading_zeros_spec [OF ne, unfolded u]
  have "63 - ?c \<le> t" using c(2) by simp
  moreover have "t < 64 - ?c" using c(3) by simp
  ultimately show ?thesis using c(1) by (simp add: count_trailing_zeros_def)
qed

lemma count_trailing_zeros_spec:
  fixes x :: limb
  assumes "x \<noteq> 0"
  shows "bit x (count_trailing_zeros x)" "j < count_trailing_zeros x \<Longrightarrow> \<not> bit x j"
    "count_trailing_zeros x < 64"
proof -
  obtain t where t: "bit x t" "\<And>j. j < t \<Longrightarrow> \<not> bit x j" using lowest_bit_exists [OF assms] by blast
  note c = count_trailing_zeros_eq [OF t]
  show "bit x (count_trailing_zeros x)" "j < count_trailing_zeros x \<Longrightarrow> \<not> bit x j"
    using t by (simp_all add: c)
  show "count_trailing_zeros x < 64" using bit_imp_le_length [OF t(1)] by (simp add: c)
qed

end
