(* ===== verification/Mpn_Arith.thy ===== *)
theory Mpn_Arith
  imports Longlong
begin

text \<open>
  The linear-time arithmetic kernels of \<^verbatim>\<open>mpir/mpn/generic\<close> and the inline kernels of
  \<^verbatim>\<open>mpir/gmp-h.in\<close>. An operand \<^verbatim>\<open>{up, n}\<close> is the list of its \<^verbatim>\<open>n\<close> limbs, least
  significant first; a kernel returns the list of limbs it stores at \<^verbatim>\<open>rp\<close> together with
  the carry, borrow or high limb it returns. The kernels read each limb before they store at
  the same index, so the list that is read is also the right operand when \<^verbatim>\<open>rp\<close> coincides
  with a source, as their overlap contract allows.
\<close>

subsection \<open>Addition and subtraction of equal sizes (add_n.c, sub_n.c)\<close>

definition add_n_step :: "limb \<Rightarrow> limb \<Rightarrow> limb \<Rightarrow> limb \<times> limb" where
  "add_n_step cy ul vl =
     (let sl = ul + vl;
          cy1 = of_bool (sl < ul);
          rl = sl + cy;
          cy2 = of_bool (rl < sl)
      in (rl, cy1 OR cy2))"

fun add_n_loop :: "limb \<Rightarrow> limb list \<Rightarrow> limb list \<Rightarrow> limb list \<times> limb" where
  "add_n_loop cy (ul # up) (vl # vp) =
     (let s = add_n_step cy ul vl; r = add_n_loop (snd s) up vp in (fst s # fst r, snd r))"
| "add_n_loop cy _ _ = ([], cy)"

definition mpn_add_n :: "limb list \<Rightarrow> limb list \<Rightarrow> limb list \<times> limb" where
  "mpn_add_n up vp = add_n_loop 0 up vp"

definition sub_n_step :: "limb \<Rightarrow> limb \<Rightarrow> limb \<Rightarrow> limb \<times> limb" where
  "sub_n_step cy ul vl =
     (let sl = ul - vl;
          cy1 = of_bool (sl > ul);
          rl = sl - cy;
          cy2 = of_bool (rl > sl)
      in (rl, cy1 OR cy2))"

fun sub_n_loop :: "limb \<Rightarrow> limb list \<Rightarrow> limb list \<Rightarrow> limb list \<times> limb" where
  "sub_n_loop cy (ul # up) (vl # vp) =
     (let s = sub_n_step cy ul vl; r = sub_n_loop (snd s) up vp in (fst s # fst r, snd r))"
| "sub_n_loop cy _ _ = ([], cy)"

definition mpn_sub_n :: "limb list \<Rightarrow> limb list \<Rightarrow> limb list \<times> limb" where
  "mpn_sub_n up vp = sub_n_loop 0 up vp"

lemma length_add_n_loop [simp]:
  "length (fst (add_n_loop cy up vp)) = min (length up) (length vp)"
  by (induction cy up vp rule: add_n_loop.induct) (auto simp: Let_def)

lemma length_sub_n_loop [simp]:
  "length (fst (sub_n_loop cy up vp)) = min (length up) (length vp)"
  by (induction cy up vp rule: sub_n_loop.induct) (auto simp: Let_def)

lemma length_mpn_add_n [simp]: "length (fst (mpn_add_n up vp)) = min (length up) (length vp)"
  by (simp add: mpn_add_n_def)

lemma length_mpn_sub_n [simp]: "length (fst (mpn_sub_n up vp)) = min (length up) (length vp)"
  by (simp add: mpn_sub_n_def)

text \<open>One step: the limb stored and the carry or borrow out of it.\<close>

lemma add_n_step_value:
  assumes "cy \<le> 1"
  shows "uint (fst (add_n_step cy ul vl)) + B * uint (snd (add_n_step cy ul vl))
       = uint ul + uint vl + uint cy"
  using limb_le_1_cases [OF assms]
  unfolding add_n_step_def Let_def fst_conv snd_conv or_of_bool_limb add_limb_carry_left
    add_limb_value uint_of_bool_limb
  by auto (use uint_lt_B [of ul] uint_lt_B [of vl] in linarith)+

lemma sub_n_step_value:
  assumes "cy \<le> 1"
  shows "uint (fst (sub_n_step cy ul vl)) - B * uint (snd (sub_n_step cy ul vl))
       = uint ul - uint vl - uint cy"
  using limb_le_1_cases [OF assms]
  unfolding sub_n_step_def Let_def fst_conv snd_conv or_of_bool_limb sub_limb_borrow
    sub_limb_value uint_of_bool_limb
  by auto (use uint_lt_B [of ul] uint_lt_B [of vl] uint_ge_0 [of ul] in linarith)+

lemma add_n_step_carry: "snd (add_n_step cy ul vl) \<le> 1"
  by (simp add: add_n_step_def Let_def or_of_bool_limb)

lemma sub_n_step_borrow: "snd (sub_n_step cy ul vl) \<le> 1"
  by (simp add: sub_n_step_def Let_def or_of_bool_limb)

text \<open>Chaining a step with the rest of the vector.\<close>

lemma lval_chain_add:
  fixes x y r c c' u v rs us vs :: int
  assumes "r + B * c' = u + v + c" "rs + P * k = us + vs + c'"
  shows "(r + B * rs) + B * P * k = (u + B * us) + (v + B * vs) + c"
proof -
  have "(r + B * rs) + B * P * k = r + B * (rs + P * k)" by algebra
  also have "\<dots> = (r + B * c') + B * us + B * vs" unfolding assms(2) by algebra
  finally show ?thesis unfolding assms(1) by algebra
qed

lemma lval_chain_sub:
  fixes x y r c c' u v rs us vs :: int
  assumes "r - B * c' = u - v - c" "rs - P * k = us - vs - c'"
  shows "(r + B * rs) - B * P * k = (u + B * us) - (v + B * vs) - c"
proof -
  have "(r + B * rs) - B * P * k = r + B * (rs - P * k)" by algebra
  also have "\<dots> = (r - B * c') + B * us - B * vs" unfolding assms(2) by algebra
  finally show ?thesis unfolding assms(1) by algebra
qed

lemma add_n_loop_value:
  "length up = length vp \<Longrightarrow> cy \<le> 1 \<Longrightarrow>
   lval (fst (add_n_loop cy up vp)) + B ^ length up * uint (snd (add_n_loop cy up vp))
     = lval up + lval vp + uint cy"
proof (induction cy up vp rule: add_n_loop.induct)
  case (1 cy ul up vl vp)
  from lval_chain_add [OF add_n_step_value [OF 1(3), of ul vl] 1(1) [OF refl]] 1(2)
  show ?case by (simp add: Let_def add_n_step_carry)
qed auto

lemma sub_n_loop_value:
  "length up = length vp \<Longrightarrow> cy \<le> 1 \<Longrightarrow>
   lval (fst (sub_n_loop cy up vp)) - B ^ length up * uint (snd (sub_n_loop cy up vp))
     = lval up - lval vp - uint cy"
proof (induction cy up vp rule: sub_n_loop.induct)
  case (1 cy ul up vl vp)
  from lval_chain_sub [OF sub_n_step_value [OF 1(3), of ul vl] 1(1) [OF refl]] 1(2)
  show ?case by (simp add: Let_def sub_n_step_borrow)
qed auto

lemma add_n_loop_carry: "cy \<le> 1 \<Longrightarrow> snd (add_n_loop cy up vp) \<le> 1"
  by (induction cy up vp rule: add_n_loop.induct) (auto simp: Let_def add_n_step_carry)

lemma sub_n_loop_borrow: "cy \<le> 1 \<Longrightarrow> snd (sub_n_loop cy up vp) \<le> 1"
  by (induction cy up vp rule: sub_n_loop.induct) (auto simp: Let_def sub_n_step_borrow)

lemma mpn_add_n_value:
  "length up = length vp \<Longrightarrow>
   lval (fst (mpn_add_n up vp)) + B ^ length up * uint (snd (mpn_add_n up vp)) = lval up + lval vp"
  using add_n_loop_value [of up vp 0] by (simp add: mpn_add_n_def)

lemma mpn_sub_n_value:
  "length up = length vp \<Longrightarrow>
   lval (fst (mpn_sub_n up vp)) - B ^ length up * uint (snd (mpn_sub_n up vp)) = lval up - lval vp"
  using sub_n_loop_value [of up vp 0] by (simp add: mpn_sub_n_def)

lemma mpn_add_n_carry: "snd (mpn_add_n up vp) \<le> 1"
  by (simp add: mpn_add_n_def add_n_loop_carry)

lemma mpn_sub_n_borrow: "snd (mpn_sub_n up vp) \<le> 1"
  by (simp add: mpn_sub_n_def sub_n_loop_borrow)

subsection \<open>Adding and subtracting one limb (\_\_GMPN\_AORS\_1)\<close>

fun aors_1_loop ::
  "(limb \<Rightarrow> limb \<Rightarrow> limb) \<Rightarrow> (limb \<Rightarrow> limb \<Rightarrow> limb \<Rightarrow> bool) \<Rightarrow> limb list \<Rightarrow> limb list \<times> limb"
where
  "aors_1_loop OP CB [] = ([], 1)"
| "aors_1_loop OP CB (x # src) =
     (let r = OP x 1
      in if \<not> CB r x 1 then (r # src, 0)
         else let s = aors_1_loop OP CB src in (r # fst s, snd s))"

definition gmpn_aors_1 ::
  "(limb \<Rightarrow> limb \<Rightarrow> limb) \<Rightarrow> (limb \<Rightarrow> limb \<Rightarrow> limb \<Rightarrow> bool) \<Rightarrow> limb list \<Rightarrow> limb \<Rightarrow> limb list \<times> limb"
where
  "gmpn_aors_1 OP CB src v =
     (case src of
        [] \<Rightarrow> ([], 0)
      | x # rest \<Rightarrow>
          (let r = OP x v
           in if CB r x v then (let s = aors_1_loop OP CB rest in (r # fst s, snd s))
              else (r # rest, 0)))"

definition gmpn_addcb :: "limb \<Rightarrow> limb \<Rightarrow> limb \<Rightarrow> bool" where
  "gmpn_addcb r x y \<longleftrightarrow> r < y"

definition gmpn_subcb :: "limb \<Rightarrow> limb \<Rightarrow> limb \<Rightarrow> bool" where
  "gmpn_subcb r x y \<longleftrightarrow> x < y"

definition mpn_add_1 :: "limb list \<Rightarrow> limb \<Rightarrow> limb list \<times> limb" where
  "mpn_add_1 src n = gmpn_aors_1 (+) gmpn_addcb src n"

definition mpn_sub_1 :: "limb list \<Rightarrow> limb \<Rightarrow> limb list \<times> limb" where
  "mpn_sub_1 src n = gmpn_aors_1 (-) gmpn_subcb src n"

subsection \<open>Adding and subtracting different sizes (\_\_GMPN\_AORS)\<close>

fun add_rest :: "limb list \<Rightarrow> limb list \<times> limb" where
  "add_rest [] = ([], 1)"
| "add_rest (x # xp) =
     (let w = x + 1 in if w = 0 then (let s = add_rest xp in (w # fst s, snd s)) else (w # xp, 0))"

fun sub_rest :: "limb list \<Rightarrow> limb list \<times> limb" where
  "sub_rest [] = ([], 1)"
| "sub_rest (x # xp) =
     (let w = x - 1 in if x = 0 then (let s = sub_rest xp in (w # fst s, snd s)) else (w # xp, 0))"

definition mpn_add :: "limb list \<Rightarrow> limb list \<Rightarrow> limb list \<times> limb" where
  "mpn_add xp yp =
     (let i = length yp
      in if i \<noteq> 0 then
           (let r = mpn_add_n (take i xp) yp
            in if snd r \<noteq> 0 then (let s = add_rest (drop i xp) in (fst r @ fst s, snd s))
               else (fst r @ drop i xp, 0))
         else (xp, 0))"

definition mpn_sub :: "limb list \<Rightarrow> limb list \<Rightarrow> limb list \<times> limb" where
  "mpn_sub xp yp =
     (let i = length yp
      in if i \<noteq> 0 then
           (let r = mpn_sub_n (take i xp) yp
            in if snd r \<noteq> 0 then (let s = sub_rest (drop i xp) in (fst r @ fst s, snd s))
               else (fst r @ drop i xp, 0))
         else (xp, 0))"

lemma length_aors_1_loop [simp]: "length (fst (aors_1_loop OP CB src)) = length src"
  by (induction src) (auto simp: Let_def)

lemma length_gmpn_aors_1 [simp]: "length (fst (gmpn_aors_1 OP CB src v)) = length src"
  by (auto simp: gmpn_aors_1_def Let_def split: list.split)

lemma length_mpn_add_1 [simp]: "length (fst (mpn_add_1 src v)) = length src"
  by (simp add: mpn_add_1_def)

lemma length_mpn_sub_1 [simp]: "length (fst (mpn_sub_1 src v)) = length src"
  by (simp add: mpn_sub_1_def)

lemma length_add_rest [simp]: "length (fst (add_rest xp)) = length xp"
  by (induction xp) (auto simp: Let_def)

lemma length_sub_rest [simp]: "length (fst (sub_rest xp)) = length xp"
  by (induction xp) (auto simp: Let_def)

text \<open>The two carry loops are the same function.\<close>

lemma aors_1_loop_add: "aors_1_loop (+) gmpn_addcb xp = add_rest xp"
proof (induction xp)
  case (Cons x xp)
  have "x + 1 < 1 \<longleftrightarrow> x + 1 = 0" by (rule word_less_1)
  with Cons show ?case by (simp add: gmpn_addcb_def Let_def)
qed simp

lemma aors_1_loop_sub: "aors_1_loop (-) gmpn_subcb xp = sub_rest xp"
  by (induction xp) (auto simp: gmpn_subcb_def Let_def word_less_1)

lemma uint_limb_succ: "uint ((x :: limb) + 1) = uint x + 1 - of_bool (x + 1 = 0) * B"
proof (cases "uint x + 1 < B")
  case True
  moreover have "uint x + 1 \<noteq> 0" using uint_ge_0 [of x] by linarith
  ultimately show ?thesis by (simp add: uint_add_limb limb_eq_0_iff)
next
  case False
  then have "uint x + 1 = B" using uint_lt_B [of x] by linarith
  then show ?thesis by (simp add: uint_add_limb limb_eq_0_iff)
qed

lemma uint_limb_pred: "uint ((x :: limb) - 1) = uint x - 1 + of_bool (x = 0) * B"
  using limb_ne_0_iff [of x] by (cases "x = 0") (auto simp: uint_sub_limb uint_limb_max)

lemma add_rest_value:
  "lval (fst (add_rest xp)) + B ^ length xp * uint (snd (add_rest xp)) = lval xp + 1"
proof (induction xp)
  case (Cons x xp)
  show ?case
  proof (cases "x + 1 = 0")
    case True
    have "uint (x + 1) + B * 1 = uint x + 0 + 1" unfolding uint_limb_succ using True by simp
    with lval_chain_add [of "uint (x + 1)" 1 "uint x" 0 1 _ _ _ _ 0] Cons True show ?thesis
      by (simp add: Let_def)
  qed (simp add: Let_def uint_limb_succ)
qed simp

lemma sub_rest_value:
  "lval (fst (sub_rest xp)) - B ^ length xp * uint (snd (sub_rest xp)) = lval xp - 1"
proof (induction xp)
  case (Cons x xp)
  show ?case
  proof (cases "x = 0")
    case True
    then have "uint (x - 1) - B * 1 = uint x - 0 - 1" by (simp only: uint_limb_pred) simp
    with lval_chain_sub [of "uint (x - 1)" 1 "uint x" 0 1 _ _ _ _ 0] Cons True show ?thesis
      by (simp add: Let_def)
  qed (simp add: Let_def uint_limb_pred)
qed simp

lemma add_rest_carry: "snd (add_rest xp) \<le> 1"
  by (induction xp) (auto simp: Let_def)

lemma sub_rest_borrow: "snd (sub_rest xp) \<le> 1"
  by (induction xp) (auto simp: Let_def)

lemma mpn_add_1_Cons:
  "mpn_add_1 (x # xs) v =
     (if B \<le> uint x + uint v then ((x + v) # fst (add_rest xs), snd (add_rest xs)) else ((x + v) # xs, 0))"
  by (simp add: mpn_add_1_def gmpn_aors_1_def gmpn_addcb_def add_limb_carry_right
      aors_1_loop_add Let_def)

lemma mpn_sub_1_Cons:
  "mpn_sub_1 (x # xs) v =
     (if uint x < uint v then ((x - v) # fst (sub_rest xs), snd (sub_rest xs)) else ((x - v) # xs, 0))"
  by (simp add: mpn_sub_1_def gmpn_aors_1_def gmpn_subcb_def less_limb_iff
      aors_1_loop_sub Let_def)

lemma mpn_add_1_value:
  assumes "src \<noteq> []"
  shows "lval (fst (mpn_add_1 src v)) + B ^ length src * uint (snd (mpn_add_1 src v))
       = lval src + uint v"
proof -
  obtain x xs where src: "src = x # xs" using assms by (cases src) auto
  show ?thesis
  proof (cases "B \<le> uint x + uint v")
    case True
    then have "uint (x + v) + B * 1 = uint x + uint v + 0" by (simp add: uint_add_limb)
    with lval_chain_add [of "uint (x + v)" 1 "uint x" "uint v" 0 _ _ _ _ 0] add_rest_value [of xs] True
    show ?thesis by (simp add: src mpn_add_1_Cons)
  qed (simp add: src mpn_add_1_Cons uint_add_limb)
qed

lemma mpn_sub_1_value:
  assumes "src \<noteq> []"
  shows "lval (fst (mpn_sub_1 src v)) - B ^ length src * uint (snd (mpn_sub_1 src v))
       = lval src - uint v"
proof -
  obtain x xs where src: "src = x # xs" using assms by (cases src) auto
  show ?thesis
  proof (cases "uint x < uint v")
    case True
    then have "uint (x - v) - B * 1 = uint x - uint v - 0" by (simp add: uint_sub_limb)
    with lval_chain_sub [of "uint (x - v)" 1 "uint x" "uint v" 0 _ _ _ _ 0] sub_rest_value [of xs] True
    show ?thesis by (simp add: src mpn_sub_1_Cons)
  qed (simp add: src mpn_sub_1_Cons uint_sub_limb)
qed

lemma mpn_add_1_carry: "snd (mpn_add_1 src v) \<le> 1"
  by (cases src) (auto simp: mpn_add_1_Cons add_rest_carry, simp add: mpn_add_1_def gmpn_aors_1_def)

lemma mpn_sub_1_borrow: "snd (mpn_sub_1 src v) \<le> 1"
  by (cases src) (auto simp: mpn_sub_1_Cons sub_rest_borrow, simp add: mpn_sub_1_def gmpn_aors_1_def)

lemma length_mpn_add [simp]:
  "length yp \<le> length xp \<Longrightarrow> length (fst (mpn_add xp yp)) = length xp"
  by (simp add: mpn_add_def Let_def)

lemma length_mpn_sub [simp]:
  "length yp \<le> length xp \<Longrightarrow> length (fst (mpn_sub xp yp)) = length xp"
  by (simp add: mpn_sub_def Let_def)

lemma mpn_add_carry: "snd (mpn_add xp yp) \<le> 1"
  by (simp add: mpn_add_def Let_def add_rest_carry)

lemma mpn_sub_borrow: "snd (mpn_sub xp yp) \<le> 1"
  by (simp add: mpn_sub_def Let_def sub_rest_borrow)

lemma lval_split_at: "n \<le> length xs \<Longrightarrow> lval xs = lval (take n xs) + B ^ n * lval (drop n xs)"
  using lval_take_drop [of xs n] by (simp add: min_absorb2)

lemma mpn_add_value:
  assumes "length yp \<le> length xp"
  shows "lval (fst (mpn_add xp yp)) + B ^ length xp * uint (snd (mpn_add xp yp))
       = lval xp + lval yp"
proof -
  let ?n = "length yp"
  let ?r = "mpn_add_n (take ?n xp) yp"
  have r: "lval (fst ?r) + B ^ ?n * uint (snd ?r) = lval (take ?n xp) + lval yp"
    using mpn_add_n_value [of "take ?n xp" yp] assms by simp
  have pw: "B ^ length xp = B ^ ?n * B ^ (length xp - ?n)"
    using assms by (simp flip: power_add)
  consider "yp = []" | "yp \<noteq> []" "snd ?r = 0" | "yp \<noteq> []" "snd ?r = 1"
    using limb_le_1_cases [OF mpn_add_n_carry] by blast
  then show ?thesis
  proof cases
    case 3
    have s: "lval (fst (add_rest (drop ?n xp)))
        + B ^ (length xp - ?n) * uint (snd (add_rest (drop ?n xp))) = lval (drop ?n xp) + 1"
      using add_rest_value [of "drop ?n xp"] by simp
    have "lval (fst ?r) + B ^ ?n * (lval (fst (add_rest (drop ?n xp)))
        + B ^ (length xp - ?n) * uint (snd (add_rest (drop ?n xp)))) = lval xp + lval yp"
      unfolding s using r 3 lval_split_at [OF assms] by (simp add: algebra_simps)
    with 3 assms show ?thesis
      by (simp add: mpn_add_def Let_def lval_append pw min_absorb2 algebra_simps)
  qed (use r lval_split_at [OF assms] assms in
      \<open>simp_all add: mpn_add_def Let_def lval_append min_absorb2\<close>)
qed

lemma mpn_sub_value:
  assumes "length yp \<le> length xp"
  shows "lval (fst (mpn_sub xp yp)) - B ^ length xp * uint (snd (mpn_sub xp yp))
       = lval xp - lval yp"
proof -
  let ?n = "length yp"
  let ?r = "mpn_sub_n (take ?n xp) yp"
  have r: "lval (fst ?r) - B ^ ?n * uint (snd ?r) = lval (take ?n xp) - lval yp"
    using mpn_sub_n_value [of "take ?n xp" yp] assms by simp
  have pw: "B ^ length xp = B ^ ?n * B ^ (length xp - ?n)"
    using assms by (simp flip: power_add)
  consider "yp = []" | "yp \<noteq> []" "snd ?r = 0" | "yp \<noteq> []" "snd ?r = 1"
    using limb_le_1_cases [OF mpn_sub_n_borrow] by blast
  then show ?thesis
  proof cases
    case 3
    have s: "lval (fst (sub_rest (drop ?n xp)))
        - B ^ (length xp - ?n) * uint (snd (sub_rest (drop ?n xp))) = lval (drop ?n xp) - 1"
      using sub_rest_value [of "drop ?n xp"] by simp
    have "lval (fst ?r) + B ^ ?n * (lval (fst (sub_rest (drop ?n xp)))
        - B ^ (length xp - ?n) * uint (snd (sub_rest (drop ?n xp)))) = lval xp - lval yp"
      unfolding s using r 3 lval_split_at [OF assms] by (simp add: algebra_simps)
    with 3 assms show ?thesis
      by (simp add: mpn_sub_def Let_def lval_append pw min_absorb2 algebra_simps)
  qed (use r lval_split_at [OF assms] assms in
      \<open>simp_all add: mpn_sub_def Let_def lval_append min_absorb2\<close>)
qed

text \<open>Without a carry out, the stored vector is the exact sum or difference.\<close>

lemma mpn_sub_exact:
  assumes "length yp \<le> length xp" "lval yp \<le> lval xp"
  shows "lval (fst (mpn_sub xp yp)) = lval xp - lval yp"
proof -
  have len: "lval (fst (mpn_sub xp yp)) < B ^ length xp"
    using lval_lt [of "fst (mpn_sub xp yp)"] assms(1) by simp
  have "snd (mpn_sub xp yp) = 0"
  proof (rule ccontr)
    assume "snd (mpn_sub xp yp) \<noteq> 0"
    then have "snd (mpn_sub xp yp) = 1" using limb_le_1_cases [OF mpn_sub_borrow] by blast
    then show False using mpn_sub_value [OF assms(1)] len assms(2) by simp
  qed
  with mpn_sub_value [OF assms(1)] show ?thesis by simp
qed

lemma mpn_sub_n_exact:
  assumes "length up = length vp" "lval vp \<le> lval up"
  shows "lval (fst (mpn_sub_n up vp)) = lval up - lval vp"
proof -
  have len: "lval (fst (mpn_sub_n up vp)) < B ^ length up"
    using lval_lt [of "fst (mpn_sub_n up vp)"] assms(1) by simp
  have "snd (mpn_sub_n up vp) = 0"
  proof (rule ccontr)
    assume "snd (mpn_sub_n up vp) \<noteq> 0"
    then have "snd (mpn_sub_n up vp) = 1" using limb_le_1_cases [OF mpn_sub_n_borrow] by blast
    then show False using mpn_sub_n_value [OF assms(1)] len assms(2) by simp
  qed
  with mpn_sub_n_value [OF assms(1)] show ?thesis by simp
qed

lemma mpn_sub_1_exact:
  assumes "src \<noteq> []" "uint v \<le> lval src"
  shows "lval (fst (mpn_sub_1 src v)) = lval src - uint v" "snd (mpn_sub_1 src v) = 0"
proof -
  have len: "lval (fst (mpn_sub_1 src v)) < B ^ length src"
    using lval_lt [of "fst (mpn_sub_1 src v)"] by simp
  show b: "snd (mpn_sub_1 src v) = 0"
  proof (rule ccontr)
    assume "snd (mpn_sub_1 src v) \<noteq> 0"
    then have "snd (mpn_sub_1 src v) = 1" using limb_le_1_cases [OF mpn_sub_1_borrow] by blast
    then show False using mpn_sub_1_value [OF assms(1), of v] len assms(2) by simp
  qed
  from b mpn_sub_1_value [OF assms(1), of v] show "lval (fst (mpn_sub_1 src v)) = lval src - uint v"
    by simp
qed

subsection \<open>Comparison and normalisation\<close>

fun gmpn_cmp_loop :: "limb list \<Rightarrow> limb list \<Rightarrow> nat \<Rightarrow> int" where
  "gmpn_cmp_loop xp yp 0 = 0"
| "gmpn_cmp_loop xp yp (Suc i) =
     (let x = xp ! i; y = yp ! i
      in if x \<noteq> y then (if x > y then 1 else - 1) else gmpn_cmp_loop xp yp i)"

definition mpn_cmp :: "limb list \<Rightarrow> limb list \<Rightarrow> nat \<Rightarrow> int" where
  "mpn_cmp xp yp n = gmpn_cmp_loop xp yp n"

fun mpn_normalize :: "limb list \<Rightarrow> nat \<Rightarrow> nat" where
  "mpn_normalize d 0 = 0"
| "mpn_normalize d (Suc n) = (if d ! n \<noteq> 0 then Suc n else mpn_normalize d n)"

lemma lval_take_Suc:
  "i < length xs \<Longrightarrow> lval (take (Suc i) xs) = lval (take i xs) + B ^ i * uint (xs ! i)"
  by (simp add: take_Suc_conv_app_nth lval_snoc min_absorb2)

lemma lval_take_lt: "n \<le> length xs \<Longrightarrow> lval (take n xs) < B ^ n"
  using lval_lt [of "take n xs"] by (simp add: min_absorb2)

lemma top_limb_dominates:
  fixes a b x y P :: int
  assumes "0 \<le> a" "b < P" "x < y" "0 < P" "0 \<le> b" "a < P"
  shows "a + P * x < b + P * y"
proof -
  have "P * (x + 1) \<le> P * y" using assms by (intro mult_left_mono) auto
  then show ?thesis using assms by (simp add: algebra_simps)
qed

lemma mpn_cmp_value:
  assumes "n \<le> length xp" "n \<le> length yp"
  shows "mpn_cmp xp yp n = sgn (lval (take n xp) - lval (take n yp))"
  unfolding mpn_cmp_def using assms
proof (induction n)
  case (Suc i)
  have tx: "lval (take (Suc i) xp) = lval (take i xp) + B ^ i * uint (xp ! i)"
    and ty: "lval (take (Suc i) yp) = lval (take i yp) + B ^ i * uint (yp ! i)"
    using Suc.prems by (simp_all add: lval_take_Suc)
  have b: "lval (take i xp) < B ^ i" "lval (take i yp) < B ^ i"
    using Suc.prems by (simp_all add: lval_take_lt)
  consider "xp ! i = yp ! i" | "xp ! i < yp ! i" | "yp ! i < xp ! i" by fastforce
  then show ?case
  proof cases
    case 1
    with Suc show ?thesis by (simp add: tx ty)
  next
    case 2
    then have "lval (take (Suc i) xp) < lval (take (Suc i) yp)"
      unfolding tx ty using b by (intro top_limb_dominates) (auto simp: less_limb_iff)
    with 2 show ?thesis by (auto simp: Let_def)
  next
    case 3
    then have "lval (take (Suc i) yp) < lval (take (Suc i) xp)"
      unfolding tx ty using b by (intro top_limb_dominates) (auto simp: less_limb_iff)
    with 3 show ?thesis by (auto simp: Let_def)
  qed
qed simp

lemma mpn_normalize_le: "mpn_normalize d n \<le> n"
  by (induction n) auto

lemma mpn_normalize_value:
  "n \<le> length d \<Longrightarrow> lval (take (mpn_normalize d n) d) = lval (take n d)"
  by (induction n) (auto simp: lval_take_Suc)

lemma mpn_normalize_top: "mpn_normalize d n \<noteq> 0 \<Longrightarrow> d ! (mpn_normalize d n - 1) \<noteq> 0"
  by (induction n) auto

lemma mpn_normalize_eq_self:
  "n = 0 \<or> d ! (n - 1) \<noteq> 0 \<Longrightarrow> mpn_normalize d n = n"
  by (cases n) auto

lemma mpn_normalize_cong:
  "(\<And>i. i < n \<Longrightarrow> d ! i = e ! i) \<Longrightarrow> mpn_normalize d n = mpn_normalize e n"
  by (induction n) auto

subsection \<open>Complement and negation (com\_n.c, neg\_n.c)\<close>

definition mpn_com_n :: "limb list \<Rightarrow> limb list" where
  "mpn_com_n up = map NOT up"

definition mpn_neg_n :: "limb list \<Rightarrow> limb list \<times> limb" where
  "mpn_neg_n up = (let r = mpn_add_1 (mpn_com_n up) 1 in (fst r, 1 - snd r))"

lemma mpn_com_n_value: "lval (mpn_com_n up) = B ^ length up - 1 - lval up"
proof (induction up)
  case (Cons x xs)
  have "uint (NOT x) + B * (B ^ length xs - 1 - lval xs) = B * B ^ length xs - 1 - (uint x + B * lval xs)"
    unfolding uint_not_limb by (simp add: algebra_simps)
  with Cons show ?case by (simp add: mpn_com_n_def)
qed (simp add: mpn_com_n_def)

lemma length_mpn_com_n [simp]: "length (mpn_com_n up) = length up"
  by (simp add: mpn_com_n_def)

text \<open>Negation modulo \<open>B ^ n\<close>; the returned limb is 1 exactly for a non-zero operand.\<close>

lemma mpn_neg_n_value:
  assumes "up \<noteq> []"
  shows "lval (fst (mpn_neg_n up)) = (- lval up) mod B ^ length up"
    and "snd (mpn_neg_n up) = of_bool (lval up \<noteq> 0)"
proof -
  let ?r = "mpn_add_1 (mpn_com_n up) 1"
  let ?P = "B ^ length up"
  have ne: "mpn_com_n up \<noteq> []" using assms by (simp add: mpn_com_n_def)
  have v: "lval (fst ?r) + ?P * uint (snd ?r) = ?P - lval up"
    using mpn_add_1_value [OF ne, of 1] by (simp add: mpn_com_n_value)
  have lt: "lval (fst ?r) < ?P" using lval_lt [of "fst ?r"] by simp
  have u: "lval up < ?P" by simp
  have c: "snd ?r = of_bool (lval up = 0)"
  proof (cases "snd ?r = 0")
    case True
    then show ?thesis using v lt by auto
  next
    case False
    then have "snd ?r = 1" using limb_le_1_cases [OF mpn_add_1_carry] by blast
    with v lval_nonneg [of "fst ?r"] lval_nonneg [of up] have "lval up = 0" by simp
    with \<open>snd ?r = 1\<close> show ?thesis by simp
  qed
  show "snd (mpn_neg_n up) = of_bool (lval up \<noteq> 0)"
    by (simp add: mpn_neg_n_def Let_def c)
  show "lval (fst (mpn_neg_n up)) = (- lval up) mod ?P"
  proof (cases "lval up = 0")
    case True
    then show ?thesis using v c by (simp add: mpn_neg_n_def Let_def)
  next
    case False
    then have "(- lval up) mod ?P = ?P - lval up"
      using u lval_nonneg [of up] by (simp add: zmod_zminus1_eq_if mod_pos_pos_trivial)
    with False v c show ?thesis by (simp add: mpn_neg_n_def Let_def)
  qed
qed

subsection \<open>Increment and decrement without carry out (gmp-impl.h)\<close>

definition mpn_incr_u :: "limb list \<Rightarrow> limb \<Rightarrow> limb list" where
  "mpn_incr_u p incr =
     (case p of
        [] \<Rightarrow> []
      | y # ps \<Rightarrow> (let x = y + incr in x # (if x < incr then fst (add_rest ps) else ps)))"

definition mpn_decr_u :: "limb list \<Rightarrow> limb \<Rightarrow> limb list" where
  "mpn_decr_u p incr =
     (case p of
        [] \<Rightarrow> []
      | x # ps \<Rightarrow> (x - incr) # (if x < incr then fst (sub_rest ps) else ps))"

lemma mpn_incr_u_eq: "mpn_incr_u p v = fst (mpn_add_1 p v)"
  by (cases p) (simp_all add: mpn_incr_u_def mpn_add_1_Cons add_limb_carry_right,
    simp add: mpn_add_1_def gmpn_aors_1_def)

lemma mpn_decr_u_eq: "mpn_decr_u p v = fst (mpn_sub_1 p v)"
  by (cases p) (simp_all add: mpn_decr_u_def mpn_sub_1_Cons less_limb_iff,
    simp add: mpn_sub_1_def gmpn_aors_1_def)

lemma length_mpn_incr_u [simp]: "length (mpn_incr_u p v) = length p"
  by (simp add: mpn_incr_u_eq)

lemma length_mpn_decr_u [simp]: "length (mpn_decr_u p v) = length p"
  by (simp add: mpn_decr_u_eq)

lemma mpn_incr_u_value:
  assumes "lval p + uint v < B ^ length p"
  shows "lval (mpn_incr_u p v) = lval p + uint v"
proof (cases "p = []")
  case True
  then have "uint v < 1" using assms by simp
  then have "uint v = 0" using uint_ge_0 [of v] by linarith
  then show ?thesis using True by (simp add: mpn_incr_u_def)
next
  case False
  let ?r = "mpn_add_1 p v"
  have v: "lval (fst ?r) + B ^ length p * uint (snd ?r) = lval p + uint v"
    by (rule mpn_add_1_value [OF False])
  have "snd ?r = 0"
  proof (rule ccontr)
    assume "snd ?r \<noteq> 0"
    then have "B ^ length p * 1 \<le> B ^ length p * uint (snd ?r)"
      by (intro mult_left_mono) (auto simp: limb_ne_0_iff)
    then show False using v assms lval_nonneg [of "fst ?r"] by linarith
  qed
  then show ?thesis using v by (simp add: mpn_incr_u_eq)
qed

lemma mpn_decr_u_value: "p \<noteq> [] \<Longrightarrow> uint v \<le> lval p \<Longrightarrow> lval (mpn_decr_u p v) = lval p - uint v"
  using mpn_sub_1_exact [of p v] by (simp add: mpn_decr_u_eq)

end
