(* ===== verification/Mpz_Store.thy ===== *)
theory Mpz_Store
  imports Mpn_Arith
begin

text \<open>
  Multi-precision integer variables (\<^verbatim>\<open>mpir/mpz\<close>): the \<^verbatim>\<open>__mpz_struct\<close> record, the store
  of all variables and the allocation functions; assignment, comparison and conversion follow in
  \<^verbatim>\<open>Mpz_Basic\<close>. A variable owns its limb block; \<^verbatim>\<open>mp_d\<close> lists all allocated limbs, of which the
  first \<^verbatim>\<open>ABS(_mp_size)\<close> carry the magnitude. Operations take variable names, so that a
  destination may be the same variable as a source, and re-read the block of a source wherever
  the C code re-reads its pointer after a reallocation. The contents of fresh memory are
  arbitrary: the store carries a function \<open>fresh\<close> that supplies them, over which every
  theorem quantifies.
\<close>

subsection \<open>State\<close>

record mpz =
  mp_alloc :: nat
  mp_size :: int
  mp_d :: "limb list"

type_synonym var = nat

record store =
  vars :: "var \<Rightarrow> mpz"
  fresh :: "nat \<Rightarrow> limb"

abbreviation SIZ :: "store \<Rightarrow> var \<Rightarrow> int" where
  "SIZ st x \<equiv> mp_size (vars st x)"

abbreviation ALLOC :: "store \<Rightarrow> var \<Rightarrow> nat" where
  "ALLOC st x \<equiv> mp_alloc (vars st x)"

abbreviation PTR :: "store \<Rightarrow> var \<Rightarrow> limb list" where
  "PTR st x \<equiv> mp_d (vars st x)"

definition ABSIZ :: "store \<Rightarrow> var \<Rightarrow> nat" where
  "ABSIZ st x = nat \<bar>SIZ st x\<bar>"

text \<open>Field assignment, and a store of the limbs \<open>xs\<close> at \<^verbatim>\<open>PTR(x) + i\<close>.\<close>

definition set_var :: "store \<Rightarrow> var \<Rightarrow> mpz \<Rightarrow> store" where
  "set_var st x z = st\<lparr>vars := (vars st)(x := z)\<rparr>"

definition set_SIZ :: "store \<Rightarrow> var \<Rightarrow> int \<Rightarrow> store" where
  "set_SIZ st x n = set_var st x ((vars st x)\<lparr>mp_size := n\<rparr>)"

definition put_limbs :: "store \<Rightarrow> var \<Rightarrow> nat \<Rightarrow> limb list \<Rightarrow> store" where
  "put_limbs st x i xs =
     set_var st x ((vars st x)\<lparr>mp_d := take i (PTR st x) @ xs @ drop (i + length xs) (PTR st x)\<rparr>)"

text \<open>The magnitude and the value of a variable, and when it is well formed.\<close>

definition mag :: "store \<Rightarrow> var \<Rightarrow> limb list" where
  "mag st x = take (ABSIZ st x) (PTR st x)"

definition mpz_val :: "store \<Rightarrow> var \<Rightarrow> int" where
  "mpz_val st x = sgn (SIZ st x) * lval (mag st x)"

definition mpz_ok :: "store \<Rightarrow> var \<Rightarrow> bool" where
  "mpz_ok st x \<longleftrightarrow>
     1 \<le> ALLOC st x \<and> length (PTR st x) = ALLOC st x \<and> ABSIZ st x \<le> ALLOC st x \<and>
     (SIZ st x \<noteq> 0 \<longrightarrow> PTR st x ! (ABSIZ st x - 1) \<noteq> 0)"

subsection \<open>Allocation (init.c, init2.c, realloc.c, realloc2.c)\<close>

definition fresh_block :: "store \<Rightarrow> nat \<Rightarrow> limb list" where
  "fresh_block st n = map (fresh st) [0..<n]"

definition realloc_limbs :: "store \<Rightarrow> limb list \<Rightarrow> nat \<Rightarrow> limb list" where
  "realloc_limbs st d n = take n d @ map (fresh st) [length d..<n]"

definition mpz_init :: "store \<Rightarrow> var \<Rightarrow> store" where
  "mpz_init st x = set_var st x \<lparr>mp_alloc = 1, mp_size = 0, mp_d = fresh_block st 1\<rparr>"

definition mpz_init2 :: "store \<Rightarrow> var \<Rightarrow> nat \<Rightarrow> store" where
  "mpz_init2 st x bits =
     (let limbs = (bits + 64 - 1) mod 2 ^ 64 div 64;
          limbs = max limbs 1
      in set_var st x \<lparr>mp_alloc = limbs, mp_size = 0, mp_d = fresh_block st limbs\<rparr>)"

definition mpz_realloc :: "store \<Rightarrow> var \<Rightarrow> nat \<Rightarrow> store" where
  "mpz_realloc st m new_alloc =
     (let new_alloc = max new_alloc 1;
          st1 = set_var st m ((vars st m)\<lparr>mp_d := realloc_limbs st (PTR st m) new_alloc,
                                         mp_alloc := new_alloc\<rparr>)
      in if ABSIZ st1 m > new_alloc then set_SIZ st1 m 0 else st1)"

definition mpz_realloc2 :: "store \<Rightarrow> var \<Rightarrow> nat \<Rightarrow> store" where
  "mpz_realloc2 st m bits =
     (let new_alloc = (bits + 64 - 1) mod 2 ^ 64 div 64;
          new_alloc = max new_alloc 1;
          st1 = set_var st m ((vars st m)\<lparr>mp_d := realloc_limbs st (PTR st m) new_alloc,
                                         mp_alloc := new_alloc\<rparr>)
      in if ABSIZ st1 m > new_alloc then set_SIZ st1 m 0 else st1)"

definition MPZ_REALLOC :: "store \<Rightarrow> var \<Rightarrow> nat \<Rightarrow> store" where
  "MPZ_REALLOC st z n = (if n > ALLOC st z then mpz_realloc st z n else st)"

subsection \<open>Reading the state after an update\<close>

lemma vars_set_var [simp]: "vars (set_var st x z) y = (if y = x then z else vars st y)"
  by (simp add: set_var_def)

lemma fresh_set_var [simp]: "fresh (set_var st x z) = fresh st"
  by (simp add: set_var_def)

lemma vars_set_SIZ [simp]:
  "vars (set_SIZ st x n) y = (if y = x then (vars st x)\<lparr>mp_size := n\<rparr> else vars st y)"
  by (simp add: set_SIZ_def)

lemma ABSIZ_simps [simp]:
  "ABSIZ (set_SIZ st x n) y = (if y = x then nat \<bar>n\<bar> else ABSIZ st y)"
  "ABSIZ (put_limbs st x i xs) y = ABSIZ st y"
  by (simp_all add: ABSIZ_def put_limbs_def)

lemma put_limbs_simps [simp]:
  "SIZ (put_limbs st x i xs) y = SIZ st y"
  "ALLOC (put_limbs st x i xs) y = ALLOC st y"
  "PTR (put_limbs st x i xs) y =
     (if y = x then take i (PTR st x) @ xs @ drop (i + length xs) (PTR st x) else PTR st y)"
  "y \<noteq> x \<Longrightarrow> vars (put_limbs st x i xs) y = vars st y"
  by (simp_all add: put_limbs_def)

lemma length_realloc_limbs [simp]: "length (realloc_limbs st d n) = n"
  by (auto simp: realloc_limbs_def)

lemma take_realloc_limbs:
  "k \<le> length d \<Longrightarrow> k \<le> n \<Longrightarrow> take k (realloc_limbs st d n) = take k d"
  by (simp add: realloc_limbs_def)

lemma mag_cong: "vars st' x = vars st x \<Longrightarrow> mag st' x = mag st x"
  by (simp add: mag_def ABSIZ_def)

lemma mpz_val_cong: "vars st' x = vars st x \<Longrightarrow> mpz_val st' x = mpz_val st x"
  by (simp add: mpz_val_def mag_def ABSIZ_def)

lemma mpz_ok_cong: "vars st' x = vars st x \<Longrightarrow> mpz_ok st' x = mpz_ok st x"
  by (simp add: mpz_ok_def ABSIZ_def)

lemma length_mag: "mpz_ok st x \<Longrightarrow> length (mag st x) = ABSIZ st x"
  by (simp add: mpz_ok_def mag_def)

lemma mag_eq_Nil_iff: "mpz_ok st x \<Longrightarrow> mag st x = [] \<longleftrightarrow> SIZ st x = 0"
  by (auto simp: mpz_ok_def mag_def ABSIZ_def)

lemma last_mag_ne_0: "mpz_ok st x \<Longrightarrow> SIZ st x \<noteq> 0 \<Longrightarrow> last (mag st x) \<noteq> 0"
  using mag_eq_Nil_iff [of st x]
  by (subst last_conv_nth) (auto simp: mpz_ok_def mag_def ABSIZ_def)

lemma lval_mag_pos: "mpz_ok st x \<Longrightarrow> SIZ st x \<noteq> 0 \<Longrightarrow> 0 < lval (mag st x)"
  by (intro lval_pos_of_last) (auto simp: mag_eq_Nil_iff last_mag_ne_0)

lemma lval_mag_abs: "mpz_ok st x \<Longrightarrow> lval (mag st x) = \<bar>mpz_val st x\<bar>"
  using mag_eq_Nil_iff [of st x] by (auto simp: mpz_val_def abs_mult abs_sgn_eq)

lemma sgn_mpz_val: "mpz_ok st x \<Longrightarrow> sgn (mpz_val st x) = sgn (SIZ st x)"
  using lval_mag_pos [of st x] by (cases "SIZ st x = 0") (auto simp: mpz_val_def sgn_mult)

lemma mpz_val_eq_0_iff: "mpz_ok st x \<Longrightarrow> mpz_val st x = 0 \<longleftrightarrow> SIZ st x = 0"
  using sgn_mpz_val [of st x] by (metis sgn_eq_0_iff)

lemma mpz_val_size_0 [simp]: "SIZ st x = 0 \<Longrightarrow> mpz_val st x = 0"
  by (simp add: mpz_val_def)

lemma nth_mag: "i < ABSIZ st x \<Longrightarrow> mag st x ! i = PTR st x ! i"
  by (simp add: mag_def)

lemma mag_Cons:
  "mpz_ok st x \<Longrightarrow> SIZ st x \<noteq> 0 \<Longrightarrow> mag st x = PTR st x ! 0 # tl (mag st x)"
  using mag_eq_Nil_iff [of st x]
  by (cases "PTR st x"; cases "ABSIZ st x") (auto simp: mag_def mpz_ok_def ABSIZ_def)

lemma mpz_val_pos: "mpz_ok st x \<Longrightarrow> 0 \<le> SIZ st x \<Longrightarrow> mpz_val st x = lval (mag st x)"
  by (cases "SIZ st x = 0") (auto simp: mpz_val_def mag_def ABSIZ_def)

lemma mpz_val_neg: "SIZ st x < 0 \<Longrightarrow> mpz_val st x = - lval (mag st x)"
  by (simp add: mpz_val_def)

text \<open>Reallocation to a larger block keeps every variable.\<close>

lemma MPZ_REALLOC_other [simp]: "y \<noteq> w \<Longrightarrow> vars (MPZ_REALLOC st w n) y = vars st y"
  by (simp add: MPZ_REALLOC_def mpz_realloc_def Let_def)

lemma SIZ_MPZ_REALLOC [simp]:
  assumes "mpz_ok st w"
  shows "SIZ (MPZ_REALLOC st w n) y = SIZ st y"
  using assms by (auto simp: MPZ_REALLOC_def mpz_realloc_def Let_def mpz_ok_def ABSIZ_def)

lemma ABSIZ_MPZ_REALLOC [simp]:
  assumes "mpz_ok st w"
  shows "ABSIZ (MPZ_REALLOC st w n) y = ABSIZ st y"
  using assms by (simp add: ABSIZ_def)

lemma MPZ_REALLOC_block:
  assumes "mpz_ok st w"
  shows "length (PTR (MPZ_REALLOC st w n) w) = ALLOC (MPZ_REALLOC st w n) w"
    and "1 \<le> ALLOC (MPZ_REALLOC st w n) w"
    and "n \<le> ALLOC (MPZ_REALLOC st w n) w"
    and "ALLOC st w \<le> ALLOC (MPZ_REALLOC st w n) w"
  using assms by (auto simp: MPZ_REALLOC_def mpz_realloc_def Let_def mpz_ok_def)

lemma take_PTR_MPZ_REALLOC:
  assumes "mpz_ok st w" "mpz_ok st y" "k \<le> ALLOC st y"
  shows "take k (PTR (MPZ_REALLOC st w n) y) = take k (PTR st y)"
  using assms
  by (auto simp: MPZ_REALLOC_def mpz_realloc_def Let_def mpz_ok_def take_realloc_limbs)

lemma nth_PTR_MPZ_REALLOC:
  assumes "mpz_ok st w" "mpz_ok st y" "k < ALLOC st y"
  shows "PTR (MPZ_REALLOC st w n) y ! k = PTR st y ! k"
  using take_PTR_MPZ_REALLOC [OF assms(1,2), of "Suc k" n] assms(3) 
  by (metis Suc_leI lessI nth_take)

lemma mag_MPZ_REALLOC [simp]:
  assumes "mpz_ok st w" "mpz_ok st y"
  shows "mag (MPZ_REALLOC st w n) y = mag st y"
  using assms take_PTR_MPZ_REALLOC [OF assms, of "ABSIZ st y" n] by (simp add: mag_def mpz_ok_def)

lemma mpz_val_MPZ_REALLOC [simp]:
  assumes "mpz_ok st w" "mpz_ok st y"
  shows "mpz_val (MPZ_REALLOC st w n) y = mpz_val st y"
  using assms by (simp add: mpz_val_def)

lemma mpz_ok_MPZ_REALLOC:
  assumes "mpz_ok st w" "mpz_ok st y"
  shows "mpz_ok (MPZ_REALLOC st w n) y"
proof (cases "y = w")
  case True
  have "PTR (MPZ_REALLOC st w n) w ! (ABSIZ st w - 1) = PTR st w ! (ABSIZ st w - 1)"
    if "SIZ st w \<noteq> 0"
    using assms that by (intro nth_PTR_MPZ_REALLOC) (auto simp: mpz_ok_def ABSIZ_def)
  then show ?thesis
    using True assms MPZ_REALLOC_block [OF assms(1), of n] by (auto simp: mpz_ok_def)
next
  case False
  then show ?thesis using assms by (subst mpz_ok_cong [of _ _ st]) simp_all
qed

text \<open>Storing a result vector and its signed size.\<close>

lemma put_result:
  assumes "length (PTR st w) = ALLOC st w" "1 \<le> ALLOC st w" "length xs \<le> ALLOC st w"
    and "nat \<bar>n\<bar> \<le> length xs" "n \<noteq> 0 \<Longrightarrow> xs ! (nat \<bar>n\<bar> - 1) \<noteq> 0"
  shows "mpz_ok (set_SIZ (put_limbs st w 0 xs) w n) w"
    and "mpz_val (set_SIZ (put_limbs st w 0 xs) w n) w = sgn n * lval (take (nat \<bar>n\<bar>) xs)"
  using assms by (auto simp: mpz_ok_def mpz_val_def mag_def nth_append)

lemma put_result_other [simp]:
  "x \<noteq> w \<Longrightarrow> vars (set_SIZ (put_limbs st w i xs) w n) x = vars st x"
  by simp

lemma set_SIZ_result:
  assumes "length (PTR st w) = ALLOC st w" "1 \<le> ALLOC st w" "nat \<bar>n\<bar> \<le> ALLOC st w"
    and "n \<noteq> 0 \<Longrightarrow> PTR st w ! (nat \<bar>n\<bar> - 1) \<noteq> 0"
  shows "mpz_ok (set_SIZ st w n) w"
    and "mpz_val (set_SIZ st w n) w = sgn n * lval (take (nat \<bar>n\<bar>) (PTR st w))"
  using assms by (auto simp: mpz_ok_def mpz_val_def mag_def)

end
