(* ===== verification/Mpz_Basic.thy ===== *)
theory Mpz_Basic
  imports Mpz_Store
begin

text \<open>
  Assignment, sign changes, exchange, comparison and conversion of \<^verbatim>\<open>mpz_t\<close> variables, one
  definition per function of \<^verbatim>\<open>mpir/mpz\<close>. C's \<^verbatim>\<open>unsigned long\<close> and \<^verbatim>\<open>signed long\<close>
  arguments are 64-bit words, the latter read by \<^const>\<open>sint\<close>; an \<^verbatim>\<open>int\<close> result is
  truncated to 32 bits where the C code converts a longer value.
\<close>

subsection \<open>Definitions\<close>

definition c_int :: "int \<Rightarrow> int" where
  "c_int k = signed_take_bit 31 k"

text \<open>
  The sizes and allocations of \<^verbatim>\<open>__mpz_struct\<close> are of type \<^verbatim>\<open>int\<close> (\<^verbatim>\<open>gmp-h.in:214\<close>). The fields of the model are not
  bounded; for numbers of at most \<open>INT_LIMBS\<close> limbs, 2 GiB, they stay in the range of \<^verbatim>\<open>int\<close>, and so do the byte counts
  that are computed from them in that type.
\<close>

definition INT_LIMBS :: nat where
  "INT_LIMBS = 2 ^ 28 - 1"

definition int_sized :: "int \<Rightarrow> bool" where
  "int_sized k \<longleftrightarrow> \<bar>k\<bar> < B ^ INT_LIMBS"

definition LONG_MAX :: limb where
  "LONG_MAX = drop_bit 1 (- 1)"

definition mpz_set :: "store \<Rightarrow> var \<Rightarrow> var \<Rightarrow> store" where
  "mpz_set st w u =
     (let usize = SIZ st u;
          size = nat \<bar>usize\<bar>;
          st1 = MPZ_REALLOC st w size;
          st2 = put_limbs st1 w 0 (take size (PTR st1 u))
      in set_SIZ st2 w usize)"

definition mpz_set_ui :: "store \<Rightarrow> var \<Rightarrow> limb \<Rightarrow> store" where
  "mpz_set_ui st dest val =
     (let st1 = put_limbs st dest 0 [val] in set_SIZ st1 dest (of_bool (val \<noteq> 0)))"

definition mpz_set_si :: "store \<Rightarrow> var \<Rightarrow> limb \<Rightarrow> store" where
  "mpz_set_si st dest val =
     (let vl = (if 0 \<le> sint val then val else - val);
          st1 = put_limbs st dest 0 [vl];
          size = of_bool (vl \<noteq> 0)
      in set_SIZ st1 dest (if 0 \<le> sint val then size else - size))"

definition mpz_init_set :: "store \<Rightarrow> var \<Rightarrow> var \<Rightarrow> store" where
  "mpz_init_set st w u =
     (let usize = SIZ st u;
          size = nat \<bar>usize\<bar>;
          alloc = max size 1;
          st1 = set_var st w ((vars st w)\<lparr>mp_alloc := alloc, mp_d := fresh_block st alloc\<rparr>);
          st2 = put_limbs st1 w 0 (take size (PTR st1 u))
      in set_SIZ st2 w usize)"

definition mpz_init_set_ui :: "store \<Rightarrow> var \<Rightarrow> limb \<Rightarrow> store" where
  "mpz_init_set_ui st dest val =
     (let st1 = set_var st dest ((vars st dest)\<lparr>mp_alloc := 1, mp_d := fresh_block st 1\<rparr>);
          st2 = put_limbs st1 dest 0 [val]
      in set_SIZ st2 dest (of_bool (val \<noteq> 0)))"

definition mpz_init_set_si :: "store \<Rightarrow> var \<Rightarrow> limb \<Rightarrow> store" where
  "mpz_init_set_si st dest val =
     (let st1 = set_var st dest ((vars st dest)\<lparr>mp_alloc := 1, mp_d := fresh_block st 1\<rparr>);
          vl = (if 0 \<le> sint val then val else - val);
          st2 = put_limbs st1 dest 0 [vl];
          size = of_bool (vl \<noteq> 0)
      in set_SIZ st2 dest (if 0 \<le> sint val then size else - size))"

definition mpz_abs :: "store \<Rightarrow> var \<Rightarrow> var \<Rightarrow> store" where
  "mpz_abs st w u =
     (let size = nat \<bar>SIZ st u\<bar>;
          st2 = (if u \<noteq> w then
                   (let st1 = MPZ_REALLOC st w size
                    in put_limbs st1 w 0 (take size (PTR st1 u)))
                 else st)
      in set_SIZ st2 w (int size))"

definition mpz_neg :: "store \<Rightarrow> var \<Rightarrow> var \<Rightarrow> store" where
  "mpz_neg st w u =
     (let usize = SIZ st u;
          st2 = (if u \<noteq> w then
                   (let size = nat \<bar>usize\<bar>;
                        st1 = MPZ_REALLOC st w size
                    in put_limbs st1 w 0 (take size (PTR st1 u)))
                 else st)
      in set_SIZ st2 w (- usize))"

definition mpz_swap :: "store \<Rightarrow> var \<Rightarrow> var \<Rightarrow> store" where
  "mpz_swap st u v =
     (let ualloc = ALLOC st u; valloc = ALLOC st v;
          st1 = set_var st v ((vars st v)\<lparr>mp_alloc := ualloc\<rparr>);
          st1 = set_var st1 u ((vars st1 u)\<lparr>mp_alloc := valloc\<rparr>);
          usize = SIZ st1 u; vsize = SIZ st1 v;
          st2 = set_SIZ st1 v usize;
          st2 = set_SIZ st2 u vsize;
          up = PTR st2 u; vp = PTR st2 v;
          st3 = set_var st2 v ((vars st2 v)\<lparr>mp_d := up\<rparr>)
      in set_var st3 u ((vars st3 u)\<lparr>mp_d := vp\<rparr>))"

definition mpz_sgn :: "store \<Rightarrow> var \<Rightarrow> int" where
  "mpz_sgn st z = (if SIZ st z < 0 then - 1 else of_bool (SIZ st z > 0))"

definition mpz_cmp :: "store \<Rightarrow> var \<Rightarrow> var \<Rightarrow> int" where
  "mpz_cmp st u v =
     (let usize = SIZ st u; vsize = SIZ st v; dsize = usize - vsize
      in if dsize \<noteq> 0 then c_int dsize
         else let asize = nat \<bar>usize\<bar>; cmp = mpn_cmp (PTR st u) (PTR st v) asize
              in if usize \<ge> 0 then cmp else - cmp)"

definition mpz_cmpabs :: "store \<Rightarrow> var \<Rightarrow> var \<Rightarrow> int" where
  "mpz_cmpabs st u v =
     (let usize = ABSIZ st u; vsize = ABSIZ st v; dsize = int usize - int vsize
      in if dsize \<noteq> 0 then c_int dsize
         else mpn_cmp (PTR st u) (PTR st v) usize)"

definition mpz_cmp_ui :: "store \<Rightarrow> var \<Rightarrow> limb \<Rightarrow> int" where
  "mpz_cmp_ui st u v_digit =
     (let un = SIZ st u
      in if un = 0 then - of_bool (v_digit \<noteq> 0)
         else if un = 1 then
           (let ul = PTR st u ! 0
            in if ul > v_digit then 1 else if ul < v_digit then - 1 else 0)
         else if un > 0 then 1 else - 1)"

definition mpz_cmp_si :: "store \<Rightarrow> var \<Rightarrow> limb \<Rightarrow> int" where
  "mpz_cmp_si st u v_digit =
     (let usize = SIZ st u;
          vsize = (if sint v_digit > 0 then 1 else if sint v_digit < 0 then - 1 else 0);
          v_digit = (if sint v_digit < 0 then - v_digit else v_digit)
      in if usize \<noteq> vsize then c_int (usize - vsize)
         else if usize = 0 then 0
         else let u_digit = PTR st u ! 0
              in if u_digit = v_digit then 0
                 else if u_digit > v_digit then c_int usize else c_int (- usize))"

definition mpz_cmpabs_ui :: "store \<Rightarrow> var \<Rightarrow> limb \<Rightarrow> int" where
  "mpz_cmpabs_ui st u v_digit =
     (let un = SIZ st u
      in if un = 0 then - of_bool (v_digit \<noteq> 0)
         else let un = \<bar>un\<bar>
              in if un = 1 then
                   (let ul = PTR st u ! 0
                    in if ul > v_digit then 1 else if ul < v_digit then - 1 else 0)
                 else 1)"

definition mpz_get_ui :: "store \<Rightarrow> var \<Rightarrow> limb" where
  "mpz_get_ui st z = (let l = PTR st z ! 0 in if SIZ st z \<noteq> 0 then l else 0)"

definition mpz_get_si :: "store \<Rightarrow> var \<Rightarrow> limb" where
  "mpz_get_si st z =
     (let size = SIZ st z; zl = PTR st z ! 0
      in if size > 0 then zl AND LONG_MAX
         else if size < 0 then NOT ((zl - 1) AND LONG_MAX)
         else 0)"

definition mpz_getlimbn :: "store \<Rightarrow> var \<Rightarrow> int \<Rightarrow> limb" where
  "mpz_getlimbn st z n =
     (if n \<ge> 0 \<and> n < \<bar>SIZ st z\<bar> then PTR st z ! nat n else 0)"

definition mpz_size :: "store \<Rightarrow> var \<Rightarrow> nat" where
  "mpz_size st z = nat \<bar>SIZ st z\<bar>"

text \<open>
  \<^verbatim>\<open>fits_s.h\<close> and \<^verbatim>\<open>__GMPZ_FITS_UTYPE_P\<close>, instantiated at each C type: the bounds are
  limbs, and \<open>minimum\<close> is \<^verbatim>\<open>- (mp_limb_t) MINIMUM\<close>.
\<close>

definition fits_s :: "limb \<Rightarrow> limb \<Rightarrow> store \<Rightarrow> var \<Rightarrow> bool" where
  "fits_s maximum minimum st z =
     (let n = SIZ st z; limb = PTR st z ! 0
      in if n = 0 then True
         else if n = 1 then limb \<le> maximum
         else if n = - 1 then limb \<le> - minimum
         else False)"

definition fits_utype_p :: "limb \<Rightarrow> store \<Rightarrow> var \<Rightarrow> bool" where
  "fits_utype_p maxval st z =
     (let n = SIZ st z in n = 0 \<or> (n = 1 \<and> PTR st z ! 0 \<le> maxval))"

definition mpz_fits_slong_p :: "store \<Rightarrow> var \<Rightarrow> bool" where
  "mpz_fits_slong_p = fits_s LONG_MAX (push_bit 63 1)"

definition mpz_fits_sint_p :: "store \<Rightarrow> var \<Rightarrow> bool" where
  "mpz_fits_sint_p = fits_s (2 ^ 31 - 1) (- (2 ^ 31))"

definition mpz_fits_sshort_p :: "store \<Rightarrow> var \<Rightarrow> bool" where
  "mpz_fits_sshort_p = fits_s (2 ^ 15 - 1) (- (2 ^ 15))"

definition mpz_fits_ulong_p :: "store \<Rightarrow> var \<Rightarrow> bool" where
  "mpz_fits_ulong_p = fits_utype_p (- 1)"

definition mpz_fits_uint_p :: "store \<Rightarrow> var \<Rightarrow> bool" where
  "mpz_fits_uint_p = fits_utype_p (2 ^ 32 - 1)"

definition mpz_fits_ushort_p :: "store \<Rightarrow> var \<Rightarrow> bool" where
  "mpz_fits_ushort_p = fits_utype_p (2 ^ 16 - 1)"

subsection \<open>Contracts\<close>

text \<open>
  What an operation that writes one variable promises: it leaves a well-formed result with the
  intended value, whichever of its arguments coincide, and touches no other variable.
\<close>

definition writes :: "store \<Rightarrow> store \<Rightarrow> var \<Rightarrow> int \<Rightarrow> bool" where
  "writes st st' w k \<longleftrightarrow>
     mpz_ok st' w \<and> mpz_val st' w = k \<and> (\<forall>x. x \<noteq> w \<longrightarrow> vars st' x = vars st x)"

lemma writesI:
  "mpz_ok st' w \<Longrightarrow> mpz_val st' w = k \<Longrightarrow> (\<And>x. x \<noteq> w \<Longrightarrow> vars st' x = vars st x) \<Longrightarrow> writes st st' w k"
  by (simp add: writes_def)

lemma writes_ok: "writes st st' w k \<Longrightarrow> mpz_ok st' w"
  by (simp add: writes_def)

lemma writes_val: "writes st st' w k \<Longrightarrow> mpz_val st' w = k"
  by (simp add: writes_def)

lemma writes_other: "writes st st' w k \<Longrightarrow> x \<noteq> w \<Longrightarrow> vars st' x = vars st x"
  by (simp add: writes_def)

lemma writes_keeps:
  assumes "writes st st' w k" "mpz_ok st x"
  shows "mpz_ok st' x" and "mpz_val st' x = (if x = w then k else mpz_val st x)"
  using assms mpz_ok_cong [of st' x st] mpz_val_cong [of st' x st]
  by (cases "x = w"; simp add: writes_def)+

lemma writes_trans: "writes st st1 w j \<Longrightarrow> writes st1 st2 w k \<Longrightarrow> writes st st2 w k"
  by (simp add: writes_def)

lemma writes_vars_cong:
  "writes st1 st' w k \<Longrightarrow> (\<And>x. x \<noteq> w \<Longrightarrow> vars st1 x = vars st x) \<Longrightarrow> writes st st' w k"
  by (simp add: writes_def)

locale mpz_unary =
  fixes op :: "store \<Rightarrow> var \<Rightarrow> var \<Rightarrow> store" and f :: "int \<Rightarrow> int"
  assumes op_writes: "mpz_ok st w \<Longrightarrow> mpz_ok st u \<Longrightarrow> writes st (op st w u) w (f (mpz_val st u))"
begin

lemma op_in_place: "mpz_ok st w \<Longrightarrow> mpz_val (op st w w) w = f (mpz_val st w)"
  using op_writes writes_val by blast

lemma op_keeps_ok: "mpz_ok st w \<Longrightarrow> mpz_ok st u \<Longrightarrow> mpz_ok st x \<Longrightarrow> mpz_ok (op st w u) x"
  using op_writes writes_keeps(1) by blast

lemma op_twice:
  "mpz_ok st w \<Longrightarrow> mpz_ok st u \<Longrightarrow> mpz_val (op (op st w u) w w) w = f (f (mpz_val st u))"
  using op_writes [of st w u] op_in_place [of "op st w u" w] by (simp add: writes_def)

end

locale mpz_binary =
  fixes op :: "store \<Rightarrow> var \<Rightarrow> var \<Rightarrow> var \<Rightarrow> store" and f :: "int \<Rightarrow> int \<Rightarrow> int"
  assumes op_writes:
    "mpz_ok st w \<Longrightarrow> mpz_ok st u \<Longrightarrow> mpz_ok st v \<Longrightarrow>
     writes st (op st w u v) w (f (mpz_val st u) (mpz_val st v))"
begin

lemma op_keeps_ok:
  "mpz_ok st w \<Longrightarrow> mpz_ok st u \<Longrightarrow> mpz_ok st v \<Longrightarrow> mpz_ok st x \<Longrightarrow> mpz_ok (op st w u v) x"
  using op_writes writes_keeps(1) by blast

lemma op_accumulate:
  "mpz_ok st w \<Longrightarrow> mpz_ok st v \<Longrightarrow> mpz_val (op st w w v) w = f (mpz_val st w) (mpz_val st v)"
  using op_writes writes_val by blast

lemma op_self: "mpz_ok st w \<Longrightarrow> mpz_val (op st w w w) w = f (mpz_val st w) (mpz_val st w)"
  using op_writes writes_val by blast

text \<open>A left fold of the operation over a list of variables other than the accumulator.\<close>

lemma op_fold:
  assumes "\<forall>x \<in> set (w # xs). mpz_ok st x" "w \<notin> set xs"
  shows "writes st (foldl (\<lambda>s x. op s w w x) st xs) w (foldl f (mpz_val st w) (map (mpz_val st) xs))"
  using assms
proof (induction xs arbitrary: st)
  case Nil
  then show ?case by (simp add: writes_def)
next
  case (Cons x xs)
  let ?st = "op st w w x"
  have w1: "writes st ?st w (f (mpz_val st w) (mpz_val st x))"
    using Cons.prems by (intro op_writes) auto
  have ok: "\<forall>y \<in> set (w # xs). mpz_ok ?st y"
    using writes_keeps(1) [OF w1] Cons.prems by auto
  have vs: "map (mpz_val ?st) xs = map (mpz_val st) xs"
    using writes_keeps(2) [OF w1] Cons.prems by (auto intro!: map_cong)
  from Cons.IH [OF ok] Cons.prems have
    "writes ?st (foldl (\<lambda>s x. op s w w x) ?st xs) w (foldl f (mpz_val ?st w) (map (mpz_val ?st) xs))"
    by simp
  then have "writes ?st (foldl (\<lambda>s x. op s w w x) ?st xs) w
      (foldl f (f (mpz_val st w) (mpz_val st x)) (map (mpz_val st) xs))"
    unfolding vs writes_val [OF w1] .
  then show ?case using writes_trans [OF w1] by simp
qed

end

locale mpz_word =
  fixes op :: "store \<Rightarrow> var \<Rightarrow> var \<Rightarrow> limb \<Rightarrow> store" and f :: "int \<Rightarrow> limb \<Rightarrow> int"
  assumes op_writes:
    "mpz_ok st w \<Longrightarrow> mpz_ok st u \<Longrightarrow> writes st (op st w u v) w (f (mpz_val st u) v)"
begin

lemma op_keeps_ok: "mpz_ok st w \<Longrightarrow> mpz_ok st u \<Longrightarrow> mpz_ok st x \<Longrightarrow> mpz_ok (op st w u v) x"
  using op_writes writes_keeps(1) by blast

lemma op_in_place: "mpz_ok st w \<Longrightarrow> mpz_val (op st w w v) w = f (mpz_val st w) v"
  using op_writes writes_val by blast

text \<open>A run of in-place updates, as a digit-by-digit conversion performs them.\<close>

lemma op_fold:
  assumes "mpz_ok st w"
  shows "writes st (foldl (\<lambda>s v. op s w w v) st vs) w (foldl f (mpz_val st w) vs)"
  using assms
proof (induction vs arbitrary: st)
  case Nil
  then show ?case by (simp add: writes_def)
next
  case (Cons v vs)
  have w1: "writes st (op st w w v) w (f (mpz_val st w) v)"
    using Cons.prems by (intro op_writes)
  from Cons.IH [OF writes_ok [OF w1]] show ?case
    using writes_trans [OF w1] writes_val [OF w1] by simp
qed

end

subsection \<open>Writing a result\<close>

text \<open>
  The last steps of almost every operation: make room for \<open>n\<close> limbs, store a vector, set the
  signed size.
\<close>

lemma writes_put_result:
  assumes "length (PTR st1 w) = ALLOC st1 w" "1 \<le> ALLOC st1 w" "length xs \<le> ALLOC st1 w"
    and "nat \<bar>k\<bar> \<le> length xs" "k \<noteq> 0 \<Longrightarrow> xs ! (nat \<bar>k\<bar> - 1) \<noteq> 0"
    and "\<And>x. x \<noteq> w \<Longrightarrow> vars st1 x = vars st x"
  shows "writes st (set_SIZ (put_limbs st1 w 0 xs) w k) w (sgn k * lval (take (nat \<bar>k\<bar>) xs))"
  using put_result [OF assms(1-5)] assms(6) by (intro writesI) auto

lemma store_result:
  assumes "mpz_ok st w" "length xs \<le> n"
    and "nat \<bar>k\<bar> \<le> length xs" "k \<noteq> 0 \<Longrightarrow> xs ! (nat \<bar>k\<bar> - 1) \<noteq> 0"
  shows "writes st (set_SIZ (put_limbs (MPZ_REALLOC st w n) w 0 xs) w k) w
           (sgn k * lval (take (nat \<bar>k\<bar>) xs))"
  using assms MPZ_REALLOC_block [OF assms(1), of n] by (intro writes_put_result) auto

text \<open>A normalised vector \<open>xs\<close> of length \<open>n\<close> stored with sign \<open>s\<close>.\<close>

lemma store_signed:
  assumes "mpz_ok st w" "length xs \<le> n" "m = length xs" "xs \<noteq> [] \<Longrightarrow> last xs \<noteq> 0"
    and "k = int m \<or> k = - int m"
  shows "writes st (set_SIZ (put_limbs (MPZ_REALLOC st w n) w 0 xs) w k) w
           (if k < 0 then - lval xs else lval xs)"
proof -
  have "writes st (set_SIZ (put_limbs (MPZ_REALLOC st w n) w 0 xs) w k) w
          (sgn k * lval (take (nat \<bar>k\<bar>) xs))"
    using assms by (intro store_result) (auto simp: last_conv_nth)
  moreover have "sgn k * lval (take (nat \<bar>k\<bar>) xs) = (if k < 0 then - lval xs else lval xs)"
    using assms(3,5) by (cases "xs = []") auto
  ultimately show ?thesis by simp
qed

lemma take_PTR_mag:
  assumes "mpz_ok st w" "mpz_ok st u"
  shows "take (ABSIZ st u) (PTR (MPZ_REALLOC st w n) u) = mag st u"
  using take_PTR_MPZ_REALLOC [OF assms, of "ABSIZ st u" n] assms(2) by (simp add: mag_def mpz_ok_def)

lemma copy_writes:
  assumes "mpz_ok st w" "mpz_ok st u" "k = SIZ st u \<or> k = - SIZ st u"
  shows "writes st
     (set_SIZ (put_limbs (MPZ_REALLOC st w (ABSIZ st u)) w 0
        (take (ABSIZ st u) (PTR (MPZ_REALLOC st w (ABSIZ st u)) u))) w k) w
     (if k < 0 then - lval (mag st u) else lval (mag st u))"
  unfolding take_PTR_mag [OF assms(1,2)] using assms
  by (intro store_signed)
    (auto simp: length_mag mag_eq_Nil_iff last_mag_ne_0 ABSIZ_def)

lemma resize_writes:
  assumes "mpz_ok st w" "k = SIZ st w \<or> k = - SIZ st w"
  shows "writes st (set_SIZ st w k) w (if k < 0 then - lval (mag st w) else lval (mag st w))"
  using assms set_SIZ_result [of st w k]
  by (cases "SIZ st w = 0"; intro writesI) (auto simp: mpz_ok_def ABSIZ_def mag_def sgn_if)

subsection \<open>Assignment and sign\<close>

lemma mpz_set_writes:
  assumes "mpz_ok st w" "mpz_ok st u"
  shows "writes st (mpz_set st w u) w (mpz_val st u)"
  using copy_writes [OF assms, of "SIZ st u"] mpz_val_pos [OF assms(2)] mpz_val_neg [of st u]
  by (auto simp: mpz_set_def Let_def ABSIZ_def split: if_splits)

lemma mpz_neg_writes:
  assumes "mpz_ok st w" "mpz_ok st u"
  shows "writes st (mpz_neg st w u) w (- mpz_val st u)"
  using copy_writes [OF assms, of "- SIZ st u"] resize_writes [OF assms(1), of "- SIZ st w"]
    mpz_val_pos [OF assms(2)] mpz_val_neg [of st u] mag_eq_Nil_iff [OF assms(2)]
  by (cases "SIZ st u = 0") (auto simp: mpz_neg_def Let_def ABSIZ_def split: if_splits)

lemma mpz_abs_writes:
  assumes "mpz_ok st w" "mpz_ok st u"
  shows "writes st (mpz_abs st w u) w \<bar>mpz_val st u\<bar>"
  using copy_writes [OF assms, of "\<bar>SIZ st u\<bar>"] resize_writes [OF assms(1), of "\<bar>SIZ st w\<bar>"]
    lval_mag_abs [OF assms(2)]
  by (auto simp: mpz_abs_def Let_def ABSIZ_def abs_if split: if_splits)

interpretation set: mpz_unary mpz_set "\<lambda>k. k"
  by unfold_locales (rule mpz_set_writes)

interpretation neg: mpz_unary mpz_neg uminus
  by unfold_locales (rule mpz_neg_writes)

interpretation abs: mpz_unary mpz_abs abs
  by unfold_locales (rule mpz_abs_writes)

lemma put_one_limb:
  assumes "length (PTR st1 w) = ALLOC st1 w" "1 \<le> ALLOC st1 w"
    and "k = of_bool (vl \<noteq> 0) \<or> k = - of_bool (vl \<noteq> 0)"
    and "\<And>x. x \<noteq> w \<Longrightarrow> vars st1 x = vars st x"
  shows "writes st (set_SIZ (put_limbs st1 w 0 [vl]) w k) w (if k < 0 then - uint vl else uint vl)"
proof -
  have "writes st (set_SIZ (put_limbs st1 w 0 [vl]) w k) w (sgn k * lval (take (nat \<bar>k\<bar>) [vl]))"
    using assms by (intro writes_put_result) auto
  moreover have "sgn k * lval (take (nat \<bar>k\<bar>) [vl]) = (if k < 0 then - uint vl else uint vl)"
    using assms(3) by (cases "vl = 0") auto
  ultimately show ?thesis by simp
qed

lemma mpz_set_ui_writes:
  assumes "mpz_ok st w"
  shows "writes st (mpz_set_ui st w val) w (uint val)"
  using put_one_limb [of st w "of_bool (val \<noteq> 0)" val st] assms
  by (cases "val = 0") (simp_all add: mpz_set_ui_def mpz_ok_def)

text \<open>The absolute value of a signed word, read as an unsigned one.\<close>

lemma sint_limb_nonneg_iff: "0 \<le> sint (x :: limb) \<longleftrightarrow> uint x < 2 ^ 63"
  using uint_lt_B [of x] by (auto simp: sint_limb B_def)

lemma uint_neg_of_sint: "\<not> 0 \<le> sint x \<Longrightarrow> uint (- x) = - sint (x :: limb)"
  using uint_lt_B [of x] by (auto simp: sint_limb uint_neg_limb limb_eq_0_iff)

lemma mpz_set_si_limb:
  assumes "vl = (if 0 \<le> sint val then val else - val)"
    and "k = (if 0 \<le> sint val then of_bool (vl \<noteq> 0) else - of_bool (vl \<noteq> 0) :: int)"
  shows "(if k < 0 then - uint vl else uint vl) = sint (val :: limb)"
  using assms uint_neg_of_sint [of val] uint_lt_B [of val]
  by (auto simp: sint_limb not_le simp del: uint_lt_B split: if_splits)

lemma mpz_set_si_writes:
  assumes "mpz_ok st w"
  shows "writes st (mpz_set_si st w val) w (sint val)"
proof -
  let ?vl = "if 0 \<le> sint val then val else - val"
  let ?k = "if 0 \<le> sint val then of_bool (?vl \<noteq> 0) else - of_bool (?vl \<noteq> 0) :: int"
  have "writes st (set_SIZ (put_limbs st w 0 [?vl]) w ?k) w (if ?k < 0 then - uint ?vl else uint ?vl)"
    using assms by (intro put_one_limb) (auto simp: mpz_ok_def)
  then show ?thesis unfolding mpz_set_si_limb [OF refl refl]
    by (simp only: mpz_set_si_def Let_def)
qed

lemma length_fresh_block [simp]: "length (fresh_block st n) = n"
  by (simp add: fresh_block_def)

lemma mpz_init_writes: "writes st (mpz_init st w) w 0"
  by (simp add: writes_def mpz_init_def mpz_ok_def mpz_val_def ABSIZ_def)

lemma mpz_init2_writes: "writes st (mpz_init2 st w bits) w 0"
  by (simp add: writes_def mpz_init2_def mpz_ok_def mpz_val_def ABSIZ_def Let_def)

lemma mpz_init_set_ui_writes: "writes st (mpz_init_set_ui st w val) w (uint val)"
  using put_one_limb [of "set_var st w ((vars st w)\<lparr>mp_alloc := 1, mp_d := fresh_block st 1\<rparr>)" w
      "of_bool (val \<noteq> 0)" val st]
  by (cases "val = 0") (simp_all add: mpz_init_set_ui_def)

lemma mpz_init_set_si_writes: "writes st (mpz_init_set_si st w val) w (sint val)"
proof -
  let ?vl = "if 0 \<le> sint val then val else - val"
  let ?k = "if 0 \<le> sint val then of_bool (?vl \<noteq> 0) else - of_bool (?vl \<noteq> 0) :: int"
  let ?st = "set_var st w ((vars st w)\<lparr>mp_alloc := 1, mp_d := fresh_block st 1\<rparr>)"
  have "writes st (set_SIZ (put_limbs ?st w 0 [?vl]) w ?k) w (if ?k < 0 then - uint ?vl else uint ?vl)"
    by (intro put_one_limb) auto
  then show ?thesis unfolding mpz_set_si_limb [OF refl refl]
    by (simp only: mpz_init_set_si_def Let_def)
qed

lemma mpz_init_set_writes:
  assumes "mpz_ok st u" "u \<noteq> w"
  shows "writes st (mpz_init_set st w u) w (mpz_val st u)"
proof -
  let ?n = "max (ABSIZ st u) 1"
  let ?st = "set_var st w ((vars st w)\<lparr>mp_alloc := ?n, mp_d := fresh_block st ?n\<rparr>)"
  have "writes st (set_SIZ (put_limbs ?st w 0 (mag st u)) w (SIZ st u)) w
      (sgn (SIZ st u) * lval (take (nat \<bar>SIZ st u\<bar>) (mag st u)))"
    using assms last_mag_ne_0 [OF assms(1)] length_mag [OF assms(1)] mag_eq_Nil_iff [OF assms(1)]
    by (intro writes_put_result) (auto simp: ABSIZ_def last_conv_nth)
  then show ?thesis
    using assms length_mag [OF assms(1)]
    by (simp add: mpz_init_set_def mpz_val_def mag_def ABSIZ_def Let_def)
qed

lemma mpz_swap_vars: "vars (mpz_swap st u v) = (vars st)(u := vars st v, v := vars st u)"
  by (auto simp: mpz_swap_def Let_def fun_eq_iff set_SIZ_def)

lemma mpz_swap_involutive: "vars (mpz_swap (mpz_swap st u v) u v) = vars st"
  by (simp add: mpz_swap_vars fun_eq_iff)

lemma mpz_realloc_grow_writes:
  assumes "mpz_ok st w" "ABSIZ st w \<le> n"
  shows "writes st (mpz_realloc st w n) w (mpz_val st w)" "ALLOC (mpz_realloc st w n) w = max n 1"
  using assms
  by (auto simp: writes_def mpz_realloc_def Let_def mpz_ok_def mpz_val_def mag_def ABSIZ_def
      take_realloc_limbs realloc_limbs_def nth_append min_def)

lemma mpz_realloc_shrink_writes:
  assumes "mpz_ok st w" "n < ABSIZ st w" "1 < ABSIZ st w"
  shows "writes st (mpz_realloc st w n) w 0"
  using assms by (auto simp: writes_def mpz_realloc_def Let_def mpz_ok_def mpz_val_def ABSIZ_def)

subsection \<open>Comparison\<close>

lemma INT_LIMBS_less: "int INT_LIMBS * 8 < 2 ^ 31"
  by (simp add: INT_LIMBS_def of_nat_diff)

lemma int_sized_small: "\<bar>k\<bar> < B ^ m \<Longrightarrow> m \<le> 1000 \<Longrightarrow> int_sized k"
proof -
  assume k: "\<bar>k\<bar> < B ^ m" and "m \<le> 1000"
  then have "B ^ m \<le> B ^ INT_LIMBS" by (intro power_increasing) (simp_all add: INT_LIMBS_def B_ge_1)
  with k show ?thesis unfolding int_sized_def by (rule less_le_trans)
qed

lemma c_int_small: "- (2 ^ 31) \<le> k \<Longrightarrow> k < 2 ^ 31 \<Longrightarrow> c_int k = k"
  by (simp add: c_int_def signed_take_bit_int_eq_self)

lemma c_int_eq: "c_int k = (k + 2 ^ 31) mod 2 ^ 32 - 2 ^ 31"
  by (simp add: c_int_def signed_take_bit_eq_take_bit_shift take_bit_eq_mod)

lemma c_int_range: "- (2 ^ 31) \<le> c_int k \<and> c_int k < 2 ^ 31"
  unfolding c_int_eq by simp

text \<open>A nonzero difference of two numbers of type \<^verbatim>\<open>int\<close> that is no \<^verbatim>\<open>int\<close> changes its sign.\<close>

lemma c_int_sgn:
  assumes "\<bar>k\<bar> < 2 ^ 32"
  shows "sgn (c_int k) = sgn k \<longleftrightarrow> c_int k = k"
proof -
  consider "- (2 ^ 31) \<le> k \<and> k < 2 ^ 31" | "2 ^ 31 \<le> k" | "k < - (2 ^ 31)" by linarith
  then show ?thesis
  proof cases
    case 1
    then show ?thesis by (simp add: c_int_small)
  next
    case 2
    have "(k - 2 ^ 31) mod 2 ^ 32 = k - 2 ^ 31" using 2 assms by (intro mod_pos_pos_trivial) auto
    then have "c_int k = k - 2 ^ 32"
      using mod_add_self2 [of "k - 2 ^ 31" "2 ^ 32"] unfolding c_int_eq by (simp add: algebra_simps)
    then show ?thesis using 2 assms by (simp add: sgn_if)
  next
    case 3
    have "(k + 2 ^ 31 + 2 ^ 32) mod 2 ^ 32 = k + 2 ^ 31 + 2 ^ 32" using 3 assms by (intro mod_pos_pos_trivial) auto
    then have "c_int k = k + 2 ^ 32" using mod_add_self2 [of "k + 2 ^ 31" "2 ^ 32"] unfolding c_int_eq by linarith
    then show ?thesis using 3 assms by (simp add: sgn_if)
  qed
qed

text \<open>More limbs, larger magnitude; hence a larger signed size is a larger value.\<close>

lemma mag_less_of_size:
  assumes "mpz_ok st u" "mpz_ok st v" "ABSIZ st u < ABSIZ st v"
  shows "lval (mag st u) < lval (mag st v)"
  using assms last_mag_ne_0 [OF assms(2)]
  by (intro lval_shorter_lt) (auto simp: length_mag mag_eq_Nil_iff ABSIZ_def)

lemma val_less_of_size:
  assumes "mpz_ok st u" "mpz_ok st v" "SIZ st u < SIZ st v"
  shows "mpz_val st u < mpz_val st v"
proof -
  consider "SIZ st u < 0" "0 \<le> SIZ st v" | "SIZ st u < 0" "SIZ st v < 0" | "0 \<le> SIZ st u"
    by linarith
  then show ?thesis
  proof cases
    case 1
    then show ?thesis
      using lval_mag_pos [OF assms(1)] lval_nonneg [of "mag st v"] mpz_val_pos [OF assms(2)]
        mpz_val_neg [of st u] by linarith
  next
    case 2
    then show ?thesis
      using assms mag_less_of_size [of st v u] by (simp add: mpz_val_neg ABSIZ_def)
  next
    case 3
    then show ?thesis
      using assms mag_less_of_size [of st u v] by (simp add: mpz_val_pos ABSIZ_def)
  qed
qed

lemma sgn_eqI:
  "(j < k \<Longrightarrow> a < b) \<Longrightarrow> (k < j \<Longrightarrow> b < a) \<Longrightarrow> j \<noteq> k \<Longrightarrow> sgn (j - k) = sgn (a - b)"
  for j k a b :: int
  by (cases "j < k") auto

lemma mpn_cmp_mag:
  assumes "mpz_ok st u" "mpz_ok st v" "ABSIZ st u = ABSIZ st v"
  shows "mpn_cmp (PTR st u) (PTR st v) (ABSIZ st u) = sgn (lval (mag st u) - lval (mag st v))"
  using mpn_cmp_value [of "ABSIZ st u" "PTR st u" "PTR st v"] assms
  by (simp add: mag_def mpz_ok_def)

lemma mpz_cmp_same_size:
  assumes "mpz_ok st u" "mpz_ok st v" "SIZ st u = SIZ st v"
  shows "sgn (mpz_cmp st u v) = sgn (mpz_val st u - mpz_val st v)"
proof -
  from assms(3) have A: "ABSIZ st u = ABSIZ st v" by (simp add: ABSIZ_def)
  have "mpz_cmp st u v =
      (if 0 \<le> SIZ st u then mpn_cmp (PTR st u) (PTR st v) (ABSIZ st u)
       else - mpn_cmp (PTR st u) (PTR st v) (ABSIZ st u))"
    using assms(3) by (simp add: mpz_cmp_def ABSIZ_def Let_def)
  also have "\<dots> = (if 0 \<le> SIZ st u then sgn (lval (mag st u) - lval (mag st v))
       else sgn (lval (mag st v) - lval (mag st u)))"
    unfolding mpn_cmp_mag [OF assms(1,2) A] by (simp flip: sgn_minus)
  also have "\<dots> = sgn (mpz_val st u - mpz_val st v)"
    using assms by (simp add: mpz_val_pos mpz_val_neg)
  finally show ?thesis by simp
qed

text \<open>Otherwise the sign is that of the difference of the sizes, after its reduction to \<^verbatim>\<open>int\<close>.\<close>

lemma mpz_cmp_other_size:
  assumes "mpz_ok st u" "mpz_ok st v" "SIZ st u \<noteq> SIZ st v"
  shows "mpz_cmp st u v = c_int (SIZ st u - SIZ st v)" "sgn (SIZ st u - SIZ st v) = sgn (mpz_val st u - mpz_val st v)"
  using assms(3) sgn_eqI [OF val_less_of_size [OF assms(1,2)] val_less_of_size [OF assms(2,1)]]
  by (simp_all add: mpz_cmp_def)

lemma mpz_cmp_sign:
  assumes "mpz_ok st u" "mpz_ok st v" "ABSIZ st u < 2 ^ 30" "ABSIZ st v < 2 ^ 30"
  shows "sgn (mpz_cmp st u v) = sgn (mpz_val st u - mpz_val st v)"
proof (cases "SIZ st u = SIZ st v")
  case False
  have "c_int (SIZ st u - SIZ st v) = SIZ st u - SIZ st v"
    using assms(3,4) by (intro c_int_small) (auto simp: ABSIZ_def)
  then show ?thesis using mpz_cmp_other_size [OF assms(1,2) False] by simp
qed (rule mpz_cmp_same_size [OF assms(1,2)])

text \<open>For any two sizes of type \<^verbatim>\<open>int\<close> the comparison is right exactly when their difference is an \<^verbatim>\<open>int\<close>.\<close>

lemma mpz_cmp_sign_iff:
  assumes "mpz_ok st u" "mpz_ok st v"
    and "c_int (SIZ st u) = SIZ st u" "c_int (SIZ st v) = SIZ st v"
  shows "sgn (mpz_cmp st u v) = sgn (mpz_val st u - mpz_val st v) \<longleftrightarrow> c_int (SIZ st u - SIZ st v) = SIZ st u - SIZ st v"
proof (cases "SIZ st u = SIZ st v")
  case True
  then show ?thesis using mpz_cmp_same_size [OF assms(1,2) True] by (simp add: c_int_small)
next
  case False
  have "\<bar>SIZ st u - SIZ st v\<bar> < 2 ^ 32" using c_int_range [of "SIZ st u"] c_int_range [of "SIZ st v"] assms(3,4) by auto
  then show ?thesis using mpz_cmp_other_size [OF assms(1,2) False] c_int_sgn [of "SIZ st u - SIZ st v"] by simp
qed

lemma mpz_cmpabs_sign:
  assumes "mpz_ok st u" "mpz_ok st v" "ABSIZ st u < 2 ^ 30" "ABSIZ st v < 2 ^ 30"
  shows "sgn (mpz_cmpabs st u v) = sgn (\<bar>mpz_val st u\<bar> - \<bar>mpz_val st v\<bar>)"
proof (cases "ABSIZ st u = ABSIZ st v")
  case False
  have "c_int (int (ABSIZ st u) - int (ABSIZ st v)) = int (ABSIZ st u) - int (ABSIZ st v)"
    using assms(3,4) by (intro c_int_small) auto
  moreover have "sgn (int (ABSIZ st u) - int (ABSIZ st v)) = sgn (lval (mag st u) - lval (mag st v))"
    using False mag_less_of_size [OF assms(1,2)] mag_less_of_size [OF assms(2,1)]
    by (intro sgn_eqI) auto
  ultimately show ?thesis
    using False assms(1,2) by (simp add: mpz_cmpabs_def lval_mag_abs)
next
  case True
  then show ?thesis
    using mpn_cmp_mag [OF assms(1,2) True]
    by (simp add: mpz_cmpabs_def Let_def
        flip: lval_mag_abs [OF assms(1)] lval_mag_abs [OF assms(2)])
qed

text \<open>A variable of one limb, and one of several.\<close>

lemma mag_one_limb: "mpz_ok st u \<Longrightarrow> ABSIZ st u = 1 \<Longrightarrow> lval (mag st u) = uint (PTR st u ! 0)"
  by (cases "PTR st u") (auto simp: mag_def mpz_ok_def)

lemma mag_many_limbs:
  assumes "mpz_ok st u" "2 \<le> ABSIZ st u"
  shows "B \<le> lval (mag st u)"
proof -
  have "mag st u \<noteq> []" "last (mag st u) \<noteq> 0"
    using assms last_mag_ne_0 [OF assms(1)] mag_eq_Nil_iff [OF assms(1)] by (auto simp: ABSIZ_def)
  then have "B ^ (ABSIZ st u - 1) \<le> lval (mag st u)"
    using lval_ge_of_last [of "mag st u"] length_mag [OF assms(1)] by simp
  moreover have "B ^ 1 \<le> B ^ (ABSIZ st u - 1)"
    using assms(2) by (intro power_increasing) auto
  ultimately show ?thesis by simp
qed

lemma mag_ge_B_iff: "mpz_ok st u \<Longrightarrow> B \<le> lval (mag st u) \<longleftrightarrow> 2 \<le> ABSIZ st u"
proof
  assume ok: "mpz_ok st u" and "B \<le> lval (mag st u)"
  then have "B ^ 1 < B ^ ABSIZ st u" if "ABSIZ st u \<noteq> 1"
    using lval_lt [of "mag st u"] length_mag [OF ok] that
    by (cases "ABSIZ st u = 0") (auto intro: power_strict_increasing)
  moreover have "ABSIZ st u \<noteq> 1"
    using \<open>B \<le> lval (mag st u)\<close> mag_one_limb [OF ok] uint_lt_B [of "PTR st u ! 0"] by linarith
  ultimately show "2 \<le> ABSIZ st u"
    using power_strict_increasing_iff [of B 1 "ABSIZ st u"] by simp
qed (rule mag_many_limbs)

lemma size_cases:
  obtains (zero) "SIZ st u = 0" "ABSIZ st u = 0" | (one) "\<bar>SIZ st u\<bar> = 1" "ABSIZ st u = 1"
  | (many) "2 \<le> \<bar>SIZ st u\<bar>" "2 \<le> ABSIZ st u"
proof -
  consider "SIZ st u = 0" | "\<bar>SIZ st u\<bar> = 1" | "2 \<le> \<bar>SIZ st u\<bar>" by linarith
  then show thesis by cases (use that in \<open>auto simp: ABSIZ_def\<close>)
qed

lemma mpz_cmpabs_ui_sign:
  assumes "mpz_ok st u"
  shows "mpz_cmpabs_ui st u v = sgn (\<bar>mpz_val st u\<bar> - uint v)"
proof (cases rule: size_cases [of st u])
  case zero
  then have "mpz_val st u = 0" using mpz_val_eq_0_iff [OF assms] by simp
  then show ?thesis using zero
    by (auto simp: mpz_cmpabs_ui_def limb_eq_0_iff order_less_le)
next
  case one
  then show ?thesis using mag_one_limb [OF assms] lval_mag_abs [OF assms]
    by (auto simp: mpz_cmpabs_ui_def Let_def less_limb_iff)
next
  case many
  then have "0 < \<bar>mpz_val st u\<bar> - uint v"
    using mag_many_limbs [OF assms] lval_mag_abs [OF assms] uint_lt_B [of v] by linarith
  then show ?thesis using many by (auto simp: mpz_cmpabs_ui_def Let_def)
qed

lemma mpz_cmp_ui_sign:
  assumes "mpz_ok st u"
  shows "mpz_cmp_ui st u v = sgn (mpz_val st u - uint v)"
proof (cases "SIZ st u < 0")
  case True
  then show ?thesis
    using lval_mag_pos [OF assms] mpz_val_neg [of st u] order_less_le_trans [of "mpz_val st u" 0 "uint v"]
    by (auto simp: mpz_cmp_ui_def Let_def)
next
  case False
  then have "mpz_cmp_ui st u v = mpz_cmpabs_ui st u v"
    by (simp add: mpz_cmp_ui_def mpz_cmpabs_ui_def Let_def)
  then show ?thesis
    using mpz_cmpabs_ui_sign [OF assms] False mpz_val_pos [OF assms] by simp
qed

text \<open>The value by the signed size, and the bounds of a signed word.\<close>

lemma val_by_size:
  assumes "mpz_ok st u"
  shows "SIZ st u = 1 \<Longrightarrow> mpz_val st u = uint (PTR st u ! 0)"
    and "SIZ st u = - 1 \<Longrightarrow> mpz_val st u = - uint (PTR st u ! 0)"
    and "2 \<le> SIZ st u \<Longrightarrow> B \<le> mpz_val st u"
    and "SIZ st u \<le> - 2 \<Longrightarrow> mpz_val st u \<le> - B"
    and "0 < SIZ st u \<Longrightarrow> 0 < mpz_val st u"
    and "SIZ st u < 0 \<Longrightarrow> mpz_val st u < 0"
    and "SIZ st u = 0 \<Longrightarrow> mpz_val st u = 0"
  using assms mag_one_limb [OF assms] mag_many_limbs [OF assms] lval_mag_pos [OF assms]
    mpz_val_eq_0_iff [OF assms]
  by (auto simp: mpz_val_pos mpz_val_neg ABSIZ_def)

lemma sint_limb_bounds: "- B < sint (v :: limb)" "sint (v :: limb) < B"
proof -
  have "0 \<le> uint v" "uint v < B" "(2 :: int) ^ 63 < B" "0 < (2 :: int) ^ 63"
    by (simp_all add: B_def [symmetric]) (simp add: B_def)
  then show "- B < sint v" "sint v < B"
    unfolding sint_limb by (linarith | (split if_split, linarith))+
qed

lemma uint_abs_sint:
  "uint (if sint v < 0 then - v else v) = \<bar>sint (v :: limb)\<bar>"
  using uint_neg_of_sint [of v] sint_limb_nonneg_iff [of v] by (auto simp: sint_limb)

lemma cmp_size_si:
  fixes v :: limb
  assumes "mpz_ok st u" "SIZ st u \<noteq> sgn (sint v)"
  shows "sgn (SIZ st u - sgn (sint v)) = sgn (mpz_val st u - sint v)"
  using assms(2) sint_limb_bounds [of v] val_by_size [OF assms(1)]
  by (intro sgn_eqI; cases "sint v" "0 :: int" rule: linorder_cases) (force simp: not_less)+

text \<open>
  \<^verbatim>\<open>mpz_cmp_si\<close> compares signed sizes first, as if the word were a one-limb variable.
\<close>

lemma mpz_cmp_si_sign:
  fixes v :: limb
  assumes "mpz_ok st u" "ABSIZ st u < 2 ^ 30"
  shows "sgn (mpz_cmp_si st u v) = sgn (mpz_val st u - sint v)"
proof -
  let ?d = "if sint v < 0 then - v else v"
  have sz: "(if sint v > 0 then 1 else if sint v < 0 then - 1 else 0) = sgn (sint v)"
    by (simp add: sgn_if)
  have ci: "c_int (SIZ st u - sgn (sint v)) = SIZ st u - sgn (sint v)" "c_int 1 = 1" "c_int (- 1) = - 1"
    using assms(2) by (auto intro!: c_int_small simp: ABSIZ_def sgn_if)
  consider "SIZ st u \<noteq> sgn (sint v)" | "SIZ st u = 0" "sint v = 0"
    | "SIZ st u = 1" "0 < sint v" | "SIZ st u = - 1" "sint v < 0"
    by (cases "sint v" "0 :: int" rule: linorder_cases) auto
  then show ?thesis
  proof cases
    case 1
    then show ?thesis using cmp_size_si [OF assms(1) 1]
      by (simp add: mpz_cmp_si_def sz ci(1))
  next
    case 2
    then show ?thesis using val_by_size(7) [OF assms(1)] by (simp add: mpz_cmp_si_def)
  next
    case 3
    then show ?thesis using val_by_size(1) [OF assms(1)] uint_abs_sint [of v]
      by (auto simp: mpz_cmp_si_def Let_def ci less_limb_iff eq_limb_iff)
  next
    case 4
    then show ?thesis using val_by_size(2) [OF assms(1)] uint_abs_sint [of v]
      by (auto simp: mpz_cmp_si_def Let_def ci less_limb_iff eq_limb_iff)
  qed
qed

subsection \<open>Conversion to machine words\<close>

lemma mpz_get_ui_value:
  assumes "mpz_ok st u"
  shows "uint (mpz_get_ui st u) = \<bar>mpz_val st u\<bar> mod B"
proof (cases "SIZ st u = 0")
  case False
  then have "lval (mag st u) mod B = uint (PTR st u ! 0)"
    using mag_Cons [OF assms] by (metis lval_mod_B)
  then show ?thesis using False lval_mag_abs [OF assms] by (simp add: mpz_get_ui_def)
qed (simp add: mpz_get_ui_def)

text \<open>
  \<^verbatim>\<open>mpz_get_si\<close> of a value that fits a \<^verbatim>\<open>signed long\<close> is that value; otherwise it keeps the
  sign and the low 63 bits.
\<close>

lemma uint_and_LONG_MAX: "uint (x AND LONG_MAX) = uint x mod 2 ^ 63"
proof -
  have "LONG_MAX = mask 63" by (simp add: LONG_MAX_def mask_eq_exp_minus_1)
  then have "x AND LONG_MAX = take_bit 63 x" by (simp only: take_bit_eq_mask)
  then show ?thesis by (simp only: unsigned_take_bit_eq) (simp add: take_bit_eq_mod)
qed

lemma sint_not_limb: "uint (x :: limb) < 2 ^ 63 \<Longrightarrow> sint (NOT x) = - uint x - 1"
  using uint_not_limb [of x] by (auto simp: sint_limb B_def)

lemma mod_B_mod: "k mod B mod 2 ^ 63 = k mod 2 ^ 63"
  by (simp add: B_def mod_mod_cancel)

lemma mpz_get_si_value:
  assumes "mpz_ok st u"
  shows "sint (mpz_get_si st u) =
    (if 0 \<le> mpz_val st u then mpz_val st u mod 2 ^ 63
     else - ((\<bar>mpz_val st u\<bar> - 1) mod 2 ^ 63) - 1)"
proof -
  let ?l = "PTR st u ! 0"
  have l: "uint ?l = \<bar>mpz_val st u\<bar> mod B" if "SIZ st u \<noteq> 0"
    using mpz_get_ui_value [OF assms] that by (simp add: mpz_get_ui_def)
  have small: "uint (y AND LONG_MAX) < 2 ^ 63" for y
    unfolding uint_and_LONG_MAX by simp
  consider "SIZ st u = 0" | "0 < SIZ st u" | "SIZ st u < 0" by linarith
  then show ?thesis
  proof cases
    case 1
    then show ?thesis by (simp add: mpz_get_si_def)
  next
    case 2
    then show ?thesis
      using l val_by_size(5) [OF assms] small [of ?l] sint_limb [of "?l AND LONG_MAX"]
        mod_B_mod [of "mpz_val st u"]
      by (simp add: mpz_get_si_def uint_and_LONG_MAX)
  next
    case 3
    have "uint (?l - 1) = (uint ?l - 1) mod B"
      by (simp add: uint_word_ariths(2) B_def)
    then have "uint ((?l - 1) AND LONG_MAX) = (\<bar>mpz_val st u\<bar> - 1) mod 2 ^ 63"
      using l 3 mod_B_mod [of "\<bar>mpz_val st u\<bar> - 1"]
      by (simp add: uint_and_LONG_MAX mod_diff_left_eq)
    then show ?thesis
      using 3 val_by_size(6) [OF assms] sint_not_limb [OF small, of "?l - 1"]
      by (simp add: mpz_get_si_def)
  qed
qed

lemma fits_s_iff:
  assumes "mpz_ok st u"
  shows "fits_s maximum minimum st u \<longleftrightarrow> - uint (- minimum) \<le> mpz_val st u \<and> mpz_val st u \<le> uint maximum"
proof -
  consider "SIZ st u = 0" | "SIZ st u = 1" | "SIZ st u = - 1" | "2 \<le> SIZ st u" | "SIZ st u \<le> - 2"
    by linarith
  then show ?thesis
  proof cases
    case 1
    then show ?thesis by (simp add: fits_s_def)
  next
    case 2
    have "- uint (- minimum) \<le> uint (PTR st u ! 0)"
      using uint_ge_0 [of "- minimum"] uint_ge_0 [of "PTR st u ! 0"] by linarith
    then show ?thesis using val_by_size(1) [OF assms] 2 by (simp add: fits_s_def Let_def le_limb_iff)
  next
    case 3
    have "- uint (PTR st u ! 0) \<le> uint maximum"
      using uint_ge_0 [of maximum] uint_ge_0 [of "PTR st u ! 0"] by linarith
    then show ?thesis using val_by_size(2) [OF assms] 3 by (simp add: fits_s_def Let_def le_limb_iff)
  next
    case 4
    have "\<not> mpz_val st u \<le> uint maximum"
      using val_by_size(3) [OF assms 4] uint_lt_B [of maximum] by linarith
    then show ?thesis using 4 by (auto simp add: fits_s_def)
  next
    case 5
    have "\<not> - uint (- minimum) \<le> mpz_val st u"
      using val_by_size(4) [OF assms 5] uint_lt_B [of "- minimum"] by linarith
    then show ?thesis using 5 by (auto simp add: fits_s_def)
  qed
qed

lemma fits_utype_p_iff:
  assumes "mpz_ok st u"
  shows "fits_utype_p maxval st u \<longleftrightarrow> 0 \<le> mpz_val st u \<and> mpz_val st u \<le> uint maxval"
proof -
  consider "SIZ st u = 0" | "SIZ st u = 1" | "2 \<le> SIZ st u" | "SIZ st u < 0"
    by linarith
  then show ?thesis
  proof cases
    case 2
    then show ?thesis using val_by_size(1) [OF assms] by (simp add: fits_utype_p_def le_limb_iff)
  next
    case 3
    have "\<not> mpz_val st u \<le> uint maxval"
      using val_by_size(3) [OF assms 3] uint_lt_B [of maxval] by linarith
    then show ?thesis using 3 by (simp add: fits_utype_p_def)
  next
    case 4
    then show ?thesis using val_by_size(6) [OF assms 4] by (simp add: fits_utype_p_def)
  qed (simp add: fits_utype_p_def)
qed

lemma uint_LONG_MAX: "uint LONG_MAX = 2 ^ 63 - 1"
  using uint_and_LONG_MAX [of "- 1"] by (simp add: uint_limb_max B_def)

lemma mpz_fits_slong_p_iff:
  "mpz_ok st u \<Longrightarrow> mpz_fits_slong_p st u \<longleftrightarrow> - (2 ^ 63) \<le> mpz_val st u \<and> mpz_val st u < 2 ^ 63"
  using fits_s_iff [of st u LONG_MAX "push_bit 63 1"] uint_LONG_MAX
  by (auto simp: mpz_fits_slong_p_def)

lemma mpz_fits_sint_p_iff:
  "mpz_ok st u \<Longrightarrow> mpz_fits_sint_p st u \<longleftrightarrow> - (2 ^ 31) \<le> mpz_val st u \<and> mpz_val st u < 2 ^ 31"
  using fits_s_iff [of st u "2 ^ 31 - 1" "- (2 ^ 31)"] by (auto simp: mpz_fits_sint_p_def)

lemma mpz_fits_sshort_p_iff:
  "mpz_ok st u \<Longrightarrow> mpz_fits_sshort_p st u \<longleftrightarrow> - (2 ^ 15) \<le> mpz_val st u \<and> mpz_val st u < 2 ^ 15"
  using fits_s_iff [of st u "2 ^ 15 - 1" "- (2 ^ 15)"] by (auto simp: mpz_fits_sshort_p_def)

lemma mpz_fits_ulong_p_iff:
  "mpz_ok st u \<Longrightarrow> mpz_fits_ulong_p st u \<longleftrightarrow> 0 \<le> mpz_val st u \<and> mpz_val st u < B"
  using fits_utype_p_iff [of st u "- 1"] by (auto simp: mpz_fits_ulong_p_def uint_limb_max)

lemma mpz_fits_uint_p_iff:
  "mpz_ok st u \<Longrightarrow> mpz_fits_uint_p st u \<longleftrightarrow> 0 \<le> mpz_val st u \<and> mpz_val st u < 2 ^ 32"
  using fits_utype_p_iff [of st u "2 ^ 32 - 1"] by (auto simp: mpz_fits_uint_p_def)

lemma mpz_fits_ushort_p_iff:
  "mpz_ok st u \<Longrightarrow> mpz_fits_ushort_p st u \<longleftrightarrow> 0 \<le> mpz_val st u \<and> mpz_val st u < 2 ^ 16"
  using fits_utype_p_iff [of st u "2 ^ 16 - 1"] by (auto simp: mpz_fits_ushort_p_def)

lemma mpz_get_si_exact:
  "mpz_ok st u \<Longrightarrow> mpz_fits_slong_p st u \<Longrightarrow> sint (mpz_get_si st u) = mpz_val st u"
  using mpz_get_si_value [of st u] mpz_fits_slong_p_iff [of st u] by auto

end
