(* ===== verification/Mpn_Mul.thy ===== *)
theory Mpn_Mul
  imports Mpn_Arith
begin

text \<open>
  Multiplication kernels of \<^verbatim>\<open>mpir/mpn/generic\<close>: a vector times a limb, with and without
  accumulation into the destination, and the schoolbook product \<^verbatim>\<open>mpn_mul_basecase\<close>.
\<close>

subsection \<open>One limb at a time (mul\_1.c, addmul\_1.c, submul\_1.c)\<close>

definition mul_1_step :: "limb \<Rightarrow> limb \<Rightarrow> limb \<Rightarrow> limb \<times> limb" where
  "mul_1_step vl cl ul =
     (let (hpl, lpl) = umul_ppmm ul vl;
          lpl = lpl + cl;
          cl = of_bool (lpl < cl) + hpl
      in (lpl, cl))"

fun mul_1_loop :: "limb \<Rightarrow> limb \<Rightarrow> limb list \<Rightarrow> limb list \<times> limb" where
  "mul_1_loop vl cl [] = ([], cl)"
| "mul_1_loop vl cl (ul # up) =
     (let s = mul_1_step vl cl ul; r = mul_1_loop vl (snd s) up in (fst s # fst r, snd r))"

definition mpn_mul_1 :: "limb list \<Rightarrow> limb \<Rightarrow> limb list \<times> limb" where
  "mpn_mul_1 up vl = mul_1_loop vl 0 up"

definition addmul_1_step :: "limb \<Rightarrow> limb \<Rightarrow> limb \<Rightarrow> limb \<Rightarrow> limb \<times> limb" where
  "addmul_1_step vl cl ul rl =
     (let (lpl, cl) = mul_1_step vl cl ul;
          lpl = rl + lpl;
          cl = cl + of_bool (lpl < rl)
      in (lpl, cl))"

fun addmul_1_loop :: "limb \<Rightarrow> limb \<Rightarrow> limb list \<Rightarrow> limb list \<Rightarrow> limb list \<times> limb" where
  "addmul_1_loop vl cl (rl # rp) (ul # up) =
     (let s = addmul_1_step vl cl ul rl; r = addmul_1_loop vl (snd s) rp up in (fst s # fst r, snd r))"
| "addmul_1_loop vl cl _ _ = ([], cl)"

definition mpn_addmul_1 :: "limb list \<Rightarrow> limb list \<Rightarrow> limb \<Rightarrow> limb list \<times> limb" where
  "mpn_addmul_1 rp up vl = addmul_1_loop vl 0 rp up"

definition submul_1_step :: "limb \<Rightarrow> limb \<Rightarrow> limb \<Rightarrow> limb \<Rightarrow> limb \<times> limb" where
  "submul_1_step vl cl ul rl =
     (let (lpl, cl) = mul_1_step vl cl ul;
          lpl = rl - lpl;
          cl = cl + of_bool (lpl > rl)
      in (lpl, cl))"

fun submul_1_loop :: "limb \<Rightarrow> limb \<Rightarrow> limb list \<Rightarrow> limb list \<Rightarrow> limb list \<times> limb" where
  "submul_1_loop vl cl (rl # rp) (ul # up) =
     (let s = submul_1_step vl cl ul rl; r = submul_1_loop vl (snd s) rp up in (fst s # fst r, snd r))"
| "submul_1_loop vl cl _ _ = ([], cl)"

definition mpn_submul_1 :: "limb list \<Rightarrow> limb list \<Rightarrow> limb \<Rightarrow> limb list \<times> limb" where
  "mpn_submul_1 rp up vl = submul_1_loop vl 0 rp up"

lemma length_mul_1_loop [simp]: "length (fst (mul_1_loop vl cl up)) = length up"
  by (induction up arbitrary: cl) (auto simp: Let_def)

lemma length_mpn_mul_1 [simp]: "length (fst (mpn_mul_1 up vl)) = length up"
  by (simp add: mpn_mul_1_def)

lemma length_addmul_1_loop [simp]:
  "length (fst (addmul_1_loop vl cl rp up)) = min (length rp) (length up)"
  by (induction vl cl rp up rule: addmul_1_loop.induct) (auto simp: Let_def)

lemma length_mpn_addmul_1 [simp]:
  "length (fst (mpn_addmul_1 rp up vl)) = min (length rp) (length up)"
  by (simp add: mpn_addmul_1_def)

lemma length_submul_1_loop [simp]:
  "length (fst (submul_1_loop vl cl rp up)) = min (length rp) (length up)"
  by (induction vl cl rp up rule: submul_1_loop.induct) (auto simp: Let_def)

lemma length_mpn_submul_1 [simp]:
  "length (fst (mpn_submul_1 rp up vl)) = min (length rp) (length up)"
  by (simp add: mpn_submul_1_def)

text \<open>One step never loses a carry: \<open>(B - 1)\<^sup>2 + 2 (B - 1) < B\<^sup>2\<close>.\<close>

lemma mul_1_step_value:
  "uint (fst (mul_1_step vl cl ul)) + B * uint (snd (mul_1_step vl cl ul)) = uint ul * uint vl + uint cl"
proof -
  obtain h l where um: "umul_ppmm ul vl = (h, l)" by fastforce
  have c: "uint (of_bool (l + cl < cl) + h) = of_bool (B \<le> uint l + uint cl) + uint h"
    using umul_ppmm_high_lt [OF um]
    by (subst uint_add_limb_no_overflow) (auto simp: add_limb_carry_right)
  have s: "mul_1_step vl cl ul = (l + cl, of_bool (l + cl < cl) + h)"
    by (simp add: mul_1_step_def um Let_def)
  show ?thesis
    unfolding s fst_conv snd_conv c unfolding add_limb_value
    using umul_ppmm_value [OF um] by (simp add: algebra_simps)
qed

lemma limb_square_plus_two:
  fixes a b c d :: limb
  shows "uint a * uint b + uint c + uint d \<le> B * B - 1"
proof -
  have "uint a * uint b \<le> (B - 1) * (B - 1)" by (rule mult_le_of_half) simp_all
  moreover have "(B - 1) * (B - 1) = B * B - 2 * B + 1" by algebra
  ultimately show ?thesis using uint_lt_B [of c] uint_lt_B [of d] by linarith
qed

lemma addmul_1_step_value:
  "uint (fst (addmul_1_step vl cl ul rl)) + B * uint (snd (addmul_1_step vl cl ul rl))
     = uint ul * uint vl + uint rl + uint cl"
proof -
  obtain l c where m: "mul_1_step vl cl ul = (l, c)" by fastforce
  have v: "uint l + B * uint c = uint ul * uint vl + uint cl"
    using mul_1_step_value [of vl cl ul] by (simp add: m)
  have nc: "uint c + 1 < B" if "B \<le> uint rl + uint l"
  proof (rule ccontr)
    assume "\<not> uint c + 1 < B"
    then have "uint c = B - 1" using uint_lt_B [of c] by linarith
    then have "B * uint c = B * B - B" by algebra
    then have "B * B \<le> uint ul * uint vl + uint cl + uint rl" using v that by linarith
    with limb_square_plus_two [of ul vl cl rl] show False by linarith
  qed
  have c: "uint (c + of_bool (rl + l < rl)) = uint c + of_bool (B \<le> uint rl + uint l)"
    using nc by (subst uint_add_limb_no_overflow) (auto simp: add_limb_carry_left)
  have s: "addmul_1_step vl cl ul rl = (rl + l, c + of_bool (rl + l < rl))"
    by (simp add: addmul_1_step_def m Let_def)
  show ?thesis
    unfolding s fst_conv snd_conv c unfolding add_limb_value
    using v by (simp add: algebra_simps)
qed

lemma submul_1_step_value:
  "uint (fst (submul_1_step vl cl ul rl)) - B * uint (snd (submul_1_step vl cl ul rl))
     = uint rl - uint ul * uint vl - uint cl"
proof -
  obtain l c where m: "mul_1_step vl cl ul = (l, c)" by fastforce
  have v: "uint l + B * uint c = uint ul * uint vl + uint cl"
    using mul_1_step_value [of vl cl ul] by (simp add: m)
  have nc: "uint c + 1 < B" if "uint rl < uint l"
  proof (rule ccontr)
    assume "\<not> uint c + 1 < B"
    then have "uint c = B - 1" using uint_lt_B [of c] by linarith
    then have "B * uint c = B * B - B" by algebra
    then have "B * B - B + 1 \<le> uint ul * uint vl + uint cl"
      using v that uint_ge_0 [of rl] by linarith
    moreover have "uint ul * uint vl \<le> (B - 1) * (B - 1)" by (rule mult_le_of_half) simp_all
    moreover have "(B - 1) * (B - 1) = B * B - 2 * B + 1" by algebra
    ultimately show False using uint_lt_B [of cl] by linarith
  qed
  have c: "uint (c + of_bool (rl < rl - l)) = uint c + of_bool (uint rl < uint l)"
    using nc by (subst uint_add_limb_no_overflow) (auto simp: sub_limb_borrow)
  have s: "submul_1_step vl cl ul rl = (rl - l, c + of_bool (rl < rl - l))"
    by (simp add: submul_1_step_def m Let_def)
  show ?thesis
    unfolding s fst_conv snd_conv c unfolding sub_limb_value
    using v by (simp add: algebra_simps)
qed

lemma mul_1_loop_value:
  "lval (fst (mul_1_loop vl cl up)) + B ^ length up * uint (snd (mul_1_loop vl cl up))
     = lval up * uint vl + uint cl"
proof (induction up arbitrary: cl)
  case (Cons ul up)
  have "uint (fst (mul_1_step vl cl ul)) + B * uint (snd (mul_1_step vl cl ul))
      = uint ul * uint vl + 0 + uint cl"
    using mul_1_step_value by simp
  from lval_chain_add [OF this, of _ _ _ _ 0, simplified, OF Cons]
  show ?case by (simp add: Let_def distrib_right mult.assoc)
qed simp

lemma addmul_1_loop_value:
  "length rp = length up \<Longrightarrow>
   lval (fst (addmul_1_loop vl cl rp up)) + B ^ length up * uint (snd (addmul_1_loop vl cl rp up))
     = lval rp + lval up * uint vl + uint cl"
proof (induction vl cl rp up rule: addmul_1_loop.induct)
  case (1 vl cl rl rp ul up)
  have s: "uint (fst (addmul_1_step vl cl ul rl)) + B * uint (snd (addmul_1_step vl cl ul rl))
      = uint rl + uint ul * uint vl + uint cl"
    using addmul_1_step_value [of vl cl ul rl] by simp
  from lval_chain_add [OF s 1(1) [OF refl]] 1(2)
  show ?case by (simp add: Let_def distrib_right mult.assoc)
qed auto

lemma submul_1_loop_value:
  "length rp = length up \<Longrightarrow>
   lval (fst (submul_1_loop vl cl rp up)) - B ^ length up * uint (snd (submul_1_loop vl cl rp up))
     = lval rp - lval up * uint vl - uint cl"
proof (induction vl cl rp up rule: submul_1_loop.induct)
  case (1 vl cl rl rp ul up)
  from lval_chain_sub [OF submul_1_step_value [of vl cl ul rl] 1(1) [OF refl]] 1(2)
  show ?case by (simp add: Let_def distrib_right mult.assoc)
qed auto

lemma mpn_mul_1_value:
  "lval (fst (mpn_mul_1 up vl)) + B ^ length up * uint (snd (mpn_mul_1 up vl)) = lval up * uint vl"
  using mul_1_loop_value [of vl 0 up] by (simp add: mpn_mul_1_def)

lemma mpn_addmul_1_value:
  "length rp = length up \<Longrightarrow>
   lval (fst (mpn_addmul_1 rp up vl)) + B ^ length up * uint (snd (mpn_addmul_1 rp up vl))
     = lval rp + lval up * uint vl"
  using addmul_1_loop_value [of rp up vl 0] by (simp add: mpn_addmul_1_def)

lemma mpn_submul_1_value:
  "length rp = length up \<Longrightarrow>
   lval (fst (mpn_submul_1 rp up vl)) - B ^ length up * uint (snd (mpn_submul_1 rp up vl))
     = lval rp - lval up * uint vl"
  using submul_1_loop_value [of rp up vl 0] by (simp add: mpn_submul_1_def)

subsection \<open>Schoolbook product (mul\_basecase.c)\<close>

text \<open>
  The first row is stored, every further row is accumulated into the window \<^verbatim>\<open>{rp, un}\<close>
  and its carry limb stored at \<^verbatim>\<open>rp[un]\<close>; between two rows \<^verbatim>\<open>rp\<close> advances by one limb,
  so the limb it leaves behind is final. The list \<open>rp\<close> below is the current window. The
  build has no native \<^verbatim>\<open>mpn_mul_2\<close> or \<^verbatim>\<open>mpn_addmul_k\<close>.
\<close>

fun mul_basecase_loop :: "limb list \<Rightarrow> limb list \<Rightarrow> limb list \<Rightarrow> limb list" where
  "mul_basecase_loop rp up [] = rp"
| "mul_basecase_loop rp up (v # vp) =
     (let r = mpn_addmul_1 rp up v;
          rp' = fst r @ [snd r]
      in hd rp' # mul_basecase_loop (tl rp') up vp)"

definition mpn_mul_basecase :: "limb list \<Rightarrow> limb list \<Rightarrow> limb list" where
  "mpn_mul_basecase up vp =
     (case vp of
        [] \<Rightarrow> []
      | v # vs \<Rightarrow>
          (let r = mpn_mul_1 up v;
               rp = fst r @ [snd r]
           in hd rp # mul_basecase_loop (tl rp) up vs))"

lemma lval_hd_tl: "xs \<noteq> [] \<Longrightarrow> uint (hd xs) + B * lval (tl xs) = lval xs"
  by (cases xs) auto

lemma mul_basecase_loop_value:
  "length rp = length up \<Longrightarrow> up \<noteq> [] \<Longrightarrow>
   lval (mul_basecase_loop rp up vp) = lval rp + lval up * lval vp
   \<and> length (mul_basecase_loop rp up vp) = length up + length vp"
proof (induction rp up vp rule: mul_basecase_loop.induct)
  case (2 rp up v vp)
  let ?r = "mpn_addmul_1 rp up v"
  let ?rp = "fst ?r @ [snd ?r]"
  have rp: "lval ?rp = lval rp + lval up * uint v"
    using mpn_addmul_1_value [of rp up v] 2 by (simp add: lval_snoc)
  have IH: "lval (mul_basecase_loop (tl ?rp) up vp) = lval (tl ?rp) + lval up * lval vp"
    "length (mul_basecase_loop (tl ?rp) up vp) = length up + length vp"
    using 2 by simp_all
  have "lval (mul_basecase_loop rp up (v # vp)) = lval ?rp + B * (lval up * lval vp)"
    using IH lval_hd_tl [of ?rp] by (simp add: Let_def distrib_left)
  also have "\<dots> = lval rp + lval up * lval (v # vp)"
    unfolding rp by (simp add: algebra_simps)
  finally show ?case using IH by (simp add: Let_def)
qed auto

lemma mpn_mul_basecase_value:
  assumes "up \<noteq> []"
  shows "lval (mpn_mul_basecase up vp) = lval up * lval vp"
    and "vp \<noteq> [] \<Longrightarrow> length (mpn_mul_basecase up vp) = length up + length vp"
proof -
  have "lval (mpn_mul_basecase up vp) = lval up * lval vp
      \<and> (vp \<noteq> [] \<longrightarrow> length (mpn_mul_basecase up vp) = length up + length vp)"
  proof (cases vp)
    case (Cons v vs)
    let ?rp = "fst (mpn_mul_1 up v) @ [snd (mpn_mul_1 up v)]"
    have rp: "lval ?rp = lval up * uint v"
      using mpn_mul_1_value [of up v] by (simp add: lval_snoc)
    have L: "lval (mul_basecase_loop (tl ?rp) up vs) = lval (tl ?rp) + lval up * lval vs"
      "length (mul_basecase_loop (tl ?rp) up vs) = length up + length vs"
      using mul_basecase_loop_value [of "tl ?rp" up vs] assms by simp_all
    have "lval (mpn_mul_basecase up vp) = lval ?rp + B * (lval up * lval vs)"
      using L lval_hd_tl [of ?rp] by (simp add: Cons mpn_mul_basecase_def Let_def distrib_left)
    also have "\<dots> = lval up * lval vp"
      unfolding rp by (simp add: Cons algebra_simps)
    finally show ?thesis using L by (simp add: Cons mpn_mul_basecase_def Let_def)
  qed (simp add: mpn_mul_basecase_def)
  then show "lval (mpn_mul_basecase up vp) = lval up * lval vp"
    and "vp \<noteq> [] \<Longrightarrow> length (mpn_mul_basecase up vp) = length up + length vp" by blast+
qed

end
