(* ===== verification/Mpz_Arith.thy ===== *)
theory Mpz_Arith
  imports Mpz_Basic Mpn_Mul
begin

text \<open>
  Signed addition, subtraction and multiplication (\<^verbatim>\<open>mpz/aors.h\<close>, \<^verbatim>\<open>aors_ui.h\<close>,
  \<^verbatim>\<open>ui_sub.c\<close>, \<^verbatim>\<open>mul_i.h\<close>, \<^verbatim>\<open>mul.c\<close>, \<^verbatim>\<open>aorsmul.c\<close>, \<^verbatim>\<open>aorsmul_i.c\<close>). Each operation
  meets the contract \<^const>\<open>writes\<close> for every combination of coinciding arguments.
\<close>

subsection \<open>Room in the destination block\<close>

definition room :: "store \<Rightarrow> var \<Rightarrow> nat \<Rightarrow> bool" where
  "room st w m \<longleftrightarrow> length (PTR st w) = ALLOC st w \<and> 1 \<le> ALLOC st w \<and> m \<le> ALLOC st w"

lemma room_ok: "mpz_ok st w \<Longrightarrow> m \<le> 1 \<Longrightarrow> room st w m"
  by (simp add: room_def mpz_ok_def)

lemma room_MPZ_REALLOC: "mpz_ok st w \<Longrightarrow> m \<le> n \<Longrightarrow> room (MPZ_REALLOC st w n) w m"
  using MPZ_REALLOC_block [of st w n] by (auto simp: room_def)

lemma writes_eqI: "writes st st1 w j \<Longrightarrow> st2 = st1 \<Longrightarrow> k = j \<Longrightarrow> writes st st2 w k"
  by simp

lemma room_put_limbs:
  "room st w m \<Longrightarrow> i + length xs \<le> m \<Longrightarrow> room (put_limbs st w i xs) w m"
  by (auto simp: room_def)

lemma take_put_limbs: "n = length xs \<Longrightarrow> take n (PTR (put_limbs st w 0 xs) w) = xs"
  by simp

lemma put_limbs_snoc:
  "length xs \<le> length (PTR st w) \<Longrightarrow>
   put_limbs (put_limbs st w 0 xs) w (length xs) ys = put_limbs st w 0 (xs @ ys)"
  by (simp add: put_limbs_def set_var_def add.commute)

lemma put_limbs_append:
  "i + length xs \<le> length (PTR st w) \<Longrightarrow>
   put_limbs (put_limbs st w i xs) w (i + length xs) ys = put_limbs st w i (xs @ ys)"
  by (simp add: put_limbs_def set_var_def ac_simps)

lemma put_limbs_prepend:
  "length ys + length xs \<le> length (PTR st w) \<Longrightarrow>
   put_limbs (put_limbs st w (length ys) xs) w 0 ys = put_limbs st w 0 (ys @ xs)"
  by (simp add: put_limbs_def set_var_def)

text \<open>
  The general form of a final store: a vector whose first \<open>n\<close> limbs have the value \<open>V\<close>, and
  \<open>n\<close> is the right size for \<open>V\<close>.
\<close>

lemma writes_with_sign:
  assumes "room st1 w (length xs)" "\<And>x. x \<noteq> w \<Longrightarrow> vars st1 x = vars st x"
    and "n \<le> length xs" "lval (take n xs) = V" "n \<noteq> 0 \<Longrightarrow> B ^ (n - 1) \<le> V"
    and "k = (if s then - int n else int n)"
  shows "writes st (set_SIZ (put_limbs st1 w 0 xs) w k) w (if s then - V else V)"
proof -
  have top: "xs ! (n - 1) \<noteq> 0" if "n \<noteq> 0"
  proof
    assume "xs ! (n - 1) = 0"
    then have "lval (take n xs) = lval (take (n - 1) xs)"
      using that assms(3) lval_take_Suc [of "n - 1" xs] by simp
    moreover have "lval (take (n - 1) xs) < B ^ (n - 1)"
      using assms(3) by (intro lval_take_lt) simp
    ultimately show False using assms(4,5) that by simp
  qed
  have "writes st (set_SIZ (put_limbs st1 w 0 xs) w k) w (sgn k * lval (take (nat \<bar>k\<bar>) xs))"
    using assms(1-3,6) top by (intro writes_put_result) (auto simp: room_def split: if_splits)
  moreover have "sgn k * lval (take (nat \<bar>k\<bar>) xs) = (if s then - V else V)"
    using assms(4,6) by (cases "n = 0") auto
  ultimately show ?thesis by simp
qed

text \<open>A result vector followed by its carry limb; the size grows when the carry is not zero.\<close>

lemma writes_carry:
  assumes "room st1 w (Suc (length xs))" "\<And>x. x \<noteq> w \<Longrightarrow> vars st1 x = vars st x"
    and "lval xs + B ^ length xs * uint cy = V"
    and "length xs \<noteq> 0 \<Longrightarrow> B ^ (length xs - 1) \<le> V" 
    and "k = (if s then - (int (length xs) + of_bool (cy \<noteq> 0)) else int (length xs) + of_bool (cy \<noteq> 0))"
  shows "writes st (set_SIZ (put_limbs (put_limbs st1 w 0 xs) w (length xs) [cy]) w k) w
           (if s then - V else V)"
proof -
  have "B ^ length xs \<le> V" if "cy \<noteq> 0"
  proof -
    have "B ^ length xs * 1 \<le> B ^ length xs * uint cy"
      using that by (intro mult_left_mono) (simp_all add: limb_ne_0_iff)
    then show ?thesis using assms(3) lval_nonneg [of xs] by linarith
  qed
  then have "writes st (set_SIZ (put_limbs st1 w 0 (xs @ [cy])) w k) w (if s then - V else V)"
    using assms
    by (intro writes_with_sign [where n = "length xs + of_bool (cy \<noteq> 0)"])
      (auto simp: room_def lval_append)
  then show ?thesis
    using assms(1) by (subst put_limbs_snoc) (auto simp: room_def)
qed

text \<open>A result vector that is normalised before its size is set.\<close>

lemma writes_normalized:
  assumes "room st1 w (length xs)" "\<And>x. x \<noteq> w \<Longrightarrow> vars st1 x = vars st x"
    and "n = length xs" "k = int (mpn_normalize (PTR (put_limbs st1 w 0 xs) w) n)"
  shows "writes st (set_SIZ (put_limbs st1 w 0 xs) w (if s then - k else k)) w
           (if s then - lval xs else lval xs)"
proof -
  let ?m = "mpn_normalize xs (length xs)"
  have "mpn_normalize (PTR (put_limbs st1 w 0 xs) w) n = ?m"
    unfolding assms(3) by (rule mpn_normalize_cong) (simp add: nth_append)
  then have k: "(if s then - k else k) = (if s then - int ?m else int ?m)"
    using assms(4) by simp
  have le: "?m \<le> length xs" by (rule mpn_normalize_le)
  have val: "lval (take ?m xs) = lval xs" using mpn_normalize_value [of "length xs" xs] by simp
  have "B ^ (?m - 1) \<le> lval xs" if "?m \<noteq> 0"
    using lval_ge_of_last [of "take ?m xs"] mpn_normalize_top [OF that] that le val
    by (cases "xs = []") (auto simp: last_conv_nth)
  then show ?thesis unfolding k
    using assms(1,2) le val by (intro writes_with_sign) auto
qed

subsection \<open>Addition and subtraction (aors.h)\<close>

definition mpz_aors_ordered :: "store \<Rightarrow> var \<Rightarrow> var \<Rightarrow> var \<Rightarrow> int \<Rightarrow> int \<Rightarrow> store" where
  "mpz_aors_ordered st w u v usize vsize =
     (let abs_usize = nat \<bar>usize\<bar>; abs_vsize = nat \<bar>vsize\<bar>;
          wsize = abs_usize + 1;
          st1 = MPZ_REALLOC st w wsize;
          up = take abs_usize (PTR st1 u);
          vp = take abs_vsize (PTR st1 v)
      in if usize XOR vsize < 0 then
           if abs_usize \<noteq> abs_vsize then
             (let st2 = put_limbs st1 w 0 (fst (mpn_sub up vp));
                  wsize = int (mpn_normalize (PTR st2 w) abs_usize)
              in set_SIZ st2 w (if usize < 0 then - wsize else wsize))
           else if mpn_cmp up vp abs_usize < 0 then
             (let st2 = put_limbs st1 w 0 (fst (mpn_sub_n vp up));
                  wsize = int (mpn_normalize (PTR st2 w) abs_usize)
              in set_SIZ st2 w (if usize \<ge> 0 then - wsize else wsize))
           else
             (let st2 = put_limbs st1 w 0 (fst (mpn_sub_n up vp));
                  wsize = int (mpn_normalize (PTR st2 w) abs_usize)
              in set_SIZ st2 w (if usize < 0 then - wsize else wsize))
         else
           (let r = mpn_add up vp; cy_limb = snd r;
                st2 = put_limbs st1 w 0 (fst r);
                st3 = put_limbs st2 w abs_usize [cy_limb];
                wsize = int abs_usize + uint cy_limb
            in set_SIZ st3 w (if usize < 0 then - wsize else wsize)))"

definition mpz_aors :: "bool \<Rightarrow> store \<Rightarrow> var \<Rightarrow> var \<Rightarrow> var \<Rightarrow> store" where
  "mpz_aors sub st w u v =
     (let usize = SIZ st u;
          vsize = (if sub then - SIZ st v else SIZ st v)
      in if \<bar>usize\<bar> < \<bar>vsize\<bar> then mpz_aors_ordered st w v u vsize usize
         else mpz_aors_ordered st w u v usize vsize)"

definition mpz_add :: "store \<Rightarrow> var \<Rightarrow> var \<Rightarrow> var \<Rightarrow> store" where
  "mpz_add = mpz_aors False"

definition mpz_sub :: "store \<Rightarrow> var \<Rightarrow> var \<Rightarrow> var \<Rightarrow> store" where
  "mpz_sub = mpz_aors True"

text \<open>
  The value of an operand under the size the code has given it: the size field of the
  variable, or its negation.
\<close>

definition with_sign :: "int \<Rightarrow> int \<Rightarrow> int" where
  "with_sign k m = (if k < 0 then - m else m)"

lemma mpz_val_with_sign: "mpz_ok st u \<Longrightarrow> mpz_val st u = with_sign (SIZ st u) (lval (mag st u))"
  by (simp add: with_sign_def mpz_val_pos mpz_val_neg)

lemma neg_mpz_val_with_sign:
  "mpz_ok st u \<Longrightarrow> - mpz_val st u = with_sign (- SIZ st u) (lval (mag st u))"
  using mag_eq_Nil_iff [of st u]
  by (cases "SIZ st u = 0") (simp_all add: with_sign_def mpz_val_pos mpz_val_neg)

lemma mag_ge_pow:
  assumes "mpz_ok st u" "ABSIZ st u \<noteq> 0"
  shows "B ^ (ABSIZ st u - 1) \<le> lval (mag st u)"
  using lval_ge_of_last [of "mag st u"] assms last_mag_ne_0 [OF assms(1)]
  by (simp add: mag_eq_Nil_iff length_mag ABSIZ_def)

lemma of_bool_limb_carry: "cy \<le> (1 :: limb) \<Longrightarrow> uint cy = of_bool (cy \<noteq> 0)"
  using limb_le_1_cases [of cy] by auto

lemma mpz_aors_ordered_writes:
  assumes ok: "mpz_ok st w" "mpz_ok st u" "mpz_ok st v"
    and su: "usize = SIZ st u \<or> usize = - SIZ st u" and sv: "vsize = SIZ st v \<or> vsize = - SIZ st v"
    and ord: "\<bar>vsize\<bar> \<le> \<bar>usize\<bar>"
  shows "writes st (mpz_aors_ordered st w u v usize vsize) w
           (with_sign usize (lval (mag st u)) + with_sign vsize (lval (mag st v)))"
proof -
  let ?st = "MPZ_REALLOC st w (ABSIZ st u + 1)"
  let ?u = "mag st u" and ?v = "mag st v"
  have nu: "nat \<bar>usize\<bar> = ABSIZ st u" and nv: "nat \<bar>vsize\<bar> = ABSIZ st v"
    using su sv by (auto simp: ABSIZ_def)
  have len: "length ?u = ABSIZ st u" "length ?v = ABSIZ st v" "ABSIZ st v \<le> ABSIZ st u"
    using ok ord nu nv by (auto simp: length_mag)
  have room: "room ?st w (ABSIZ st u + 1)" "room ?st w (ABSIZ st u)"
    using ok(1) by (auto intro: room_MPZ_REALLOC)
  have frame: "\<And>x. x \<noteq> w \<Longrightarrow> vars ?st x = vars st x" by simp
  note unf = mpz_aors_ordered_def Let_def nu nv take_PTR_mag [OF ok(1,2)] take_PTR_mag [OF ok(1,3)]
  show ?thesis
  proof (cases "(usize < 0) = (vsize < 0)")
    case True
    let ?r = "mpn_add ?u ?v"
    have "B ^ (ABSIZ st u - 1) \<le> lval ?u + lval ?v" if "ABSIZ st u \<noteq> 0"
      using mag_ge_pow [OF ok(2) that] lval_nonneg [of ?v] by linarith
    then have "writes st (set_SIZ (put_limbs (put_limbs ?st w 0 (fst ?r)) w (length (fst ?r)) [snd ?r]) w
        (if usize < 0 then - (int (ABSIZ st u) + uint (snd ?r)) else int (ABSIZ st u) + uint (snd ?r))) w
        (if usize < 0 then - (lval ?u + lval ?v) else lval ?u + lval ?v)"
      using len room frame mpn_add_value [of ?v ?u]
      by (intro writes_carry) (auto simp: of_bool_limb_carry [OF mpn_add_carry])
    then show ?thesis
      by (rule writes_eqI) (use True len in \<open>simp_all add: unf with_sign_def\<close>)
  next
    case False
    then have neg: "usize XOR vsize < 0" by simp
    have sv: "with_sign vsize (lval ?v) = - with_sign usize (lval ?v)"
      using False by (simp add: with_sign_def)
    have cmp: "mpn_cmp ?u ?v (ABSIZ st u) < 0 \<longleftrightarrow> lval ?u < lval ?v" if "ABSIZ st u = ABSIZ st v"
      using mpn_cmp_value [of "ABSIZ st u" ?u ?v] len that by (simp add: sgn_if)
    consider "ABSIZ st u \<noteq> ABSIZ st v" | "ABSIZ st u = ABSIZ st v" "lval ?u < lval ?v"
      | "ABSIZ st u = ABSIZ st v" "lval ?v \<le> lval ?u" by linarith
    then show ?thesis
    proof cases
      case 1
      then have "lval (fst (mpn_sub ?u ?v)) = lval ?u - lval ?v"
        using len mag_less_of_size [OF ok(3,2)] by (intro mpn_sub_exact) auto
      then show ?thesis
        using 1 neg len room
        by (intro writes_eqI [OF writes_normalized
              [where xs = "fst (mpn_sub ?u ?v)" and n = "ABSIZ st u" and s = "usize < 0", OF _ frame _ refl]])
          (unfold unf, simp_all add: sv with_sign_def, (linarith | simp)?)
    next
      case 2
      then have "lval (fst (mpn_sub_n ?v ?u)) = lval ?v - lval ?u"
        using len by (intro mpn_sub_n_exact) auto
      then show ?thesis
        using 2 neg len room cmp
        by (intro writes_eqI [OF writes_normalized
              [where xs = "fst (mpn_sub_n ?v ?u)" and n = "ABSIZ st u" and s = "usize \<ge> 0", OF _ frame _ refl]])
          (unfold unf, simp_all add: sv with_sign_def, (linarith | simp)?)
    next
      case 3
      then have "lval (fst (mpn_sub_n ?u ?v)) = lval ?u - lval ?v"
        using len by (intro mpn_sub_n_exact) auto
      then show ?thesis
        using 3 neg len room cmp
        by (intro writes_eqI [OF writes_normalized
              [where xs = "fst (mpn_sub_n ?u ?v)" and n = "ABSIZ st u" and s = "usize < 0", OF _ frame _ refl]])
          (unfold unf, simp_all add: sv with_sign_def, (linarith | simp)?)
    qed
  qed
qed

lemma mpz_aors_writes:
  assumes ok: "mpz_ok st w" "mpz_ok st u" "mpz_ok st v"
  shows "writes st (mpz_aors sub st w u v) w
           (if sub then mpz_val st u - mpz_val st v else mpz_val st u + mpz_val st v)"
proof -
  let ?vs = "if sub then - SIZ st v else SIZ st v"
  have v: "with_sign ?vs (lval (mag st v)) = (if sub then - mpz_val st v else mpz_val st v)"
    using mpz_val_with_sign [OF ok(3)] neg_mpz_val_with_sign [OF ok(3)] by simp
  show ?thesis
  proof (cases "\<bar>SIZ st u\<bar> < \<bar>?vs\<bar>")
    case True
    have "writes st (mpz_aors_ordered st w v u ?vs (SIZ st u)) w
        (with_sign ?vs (lval (mag st v)) + with_sign (SIZ st u) (lval (mag st u)))"
      using True ok by (intro mpz_aors_ordered_writes) auto
    then show ?thesis
      by (rule writes_eqI) (use True v mpz_val_with_sign [OF ok(2)] in \<open>auto simp: mpz_aors_def\<close>)
  next
    case False
    have "writes st (mpz_aors_ordered st w u v (SIZ st u) ?vs) w
        (with_sign (SIZ st u) (lval (mag st u)) + with_sign ?vs (lval (mag st v)))"
      using False ok by (intro mpz_aors_ordered_writes) auto
    then show ?thesis
      by (rule writes_eqI) (use False v mpz_val_with_sign [OF ok(2)] in \<open>auto simp: mpz_aors_def\<close>)
  qed
qed

interpretation add: mpz_binary mpz_add "(+)"
  using mpz_aors_writes [where sub = False] by unfold_locales (simp add: mpz_add_def)

interpretation sub: mpz_binary mpz_sub "(-)"
  using mpz_aors_writes [where sub = True] by unfold_locales (simp add: mpz_sub_def)

subsection \<open>Adding and subtracting a word (aors\_ui.h, ui\_sub.c)\<close>

text \<open>
  \<^verbatim>\<open>VARIATION_NEG\<close> is a minus sign in \<^verbatim>\<open>mpz_sub_ui\<close> and \<^verbatim>\<open>VARIATION_UNNEG\<close> one in
  \<^verbatim>\<open>mpz_add_ui\<close>; \<^verbatim>\<open>VARIATION_CMP\<close> is \<open>\<ge>\<close> and \<open><\<close>.
\<close>

definition mpz_aors_ui :: "bool \<Rightarrow> store \<Rightarrow> var \<Rightarrow> var \<Rightarrow> limb \<Rightarrow> store" where
  "mpz_aors_ui sub st w u vval =
     (let NEG = (\<lambda>k. if sub then - k else k);
          UNNEG = (\<lambda>k. if sub then k else - k);
          usize = SIZ st u; abs_usize = nat \<bar>usize\<bar>;
          wsize = abs_usize + 1;
          st1 = MPZ_REALLOC st w wsize;
          up = take abs_usize (PTR st1 u)
      in if abs_usize = 0 then
           set_SIZ (put_limbs st1 w 0 [vval]) w (NEG (of_bool (vval \<noteq> 0)))
         else if (if sub then usize < 0 else usize \<ge> 0) then
           (let r = mpn_add_1 up vval; cy = snd r;
                st2 = put_limbs st1 w 0 (fst r);
                st3 = put_limbs st2 w abs_usize [cy]
            in set_SIZ st3 w (NEG (int abs_usize + uint cy)))
         else if abs_usize = 1 \<and> up ! 0 < vval then
           (let st2 = put_limbs st1 w 0 [vval - up ! 0] in set_SIZ st2 w (NEG 1))
         else
           (let st2 = put_limbs st1 w 0 (fst (mpn_sub_1 up vval))
            in set_SIZ st2 w (UNNEG (int abs_usize - of_bool (PTR st2 w ! (abs_usize - 1) = 0)))))"

definition mpz_add_ui :: "store \<Rightarrow> var \<Rightarrow> var \<Rightarrow> limb \<Rightarrow> store" where
  "mpz_add_ui = mpz_aors_ui False"

definition mpz_sub_ui :: "store \<Rightarrow> var \<Rightarrow> var \<Rightarrow> limb \<Rightarrow> store" where
  "mpz_sub_ui = mpz_aors_ui True"

definition mpz_ui_sub :: "store \<Rightarrow> var \<Rightarrow> limb \<Rightarrow> var \<Rightarrow> store" where
  "mpz_ui_sub st w uval v =
     (let vn = SIZ st v
      in if vn > 1 then
           (let st1 = MPZ_REALLOC st w (nat vn);
                vp = take (nat vn) (PTR st1 v);
                st2 = put_limbs st1 w 0 (fst (mpn_sub_1 vp uval))
            in set_SIZ st2 w (- (vn - of_bool (PTR st2 w ! (nat vn - 1) = 0))))
         else if vn = 1 then
           (let v0 = PTR st v ! 0
            in if uval \<ge> v0 then
                 (let st1 = put_limbs st w 0 [uval - v0]
                  in set_SIZ st1 w (of_bool (PTR st1 w ! 0 \<noteq> 0)))
               else set_SIZ (put_limbs st w 0 [v0 - uval]) w (- 1))
         else if vn = 0 then
           set_SIZ (put_limbs st w 0 [uval]) w (of_bool (uval \<noteq> 0))
         else
           (let vn = nat (- vn);
                st1 = MPZ_REALLOC st w (vn + 1);
                vp = take vn (PTR st1 v);
                r = mpn_add_1 vp uval; cy = snd r;
                st2 = put_limbs st1 w 0 (fst r);
                st3 = put_limbs st2 w vn [cy]
            in set_SIZ st3 w (int vn + of_bool (cy \<noteq> 0))))"

lemma nth_last_put:
  "xs \<noteq> [] \<Longrightarrow> n = length xs \<Longrightarrow> PTR (put_limbs st w 0 xs) w ! (n - 1) = last xs"
  by (simp add: nth_append last_conv_nth)

text \<open>Subtracting a word shortens a number by at most one limb.\<close>

lemma writes_shrink_1:
  assumes "room st1 w (length xs)" "\<And>x. x \<noteq> w \<Longrightarrow> vars st1 x = vars st x"
    and "xs \<noteq> []" "2 \<le> length xs \<Longrightarrow> B ^ (length xs - 2) \<le> lval xs"
    and "k = int (length xs) - of_bool (PTR (put_limbs st1 w 0 xs) w ! (length xs - 1) = 0)"
  shows "writes st (set_SIZ (put_limbs st1 w 0 xs) w (if s then - k else k)) w
           (if s then - lval xs else lval xs)"
proof -
  let ?n = "if last xs = 0 then length xs - 1 else length xs"
  have last: "PTR (put_limbs st1 w 0 xs) w ! (length xs - 1) = last xs"
    by (rule nth_last_put [OF assms(3) refl])
  have k: "k = int ?n" unfolding assms(5) last using assms(3) by (cases xs) auto
  have val: "lval (take ?n xs) = lval xs"
    using assms(3) lval_butlast_last [of xs] by (auto simp: butlast_conv_take)
  have "B ^ (?n - 1) \<le> lval xs" if "?n \<noteq> 0"
    using that assms(3,4) lval_ge_of_last [of xs] by (auto simp: numeral_2_eq_2 split: if_splits)
  then show ?thesis
    using assms(1,2) val k by (intro writes_with_sign [where n = ?n]) auto
qed

lemma writes_shrink_nat:
  assumes "room st1 w (length xs)" "\<And>x. x \<noteq> w \<Longrightarrow> vars st1 x = vars st x"
    and "xs \<noteq> []" "2 \<le> length xs \<Longrightarrow> B ^ (length xs - 2) \<le> lval xs"
    and "n = length xs" "k = int (n - of_bool (PTR (put_limbs st1 w 0 xs) w ! (n - 1) = 0))"
  shows "writes st (set_SIZ (put_limbs st1 w 0 xs) w (if s then - k else k)) w
           (if s then - lval xs else lval xs)"
  using assms by (intro writes_shrink_1) (auto simp: of_nat_diff Suc_le_eq)

lemma mpn_sub_1_mag:
  assumes ok: "mpz_ok st u" and ne: "ABSIZ st u \<noteq> 0"
    and le: "ABSIZ st u = 1 \<Longrightarrow> uint v \<le> uint (PTR st u ! 0)"
  shows "lval (fst (mpn_sub_1 (mag st u) v)) = lval (mag st u) - uint v"
    and "2 \<le> ABSIZ st u \<Longrightarrow> B ^ (ABSIZ st u - 2) \<le> lval (mag st u) - uint v"
proof -
  have big: "B ^ (ABSIZ st u - 2) \<le> lval (mag st u) - uint v" if n: "2 \<le> ABSIZ st u"
  proof -
    obtain m where m: "ABSIZ st u = Suc (Suc m)" using n by (metis add_2_eq_Suc le_Suc_ex)
    have "1 * (B - 1) \<le> B ^ m * (B - 1)" by (intro mult_right_mono) auto
    then have "B - 1 \<le> B ^ Suc m - B ^ m" by (simp add: algebra_simps)
    moreover have "B ^ Suc m \<le> lval (mag st u)" using mag_ge_pow [OF ok ne] m by simp
    ultimately have "B ^ m \<le> lval (mag st u) - uint v" using uint_lt_B [of v] by linarith
    then show ?thesis using m by simp
  qed
  then show "2 \<le> ABSIZ st u \<Longrightarrow> B ^ (ABSIZ st u - 2) \<le> lval (mag st u) - uint v" .
  have "uint v \<le> lval (mag st u)"
  proof (cases "ABSIZ st u = 1")
    case True
    then show ?thesis using le mag_one_limb [OF ok] by simp
  next
    case False
    then show ?thesis using big ne B_pow_pos [of "ABSIZ st u - 2"] by linarith
  qed
  then show "lval (fst (mpn_sub_1 (mag st u) v)) = lval (mag st u) - uint v"
    using mag_eq_Nil_iff [OF ok] ne by (intro mpn_sub_1_exact) (auto simp: ABSIZ_def)
qed

lemma writes_sub_1_mag:
  assumes "mpz_ok st w" "mpz_ok st u" "ABSIZ st u \<noteq> 0" "ABSIZ st u \<le> m"
    and "ABSIZ st u = 1 \<Longrightarrow> uint v \<le> uint (PTR st u ! 0)"
    and "xs = fst (mpn_sub_1 (mag st u) v)"
    and "k = int (ABSIZ st u) - of_bool (PTR (put_limbs (MPZ_REALLOC st w m) w 0 xs) w ! (ABSIZ st u - 1) = 0)"
  shows "writes st (set_SIZ (put_limbs (MPZ_REALLOC st w m) w 0 xs) w (if s then - k else k)) w
           (if s then - (lval (mag st u) - uint v) else lval (mag st u) - uint v)"
proof -
  note r = mpn_sub_1_mag [OF assms(2,3,5)]
  have len: "length xs = ABSIZ st u" unfolding assms(6) by (simp add: length_mag [OF assms(2)])
  have "writes st (set_SIZ (put_limbs (MPZ_REALLOC st w m) w 0 xs) w (if s then - k else k)) w
           (if s then - lval xs else lval xs)"
    using assms(1,3,4,7) len r(2) r(1) [folded assms(6)]
    by (intro writes_shrink_1) (auto intro: room_MPZ_REALLOC)
  then show ?thesis by (rule writes_eqI) (simp_all add: assms(6) r(1))
qed

lemma writes_add_1_mag:
  assumes "mpz_ok st w" "mpz_ok st u" "ABSIZ st u \<noteq> 0" "r = mpn_add_1 (mag st u) v"
    and "k = int (ABSIZ st u) + of_bool (snd r \<noteq> 0)"
  shows "writes st (set_SIZ (put_limbs (put_limbs (MPZ_REALLOC st w (ABSIZ st u + 1)) w 0 (fst r)) w
           (ABSIZ st u) [snd r]) w (if s then - k else k)) w
           (if s then - (lval (mag st u) + uint v) else lval (mag st u) + uint v)"
proof -
  have len: "length (fst r) = ABSIZ st u" unfolding assms(4) by (simp add: length_mag [OF assms(2)])
  have ne: "mag st u \<noteq> []" using mag_eq_Nil_iff [OF assms(2)] assms(3) by (simp add: ABSIZ_def)
  have "B ^ (ABSIZ st u - 1) \<le> lval (mag st u) + uint v"
    using mag_ge_pow [OF assms(2,3)] uint_ge_0 [of v] by linarith
  then have "writes st (set_SIZ (put_limbs (put_limbs (MPZ_REALLOC st w (ABSIZ st u + 1)) w 0 (fst r)) w
           (length (fst r)) [snd r]) w (if s then - k else k)) w
           (if s then - (lval (mag st u) + uint v) else lval (mag st u) + uint v)"
    using assms(1,5) len mpn_add_1_value [OF ne, of v]
    by (intro writes_carry) (auto intro: room_MPZ_REALLOC simp: assms(4) length_mag [OF assms(2)])
  then show ?thesis unfolding len .
qed

lemma writes_one_limb:
  assumes "room st1 w 1" "\<And>x. x \<noteq> w \<Longrightarrow> vars st1 x = vars st x"
    and "k = (if s then - of_bool (x \<noteq> 0) else of_bool (x \<noteq> 0))" "V = (if s then - uint x else uint x)"
  shows "writes st (set_SIZ (put_limbs st1 w 0 [x]) w k) w V"
  using put_one_limb [of st1 w k x st] assms by (cases "x = 0"; cases s) (auto simp: room_def)

lemma mpz_aors_ui_writes:
  assumes ok: "mpz_ok st w" "mpz_ok st u"
  shows "writes st (mpz_aors_ui sub st w u vval) w
           (if sub then mpz_val st u - uint vval else mpz_val st u + uint vval)"
proof -
  let ?st = "MPZ_REALLOC st w (ABSIZ st u + 1)"
  have frame: "\<And>x. x \<noteq> w \<Longrightarrow> vars ?st x = vars st x" by simp
  have room: "room ?st w 1" using ok(1) by (intro room_MPZ_REALLOC) auto
  note unf = mpz_aors_ui_def Let_def ABSIZ_def [symmetric] take_PTR_mag [OF ok]
  note val = mpz_val_with_sign [OF ok(2)] with_sign_def
  have up: "mag st u ! 0 = PTR st u ! 0" if "ABSIZ st u \<noteq> 0"
    using that by (simp add: nth_mag)
  consider "ABSIZ st u = 0" | "ABSIZ st u \<noteq> 0" "(SIZ st u < 0) = sub"
    | "ABSIZ st u = 1" "(SIZ st u < 0) \<noteq> sub" "PTR st u ! 0 < vval"
    | "ABSIZ st u \<noteq> 0" "(SIZ st u < 0) \<noteq> sub" "\<not> (ABSIZ st u = 1 \<and> PTR st u ! 0 < vval)"
    by auto
  then show ?thesis
  proof cases
    case 1
    then have "writes st (set_SIZ (put_limbs ?st w 0 [vval]) w
        (if sub then - of_bool (vval \<noteq> 0) else of_bool (vval \<noteq> 0))) w (if sub then - uint vval else uint vval)"
      using room frame by (intro writes_one_limb) auto
    then show ?thesis
      by (rule writes_eqI) (unfold unf, use 1 in \<open>simp_all add: ABSIZ_def\<close>)
  next
    case 2
    show ?thesis
      by (rule writes_eqI [OF writes_add_1_mag [OF ok 2(1) refl refl, of vval sub]])
        (unfold unf, use 2 of_bool_limb_carry [OF mpn_add_1_carry, of "mag st u" vval] in
          \<open>auto simp: val\<close>)
  next
    case 3
    then have "writes st (set_SIZ (put_limbs ?st w 0 [vval - PTR st u ! 0]) w
        (if sub then - of_bool (vval - PTR st u ! 0 \<noteq> 0) else of_bool (vval - PTR st u ! 0 \<noteq> 0))) w
        (if sub then - uint (vval - PTR st u ! 0) else uint (vval - PTR st u ! 0))"
      using room frame by (intro writes_one_limb) auto
    then show ?thesis
      by (rule writes_eqI)
        (unfold unf, use 3 up mag_one_limb [OF ok(2)] in \<open>auto simp: val uint_sub_limb less_limb_iff\<close>)
  next
    case 4
    have le: "ABSIZ st u = 1 \<Longrightarrow> uint vval \<le> uint (PTR st u ! 0)"
      using 4(3) by (simp add: less_limb_iff)
    have c: "(ABSIZ st u = 0) = False" "(if sub then SIZ st u < 0 else SIZ st u \<ge> 0) = False"
        "(ABSIZ st u = 1 \<and> mag st u ! 0 < vval) = False"
      using 4 up by auto
    show ?thesis
      by (rule writes_eqI [OF writes_sub_1_mag
            [where s = "\<not> sub" and m = "ABSIZ st u + 1", OF ok 4(1) _ le refl refl]])
        (unfold unf c if_False, use 4 in \<open>simp_all add: val\<close>)
  qed
qed

interpretation add_ui: mpz_word mpz_add_ui "\<lambda>k v. k + uint v"
  using mpz_aors_ui_writes [where sub = False] by unfold_locales (simp add: mpz_add_ui_def)

interpretation sub_ui: mpz_word mpz_sub_ui "\<lambda>k v. k - uint v"
  using mpz_aors_ui_writes [where sub = True] by unfold_locales (simp add: mpz_sub_ui_def)

lemma mpz_ui_sub_writes:
  assumes ok: "mpz_ok st w" "mpz_ok st v"
  shows "writes st (mpz_ui_sub st w uval v) w (uint uval - mpz_val st v)"
proof -
  note unf = mpz_ui_sub_def Let_def take_PTR_mag [OF ok]
  note val = mpz_val_with_sign [OF ok(2)] with_sign_def
  let ?v0 = "PTR st v ! 0"
  consider "1 < SIZ st v" | "SIZ st v = 1" | "SIZ st v = 0" | "SIZ st v < 0" by linarith
  then show ?thesis
  proof cases
    case 1
    then have n: "nat (SIZ st v) = ABSIZ st v" "int (ABSIZ st v) = SIZ st v" "1 < ABSIZ st v"
      by (auto simp: ABSIZ_def)
    then show ?thesis
      by (intro writes_eqI [OF writes_sub_1_mag [where s = True and m = "ABSIZ st v" and v = uval, OF ok _ _ _ refl refl]])
        (unfold mpz_ui_sub_def Let_def n(1) take_PTR_mag [OF ok], use 1 n in \<open>simp_all add: val\<close>)
  next
    case 2
    have ge: "writes st (set_SIZ (put_limbs st w 0 [uval - ?v0]) w (of_bool (uval - ?v0 \<noteq> 0))) w (uint (uval - ?v0))"
      using room_ok [OF ok(1)] by (intro writes_one_limb [where s = False]) auto
    have lt: "writes st (set_SIZ (put_limbs st w 0 [?v0 - uval]) w (- of_bool (?v0 - uval \<noteq> 0))) w (- uint (?v0 - uval))"
      using room_ok [OF ok(1)] by (intro writes_one_limb [where s = True]) auto
    note v1 = val_by_size(1) [OF ok(2) 2]
    show ?thesis
    proof (cases "?v0 \<le> uval")
      case True
      then show ?thesis
        by (intro writes_eqI [OF ge]) (use 2 v1 in \<open>simp_all add: unf le_limb_iff uint_sub_limb\<close>)
    next
      case False
      then show ?thesis
        by (intro writes_eqI [OF lt]) (use 2 v1 in \<open>auto simp: unf le_limb_iff uint_sub_limb\<close>)
    qed
  next
    case 3
    have "writes st (set_SIZ (put_limbs st w 0 [uval]) w (of_bool (uval \<noteq> 0))) w (uint uval)"
      using room_ok [OF ok(1)] by (intro writes_one_limb [where s = False]) auto
    then show ?thesis by (rule writes_eqI) (use 3 in \<open>simp_all add: unf\<close>)
  next
    case 4
    then have n: "nat (- SIZ st v) = ABSIZ st v" "ABSIZ st v \<noteq> 0" by (auto simp: ABSIZ_def)
    show ?thesis
      by (rule writes_eqI [OF writes_add_1_mag [where s = False and v = uval, OF ok n(2) refl refl]])
        (use 4 in \<open>simp_all add: unf n(1) val\<close>)
  qed
qed

subsection \<open>Multiplying by a word (mul\_i.h)\<close>

text \<open>
  \<open>sml\<close> is \<^verbatim>\<open>MULTIPLICAND_ABS (small_mult)\<close> and \<open>neg\<close> is \<^verbatim>\<open>small_mult < 0\<close>, which is
  constantly false for \<^verbatim>\<open>mpz_mul_ui\<close>.
\<close>

definition mpz_mul_i :: "store \<Rightarrow> var \<Rightarrow> var \<Rightarrow> limb \<Rightarrow> bool \<Rightarrow> store" where
  "mpz_mul_i st prd mult sml neg =
     (let size = SIZ st mult; sign_product = size
      in if size = 0 \<or> sml = 0 then set_SIZ st prd 0
         else
           (let size = nat \<bar>size\<bar>;
                st1 = MPZ_REALLOC st prd (size + 1);
                r = mpn_mul_1 (take size (PTR st1 mult)) sml; cy = snd r;
                st2 = put_limbs st1 prd 0 (fst r);
                st3 = put_limbs st2 prd size [cy];
                size = int size + of_bool (cy \<noteq> 0)
            in set_SIZ st3 prd (if (sign_product < 0) \<noteq> neg then - size else size)))"

definition mpz_mul_ui :: "store \<Rightarrow> var \<Rightarrow> var \<Rightarrow> limb \<Rightarrow> store" where
  "mpz_mul_ui st prd mult small_mult = mpz_mul_i st prd mult small_mult False"

definition mpz_mul_si :: "store \<Rightarrow> var \<Rightarrow> var \<Rightarrow> limb \<Rightarrow> store" where
  "mpz_mul_si st prd mult small_mult =
     mpz_mul_i st prd mult (if sint small_mult < 0 then - small_mult else small_mult) (sint small_mult < 0)"

lemma writes_mul_1_mag:
  assumes "mpz_ok st w" "mpz_ok st u" "ABSIZ st u \<noteq> 0" "v \<noteq> 0" "r = mpn_mul_1 (mag st u) v"
    and "k = int (ABSIZ st u) + of_bool (snd r \<noteq> 0)"
  shows "writes st (set_SIZ (put_limbs (put_limbs (MPZ_REALLOC st w (ABSIZ st u + 1)) w 0 (fst r)) w
           (ABSIZ st u) [snd r]) w (if s then - k else k)) w
           (if s then - (lval (mag st u) * uint v) else lval (mag st u) * uint v)"
proof -
  have len: "length (fst r) = ABSIZ st u" unfolding assms(5) by (simp add: length_mag [OF assms(2)])
  have "lval (mag st u) * 1 \<le> lval (mag st u) * uint v"
    using assms(4) by (intro mult_left_mono) (auto simp: limb_ne_0_iff)
  then have "B ^ (ABSIZ st u - 1) \<le> lval (mag st u) * uint v"
    using mag_ge_pow [OF assms(2,3)] by linarith
  then have "writes st (set_SIZ (put_limbs (put_limbs (MPZ_REALLOC st w (ABSIZ st u + 1)) w 0 (fst r)) w
           (length (fst r)) [snd r]) w (if s then - k else k)) w
           (if s then - (lval (mag st u) * uint v) else lval (mag st u) * uint v)"
    using assms(1,6) len mpn_mul_1_value [of "mag st u" v]
    by (intro writes_carry) (auto intro: room_MPZ_REALLOC simp: assms(5) length_mag [OF assms(2)])
  then show ?thesis unfolding len .
qed

lemma set_SIZ_0_writes: "mpz_ok st w \<Longrightarrow> writes st (set_SIZ st w 0) w 0"
  by (simp add: writes_def mpz_ok_def ABSIZ_def)

lemma mpz_mul_i_writes:
  assumes ok: "mpz_ok st w" "mpz_ok st u"
  shows "writes st (mpz_mul_i st w u sml neg) w (mpz_val st u * (if neg then - uint sml else uint sml))"
proof (cases "SIZ st u = 0 \<or> sml = 0")
  case True
  then show ?thesis
    by (intro writes_eqI [OF set_SIZ_0_writes [OF ok(1)]]) (auto simp: mpz_mul_i_def)
next
  case False
  then have n: "ABSIZ st u \<noteq> 0" "sml \<noteq> 0" by (auto simp: ABSIZ_def)
  show ?thesis
    by (rule writes_eqI [OF writes_mul_1_mag [where s = "(SIZ st u < 0) \<noteq> neg" and v = sml, OF ok n refl refl]])
      (unfold mpz_mul_i_def Let_def ABSIZ_def [symmetric] take_PTR_mag [OF ok],
        use False in \<open>auto simp: mpz_val_with_sign [OF ok(2)] with_sign_def\<close>)
qed

interpretation mul_ui: mpz_word mpz_mul_ui "\<lambda>k v. k * uint v"
  using mpz_mul_i_writes [where neg = False] by unfold_locales (simp add: mpz_mul_ui_def)

interpretation mul_si: mpz_word mpz_mul_si "\<lambda>k v. k * sint v"
proof
  fix st w u v assume ok: "mpz_ok st w" "mpz_ok st u"
  show "writes st (mpz_mul_si st w u v) w (mpz_val st u * sint v)"
    using mpz_mul_i_writes [OF ok, of "if sint v < 0 then - v else v" "sint v < 0"] uint_abs_sint [of v]
    by (auto simp: mpz_mul_si_def split: if_splits)
qed

end
