(* ===== verification/Mpn_Karatsuba.thy ===== *)
theory Mpn_Karatsuba
  imports Mpn_Mul
begin

text \<open>
  Karatsuba multiplication of equal-sized operands (\<^verbatim>\<open>mpn/generic/mul_n.c\<close>): the
  comparison of the halves, their absolute differences with the tracked sign, the three
  half-sized products, the interpolation modulo a power of the limb base with its deliberately
  dropped borrow, and the addition of the middle term into the double-length product. The
  workspace \<^verbatim>\<open>ws\<close> and the destination \<^verbatim>\<open>p\<close> are lists of the limbs the C code
  keeps there. The selection threshold is an argument, as configuration selects it.
\<close>

subsection \<open>The algorithm\<close>

text \<open>The do-while loop that looks for the highest differing limb of two halves.\<close>

fun half_less :: "limb list \<Rightarrow> limb list \<Rightarrow> nat \<Rightarrow> bool" where
  "half_less x y 0 = False"
| "half_less x y (Suc i) =
     (let w0 = x ! i; w1 = y ! i
      in if w0 = w1 \<and> i \<noteq> 0 then half_less x y i else w0 < w1)"

text \<open>
  The absolute difference of the low and the high half and whether it was negated; for an odd
  length the low half has one limb more, \<open>a ! n2\<close>.
\<close>

definition kara_diff :: "nat \<Rightarrow> limb list \<Rightarrow> limb list \<Rightarrow> bool \<times> limb list" where
  "kara_diff n2 lo hi =
     (if half_less lo hi n2 then (True, fst (mpn_sub_n hi lo)) else (False, fst (mpn_sub_n lo hi)))"

definition kara_diff_odd :: "nat \<Rightarrow> limb list \<Rightarrow> bool \<times> limb list" where
  "kara_diff_odd n2 a =
     (let n3 = n2 + 1; w = a ! n2; lo = take n2 a; hi = take n2 (drop n3 a)
      in if w \<noteq> 0 then (let r = mpn_sub_n lo hi in (False, fst r @ [w - snd r]))
         else (let r = kara_diff n2 lo hi in (fst r, snd r @ [w])))"

text \<open>Interpolation for an odd length \<open>n\<close>: \<open>plo\<close>, \<open>phi\<close> are the products of the
  halves, \<open>ws\<close> the product of the differences.\<close>

definition kara_interpolate_odd :: "nat \<Rightarrow> bool \<Rightarrow> limb list \<Rightarrow> limb list \<Rightarrow> limb list \<Rightarrow> limb list" where
  "kara_interpolate_odd n sign plo phi ws =
     (let n3 = n - n div 2; n1 = n + 1; nm1 = n - 1;
          ws = fst (if sign then mpn_add_n plo ws else mpn_sub_n plo ws);
          r = mpn_add_n phi (take nm1 ws);
          ws = (if snd r \<noteq> 0
                then (let x = ws ! nm1 + 1 in fst r @ [x, if x = 0 then ws ! n + 1 else ws ! n])
                else fst r @ [ws ! nm1, ws ! n]);
          p = plo @ phi;
          s = mpn_add_n (take n1 (drop n3 p)) ws;
          rest = drop (n1 + n3) p
      in take n3 p @ fst s @ (if snd s \<noteq> 0 then mpn_incr_u rest 1 else rest))"

definition kara_interpolate_even :: "nat \<Rightarrow> bool \<Rightarrow> limb list \<Rightarrow> limb list \<Rightarrow> limb list \<Rightarrow> limb list" where
  "kara_interpolate_even n sign plo phi ws =
     (let n2 = n div 2;
          (ws, w) = (if sign then mpn_add_n plo ws
                     else (let r = mpn_sub_n plo ws in (fst r, - snd r)));
          r = mpn_add_n phi ws; w = w + snd r; ws = fst r;
          p = plo @ phi;
          s = mpn_add_n (take n (drop n2 p)) ws;
          w = w + snd s
      in take n2 p @ fst s @ mpn_incr_u (drop (n2 + n) p) w)"

text \<open>\<^verbatim>\<open>ASSERT (n2 > 0)\<close>: nothing is computed for fewer than two limbs.\<close>

function mpn_kara_mul_n :: "nat \<Rightarrow> limb list \<Rightarrow> limb list \<Rightarrow> nat \<Rightarrow> limb list" where
  "mpn_kara_mul_n thr a b n =
     (let n2 = n div 2
      in if n2 = 0 then []
         else if n mod 2 \<noteq> 0 then
           (let n3 = n - n2;
                (sa, da) = kara_diff_odd n2 a;
                (sb, db) = kara_diff_odd n2 b;
                sign = (sa \<noteq> sb);
                (ws, plo, phi) =
                  (if n2 < thr
                   then (if n3 < thr
                         then (mpn_mul_basecase da db, mpn_mul_basecase (take n3 a) (take n3 b),
                               mpn_mul_basecase (drop n3 a) (drop n3 b))
                         else (mpn_kara_mul_n thr da db n3, mpn_kara_mul_n thr (take n3 a) (take n3 b) n3,
                               mpn_mul_basecase (drop n3 a) (drop n3 b)))
                   else (mpn_kara_mul_n thr da db n3, mpn_kara_mul_n thr (take n3 a) (take n3 b) n3,
                         mpn_kara_mul_n thr (drop n3 a) (drop n3 b) n2))
            in kara_interpolate_odd n sign plo phi ws)
         else
           (let (sa, da) = kara_diff n2 (take n2 a) (drop n2 a);
                (sb, db) = kara_diff n2 (take n2 b) (drop n2 b);
                sign = (sa \<noteq> sb);
                (ws, plo, phi) =
                  (if n2 < thr
                   then (mpn_mul_basecase da db, mpn_mul_basecase (take n2 a) (take n2 b),
                         mpn_mul_basecase (drop n2 a) (drop n2 b))
                   else (mpn_kara_mul_n thr da db n2, mpn_kara_mul_n thr (take n2 a) (take n2 b) n2,
                         mpn_kara_mul_n thr (drop n2 a) (drop n2 b) n2))
            in kara_interpolate_even n sign plo phi ws))"
  by pat_completeness auto

termination
  by (relation "measure (\<lambda>(thr, a, b, n). n)") (auto simp: div_greater_zero_iff)


declare mpn_kara_mul_n.simps [simp del]

subsection \<open>The halves and their difference\<close>

lemma half_less_iff:
  assumes "length x = n" "length y = n" "i \<le> n"
  shows "half_less x y i \<longleftrightarrow> lval (take i x) < lval (take i y)"
  using assms
proof (induction i)
  case (Suc i)
  have t: "lval (take (Suc i) z) = lval (take i z) + B ^ i * uint (z ! i)" if "length z = n" for z
    using that Suc.prems by (intro lval_take_Suc) simp
  have b: "lval (take i z) < B ^ i" if "length z = n" for z
    using that Suc.prems by (intro lval_take_lt) simp
  consider "x ! i = y ! i" | "x ! i < y ! i" | "y ! i < x ! i" by fastforce
  then show ?case
  proof cases
    case 1
    then show ?thesis using Suc t [of x] t [of y] by (cases "i = 0") (simp_all)
  next
    case 2
    then show ?thesis
      using t [of x] t [of y] top_limb_dominates [of "lval (take i x)" "lval (take i y)" "B ^ i" "uint (x ! i)" "uint (y ! i)"] Suc.prems b
      by (auto simp: less_limb_iff Let_def)
  next
    case 3
    then show ?thesis
      using t [of x] t [of y] top_limb_dominates [of "lval (take i y)" "lval (take i x)" "B ^ i" "uint (y ! i)" "uint (x ! i)"] Suc.prems b
      by (auto simp: less_limb_iff Let_def)
  qed
qed simp


lemma kara_diff_value:
  assumes "length lo = n2" "length hi = n2"
  shows "length (snd (kara_diff n2 lo hi)) = n2"
    and "lval lo - lval hi = (if fst (kara_diff n2 lo hi) then - 1 else 1) * lval (snd (kara_diff n2 lo hi))"
  using assms half_less_iff [of lo n2 hi n2] mpn_sub_n_exact [of lo hi] mpn_sub_n_exact [of hi lo]
  by (auto simp: kara_diff_def)

lemma lval_split_middle:
  assumes "length a = 2 * n2 + 1"
  shows "lval (take (n2 + 1) a) = lval (take n2 a) + B ^ n2 * uint (a ! n2)"
    and "take n2 (drop (n2 + 1) a) = drop (n2 + 1) a"
  using assms lval_take_Suc [of n2 a] by simp_all

lemma kara_diff_odd_value:
  assumes "length a = 2 * n2 + 1"
  shows "length (snd (kara_diff_odd n2 a)) = n2 + 1"
    and "lval (take (n2 + 1) a) - lval (drop (n2 + 1) a)
       = (if fst (kara_diff_odd n2 a) then - 1 else 1) * lval (snd (kara_diff_odd n2 a))"
proof -
  let ?lo = "take n2 a" and ?hi = "drop (n2 + 1) a" and ?w = "a ! n2"
  have len: "length ?lo = n2" "length ?hi = n2" using assms by simp_all
  have d: "kara_diff_odd n2 a =
      (if ?w \<noteq> 0 then (False, fst (mpn_sub_n ?lo ?hi) @ [?w - snd (mpn_sub_n ?lo ?hi)])
       else (fst (kara_diff n2 ?lo ?hi), snd (kara_diff n2 ?lo ?hi) @ [?w]))"
    using lval_split_middle(2) [OF assms] by (simp add: kara_diff_odd_def Let_def)
  note kd = kara_diff_value [OF len]
  show "length (snd (kara_diff_odd n2 a)) = n2 + 1" using d kd(1) len by simp
  show "lval (take (n2 + 1) a) - lval ?hi
      = (if fst (kara_diff_odd n2 a) then - 1 else 1) * lval (snd (kara_diff_odd n2 a))"
  proof (cases "?w = 0")
    case True
    then show ?thesis using d kd lval_split_middle(1) [OF assms] by (auto simp: lval_append)
  next
    case False
    let ?r = "mpn_sub_n ?lo ?hi"
    have u: "uint (?w - snd ?r) = uint ?w - uint (snd ?r)"
      using False limb_le_1_cases [OF mpn_sub_n_borrow [of ?lo ?hi]] limb_ne_0_iff [of ?w]
      by (auto simp: sub_limb_value)
    have v: "lval (fst ?r) - B ^ n2 * uint (snd ?r) = lval ?lo - lval ?hi"
      using mpn_sub_n_value [of ?lo ?hi] len by simp
    have lr: "length (fst ?r) = n2" using len by simp
    have "lval (fst ?r @ [?w - snd ?r]) = lval (fst ?r) + B ^ n2 * (uint ?w - uint (snd ?r))"
      by (simp only: lval_append lr lval.simps u) simp
    also have "\<dots> = lval (take (n2 + 1) a) - lval ?hi"
      using v lval_split_middle(1) [OF assms] by (simp add: algebra_simps)
    finally show ?thesis using d False by simp
  qed
qed

subsection \<open>Adding the middle term into the product\<close>

lemma mpn_incr_u_0 [simp]: "mpn_incr_u p 0 = p"
  by (cases p) (simp_all add: mpn_incr_u_def)

lemma add_at_value:
  assumes len: "k + m \<le> length p" "length ws = m"
    and r: "r = mpn_add_n (take m (drop k p)) ws" and inc: "uint inc = uint (snd r) + w"
    and fits: "lval p + B ^ k * (lval ws + B ^ m * w) < B ^ length p"
  shows "lval (take k p @ fst r @ mpn_incr_u (drop (k + m) p) inc) = lval p + B ^ k * (lval ws + B ^ m * w)"
proof -
  let ?t = "drop (k + m) p"
  have l: "length (take m (drop k p)) = m" "length (take k p) = k" "length (fst r) = m"
    using len r by simp_all
  have s: "lval p = lval (take k p) + B ^ k * (lval (take m (drop k p)) + B ^ m * lval ?t)"
    using lval_split_at [of k p] lval_split_at [of m "drop k p"] len by (simp add: add.commute)
  have v: "lval (fst r) + B ^ m * uint (snd r) = lval (take m (drop k p)) + lval ws"
    using mpn_add_n_value [of "take m (drop k p)" ws] l len r by simp
  have e: "lval p + B ^ k * (lval ws + B ^ m * w)
      = lval (take k p) + B ^ k * lval (fst r) + B ^ (k + m) * (lval ?t + uint inc)"
    unfolding s inc power_add using arg_cong [OF v, of "\<lambda>z. B ^ k * z"] by (simp add: algebra_simps)
  have "B ^ (k + m) * (lval ?t + uint inc) < B ^ (k + m) * B ^ length ?t"
  proof -
    have "B ^ (k + m) * (lval ?t + uint inc) \<le> lval p + B ^ k * (lval ws + B ^ m * w)"
      unfolding e using mult_nonneg_nonneg [of "B ^ k" "lval (fst r)"] lval_nonneg [of "take k p"] by simp
    also have "\<dots> < B ^ length p" by (rule fits)
    also have "\<dots> = B ^ (k + m) * B ^ length ?t" using len(1) by (simp flip: power_add)
    finally show ?thesis .
  qed
  then have "lval ?t + uint inc < B ^ length ?t" by simp
  then show ?thesis unfolding e using l by (simp add: lval_append mpn_incr_u_value power_add algebra_simps)
qed


lemma two_limb_incr:
  fixes x0 x1 :: limb
  shows "lval [x0 + 1, if x0 + 1 = 0 then x1 + 1 else x1] = (lval [x0, x1] + 1) mod B\<^sup>2"
proof -
  have g: "0 \<le> lval [x0, x1]" by (rule lval_nonneg)
  show ?thesis
  proof (cases "x0 + 1 = 0 \<and> x1 + 1 = 0")
    case True
    then have "uint x0 = B - 1" "uint x1 = B - 1"
      using uint_limb_succ [of x0] uint_limb_succ [of x1] by simp_all
    then have "lval [x0, x1] + 1 = (B - 1) + B * (B - 1) + 1" by (simp only: lval.simps) simp
    then have "lval [x0, x1] + 1 = B\<^sup>2" by (simp only: power2_eq_square right_diff_distrib)
    then show ?thesis using True by simp
  next
    case False
    then have v: "lval [x0 + 1, if x0 + 1 = 0 then x1 + 1 else x1] = lval [x0, x1] + 1"
      using uint_limb_succ [of x0] uint_limb_succ [of x1] by (auto simp: algebra_simps)
    then have "lval [x0, x1] + 1 < B ^ 2"
      using lval_lt [of "[x0 + 1, if x0 + 1 = 0 then x1 + 1 else x1]"] by (simp add: power2_eq_square)
    then show ?thesis using v g by (simp add: mod_pos_pos_trivial)
  qed
qed

text \<open>The sum of the \<open>n - 1\<close>-limb product and the \<open>n + 1\<close>-limb workspace, modulo \<open>B ^ (n + 1)\<close>.\<close>

lemma kara_ws_sum:
  assumes "length phi = n - 1" "length ws = n + 1" "1 \<le> n" "r = mpn_add_n phi (take (n - 1) ws)"
  defines "zs \<equiv> (if snd r \<noteq> 0
                then (let x = ws ! (n - 1) + 1 in fst r @ [x, if x = 0 then ws ! n + 1 else ws ! n])
                else fst r @ [ws ! (n - 1), ws ! n])"
  shows "length zs = n + 1" and "lval zs = (lval phi + lval ws) mod B ^ (n + 1)"
proof -
  let ?m = "n - 1" and ?t = "[ws ! (n - 1), ws ! n]"
  have lr: "length (fst r) = ?m" using assms by simp
  show lz: "length zs = n + 1" using lr assms(3) by (simp add: zs_def Let_def)
  have ws: "ws = take ?m ws @ ?t"
    using assms(2,3) by (simp add: list_eq_iff_nth_eq nth_append) (auto simp: less_Suc_eq nth_Cons' intro!: arg_cong [of _ _ "(!) ws"])
  have v: "lval (fst r) + B ^ ?m * uint (snd r) = lval phi + lval (take ?m ws)"
    using mpn_add_n_value [of phi "take ?m ws"] assms by simp
  have vs: "lval phi + lval ws = lval (fst r) + B ^ ?m * (lval ?t + uint (snd r))"
    using arg_cong [OF ws, of lval] v assms(2) by (simp only: lval_append) (simp add: algebra_simps)
  have n: "B ^ (n + 1) = B ^ ?m * B\<^sup>2" using assms(3) by (simp flip: power_add)
  show "lval zs = (lval phi + lval ws) mod B ^ (n + 1)"
  proof (cases "snd r = 0")
    case True
    then have "lval zs = lval phi + lval ws" using lr vs by (simp add: zs_def lval_append)
    then show ?thesis using lval_lt [of zs] lval_nonneg [of zs] lz by (simp add: mod_pos_pos_trivial)
  next
    case False
    then have c: "uint (snd r) = 1" using limb_le_1_cases mpn_add_n_carry assms(4) by fastforce
    have "lval zs = lval (fst r) + B ^ ?m * ((lval ?t + 1) mod B\<^sup>2)"
      using False lr two_limb_incr [of "ws ! (n - 1)" "ws ! n"] by (simp add: zs_def lval_append Let_def)
    then have "lval phi + lval ws = lval zs + B ^ (n + 1) * ((lval ?t + 1) div B\<^sup>2)"
      unfolding vs c n
      using arg_cong [OF mult_div_mod_eq [of "B\<^sup>2" "lval ?t + 1"], of "\<lambda>z. B ^ ?m * z"]
      by (simp only: distrib_left)
    then show ?thesis using lval_lt [of zs] lval_nonneg [of zs] lz by (simp add: mod_pos_pos_trivial)
  qed
qed


lemma mpn_add_n_mod:
  assumes "length up = length vp"
  shows "lval (fst (mpn_add_n up vp)) = (lval up + lval vp) mod B ^ length up"
  using mpn_add_n_value [OF assms, symmetric] lval_lt [of "fst (mpn_add_n up vp)"] assms
  by (simp add: mod_pos_pos_trivial)

lemma mpn_sub_n_mod:
  assumes "length up = length vp"
  shows "lval (fst (mpn_sub_n up vp)) = (lval up - lval vp) mod B ^ length up"
proof -
  have "lval up - lval vp = lval (fst (mpn_sub_n up vp)) + B ^ length up * - uint (snd (mpn_sub_n up vp))"
    using mpn_sub_n_value [OF assms] by simp
  then show ?thesis using lval_lt [of "fst (mpn_sub_n up vp)"] assms
    by (simp only: mod_mult_self2) (simp add: mod_pos_pos_trivial)
qed

lemma kara_interpolate_odd_value:
  assumes n: "n = 2 * n2 + 1" and len: "length plo = n + 1" "length phi = n - 1" "length ws = n + 1"
    and M: "M = lval plo + lval phi + (if sign then lval ws else - lval ws)" "0 \<le> M" "M < B ^ (n + 1)"
    and fits: "lval plo + B ^ (n + 1) * lval phi + B ^ (n2 + 1) * M < B ^ (2 * n)"
    and n2: "0 < n2"
  shows "lval (kara_interpolate_odd n sign plo phi ws) = lval plo + B ^ (n + 1) * lval phi + B ^ (n2 + 1) * M"
    and "length (kara_interpolate_odd n sign plo phi ws) = 2 * n"
proof -
  let ?ws = "fst (if sign then mpn_add_n plo ws else mpn_sub_n plo ws)" and ?p = "plo @ phi"
  let ?r = "mpn_add_n phi (take (n - 1) ?ws)"
  let ?zs = "if snd ?r \<noteq> 0
             then (let x = ?ws ! (n - 1) + 1 in fst ?r @ [x, if x = 0 then ?ws ! n + 1 else ?ws ! n])
             else fst ?r @ [?ws ! (n - 1), ?ws ! n]"
  let ?s = "mpn_add_n (take (n + 1) (drop (n2 + 1) ?p)) ?zs"
  have lws: "length ?ws = n + 1" using len by simp
  note zs = kara_ws_sum [OF len(2) lws _ refl]
  have "lval ?ws mod B ^ (n + 1) = (lval plo + (if sign then lval ws else - lval ws)) mod B ^ (n + 1)"
    using mpn_add_n_mod [of plo ws] mpn_sub_n_mod [of plo ws] len by simp
  then have "(lval phi + lval ?ws) mod B ^ (n + 1)
      = (lval phi + (lval plo + (if sign then lval ws else - lval ws))) mod B ^ (n + 1)"
    by (rule mod_add_cong [OF refl])
  also have "\<dots> = M mod B ^ (n + 1)" unfolding M(1) by (simp only: add.left_commute add.assoc)
  finally have "(lval phi + lval ?ws) mod B ^ (n + 1) = M mod B ^ (n + 1)" .
  then have vz: "lval ?zs = M" using zs(2) M n by (simp add: mod_pos_pos_trivial)
  have lp: "length ?p = 2 * n" using len n by simp
  have vp: "lval ?p = lval plo + B ^ (n + 1) * lval phi" using len by (simp add: lval_append)
  have c: "(if snd ?s \<noteq> 0 then mpn_incr_u q 1 else q) = mpn_incr_u q (snd ?s)" for q
    using limb_le_1_cases [OF mpn_add_n_carry] by fastforce
  have n3: "n - n div 2 = n2 + 1" using n by simp
  have k: "kara_interpolate_odd n sign plo phi ws
      = take (n2 + 1) ?p @ fst ?s @ mpn_incr_u (drop (n2 + 1 + (n + 1)) ?p) (snd ?s)"
    unfolding kara_interpolate_odd_def Let_def n3 add.commute [of "n + 1" "n2 + 1"] c [unfolded Let_def] ..
  have lz: "length ?zs = n + 1" using zs(1) n by simp
  have "lval (take (n2 + 1) ?p @ fst ?s @ mpn_incr_u (drop (n2 + 1 + (n + 1)) ?p) (snd ?s))
      = lval ?p + B ^ (n2 + 1) * (lval ?zs + B ^ (n + 1) * 0)"
    by (rule add_at_value [OF _ lz refl]) (use lp n n2 fits vp vz in simp_all)
  then show "lval (kara_interpolate_odd n sign plo phi ws) = lval plo + B ^ (n + 1) * lval phi + B ^ (n2 + 1) * M"
    unfolding k vp vz by simp
  show "length (kara_interpolate_odd n sign plo phi ws) = 2 * n"
    unfolding k length_append length_mpn_add_n length_mpn_incr_u length_take length_drop lz
    using len n n2 by simp
qed


lemma kara_interpolate_even_value:
  assumes n: "n = 2 * n2" and len: "length plo = n" "length phi = n" "length ws = n"
    and M: "M = lval plo + lval phi + (if sign then lval ws else - lval ws)" "0 \<le> M"
    and fits: "lval plo + B ^ n * lval phi + B ^ n2 * M < B ^ (2 * n)"
  shows "lval (kara_interpolate_even n sign plo phi ws) = lval plo + B ^ n * lval phi + B ^ n2 * M"
    and "length (kara_interpolate_even n sign plo phi ws) = 2 * n"
proof -
  let ?q = "if sign then mpn_add_n plo ws else (fst (mpn_sub_n plo ws), - snd (mpn_sub_n plo ws))"
  let ?r = "mpn_add_n phi (fst ?q)" and ?p = "plo @ phi"
  let ?w = "snd ?q + snd ?r" and ?s = "mpn_add_n (take n (drop n2 (plo @ phi))) (fst (mpn_add_n phi (fst (if sign then mpn_add_n plo ws else (fst (mpn_sub_n plo ws), - snd (mpn_sub_n plo ws))))))"
  define c where "c = (if sign then uint (snd (mpn_add_n plo ws)) else - uint (snd (mpn_sub_n plo ws)))"
  have lq: "length (fst ?q) = n" and lr: "length (fst ?r) = n" using len by auto
  have q: "lval (fst ?q) + B ^ n * c = lval plo + (if sign then lval ws else - lval ws)"
    using mpn_add_n_value [of plo ws] mpn_sub_n_value [of plo ws] len by (simp add: c_def)
  have r: "lval (fst ?r) + B ^ n * uint (snd ?r) = lval phi + lval (fst ?q)"
    using mpn_add_n_value [of phi "fst ?q"] len lq by simp
  define w where "w = c + uint (snd ?r)"
  have m: "lval (fst ?r) + B ^ n * w = M"
    unfolding w_def M(1) using q r by (simp only: distrib_left)
  have "- 1 < w"
  proof (rule ccontr)
    assume "\<not> - 1 < w"
    then have "B ^ n * w \<le> B ^ n * - 1" by (intro mult_left_mono) auto
    then show False using m M(2) lval_lt [of "fst ?r"] lr by simp
  qed
  have c1: "uint (snd (mpn_add_n xs ys)) \<le> 1" "uint (snd (mpn_sub_n xs ys)) \<le> 1" for xs ys
    using mpn_add_n_carry [of xs ys] mpn_sub_n_borrow [of xs ys] by (simp_all add: le_limb_iff)
  have cw: "snd ?q = of_int c" by (simp add: c_def)
  have "?w + snd ?s = of_int (w + uint (snd ?s))" unfolding cw w_def by simp
  moreover have "c \<le> 1"
    using c1(1) [of plo ws] by (auto simp: c_def intro: order_trans [OF _ uint_ge_0])
  then have "0 \<le> w + uint (snd ?s)" "w + uint (snd ?s) \<le> 3"
    using \<open>- 1 < w\<close> c1(1) [of phi "fst ?q"] c1(1) [of "take n (drop n2 ?p)" "fst ?r"] uint_ge_0 [of "snd ?s"]
    unfolding w_def by linarith+
  ultimately have inc: "uint (?w + snd ?s) = uint (snd ?s) + w"
    using uint_of_int_limb [of "w + uint (snd ?s)"] by (simp add: B_def)
  have lp: "length ?p = 2 * n" using len by simp
  have vp: "lval ?p = lval plo + B ^ n * lval phi" using len by (simp add: lval_append)
  have n2: "n div 2 = n2" using n by simp
  have k: "kara_interpolate_even n sign plo phi ws = take n2 ?p @ fst ?s @ mpn_incr_u (drop (n2 + n) ?p) (?w + snd ?s)"
    unfolding kara_interpolate_even_def Let_def n2 by (simp add: split_beta)
  have "lval (take n2 ?p @ fst ?s @ mpn_incr_u (drop (n2 + n) ?p) (?w + snd ?s))
      = lval ?p + B ^ n2 * (lval (fst ?r) + B ^ n * w)"
    by (rule add_at_value [OF _ lr refl inc]) (use lp n fits vp m in simp_all)
  then show "lval (kara_interpolate_even n sign plo phi ws) = lval plo + B ^ n * lval phi + B ^ n2 * M"
    unfolding k vp m .
  show "length (kara_interpolate_even n sign plo phi ws) = 2 * n"
    unfolding k using lp lr n by simp
qed


subsection \<open>Correctness\<close>

lemma kara_identity:
  fixes x0 x1 y0 y1 da db :: int
  assumes "x0 - x1 = (if sa then - 1 else 1) * da" "y0 - y1 = (if sb then - 1 else 1) * db"
  shows "x0 * y0 + x1 * y1 + (if sa \<noteq> sb then da * db else - (da * db)) = x0 * y1 + x1 * y0"
proof -
  have "(x0 - x1) * (y0 - y1) = (if sa \<noteq> sb then - (da * db) else da * db)"
    unfolding assms by simp
  then show ?thesis by (cases "sa \<noteq> sb") (simp_all add: algebra_simps)
qed

lemma kara_total:
  fixes P :: int
  shows "x0 * y0 + P * P * (x1 * y1) + P * (x0 * y1 + x1 * y0) = (x0 + P * x1) * (y0 + P * y1)"
  by (simp add: algebra_simps)

lemma lval_mult_lt: "length a = n \<Longrightarrow> length b = m \<Longrightarrow> lval a * lval b < B ^ (n + m)"
  unfolding power_add using lval_lt [of a] lval_lt [of b] lval_nonneg [of a] lval_nonneg [of b]
  by (intro mult_strict_mono) auto

lemma kara_odd_step:
  assumes len: "length a = n" "length b = n" and n: "n = 2 * n2 + 1" "0 < n2"
    and da: "kara_diff_odd n2 a = (sa, da)" and db: "kara_diff_odd n2 b = (sb, db)"
    and ws: "lval ws = lval da * lval db" "length ws = n + 1"
    and plo: "lval plo = lval (take (n2 + 1) a) * lval (take (n2 + 1) b)" "length plo = n + 1"
    and phi: "lval phi = lval (drop (n2 + 1) a) * lval (drop (n2 + 1) b)" "length phi = n - 1"
  shows "lval (kara_interpolate_odd n (sa \<noteq> sb) plo phi ws) = lval a * lval b"
    and "length (kara_interpolate_odd n (sa \<noteq> sb) plo phi ws) = 2 * n"
proof -
  let ?x0 = "lval (take (n2 + 1) a)" and ?x1 = "lval (drop (n2 + 1) a)"
  let ?y0 = "lval (take (n2 + 1) b)" and ?y1 = "lval (drop (n2 + 1) b)" and ?P = "B ^ (n2 + 1)"
  let ?M = "?x0 * ?y1 + ?x1 * ?y0"
  have "?x0 * ?y0 + ?x1 * ?y1 + (if sa \<noteq> sb then lval da * lval db else - (lval da * lval db)) = ?M"
    using kara_diff_odd_value(2) [of a n2] kara_diff_odd_value(2) [of b n2] da db len n
    by (intro kara_identity) auto
  then have M: "?M = lval plo + lval phi + (if sa \<noteq> sb then lval ws else - lval ws)"
    unfolding ws plo phi by simp
  have n': "n2 + 1 + n2 = n" "n2 + (n2 + 1) = n" using n by simp_all
  have "?x0 * ?y1 < B ^ n" by (rule lval_mult_lt [of _ "n2 + 1" _ n2, unfolded n']) (use len n in simp_all)
  moreover have "?x1 * ?y0 < B ^ n" by (rule lval_mult_lt [of _ n2 _ "n2 + 1", unfolded n']) (use len n in simp_all)
  moreover have "2 * B ^ n \<le> B ^ (n + 1)" by (simp add: B_def)
  ultimately have lt: "?M < B ^ (n + 1)" by linarith
  have pos: "0 \<le> ?M" by simp
  have PP: "B ^ (n + 1) = ?P * ?P" using n by (simp flip: power_add add: mult_2)
  have ab: "lval a = ?x0 + ?P * ?x1" "lval b = ?y0 + ?P * ?y1"
    using lval_split_at [of "n2 + 1" a] lval_split_at [of "n2 + 1" b] len n by simp_all
  have tot: "lval plo + B ^ (n + 1) * lval phi + ?P * ?M = lval a * lval b"
    unfolding plo(1) phi(1) PP ab by (rule kara_total)
  have "lval a * lval b < B ^ (2 * n)" using lval_mult_lt [OF len] by (simp add: mult_2)
  note v = kara_interpolate_odd_value [OF n(1) plo(2) phi(2) ws(2) M pos lt _ n(2), unfolded tot, OF this]
  show "lval (kara_interpolate_odd n (sa \<noteq> sb) plo phi ws) = lval a * lval b" by (rule v(1))
  show "length (kara_interpolate_odd n (sa \<noteq> sb) plo phi ws) = 2 * n" by (rule v(2))
qed

lemma kara_even_step:
  assumes len: "length a = n" "length b = n" and n: "n = 2 * n2"
    and da: "kara_diff n2 (take n2 a) (drop n2 a) = (sa, da)" and db: "kara_diff n2 (take n2 b) (drop n2 b) = (sb, db)"
    and ws: "lval ws = lval da * lval db" "length ws = n"
    and plo: "lval plo = lval (take n2 a) * lval (take n2 b)" "length plo = n"
    and phi: "lval phi = lval (drop n2 a) * lval (drop n2 b)" "length phi = n"
  shows "lval (kara_interpolate_even n (sa \<noteq> sb) plo phi ws) = lval a * lval b"
    and "length (kara_interpolate_even n (sa \<noteq> sb) plo phi ws) = 2 * n"
proof -
  let ?x0 = "lval (take n2 a)" and ?x1 = "lval (drop n2 a)"
  let ?y0 = "lval (take n2 b)" and ?y1 = "lval (drop n2 b)" and ?P = "B ^ n2"
  let ?M = "?x0 * ?y1 + ?x1 * ?y0"
  have "?x0 * ?y0 + ?x1 * ?y1 + (if sa \<noteq> sb then lval da * lval db else - (lval da * lval db)) = ?M"
    using kara_diff_value(2) [of "take n2 a" n2 "drop n2 a"] kara_diff_value(2) [of "take n2 b" n2 "drop n2 b"] da db len n
    by (intro kara_identity) auto
  then have M: "?M = lval plo + lval phi + (if sa \<noteq> sb then lval ws else - lval ws)"
    unfolding ws plo phi by simp
  have pos: "0 \<le> ?M" by simp
  have PP: "B ^ n = ?P * ?P" using n by (simp flip: power_add add: mult_2)
  have ab: "lval a = ?x0 + ?P * ?x1" "lval b = ?y0 + ?P * ?y1"
    using lval_split_at [of n2 a] lval_split_at [of n2 b] len n by simp_all
  have tot: "lval plo + B ^ n * lval phi + ?P * ?M = lval a * lval b"
    unfolding plo(1) phi(1) PP ab by (rule kara_total)
  have "lval a * lval b < B ^ (2 * n)" using lval_mult_lt [OF len] by (simp add: mult_2)
  note v = kara_interpolate_even_value [OF n plo(2) phi(2) ws(2) M pos, unfolded tot, OF this]
  show "lval (kara_interpolate_even n (sa \<noteq> sb) plo phi ws) = lval a * lval b" by (rule v(1))
  show "length (kara_interpolate_even n (sa \<noteq> sb) plo phi ws) = 2 * n" by (rule v(2))
qed


definition is_product :: "nat \<Rightarrow> limb list \<Rightarrow> limb list \<Rightarrow> limb list \<Rightarrow> bool" where
  "is_product n a b p \<longleftrightarrow> lval p = lval a * lval b \<and> length p = 2 * n"

lemma is_product_basecase:
  "length a = n \<Longrightarrow> length b = n \<Longrightarrow> 0 < n \<Longrightarrow> is_product n a b (mpn_mul_basecase a b)"
  using mpn_mul_basecase_value [of a b] by (cases "b = []"; cases "a = []") (auto simp: is_product_def)

lemma kara_odd_product:
  assumes len: "length a = n" "length b = n" and n: "n mod 2 \<noteq> 0" "0 < n div 2"
    and ws: "is_product (n - n div 2) (snd (kara_diff_odd (n div 2) a)) (snd (kara_diff_odd (n div 2) b)) ws"
    and plo: "is_product (n - n div 2) (take (n - n div 2) a) (take (n - n div 2) b) plo"
    and phi: "is_product (n div 2) (drop (n - n div 2) a) (drop (n - n div 2) b) phi"
  shows "is_product n a b
    (kara_interpolate_odd n (fst (kara_diff_odd (n div 2) a) \<noteq> fst (kara_diff_odd (n div 2) b)) plo phi ws)"
proof -
  let ?n2 = "n div 2"
  have n': "n = 2 * ?n2 + 1" using n(1) by presburger
  have n3: "n - ?n2 = ?n2 + 1" using n' by linarith
  have l: "2 * (?n2 + 1) = n + 1" "2 * ?n2 = n - 1" using n(1) by (presburger, presburger)
  note st = kara_odd_step [OF len n' n(2) prod.collapse [symmetric] prod.collapse [symmetric]]
  show ?thesis using ws plo phi unfolding is_product_def n3 l by (intro conjI st) auto
qed

lemma kara_even_product:
  assumes len: "length a = n" "length b = n" and n: "n mod 2 = 0"
    and ws: "is_product (n div 2) (snd (kara_diff (n div 2) (take (n div 2) a) (drop (n div 2) a)))
               (snd (kara_diff (n div 2) (take (n div 2) b) (drop (n div 2) b))) ws"
    and plo: "is_product (n div 2) (take (n div 2) a) (take (n div 2) b) plo"
    and phi: "is_product (n div 2) (drop (n div 2) a) (drop (n div 2) b) phi"
  shows "is_product n a b
    (kara_interpolate_even n (fst (kara_diff (n div 2) (take (n div 2) a) (drop (n div 2) a))
       \<noteq> fst (kara_diff (n div 2) (take (n div 2) b) (drop (n div 2) b))) plo phi ws)"
proof -
  let ?n2 = "n div 2"
  have n': "n = 2 * ?n2" using n by presburger
  have l: "2 * ?n2 = n" using n' by linarith
  note st = kara_even_step [OF len n' prod.collapse [symmetric] prod.collapse [symmetric]]
  show ?thesis using ws plo phi unfolding is_product_def l by (intro conjI st) auto
qed

theorem mpn_kara_mul_n_product:
  assumes "length a = n" "length b = n" "2 \<le> n" "2 \<le> thr"
  shows "is_product n a b (mpn_kara_mul_n thr a b n)"
  using assms
proof (induction n arbitrary: a b rule: less_induct)
  case (less n)
  let ?n2 = "n div 2" and ?n3 = "n - n div 2"
  have n2: "0 < ?n2" "?n2 < n" "?n3 < n" "?n2 \<le> ?n3" using less.prems(3) by linarith+
  have K: "is_product k xs ys (mpn_kara_mul_n thr xs ys k)"
    if "k < n" "length xs = k" "length ys = k" "thr \<le> k" for k xs ys
    using less.IH [OF that(1-3)] that(4) less.prems(4) by simp
  note Bc = is_product_basecase
  show ?case
  proof (cases "n mod 2 = 0")
    case True
    then have even: "\<not> n mod 2 \<noteq> 0" and n': "n - ?n2 = ?n2" by presburger+
    define da where "da = kara_diff ?n2 (take ?n2 a) (drop ?n2 a)"
    define db where "db = kara_diff ?n2 (take ?n2 b) (drop ?n2 b)"
    have l: "length (take ?n2 a) = ?n2" "length (drop ?n2 a) = ?n2" "length (take ?n2 b) = ?n2"
      "length (drop ?n2 b) = ?n2" using less.prems n' by simp_all
    then have ld: "length (snd da) = ?n2" "length (snd db) = ?n2"
      unfolding da_def db_def by (simp_all add: kara_diff_value(1))
    show ?thesis
      unfolding mpn_kara_mul_n.simps [of thr a b n] Let_def split_beta fst_conv snd_conv if_not_P [OF even]
        if_not_P [OF less_imp_neq [OF n2(1), symmetric]] da_def [symmetric] db_def [symmetric]
      by (rule kara_even_product [OF less.prems(1,2) True, folded da_def db_def])
        (cases "?n2 < thr"; cases "?n3 < thr"; simp add: K Bc l ld n2 del: length_take length_drop)+
  next
    case False
    define da where "da = kara_diff_odd ?n2 a"
    define db where "db = kara_diff_odd ?n2 b"
    have n': "n = 2 * ?n2 + 1" using False by presburger
    then have n3: "?n2 + 1 = ?n3" by linarith
    have l: "length (take ?n3 a) = ?n3" "length (drop ?n3 a) = ?n2" "length (take ?n3 b) = ?n3"
      "length (drop ?n3 b) = ?n2" using less.prems n' by simp_all
    have ld: "length (snd da) = ?n3" "length (snd db) = ?n3"
      unfolding da_def db_def n3 [symmetric] using less.prems n' by (simp_all add: kara_diff_odd_value(1))
    show ?thesis
      unfolding mpn_kara_mul_n.simps [of thr a b n] Let_def split_beta fst_conv snd_conv if_P [OF False]
        if_not_P [OF less_imp_neq [OF n2(1), symmetric]] da_def [symmetric] db_def [symmetric]
      by (rule kara_odd_product [OF less.prems(1,2) False n2(1), folded da_def db_def])
        (cases "?n2 < thr"; cases "?n3 < thr"; simp add: K Bc l ld n2 del: length_take length_drop)+
  qed
qed

end
