(* ===== verification/Mpn_Bits.thy ===== *)
theory Mpn_Bits
  imports Mpn_Arith Longlong
begin

text \<open>
  Shifts, bitwise operations and bit scans on limb vectors (\<^verbatim>\<open>mpn/generic/lshift.c\<close>,
  \<^verbatim>\<open>rshift.c\<close>, \<^verbatim>\<open>and_n.c\<close> and its siblings with the loops of \<^verbatim>\<open>gmp-impl.h\<close>,
  \<^verbatim>\<open>scan0.c\<close>, \<^verbatim>\<open>scan1.c\<close>, and the bit counts of \<^verbatim>\<open>longlong.h\<close>). The link between a vector
  and the bits of the number it denotes is \<open>bit_lval\<close>; every operation is then
  described on the number.
\<close>

subsection \<open>Bits of a limb vector\<close>

lemma bit_limb_Cons:
  "bit (uint (x :: limb) + B * k) i \<longleftrightarrow> (if i < 64 then bit x i else bit k (i - 64))"
proof -
  have "push_bit 64 k + uint x = push_bit 64 k OR uint x"
    by (rule disjunctive_add_eq_or) (auto simp: bit_eq_iff bit_simps dest: bit_imp_le_length)
  moreover have "uint x + B * k = push_bit 64 k + uint x"
    by (simp add: push_bit_eq_mult B_def)
  ultimately have "uint x + B * k = push_bit 64 k OR uint x" by simp
  then show ?thesis
    by (auto simp: bit_or_iff bit_push_bit_iff bit_uint_iff)
qed

lemma bit_lval:
  "bit (lval xs) i \<longleftrightarrow> i div 64 < length xs \<and> bit (xs ! (i div 64)) (i mod 64)"
proof (induction xs arbitrary: i)
  case (Cons x xs)
  show ?case
  proof (cases "i < 64")
    case False
    then have "i div 64 = Suc ((i - 64) div 64)" "(i - 64) mod 64 = i mod 64"
      by (simp_all add: le_div_geq le_mod_geq)
    then show ?thesis using Cons.IH [of "i - 64"] False by (simp add: bit_limb_Cons)
  qed (simp add: bit_limb_Cons)
qed simp

text \<open>Bitwise operations act limb by limb.\<close>

lemma lval_Cons_op:
  fixes f :: "limb \<Rightarrow> limb \<Rightarrow> limb" and g :: "int \<Rightarrow> int \<Rightarrow> int"
  assumes "\<And>a b i. bit (f a b) i \<longleftrightarrow> i < 64 \<and> P (bit a i) (bit b i)"
    and "\<And>a b i. bit (g a b) i \<longleftrightarrow> P (bit a i) (bit b i)"
  shows "uint (f x y) + B * g k l = g (uint x + B * k) (uint y + B * l)"
proof (rule bit_eqI)
  fix n
  show "bit (uint (f x y) + B * g k l) n \<longleftrightarrow> bit (g (uint x + B * k) (uint y + B * l)) n"
    unfolding assms(2) bit_limb_Cons by (simp add: assms)
qed

lemma lval_map2_op:
  fixes f :: "limb \<Rightarrow> limb \<Rightarrow> limb" and g :: "int \<Rightarrow> int \<Rightarrow> int"
  assumes f: "\<And>a b i. bit (f a b) i \<longleftrightarrow> i < 64 \<and> P (bit a i) (bit b i)"
    and g: "\<And>a b i. bit (g a b) i \<longleftrightarrow> P (bit a i) (bit b i)"
    and "\<not> P False False" "length xs = length ys"
  shows "lval (map2 f xs ys) = g (lval xs) (lval ys)"
  using assms(4)
proof (induction xs ys rule: list_induct2)
  case Nil
  then show ?case using assms(3) by (intro bit_eqI) (simp add: g)
next
  case (Cons x xs y ys)
  then show ?case using lval_Cons_op [of f P g x y, OF f g] by simp
qed

subsection \<open>Bitwise operations on vectors of one size (and\_n.c and siblings)\<close>

definition mpn_and_n :: "limb list \<Rightarrow> limb list \<Rightarrow> limb list" where
  "mpn_and_n s1 s2 = map2 (\<lambda>a b. a AND b) s1 s2"

definition mpn_andn_n :: "limb list \<Rightarrow> limb list \<Rightarrow> limb list" where
  "mpn_andn_n s1 s2 = map2 (\<lambda>a b. a AND NOT b) s1 s2"

definition mpn_nand_n :: "limb list \<Rightarrow> limb list \<Rightarrow> limb list" where
  "mpn_nand_n s1 s2 = map2 (\<lambda>a b. NOT (a AND b)) s1 s2"

definition mpn_ior_n :: "limb list \<Rightarrow> limb list \<Rightarrow> limb list" where
  "mpn_ior_n s1 s2 = map2 (\<lambda>a b. a OR b) s1 s2"

definition mpn_iorn_n :: "limb list \<Rightarrow> limb list \<Rightarrow> limb list" where
  "mpn_iorn_n s1 s2 = map2 (\<lambda>a b. a OR NOT b) s1 s2"

definition mpn_nior_n :: "limb list \<Rightarrow> limb list \<Rightarrow> limb list" where
  "mpn_nior_n s1 s2 = map2 (\<lambda>a b. NOT (a OR b)) s1 s2"

definition mpn_xor_n :: "limb list \<Rightarrow> limb list \<Rightarrow> limb list" where
  "mpn_xor_n s1 s2 = map2 (\<lambda>a b. a XOR b) s1 s2"

definition mpn_xnor_n :: "limb list \<Rightarrow> limb list \<Rightarrow> limb list" where
  "mpn_xnor_n s1 s2 = map2 (\<lambda>a b. NOT (a XOR b)) s1 s2"

lemmas mpn_logic_defs = mpn_and_n_def mpn_andn_n_def mpn_nand_n_def mpn_ior_n_def mpn_iorn_n_def
  mpn_nior_n_def mpn_xor_n_def mpn_xnor_n_def

lemma length_mpn_logic [simp]:
  "length (mpn_and_n xs ys) = min (length xs) (length ys)"
  "length (mpn_andn_n xs ys) = min (length xs) (length ys)"
  "length (mpn_nand_n xs ys) = min (length xs) (length ys)"
  "length (mpn_ior_n xs ys) = min (length xs) (length ys)"
  "length (mpn_iorn_n xs ys) = min (length xs) (length ys)"
  "length (mpn_nior_n xs ys) = min (length xs) (length ys)"
  "length (mpn_xor_n xs ys) = min (length xs) (length ys)"
  "length (mpn_xnor_n xs ys) = min (length xs) (length ys)"
  by (simp_all add: mpn_logic_defs)

lemma lval_mpn_and_n: "length xs = length ys \<Longrightarrow> lval (mpn_and_n xs ys) = lval xs AND lval ys"
  unfolding mpn_and_n_def
  by (rule lval_map2_op [where P = "\<lambda>a b. a \<and> b"]) (auto simp: bit_simps dest: bit_imp_le_length)

lemma lval_mpn_andn_n: "length xs = length ys \<Longrightarrow> lval (mpn_andn_n xs ys) = lval xs AND NOT (lval ys)"
  unfolding mpn_andn_n_def
  by (rule lval_map2_op [where P = "\<lambda>a b. a \<and> \<not> b"]) (auto simp: bit_simps dest: bit_imp_le_length)

lemma lval_mpn_ior_n: "length xs = length ys \<Longrightarrow> lval (mpn_ior_n xs ys) = lval xs OR lval ys"
  unfolding mpn_ior_n_def
  by (rule lval_map2_op [where P = "\<lambda>a b. a \<or> b"]) (auto simp: bit_simps dest: bit_imp_le_length)

lemma lval_mpn_xor_n: "length xs = length ys \<Longrightarrow> lval (mpn_xor_n xs ys) = lval xs XOR lval ys"
  unfolding mpn_xor_n_def
  by (rule lval_map2_op [where P = "\<lambda>a b. a \<noteq> b"]) (auto simp: bit_simps dest: bit_imp_le_length)

text \<open>The complemented forms are the complements of the plain ones.\<close>

lemma mpn_complemented:
  "mpn_nand_n xs ys = mpn_com_n (mpn_and_n xs ys)"
  "mpn_nior_n xs ys = mpn_com_n (mpn_ior_n xs ys)"
  "mpn_xnor_n xs ys = mpn_com_n (mpn_xor_n xs ys)"
  "mpn_iorn_n xs ys = mpn_com_n (mpn_andn_n ys xs)"
  by (auto simp: mpn_logic_defs mpn_com_n_def list_eq_iff_nth_eq min.commute or.commute)

subsection \<open>Shifts (lshift.c, rshift.c)\<close>

text \<open>
  \<^verbatim>\<open>mpn_lshift\<close> runs from the most significant limb down, \<^verbatim>\<open>mpn_rshift\<close> up from the least
  significant one, so the left shift works on the reversed vector.
\<close>

fun lshift_loop :: "nat \<Rightarrow> limb \<Rightarrow> limb list \<Rightarrow> limb list" where
  "lshift_loop cnt high_limb [] = [high_limb]"
| "lshift_loop cnt high_limb (low_limb # up) =
     (high_limb OR drop_bit (64 - cnt) low_limb) # lshift_loop cnt (push_bit cnt low_limb) up"

definition mpn_lshift :: "limb list \<Rightarrow> nat \<Rightarrow> limb list \<times> limb" where
  "mpn_lshift up cnt =
     (case rev up of
        [] \<Rightarrow> ([], 0)
      | low_limb # us \<Rightarrow>
          (rev (lshift_loop cnt (push_bit cnt low_limb) us), drop_bit (64 - cnt) low_limb))"

fun rshift_loop :: "nat \<Rightarrow> limb \<Rightarrow> limb list \<Rightarrow> limb list" where
  "rshift_loop cnt low_limb [] = [low_limb]"
| "rshift_loop cnt low_limb (high_limb # up) =
     (low_limb OR push_bit (64 - cnt) high_limb) # rshift_loop cnt (drop_bit cnt high_limb) up"

definition mpn_rshift :: "limb list \<Rightarrow> nat \<Rightarrow> limb list \<times> limb" where
  "mpn_rshift up cnt =
     (case up of
        [] \<Rightarrow> ([], 0)
      | high_limb # us \<Rightarrow>
          (rshift_loop cnt (drop_bit cnt high_limb) us, push_bit (64 - cnt) high_limb))"

text \<open>The two parts of a shifted limb do not overlap, and together hold the whole limb.\<close>

lemma uint_or_shifted:
  assumes "0 < cnt" "cnt < 64"
  shows "uint (push_bit cnt x OR drop_bit (64 - cnt) y) = uint (push_bit cnt x) + uint (drop_bit (64 - cnt) (y :: limb))"
proof -
  have d: "push_bit cnt x AND drop_bit (64 - cnt) y = 0"
    using assms by (intro bit_eqI) (auto simp: bit_simps dest: bit_imp_le_length)
  have "uint (push_bit cnt x OR drop_bit (64 - cnt) y) = uint (push_bit cnt x) OR uint (drop_bit (64 - cnt) y)"
    by (simp add: unsigned_or_eq)
  also have "\<dots> = uint (push_bit cnt x) + uint (drop_bit (64 - cnt) y)"
    by (rule disjunctive_add_eq_or [symmetric]) (simp add: d flip: unsigned_and_eq)
  finally show ?thesis .
qed

lemma pow_split: "cnt < 64 \<Longrightarrow> 2 ^ (64 - cnt) * 2 ^ cnt = B"
  by (simp add: B_def flip: power_add)

lemma shift_limb_value:
  assumes "0 < cnt" "cnt < 64"
  shows "uint (push_bit cnt x) + B * uint (drop_bit (64 - cnt) x) = uint (x :: limb) * 2 ^ cnt"
proof -
  have "uint (push_bit cnt x) = (uint x mod 2 ^ (64 - cnt)) * 2 ^ cnt"
    unfolding uint_push_limb pow_split [OF assms(2), symmetric] by (simp add: mult_mod_left)
  moreover have "B * uint (drop_bit (64 - cnt) x) = (uint x div 2 ^ (64 - cnt)) * 2 ^ (64 - cnt) * 2 ^ cnt"
    unfolding uint_drop_limb pow_split [OF assms(2), symmetric] by simp
  ultimately show ?thesis
    by (simp add: mod_div_mult_eq flip: distrib_right)
qed

lemma length_lshift_loop [simp]: "length (lshift_loop cnt h us) = Suc (length us)"
  by (induction us arbitrary: h) auto

lemma length_rshift_loop [simp]: "length (rshift_loop cnt h us) = Suc (length us)"
  by (induction us arbitrary: h) auto

lemma length_mpn_lshift [simp]: "length (fst (mpn_lshift up cnt)) = length up"
  by (cases up rule: rev_cases) (simp_all add: mpn_lshift_def)

lemma length_mpn_rshift [simp]: "length (fst (mpn_rshift up cnt)) = length up"
  by (auto simp: mpn_rshift_def split: list.split)

lemma lshift_loop_value:
  assumes "0 < cnt" "cnt < 64"
  shows "lval (rev (lshift_loop cnt (push_bit cnt x) us))
           = lval (rev us) * 2 ^ cnt + B ^ length us * uint (push_bit cnt x)"
proof (induction us arbitrary: x)
  case (Cons y us)
  have "lval (rev (lshift_loop cnt (push_bit cnt x) (y # us)))
      = lval (rev us) * 2 ^ cnt + B ^ length us * (uint (push_bit cnt y) + B * uint (drop_bit (64 - cnt) y))
        + B * B ^ length us * uint (push_bit cnt x)"
    using Cons by (simp add: lval_append uint_or_shifted [OF assms]) (simp add: algebra_simps)
  then show ?case
    unfolding shift_limb_value [OF assms] by (simp add: lval_append algebra_simps)
qed simp

theorem mpn_lshift_value:
  assumes "0 < cnt" "cnt < 64"
  shows "lval (fst (mpn_lshift up cnt)) + B ^ length up * uint (snd (mpn_lshift up cnt)) = lval up * 2 ^ cnt"
proof (cases "rev up")
  case (Cons x us)
  then have up: "up = rev us @ [x]" by (metis rev.simps(2) rev_rev_ident)
  have "lval (fst (mpn_lshift up cnt)) + B ^ length up * uint (snd (mpn_lshift up cnt))
      = lval (rev us) * 2 ^ cnt + B ^ length us * (uint (push_bit cnt x) + B * uint (drop_bit (64 - cnt) x))"
    unfolding mpn_lshift_def using Cons up lshift_loop_value [OF assms, of x us]
    by (simp add: algebra_simps)
  then show ?thesis unfolding shift_limb_value [OF assms] using up by (simp add: lval_append algebra_simps)
qed (simp add: mpn_lshift_def)

lemma rshift_loop_value:
  assumes "0 < cnt" "cnt < 64"
  shows "lval (rshift_loop cnt (drop_bit cnt x) us) = uint (drop_bit cnt x) + lval us * 2 ^ (64 - cnt)"
proof (induction us arbitrary: x)
  case (Cons y us)
  have c: "0 < 64 - cnt" "64 - cnt < 64" using assms by auto
  have o: "uint (drop_bit cnt x OR push_bit (64 - cnt) y) = uint (push_bit (64 - cnt) y) + uint (drop_bit cnt x)"
    using uint_or_shifted [OF c, of y x] assms by (simp add: or.commute)
  have "lval (rshift_loop cnt (drop_bit cnt x) (y # us)) = uint (drop_bit cnt x)
      + (uint (push_bit (64 - cnt) y) + B * uint (drop_bit (64 - (64 - cnt)) y)) + B * (lval us * 2 ^ (64 - cnt))"
    using Cons assms by (simp add: o) (simp add: algebra_simps)
  then show ?case
    unfolding shift_limb_value [OF c] by (simp add: algebra_simps)
qed simp

theorem mpn_rshift_value:
  assumes "0 < cnt" "cnt < 64"
  shows "uint (snd (mpn_rshift up cnt)) + B * lval (fst (mpn_rshift up cnt)) = lval up * 2 ^ (64 - cnt)"
proof (cases up)
  case (Cons x us)
  have c: "0 < 64 - cnt" "64 - cnt < 64" using assms by auto
  have "uint (snd (mpn_rshift up cnt)) + B * lval (fst (mpn_rshift up cnt))
      = (uint (push_bit (64 - cnt) x) + B * uint (drop_bit (64 - (64 - cnt)) x)) + B * (lval us * 2 ^ (64 - cnt))"
    unfolding mpn_rshift_def using Cons rshift_loop_value [OF assms, of x us] assms
    by (simp add: algebra_simps)
  then show ?thesis unfolding shift_limb_value [OF c] using Cons by (simp add: algebra_simps)
qed (simp add: mpn_rshift_def)

lemma mpn_rshift_div:
  assumes "0 < cnt" "cnt < 64"
  shows "lval (fst (mpn_rshift up cnt)) = lval up div 2 ^ cnt"
    and "snd (mpn_rshift up cnt) = 0 \<longleftrightarrow> lval up mod 2 ^ cnt = 0"
proof -
  let ?r = "mpn_rshift up cnt"
  have v: "lval up * 2 ^ (64 - cnt) = lval (fst ?r) * B + uint (snd ?r)"
    using mpn_rshift_value [OF assms, of up] by (simp add: mult.commute)
  have P: "(2 :: int) ^ cnt * 2 ^ (64 - cnt) = B" using pow_split [OF assms(2)] by (simp add: mult.commute)
  have d: "lval up * 2 ^ (64 - cnt) div B = lval up div 2 ^ cnt"
    and m: "lval up * 2 ^ (64 - cnt) mod B = lval up mod 2 ^ cnt * 2 ^ (64 - cnt)"
    unfolding P [symmetric] by simp_all
  have "lval up * 2 ^ (64 - cnt) div B = lval (fst ?r)" "lval up * 2 ^ (64 - cnt) mod B = uint (snd ?r)"
    using zdiv_mod_unique [OF v] by simp_all
  then show "lval (fst ?r) = lval up div 2 ^ cnt" "snd ?r = 0 \<longleftrightarrow> lval up mod 2 ^ cnt = 0"
    using d m by (auto simp: limb_eq_0_iff)
qed

subsection \<open>Scanning for a bit (scan0.c, scan1.c)\<close>

text \<open>
  The loop reads limbs until one is not zero; running off the end of the vector, which the
  caller must exclude, is \<^const>\<open>None\<close>. \<open>f\<close> is the map applied to each limb read.
\<close>

fun scan_loop :: "(limb \<Rightarrow> limb) \<Rightarrow> nat \<Rightarrow> limb \<Rightarrow> limb list \<Rightarrow> nat option" where
  "scan_loop f i alimb [] = (if alimb = 0 then None else Some (i * 64 + count_trailing_zeros alimb))"
| "scan_loop f i alimb (x # p) =
     (if alimb = 0 then scan_loop f (Suc i) (f x) p else Some (i * 64 + count_trailing_zeros alimb))"

definition mpn_scan1 :: "limb list \<Rightarrow> nat \<Rightarrow> nat option" where
  "mpn_scan1 up starting_bit =
     (let starting_word = starting_bit div 64
      in case drop starting_word up of
           [] \<Rightarrow> None
         | x # p \<Rightarrow> scan_loop (\<lambda>x. x) starting_word (x AND push_bit (starting_bit mod 64) (- 1)) p)"

definition mpn_scan0 :: "limb list \<Rightarrow> nat \<Rightarrow> nat option" where
  "mpn_scan0 up starting_bit =
     (let starting_word = starting_bit div 64
      in case drop starting_word up of
           [] \<Rightarrow> None
         | x # p \<Rightarrow> scan_loop (\<lambda>x. x XOR - 1) starting_word
                     ((x XOR - 1) AND push_bit (starting_bit mod 64) (- 1)) p)"

text \<open>\<open>r\<close> is the first position from \<open>s\<close> on where \<open>P\<close> holds.\<close>

definition first_at :: "(nat \<Rightarrow> bool) \<Rightarrow> nat \<Rightarrow> nat \<Rightarrow> bool" where
  "first_at P s r \<longleftrightarrow> s \<le> r \<and> P r \<and> (\<forall>j. s \<le> j \<and> j < r \<longrightarrow> \<not> P j)"

lemma first_at_unique: "first_at P s r \<Longrightarrow> first_at P s r' \<Longrightarrow> r = r'"
  unfolding first_at_def by (metis linorder_neqE_nat)

lemma first_at_shift:
  assumes "first_at P 0 r" "\<And>j. j < n \<Longrightarrow> \<not> Q j" "\<And>j. Q (n + j) \<longleftrightarrow> P j"
  shows "first_at Q 0 (n + r)"
  unfolding first_at_def
proof (intro conjI allI impI)
  fix j assume "0 \<le> j \<and> j < n + r"
  then show "\<not> Q j" using assms unfolding first_at_def
    by (cases "j < n") (auto dest: le_Suc_ex simp: not_less)
qed (use assms in \<open>auto simp: first_at_def\<close>)

lemma scan_loop_spec:
  "case scan_loop f i a p of
     Some r \<Rightarrow> i * 64 \<le> r \<and> first_at (bit (lval (a # map f p))) 0 (r - i * 64)
   | None \<Rightarrow> lval (a # map f p) = 0"
proof (induction p arbitrary: i a)
  case Nil
  then show ?case
    using count_trailing_zeros_spec [of a]
    by (auto simp: first_at_def limb_eq_0_iff bit_uint_iff)
next
  case (Cons x p)
  show ?case
  proof (cases "a = 0")
    case False
    then show ?thesis using count_trailing_zeros_spec [OF False]
      by (auto simp: first_at_def bit_limb_Cons)
  next
    case True
    then have eq: "scan_loop f i a (x # p) = scan_loop f (Suc i) (f x) p" by simp
    have sh: "bit (lval (a # map f (x # p))) (64 + j) \<longleftrightarrow> bit (lval (f x # map f p)) j" for j
      using True bit_limb_Cons [of a "lval (f x # map f p)" "64 + j"] by simp
    have lo: "\<not> bit (lval (a # map f (x # p))) j" if "j < 64" for j
      using True bit_limb_Cons [of a "lval (f x # map f p)" j] that by simp
    show ?thesis
    proof (cases "scan_loop f (Suc i) (f x) p")
      case None
      then show ?thesis using Cons.IH [where i = "Suc i" and a = "f x"] True unfolding eq by simp
    next
      case (Some r)
      then have r: "Suc i * 64 \<le> r" "first_at (bit (lval (f x # map f p))) 0 (r - Suc i * 64)"
        using Cons.IH [where i = "Suc i" and a = "f x"] by auto
      have "first_at (bit (lval (a # map f (x # p)))) 0 (64 + (r - Suc i * 64))"
        by (rule first_at_shift [OF r(2) lo sh])
      moreover have "64 + (r - Suc i * 64) = r - i * 64" using r(1) by simp
      moreover have "i * 64 \<le> r" using r(1) by simp
      ultimately show ?thesis unfolding eq Some by (simp only: option.case simp_thms)
    qed
  qed
qed

text \<open>The mask of the first limb drops the bits below the start.\<close>

lemma bit_masked_first:
  "bit (lval ((x AND push_bit (s mod 64) (- 1)) # xs)) j \<longleftrightarrow> bit (lval (x # xs)) j \<and> s mod 64 \<le> j"
proof (cases "j < 64")
  case True
  then show ?thesis by (auto simp: bit_limb_Cons bit_simps)
next
  case False
  then have "s mod 64 \<le> j" using mod_less_divisor [of 64 s] by linarith
  then show ?thesis using False by (simp add: bit_limb_Cons)
qed

lemma bit_lval_drop: "bit (lval (drop w up)) j \<longleftrightarrow> bit (lval up) (w * 64 + j)"
  by (auto simp: bit_lval)

lemma scan_start:
  assumes "drop w up = x # p" "w = s div 64"
  shows "case scan_loop f w (f x AND push_bit (s mod 64) (- 1)) p of
           Some r \<Rightarrow> first_at (bit (lval (map f up))) s r
         | None \<Rightarrow> \<forall>j \<ge> s. \<not> bit (lval (map f up)) j"
proof -
  let ?a = "f x AND push_bit (s mod 64) (- 1)"
  have d: "map f (drop w up) = f x # map f p" using assms by simp
  have b: "bit (lval (?a # map f p)) j \<longleftrightarrow> bit (lval (map f up)) (w * 64 + j) \<and> s mod 64 \<le> j" for j
    unfolding bit_masked_first bit_lval_drop [of w "map f up", symmetric] drop_map d ..
  have s: "s = w * 64 + s mod 64" using assms(2) by simp
  show ?thesis
  proof (cases "scan_loop f w ?a p")
    case None
    then have z: "lval (?a # map f p) = 0" using scan_loop_spec [where f = f and i = w and a = ?a and p = p] by simp
    have "\<not> bit (lval (map f up)) j" if "s \<le> j" for j
      using b [of "j - w * 64"] that s unfolding z by (simp add: le_diff_conv2)
    then show ?thesis using None by simp
  next
    case (Some r)
    then have r: "w * 64 \<le> r" "first_at (bit (lval (?a # map f p))) 0 (r - w * 64)"
      using scan_loop_spec [where f = f and i = w and a = ?a and p = p] by auto
    have "first_at (bit (lval (map f up))) s r"
      unfolding first_at_def
    proof (intro conjI allI impI)
      show "s \<le> r" "bit (lval (map f up)) r"
        using r s b [of "r - w * 64"] unfolding first_at_def by auto
      fix j assume "s \<le> j \<and> j < r"
      then show "\<not> bit (lval (map f up)) j"
        using r s b [of "j - w * 64"] unfolding first_at_def by (auto dest: spec [of _ "j - w * 64"])
    qed
    then show ?thesis using Some by simp
  qed
qed

theorem mpn_scan1_spec:
  "case mpn_scan1 up s of
     Some r \<Rightarrow> first_at (bit (lval up)) s r
   | None \<Rightarrow> \<forall>j \<ge> s. \<not> bit (lval up) j"
proof (cases "drop (s div 64) up")
  case Nil
  then show ?thesis by (auto simp: mpn_scan1_def bit_lval div_le_mono not_less dest: order_trans)
next
  case (Cons x p)
  then show ?thesis using scan_start [OF Cons refl, where f = "\<lambda>x. x"]
    by (simp add: mpn_scan1_def map_idI cong: option.case_cong)
qed

lemma com_as_xor: "mpn_com_n up = map (\<lambda>x. x XOR - 1) up"
  by (simp add: mpn_com_n_def)

theorem mpn_scan0_spec:
  "case mpn_scan0 up s of
     Some r \<Rightarrow> first_at (bit (lval (mpn_com_n up))) s r
   | None \<Rightarrow> \<forall>j \<ge> s. \<not> bit (lval (mpn_com_n up)) j"
proof (cases "drop (s div 64) up")
  case Nil
  then show ?thesis by (auto simp: mpn_scan0_def bit_lval div_le_mono not_less dest: order_trans)
next
  case (Cons x p)
  then show ?thesis using scan_start [OF Cons refl, where f = "\<lambda>x. x XOR - 1"]
    unfolding com_as_xor by (simp add: mpn_scan0_def)
qed

end
