(* ===== verification/Mpn_Sqr.thy ===== *)
theory Mpn_Sqr
  imports Mpn_Karatsuba Mpn_Bits
begin

text \<open>
  Squaring of limb vectors: the schoolbook routine that forms the triangle of mixed products
  once and doubles it (\<^verbatim>\<open>mpn/generic/sqr_basecase.c\<close>, the default version on
  \<^verbatim>\<open>mpn_addmul_1\<close>), and Karatsuba squaring (\<^verbatim>\<open>mpn/generic/mul_n.c\<close>).
\<close>

subsection \<open>Schoolbook squaring\<close>

text \<open>\<^verbatim>\<open>MPN_SQR_DIAGONAL\<close>: the squares of the limbs, two limbs each.\<close>

fun sqr_diagonal :: "limb list \<Rightarrow> limb list" where
  "sqr_diagonal [] = []"
| "sqr_diagonal (ul # up) = (let (h, l) = umul_ppmm ul ul in l # h # sqr_diagonal up)"

text \<open>
  The loop over \<open>i\<close>: at iteration \<open>i\<close> the argument \<open>tp\<close> is the vector from
  \<^verbatim>\<open>tp + 2*i - 2\<close> on, and the list of limbs starts at \<^verbatim>\<open>up[i-1]\<close>.
\<close>

fun sqr_triangle :: "limb list \<Rightarrow> limb list \<Rightarrow> limb list" where
  "sqr_triangle tp [] = []"
| "sqr_triangle tp [ul] = []"
| "sqr_triangle tp (ul # up) =
     (let (rp, cy) = mpn_addmul_1 tp up ul; ts = rp @ [cy]
      in take 2 ts @ sqr_triangle (drop 2 ts) up)"

definition mpn_sqr_basecase :: "limb list \<Rightarrow> limb list" where
  "mpn_sqr_basecase up =
     (let n = length up; rp = sqr_diagonal up
      in if n > 1 then
           (let (tp, cy) = mpn_mul_1 (tl up) (hd up); tp = tp @ [cy];
                tp = take 2 tp @ sqr_triangle (drop 2 tp) (tl up);
                (tp, cy) = mpn_lshift tp 1;
                (mid, cy') = mpn_add_n (take (2 * n - 2) (drop 1 rp)) tp;
                cy = cy + cy'
            in take 1 rp @ mid @ [rp ! (2 * n - 1) + cy])
         else rp)"

subsection \<open>Its value\<close>

fun triangle_value :: "limb list \<Rightarrow> int" where
  "triangle_value [] = 0"
| "triangle_value (ul # up) = uint ul * lval up + B * B * triangle_value up"

lemma sqr_diagonal_length [simp]: "length (sqr_diagonal up) = 2 * length up"
  by (induction up) (auto simp: split_beta Let_def)

lemma square_split: "lval up * lval up = lval (sqr_diagonal up) + 2 * B * triangle_value up"
proof (induction up)
  case (Cons u up)
  have "lval (u # up) * lval (u # up) = uint u * uint u + 2 * B * (uint u * lval up) + B * B * (lval up * lval up)"
    by (simp add: algebra_simps)
  also have "uint u * uint u = B * uint (fst (umul_ppmm u u)) + uint (snd (umul_ppmm u u))"
    using umul_ppmm_value [OF prod.collapse [symmetric], of u u] by (simp add: algebra_simps)
  finally show ?case unfolding Cons.IH by (simp add: split_beta Let_def algebra_simps)
qed simp

lemma sqr_triangle_value:
  assumes "length up = Suc (length tp)"
  shows "length (sqr_triangle tp up) = 2 * length tp"
    and "lval (sqr_triangle tp up) = lval tp + triangle_value up"
proof -
  have "length (sqr_triangle tp up) = 2 * length tp \<and> lval (sqr_triangle tp up) = lval tp + triangle_value up"
    using assms
  proof (induction tp up rule: sqr_triangle.induct)
    case (3 tp ul v vs)
    let ?up = "v # vs"
    let ?r = "mpn_addmul_1 tp ?up ul"
    let ?ts = "fst ?r @ [snd ?r]"
    have len: "length tp = length ?up" using "3.prems" by simp
    have lts: "length ?ts = Suc (length tp)" using len by simp
    have vts: "lval ?ts = lval tp + uint ul * lval ?up"
      using mpn_addmul_1_value [of tp ?up ul] len by (simp add: lval_append mult.commute)
    have IH: "length (sqr_triangle (drop 2 ?ts) ?up) = 2 * length (drop 2 ?ts) \<and>
        lval (sqr_triangle (drop 2 ?ts) ?up) = lval (drop 2 ?ts) + triangle_value ?up"
      by (rule "3.IH" [OF refl prod.collapse refl]) (use len lts in simp)
    have s: "sqr_triangle tp (ul # ?up) = take 2 ?ts @ sqr_triangle (drop 2 ?ts) ?up"
      by (simp add: split_beta Let_def)
    have l2: "length (take 2 ?ts) = 2" using lts len by simp
    have "lval (sqr_triangle tp (ul # ?up)) = (lval (take 2 ?ts) + B ^ 2 * lval (drop 2 ?ts)) + B * B * triangle_value ?up"
      unfolding s lval_append l2 using IH by (simp add: algebra_simps power2_eq_square)
    also have "lval (take 2 ?ts) + B ^ 2 * lval (drop 2 ?ts) = lval ?ts"
      using lval_split_at [of 2 ?ts] lts len by simp
    finally show ?case using vts s IH l2 lts len by simp
  qed simp_all
  then show "length (sqr_triangle tp up) = 2 * length tp"
    and "lval (sqr_triangle tp up) = lval tp + triangle_value up" by simp_all
qed


lemma mpn_sqr_basecase_product:
  assumes "length up = n" "0 < n"
  shows "is_product n up up (mpn_sqr_basecase up)"
proof (cases "n > 1")
  case False
  then obtain u where "up = [u]" using assms by (cases up) auto
  then show ?thesis using assms square_split [of up]
    by (simp add: is_product_def mpn_sqr_basecase_def Let_def split_beta)
next
  case True
  obtain u us where up: "up = u # us" using assms by (cases up) auto
  then have lu: "length us = n - 1" "us \<noteq> []" using assms True by auto
  define m where "m = mpn_mul_1 us u"
  define ts where "ts = fst m @ [snd m]"
  define tp where "tp = take 2 ts @ sqr_triangle (drop 2 ts) us"
  define sh where "sh = mpn_lshift tp 1"
  define rp where "rp = sqr_diagonal up"
  define ad where "ad = mpn_add_n (take (2 * n - 2) (drop 1 rp)) (fst sh)"
  have lts: "length ts = n" using lu assms by (simp add: ts_def m_def)
  have vts: "lval ts = uint u * lval us"
    using mpn_mul_1_value [of us u] by (simp add: ts_def m_def lval_append mult.commute)
  have tr: "length (sqr_triangle (drop 2 ts) us) = 2 * (n - 2)"
    "lval (sqr_triangle (drop 2 ts) us) = lval (drop 2 ts) + triangle_value us"
    using sqr_triangle_value [of us "drop 2 ts"] lts lu True by simp_all
  have ltp: "length tp = 2 * n - 2" using lts tr True by (simp add: tp_def)
  have vtp: "lval tp = triangle_value up"
    using lval_split_at [of 2 ts] lts tr True vts by (simp add: tp_def lval_append up algebra_simps power2_eq_square)
  have sh: "lval (fst sh) + B ^ (2 * n - 2) * uint (snd sh) = 2 * triangle_value up"
    using mpn_lshift_value [of 1 tp] ltp vtp by (simp add: sh_def mult.commute)
  have lrp: "length rp = 2 * n" using assms by (simp add: rp_def)
  have lsh: "length (fst sh) = 2 * n - 2" using ltp by (simp add: sh_def)
  have i: "1 + (2 * n - 2) = 2 * n - 1" "Suc (2 * n - 1) = 2 * n" "2 * n - 1 < length rp" using True lrp by simp_all
  have "drop (1 + (2 * n - 2)) rp = [rp ! (2 * n - 1)]"
    unfolding i(1) Cons_nth_drop_Suc [OF i(3), symmetric] i(2) using lrp by simp
  then have inc: "mpn_incr_u (drop (1 + (2 * n - 2)) rp) c = [rp ! (2 * n - 1) + c]" for c
    by (simp add: mpn_incr_u_def Let_def)
  have q: "mpn_sqr_basecase up = take 1 rp @ fst ad @ mpn_incr_u (drop (1 + (2 * n - 2)) rp) (snd sh + snd ad)"
    unfolding inc using True assms(1) unfolding mpn_sqr_basecase_def ad_def sh_def tp_def ts_def m_def rp_def
    by (simp add: up Let_def split_beta)
  have "B ^ (2 * n - 2) * uint (snd sh) < B ^ (2 * n - 2) * 2"
    using sh lval_lt [of tp, unfolded ltp vtp] lval_nonneg [of "fst sh"] by linarith
  then have "uint (snd sh) \<le> 1" by simp
  moreover have "uint (snd ad) \<le> 1" using mpn_add_n_carry by (simp add: ad_def le_limb_iff)
  ultimately have c: "uint (snd sh + snd ad) = uint (snd ad) + uint (snd sh)"
    using uint_add_limb_no_overflow [of "snd sh" "snd ad"] by (simp add: B_def)
  have tot: "lval rp + B ^ 1 * (lval (fst sh) + B ^ (2 * n - 2) * uint (snd sh)) = lval up * lval up"
    unfolding sh square_split rp_def by simp
  have "lval up * lval up < B ^ length rp" unfolding lrp using lval_mult_lt [of up n up n] assms by (simp add: mult_2)
  then have "lval (mpn_sqr_basecase up) = lval up * lval up"
    unfolding q tot [symmetric] by (intro add_at_value [OF _ lsh ad_def c]) (use lrp True in simp_all)
  moreover have "length (mpn_sqr_basecase up) = 2 * n"
    unfolding q using lrp lsh True by (simp add: ad_def)
  ultimately show ?thesis by (simp add: is_product_def)
qed

subsection \<open>Karatsuba squaring\<close>

text \<open>
  \<^verbatim>\<open>mpn_kara_sqr_n\<close>: as for the product of a vector with itself, except that the sign of
  the difference does not matter and each subproduct has three ways of being computed.
\<close>

function mpn_kara_sqr_n :: "nat \<Rightarrow> nat \<Rightarrow> limb list \<Rightarrow> nat \<Rightarrow> limb list" where
  "mpn_kara_sqr_n bthr thr a n =
     (let n2 = n div 2
      in if n2 = 0 then []
         else if n mod 2 \<noteq> 0 then
           (let n3 = n - n2;
                da = snd (kara_diff_odd n2 a);
                (ws, plo) =
                  (if n3 < bthr then (mpn_mul_basecase da da, mpn_mul_basecase (take n3 a) (take n3 a))
                   else if n3 < thr then (mpn_sqr_basecase da, mpn_sqr_basecase (take n3 a))
                   else (mpn_kara_sqr_n bthr thr da n3, mpn_kara_sqr_n bthr thr (take n3 a) n3));
                phi =
                  (if n2 < bthr then mpn_mul_basecase (drop n3 a) (drop n3 a)
                   else if n2 < thr then mpn_sqr_basecase (drop n3 a)
                   else mpn_kara_sqr_n bthr thr (drop n3 a) n2)
            in kara_interpolate_odd n False plo phi ws)
         else
           (let da = snd (kara_diff n2 (take n2 a) (drop n2 a));
                (ws, plo, phi) =
                  (if n2 < bthr
                   then (mpn_mul_basecase da da, mpn_mul_basecase (take n2 a) (take n2 a),
                         mpn_mul_basecase (drop n2 a) (drop n2 a))
                   else if n2 < thr
                   then (mpn_sqr_basecase da, mpn_sqr_basecase (take n2 a), mpn_sqr_basecase (drop n2 a))
                   else (mpn_kara_sqr_n bthr thr da n2, mpn_kara_sqr_n bthr thr (take n2 a) n2,
                         mpn_kara_sqr_n bthr thr (drop n2 a) n2))
            in kara_interpolate_even n False plo phi ws))"
  by pat_completeness auto

termination
  by (relation "measure (\<lambda>(bthr, thr, a, n). n)") (auto simp: div_greater_zero_iff)

declare mpn_kara_sqr_n.simps [simp del]

theorem mpn_kara_sqr_n_product:
  assumes "length a = n" "2 \<le> n" "2 \<le> thr"
  shows "is_product n a a (mpn_kara_sqr_n bthr thr a n)"
  using assms
proof (induction n arbitrary: a rule: less_induct)
  case (less n)
  let ?n2 = "n div 2" and ?n3 = "n - n div 2"
  have n2: "0 < ?n2" "?n2 < n" "?n3 < n" "?n2 \<le> ?n3" using less.prems(2) by linarith+
  have K: "is_product k xs xs (mpn_kara_sqr_n bthr thr xs k)"
    if "k < n" "length xs = k" "thr \<le> k" for k xs
    using less.IH [OF that(1,2)] that(3) less.prems(3) by simp
  note Bc = is_product_basecase mpn_sqr_basecase_product
  have neq: "(s \<noteq> s) = False" for s :: bool by simp
  show ?case
  proof (cases "n mod 2 = 0")
    case True
    then have even: "\<not> n mod 2 \<noteq> 0" and n': "n - ?n2 = ?n2" by presburger+
    have l: "length (take ?n2 a) = ?n2" "length (drop ?n2 a) = ?n2" using less.prems n' by simp_all
    then have ld: "length (snd (kara_diff ?n2 (take ?n2 a) (drop ?n2 a))) = ?n2"
      by (simp add: kara_diff_value(1))
    show ?thesis
      unfolding mpn_kara_sqr_n.simps [of bthr thr a n] Let_def split_beta fst_conv snd_conv if_not_P [OF even]
        if_not_P [OF less_imp_neq [OF n2(1), symmetric]]
      by (rule kara_even_product [OF less.prems(1,1) True, unfolded neq])
        (cases "?n2 < bthr"; cases "?n2 < thr"; simp add: K Bc l ld n2 del: length_take length_drop)+
  next
    case False
    have n': "n = 2 * ?n2 + 1" using False by presburger
    then have n3: "?n2 + 1 = ?n3" by linarith
    have l: "length (take ?n3 a) = ?n3" "length (drop ?n3 a) = ?n2" using less.prems n' by simp_all
    have ld: "length (snd (kara_diff_odd ?n2 a)) = ?n3"
      unfolding n3 [symmetric] using less.prems n' by (simp add: kara_diff_odd_value(1))
    show ?thesis
      unfolding mpn_kara_sqr_n.simps [of bthr thr a n] Let_def split_beta fst_conv snd_conv if_P [OF False]
        if_not_P [OF less_imp_neq [OF n2(1), symmetric]]
      by (rule kara_odd_product [OF less.prems(1,1) False n2(1), unfolded neq])
        (cases "?n3 < bthr"; cases "?n3 < thr"; cases "?n2 < bthr"; cases "?n2 < thr";
          simp add: K Bc l ld n2 del: length_take length_drop)+
  qed
qed

end
