(* ===== verification/Mpn_Mul_Top.thy ===== *)
theory Mpn_Mul_Top
  imports Mpn_Sqr
begin

text \<open>
  The multiplication entry points \<^verbatim>\<open>mpn_mul_n\<close>, \<^verbatim>\<open>mpn_sqr\<close> (\<^verbatim>\<open>mpn/generic/mul_n.c\<close>) and
  \<^verbatim>\<open>mpn_mul\<close> (\<^verbatim>\<open>mpn/generic/mul.c\<close>): the choice of algorithm by the size of the operands,
  the schoolbook product of a long by a short operand in slices, and the block product of
  unbalanced operands with its running carry. Schoolbook and Karatsuba products are the
  verified ones; the Toom and Fourier routines, selected for operands of hundreds of limbs, are
  fields of the configuration, and the results assume of them that they multiply.
\<close>

subsection \<open>Configuration\<close>

record mul_config =
  mul_karatsuba_threshold :: nat
  mul_toom3_threshold :: nat
  mul_toom4_threshold :: nat
  mul_toom8h_threshold :: nat
  mul_fft_full_threshold :: nat
  sqr_basecase_threshold :: nat
  sqr_karatsuba_threshold :: nat
  sqr_toom3_threshold :: nat
  sqr_toom4_threshold :: nat
  sqr_toom8_threshold :: nat
  sqr_fft_full_threshold :: nat
  toom3_mul_n :: "limb list \<Rightarrow> limb list \<Rightarrow> limb list"
  toom4_mul_n :: "limb list \<Rightarrow> limb list \<Rightarrow> limb list"
  toom8h_mul :: "limb list \<Rightarrow> limb list \<Rightarrow> limb list"
  toom4_mul :: "limb list \<Rightarrow> limb list \<Rightarrow> limb list"
  toom53_mul :: "limb list \<Rightarrow> limb list \<Rightarrow> limb list"
  toom42_mul :: "limb list \<Rightarrow> limb list \<Rightarrow> limb list"
  toom3_mul :: "limb list \<Rightarrow> limb list \<Rightarrow> limb list"
  toom32_mul :: "limb list \<Rightarrow> limb list \<Rightarrow> limb list"
  mul_fft_full :: "limb list \<Rightarrow> limb list \<Rightarrow> limb list"
  toom3_sqr_n :: "limb list \<Rightarrow> limb list"
  toom4_sqr_n :: "limb list \<Rightarrow> limb list"
  toom8_sqr_n :: "limb list \<Rightarrow> limb list"

definition MUL_BASECASE_MAX_UN :: nat where
  "MUL_BASECASE_MAX_UN = 500"

subsection \<open>Equal sizes\<close>

definition mpn_mul_n :: "mul_config \<Rightarrow> limb list \<Rightarrow> limb list \<Rightarrow> limb list" where
  "mpn_mul_n cfg a b =
     (let n = length a
      in if n < mul_karatsuba_threshold cfg then mpn_mul_basecase a b
         else if n < mul_toom3_threshold cfg then mpn_kara_mul_n (mul_karatsuba_threshold cfg) a b n
         else if n < mul_toom4_threshold cfg then toom3_mul_n cfg a b
         else if n < mul_toom8h_threshold cfg then toom4_mul_n cfg a b
         else if n < mul_fft_full_threshold cfg then toom8h_mul cfg a b
         else mul_fft_full cfg a b)"

definition mpn_sqr :: "mul_config \<Rightarrow> limb list \<Rightarrow> limb list" where
  "mpn_sqr cfg a =
     (let n = length a
      in if n < sqr_basecase_threshold cfg then mpn_mul_basecase a a
         else if n < sqr_karatsuba_threshold cfg then mpn_sqr_basecase a
         else if n < sqr_toom3_threshold cfg
         then mpn_kara_sqr_n (sqr_basecase_threshold cfg) (sqr_karatsuba_threshold cfg) a n
         else if n < sqr_toom4_threshold cfg then toom3_sqr_n cfg a
         else if n < sqr_toom8_threshold cfg then toom4_sqr_n cfg a
         else if n < sqr_fft_full_threshold cfg then toom8_sqr_n cfg a
         else mul_fft_full cfg a a)"

subsection \<open>A long operand by a short one\<close>

text \<open>
  The slices of \<^verbatim>\<open>MUL_BASECASE_MAX_UN\<close> limbs: \<open>tp\<close> preserves the high limbs of the
  previous partial product, which are added back after the next one.
\<close>

definition add_back :: "limb list \<Rightarrow> limb list \<Rightarrow> limb list" where
  "add_back pp tp =
     (let vn = length tp; (lo, cy) = mpn_add_n (take vn pp) tp
      in lo @ mpn_incr_u (drop vn pp) cy)"

function mul_slices :: "limb list \<Rightarrow> limb list \<Rightarrow> limb list \<Rightarrow> limb list" where
  "mul_slices tp up vp =
     (let un = length up; vn = length vp
      in if un > MUL_BASECASE_MAX_UN then
           (let pp = add_back (mpn_mul_basecase (take MUL_BASECASE_MAX_UN up) vp) tp
            in take MUL_BASECASE_MAX_UN pp
               @ mul_slices (drop MUL_BASECASE_MAX_UN pp) (drop MUL_BASECASE_MAX_UN up) vp)
         else if un > vn then add_back (mpn_mul_basecase up vp) tp
         else add_back (mpn_mul_basecase vp up) tp)"
  by pat_completeness auto

termination
  by (relation "measure (\<lambda>(tp, up, vp). length up)") (auto simp: MUL_BASECASE_MAX_UN_def)

declare mul_slices.simps [simp del]

definition mul_long_short :: "limb list \<Rightarrow> limb list \<Rightarrow> limb list" where
  "mul_long_short up vp =
     (let pp = mpn_mul_basecase (take MUL_BASECASE_MAX_UN up) vp
      in take MUL_BASECASE_MAX_UN pp
         @ mul_slices (drop MUL_BASECASE_MAX_UN pp) (drop MUL_BASECASE_MAX_UN up) vp)"

subsection \<open>Unbalanced operands in blocks\<close>

text \<open>
  Adding the product \<open>ws\<close> of a block to the \<open>l\<close> limbs already at the destination, with
  the carry \<open>t\<close> out of them.
\<close>

definition add_block :: "limb list \<Rightarrow> limb \<Rightarrow> limb list \<Rightarrow> limb list \<times> limb" where
  "add_block prodp t ws =
     (let l = length prodp; m = length ws
      in if l \<le> m then
           (let (lo, c) = mpn_add_n prodp (take l ws); t = t + c
            in if l \<noteq> m then (let (hi, t) = mpn_add_1 (drop l ws) t in (lo @ hi, t)) else (lo, t))
         else
           (let (lo, c) = mpn_add_n (take m prodp) ws; (hi, c') = mpn_add_1 (drop m prodp) c
            in (lo @ hi, t + c')))"

text \<open>
  The loop, from \<^verbatim>\<open>prodp\<close> on. The threshold is at least 2, so a block of size zero is never
  taken.
\<close>

function mul_blocks :: "mul_config \<Rightarrow> limb list \<Rightarrow> limb \<Rightarrow> limb list \<Rightarrow> limb list \<Rightarrow> limb list" where
  "mul_blocks cfg prodp t up vp =
     (let un = length up; vn = length vp
      in if vn \<ge> mul_karatsuba_threshold cfg \<and> vn \<noteq> 0 then
           (let (prodp, t) = add_block prodp t (mpn_mul_n cfg (take vn up) vp);
                up' = drop vn up
            in take vn prodp
               @ (if un - vn < vn then mul_blocks cfg (drop vn prodp) t vp up'
                  else mul_blocks cfg (drop vn prodp) t up' vp))
         else if vn \<noteq> 0 then fst (add_block prodp t (mpn_mul_basecase up vp))
         else prodp)"
  by pat_completeness auto

termination
  by (relation "measures [\<lambda>(cfg, prodp, t, up, vp). length up + length vp, \<lambda>(cfg, prodp, t, up, vp). length vp]")
    auto

declare mul_blocks.simps [simp del]

subsection \<open>The dispatcher\<close>

text \<open>
  \<open>toom_choice\<close> is the cascade of size tests for the Toom and Fourier routines: the routine
  to call, if any. The \<open>same\<close> argument of \<open>mpn_mul\<close> tells whether the two source
  pointers are equal.
\<close>

definition toom_choice :: "mul_config \<Rightarrow> nat \<Rightarrow> nat \<Rightarrow> (limb list \<Rightarrow> limb list \<Rightarrow> limb list) option" where
  "toom_choice cfg un vn =
     (let k = (un + 3) div 4;
          unbalanced =
            (if un + vn \<ge> 2 * mul_toom3_threshold cfg \<and> vn > k then
               (if vn < 2 * k then Some (toom42_mul cfg)
                else (let l = (un + 2) div 3
                      in if vn > 2 * l then Some (toom3_mul cfg) else Some (toom32_mul cfg)))
             else None)
      in if un + vn \<ge> 2 * mul_fft_full_threshold cfg then Some (mul_fft_full cfg)
         else if un + vn \<ge> 2 * mul_toom8h_threshold cfg \<and> vn \<ge> 86 \<and> 4 * un \<le> 13 * vn
         then Some (toom8h_mul cfg)
         else if un + vn \<ge> 2 * mul_toom4_threshold cfg then
           (if vn > 3 * k then Some (toom4_mul cfg)
            else (let l = (un + 4) div 5
                  in if (vn > 9 * k div 4 \<and> un + vn \<le> 6 * mul_toom4_threshold cfg
                         \<or> vn > 2 * l \<and> un + vn > 6 * mul_toom4_threshold cfg) \<and> vn \<le> 3 * l
                     then Some (toom53_mul cfg) else unbalanced))
         else unbalanced)"

definition mpn_mul :: "mul_config \<Rightarrow> bool \<Rightarrow> limb list \<Rightarrow> limb list \<Rightarrow> limb list" where
  "mpn_mul cfg same up vp =
     (let un = length up; vn = length vp
      in if un = vn then (if same then mpn_sqr cfg up else mpn_mul_n cfg up vp)
         else if vn < mul_karatsuba_threshold cfg then
           (if un \<le> MUL_BASECASE_MAX_UN then mpn_mul_basecase up vp else mul_long_short up vp)
         else
           (case toom_choice cfg un vn of
              Some routine \<Rightarrow> routine up vp
            | None \<Rightarrow>
                (let pp = mpn_mul_n cfg (take vn up) vp; up' = drop vn up
                 in take vn pp
                    @ (if un - vn < vn then mul_blocks cfg (drop vn pp) 0 vp up'
                       else mul_blocks cfg (drop vn pp) 0 up' vp))))"


subsection \<open>What the routines promise\<close>

definition product_of :: "limb list \<Rightarrow> limb list \<Rightarrow> limb list \<Rightarrow> bool" where
  "product_of up vp p \<longleftrightarrow> lval p = lval up * lval vp \<and> length p = length up + length vp"

definition multiplies :: "(limb list \<Rightarrow> limb list \<Rightarrow> limb list) \<Rightarrow> bool" where
  "multiplies f \<longleftrightarrow> (\<forall>up vp. vp \<noteq> [] \<and> length vp \<le> length up \<longrightarrow> product_of up vp (f up vp))"

definition mul_config_ok :: "mul_config \<Rightarrow> bool" where
  "mul_config_ok cfg \<longleftrightarrow>
     2 \<le> mul_karatsuba_threshold cfg \<and> 2 \<le> sqr_karatsuba_threshold cfg \<and>
     multiplies (toom3_mul_n cfg) \<and> multiplies (toom4_mul_n cfg) \<and> multiplies (toom8h_mul cfg) \<and>
     multiplies (toom4_mul cfg) \<and> multiplies (toom53_mul cfg) \<and> multiplies (toom42_mul cfg) \<and>
     multiplies (toom3_mul cfg) \<and> multiplies (toom32_mul cfg) \<and> multiplies (mul_fft_full cfg) \<and>
     (\<forall>g \<in> {toom3_sqr_n cfg, toom4_sqr_n cfg, toom8_sqr_n cfg}. \<forall>a. a \<noteq> [] \<longrightarrow> product_of a a (g a))"

lemma multipliesD: "multiplies f \<Longrightarrow> vp \<noteq> [] \<Longrightarrow> length vp \<le> length up \<Longrightarrow> product_of up vp (f up vp)"
  by (simp add: multiplies_def)

lemma multiplies_basecase: "multiplies mpn_mul_basecase"
  unfolding multiplies_def product_of_def using mpn_mul_basecase_value by (metis le_zero_eq length_0_conv)

lemma product_of_basecase: "up \<noteq> [] \<Longrightarrow> vp \<noteq> [] \<Longrightarrow> product_of up vp (mpn_mul_basecase up vp)"
  unfolding product_of_def using mpn_mul_basecase_value by blast

lemma is_product_product_of: "length up = n \<Longrightarrow> length vp = n \<Longrightarrow> is_product n up vp p \<longleftrightarrow> product_of up vp p"
  by (auto simp: is_product_def product_of_def)

lemma product_of_commute: "product_of vp up p \<longleftrightarrow> product_of up vp p"
  by (auto simp: product_of_def mult.commute)

lemma mpn_mul_n_product:
  assumes "mul_config_ok cfg" "length a = length b" "b \<noteq> []"
  shows "product_of a b (mpn_mul_n cfg a b)"
proof -
  have "product_of a b (mpn_kara_mul_n (mul_karatsuba_threshold cfg) a b (length a))"
    if "mul_karatsuba_threshold cfg \<le> length a"
    using assms that
    by (intro iffD1 [OF is_product_product_of [OF refl] mpn_kara_mul_n_product]) (simp_all add: mul_config_ok_def)
  moreover have "multiplies f \<Longrightarrow> product_of a b (f a b)" for f using assms by (intro multipliesD) auto
  moreover have "product_of a b (mpn_mul_basecase a b)" using assms by (intro product_of_basecase) auto
  ultimately show ?thesis using assms(1) by (simp add: mpn_mul_n_def Let_def mul_config_ok_def)
qed

lemma mpn_sqr_product:
  assumes "mul_config_ok cfg" "a \<noteq> []"
  shows "product_of a a (mpn_sqr cfg a)"
proof -
  let ?n = "length a"
  have "product_of a a (mpn_kara_sqr_n b (sqr_karatsuba_threshold cfg) a ?n)"
    if "sqr_karatsuba_threshold cfg \<le> ?n" for b
    using mpn_kara_sqr_n_product [of a ?n "sqr_karatsuba_threshold cfg" b] that assms
      is_product_product_of [of a ?n a] by (simp add: mul_config_ok_def)
  moreover have "product_of a a (mpn_sqr_basecase a)"
    using mpn_sqr_basecase_product [of a ?n] assms(2) is_product_product_of [of a ?n a] by simp
  moreover have "multiplies f \<Longrightarrow> product_of a a (f a a)" for f using assms by (intro multipliesD) auto
  moreover have "product_of a a (mpn_mul_basecase a a)" using assms by (intro product_of_basecase) auto
  ultimately show ?thesis using assms by (simp add: mpn_sqr_def Let_def mul_config_ok_def)
qed

subsection \<open>Slices\<close>

lemma lval_fma_lt:
  assumes "length tp \<le> length vp"
  shows "lval up * lval vp + lval tp < B ^ (length up + length vp)"
proof -
  have "lval up * lval vp \<le> (B ^ length up - 1) * lval vp"
    using lval_lt [of up] by (intro mult_right_mono) simp_all
  also have "\<dots> \<le> (B ^ length up - 1) * (B ^ length vp - 1)"
    using lval_lt [of vp] by (intro mult_left_mono) simp_all
  finally have u: "lval up * lval vp \<le> B ^ length up * B ^ length vp - B ^ length up - B ^ length vp + 1"
    by (simp add: algebra_simps)
  have "lval tp < B ^ length vp"
    using lval_lt [of tp] power_increasing [OF assms B_ge_1] by linarith
  then show ?thesis unfolding power_add using u B_pow_ge_1 [of "length up"] by linarith
qed

lemma add_back_value:
  assumes "length tp \<le> length p" "lval p + lval tp < B ^ length p"
  shows "lval (add_back p tp) = lval p + lval tp" and "length (add_back p tp) = length p"
proof -
  let ?r = "mpn_add_n (take (length tp) (drop 0 p)) tp"
  have e: "add_back p tp = take 0 p @ fst ?r @ mpn_incr_u (drop (0 + length tp) p) (snd ?r)"
    by (simp add: add_back_def split_beta Let_def)
  have "lval (take 0 p @ fst ?r @ mpn_incr_u (drop (0 + length tp) p) (snd ?r))
      = lval p + B ^ 0 * (lval tp + B ^ length tp * 0)"
    by (rule add_at_value [OF _ refl refl]) (use assms in simp_all)
  then show "lval (add_back p tp) = lval p + lval tp" unfolding e by simp
  show "length (add_back p tp) = length p" unfolding e using assms(1) by simp
qed

lemma add_back_product:
  assumes "product_of up vp p" "length tp = length vp"
  shows "lval (add_back p tp) = lval up * lval vp + lval tp" "length (add_back p tp) = length up + length vp"
  using add_back_value [of tp p] assms lval_fma_lt [of tp vp up] by (simp_all add: product_of_def)

lemma mul_slices_value:
  assumes "length tp = length vp" "vp \<noteq> []" "up \<noteq> []"
  shows "lval (mul_slices tp up vp) = lval up * lval vp + lval tp \<and> length (mul_slices tp up vp) = length up + length vp"
  using assms
proof (induction "length up" arbitrary: tp up rule: less_induct)
  case less
  let ?M = MUL_BASECASE_MAX_UN
  have M: "0 < ?M" by (simp add: MUL_BASECASE_MAX_UN_def)
  show ?case
  proof (cases "length up > ?M")
    case True
    let ?u0 = "take ?M up" and ?u1 = "drop ?M up"
    define pp where "pp = add_back (mpn_mul_basecase ?u0 vp) tp"
    have l0: "length ?u0 = ?M" "?u0 \<noteq> []" "?u1 \<noteq> []" using True M by auto
    note pv = add_back_product [OF product_of_basecase [OF l0(2) less.prems(2)] less.prems(1), folded pp_def]
    have ld: "length (drop ?M pp) = length vp" "length (take ?M pp) = ?M" using pv(2) l0(1) by simp_all
    have IH: "lval (mul_slices (drop ?M pp) ?u1 vp) = lval ?u1 * lval vp + lval (drop ?M pp)
        \<and> length (mul_slices (drop ?M pp) ?u1 vp) = length ?u1 + length vp"
      by (rule less.hyps) (use ld less.prems l0(3) True M in auto)
    have e: "mul_slices tp up vp = take ?M pp @ mul_slices (drop ?M pp) ?u1 vp"
      using True by (simp add: mul_slices.simps [of tp up vp] pp_def Let_def)
    have "lval (mul_slices tp up vp) = lval pp + B ^ ?M * (lval ?u1 * lval vp)"
      unfolding e lval_append ld(2) using IH lval_split_at [of ?M pp] pv(2) l0(1) by (simp add: algebra_simps)
    also have "\<dots> = lval up * lval vp + lval tp"
      using pv(1) lval_split_at [of ?M up] True by (simp add: algebra_simps)
    finally show ?thesis using e IH ld(2) True by simp
  next
    case False
    then show ?thesis
      using add_back_product [OF product_of_basecase [OF less.prems(3,2)] less.prems(1)]
        add_back_product [OF product_of_commute [THEN iffD1, OF product_of_basecase [OF less.prems(2,3)]] less.prems(1)]
      by (simp add: mul_slices.simps [of tp up vp] Let_def)
  qed
qed

lemma mul_long_short_product:
  assumes "vp \<noteq> []" "length up > MUL_BASECASE_MAX_UN"
  shows "product_of up vp (mul_long_short up vp)"
proof -
  let ?M = MUL_BASECASE_MAX_UN and ?u0 = "take MUL_BASECASE_MAX_UN up" and ?u1 = "drop MUL_BASECASE_MAX_UN up"
  define pp where "pp = mpn_mul_basecase ?u0 vp"
  have l0: "length ?u0 = ?M" "?u0 \<noteq> []" "?u1 \<noteq> []" using assms(2) by (auto simp: MUL_BASECASE_MAX_UN_def)
  have pv: "lval pp = lval ?u0 * lval vp" "length pp = ?M + length vp"
    using product_of_basecase [OF l0(2) assms(1)] l0(1) by (simp_all add: product_of_def pp_def)
  have sl: "lval (mul_slices (drop ?M pp) ?u1 vp) = lval ?u1 * lval vp + lval (drop ?M pp)"
    "length (mul_slices (drop ?M pp) ?u1 vp) = length ?u1 + length vp"
    using mul_slices_value [of "drop ?M pp" vp ?u1] assms l0 pv by simp_all
  have e: "mul_long_short up vp = take ?M pp @ mul_slices (drop ?M pp) ?u1 vp"
    by (simp add: mul_long_short_def pp_def Let_def)
  have "lval (mul_long_short up vp) = lval pp + B ^ ?M * (lval ?u1 * lval vp)"
    unfolding e lval_append using sl lval_split_at [of ?M pp] pv(2) by (simp add: algebra_simps)
  also have "\<dots> = lval up * lval vp"
    using pv(1) lval_split_at [of ?M up] assms(2) by (simp add: algebra_simps)
  finally show ?thesis using e sl pv(2) assms(2) by (simp add: product_of_def)
qed


subsection \<open>Blocks\<close>

lemma uint_carry_add:
  fixes t c :: limb
  assumes "uint t \<le> 1" "c \<le> 1"
  shows "uint (t + c) = uint t + uint c"
  using assms by (intro uint_add_limb_no_overflow) (simp add: le_limb_iff B_def)

lemma add_block_value:
  assumes t: "uint t \<le> 1" and r: "add_block prodp t ws = (acc, t')"
  shows "length acc = max (length prodp) (length ws)"
    and "lval acc + B ^ max (length prodp) (length ws) * uint t' = lval prodp + B ^ length prodp * uint t + lval ws"
proof -
  let ?l = "length prodp" and ?m = "length ws"
  have "length acc = max ?l ?m \<and>
    lval acc + B ^ max ?l ?m * uint t' = lval prodp + B ^ ?l * uint t + lval ws"
  proof (cases "?l \<le> ?m")
    case True
    let ?lo = "mpn_add_n prodp (take ?l ws)"
    have lo: "lval (fst ?lo) + B ^ ?l * uint (snd ?lo) = lval prodp + lval (take ?l ws)"
      using mpn_add_n_value [of prodp "take ?l ws"] True by simp
    have c: "uint (t + snd ?lo) = uint t + uint (snd ?lo)" by (rule uint_carry_add [OF t mpn_add_n_carry])
    have s: "lval ws = lval (take ?l ws) + B ^ ?l * lval (drop ?l ws)" by (rule lval_split_at [OF True])
    show ?thesis
    proof (cases "?l = ?m")
      case True
      then have "acc = fst ?lo" "t' = t + snd ?lo" using r by (simp_all add: add_block_def split_beta Let_def)
      then show ?thesis using lo c True by (simp add: algebra_simps)
    next
      case False
      let ?hi = "mpn_add_1 (drop ?l ws) (t + snd ?lo)"
      have hi: "lval (fst ?hi) + B ^ (?m - ?l) * uint (snd ?hi) = lval (drop ?l ws) + uint t + uint (snd ?lo)"
        using mpn_add_1_value [of "drop ?l ws" "t + snd ?lo"] True False c by simp
      have e: "acc = fst ?lo @ fst ?hi" "t' = snd ?hi"
        using r True False by (simp_all add: add_block_def split_beta Let_def)
      have "lval acc + B ^ ?m * uint t' = lval (fst ?lo) + B ^ ?l * (lval (fst ?hi) + B ^ (?m - ?l) * uint (snd ?hi))"
        using e True by (simp add: lval_append algebra_simps flip: power_add)
      also have "\<dots> = lval prodp + B ^ ?l * uint t + lval ws"
        unfolding hi s using lo by (simp add: algebra_simps)
      finally show ?thesis using e True by simp
    qed
  next
    case False
    let ?lo = "mpn_add_n (take ?m prodp) ws"
    let ?hi = "mpn_add_1 (drop ?m prodp) (snd ?lo)"
    have lo: "lval (fst ?lo) + B ^ ?m * uint (snd ?lo) = lval (take ?m prodp) + lval ws"
      using mpn_add_n_value [of "take ?m prodp" ws] False by simp
    have hi: "lval (fst ?hi) + B ^ (?l - ?m) * uint (snd ?hi) = lval (drop ?m prodp) + uint (snd ?lo)"
      using mpn_add_1_value [of "drop ?m prodp" "snd ?lo"] False by simp
    have s: "lval prodp = lval (take ?m prodp) + B ^ ?m * lval (drop ?m prodp)"
      using False by (intro lval_split_at) simp
    have c: "uint (t + snd ?hi) = uint t + uint (snd ?hi)" by (rule uint_carry_add [OF t mpn_add_1_carry])
    have e: "acc = fst ?lo @ fst ?hi" "t' = t + snd ?hi"
      using r False by (simp_all add: add_block_def split_beta Let_def)
    have "lval acc + B ^ ?l * uint t'
        = lval (fst ?lo) + B ^ ?m * (lval (fst ?hi) + B ^ (?l - ?m) * uint (snd ?hi)) + B ^ ?l * uint t"
      using e c False by (simp add: lval_append algebra_simps flip: power_add)
    also have "\<dots> = lval prodp + B ^ ?l * uint t + lval ws"
      unfolding hi s using lo by (simp add: algebra_simps)
    finally show ?thesis using e False by simp
  qed
  then show "length acc = max ?l ?m"
    and "lval acc + B ^ max ?l ?m * uint t' = lval prodp + B ^ ?l * uint t + lval ws" by simp_all
qed


text \<open>
  The accumulated value \<open>V\<close> (limbs and carry) against the sizes that remain: it stays below
  the power of the longer operand plus that of the shorter one, so the carry is a single bit.
\<close>

definition block_inv :: "nat \<Rightarrow> nat \<Rightarrow> nat \<Rightarrow> int \<Rightarrow> bool" where
  "block_inv l un vn V \<longleftrightarrow> l = vn \<and> vn \<noteq> 0 \<and> V < B ^ vn \<or> l = un \<and> V < B ^ un + B ^ vn"

lemma block_inv_carry:
  assumes "block_inv l un vn (a + B ^ l * t)" "vn \<le> un" "0 \<le> a"
  shows "t \<le> 1"
proof -
  have le: "B ^ vn \<le> B ^ un" using assms(2) by (intro power_increasing) simp_all
  consider "l = vn" "a + B ^ vn * t < B ^ vn" | "l = un" "a + B ^ un * t < B ^ un + B ^ vn"
    using assms(1) by (auto simp: block_inv_def)
  then have "B ^ l * t < B ^ l * 2"
    by cases (use le assms(3) B_pow_pos [of vn] in \<open>simp only:; linarith\<close>)+
  then show ?thesis by simp
qed

lemma square_below: "0 \<le> x \<Longrightarrow> x < P \<Longrightarrow> 0 \<le> y \<Longrightarrow> y < P \<Longrightarrow> x * y \<le> P * P - 2 * P + (1 :: int)"
proof -
  assume "0 \<le> x" "x < P" "0 \<le> y" "y < P"
  then have "x * y \<le> (P - 1) * (P - 1)" by (intro mult_mono) auto
  then show ?thesis by (simp add: algebra_simps)
qed

lemma block_inv_step:
  assumes inv: "block_inv l un vn V" and n: "vn \<le> un" "0 < vn"
    and ws: "ws \<le> B ^ vn * B ^ vn - 2 * B ^ vn + 1" and W: "V + ws = lo + B ^ vn * V'" "0 \<le> lo"
  shows "block_inv (max l (2 * vn) - vn) (max (un - vn) vn) (min (un - vn) vn) V'"
  using inv [unfolded block_inv_def]
proof (elim disjE conjE)
  assume a: "l = vn" "V < B ^ vn"
  then have "B ^ vn * V' < B ^ vn * B ^ vn" using ws W B_pow_ge_1 [of vn] by linarith
  then have V': "V' < B ^ vn" by simp
  then have "V' < B ^ vn + B ^ (un - vn)" using B_pow_pos [of "un - vn"] by linarith
  then show ?thesis using V' a n by (auto simp: block_inv_def max_def min_def)
next
  assume b: "l = un" "V < B ^ un + B ^ vn"
  have "B ^ un = B ^ vn * B ^ (un - vn)" using n by (simp flip: power_add)
  then have "B ^ vn * V' < B ^ vn * B ^ (un - vn) + B ^ vn * B ^ vn"
    using b ws W B_pow_ge_1 [of vn] by linarith
  then have "V' < B ^ (un - vn) + B ^ vn" by (simp flip: distrib_left)
  then show ?thesis using b n by (auto simp: block_inv_def max_def min_def)
qed

lemma mul_blocks_value:
  assumes "mul_config_ok cfg" "length vp \<le> length up" "up \<noteq> []"
    and "block_inv (length prodp) (length up) (length vp) (lval prodp + B ^ length prodp * uint t)"
    and "lval prodp + B ^ length prodp * uint t + lval up * lval vp < B ^ (length up + length vp)"
  shows "lval (mul_blocks cfg prodp t up vp) = lval prodp + B ^ length prodp * uint t + lval up * lval vp
    \<and> length (mul_blocks cfg prodp t up vp) = length up + length vp"
  using assms(2-)
proof (induction "length up + length vp" arbitrary: prodp t up vp rule: less_induct)
  case less
  let ?un = "length up" and ?vn = "length vp" and ?l = "length prodp"
  let ?V = "lval prodp + B ^ ?l * uint t"
  have t1: "uint t \<le> 1" using block_inv_carry [OF less.prems(3,1)] by simp
  note E = mul_blocks.simps [of cfg prodp t up vp]
  consider "?vn = 0" | "?vn \<noteq> 0" "?vn < mul_karatsuba_threshold cfg" | "?vn \<noteq> 0" "mul_karatsuba_threshold cfg \<le> ?vn"
    by linarith
  then show ?case
  proof cases
    case 1
    then have l: "?l = ?un" using less.prems(3) by (auto simp: block_inv_def)
    have "lval prodp + B ^ ?un * uint t < B ^ ?un" using less.prems(4) 1 l by simp
    then have "B ^ ?un * uint t < B ^ ?un * 1" using lval_nonneg [of prodp] by linarith
    then have "uint t < 1" by simp
    then have "uint t = 0" using uint_ge_0 [of t] by linarith
    then show ?thesis unfolding E Let_def using 1 l by simp
  next
    case 2
    let ?ws = "mpn_mul_basecase up vp"
    obtain acc t' where r: "add_block prodp t ?ws = (acc, t')" by fastforce
    have ws: "lval ?ws = lval up * lval vp" "length ?ws = ?un + ?vn"
      using product_of_basecase [of up vp] less.prems(2) 2(1) by (auto simp: product_of_def)
    have l: "max ?l (length ?ws) = ?un + ?vn" using less.prems(3) ws(2) by (auto simp: block_inv_def)
    note a = add_block_value [OF t1 r, unfolded l ws(1)]
    have "B ^ (?un + ?vn) * uint t' < B ^ (?un + ?vn) * 1" using a(2) less.prems(4) lval_nonneg [of acc] by linarith
    then have "uint t' < 1" by simp
    then have "uint t' = 0" using uint_ge_0 [of t'] by linarith
    then show ?thesis using 2 a r by (simp add: E Let_def)
  next
    case 3
    let ?u0 = "take ?vn up" and ?u1 = "drop ?vn up"
    let ?ws = "mpn_mul_n cfg ?u0 vp"
    obtain acc t' where r: "add_block prodp t ?ws = (acc, t')" by fastforce
    have "product_of ?u0 vp ?ws" by (rule mpn_mul_n_product [OF assms(1)]) (use less.prems(1) 3(1) in auto)
    then have ws: "lval ?ws = lval ?u0 * lval vp" "length ?ws = 2 * ?vn"
      using less.prems(1) by (simp_all add: product_of_def)
    note a = add_block_value [OF t1 r, unfolded ws]
    let ?L = "max ?l (2 * ?vn)"
    let ?lo = "take ?vn acc" and ?hi = "drop ?vn acc"
    let ?V' = "lval ?hi + B ^ (?L - ?vn) * uint t'"
    have vnL: "?vn \<le> ?L" by simp
    have la: "length ?lo = ?vn" "length ?hi = ?L - ?vn" using a(1) by simp_all
    have "B ^ ?L = B ^ ?vn * B ^ (?L - ?vn)" using vnL by (simp flip: power_add)
    then have W: "?V + lval ?u0 * lval vp = lval ?lo + B ^ ?vn * ?V'"
      using a lval_split_at [of ?vn acc] by (simp add: algebra_simps)
    have u: "lval up = lval ?u0 + B ^ ?vn * lval ?u1" using less.prems(1) by (rule lval_split_at)
    have "lval ?u0 * lval vp \<le> B ^ ?vn * B ^ ?vn - 2 * B ^ ?vn + 1"
      using lval_take_lt [OF less.prems(1)] by (intro square_below) simp_all
    then have inv: "block_inv (?L - ?vn) (max (?un - ?vn) ?vn) (min (?un - ?vn) ?vn) ?V'"
      using less.prems(1) 3(1) by (intro block_inv_step [OF less.prems(3) _ _ _ W]) simp_all
    have tot: "lval ?lo + B ^ ?vn * (?V' + lval ?u1 * lval vp) = ?V + lval up * lval vp"
      using W unfolding u by (simp add: algebra_simps)
    have "B ^ ?vn * (?V' + lval ?u1 * lval vp) < B ^ ?vn * B ^ ?un"
      using tot less.prems(4) lval_nonneg [of ?lo] unfolding power_add mult.commute [of "B ^ ?un"] by linarith
    then have fits: "?V' + lval ?u1 * lval vp < B ^ (?un - ?vn + ?vn)" using less.prems(1) by simp
    define rest where "rest = (if ?un - ?vn < ?vn then mul_blocks cfg ?hi t' vp ?u1 else mul_blocks cfg ?hi t' ?u1 vp)"
    have "lval rest = ?V' + lval ?u1 * lval vp \<and> length rest = ?un"
    proof (cases "?un - ?vn < ?vn")
      case True
      have "lval (mul_blocks cfg ?hi t' vp ?u1) = lval ?hi + B ^ length ?hi * uint t' + lval vp * lval ?u1
          \<and> length (mul_blocks cfg ?hi t' vp ?u1) = length vp + length ?u1"
        by (rule less.hyps) (use True 3(1) less.prems(1) inv fits la in \<open>simp_all add: mult.commute add.commute\<close>)
      then show ?thesis using True la less.prems(1) by (simp add: rest_def mult.commute)
    next
      case False
      then have ne: "?un \<noteq> ?vn" using 3(1) by linarith
      have "lval (mul_blocks cfg ?hi t' ?u1 vp) = lval ?hi + B ^ length ?hi * uint t' + lval ?u1 * lval vp
          \<and> length (mul_blocks cfg ?hi t' ?u1 vp) = length ?u1 + length vp"
        by (rule less.hyps) (use ne False 3(1) less.prems(1) inv fits la in simp_all)
      then show ?thesis using False la less.prems(1) by (simp add: rest_def)
    qed
    moreover have "mul_blocks cfg prodp t up vp = ?lo @ rest"
      using 3 r by (simp add: E Let_def rest_def)
    ultimately show ?thesis using tot la(1) by (simp add: lval_append)
  qed
qed

subsection \<open>The dispatcher is correct\<close>

lemma toom_choice_multiplies: "mul_config_ok cfg \<Longrightarrow> toom_choice cfg un vn = Some f \<Longrightarrow> multiplies f"
  by (auto simp: toom_choice_def Let_def mul_config_ok_def split: if_splits)

theorem mpn_mul_product:
  assumes ok: "mul_config_ok cfg" and n: "vp \<noteq> []" "length vp \<le> length up" and same: "same \<Longrightarrow> up = vp"
  shows "product_of up vp (mpn_mul cfg same up vp)"
proof -
  let ?un = "length up" and ?vn = "length vp"
  let ?pp = "mpn_mul_n cfg (take ?vn up) vp" and ?u1 = "drop ?vn up"
  have pp: "product_of (take ?vn up) vp ?pp" by (rule mpn_mul_n_product [OF ok]) (use n in auto)
  then have lp: "length ?pp = ?vn + ?vn" "lval ?pp = lval (take ?vn up) * lval vp" using n by (simp_all add: product_of_def)
  have u: "lval up = lval (take ?vn up) + B ^ ?vn * lval ?u1" using n(2) by (rule lval_split_at)
  have s: "lval ?pp = lval (take ?vn ?pp) + B ^ ?vn * lval (drop ?vn ?pp)" using lp by (intro lval_split_at) simp
  have hv: "lval (drop ?vn ?pp) < B ^ ?vn" using lval_lt [of "drop ?vn ?pp"] lp by simp
  have tot: "lval (take ?vn ?pp) + B ^ ?vn * (lval (drop ?vn ?pp) + lval ?u1 * lval vp) = lval up * lval vp"
    using s lp(2) u by (simp add: algebra_simps)
  have "lval (drop ?vn ?pp) + lval ?u1 * lval vp < B ^ (length ?u1 + ?vn)"
    using lval_fma_lt [of "drop ?vn ?pp" vp ?u1] lp by (simp add: add.commute)
  then have fits: "lval (drop ?vn ?pp) + lval ?u1 * lval vp < B ^ ?un" using n(2) by simp
  define rest where "rest = (if ?un - ?vn < ?vn then mul_blocks cfg (drop ?vn ?pp) 0 vp ?u1 else mul_blocks cfg (drop ?vn ?pp) 0 ?u1 vp)"
  have "lval rest = lval (drop ?vn ?pp) + lval ?u1 * lval vp \<and> length rest = ?un"
  proof (cases "?un - ?vn < ?vn")
    case True
    have "block_inv (length (drop ?vn ?pp)) ?vn (?un - ?vn) (lval (drop ?vn ?pp))"
      using hv lp B_pow_pos [of "?un - ?vn"] unfolding block_inv_def by (intro disjI2 conjI) (simp, linarith)
    then show ?thesis
      using mul_blocks_value [OF ok, of ?u1 vp "drop ?vn ?pp" 0] True n fits
      by (simp add: rest_def mult.commute)
  next
    case False
    have "block_inv (length (drop ?vn ?pp)) (?un - ?vn) ?vn (lval (drop ?vn ?pp))"
      using hv lp n by (simp add: block_inv_def)
    moreover have "?un \<noteq> ?vn" using False n by auto
    ultimately show ?thesis
      using mul_blocks_value [OF ok, of vp ?u1 "drop ?vn ?pp" 0] False n fits
      by (simp add: rest_def)
  qed
  then have blocks: "product_of up vp (take ?vn ?pp @ rest)"
    using tot lp by (simp add: product_of_def lval_append)
  show ?thesis
    using mpn_sqr_product [OF ok] mpn_mul_n_product [OF ok, of up vp] multipliesD [OF multiplies_basecase n]
      mul_long_short_product [of vp up] toom_choice_multiplies [OF ok] multipliesD [OF _ n] blocks n same
    unfolding mpn_mul_def Let_def rest_def
    by (auto split: option.splits)
qed

subsection \<open>Below the Toom range\<close>

text \<open>
  With fewer limbs than twice the smallest Toom threshold in both operands together, the
  dispatcher never consults the Toom and Fourier fields of the configuration.
\<close>

definition below_toom :: "mul_config \<Rightarrow> nat \<Rightarrow> bool" where
  "below_toom cfg n \<longleftrightarrow>
     2 \<le> mul_karatsuba_threshold cfg \<and> 2 \<le> sqr_karatsuba_threshold cfg \<and>
     n < 2 * mul_toom3_threshold cfg \<and> n < 2 * mul_toom4_threshold cfg \<and> n < 2 * mul_toom8h_threshold cfg \<and>
     n < 2 * mul_fft_full_threshold cfg \<and> n < 2 * sqr_toom3_threshold cfg"

definition schoolbook_config :: "mul_config \<Rightarrow> mul_config" where
  "schoolbook_config cfg =
     cfg\<lparr>toom3_mul_n := mpn_mul_basecase, toom4_mul_n := mpn_mul_basecase, toom8h_mul := mpn_mul_basecase,
         toom4_mul := mpn_mul_basecase, toom53_mul := mpn_mul_basecase, toom42_mul := mpn_mul_basecase,
         toom3_mul := mpn_mul_basecase, toom32_mul := mpn_mul_basecase, mul_fft_full := mpn_mul_basecase,
         toom3_sqr_n := (\<lambda>a. mpn_mul_basecase a a), toom4_sqr_n := (\<lambda>a. mpn_mul_basecase a a),
         toom8_sqr_n := (\<lambda>a. mpn_mul_basecase a a)\<rparr>"

lemma below_toom_mono: "below_toom cfg n \<Longrightarrow> m \<le> n \<Longrightarrow> below_toom cfg m"
  by (simp add: below_toom_def)

lemma schoolbook_config_ok: "below_toom cfg n \<Longrightarrow> mul_config_ok (schoolbook_config cfg)"
  by (simp add: below_toom_def mul_config_ok_def schoolbook_config_def multiplies_basecase product_of_basecase)

lemma mpn_mul_n_below: "length a < mul_toom3_threshold cfg \<Longrightarrow> mpn_mul_n (schoolbook_config cfg) a b = mpn_mul_n cfg a b"
  by (simp add: mpn_mul_n_def schoolbook_config_def Let_def)

lemma mpn_sqr_below: "length a < sqr_toom3_threshold cfg \<Longrightarrow> mpn_sqr (schoolbook_config cfg) a = mpn_sqr cfg a"
  by (simp add: mpn_sqr_def schoolbook_config_def Let_def)

lemma mul_blocks_below:
  "length vp < mul_toom3_threshold cfg \<Longrightarrow> mul_blocks (schoolbook_config cfg) prodp t up vp = mul_blocks cfg prodp t up vp"
proof (induction cfg prodp t up vp rule: mul_blocks.induct)
  case (1 cfg prodp t up vp)
  let ?vn = "length vp"
  obtain pp t' where a: "add_block prodp t (mpn_mul_n cfg (take ?vn up) vp) = (pp, t')" by fastforce
  have n: "mpn_mul_n (schoolbook_config cfg) (take ?vn up) vp = mpn_mul_n cfg (take ?vn up) vp"
    using "1.prems" by (intro mpn_mul_n_below) simp
  have k: "mul_karatsuba_threshold (schoolbook_config cfg) = mul_karatsuba_threshold cfg"
    by (simp add: schoolbook_config_def)
  note ih = "1.IH" [OF refl refl _ a [symmetric] refl refl]
  show ?case
    unfolding mul_blocks.simps [of _ prodp t up vp] Let_def n k a prod.case
    using ih "1.prems" by auto
qed

lemma mpn_mul_below:
  assumes "below_toom cfg (length up + length vp)" "length vp \<le> length up"
  shows "mpn_mul (schoolbook_config cfg) same up vp = mpn_mul cfg same up vp"
proof -
  have k: "mul_karatsuba_threshold (schoolbook_config cfg) = mul_karatsuba_threshold cfg"
    by (simp add: schoolbook_config_def)
  have vn: "length vp < mul_toom3_threshold cfg" using assms by (simp add: below_toom_def)
  have t: "toom_choice (schoolbook_config cfg) (length up) (length vp) = None" "toom_choice cfg (length up) (length vp) = None"
    using assms(1) by (auto simp: toom_choice_def below_toom_def schoolbook_config_def Let_def)
  have "length up - length vp < length vp \<Longrightarrow> length up - length vp < mul_toom3_threshold cfg" using vn by linarith
  then show ?thesis
    using assms vn
    by (auto simp: mpn_mul_def Let_def t k mpn_mul_n_below mpn_sqr_below mul_blocks_below below_toom_def)
qed

text \<open>So the product is right there without any assumption on those routines.\<close>

theorem mpn_mul_below_product:
  assumes "below_toom cfg (length up + length vp)" "vp \<noteq> []" "length vp \<le> length up" "same \<Longrightarrow> up = vp"
  shows "product_of up vp (mpn_mul cfg same up vp)"
  using mpn_mul_product [OF schoolbook_config_ok [OF assms(1)] assms(2-4)] mpn_mul_below [OF assms(1,3)] by simp

end
