(* ===== verification/Mpz_Mul.thy ===== *)
theory Mpz_Mul
  imports Mpz_Arith Mpn_Mul_Top
begin

unbundle bit_operations_syntax

text \<open>
  Multiplication of integer variables: \<^verbatim>\<open>mpz/mul.c\<close>, with the case of a one-limb factor, the
  schoolbook product straight into the destination, and the general product with its handling
  of a destination that coincides with a source; and the fused multiply-add and
  multiply-subtract of \<^verbatim>\<open>mpz/aorsmul_i.c\<close> and \<^verbatim>\<open>mpz/aorsmul.c\<close>. The signs are tracked as
  the code does, by the sign bit of an exclusive or of the signed sizes.
\<close>

subsection \<open>mpz_mul\<close>

definition mpz_mul :: "mul_config \<Rightarrow> store \<Rightarrow> var \<Rightarrow> var \<Rightarrow> var \<Rightarrow> store" where
  "mpz_mul cfg st w u v =
     (let usize = SIZ st u; vsize = SIZ st v;
          sign_product = usize XOR vsize;
          usize = nat \<bar>usize\<bar>; vsize = nat \<bar>vsize\<bar>
      in if usize = 0 \<or> vsize = 0 then set_SIZ st w 0
         else if vsize = 1 then
           (let st1 = MPZ_REALLOC st w (usize + 1);
                r = mpn_mul_1 (take usize (PTR st1 u)) (PTR st1 v ! 0); cy_limb = snd r;
                st2 = put_limbs st1 w 0 (fst r);
                st3 = put_limbs st2 w usize [cy_limb];
                usize = int usize + of_bool (cy_limb \<noteq> 0)
            in set_SIZ st3 w (if sign_product \<ge> 0 then usize else - usize))
         else
           (let wsize = usize + vsize
            in if wsize \<le> mul_karatsuba_threshold cfg \<and> w \<noteq> u \<and> w \<noteq> v then
                 (let st1 = MPZ_REALLOC st w wsize;
                      up = take usize (PTR st1 u); vp = take vsize (PTR st1 v);
                      st2 = put_limbs st1 w 0
                        (if usize = vsize then mpn_mul_basecase up vp
                         else if usize > vsize then mpn_mul_basecase up vp
                         else mpn_mul_basecase vp up);
                      wsize = int (wsize - of_bool (PTR st2 w ! (wsize - 1) = 0))
                  in set_SIZ st2 w (if sign_product \<ge> 0 then wsize else - wsize))
               else
                 (let (u, v, usize, vsize) = (if usize < vsize then (v, u, vsize, usize) else (u, v, usize, vsize));
                      up = take usize (PTR st u); vp = take vsize (PTR st v);
                      st1 = (if ALLOC st w < wsize
                             then set_var st w ((vars st w)\<lparr>mp_alloc := wsize, mp_d := fresh_block st wsize\<rparr>)
                             else st);
                      prodp = (if u = v \<and> usize = vsize then mpn_sqr cfg up else mpn_mul cfg (u = v) up vp);
                      st2 = put_limbs st1 w 0 prodp;
                      cy_limb = last prodp;
                      wsize = int (wsize - of_bool (cy_limb = 0))
                  in set_SIZ st2 w (if sign_product < 0 then - wsize else wsize))))"

definition sg :: "int \<Rightarrow> int" where
  "sg k = (if k < 0 then - 1 else 1)"

lemma sg_xor [simp]: "sg (a XOR b) = sg a * sg b"
  by (simp add: sg_def)

lemma sg_0 [simp]: "sg 0 = 1" and sg_m1 [simp]: "sg (- 1) = - 1"
  by (simp_all add: sg_def)

lemma sg_sq [simp]: "sg k * sg k = 1" "sg k * (sg k * x) = x"
  by (simp_all add: sg_def)

lemma mpz_val_sg: "mpz_ok st u \<Longrightarrow> mpz_val st u = sg (SIZ st u) * lval (mag st u)"
  by (cases "SIZ st u = 0") (auto simp: mpz_val_def sg_def sgn_if mag_def ABSIZ_def)

lemma product_of_mag_bound:
  assumes ok: "mpz_ok st u" "mpz_ok st v" and n: "ABSIZ st u \<noteq> 0" "ABSIZ st v \<noteq> 0"
    and p: "product_of (mag st u) (mag st v) p"
  shows "length p = ABSIZ st u + ABSIZ st v" "p \<noteq> []"
    and "B ^ (length p - 2) \<le> lval p"
proof -
  show l: "length p = ABSIZ st u + ABSIZ st v"
    using p length_mag [OF ok(1)] length_mag [OF ok(2)] by (simp add: product_of_def)
  then show "p \<noteq> []" using n by auto
  have "B ^ (length p - 2) = B ^ (ABSIZ st u - 1) * B ^ (ABSIZ st v - 1)"
    unfolding l using n by (simp flip: power_add add: eval_nat_numeral)
  also have "\<dots> \<le> lval (mag st u) * lval (mag st v)"
    using mag_ge_pow [OF ok(1) n(1)] mag_ge_pow [OF ok(2) n(2)] by (intro mult_mono) auto
  finally show "B ^ (length p - 2) \<le> lval p" using p by (simp add: product_of_def)
qed

lemma writes_product:
  assumes ok: "mpz_ok st u" "mpz_ok st v" and n: "ABSIZ st u \<noteq> 0" "ABSIZ st v \<noteq> 0"
    and p: "product_of (mag st u) (mag st v) p"
    and st1: "room st1 w (ABSIZ st u + ABSIZ st v)" "\<And>x. x \<noteq> w \<Longrightarrow> vars st1 x = vars st x"
    and k: "k = int (ABSIZ st u + ABSIZ st v - of_bool (last p = 0))"
    and s: "s = (sg (SIZ st u) * sg (SIZ st v) = - 1)"
  shows "writes st (set_SIZ (put_limbs st1 w 0 p) w (if s then - k else k)) w (mpz_val st u * mpz_val st v)"
proof -
  note b = product_of_mag_bound [OF ok n p]
  have "writes st (set_SIZ (put_limbs st1 w 0 p) w (if s then - k else k)) w (if s then - lval p else lval p)"
  proof (rule writes_shrink_nat [OF _ st1(2) b(2) b(3) refl])
    show "room st1 w (length p)" using st1(1) b(1) by simp
    show "k = int (length p - of_bool (PTR (put_limbs st1 w 0 p) w ! (length p - 1) = 0))"
      unfolding nth_last_put [OF b(2) refl] using k b(1) by simp
  qed
  moreover have "(if s then - lval p else lval p) = mpz_val st u * mpz_val st v"
    using p s mpz_val_sg [OF ok(1)] mpz_val_sg [OF ok(2)] by (auto simp: product_of_def sg_def)
  ultimately show ?thesis by simp
qed


lemma xor_sign: "(a XOR b < 0) = (sg a * sg b = - 1)" "(0 \<le> a XOR b) = (sg a * sg b \<noteq> - 1)" for a b :: int
  by (auto simp: sg_def)

lemma room_new_block:
  assumes "mpz_ok st w" "1 \<le> n"
  defines "st1 \<equiv> (if ALLOC st w < n
                then set_var st w ((vars st w)\<lparr>mp_alloc := n, mp_d := fresh_block st n\<rparr>) else st)"
  shows "room st1 w n" and "x \<noteq> w \<Longrightarrow> vars st1 x = vars st x"
  using assms(1,2) by (auto simp: st1_def room_def mpz_ok_def fresh_block_def)

lemma mpz_mul_one_limb:
  assumes ok: "mpz_ok st w" "mpz_ok st u" "mpz_ok st v" and n: "ABSIZ st u \<noteq> 0" "ABSIZ st v = 1"
  shows "writes st (mpz_mul cfg st w u v) w (mpz_val st u * mpz_val st v)"
proof -
  let ?s = "sg (SIZ st u) * sg (SIZ st v) = - 1"
  have v0: "uint (PTR st v ! 0) = lval (mag st v)" using mag_one_limb [OF ok(3) n(2)] by simp
  have ne: "PTR st v ! 0 \<noteq> 0"
    using v0 lval_mag_pos [OF ok(3)] n(2) by (auto simp: ABSIZ_def limb_ne_0_iff)
  have nth: "PTR (MPZ_REALLOC st w m) v ! 0 = PTR st v ! 0" for m
    using nth_PTR_MPZ_REALLOC [OF ok(1,3)] ok(3) by (simp add: mpz_ok_def)
  show ?thesis
    by (rule writes_eqI [OF writes_mul_1_mag [where s = ?s, OF ok(1,2) n(1) ne refl refl]])
      (unfold mpz_mul_def Let_def ABSIZ_def [symmetric] take_PTR_mag [OF ok(1,2)] nth xor_sign,
        use n mpz_val_sg [OF ok(2)] mpz_val_sg [OF ok(3)] v0 in \<open>auto simp: sg_def\<close>)
qed

theorem mpz_mul_writes:
  assumes cfg: "mul_config_ok cfg" and ok: "mpz_ok st w" "mpz_ok st u" "mpz_ok st v"
  shows "writes st (mpz_mul cfg st w u v) w (mpz_val st u * mpz_val st v)"
proof -
  let ?un = "ABSIZ st u" and ?vn = "ABSIZ st v" and ?s = "sg (SIZ st u) * sg (SIZ st v) = - 1"
  let ?U = "mag st u" and ?V = "mag st v"
  have lU: "length ?U = ?un" "length ?V = ?vn" using length_mag ok by auto
  consider "?un = 0 \<or> ?vn = 0" | "?un \<noteq> 0" "?vn = 1" | "?un \<noteq> 0" "?vn \<noteq> 0" "?vn \<noteq> 1" by blast
  then show ?thesis
  proof cases
    case 1
    then show ?thesis
      by (intro writes_eqI [OF set_SIZ_0_writes [OF ok(1)]]) (auto simp: mpz_mul_def ABSIZ_def)
  next
    case 2
    then show ?thesis by (intro mpz_mul_one_limb [OF ok])
  next
    case 3
    have ne: "?U \<noteq> []" "?V \<noteq> []" using 3 lU by auto
    show ?thesis
    proof (cases "?un + ?vn \<le> mul_karatsuba_threshold cfg \<and> w \<noteq> u \<and> w \<noteq> v")
      case True
      let ?p = "if ?un = ?vn then mpn_mul_basecase ?U ?V else if ?un > ?vn then mpn_mul_basecase ?U ?V
                else mpn_mul_basecase ?V ?U"
      let ?st1 = "MPZ_REALLOC st w (?un + ?vn)"
      have p: "product_of ?U ?V ?p"
        using product_of_basecase [OF ne] iffD1 [OF product_of_commute product_of_basecase [OF ne(2,1)]] by simp
      note b = product_of_mag_bound [OF ok(2,3) 3(1,2) p]
      have last: "PTR (put_limbs ?st1 w 0 ?p) w ! (?un + ?vn - 1) = last ?p"
        by (rule nth_last_put [OF b(2) b(1) [symmetric]])
      have "room ?st1 w (?un + ?vn)" using ok(1) by (intro room_MPZ_REALLOC) simp_all
      then have wr: "writes st (set_SIZ (put_limbs ?st1 w 0 ?p) w
          (if ?s then - int (?un + ?vn - of_bool (last ?p = 0)) else int (?un + ?vn - of_bool (last ?p = 0)))) w
          (mpz_val st u * mpz_val st v)"
        by (intro writes_product [OF ok(2,3) 3(1,2) p _ _ refl refl]) simp_all
      show ?thesis
        by (rule writes_eqI [OF wr])
          (unfold mpz_mul_def Let_def ABSIZ_def [symmetric] take_PTR_mag [OF ok(1,2)] take_PTR_mag [OF ok(1,3)] xor_sign
            last if_P [OF True], use 3 in simp_all)
    next
      case False
      define swap where "swap \<longleftrightarrow> ?un < ?vn"
      let ?p = "if u = v then mpn_sqr cfg ?U else if swap then mpn_mul cfg False ?V ?U else mpn_mul cfg False ?U ?V"
      let ?st1 = "if ALLOC st w < ?un + ?vn
          then set_var st w ((vars st w)\<lparr>mp_alloc := ?un + ?vn, mp_d := fresh_block st (?un + ?vn)\<rparr>) else st"
      have p: "product_of ?U ?V ?p"
        using mpn_sqr_product [OF cfg ne(1)] mpn_mul_product [OF cfg ne(2), of ?U False]
          iffD1 [OF product_of_commute mpn_mul_product [OF cfg ne(1), of ?V False]] lU by (auto simp: swap_def)
      note nb = room_new_block [OF ok(1), of "?un + ?vn"]
      have wr: "writes st (set_SIZ (put_limbs ?st1 w 0 ?p) w
          (if ?s then - int (?un + ?vn - of_bool (last ?p = 0)) else int (?un + ?vn - of_bool (last ?p = 0)))) w
          (mpz_val st u * mpz_val st v)"
        using nb 3 by (intro writes_product [OF ok(2,3) 3(1,2) p _ _ refl refl]) simp_all
      have m: "take ?un (PTR st u) = ?U" "take ?vn (PTR st v) = ?V" by (simp_all add: mag_def)
      show ?thesis
        by (rule writes_eqI [OF wr])
          (unfold mpz_mul_def Let_def ABSIZ_def [symmetric] xor_sign if_not_P [OF False],
            use 3 m in \<open>auto simp: swap_def\<close>)
    qed
  qed
qed


subsection \<open>Fused multiply and add or subtract with a limb (aorsmul\_i.c)\<close>

text \<open>The two branches on absolute values: the limbs of the result and its size before
  normalisation, and for a subtraction whether the sign flips.\<close>

definition addmul_abs :: "limb list \<Rightarrow> limb list \<Rightarrow> limb \<Rightarrow> limb list \<times> nat" where
  "addmul_abs wp xp y =
     (let wsize = length wp; xsize = length xp; new_wsize = max wsize xsize; min_size = min wsize xsize;
          (lo, cy) = mpn_addmul_1 (take min_size wp) (take min_size xp) y;
          (hi, cy) =
            (if xsize = wsize then ([], cy)
             else
               (let (hi, cy2) = (if xsize > wsize then mpn_mul_1 (drop min_size xp) y
                                 else (drop min_size wp, 0));
                    (hi, c) = mpn_add_1 hi cy
                in (hi, cy2 + c)))
      in (lo @ hi @ [cy], new_wsize + of_bool (cy \<noteq> 0)))"

definition submul_abs :: "limb list \<Rightarrow> limb list \<Rightarrow> limb \<Rightarrow> limb list \<times> nat \<times> bool" where
  "submul_abs wp xp y =
     (let wsize = length wp; xsize = length xp; new_wsize = max wsize xsize; min_size = min wsize xsize;
          (lo, cy) = mpn_submul_1 (take min_size wp) (take min_size xp) y
      in if wsize \<ge> xsize then
           (let (hi, cy) = (if wsize \<noteq> xsize then mpn_sub_1 (drop xsize wp) cy else ([], cy))
            in if cy \<noteq> 0 then (mpn_incr_u (mpn_com_n (lo @ hi) @ [NOT (- cy)]) 1, new_wsize + 1, True)
               else (lo @ hi, new_wsize, False))
         else
           (let (lo, c) = mpn_add_1 (mpn_com_n lo) 1;
                cy = cy + c - 1;
                cy2 = (cy = - 1);
                cy = cy + of_bool cy2;
                (hi, cy1) = mpn_mul_1 (drop wsize xp) y;
                (hi, c) = mpn_add_1 hi cy;
                cy = cy1 + c;
                new_wsize = new_wsize + of_bool (cy \<noteq> 0);
                hi = take (new_wsize - wsize) (hi @ [cy])
            in (lo @ (if cy2 then mpn_decr_u hi 1 else hi), new_wsize, True)))"

definition mpz_aorsmul_1 :: "store \<Rightarrow> var \<Rightarrow> var \<Rightarrow> limb \<Rightarrow> int \<Rightarrow> store" where
  "mpz_aorsmul_1 st w x y sub =
     (let xsize = SIZ st x
      in if xsize = 0 \<or> y = 0 then st
         else
           (let sub = sub XOR xsize; xsize = nat \<bar>xsize\<bar>; wsize_signed = SIZ st w
            in if wsize_signed = 0 then
                 (let st1 = MPZ_REALLOC st w (xsize + 1);
                      r = mpn_mul_1 (take xsize (PTR st1 x)) y; cy = snd r;
                      st2 = put_limbs st1 w 0 (fst r);
                      st3 = put_limbs st2 w xsize [cy];
                      xsize = int xsize + of_bool (cy \<noteq> 0)
                  in set_SIZ st3 w (if sub \<ge> 0 then xsize else - xsize))
               else
                 (let sub = sub XOR wsize_signed; wsize = nat \<bar>wsize_signed\<bar>;
                      new_wsize = max wsize xsize;
                      st1 = MPZ_REALLOC st w (new_wsize + 1);
                      wp = take wsize (PTR st1 w); xp = take xsize (PTR st1 x)
                  in if sub \<ge> 0 then
                       (let (zp, new_wsize) = addmul_abs wp xp y
                        in set_SIZ (put_limbs st1 w 0 zp) w
                             (if wsize_signed \<ge> 0 then int new_wsize else - int new_wsize))
                     else
                       (let (zp, new_wsize, flip) = submul_abs wp xp y;
                            wsize_signed = (if flip then - wsize_signed else wsize_signed);
                            st2 = put_limbs st1 w 0 zp;
                            new_wsize = mpn_normalize (PTR st2 w) new_wsize
                        in set_SIZ st2 w
                             (if wsize_signed \<ge> 0 then int new_wsize else - int new_wsize)))))"

definition mpz_addmul_ui :: "store \<Rightarrow> var \<Rightarrow> var \<Rightarrow> limb \<Rightarrow> store" where
  "mpz_addmul_ui st w x y = mpz_aorsmul_1 st w x y 0"

definition mpz_submul_ui :: "store \<Rightarrow> var \<Rightarrow> var \<Rightarrow> limb \<Rightarrow> store" where
  "mpz_submul_ui st w x y = mpz_aorsmul_1 st w x y (- 1)"

lemma mul_1_add_1_value:
  assumes "us \<noteq> []" "mpn_mul_1 us y = (hs, c1)" "mpn_add_1 hs cy = (zs, c)"
  shows "lval zs + B ^ length us * uint (c1 + c) = lval us * uint y + uint cy" "length zs = length us"
proof -
  have h: "lval hs + B ^ length us * uint c1 = lval us * uint y" "length hs = length us"
    using mpn_mul_1_value [of us y] length_mpn_mul_1 [of us y] assms(2) by simp_all
  have ne: "hs \<noteq> []" using h(2) assms(1) by auto
  have z: "lval zs + B ^ length us * uint c = lval hs + uint cy"
    using mpn_add_1_value [OF ne, of cy] assms(3) h(2) by simp
  have v: "lval zs + B ^ length us * (uint c1 + uint c) = lval us * uint y + uint cy"
    using h z by (simp add: algebra_simps)
  have "lval us * uint y \<le> (B ^ length us - 1) * (B - 1)"
    using lval_lt [of us] uint_lt_B [of y] by (intro mult_mono) simp_all
  also have "\<dots> = B ^ length us * (B - 1) - (B - 1)" by (simp add: algebra_simps)
  finally have "lval us * uint y + uint cy \<le> B ^ length us * (B - 1)"
    using uint_le_B_minus_1 [of cy] by linarith
  then have "B ^ length us * (uint c1 + uint c) \<le> B ^ length us * (B - 1)"
    using v lval_nonneg [of zs] by linarith
  then have "uint c1 + uint c \<le> B - 1" by simp
  then have "uint (c1 + c) = uint c1 + uint c" by (intro uint_add_limb_no_overflow) simp
  then show "lval zs + B ^ length us * uint (c1 + c) = lval us * uint y + uint cy" using v by simp
  show "length zs = length us" using length_mpn_add_1 [of hs cy] assms(3) h(2) by simp
qed

lemma addmul_split_value:
  assumes "k \<le> length wp" "k \<le> length xp" "mpn_addmul_1 (take k wp) (take k xp) y = (lo, cy)"
  shows "lval lo + B ^ k * uint cy = lval (take k wp) + lval (take k xp) * uint y" "length lo = k"
  using mpn_addmul_1_value [of "take k wp" "take k xp" y] length_mpn_addmul_1 [of "take k wp" "take k xp" y] assms
  by simp_all

lemma addmul_abs_limbs:
  assumes r: "addmul_abs wp xp y = (zp, n)" and ne: "xp \<noteq> []" "wp \<noteq> []"
  obtains zs cy where "zp = zs @ [cy]" "length zs = max (length wp) (length xp)" "n = length zs + of_bool (cy \<noteq> 0)"
    "lval zs + B ^ length zs * uint cy = lval wp + lval xp * uint y"
proof -
  let ?k = "min (length wp) (length xp)"
  obtain lo cy where lo: "mpn_addmul_1 (take ?k wp) (take ?k xp) y = (lo, cy)" by fastforce
  note l = addmul_split_value [OF min.cobounded1 min.cobounded2 lo]
  have sw: "lval (take ?k wp) + B ^ ?k * lval (drop ?k wp) = lval wp"
    by (rule lval_split_at [symmetric]) simp
  have sx: "lval (take ?k xp) * uint y + B ^ ?k * (lval (drop ?k xp) * uint y) = lval xp * uint y"
    by (subst lval_split_at [of ?k xp]) (simp_all add: algebra_simps)
  consider "length xp = length wp" | "length wp < length xp" | "length xp < length wp" by linarith
  then show thesis
  proof cases
    case 1
    then have "zp = lo @ [cy]" "n = length wp + of_bool (cy \<noteq> 0)" using r lo by (simp_all add: addmul_abs_def)
    then show thesis using that [of lo cy] 1 l by simp
  next
    case 2
    obtain h c1 where h: "mpn_mul_1 (drop ?k xp) y = (h, c1)" by fastforce
    obtain hi c where hi: "mpn_add_1 h cy = (hi, c)" by fastforce
    have z: "zp = (lo @ hi) @ [c1 + c]" "n = max (length wp) (length xp) + of_bool (c1 + c \<noteq> 0)"
      using r lo h hi 2 by (simp_all add: addmul_abs_def)
    have "drop ?k xp \<noteq> []" "drop ?k wp = []" using 2 by simp_all
    note m = mul_1_add_1_value [OF this(1) h hi]
    have len: "length (lo @ hi) = max (length wp) (length xp)" using l(2) m(2) 2 by simp
    have "lval (lo @ hi) + B ^ length (lo @ hi) * uint (c1 + c)
        = lval lo + B ^ ?k * (lval hi + B ^ (length xp - ?k) * uint (c1 + c))"
      unfolding lval_append length_append power_add l(2) m(2) by (simp add: algebra_simps)
    also have "\<dots> = lval wp + lval xp * uint y"
      unfolding m(1) [unfolded length_drop] using l(1) sw sx \<open>drop ?k wp = []\<close>
      by (simp only: distrib_left lval.simps mult_zero_right)
    finally show thesis using that [of "lo @ hi" "c1 + c"] z len by simp
  next
    case 3
    obtain hi c where hi: "mpn_add_1 (drop ?k wp) cy = (hi, c)" by fastforce
    have z: "zp = (lo @ hi) @ [c]" "n = max (length wp) (length xp) + of_bool (c \<noteq> 0)"
      using r lo hi 3 by (simp_all add: addmul_abs_def)
    have "drop ?k wp \<noteq> []" "drop ?k xp = []" using 3 by simp_all
    have m: "lval hi + B ^ (length wp - ?k) * uint c = lval (drop ?k wp) + uint cy" "length hi = length wp - ?k"
      using mpn_add_1_value [OF \<open>drop ?k wp \<noteq> []\<close>, of cy] length_mpn_add_1 [of "drop ?k wp" cy] hi by simp_all
    have len: "length (lo @ hi) = max (length wp) (length xp)" using l(2) m(2) 3 by simp
    have "lval (lo @ hi) + B ^ length (lo @ hi) * uint c = lval lo + B ^ ?k * (lval hi + B ^ (length wp - ?k) * uint c)"
      unfolding lval_append length_append power_add l(2) m(2) by (simp add: algebra_simps)
    also have "\<dots> = lval wp + lval xp * uint y"
      unfolding m(1) using l(1) sw sx \<open>drop ?k xp = []\<close>
      by (simp only: distrib_left lval.simps mult_zero_right mult_zero_left)
    finally show thesis using that [of "lo @ hi" c] z len by simp
  qed
qed


lemma submul_split_value:
  assumes "k \<le> length wp" "k \<le> length xp" "mpn_submul_1 (take k wp) (take k xp) y = (lo, cy)"
  shows "lval lo - B ^ k * uint cy = lval (take k wp) - lval (take k xp) * uint y" "length lo = k"
  using mpn_submul_1_value [of "take k wp" "take k xp" y] length_mpn_submul_1 [of "take k wp" "take k xp" y] assms
  by simp_all

text \<open>The two's complement negation of a vector with a borrow.\<close>

lemma negate_borrow:
  assumes "cy \<noteq> 0"
  shows "lval (mpn_incr_u (mpn_com_n zs @ [NOT (- cy)]) 1) = B ^ length zs * uint cy - lval zs"
proof -
  let ?z = "mpn_com_n zs @ [NOT (- cy)]"
  have n: "uint (NOT (- cy)) = uint cy - 1"
    using assms by (simp add: uint_not_limb uint_neg_limb limb_ne_0_iff)
  have v: "lval ?z = B ^ length zs * uint cy - lval zs - 1"
    by (simp add: lval_append n mpn_com_n_value algebra_simps)
  have "B ^ length zs * uint cy \<le> B ^ length zs * (B - 1)"
    using uint_le_B_minus_1 by (intro mult_left_mono) simp_all
  also have "\<dots> < B ^ length ?z" by (simp add: algebra_simps)
  finally have "B ^ length zs * uint cy < B ^ length ?z" .
  then have "lval ?z + uint (1 :: limb) < B ^ length ?z" using v lval_nonneg [of zs] by (simp only: uint_1)
  then show ?thesis using v by (simp add: mpn_incr_u_value)
qed

lemma submul_abs_w_longer:
  assumes r: "submul_abs wp xp y = (zp, n, flip)" and ne: "xp \<noteq> []" "length xp \<le> length wp"
  shows "length zp = n" "n \<le> length wp + 1"
    and "lval wp - lval xp * uint y = (if flip then - lval zp else lval zp)"
proof -
  let ?k = "length xp"
  obtain lo cy where lo: "mpn_submul_1 (take ?k wp) (take ?k xp) y = (lo, cy)" by fastforce
  note l = submul_split_value [OF ne(2) order_refl lo]
  obtain hi c where hi: "(if length wp \<noteq> ?k then mpn_sub_1 (drop ?k wp) cy else ([], cy)) = (hi, c)" by fastforce
  have h: "lval hi - B ^ (length wp - ?k) * uint c = lval (drop ?k wp) - uint cy \<and> length hi = length wp - ?k"
  proof (cases "length wp = ?k")
    case False
    then have "drop ?k wp \<noteq> []" using ne(2) by simp
    moreover have "mpn_sub_1 (drop ?k wp) cy = (hi, c)" using hi False by simp
    ultimately show ?thesis
      using mpn_sub_1_value [of "drop ?k wp" cy] length_mpn_sub_1 [of "drop ?k wp" cy] by (simp del: length_mpn_sub_1)
  qed (use hi in simp)
  have len: "length (lo @ hi) = length wp" using l(2) h ne(2) by simp
  have "B ^ length wp = B ^ ?k * B ^ (length wp - ?k)" using ne(2) by (simp flip: power_add)
  then have v: "lval (lo @ hi) - B ^ length wp * uint c = lval wp - lval xp * uint y"
    using l arg_cong [OF conjunct1 [OF h], of "\<lambda>z. B ^ ?k * z"] lval_split_at [OF ne(2)]
    by (simp add: lval_append algebra_simps)
  have e: "zp = (if c \<noteq> 0 then mpn_incr_u (mpn_com_n (lo @ hi) @ [NOT (- c)]) 1 else lo @ hi)"
    "n = length wp + of_bool (c \<noteq> 0)" "flip = (c \<noteq> 0)"
    using r lo hi ne(2) by (auto simp: submul_abs_def min_def max_def split: if_splits)
  show "length zp = n" "n \<le> length wp + 1" using e len by simp_all
  show "lval wp - lval xp * uint y = (if flip then - lval zp else lval zp)"
    using e v len negate_borrow [of c "lo @ hi"] by auto
qed


lemma negate_low_value:
  assumes "zs \<noteq> []" "mpn_add_1 (mpn_com_n zs) 1 = (lo, c)"
  shows "lval lo + B ^ length zs * uint c = B ^ length zs - lval zs" "length lo = length zs"
proof -
  have "mpn_com_n zs \<noteq> []" using assms(1) length_mpn_com_n [of zs] by fastforce
  then show "lval lo + B ^ length zs * uint c = B ^ length zs - lval zs"
    using mpn_add_1_value [of "mpn_com_n zs" 1] assms(2) by (simp add: mpn_com_n_value)
  show "length lo = length zs" using length_mpn_add_1 [of "mpn_com_n zs" 1] assms(2) by simp
qed

text \<open>The value \<open>cy + c - 1\<close> is \<open>- 1\<close> or a limb other than the largest one.\<close>

lemma held_borrow:
  fixes cy c :: limb
  assumes x: "x < B ^ k" "0 \<le> x" "0 \<le> w" and y: "0 \<le> y" "y \<le> B - 1" and lo: "0 \<le> lo" and k: "k \<noteq> 0"
    and v: "x * y - w = lo + B ^ k * (uint cy + uint c - 1)"
  shows "(cy + c - 1 = - 1) \<longleftrightarrow> uint cy + uint c = 0"
    and "uint (cy + c - 1 + of_bool (cy + c - 1 = - 1)) = uint cy + uint c - 1 + of_bool (uint cy + uint c = 0)"
proof -
  let ?d = "uint cy + uint c - 1"
  have "x * y \<le> (B ^ k - 1) * (B - 1)" using x y by (intro mult_mono) auto
  also have "\<dots> < B ^ k * (B - 1)" by (simp add: algebra_simps)
  finally have "B ^ k * ?d < B ^ k * (B - 1)" using v lo x(3) by linarith
  then have d: "?d < B - 1" by simp
  have t: "cy + c - 1 = of_int ?d" by simp
  show iff: "(cy + c - 1 = - 1) \<longleftrightarrow> uint cy + uint c = 0"
  proof
    assume "cy + c - 1 = - 1"
    show "uint cy + uint c = 0"
    proof (rule ccontr)
      assume "uint cy + uint c \<noteq> 0"
      then have "0 \<le> ?d" using uint_ge_0 [of cy] uint_ge_0 [of c] by linarith
      then have "uint (cy + c - 1) = ?d" unfolding t using d by (intro uint_of_int_limb) linarith+
      then show False using d \<open>cy + c - 1 = - 1\<close> uint_limb_max by simp
    qed
  next
    assume "uint cy + uint c = 0"
    then show "cy + c - 1 = - 1" unfolding t by simp
  qed
  show "uint (cy + c - 1 + of_bool (cy + c - 1 = - 1)) = ?d + of_bool (uint cy + uint c = 0)"
  proof (cases "uint cy + uint c = 0")
    case True
    then show ?thesis using iff by simp
  next
    case False
    then have "0 \<le> ?d" using uint_ge_0 [of cy] uint_ge_0 [of c] by linarith
    then have "uint (cy + c - 1) = ?d" unfolding t using d by (intro uint_of_int_limb) linarith+
    then show ?thesis using iff False by simp
  qed
qed

lemma take_with_carry:
  "lval (take (length zs + of_bool (cy \<noteq> 0)) (zs @ [cy])) = lval zs + B ^ length zs * uint cy"
  by (simp add: lval_append)

lemma submul_abs_x_longer:
  assumes r: "submul_abs wp xp y = (zp, n, flip)" and ne: "wp \<noteq> []" "length wp < length xp" "last xp \<noteq> 0" "y \<noteq> 0"
  shows "flip" "length zp = n" "n \<le> length xp + 1" "lval zp = lval xp * uint y - lval wp"
proof -
  let ?k = "length wp" and ?X1 = "drop (length wp) xp"
  obtain l1 cy where l1: "mpn_submul_1 (take ?k wp) (take ?k xp) y = (l1, cy)" by fastforce
  note l = submul_split_value [OF order_refl less_imp_le [OF ne(2)] l1]
  obtain lo c where lo: "mpn_add_1 (mpn_com_n l1) 1 = (lo, c)" by fastforce
  have l1ne: "l1 \<noteq> []" using l(2) ne(1) by auto
  note nl = negate_low_value [OF l1ne lo, unfolded l(2)]
  have X1: "?X1 \<noteq> []" "last ?X1 \<noteq> 0" using ne by simp_all
  define cy2 where "cy2 \<longleftrightarrow> cy + c - 1 = - 1"
  define t where "t = cy + c - 1 + of_bool cy2"
  obtain h c1 where h: "mpn_mul_1 ?X1 y = (h, c1)" by fastforce
  obtain hi c' where hi: "mpn_add_1 h t = (hi, c')" by fastforce
  note m = mul_1_add_1_value [OF X1(1) h hi]
  let ?hs = "take (length hi + of_bool (c1 + c' \<noteq> 0)) (hi @ [c1 + c'])"
  have d: "lval (take ?k xp) * uint y - lval wp = lval lo + B ^ ?k * (uint cy + uint c - 1)"
    using l(1) nl(1) by (simp add: algebra_simps)
  note hb = held_borrow [OF lval_take_lt [OF less_imp_le [OF ne(2)]] lval_nonneg lval_nonneg uint_ge_0
      uint_le_B_minus_1 lval_nonneg _ d, folded cy2_def, folded t_def]
  have "lval ?X1 * 1 \<le> lval ?X1 * uint y"
    using ne(4) by (intro mult_left_mono) (simp_all add: limb_ne_0_iff)
  then have pos: "1 \<le> lval ?X1 * uint y" using lval_pos_of_last [OF X1] by linarith
  have hs: "lval ?hs = lval ?X1 * uint y + uint t" unfolding take_with_carry using m by simp
  have e: "zp = lo @ (if cy2 then mpn_decr_u ?hs 1 else ?hs)" "n = length xp + of_bool (c1 + c' \<noteq> 0)" "flip"
    using r ne(2) l1 lo h hi m(2)
    by (auto simp: submul_abs_def Let_def min_def max_def cy2_def t_def)
  show "flip" by (rule e(3))
  show "length zp = n" "n \<le> length xp + 1" using e m(2) nl(2) ne(2) by simp_all
  have "lval (if cy2 then mpn_decr_u ?hs 1 else ?hs) = lval ?X1 * uint y + (uint cy + uint c - 1)"
  proof (cases cy2)
    case True
    then have "uint t = 0" "uint cy + uint c = 0" using hb ne(1) by simp_all
    moreover have "lval (mpn_decr_u ?hs 1) = lval ?hs - uint (1 :: limb)"
      using hs pos \<open>uint t = 0\<close> m(2) X1(1) by (intro mpn_decr_u_value) auto
    ultimately show ?thesis using True hs by simp
  next
    case False
    then show ?thesis using hb ne(1) hs by simp
  qed
  then have "lval zp = lval lo + B ^ ?k * (lval ?X1 * uint y + (uint cy + uint c - 1))"
    unfolding e(1) lval_append nl(2) by simp
  also have "\<dots> = (lval (take ?k xp) * uint y - lval wp) + B ^ ?k * (lval ?X1 * uint y)"
    unfolding d by (simp add: algebra_simps)
  also have "\<dots> = lval xp * uint y - lval wp"
    by (subst lval_split_at [OF less_imp_le [OF ne(2)]]) (simp add: algebra_simps)
  finally show "lval zp = lval xp * uint y - lval wp" .
qed


lemma sg_cases: "sg k = 1 \<or> sg k = - 1"
  by (simp add: sg_def)

lemma sg_xor_nonneg: "0 \<le> a \<longleftrightarrow> sg a = 1" for a :: int
  by (simp add: sg_def)

lemma writes_signed:
  assumes "writes st st' w (if s then - V else V)" "if s then k = - V else k = V"
  shows "writes st st' w k"
  using assms by (cases s) simp_all

text \<open>The sum or difference of the absolute values, with the sign of the result, as one store.\<close>

lemma writes_addmul_abs:
  assumes ok: "mpz_ok st w" "mpz_ok st x" and n: "SIZ st w \<noteq> 0" "SIZ st x \<noteq> 0" "y \<noteq> 0"
    and r: "addmul_abs (mag st w) (mag st x) y = (zp, n)"
  shows "writes st (set_SIZ (put_limbs (MPZ_REALLOC st w (max (ABSIZ st w) (ABSIZ st x) + 1)) w 0 zp) w
      (if s then - int n else int n)) w
      (if s then - (lval (mag st w) + lval (mag st x) * uint y) else lval (mag st w) + lval (mag st x) * uint y)"
proof -
  let ?V = "lval (mag st w) + lval (mag st x) * uint y" and ?N = "max (ABSIZ st w) (ABSIZ st x)"
  have ne: "mag st x \<noteq> []" "mag st w \<noteq> []" using n mag_eq_Nil_iff ok by auto
  obtain zs cy where z: "zp = zs @ [cy]" "length zs = max (length (mag st w)) (length (mag st x))"
    "n = length zs + of_bool (cy \<noteq> 0)" "lval zs + B ^ length zs * uint cy = ?V"
    by (rule addmul_abs_limbs [OF r ne])
  have len: "length zs = ?N" using z(2) length_mag ok by simp
  have "lval (mag st x) * 1 \<le> lval (mag st x) * uint y"
    using n(3) by (intro mult_left_mono) (simp_all add: limb_ne_0_iff)
  moreover have nz: "ABSIZ st w \<noteq> 0" "ABSIZ st x \<noteq> 0" using n by (simp_all add: ABSIZ_def)
  ultimately have "B ^ (ABSIZ st w - 1) \<le> ?V" "B ^ (ABSIZ st x - 1) \<le> ?V"
    using mag_ge_pow [OF ok(1) nz(1)] mag_ge_pow [OF ok(2) nz(2)] lval_nonneg [of "mag st w"] lval_nonneg [of "mag st x"]
    by linarith+
  then have "B ^ (?N - 1) \<le> ?V" by (simp add: max_def)
  then have low: "cy = 0 \<Longrightarrow> B ^ (length zs - 1) \<le> ?V" using len by simp
  have high: "B ^ length zs \<le> ?V" if "cy \<noteq> 0"
  proof -
    have "B ^ length zs * 1 \<le> B ^ length zs * uint cy" using that by (intro mult_left_mono) (simp_all add: limb_ne_0_iff)
    then show ?thesis using z(4) lval_nonneg [of zs] by linarith
  qed
  have room: "room (MPZ_REALLOC st w (?N + 1)) w (length zp)"
    using ok(1) z(1) len by (intro room_MPZ_REALLOC) simp_all
  show ?thesis
    by (rule writes_with_sign [OF room, where n = n])
      (use z(1,3) take_with_carry [of zs cy] z(4) low high in \<open>simp_all split: if_splits\<close>)
qed


lemma writes_submul_abs:
  assumes ok: "mpz_ok st w" "mpz_ok st x" and n: "SIZ st w \<noteq> 0" "SIZ st x \<noteq> 0" "y \<noteq> 0"
    and r: "submul_abs (mag st w) (mag st x) y = (zp, n, flip)"
    and st1: "st1 = put_limbs (MPZ_REALLOC st w (max (ABSIZ st w) (ABSIZ st x) + 1)) w 0 zp"
  shows "writes st (set_SIZ st1 w
      (if s \<noteq> flip then - int (mpn_normalize (PTR st1 w) n) else int (mpn_normalize (PTR st1 w) n))) w
      (if s then - (lval (mag st w) - lval (mag st x) * uint y) else lval (mag st w) - lval (mag st x) * uint y)"
proof -
  have ne: "mag st x \<noteq> []" "mag st w \<noteq> []" using n mag_eq_Nil_iff ok by auto
  have last: "last (mag st x) \<noteq> 0" using last_mag_ne_0 [OF ok(2)] n by simp
  have z: "length zp = n \<and> n \<le> max (ABSIZ st w) (ABSIZ st x) + 1 \<and>
      lval (mag st w) - lval (mag st x) * uint y = (if flip then - lval zp else lval zp)"
  proof (cases "length (mag st x) \<le> length (mag st w)")
    case True
    then show ?thesis using submul_abs_w_longer [OF r ne(1) True] length_mag ok by auto
  next
    case False
    then show ?thesis using submul_abs_x_longer [OF r ne(2) _ last n(3)] length_mag ok by auto
  qed
  then have room: "room (MPZ_REALLOC st w (max (ABSIZ st w) (ABSIZ st x) + 1)) w (length zp)"
    using ok(1) by (intro room_MPZ_REALLOC) simp_all
  have "writes st (set_SIZ st1 w
      (if s \<noteq> flip then - int (mpn_normalize (PTR st1 w) n) else int (mpn_normalize (PTR st1 w) n))) w
      (if s \<noteq> flip then - lval zp else lval zp)"
    unfolding st1 by (rule writes_normalized [OF room _ _ refl]) (use z in simp_all)
  then show ?thesis using z by (auto split: if_splits)
qed

lemma mpz_aorsmul_1_writes:
  assumes ok: "mpz_ok st w" "mpz_ok st x"
  shows "writes st (mpz_aorsmul_1 st w x y sub) w (mpz_val st w + sg sub * (mpz_val st x * uint y))"
proof -
  note vals = mpz_val_sg [OF ok(1)] mpz_val_sg [OF ok(2)]
  consider "SIZ st x = 0 \<or> y = 0" | "SIZ st x \<noteq> 0" "y \<noteq> 0" "SIZ st w = 0" | "SIZ st x \<noteq> 0" "y \<noteq> 0" "SIZ st w \<noteq> 0"
    by blast
  then show ?thesis
  proof cases
    case 1
    then show ?thesis using ok(1) by (auto simp: mpz_aorsmul_1_def writes_def)
  next
    case 2
    let ?s = "sg sub * sg (SIZ st x) = - 1"
    have n: "ABSIZ st x \<noteq> 0" using 2 by (simp add: ABSIZ_def)
    show ?thesis
      by (rule writes_eqI [OF writes_mul_1_mag [where s = ?s, OF ok n 2(2) refl refl]])
        (unfold mpz_aorsmul_1_def Let_def ABSIZ_def [symmetric] take_PTR_mag [OF ok] xor_sign,
          use 2 vals in \<open>auto simp: sg_def\<close>)
  next
    case 3
    let ?sub = "sg sub * sg (SIZ st x) * sg (SIZ st w)" and ?neg = "SIZ st w < 0"
    note p = take_PTR_mag [OF ok(1,1)] take_PTR_mag [OF ok(1,2)]
    have m: "mpz_aorsmul_1 st w x y sub =
        (let st1 = MPZ_REALLOC st w (max (ABSIZ st w) (ABSIZ st x) + 1)
         in if ?sub = 1 then
              (let (zp, n) = addmul_abs (mag st w) (mag st x) y
               in set_SIZ (put_limbs st1 w 0 zp) w (if ?neg then - int n else int n))
            else
              (let (zp, n, flip) = submul_abs (mag st w) (mag st x) y; st2 = put_limbs st1 w 0 zp
               in set_SIZ st2 w (if ?neg \<noteq> flip then - int (mpn_normalize (PTR st2 w) n)
                                 else int (mpn_normalize (PTR st2 w) n))))"
      unfolding mpz_aorsmul_1_def Let_def ABSIZ_def [symmetric] p sg_xor_nonneg sg_xor using 3
      by (auto simp: split_beta sg_def)
    obtain zp n where a: "addmul_abs (mag st w) (mag st x) y = (zp, n)" by fastforce
    obtain zp' n' flip where b: "submul_abs (mag st w) (mag st x) y = (zp', n', flip)" by (metis prod.collapse)
    note wa = writes_addmul_abs [OF ok 3(3,1,2) a, of ?neg] and wb = writes_submul_abs [OF ok 3(3,1,2) b refl, of ?neg]
    show ?thesis
    proof (cases "?sub = 1")
      case True
      show ?thesis by (rule writes_eqI [OF wa]) (use True a m vals in \<open>auto simp: sg_def split: if_splits\<close>)
    next
      case False
      show ?thesis by (rule writes_eqI [OF wb]) (use False b m vals in \<open>auto simp: sg_def split: if_splits\<close>)
    qed
  qed
qed

lemma mpz_addmul_ui_writes:
  "mpz_ok st w \<Longrightarrow> mpz_ok st x \<Longrightarrow> writes st (mpz_addmul_ui st w x y) w (mpz_val st w + mpz_val st x * uint y)"
  using mpz_aorsmul_1_writes [of st w x y 0] by (simp add: mpz_addmul_ui_def)

lemma mpz_submul_ui_writes:
  "mpz_ok st w \<Longrightarrow> mpz_ok st x \<Longrightarrow> writes st (mpz_submul_ui st w x y) w (mpz_val st w - mpz_val st x * uint y)"
  using mpz_aorsmul_1_writes [of st w x y "- 1"] by (simp add: mpz_submul_ui_def)


subsection \<open>Fused multiply and add or subtract (aorsmul.c)\<close>

definition mpn_cmp_twosizes_lt :: "limb list \<Rightarrow> limb list \<Rightarrow> bool" where
  "mpn_cmp_twosizes_lt xp yp \<longleftrightarrow>
     length xp < length yp \<or> length xp = length yp \<and> mpn_cmp xp yp (length xp) < 0"

definition mpz_aorsmul :: "mul_config \<Rightarrow> store \<Rightarrow> var \<Rightarrow> var \<Rightarrow> var \<Rightarrow> int \<Rightarrow> store" where
  "mpz_aorsmul cfg st w x y sub =
     (let xsize = SIZ st x; ysize = SIZ st y
      in if xsize = 0 \<or> ysize = 0 then st
         else
           (let (x, y, xsize, ysize) =
                  (if \<bar>ysize\<bar> > \<bar>xsize\<bar> then (y, x, ysize, xsize) else (x, y, xsize, ysize));
                sub = sub XOR ysize; ysize = nat \<bar>ysize\<bar>
            in if ysize = 1 then mpz_aorsmul_1 st w x (PTR st y ! 0) sub
               else
                 (let sub = sub XOR xsize; xsize = nat \<bar>xsize\<bar>;
                      wsize_signed = SIZ st w; sub = sub XOR wsize_signed; wsize = nat \<bar>wsize_signed\<bar>;
                      tsize = xsize + ysize;
                      st1 = MPZ_REALLOC st w (max wsize tsize + 1);
                      tp = mpn_mul cfg (x = y) (take xsize (PTR st1 x)) (take ysize (PTR st1 y));
                      high = last tp;
                      tsize = tsize - of_bool (high = 0)
                  in if wsize_signed = 0 then
                       set_SIZ (put_limbs st1 w 0 tp) w (if sub \<ge> 0 then int tsize else - int tsize)
                     else
                       (let wp = take wsize (PTR st1 w); tp = take tsize tp
                        in if sub \<ge> 0 then
                             (let (up, tp) = (if wsize < tsize then (tp, wp) else (wp, tp));
                                  r = mpn_add up tp; c = snd r;
                                  wsize = length up;
                                  st2 = put_limbs (put_limbs st1 w 0 (fst r)) w wsize [c];
                                  wsize = int wsize + of_bool (c \<noteq> 0)
                              in set_SIZ st2 w (if wsize_signed \<ge> 0 then wsize else - wsize))
                           else
                             (let lt = mpn_cmp_twosizes_lt wp tp;
                                  (up, tp) = (if lt then (tp, wp) else (wp, tp));
                                  wsize_signed = (if lt then - wsize_signed else wsize_signed);
                                  st2 = put_limbs st1 w 0 (fst (mpn_sub up tp));
                                  wsize = int (mpn_normalize (PTR st2 w) (length up))
                              in set_SIZ st2 w (if wsize_signed \<ge> 0 then wsize else - wsize))))))"

definition mpz_addmul :: "mul_config \<Rightarrow> store \<Rightarrow> var \<Rightarrow> var \<Rightarrow> var \<Rightarrow> store" where
  "mpz_addmul cfg st w u v = mpz_aorsmul cfg st w u v 0"

definition mpz_submul :: "mul_config \<Rightarrow> store \<Rightarrow> var \<Rightarrow> var \<Rightarrow> var \<Rightarrow> store" where
  "mpz_submul cfg st w u v = mpz_aorsmul cfg st w u v (- 1)"

text \<open>A vector without a leading zero limb.\<close>

definition normal :: "limb list \<Rightarrow> bool" where
  "normal xs \<longleftrightarrow> xs \<noteq> [] \<and> last xs \<noteq> 0"

lemma normal_bound: "normal xs \<Longrightarrow> B ^ (length xs - 1) \<le> lval xs"
  using lval_ge_of_last [of xs] by (simp add: normal_def)

lemma normal_mag: "mpz_ok st u \<Longrightarrow> SIZ st u \<noteq> 0 \<Longrightarrow> normal (mag st u)"
  using last_mag_ne_0 [of st u] mag_eq_Nil_iff [of st u] by (simp add: normal_def)

lemma cmp_twosizes_lt_iff:
  assumes "normal xp" "normal yp"
  shows "mpn_cmp_twosizes_lt xp yp \<longleftrightarrow> lval xp < lval yp"
proof -
  have lt: "lval a < lval b" if "length a < length b" "normal b" for a b
    using that by (intro lval_shorter_lt) (simp_all add: normal_def)
  consider "length xp < length yp" | "length yp < length xp" | "length xp = length yp" by linarith
  then show ?thesis
    using lt [of xp yp] lt [of yp xp] assms mpn_cmp_value [of "length xp" xp yp]
    by cases (auto simp: mpn_cmp_twosizes_lt_def sgn_if split: if_splits)
qed

lemma normal_product:
  assumes "normal up" "normal vp" "product_of up vp p"
  defines "tp \<equiv> take (length p - of_bool (last p = 0)) p"
  shows "normal tp" "lval tp = lval up * lval vp" "length tp \<le> length up + length vp"
    and "length tp = length up + length vp - of_bool (last p = 0)" 
proof -
  have p: "lval p = lval up * lval vp" "length p = length up + length vp" using assms(3) by (simp_all add: product_of_def)
  have pne: "p \<noteq> []" using p(2) assms(1) by (auto simp: normal_def)
  have l1: "1 \<le> length up" "1 \<le> length vp" using assms(1,2) by (auto simp: normal_def Suc_le_eq)
  have "B ^ (length p - 2) = B ^ (length up - 1) * B ^ (length vp - 1)"
    using p(2) l1 by (simp flip: power_add)
  also have "\<dots> \<le> lval p" unfolding p(1) using normal_bound [OF assms(1)] normal_bound [OF assms(2)] by (intro mult_mono) auto
  finally have b: "B ^ (length p - 2) \<le> lval p" .
  show "length tp \<le> length up + length vp" "length tp = length up + length vp - of_bool (last p = 0)"
    using p(2) by (simp_all add: tp_def)
  show v: "lval tp = lval up * lval vp"
    unfolding p(1) [symmetric] tp_def using pne lval_butlast_last [of p] by (auto simp: butlast_conv_take)
  show "normal tp"
  proof (cases "last p = 0")
    case False
    then show ?thesis using pne by (simp add: tp_def normal_def)
  next
    case True
    then have len: "length tp = length p - 1" by (simp add: tp_def)
    have ne: "tp \<noteq> []" using len p(2) l1 by auto
    show ?thesis
    proof (rule ccontr)
      assume "\<not> normal tp"
      then have "last tp = 0" using ne by (simp add: normal_def)
      then have "lval tp = lval (butlast tp)" using lval_butlast_last [OF ne] by simp
      also have "\<dots> < B ^ (length p - 2)" using lval_lt [of "butlast tp"] len by (simp add: eval_nat_numeral)
      finally show False using b v p(1) by simp
    qed
  qed
qed


lemma writes_add_abs:
  assumes room: "room st1 w (max (length wp) (length tp) + 1)" "\<And>x. x \<noteq> w \<Longrightarrow> vars st1 x = vars st x"
    and n: "normal wp" "normal tp"
    and up: "(up, vp) = (if length wp < length tp then (tp, wp) else (wp, tp))"
    and r: "r = mpn_add up vp" "k = int (length up) + of_bool (snd r \<noteq> 0)"
  shows "writes st (set_SIZ (put_limbs (put_limbs st1 w 0 (fst r)) w (length up) [snd r]) w (if s then - k else k)) w
    (if s then - (lval wp + lval tp) else lval wp + lval tp)"
proof -
  have o: "length vp \<le> length up" "lval up + lval vp = lval wp + lval tp" "normal up" "length up = max (length wp) (length tp)"
    using up n by (auto split: if_splits)
  have len: "length (fst r) = length up" using r o by simp
  have v: "lval (fst r) + B ^ length (fst r) * uint (snd r) = lval wp + lval tp"
    using mpn_add_value [OF o(1)] r len o(2) by simp
  have "B ^ (length up - 1) \<le> lval wp + lval tp"
    using normal_bound [OF o(3)] o(2) lval_nonneg [of vp] by linarith
  then have "writes st (set_SIZ (put_limbs (put_limbs st1 w 0 (fst r)) w (length (fst r)) [snd r]) w (if s then - k else k)) w
    (if s then - (lval wp + lval tp) else lval wp + lval tp)"
    using room o(4) len r(2) by (intro writes_carry [OF _ _ v]) simp_all
  then show ?thesis unfolding len .
qed

lemma writes_sub_abs:
  assumes room: "room st1 w (max (length wp) (length tp) + 1)" "\<And>x. x \<noteq> w \<Longrightarrow> vars st1 x = vars st x"
    and n: "normal wp" "normal tp" and lt: "lt = mpn_cmp_twosizes_lt wp tp"
    and up: "(up, vp) = (if lt then (tp, wp) else (wp, tp))"
    and st2: "st2 = put_limbs st1 w 0 (fst (mpn_sub up vp))" "k = int (mpn_normalize (PTR st2 w) (length up))"
  shows "writes st (set_SIZ st2 w (if s \<noteq> lt then - k else k)) w (if s then - (lval wp - lval tp) else lval wp - lval tp)"
proof -
  note lti = cmp_twosizes_lt_iff [OF n]
  have "length tp \<le> length wp" if "\<not> lt"
    using that lval_shorter_lt [of wp tp] n unfolding lt lti by (meson linorder_le_less_linear normal_def)
  moreover have "length wp \<le> length tp" if lt
    using that unfolding lt mpn_cmp_twosizes_lt_def by auto
  ultimately have o: "length vp \<le> length up" "lval vp \<le> lval up" "lval wp - lval tp = (if lt then - (lval up - lval vp) else lval up - lval vp)"
    "length up \<le> max (length wp) (length tp)"
    using up lt lti by (auto split: if_splits)
  have v: "lval (fst (mpn_sub up vp)) = lval up - lval vp" by (rule mpn_sub_exact [OF o(1,2)])
  have len: "length (fst (mpn_sub up vp)) = length up" using o(1) by simp
  have rm: "room st1 w (length (fst (mpn_sub up vp)))" using room(1) o(4) len by (simp add: room_def)
  have "writes st (set_SIZ st2 w (if s \<noteq> lt then - k else k)) w
      (if s \<noteq> lt then - lval (fst (mpn_sub up vp)) else lval (fst (mpn_sub up vp)))"
    unfolding st2 by (rule writes_normalized [OF rm room(2) len [symmetric] refl])
  then show ?thesis using o(3) v by (auto split: if_splits)
qed

lemma mpz_aorsmul_ordered:
  assumes cfg: "mul_config_ok cfg" and ok: "mpz_ok st w" "mpz_ok st x" "mpz_ok st y"
    and n: "SIZ st x \<noteq> 0" "SIZ st y \<noteq> 0" "ABSIZ st y \<le> ABSIZ st x" "ABSIZ st y \<noteq> 1"
  shows "writes st (mpz_aorsmul cfg st w x y sub) w (mpz_val st w + sg sub * (mpz_val st x * mpz_val st y))"
proof -
  let ?X = "mag st x" and ?Y = "mag st y" and ?W = "mag st w" and ?neg = "SIZ st w < 0"
  define sub' where "sub' = sg sub * sg (SIZ st y) * sg (SIZ st x)"
  define tp where "tp = mpn_mul cfg (x = y) ?X ?Y"
  define st1 where "st1 = MPZ_REALLOC st w (max (ABSIZ st w) (ABSIZ st x + ABSIZ st y) + 1)"
  define ts where "ts = ABSIZ st x + ABSIZ st y - of_bool (last tp = 0)"
  define T where "T = take ts tp"
  note len = length_mag [OF ok(1)] length_mag [OF ok(2)] length_mag [OF ok(3)]
  note vals = mpz_val_sg [OF ok(1)] mpz_val_sg [OF ok(2)] mpz_val_sg [OF ok(3)]
  have nX: "normal ?X" "normal ?Y" using normal_mag ok n by auto
  have p: "product_of ?X ?Y tp"
    unfolding tp_def by (rule mpn_mul_product [OF cfg]) (use nX len n in \<open>auto simp: normal_def\<close>)
  have lp: "length tp = ABSIZ st x + ABSIZ st y" using p len by (simp add: product_of_def)
  note t = normal_product [OF nX p, unfolded lp len, folded ts_def, folded T_def]
  have other: "z \<noteq> w \<Longrightarrow> vars st1 z = vars st z" for z by (simp add: st1_def)
  have room: "room st1 w (max (length ?W) (length T) + 1)" "room st1 w (length tp)"
    using ok(1) len t(3) lp by (auto simp: st1_def intro!: room_MPZ_REALLOC)
  have nABS: "\<not> \<bar>SIZ st y\<bar> > \<bar>SIZ st x\<bar>" using n(3) by (simp add: ABSIZ_def)
  have y1: "\<not> (SIZ st x = 0 \<or> SIZ st y = 0)" using n by simp
  have ptr: "take (ABSIZ st w) (PTR st1 w) = ?W" "take (ABSIZ st x) (PTR st1 x) = ?X" "take (ABSIZ st y) (PTR st1 y) = ?Y"
    unfolding st1_def using ok by (simp_all add: take_PTR_mag)
  have m: "mpz_aorsmul cfg st w x y sub =
      (if SIZ st w = 0 then set_SIZ (put_limbs st1 w 0 tp) w (if sub' * sg (SIZ st w) = 1 then int ts else - int ts)
       else if sub' * sg (SIZ st w) = 1 then
         (let (up, vp) = (if ABSIZ st w < ts then (T, ?W) else (?W, T)); r = mpn_add up vp;
              k = int (length up) + of_bool (snd r \<noteq> 0)
          in set_SIZ (put_limbs (put_limbs st1 w 0 (fst r)) w (length up) [snd r]) w (if 0 \<le> SIZ st w then k else - k))
       else
         (let lt = mpn_cmp_twosizes_lt ?W T; (up, vp) = (if lt then (T, ?W) else (?W, T));
              st2 = put_limbs st1 w 0 (fst (mpn_sub up vp)); k = int (mpn_normalize (PTR st2 w) (length up))
          in set_SIZ st2 w (if 0 \<le> (if lt then - SIZ st w else SIZ st w) then k else - k)))"
    unfolding mpz_aorsmul_def Let_def if_not_P [OF nABS] prod.case ABSIZ_def [symmetric] sg_xor_nonneg sg_xor
      if_not_P [OF y1] if_not_P [OF n(4)] st1_def [symmetric] ptr tp_def [symmetric] ts_def [symmetric]
      T_def [symmetric] sub'_def [symmetric] ..
  have sub1: "sub' = 1 \<or> sub' = - 1" by (auto simp: sub'_def sg_def)
  have val: "mpz_val st w + sg sub * (mpz_val st x * mpz_val st y)
      = sg (SIZ st w) * (lval ?W + sub' * sg (SIZ st w) * (lval ?X * lval ?Y))"
    unfolding vals sub'_def by (simp add: sg_def)
  show ?thesis
  proof (cases "SIZ st w = 0")
    case True
    have "writes st (set_SIZ (put_limbs st1 w 0 tp) w (if sub' = - 1 then - int ts else int ts)) w
        (if sub' = - 1 then - (lval ?X * lval ?Y) else lval ?X * lval ?Y)"
      by (rule writes_with_sign [where n = ts, OF room(2)])
        (use lp t(2) normal_bound [OF t(1)] t(4) other in \<open>simp_all add: T_def ts_def\<close>)
    then show ?thesis
      by (rule writes_eqI) (use True sub1 m val mag_eq_Nil_iff [OF ok(1)] in auto)
  next
    case False
    have nW: "normal ?W" by (rule normal_mag [OF ok(1) False])
    have lT: "(length ?W < length T) = (ABSIZ st w < ts)" using len t(4) by simp
    obtain up vp where a: "(up, vp) = (if length ?W < length T then (T, ?W) else (?W, T))" by metis
    note wa = writes_add_abs [OF room(1) other nW t(1) a refl refl, where s = ?neg]
    define lt where "lt = mpn_cmp_twosizes_lt ?W T"
    obtain up' vp' where b: "(up', vp') = (if lt then (T, ?W) else (?W, T))" by metis
    note wb = writes_sub_abs [OF room(1) other nW t(1) lt_def b refl refl, where s = ?neg]
    show ?thesis
    proof (cases "sub' * sg (SIZ st w) = 1")
      case True
      have "mpz_aorsmul cfg st w x y sub = set_SIZ (put_limbs (put_limbs st1 w 0 (fst (mpn_add up vp))) w (length up) [snd (mpn_add up vp)]) w
          (if ?neg then - (int (length up) + of_bool (snd (mpn_add up vp) \<noteq> 0)) else int (length up) + of_bool (snd (mpn_add up vp) \<noteq> 0))"
        unfolding m if_not_P [OF False] if_P [OF True] lT [symmetric] a [symmetric] Let_def prod.case by auto
      note e = this
      show ?thesis
        by (rule writes_eqI [OF wa e]) (simp, unfold val True t(2), simp add: sg_def)
    next
      case F: False
      then have s: "sub' * sg (SIZ st w) = - 1" using sub1 sg_cases [of "SIZ st w"] by auto
      let ?st2 = "put_limbs st1 w 0 (fst (mpn_sub up' vp'))"
      have "mpz_aorsmul cfg st w x y sub = set_SIZ ?st2 w
          (if ?neg \<noteq> lt then - int (mpn_normalize (PTR ?st2 w) (length up')) else int (mpn_normalize (PTR ?st2 w) (length up')))"
        unfolding m if_not_P [OF False] if_not_P [OF F] Let_def lt_def [symmetric] b [symmetric] prod.case
        using False by auto
      note e = this
      show ?thesis
        by (rule writes_eqI [OF wb e]) (simp, unfold val s t(2), simp add: sg_def)
    qed
  qed
qed

lemma mpz_aorsmul_swap:
  "\<bar>SIZ st x\<bar> < \<bar>SIZ st y\<bar> \<Longrightarrow> mpz_aorsmul cfg st w x y sub = mpz_aorsmul cfg st w y x sub"
  by (simp add: mpz_aorsmul_def Let_def disj_commute)

theorem mpz_aorsmul_writes:
  assumes cfg: "mul_config_ok cfg" and ok: "mpz_ok st w" "mpz_ok st x" "mpz_ok st y"
  shows "writes st (mpz_aorsmul cfg st w x y sub) w (mpz_val st w + sg sub * (mpz_val st x * mpz_val st y))"
proof -
  have ord: "writes st (mpz_aorsmul cfg st w x y sub) w (mpz_val st w + sg sub * (mpz_val st x * mpz_val st y))"
    if ok: "mpz_ok st w" "mpz_ok st x" "mpz_ok st y" and le: "\<bar>SIZ st y\<bar> \<le> \<bar>SIZ st x\<bar>" for x y
  proof -
    consider "SIZ st x = 0 \<or> SIZ st y = 0" | "SIZ st x \<noteq> 0" "ABSIZ st y = 1" | "SIZ st x \<noteq> 0" "SIZ st y \<noteq> 0" "ABSIZ st y \<noteq> 1"
      by blast
    then show ?thesis
    proof cases
      case 1
      then show ?thesis using ok(1) by (auto simp: mpz_aorsmul_def writes_def)
    next
      case 2
      have v: "uint (PTR st y ! 0) = lval (mag st y)" using mag_one_limb [OF ok(3) 2(2)] by simp
      show ?thesis
        by (rule writes_eqI [OF mpz_aorsmul_1_writes [OF ok(1,2), of "PTR st y ! 0" "sub XOR SIZ st y"]])
          (use 2 le v mpz_val_sg [OF ok(3)] in \<open>auto simp: mpz_aorsmul_def ABSIZ_def Let_def\<close>)
    next
      case 3
      then show ?thesis using le by (intro mpz_aorsmul_ordered [OF cfg ok]) (simp_all add: ABSIZ_def)
    qed
  qed
  show ?thesis
  proof (cases "\<bar>SIZ st y\<bar> \<le> \<bar>SIZ st x\<bar>")
    case False
    then show ?thesis using ord [OF ok(1,3,2)] mpz_aorsmul_swap [of st x y] by (simp add: mult.commute)
  qed (rule ord [OF ok])
qed

lemma mpz_addmul_writes:
  "mul_config_ok cfg \<Longrightarrow> mpz_ok st w \<Longrightarrow> mpz_ok st x \<Longrightarrow> mpz_ok st y \<Longrightarrow>
   writes st (mpz_addmul cfg st w x y) w (mpz_val st w + mpz_val st x * mpz_val st y)"
  using mpz_aorsmul_writes [of cfg st w x y 0] by (simp add: mpz_addmul_def)

lemma mpz_submul_writes:
  "mul_config_ok cfg \<Longrightarrow> mpz_ok st w \<Longrightarrow> mpz_ok st x \<Longrightarrow> mpz_ok st y \<Longrightarrow>
   writes st (mpz_submul cfg st w x y) w (mpz_val st w - mpz_val st x * mpz_val st y)"
  using mpz_aorsmul_writes [of cfg st w x y "- 1"] by (simp add: mpz_submul_def)

subsection \<open>Below the Toom range\<close>

lemma schoolbook_threshold: "mul_karatsuba_threshold (schoolbook_config cfg) = mul_karatsuba_threshold cfg"
  by (simp add: schoolbook_config_def)

lemma mpz_mul_below:
  assumes b: "below_toom cfg (ABSIZ st u + ABSIZ st v)" and ok: "mpz_ok st u" "mpz_ok st v"
  shows "mpz_mul (schoolbook_config cfg) st w u v = mpz_mul cfg st w u v"
proof -
  let ?U = "mag st u" and ?V = "mag st v"
  have l: "length ?U = ABSIZ st u" "length ?V = ABSIZ st v" using length_mag ok by auto
  have mul: "ABSIZ st v \<le> ABSIZ st u \<Longrightarrow> mpn_mul (schoolbook_config cfg) s ?U ?V = mpn_mul cfg s ?U ?V"
    "ABSIZ st u \<le> ABSIZ st v \<Longrightarrow> mpn_mul (schoolbook_config cfg) s ?V ?U = mpn_mul cfg s ?V ?U" for s
    using b by (auto intro!: mpn_mul_below simp: l add.commute)
  have sqr: "u = v \<Longrightarrow> mpn_sqr (schoolbook_config cfg) ?U = mpn_sqr cfg ?U"
    using b by (intro mpn_sqr_below) (simp add: l below_toom_def)
  show ?thesis
    unfolding mpz_mul_def Let_def schoolbook_threshold ABSIZ_def [symmetric] mag_def [symmetric]
    using mul sqr by (auto simp: mag_def [symmetric])
qed

theorem mpz_mul_below_writes:
  assumes "below_toom cfg (ABSIZ st u + ABSIZ st v)" "mpz_ok st w" "mpz_ok st u" "mpz_ok st v"
  shows "writes st (mpz_mul cfg st w u v) w (mpz_val st u * mpz_val st v)"
  using mpz_mul_writes [OF schoolbook_config_ok [OF assms(1)] assms(2-4)] mpz_mul_below [OF assms(1,3,4)] by simp

lemma mpz_aorsmul_below_ordered:
  assumes b: "below_toom cfg (ABSIZ st x + ABSIZ st y)" and ok: "mpz_ok st w" "mpz_ok st x" "mpz_ok st y"
    and le: "\<not> \<bar>SIZ st y\<bar> > \<bar>SIZ st x\<bar>"
  shows "mpz_aorsmul (schoolbook_config cfg) st w x y sub = mpz_aorsmul cfg st w x y sub"
proof -
  have "mpn_mul (schoolbook_config cfg) s (mag st x) (mag st y) = mpn_mul cfg s (mag st x) (mag st y)" for s
    using b le length_mag [OF ok(2)] length_mag [OF ok(3)]
    by (intro mpn_mul_below) (simp_all add: ABSIZ_def add.commute nat_le_eq_zle)
  then show ?thesis
    unfolding mpz_aorsmul_def Let_def if_not_P [OF le] prod.case ABSIZ_def [symmetric]
      take_PTR_mag [OF ok(1,2)] take_PTR_mag [OF ok(1,3)]
    by (simp only:)
qed

lemma mpz_aorsmul_below:
  assumes b: "below_toom cfg (ABSIZ st x + ABSIZ st y)" and ok: "mpz_ok st w" "mpz_ok st x" "mpz_ok st y"
  shows "mpz_aorsmul (schoolbook_config cfg) st w x y sub = mpz_aorsmul cfg st w x y sub"
proof (cases "\<bar>SIZ st x\<bar> < \<bar>SIZ st y\<bar>")
  case True
  show ?thesis
    unfolding mpz_aorsmul_swap [OF True]
    using b True by (intro mpz_aorsmul_below_ordered ok) (simp_all add: add.commute)
qed (rule mpz_aorsmul_below_ordered [OF b ok])

theorem mpz_aorsmul_below_writes:
  assumes "below_toom cfg (ABSIZ st x + ABSIZ st y)" "mpz_ok st w" "mpz_ok st x" "mpz_ok st y"
  shows "writes st (mpz_addmul cfg st w x y) w (mpz_val st w + mpz_val st x * mpz_val st y)"
    and "writes st (mpz_submul cfg st w x y) w (mpz_val st w - mpz_val st x * mpz_val st y)"
  using mpz_addmul_writes [OF schoolbook_config_ok [OF assms(1)] assms(2-4)]
    mpz_submul_writes [OF schoolbook_config_ok [OF assms(1)] assms(2-4)] mpz_aorsmul_below [OF assms]
  by (simp_all add: mpz_addmul_def mpz_submul_def)

end
