(* ===== verification/Mpz_Shift.thy ===== *)
theory Mpz_Shift
  imports Mpz_Arith Mpn_Bits
begin

text \<open>
  Multiplication and division by powers of two (\<^verbatim>\<open>mpz/mul_2exp.c\<close>, \<^verbatim>\<open>tdiv_q_2exp.c\<close>,
  \<^verbatim>\<open>tdiv_r_2exp.c\<close>, \<^verbatim>\<open>cfdiv_q_2exp.c\<close>, \<^verbatim>\<open>cfdiv_r_2exp.c\<close>), with truncation, floor and
  ceiling rounding. A bit count splits into whole limbs and a remainder below 64.
\<close>

subsection \<open>Operations\<close>

definition mpz_mul_2exp :: "store \<Rightarrow> var \<Rightarrow> var \<Rightarrow> nat \<Rightarrow> store" where
  "mpz_mul_2exp st w u cnt =
     (let usize = SIZ st u; abs_usize = nat \<bar>usize\<bar>
      in if usize = 0 then set_SIZ st w 0
         else
           (let limb_cnt = cnt div 64;
                wsize = abs_usize + limb_cnt + 1;
                st1 = MPZ_REALLOC st w wsize;
                wsize = abs_usize + limb_cnt;
                cnt = cnt mod 64;
                up = take abs_usize (PTR st1 u);
                (st2, wsize) =
                  (if cnt \<noteq> 0 then
                     (let r = mpn_lshift up cnt; wlimb = snd r;
                          st2 = put_limbs st1 w limb_cnt (fst r)
                      in if wlimb \<noteq> 0 then (put_limbs st2 w wsize [wlimb], wsize + 1) else (st2, wsize))
                   else (put_limbs st1 w limb_cnt up, wsize));
                st3 = put_limbs st2 w 0 (replicate limb_cnt 0)
            in set_SIZ st3 w (if usize \<ge> 0 then int wsize else - int wsize)))"

definition mpz_tdiv_q_2exp :: "store \<Rightarrow> var \<Rightarrow> var \<Rightarrow> nat \<Rightarrow> store" where
  "mpz_tdiv_q_2exp st w u cnt =
     (let usize = SIZ st u;
          limb_cnt = cnt div 64;
          wsize = \<bar>usize\<bar> - int limb_cnt
      in if wsize \<le> 0 then set_SIZ st w 0
         else
           (let wsize = nat wsize;
                st1 = MPZ_REALLOC st w wsize;
                up = take wsize (drop limb_cnt (PTR st1 u));
                cnt = cnt mod 64;
                (st2, wsize) =
                  (if cnt \<noteq> 0 then
                     (let st2 = put_limbs st1 w 0 (fst (mpn_rshift up cnt))
                      in (st2, wsize - of_bool (PTR st2 w ! (wsize - 1) = 0)))
                   else (put_limbs st1 w 0 up, wsize))
            in set_SIZ st2 w (if usize \<ge> 0 then int wsize else - int wsize)))"

definition mpz_tdiv_r_2exp :: "store \<Rightarrow> var \<Rightarrow> var \<Rightarrow> nat \<Rightarrow> store" where
  "mpz_tdiv_r_2exp st res inp cnt =
     (let in_size = nat \<bar>SIZ st inp\<bar>;
          limb_cnt = cnt div 64;
          in_ptr = PTR st inp;
          (st1, res_size, limb_cnt) =
            (if in_size > limb_cnt then
               (let x = in_ptr ! limb_cnt AND (push_bit (cnt mod 64) 1 - 1)
                in if x \<noteq> 0 then
                     (let res_size = limb_cnt + 1;
                          st1 = MPZ_REALLOC st res res_size
                      in (put_limbs st1 res limb_cnt [x], res_size, limb_cnt))
                   else
                     (let res_size = mpn_normalize in_ptr limb_cnt;
                          st1 = MPZ_REALLOC st res res_size
                      in (st1, res_size, res_size)))
             else (MPZ_REALLOC st res in_size, in_size, in_size));
          st2 = (if res \<noteq> inp then put_limbs st1 res 0 (take limb_cnt (PTR st1 inp)) else st1)
      in set_SIZ st2 res (if SIZ st2 inp \<ge> 0 then int res_size else - int res_size))"

text \<open>\<open>dir = 1\<close> rounds up, \<open>dir = - 1\<close> down.\<close>

fun round_loop :: "limb \<Rightarrow> limb list \<Rightarrow> limb" where
  "round_loop round [] = round"
| "round_loop round (x # up) = (if round = 0 then round_loop x up else round)"

definition cfdiv_q_round :: "store \<Rightarrow> var \<Rightarrow> nat \<Rightarrow> limb \<Rightarrow> store \<times> nat" where
  "cfdiv_q_round st w wsize round =
     (if round \<noteq> 0 then
        if wsize \<noteq> 0 then
          (let r = mpn_add_1 (take wsize (PTR st w)) 1; cy = snd r
           in (put_limbs (put_limbs st w 0 (fst r)) w wsize [cy], wsize + unat cy))
        else (put_limbs st w 0 [1], 1)
      else (st, wsize))"

definition cfdiv_q_2exp :: "store \<Rightarrow> var \<Rightarrow> var \<Rightarrow> nat \<Rightarrow> int \<Rightarrow> store" where
  "cfdiv_q_2exp st w u cnt dir =
     (let usize = SIZ st u; abs_usize = nat \<bar>usize\<bar>;
          limb_cnt = cnt div 64;
          wsize = int abs_usize - int limb_cnt
      in if wsize \<le> 0 then
           set_SIZ (put_limbs st w 0 [1]) w (if usize = 0 \<or> usize XOR dir < 0 then 0 else dir)
         else
           (let wsize = nat wsize;
                st1 = MPZ_REALLOC st w (wsize + 1);
                up = PTR st1 u;
                rmask = (if usize XOR dir \<ge> 0 then - 1 else 0 :: limb);
                round = (if rmask \<noteq> 0 then round_loop 0 (take limb_cnt up) else 0);
                cnt = cnt mod 64;
                (st2, round, wsize) =
                  (if cnt \<noteq> 0 then
                     (let r = mpn_rshift (take wsize (drop limb_cnt up)) cnt;
                          st2 = put_limbs st1 w 0 (fst r)
                      in (st2, round OR (rmask AND snd r), wsize - of_bool (PTR st2 w ! (wsize - 1) = 0)))
                   else (put_limbs st1 w 0 (take wsize (drop limb_cnt up)), round, wsize));
                (st3, wsize) = cfdiv_q_round st2 w wsize round
            in set_SIZ st3 w (if usize \<ge> 0 then int wsize else - int wsize)))"

definition mpz_cdiv_q_2exp :: "store \<Rightarrow> var \<Rightarrow> var \<Rightarrow> nat \<Rightarrow> store" where
  "mpz_cdiv_q_2exp st w u cnt = cfdiv_q_2exp st w u cnt 1"

definition mpz_fdiv_q_2exp :: "store \<Rightarrow> var \<Rightarrow> var \<Rightarrow> nat \<Rightarrow> store" where
  "mpz_fdiv_q_2exp st w u cnt = cfdiv_q_2exp st w u cnt (- 1)"

subsection \<open>Splitting a number at a bit\<close>

lemma pow2_split: "B ^ (cnt div 64) * 2 ^ (cnt mod 64) = 2 ^ cnt"
proof -
  have "B ^ (cnt div 64) * 2 ^ (cnt mod 64) = 2 ^ (64 * (cnt div 64) + cnt mod 64)"
    by (simp only: power_add power_mult B_def)
  then show ?thesis by simp
qed

lemma lval_div_2exp:
  assumes "cnt div 64 \<le> length xs"
  shows "lval xs div 2 ^ cnt = lval (drop (cnt div 64) xs) div 2 ^ (cnt mod 64)"
proof -
  have "lval xs div B ^ (cnt div 64) = lval (drop (cnt div 64) xs)"
  proof (rule zdiv_mod_unique(1))
    show "lval xs = lval (drop (cnt div 64) xs) * B ^ (cnt div 64) + lval (take (cnt div 64) xs)"
      using lval_split_at [OF assms] by (simp add: mult.commute)
    show "lval (take (cnt div 64) xs) < B ^ (cnt div 64)" by (rule lval_take_lt [OF assms])
  qed simp
  then show ?thesis
    unfolding pow2_split [of cnt, symmetric] by (simp add: zdiv_zmult2_eq)
qed

lemma lval_mod_2exp:
  assumes "cnt div 64 \<le> length xs"
  shows "lval xs mod 2 ^ cnt
    = lval (take (cnt div 64) xs) + B ^ (cnt div 64) * (lval (drop (cnt div 64) xs) mod 2 ^ (cnt mod 64))"
proof -
  let ?m = "cnt div 64" and ?c = "cnt mod 64"
  have "lval xs mod (B ^ ?m * 2 ^ ?c) = B ^ ?m * (lval xs div B ^ ?m mod 2 ^ ?c) + lval xs mod B ^ ?m"
    by (rule zmod_zmult2_eq) simp
  moreover have "lval xs div B ^ ?m = lval (drop ?m xs)" "lval xs mod B ^ ?m = lval (take ?m xs)"
    using zdiv_mod_unique [of "lval xs" "lval (drop ?m xs)" "B ^ ?m" "lval (take ?m xs)"]
      lval_split_at [OF assms] lval_take_lt [OF assms] by (simp_all add: mult.commute)
  ultimately show ?thesis unfolding pow2_split by simp
qed

lemma lval_small_2exp:
  assumes "length xs \<le> cnt div 64"
  shows "lval xs < 2 ^ cnt"
proof -
  have "lval xs < B ^ length xs" by simp
  also have "\<dots> \<le> B ^ (cnt div 64)" using assms by (intro power_increasing) auto
  also have "\<dots> \<le> B ^ (cnt div 64) * 2 ^ (cnt mod 64)" by simp
  finally show ?thesis unfolding pow2_split .
qed

subsection \<open>The contract of a shift\<close>

locale mpz_bitcnt =
  fixes op :: "store \<Rightarrow> var \<Rightarrow> var \<Rightarrow> nat \<Rightarrow> store" and f :: "int \<Rightarrow> nat \<Rightarrow> int"
  assumes op_writes:
    "mpz_ok st w \<Longrightarrow> mpz_ok st u \<Longrightarrow> writes st (op st w u cnt) w (f (mpz_val st u) cnt)"
begin

lemma op_keeps_ok: "mpz_ok st w \<Longrightarrow> mpz_ok st u \<Longrightarrow> mpz_ok st x \<Longrightarrow> mpz_ok (op st w u cnt) x"
  using op_writes writes_keeps(1) by blast

lemma op_in_place: "mpz_ok st w \<Longrightarrow> mpz_val (op st w w cnt) w = f (mpz_val st w) cnt"
  using op_writes writes_val by blast

lemma op_compose:
  assumes "mpz_ok st w" "mpz_ok st u"
  shows "mpz_val (op (op st w u m) w w n) w = f (f (mpz_val st u) m) n"
  using op_writes [OF assms] op_in_place [of "op st w u m" w n] by (simp add: writes_def)

end

subsection \<open>Multiplication\<close>

lemma mpz_mul_2exp_writes:
  assumes ok: "mpz_ok st w" "mpz_ok st u"
  shows "writes st (mpz_mul_2exp st w u cnt) w (mpz_val st u * 2 ^ cnt)"
proof (cases "SIZ st u = 0")
  case True
  then show ?thesis
    by (intro writes_eqI [OF set_SIZ_0_writes [OF ok(1)]]) (simp_all add: mpz_mul_2exp_def)
next
  case False
  let ?n = "ABSIZ st u" and ?m = "cnt div 64" and ?c = "cnt mod 64"
  let ?u = "mag st u" and ?st = "MPZ_REALLOC st w (ABSIZ st u + cnt div 64 + 1)"
  obtain xs cy where r: "(if ?c \<noteq> 0 then mpn_lshift ?u ?c else (?u, 0)) = (xs, cy)" by fastforce
  let ?zs = "replicate ?m 0 @ xs @ (if cy \<noteq> 0 then [cy] else [])"
  have n: "?n \<noteq> 0" using False by (simp add: ABSIZ_def)
  have lx: "length xs = ?n"
    using arg_cong [OF r, of "\<lambda>p. length (fst p)"] length_mag [OF ok(2)] by (simp split: if_splits)
  have "lval xs + B ^ ?n * uint cy = lval ?u * 2 ^ ?c"
    using mpn_lshift_value [of ?c ?u] length_mag [OF ok(2)] r by (auto split: if_splits)
  then have "B ^ ?m * (lval xs + B ^ ?n * uint cy) = lval ?u * 2 ^ cnt"
    unfolding pow2_split [of cnt, symmetric] by simp
  then have V: "lval ?zs = lval ?u * 2 ^ cnt"
    using lx by (auto simp: lval_append lval_replicate_0 limb_eq_0_iff)
  have "B ^ (length ?zs - 1) \<le> lval ?zs"
  proof (cases "cy = 0")
    case True
    have "B ^ (?m + ?n - 1) = B ^ (?n - 1) * B ^ ?m" using n by (simp flip: power_add)
    also have "\<dots> \<le> lval ?u * 2 ^ cnt"
      unfolding pow2_split [of cnt, symmetric] using mag_ge_pow [OF ok(2) n]
      by (intro mult_mono) auto
    finally show ?thesis using True lx V by simp
  next
    case False
    then show ?thesis by (intro lval_ge_of_last) auto
  qed
  then have main: "writes st (set_SIZ (put_limbs ?st w 0 ?zs) w
      (if SIZ st u < 0 then - int (if cy \<noteq> 0 then ?n + ?m + 1 else ?n + ?m)
       else int (if cy \<noteq> 0 then ?n + ?m + 1 else ?n + ?m))) w
      (if SIZ st u < 0 then - (lval ?u * 2 ^ cnt) else lval ?u * 2 ^ cnt)"
    using ok(1) lx V
    by (intro writes_with_sign [where n = "if cy \<noteq> 0 then ?n + ?m + 1 else ?n + ?m"])
      (auto intro: room_MPZ_REALLOC simp: add.commute)
  have "room ?st w (?n + ?m + 1)" using ok(1) by (intro room_MPZ_REALLOC) auto
  then have len: "?n + ?m + 1 \<le> length (PTR ?st w)" by (simp add: room_def)
  have puts: "put_limbs (put_limbs ?st w ?m xs) w 0 (replicate ?m 0) = put_limbs ?st w 0 (replicate ?m 0 @ xs)"
    "put_limbs (put_limbs (put_limbs ?st w ?m xs) w (?n + ?m) [cy]) w 0 (replicate ?m 0)
       = put_limbs ?st w 0 (replicate ?m 0 @ xs @ [cy])"
    using len lx put_limbs_prepend [of "replicate ?m 0" xs ?st w]
      put_limbs_prepend [of "replicate ?m 0" "xs @ [cy]" ?st w] put_limbs_append [of ?m xs ?st w "[cy]"]
    by (simp_all add: add.commute)
  show ?thesis
    by (rule writes_eqI [OF main])
      (unfold mpz_mul_2exp_def Let_def ABSIZ_def [symmetric] take_PTR_mag [OF ok],
        use False r lx puts in \<open>auto simp: mpz_val_with_sign [OF ok(2)] with_sign_def split: if_splits\<close>)
qed

interpretation mul_2exp: mpz_bitcnt mpz_mul_2exp "\<lambda>k cnt. k * 2 ^ cnt"
  by unfold_locales (rule mpz_mul_2exp_writes)

subsection \<open>Division with truncation\<close>

lemma drop_mag:
  assumes "mpz_ok st w" "mpz_ok st u"
  shows "take (ABSIZ st u - m) (drop m (PTR (MPZ_REALLOC st w k) u)) = drop m (mag st u)"
  using take_PTR_mag [OF assms(1,2), of k] by (metis drop_take)

lemma take_mag:
  assumes "mpz_ok st w" "mpz_ok st u" "k \<le> ABSIZ st u"
  shows "take k (PTR (MPZ_REALLOC st w j) u) = take k (mag st u)"
  using take_PTR_mag [OF assms(1,2), of j, symmetric] assms(3) by (simp add: min_def)

lemma drop_mag_ge:
  assumes "mpz_ok st u" "m < ABSIZ st u"
  shows "B ^ (ABSIZ st u - m - 1) \<le> lval (drop m (mag st u))"
proof -
  have len: "length (mag st u) = ABSIZ st u" by (rule length_mag [OF assms(1)])
  have "drop m (mag st u) \<noteq> []" "last (drop m (mag st u)) \<noteq> 0"
    using assms len last_mag_ne_0 [OF assms(1)] by (auto simp: ABSIZ_def)
  then show ?thesis using lval_ge_of_last [of "drop m (mag st u)"] len by simp
qed

lemma rshift_mag_ge:
  assumes "mpz_ok st u" "m < ABSIZ st u" "c < 64" "2 \<le> ABSIZ st u - m"
  shows "B ^ (ABSIZ st u - m - 2) \<le> lval (drop m (mag st u)) div 2 ^ c"
proof -
  obtain k where k: "ABSIZ st u - m = Suc (Suc k)" using assms(4) by (metis add_2_eq_Suc le_Suc_ex)
  have "B ^ k * 2 ^ c \<le> B ^ k * B"
    using assms(3) unfolding B_def by (intro mult_left_mono power_increasing) auto
  also have "\<dots> \<le> lval (drop m (mag st u))"
    using drop_mag_ge [OF assms(1,2)] k by (simp add: mult.commute)
  finally have "B ^ k * 2 ^ c div 2 ^ c \<le> lval (drop m (mag st u)) div 2 ^ c"
    by (intro zdiv_mono1) auto
  then show ?thesis using k by simp
qed

lemma rshift_drop_mag:
  assumes "mpz_ok st u" "cnt div 64 < ABSIZ st u" "cnt mod 64 \<noteq> 0"
  shows "lval (fst (mpn_rshift (drop (cnt div 64) (mag st u)) (cnt mod 64))) = lval (mag st u) div 2 ^ cnt"
  using assms mpn_rshift_div(1) [of "cnt mod 64" "drop (cnt div 64) (mag st u)"]
    lval_div_2exp [of cnt "mag st u"] by (simp add: length_mag)

lemma trunc_div_with_sign:
  "mpz_ok st u \<Longrightarrow> sgn (mpz_val st u) * (\<bar>mpz_val st u\<bar> div d) = with_sign (SIZ st u) (lval (mag st u) div d)"
  using lval_mag_abs [of st u] sgn_mpz_val [of st u]
  by (cases "SIZ st u" "0 :: int" rule: linorder_cases) (auto simp: with_sign_def)

lemma trunc_mod_with_sign:
  "mpz_ok st u \<Longrightarrow> sgn (mpz_val st u) * (\<bar>mpz_val st u\<bar> mod d) = with_sign (SIZ st u) (lval (mag st u) mod d)"
  using lval_mag_abs [of st u] sgn_mpz_val [of st u]
  by (cases "SIZ st u" "0 :: int" rule: linorder_cases) (auto simp: with_sign_def)

lemma mpz_tdiv_q_2exp_writes:
  assumes ok: "mpz_ok st w" "mpz_ok st u"
  shows "writes st (mpz_tdiv_q_2exp st w u cnt) w (sgn (mpz_val st u) * (\<bar>mpz_val st u\<bar> div 2 ^ cnt))"
proof -
  let ?n = "ABSIZ st u" and ?m = "cnt div 64" and ?c = "cnt mod 64" and ?u = "mag st u"
  note goal = trunc_div_with_sign [OF ok(2)] with_sign_def
  have abs: "\<bar>SIZ st u\<bar> = int ?n" by (simp add: ABSIZ_def)
  show ?thesis
  proof (cases "?n \<le> ?m")
    case True
    then have "lval ?u div 2 ^ cnt = 0"
      using lval_small_2exp [of ?u cnt] length_mag [OF ok(2)] by simp
    then show ?thesis using True
      by (intro writes_eqI [OF set_SIZ_0_writes [OF ok(1)]])
        (auto simp: mpz_tdiv_q_2exp_def goal abs Let_def)
  next
    case False
    let ?st = "MPZ_REALLOC st w (?n - ?m)"
    let ?up = "drop ?m ?u"
    have pos: "\<not> \<bar>SIZ st u\<bar> - int ?m \<le> 0" "nat (\<bar>SIZ st u\<bar> - int ?m) = ?n - ?m" using False abs by auto
    have up: "take (?n - ?m) (drop ?m (PTR ?st u)) = ?up" by (rule drop_mag [OF ok])
    have lu: "length ?up = ?n - ?m" by (simp add: length_mag [OF ok(2)])
    have room: "room ?st w (?n - ?m)" using ok(1) by (intro room_MPZ_REALLOC) auto
    note unf = mpz_tdiv_q_2exp_def Let_def pos(2) up if_not_P [OF pos(1)]
    show ?thesis
    proof (cases "?c = 0")
      case True
      have "writes st (set_SIZ (put_limbs ?st w 0 ?up) w
          (if SIZ st u < 0 then - int (?n - ?m) else int (?n - ?m))) w
          (if SIZ st u < 0 then - lval ?up else lval ?up)"
        using room lu drop_mag_ge [OF ok(2)] False
        by (intro writes_with_sign [where n = "?n - ?m"]) auto
      then show ?thesis
        by (rule writes_eqI)
          (unfold unf, use True False lval_div_2exp [of cnt ?u] in \<open>auto simp: goal length_mag [OF ok(2)]\<close>)
    next
      case c: False
      let ?xs = "fst (mpn_rshift ?up ?c)"
      have lx: "length ?xs = ?n - ?m" using lu by simp
      then have ne: "?xs \<noteq> []" using False by (metis diff_is_0_eq list.size(3))
      have v: "lval ?xs = lval ?u div 2 ^ cnt" using False c by (intro rshift_drop_mag [OF ok(2)]) auto
      have "B ^ (length ?xs - 2) \<le> lval ?xs" if "2 \<le> length ?xs"
        unfolding v lx using rshift_mag_ge [OF ok(2), of ?m ?c] False that lx lval_div_2exp [of cnt ?u]
        by (simp add: length_mag [OF ok(2)])
      then have "writes st (set_SIZ (put_limbs ?st w 0 ?xs) w
          (if SIZ st u < 0 then - int (?n - ?m - of_bool (PTR (put_limbs ?st w 0 ?xs) w ! (?n - ?m - 1) = 0))
           else int (?n - ?m - of_bool (PTR (put_limbs ?st w 0 ?xs) w ! (?n - ?m - 1) = 0)))) w
          (if SIZ st u < 0 then - lval ?xs else lval ?xs)"
        using room lu ne length_mag [OF ok(2)] by (intro writes_shrink_nat) auto
      then show ?thesis
        by (rule writes_eqI) (unfold unf v, use c False in \<open>auto simp: goal\<close>)
    qed
  qed
qed

interpretation tdiv_q_2exp: mpz_bitcnt mpz_tdiv_q_2exp "\<lambda>k cnt. sgn k * (\<bar>k\<bar> div 2 ^ cnt)"
  by unfold_locales (rule mpz_tdiv_q_2exp_writes)

lemma put_limbs_self: "k \<le> length (PTR st w) \<Longrightarrow> put_limbs st w 0 (take k (PTR st w)) = st"
  by (simp add: put_limbs_def set_var_def)

lemma low_mask_limb:
  "c < 64 \<Longrightarrow> uint (x AND (push_bit c 1 - 1)) = uint (x :: limb) mod 2 ^ c"
proof -
  have "x AND (push_bit c 1 - 1) = take_bit c x" by (simp add: take_bit_eq_mask mask_eq_exp_minus_1)
  then show ?thesis by (simp only: uint_take_limb)
qed

lemma lval_mod_pow: "c < 64 \<Longrightarrow> xs \<noteq> [] \<Longrightarrow> lval xs mod 2 ^ c = uint (hd xs) mod 2 ^ c"
proof (cases xs)
  case (Cons x ys)
  assume c: "c < 64"
  then have "B = 2 ^ c * 2 ^ (64 - c)" using pow_split [of c] by (simp add: mult.commute)
  then have "lval xs = uint x + 2 ^ c * (2 ^ (64 - c) * lval ys)"
    unfolding Cons by (metis lval.simps(2) mult.assoc)
  then have "lval xs mod 2 ^ c = uint x mod 2 ^ c" by (simp only: mod_mult_self2)
  then show ?thesis using Cons by simp
qed simp

lemma mag_mod_2exp:
  assumes "mpz_ok st u" "cnt div 64 < ABSIZ st u"
    and "x = PTR st u ! (cnt div 64) AND (push_bit (cnt mod 64) 1 - 1)"
  shows "lval (mag st u) mod 2 ^ cnt = lval (take (cnt div 64) (mag st u)) + B ^ (cnt div 64) * uint x"
proof -
  have len: "cnt div 64 < length (mag st u)" using assms by (simp add: length_mag)
  then have "hd (drop (cnt div 64) (mag st u)) = PTR st u ! (cnt div 64)"
    using assms by (simp add: hd_drop_conv_nth nth_mag)
  then show ?thesis
    using lval_mod_2exp [of cnt "mag st u"] lval_mod_pow [of "cnt mod 64" "drop (cnt div 64) (mag st u)"] len
    unfolding assms(3) by (subst low_mask_limb) simp_all
qed

lemma mpz_tdiv_r_2exp_writes:
  assumes ok: "mpz_ok st w" "mpz_ok st u"
  shows "writes st (mpz_tdiv_r_2exp st w u cnt) w (sgn (mpz_val st u) * (\<bar>mpz_val st u\<bar> mod 2 ^ cnt))"
proof -
  let ?n = "ABSIZ st u" and ?m = "cnt div 64" and ?c = "cnt mod 64" and ?u = "mag st u"
  let ?x = "PTR st u ! ?m AND (push_bit ?c 1 - 1)"
  have len: "length ?u = ?n" by (rule length_mag [OF ok(2)])
  have alloc: "?n \<le> length (PTR st u)" "length (PTR st u) = ALLOC st u" using ok(2) by (auto simp: mpz_ok_def)
  note goal = trunc_mod_with_sign [OF ok(2)] with_sign_def
  have tk: "take k (PTR (MPZ_REALLOC st w j) u) = take k ?u" if "k \<le> ?n" for k j
    using that by (rule take_mag [OF ok])
  have blk: "?n \<le> length (PTR (MPZ_REALLOC st w j) u)" for j
    using take_PTR_mag [OF ok, of j] len by (metis length_take min.cobounded1)
  text \<open>Storing \<open>xs\<close> of size \<open>k\<close>.\<close>
  have store: "writes st (set_SIZ (put_limbs (MPZ_REALLOC st w k) w 0 xs) w
      (if SIZ st u \<ge> 0 then int k else - int k)) w (with_sign (SIZ st u) (lval ?u mod 2 ^ cnt))"
    if "length xs = k" "lval xs = lval ?u mod 2 ^ cnt" "k \<noteq> 0 \<Longrightarrow> last xs \<noteq> 0" for xs k
    by (rule writes_eqI [OF writes_with_sign [where n = k and s = "SIZ st u < 0" and xs = xs
            and ?st1.0 = "MPZ_REALLOC st w k" and w = w and st = st, OF _ _ _ refl _ refl]])
      (use that ok(1) lval_ge_of_last [of xs] in \<open>auto intro: room_MPZ_REALLOC simp: with_sign_def\<close>)
  have copy: "(if w \<noteq> u then put_limbs st1 w 0 (take k (PTR st1 u)) else st1) = put_limbs st1 w 0 (take k (PTR st1 u))"
    if "k \<le> length (PTR st1 u)" for st1 k
    using that put_limbs_self [of k st1 u] by auto
  consider "?n \<le> ?m" | "?m < ?n" "?x \<noteq> 0" | "?m < ?n" "?x = 0" by linarith
  then show ?thesis
  proof cases
    case 1
    have "lval ?u mod 2 ^ cnt = lval ?u"
      using lval_small_2exp [of ?u cnt] 1 len by simp
    moreover have "?n \<noteq> 0 \<Longrightarrow> last ?u \<noteq> 0" using last_mag_ne_0 [OF ok(2)] by (simp add: ABSIZ_def)
    ultimately show ?thesis
      by (intro writes_eqI [OF store [of ?u ?n]])
        (use 1 len copy [OF blk, of "?n"] tk [of ?n] ok(1) in
          \<open>simp_all add: mpz_tdiv_r_2exp_def Let_def goal flip: ABSIZ_def\<close>)
  next
    case 2
    let ?xs = "take ?m ?u @ [?x]" and ?st = "MPZ_REALLOC st w (?m + 1)"
    have "room ?st w (?m + 1)" using ok(1) by (intro room_MPZ_REALLOC) auto
    then have lw: "?m + 1 \<le> length (PTR ?st w)" by (simp add: room_def)
    have p: "put_limbs (put_limbs ?st w ?m [?x]) w 0 (take ?m ?u) = put_limbs ?st w 0 ?xs"
      using put_limbs_prepend [of "take ?m ?u" "[?x]" ?st w] lw 2(1) len by simp
    have t: "take ?m (PTR (put_limbs ?st w ?m [?x]) u) = take ?m ?u"
      using tk [of ?m "?m + 1"] 2(1) lw by auto
    have l: "?m \<le> length (PTR (put_limbs ?st w ?m [?x]) u)"
      using blk [of "?m + 1"] 2(1) by auto
    have "lval ?xs = lval ?u mod 2 ^ cnt"
      using mag_mod_2exp [OF ok(2) 2(1) refl] 2(1) len by (simp add: lval_append)
    then have "writes st (set_SIZ (put_limbs ?st w 0 ?xs) w
      (if SIZ st u \<ge> 0 then int (?m + 1) else - int (?m + 1))) w (with_sign (SIZ st u) (lval ?u mod 2 ^ cnt))"
      using 2 len by (intro store) simp_all
    then show ?thesis
      by (rule writes_eqI)
        (unfold mpz_tdiv_r_2exp_def Let_def ABSIZ_def [symmetric] if_P [OF 2(1)] if_P [OF 2(2)] prod.case
            t p copy [OF l, unfolded t p], use ok(1) in \<open>simp_all add: goal\<close>)
  next
    case 3
    let ?k = "mpn_normalize (PTR st u) ?m"
    let ?st = "MPZ_REALLOC st w ?k" and ?xs = "take ?k ?u"
    have km: "?k \<le> ?m" by (rule mpn_normalize_le)
    have "lval (take ?k (PTR st u)) = lval (take ?m (PTR st u))"
      using 3(1) alloc by (intro mpn_normalize_value) auto
    then have v: "lval ?xs = lval ?u mod 2 ^ cnt"
      using mag_mod_2exp [OF ok(2) 3(1) refl] 3 km by (simp add: mag_def min_def)
    have last: "last ?xs \<noteq> 0" if "?k \<noteq> 0"
      using mpn_normalize_top [OF that] that km 3(1) len
      by (cases "?u = []") (auto simp: last_conv_nth nth_mag)
    have l: "?k \<le> length (PTR ?st u)" and t: "take ?k (PTR ?st u) = ?xs"
      using km 3(1) blk [of ?k] tk [of ?k ?k] by auto
    have "writes st (set_SIZ (put_limbs ?st w 0 ?xs) w
      (if SIZ st u \<ge> 0 then int ?k else - int ?k)) w (with_sign (SIZ st u) (lval ?u mod 2 ^ cnt))"
      using v last km 3(1) len by (intro store) simp_all
    then show ?thesis
      by (rule writes_eqI)
        (unfold mpz_tdiv_r_2exp_def Let_def ABSIZ_def [symmetric] if_P [OF 3(1)] 3(2) prod.case
            simp_thms if_False t copy [OF l, unfolded t], use ok(1) in \<open>simp_all add: goal\<close>)
  qed
qed

interpretation tdiv_r_2exp: mpz_bitcnt mpz_tdiv_r_2exp "\<lambda>k cnt. sgn k * (\<bar>k\<bar> mod 2 ^ cnt)"
  by unfold_locales (rule mpz_tdiv_r_2exp_writes)

subsection \<open>Division with rounding up or down\<close>

lemma round_loop_0_iff: "round_loop round xs = 0 \<longleftrightarrow> round = 0 \<and> lval xs = 0"
  by (induction xs arbitrary: round) (auto simp: limb_eq_0_iff add_nonneg_eq_0_iff)

lemma or_limb_0_iff: "a OR b = 0 \<longleftrightarrow> a = 0 \<and> b = (0 :: limb)"
  by (auto simp: bit_eq_iff bit_or_iff)

lemma mag_mod_2exp_0_iff:
  assumes "mpz_ok st u" "cnt div 64 \<le> ABSIZ st u"
  shows "lval (mag st u) mod 2 ^ cnt = 0 \<longleftrightarrow>
    lval (take (cnt div 64) (mag st u)) = 0 \<and> lval (drop (cnt div 64) (mag st u)) mod 2 ^ (cnt mod 64) = 0"
  using lval_mod_2exp [of cnt "mag st u"] assms B_pow_pos [of "cnt div 64"]
  by (auto simp: length_mag add_nonneg_eq_0_iff)

text \<open>
  The quotient of the magnitudes, plus one when the rounding direction agrees with the sign of
  the operand and something was shifted out, is the directed quotient.
\<close>

definition round_away :: "int \<Rightarrow> int \<Rightarrow> bool" where
  "round_away k dir \<longleftrightarrow> (k < 0) = (dir < 0)"

lemma div_directed:
  fixes k d :: int
  assumes "0 < d"
  shows "sgn k * (\<bar>k\<bar> div d + of_bool (round_away k (- 1) \<and> \<bar>k\<bar> mod d \<noteq> 0)) = k div d"
    and "sgn k * (\<bar>k\<bar> div d + of_bool (round_away k 1 \<and> \<bar>k\<bar> mod d \<noteq> 0)) = - (- k div d)"
proof -
  have neg: "- a div d = - (a div d) - of_bool (a mod d \<noteq> 0)" for a
    using assms zdiv_zminus1_eq_if [of d a] by simp
  consider "k < 0" | "k = 0" | "0 < k" by linarith
  then show "sgn k * (\<bar>k\<bar> div d + of_bool (round_away k (- 1) \<and> \<bar>k\<bar> mod d \<noteq> 0)) = k div d"
    by cases (use neg [of "- k"] in \<open>simp_all add: round_away_def\<close>)
  consider "k < 0" | "k = 0" | "0 < k" by linarith
  then show "sgn k * (\<bar>k\<bar> div d + of_bool (round_away k 1 \<and> \<bar>k\<bar> mod d \<noteq> 0)) = - (- k div d)"
    by cases (use neg [of k] in \<open>simp_all add: round_away_def\<close>)
qed

text \<open>Incrementing a stored quotient.\<close>

lemma writes_incr:
  assumes "room st1 w (Suc (length xs))" "\<And>x. x \<noteq> w \<Longrightarrow> vars st1 x = vars st x"
    and "n \<le> length xs" "n \<noteq> 0" "B ^ (n - 1) \<le> lval (take n xs)"
    and "r = mpn_add_1 (take n xs) 1" "k = int n + uint (snd r)"
  shows "writes st (set_SIZ (put_limbs (put_limbs (put_limbs st1 w 0 xs) w 0 (fst r)) w n [snd r]) w
           (if s then - k else k)) w (if s then - (lval (take n xs) + 1) else lval (take n xs) + 1)"
proof -
  have len: "length (fst r) = n" unfolding assms(6) using assms(3) by simp
  have ne: "take n xs \<noteq> []" using assms(3,4) by auto
  have "writes st (set_SIZ (put_limbs (put_limbs (put_limbs st1 w 0 xs) w 0 (fst r)) w (length (fst r)) [snd r]) w
           (if s then - k else k)) w (if s then - (lval (take n xs) + 1) else lval (take n xs) + 1)"
  proof (rule writes_carry)
    show "room (put_limbs st1 w 0 xs) w (Suc (length (fst r)))"
      using assms(1,3) len by (auto simp: room_def)
    show "lval (fst r) + B ^ length (fst r) * uint (snd r) = lval (take n xs) + 1"
      using mpn_add_1_value [OF ne, of 1] assms(3) len unfolding assms(6) by simp
    show "B ^ (length (fst r) - 1) \<le> lval (take n xs) + 1" using assms(5) len by simp
    show "(if s then - k else k) = (if s then - (int (length (fst r)) + of_bool (snd r \<noteq> 0))
        else int (length (fst r)) + of_bool (snd r \<noteq> 0))"
      using of_bool_limb_carry [OF mpn_add_1_carry [of "take n xs" 1]] len assms(6,7) by simp
  qed (use assms(2) in simp)
  then show ?thesis unfolding len .
qed

lemma writes_round:
  assumes room: "room st1 w (Suc (length xs))" and frame: "\<And>x. x \<noteq> w \<Longrightarrow> vars st1 x = vars st x"
    and n: "n \<le> length xs" "lval (take n xs) = q" "n \<noteq> 0 \<Longrightarrow> B ^ (n - 1) \<le> q"
    and st2: "st2 = put_limbs st1 w 0 xs"
    and p: "p = cfdiv_q_round st2 w n round"
  shows "writes st (set_SIZ (fst p) w (if s then - int (snd p) else int (snd p))) w
           (if s then - (q + of_bool (round \<noteq> 0)) else q + of_bool (round \<noteq> 0))"
proof -
  have tk: "take n (PTR st2 w) = take n xs" using n(1) by (simp add: st2)
  note p = p [unfolded cfdiv_q_round_def Let_def]
  consider "round = 0" | "round \<noteq> 0" "n \<noteq> 0" | "round \<noteq> 0" "n = 0" by auto
  then show ?thesis
  proof cases
    case 1
    have "writes st (set_SIZ (put_limbs st1 w 0 xs) w (if s then - int n else int n)) w (if s then - q else q)"
      using room frame n by (intro writes_with_sign) (auto simp: room_def)
    then show ?thesis by (rule writes_eqI) (use 1 p in \<open>simp_all add: st2\<close>)
  next
    case 2
    show ?thesis
      by (rule writes_eqI [OF writes_incr [OF room frame n(1) 2(2) _ refl refl, of s]])
        (use 2 n in \<open>simp_all add: p tk, simp_all add: st2\<close>)
  next
    case 3
    then have "q = 0" using n(2) by simp
    have "writes st (set_SIZ (put_limbs st2 w 0 [1]) w (if s then - of_bool ((1 :: limb) \<noteq> 0) else of_bool ((1 :: limb) \<noteq> 0))) w
        (if s then - uint (1 :: limb) else uint (1 :: limb))"
      using room frame by (intro writes_one_limb) (auto simp: room_def st2)
    then show ?thesis by (rule writes_eqI) (use 3 p \<open>q = 0\<close> in simp_all)
  qed
qed

lemma shrunk_size:
  assumes "xs \<noteq> []" "2 \<le> length xs \<Longrightarrow> B ^ (length xs - 2) \<le> lval xs"
    and "n = length xs - of_bool (last xs = 0)"
  shows "n \<le> length xs" "lval (take n xs) = lval xs" "n \<noteq> 0 \<Longrightarrow> B ^ (n - 1) \<le> lval xs"
proof -
  show "n \<le> length xs" using assms(3) by simp
  show "lval (take n xs) = lval xs"
    using assms(1,3) lval_butlast_last [of xs] by (auto simp: butlast_conv_take)
  show "B ^ (n - 1) \<le> lval xs" if "n \<noteq> 0"
    using that assms lval_ge_of_last [of xs] by (auto simp: numeral_2_eq_2 split: if_splits)
qed

lemma directed_with_sign:
  assumes "mpz_ok st u"
  shows "sgn (mpz_val st u) * (\<bar>mpz_val st u\<bar> div d + of_bool (round_away (mpz_val st u) dir \<and> \<bar>mpz_val st u\<bar> mod d \<noteq> 0))
    = with_sign (SIZ st u) (lval (mag st u) div d + of_bool (round_away (SIZ st u) dir \<and> lval (mag st u) mod d \<noteq> 0))"
proof -
  have "mpz_val st u < 0 \<longleftrightarrow> SIZ st u < 0" using sgn_mpz_val [OF assms] by (metis sgn_less)
  then show ?thesis
    using lval_mag_abs [OF assms] sgn_mpz_val [OF assms] mag_eq_Nil_iff [OF assms]
    by (cases "SIZ st u" "0 :: int" rule: linorder_cases)
      (auto simp: with_sign_def round_away_def)
qed

lemma cfdiv_q_2exp_writes:
  assumes ok: "mpz_ok st w" "mpz_ok st u" and dir: "dir = 1 \<or> dir = - 1"
  shows "writes st (cfdiv_q_2exp st w u cnt dir) w
    (sgn (mpz_val st u) * (\<bar>mpz_val st u\<bar> div 2 ^ cnt + of_bool (round_away (mpz_val st u) dir \<and> \<bar>mpz_val st u\<bar> mod 2 ^ cnt \<noteq> 0)))"
proof -
  let ?n = "ABSIZ st u" and ?m = "cnt div 64" and ?c = "cnt mod 64" and ?u = "mag st u"
  let ?away = "round_away (SIZ st u) dir"
  have len: "length ?u = ?n" by (rule length_mag [OF ok(2)])
  have away: "SIZ st u XOR dir < 0 \<longleftrightarrow> \<not> ?away" "0 \<le> SIZ st u XOR dir \<longleftrightarrow> ?away"
    using dir by (auto simp: round_away_def)
  show ?thesis unfolding directed_with_sign [OF ok(2)]
  proof (cases "?n \<le> ?m")
    case True
    then have U: "lval ?u div 2 ^ cnt = 0" "lval ?u mod 2 ^ cnt = lval ?u"
      using lval_small_2exp [of ?u cnt] len by simp_all
    have z: "lval ?u = 0 \<longleftrightarrow> SIZ st u = 0"
      using lval_mag_abs [OF ok(2)] mpz_val_eq_0_iff [OF ok(2)] by simp
    let ?k = "if SIZ st u = 0 \<or> SIZ st u XOR dir < 0 then 0 else dir"
    have w: "writes st (set_SIZ (put_limbs st w 0 [1]) w ?k) w (sgn ?k * lval (take (nat \<bar>?k\<bar>) [1]))"
      using ok(1) dir by (intro writes_put_result) (auto simp: mpz_ok_def)
    show "writes st (cfdiv_q_2exp st w u cnt dir) w
        (with_sign (SIZ st u) (lval ?u div 2 ^ cnt + of_bool (?away \<and> lval ?u mod 2 ^ cnt \<noteq> 0)))"
    proof (rule writes_eqI [OF w])
      show "cfdiv_q_2exp st w u cnt dir = set_SIZ (put_limbs st w 0 [1]) w ?k"
        using True by (simp add: cfdiv_q_2exp_def Let_def flip: ABSIZ_def)
      show "with_sign (SIZ st u) (lval ?u div 2 ^ cnt + of_bool (?away \<and> lval ?u mod 2 ^ cnt \<noteq> 0))
          = sgn ?k * lval (take (nat \<bar>?k\<bar>) [1])"
        unfolding U z away with_sign_def round_away_def using dir by auto
    qed
  next
    case False
    let ?st = "MPZ_REALLOC st w (?n - ?m + 1)"
    let ?up = "drop ?m ?u"
    let ?round = "if ?away then round_loop 0 (take ?m ?u) else 0"
    have pos: "\<not> int ?n - int ?m \<le> 0" "nat (int ?n - int ?m) = ?n - ?m" using False by auto
    have up: "take (?n - ?m) (drop ?m (PTR ?st u)) = ?up" by (rule drop_mag [OF ok])
    have tk: "take ?m (PTR ?st u) = take ?m ?u"
      using False by (intro take_mag [OF ok]) simp
    have lu: "length ?up = ?n - ?m" by (simp add: len)
    have room: "room ?st w (Suc (?n - ?m))" using ok(1) by (intro room_MPZ_REALLOC) auto
    have q: "lval ?u div 2 ^ cnt = lval ?up div 2 ^ ?c" using False len by (intro lval_div_2exp) simp
    have rnd: "?away \<and> lval ?u mod 2 ^ cnt \<noteq> 0 \<longleftrightarrow>
        ?away \<and> (lval (take ?m ?u) \<noteq> 0 \<or> lval ?up mod 2 ^ ?c \<noteq> 0)"
      using mag_mod_2exp_0_iff [OF ok(2), of cnt] False by auto
    have mask: "((if ?away then - 1 else 0 :: limb) \<noteq> 0) = ?away" by simp
    note unf = cfdiv_q_2exp_def Let_def ABSIZ_def [symmetric] pos(2) if_not_P [OF pos(1)] up tk away mask
    show "writes st (cfdiv_q_2exp st w u cnt dir) w
        (with_sign (SIZ st u) (lval ?u div 2 ^ cnt + of_bool (?away \<and> lval ?u mod 2 ^ cnt \<noteq> 0)))"
    proof (cases "?c = 0")
      case True
      let ?p = "cfdiv_q_round (put_limbs ?st w 0 ?up) w (?n - ?m) ?round"
      have w: "writes st (set_SIZ (fst ?p) w (if SIZ st u < 0 then - int (snd ?p) else int (snd ?p))) w
           (if SIZ st u < 0 then - (lval ?up + of_bool (?round \<noteq> 0)) else lval ?up + of_bool (?round \<noteq> 0))"
        using room lu drop_mag_ge [OF ok(2), of ?m] False
        by (intro writes_round [OF _ _ _ _ _ refl refl]) auto
      have "?round \<noteq> 0 \<longleftrightarrow> ?away \<and> lval ?u mod 2 ^ cnt \<noteq> 0"
        unfolding rnd using True by (simp add: round_loop_0_iff)
      moreover have "lval ?u div 2 ^ cnt = lval ?up" using q True by simp
      ultimately show ?thesis
        by (intro writes_eqI [OF w], unfold unf)
          (use True in \<open>simp_all add: with_sign_def split_beta\<close>)
    next
      case c: False
      let ?r = "mpn_rshift ?up ?c"
      let ?xs = "fst ?r" and ?round2 = "?round OR ((if ?away then - 1 else 0) AND snd ?r)"
      let ?st2 = "put_limbs ?st w 0 ?xs"
      let ?k = "?n - ?m - of_bool (PTR ?st2 w ! (?n - ?m - 1) = 0)"
      let ?p = "cfdiv_q_round ?st2 w ?k ?round2"
      have lx: "length ?xs = ?n - ?m" using lu by simp
      then have ne: "?xs \<noteq> []" using False by (metis diff_is_0_eq list.size(3))
      have v: "lval ?xs = lval ?u div 2 ^ cnt" using False c by (intro rshift_drop_mag [OF ok(2)]) auto
      have ge: "B ^ (length ?xs - 2) \<le> lval ?xs" if "2 \<le> length ?xs"
        unfolding v lx using rshift_mag_ge [OF ok(2), of ?m ?c] False that lx q by simp
      have "PTR ?st2 w ! (?n - ?m - 1) = last ?xs"
        by (rule nth_last_put [OF ne lx [symmetric]])
      then have k_eq: "?k = length ?xs - of_bool (last ?xs = 0)" unfolding lx by (simp only:)
      note k = shrunk_size [OF ne ge k_eq]
      have w: "writes st (set_SIZ (fst ?p) w (if SIZ st u < 0 then - int (snd ?p) else int (snd ?p))) w
           (if SIZ st u < 0 then - (lval ?xs + of_bool (?round2 \<noteq> 0)) else lval ?xs + of_bool (?round2 \<noteq> 0))"
        by (rule writes_round [OF _ _ k refl refl]) (use room lx in simp_all)
      have "?round2 \<noteq> 0 \<longleftrightarrow> ?away \<and> lval ?u mod 2 ^ cnt \<noteq> 0"
        unfolding rnd using c mpn_rshift_div(2) [of ?c ?up]
        by (simp add: or_limb_0_iff round_loop_0_iff)
      then show ?thesis
        by (intro writes_eqI [OF w], unfold unf v)
          (use c in \<open>simp_all add: with_sign_def split_beta\<close>)
    qed
  qed
qed

interpretation fdiv_q_2exp: mpz_bitcnt mpz_fdiv_q_2exp "\<lambda>k cnt. k div 2 ^ cnt"
  using cfdiv_q_2exp_writes [where dir = "- 1"] by unfold_locales (simp add: mpz_fdiv_q_2exp_def div_directed)

interpretation cdiv_q_2exp: mpz_bitcnt mpz_cdiv_q_2exp "\<lambda>k cnt. - (- k div 2 ^ cnt)"
  using cfdiv_q_2exp_writes [where dir = 1] by unfold_locales (simp add: mpz_cdiv_q_2exp_def div_directed)

subsection \<open>Directed remainder (cfdiv\_r\_2exp.c)\<close>

abbreviation LOW_MASK :: "nat \<Rightarrow> limb" where
  "LOW_MASK n \<equiv> push_bit n 1 - 1"

text \<open>The loop that strips high zero limbs, and the code after the label that masks and strips.\<close>

fun strip_loop :: "limb list \<Rightarrow> limb \<Rightarrow> nat \<Rightarrow> nat" where
  "strip_loop wp high 0 = (if high = 0 then 0 else 1)"
| "strip_loop wp high (Suc limb_cnt) =
     (if high = 0 then strip_loop wp (wp ! limb_cnt) limb_cnt else Suc limb_cnt + 1)"

definition cfdiv_r_mask :: "store \<Rightarrow> var \<Rightarrow> nat \<Rightarrow> nat \<Rightarrow> int \<Rightarrow> store" where
  "cfdiv_r_mask st w limb_cnt cnt usize =
     (let high = PTR st w ! limb_cnt AND LOW_MASK cnt;
          st1 = put_limbs st w limb_cnt [high];
          limb_cnt = int (strip_loop (PTR st1 w) high limb_cnt)
      in set_SIZ st1 w (if usize \<ge> 0 then limb_cnt else - limb_cnt))"

definition cfdiv_r_2exp :: "store \<Rightarrow> var \<Rightarrow> var \<Rightarrow> nat \<Rightarrow> int \<Rightarrow> store" where
  "cfdiv_r_2exp st w u cnt dir =
     (let usize = SIZ st u
      in if usize = 0 then set_SIZ st w 0
         else
           (let limb_cnt = cnt div 64; cnt = cnt mod 64; abs_usize = nat \<bar>usize\<bar>; up = PTR st u
            in if usize XOR dir < 0 then
                 if w = u then
                   if abs_usize \<le> limb_cnt then st else cfdiv_r_mask st w limb_cnt cnt usize
                 else
                   (let i = min abs_usize (limb_cnt + 1);
                        st1 = MPZ_REALLOC st w i;
                        st2 = put_limbs st1 w 0 (take i up)
                    in if abs_usize \<le> limb_cnt then set_SIZ st2 w usize
                       else cfdiv_r_mask st2 w limb_cnt cnt usize)
               else if abs_usize \<le> limb_cnt \<or> list_ex (\<lambda>x. x \<noteq> 0) (take limb_cnt up) \<or>
                       up ! limb_cnt AND LOW_MASK cnt \<noteq> 0 then
                 (let st1 = MPZ_REALLOC st w (limb_cnt + 1);
                      up = PTR st1 u;
                      i = min abs_usize (limb_cnt + 1);
                      st2 = put_limbs st1 w 0 (mpn_com_n (take i up));
                      st3 = put_limbs st2 w i (replicate (limb_cnt + 1 - i) (- 1));
                      st4 = put_limbs st3 w 0 (mpn_incr_u (take (limb_cnt + 1) (PTR st3 w)) 1)
                  in cfdiv_r_mask st4 w limb_cnt cnt (- usize))
               else set_SIZ st w 0))"

definition mpz_cdiv_r_2exp :: "store \<Rightarrow> var \<Rightarrow> var \<Rightarrow> nat \<Rightarrow> store" where
  "mpz_cdiv_r_2exp st w u cnt = cfdiv_r_2exp st w u cnt 1"

definition mpz_fdiv_r_2exp :: "store \<Rightarrow> var \<Rightarrow> var \<Rightarrow> nat \<Rightarrow> store" where
  "mpz_fdiv_r_2exp st w u cnt = cfdiv_r_2exp st w u cnt (- 1)"

lemma strip_loop_normalize: "high = wp ! n \<Longrightarrow> strip_loop wp high n = mpn_normalize wp (Suc n)"
  by (induction wp high n rule: strip_loop.induct) auto

lemma lval_take_mod_2exp:
  assumes "cnt div 64 < length xs" "x = xs ! (cnt div 64) AND LOW_MASK (cnt mod 64)"
  shows "lval (take (cnt div 64) xs @ [x]) = lval xs mod 2 ^ cnt"
proof -
  have "hd (drop (cnt div 64) xs) = xs ! (cnt div 64)" using assms by (simp add: hd_drop_conv_nth)
  then have "lval (drop (cnt div 64) xs) mod 2 ^ (cnt mod 64) = uint x"
    using lval_mod_pow [of "cnt mod 64" "drop (cnt div 64) xs"] assms(1)
    unfolding assms(2) by (subst low_mask_limb) simp_all
  then show ?thesis using lval_mod_2exp [of cnt xs] assms(1) by (simp add: lval_append min_def)
qed

lemma cfdiv_r_mask_writes:
  assumes "room st1 w (cnt div 64 + 1)" "\<And>x. x \<noteq> w \<Longrightarrow> vars st1 x = vars st x"
  shows "writes st (cfdiv_r_mask st1 w (cnt div 64) (cnt mod 64) usize) w
           (with_sign usize (lval (PTR st1 w) mod 2 ^ cnt))"
proof -
  let ?m = "cnt div 64" and ?d = "PTR st1 w"
  let ?high = "?d ! ?m AND LOW_MASK (cnt mod 64)"
  let ?xs = "take ?m ?d @ [?high]"
  have len: "?m < length ?d" using assms(1) by (simp add: room_def)
  have put: "put_limbs st1 w ?m [?high] = put_limbs st1 w 0 ?xs"
    using len by (simp add: put_limbs_def min_def)
  have strip: "strip_loop (PTR (put_limbs st1 w 0 ?xs) w) ?high ?m
      = mpn_normalize (PTR (put_limbs st1 w 0 ?xs) w) (length ?xs)"
    using len by (subst strip_loop_normalize) (simp_all add: nth_append min_def)
  have "writes st (set_SIZ (put_limbs st1 w 0 ?xs) w
      (if usize < 0 then - int (mpn_normalize (PTR (put_limbs st1 w 0 ?xs) w) (length ?xs))
       else int (mpn_normalize (PTR (put_limbs st1 w 0 ?xs) w) (length ?xs)))) w
      (if usize < 0 then - lval ?xs else lval ?xs)"
    using assms len by (intro writes_normalized) (auto simp: room_def)
  then show ?thesis
    unfolding lval_take_mod_2exp [OF len refl]
    by (rule writes_eqI) (unfold cfdiv_r_mask_def Let_def put strip, simp_all add: with_sign_def)
qed

text \<open>Limbs above the cut do not matter.\<close>

lemma pow2_dvd_pow_B: "(2 :: int) ^ cnt dvd B ^ Suc (cnt div 64)"
proof -
  have "B ^ Suc (cnt div 64) = 2 ^ (64 * Suc (cnt div 64))" by (simp only: power_mult B_def)
  moreover have "cnt \<le> 64 * Suc (cnt div 64)" by (simp add: less_imp_le)
  ultimately show ?thesis by (simp add: le_imp_power_dvd)
qed

lemma lval_take_cut_mod: "lval (take (Suc (cnt div 64)) xs) mod 2 ^ cnt = lval xs mod 2 ^ cnt"
proof (cases "Suc (cnt div 64) \<le> length xs")
  case True
  obtain q where "B ^ Suc (cnt div 64) = 2 ^ cnt * q" using pow2_dvd_pow_B [of cnt] by (auto elim: dvdE)
  then have "lval xs = lval (take (Suc (cnt div 64)) xs) + 2 ^ cnt * (q * lval (drop (Suc (cnt div 64)) xs))"
    using lval_split_at [OF True] by (simp only: mult.assoc)
  then show ?thesis by (metis mod_mult_self2)
qed simp

lemma cut_mod_cong:
  "take (cnt div 64 + 1) xs = take (cnt div 64 + 1) ys \<Longrightarrow> lval xs mod 2 ^ cnt = lval ys mod 2 ^ cnt"
  using lval_take_cut_mod [of cnt xs] lval_take_cut_mod [of cnt ys] by (metis Suc_eq_plus1)

text \<open>Two's complement of the low part, padded with ones.\<close>

lemma negated_low_part:
  assumes "xs \<noteq> []" "lval (take (Suc m) xs) \<noteq> 0"
  shows "lval (mpn_incr_u (mpn_com_n (take (Suc m) xs) @ replicate (Suc m - min (length xs) (Suc m)) (- 1)) 1)
           = B ^ Suc m - lval (take (Suc m) xs)"
proof -
  let ?i = "min (length xs) (Suc m)" and ?L = "lval (take (Suc m) xs)"
  have ones: "lval (replicate k (- 1)) = B ^ k - 1" for k
    using mpn_com_n_value [of "replicate k 0"] by (simp add: mpn_com_n_def lval_replicate_0)
  have "B ^ ?i * B ^ (Suc m - ?i) = B ^ Suc m" by (simp flip: power_add)
  then have v: "lval (mpn_com_n (take (Suc m) xs) @ replicate (Suc m - ?i) (- 1)) = B ^ Suc m - 1 - ?L"
    by (simp add: lval_append ones mpn_com_n_value right_diff_distrib)
  have pos: "0 < ?L" using assms(2) lval_nonneg [of "take (Suc m) xs"] by linarith
  show ?thesis
    by (subst mpn_incr_u_value) (use v pos in \<open>simp_all del: power_Suc add: v\<close>)
qed

lemma neg_mod_cut: "(B ^ Suc (cnt div 64) - lval (take (Suc (cnt div 64)) xs)) mod 2 ^ cnt = (- lval xs) mod 2 ^ cnt"
proof -
  obtain q where q: "B ^ Suc (cnt div 64) = 2 ^ cnt * q" using pow2_dvd_pow_B [of cnt] by (auto elim: dvdE)
  have "(B ^ Suc (cnt div 64) - lval (take (Suc (cnt div 64)) xs)) mod 2 ^ cnt
      = (- lval (take (Suc (cnt div 64)) xs)) mod 2 ^ cnt"
    unfolding q by (metis add.commute mod_mult_self2 uminus_add_conv_diff)
  also have "\<dots> = (- lval xs) mod 2 ^ cnt"
    using lval_take_cut_mod [of cnt xs] by (metis mod_minus_eq)
  finally show ?thesis .
qed

lemma mod_directed:
  fixes k d :: int
  assumes "0 < d"
  shows "(if round_away k (- 1) then - (sgn k * ((- \<bar>k\<bar>) mod d)) else sgn k * (\<bar>k\<bar> mod d)) = k mod d"
    and "(if round_away k 1 then - (sgn k * ((- \<bar>k\<bar>) mod d)) else sgn k * (\<bar>k\<bar> mod d)) = - (- k mod d)"
  by (cases k "0 :: int" rule: linorder_cases; simp add: round_away_def)+

lemma directed_mod_with_sign:
  assumes "mpz_ok st u"
  shows "(if round_away (mpz_val st u) dir then - (sgn (mpz_val st u) * ((- \<bar>mpz_val st u\<bar>) mod d))
          else sgn (mpz_val st u) * (\<bar>mpz_val st u\<bar> mod d))
    = (if round_away (SIZ st u) dir then with_sign (- SIZ st u) ((- lval (mag st u)) mod d)
       else with_sign (SIZ st u) (lval (mag st u) mod d))"
proof -
  have "mpz_val st u < 0 \<longleftrightarrow> SIZ st u < 0" using sgn_mpz_val [OF assms] by (metis sgn_less)
  then show ?thesis
    using lval_mag_abs [OF assms] sgn_mpz_val [OF assms] mag_eq_Nil_iff [OF assms]
    by (cases "SIZ st u" "0 :: int" rule: linorder_cases)
      (auto simp: with_sign_def round_away_def)
qed

lemma list_ex_nonzero_iff: "list_ex (\<lambda>x. x \<noteq> 0) xs \<longleftrightarrow> lval xs \<noteq> 0"
  by (induction xs) (auto simp: limb_eq_0_iff add_nonneg_eq_0_iff)

lemma must_negate_iff:
  assumes "mpz_ok st u" "SIZ st u \<noteq> 0"
  shows "ABSIZ st u \<le> cnt div 64 \<or> list_ex (\<lambda>x. x \<noteq> 0) (take (cnt div 64) (PTR st u)) \<or>
      PTR st u ! (cnt div 64) AND LOW_MASK (cnt mod 64) \<noteq> 0 \<longleftrightarrow> lval (mag st u) mod 2 ^ cnt \<noteq> 0"
proof (cases "ABSIZ st u \<le> cnt div 64")
  case True
  then show ?thesis
    using lval_small_2exp [of "mag st u" cnt] lval_mag_pos [OF assms] length_mag [OF assms(1)] by simp
next
  case False
  then have t: "take (cnt div 64) (PTR st u) = take (cnt div 64) (mag st u)" by (simp add: mag_def min_def)
  show ?thesis
    using mag_mod_2exp [OF assms(1) _ refl, of cnt] False B_pow_pos [of "cnt div 64"]
    unfolding t list_ex_nonzero_iff
    by (simp add: add_nonneg_eq_0_iff limb_eq_0_iff)
qed

lemma cfdiv_r_2exp_writes:
  assumes ok: "mpz_ok st w" "mpz_ok st u" and dir: "dir = 1 \<or> dir = - 1"
  shows "writes st (cfdiv_r_2exp st w u cnt dir) w
    (if round_away (mpz_val st u) dir then - (sgn (mpz_val st u) * ((- \<bar>mpz_val st u\<bar>) mod 2 ^ cnt))
     else sgn (mpz_val st u) * (\<bar>mpz_val st u\<bar> mod 2 ^ cnt))"
proof -
  let ?n = "ABSIZ st u" and ?m = "cnt div 64" and ?c = "cnt mod 64" and ?u = "mag st u"
  let ?away = "round_away (SIZ st u) dir"
  let ?i = "min ?n (?m + 1)"
  have len: "length ?u = ?n" by (rule length_mag [OF ok(2)])
  have away: "SIZ st u XOR dir < 0 \<longleftrightarrow> \<not> ?away" using dir by (auto simp: round_away_def)
  note unf = cfdiv_r_2exp_def Let_def ABSIZ_def [symmetric] away
  have ti: "take ?i (PTR st u) = take (?m + 1) ?u"
    by (simp add: mag_def min.commute)
  have "writes st (cfdiv_r_2exp st w u cnt dir) w
      (if ?away then with_sign (- SIZ st u) ((- lval ?u) mod 2 ^ cnt) else with_sign (SIZ st u) (lval ?u mod 2 ^ cnt))"
  proof -
    consider "SIZ st u = 0" | "SIZ st u \<noteq> 0" "\<not> ?away" "w = u" "?n \<le> ?m" | "SIZ st u \<noteq> 0" "\<not> ?away" "w = u" "?m < ?n"
      | "SIZ st u \<noteq> 0" "\<not> ?away" "w \<noteq> u" "?n \<le> ?m" | "SIZ st u \<noteq> 0" "\<not> ?away" "w \<noteq> u" "?m < ?n"
      | "SIZ st u \<noteq> 0" "?away" by linarith
    then show ?thesis
    proof cases
      case 1
      then have "lval ?u = 0" using mag_eq_Nil_iff [OF ok(2)] by simp
      then show ?thesis
        by (intro writes_eqI [OF set_SIZ_0_writes [OF ok(1)]]) (use 1 in \<open>simp_all add: cfdiv_r_2exp_def with_sign_def\<close>)
    next
      case 2
      then have "lval ?u mod 2 ^ cnt = lval ?u" using lval_small_2exp [of ?u cnt] len by simp
      moreover have w: "writes st st w (mpz_val st u)" using 2 ok by (simp add: writes_def)
      ultimately show ?thesis
        by (intro writes_eqI [OF w]) (unfold unf, use 2 in \<open>simp_all add: mpz_val_with_sign [OF ok(2)]\<close>)
    next
      case 3
      have "room st w (?m + 1)" using 3 ok(2) by (simp add: room_def mpz_ok_def)
      moreover have i: "?i = Suc ?m" using 3 by simp
      moreover have e: "lval (PTR st w) mod 2 ^ cnt = lval ?u mod 2 ^ cnt"
        using lval_take_cut_mod [of cnt "PTR st u"] lval_take_cut_mod [of cnt ?u] 3 ti [unfolded i] by simp
      ultimately show ?thesis
        by (intro writes_eqI [OF cfdiv_r_mask_writes
              [where cnt = cnt and usize = "SIZ st u" and ?st1.0 = st and st = st and w = w]])
          (unfold unf e, use 3 in simp_all)
    next
      case 4
      then have "lval ?u mod 2 ^ cnt = lval ?u" using lval_small_2exp [of ?u cnt] len by simp
      moreover have i: "?i = ?n" using 4 by simp
      ultimately show ?thesis
        by (intro writes_eqI [OF copy_writes [OF ok disjI1 [OF refl]]])
          (unfold unf i, use 4 in \<open>simp_all add: with_sign_def\<close>)
    next
      case 5
      let ?st = "put_limbs (MPZ_REALLOC st w (?m + 1)) w 0 (take (?m + 1) ?u)"
      have i: "?i = ?m + 1" using 5 by simp
      have "room (MPZ_REALLOC st w (?m + 1)) w (?m + 1)" using ok(1) by (intro room_MPZ_REALLOC) auto
      then have room: "room ?st w (?m + 1)" using 5 len by (intro room_put_limbs) auto
      have "take (?m + 1) (PTR ?st w) = take (?m + 1) ?u" using 5 len by simp
      then have e: "lval (PTR ?st w) mod 2 ^ cnt = lval ?u mod 2 ^ cnt" by (rule cut_mod_cong)
      show ?thesis using ti
        by (intro writes_eqI [OF cfdiv_r_mask_writes [OF room, where usize = "SIZ st u" and st = st]])
          (simp, unfold unf e, unfold i, use 5 in simp_all)
    next
      case 6
      note neg = must_negate_iff [OF ok(2) 6(1), of cnt]
      show ?thesis
      proof (cases "lval ?u mod 2 ^ cnt = 0")
        case True
        then have "(- lval ?u) mod 2 ^ cnt = 0" by (simp add: mod_eq_0_iff_dvd)
        then show ?thesis
          by (intro writes_eqI [OF set_SIZ_0_writes [OF ok(1)]])
            (unfold unf neg, use 6 True in \<open>simp_all add: with_sign_def\<close>)
      next
        case False
        let ?st1 = "MPZ_REALLOC st w (?m + 1)"
        let ?ys = "mpn_com_n (take (?m + 1) ?u) @ replicate (?m + 1 - ?i) (- 1)"
        let ?st3 = "put_limbs ?st1 w 0 ?ys"
        let ?st4 = "put_limbs ?st3 w 0 (mpn_incr_u ?ys 1)"
        have ly: "length ?ys = ?m + 1" using len by simp
        have t1: "take ?i (PTR ?st1 u) = take (?m + 1) ?u"
          using take_mag [OF ok, of ?i] len by (simp add: min_def)
        have room1: "room ?st1 w (?m + 1)" using ok(1) by (intro room_MPZ_REALLOC) auto
        have t3: "put_limbs (put_limbs ?st1 w 0 (mpn_com_n (take (?m + 1) ?u))) w ?i (replicate (?m + 1 - ?i) (- 1)) = ?st3"
        proof -
          have "?i = length (mpn_com_n (take (?m + 1) ?u))" "?i \<le> length (PTR ?st1 w)"
            using len room1 by (auto simp: room_def)
          then show ?thesis by (metis put_limbs_snoc)
        qed
        have t4: "take (?m + 1) (PTR ?st3 w) = ?ys"
          by (rule take_put_limbs [OF ly [symmetric]])
        have room4: "room ?st4 w (?m + 1)" using room1 ly by (intro room_put_limbs) auto
        have "lval (take (Suc ?m) ?u) \<noteq> 0"
          using False lval_take_cut_mod [of cnt ?u] by auto
        then have inc: "lval (mpn_incr_u ?ys 1) = B ^ Suc ?m - lval (take (Suc ?m) ?u)"
          using negated_low_part [of ?u ?m] mag_eq_Nil_iff [OF ok(2)] 6(1) len by simp
        have t5: "take (Suc ?m) (PTR ?st4 w) = mpn_incr_u ?ys 1"
          by (rule take_put_limbs) (unfold length_mpn_incr_u ly, simp)
        have v: "lval (PTR ?st4 w) mod 2 ^ cnt = (- lval ?u) mod 2 ^ cnt"
          by (rule trans [OF lval_take_cut_mod [symmetric]]) (unfold t5 inc, rule neg_mod_cut)
        show ?thesis
          by (rule writes_eqI [OF cfdiv_r_mask_writes [OF room4, where usize = "- SIZ st u" and st = st]])
            (simp, unfold unf neg t1 t3 t4 v, use 6 False in simp_all)
      qed
    qed
  qed
  then show ?thesis unfolding directed_mod_with_sign [OF ok(2)] .
qed

interpretation fdiv_r_2exp: mpz_bitcnt mpz_fdiv_r_2exp "\<lambda>k cnt. k mod 2 ^ cnt"
  using cfdiv_r_2exp_writes [where dir = "- 1"] by unfold_locales (simp add: mpz_fdiv_r_2exp_def mod_directed)

interpretation cdiv_r_2exp: mpz_bitcnt mpz_cdiv_r_2exp "\<lambda>k cnt. - (- k mod 2 ^ cnt)"
  using cfdiv_r_2exp_writes [where dir = 1] by unfold_locales (simp add: mpz_cdiv_r_2exp_def mod_directed)

end
