(* ===== verification/Mpz_Logic.thy ===== *)
theory Mpz_Logic
  imports Mpz_Shift
begin

text \<open>
  Bitwise operations on signed integers (\<^verbatim>\<open>mpz/and.c\<close>, \<^verbatim>\<open>ior.c\<close>, \<^verbatim>\<open>xor.c\<close>, \<^verbatim>\<open>com.c\<close>),
  which act as if negative numbers were in two's complement of infinite width. The code works
  on magnitudes through \<open>- x = NOT (x - 1)\<close>, with one branch for each combination of signs;
  the lemmas show that all branches compute the bitwise operation of the integers.
\<close>

subsection \<open>Loops shared by the three functions\<close>

text \<open>
  The downward loop that finds the size of a result, and the pair copy-high-part and
  combine-low-part, for operands \<open>op1\<close> at least as long as \<open>op2\<close>.
\<close>

fun find_size :: "(limb \<Rightarrow> limb \<Rightarrow> limb) \<Rightarrow> limb list \<Rightarrow> limb list \<Rightarrow> nat \<Rightarrow> nat" where
  "find_size f op1 op2 0 = 0"
| "find_size f op1 op2 (Suc i) = (if f (op1 ! i) (op2 ! i) \<noteq> 0 then Suc i else find_size f op1 op2 i)"

definition combine :: "(limb \<Rightarrow> limb \<Rightarrow> limb) \<Rightarrow> limb list \<Rightarrow> limb list \<Rightarrow> limb list" where
  "combine f op1 op2 = map2 f (take (length op2) op1) op2 @ drop (length op2) op1"

text \<open>The addition of one to the stored result, whose size grows with the carry.\<close>

definition add_one :: "store \<Rightarrow> var \<Rightarrow> nat \<Rightarrow> store \<times> nat" where
  "add_one st res res_size =
     (let r = mpn_add_1 (take res_size (PTR st res)) 1; cy = snd r;
          st1 = put_limbs st res 0 (fst r)
      in if cy \<noteq> 0 then (put_limbs st1 res res_size [cy], res_size + 1) else (st1, res_size))"

definition minus_one :: "store \<Rightarrow> var \<Rightarrow> nat \<Rightarrow> limb list" where
  "minus_one st u n = fst (mpn_sub_1 (take n (PTR st u)) 1)"

subsection \<open>Conjunction (and.c)\<close>

definition and_pos_pos :: "store \<Rightarrow> var \<Rightarrow> var \<Rightarrow> var \<Rightarrow> store" where
  "and_pos_pos st res op1 op2 =
     (let res_size = min (nat (SIZ st op1)) (nat (SIZ st op2));
          res_size = find_size (AND) (PTR st op1) (PTR st op2) res_size;
          st1 = MPZ_REALLOC st res res_size;
          st2 = set_SIZ st1 res (int res_size)
      in if res_size \<noteq> 0 then
           put_limbs st2 res 0 (mpn_and_n (take res_size (PTR st2 op1)) (take res_size (PTR st2 op2)))
         else st2)"

definition and_neg_neg :: "store \<Rightarrow> var \<Rightarrow> var \<Rightarrow> var \<Rightarrow> store" where
  "and_neg_neg st res op1 op2 =
     (let op1_size = nat (- SIZ st op1); op2_size = nat (- SIZ st op2);
          res_alloc = 1 + max op1_size op2_size;
          x1 = minus_one st op1 op1_size;
          x2 = minus_one st op2 op2_size;
          st1 = MPZ_REALLOC st res res_alloc;
          (st2, res_size) =
            (if op1_size \<ge> op2_size then (put_limbs st1 res 0 (combine (OR) x1 x2), op1_size)
             else (put_limbs st1 res 0 (combine (OR) x2 x1), op2_size));
          (st3, res_size) = add_one st2 res res_size
      in set_SIZ st3 res (- int res_size))"

definition and_pos_neg :: "store \<Rightarrow> var \<Rightarrow> var \<Rightarrow> var \<Rightarrow> store" where
  "and_pos_neg st res op1 op2 =
     (let op1_size = nat (SIZ st op1); op2_size = nat (- SIZ st op2);
          x2 = minus_one st op2 op2_size
      in if op1_size > op2_size then
           (let res_size = op1_size;
                st1 = MPZ_REALLOC st res res_size;
                st2 = put_limbs st1 res 0 (combine (\<lambda>a b. a AND NOT b) (take op1_size (PTR st1 op1)) x2)
            in set_SIZ st2 res (int res_size))
         else
           (let res_size = find_size (\<lambda>a b. a AND NOT b) (PTR st op1) x2 op1_size;
                st1 = MPZ_REALLOC st res res_size;
                st2 = put_limbs st1 res 0 (mpn_andn_n (take res_size (PTR st1 op1)) (take res_size x2))
            in set_SIZ st2 res (int res_size)))"

definition mpz_and :: "store \<Rightarrow> var \<Rightarrow> var \<Rightarrow> var \<Rightarrow> store" where
  "mpz_and st res op1 op2 =
     (if SIZ st op1 \<ge> 0 then
        if SIZ st op2 \<ge> 0 then and_pos_pos st res op1 op2 else and_pos_neg st res op1 op2
      else
        if SIZ st op2 < 0 then and_neg_neg st res op1 op2 else and_pos_neg st res op2 op1)"

subsection \<open>Disjunction (ior.c)\<close>

definition ior_pos_pos :: "store \<Rightarrow> var \<Rightarrow> var \<Rightarrow> var \<Rightarrow> store" where
  "ior_pos_pos st res op1 op2 =
     (let op1_size = nat (SIZ st op1); op2_size = nat (SIZ st op2)
      in if op1_size \<ge> op2_size then
           (let st1 = MPZ_REALLOC st res op1_size;
                st2 = put_limbs st1 res 0 (combine (OR) (take op1_size (PTR st1 op1)) (take op2_size (PTR st1 op2)))
            in set_SIZ st2 res (int op1_size))
         else
           (let st1 = MPZ_REALLOC st res op2_size;
                st2 = put_limbs st1 res 0 (combine (OR) (take op2_size (PTR st1 op2)) (take op1_size (PTR st1 op1)))
            in set_SIZ st2 res (int op2_size)))"

definition ior_neg_neg :: "store \<Rightarrow> var \<Rightarrow> var \<Rightarrow> var \<Rightarrow> store" where
  "ior_neg_neg st res op1 op2 =
     (let op1_size = nat (- SIZ st op1); op2_size = nat (- SIZ st op2);
          res_size = min op1_size op2_size;
          x1 = minus_one st op1 res_size;
          x2 = minus_one st op2 res_size;
          st1 = MPZ_REALLOC st res res_size;
          res_size = find_size (AND) x1 x2 res_size;
          (st3, res_size) =
            (if res_size \<noteq> 0 then
               add_one (put_limbs st1 res 0 (mpn_and_n (take res_size x1) (take res_size x2))) res res_size
             else (put_limbs st1 res 0 [1], 1))
      in set_SIZ st3 res (- int res_size))"

definition ior_pos_neg :: "store \<Rightarrow> var \<Rightarrow> var \<Rightarrow> var \<Rightarrow> store" where
  "ior_pos_neg st res op1 op2 =
     (let op1_size = nat (SIZ st op1); op2_size = nat (- SIZ st op2);
          res_alloc = op2_size;
          x2 = minus_one st op2 op2_size;
          op2_size = op2_size - of_bool (x2 ! (op2_size - 1) = 0);
          st1 = MPZ_REALLOC st res res_alloc;
          up = take op1_size (PTR st1 op1);
          (st2, res_size) =
            (if op1_size \<ge> op2_size then
               (let res_size = find_size (\<lambda>a b. NOT a AND b) up x2 op2_size
                in (put_limbs st1 res 0 (mpn_andn_n (take res_size x2) (take res_size up)), res_size))
             else (put_limbs st1 res 0 (combine (\<lambda>b a. NOT a AND b) (take op2_size x2) up), op2_size));
          (st3, res_size) =
            (if res_size \<noteq> 0 then add_one st2 res res_size else (put_limbs st2 res 0 [1], 1))
      in set_SIZ st3 res (- int res_size))"

definition mpz_ior :: "store \<Rightarrow> var \<Rightarrow> var \<Rightarrow> var \<Rightarrow> store" where
  "mpz_ior st res op1 op2 =
     (if SIZ st op1 \<ge> 0 then
        if SIZ st op2 \<ge> 0 then ior_pos_pos st res op1 op2 else ior_pos_neg st res op1 op2
      else
        if SIZ st op2 < 0 then ior_neg_neg st res op1 op2 else ior_pos_neg st res op2 op1)"

subsection \<open>Exclusive disjunction (xor.c)\<close>

definition xor_pos_pos :: "store \<Rightarrow> var \<Rightarrow> var \<Rightarrow> var \<Rightarrow> store" where
  "xor_pos_pos st res op1 op2 =
     (let op1_size = nat (SIZ st op1); op2_size = nat (SIZ st op2)
      in if op1_size \<ge> op2_size then
           (let st1 = MPZ_REALLOC st res op1_size;
                st2 = put_limbs st1 res 0 (combine (XOR) (take op1_size (PTR st1 op1)) (take op2_size (PTR st1 op2)))
            in set_SIZ st2 res (int (mpn_normalize (PTR st2 res) op1_size)))
         else
           (let st1 = MPZ_REALLOC st res op2_size;
                st2 = put_limbs st1 res 0 (combine (XOR) (take op2_size (PTR st1 op2)) (take op1_size (PTR st1 op1)))
            in set_SIZ st2 res (int (mpn_normalize (PTR st2 res) op2_size))))"

definition xor_neg_neg :: "store \<Rightarrow> var \<Rightarrow> var \<Rightarrow> var \<Rightarrow> store" where
  "xor_neg_neg st res op1 op2 =
     (let op1_size = nat (- SIZ st op1); op2_size = nat (- SIZ st op2);
          x1 = minus_one st op1 op1_size;
          x2 = minus_one st op2 op2_size;
          st1 = MPZ_REALLOC st res (max op1_size op2_size);
          (st2, res_size) =
            (if op1_size > op2_size then (put_limbs st1 res 0 (combine (XOR) x1 x2), op1_size)
             else (put_limbs st1 res 0 (combine (XOR) x2 x1), op2_size))
      in set_SIZ st2 res (int (mpn_normalize (PTR st2 res) res_size)))"

definition xor_pos_neg :: "store \<Rightarrow> var \<Rightarrow> var \<Rightarrow> var \<Rightarrow> store" where
  "xor_pos_neg st res op1 op2 =
     (let op1_size = nat (SIZ st op1); op2_size = nat (- SIZ st op2);
          x2 = minus_one st op2 op2_size;
          st1 = MPZ_REALLOC st res (max op1_size op2_size + 1);
          up = take op1_size (PTR st1 op1);
          (st2, res_size) =
            (if op1_size > op2_size then (put_limbs st1 res 0 (combine (XOR) up x2), op1_size)
             else (put_limbs st1 res 0 (combine (XOR) x2 up), op2_size));
          (st3, res_size) = add_one st2 res res_size
      in set_SIZ st3 res (- int (mpn_normalize (PTR st3 res) res_size)))"

definition mpz_xor :: "store \<Rightarrow> var \<Rightarrow> var \<Rightarrow> var \<Rightarrow> store" where
  "mpz_xor st res op1 op2 =
     (if SIZ st op1 \<ge> 0 then
        if SIZ st op2 \<ge> 0 then xor_pos_pos st res op1 op2 else xor_pos_neg st res op1 op2
      else
        if SIZ st op2 < 0 then xor_neg_neg st res op1 op2 else xor_pos_neg st res op2 op1)"

subsection \<open>Complement (com.c)\<close>

definition mpz_com :: "store \<Rightarrow> var \<Rightarrow> var \<Rightarrow> store" where
  "mpz_com st dst src =
     (let size = SIZ st src
      in if size \<ge> 0 then
           (let n = nat size; st1 = MPZ_REALLOC st dst (n + 1)
            in if n = 0 then set_SIZ (put_limbs st1 dst 0 [1]) dst (- 1)
               else
                 (let r = mpn_add_1 (take n (PTR st1 src)) 1; cy = snd r;
                      st2 = put_limbs st1 dst 0 (fst r);
                      (st3, n) = (if cy \<noteq> 0 then (put_limbs st2 dst n [cy], n + 1) else (st2, n))
                  in set_SIZ st3 dst (- int n)))
         else
           (let n = nat (- size); st1 = MPZ_REALLOC st dst n;
                st2 = put_limbs st1 dst 0 (fst (mpn_sub_1 (take n (PTR st1 src)) 1))
            in set_SIZ st2 dst (int (n - of_bool (PTR st2 dst ! (n - 1) = 0)))))"

subsection \<open>Values of the loops\<close>

lemma find_size_normalize:
  "n \<le> length xs \<Longrightarrow> n \<le> length ys \<Longrightarrow> find_size f xs ys n = mpn_normalize (map2 f xs ys) n"
  by (induction n) auto

lemma find_size_spec:
  assumes "n \<le> length xs" "n \<le> length ys" "k = find_size f xs ys n"
  shows "k \<le> n" "lval (map2 f (take k xs) (take k ys)) = lval (map2 f (take n xs) (take n ys))"
    and "k \<noteq> 0 \<Longrightarrow> last (map2 f (take k xs) (take k ys)) \<noteq> 0"
proof -
  have k: "k = mpn_normalize (map2 f xs ys) n" using assms find_size_normalize by simp
  show "k \<le> n" unfolding k by (rule mpn_normalize_le)
  have t: "map2 f (take j xs) (take j ys) = take j (map2 f xs ys)" for j
    by (simp add: take_map take_zip)
  show "lval (map2 f (take k xs) (take k ys)) = lval (map2 f (take n xs) (take n ys))"
    unfolding t k using assms(1,2) by (intro mpn_normalize_value) simp
  show "last (map2 f (take k xs) (take k ys)) \<noteq> 0" if "k \<noteq> 0"
  proof -
    have "(map2 f xs ys) ! (k - 1) \<noteq> 0" using mpn_normalize_top that unfolding k by blast
    moreover have "last (take k (map2 f xs ys)) = (map2 f xs ys) ! (k - 1)"
      using that \<open>k \<le> n\<close> assms(1,2) by (subst last_conv_nth) auto
    ultimately show ?thesis unfolding t by simp
  qed
qed

lemma length_combine [simp]: "length op2 \<le> length op1 \<Longrightarrow> length (combine f op1 op2) = length op1"
  by (simp add: combine_def)

lemma combine_eq_map2:
  assumes "length op2 \<le> length op1" "\<And>a. f a 0 = a"
  shows "combine f op1 op2 = map2 f op1 (op2 @ replicate (length op1 - length op2) 0)"
proof -
  let ?n = "length op2"
  have d: "map2 f (drop ?n op1) (replicate (length op1 - ?n) 0) = drop ?n op1"
    using assms(2) by (intro nth_equalityI) auto
  have "map2 f op1 (op2 @ replicate (length op1 - ?n) 0)
      = map2 f (take ?n op1 @ drop ?n op1) (op2 @ replicate (length op1 - ?n) 0)" by simp
  also have "\<dots> = map2 f (take ?n op1) op2 @ map2 f (drop ?n op1) (replicate (length op1 - ?n) 0)"
    using assms(1) by (subst zip_append) simp_all
  finally show ?thesis unfolding d combine_def by simp
qed

lemma lval_combine:
  assumes f: "\<And>a b i. bit (f a b :: limb) i \<longleftrightarrow> i < 64 \<and> P (bit a i) (bit b i)"
    and g: "\<And>a b i. bit (g a b :: int) i \<longleftrightarrow> P (bit a i) (bit b i)"
    and P: "P True False" "\<not> P False False" and len: "length op2 \<le> length op1"
  shows "lval (combine f op1 op2) = g (lval op1) (lval op2)"
proof -
  have "f a 0 = a" for a
  proof (rule bit_eqI)
    fix n
    show "bit (f a 0) n \<longleftrightarrow> bit a n"
      using f [of a 0 n] P by (cases "bit a n") (auto dest: bit_imp_le_length)
  qed
  then have "lval (combine f op1 op2) = lval (map2 f op1 (op2 @ replicate (length op1 - length op2) 0))"
    using combine_eq_map2 [OF len] by simp
  also have "\<dots> = g (lval op1) (lval (op2 @ replicate (length op1 - length op2) 0))"
    using len by (intro lval_map2_op [of f P g, OF f g P(2)]) simp
  finally show ?thesis by (simp add: lval_append lval_replicate_0)
qed

lemma lval_combine_or: "length op2 \<le> length op1 \<Longrightarrow> lval (combine (OR) op1 op2) = lval op1 OR lval op2"
  by (rule lval_combine [where P = "\<lambda>a b. a \<or> b"]) (auto simp: bit_simps dest: bit_imp_le_length)

lemma lval_combine_xor: "length op2 \<le> length op1 \<Longrightarrow> lval (combine (XOR) op1 op2) = lval op1 XOR lval op2"
  by (rule lval_combine [where P = "\<lambda>a b. a \<noteq> b"]) (auto simp: bit_simps dest: bit_imp_le_length)

lemma lval_combine_andn:
  "length op2 \<le> length op1 \<Longrightarrow> lval (combine (\<lambda>a b. a AND NOT b) op1 op2) = lval op1 AND NOT (lval op2)"
  by (rule lval_combine [where P = "\<lambda>a b. a \<and> \<not> b"]) (auto simp: bit_simps dest: bit_imp_le_length)

lemma lval_combine_nand:
  "length op2 \<le> length op1 \<Longrightarrow> lval (combine (\<lambda>b a. NOT a AND b) op1 op2) = lval op1 AND NOT (lval op2)"
  by (rule lval_combine [where P = "\<lambda>a b. a \<and> \<not> b"]) (auto simp: bit_simps dest: bit_imp_le_length)

text \<open>Truncation of a vector keeps its low bits.\<close>

lemma B_pow_2: "B ^ n = 2 ^ (64 * n)"
  by (simp only: B_def power_mult)

lemma lval_take_bit: "lval (take n xs) = take_bit (64 * n) (lval xs)"
proof (cases "n \<le> length xs")
  case True
  have "lval xs mod B ^ n = lval (take n xs)"
    using zdiv_mod_unique(2) [of "lval xs" "lval (drop n xs)" "B ^ n" "lval (take n xs)"]
      lval_split_at [OF True] lval_take_lt [OF True] by (simp add: mult.commute)
  then show ?thesis by (simp add: take_bit_eq_mod B_pow_2)
next
  case False
  have "lval xs < B ^ length xs" by simp
  also have "\<dots> \<le> B ^ n" using False by (intro power_increasing) auto
  finally show ?thesis using False by (simp add: take_bit_int_eq_self B_pow_2)
qed

lemma take_bit_lval: "length xs \<le> n \<Longrightarrow> take_bit (64 * n) (lval xs) = lval xs"
  using lval_take_bit [of n xs] by simp

lemma lval_and_take:
  assumes "length ys \<le> n"
  shows "lval (take n xs) AND lval ys = lval xs AND lval ys"
proof -
  have "lval (take n xs) AND lval ys = take_bit (64 * n) (lval xs) AND take_bit (64 * n) (lval ys)"
    using take_bit_lval [OF assms] by (simp add: lval_take_bit)
  also have "\<dots> = take_bit (64 * n) (lval ys) AND lval xs"
    by (rule bit_eqI) (auto simp: bit_simps)
  finally show ?thesis using take_bit_lval [OF assms] by (simp add: and.commute)
qed

lemma lval_andn_take:
  assumes "length xs \<le> n"
  shows "lval xs AND NOT (lval (take n ys)) = lval xs AND NOT (lval ys)"
proof -
  have "lval xs AND NOT (lval (take n ys)) = take_bit (64 * n) (lval xs) AND NOT (take_bit (64 * n) (lval ys))"
    using take_bit_lval [OF assms] by (simp add: lval_take_bit)
  also have "\<dots> = take_bit (64 * n) (lval xs) AND NOT (lval ys)"
    by (rule bit_eqI) (auto simp: bit_simps)
  finally show ?thesis using take_bit_lval [OF assms] by simp
qed

subsection \<open>Operands and results\<close>

lemma pos_operand:
  assumes "mpz_ok st u" "0 \<le> SIZ st u"
  shows "nat (SIZ st u) = ABSIZ st u" "lval (mag st u) = mpz_val st u"
  using assms by (simp_all add: ABSIZ_def mpz_val_pos)

lemma minus_one_value:
  assumes "mpz_ok st u" "SIZ st u < 0" "1 \<le> k" "k \<le> ABSIZ st u"
  shows "lval (minus_one st u k) = take_bit (64 * k) (NOT (mpz_val st u))" "length (minus_one st u k) = k"
proof -
  let ?xs = "take k (mag st u)"
  have t: "take k (PTR st u) = ?xs" using assms(4) by (simp add: mag_def min_def)
  have len: "length ?xs = k" using assms by (simp add: length_mag)
  have "lval (fst (mpn_sub_1 ?xs 1)) = (lval ?xs - 1) + B ^ k * uint (snd (mpn_sub_1 ?xs 1))"
    using mpn_sub_1_value [of ?xs 1] len assms(3) by (cases ?xs) auto
  then have "lval (fst (mpn_sub_1 ?xs 1)) mod B ^ k = (lval ?xs - 1) mod B ^ k" by (metis mod_mult_self2)
  moreover have "lval (fst (mpn_sub_1 ?xs 1)) < B ^ k" using lval_lt [of "fst (mpn_sub_1 ?xs 1)"] len by simp
  moreover have "(lval ?xs - 1) mod B ^ k = (lval (mag st u) - 1) mod B ^ k"
    by (simp add: lval_take_bit take_bit_eq_mod B_pow_2 mod_diff_left_eq)
  ultimately show "lval (minus_one st u k) = take_bit (64 * k) (NOT (mpz_val st u))"
    using mpz_val_neg [OF assms(2)] unfolding minus_one_def t
    by (simp add: take_bit_eq_mod B_pow_2 not_int_def)
  show "length (minus_one st u k) = k" using len by (simp add: minus_one_def t)
qed

lemma neg_operand:
  assumes "mpz_ok st u" "SIZ st u < 0"
  shows "nat (- SIZ st u) = ABSIZ st u" "1 \<le> ABSIZ st u"
    and "lval (minus_one st u (ABSIZ st u)) = NOT (mpz_val st u)"
    and "length (minus_one st u (ABSIZ st u)) = ABSIZ st u"
proof -
  show n: "nat (- SIZ st u) = ABSIZ st u" "1 \<le> ABSIZ st u" using assms(2) by (simp_all add: ABSIZ_def)
  have "NOT (mpz_val st u) = lval (mag st u) - 1" using mpz_val_neg [OF assms(2)] by (simp add: not_int_def)
  moreover have "lval (mag st u) < B ^ ABSIZ st u" using lval_lt [of "mag st u"] length_mag [OF assms(1)] by simp
  moreover have "0 < lval (mag st u)" using lval_mag_pos [OF assms(1)] assms(2) by simp
  ultimately have "take_bit (64 * ABSIZ st u) (NOT (mpz_val st u)) = NOT (mpz_val st u)"
    by (simp add: take_bit_int_eq_self B_pow_2)
  then show "lval (minus_one st u (ABSIZ st u)) = NOT (mpz_val st u)"
    "length (minus_one st u (ABSIZ st u)) = ABSIZ st u"
    using minus_one_value [OF assms n(2)] by simp_all
qed

lemma add_one_put:
  assumes "n = length ys" "ys \<noteq> []" "length ys \<le> length (PTR st1 w)"
    and "B ^ n \<le> lval ys + 1 \<Longrightarrow> Suc n \<le> length (PTR st1 w)"
  obtains zs where "add_one (put_limbs st1 w 0 ys) w n = (put_limbs (put_limbs st1 w 0 ys) w 0 zs, length zs)"
    "lval zs = lval ys + 1" "n \<le> length zs" "length zs \<le> length (PTR st1 w)"
    "n < length zs \<Longrightarrow> last zs \<noteq> 0"
proof -
  let ?st = "put_limbs st1 w 0 ys"
  let ?r = "mpn_add_1 ys 1"
  have t: "take n (PTR ?st w) = ys" by (rule take_put_limbs [OF assms(1)])
  have len: "length (fst ?r) = n" using assms(1) by simp
  have v: "lval (fst ?r) + B ^ n * uint (snd ?r) = lval ys + 1"
    using mpn_add_1_value [OF assms(2), of 1] assms(1) by simp
  show thesis
  proof (cases "snd ?r = 0")
    case True
    then show thesis using that [of "fst ?r"] v len assms(1,3) by (simp add: add_one_def t)
  next
    case False
    then have "B ^ n * 1 \<le> B ^ n * uint (snd ?r)" by (intro mult_left_mono) (auto simp: limb_ne_0_iff)
    then have n1: "Suc n \<le> length (PTR st1 w)" using assms(4) v lval_nonneg [of "fst ?r"] by linarith
    have "put_limbs (put_limbs ?st w 0 (fst ?r)) w n [snd ?r] = put_limbs ?st w 0 (fst ?r @ [snd ?r])"
      using put_limbs_snoc [of "fst ?r" ?st w "[snd ?r]"] len assms(1,3) by simp
    then show thesis using that [of "fst ?r @ [snd ?r]"] False v len n1
      by (simp add: add_one_def t lval_append Let_def)
  qed
qed

lemma add_one_writes:
  assumes "room st1 w n" "\<And>x. x \<noteq> w \<Longrightarrow> vars st1 x = vars st x"
    and "n = length ys" "ys \<noteq> []" "B ^ (n - 1) \<le> lval ys + 1"
    and "B ^ n \<le> lval ys + 1 \<Longrightarrow> room st1 w (Suc n)"
    and "p = add_one (put_limbs st1 w 0 ys) w n"
  shows "writes st (set_SIZ (fst p) w (- int (snd p))) w (- (lval ys + 1))"
proof -
  obtain zs where zs: "p = (put_limbs (put_limbs st1 w 0 ys) w 0 zs, length zs)"
    "lval zs = lval ys + 1" "n \<le> length zs" "length zs \<le> length (PTR st1 w)" "n < length zs \<Longrightarrow> last zs \<noteq> 0"
    unfolding assms(7) by (rule add_one_put [of n ys st1 w]) (use assms(1,3,4,6) in \<open>auto simp: room_def\<close>)
  have "B ^ (length zs - 1) \<le> lval zs"
  proof (cases "n < length zs")
    case True
    then show ?thesis using zs(5) by (intro lval_ge_of_last) auto
  next
    case False
    then have "length zs = n" using zs(3) by simp
    then show ?thesis using assms(5) zs(2) by simp
  qed
  then have "writes st (set_SIZ (put_limbs (put_limbs st1 w 0 ys) w 0 zs) w (- int (length zs))) w (- lval zs)"
    using assms(1-3) zs(4)
    by (intro writes_eqI [OF writes_with_sign [where s = True and n = "length zs" and st = st, OF _ _ _ _ _ refl]])
      (auto simp: room_def)
  then show ?thesis using zs(1,2) by simp
qed

lemma writes_top:
  assumes "room st1 w (length xs)" "\<And>x. x \<noteq> w \<Longrightarrow> vars st1 x = vars st x"
    and "n = length xs" "n \<noteq> 0 \<Longrightarrow> last xs \<noteq> 0"
  shows "writes st (set_SIZ (put_limbs st1 w 0 xs) w (int n)) w (lval xs)"
  using assms lval_ge_of_last [of xs]
  by (intro writes_eqI [OF writes_with_sign [where s = False and n = n and st = st, OF _ _ _ _ _ refl]]) auto

lemma put_limbs_set_SIZ: "put_limbs (set_SIZ st w n) w i xs = set_SIZ (put_limbs st w i xs) w n"
  by (cases "vars st w") (simp add: put_limbs_def set_SIZ_def set_var_def)

lemma put_limbs_Nil: "put_limbs st w 0 [] = st"
  by (simp add: put_limbs_def set_var_def)

subsection \<open>Conjunction\<close>

lemma and_pos_pos_writes:
  assumes ok: "mpz_ok st w" "mpz_ok st u" "mpz_ok st v" and pos: "0 \<le> SIZ st u" "0 \<le> SIZ st v"
  shows "writes st (and_pos_pos st w u v) w (mpz_val st u AND mpz_val st v)"
proof -
  let ?n = "min (ABSIZ st u) (ABSIZ st v)"
  define k where "k = find_size (AND) (PTR st u) (PTR st v) ?n"
  let ?st = "MPZ_REALLOC st w k"
  let ?xs = "mpn_and_n (take k (mag st u)) (take k (mag st v))"
  note pu = pos_operand [OF ok(2) pos(1)] and pv = pos_operand [OF ok(3) pos(2)]
  have lens: "?n \<le> length (PTR st u)" "?n \<le> length (PTR st v)" using ok by (auto simp: mpz_ok_def)
  note fs = find_size_spec [OF lens k_def]
  have tk: "take j (PTR st x) = take j (mag st x)" if "j \<le> ABSIZ st x" for j x
    using that by (simp add: mag_def min_def)
  have kn: "k \<le> ABSIZ st u" "k \<le> ABSIZ st v" using fs(1) by auto
  have xs: "?xs = map2 (AND) (take k (PTR st u)) (take k (PTR st v))"
    using kn by (simp add: tk mpn_and_n_def)
  have len: "length ?xs = k" using kn by (simp add: length_mag [OF ok(2)] length_mag [OF ok(3)])
  have "lval ?xs = lval (take ?n (mag st u)) AND lval (take ?n (mag st v))"
    unfolding xs fs(2) tk [OF min.cobounded1] tk [OF min.cobounded2]
    using lval_mpn_and_n [of "take ?n (mag st u)" "take ?n (mag st v)"] ok
    by (simp add: mpn_and_n_def length_mag)
  also have "\<dots> = lval (mag st u) AND lval (mag st v)"
    using length_mag [OF ok(2)] length_mag [OF ok(3)] lval_and_take [of "mag st v" ?n "mag st u"]
      lval_and_take [of "mag st u" ?n "mag st v"]
    by (cases "ABSIZ st u \<le> ABSIZ st v") (simp_all add: and.commute)
  finally have v: "lval ?xs = mpz_val st u AND mpz_val st v" using pu pv by simp
  have w: "writes st (set_SIZ (put_limbs ?st w 0 ?xs) w (int k)) w (lval ?xs)"
    using ok(1) fs(3) len xs by (intro writes_top) (auto intro: room_MPZ_REALLOC)
  have t: "take k (PTR (set_SIZ ?st w (int k)) x) = take k (mag st x)" if "mpz_ok st x" "k \<le> ABSIZ st x" for x
    using take_mag [OF ok(1) that, of k] by (cases "x = w") simp_all
  show ?thesis
  proof (rule writes_eqI [OF w])
    show "and_pos_pos st w u v = set_SIZ (put_limbs ?st w 0 ?xs) w (int k)"
      unfolding and_pos_pos_def Let_def pu(1) pv(1) k_def [symmetric]
      by (simp only: t [OF ok(2) kn(1)] t [OF ok(3) kn(2)] put_limbs_set_SIZ)
        (simp add: put_limbs_Nil mpn_and_n_def)
  qed (simp add: v)
qed

lemma neg_succ_int: "- (k + 1) = NOT (k :: int)"
  by (simp add: not_int_def)

lemma neg_size_bound:
  assumes "mpz_ok st u" "SIZ st u < 0"
  shows "B ^ (ABSIZ st u - 1) \<le> NOT (mpz_val st u) + 1" "0 \<le> NOT (mpz_val st u)"
proof -
  have n: "ABSIZ st u \<noteq> 0" using assms(2) by (simp add: ABSIZ_def)
  show "B ^ (ABSIZ st u - 1) \<le> NOT (mpz_val st u) + 1"
    using mag_ge_pow [OF assms(1) n] mpz_val_neg [OF assms(2)] by (simp add: not_int_def)
  then show "0 \<le> NOT (mpz_val st u)" using B_pow_pos [of "ABSIZ st u - 1"] by linarith
qed

lemma combine_or_one:
  assumes "mpz_ok st u" "SIZ st u < 0" "0 \<le> b" "a = NOT (mpz_val st u)"
  shows "B ^ (ABSIZ st u - 1) \<le> (a OR b) + 1"
  using neg_size_bound [OF assms(1,2)] or_greater_eq [OF assms(3), of a] assms(4) by linarith

lemma and_neg_neg_writes:
  assumes ok: "mpz_ok st w" "mpz_ok st u" "mpz_ok st v" and neg: "SIZ st u < 0" "SIZ st v < 0"
  shows "writes st (and_neg_neg st w u v) w (mpz_val st u AND mpz_val st v)"
proof -
  let ?n1 = "ABSIZ st u" and ?n2 = "ABSIZ st v"
  let ?x1 = "minus_one st u ?n1" and ?x2 = "minus_one st v ?n2"
  let ?st = "MPZ_REALLOC st w (1 + max ?n1 ?n2)"
  note nu = neg_operand [OF ok(2) neg(1)] and nv = neg_operand [OF ok(3) neg(2)]
  have room: "room ?st w (max ?n1 ?n2)" "room ?st w (Suc (max ?n1 ?n2))"
    using ok(1) by (auto intro!: room_MPZ_REALLOC)
  have val: "- ((NOT (mpz_val st u) OR NOT (mpz_val st v)) + 1) = mpz_val st u AND mpz_val st v"
    unfolding neg_succ_int by (rule and_eq_not_not_or [symmetric])
  note unf = and_neg_neg_def Let_def nu(1) nv(1)
  show ?thesis
  proof (cases "?n2 \<le> ?n1")
    case True
    let ?ys = "combine (OR) ?x1 ?x2"
    have len: "length ?ys = ?n1" using True nu(4) nv(4) by simp
    have v: "lval ?ys = NOT (mpz_val st u) OR NOT (mpz_val st v)"
      using True nu(3,4) nv(3,4) by (simp add: lval_combine_or)
    have "writes st (set_SIZ (fst (add_one (put_limbs ?st w 0 ?ys) w ?n1)) w
        (- int (snd (add_one (put_limbs ?st w 0 ?ys) w ?n1)))) w (- (lval ?ys + 1))"
    proof (rule add_one_writes [OF _ _ _ _ _ _ refl])
      show "?ys \<noteq> []" using len nu(2) by auto
      show "B ^ (?n1 - 1) \<le> lval ?ys + 1"
        unfolding v using neg_size_bound(2) [OF ok(3) neg(2)] by (intro combine_or_one [OF ok(2) neg(1)]) simp_all
    qed (use room True len in \<open>simp_all add: max_def\<close>)
    then show ?thesis unfolding v val
      by (rule writes_eqI) (unfold unf, use True in \<open>simp_all add: split_beta\<close>)
  next
    case False
    let ?ys = "combine (OR) ?x2 ?x1"
    have len: "length ?ys = ?n2" using False nu(4) nv(4) by simp
    have v: "lval ?ys = NOT (mpz_val st u) OR NOT (mpz_val st v)"
      using False nu(3,4) nv(3,4) by (simp add: lval_combine_or or.commute)
    have "writes st (set_SIZ (fst (add_one (put_limbs ?st w 0 ?ys) w ?n2)) w
        (- int (snd (add_one (put_limbs ?st w 0 ?ys) w ?n2)))) w (- (lval ?ys + 1))"
    proof (rule add_one_writes [OF _ _ _ _ _ _ refl])
      show "?ys \<noteq> []" using len nv(2) by auto
      show "B ^ (?n2 - 1) \<le> lval ?ys + 1"
        unfolding v using neg_size_bound(2) [OF ok(2) neg(1)] combine_or_one [OF ok(3) neg(2)]
        by (simp add: or.commute)
    qed (use room False len in \<open>simp_all add: max_def\<close>)
    then show ?thesis unfolding v val
      by (rule writes_eqI) (unfold unf, use False in \<open>simp_all add: split_beta\<close>)
  qed
qed

lemma and_pos_neg_writes:
  assumes ok: "mpz_ok st w" "mpz_ok st u" "mpz_ok st v" and sg: "0 \<le> SIZ st u" "SIZ st v < 0"
  shows "writes st (and_pos_neg st w u v) w (mpz_val st u AND mpz_val st v)"
proof -
  let ?n1 = "ABSIZ st u" and ?n2 = "ABSIZ st v"
  let ?x2 = "minus_one st v ?n2"
  note pu = pos_operand [OF ok(2) sg(1)] and nv = neg_operand [OF ok(3) sg(2)]
  have lu: "length (mag st u) = ?n1" by (rule length_mag [OF ok(2)])
  have val: "lval (mag st u) AND NOT (lval ?x2) = mpz_val st u AND mpz_val st v"
    using pu(2) nv(3) by simp
  note unf = and_pos_neg_def Let_def pu(1) nv(1)
  show ?thesis
  proof (cases "?n2 < ?n1")
    case True
    let ?st = "MPZ_REALLOC st w ?n1" and ?ys = "combine (\<lambda>a b. a AND NOT b) (mag st u) ?x2"
    have len: "length ?ys = ?n1" using True lu nv(4) by simp
    have v: "lval ?ys = mpz_val st u AND mpz_val st v"
      using True lu nv(4) val by (simp add: lval_combine_andn)
    have "last ?ys = last (mag st u)"
      using True lu nv(4) by (simp add: combine_def)
    then have top: "last ?ys \<noteq> 0" using last_mag_ne_0 [OF ok(2)] True by (auto simp: ABSIZ_def)
    have "writes st (set_SIZ (put_limbs ?st w 0 ?ys) w (int ?n1)) w (lval ?ys)"
      using ok(1) len top by (intro writes_top) (auto intro: room_MPZ_REALLOC)
    then show ?thesis unfolding v
      by (rule writes_eqI) (unfold unf, use True take_PTR_mag [OF ok(1,2)] in simp_all)
  next
    case False
    define k where "k = find_size (\<lambda>a b. a AND NOT b) (PTR st u) ?x2 ?n1"
    let ?st = "MPZ_REALLOC st w k" and ?xs = "mpn_andn_n (take k (mag st u)) (take k ?x2)"
    have lens: "?n1 \<le> length (PTR st u)" "?n1 \<le> length ?x2" using ok False nv(4) by (auto simp: mpz_ok_def)
    note fs = find_size_spec [OF lens k_def]
    have xs: "?xs = map2 (\<lambda>a b. a AND NOT b) (take k (PTR st u)) (take k ?x2)"
      using fs(1) by (simp add: mag_def min_def mpn_andn_n_def)
    have len: "length ?xs = k" using fs(1) lu lens(2) by simp
    have "lval ?xs = lval (mag st u) AND NOT (lval (take ?n1 ?x2))"
      unfolding xs fs(2) mag_def [symmetric] using lval_mpn_andn_n [of "mag st u" "take ?n1 ?x2"] lu lens(2)
      by (simp add: mpn_andn_n_def)
    then have v: "lval ?xs = mpz_val st u AND mpz_val st v"
      using lval_andn_take [of "mag st u" ?n1 ?x2] lu val by simp
    have "writes st (set_SIZ (put_limbs ?st w 0 ?xs) w (int k)) w (lval ?xs)"
      using ok(1) fs(3) len xs by (intro writes_top) (auto intro: room_MPZ_REALLOC)
    then show ?thesis unfolding v
      by (rule writes_eqI)
        (unfold unf k_def [symmetric], use False take_mag [OF ok(1,2) fs(1)] in simp_all)
  qed
qed

lemma mpz_and_writes:
  assumes "mpz_ok st w" "mpz_ok st u" "mpz_ok st v"
  shows "writes st (mpz_and st w u v) w (mpz_val st u AND mpz_val st v)"
  using assms and_pos_pos_writes [OF assms] and_neg_neg_writes [OF assms] and_pos_neg_writes [OF assms]
    and_pos_neg_writes [OF assms(1,3,2)]
  by (simp add: mpz_and_def and.commute)

interpretation and_z: mpz_binary mpz_and "(AND)"
  by unfold_locales (rule mpz_and_writes)

subsection \<open>Disjunction\<close>

lemma ior_pos_pos_writes:
  assumes ok: "mpz_ok st w" "mpz_ok st u" "mpz_ok st v" and pos: "0 \<le> SIZ st u" "0 \<le> SIZ st v"
  shows "writes st (ior_pos_pos st w u v) w (mpz_val st u OR mpz_val st v)"
proof -
  note pu = pos_operand [OF ok(2) pos(1)] and pv = pos_operand [OF ok(3) pos(2)]
  have main: "writes st (set_SIZ (put_limbs (MPZ_REALLOC st w (ABSIZ st x)) w 0 (combine (OR) (mag st x) (mag st y))) w
      (int (ABSIZ st x))) w (lval (mag st x) OR lval (mag st y))"
    if x: "mpz_ok st x" "mpz_ok st y" "ABSIZ st y \<le> ABSIZ st x" for x y
  proof -
    let ?ys = "combine (OR) (mag st x) (mag st y)"
    have len: "length ?ys = ABSIZ st x" using x by (simp add: length_mag)
    have v: "lval ?ys = lval (mag st x) OR lval (mag st y)" using x by (simp add: length_mag lval_combine_or)
    have "B ^ (ABSIZ st x - 1) \<le> lval ?ys" if "ABSIZ st x \<noteq> 0"
      using mag_ge_pow [OF x(1) that] or_greater_eq [of "lval (mag st y)" "lval (mag st x)"]
      unfolding v by simp
    then show ?thesis
      by (intro writes_eqI [OF writes_with_sign [where s = False and n = "ABSIZ st x" and xs = ?ys and w = w
              and ?st1.0 = "MPZ_REALLOC st w (ABSIZ st x)" and st = st, OF _ _ _ _ _ refl]])
        (use ok(1) len v in \<open>auto intro: room_MPZ_REALLOC\<close>)
  qed
  note unf = ior_pos_pos_def Let_def pu(1) pv(1) take_PTR_mag [OF ok(1,2)] take_PTR_mag [OF ok(1,3)]
  show ?thesis
  proof (cases "ABSIZ st v \<le> ABSIZ st u")
    case True
    show ?thesis by (rule writes_eqI [OF main [OF ok(2,3) True]]) (unfold unf, use True pu pv in simp_all)
  next
    case False
    then have le: "ABSIZ st u \<le> ABSIZ st v" by simp
    show ?thesis
      by (rule writes_eqI [OF main [OF ok(3,2) le]]) (unfold unf, use False pu pv in \<open>simp_all add: or.commute\<close>)
  qed
qed

text \<open>The common end of the branches with a negative result.\<close>

lemma writes_negative_tail:
  assumes "room st1 w m" "\<And>x. x \<noteq> w \<Longrightarrow> vars st1 x = vars st x"
    and "n = length ys" "n \<noteq> 0 \<Longrightarrow> last ys \<noteq> 0" "n \<le> m" "lval ys + 1 < B ^ m"
    and "p = (if n \<noteq> 0 then add_one (put_limbs st1 w 0 ys) w n else (put_limbs (put_limbs st1 w 0 ys) w 0 [1], 1))"
  shows "writes st (set_SIZ (fst p) w (- int (snd p))) w (- (lval ys + 1))"
proof (cases "n = 0")
  case True
  have "writes st (set_SIZ (put_limbs st1 w 0 [1]) w (- of_bool ((1 :: limb) \<noteq> 0))) w (- uint (1 :: limb))"
    using assms(1,2) by (intro writes_one_limb [where s = True]) (auto simp: room_def)
  then show ?thesis using True assms(3,7) by (simp add: put_limbs_Nil)
next
  case False
  have ge: "B ^ (n - 1) \<le> lval ys" using lval_ge_of_last [of ys] assms(3,4) False by simp
  have "room st1 w (Suc n)" if "B ^ n \<le> lval ys + 1"
  proof -
    have "B ^ n < B ^ m" using that assms(6) by linarith
    then have "n < m" by (simp add: power_strict_increasing_iff)
    then show ?thesis using assms(1) by (simp add: room_def)
  qed
  then show ?thesis
    using assms(1-3,5,7) False ge by (intro add_one_writes) (auto simp: room_def)
qed

lemma neg_dec_bound:
  assumes "mpz_ok st u" "SIZ st u < 0"
  shows "NOT (mpz_val st u) + 1 < B ^ ABSIZ st u"
  using lval_lt [of "mag st u"] length_mag [OF assms(1)] mpz_val_neg [OF assms(2)] by (simp add: not_int_def)

lemma and_take_bits:
  fixes a b :: int
  assumes "take_bit n a = a \<or> take_bit n b = b"
  shows "take_bit n a AND take_bit n b = a AND b"
proof -
  have "take_bit n a AND take_bit n b = take_bit n a AND b" "take_bit n a AND take_bit n b = a AND take_bit n b"
    by (rule bit_eqI; auto simp: bit_simps)+
  then show ?thesis using assms by metis
qed

lemma ior_neg_neg_writes:
  assumes ok: "mpz_ok st w" "mpz_ok st u" "mpz_ok st v" and neg: "SIZ st u < 0" "SIZ st v < 0"
  shows "writes st (ior_neg_neg st w u v) w (mpz_val st u OR mpz_val st v)"
proof -
  let ?n = "min (ABSIZ st u) (ABSIZ st v)"
  let ?x1 = "minus_one st u ?n" and ?x2 = "minus_one st v ?n"
  let ?a = "NOT (mpz_val st u)" and ?b = "NOT (mpz_val st v)"
  let ?st = "MPZ_REALLOC st w ?n"
  define k where "k = find_size (AND) ?x1 ?x2 ?n"
  let ?ys = "mpn_and_n (take k ?x1) (take k ?x2)"
  note nu = neg_operand [OF ok(2) neg(1)] and nv = neg_operand [OF ok(3) neg(2)]
  have n: "1 \<le> ?n" using nu(2) nv(2) by simp
  note mu = minus_one_value [OF ok(2) neg(1) n min.cobounded1] and mv = minus_one_value [OF ok(3) neg(2) n min.cobounded2]
  have lens: "?n \<le> length ?x1" "?n \<le> length ?x2" using mu(2) mv(2) by auto
  note fs = find_size_spec [OF lens k_def]
  have ys: "?ys = map2 (AND) (take k ?x1) (take k ?x2)" by (simp add: mpn_and_n_def)
  have len: "length ?ys = k" using fs(1) mu(2) mv(2) by simp
  have tb: "take_bit (64 * ?n) ?a = ?a \<or> take_bit (64 * ?n) ?b = ?b"
    using neg_dec_bound [OF ok(2) neg(1)] neg_dec_bound [OF ok(3) neg(2)]
      neg_size_bound(2) [OF ok(2) neg(1)] neg_size_bound(2) [OF ok(3) neg(2)]
    by (cases "ABSIZ st u \<le> ABSIZ st v") (auto simp: min_def take_bit_int_eq_self B_pow_2)
  have "lval ?ys = lval (mpn_and_n ?x1 ?x2)"
    unfolding ys fs(2) using mu(2) mv(2) by (simp add: mpn_and_n_def)
  also have "\<dots> = take_bit (64 * ?n) ?a AND take_bit (64 * ?n) ?b"
    using mu mv by (simp add: lval_mpn_and_n)
  finally have v: "lval ?ys = ?a AND ?b" unfolding and_take_bits [OF tb] .
  have "?a AND ?b \<le> ?a" "?a AND ?b \<le> ?b"
    using neg_size_bound(2) [OF ok(2) neg(1)] neg_size_bound(2) [OF ok(3) neg(2)] by (simp_all add: AND_upper1 AND_upper2)
  then have bound: "lval ?ys + 1 < B ^ ?n"
    using neg_dec_bound [OF ok(2) neg(1)] neg_dec_bound [OF ok(3) neg(2)] unfolding v by (simp add: min_def)
  have val: "- ((?a AND ?b) + 1) = mpz_val st u OR mpz_val st v"
    unfolding neg_succ_int by (rule or_eq_not_not_and [symmetric])
  define p where "p = (if k \<noteq> 0 then add_one (put_limbs ?st w 0 ?ys) w k
                       else (put_limbs (put_limbs ?st w 0 ?ys) w 0 [1], 1))"
  have "writes st (set_SIZ (fst p) w (- int (snd p))) w (- (lval ?ys + 1))"
    by (rule writes_negative_tail [OF _ _ _ _ _ bound p_def])
      (use ok(1) len fs(1,3) ys in \<open>auto intro: room_MPZ_REALLOC\<close>)
  then show ?thesis unfolding v val
    by (rule writes_eqI)
      (unfold ior_neg_neg_def Let_def nu(1) nv(1) k_def [symmetric] p_def,
        simp_all add: split_beta put_limbs_Nil mpn_and_n_def)
qed

lemma minus_one_shrunk:
  assumes "mpz_ok st v" "SIZ st v < 0" "xs = minus_one st v (ABSIZ st v)"
    and "m = ABSIZ st v - of_bool (xs ! (ABSIZ st v - 1) = 0)"
  shows "m \<le> length xs" "lval (take m xs) = lval xs" "m \<noteq> 0 \<Longrightarrow> last (take m xs) \<noteq> 0"
proof -
  note nv = neg_operand [OF assms(1,2)]
  have len: "length xs = ABSIZ st v" and ne: "xs \<noteq> []" using nv(2,4) assms(3) by auto
  have "minus_one st v (ABSIZ st v) = fst (mpn_sub_1 (mag st v) 1)" by (simp add: minus_one_def mag_def)
  moreover have "uint (1 :: limb) \<le> uint (PTR st v ! 0)" if "ABSIZ st v = 1"
    using mag_one_limb [OF assms(1) that] lval_mag_pos [OF assms(1)] assms(2) by simp
  ultimately have "B ^ (ABSIZ st v - 2) \<le> lval xs" if "2 \<le> ABSIZ st v"
    using mpn_sub_1_mag [OF assms(1), of 1] that assms(3) nv(2) by simp
  moreover have "m = length xs - of_bool (last xs = 0)"
    using ne len by (simp add: assms(4) last_conv_nth)
  ultimately have s: "m \<le> length xs" "lval (take m xs) = lval xs" "m \<noteq> 0 \<Longrightarrow> B ^ (m - 1) \<le> lval xs"
    using shrunk_size [OF ne, of m] len by auto
  then show "m \<le> length xs" "lval (take m xs) = lval xs" by auto
  show "last (take m xs) \<noteq> 0" if "m \<noteq> 0"
  proof
    assume z: "last (take m xs) = 0"
    have tm: "take m xs \<noteq> []" using that ne by auto
    have "lval (take m xs) = lval (butlast (take m xs))"
      using lval_butlast_last [OF tm] z by simp
    also have "\<dots> < B ^ (m - 1)" using lval_lt [of "butlast (take m xs)"] s(1) by (simp add: min_absorb2)
    finally show False using s(2,3) that by simp
  qed
qed

lemma ior_pos_neg_writes:
  assumes ok: "mpz_ok st w" "mpz_ok st u" "mpz_ok st v" and sg: "0 \<le> SIZ st u" "SIZ st v < 0"
  shows "writes st (ior_pos_neg st w u v) w (mpz_val st u OR mpz_val st v)"
proof -
  let ?n1 = "ABSIZ st u" and ?n2 = "ABSIZ st v"
  let ?x2 = "minus_one st v ?n2" and ?a = "mpz_val st u" and ?b = "NOT (mpz_val st v)"
  let ?m = "?n2 - of_bool (?x2 ! (?n2 - 1) = 0)"
  let ?st = "MPZ_REALLOC st w ?n2"
  note pu = pos_operand [OF ok(2) sg(1)] and nv = neg_operand [OF ok(3) sg(2)]
  note sh = minus_one_shrunk [OF ok(3) sg(2) refl refl]
  have lu: "length (mag st u) = ?n1" by (rule length_mag [OF ok(2)])
  have lm: "?m \<le> ?n2" by simp
  have room: "room ?st w ?n2" using ok(1) by (intro room_MPZ_REALLOC) auto
  have val: "- ((?b AND NOT ?a) + 1) = ?a OR mpz_val st v"
    unfolding neg_succ_int by (rule bit_eqI) (auto simp: bit_simps)
  have "?b AND NOT ?a \<le> ?b" using neg_size_bound(2) [OF ok(3) sg(2)] by (simp add: AND_upper1)
  then have bound: "(?b AND NOT ?a) + 1 < B ^ ?n2" using neg_dec_bound [OF ok(3) sg(2)] by linarith
  note unf = ior_pos_neg_def Let_def pu(1) nv(1) take_PTR_mag [OF ok(1,2)]
  have main: "writes st (set_SIZ (fst p) w (- int (snd p))) w (?a OR mpz_val st v)"
    if "n = length ys" "n \<le> ?n2" "n \<noteq> 0 \<Longrightarrow> last ys \<noteq> 0" "lval ys = ?b AND NOT ?a"
      "p = (if n \<noteq> 0 then add_one (put_limbs ?st w 0 ys) w n else (put_limbs (put_limbs ?st w 0 ys) w 0 [1], 1))"
    for ys n p
    unfolding val [symmetric] that(4) [symmetric]
    by (rule writes_negative_tail [OF room _ that(1,3,2) _ that(5)]) (use bound that(4) in simp_all)
  show ?thesis
  proof (cases "?m \<le> ?n1")
    case True
    define k where "k = find_size (\<lambda>a b. NOT a AND b) (mag st u) ?x2 ?m"
    let ?ys = "mpn_andn_n (take k ?x2) (take k (mag st u))"
    have lens: "?m \<le> length (mag st u)" "?m \<le> length ?x2" using True lu sh(1) by auto
    note fs = find_size_spec [OF lens k_def]
    have flip: "map2 (\<lambda>a b. NOT a AND b) (take j (mag st u)) (take j ?x2) = mpn_andn_n (take j ?x2) (take j (mag st u))" for j
      unfolding mpn_andn_n_def by (rule nth_equalityI) (auto simp: and.commute)
    have "lval ?ys = lval (take ?m ?x2) AND NOT (lval (take ?m (mag st u)))"
      using fs(2) lens unfolding flip by (simp add: lval_mpn_andn_n)
    then have v: "lval ?ys = ?b AND NOT ?a"
      using lval_andn_take [of "take ?m ?x2" ?m "mag st u"] sh(2) nv(3) pu(2) by simp
    have len: "length ?ys = k" using fs(1) lens by simp
    have top: "k \<noteq> 0 \<Longrightarrow> last ?ys \<noteq> 0" using fs(3) unfolding flip .
    have kn: "k \<le> ?n2" using fs(1) lm by (rule order_trans)
    show ?thesis
      by (rule writes_eqI [OF main [OF len [symmetric] kn top v refl]])
        (unfold unf k_def [symmetric] if_P [OF True], simp_all add: split_beta)
  next
    case False
    let ?ys = "combine (\<lambda>b a. NOT a AND b) (take ?m ?x2) (mag st u)"
    have lt: "length (take ?m ?x2) = ?m" using sh(1) by (simp add: min_def)
    have len: "length ?ys = ?m" using False lu lt by simp
    have v: "lval ?ys = ?b AND NOT ?a"
      using False lu lt sh(2) nv(3) pu(2) lval_combine_nand [of "mag st u" "take ?m ?x2"] by simp
    have "last ?ys = last (take ?m ?x2)" using False lu lt by (simp add: combine_def)
    then have top: "?m \<noteq> 0 \<Longrightarrow> last ?ys \<noteq> 0" using sh(3) by simp
    show ?thesis
      by (rule writes_eqI [OF main [OF len [symmetric] lm top v refl]])
        (unfold unf if_not_P [OF False], simp_all add: split_beta)
  qed
qed

lemma mpz_ior_writes:
  assumes "mpz_ok st w" "mpz_ok st u" "mpz_ok st v"
  shows "writes st (mpz_ior st w u v) w (mpz_val st u OR mpz_val st v)"
  using assms ior_pos_pos_writes [OF assms] ior_neg_neg_writes [OF assms] ior_pos_neg_writes [OF assms]
    ior_pos_neg_writes [OF assms(1,3,2)]
  by (simp add: mpz_ior_def or.commute)

interpretation ior_z: mpz_binary mpz_ior "(OR)"
  by unfold_locales (rule mpz_ior_writes)

subsection \<open>Exclusive disjunction\<close>

lemma writes_combine_normalized:
  assumes "mpz_ok st w" "length ys \<le> length xs" "length xs \<le> m" "n = length xs"
    and "st2 = put_limbs (MPZ_REALLOC st w m) w 0 (combine (XOR) xs ys)"
  shows "writes st (set_SIZ st2 w (int (mpn_normalize (PTR st2 w) n))) w (lval xs XOR lval ys)"
  unfolding assms(5)
  by (rule writes_eqI [OF writes_normalized [where s = False and st = st and ?st1.0 = "MPZ_REALLOC st w m"
          and w = w and xs = "combine (XOR) xs ys" and n = n, OF _ _ _ refl]])
    (use assms in \<open>auto intro: room_MPZ_REALLOC simp: lval_combine_xor\<close>)

lemma xor_pos_pos_writes:
  assumes ok: "mpz_ok st w" "mpz_ok st u" "mpz_ok st v" and pos: "0 \<le> SIZ st u" "0 \<le> SIZ st v"
  shows "writes st (xor_pos_pos st w u v) w (mpz_val st u XOR mpz_val st v)"
proof -
  note pu = pos_operand [OF ok(2) pos(1)] and pv = pos_operand [OF ok(3) pos(2)]
  note len = length_mag [OF ok(2)] length_mag [OF ok(3)]
  note unf = xor_pos_pos_def Let_def pu(1) pv(1) take_PTR_mag [OF ok(1,2)] take_PTR_mag [OF ok(1,3)]
  show ?thesis
  proof (cases "ABSIZ st v \<le> ABSIZ st u")
    case True
    show ?thesis
      by (rule writes_eqI [OF writes_combine_normalized [OF ok(1) _ _ _ refl, where xs = "mag st u" and ys = "mag st v"
              and n = "ABSIZ st u" and m = "ABSIZ st u"]])
        (unfold unf, use True pu pv len in simp_all)
  next
    case False
    show ?thesis
      by (rule writes_eqI [OF writes_combine_normalized [OF ok(1) _ _ _ refl, where xs = "mag st v" and ys = "mag st u"
              and n = "ABSIZ st v" and m = "ABSIZ st v"]])
        (unfold unf, use False pu pv len in \<open>simp_all add: xor.commute\<close>)
  qed
qed

lemma xor_neg_neg_writes:
  assumes ok: "mpz_ok st w" "mpz_ok st u" "mpz_ok st v" and neg: "SIZ st u < 0" "SIZ st v < 0"
  shows "writes st (xor_neg_neg st w u v) w (mpz_val st u XOR mpz_val st v)"
proof -
  let ?x1 = "minus_one st u (ABSIZ st u)" and ?x2 = "minus_one st v (ABSIZ st v)"
  note nu = neg_operand [OF ok(2) neg(1)] and nv = neg_operand [OF ok(3) neg(2)]
  note unf = xor_neg_neg_def Let_def nu(1) nv(1)
  show ?thesis
  proof (cases "ABSIZ st v < ABSIZ st u")
    case True
    show ?thesis
      by (rule writes_eqI [OF writes_combine_normalized [OF ok(1) _ _ _ refl, where xs = ?x1 and ys = ?x2
              and n = "ABSIZ st u" and m = "max (ABSIZ st u) (ABSIZ st v)"]])
        (unfold unf, use True nu nv in simp_all)
  next
    case False
    show ?thesis
      by (rule writes_eqI [OF writes_combine_normalized [OF ok(1) _ _ _ refl, where xs = ?x2 and ys = ?x1
              and n = "ABSIZ st v" and m = "max (ABSIZ st u) (ABSIZ st v)"]])
        (unfold unf, use False nu nv in \<open>simp_all add: xor.commute\<close>)
  qed
qed

lemma writes_xor_add_one:
  assumes ok: "mpz_ok st w" and len: "length ys \<le> length xs" "n = length xs" "n \<noteq> 0"
    and p: "p = add_one (put_limbs (MPZ_REALLOC st w (n + 1)) w 0 (combine (XOR) xs ys)) w n"
  shows "writes st (set_SIZ (fst p) w (- int (mpn_normalize (PTR (fst p) w) (snd p)))) w (- ((lval xs XOR lval ys) + 1))"
proof -
  let ?st = "MPZ_REALLOC st w (n + 1)" and ?ys = "combine (XOR) xs ys"
  have room: "room ?st w (n + 1)" using ok by (intro room_MPZ_REALLOC) auto
  have ly: "n = length ?ys" using len by simp
  then have ne: "?ys \<noteq> []" using len(3) by (metis list.size(3))
  obtain zs where zs: "p = (put_limbs (put_limbs ?st w 0 ?ys) w 0 zs, length zs)" "lval zs = lval ?ys + 1"
    "length zs \<le> length (PTR ?st w)"
    unfolding p by (rule add_one_put [of n ?ys ?st w]) (use room ly ne in \<open>auto simp: room_def\<close>)
  have "writes st (set_SIZ (put_limbs (put_limbs ?st w 0 ?ys) w 0 zs) w
      (if True then - int (mpn_normalize (PTR (put_limbs (put_limbs ?st w 0 ?ys) w 0 zs) w) (length zs))
       else int (mpn_normalize (PTR (put_limbs (put_limbs ?st w 0 ?ys) w 0 zs) w) (length zs)))) w
      (if True then - lval zs else lval zs)"
    by (rule writes_normalized [OF _ _ refl refl]) (use room ly zs(3) in \<open>auto simp: room_def\<close>)
  then show ?thesis using zs lval_combine_xor [OF len(1)] by simp
qed

lemma xor_pos_neg_writes:
  assumes ok: "mpz_ok st w" "mpz_ok st u" "mpz_ok st v" and sg: "0 \<le> SIZ st u" "SIZ st v < 0"
  shows "writes st (xor_pos_neg st w u v) w (mpz_val st u XOR mpz_val st v)"
proof -
  let ?n1 = "ABSIZ st u" and ?n2 = "ABSIZ st v"
  let ?x2 = "minus_one st v ?n2"
  note pu = pos_operand [OF ok(2) sg(1)] and nv = neg_operand [OF ok(3) sg(2)]
  have lu: "length (mag st u) = ?n1" by (rule length_mag [OF ok(2)])
  have val: "- ((mpz_val st u XOR NOT (mpz_val st v)) + 1) = mpz_val st u XOR mpz_val st v"
    unfolding neg_succ_int by (rule bit_eqI) (auto simp: bit_simps)
  note unf = xor_pos_neg_def Let_def pu(1) nv(1) take_PTR_mag [OF ok(1,2)]
  show ?thesis
  proof (cases "?n2 < ?n1")
    case True
    then have mx: "max ?n1 ?n2 = ?n1" by simp
    show ?thesis
      by (rule writes_eqI [OF writes_xor_add_one [OF ok(1) _ _ _ refl, where xs = "mag st u" and ys = ?x2 and n = ?n1]])
        (unfold unf mx if_P [OF True], use True lu nv pu val in \<open>simp_all add: split_beta\<close>)
  next
    case False
    then have mx: "max ?n1 ?n2 = ?n2" by simp
    show ?thesis
      by (rule writes_eqI [OF writes_xor_add_one [OF ok(1) _ _ _ refl, where xs = ?x2 and ys = "mag st u" and n = ?n2]])
        (unfold unf mx if_not_P [OF False], use False lu nv pu val in \<open>simp_all add: split_beta xor.commute\<close>)
  qed
qed

lemma mpz_xor_writes:
  assumes "mpz_ok st w" "mpz_ok st u" "mpz_ok st v"
  shows "writes st (mpz_xor st w u v) w (mpz_val st u XOR mpz_val st v)"
  using assms xor_pos_pos_writes [OF assms] xor_neg_neg_writes [OF assms] xor_pos_neg_writes [OF assms]
    xor_pos_neg_writes [OF assms(1,3,2)]
  by (simp add: mpz_xor_def xor.commute)

interpretation xor_z: mpz_binary mpz_xor "(XOR)"
  by unfold_locales (rule mpz_xor_writes)

subsection \<open>Complement\<close>

lemma mpz_com_writes:
  assumes ok: "mpz_ok st w" "mpz_ok st u"
  shows "writes st (mpz_com st w u) w (NOT (mpz_val st u))"
proof -
  let ?n = "ABSIZ st u"
  have len: "length (mag st u) = ?n" by (rule length_mag [OF ok(2)])
  consider "SIZ st u = 0" | "0 < SIZ st u" | "SIZ st u < 0" by linarith
  then show ?thesis
  proof cases
    case 1
    have "writes st (set_SIZ (put_limbs (MPZ_REALLOC st w 1) w 0 [1]) w (- of_bool ((1 :: limb) \<noteq> 0))) w (- uint (1 :: limb))"
      using ok(1) by (intro writes_one_limb [where s = True]) (auto intro: room_MPZ_REALLOC)
    then show ?thesis by (rule writes_eqI) (use 1 in \<open>simp_all add: mpz_com_def not_int_def\<close>)
  next
    case 2
    then have sz: "0 \<le> SIZ st u" "nat (SIZ st u) = ?n" "?n \<noteq> 0" by (auto simp: ABSIZ_def)
    let ?st = "MPZ_REALLOC st w (?n + 1)" and ?r = "mpn_add_1 (mag st u) 1"
    let ?zs = "fst ?r @ (if snd ?r \<noteq> 0 then [snd ?r] else [])"
    have ne: "mag st u \<noteq> []" using sz(3) len by auto
    have lr: "length (fst ?r) = ?n" using len by simp
    have v: "lval ?zs = lval (mag st u) + 1"
      using mpn_add_1_value [OF ne, of 1] len by (auto simp: lval_append)
    have "B ^ (length ?zs - 1) \<le> lval ?zs"
    proof (cases "snd ?r = 0")
      case True
      then show ?thesis using mag_ge_pow [OF ok(2) sz(3)] v lr by simp
    next
      case False
      then show ?thesis by (intro lval_ge_of_last) auto
    qed
    then have w: "writes st (set_SIZ (put_limbs ?st w 0 ?zs) w (- int (length ?zs))) w (- lval ?zs)"
      using ok(1) lr
      by (intro writes_eqI [OF writes_with_sign [where s = True and n = "length ?zs" and st = st, OF _ _ _ _ _ refl]])
        (auto intro: room_MPZ_REALLOC)
    have "room ?st w (?n + 1)" using ok(1) by (intro room_MPZ_REALLOC) auto
    then have put: "put_limbs (put_limbs ?st w 0 (fst ?r)) w ?n [snd ?r] = put_limbs ?st w 0 (fst ?r @ [snd ?r])"
      using put_limbs_snoc [of "fst ?r" ?st w "[snd ?r]"] lr by (simp add: room_def)
    show ?thesis
      by (rule writes_eqI [OF w])
        (unfold mpz_com_def Let_def sz(2) take_PTR_mag [OF ok] put if_P [OF sz(1)] if_not_P [OF sz(3)] v,
          use lr mpz_val_pos [OF ok(2) sz(1)] in \<open>simp_all add: not_int_def minus_diff_commute [of 1]\<close>)
  next
    case 3
    then have sz: "\<not> 0 \<le> SIZ st u" "nat (- SIZ st u) = ?n" "?n \<noteq> 0" by (auto simp: ABSIZ_def)
    let ?st = "MPZ_REALLOC st w ?n" and ?xs = "fst (mpn_sub_1 (mag st u) 1)"
    have le: "uint (1 :: limb) \<le> uint (PTR st u ! 0)" if "?n = 1"
      using mag_one_limb [OF ok(2) that] lval_mag_pos [OF ok(2)] 3 by simp
    note m = mpn_sub_1_mag [OF ok(2) sz(3) le]
    have lx: "length ?xs = ?n" using len by simp
    then have ne: "?xs \<noteq> []" using sz(3) by (metis list.size(3))
    have w: "writes st (set_SIZ (put_limbs ?st w 0 ?xs) w
        (if False then - int (?n - of_bool (PTR (put_limbs ?st w 0 ?xs) w ! (?n - 1) = 0))
         else int (?n - of_bool (PTR (put_limbs ?st w 0 ?xs) w ! (?n - 1) = 0)))) w
        (if False then - lval ?xs else lval ?xs)"
      by (rule writes_shrink_nat [OF _ _ ne _ lx [symmetric] refl])
        (use ok(1) m lx in \<open>auto intro: room_MPZ_REALLOC\<close>)
    show ?thesis
      by (rule writes_eqI [OF w])
        (unfold mpz_com_def Let_def sz(2) take_PTR_mag [OF ok] if_not_P [OF sz(1)],
          use m(1) mpz_val_neg [OF 3] in \<open>simp_all add: not_int_def\<close>)
  qed
qed

interpretation com: mpz_unary mpz_com "\<lambda>k. NOT k"
  by unfold_locales (rule mpz_com_writes)

end
