(* ===== verification/Mpn_Div.thy ===== *)
theory Mpn_Div
  imports Mpn_Bits
begin

unbundle bit_operations_syntax

text \<open>
  Division by a single limb: the two-by-one limb division of \<^verbatim>\<open>longlong.h\<close> on half limbs
  (\<^verbatim>\<open>__udiv_qrnnd_c\<close>), the inverse of a limb and division by multiplication with it
  (\<^verbatim>\<open>invert_limb\<close>, \<^verbatim>\<open>udiv_qrnnd_preinv1\<close>, \<^verbatim>\<open>udiv_qrnnd_preinv2\<close> of \<^verbatim>\<open>gmp-impl.h\<close>), and the long
  divisions \<^verbatim>\<open>mpn_divrem_1\<close> and \<^verbatim>\<open>mpn_mod_1\<close>.
\<close>

subsection \<open>Two limbs by one\<close>

text \<open>
  The body that \<^verbatim>\<open>__udiv_qrnnd_c\<close> spells out twice: one digit of the quotient in base
  \<^verbatim>\<open>__ll_B\<close>, from the remainder so far and the next half limb \<open>x\<close>.
\<close>

definition udiv_half :: "limb \<Rightarrow> limb \<Rightarrow> limb \<Rightarrow> limb \<times> limb" where
  "udiv_half n x d =
     (let d1 = ll_highpart d; d0 = ll_lowpart d;
          q = n div d1;
          r = n - q * d1;
          m = q * d0;
          r = r * ll_B OR x;
          (q, r) =
            (if r < m then
               (let q = q - 1; r = r + d
                in if r \<ge> d then (if r < m then (q - 1, r + d) else (q, r)) else (q, r))
             else (q, r));
          r = r - m
      in (q, r))"

definition udiv_qrnnd_c :: "limb \<Rightarrow> limb \<Rightarrow> limb \<Rightarrow> limb \<times> limb" where
  "udiv_qrnnd_c n1 n0 d =
     (let (q1, r1) = udiv_half n1 (ll_highpart n0) d;
          (q0, r0) = udiv_half r1 (ll_lowpart n0) d
      in (q1 * ll_B OR q0, r0))"

lemma uint_mult_limb: "0 \<le> uint (a :: limb) * uint b \<Longrightarrow> uint a * uint b < B \<Longrightarrow> uint (a * b) = uint a * uint b"
  by (simp add: uint_mult_limb_no_overflow)

lemma limb_of_uint: "uint (a :: limb) = k \<Longrightarrow> a = of_int k"
  by auto

lemma or_shifted_half:
  fixes a x :: limb
  assumes "uint a < 2 ^ 32" "uint x < 2 ^ 32"
  shows "uint (a * ll_B OR x) = uint a * 2 ^ 32 + uint x"
proof -
  have v: "uint (a * ll_B) = uint a * 2 ^ 32"
    using assms(1) by (subst uint_mult_limb_no_overflow) (simp_all add: uint_ll_B B_def)
  have "take_bit 32 (uint a * 2 ^ 32) = 0" by (simp add: take_bit_eq_mod)
  have "uint (a * ll_B OR x) = (uint a * 2 ^ 32) OR uint x" by (simp add: uint_or v)
  also have "\<dots> = push_bit 32 (uint a) OR take_bit 32 (uint x)"
    using assms(2) by (simp add: push_bit_eq_mult take_bit_int_eq_self)
  also have "\<dots> = push_bit 32 (uint a) + take_bit 32 (uint x)"
    by (rule disjunctive_add [symmetric]) (auto simp: bit_simps)
  finally show ?thesis using assms(2) by (simp add: push_bit_eq_mult take_bit_int_eq_self)
qed

lemma udiv_half_value:
  assumes n: "uint n < uint d" and d: "2 ^ 63 \<le> uint d" and x: "uint x < 2 ^ 32"
    and r: "udiv_half n x d = (q, r)"
  shows "uint q * uint d + uint r = uint n * 2 ^ 32 + uint x" "uint r < uint d" "uint q < 2 ^ 32"
proof -
  define h :: int where "h = 2 ^ 32"
  define d1 where "d1 = uint d div h" 
  define d0 where "d0 = uint d mod h"
  have h0: "0 \<le> h" by (simp add: h_def)
  have hB: "h * h = B" by (simp add: h_def B_def)
  have dd: "uint d = d1 * h + d0" "0 \<le> d0" "d0 < h" by (simp_all add: d1_def d0_def h_def)
  have d1: "2 ^ 31 \<le> d1" "d1 < h"
    using d uint_lt_B [of d] by (auto simp: d1_def h_def B_def)
  have hd1: "h \<le> 2 * d1" using d1 by (simp add: h_def)
  define q0 where "q0 = uint n div d1"
  define r0 where "r0 = uint n mod d1"
  have nq: "uint n = q0 * d1 + r0" "0 \<le> r0" "r0 < d1" "0 \<le> q0" using d1 by (simp_all add: q0_def r0_def pos_imp_zdiv_nonneg_iff)
  have q0h: "q0 \<le> h + 1"
  proof (rule ccontr)
    assume "\<not> q0 \<le> h + 1"
    then have "(h + 2) * d1 \<le> q0 * d1" using d1 by (intro mult_right_mono) auto
    then have "d1 * h + 2 * d1 \<le> uint n" using nq by (simp add: algebra_simps)
    then show False using n dd hd1 by linarith
  qed
  define m where "m = q0 * d0"
  have "m \<le> (h + 1) * (h - 1)" unfolding m_def using q0h dd nq(4) by (intro mult_mono) auto
  also have "\<dots> = B - 1" using hB by (simp add: algebra_simps)
  finally have mB: "m < B" by simp
  have m0: "0 \<le> m" using dd nq(4) by (simp add: m_def)
  define r1 where "r1 = r0 * h + uint x"
  have "r0 * h \<le> (d1 - 1) * h" using nq by (intro mult_right_mono) (auto simp: h_def)
  then have r1: "0 \<le> r1" "r1 < d1 * h" using x nq by (auto simp: r1_def h_def algebra_simps)
  have r1d: "r1 < uint d" using r1 dd by linarith
  have main: "uint n * h + uint x - q0 * uint d = r1 - m"
    unfolding nq(1) dd(1) r1_def m_def by (simp add: algebra_simps)
  have uq: "uint (n div ll_highpart d) = q0"
    by (simp add: q0_def d1_def h_def uint_div uint_ll_highpart)
  have ud1: "uint (ll_highpart d) = d1" "uint (ll_lowpart d) = d0"
    by (simp_all add: d1_def d0_def h_def uint_ll_highpart uint_ll_lowpart)
  have "q0 * d1 < B" using nq n uint_lt_B [of d] by linarith
  then have uqd: "uint (n div ll_highpart d * ll_highpart d) = q0 * d1"
    using uq ud1 uint_mult_limb_no_overflow [of "n div ll_highpart d" "ll_highpart d"] by simp
  have ur: "uint (n - n div ll_highpart d * ll_highpart d) = r0"
    using uqd nq by (simp add: sub_limb_value)
  have R: "n - n div ll_highpart d * ll_highpart d = of_int r0" using ur by (rule limb_of_uint)
  have "uint ((n - n div ll_highpart d * ll_highpart d) * ll_B OR x) = r1"
    using or_shifted_half [of "n - n div ll_highpart d * ll_highpart d" x] ur nq d1 x by (simp add: r1_def h_def)
  then have R1: "(n - n div ll_highpart d * ll_highpart d) * ll_B OR x = of_int r1" by (rule limb_of_uint)
  have "uint (n div ll_highpart d * ll_lowpart d) = m"
    using uq ud1 mB uint_mult_limb_no_overflow [of "n div ll_highpart d" "ll_lowpart d"] by (simp add: m_def)
  then have M: "n div ll_highpart d * ll_lowpart d = of_int m" by (rule limb_of_uint)
  have Q: "n div ll_highpart d = of_int q0" using uq by (rule limb_of_uint)
  have ur1: "uint (of_int r1 :: limb) = r1" "uint (of_int m :: limb) = m"
    using r1 m0 mB by (auto intro!: uint_of_int_limb order.strict_trans [OF r1d uint_lt_B])
  have lt: "(of_int r1 :: limb) < of_int m \<longleftrightarrow> r1 < m" by (simp add: less_limb_iff ur1)
  have ih: "udiv_half n x d =
      (if r1 < m then
         (if d \<le> of_int r1 + d then
            (if of_int r1 + d < of_int m then (of_int q0 - 1 - 1, of_int r1 + d + d - of_int m)
             else (of_int q0 - 1, of_int r1 + d - of_int m))
          else (of_int q0 - 1, of_int r1 + d - of_int m))
       else (of_int q0, of_int r1 - of_int m))"
    unfolding udiv_half_def Let_def Q R1 [unfolded Q] M [unfolded Q] lt by simp
  obtain j where j: "(q, r) = (of_int (q0 - j), of_int (r1 + j * uint d - m))" "0 \<le> r1 + j * uint d - m"
    "r1 + j * uint d - m < uint d"
  proof (cases "r1 < m")
    case False
    then have "(q, r) = (of_int (q0 - 0), of_int (r1 + 0 * uint d - m))" using ih r by simp
    then show thesis using that [of 0] False r1d m0 by simp
  next
    case True
    have s: "uint (of_int r1 + d) = r1 + uint d - of_bool (B \<le> r1 + uint d) * B"
      by (simp add: add_limb_value ur1)
    have k: "(d \<le> of_int r1 + d) = (r1 + uint d < B)" "r1 + uint d < B \<Longrightarrow> (of_int r1 + d < of_int m) = (r1 + uint d < m)"
      using s r1 order.strict_trans [OF r1d uint_lt_B] by (auto simp: le_limb_iff less_limb_iff ur1)
    have d2: "B \<le> 2 * uint d" using d by (simp add: B_def)
    show thesis
    proof (cases "r1 + uint d < B \<and> r1 + uint d < m")
      case two: True
      have "(q, r) = (of_int (q0 - 2), of_int (r1 + 2 * uint d - m))" using ih r True two k by simp
      then show thesis using that [of 2] two d2 mB r1 by simp
    next
      case False
      then have "(q, r) = (of_int (q0 - 1), of_int (r1 + 1 * uint d - m))" using ih r True k by auto
      then show thesis using that [of 1] False True mB by auto
    qed
  qed
  have v: "(q0 - j) * uint d + (r1 + j * uint d - m) = uint n * h + uint x"
    using main by (simp add: algebra_simps)
  have qr: "q = of_int (q0 - j)" "r = of_int (r1 + j * uint d - m)" using j(1) by (simp_all only: prod.inject)
  have ur': "uint r = r1 + j * uint d - m"
    unfolding qr by (rule uint_of_int_limb [OF j(2) order.strict_trans [OF j(3) uint_lt_B]])
  have nh: "uint n * h + uint x < uint d * h"
  proof -
    have "(uint n + 1) * h \<le> uint d * h" using n by (intro mult_right_mono) (auto simp: h_def)
    then show ?thesis using x by (simp add: h_def algebra_simps)
  qed
  have d0': "0 < uint d" using n uint_ge_0 [of n] by linarith
  have "(q0 - j) * uint d < h * uint d" using v nh j(2) by (simp only: mult.commute [of "uint d"])
  then have qh: "q0 - j < h" using d0' by simp
  have "- 1 * uint d < (q0 - j) * uint d"
    using v j(3) mult_nonneg_nonneg [OF uint_ge_0 [of n] h0] uint_ge_0 [of x] by linarith
  then have "- 1 < q0 - j" using d0' mult_less_cancel_right_pos by blast
  then have uq': "uint q = q0 - j" unfolding qr using qh by (intro uint_of_int_limb) (simp_all add: h_def B_def)
  show "uint q * uint d + uint r = uint n * 2 ^ 32 + uint x" unfolding uq' ur' v by (simp add: h_def)
  show "uint r < uint d" using j(3) ur' by simp
  show "uint q < 2 ^ 32" using uq' qh by (simp add: h_def)
qed

theorem udiv_qrnnd_c_value:
  assumes n: "n1 < d" and d: "2 ^ 63 \<le> uint d" and r: "udiv_qrnnd_c n1 n0 d = (q, r)"
  shows "uint q * uint d + uint r = uint n1 * B + uint n0" "r < d"
proof -
  obtain q1 r1 where 1: "udiv_half n1 (ll_highpart n0) d = (q1, r1)" by fastforce
  obtain q0 r0 where 2: "udiv_half r1 (ll_lowpart n0) d = (q0, r0)" by fastforce
  have x1: "uint (ll_highpart n0) < 2 ^ 32" using uint_lt_B [of n0] by (simp add: uint_ll_highpart B_def)
  have x0: "uint (ll_lowpart n0) < 2 ^ 32" by (simp add: uint_ll_lowpart)
  note a = udiv_half_value [OF n [unfolded less_limb_iff] d x1 1]
  note b = udiv_half_value [OF a(2) d x0 2]
  have e: "q = q1 * ll_B OR q0" "r = r0" using r 1 2 by (simp_all add: udiv_qrnnd_c_def)
  have q: "uint q = uint q1 * 2 ^ 32 + uint q0" unfolding e(1) by (rule or_shifted_half [OF a(3) b(3)])
  have n0: "uint n0 = uint (ll_highpart n0) * 2 ^ 32 + uint (ll_lowpart n0)"
    by (simp add: uint_ll_highpart uint_ll_lowpart)
  have "uint q * uint d + uint r = (uint q1 * uint d) * 2 ^ 32 + (uint q0 * uint d + uint r0)"
    unfolding q e(2) by (simp add: algebra_simps)
  also have "\<dots> = (uint q1 * uint d + uint r1) * 2 ^ 32 + uint (ll_lowpart n0)"
    unfolding b(1) by (simp add: algebra_simps)
  also have "\<dots> = uint n1 * B + uint n0" unfolding a(1) n0 by (simp add: B_def algebra_simps)
  finally show "uint q * uint d + uint r = uint n1 * B + uint n0" .
  show "r < d" using b(2) e(2) by (simp add: less_limb_iff)
qed


subsection \<open>Division by multiplication with an inverse\<close>

text \<open>The generic \<^verbatim>\<open>udiv_qrnnd\<close> is \<^verbatim>\<open>__udiv_qrnnd_c\<close>.\<close>

definition invert_limb :: "limb \<Rightarrow> limb" where
  "invert_limb xl = fst (udiv_qrnnd_c (NOT xl) (NOT 0) xl)"

definition LIMB_HIGHBIT_TO_MASK :: "limb \<Rightarrow> limb" where
  "LIMB_HIGHBIT_TO_MASK n = (if sint n < 0 then NOT 0 else 0)"

definition udiv_qrnnd_preinv2 :: "limb \<Rightarrow> limb \<Rightarrow> limb \<Rightarrow> limb \<Rightarrow> limb \<times> limb" where
  "udiv_qrnnd_preinv2 nh nl d di =
     (let n2 = nh; n10 = nl;
          nmask = LIMB_HIGHBIT_TO_MASK n10;
          nadj = n10 + (nmask AND d);
          (xh, xl) = umul_ppmm di (n2 - nmask);
          (xh, xl) = add_ssaaaa xh xl n2 nadj;
          q1 = NOT xh;
          (xh, xl) = umul_ppmm q1 d;
          (xh, xl) = add_ssaaaa xh xl nh nl;
          xh = xh - d
      in (xh - q1, xl + (d AND xh)))"

lemma invert_limb_value:
  assumes "2 ^ 63 \<le> uint d"
  shows "\<exists>k. (B + uint (invert_limb d)) * uint d = B * B - k \<and> 1 \<le> k \<and> k \<le> uint d"
proof -
  obtain q r where qr: "udiv_qrnnd_c (NOT d) (NOT 0) d = (q, r)" by fastforce
  have "NOT d < d" using assms by (simp add: less_limb_iff uint_not_limb B_def)
  note v = udiv_qrnnd_c_value [OF this assms qr]
  have "uint q * uint d + uint r = (B - 1 - uint d) * B + (B - 1)" using v(1) by (simp add: uint_not_limb uint_limb_max)
  then have "(B + uint q) * uint d = B * B - (uint r + 1)" by (simp add: algebra_simps)
  moreover have "uint r + 1 \<le> uint d" using v(2) by (simp add: less_limb_iff)
  ultimately show ?thesis using qr by (intro exI [of _ "uint r + 1"]) (simp add: invert_limb_def)
qed

lemma two_limbs_lt: "uint (a :: limb) * B + uint (b :: limb) < B * B"
proof -
  have "(uint a + 1) * B \<le> B * B" using uint_le_B_minus_1 [of a] by (intro mult_right_mono) (linarith, simp)
  then show ?thesis using uint_lt_B [of b] by (simp only: distrib_right mult_1)
qed

lemma add_ssaaaa_value:
  assumes "add_ssaaaa ah al bh bl = (sh, sl)"
  shows "uint sh * B + uint sl = (uint ah * B + uint al + uint bh * B + uint bl) mod (B * B)"
proof -
  have e: "sl = al + bl" "sh = ah + bh + of_bool (al + bl < al)" using assms by (auto simp: add_ssaaaa_def Let_def)
  let ?c = "of_bool (B \<le> uint al + uint bl) :: int"
  have sl: "uint sl = uint al + uint bl - ?c * B" unfolding e by (simp add: add_limb_value)
  have "sh = of_int (uint ah + uint bh + ?c)" unfolding e add_limb_carry_left by simp
  then have "uint sh = (uint ah + uint bh + ?c) mod B" by (simp add: uint_word_of_int B_def del: of_int_add)
  then obtain k where k: "uint sh = uint ah + uint bh + ?c - B * k"
    by (metis minus_mult_div_eq_mod)
  have "uint sh * B + uint sl = (uint ah * B + uint al + uint bh * B + uint bl) + (B * B) * (- k)"
    unfolding k sl by (simp add: algebra_simps)
  then have "(uint sh * B + uint sl) mod (B * B) = (uint ah * B + uint al + uint bh * B + uint bl) mod (B * B)"
    by (simp only: mod_mult_self2)
  then show ?thesis using two_limbs_lt [of sh sl] by (simp add: mod_pos_pos_trivial)
qed

text \<open>The estimate of the quotient from the inverse is the quotient or one less.\<close>

lemma preinv_estimate:
  fixes n2 n10 d v k S q' b :: int
  assumes d: "B \<le> 2 * d" "d < B" and n: "0 \<le> n2" "n2 < d" "0 \<le> n10" "n10 < B"
    and v: "v * d = B * B - k" "1 \<le> k" "k \<le> d"
    and b: "b = of_bool (B \<le> 2 * n10)"
    and S: "S = (v - B) * (n2 + b) + n2 * B + (n10 + b * (d - B))"
    and q': "q' = S div B"
  shows "0 \<le> (n2 * B + n10) - q' * d" "(n2 * B + n10) - q' * d < 2 * d"
proof -
  let ?X = "B * ((n2 * B + n10) - q' * d)"
  have dS: "d * S = (B * B - k) * (n2 + b) - B * d * b + d * n10 + d * b * (d - B)"
    unfolding S v(1) [symmetric] by (simp add: algebra_simps)
  have q: "B * q' \<le> S" "S - (B - 1) \<le> B * q'"
    unfolding q' using mult_div_mod_eq [of B S] pos_mod_sign [OF B_pos, of S] pos_mod_bound [OF B_pos, of S] by linarith+
  have lo: "d * (B * q') \<le> d * S" "d * (S - (B - 1)) \<le> d * (B * q')"
    using q n by (intro mult_left_mono; simp)+
  let ?Y = "B * (n2 * B + n10) - d * S"
  have "?Y \<le> ?X" "?X \<le> ?Y + d * (B - 1)" using lo by (simp_all add: algebra_simps)
  have Y: "0 \<le> ?Y \<and> ?Y < d * B + d"
  proof (cases "B \<le> 2 * n10")
    case False
    then have "?Y = n10 * (B - d) + k * n2" unfolding dS b by (simp add: algebra_simps)
    moreover have "n10 * (B - d) \<le> d * (B - d)" using False d n by (intro mult_right_mono) auto
    moreover have "k * n2 \<le> d * d" using n v by (intro mult_mono) auto
    moreover have "d * (B - d) + d * d = d * B" by (simp add: algebra_simps)
    moreover have "0 \<le> n10 * (B - d)" "0 \<le> k * n2" using d n v by simp_all
    ultimately show ?thesis using d n by linarith
  next
    case True
    then have "?Y = (B - d) * (n10 - (B - d)) + k * (n2 + 1)" unfolding dS b by (simp add: algebra_simps)
    moreover have "(B - d) * (n10 - (B - d)) \<le> (B - d) * d" using d n by (intro mult_left_mono) auto
    moreover have "k * (n2 + 1) \<le> d * d" using n v by (intro mult_mono) auto
    moreover have "(B - d) * d + d * d = d * B" by (simp add: algebra_simps)
    moreover have "0 \<le> (B - d) * (n10 - (B - d))" "0 \<le> k * (n2 + 1)" using d n v True by simp_all
    ultimately show ?thesis using d n by linarith
  qed
  then have "0 \<le> ?X" "?X < B * (2 * d)"
    using \<open>?Y \<le> ?X\<close> \<open>?X \<le> ?Y + d * (B - 1)\<close> by (simp_all add: algebra_simps)
  then show "0 \<le> (n2 * B + n10) - q' * d" "(n2 * B + n10) - q' * d < 2 * d"
    using mult_le_cancel_left_pos [OF B_pos, of 0] by simp_all
qed

lemma limb_pair_unique:
  assumes "uint (a :: limb) * B + uint (b :: limb) = k * B + l" "0 \<le> l" "l < B"
  shows "uint a = k" "uint b = l"
  using zdiv_mod_unique [OF refl assms(2,3), of k] zdiv_mod_unique [OF refl uint_ge_0 uint_lt_B, of "uint a" b]
    assms(1) by simp_all

lemma high_mask:
  "LIMB_HIGHBIT_TO_MASK n = (if B \<le> 2 * uint n then - 1 else 0)"
proof -
  have "sint n < 0 \<longleftrightarrow> B \<le> 2 * uint n" using uint_lt_B [of n] by (simp add: sint_limb B_def)
  then show ?thesis by (simp add: LIMB_HIGHBIT_TO_MASK_def)
qed



theorem udiv_qrnnd_preinv2_value:
  assumes n: "nh < d" and d: "2 ^ 63 \<le> uint d" and r: "udiv_qrnnd_preinv2 nh nl d (invert_limb d) = (q, r)"
  shows "uint q * uint d + uint r = uint nh * B + uint nl" "r < d"
proof -
  let ?N = "uint nh * B + uint nl" and ?D = "uint d"
  obtain k where k: "(B + uint (invert_limb d)) * ?D = B * B - k" "1 \<le> k" "k \<le> ?D"
    using invert_limb_value [OF d] by blast
  define b :: int where "b = of_bool (B \<le> 2 * uint nl)"
  define nmask where "nmask = LIMB_HIGHBIT_TO_MASK nl"
  have D: "B \<le> 2 * ?D" using d by (simp add: B_def)
  have nd: "uint nh < ?D" using n by (simp add: less_limb_iff)
  have "uint nh + 1 < B" using nd uint_le_B_minus_1 [of d] by linarith
  then have "uint (nh - nmask) = uint nh + b"
    by (simp add: nmask_def high_mask b_def add_limb_value)
  note n2 = this
  have nadj: "uint (nl + (nmask AND d)) = uint nl + b * (?D - B)"
  proof -
    have "\<not> B \<le> uint nl" using uint_lt_B [of nl] by linarith
    then show ?thesis using D by (simp add: nmask_def high_mask b_def add_limb_value)
  qed
  obtain xh xl where x: "umul_ppmm (invert_limb d) (nh - nmask) = (xh, xl)" by fastforce
  obtain yh yl where y: "add_ssaaaa xh xl nh (nl + (nmask AND d)) = (yh, yl)" by fastforce
  define S where "S = uint (invert_limb d) * (uint nh + b) + uint nh * B + (uint nl + b * (?D - B))"
  define q' where "q' = S div B"
  have S': "S = (B + uint (invert_limb d) - B) * (uint nh + b) + uint nh * B + (uint nl + b * (?D - B))"
    by (simp add: S_def)
  note est = preinv_estimate [OF D uint_lt_B uint_ge_0 nd uint_ge_0 uint_lt_B k b_def S' q'_def]
  have ND: "?N < ?D * B"
  proof -
    have "(uint nh + 1) * B \<le> ?D * B" using nd by (intro mult_right_mono) simp_all
    then show ?thesis using uint_lt_B [of nl] by (simp only: distrib_right mult_1)
  qed
  have D0: "0 < ?D" using nd uint_ge_0 [of nh] by linarith
  have "q' * ?D < B * ?D" using est(1) ND by (simp only: mult.commute [of ?D]) 
  then have q'B: "q' < B" using D0 by simp
  have b0: "0 \<le> b * (?D - B) + uint nl" using D by (simp add: b_def)
  have S0: "0 \<le> S" unfolding S_def using b0 by (simp add: b_def)
  have "S < B * B" using q'B unfolding q'_def by (simp add: zdiv_lt_iff)
  have xv: "uint xh * B + uint xl = uint (invert_limb d) * (uint nh + b)"
    using umul_ppmm_value [OF x] n2 by simp
  have "uint yh * B + uint yl = S mod (B * B)"
    using add_ssaaaa_value [OF y] xv nadj by (simp add: S_def add.assoc)
  then have yv: "S = uint yh * B + uint yl" using S0 \<open>S < B * B\<close> by (simp add: mod_pos_pos_trivial)
  have yq: "uint yh = q'" unfolding q'_def by (rule zdiv_mod_unique(1) [OF yv, symmetric]) simp_all
  define E where "E = ?N - q' * ?D"
  have E: "0 \<le> E" "E < 2 * ?D" using est by (simp_all add: E_def)
  obtain vh vl where v: "umul_ppmm (NOT yh) d = (vh, vl)" by fastforce
  obtain wh wl where w: "add_ssaaaa vh vl nh nl = (wh, wl)" by fastforce
  have qr: "q = wh - d - NOT yh" "r = wl + (d AND (wh - d))"
    using r x y v w unfolding udiv_qrnnd_preinv2_def nmask_def Let_def by (simp_all add: nmask_def)
  have "uint vh * B + uint vl = (B - 1 - q') * ?D" using umul_ppmm_value [OF v] yq by (simp add: uint_not_limb)
  then have "uint vh * B + uint vl + uint nh * B + uint nl = B * ?D + (E - ?D)"
    by (simp add: E_def algebra_simps)
  then have "uint wh * B + uint wl = (B * ?D + (E - ?D)) mod (B * B)" using add_ssaaaa_value [OF w] by simp
  moreover have "0 \<le> B * ?D + (E - ?D)"
  proof -
    have "1 * ?D \<le> B * ?D" by (intro mult_right_mono) simp_all
    then show ?thesis using E by linarith
  qed
  moreover have "B * ?D + (E - ?D) < B * B"
  proof -
    have "B * ?D \<le> B * (B - 1)" using uint_le_B_minus_1 [of d] by (intro mult_left_mono) simp_all
    then have "B * ?D \<le> B * B - B" by (simp add: algebra_simps)
    then show ?thesis using E uint_le_B_minus_1 [of d] by linarith
  qed
  ultimately have wv: "uint wh * B + uint wl = B * ?D + (E - ?D)" by (simp add: mod_pos_pos_trivial)
  have "uint q * ?D + uint r = ?N \<and> uint r < ?D"
  proof (cases "?D \<le> E")
    case True
    have "E - ?D < B" using E uint_lt_B [of d] by linarith
    then have e: "uint wh = ?D" "uint wl = E - ?D"
      using limb_pair_unique [of wh wl ?D "E - ?D"] wv True by (simp_all add: mult.commute)
    have "wh = d" using e(1) by (simp add: eq_limb_iff)
    then have q: "q = yh + 1" "r = wl" unfolding qr by (simp_all add: not_eq_complement)
    have "(q' + 1) * ?D < B * ?D" using True ND by (simp add: E_def algebra_simps)
    then have "q' + 1 < B" using D0 by simp
    then have "uint q = q' + 1" unfolding q by (simp add: add_limb_value yq)
    then show ?thesis unfolding q(2) e(2) using E by (simp add: E_def algebra_simps)
  next
    case False
    have "0 \<le> B + E - ?D" using E uint_lt_B [of d] by linarith
    then have e: "uint wh = ?D - 1" "uint wl = B + E - ?D"
      using limb_pair_unique [of wh wl "?D - 1" "B + E - ?D"] wv False by (simp_all add: algebra_simps)
    have "wh = of_int (uint wh)" by simp
    then have "wh = d - 1" unfolding e by simp
    then have q: "q = yh" "r = wl + d" unfolding qr by (simp_all add: not_eq_complement)
    have "uint r = E" unfolding q add_limb_value e using E by simp
    then show ?thesis unfolding q(1) yq using False by (simp add: E_def algebra_simps)
  qed
  then show "uint q * uint d + uint r = uint nh * B + uint nl" "r < d" by (simp_all add: less_limb_iff)
qed


subsection \<open>Two-limb values\<close>

lemma sub_ddmmss_value:
  assumes "sub_ddmmss ah al bh bl = (sh, sl)"
  shows "uint sh * B + uint sl = (uint ah * B + uint al - (uint bh * B + uint bl)) mod (B * B)"
proof -
  have e: "sl = al - bl" "sh = ah - bh - of_bool (al < bl)" using assms by (auto simp: sub_ddmmss_def Let_def)
  let ?c = "of_bool (uint al < uint bl) :: int"
  have sl: "uint sl = uint al - uint bl + ?c * B" unfolding e by (simp add: sub_limb_value)
  have "sh = of_int (uint ah - uint bh - ?c)" unfolding e less_limb_iff by simp
  then have "uint sh = (uint ah - uint bh - ?c) mod B" by (simp add: uint_word_of_int B_def del: of_int_diff)
  then obtain k where k: "uint sh = uint ah - uint bh - ?c - B * k"
    by (metis minus_mult_div_eq_mod)
  have "uint sh * B + uint sl = (uint ah * B + uint al - (uint bh * B + uint bl)) + (B * B) * (- k)"
    unfolding k sl by (simp add: algebra_simps)
  then have "(uint sh * B + uint sl) mod (B * B) = (uint ah * B + uint al - (uint bh * B + uint bl)) mod (B * B)"
    by (simp only: mod_mult_self2)
  then show ?thesis using two_limbs_lt [of sh sl] by (simp add: mod_pos_pos_trivial)
qed

text \<open>The value of limbs taken from the most significant one down, onto a value already read.\<close>

fun mval :: "int \<Rightarrow> limb list \<Rightarrow> int" where
  "mval a [] = a"
| "mval a (x # xs) = mval (a * B + uint x) xs"

lemma mval_lval: "mval a xs = a * B ^ length xs + lval (rev xs)"
  by (induction xs arbitrary: a) (simp_all add: lval_append algebra_simps)

lemma mval_0_rev: "mval 0 (rev xs) = lval xs"
  by (simp add: mval_lval)

lemma mval_append: "mval a (xs @ ys) = mval (mval a xs) ys"
  by (induction xs arbitrary: a) simp_all

subsection \<open>The loop of a long division\<close>

text \<open>
  One loop of \<^verbatim>\<open>mpn_divrem_1\<close>: the dividend limbs most significant first, \<open>udiv\<close> the division
  macro applied to the remainder so far and the next limb. The quotient limbs come out most significant
  first too.
\<close>

fun div_loop :: "(limb \<Rightarrow> limb \<Rightarrow> limb \<times> limb) \<Rightarrow> limb list \<Rightarrow> limb \<Rightarrow> limb list \<times> limb" where
  "div_loop udiv [] r = ([], r)"
| "div_loop udiv (n0 # ns) r =
     (let (q, r) = udiv r n0; (qs, r) = div_loop udiv ns r in (q # qs, r))"

text \<open>The loop for a divisor that was shifted left by \<open>norm\<close>: the dividend is shifted on the way.\<close>

fun div_shift_loop ::
  "(limb \<Rightarrow> limb \<Rightarrow> limb \<times> limb) \<Rightarrow> nat \<Rightarrow> limb \<Rightarrow> limb list \<Rightarrow> limb \<Rightarrow> limb list \<times> limb" where
  "div_shift_loop udiv norm n1 [] r = (let (q, r) = udiv r (push_bit norm n1) in ([q], r))"
| "div_shift_loop udiv norm n1 (n0 # ns) r =
     (let (q, r) = udiv r (push_bit norm n1 OR drop_bit (64 - norm) n0);
          (qs, r) = div_shift_loop udiv norm n0 ns r
      in (q # qs, r))"

lemma div_shift_loop_eq: "div_shift_loop udiv norm n1 ns r = div_loop udiv (lshift_loop norm (push_bit norm n1) ns) r"
  by (induction ns arbitrary: n1 r) (simp_all add: split_beta)

text \<open>A division step for the divisor \<open>d\<close>: both macros are one.\<close>

definition udiv_step :: "(limb \<Rightarrow> limb \<Rightarrow> limb \<times> limb) \<Rightarrow> limb \<Rightarrow> bool" where
  "udiv_step udiv d \<longleftrightarrow>
     (\<forall>n1 n0. n1 < d \<longrightarrow> (case udiv n1 n0 of (q, r) \<Rightarrow> uint q * uint d + uint r = uint n1 * B + uint n0 \<and> r < d))"

lemma udiv_step_c: "2 ^ 63 \<le> uint d \<Longrightarrow> udiv_step (\<lambda>n1 n0. udiv_qrnnd_c n1 n0 d) d"
  unfolding udiv_step_def using udiv_qrnnd_c_value by (auto split: prod.split)

lemma udiv_step_preinv2: "2 ^ 63 \<le> uint d \<Longrightarrow> udiv_step (\<lambda>n1 n0. udiv_qrnnd_preinv2 n1 n0 d (invert_limb d)) d"
  unfolding udiv_step_def using udiv_qrnnd_preinv2_value by (auto split: prod.split)

lemma udiv_stepD:
  assumes "udiv_step udiv d" "n1 < d" "udiv n1 n0 = (q, r)"
  shows "uint q * uint d + uint r = uint n1 * B + uint n0" "r < d"
  using assms by (auto simp: udiv_step_def split: prod.splits)

lemma div_loop_value:
  assumes "udiv_step udiv d" "r < d" "div_loop udiv ns r = (qs, r')"
  shows "mval 0 qs * uint d + uint r' = mval (uint r) ns \<and> r' < d \<and> length qs = length ns"
  using assms(2,3)
proof (induction ns arbitrary: r qs)
  case (Cons n0 ns)
  obtain q r1 where s: "udiv r n0 = (q, r1)" by fastforce
  note v = udiv_stepD [OF assms(1) Cons.prems(1) s]
  obtain qs' where l: "div_loop udiv ns r1 = (qs', r')" "qs = q # qs'"
    using Cons.prems(2) s by (auto split: prod.splits)
  note ih = Cons.IH [OF v(2) l(1)]
  have "mval (uint r) (n0 # ns) = (uint q * uint d + uint r1) * B ^ length ns + lval (rev ns)"
    using v(1) by (simp add: mval_lval lval_append algebra_simps)
  moreover have "mval 0 qs' * uint d + uint r' = uint r1 * B ^ length ns + lval (rev ns)"
    using ih by (simp add: mval_lval)
  moreover have "mval 0 qs = uint q * B ^ length ns + mval 0 qs'"
    using ih l(2) by (simp add: mval_lval lval_append)
  ultimately show ?case using ih l(2) by (simp add: algebra_simps)
qed simp

text \<open>The dividend limbs in the shifted order denote the shifted dividend.\<close>

lemma mval_lshift_loop:
  assumes "0 < norm" "norm < 64" "uint r < 2 ^ (64 - norm)"
  shows "mval (uint (push_bit norm r OR drop_bit (64 - norm) n1)) (lshift_loop norm (push_bit norm n1) ns)
           = mval (uint r) (n1 # ns) * 2 ^ norm"
proof -
  have "uint r * 2 ^ norm < 2 ^ (64 - norm) * 2 ^ norm" using assms by simp
  then have p: "uint (push_bit norm r) = uint r * 2 ^ norm"
    using pow_split [OF assms(2)] by (simp add: uint_push_limb mod_pos_pos_trivial)
  let ?P = "B ^ length ns"
  have "mval (uint (push_bit norm r OR drop_bit (64 - norm) n1)) (lshift_loop norm (push_bit norm n1) ns)
      = (uint r * 2 ^ norm) * (?P * B) + ?P * (uint (push_bit norm n1) + B * uint (drop_bit (64 - norm) n1))
        + lval (rev ns) * 2 ^ norm"
    unfolding mval_lval lshift_loop_value [OF assms(1,2)] uint_or_shifted [OF assms(1,2)] p
    by (simp add: algebra_simps)
  also have "\<dots> = mval (uint r) (n1 # ns) * 2 ^ norm"
    unfolding shift_limb_value [OF assms(1,2)] mval_lval by (simp add: lval_append algebra_simps)
  finally show ?thesis .
qed

end
