(* ===== verification/Mpn_Hensel.thy ===== *)
theory Mpn_Hensel
  imports Mpn_Div
begin

unbundle bit_operations_syntax

text \<open>
  Exact division from the low end. The inverse of an odd limb modulo the limb base
  (\<^verbatim>\<open>modlimb_invert\<close> of \<^verbatim>\<open>gmp-impl.h\<close> over the table of \<^verbatim>\<open>mp_minv_tab.c\<close>) and the Hensel divisions
  \<^verbatim>\<open>mpn_rsh_divrem_hensel_qr_1_1\<close> and \<^verbatim>\<open>mpn_rsh_divrem_hensel_qr_1_2\<close>, which produce the quotient
  shifted right as they go.
\<close>

subsection \<open>The inverse of an odd limb\<close>

definition modlimb_invert_table :: "limb list" where
  "modlimb_invert_table = [
    0x01, 0xAB, 0xCD, 0xB7, 0x39, 0xA3, 0xC5, 0xEF,
    0xF1, 0x1B, 0x3D, 0xA7, 0x29, 0x13, 0x35, 0xDF,
    0xE1, 0x8B, 0xAD, 0x97, 0x19, 0x83, 0xA5, 0xCF,
    0xD1, 0xFB, 0x1D, 0x87, 0x09, 0xF3, 0x15, 0xBF,
    0xC1, 0x6B, 0x8D, 0x77, 0xF9, 0x63, 0x85, 0xAF,
    0xB1, 0xDB, 0xFD, 0x67, 0xE9, 0xD3, 0xF5, 0x9F,
    0xA1, 0x4B, 0x6D, 0x57, 0xD9, 0x43, 0x65, 0x8F,
    0x91, 0xBB, 0xDD, 0x47, 0xC9, 0xB3, 0xD5, 0x7F,
    0x81, 0x2B, 0x4D, 0x37, 0xB9, 0x23, 0x45, 0x6F,
    0x71, 0x9B, 0xBD, 0x27, 0xA9, 0x93, 0xB5, 0x5F,
    0x61, 0x0B, 0x2D, 0x17, 0x99, 0x03, 0x25, 0x4F,
    0x51, 0x7B, 0x9D, 0x07, 0x89, 0x73, 0x95, 0x3F,
    0x41, 0xEB, 0x0D, 0xF7, 0x79, 0xE3, 0x05, 0x2F,
    0x31, 0x5B, 0x7D, 0xE7, 0x69, 0x53, 0x75, 0x1F,
    0x21, 0xCB, 0xED, 0xD7, 0x59, 0xC3, 0xE5, 0x0F,
    0x11, 0x3B, 0x5D, 0xC7, 0x49, 0x33, 0x55, 0xFF]"

definition modlimb_invert :: "limb \<Rightarrow> limb" where
  "modlimb_invert n =
     (let inv = modlimb_invert_table ! unat (n div 2 AND 0x7F);
          inv = 2 * inv - inv * inv * n;
          inv = 2 * inv - inv * inv * n;
          inv = 2 * inv - inv * inv * n
      in inv)"

lemma table_inverse_all:
  "list_all (\<lambda>i. (modlimb_invert_table ! i * of_nat (2 * i + 1)) AND 0xFF = 1) [0..<128]"
  by code_simp

lemma and_ff_eq_1: "(x AND 0xFF = 1) = (uint (x :: limb) mod 2 ^ 8 = 1)"
proof -
  have "x AND 0xFF = take_bit 8 x" by (simp add: take_bit_eq_mask mask_eq_exp_minus_1)
  then show ?thesis by (simp only: eq_limb_iff uint_take_limb uint_1_eq)
qed

lemma odd_uint_limb: "odd (uint (n :: limb)) \<longleftrightarrow> odd n"
  using bit_uint_iff [of n 0] by (simp add: bit_0)

lemma table_inverse:
  fixes n :: limb
  assumes "odd n"
  shows "uint (modlimb_invert_table ! unat (n div 2 AND 0x7F)) * uint n mod 2 ^ 8 = 1"
proof -
  let ?i = "unat (n div 2 AND 0x7F :: limb)"
  have m: "n div 2 AND 0x7F = take_bit 7 (n div 2)" by (simp add: take_bit_eq_mask mask_eq_exp_minus_1)
  have u: "uint (n div 2 AND 0x7F) = uint n div 2 mod 2 ^ 7"
    unfolding m uint_take_limb by (simp add: uint_div)
  have ui: "int ?i = uint n div 2 mod 2 ^ 7" unfolding u [symmetric] by simp
  have ib: "int ?i < 128" unfolding ui by simp
  then have i: "?i < 128" by linarith
  then have "?i \<in> set [0..<128]" by simp
  then have t: "(modlimb_invert_table ! ?i * of_nat (2 * ?i + 1)) AND 0xFF = 1"
    using table_inverse_all unfolding list_all_iff by blast
  have o: "uint n mod 2 = 1" using odd_uint_limb [of n] assms by (simp add: odd_iff_mod_2_eq_one)
  have n: "(2 * int ?i + 1) mod 2 ^ 8 = uint n mod 2 ^ 8" proof -
    have "uint n = 2 * (uint n div 2) + 1" using o mult_div_mod_eq [of 2 "uint n"] by simp
    moreover have "2 * (uint n div 2 mod 2 ^ 7) = 2 * (uint n div 2) mod 2 ^ 8" by (simp add: mult_mod_right)
    ultimately show ?thesis unfolding ui by (metis mod_add_left_eq)
  qed
  have v: "uint (of_nat (2 * ?i + 1) :: limb) = 2 * int ?i + 1"
  proof -
    have "uint (word_of_int (2 * int ?i + 1) :: limb) = 2 * int ?i + 1"
      by (rule uint_of_int_limb) (linarith, rule order.strict_trans [of _ 257], use ib in linarith, simp add: B_def)
    then show ?thesis by (simp add: add.commute)
  qed
  have "uint (modlimb_invert_table ! ?i * of_nat (2 * ?i + 1))
      = uint (modlimb_invert_table ! ?i) * (2 * int ?i + 1) mod 2 ^ 64"
    unfolding uint_word_ariths v by simp
  moreover have "(2 :: int) ^ 8 dvd 2 ^ 64" by simp
  ultimately have "uint (modlimb_invert_table ! ?i * of_nat (2 * ?i + 1)) mod 2 ^ 8
      = uint (modlimb_invert_table ! ?i) * (2 * int ?i + 1) mod 2 ^ 8"
    by (simp only: mod_mod_cancel)
  then have "uint (modlimb_invert_table ! ?i) * (2 * int ?i + 1) mod 2 ^ 8 = 1"
    using t unfolding and_ff_eq_1 by simp
  then show ?thesis using n by (metis mod_mult_right_eq)
qed

lemma newton_inverse:
  fixes v n :: int
  assumes "2 ^ k dvd v * n - 1"
  shows "2 ^ (2 * k) dvd (2 * v - v * v * n) * n - 1"
proof -
  have e: "(2 * v - v * v * n) * n - 1 = - ((v * n - 1) * (v * n - 1))" by (simp add: algebra_simps)
  have "2 ^ k * 2 ^ k dvd (v * n - 1) * (v * n - 1)" using assms by (rule mult_dvd_mono) (rule assms)
  then show ?thesis unfolding e by (simp add: mult_2 power_add)
qed

lemma newton_step:
  fixes v n :: limb
  assumes "2 ^ k dvd uint v * uint n - 1" "2 * k \<le> 64"
  shows "2 ^ (2 * k) dvd uint (2 * v - v * v * n) * uint n - 1"
proof -
  let ?w = "2 * uint v - uint v * uint v * uint n"
  have "2 * v - v * v * n = of_int ?w" by simp
  then have "uint (2 * v - v * v * n) = ?w mod B" by (simp add: uint_word_of_int B_def del: of_int_diff of_int_mult)
  then obtain j where j: "uint (2 * v - v * v * n) = ?w - B * j" by (metis minus_mult_div_eq_mod)
  have "(2 :: int) ^ (2 * k) dvd B" unfolding B_def using assms(2) by (intro le_imp_power_dvd)
  then have "2 ^ (2 * k) dvd (?w * uint n - 1) - B * (j * uint n)"
    by (intro dvd_diff newton_inverse [OF assms(1)] dvd_mult2)
  also have "(?w * uint n - 1) - B * (j * uint n) = uint (2 * v - v * v * n) * uint n - 1"
    unfolding j by (simp add: algebra_simps)
  finally show ?thesis .
qed

lemma modlimb_invert_value:
  assumes "odd n"
  shows "B dvd uint (modlimb_invert n) * uint n - 1" "modlimb_invert n * n = 1"
proof -
  let ?t = "modlimb_invert_table ! unat (n div 2 AND 0x7F)"
  have "2 ^ 8 dvd uint ?t * uint n - 1"
    using table_inverse [OF assms] mod_eq_dvd_iff [of "uint ?t * uint n" "2 ^ 8" 1] by simp
  from newton_step [OF newton_step [OF newton_step [OF this]]]
  show d: "B dvd uint (modlimb_invert n) * uint n - 1" by (simp add: modlimb_invert_def Let_def B_def)
  have "uint (modlimb_invert n * n) = uint (modlimb_invert n) * uint n mod B"
    by (simp add: uint_word_ariths B_def)
  also have "\<dots> = 1" using d mod_eq_dvd_iff [of "uint (modlimb_invert n) * uint n" B 1] by (simp add: mod_pos_pos_trivial)
  finally show "modlimb_invert n * n = 1" by (simp add: eq_limb_iff)
qed

subsection \<open>Hensel division, one limb at a time\<close>

text \<open>The borrow of \<open>t\<close> from \<open>h1\<close>, as both routines spell it.\<close>

fun hensel_loop_1 :: "limb \<Rightarrow> limb \<Rightarrow> nat \<Rightarrow> limb \<Rightarrow> limb \<Rightarrow> limb \<Rightarrow> limb list \<Rightarrow> limb list \<times> limb" where
  "hensel_loop_1 m d s qo h c [] = ([qo], h + c)"
| "hensel_loop_1 m d s qo h c (x # xp) =
     (let h1 = x; t = h + c;
          (h1, c) = (if t > h1 then (h1 - t, 1) else (h1 - t, 0));
          q = h1 * m;
          qo = qo OR push_bit 1 (push_bit (63 - s) q);
          (h, dummy) = umul_ppmm q d;
          (qp, ret) = hensel_loop_1 m d s (drop_bit s q) h c xp
      in (qo # qp, ret))"

definition mpn_rsh_divrem_hensel_qr_1_1 :: "limb list \<Rightarrow> limb \<Rightarrow> nat \<Rightarrow> limb \<Rightarrow> limb list \<times> limb" where
  "mpn_rsh_divrem_hensel_qr_1_1 xp d s cin =
     (let m = modlimb_invert d;
          h1 = hd xp; c = 0; h = cin;
          t = h + c;
          (h1, c) = (if t > h1 then (h1 - t, 1) else (h1 - t, 0));
          q = h1 * m; qo = drop_bit s q;
          (h, dummy) = umul_ppmm q d
      in hensel_loop_1 m d s qo h c (tl xp))"

text \<open>
  One quotient limb: with \<open>t\<close> the borrow into the limb \<open>x\<close>, the new borrow is the high limb of the product plus the
  borrow of the subtraction, and it stays below the divisor.
\<close>

lemma hensel_step:
  fixes x t d m q h l :: limb
  assumes m: "m * d = 1" and q: "q = (x - t) * m" and p: "umul_ppmm q d = (h, l)"
  shows "uint x - uint t = uint q * uint d - (uint h + of_bool (x < t)) * B"
    and "uint h + of_bool (x < t) \<le> uint d" and "uint h < uint d"
proof -
  have qd: "q * d = x - t" using m by (simp add: q mult.assoc)
  have v: "uint q * uint d = uint h * B + uint l" using umul_ppmm_value [OF p] by simp
  have "uint (q * d) = uint q * uint d mod B" by (simp add: uint_word_ariths B_def)
  also have "\<dots> = uint l" unfolding v by (simp add: mod_pos_pos_trivial)
  finally have l: "uint l = uint (x - t)" using qd by simp
  show "uint x - uint t = uint q * uint d - (uint h + of_bool (x < t)) * B"
    unfolding v l sub_limb_value less_limb_iff by (simp add: algebra_simps)
  have d0: "0 < uint d" using m by (metis limb_ne_0_iff mult_zero_right zero_neq_one)
  have "uint h * B \<le> uint q * uint d" unfolding v by simp
  also have "\<dots> \<le> (B - 1) * uint d" using uint_le_B_minus_1 [of q] by (intro mult_right_mono) simp_all
  also have "\<dots> < B * uint d" using d0 by (intro mult_strict_right_mono) simp_all
  finally have "uint h * B < uint d * B" by (simp only: mult.commute)
  then show hd: "uint h < uint d" by simp
  then show "uint h + of_bool (x < t) \<le> uint d" by simp
qed

text \<open>The quotient limb joined to the shifted quotient before it.\<close>

lemma hensel_shift:
  fixes q y :: limb
  assumes s: "s < 64"
  shows "uint (drop_bit s y OR push_bit 1 (push_bit (63 - s) q)) + B * uint (drop_bit s q)
           = uint (drop_bit s y) + uint q * 2 ^ (64 - s)"
proof (cases "s = 0")
  case True
  have "push_bit 1 (push_bit 63 q) = push_bit 64 q" by simp
  then show ?thesis using True by (simp add: B_def)
next
  case False
  have "1 + (63 - s) = 64 - s" using s by simp
  then have "push_bit 1 (push_bit (63 - s) q) = push_bit (64 - s) q" by (simp only: push_bit_push_bit)
  moreover have "uint (drop_bit s y OR push_bit (64 - s) q) = uint (push_bit (64 - s) q) + uint (drop_bit s y)"
    using uint_or_shifted [of "64 - s" q y] False s by (simp add: or.commute)
  ultimately show ?thesis using shift_limb_value [of "64 - s" q] False s by simp
qed

text \<open>
  What is left of a Hensel division from the limbs \<open>xp\<close> on, with borrow \<open>t\<close> and the last quotient limb already shifted
  to \<open>qo\<close>: an unshifted quotient \<open>q\<close> and a final borrow \<open>ret\<close>.
\<close>

definition hensel_out :: "limb \<Rightarrow> nat \<Rightarrow> int \<Rightarrow> int \<Rightarrow> limb list \<Rightarrow> limb list \<Rightarrow> limb \<Rightarrow> bool" where
  "hensel_out d s t qo xp qp ret \<longleftrightarrow>
     (\<exists>q. lval xp - t = q * uint d - uint ret * B ^ length xp \<and> 0 \<le> q \<and> q < B ^ length xp
          \<and> lval qp = qo + q * 2 ^ (64 - s) \<and> length qp = length xp + 1 \<and> uint ret \<le> uint d)"

lemma hensel_out_Nil: "uint h + uint c \<le> uint d \<Longrightarrow> uint h + uint c < B \<Longrightarrow> hensel_out d s (uint h + uint c) (uint qo) [] [qo] (h + c)"
  unfolding hensel_out_def by (intro exI [of _ 0]) (simp add: uint_add_limb)

lemma hensel_out_append:
  assumes x: "lval xs - t = Q * uint d - t' * B ^ length xs" "0 \<le> Q" "Q < B ^ length xs"
    and os: "length os = length xs" "lval os + B ^ length xs * qo' = qo + Q * 2 ^ (64 - s)"
    and r: "hensel_out d s t' qo' xp qp ret"
  shows "hensel_out d s t qo (xs @ xp) (os @ qp) ret"
proof -
  let ?P = "B ^ length xs"
  obtain q where q: "lval xp - t' = q * uint d - uint ret * B ^ length xp" "0 \<le> q" "q < B ^ length xp"
      "lval qp = qo' + q * 2 ^ (64 - s)" "length qp = length xp + 1" "uint ret \<le> uint d"
    using r by (auto simp: hensel_out_def)
  have "lval (xs @ xp) - t = (lval xs - t) + ?P * (lval xp - t') + ?P * t'" by (simp add: lval_append algebra_simps)
  then have "lval (xs @ xp) - t = (Q + ?P * q) * uint d - uint ret * B ^ length (xs @ xp)"
    unfolding x(1) q(1) by (simp add: power_add algebra_simps)
  moreover have "?P * (q + 1) \<le> ?P * B ^ length xp" using q(3) by (intro mult_left_mono) simp_all
  then have "Q + ?P * q < B ^ length (xs @ xp)" using x(3) by (simp only: distrib_left length_append power_add)
  moreover have "lval (os @ qp) = qo + (Q + ?P * q) * 2 ^ (64 - s)"
    using os q(4) by (simp add: lval_append algebra_simps)
  ultimately show ?thesis
    unfolding hensel_out_def using x(2) q os(1) by (intro exI [of _ "Q + ?P * q"]) simp
qed

lemma hensel_loop_1_value:
  assumes m: "m * d = 1" and s: "s < 64"
    and "qo = drop_bit s y" "uint h + uint c \<le> uint d" "uint h + uint c < B" "hensel_loop_1 m d s qo h c xp = (qp, ret)"
  shows "hensel_out d s (uint h + uint c) (uint qo) xp qp ret"
  using assms(3-)
proof (induction xp arbitrary: qo y h c qp)
  case Nil
  then show ?case by (auto intro: hensel_out_Nil)
next
  case (Cons x xp)
  define t where "t = h + c"
  define q where "q = (x - t) * m"
  obtain h' l where p: "umul_ppmm q d = (h', l)" by fastforce
  define c' :: limb where "c' = of_bool (x < t)"
  obtain qp' where r: "hensel_loop_1 m d s (drop_bit s q) h' c' xp = (qp', ret)"
    "qp = (qo OR push_bit 1 (push_bit (63 - s) q)) # qp'"
    using Cons.prems(4) p by (auto simp: t_def q_def c'_def Let_def split: prod.splits if_splits)
  note st = hensel_step [OF m q_def p]
  have c': "uint c' = of_bool (x < t)" by (simp add: c'_def)
  have "uint h' + uint c' \<le> uint d" using st(2) c' by simp
  moreover have "uint h' + uint c' < B" using st(2) c' uint_lt_B [of d] by linarith
  ultimately have ih: "hensel_out d s (uint h' + uint c') (uint (drop_bit s q)) xp qp' ret"
    by (rule Cons.IH [OF refl _ _ r(1)])
  have t: "uint t = uint h + uint c" using Cons.prems(3) by (simp add: t_def uint_add_limb)
  show ?case
    using hensel_out_append [OF _ _ _ _ _ ih, of "[x]" "uint h + uint c" "uint q" "[qo OR push_bit 1 (push_bit (63 - s) q)]" "uint qo"]
      st(1) t c' hensel_shift [OF s, of y q] r(2) Cons.prems(1) by simp
qed

subsection \<open>Hensel division, two limbs at a time\<close>

fun hensel_loop_2 ::
  "limb \<Rightarrow> limb \<Rightarrow> limb \<Rightarrow> nat \<Rightarrow> limb \<Rightarrow> limb \<Rightarrow> limb \<Rightarrow> limb list \<Rightarrow> limb list \<times> limb" where
  "hensel_loop_2 ml mh d s qo h c (xl # xh # xp) =
     (let t = h + c;
          c = (if xh = 0 \<and> t > xl then 1 else 0);
          (xh, xl) = sub_ddmmss xh xl 0 t;
          (qh, ql) = umul_ppmm xl ml;
          qh = qh + xh * ml + xl * mh;
          q0 = qo OR push_bit 1 (push_bit (63 - s) ql);
          qo = drop_bit s ql;
          q1 = qo OR push_bit 1 (push_bit (63 - s) qh);
          qo = drop_bit s qh;
          (h, h1) = umul_ppmm qh d;
          h = (if h1 > xh then h + 1 else h);
          (qp, ret) = hensel_loop_2 ml mh d s qo h c xp
      in (q0 # q1 # qp, ret))"
| "hensel_loop_2 ml mh d s qo h c [x] =
     (let h1 = x; t = h + c;
          (h1, c) = (if t > h1 then (h1 - t, 1) else (h1 - t, 0));
          q = h1 * ml;
          q0 = qo OR push_bit 1 (push_bit (63 - s) q);
          qo = drop_bit s q;
          (h, dummy) = umul_ppmm q d
      in ([q0, qo], h + c))"
| "hensel_loop_2 ml mh d s qo h c [] = ([qo], h + c)"

definition mpn_rsh_divrem_hensel_qr_1_2 :: "limb list \<Rightarrow> limb \<Rightarrow> nat \<Rightarrow> limb \<Rightarrow> limb list \<times> limb" where
  "mpn_rsh_divrem_hensel_qr_1_2 xp d s cin =
     (let ml = modlimb_invert d;
          (h, dummy) = umul_ppmm d ml;
          h = - h; mh = ml * h;
          h1 = hd xp; h = cin; c = 0;
          t = h + c;
          (h1, c) = (if t > h1 then (h1 - t, 1) else (h1 - t, 0));
          q = h1 * ml; qo = drop_bit s q;
          (h, dummy) = umul_ppmm q d
      in hensel_loop_2 ml mh d s qo h c (tl xp))"

definition mpn_rsh_divrem_hensel_qr_1 :: "nat \<Rightarrow> limb list \<Rightarrow> limb \<Rightarrow> nat \<Rightarrow> limb \<Rightarrow> limb list \<times> limb" where
  "mpn_rsh_divrem_hensel_qr_1 threshold xp d s cin =
     (if length xp < threshold then mpn_rsh_divrem_hensel_qr_1_1 xp d s cin
      else mpn_rsh_divrem_hensel_qr_1_2 xp d s cin)"

lemma uint_int_limb: "uint (of_int k :: limb) = k mod B"
  by (simp add: uint_word_of_int B_def)

text \<open>\<open>(mh, ml)\<close> is an inverse of the divisor modulo two limbs.\<close>

lemma two_limb_inverse:
  assumes m: "ml * d = 1" and p: "umul_ppmm d ml = (h, l)" and mh: "mh = ml * - h"
  shows "B * B dvd (uint mh * B + uint ml) * uint d - 1"
proof -
  have v: "uint d * uint ml = uint h * B + uint l" using umul_ppmm_value [OF p] by simp
  have "uint (ml * d) = uint d * uint ml mod B" by (simp add: uint_word_ariths B_def mult.commute)
  then have l: "uint l = 1" using m unfolding v by (simp add: mod_pos_pos_trivial)
  have "mh * d + h = (ml * d) * - h + h" unfolding mh by (simp add: algebra_simps)
  then have "mh * d + h = 0" using m by simp
  then have "(of_int (uint mh * uint d + uint h) :: limb) = 0" by simp
  then have "(uint mh * uint d + uint h) mod B = 0" using uint_int_limb by (metis uint_0_eq)
  then have "B dvd uint mh * uint d + uint h" by (simp only: dvd_eq_mod_eq_0)
  then have "B * B dvd (uint mh * uint d + uint h) * B" by (intro mult_dvd_mono) simp_all
  also have "(uint mh * uint d + uint h) * B = (uint mh * B + uint ml) * uint d - 1"
    using v l by (simp add: algebra_simps)
  finally show ?thesis .
qed

lemma hensel_step_2:
  fixes xl xh t d ml mh :: limb
  assumes m: "B * B dvd (uint mh * B + uint ml) * uint d - 1" and d0: "0 < uint d"
    and sub: "sub_ddmmss xh xl 0 t = (yh, yl)" and pq: "umul_ppmm yl ml = (wh, ql)"
    and qh: "qh = wh + yh * ml + yl * mh" and p: "umul_ppmm qh d = (h, h1)"
  defines "c' \<equiv> of_bool (xh = 0 \<and> t > xl) :: int"
    and "h' \<equiv> if h1 > yh then h + 1 else h"
  shows "uint xl + B * uint xh - uint t = (uint ql + B * uint qh) * uint d - (uint h' + c') * (B * B)"
    and "uint h' < uint d"
proof -
  let ?Y = "uint yh * B + uint yl" and ?Q = "uint qh * B + uint ql" and ?M = "uint mh * B + uint ml"
  have Y: "?Y = (uint xh * B + uint xl - uint t) mod (B * B)" using sub_ddmmss_value [OF sub] by simp
  have t: "uint xh * B + uint xl < uint t \<longleftrightarrow> xh = 0 \<and> t > xl"
  proof (cases "xh = 0")
    case False
    then have "1 * B \<le> uint xh * B" by (intro mult_right_mono) (simp_all add: limb_ne_0_iff)
    then have "\<not> uint xh * B + uint xl < uint t" using uint_lt_B [of t] uint_ge_0 [of xl] by linarith
    then show ?thesis using False by simp
  qed (simp add: less_limb_iff)
  have X: "uint xh * B + uint xl - uint t = ?Y - c' * (B * B)"
  proof (cases "xh = 0 \<and> t > xl")
    case True
    have "1 * B \<le> B * B" by (intro mult_right_mono) simp_all
    then have "0 \<le> uint xl - uint t + B * B" using uint_lt_B [of t] uint_ge_0 [of xl] by linarith
    moreover have "uint xl - uint t + B * B < B * B" using True by (simp add: less_limb_iff)
    ultimately have "(uint xl - uint t + B * B) mod (B * B) = uint xl - uint t + B * B" by (rule mod_pos_pos_trivial)
    then show ?thesis using True unfolding Y c'_def by simp
  next
    case False
    then have "\<not> uint xh * B + uint xl < uint t" using t by simp
    then have "0 \<le> uint xh * B + uint xl - uint t" by linarith
    moreover have "uint xh * B + uint xl - uint t < B * B"
      using two_limbs_lt [of xh xl] uint_ge_0 [of t] by linarith
    ultimately show ?thesis using False unfolding Y c'_def by (simp add: mod_pos_pos_trivial)
  qed
  have Q: "B * B dvd ?Q - ?Y * ?M"
  proof -
    let ?Z = "uint wh + uint yh * uint ml + uint yl * uint mh"
    have "qh = of_int ?Z" unfolding qh by simp
    then have "uint qh = ?Z mod B" by (simp only: uint_int_limb)
    then obtain k where k: "uint qh = ?Z - B * k" by (metis minus_mult_div_eq_mod)
    have "?Q = uint yl * uint ml + (uint yh * uint ml + uint yl * uint mh) * B - B * B * k"
      using umul_ppmm_value [OF pq] unfolding k by (simp add: algebra_simps)
    then have "?Q - ?Y * ?M = B * B * (- k - uint yh * uint mh)" by (simp add: algebra_simps)
    then show ?thesis by (simp only: dvd_triv_left)
  qed
  have "B * B dvd (?Q - ?Y * ?M) * uint d + ?Y * (?M * uint d - 1)" using Q m by (intro dvd_add dvd_mult dvd_mult2)
  then have dv: "B * B dvd ?Q * uint d - ?Y" by (simp add: algebra_simps)
  define e where "e = uint ql * uint d div B"
  define f where "f = uint ql * uint d mod B"
  have ef: "uint ql * uint d = e * B + f" "0 \<le> f" "f < B" by (simp_all add: e_def f_def)
  have e: "0 \<le> e" "e < B"
    unfolding e_def using uint_ge_0 [of ql] uint_ge_0 [of d]
    by (simp add: pos_imp_zdiv_nonneg_iff, simp add: zdiv_lt_iff mult_strict_mono)
  have "?Q * uint d = (uint qh * uint d) * B + uint ql * uint d" by (simp add: algebra_simps)
  also have "\<dots> = uint h * (B * B) + (uint h1 + e) * B + f"
    unfolding umul_ppmm_value [OF p, symmetric] ef(1) by (simp add: algebra_simps)
  finally have Qd: "?Q * uint d = uint h * (B * B) + (uint h1 + e) * B + f" .
  obtain k where "?Q * uint d - ?Y = B * B * k" using dv by (rule dvdE)
  then have k: "(uint h1 + e - uint yh) * B + (f - uint yl) = B * (B * (k - uint h))"
    unfolding Qd by (simp add: algebra_simps)
  then have "f = (B * (k - uint h) - (uint h1 + e - uint yh)) * B + uint yl" by (simp add: algebra_simps)
  then have "f mod B = uint yl" by (rule zdiv_mod_unique(2)) simp_all
  then have "f = uint yl" using ef by (simp add: mod_pos_pos_trivial)
  then have k': "uint h1 + e - uint yh = B * (k - uint h)" using k by simp
  have k01: "k - uint h = of_bool (h1 > yh)"
  proof -
    have "B * (k - uint h) < B * 2" "B * (- 1) < B * (k - uint h)"
      unfolding k' [symmetric] using e uint_lt_B [of h1] uint_lt_B [of yh] uint_ge_0 [of h1] uint_ge_0 [of yh] by linarith+
    then have "k - uint h = 0 \<or> k - uint h = 1" by (simp only: mult_less_cancel_left_pos B_pos) linarith
    then show ?thesis using k' e by (auto simp: less_limb_iff)
  qed
  have H: "?Q * uint d = k * (B * B) + ?Y" 
    using k' \<open>f = uint yl\<close> \<open>?Q * uint d - ?Y = B * B * k\<close> by (simp add: algebra_simps)
  have "k * (B * B) \<le> ?Q * uint d" unfolding H by simp
  also have "\<dots> < B * B * uint d" using two_limbs_lt [of qh ql] d0 by (intro mult_strict_right_mono)
  finally have kd: "k < uint d" by (simp add: mult.commute)
  have h': "uint h' = k" using k01 kd order.strict_trans [OF kd uint_lt_B] by (auto simp: h'_def uint_add_limb)
  show hd: "uint h' < uint d" using h' kd by simp
  show "uint xl + B * uint xh - uint t = (uint ql + B * uint qh) * uint d - (uint h' + c') * (B * B)"
    using X H h' by (simp add: algebra_simps)
qed

lemma hensel_loop_2_value:
  assumes m: "ml * d = 1" "B * B dvd (uint mh * B + uint ml) * uint d - 1" and s: "s < 64"
    and "qo = drop_bit s y" "uint h + uint c \<le> uint d" "uint h + uint c < B" "hensel_loop_2 ml mh d s qo h c xp = (qp, ret)"
  shows "hensel_out d s (uint h + uint c) (uint qo) xp qp ret"
  using assms(4-)
proof (induction xp arbitrary: qo y h c qp rule: induct_list012)
  case 1
  then show ?case by (auto intro: hensel_out_Nil)
next
  case (2 x)
  have "hensel_loop_1 ml d s qo h c [x] = (qp, ret)" using "2.prems"(4) by (simp add: Let_def split_beta)
  then show ?case by (rule hensel_loop_1_value [OF m(1) s "2.prems"(1-3)])
next
  case (3 xl xh xp)
  define t where "t = h + c"
  define c' :: limb where "c' = of_bool (xh = 0 \<and> t > xl)"
  obtain yh yl where sub: "sub_ddmmss xh xl 0 t = (yh, yl)" by fastforce
  obtain wh ql where pq: "umul_ppmm yl ml = (wh, ql)" by fastforce
  define qh where "qh = wh + yh * ml + yl * mh"
  obtain h0 h1 where p: "umul_ppmm qh d = (h0, h1)" by fastforce
  define h' where "h' = (if h1 > yh then h0 + 1 else h0)"
  let ?o0 = "qo OR push_bit 1 (push_bit (63 - s) ql)" and ?o1 = "drop_bit s ql OR push_bit 1 (push_bit (63 - s) qh)"
  obtain qp' where r: "hensel_loop_2 ml mh d s (drop_bit s qh) h' c' xp = (qp', ret)" "qp = ?o0 # ?o1 # qp'"
    using "3.prems"(4)
    by (auto simp: Let_def sub pq p h'_def c'_def of_bool_def split: prod.splits
          simp flip: t_def qh_def simp del: push_bit_of_Suc_0 push_bit_push_bit)
  have d0: "0 < uint d" using m(1) by (metis limb_ne_0_iff mult_zero_right zero_neq_one)
  note st = hensel_step_2 [OF m(2) d0 sub pq qh_def p, folded h'_def]
  have c': "uint c' = of_bool (xh = 0 \<and> t > xl)" by (simp add: c'_def)
  have hc: "uint h' + uint c' \<le> uint d" using st(2) c' by simp
  moreover have "uint h' + uint c' < B" using hc uint_lt_B [of d] by linarith
  ultimately have ih: "hensel_out d s (uint h' + uint c') (uint (drop_bit s qh)) xp qp' ret"
    by (rule "3.IH"(1) [OF refl _ _ r(1)])
  have t: "uint t = uint h + uint c" using "3.prems"(3) by (simp add: t_def uint_add_limb)
  have "uint ql + B * uint qh < B * B" using two_limbs_lt [of qh ql] by (simp add: mult.commute add.commute)
  moreover have "uint ?o0 + B * uint ?o1 + B * B * uint (drop_bit s qh) = uint qo + (uint ql + B * uint qh) * 2 ^ (64 - s)"
    using hensel_shift [OF s, of y ql] arg_cong [OF hensel_shift [OF s, of ql qh], of "\<lambda>k. B * k"] "3.prems"(1)
    by (simp add: algebra_simps)
  ultimately show ?case
    using hensel_out_append [OF _ _ _ _ _ ih, of "[xl, xh]" "uint h + uint c" "uint ql + B * uint qh" "[?o0, ?o1]" "uint qo"]
      st(1) t c' r(2) by (simp add: algebra_simps)
qed

text \<open>
  Both routines, started on the first limb with the borrow \<open>cin\<close>, divide exactly: the quotient
  modulo the power of the base, shifted right.
\<close>

definition hensel_quotient :: "limb list \<Rightarrow> limb \<Rightarrow> nat \<Rightarrow> limb \<Rightarrow> limb list \<Rightarrow> limb \<Rightarrow> bool" where
  "hensel_quotient xp d s cin qp ret \<longleftrightarrow>
     (\<exists>q. lval xp - uint cin = q * uint d - uint ret * B ^ length xp \<and> 0 \<le> q \<and> q < B ^ length xp
          \<and> lval qp = q div 2 ^ s \<and> length qp = length xp)"

lemma hensel_first:
  assumes m: "m * d = 1" and s: "s < 64" and q: "q = (x - cin) * m" and p: "umul_ppmm q d = (h, l)"
    and r: "hensel_out d s (uint h + of_bool (x < cin)) (uint (drop_bit s q)) xp qp ret"
  shows "hensel_quotient (x # xp) d s cin qp ret"
proof -
  obtain q' where q': "lval xp - (uint h + of_bool (x < cin)) = q' * uint d - uint ret * B ^ length xp" "0 \<le> q'"
      "q' < B ^ length xp" "lval qp = uint (drop_bit s q) + q' * 2 ^ (64 - s)" "length qp = length xp + 1"
    using r by (auto simp: hensel_out_def)
  note st = hensel_step(1) [OF m q p]
  have "lval (x # xp) - uint cin = (uint q + B * q') * uint d - uint ret * B ^ length (x # xp)"
    using arg_cong [OF q'(1), of "\<lambda>k. B * k"] st by (simp add: algebra_simps)
  moreover have "B * (q' + 1) \<le> B * B ^ length xp" using q'(3) by (intro mult_left_mono) simp_all
  then have "uint q + B * q' < B ^ length (x # xp)"
    using uint_lt_B [of q] by (simp only: distrib_left length_Cons power_Suc)
  moreover have "lval qp = (uint q + B * q') div 2 ^ s"
  proof -
    have "B * q' = 2 ^ s * (q' * 2 ^ (64 - s))" using pow_split [OF s] by (simp add: mult.commute mult.left_commute)
    then have "(uint q + B * q') div 2 ^ s = uint q div 2 ^ s + q' * 2 ^ (64 - s)" by (simp only: div_mult_self2 power_not_zero) simp
    then show ?thesis using q'(4) by (simp add: uint_drop_limb)
  qed
  ultimately show ?thesis
    unfolding hensel_quotient_def using q'(2,5) by (intro exI [of _ "uint q + B * q'"]) simp
qed

theorem mpn_rsh_divrem_hensel_qr_1_quotient:
  assumes "odd d" "s < 64" "xp \<noteq> []" "mpn_rsh_divrem_hensel_qr_1 threshold xp d s cin = (qp, ret)"
  shows "hensel_quotient xp d s cin qp ret"
proof -
  obtain x xs where xp: "xp = x # xs" using assms(3) by (cases xp) auto
  define m where "m = modlimb_invert d"
  have m: "m * d = 1" unfolding m_def by (rule modlimb_invert_value(2) [OF assms(1)])
  define q where "q = (x - cin) * m"
  obtain h l where p: "umul_ppmm q d = (h, l)" by fastforce
  obtain mh0 ml0 where pm: "umul_ppmm d m = (mh0, ml0)" by fastforce
  let ?c = "of_bool (x < cin) :: limb"
  note st = hensel_step [OF m q_def p]
  have b: "uint h + uint ?c \<le> uint d" using st(2) by simp
  have b': "uint h + uint ?c < B" using b uint_lt_B [of d] by linarith
  have "hensel_out d s (uint h + uint ?c) (uint (drop_bit s q)) xs qp ret"
  proof (cases "length xp < threshold")
    case True
    then have "hensel_loop_1 m d s (drop_bit s q) h ?c xs = (qp, ret)"
      using assms(4) p unfolding mpn_rsh_divrem_hensel_qr_1_def mpn_rsh_divrem_hensel_qr_1_1_def xp
      by (simp add: Let_def split_beta of_bool_def flip: m_def q_def split: if_splits)
    then show ?thesis by (rule hensel_loop_1_value [OF m assms(2) refl b b'])
  next
    case False
    then have "hensel_loop_2 m (m * - mh0) d s (drop_bit s q) h ?c xs = (qp, ret)"
      using assms(4) p pm unfolding mpn_rsh_divrem_hensel_qr_1_def mpn_rsh_divrem_hensel_qr_1_2_def xp
      by (simp add: Let_def split_beta of_bool_def flip: m_def q_def split: if_splits)
    then show ?thesis by (rule hensel_loop_2_value [OF m two_limb_inverse [OF m pm refl] assms(2) refl b b'])
  qed
  then show ?thesis unfolding xp by (intro hensel_first [OF m assms(2) q_def p]) simp
qed

text \<open>Without a final borrow the division was exact.\<close>

corollary mpn_rsh_divrem_hensel_qr_1_exact:
  assumes "odd d" "s < 64" "xp \<noteq> []" "uint d * 2 ^ s dvd lval xp - uint cin" "uint cin \<le> lval xp"
  shows "lval (fst (mpn_rsh_divrem_hensel_qr_1 threshold xp d s cin)) = (lval xp - uint cin) div (uint d * 2 ^ s)"
    and "length (fst (mpn_rsh_divrem_hensel_qr_1 threshold xp d s cin)) = length xp"
proof -
  obtain qp ret where r: "mpn_rsh_divrem_hensel_qr_1 threshold xp d s cin = (qp, ret)" by fastforce
  let ?X = "lval xp - uint cin" and ?P = "B ^ length xp"
  obtain q where q: "?X = q * uint d - uint ret * ?P" "0 \<le> q" "q < ?P" "lval qp = q div 2 ^ s" "length qp = length xp"
    using mpn_rsh_divrem_hensel_qr_1_quotient [OF assms(1-3) r] by (auto simp: hensel_quotient_def)
  obtain k where k: "?X = uint d * 2 ^ s * k" using assms(4) by (rule dvdE)
  have "odd (uint d)" using assms(1) by (simp add: odd_uint_limb)
  then have "coprime (2 ^ (64 * length xp)) (uint d)" by (simp only: coprime_power_left_iff coprime_left_2_iff_odd simp_thms)
  moreover have "uint d \<noteq> 0" using \<open>odd (uint d)\<close> by auto
  ultimately have "uint d \<noteq> 0" "coprime ?P (uint d)" by (simp_all only: B_def power_mult not_False_eq_True)
  then have d: "1 \<le> uint d" "coprime ?P (uint d)" using uint_ge_0 [of d] by linarith+
  have X0: "0 \<le> ?X" "?X < ?P" using assms(5) lval_lt [of xp] uint_ge_0 [of cin] by linarith+
  then have "0 \<le> uint d * (2 ^ s * k)" using k by (simp only: mult.assoc)
  then have k0: "0 \<le> 2 ^ s * k" using d(1) by (simp only: zero_le_mult_iff) linarith
  then have "1 * (2 ^ s * k) \<le> uint d * (2 ^ s * k)" using d(1) by (rule mult_right_mono [rotated])
  then have k1: "2 ^ s * k < ?P" using X0 k by (simp only: mult.assoc mult_1)
  have "?P dvd uint d * (q - 2 ^ s * k)" using q(1) k by (intro dvdI [of _ _ "uint ret"]) (simp add: algebra_simps)
  then have "?P dvd q - 2 ^ s * k" using d(2) by (simp add: coprime_dvd_mult_right_iff)
  then have "q = 2 ^ s * k" using q(2,3) k0 k1 by (metis mod_eq_dvd_iff mod_pos_pos_trivial)
  then have "lval qp = ?X div (uint d * 2 ^ s)" using q(4) k d(1) by simp
  then show "lval (fst (mpn_rsh_divrem_hensel_qr_1 threshold xp d s cin)) = ?X div (uint d * 2 ^ s)"
    "length (fst (mpn_rsh_divrem_hensel_qr_1 threshold xp d s cin)) = length xp"
    using r q(5) by simp_all
qed

end
