(* ===== verification/Mpn_Mod.thy ===== *)
theory Mpn_Mod
  imports Mpn_Div
begin

unbundle bit_operations_syntax

text \<open>
  Remainders modulo one limb with precomputed powers of the limb base: \<^verbatim>\<open>mpn_mod_1_1\<close>,
  \<^verbatim>\<open>mpn_mod_1_2\<close> and \<^verbatim>\<open>mpn_mod_1_3\<close>, which fold one, two or three limbs into a two-limb
  accumulator per round, their callers \<^verbatim>\<open>mpn_mod_1_1_wrap\<close>, \<^verbatim>\<open>mpn_mod_1_2_wrap\<close> and
  \<^verbatim>\<open>mpn_mod_1_3_wrap\<close>, and the choice between them in \<^verbatim>\<open>mpn_divrem_euclidean_r_1\<close>.
\<close>

subsection \<open>The folding loops\<close>

fun mod_1_1_loop :: "limb list \<Rightarrow> limb list \<Rightarrow> limb \<Rightarrow> limb \<Rightarrow> limb \<times> limb" where
  "mod_1_1_loop db [] h l = (h, l)"
| "mod_1_1_loop db (x # xs) h l =
     (let (sh, sl) = umul_ppmm l (db ! 0);
          (sh, sl) = add_ssaaaa sh sl 0 x;
          (h, l) = umul_ppmm h (db ! 1);
          (h, l) = add_ssaaaa h l sh sl
      in mod_1_1_loop db xs h l)"

definition mpn_mod_1_1 :: "limb list \<Rightarrow> limb list \<Rightarrow> limb \<times> limb" where
  "mpn_mod_1_1 xp db =
     (case rev xp of
        h # l # xs \<Rightarrow>
          (let (h, l) = mod_1_1_loop db xs h l;
               (sh, sl) = umul_ppmm h (db ! 0);
               (sh, sl) = add_ssaaaa sh sl 0 l
           in (sl, sh))
      | _ \<Rightarrow> (0, 0))"

fun mod_1_2_loop :: "limb list \<Rightarrow> limb list \<Rightarrow> limb \<Rightarrow> limb \<Rightarrow> limb \<times> limb" where
  "mod_1_2_loop db (x1 # x0 # xs) th tlo =
     (let (sh, sl) = umul_ppmm x1 (db ! 0);
          (sh, sl) = add_ssaaaa sh sl 0 x0;
          (h, l) = umul_ppmm tlo (db ! 1);
          (sh, sl) = add_ssaaaa sh sl h l;
          (th, tlo) = umul_ppmm th (db ! 2);
          (th, tlo) = add_ssaaaa th tlo sh sl
      in mod_1_2_loop db xs th tlo)"
| "mod_1_2_loop db [x0] th tlo =
     (let (sh, sl) = umul_ppmm tlo (db ! 0);
          (sh, sl) = add_ssaaaa sh sl 0 x0;
          (th, tlo) = umul_ppmm th (db ! 1);
          (th, tlo) = add_ssaaaa th tlo sh sl
      in (th, tlo))"
| "mod_1_2_loop db [] th tlo = (th, tlo)"

definition mpn_mod_1_2 :: "limb list \<Rightarrow> limb list \<Rightarrow> limb \<times> limb" where
  "mpn_mod_1_2 xp db =
     (case rev xp of
        th # tlo # xs \<Rightarrow>
          (let (th, tlo) = mod_1_2_loop db xs th tlo;
               (h, l) = umul_ppmm th (db ! 0);
               (h, l) = add_ssaaaa h l 0 tlo
           in (l, h))
      | _ \<Rightarrow> (0, 0))"

text \<open>
  The limbs left over by the rounds of three: one (\<open>jj = 1\<close>) or two (\<open>jj = 2\<close>).
\<close>

fun mod_1_3_loop :: "limb list \<Rightarrow> limb list \<Rightarrow> limb \<Rightarrow> limb \<Rightarrow> limb \<times> limb" where
  "mod_1_3_loop db (x2 # x1 # x0 # xs) th tlo =
     (let (sh, sl) = umul_ppmm x1 (db ! 0);
          (sh, sl) = add_ssaaaa sh sl 0 x0;
          (h, l) = umul_ppmm x2 (db ! 1);
          (sh, sl) = add_ssaaaa sh sl h l;
          (h, l) = umul_ppmm tlo (db ! 2);
          (sh, sl) = add_ssaaaa sh sl h l;
          (th, tlo) = umul_ppmm th (db ! 3);
          (th, tlo) = add_ssaaaa th tlo sh sl
      in mod_1_3_loop db xs th tlo)"
| "mod_1_3_loop db [] th tlo = (th, tlo)"
| "mod_1_3_loop db xs th tlo =
     (let (sh, sl, jj) =
            (case xs of
               [x1, x0] \<Rightarrow>
                 (let (sh, sl) = umul_ppmm x1 (db ! 0);
                      (sh, sl) = add_ssaaaa sh sl 0 x0
                  in (sh, sl, 2))
             | _ \<Rightarrow> (0, hd xs, 1));
          (h, l) = umul_ppmm tlo (db ! (jj - 1));
          (sh, sl) = add_ssaaaa sh sl h l;
          (th, tlo) = umul_ppmm th (db ! jj);
          (th, tlo) = add_ssaaaa th tlo sh sl
      in (th, tlo))"

definition mpn_mod_1_3 :: "limb list \<Rightarrow> limb list \<Rightarrow> limb \<times> limb" where
  "mpn_mod_1_3 xp db =
     (case rev xp of
        th # tlo # xs \<Rightarrow>
          (let (th, tlo) = mod_1_3_loop db xs th tlo;
               (h, l) = umul_ppmm th (db ! 0);
               (h, l) = add_ssaaaa h l 0 tlo
           in (l, h))
      | _ \<Rightarrow> (0, 0))"

text \<open>
  A sum of \<open>k + 1\<close> products of a limb with a power below the divisor and one limb fits two limbs when
  \<open>(k + 1) (d - 1) \<le> B\<close>, the condition the callers assert.
\<close>

definition powers_of_base :: "int \<Rightarrow> limb list \<Rightarrow> bool" where
  "powers_of_base D db \<longleftrightarrow> (\<forall>i < length db. uint (db ! i) = B ^ (i + 1) mod D)"

lemma powers_of_base_le:
  "powers_of_base D db \<Longrightarrow> 0 < D \<Longrightarrow> i < length db \<Longrightarrow> uint (db ! i) \<le> D - 1"
  by (simp add: powers_of_base_def)

lemma product_le:
  assumes "powers_of_base D db" "0 < D" "i < length db"
  shows "uint (x :: limb) * uint (db ! i) \<le> (B - 1) * (D - 1)"
  using powers_of_base_le [OF assms] uint_le_B_minus_1 [of x] assms(2) by (intro mult_mono) simp_all

lemma sum_bound:
  fixes s D k :: int
  assumes "s \<le> k * ((B - 1) * (D - 1)) + (B - 1)" "k * (D - 1) \<le> B"
  shows "s < B * B"
proof -
  have "(B - 1) * (k * (D - 1)) \<le> (B - 1) * B" using assms(2) by (intro mult_left_mono) simp_all
  moreover have "k * ((B - 1) * (D - 1)) = (B - 1) * (k * (D - 1))" by (rule mult.left_commute)
  moreover have "(B - 1) * B = B * B - B" by (simp add: algebra_simps)
  ultimately show ?thesis using assms(1) by linarith
qed

lemma mval_mod_cong: "a mod D = b mod D \<Longrightarrow> mval a xs mod D = mval b xs mod D"
proof (induction xs arbitrary: a b)
  case (Cons x xs)
  have "(a * B + uint x) mod D = (b * B + uint x) mod D"
    using Cons.prems by (intro mod_add_cong mod_mult_cong refl)
  then show ?case by (simp only: mval.simps) (rule Cons.IH)
qed simp

text \<open>The value of a two-limb accumulator, and what adding a product to it does.\<close>

definition dval :: "limb \<times> limb \<Rightarrow> int" where
  "dval p = uint (fst p) * B + uint (snd p)"

lemma dval_pair: "dval (h, l) = uint h * B + uint l"
  by (simp add: dval_def)

lemma mul_acc:
  assumes "umul_ppmm u v = (h, l)" "add_ssaaaa h l a b = (a', b')" "dval (a, b) = S mod (B * B)"
  shows "dval (a', b') = (S + uint u * uint v) mod (B * B)"
proof -
  have "dval (a', b') = (uint u * uint v + dval (a, b)) mod (B * B)"
    using add_ssaaaa_value [OF assms(2)] umul_ppmm_value [OF assms(1)] by (simp add: dval_pair add.assoc)
  then show ?thesis unfolding assms(3) by (simp add: mod_simps add.commute)
qed

lemma acc_mul:
  assumes "umul_ppmm u v = (h, l)" "add_ssaaaa a b h l = (a', b')" "dval (a, b) = S mod (B * B)"
  shows "dval (a', b') = (S + uint u * uint v) mod (B * B)"
proof -
  have "dval (a', b') = (dval (a, b) + uint u * uint v) mod (B * B)"
    using add_ssaaaa_value [OF assms(2)] umul_ppmm_value [OF assms(1)] by (simp add: dval_pair add.assoc)
  then show ?thesis unfolding assms(3) by (simp add: mod_simps)
qed

lemma acc_start: "dval (0, x) = uint x mod (B * B)"
  using two_limbs_lt [of 0 x] by (simp add: dval_pair mod_pos_pos_trivial)

text \<open>
  A round is exact when its sum is bounded, and preserves the remainder: here with the powers of
  the base replaced by what they stand for.
\<close>

lemma round_exact:
  assumes "v = s mod (B * B)" "0 \<le> s" "s \<le> k * ((B - 1) * (D - 1)) + (B - 1)" "k * (D - 1) \<le> B" "s mod D = t mod D"
  shows "v mod D = t mod D"
  using sum_bound [OF assms(3,4)] assms(1,2,5) by (simp add: mod_pos_pos_trivial)

lemma power_term:
  assumes "powers_of_base D db" "i < length db"
  shows "uint (x :: limb) * uint (db ! i) mod D = uint x * B ^ (i + 1) mod D"
  using assms by (intro mod_mult_cong refl) (simp add: powers_of_base_def)

lemma sum_le_2:
  assumes "powers_of_base D db" "0 < D" "i < length db" "j < length db"
  shows "uint (x :: limb) + uint (a :: limb) * uint (db ! i) + uint (b :: limb) * uint (db ! j) \<le> 2 * ((B - 1) * (D - 1)) + (B - 1)"
  using product_le [OF assms(1-3), of a] product_le [OF assms(1,2,4), of b] uint_le_B_minus_1 [of x] by linarith

lemma sum_le_3:
  assumes "powers_of_base D db" "0 < D" "i < length db" "j < length db" "k < length db"
  shows "uint (x :: limb) + uint (a :: limb) * uint (db ! i) + uint (b :: limb) * uint (db ! j) + uint (c :: limb) * uint (db ! k)
           \<le> 3 * ((B - 1) * (D - 1)) + (B - 1)"
  using sum_le_2 [OF assms(1-4), of x a b] product_le [OF assms(1,2,5), of c] by linarith

lemma sum_le_4:
  assumes "powers_of_base D db" "0 < D" "i < length db" "j < length db" "k < length db" "l < length db"
  shows "uint (x :: limb) + uint (a :: limb) * uint (db ! i) + uint (b :: limb) * uint (db ! j) + uint (c :: limb) * uint (db ! k)
           + uint (d :: limb) * uint (db ! l) \<le> 4 * ((B - 1) * (D - 1)) + (B - 1)"
  using sum_le_3 [OF assms(1-5), of x a b c] product_le [OF assms(1,2,6), of d] by linarith

lemmas round_cong = mod_add_cong [OF _ power_term]

lemma mod_1_1_loop_value:
  assumes db: "powers_of_base D db" "length db = 2" and D: "0 < D" "2 * (D - 1) \<le> B"
  shows "dval (mod_1_1_loop db xs h l) mod D = mval (dval (h, l)) xs mod D"
proof (induction xs arbitrary: h l)
  case (Cons x xs)
  obtain a b where 1: "umul_ppmm l (db ! 0) = (a, b)" by fastforce
  obtain a' b' where 2: "add_ssaaaa a b 0 x = (a', b')" by fastforce
  obtain c d where 3: "umul_ppmm h (db ! 1) = (c, d)" by fastforce
  obtain h' l' where 4: "add_ssaaaa c d a' b' = (h', l')" by fastforce
  have "dval (h', l') mod D = (uint x + uint l * B ^ (0 + 1) + uint h * B ^ (1 + 1)) mod D"
    by (intro sum_le_2 D(1) round_exact [OF mul_acc [OF 3 4 mul_acc [OF 1 2 acc_start]] _ _ D(2)] round_cong db(1)) (simp_all add: db(2))
  also have "uint x + uint l * B ^ (0 + 1) + uint h * B ^ (1 + 1) = dval (h, l) * B + uint x"
    by (simp add: dval_pair algebra_simps)
  finally have "mval (dval (h', l')) xs mod D = mval (dval (h, l)) (x # xs) mod D"
    unfolding mval.simps by (rule mval_mod_cong)
  then show ?case using Cons.IH by (simp add: 1 2 3 [simplified] 4)
qed simp

text \<open>The last step of each routine brings the high limb below the divisor.\<close>

lemma mod_1_finish:
  assumes db: "powers_of_base D db" "0 < length db" and D: "0 < D" "D - 1 \<le> B" 
    and p: "umul_ppmm h (db ! 0) = (a, b)" "add_ssaaaa a b 0 l = (sh, sl)"
  shows "dval (sh, sl) mod D = dval (h, l) mod D" "uint sh < D"
proof -
  have b: "uint l + uint h * uint (db ! 0) \<le> 1 * ((B - 1) * (D - 1)) + (B - 1)"
    using product_le [OF db(1) D(1), of 0 h] uint_le_B_minus_1 [of l] db(2) by linarith
  have "dval (sh, sl) mod D = (uint l + uint h * B ^ (0 + 1)) mod D"
    using b D(2) db(2) by (intro round_exact [OF mul_acc [OF p acc_start] _ b] round_cong db(1)) simp_all
  then show "dval (sh, sl) mod D = dval (h, l) mod D" by (simp add: dval_pair add.commute)
  have "dval (sh, sl) = uint l + uint h * uint (db ! 0)"
    using mul_acc [OF p acc_start] sum_bound [OF b] D(2) by (simp add: mod_pos_pos_trivial)
  also have "\<dots> < B * D" using b D(1) by (simp add: algebra_simps)
  finally have "uint sh * B < D * B" using uint_ge_0 [of sl] by (simp only: dval_pair mult.commute)
  then show "uint sh < D" by simp
qed

lemma mod_1_2_loop_value:
  assumes db: "powers_of_base D db" "length db = 3" and D: "0 < D" "3 * (D - 1) \<le> B"
  shows "dval (mod_1_2_loop db xs h l) mod D = mval (dval (h, l)) xs mod D"
proof (induction xs arbitrary: h l rule: induct_list012)
  case (2 x)
  obtain a b where 1: "umul_ppmm l (db ! 0) = (a, b)" by fastforce
  obtain a' b' where 2: "add_ssaaaa a b 0 x = (a', b')" by fastforce
  obtain c d where 3: "umul_ppmm h (db ! 1) = (c, d)" by fastforce
  obtain h' l' where 4: "add_ssaaaa c d a' b' = (h', l')" by fastforce
  have "2 * (D - 1) \<le> 3 * (D - 1)" using D(1) by simp
  then have D2: "2 * (D - 1) \<le> B" using D(2) by (rule order.trans)
  have "dval (h', l') mod D = (uint x + uint l * B ^ (0 + 1) + uint h * B ^ (1 + 1)) mod D"
    by (intro sum_le_2 D(1) round_exact [OF mul_acc [OF 3 4 mul_acc [OF 1 2 acc_start]] _ _ D2] round_cong db(1)) (simp_all add: db(2))
  then show ?case by (simp add: 1 2 3 [simplified] 4 dval_pair algebra_simps)
next
  case (3 x1 x0 xs)
  obtain a b where 1: "umul_ppmm x1 (db ! 0) = (a, b)" by fastforce
  obtain a' b' where 2: "add_ssaaaa a b 0 x0 = (a', b')" by fastforce
  obtain c d where 4: "umul_ppmm l (db ! 1) = (c, d)" by fastforce
  obtain c' d' where 5: "add_ssaaaa a' b' c d = (c', d')" by fastforce
  obtain e f where 6: "umul_ppmm h (db ! 2) = (e, f)" by fastforce
  obtain h' l' where 7: "add_ssaaaa e f c' d' = (h', l')" by fastforce
  have "dval (h', l') mod D = (uint x0 + uint x1 * B ^ (0 + 1) + uint l * B ^ (1 + 1) + uint h * B ^ (2 + 1)) mod D"
    by (intro sum_le_3 D(1) round_exact [OF mul_acc [OF 6 7 acc_mul [OF 4 5 mul_acc [OF 1 2 acc_start]]] _ _ D(2)] round_cong db(1))
      (simp_all add: db(2))
  also have "uint x0 + uint x1 * B ^ (0 + 1) + uint l * B ^ (1 + 1) + uint h * B ^ (2 + 1)
      = (dval (h, l) * B + uint x1) * B + uint x0"
    by (simp add: dval_pair power3_eq_cube algebra_simps)
  finally have "mval (dval (h', l')) xs mod D = mval (dval (h, l)) (x1 # x0 # xs) mod D"
    unfolding mval.simps by (rule mval_mod_cong)
  then show ?case using "3.IH"(1) by (simp add: 1 2 4 [simplified] 5 6 7)
qed simp

lemma induct_list_3 [case_names Nil One Two Three]:
  assumes "P []" "\<And>x. P [x]" "\<And>x y. P [x, y]" "\<And>x y z xs. P xs \<Longrightarrow> P (x # y # z # xs)"
  shows "P xs"
proof (induction "length xs" arbitrary: xs rule: less_induct)
  case less
  show ?case
  proof (cases xs)
    case (Cons x ys)
    show ?thesis
    proof (cases ys)
      case Ny: (Cons y zs)
      show ?thesis
        by (cases zs) (use assms less Cons Ny in \<open>simp_all\<close>)
    qed (use assms Cons in simp)
  qed (use assms in simp)
qed

lemma mod_1_3_loop_value:
  assumes db: "powers_of_base D db" "length db = 4" and D: "0 < D" "4 * (D - 1) \<le> B"
  shows "dval (mod_1_3_loop db xs h l) mod D = mval (dval (h, l)) xs mod D"
proof (induction xs arbitrary: h l rule: induct_list_3)
  case (One x)
  obtain c d where 4: "umul_ppmm l (db ! 0) = (c, d)" by fastforce
  obtain c' d' where 5: "add_ssaaaa 0 x c d = (c', d')" by fastforce
  obtain e f where 6: "umul_ppmm h (db ! 1) = (e, f)" by fastforce
  obtain h' l' where 7: "add_ssaaaa e f c' d' = (h', l')" by fastforce
  have "2 * (D - 1) \<le> 4 * (D - 1)" using D(1) by simp
  then have D2: "2 * (D - 1) \<le> B" using D(2) by (rule order.trans)
  have "dval (h', l') mod D = (uint x + uint l * B ^ (0 + 1) + uint h * B ^ (1 + 1)) mod D"
    by (intro sum_le_2 D(1) round_exact [OF mul_acc [OF 6 7 acc_mul [OF 4 5 acc_start]] _ _ D2] round_cong db(1))
      (simp_all add: db(2))
  then show ?case by (simp add: 4 5 6 [simplified] 7 dval_pair algebra_simps)
next
  case (Two x1 x0)
  obtain a b where 1: "umul_ppmm x1 (db ! 0) = (a, b)" by fastforce
  obtain a' b' where 2: "add_ssaaaa a b 0 x0 = (a', b')" by fastforce
  obtain c d where 4: "umul_ppmm l (db ! 1) = (c, d)" by fastforce
  obtain c' d' where 5: "add_ssaaaa a' b' c d = (c', d')" by fastforce
  obtain e f where 6: "umul_ppmm h (db ! 2) = (e, f)" by fastforce
  obtain h' l' where 7: "add_ssaaaa e f c' d' = (h', l')" by fastforce
  have "3 * (D - 1) \<le> 4 * (D - 1)" using D(1) by simp
  then have D3: "3 * (D - 1) \<le> B" using D(2) by (rule order.trans)
  have "dval (h', l') mod D = (uint x0 + uint x1 * B ^ (0 + 1) + uint l * B ^ (1 + 1) + uint h * B ^ (2 + 1)) mod D"
    by (intro sum_le_3 D(1) round_exact [OF mul_acc [OF 6 7 acc_mul [OF 4 5 mul_acc [OF 1 2 acc_start]]] _ _ D3]
        round_cong db(1)) (simp_all add: db(2))
  then show ?case by (simp add: 1 2 4 [simplified] 5 6 7 dval_pair power3_eq_cube algebra_simps)
next
  case (Three x2 x1 x0 xs)
  obtain a b where 1: "umul_ppmm x1 (db ! 0) = (a, b)" by fastforce
  obtain a' b' where 2: "add_ssaaaa a b 0 x0 = (a', b')" by fastforce
  obtain c d where 4: "umul_ppmm x2 (db ! 1) = (c, d)" by fastforce
  obtain c' d' where 5: "add_ssaaaa a' b' c d = (c', d')" by fastforce
  obtain e f where 6: "umul_ppmm l (db ! 2) = (e, f)" by fastforce
  obtain e' f' where 7: "add_ssaaaa c' d' e f = (e', f')" by fastforce
  obtain g i where 8: "umul_ppmm h (db ! 3) = (g, i)" by fastforce
  obtain h' l' where 9: "add_ssaaaa g i e' f' = (h', l')" by fastforce
  have "dval (h', l') mod D
      = (uint x0 + uint x1 * B ^ (0 + 1) + uint x2 * B ^ (1 + 1) + uint l * B ^ (2 + 1) + uint h * B ^ (3 + 1)) mod D"
    by (intro sum_le_4 D(1)
        round_exact [OF mul_acc [OF 8 9 acc_mul [OF 6 7 acc_mul [OF 4 5 mul_acc [OF 1 2 acc_start]]]] _ _ D(2)]
        round_cong db(1)) (simp_all add: db(2))
  also have "uint x0 + uint x1 * B ^ (0 + 1) + uint x2 * B ^ (1 + 1) + uint l * B ^ (2 + 1) + uint h * B ^ (3 + 1)
      = ((dval (h, l) * B + uint x2) * B + uint x1) * B + uint x0"
    by (simp add: dval_pair power3_eq_cube power4_eq_xxxx algebra_simps)
  finally have "mval (dval (h', l')) xs mod D = mval (dval (h, l)) (x2 # x1 # x0 # xs) mod D"
    unfolding mval.simps by (rule mval_mod_cong)
  then show ?case using Three.IH by (simp add: 1 2 4 [simplified] 5 6 7 8 9)
qed simp

subsection \<open>Callers\<close>

record div_config =
  MOD_1_1_THRESHOLD :: nat
  MOD_1_2_THRESHOLD :: nat
  MOD_1_3_THRESHOLD :: nat
  MOD_1_NORM_THRESHOLD :: nat
  MOD_1_UNNORM_THRESHOLD :: nat
  DIVREM_1_NORM_THRESHOLD :: nat
  DIVREM_1_UNNORM_THRESHOLD :: nat
  DIVREM_EUCLID_HENSEL_THRESHOLD :: nat
  RSH_DIVREM_HENSEL_QR_1_THRESHOLD :: nat

definition GMP_LIMB_HIGHBIT :: limb where
  "GMP_LIMB_HIGHBIT = push_bit 63 1"

text \<open>The powers of the base modulo the shifted divisor \<open>ds\<close>, each from the one before.\<close>

fun base_powers :: "nat \<Rightarrow> limb \<Rightarrow> limb \<Rightarrow> limb \<Rightarrow> limb list" where
  "base_powers 0 ds i r = []"
| "base_powers (Suc k) ds i r = (let (crap, r) = udiv_qrnnd_preinv2 r 0 ds i in r # base_powers k ds i r)"

definition mod_1_reduce :: "nat \<Rightarrow> limb \<Rightarrow> limb \<Rightarrow> limb \<Rightarrow> limb \<Rightarrow> limb" where
  "mod_1_reduce c ds i sh sl =
     (let (crap, ret) =
            udiv_qrnnd_preinv2 (push_bit c sh OR drop_bit 1 (drop_bit (63 - c) sl)) (push_bit c sl) ds i
      in drop_bit c ret)"

definition mpn_mod_1_1_wrap :: "limb list \<Rightarrow> limb \<Rightarrow> limb" where
  "mpn_mod_1_1_wrap xp d =
     (if length xp = 0 then 0 else if length xp = 1 then xp ! 0 mod d
      else
        let c = count_leading_zeros d; ds = push_bit c d; i = invert_limb ds;
            db = map (drop_bit c) (base_powers 2 ds i (push_bit c 1));
            (sl, sh) = mpn_mod_1_1 xp db
        in mod_1_reduce c ds i sh sl)"

definition mpn_mod_1_2_wrap :: "limb list \<Rightarrow> limb \<Rightarrow> limb" where
  "mpn_mod_1_2_wrap xp d =
     (if length xp = 0 then 0 else if length xp = 1 then xp ! 0 mod d
      else
        let c = count_leading_zeros d; ds = push_bit c d; i = invert_limb ds;
            db = map (drop_bit c) (base_powers 3 ds i (push_bit c 1));
            (l, h) = mpn_mod_1_2 xp db
        in mod_1_reduce c ds i h l)"

definition mpn_mod_1_3_wrap :: "limb list \<Rightarrow> limb \<Rightarrow> limb" where
  "mpn_mod_1_3_wrap xp d =
     (if length xp = 0 then 0 else if length xp = 1 then xp ! 0 mod d
      else
        let c = count_leading_zeros d; ds = push_bit c d; i = invert_limb ds;
            db = map (drop_bit c) (base_powers 4 ds i (push_bit c 1));
            (l, h) = mpn_mod_1_3 xp db
        in mod_1_reduce c ds i h l)"

fun euclid_loop :: "nat \<Rightarrow> limb \<Rightarrow> limb \<Rightarrow> limb list \<Rightarrow> limb \<Rightarrow> limb" where
  "euclid_loop s d i [] r = r"
| "euclid_loop s d i (l # xs) r =
     (let h = drop_bit 1 (drop_bit (63 - s) l); l = push_bit s l;
          h = h + r;
          (q, r) = udiv_qrnnd_preinv2 h l d i
      in euclid_loop s d i xs r)"

definition mpn_divrem_euclidean_r_1 :: "div_config \<Rightarrow> limb list \<Rightarrow> limb \<Rightarrow> limb" where
  "mpn_divrem_euclidean_r_1 cfg xp d =
     (if d \<le> GMP_LIMB_HIGHBIT div 2 + 1 \<and> length xp \<ge> MOD_1_3_THRESHOLD cfg then mpn_mod_1_3_wrap xp d
      else if d \<le> (- 1) div 3 + 1 \<and> length xp \<ge> MOD_1_2_THRESHOLD cfg then mpn_mod_1_2_wrap xp d
      else if d \<le> GMP_LIMB_HIGHBIT + 1 \<and> length xp \<ge> MOD_1_1_THRESHOLD cfg then mpn_mod_1_1_wrap xp d
      else
        let s = count_leading_zeros d; d = push_bit s d; i = invert_limb d;
            r = euclid_loop s d i (rev xp) 0
        in drop_bit s r)"

text \<open>A divisor shifted until its top bit is set.\<close>

lemma normalized:
  assumes "d \<noteq> 0"
  shows "uint (push_bit (count_leading_zeros d) d) = uint d * 2 ^ count_leading_zeros d"
    and "2 ^ 63 \<le> uint (push_bit (count_leading_zeros d) d)"
proof -
  let ?c = "count_leading_zeros d"
  note z = count_leading_zeros_spec [OF assms]
  have "uint d * 2 ^ ?c < 2 ^ (64 - ?c) * 2 ^ ?c" using z(3) by (intro mult_strict_right_mono) simp_all
  then show v: "uint (push_bit ?c d) = uint d * 2 ^ ?c"
    using pow_split [OF z(1)] by (simp add: uint_push_limb mod_pos_pos_trivial)
  have "(2 :: int) ^ 63 = 2 ^ (63 - ?c) * 2 ^ ?c" using z(1) by (simp flip: power_add)
  also have "\<dots> \<le> uint d * 2 ^ ?c" using z(2) by (intro mult_right_mono) simp_all
  finally show "2 ^ 63 \<le> uint (push_bit ?c d)" using v by simp
qed

lemma split_shift:
  assumes "c < 64"
  shows "uint (drop_bit 1 (drop_bit (63 - c) l)) * B + uint (push_bit c l) = uint (l :: limb) * 2 ^ c"
proof (cases "c = 0")
  case True
  have "uint (drop_bit 64 l) = 0" using uint_lt_B [of l] by (simp add: uint_drop_limb B_def)
  then show ?thesis using True by simp
next
  case False
  have "1 + (63 - c) = 64 - c" using assms by simp
  then have "drop_bit 1 (drop_bit (63 - c) l) = drop_bit (64 - c) l" by (simp only: drop_bit_drop_bit)
  then show ?thesis using shift_limb_value [of c l] False assms by (simp add: mult.commute add.commute)
qed

lemma shifted_step:
  assumes ds: "uint ds = D * 2 ^ c" "2 ^ 63 \<le> uint ds" and c: "c < 64" and r: "uint r = \<rho> * 2 ^ c" "0 \<le> \<rho>" "\<rho> < D"
  shows "uint (drop_bit 1 (drop_bit (63 - c) l) + r) = uint (drop_bit 1 (drop_bit (63 - c) l)) + uint r"
    and "uint (snd (udiv_qrnnd_preinv2 (drop_bit 1 (drop_bit (63 - c) l) + r) (push_bit c l) ds (invert_limb ds)))
      = ((\<rho> * B + uint l) mod D) * 2 ^ c"
proof -
  let ?h = "drop_bit 1 (drop_bit (63 - c) l)"
  have "uint ?h * B < 2 ^ c * B"
  proof -
    have "uint l * 2 ^ c < B * 2 ^ c" by simp
    then show ?thesis using split_shift [OF c, of l] uint_ge_0 [of "push_bit c l"] by (simp only: mult.commute)
  qed
  then have h: "uint ?h < 2 ^ c" by simp
  have "(\<rho> + 1) * 2 ^ c \<le> D * 2 ^ c" using r by (intro mult_right_mono) simp_all
  then have lt: "uint ?h + uint r < uint ds" using h r(1) ds(1) by (simp only: distrib_right mult_1)
  then show s: "uint (?h + r) = uint ?h + uint r" using uint_lt_B [of ds] by (intro uint_add_limb_no_overflow) linarith
  obtain q r' where p: "udiv_qrnnd_preinv2 (?h + r) (push_bit c l) ds (invert_limb ds) = (q, r')" by fastforce
  have "?h + r < ds" using lt s by (simp add: less_limb_iff)
  note v = udiv_qrnnd_preinv2_value [OF this ds(2) p]
  have "uint (?h + r) * B + uint (push_bit c l) = (\<rho> * B + uint l) * 2 ^ c"
    unfolding s r(1) using split_shift [OF c, of l] by (simp add: algebra_simps)
  then have "(\<rho> * B + uint l) * 2 ^ c = uint q * uint ds + uint r'" using v(1) by simp
  then have "(\<rho> * B + uint l) * 2 ^ c mod uint ds = uint r'"
    by (rule zdiv_mod_unique(2)) (use v(2) in \<open>simp_all add: less_limb_iff\<close>)
  then show "uint (snd (udiv_qrnnd_preinv2 (?h + r) (push_bit c l) ds (invert_limb ds))) = ((\<rho> * B + uint l) mod D) * 2 ^ c"
    using p unfolding ds(1) by (simp add: mod_mult_mult2)
qed

lemma euclid_loop_value:
  assumes ds: "uint ds = D * 2 ^ c" "2 ^ 63 \<le> uint ds" "c < 64" and r: "uint r = \<rho> * 2 ^ c" "0 \<le> \<rho>" "\<rho> < D"
  shows "uint (euclid_loop c ds (invert_limb ds) xs r) = (mval \<rho> xs mod D) * 2 ^ c"
  using r
proof (induction xs arbitrary: r \<rho>)
  case (Cons l xs)
  let ?r = "snd (udiv_qrnnd_preinv2 (drop_bit 1 (drop_bit (63 - c) l) + r) (push_bit c l) ds (invert_limb ds))"
  let ?s = "(\<rho> * B + uint l) mod D"
  have "uint ?r = ?s * 2 ^ c" by (rule shifted_step(2) [OF ds Cons.prems])
  moreover have "0 \<le> ?s" "?s < D" using Cons.prems by simp_all
  ultimately have "uint (euclid_loop c ds (invert_limb ds) xs ?r) = (mval ?s xs mod D) * 2 ^ c" by (rule Cons.IH)
  moreover have "mval ?s xs mod D = mval (\<rho> * B + uint l) xs mod D" by (rule mval_mod_cong) simp
  ultimately show ?case by (simp add: Let_def split_beta)
qed simp

lemma divides_one_special:
  "snd (udiv_qrnnd_preinv2 0x8000000000000000 0 0x8000000000000000 (invert_limb 0x8000000000000000)) = 0"
  by code_simp

text \<open>
  The powers of the base. For the divisor 1 the first step is outside the contract of the
  division macro (the high limb equals the divisor), which still returns the remainder 0.
\<close>

lemma base_power_step:
  assumes ds: "uint ds = D * 2 ^ c" "2 ^ 63 \<le> uint ds" "c < 64"
    and r: "uint r = \<rho> * 2 ^ c" "0 \<le> \<rho>" "\<rho> < D \<or> \<rho> = 1 \<and> D = 1"
  shows "uint (snd (udiv_qrnnd_preinv2 r 0 ds (invert_limb ds))) = (\<rho> * B mod D) * 2 ^ c"
proof (cases "\<rho> < D")
  case True
  then show ?thesis using shifted_step(2) [OF ds r(1,2), of 0] by simp
next
  case False
  then have D: "\<rho> = 1" "D = 1" using r(3) by simp_all
  have "\<not> c < 63"
  proof
    assume "c < 63"
    then have "(2 :: int) ^ c < 2 ^ 63" by (intro power_strict_increasing) simp_all
    then show False using ds(1,2) D by simp
  qed
  then have "c = 63" using ds(3) by simp
  then have "ds = 0x8000000000000000" "r = 0x8000000000000000" using ds(1) r(1) D by (simp_all add: eq_limb_iff)
  then show ?thesis using divides_one_special D by simp
qed

lemma base_powers_value:
  assumes ds: "uint ds = D * 2 ^ c" "2 ^ 63 \<le> uint ds" "c < 64" and D: "0 < D"
    and r: "uint r = \<rho> * 2 ^ c" "0 \<le> \<rho>" "\<rho> < D \<or> \<rho> = 1 \<and> D = 1" and j: "j < k"
  shows "uint (base_powers k ds (invert_limb ds) r ! j) = (\<rho> * B ^ (j + 1) mod D) * 2 ^ c"
  using r j
proof (induction k arbitrary: r \<rho> j)
  case (Suc k)
  let ?r = "snd (udiv_qrnnd_preinv2 r 0 ds (invert_limb ds))"
  have s: "uint ?r = (\<rho> * B mod D) * 2 ^ c" by (rule base_power_step [OF ds Suc.prems(1-3)])
  show ?case
  proof (cases j)
    case 0
    then show ?thesis using s by (simp add: Let_def split_beta)
  next
    case (Suc j')
    have "uint (base_powers k ds (invert_limb ds) ?r ! j') = ((\<rho> * B mod D) * B ^ (j' + 1) mod D) * 2 ^ c"
      using D Suc Suc.prems(4) by (intro Suc.IH s) simp_all
    moreover have "(\<rho> * B mod D) * B ^ (j' + 1) mod D = \<rho> * B ^ (j + 1) mod D"
      using Suc by (simp only: mod_mult_left_eq) (simp add: algebra_simps)
    ultimately show ?thesis using Suc by (simp add: Let_def split_beta)
  qed
qed simp

lemma length_base_powers [simp]: "length (base_powers k ds i r) = k"
  by (induction k arbitrary: r) (simp_all add: Let_def split_beta)

lemma drop_shifted: "uint r = k * 2 ^ c \<Longrightarrow> uint (drop_bit c (r :: limb)) = k"
  by (simp add: uint_drop_limb)

lemma powers_of_base_normalized:
  assumes "d \<noteq> 0"
  defines "c \<equiv> count_leading_zeros d"
  shows "powers_of_base (uint d) (map (drop_bit c) (base_powers k (push_bit c d) (invert_limb (push_bit c d)) (push_bit c 1)))"
  unfolding powers_of_base_def
proof (intro allI impI)
  fix j
  assume "j < length (map (drop_bit c) (base_powers k (push_bit c d) (invert_limb (push_bit c d)) (push_bit c 1)))"
  then have j: "j < k" by simp
  have c: "c < 64" unfolding c_def by (rule count_leading_zeros_spec(1) [OF assms(1)])
  have d: "0 < uint d" using assms(1) by (simp add: limb_ne_0_iff)
  have "(2 :: int) ^ c \<le> 2 ^ 63" using c by (intro power_increasing) simp_all
  then have "(2 :: int) ^ c < B" by (simp add: B_def)
  then have "1 * 2 ^ c mod B = 1 * 2 ^ c" by (simp add: mod_pos_pos_trivial)
  then have one: "uint (push_bit c 1 :: limb) = 1 * 2 ^ c" by (simp only: uint_push_limb uint_1_eq)
  have d1: "1 < uint d \<or> (1 :: int) = 1 \<and> uint d = 1" using d by linarith
  have "uint (base_powers k (push_bit c d) (invert_limb (push_bit c d)) (push_bit c 1) ! j)
      = (1 * B ^ (j + 1) mod uint d) * 2 ^ c"
    by (rule base_powers_value [OF normalized(1) [OF assms(1), folded c_def] normalized(2) [OF assms(1), folded c_def]
          c d one _ d1 j]) simp
  then have "uint (drop_bit c (base_powers k (push_bit c d) (invert_limb (push_bit c d)) (push_bit c 1) ! j))
      = 1 * B ^ (j + 1) mod uint d" by (rule drop_shifted)
  then show "uint (map (drop_bit c) (base_powers k (push_bit c d) (invert_limb (push_bit c d)) (push_bit c 1)) ! j)
      = B ^ (j + 1) mod uint d" using j by simp
qed

lemma mod_1_reduce_value:
  assumes ds: "uint ds = D * 2 ^ c" "2 ^ 63 \<le> uint ds" "c < 64" and sh: "uint sh < D"
  shows "uint (mod_1_reduce c ds (invert_limb ds) sh sl) = dval (sh, sl) mod D"
proof -
  have "uint sh * 2 ^ c < D * 2 ^ c" using sh by simp
  then have "uint sh * 2 ^ c < B" using ds(1) uint_lt_B [of ds] by linarith
  then have p: "uint (push_bit c sh) = uint sh * 2 ^ c" by (simp add: uint_push_limb mod_pos_pos_trivial)
  have "push_bit c sh OR drop_bit 1 (drop_bit (63 - c) sl) = drop_bit 1 (drop_bit (63 - c) sl) + push_bit c sh"
  proof -
    have "push_bit c sh AND drop_bit 1 (drop_bit (63 - c) sl) = 0"
      using ds(3) by (intro bit_eqI) (auto simp: bit_simps dest: bit_imp_le_length)
    then show ?thesis by (simp add: disjunctive_add_eq_or [symmetric] add.commute)
  qed
  then show ?thesis
    unfolding mod_1_reduce_def using drop_shifted [OF shifted_step(2) [OF ds p uint_ge_0 sh, of sl]]
    by (simp add: split_beta dval_pair)
qed

subsection \<open>The contract of a folding loop\<close>

text \<open>The three routines differ in their loop and in the number of powers only.\<close>

definition fold_with ::
  "(limb list \<Rightarrow> limb list \<Rightarrow> limb \<Rightarrow> limb \<Rightarrow> limb \<times> limb) \<Rightarrow> limb list \<Rightarrow> limb list \<Rightarrow> limb \<times> limb" where
  "fold_with loop xp db =
     (case rev xp of
        h # l # xs \<Rightarrow>
          (let (h, l) = loop db xs h l;
               (sh, sl) = umul_ppmm h (db ! 0);
               (sh, sl) = add_ssaaaa sh sl 0 l
           in (sl, sh))
      | _ \<Rightarrow> (0, 0))"

definition mod_1_wrap ::
  "nat \<Rightarrow> (limb list \<Rightarrow> limb list \<Rightarrow> limb \<Rightarrow> limb \<Rightarrow> limb \<times> limb) \<Rightarrow> limb list \<Rightarrow> limb \<Rightarrow> limb" where
  "mod_1_wrap k loop xp d =
     (if length xp = 0 then 0 else if length xp = 1 then xp ! 0 mod d
      else
        let c = count_leading_zeros d; ds = push_bit c d; i = invert_limb ds;
            db = map (drop_bit c) (base_powers k ds i (push_bit c 1));
            (l, h) = fold_with loop xp db
        in mod_1_reduce c ds i h l)"

lemma fold_routines:
  "mpn_mod_1_1 = fold_with mod_1_1_loop" "mpn_mod_1_2 = fold_with mod_1_2_loop" "mpn_mod_1_3 = fold_with mod_1_3_loop"
  by (simp_all add: fun_eq_iff fold_with_def mpn_mod_1_1_def mpn_mod_1_2_def mpn_mod_1_3_def)

lemma wraps:
  "mpn_mod_1_1_wrap = mod_1_wrap 2 mod_1_1_loop" "mpn_mod_1_2_wrap = mod_1_wrap 3 mod_1_2_loop"
  "mpn_mod_1_3_wrap = mod_1_wrap 4 mod_1_3_loop"
  by (simp_all add: fun_eq_iff mod_1_wrap_def mpn_mod_1_1_wrap_def mpn_mod_1_2_wrap_def mpn_mod_1_3_wrap_def fold_routines)

lemma two_limbs: "2 \<le> length xp \<Longrightarrow> \<exists>h l xs. rev xp = h # l # xs"
  by (metis One_nat_def Suc_1 Suc_le_length_iff length_rev)

locale mod_1_fold =
  fixes k :: nat and loop :: "limb list \<Rightarrow> limb list \<Rightarrow> limb \<Rightarrow> limb \<Rightarrow> limb \<times> limb"
  assumes powers: "0 < k"
    and loop_value: "\<lbrakk>powers_of_base D db; length db = k; 0 < D; int k * (D - 1) \<le> B\<rbrakk>
      \<Longrightarrow> dval (loop db xs h l) mod D = mval (dval (h, l)) xs mod D"
begin

lemma fold_value:
  assumes a: "powers_of_base D db" "length db = k" "0 < D" "int k * (D - 1) \<le> B" "2 \<le> length xp"
    and r: "fold_with loop xp db = (sl, sh)"
  shows "dval (sh, sl) mod D = lval xp mod D" "uint sh < D"
proof -
  obtain h l xs where x: "rev xp = h # l # xs" using two_limbs [OF a(5)] by blast
  obtain h' l' where v: "loop db xs h l = (h', l')" by fastforce
  obtain p q where m: "umul_ppmm h' (db ! 0) = (p, q)" by fastforce
  have f: "add_ssaaaa p q 0 l' = (sh, sl)" using r v m x by (auto simp: fold_with_def split: prod.splits)
  have "1 * (D - 1) \<le> int k * (D - 1)" using powers a(3) by (intro mult_right_mono) linarith+
  then have D: "D - 1 \<le> B" using a(4) by (metis mult_1 order.trans)
  have k: "0 < length db" using a(2) powers by simp
  have "mval (dval (h, l)) xs = lval xp" using x mval_0_rev [of xp] by (simp add: dval_pair)
  then show "dval (sh, sl) mod D = lval xp mod D" "uint sh < D"
    using mod_1_finish [OF a(1) k a(3) D m f] loop_value [OF a(1-4), of xs h l] v by simp_all
qed

lemma wrap_value:
  assumes d: "d \<noteq> 0" "int k * (uint d - 1) \<le> B"
  shows "uint (mod_1_wrap k loop xp d) = lval xp mod uint d"
proof -
  consider "xp = []" | x where "xp = [x]" | "2 \<le> length xp" 
    by (cases xp; cases "tl xp") (auto simp: Suc_le_eq)
  then show ?thesis
  proof cases
    case 3
    define c where "c = count_leading_zeros d"
    define db where "db = map (drop_bit c) (base_powers k (push_bit c d) (invert_limb (push_bit c d)) (push_bit c 1))"
    obtain l h where r: "fold_with loop xp db = (l, h)" by fastforce
    have db: "powers_of_base (uint d) db" unfolding db_def c_def by (rule powers_of_base_normalized [OF d(1)])
    have d0: "0 < uint d" using d(1) by (simp add: limb_ne_0_iff)
    have len: "length db = k" by (simp add: db_def)
    note v = fold_value [OF db len d0 d(2) 3 r]
    have "mod_1_wrap k loop xp d = mod_1_reduce c (push_bit c d) (invert_limb (push_bit c d)) h l"
      using 3 r by (auto simp: mod_1_wrap_def Let_def c_def db_def)
    moreover have "uint \<dots> = dval (h, l) mod uint d"
      unfolding c_def by (rule mod_1_reduce_value [OF normalized [OF d(1)] count_leading_zeros_spec(1) [OF d(1)] v(2)])
    ultimately show ?thesis using v(1) by simp
  qed (simp_all add: mod_1_wrap_def uint_mod)
qed

end

interpretation fold_1: mod_1_fold 2 mod_1_1_loop
  by unfold_locales (simp_all add: mod_1_1_loop_value)

interpretation fold_2: mod_1_fold 3 mod_1_2_loop
  by unfold_locales (simp_all add: mod_1_2_loop_value)

interpretation fold_3: mod_1_fold 4 mod_1_3_loop
  by unfold_locales (simp_all add: mod_1_3_loop_value)

theorem mpn_divrem_euclidean_r_1_value:
  assumes "d \<noteq> 0"
  shows "uint (mpn_divrem_euclidean_r_1 cfg xp d) = lval xp mod uint d"
proof -
  have u: "uint (GMP_LIMB_HIGHBIT div 2 + 1) = 2 ^ 62 + 1" "uint ((- 1) div 3 + 1 :: limb) = (B - 1) div 3 + 1"
    "uint (GMP_LIMB_HIGHBIT + 1) = 2 ^ 63 + 1"
    by (simp_all add: GMP_LIMB_HIGHBIT_def B_def)
  let ?c = "count_leading_zeros d"
  have "uint (euclid_loop ?c (push_bit ?c d) (invert_limb (push_bit ?c d)) (rev xp) 0) = (mval 0 (rev xp) mod uint d) * 2 ^ ?c"
    using assms by (intro euclid_loop_value normalized count_leading_zeros_spec) (simp_all add: limb_ne_0_iff)
  then have e: "uint (drop_bit ?c (euclid_loop ?c (push_bit ?c d) (invert_limb (push_bit ?c d)) (rev xp) 0)) = lval xp mod uint d"
    unfolding mval_0_rev by (rule drop_shifted)
  show ?thesis
    unfolding mpn_divrem_euclidean_r_1_def wraps le_limb_iff u
    using fold_1.wrap_value [OF assms, of xp] fold_2.wrap_value [OF assms, of xp] fold_3.wrap_value [OF assms, of xp] e
    by (auto simp: Let_def B_def)
qed

end
