(* ===== verification/Mpn_Divrem.thy ===== *)
theory Mpn_Divrem
  imports Mpn_Hensel Mpn_Mod
begin

unbundle bit_operations_syntax

text \<open>
  Division of a limb vector by one limb: \<^verbatim>\<open>mpn_divrem_1\<close> (with fraction limbs) and
  \<^verbatim>\<open>mpn_mod_1\<close>, on every branch: a normalized divisor, a divisor that is shifted until it is, each
  with the plain and with the multiply-by-inverse division macro, and for a long dividend and a small divisor the
  remainder first and then the quotient from the low end. \<^verbatim>\<open>UDIV_NEEDS_NORMALIZATION\<close> is 1, as for the
  generic division macro.
\<close>

definition udiv_plain :: "limb \<Rightarrow> limb \<Rightarrow> limb \<Rightarrow> limb \<times> limb" where
  "udiv_plain d n1 n0 = udiv_qrnnd_c n1 n0 d"

definition udiv_inverse :: "limb \<Rightarrow> limb \<Rightarrow> limb \<Rightarrow> limb \<times> limb" where
  "udiv_inverse d n1 n0 = udiv_qrnnd_preinv2 n1 n0 d (invert_limb d)"

text \<open>The branch of \<^verbatim>\<open>mpn_divrem_1\<close> for a divisor with its top bit set.\<close>

definition divrem_1_norm :: "div_config \<Rightarrow> nat \<Rightarrow> limb list \<Rightarrow> limb \<Rightarrow> limb list \<times> limb" where
  "divrem_1_norm cfg qxn up d =
     (let (qh, r, us) =
            (case rev up of
               [] \<Rightarrow> ([], 0, [])
             | u # us \<Rightarrow> (let r = u; q = of_bool (r \<ge> d) in ([q], r - (d AND - q), us)));
          n = length us + qxn;
          udiv = (if n < DIVREM_1_NORM_THRESHOLD cfg then udiv_plain d else udiv_inverse d);
          (qs, r) = div_loop udiv us r;
          (qx, r) = div_loop udiv (replicate qxn 0) r
      in (rev (qh @ qs @ qx), r))"

text \<open>The branch for a divisor whose top bit is clear.\<close>

definition divrem_1_unnorm :: "div_config \<Rightarrow> nat \<Rightarrow> limb list \<Rightarrow> limb \<Rightarrow> limb list \<times> limb" where
  "divrem_1_unnorm cfg qxn up d =
     (let (qh, r, us) =
            (case rev up of
               [] \<Rightarrow> ([], 0, [])
             | n1 # us \<Rightarrow> if n1 < d then ([0], n1, us) else ([], 0, n1 # us));
          n = length us + qxn
      in if n = 0 then (qh, r)
         else
           let norm = count_leading_zeros d; d = push_bit norm d; r = push_bit norm r;
               udiv = (if n < DIVREM_1_UNNORM_THRESHOLD cfg then udiv_plain d else udiv_inverse d);
               (qs, r) =
                 (case us of
                    [] \<Rightarrow> ([], r)
                  | n1 # us \<Rightarrow> div_shift_loop udiv norm n1 us (r OR drop_bit (64 - norm) n1));
               (qx, r) = div_loop udiv (replicate qxn 0) r
           in (rev (qh @ qs @ qx), drop_bit norm r))"

definition mpn_divrem_1 :: "div_config \<Rightarrow> nat \<Rightarrow> limb list \<Rightarrow> limb \<Rightarrow> limb list \<times> limb" where
  "mpn_divrem_1 cfg qxn up d =
     (if length up + qxn = 0 then ([], 0)
      else if qxn = 0 \<and> d \<le> GMP_LIMB_HIGHBIT div 2 + 1 \<and> length up \<ge> DIVREM_EUCLID_HENSEL_THRESHOLD cfg then
        let r = mpn_divrem_euclidean_r_1 cfg up d;
            i = count_trailing_zeros d;
            (qp, _) = mpn_rsh_divrem_hensel_qr_1 (RSH_DIVREM_HENSEL_QR_1_THRESHOLD cfg) up (drop_bit i d) i r
        in (qp, r)
      else if d AND GMP_LIMB_HIGHBIT \<noteq> 0 then divrem_1_norm cfg qxn up d
      else divrem_1_unnorm cfg qxn up d)"

definition quotient_of :: "limb list \<Rightarrow> nat \<Rightarrow> limb \<Rightarrow> limb list \<times> limb \<Rightarrow> bool" where
  "quotient_of up qxn d res \<longleftrightarrow>
     lval (fst res) * uint d + uint (snd res) = lval up * B ^ qxn \<and> snd res < d \<and> length (fst res) = length up + qxn"

lemma udiv_steps: "2 ^ 63 \<le> uint d \<Longrightarrow> udiv_step (if b then udiv_plain d else udiv_inverse d) d"
  using udiv_step_c [of d] udiv_step_preinv2 [of d] by (simp add: udiv_plain_def [abs_def] udiv_inverse_def [abs_def])

lemma highbit_set: "d AND GMP_LIMB_HIGHBIT \<noteq> 0 \<longleftrightarrow> 2 ^ 63 \<le> uint (d :: limb)"
proof -
  have "d AND GMP_LIMB_HIGHBIT = 0 \<longleftrightarrow> \<not> bit d 63"
    using and_exp_eq_0_iff_not_bit [of d 63] by (simp add: GMP_LIMB_HIGHBIT_def)
  moreover have "bit d 63 \<longleftrightarrow> bit (uint d) 63" by (simp add: bit_uint_iff)
  moreover have "bit (uint d) 63 \<longleftrightarrow> 2 ^ 63 \<le> uint d"
  proof (cases "2 ^ 63 \<le> uint d")
    case True
    have "uint d div 2 ^ 63 = 1"
      by (rule zdiv_mod_unique(1) [of _ _ _ "uint d - 2 ^ 63"]) (use True uint_lt_B [of d] in \<open>simp_all add: B_def\<close>)
    then show ?thesis using True by (simp only: bit_iff_odd) simp
  next
    case False
    then have "uint d div 2 ^ 63 = 0" by (intro div_pos_pos_trivial) simp_all
    then show ?thesis using False by (simp only: bit_iff_odd) simp
  qed
  ultimately show ?thesis by simp
qed

lemma mval_zeros: "mval a (replicate n 0) = a * B ^ n"
  by (simp add: mval_lval)

text \<open>A division in two loops, over the dividend and over the fraction limbs.\<close>

lemma div_two_loops:
  assumes s: "udiv_step udiv d" and r: "r < d"
    and 1: "div_loop udiv us r = (qs, r1)" and 2: "div_loop udiv (replicate qxn 0) r1 = (qx, r2)"
  shows "mval 0 (qs @ qx) * uint d + uint r2 = mval (uint r) us * B ^ qxn" "r2 < d"
    "length (qs @ qx) = length us + qxn"
proof -
  note a = div_loop_value [OF s r 1]
  note b = div_loop_value [OF s conjunct1 [OF conjunct2 [OF a]] 2]
  have "mval 0 (qs @ qx) = mval 0 qs * B ^ qxn + mval 0 qx"
    using b by (simp add: mval_lval lval_append)
  then have "mval 0 (qs @ qx) * uint d + uint r2 = (mval 0 qs * uint d) * B ^ qxn + (mval 0 qx * uint d + uint r2)"
    by (simp add: algebra_simps)
  also have "mval 0 qx * uint d + uint r2 = uint r1 * B ^ qxn" using b by (simp add: mval_zeros)
  finally show "mval 0 (qs @ qx) * uint d + uint r2 = mval (uint r) us * B ^ qxn"
    using conjunct1 [OF a, symmetric] by (simp add: distrib_right)
  show "r2 < d" "length (qs @ qx) = length us + qxn" using a b by simp_all
qed

lemma lval_rev_append: "lval (rev (xs @ ys)) = mval 0 xs * B ^ length ys + mval 0 ys"
  by (simp add: mval_lval lval_append mult.commute)

lemma divrem_1_norm_value:
  assumes d: "2 ^ 63 \<le> uint d"
  shows "quotient_of up qxn d (divrem_1_norm cfg qxn up d)"
proof -
  define start where "start = (case rev up of
               [] \<Rightarrow> ([], 0, [])
             | u # us \<Rightarrow> (let r = u; q = of_bool (r \<ge> d) in ([q], r - (d AND - q), us)))"
  obtain qh r us where st: "start = (qh, r, us)" by (cases start) auto
  have d0: "0 < uint d" using d by (rule less_le_trans [rotated]) simp
  have r: "r < d" "length qh + length us = length up"
    and v: "lval up = mval 0 qh * uint d * B ^ length us + mval (uint r) us"
  proof -
    have "r < d \<and> length qh + length us = length up \<and> lval up = mval 0 qh * uint d * B ^ length us + mval (uint r) us"
    proof (cases "rev up")
      case Nil
      then show ?thesis using st d0 by (auto simp: start_def less_limb_iff)
    next
      case (Cons u ws)
      have "uint u < 2 * uint d" using d uint_lt_B [of u] by (simp add: B_def)
      then have "uint u = of_bool (d \<le> u) * uint d + uint r \<and> r < d \<and> qh = [of_bool (d \<le> u)] \<and> us = ws"
        using st Cons by (auto simp: start_def Let_def less_limb_iff le_limb_iff uint_sub_limb)
      moreover have "lval up = mval 0 (u # ws)" using mval_0_rev [of up] Cons by simp
      moreover have "length up = length ws + 1" using Cons by (metis length_rev length_Cons Suc_eq_plus1)
      moreover have "mval (uint u) ws = of_bool (d \<le> u) * uint d * B ^ length ws + mval (uint r) ws"
        if "uint u = of_bool (d \<le> u) * uint d + uint r"
        by (subst that) (simp add: mval_lval algebra_simps)
      ultimately show ?thesis by auto
    qed
    then show "r < d" "length qh + length us = length up"
      "lval up = mval 0 qh * uint d * B ^ length us + mval (uint r) us" by simp_all
  qed
  define udiv where "udiv = (if length us + qxn < DIVREM_1_NORM_THRESHOLD cfg then udiv_plain d else udiv_inverse d)"
  obtain qs r1 where 1: "div_loop udiv us r = (qs, r1)" by fastforce
  obtain qx r2 where 2: "div_loop udiv (replicate qxn 0) r1 = (qx, r2)" by fastforce
  note l = div_two_loops [OF udiv_steps [OF d] r(1) 1 [unfolded udiv_def] 2 [unfolded udiv_def]]
  have "divrem_1_norm cfg qxn up d = (rev (qh @ qs @ qx), r2)"
    unfolding divrem_1_norm_def start_def [symmetric] st using 1 2 by (simp add: udiv_def Let_def)
  moreover have "lval (rev (qh @ qs @ qx)) = mval 0 qh * B ^ (length us + qxn) + mval 0 (qs @ qx)"
    unfolding lval_rev_append l(3) ..
  ultimately show ?thesis
    unfolding quotient_of_def v using l r(2) by (simp add: power_add algebra_simps)
qed

lemma divrem_1_unnorm_value:
  assumes d: "d \<noteq> 0" "uint d < 2 ^ 63"
  shows "quotient_of up qxn d (divrem_1_unnorm cfg qxn up d)"
proof -
  define start where "start = (case rev up of
               [] \<Rightarrow> ([], 0, [])
             | n1 # us \<Rightarrow> if n1 < d then ([0 :: limb], n1, us) else ([], 0, n1 # us))"
  obtain qh r us where st: "start = (qh, r, us)" by (cases start) auto
  have d0: "0 < uint d" using d(1) by (simp add: limb_ne_0_iff)
  have s: "r < d \<and> length qh + length us = length up \<and> lval up = mval (uint r) us \<and> (qh = [] \<or> qh = [0])"
  proof (cases "rev up")
    case Nil
    then show ?thesis using st d0 by (auto simp: start_def less_limb_iff)
  next
    case (Cons u ws)
    moreover have "lval up = mval 0 (u # ws)" using mval_0_rev [of up] Cons by simp
    moreover have "length up = length ws + 1" using Cons by (metis length_rev length_Cons Suc_eq_plus1)
    ultimately show ?thesis using st d0 by (auto simp: start_def less_limb_iff split: if_splits)
  qed
  show ?thesis
  proof (cases "length us + qxn = 0")
    case True
    then have "divrem_1_unnorm cfg qxn up d = (qh, r)"
      unfolding divrem_1_unnorm_def start_def [symmetric] st by simp
    then show ?thesis using s True by (auto simp: quotient_of_def)
  next
    case False
    define c where "c = count_leading_zeros d"
    define ds where "ds = push_bit c d"
    have c: "c < 64" unfolding c_def by (rule count_leading_zeros_spec(1) [OF d(1)])
    have c0: "0 < c"
    proof (rule ccontr)
      assume "\<not> 0 < c"
      then show False using count_leading_zeros_spec(2) [OF d(1)] d(2) by (simp add: c_def)
    qed
    have ds: "uint ds = uint d * 2 ^ c" "2 ^ 63 \<le> uint ds" unfolding ds_def c_def by (rule normalized [OF d(1)])+
    have rc: "uint r < 2 ^ (64 - c)"
      using s count_leading_zeros_spec(3) [OF d(1)] by (simp add: less_limb_iff c_def)
    define udiv where "udiv = (if length us + qxn < DIVREM_1_UNNORM_THRESHOLD cfg then udiv_plain ds else udiv_inverse ds)"
    define ws r0 where "ws = (case us of [] \<Rightarrow> [] | n1 # us \<Rightarrow> lshift_loop c (push_bit c n1) us)"
      and "r0 = (case us of [] \<Rightarrow> push_bit c r | n1 # us \<Rightarrow> push_bit c r OR drop_bit (64 - c) n1)"
    have pr: "uint (push_bit c r) = uint r * 2 ^ c"
      using mult_strict_right_mono [OF rc, of "2 ^ c"] pow_split [OF c] by (simp add: uint_push_limb mod_pos_pos_trivial)
    have shifted: "mval (uint r0) ws = mval (uint r) us * 2 ^ c" "length ws = length us"
      using pr mval_lshift_loop [OF c0 c rc] by (auto simp: ws_def r0_def split: list.split)
    have r0: "r0 < ds"
    proof (cases us)
      case Nil
      then show ?thesis using s pr ds(1) by (simp add: r0_def less_limb_iff)
    next
      case (Cons n1 vs)
      have "uint (drop_bit (64 - c) n1) < 2 ^ c"
        using uint_lt_B [of n1] pow_split [OF c] by (simp add: uint_drop_limb zdiv_lt_iff mult.commute)
      moreover have "(uint r + 1) * 2 ^ c \<le> uint d * 2 ^ c"
        using s by (intro mult_right_mono) (simp_all add: less_limb_iff)
      ultimately show ?thesis
        using Cons pr ds(1) by (simp add: r0_def less_limb_iff uint_or_shifted [OF c0 c] distrib_right)
    qed
    obtain qs r1 where 1: "div_loop udiv ws r0 = (qs, r1)" by fastforce
    obtain qx r2 where 2: "div_loop udiv (replicate qxn 0) r1 = (qx, r2)" by fastforce
    note l = div_two_loops [OF udiv_steps [OF ds(2)] r0 1 [unfolded udiv_def] 2 [unfolded udiv_def]]
    have res: "divrem_1_unnorm cfg qxn up d = (rev (qh @ qs @ qx), drop_bit c r2)"
      unfolding divrem_1_unnorm_def start_def [symmetric] st using 1 2 False
      by (auto simp: udiv_def ws_def r0_def Let_def c_def ds_def div_shift_loop_eq split: list.splits)
    have e: "mval 0 (qs @ qx) * uint d * 2 ^ c + uint r2 = lval up * B ^ qxn * 2 ^ c"
      using l(1) s unfolding shifted ds(1) by (simp add: algebra_simps)
    then have "uint r2 = 2 ^ c * (lval up * B ^ qxn - mval 0 (qs @ qx) * uint d)" by (simp add: algebra_simps)
    then have "uint r2 mod 2 ^ c = 0" by simp
    then have r2: "uint r2 = uint (drop_bit c r2) * 2 ^ c"
      using div_mult_mod_eq [of "uint r2" "2 ^ c"] by (simp add: uint_drop_limb)
    have "(mval 0 (qs @ qx) * uint d + uint (drop_bit c r2)) * 2 ^ c = lval up * B ^ qxn * 2 ^ c"
      using e r2 by (simp add: algebra_simps)
    then have "mval 0 (qs @ qx) * uint d + uint (drop_bit c r2) = lval up * B ^ qxn" by simp
    moreover have "drop_bit c r2 < d"
      using l(2) r2 ds(1) by (simp add: less_limb_iff)
    moreover have "lval (rev (qh @ qs @ qx)) = mval 0 (qs @ qx)" using s by (auto simp: mval_lval lval_append)
    ultimately show ?thesis
      unfolding quotient_of_def res using l(3) s shifted(2) by simp
  qed
qed

text \<open>A limb without its trailing zero bits.\<close>

lemma odd_part:
  assumes "d \<noteq> (0 :: limb)"
  defines "i \<equiv> count_trailing_zeros d"
  shows "i < 64" "odd (drop_bit i d)" "uint (drop_bit i d) * 2 ^ i = uint d"
proof -
  note z = count_trailing_zeros_spec [OF assms(1), folded i_def]
  show "i < 64" using bit_imp_le_length [OF z(1)] by simp
  show "odd (drop_bit i d)" using z(1) by (simp add: bit_iff_odd_drop_bit)
  have "take_bit i d = 0" using z(2) by (auto simp: bit_eq_iff bit_take_bit_iff)
  then have "uint d mod 2 ^ i = 0" using uint_take_limb [of i d] by simp
  then show "uint (drop_bit i d) * 2 ^ i = uint d"
    using div_mult_mod_eq [of "uint d" "2 ^ i"] by (simp add: uint_drop_limb)
qed

theorem mpn_divrem_1_quotient:
  assumes d: "d \<noteq> 0"
  shows "quotient_of up qxn d (mpn_divrem_1 cfg qxn up d)"
proof -
  have d0: "0 < uint d" using d by (simp add: limb_ne_0_iff)
  consider "length up + qxn = 0"
    | "length up + qxn \<noteq> 0" "qxn = 0 \<and> d \<le> GMP_LIMB_HIGHBIT div 2 + 1 \<and> length up \<ge> DIVREM_EUCLID_HENSEL_THRESHOLD cfg"
    | "length up + qxn \<noteq> 0" "\<not> (qxn = 0 \<and> d \<le> GMP_LIMB_HIGHBIT div 2 + 1 \<and> length up \<ge> DIVREM_EUCLID_HENSEL_THRESHOLD cfg)"
    by blast
  then show ?thesis
  proof cases
    case 1
    then show ?thesis using d0 by (simp add: mpn_divrem_1_def quotient_of_def less_limb_iff)
  next
    case 2
    let ?r = "mpn_divrem_euclidean_r_1 cfg up d" and ?i = "count_trailing_zeros d"
    let ?q = "mpn_rsh_divrem_hensel_qr_1 (RSH_DIVREM_HENSEL_QR_1_THRESHOLD cfg) up (drop_bit ?i d) ?i ?r"
    have r: "uint ?r = lval up mod uint d" by (rule mpn_divrem_euclidean_r_1_value [OF d])
    have i: "?i < 64" "odd (drop_bit ?i d)" "uint (drop_bit ?i d) * 2 ^ ?i = uint d"
      using odd_part [OF d] by simp_all
    have e: "mpn_divrem_1 cfg qxn up d = (fst ?q, ?r)"
      unfolding mpn_divrem_1_def if_not_P [OF 2(1)] if_P [OF 2(2)] by (simp add: Let_def split_beta)
    have up: "up \<noteq> []" using 2 by auto
    have le: "uint ?r \<le> lval up" unfolding r by (rule zmod_le_nonneg_dividend) simp
    have dv: "uint (drop_bit ?i d) * 2 ^ ?i dvd lval up - uint ?r"
      unfolding i(3) r by (rule dvd_minus_mod)
    note q = mpn_rsh_divrem_hensel_qr_1_exact [OF i(2,1) up dv le, of "RSH_DIVREM_HENSEL_QR_1_THRESHOLD cfg", unfolded i(3)]
    have "lval (fst ?q) * uint d = lval up - uint ?r" unfolding q(1) r using d0 by (simp add: minus_mod_eq_div_mult)
    then show ?thesis using q(2) 2(2) r d0 unfolding e quotient_of_def by (simp add: less_limb_iff)
  next
    case 3
    have "mpn_divrem_1 cfg qxn up d = (if 2 ^ 63 \<le> uint d then divrem_1_norm cfg qxn up d else divrem_1_unnorm cfg qxn up d)"
      unfolding mpn_divrem_1_def if_not_P [OF 3(1)] if_not_P [OF 3(2)] highbit_set ..
    then show ?thesis using divrem_1_norm_value divrem_1_unnorm_value [OF d] by simp
  qed
qed

lemma quotient_of_div_mod:
  assumes "quotient_of up 0 d res"
  shows "lval (fst res) = lval up div uint d" "uint (snd res) = lval up mod uint d" "length (fst res) = length up"
  using assms zdiv_mod_unique [of "lval up" "lval (fst res)" "uint d" "uint (snd res)"]
  by (auto simp: quotient_of_def less_limb_iff)

subsection \<open>Remainder only\<close>

definition mpn_mod_1 :: "div_config \<Rightarrow> limb list \<Rightarrow> limb \<Rightarrow> limb" where
  "mpn_mod_1 cfg up d =
     (case rev up of
        [] \<Rightarrow> 0
      | u # us \<Rightarrow>
          if d AND GMP_LIMB_HIGHBIT \<noteq> 0 then
            let r = u; r = (if r \<ge> d then r - d else r)
            in if us = [] then r
               else let udiv = (if length us < MOD_1_NORM_THRESHOLD cfg then udiv_plain d else udiv_inverse d)
                    in snd (div_loop udiv us r)
          else
            let (r, us) = (if u < d then (u, us) else (0, u # us))
            in case us of
                 [] \<Rightarrow> r
               | n1 # ns \<Rightarrow>
                   let norm = count_leading_zeros d; d = push_bit norm d;
                       r = push_bit norm r OR drop_bit (64 - norm) n1;
                       udiv = (if length us < MOD_1_UNNORM_THRESHOLD cfg then udiv_plain d else udiv_inverse d)
                   in drop_bit norm (snd (div_shift_loop udiv norm n1 ns r)))"

text \<open>It runs the same divisions as \<^verbatim>\<open>mpn_divrem_1\<close>, with its own thresholds, and drops the quotient.\<close>

lemma mpn_mod_1_eq:
  fixes cfg :: div_config
  defines "cfg' \<equiv> cfg\<lparr>DIVREM_1_NORM_THRESHOLD := MOD_1_NORM_THRESHOLD cfg, DIVREM_1_UNNORM_THRESHOLD := MOD_1_UNNORM_THRESHOLD cfg\<rparr>"
  assumes "up \<noteq> []"
  shows "mpn_mod_1 cfg up d = snd (if d AND GMP_LIMB_HIGHBIT \<noteq> 0 then divrem_1_norm cfg' 0 up d else divrem_1_unnorm cfg' 0 up d)"
proof -
  obtain u us where u: "rev up = u # us" using assms(2) by (cases "rev up") auto
  show ?thesis
    by (auto simp: mpn_mod_1_def u divrem_1_norm_def divrem_1_unnorm_def cfg'_def Let_def split_beta split: list.split)
qed

theorem mpn_mod_1_value:
  assumes "d \<noteq> 0"
  shows "uint (mpn_mod_1 cfg up d) = lval up mod uint d"
proof (cases "up = []")
  case False
  show ?thesis
    unfolding mpn_mod_1_eq [OF False] highbit_set
    using quotient_of_div_mod(2) [OF divrem_1_norm_value] quotient_of_div_mod(2) [OF divrem_1_unnorm_value [OF assms]] by simp
qed (simp add: mpn_mod_1_def)

end
