(* ===== verification/Mpz_Div_Ui.thy ===== *)
theory Mpz_Div_Ui
  imports Mpz_Arith Mpn_Divrem
begin

unbundle bit_operations_syntax

text \<open>
  Division of an integer variable by an \<^verbatim>\<open>unsigned long\<close>: truncating, floor and ceiling
  quotient, remainder, both, and the remainder as a return value only (\<^verbatim>\<open>mpz/[tfc]div_*_ui.c\<close>).
  An \<^verbatim>\<open>unsigned long\<close> fits a limb, so the branches under \<^verbatim>\<open>BITS_PER_ULONG > GMP_NUMB_BITS\<close> are
  not compiled. Every function raises \<^verbatim>\<open>DIVIDE_BY_ZERO\<close> before it touches the store.
\<close>

datatype mpz_error = DIVIDE_BY_ZERO

type_synonym div_result = "mpz_error + (store \<times> limb)"

subsection \<open>Truncation (tdiv)\<close>

definition mpz_tdiv_q_ui :: "div_config \<Rightarrow> store \<Rightarrow> var \<Rightarrow> var \<Rightarrow> limb \<Rightarrow> div_result" where
  "mpz_tdiv_q_ui cfg st quot dividend divisor =
     (if divisor = 0 then Inl DIVIDE_BY_ZERO
      else
        let ns = SIZ st dividend
        in if ns = 0 then Inr (set_SIZ st quot 0, 0)
           else
             let nn = nat \<bar>ns\<bar>;
                 st1 = MPZ_REALLOC st quot nn;
                 (qp, rl) = mpn_divrem_1 cfg 0 (take nn (PTR st1 dividend)) divisor;
                 st2 = put_limbs st1 quot 0 qp;
                 qn = nn - of_bool (PTR st2 quot ! (nn - 1) = 0)
             in Inr (set_SIZ st2 quot (if ns \<ge> 0 then int qn else - int qn), rl))"

definition mpz_tdiv_r_ui :: "div_config \<Rightarrow> store \<Rightarrow> var \<Rightarrow> var \<Rightarrow> limb \<Rightarrow> div_result" where
  "mpz_tdiv_r_ui cfg st rem dividend divisor =
     (if divisor = 0 then Inl DIVIDE_BY_ZERO
      else
        let ns = SIZ st dividend
        in if ns = 0 then Inr (set_SIZ st rem 0, 0)
           else
             let nn = nat \<bar>ns\<bar>;
                 rl = mpn_mod_1 cfg (take nn (PTR st dividend)) divisor
             in if rl = 0 then Inr (set_SIZ st rem 0, rl)
                else Inr (put_limbs (set_SIZ st rem (if ns \<ge> 0 then 1 else - 1)) rem 0 [rl], rl))"

definition mpz_tdiv_qr_ui :: "div_config \<Rightarrow> store \<Rightarrow> var \<Rightarrow> var \<Rightarrow> var \<Rightarrow> limb \<Rightarrow> div_result" where
  "mpz_tdiv_qr_ui cfg st quot rem dividend divisor =
     (if divisor = 0 then Inl DIVIDE_BY_ZERO
      else
        let ns = SIZ st dividend
        in if ns = 0 then Inr (set_SIZ (set_SIZ st quot 0) rem 0, 0)
           else
             let nn = nat \<bar>ns\<bar>;
                 st1 = MPZ_REALLOC st quot nn;
                 (qp, rl) = mpn_divrem_1 cfg 0 (take nn (PTR st1 dividend)) divisor;
                 st2 = put_limbs st1 quot 0 qp;
                 st3 = (if rl = 0 then set_SIZ st2 rem 0
                        else put_limbs (set_SIZ st2 rem (if ns \<ge> 0 then 1 else - 1)) rem 0 [rl]);
                 qn = nn - of_bool (PTR st3 quot ! (nn - 1) = 0)
             in Inr (set_SIZ st3 quot (if ns \<ge> 0 then int qn else - int qn), rl))"

definition mpz_tdiv_ui :: "div_config \<Rightarrow> store \<Rightarrow> var \<Rightarrow> limb \<Rightarrow> mpz_error + limb" where
  "mpz_tdiv_ui cfg st dividend divisor =
     (if divisor = 0 then Inl DIVIDE_BY_ZERO
      else
        let ns = SIZ st dividend
        in if ns = 0 then Inr 0
           else let nn = nat \<bar>ns\<bar> in Inr (mpn_mod_1 cfg (take nn (PTR st dividend)) divisor))"

subsection \<open>Rounding down (fdiv)\<close>

definition mpz_fdiv_q_ui :: "div_config \<Rightarrow> store \<Rightarrow> var \<Rightarrow> var \<Rightarrow> limb \<Rightarrow> div_result" where
  "mpz_fdiv_q_ui cfg st quot dividend divisor =
     (if divisor = 0 then Inl DIVIDE_BY_ZERO
      else
        let ns = SIZ st dividend
        in if ns = 0 then Inr (set_SIZ st quot 0, 0)
           else
             let nn = nat \<bar>ns\<bar>;
                 st1 = MPZ_REALLOC st quot nn;
                 (qp, rl) = mpn_divrem_1 cfg 0 (take nn (PTR st1 dividend)) divisor;
                 (qp, rl) = (if rl \<noteq> 0 \<and> ns < 0 then (mpn_incr_u qp 1, divisor - rl) else (qp, rl));
                 st2 = put_limbs st1 quot 0 qp;
                 qn = nn - of_bool (PTR st2 quot ! (nn - 1) = 0)
             in Inr (set_SIZ st2 quot (if ns \<ge> 0 then int qn else - int qn), rl))"

definition mpz_fdiv_r_ui :: "div_config \<Rightarrow> store \<Rightarrow> var \<Rightarrow> var \<Rightarrow> limb \<Rightarrow> div_result" where
  "mpz_fdiv_r_ui cfg st rem dividend divisor =
     (if divisor = 0 then Inl DIVIDE_BY_ZERO
      else
        let ns = SIZ st dividend
        in if ns = 0 then Inr (set_SIZ st rem 0, 0)
           else
             let nn = nat \<bar>ns\<bar>;
                 rl = mpn_mod_1 cfg (take nn (PTR st dividend)) divisor
             in if rl = 0 then Inr (set_SIZ st rem 0, rl)
                else
                  let rl = (if ns < 0 then divisor - rl else rl)
                  in Inr (set_SIZ (put_limbs st rem 0 [rl]) rem 1, rl))"

definition mpz_fdiv_qr_ui :: "div_config \<Rightarrow> store \<Rightarrow> var \<Rightarrow> var \<Rightarrow> var \<Rightarrow> limb \<Rightarrow> div_result" where
  "mpz_fdiv_qr_ui cfg st quot rem dividend divisor =
     (if divisor = 0 then Inl DIVIDE_BY_ZERO
      else
        let ns = SIZ st dividend
        in if ns = 0 then Inr (set_SIZ (set_SIZ st quot 0) rem 0, 0)
           else
             let nn = nat \<bar>ns\<bar>;
                 st1 = MPZ_REALLOC st quot nn;
                 (qp, rl) = mpn_divrem_1 cfg 0 (take nn (PTR st1 dividend)) divisor;
                 (st3, rl) =
                   (if rl = 0 then (set_SIZ (put_limbs st1 quot 0 qp) rem 0, rl)
                    else
                      let (qp, rl) = (if ns < 0 then (mpn_incr_u qp 1, divisor - rl) else (qp, rl))
                      in (set_SIZ (put_limbs (put_limbs st1 quot 0 qp) rem 0 [rl]) rem (of_bool (rl \<noteq> 0)), rl));
                 qn = nn - of_bool (PTR st3 quot ! (nn - 1) = 0)
             in Inr (set_SIZ st3 quot (if ns \<ge> 0 then int qn else - int qn), rl))"

definition mpz_fdiv_ui :: "div_config \<Rightarrow> store \<Rightarrow> var \<Rightarrow> limb \<Rightarrow> mpz_error + limb" where
  "mpz_fdiv_ui cfg st dividend divisor =
     (if divisor = 0 then Inl DIVIDE_BY_ZERO
      else
        let ns = SIZ st dividend
        in if ns = 0 then Inr 0
           else
             let nn = nat \<bar>ns\<bar>;
                 rl = mpn_mod_1 cfg (take nn (PTR st dividend)) divisor
             in if rl = 0 then Inr rl else Inr (if ns < 0 then divisor - rl else rl))"

subsection \<open>Rounding up (cdiv)\<close>

definition mpz_cdiv_q_ui :: "div_config \<Rightarrow> store \<Rightarrow> var \<Rightarrow> var \<Rightarrow> limb \<Rightarrow> div_result" where
  "mpz_cdiv_q_ui cfg st quot dividend divisor =
     (if divisor = 0 then Inl DIVIDE_BY_ZERO
      else
        let ns = SIZ st dividend
        in if ns = 0 then Inr (set_SIZ st quot 0, 0)
           else
             let nn = nat \<bar>ns\<bar>;
                 st1 = MPZ_REALLOC st quot nn;
                 (qp, rl) = mpn_divrem_1 cfg 0 (take nn (PTR st1 dividend)) divisor;
                 (qp, rl) = (if rl \<noteq> 0 \<and> ns \<ge> 0 then (mpn_incr_u qp 1, divisor - rl) else (qp, rl));
                 st2 = put_limbs st1 quot 0 qp;
                 qn = nn - of_bool (PTR st2 quot ! (nn - 1) = 0)
             in Inr (set_SIZ st2 quot (if ns \<ge> 0 then int qn else - int qn), rl))"

definition mpz_cdiv_r_ui :: "div_config \<Rightarrow> store \<Rightarrow> var \<Rightarrow> var \<Rightarrow> limb \<Rightarrow> div_result" where
  "mpz_cdiv_r_ui cfg st rem dividend divisor =
     (if divisor = 0 then Inl DIVIDE_BY_ZERO
      else
        let ns = SIZ st dividend
        in if ns = 0 then Inr (set_SIZ st rem 0, 0)
           else
             let nn = nat \<bar>ns\<bar>;
                 rl = mpn_mod_1 cfg (take nn (PTR st dividend)) divisor
             in if rl = 0 then Inr (set_SIZ st rem 0, rl)
                else
                  let rl = (if ns \<ge> 0 then divisor - rl else rl)
                  in Inr (set_SIZ (put_limbs st rem 0 [rl]) rem (- 1), rl))"

definition mpz_cdiv_qr_ui :: "div_config \<Rightarrow> store \<Rightarrow> var \<Rightarrow> var \<Rightarrow> var \<Rightarrow> limb \<Rightarrow> div_result" where
  "mpz_cdiv_qr_ui cfg st quot rem dividend divisor =
     (if divisor = 0 then Inl DIVIDE_BY_ZERO
      else
        let ns = SIZ st dividend
        in if ns = 0 then Inr (set_SIZ (set_SIZ st quot 0) rem 0, 0)
           else
             let nn = nat \<bar>ns\<bar>;
                 st1 = MPZ_REALLOC st quot nn;
                 (qp, rl) = mpn_divrem_1 cfg 0 (take nn (PTR st1 dividend)) divisor;
                 (st3, rl) =
                   (if rl = 0 then (set_SIZ (put_limbs st1 quot 0 qp) rem 0, rl)
                    else
                      let (qp, rl) = (if ns \<ge> 0 then (mpn_incr_u qp 1, divisor - rl) else (qp, rl))
                      in (set_SIZ (put_limbs (put_limbs st1 quot 0 qp) rem 0 [rl]) rem (- of_bool (rl \<noteq> 0)), rl));
                 qn = nn - of_bool (PTR st3 quot ! (nn - 1) = 0)
             in Inr (set_SIZ st3 quot (if ns \<ge> 0 then int qn else - int qn), rl))"

definition mpz_cdiv_ui :: "div_config \<Rightarrow> store \<Rightarrow> var \<Rightarrow> limb \<Rightarrow> mpz_error + limb" where
  "mpz_cdiv_ui cfg st dividend divisor =
     (if divisor = 0 then Inl DIVIDE_BY_ZERO
      else
        let ns = SIZ st dividend
        in if ns = 0 then Inr 0
           else
             let nn = nat \<bar>ns\<bar>;
                 rl = mpn_mod_1 cfg (take nn (PTR st dividend)) divisor
             in if rl = 0 then Inr rl else Inr (if ns \<ge> 0 then divisor - rl else rl))"

subsection \<open>The three roundings as one\<close>

text \<open>
  The functions differ in when the magnitude of the quotient is rounded up (\<open>up\<close>, of the
  dividend's signed size) and in when the remainder is negative (\<open>neg\<close>).
\<close>

definition round_up :: "bool \<Rightarrow> limb \<Rightarrow> limb list \<times> limb \<Rightarrow> limb list \<times> limb" where
  "round_up up d res = (if snd res \<noteq> 0 \<and> up then (mpn_incr_u (fst res) 1, d - snd res) else res)"

definition put_rem :: "store \<Rightarrow> var \<Rightarrow> bool \<Rightarrow> limb \<Rightarrow> store" where
  "put_rem st w neg rl =
     (if rl = 0 then set_SIZ st w 0 else set_SIZ (put_limbs st w 0 [rl]) w (if neg then - 1 else 1))"

definition quot_mag :: "bool \<Rightarrow> int \<Rightarrow> int \<Rightarrow> int" where
  "quot_mag up n d = n div d + of_bool (n mod d \<noteq> 0 \<and> up)"

definition rem_mag :: "bool \<Rightarrow> int \<Rightarrow> int \<Rightarrow> int" where
  "rem_mag up n d = (if n mod d \<noteq> 0 \<and> up then d - n mod d else n mod d)"

lemma rem_mag_bounds: "0 < d \<Longrightarrow> 0 \<le> rem_mag up n d" "0 < d \<Longrightarrow> rem_mag up n d < d"
proof -
  assume d: "0 < d"
  then have "0 \<le> n mod d" "n mod d < d" by simp_all
  then show "0 \<le> rem_mag up n d" "rem_mag up n d < d" by (auto simp: rem_mag_def)
qed

lemma quot_mag_pos_le:
  assumes "0 < d" "0 < n"
  shows "n div d \<le> quot_mag up n d" "quot_mag up n d \<le> n" 
proof -
  show "n div d \<le> quot_mag up n d" by (simp add: quot_mag_def)
  show "quot_mag up n d \<le> n"
  proof (cases "d = 1")
    case False
    then have "n div d < n" using assms by (intro int_div_less_self) auto
    then show ?thesis by (simp add: quot_mag_def)
  qed (simp add: quot_mag_def)
qed

lemma round_up_value:
  assumes d: "d \<noteq> 0" and up: "up \<noteq> []" "last up \<noteq> 0" and r: "round_up b d (mpn_divrem_1 cfg 0 up d) = (qp, rl)"
  shows "lval qp = quot_mag b (lval up) (uint d)" "uint rl = rem_mag b (lval up) (uint d)" "length qp = length up"
    "2 \<le> length up \<Longrightarrow> B ^ (length up - 2) \<le> lval qp"
proof -
  have d0: "0 < uint d" using d by (simp add: limb_ne_0_iff)
  have p: "0 < lval up" using up by (rule lval_pos_of_last)
  let ?r = "mpn_divrem_1 cfg 0 up d"
  note v = quotient_of_div_mod [OF mpn_divrem_1_quotient [OF d, of up 0 cfg]]
  note q = quot_mag_pos_le [OF d0 p]
  have nz: "snd ?r \<noteq> 0 \<longleftrightarrow> lval up mod uint d \<noteq> 0" using v(2) by (simp add: limb_eq_0_iff)
  have lt: "lval up mod uint d < uint d" using d0 by simp
  have "quot_mag b (lval up) (uint d) < B ^ length (fst ?r)" unfolding v(3) using q(2) [of b] lval_lt [of up] by (rule order.strict_trans1)
  then show l: "lval qp = quot_mag b (lval up) (uint d)"
    using r nz v(1) mpn_incr_u_value [of "fst ?r" 1] by (auto simp: round_up_def quot_mag_def split: if_splits)
  show "uint rl = rem_mag b (lval up) (uint d)"
    using r nz v(2) lt by (auto simp: round_up_def rem_mag_def uint_sub_limb split: if_splits)
  show "length qp = length up" using r v(3) by (auto simp: round_up_def split: if_splits)
  show "B ^ (length up - 2) \<le> lval qp" if n: "2 \<le> length up"
  proof -
    have "B ^ (length up - 2) * uint d \<le> B ^ (length up - 2) * B" by (intro mult_left_mono) (simp_all add: less_imp_le)
    also have "\<dots> = B ^ (length up - 1)" using n Suc_diff_Suc [of 1 "length up"] by (simp flip: power_Suc2 add: numeral_2_eq_2)
    also have "\<dots> \<le> lval up" using up by (rule lval_ge_of_last)
    finally have "B ^ (length up - 2) \<le> lval up div uint d"
      using zdiv_lt_iff [OF d0, of "lval up" "B ^ (length up - 2)"] by linarith
    then show ?thesis using q(1) [of b] l by linarith
  qed
qed

lemma mag_nonempty: "mpz_ok st u \<Longrightarrow> SIZ st u \<noteq> 0 \<Longrightarrow> mag st u \<noteq> []"
  by (simp add: mag_eq_Nil_iff)

lemma store_quot_writes:
  assumes ok: "mpz_ok st w" "mpz_ok st u" and ne: "SIZ st u \<noteq> 0" and d: "d \<noteq> 0"
    and r: "round_up b d (mpn_divrem_1 cfg 0 (mag st u) d) = (qp, rl)"
    and st2: "st2 = put_limbs (MPZ_REALLOC st w (ABSIZ st u)) w 0 qp"
    and qn: "qn = ABSIZ st u - of_bool (PTR st2 w ! (ABSIZ st u - 1) = 0)"
  shows "writes st (set_SIZ st2 w (if SIZ st u \<ge> 0 then int qn else - int qn)) w
           (with_sign (SIZ st u) (quot_mag b (lval (mag st u)) (uint d)))"
proof -
  note v = round_up_value [OF d mag_nonempty [OF ok(2) ne] last_mag_ne_0 [OF ok(2) ne] r]
  have len: "length qp = ABSIZ st u" using v(3) length_mag [OF ok(2)] by simp
  have n0: "ABSIZ st u \<noteq> 0" using ne by (simp add: ABSIZ_def)
  have "writes st (set_SIZ (put_limbs (MPZ_REALLOC st w (ABSIZ st u)) w 0 qp) w
      (if SIZ st u < 0 then - int qn else int qn)) w (if SIZ st u < 0 then - lval qp else lval qp)"
    using ok(1) len n0 v(4) length_mag [OF ok(2)] qn
    by (intro writes_shrink_nat room_MPZ_REALLOC) (auto simp: st2)
  moreover have "(if SIZ st u < 0 then - int qn else int qn) = (if SIZ st u \<ge> 0 then int qn else - int qn)" by simp
  ultimately show ?thesis unfolding st2 v(1) with_sign_def by simp
qed

lemma put_rem_writes:
  assumes "mpz_ok st w"
  shows "writes st (put_rem st w neg rl) w (if neg then - uint rl else uint rl)"
proof (cases "rl = 0")
  case True
  then show ?thesis using set_SIZ_0_writes [OF assms] by (simp add: put_rem_def)
next
  case False
  then show ?thesis
    unfolding put_rem_def using assms by (auto intro!: writes_one_limb [where s = neg] room_ok)
qed

text \<open>The remainder is stored before or after its size, and before the size of the quotient.\<close>

lemma set_SIZ_put_limbs: "put_limbs (set_SIZ st w k) w i xs = set_SIZ (put_limbs st w i xs) w k"
  by (cases "vars st w") (simp add: put_limbs_def set_SIZ_def set_var_def)

lemma put_rem_commute:
  assumes "q \<noteq> w"
  shows "set_SIZ (put_rem st w neg rl) q k = put_rem (set_SIZ st q k) w neg rl" "PTR (put_rem st w neg rl) q = PTR st q"
  using assms by (auto simp: put_rem_def put_limbs_def set_SIZ_def set_var_def fun_upd_twist)

definition div_q_ui :: "(int \<Rightarrow> bool) \<Rightarrow> div_config \<Rightarrow> store \<Rightarrow> var \<Rightarrow> var \<Rightarrow> limb \<Rightarrow> div_result" where
  "div_q_ui up cfg st quot dividend divisor =
     (if divisor = 0 then Inl DIVIDE_BY_ZERO
      else
        let ns = SIZ st dividend
        in if ns = 0 then Inr (set_SIZ st quot 0, 0)
           else
             let nn = nat \<bar>ns\<bar>;
                 st1 = MPZ_REALLOC st quot nn;
                 (qp, rl) = round_up (up ns) divisor (mpn_divrem_1 cfg 0 (take nn (PTR st1 dividend)) divisor);
                 st2 = put_limbs st1 quot 0 qp;
                 qn = nn - of_bool (PTR st2 quot ! (nn - 1) = 0)
             in Inr (set_SIZ st2 quot (if ns \<ge> 0 then int qn else - int qn), rl))"

definition div_r_ui :: "(int \<Rightarrow> bool) \<Rightarrow> (int \<Rightarrow> bool) \<Rightarrow> div_config \<Rightarrow> store \<Rightarrow> var \<Rightarrow> var \<Rightarrow> limb \<Rightarrow> div_result" where
  "div_r_ui up neg cfg st rem dividend divisor =
     (if divisor = 0 then Inl DIVIDE_BY_ZERO
      else
        let ns = SIZ st dividend
        in if ns = 0 then Inr (set_SIZ st rem 0, 0)
           else
             let nn = nat \<bar>ns\<bar>;
                 rl = mpn_mod_1 cfg (take nn (PTR st dividend)) divisor;
                 rl = (if rl \<noteq> 0 \<and> up ns then divisor - rl else rl)
             in Inr (put_rem st rem (neg ns) rl, rl))"

definition div_qr_ui ::
  "(int \<Rightarrow> bool) \<Rightarrow> (int \<Rightarrow> bool) \<Rightarrow> div_config \<Rightarrow> store \<Rightarrow> var \<Rightarrow> var \<Rightarrow> var \<Rightarrow> limb \<Rightarrow> div_result" where
  "div_qr_ui up neg cfg st quot rem dividend divisor =
     (if divisor = 0 then Inl DIVIDE_BY_ZERO
      else
        let ns = SIZ st dividend
        in if ns = 0 then Inr (set_SIZ (set_SIZ st quot 0) rem 0, 0)
           else
             let nn = nat \<bar>ns\<bar>;
                 st1 = MPZ_REALLOC st quot nn;
                 (qp, rl) = round_up (up ns) divisor (mpn_divrem_1 cfg 0 (take nn (PTR st1 dividend)) divisor);
                 st3 = put_rem (put_limbs st1 quot 0 qp) rem (neg ns) rl;
                 qn = nn - of_bool (PTR st3 quot ! (nn - 1) = 0)
             in Inr (set_SIZ st3 quot (if ns \<ge> 0 then int qn else - int qn), rl))"

definition div_ui :: "(int \<Rightarrow> bool) \<Rightarrow> div_config \<Rightarrow> store \<Rightarrow> var \<Rightarrow> limb \<Rightarrow> mpz_error + limb" where
  "div_ui up cfg st dividend divisor =
     (if divisor = 0 then Inl DIVIDE_BY_ZERO
      else
        let ns = SIZ st dividend
        in if ns = 0 then Inr 0
           else
             let nn = nat \<bar>ns\<bar>;
                 rl = mpn_mod_1 cfg (take nn (PTR st dividend)) divisor
             in Inr (if rl \<noteq> 0 \<and> up ns then divisor - rl else rl))"

lemma mod_1_lt: "d \<noteq> 0 \<Longrightarrow> d - mpn_mod_1 cfg xs d \<noteq> 0"
proof -
  assume d: "d \<noteq> 0"
  then have "lval xs mod uint d < uint d" by (simp add: limb_ne_0_iff)
  then have "uint (mpn_mod_1 cfg xs d) \<noteq> uint d" using mpn_mod_1_value [OF d] by (metis less_irrefl)
  then show ?thesis by (metis eq_iff_diff_eq_0)
qed

lemma divrem_1_lt: "d \<noteq> 0 \<Longrightarrow> d - snd (mpn_divrem_1 cfg 0 xs d) \<noteq> 0"
  using mpn_divrem_1_quotient [of d xs 0 cfg] by (auto simp: quotient_of_def)

lemma div_q_ui_apply:
  "mpz_tdiv_q_ui cfg st quot dividend divisor = div_q_ui (\<lambda>_. False) cfg st quot dividend divisor"
  "mpz_fdiv_q_ui cfg st quot dividend divisor = div_q_ui (\<lambda>ns. ns < 0) cfg st quot dividend divisor"
  "mpz_cdiv_q_ui cfg st quot dividend divisor = div_q_ui (\<lambda>ns. ns \<ge> 0) cfg st quot dividend divisor"
proof -
  let ?n = "nat \<bar>SIZ st dividend\<bar>"
  obtain q r where m: "mpn_divrem_1 cfg 0 (take ?n (PTR (MPZ_REALLOC st quot ?n) dividend)) divisor = (q, r)" by fastforce
  note unf = Let_def m prod.case round_up_def fst_conv snd_conv div_q_ui_def
  show "mpz_tdiv_q_ui cfg st quot dividend divisor = div_q_ui (\<lambda>_. False) cfg st quot dividend divisor"
    unfolding mpz_tdiv_q_ui_def unf by simp
  show "mpz_fdiv_q_ui cfg st quot dividend divisor = div_q_ui (\<lambda>ns. ns < 0) cfg st quot dividend divisor"
    unfolding mpz_fdiv_q_ui_def unf by simp
  show "mpz_cdiv_q_ui cfg st quot dividend divisor = div_q_ui (\<lambda>ns. ns \<ge> 0) cfg st quot dividend divisor"
    unfolding mpz_cdiv_q_ui_def unf by simp
qed

lemma div_q_ui_eq:
  "mpz_tdiv_q_ui = div_q_ui (\<lambda>_. False)" "mpz_fdiv_q_ui = div_q_ui (\<lambda>ns. ns < 0)" "mpz_cdiv_q_ui = div_q_ui (\<lambda>ns. ns \<ge> 0)"
  using div_q_ui_apply by (intro ext; blast)+

lemma div_r_ui_apply:
  "mpz_tdiv_r_ui cfg st rem dividend divisor = div_r_ui (\<lambda>_. False) (\<lambda>ns. ns < 0) cfg st rem dividend divisor"
  "mpz_fdiv_r_ui cfg st rem dividend divisor = div_r_ui (\<lambda>ns. ns < 0) (\<lambda>_. False) cfg st rem dividend divisor"
  "mpz_cdiv_r_ui cfg st rem dividend divisor = div_r_ui (\<lambda>ns. ns \<ge> 0) (\<lambda>_. True) cfg st rem dividend divisor"
proof -
  define r where "r = mpn_mod_1 cfg (take (nat \<bar>SIZ st dividend\<bar>) (PTR st dividend)) divisor"
  have nz: "divisor \<noteq> 0 \<Longrightarrow> divisor - r \<noteq> 0" using mod_1_lt by (simp add: r_def)
  note unf = Let_def r_def [symmetric] put_rem_def set_SIZ_put_limbs div_r_ui_def
  show "mpz_tdiv_r_ui cfg st rem dividend divisor = div_r_ui (\<lambda>_. False) (\<lambda>ns. ns < 0) cfg st rem dividend divisor"
    unfolding mpz_tdiv_r_ui_def unf by (cases "SIZ st dividend < 0") simp_all
  show "mpz_fdiv_r_ui cfg st rem dividend divisor = div_r_ui (\<lambda>ns. ns < 0) (\<lambda>_. False) cfg st rem dividend divisor"
    unfolding mpz_fdiv_r_ui_def unf using nz by (cases "r = 0"; cases "SIZ st dividend < 0") simp_all
  show "mpz_cdiv_r_ui cfg st rem dividend divisor = div_r_ui (\<lambda>ns. ns \<ge> 0) (\<lambda>_. True) cfg st rem dividend divisor"
    unfolding mpz_cdiv_r_ui_def unf using nz by (cases "r = 0"; cases "SIZ st dividend < 0") simp_all
qed

lemma div_r_ui_eq:
  "mpz_tdiv_r_ui = div_r_ui (\<lambda>_. False) (\<lambda>ns. ns < 0)"
  "mpz_fdiv_r_ui = div_r_ui (\<lambda>ns. ns < 0) (\<lambda>_. False)"
  "mpz_cdiv_r_ui = div_r_ui (\<lambda>ns. ns \<ge> 0) (\<lambda>_. True)"
  using div_r_ui_apply by (intro ext; blast)+

lemma div_qr_ui_apply:
  "mpz_tdiv_qr_ui cfg st quot rem dividend divisor = div_qr_ui (\<lambda>_. False) (\<lambda>ns. ns < 0) cfg st quot rem dividend divisor"
  "mpz_fdiv_qr_ui cfg st quot rem dividend divisor = div_qr_ui (\<lambda>ns. ns < 0) (\<lambda>_. False) cfg st quot rem dividend divisor"
  "mpz_cdiv_qr_ui cfg st quot rem dividend divisor = div_qr_ui (\<lambda>ns. ns \<ge> 0) (\<lambda>_. True) cfg st quot rem dividend divisor"
proof -
  let ?n = "nat \<bar>SIZ st dividend\<bar>"
  obtain q r where m: "mpn_divrem_1 cfg 0 (take ?n (PTR (MPZ_REALLOC st quot ?n) dividend)) divisor = (q, r)" by fastforce
  have nz: "divisor \<noteq> 0 \<Longrightarrow> divisor - r \<noteq> 0" using divrem_1_lt m by (metis snd_conv)
  note unf = Let_def m prod.case round_up_def put_rem_def set_SIZ_put_limbs fst_conv snd_conv div_qr_ui_def
  show "mpz_tdiv_qr_ui cfg st quot rem dividend divisor = div_qr_ui (\<lambda>_. False) (\<lambda>ns. ns < 0) cfg st quot rem dividend divisor"
    unfolding mpz_tdiv_qr_ui_def unf by (cases "SIZ st dividend < 0") (simp_all del: put_limbs_simps vars_set_SIZ)
  show "mpz_fdiv_qr_ui cfg st quot rem dividend divisor = div_qr_ui (\<lambda>ns. ns < 0) (\<lambda>_. False) cfg st quot rem dividend divisor"
    unfolding mpz_fdiv_qr_ui_def unf using nz by (cases "r = 0"; cases "SIZ st dividend < 0") (simp_all del: put_limbs_simps vars_set_SIZ)
  show "mpz_cdiv_qr_ui cfg st quot rem dividend divisor = div_qr_ui (\<lambda>ns. ns \<ge> 0) (\<lambda>_. True) cfg st quot rem dividend divisor"
    unfolding mpz_cdiv_qr_ui_def unf using nz by (cases "r = 0"; cases "SIZ st dividend < 0") (simp_all del: put_limbs_simps vars_set_SIZ)
qed

lemma div_qr_ui_eq:
  "mpz_tdiv_qr_ui = div_qr_ui (\<lambda>_. False) (\<lambda>ns. ns < 0)"
  "mpz_fdiv_qr_ui = div_qr_ui (\<lambda>ns. ns < 0) (\<lambda>_. False)"
  "mpz_cdiv_qr_ui = div_qr_ui (\<lambda>ns. ns \<ge> 0) (\<lambda>_. True)"
  using div_qr_ui_apply by (intro ext; blast)+

lemma div_ui_eq:
  "mpz_tdiv_ui = div_ui (\<lambda>_. False)" "mpz_fdiv_ui = div_ui (\<lambda>ns. ns < 0)" "mpz_cdiv_ui = div_ui (\<lambda>ns. ns \<ge> 0)"
  by (simp_all add: fun_eq_iff mpz_tdiv_ui_def mpz_fdiv_ui_def mpz_cdiv_ui_def div_ui_def Let_def)

subsection \<open>Results\<close>

text \<open>Two variables written, the others kept.\<close>

definition writes2 :: "store \<Rightarrow> store \<Rightarrow> var \<Rightarrow> int \<Rightarrow> var \<Rightarrow> int \<Rightarrow> bool" where
  "writes2 st st' w k v j \<longleftrightarrow>
     mpz_ok st' w \<and> mpz_val st' w = k \<and> mpz_ok st' v \<and> mpz_val st' v = j \<and>
     (\<forall>x. x \<noteq> w \<longrightarrow> x \<noteq> v \<longrightarrow> vars st' x = vars st x)"

lemma writes2I:
  assumes "writes st st1 w k" "writes st1 st2 v j" "w \<noteq> v"
  shows "writes2 st st2 w k v j"
  using assms writes_keeps [OF assms(2), of w] by (simp add: writes2_def writes_def)

lemma mag_zero: "SIZ st u = 0 \<Longrightarrow> lval (mag st u) = 0"
  by (simp add: mag_def ABSIZ_def)

lemma div_q_ui_result:
  assumes ok: "mpz_ok st w" "mpz_ok st u" and d: "d \<noteq> 0"
  obtains st' rl where "div_q_ui up cfg st w u d = Inr (st', rl)"
    "writes st st' w (with_sign (SIZ st u) (quot_mag (up (SIZ st u)) (lval (mag st u)) (uint d)))"
    "uint rl = rem_mag (up (SIZ st u)) (lval (mag st u)) (uint d)"
proof (cases "SIZ st u = 0")
  case True
  then show thesis
    using that [of "set_SIZ st w 0" 0] d set_SIZ_0_writes [OF ok(1)]
    by (simp add: div_q_ui_def mag_zero with_sign_def quot_mag_def rem_mag_def)
next
  case False
  obtain qp rl where r: "round_up (up (SIZ st u)) d (mpn_divrem_1 cfg 0 (mag st u) d) = (qp, rl)" by fastforce
  define st2 where "st2 = put_limbs (MPZ_REALLOC st w (ABSIZ st u)) w 0 qp"
  define qn where "qn = ABSIZ st u - of_bool (PTR st2 w ! (ABSIZ st u - 1) = 0)"
  have "div_q_ui up cfg st w u d = Inr (set_SIZ st2 w (if SIZ st u \<ge> 0 then int qn else - int qn), rl)"
    unfolding div_q_ui_def Let_def ABSIZ_def [symmetric] take_PTR_mag [OF ok] r prod.case
    by (simp only: if_not_P [OF d] if_not_P [OF False] st2_def qn_def)
  then show thesis
    using store_quot_writes [OF ok False d r st2_def qn_def]
      round_up_value(2) [OF d mag_nonempty [OF ok(2) False] last_mag_ne_0 [OF ok(2) False] r]
    by (rule that)
qed

lemma rem_mag_mod_1:
  assumes "d \<noteq> 0" "rl = mpn_mod_1 cfg xs d"
  shows "uint (if rl \<noteq> 0 \<and> b then d - rl else rl) = rem_mag b (lval xs) (uint d)"
proof -
  have "lval xs mod uint d < uint d" using assms(1) by (simp add: limb_ne_0_iff)
  then show ?thesis
    using mpn_mod_1_value [OF assms(1), of cfg xs] assms(2) by (auto simp: rem_mag_def limb_eq_0_iff uint_sub_limb)
qed

lemma div_r_ui_result:
  assumes ok: "mpz_ok st w" "mpz_ok st u" and d: "d \<noteq> 0"
  obtains st' rl where "div_r_ui up neg cfg st w u d = Inr (st', rl)"
    "writes st st' w (if neg (SIZ st u) then - uint rl else uint rl)"
    "uint rl = rem_mag (up (SIZ st u)) (lval (mag st u)) (uint d)"
proof (cases "SIZ st u = 0")
  case True
  then show thesis
    using that [of "set_SIZ st w 0" 0] d set_SIZ_0_writes [OF ok(1)] by (simp add: div_r_ui_def mag_zero rem_mag_def)
next
  case False
  define r where "r = mpn_mod_1 cfg (mag st u) d"
  define rl where "rl = (if r \<noteq> 0 \<and> up (SIZ st u) then d - r else r)"
  have "div_r_ui up neg cfg st w u d = Inr (put_rem st w (neg (SIZ st u)) rl, rl)"
    unfolding div_r_ui_def Let_def ABSIZ_def [symmetric] mag_def [symmetric] r_def [symmetric] rl_def [symmetric]
    by (simp only: if_not_P [OF d] if_not_P [OF False])
  then show thesis
    using put_rem_writes [OF ok(1)] rem_mag_mod_1 [OF d r_def] unfolding rl_def by (rule that)
qed

lemma div_qr_ui_result:
  assumes ok: "mpz_ok st w" "mpz_ok st v" "mpz_ok st u" and d: "d \<noteq> 0" and wv: "w \<noteq> v"
  obtains st' rl where "div_qr_ui up neg cfg st w v u d = Inr (st', rl)"
    "writes2 st st' w (with_sign (SIZ st u) (quot_mag (up (SIZ st u)) (lval (mag st u)) (uint d)))
       v (if neg (SIZ st u) then - uint rl else uint rl)"
    "uint rl = rem_mag (up (SIZ st u)) (lval (mag st u)) (uint d)"
proof (cases "SIZ st u = 0")
  case True
  have w: "writes st (set_SIZ st w 0) w 0" by (rule set_SIZ_0_writes [OF ok(1)])
  have "writes2 st (set_SIZ (set_SIZ st w 0) v 0) w 0 v 0"
    by (rule writes2I [OF w set_SIZ_0_writes [OF writes_keeps(1) [OF w ok(2)]] wv])
  then show thesis
    using that [of "set_SIZ (set_SIZ st w 0) v 0" 0] d True
    by (simp add: div_qr_ui_def mag_zero with_sign_def quot_mag_def rem_mag_def)
next
  case False
  obtain qp rl where r: "round_up (up (SIZ st u)) d (mpn_divrem_1 cfg 0 (mag st u) d) = (qp, rl)" by fastforce
  define st2 where "st2 = put_limbs (MPZ_REALLOC st w (ABSIZ st u)) w 0 qp"
  define qn where "qn = ABSIZ st u - of_bool (PTR st2 w ! (ABSIZ st u - 1) = 0)"
  define st4 where "st4 = set_SIZ st2 w (if SIZ st u \<ge> 0 then int qn else - int qn)"
  have q: "writes st st4 w (with_sign (SIZ st u) (quot_mag (up (SIZ st u)) (lval (mag st u)) (uint d)))"
    unfolding st4_def by (rule store_quot_writes [OF ok(1,3) False d r st2_def qn_def])
  have "div_qr_ui up neg cfg st w v u d = Inr (put_rem st4 v (neg (SIZ st u)) rl, rl)"
    unfolding div_qr_ui_def Let_def ABSIZ_def [symmetric] take_PTR_mag [OF ok(1,3)] r prod.case
      put_rem_commute [OF wv] st2_def [symmetric] qn_def [symmetric] st4_def [symmetric]
    by (simp only: if_not_P [OF d] if_not_P [OF False])
  then show thesis
    using writes2I [OF q put_rem_writes [OF writes_keeps(1) [OF q ok(2)]] wv]
      round_up_value(2) [OF d mag_nonempty [OF ok(3) False] last_mag_ne_0 [OF ok(3) False] r]
    by (rule that)
qed

lemma div_ui_result:
  assumes ok: "mpz_ok st u" and d: "d \<noteq> 0"
  obtains rl where "div_ui up cfg st u d = Inr rl" "uint rl = rem_mag (up (SIZ st u)) (lval (mag st u)) (uint d)"
proof (cases "SIZ st u = 0")
  case True
  then show thesis using that [of 0] d by (simp add: div_ui_def mag_zero rem_mag_def)
next
  case False
  then show thesis
    using that [OF _ rem_mag_mod_1 [OF d refl, of cfg "mag st u" "up (SIZ st u)"]] d
    by (simp add: div_ui_def Let_def mag_def ABSIZ_def del: if_split)
qed

subsection \<open>The contract of a division by a word\<close>

locale mpz_div_word =
  fixes q_ui r_ui :: "div_config \<Rightarrow> store \<Rightarrow> var \<Rightarrow> var \<Rightarrow> limb \<Rightarrow> div_result"
    and qr_ui :: "div_config \<Rightarrow> store \<Rightarrow> var \<Rightarrow> var \<Rightarrow> var \<Rightarrow> limb \<Rightarrow> div_result"
    and ui :: "div_config \<Rightarrow> store \<Rightarrow> var \<Rightarrow> limb \<Rightarrow> mpz_error + limb"
    and q r :: "int \<Rightarrow> int \<Rightarrow> int"
  assumes by_zero: "q_ui cfg st w u 0 = Inl DIVIDE_BY_ZERO" "r_ui cfg st w u 0 = Inl DIVIDE_BY_ZERO"
      "qr_ui cfg st w v u 0 = Inl DIVIDE_BY_ZERO" "ui cfg st u 0 = Inl DIVIDE_BY_ZERO"
    and q_law: "\<lbrakk>mpz_ok st w; mpz_ok st u; d \<noteq> 0\<rbrakk> \<Longrightarrow>
      \<exists>st' rl. q_ui cfg st w u d = Inr (st', rl) \<and> writes st st' w (q (mpz_val st u) (uint d))
        \<and> uint rl = \<bar>r (mpz_val st u) (uint d)\<bar>"
    and r_law: "\<lbrakk>mpz_ok st w; mpz_ok st u; d \<noteq> 0\<rbrakk> \<Longrightarrow>
      \<exists>st' rl. r_ui cfg st w u d = Inr (st', rl) \<and> writes st st' w (r (mpz_val st u) (uint d))
        \<and> uint rl = \<bar>r (mpz_val st u) (uint d)\<bar>"
    and qr_law: "\<lbrakk>mpz_ok st w; mpz_ok st v; mpz_ok st u; w \<noteq> v; d \<noteq> 0\<rbrakk> \<Longrightarrow>
      \<exists>st' rl. qr_ui cfg st w v u d = Inr (st', rl)
        \<and> writes2 st st' w (q (mpz_val st u) (uint d)) v (r (mpz_val st u) (uint d))
        \<and> uint rl = \<bar>r (mpz_val st u) (uint d)\<bar>"
    and ui_law: "\<lbrakk>mpz_ok st u; d \<noteq> 0\<rbrakk> \<Longrightarrow> \<exists>rl. ui cfg st u d = Inr rl \<and> uint rl = \<bar>r (mpz_val st u) (uint d)\<bar>"
    and division: "0 < e \<Longrightarrow> q n e * e + r n e = n" and remainder: "0 < e \<Longrightarrow> \<bar>r n e\<bar> < e"
begin

text \<open>The only error is a zero divisor.\<close>

lemma error_iff:
  assumes "mpz_ok st w" "mpz_ok st u"
  shows "q_ui cfg st w u d = Inl e \<longleftrightarrow> d = 0" "r_ui cfg st w u d = Inl e \<longleftrightarrow> d = 0" "ui cfg st u d = Inl e \<longleftrightarrow> d = 0"
  using by_zero q_law [OF assms, of d cfg] r_law [OF assms, of d cfg] ui_law [OF assms(2), of d cfg]
  by (cases e; cases "d = 0"; auto)+

lemma qr_identity:
  assumes "mpz_ok st w" "mpz_ok st v" "mpz_ok st u" "w \<noteq> v" "qr_ui cfg st w v u d = Inr (st', rl)"
  shows "mpz_val st' w * uint d + mpz_val st' v = mpz_val st u" "\<bar>mpz_val st' v\<bar> < uint d" "uint rl = \<bar>mpz_val st' v\<bar>"
proof -
  have d: "d \<noteq> 0" using assms(5) by_zero(3) by auto
  then have e: "0 < uint d" by (simp add: limb_ne_0_iff)
  have "writes2 st st' w (q (mpz_val st u) (uint d)) v (r (mpz_val st u) (uint d))"
    and l: "uint rl = \<bar>r (mpz_val st u) (uint d)\<bar>"
    using qr_law [OF assms(1-4) d, of cfg] assms(5) by auto
  then show "mpz_val st' w * uint d + mpz_val st' v = mpz_val st u" "\<bar>mpz_val st' v\<bar> < uint d" "uint rl = \<bar>mpz_val st' v\<bar>"
    using division [OF e] remainder [OF e] by (simp_all add: writes2_def)
qed

text \<open>The combined function agrees with the two separate ones.\<close>

lemma qr_agrees:
  assumes ok: "mpz_ok st w" "mpz_ok st v" "mpz_ok st u" "w \<noteq> v"
    and e: "qr_ui cfg st w v u d = Inr (st', rl)" "q_ui cfg st w u d = Inr (st1, rl1)" "r_ui cfg st v u d = Inr (st2, rl2)"
  shows "mpz_val st' w = mpz_val st1 w" "mpz_val st' v = mpz_val st2 v" "rl1 = rl" "rl2 = rl"
proof -
  have d: "d \<noteq> 0" using e(1) by_zero(3) by auto
  show "mpz_val st' w = mpz_val st1 w" "mpz_val st' v = mpz_val st2 v" "rl1 = rl" "rl2 = rl"
    using qr_law [OF ok d, of cfg] q_law [OF ok(1,3) d, of cfg] r_law [OF ok(2,3) d, of cfg] e
    by (auto simp: writes_def writes2_def eq_limb_iff)
qed

end

definition tdiv_quot :: "int \<Rightarrow> int \<Rightarrow> int" where
  "tdiv_quot n d = sgn n * (\<bar>n\<bar> div d)"

definition tdiv_rem :: "int \<Rightarrow> int \<Rightarrow> int" where
  "tdiv_rem n d = sgn n * (\<bar>n\<bar> mod d)"

definition cdiv_quot :: "int \<Rightarrow> int \<Rightarrow> int" where
  "cdiv_quot n d = - ((- n) div d)"

definition cdiv_rem :: "int \<Rightarrow> int \<Rightarrow> int" where
  "cdiv_rem n d = - ((- n) mod d)"

lemma rounded:
  fixes s m d :: int
  assumes "0 < d" "0 \<le> m" "s = 0 \<Longrightarrow> m = 0"
  shows "with_sign s (quot_mag False m d) = tdiv_quot (with_sign s m) d"
    "(if s < 0 then - rem_mag False m d else rem_mag False m d) = tdiv_rem (with_sign s m) d"
    "with_sign s (quot_mag (s < 0) m d) = with_sign s m div d" "rem_mag (s < 0) m d = with_sign s m mod d"
    "with_sign s (quot_mag (0 \<le> s) m d) = cdiv_quot (with_sign s m) d" "- rem_mag (0 \<le> s) m d = cdiv_rem (with_sign s m) d"
  using assms less_imp_neq [OF pos_mod_bound [OF assms(1)], of m]
  by (auto simp: with_sign_def quot_mag_def rem_mag_def tdiv_quot_def tdiv_rem_def cdiv_quot_def cdiv_rem_def
      zdiv_zminus1_eq_if zmod_zminus1_eq_if sgn_if)

lemma rounded_val:
  fixes d :: limb
  assumes ok: "mpz_ok st u" and d: "d \<noteq> 0"
  defines "s \<equiv> SIZ st u" and "m \<equiv> lval (mag st u)" and "n \<equiv> mpz_val st u" and "e \<equiv> uint d"
  shows "with_sign s (quot_mag False m e) = tdiv_quot n e" "(if s < 0 then - rem_mag False m e else rem_mag False m e) = tdiv_rem n e"
    "with_sign s (quot_mag (s < 0) m e) = n div e" "rem_mag (s < 0) m e = n mod e"
    "with_sign s (quot_mag (0 \<le> s) m e) = cdiv_quot n e" "- rem_mag (0 \<le> s) m e = cdiv_rem n e"
proof -
  have "0 < e" "0 \<le> m" "s = 0 \<Longrightarrow> m = 0" using d by (simp_all add: e_def m_def s_def mag_zero limb_ne_0_iff)
  note r = rounded [OF this]
  have n: "n = with_sign s m" using mpz_val_with_sign [OF ok] by (simp add: n_def s_def m_def)
  show "with_sign s (quot_mag False m e) = tdiv_quot n e" "(if s < 0 then - rem_mag False m e else rem_mag False m e) = tdiv_rem n e"
    "with_sign s (quot_mag (s < 0) m e) = n div e" "rem_mag (s < 0) m e = n mod e"
    "with_sign s (quot_mag (0 \<le> s) m e) = cdiv_quot n e" "- rem_mag (0 \<le> s) m e = cdiv_rem n e"
    unfolding n by (rule r; assumption)+
qed

text \<open>One discharge of the contract for all three.\<close>

lemma div_word_contract:
  fixes q r :: "int \<Rightarrow> int \<Rightarrow> int"
  assumes law: "\<And>st u (d :: limb). mpz_ok st u \<Longrightarrow> d \<noteq> 0 \<Longrightarrow>
      with_sign (SIZ st u) (quot_mag (up (SIZ st u)) (lval (mag st u)) (uint d)) = q (mpz_val st u) (uint d)
    \<and> (if neg (SIZ st u) then - rem_mag (up (SIZ st u)) (lval (mag st u)) (uint d)
       else rem_mag (up (SIZ st u)) (lval (mag st u)) (uint d)) = r (mpz_val st u) (uint d)"
    and "\<And>n e. 0 < e \<Longrightarrow> q n e * e + r n e = n" "\<And>n e. 0 < e \<Longrightarrow> \<bar>r n e\<bar> < e"
  shows "mpz_div_word (div_q_ui up) (div_r_ui up neg) (div_qr_ui up neg) (div_ui up) q r"
proof
  fix cfg st w v u and d :: limb
  have abs: "rem_mag (up (SIZ st u)) (lval (mag st u)) (uint d) = \<bar>r (mpz_val st u) (uint d)\<bar>"
    if "mpz_ok st u" "d \<noteq> 0"
  proof -
    have "0 \<le> rem_mag (up (SIZ st u)) (lval (mag st u)) (uint d)"
      using that(2) by (intro rem_mag_bounds(1)) (simp add: limb_ne_0_iff)
    then show ?thesis using conjunct2 [OF law [OF that], symmetric] by simp
  qed
  have sgnd: "(if neg (SIZ st u) then - uint rl else uint rl) = r (mpz_val st u) (uint d)"
    if "mpz_ok st u" "d \<noteq> 0" "uint rl = rem_mag (up (SIZ st u)) (lval (mag st u)) (uint d)" for rl :: limb
    unfolding that(3) by (rule conjunct2 [OF law [OF that(1,2)]])
  show "\<exists>st' rl. div_q_ui up cfg st w u d = Inr (st', rl) \<and> writes st st' w (q (mpz_val st u) (uint d))
      \<and> uint rl = \<bar>r (mpz_val st u) (uint d)\<bar>"
    if "mpz_ok st w" "mpz_ok st u" "d \<noteq> 0"
    by (rule div_q_ui_result [OF that, of up cfg]) (use law [OF that(2,3)] abs [OF that(2,3)] in auto)
  show "\<exists>st' rl. div_r_ui up neg cfg st w u d = Inr (st', rl) \<and> writes st st' w (r (mpz_val st u) (uint d))
      \<and> uint rl = \<bar>r (mpz_val st u) (uint d)\<bar>"
    if "mpz_ok st w" "mpz_ok st u" "d \<noteq> 0"
  proof (rule div_r_ui_result [OF that, of up neg cfg])
    fix st' rl
    assume a: "div_r_ui up neg cfg st w u d = Inr (st', rl)" "writes st st' w (if neg (SIZ st u) then - uint rl else uint rl)"
      "uint rl = rem_mag (up (SIZ st u)) (lval (mag st u)) (uint d)"
    show ?thesis using a(1) a(2) [unfolded sgnd [OF that(2,3) a(3)]] a(3) [unfolded abs [OF that(2,3)]] by blast
  qed
  show "\<exists>st' rl. div_qr_ui up neg cfg st w v u d = Inr (st', rl)
        \<and> writes2 st st' w (q (mpz_val st u) (uint d)) v (r (mpz_val st u) (uint d))
        \<and> uint rl = \<bar>r (mpz_val st u) (uint d)\<bar>"
    if "mpz_ok st w" "mpz_ok st v" "mpz_ok st u" "w \<noteq> v" "d \<noteq> 0"
  proof (rule div_qr_ui_result [OF that(1-3,5,4), of up neg cfg])
    fix st' rl
    assume a: "div_qr_ui up neg cfg st w v u d = Inr (st', rl)"
      "writes2 st st' w (with_sign (SIZ st u) (quot_mag (up (SIZ st u)) (lval (mag st u)) (uint d)))
         v (if neg (SIZ st u) then - uint rl else uint rl)"
      "uint rl = rem_mag (up (SIZ st u)) (lval (mag st u)) (uint d)"
    show ?thesis
      using a(1) a(2) [unfolded sgnd [OF that(3,5) a(3)] conjunct1 [OF law [OF that(3,5)]]] a(3) [unfolded abs [OF that(3,5)]]
      by blast
  qed
  show "\<exists>rl. div_ui up cfg st u d = Inr rl \<and> uint rl = \<bar>r (mpz_val st u) (uint d)\<bar>" if "mpz_ok st u" "d \<noteq> 0"
    by (rule div_ui_result [OF that, of up cfg]) (use abs [OF that] in auto)
qed (simp_all add: div_q_ui_def div_r_ui_def div_qr_ui_def div_ui_def assms(2,3))

lemma tdiv_law: "0 < e \<Longrightarrow> tdiv_quot n e * e + tdiv_rem n e = n" "0 < e \<Longrightarrow> \<bar>tdiv_rem n e\<bar> < e"
proof -
  have "sgn n * (\<bar>n\<bar> div e * e + \<bar>n\<bar> mod e) = n" by (simp add: mult_sgn_abs)
  then show "tdiv_quot n e * e + tdiv_rem n e = n"
    unfolding tdiv_quot_def tdiv_rem_def by (simp only: distrib_left mult.assoc)
  show "0 < e \<Longrightarrow> \<bar>tdiv_rem n e\<bar> < e"
    by (cases "n = 0") (simp_all add: tdiv_rem_def abs_mult abs_sgn_eq)
qed

lemma cdiv_law: "0 < e \<Longrightarrow> cdiv_quot n e * e + cdiv_rem n e = n" "0 < e \<Longrightarrow> \<bar>cdiv_rem n e\<bar> < e"
proof -
  show "cdiv_quot n e * e + cdiv_rem n e = n"
    using div_mult_mod_eq [of "- n" e] unfolding cdiv_quot_def cdiv_rem_def mult_minus_left by linarith
  show "0 < e \<Longrightarrow> \<bar>cdiv_rem n e\<bar> < e" by (simp add: cdiv_rem_def)
qed

interpretation tdiv: mpz_div_word mpz_tdiv_q_ui mpz_tdiv_r_ui mpz_tdiv_qr_ui mpz_tdiv_ui tdiv_quot tdiv_rem
  unfolding div_q_ui_eq div_r_ui_eq div_qr_ui_eq div_ui_eq
  by (intro div_word_contract conjI) (simp_all add: rounded_val tdiv_law)

interpretation fdiv: mpz_div_word mpz_fdiv_q_ui mpz_fdiv_r_ui mpz_fdiv_qr_ui mpz_fdiv_ui "(div)" "(mod)"
  unfolding div_q_ui_eq div_r_ui_eq div_qr_ui_eq div_ui_eq
  by (intro div_word_contract conjI) (simp_all add: rounded_val)

interpretation cdiv: mpz_div_word mpz_cdiv_q_ui mpz_cdiv_r_ui mpz_cdiv_qr_ui mpz_cdiv_ui cdiv_quot cdiv_rem
  unfolding div_q_ui_eq div_r_ui_eq div_qr_ui_eq div_ui_eq
  by (intro div_word_contract conjI) (simp_all add: rounded_val cdiv_law)

end
