(* ===== verification/Mpz_Program.thy ===== *)
theory Mpz_Program
  imports Mpz_Mul Mpz_Shift Mpz_Logic Mpz_Div_Ui
begin

text \<open>
  Sequences of calls on integer variables: initialisation and clearing (\<^verbatim>\<open>mpz/inits.c\<close>,
  \<^verbatim>\<open>mpz/clear.c\<close>, \<^verbatim>\<open>mpz/clears.c\<close>), a datatype of calls with an executable interpreter over the store,
  the discipline under which a client may use variables (initialised before use, not after
  clearing), and the same calls over mathematical integers. The step relation \<open>pstep\<close> runs a
  sequence call by call; its invariant is that every live variable is well formed, and it
  simulates the abstract interpreter.

  The fields \<^verbatim>\<open>_mp_alloc\<close> and \<^verbatim>\<open>_mp_size\<close> of \<^verbatim>\<open>__mpz_struct\<close> are of type \<^verbatim>\<open>int\<close>. A call here ends with its
  destinations' sizes reduced to that type, so a size that does not fit is lost as in the C code, and the results are for
  sequences whose values stay within \<open>INT_LIMBS\<close> limbs. With that bound no size or allocation a function computes on the
  way (at most two limbs more than its operands or its result have) exceeds \<^verbatim>\<open>int\<close> either, nor does the number of bytes
  that \<^verbatim>\<open>mpz_init_set\<close> computes as \<^verbatim>\<open>int\<close> (\<^verbatim>\<open>iset.c:37\<close>). Bit counts are 64-bit words, as \<^verbatim>\<open>mp_bitcnt_t\<close>.
\<close>

subsection \<open>Initialising and clearing\<close>

definition mpz_clear :: "store \<Rightarrow> var \<Rightarrow> store" where
  "mpz_clear st m = set_var st m ((vars st m)\<lparr>mp_d := []\<rparr>)"

definition mpz_inits :: "store \<Rightarrow> var list \<Rightarrow> store" where
  "mpz_inits = foldl mpz_init"

definition mpz_clears :: "store \<Rightarrow> var list \<Rightarrow> store" where
  "mpz_clears = foldl mpz_clear"

lemma mpz_clear_other: "x \<noteq> m \<Longrightarrow> vars (mpz_clear st m) x = vars st x"
  by (simp add: mpz_clear_def)

lemma mpz_clears_other: "x \<notin> set ms \<Longrightarrow> vars (mpz_clears st ms) x = vars st x"
  unfolding mpz_clears_def by (induction ms arbitrary: st) (simp_all add: mpz_clear_other)

lemma mpz_inits_other: "x \<notin> set ms \<Longrightarrow> vars (mpz_inits st ms) x = vars st x"
  unfolding mpz_inits_def
  by (induction ms arbitrary: st) (simp_all add: writes_other [OF mpz_init_writes])

lemma mpz_inits_live:
  "x \<in> set ms \<Longrightarrow> mpz_ok (mpz_inits st ms) x \<and> mpz_val (mpz_inits st ms) x = 0"
proof (induction ms arbitrary: st)
  case (Cons m ms)
  show ?case
  proof (cases "x \<in> set ms")
    case True
    then show ?thesis using Cons.IH [of "mpz_init st m"] by (simp add: mpz_inits_def)
  next
    case False
    then have "x = m" and keep: "vars (mpz_inits (mpz_init st m) ms) x = vars (mpz_init st m) x"
      using Cons.prems mpz_inits_other by auto
    then show ?thesis
      using mpz_init_writes [of st m] mpz_ok_cong [OF keep] mpz_val_cong [OF keep] by (simp add: writes_def mpz_inits_def)
  qed
qed simp

subsection \<open>Calls\<close>

datatype unop = SET | NEG | ABS | COM
datatype binop = ADD | SUB | MUL | AND_OP | IOR_OP | XOR_OP
datatype accop = ADDMUL | SUBMUL
datatype wordop = ADD_UI | SUB_UI | UI_SUB | MUL_UI | MUL_SI
datatype bitop = MUL_2EXP | TDIV_Q_2EXP | TDIV_R_2EXP | FDIV_Q_2EXP | FDIV_R_2EXP | CDIV_Q_2EXP | CDIV_R_2EXP
datatype rounding = TDIV | FDIV | CDIV

datatype call =
  Init var | Init_set var var | Init_set_si var limb | Clear var | Swap var var
| Unary unop var var | Binary binop var var var | Acc accop var var var | Acc_ui accop var var limb
| Wordc wordop var var limb | Bitc bitop var var limb
| Div_q rounding var var limb | Div_r rounding var var limb | Div_qr rounding var var var limb

record config =
  mul_cfg :: mul_config
  div_cfg :: div_config

primrec un_op :: "unop \<Rightarrow> store \<Rightarrow> var \<Rightarrow> var \<Rightarrow> store" where
  "un_op SET = mpz_set"
| "un_op NEG = mpz_neg"
| "un_op ABS = mpz_abs"
| "un_op COM = mpz_com"

primrec bin_op :: "config \<Rightarrow> binop \<Rightarrow> store \<Rightarrow> var \<Rightarrow> var \<Rightarrow> var \<Rightarrow> store" where
  "bin_op c ADD = mpz_add"
| "bin_op c SUB = mpz_sub"
| "bin_op c MUL = mpz_mul (mul_cfg c)"
| "bin_op c AND_OP = mpz_and"
| "bin_op c IOR_OP = mpz_ior"
| "bin_op c XOR_OP = mpz_xor"

primrec acc_op :: "config \<Rightarrow> accop \<Rightarrow> store \<Rightarrow> var \<Rightarrow> var \<Rightarrow> var \<Rightarrow> store" where
  "acc_op c ADDMUL = mpz_addmul (mul_cfg c)"
| "acc_op c SUBMUL = mpz_submul (mul_cfg c)"

primrec acc_ui_op :: "accop \<Rightarrow> store \<Rightarrow> var \<Rightarrow> var \<Rightarrow> limb \<Rightarrow> store" where
  "acc_ui_op ADDMUL = mpz_addmul_ui"
| "acc_ui_op SUBMUL = mpz_submul_ui"

primrec word_op :: "wordop \<Rightarrow> store \<Rightarrow> var \<Rightarrow> var \<Rightarrow> limb \<Rightarrow> store" where
  "word_op ADD_UI = mpz_add_ui"
| "word_op SUB_UI = mpz_sub_ui"
| "word_op UI_SUB = (\<lambda>st w u k. mpz_ui_sub st w k u)"
| "word_op MUL_UI = mpz_mul_ui"
| "word_op MUL_SI = mpz_mul_si"

primrec bit_op :: "bitop \<Rightarrow> store \<Rightarrow> var \<Rightarrow> var \<Rightarrow> nat \<Rightarrow> store" where
  "bit_op MUL_2EXP = mpz_mul_2exp"
| "bit_op TDIV_Q_2EXP = mpz_tdiv_q_2exp"
| "bit_op TDIV_R_2EXP = mpz_tdiv_r_2exp"
| "bit_op FDIV_Q_2EXP = mpz_fdiv_q_2exp"
| "bit_op FDIV_R_2EXP = mpz_fdiv_r_2exp"
| "bit_op CDIV_Q_2EXP = mpz_cdiv_q_2exp"
| "bit_op CDIV_R_2EXP = mpz_cdiv_r_2exp"

primrec div_q :: "config \<Rightarrow> rounding \<Rightarrow> store \<Rightarrow> var \<Rightarrow> var \<Rightarrow> limb \<Rightarrow> div_result" where
  "div_q c TDIV = mpz_tdiv_q_ui (div_cfg c)"
| "div_q c FDIV = mpz_fdiv_q_ui (div_cfg c)"
| "div_q c CDIV = mpz_cdiv_q_ui (div_cfg c)"

primrec div_r :: "config \<Rightarrow> rounding \<Rightarrow> store \<Rightarrow> var \<Rightarrow> var \<Rightarrow> limb \<Rightarrow> div_result" where
  "div_r c TDIV = mpz_tdiv_r_ui (div_cfg c)"
| "div_r c FDIV = mpz_fdiv_r_ui (div_cfg c)"
| "div_r c CDIV = mpz_cdiv_r_ui (div_cfg c)"

primrec div_qr :: "config \<Rightarrow> rounding \<Rightarrow> store \<Rightarrow> var \<Rightarrow> var \<Rightarrow> var \<Rightarrow> limb \<Rightarrow> div_result" where
  "div_qr c TDIV = mpz_tdiv_qr_ui (div_cfg c)"
| "div_qr c FDIV = mpz_fdiv_qr_ui (div_cfg c)"
| "div_qr c CDIV = mpz_cdiv_qr_ui (div_cfg c)"

text \<open>A call on the store, sizes unbounded: the new store, or the exception of a division by zero.\<close>

primrec exec_call :: "config \<Rightarrow> call \<Rightarrow> store \<Rightarrow> mpz_error + store" where
  "exec_call c (Init w) st = Inr (mpz_init st w)"
| "exec_call c (Init_set w u) st = Inr (mpz_init_set st w u)"
| "exec_call c (Init_set_si w k) st = Inr (mpz_init_set_si st w k)"
| "exec_call c (Clear w) st = Inr (mpz_clear st w)"
| "exec_call c (Swap u v) st = Inr (mpz_swap st u v)"
| "exec_call c (Unary f w u) st = Inr (un_op f st w u)"
| "exec_call c (Binary f w u v) st = Inr (bin_op c f st w u v)"
| "exec_call c (Acc f w u v) st = Inr (acc_op c f st w u v)"
| "exec_call c (Acc_ui f w u k) st = Inr (acc_ui_op f st w u k)"
| "exec_call c (Wordc f w u k) st = Inr (word_op f st w u k)"
| "exec_call c (Bitc f w u n) st = Inr (bit_op f st w u (unat n))"
| "exec_call c (Div_q r w u d) st = map_sum id fst (div_q c r st w u d)"
| "exec_call c (Div_r r w u d) st = map_sum id fst (div_r c r st w u d)"
| "exec_call c (Div_qr r w v u d) st = map_sum id fst (div_qr c r st w v u d)"

subsection \<open>Use of variables\<close>

text \<open>Which variables a call needs initialised, and the live variables after it.\<close>

primrec ready :: "var set \<Rightarrow> call \<Rightarrow> bool" where
  "ready L (Init w) \<longleftrightarrow> w \<notin> L"
| "ready L (Init_set w u) \<longleftrightarrow> w \<notin> L \<and> u \<in> L"
| "ready L (Init_set_si w k) \<longleftrightarrow> w \<notin> L"
| "ready L (Clear w) \<longleftrightarrow> w \<in> L"
| "ready L (Swap u v) \<longleftrightarrow> u \<in> L \<and> v \<in> L"
| "ready L (Unary f w u) \<longleftrightarrow> w \<in> L \<and> u \<in> L"
| "ready L (Binary f w u v) \<longleftrightarrow> w \<in> L \<and> u \<in> L \<and> v \<in> L"
| "ready L (Acc f w u v) \<longleftrightarrow> w \<in> L \<and> u \<in> L \<and> v \<in> L"
| "ready L (Acc_ui f w u k) \<longleftrightarrow> w \<in> L \<and> u \<in> L"
| "ready L (Wordc f w u k) \<longleftrightarrow> w \<in> L \<and> u \<in> L"
| "ready L (Bitc f w u n) \<longleftrightarrow> w \<in> L \<and> u \<in> L"
| "ready L (Div_q r w u d) \<longleftrightarrow> w \<in> L \<and> u \<in> L"
| "ready L (Div_r r w u d) \<longleftrightarrow> w \<in> L \<and> u \<in> L"
| "ready L (Div_qr r w v u d) \<longleftrightarrow> w \<in> L \<and> v \<in> L \<and> u \<in> L \<and> w \<noteq> v"

fun live_after :: "var set \<Rightarrow> call \<Rightarrow> var set" where
  "live_after L (Init w) = insert w L"
| "live_after L (Init_set w u) = insert w L"
| "live_after L (Init_set_si w k) = insert w L"
| "live_after L (Clear w) = L - {w}"
| "live_after L _ = L"

text \<open>The variables a call may change.\<close>

primrec targets :: "call \<Rightarrow> var set" where
  "targets (Init w) = {w}"
| "targets (Init_set w u) = {w}"
| "targets (Init_set_si w k) = {w}"
| "targets (Clear w) = {w}"
| "targets (Swap u v) = {u, v}"
| "targets (Unary f w u) = {w}"
| "targets (Binary f w u v) = {w}"
| "targets (Acc f w u v) = {w}"
| "targets (Acc_ui f w u k) = {w}"
| "targets (Wordc f w u k) = {w}"
| "targets (Bitc f w u n) = {w}"
| "targets (Div_q r w u d) = {w}"
| "targets (Div_r r w u d) = {w}"
| "targets (Div_qr r w v u d) = {w, v}"

text \<open>A call of the C code: the sizes of the variables it writes are stored in an \<^verbatim>\<open>int\<close>.\<close>

definition store_sizes :: "var set \<Rightarrow> store \<Rightarrow> store" where
  "store_sizes W st =
     st\<lparr>vars := (\<lambda>x. if x \<in> W then (vars st x)\<lparr>mp_size := c_int (mp_size (vars st x))\<rparr> else vars st x)\<rparr>"

definition exec :: "config \<Rightarrow> call \<Rightarrow> store \<Rightarrow> mpz_error + store" where
  "exec c i st = map_sum id (store_sizes (targets i)) (exec_call c i st)"

fun disciplined :: "var set \<Rightarrow> call list \<Rightarrow> bool" where
  "disciplined L [] \<longleftrightarrow> True"
| "disciplined L (i # is) \<longleftrightarrow> ready L i \<and> disciplined (live_after L i) is"

subsection \<open>The calls over the integers\<close>

type_synonym env = "var \<Rightarrow> int"

primrec un_fun :: "unop \<Rightarrow> int \<Rightarrow> int" where
  "un_fun SET k = k"
| "un_fun NEG k = - k"
| "un_fun ABS k = \<bar>k\<bar>"
| "un_fun COM k = NOT k"

primrec bin_fun :: "binop \<Rightarrow> int \<Rightarrow> int \<Rightarrow> int" where
  "bin_fun ADD a b = a + b"
| "bin_fun SUB a b = a - b"
| "bin_fun MUL a b = a * b"
| "bin_fun AND_OP a b = a AND b"
| "bin_fun IOR_OP a b = a OR b"
| "bin_fun XOR_OP a b = a XOR b"

primrec acc_fun :: "accop \<Rightarrow> int \<Rightarrow> int \<Rightarrow> int" where
  "acc_fun ADDMUL a p = a + p"
| "acc_fun SUBMUL a p = a - p"

primrec word_fun :: "wordop \<Rightarrow> int \<Rightarrow> limb \<Rightarrow> int" where
  "word_fun ADD_UI a k = a + uint k"
| "word_fun SUB_UI a k = a - uint k"
| "word_fun UI_SUB a k = uint k - a"
| "word_fun MUL_UI a k = a * uint k"
| "word_fun MUL_SI a k = a * sint k"

primrec bit_fun :: "bitop \<Rightarrow> int \<Rightarrow> nat \<Rightarrow> int" where
  "bit_fun MUL_2EXP a n = a * 2 ^ n"
| "bit_fun TDIV_Q_2EXP a n = sgn a * (\<bar>a\<bar> div 2 ^ n)"
| "bit_fun TDIV_R_2EXP a n = sgn a * (\<bar>a\<bar> mod 2 ^ n)"
| "bit_fun FDIV_Q_2EXP a n = a div 2 ^ n"
| "bit_fun FDIV_R_2EXP a n = a mod 2 ^ n"
| "bit_fun CDIV_Q_2EXP a n = - (- a div 2 ^ n)"
| "bit_fun CDIV_R_2EXP a n = - (- a mod 2 ^ n)"

primrec quot_fun :: "rounding \<Rightarrow> int \<Rightarrow> int \<Rightarrow> int" where
  "quot_fun TDIV = tdiv_quot"
| "quot_fun FDIV = (div)"
| "quot_fun CDIV = cdiv_quot"

primrec rem_fun :: "rounding \<Rightarrow> int \<Rightarrow> int \<Rightarrow> int" where
  "rem_fun TDIV = tdiv_rem"
| "rem_fun FDIV = (mod)"
| "rem_fun CDIV = cdiv_rem"

primrec aexec :: "call \<Rightarrow> env \<Rightarrow> mpz_error + env" where
  "aexec (Init w) f = Inr (f(w := 0))"
| "aexec (Init_set w u) f = Inr (f(w := f u))"
| "aexec (Init_set_si w k) f = Inr (f(w := sint k))"
| "aexec (Clear w) f = Inr f"
| "aexec (Swap u v) f = Inr (f(u := f v, v := f u))"
| "aexec (Unary g w u) f = Inr (f(w := un_fun g (f u)))"
| "aexec (Binary g w u v) f = Inr (f(w := bin_fun g (f u) (f v)))"
| "aexec (Acc g w u v) f = Inr (f(w := acc_fun g (f w) (f u * f v)))"
| "aexec (Acc_ui g w u k) f = Inr (f(w := acc_fun g (f w) (f u * uint k)))"
| "aexec (Wordc g w u k) f = Inr (f(w := word_fun g (f u) k))"
| "aexec (Bitc g w u n) f = Inr (f(w := bit_fun g (f u) (unat n)))"
| "aexec (Div_q r w u d) f = (if d = 0 then Inl DIVIDE_BY_ZERO else Inr (f(w := quot_fun r (f u) (uint d))))"
| "aexec (Div_r r w u d) f = (if d = 0 then Inl DIVIDE_BY_ZERO else Inr (f(w := rem_fun r (f u) (uint d))))"
| "aexec (Div_qr r w v u d) f =
     (if d = 0 then Inl DIVIDE_BY_ZERO
      else Inr (f(w := quot_fun r (f u) (uint d), v := rem_fun r (f u) (uint d))))"

subsection \<open>Scope\<close>

text \<open>
  The operands of a product have at most \<open>n\<close> limbs: with \<open>2 * n\<close> below the thresholds the Toom and Fourier
  routines are not called. The results of every call have at most \<open>INT_LIMBS\<close> limbs.
\<close>

fun product_scope :: "nat \<Rightarrow> call \<Rightarrow> env \<Rightarrow> bool" where
  "product_scope n (Binary MUL w u v) f \<longleftrightarrow> \<bar>f u\<bar> < B ^ n \<and> \<bar>f v\<bar> < B ^ n"
| "product_scope n (Acc g w u v) f \<longleftrightarrow> \<bar>f u\<bar> < B ^ n \<and> \<bar>f v\<bar> < B ^ n"
| "product_scope n _ f \<longleftrightarrow> True"

definition small_result :: "call \<Rightarrow> env \<Rightarrow> bool" where
  "small_result i f \<longleftrightarrow> (case aexec i f of Inl e \<Rightarrow> True | Inr f' \<Rightarrow> \<forall>x \<in> targets i. int_sized (f' x))"

definition ascope :: "nat \<Rightarrow> call \<Rightarrow> env \<Rightarrow> bool" where
  "ascope n i f \<longleftrightarrow> product_scope n i f \<and> small_result i f"

definition in_scope :: "nat \<Rightarrow> store \<Rightarrow> call \<Rightarrow> bool" where
  "in_scope n st i \<longleftrightarrow> ascope n i (mpz_val st)"

lemma small_result_cong:
  assumes "ready L i" "\<forall>x \<in> L. f x = g x"
  shows "small_result i f \<longleftrightarrow> small_result i g"
  using assms by (cases i) (auto simp: small_result_def)

lemma product_scope_cong:
  assumes "ready L i" "\<forall>x \<in> L. f x = g x"
  shows "product_scope n i f \<longleftrightarrow> product_scope n i g"
  using assms by (cases "(n, i, f)" rule: product_scope.cases) auto

lemma aexec_other: "aexec i f = Inr f' \<Longrightarrow> x \<notin> targets i \<Longrightarrow> f' x = f x"
  by (cases i) (auto split: if_splits)

lemma live_after_cases: "x \<in> live_after L i \<Longrightarrow> x \<in> targets i \<or> x \<in> L"
  by (cases i) auto

lemma targets_live: "ready L i \<Longrightarrow> x \<in> targets i \<Longrightarrow> x \<in> live_after L i \<or> (i = Clear x \<and> x \<in> L)"
  by (cases i) auto

lemma size_le_iff: "mpz_ok st u \<Longrightarrow> ABSIZ st u \<le> n \<longleftrightarrow> \<bar>mpz_val st u\<bar> < B ^ n"
proof -
  assume ok: "mpz_ok st u"
  have "lval (mag st u) < B ^ ABSIZ st u" using lval_lt [of "mag st u"] length_mag [OF ok] by simp
  moreover have "B ^ (ABSIZ st u - 1) \<le> lval (mag st u)" if "ABSIZ st u \<noteq> 0"
    using that mag_ge_pow [OF ok] by (simp add: ABSIZ_def)
  ultimately show ?thesis
    unfolding lval_mag_abs [OF ok, symmetric]
    by (metis (no_types, opaque_lifting) B_ge_1 le_less_trans less_le_trans not_le not_less_eq_eq power_increasing
        Suc_pred' bot_nat_0.not_eq_extremum le_zero_eq zero_le)
qed

subsection \<open>Each call refines its abstract counterpart\<close>

definition holds :: "var set \<Rightarrow> store \<Rightarrow> env \<Rightarrow> bool" where
  "holds L st f \<longleftrightarrow> (\<forall>x \<in> L. mpz_ok st x \<and> mpz_val st x = f x)"

lemma holdsD: "holds L st f \<Longrightarrow> x \<in> L \<Longrightarrow> mpz_ok st x" "holds L st f \<Longrightarrow> x \<in> L \<Longrightarrow> mpz_val st x = f x"
  by (simp_all add: holds_def)

lemma holds_writes:
  assumes "holds L st f" "writes st st' w k"
  shows "holds (insert w L) st' (f(w := k))"
  using assms mpz_ok_cong [OF writes_other [OF assms(2)]] mpz_val_cong [OF writes_other [OF assms(2)]]
  by (auto simp: holds_def writes_ok writes_val)

lemma holds_writes_live: "holds L st f \<Longrightarrow> writes st st' w k \<Longrightarrow> w \<in> L \<Longrightarrow> holds L st' (f(w := k))"
  using holds_writes [of L st f st' w k] by (simp add: insert_absorb)

lemma holds_writes2:
  assumes "holds L st f" "writes2 st st' w k v j" "w \<in> L" "v \<in> L" "w \<noteq> v"
  shows "holds L st' (f(w := k, v := j))"
proof -
  have "mpz_ok st' x = mpz_ok st x" "mpz_val st' x = mpz_val st x" if "x \<noteq> w" "x \<noteq> v" for x
    using assms(2) that mpz_ok_cong [of st' x st] mpz_val_cong [of st' x st] by (auto simp: writes2_def)
  then show ?thesis using assms by (auto simp: holds_def writes2_def)
qed

lemma holds_vars: "holds L st f \<Longrightarrow> (\<And>x. x \<in> L \<Longrightarrow> vars st' x = vars st x) \<Longrightarrow> holds L st' f"
  using mpz_ok_cong [of st' _ st] mpz_val_cong [of st' _ st] by (auto simp: holds_def)

lemma un_op_writes: "mpz_ok st w \<Longrightarrow> mpz_ok st u \<Longrightarrow> writes st (un_op f st w u) w (un_fun f (mpz_val st u))"
  by (cases f) (simp_all add: set.op_writes neg.op_writes abs.op_writes com.op_writes)

lemma bin_op_writes:
  assumes "mpz_ok st w" "mpz_ok st u" "mpz_ok st v" "f = MUL \<Longrightarrow> below_toom (mul_cfg c) (ABSIZ st u + ABSIZ st v)"
  shows "writes st (bin_op c f st w u v) w (bin_fun f (mpz_val st u) (mpz_val st v))"
  using assms
  by (cases f) (simp_all add: add.op_writes sub.op_writes and_z.op_writes ior_z.op_writes xor_z.op_writes mpz_mul_below_writes)

lemma acc_op_writes:
  assumes "mpz_ok st w" "mpz_ok st u" "mpz_ok st v" "below_toom (mul_cfg c) (ABSIZ st u + ABSIZ st v)"
  shows "writes st (acc_op c f st w u v) w (acc_fun f (mpz_val st w) (mpz_val st u * mpz_val st v))"
  using assms by (cases f) (simp_all add: mpz_aorsmul_below_writes)

lemma acc_ui_op_writes:
  "mpz_ok st w \<Longrightarrow> mpz_ok st u \<Longrightarrow> writes st (acc_ui_op f st w u k) w (acc_fun f (mpz_val st w) (mpz_val st u * uint k))"
  by (cases f) (simp_all add: mpz_addmul_ui_writes mpz_submul_ui_writes)

lemma word_op_writes:
  "mpz_ok st w \<Longrightarrow> mpz_ok st u \<Longrightarrow> writes st (word_op f st w u k) w (word_fun f (mpz_val st u) k)"
  by (cases f) (simp_all add: add_ui.op_writes sub_ui.op_writes mpz_ui_sub_writes mul_ui.op_writes mul_si.op_writes)

lemma bit_op_writes:
  "mpz_ok st w \<Longrightarrow> mpz_ok st u \<Longrightarrow> writes st (bit_op f st w u n) w (bit_fun f (mpz_val st u) n)"
  by (cases f) (simp_all add: mul_2exp.op_writes tdiv_q_2exp.op_writes tdiv_r_2exp.op_writes fdiv_q_2exp.op_writes
      fdiv_r_2exp.op_writes cdiv_q_2exp.op_writes cdiv_r_2exp.op_writes)

lemma div_q_writes:
  assumes "mpz_ok st w" "mpz_ok st u" "d \<noteq> 0"
  shows "\<exists>st' rl. div_q c r st w u d = Inr (st', rl) \<and> writes st st' w (quot_fun r (mpz_val st u) (uint d))"
  using tdiv.q_law [OF assms, of "div_cfg c"] fdiv.q_law [OF assms, of "div_cfg c"] cdiv.q_law [OF assms, of "div_cfg c"]
  by (cases r) auto

lemma div_r_writes:
  assumes "mpz_ok st w" "mpz_ok st u" "d \<noteq> 0"
  shows "\<exists>st' rl. div_r c r st w u d = Inr (st', rl) \<and> writes st st' w (rem_fun r (mpz_val st u) (uint d))"
  using tdiv.r_law [OF assms, of "div_cfg c"] fdiv.r_law [OF assms, of "div_cfg c"] cdiv.r_law [OF assms, of "div_cfg c"]
  by (cases r) auto

lemma div_qr_writes2:
  assumes "mpz_ok st w" "mpz_ok st v" "mpz_ok st u" "w \<noteq> v" "d \<noteq> 0"
  shows "\<exists>st' rl. div_qr c r st w v u d = Inr (st', rl)
    \<and> writes2 st st' w (quot_fun r (mpz_val st u) (uint d)) v (rem_fun r (mpz_val st u) (uint d))"
  using tdiv.qr_law [OF assms, of "div_cfg c"] fdiv.qr_law [OF assms, of "div_cfg c"] cdiv.qr_law [OF assms, of "div_cfg c"]
  by (cases r) auto

lemma div_by_zero:
  "div_q c r st w u 0 = Inl DIVIDE_BY_ZERO" "div_r c r st w u 0 = Inl DIVIDE_BY_ZERO" "div_qr c r st w v u 0 = Inl DIVIDE_BY_ZERO"
  by (cases r; simp add: tdiv.by_zero fdiv.by_zero cdiv.by_zero)+

text \<open>A call that writes one live variable.\<close>

definition only_changes :: "var set \<Rightarrow> store \<Rightarrow> store \<Rightarrow> bool" where
  "only_changes W st st' \<longleftrightarrow> (\<forall>x. x \<notin> W \<longrightarrow> vars st' x = vars st x)"

lemma only_changes_writes: "writes st st' w k \<Longrightarrow> only_changes {w} st st'"
  by (simp add: only_changes_def writes_def)

lemma only_changes_writes2: "writes2 st st' w k v j \<Longrightarrow> only_changes {w, v} st st'"
  by (simp add: only_changes_def writes2_def)

lemma only_changes_trans: "only_changes W st st1 \<Longrightarrow> only_changes V st1 st2 \<Longrightarrow> only_changes (W \<union> V) st st2"
  by (simp add: only_changes_def)

lemma one_write:
  assumes "holds L st f" "w \<in> L" "writes st st' w k" "k = k'"
  shows "\<exists>st''. Inr st' = (Inr st'' :: mpz_error + store) \<and> holds L st'' (f(w := k')) \<and> only_changes {w} st st''"
  using holds_writes_live [OF assms(1,3,2)] only_changes_writes [OF assms(3)] assms(4) by simp

lemma exec_call_refines:
  assumes rep: "holds L st f" and rdy: "ready L i" and scope: "product_scope n i f" "below_toom (mul_cfg c) (2 * n)"
  shows "case aexec i f of Inl e \<Rightarrow> exec_call c i st = Inl e
         | Inr f' \<Rightarrow> \<exists>st'. exec_call c i st = Inr st' \<and> holds (live_after L i) st' f' \<and> only_changes (targets i) st st'"
proof -
  note ok = holdsD(1) [OF rep] and val = holdsD(2) [OF rep]
  have toom: "below_toom (mul_cfg c) (ABSIZ st u + ABSIZ st v)" if "u \<in> L" "v \<in> L" "\<bar>f u\<bar> < B ^ n" "\<bar>f v\<bar> < B ^ n" for u v
    using below_toom_mono [OF scope(2)] size_le_iff [OF ok [OF that(1)], of n] size_le_iff [OF ok [OF that(2)], of n] val that by simp
  show ?thesis
  proof (cases i)
    case (Init w)
    then show ?thesis using holds_writes [OF rep mpz_init_writes] only_changes_writes [OF mpz_init_writes] by simp
  next
    case (Init_set w u)
    then have "u \<noteq> w" "mpz_ok st u" using rdy ok by auto
    then show ?thesis
      using Init_set rdy holds_writes [OF rep mpz_init_set_writes [of st u w]] only_changes_writes [OF mpz_init_set_writes [of st u w]] val
      by simp
  next
    case (Init_set_si w k)
    then show ?thesis
      using holds_writes [OF rep mpz_init_set_si_writes] only_changes_writes [OF mpz_init_set_si_writes] by simp
  next
    case (Clear w)
    have "holds (L - {w}) st f" using rep by (simp add: holds_def)
    then have "holds (L - {w}) (mpz_clear st w) f" by (rule holds_vars) (simp add: mpz_clear_other)
    then show ?thesis using Clear mpz_clear_other by (simp add: only_changes_def)
  next
    case (Swap u v)
    have "mpz_ok (mpz_swap st u v) x = mpz_ok st (if x = v then u else if x = u then v else x)"
      "mpz_val (mpz_swap st u v) x = mpz_val st (if x = v then u else if x = u then v else x)" for x
      by (simp_all add: mpz_ok_def mpz_val_def mag_def ABSIZ_def mpz_swap_vars)
    then show ?thesis using Swap rep rdy by (auto simp: holds_def only_changes_def mpz_swap_vars)
  next
    case (Unary g w u)
    then show ?thesis using rdy one_write [OF rep _ un_op_writes [OF ok ok]] val by simp
  next
    case (Binary g w u v)
    then have "writes st (bin_op c g st w u v) w (bin_fun g (mpz_val st u) (mpz_val st v))"
      using rdy scope(1) by (intro bin_op_writes toom ok) auto
    then show ?thesis using Binary rdy one_write [OF rep] val by simp
  next
    case (Acc g w u v)
    then have "writes st (acc_op c g st w u v) w (acc_fun g (mpz_val st w) (mpz_val st u * mpz_val st v))"
      using rdy scope(1) by (intro acc_op_writes toom ok) auto
    then show ?thesis using Acc rdy one_write [OF rep] val by simp
  next
    case (Acc_ui g w u k)
    then show ?thesis using rdy one_write [OF rep _ acc_ui_op_writes [OF ok ok]] val by simp
  next
    case (Wordc g w u k)
    then show ?thesis using rdy one_write [OF rep _ word_op_writes [OF ok ok]] val by simp
  next
    case (Bitc g w u m)
    then show ?thesis using rdy one_write [OF rep _ bit_op_writes [OF ok ok]] val by simp
  next
    case (Div_q r w u d)
    then show ?thesis
      using rdy div_q_writes [OF ok ok, of w u d c r] val holds_writes_live [OF rep] only_changes_writes
      by (cases "d = 0") (fastforce simp: div_by_zero)+
  next
    case (Div_r r w u d)
    then show ?thesis
      using rdy div_r_writes [OF ok ok, of w u d c r] val holds_writes_live [OF rep] only_changes_writes
      by (cases "d = 0") (fastforce simp: div_by_zero)+
  next
    case (Div_qr r w v u d)
    then show ?thesis
      using rdy div_qr_writes2 [OF ok ok ok, of w v u d c r] val holds_writes2 [OF rep] only_changes_writes2
      by (cases "d = 0") (fastforce simp: div_by_zero)+
  qed
qed

text \<open>With the sizes stored as \<^verbatim>\<open>int\<close>, for values of at most \<open>INT_LIMBS\<close> limbs.\<close>

definition represents :: "var set \<Rightarrow> store \<Rightarrow> env \<Rightarrow> bool" where
  "represents L st f \<longleftrightarrow> (\<forall>x \<in> L. mpz_ok st x \<and> mpz_val st x = f x \<and> ABSIZ st x \<le> INT_LIMBS)"

lemma represents_iff: "represents L st f \<longleftrightarrow> holds L st f \<and> (\<forall>x \<in> L. int_sized (f x))"
  using size_le_iff by (auto simp: represents_def holds_def int_sized_def)

lemma representsD: "represents L st f \<Longrightarrow> x \<in> L \<Longrightarrow> mpz_ok st x" "represents L st f \<Longrightarrow> x \<in> L \<Longrightarrow> mpz_val st x = f x"
  by (simp_all add: represents_def)

lemma represents_size: "represents L st f \<Longrightarrow> x \<in> L \<Longrightarrow> \<bar>mp_size (vars st x)\<bar> < 2 ^ 31"
  using INT_LIMBS_less by (fastforce simp: represents_def ABSIZ_def)

lemma store_sizes_fit:
  assumes "\<And>x. x \<in> W \<Longrightarrow> \<bar>mp_size (vars st x)\<bar> < 2 ^ 31"
  shows "store_sizes W st = st"
proof -
  have "c_int (mp_size (vars st x)) = mp_size (vars st x)" if "x \<in> W" for x
    using assms [OF that] by (intro c_int_small) linarith+
  then have "(\<lambda>x. if x \<in> W then (vars st x)\<lparr>mp_size := c_int (mp_size (vars st x))\<rparr> else vars st x) = vars st"
    by (simp add: fun_eq_iff)
  then show ?thesis by (simp add: store_sizes_def)
qed

lemma scope_iff: "represents L st f \<Longrightarrow> ready L i \<Longrightarrow> in_scope n st i \<longleftrightarrow> ascope n i f"
  unfolding in_scope_def ascope_def
  using small_result_cong [of L i f "mpz_val st"] product_scope_cong [of L i f "mpz_val st" n] by (auto simp: represents_def)

lemma exec_refines:
  assumes rep: "represents L st f" and rdy: "ready L i" and scope: "ascope n i f" "below_toom (mul_cfg c) (2 * n)"
  shows "case aexec i f of Inl e \<Rightarrow> exec c i st = Inl e
         | Inr f' \<Rightarrow> \<exists>st'. exec c i st = Inr st' \<and> represents (live_after L i) st' f' \<and> only_changes (targets i) st st'"
proof (cases "aexec i f")
  case (Inl e)
  then show ?thesis using exec_call_refines [of L st f i n c] assms by (simp add: represents_iff ascope_def exec_def)
next
  case (Inr f')
  have "product_scope n i f" "small_result i f" "holds L st f" "\<forall>x \<in> L. int_sized (f x)"
    using rep scope(1) by (simp_all add: ascope_def represents_iff)
  with exec_call_refines [of L st f i n c] Inr rdy scope(2) obtain st'
    where st': "exec_call c i st = Inr st'" "holds (live_after L i) st' f'" "only_changes (targets i) st st'" by auto
  have "int_sized (f' x)" if "x \<in> live_after L i" for x
    using live_after_cases [OF that] \<open>small_result i f\<close> aexec_other [OF Inr, of x] \<open>\<forall>x \<in> L. int_sized (f x)\<close>
    by (cases "x \<in> targets i") (simp_all add: small_result_def Inr)
  then have rep': "represents (live_after L i) st' f'" using st'(2) by (simp add: represents_iff)
  have "\<bar>mp_size (vars st' x)\<bar> < 2 ^ 31" if "x \<in> targets i" for x
    using targets_live [OF rdy that]
  proof
    assume "i = Clear x \<and> x \<in> L"
    then show ?thesis using st'(1) represents_size [OF rep, of x] by (auto simp: mpz_clear_def)
  qed (rule represents_size [OF rep'])
  then have "exec c i st = Inr st'" using store_sizes_fit [of "targets i" st'] st'(1) by (simp add: exec_def)
  then show ?thesis using Inr rep' st'(3) by simp
qed

subsection \<open>Sequences of calls\<close>

fun run :: "config \<Rightarrow> call list \<Rightarrow> store \<Rightarrow> mpz_error + store" where
  "run c [] st = Inr st"
| "run c (i # is) st = (case exec c i st of Inl e \<Rightarrow> Inl e | Inr st' \<Rightarrow> run c is st')"

fun arun :: "call list \<Rightarrow> env \<Rightarrow> mpz_error + env" where
  "arun [] f = Inr f"
| "arun (i # is) f = (case aexec i f of Inl e \<Rightarrow> Inl e | Inr f' \<Rightarrow> arun is f')"

text \<open>Every call along the run is in scope.\<close>

fun ascoped :: "nat \<Rightarrow> call list \<Rightarrow> env \<Rightarrow> bool" where
  "ascoped n [] f \<longleftrightarrow> True"
| "ascoped n (i # is) f \<longleftrightarrow> ascope n i f \<and> (case aexec i f of Inl e \<Rightarrow> True | Inr f' \<Rightarrow> ascoped n is f')"

definition live_end :: "var set \<Rightarrow> call list \<Rightarrow> var set" where
  "live_end = foldl live_after"

lemma run_refines:
  assumes "represents L st f" "disciplined L is" "ascoped n is f" "below_toom (mul_cfg c) (2 * n)"
  shows "case arun is f of Inl e \<Rightarrow> run c is st = Inl e
         | Inr f' \<Rightarrow> \<exists>st'. run c is st = Inr st' \<and> represents (live_end L is) st' f'
             \<and> only_changes (\<Union> (targets ` set is)) st st'"
  using assms
proof (induction "is" arbitrary: L st f)
  case Nil
  then show ?case by (simp add: live_end_def only_changes_def)
next
  case (Cons i "is")
  have one: "case aexec i f of Inl e \<Rightarrow> exec c i st = Inl e
      | Inr f' \<Rightarrow> \<exists>st'. exec c i st = Inr st' \<and> represents (live_after L i) st' f' \<and> only_changes (targets i) st st'"
    using Cons.prems scope_iff [OF Cons.prems(1), of i n] by (intro exec_refines) auto
  show ?case
  proof (cases "aexec i f")
    case (Inl e)
    then show ?thesis using one by simp
  next
    case (Inr f1)
    then obtain st1 where st1: "exec c i st = Inr st1" "represents (live_after L i) st1 f1" "only_changes (targets i) st st1"
      using one by auto
    have "case arun is f1 of Inl e \<Rightarrow> run c is st1 = Inl e
         | Inr f' \<Rightarrow> \<exists>st'. run c is st1 = Inr st' \<and> represents (live_end (live_after L i) is) st' f'
             \<and> only_changes (\<Union> (targets ` set is)) st1 st'"
      using Cons.IH [OF st1(2)] Cons.prems Inr by simp
    then show ?thesis
      using Inr st1(1) only_changes_trans [OF st1(3)] by (auto simp: live_end_def split: sum.splits)
  qed
qed

subsection \<open>Running call by call\<close>

datatype pstate = Running "call list" "var set" store | Raised mpz_error

inductive pstep :: "nat \<Rightarrow> config \<Rightarrow> pstate \<Rightarrow> pstate \<Rightarrow> bool" for n c where
  call_ok: "ready L i \<Longrightarrow> in_scope n st i \<Longrightarrow> exec c i st = Inr st' \<Longrightarrow>
    pstep n c (Running (i # is) L st) (Running is (live_after L i) st')"
| call_error: "ready L i \<Longrightarrow> in_scope n st i \<Longrightarrow> exec c i st = Inl e \<Longrightarrow>
    pstep n c (Running (i # is) L st) (Raised e)"

inductive_cases pstep_RunningE: "pstep n c (Running is L st) s'"
inductive_simps pstep_Raised [simp]: "pstep n c (Raised e) s'"
inductive_simps pstep_done [simp]: "pstep n c (Running [] L st) s'"

abbreviation psteps :: "nat \<Rightarrow> config \<Rightarrow> pstate \<Rightarrow> pstate \<Rightarrow> bool" where
  "psteps n c \<equiv> (pstep n c)\<^sup>*\<^sup>*"

fun well_formed :: "pstate \<Rightarrow> bool" where
  "well_formed (Running is L st) \<longleftrightarrow> disciplined L is \<and> (\<forall>x \<in> L. mpz_ok st x \<and> ABSIZ st x \<le> INT_LIMBS)"
| "well_formed (Raised e) \<longleftrightarrow> e = DIVIDE_BY_ZERO"

lemma pstep_deterministic: "pstep n c s s1 \<Longrightarrow> pstep n c s s2 \<Longrightarrow> s1 = s2"
  by (induction rule: pstep.induct) (auto elim: pstep_RunningE)

lemma represents_self: "represents L st (mpz_val st) \<longleftrightarrow> (\<forall>x \<in> L. mpz_ok st x \<and> ABSIZ st x \<le> INT_LIMBS)"
  by (simp add: represents_def)

lemma pstep_well_formed:
  assumes "below_toom (mul_cfg c) (2 * n)" "pstep n c s s'" "well_formed s"
  shows "well_formed s'"
  using assms(2,3)
proof (induction rule: pstep.induct)
  case (call_ok L i st st' "is")
  then show ?case
    using exec_refines [of L st "mpz_val st" i n c] assms(1)
    by (auto simp: represents_self in_scope_def split: sum.splits) (auto simp: represents_def)
next
  case (call_error L i st e "is")
  then show ?case by (cases e) simp
qed

lemma psteps_well_formed:
  assumes "below_toom (mul_cfg c) (2 * n)" "psteps n c s s'" "well_formed s"
  shows "well_formed s'"
  using assms(2,3) by (induction rule: rtranclp_induct) (auto intro: pstep_well_formed [OF assms(1)])

lemma pstep_progress:
  assumes "well_formed (Running (i # is) L st)" "in_scope n st i"
  shows "\<exists>s'. pstep n c (Running (i # is) L st) s'"
  using assms by (cases "exec c i st") (auto intro: pstep.intros)

lemma run_psteps:
  assumes "represents L st f" "disciplined L is" "ascoped n is f" "below_toom (mul_cfg c) (2 * n)"
  shows "case run c is st of Inl e \<Rightarrow> psteps n c (Running is L st) (Raised e)
         | Inr st' \<Rightarrow> psteps n c (Running is L st) (Running [] (live_end L is) st')"
  using assms
proof (induction "is" arbitrary: L st f)
  case (Cons i "is")
  have scope: "ready L i" "in_scope n st i" using Cons.prems scope_iff [OF Cons.prems(1), of i n] by simp_all
  show ?case
  proof (cases "exec c i st")
    case (Inl e)
    then show ?thesis using pstep.call_error [OF scope, of c e "is"] by auto
  next
    case (Inr st1)
    with exec_refines [OF Cons.prems(1) scope(1) _ Cons.prems(4)] Cons.prems(3) obtain f1
      where f1: "aexec i f = Inr f1" "represents (live_after L i) st1 f1" by (auto split: sum.splits)
    have first: "pstep n c (Running (i # is) L st) (Running is (live_after L i) st1)"
      by (rule pstep.call_ok [OF scope Inr])
    show ?thesis
      using Cons.IH [OF f1(2)] Cons.prems f1(1) Inr converse_rtranclp_into_rtranclp [of "pstep n c", OF first]
      by (auto simp: live_end_def split: sum.splits)
  qed
qed (simp add: live_end_def)

lemma Raised_final: "\<not> (pstep n c ^^ Suc k) (Raised e) s"
  using relpowp_Suc_D2 [of k "pstep n c" "Raised e" s] by auto

lemma psteps_bounded: "(pstep n c ^^ k) (Running is L st) s \<Longrightarrow> k \<le> length is"
proof (induction k arbitrary: "is" L st)
  case (Suc k)
  then obtain s1 where s1: "pstep n c (Running is L st) s1" "(pstep n c ^^ k) s1 s"
    by (blast dest: relpowp_Suc_D2)
  from s1(1) show ?case
  proof (cases rule: pstep.cases)
    case (call_error i e js)
    then have "k = 0" using s1(2) Raised_final by (cases k) blast+
    then show ?thesis using call_error by simp
  qed (use Suc.IH s1(2) in auto)
qed simp

end
