(* ===== verification/Kernel_Value.thy ===== *)
theory Kernel_Value
  imports Mpz_Program
begin

text \<open>
  Lisp values and the integer objects of the kernel (\<^verbatim>\<open>kernel/lisp.hpp\<close>, \<^verbatim>\<open>kernel/Bignum.hpp\<close>,
  \<^verbatim>\<open>kernel/Bignum.cpp\<close>, \<^verbatim>\<open>normalize\<close> of \<^verbatim>\<open>kernel/numbers.cpp\<close>) on x86-64. A fixnum is a tagged word
  whose two low bits are zero; a bignum is a reference to an object that holds an integer
  variable of the store; the other kinds of object are opaque. The kernel state is the store and
  the first variable not allocated yet, which serves the objects of \<^verbatim>\<open>new Bignum\<close> and the local
  \<^verbatim>\<open>mpz_t\<close> variables alike; \<^verbatim>\<open>MPZ_CLEAR\<close> expands to nothing, the collector reclaims them.

  The invariant of the integers is that a bignum never holds a value in the fixnum range; the
  contract of an operation, \<open>returns\<close>, includes it together with the value of the result and with
  the immutability of every number that existed before.
\<close>

subsection \<open>Values\<close>

datatype kind = RATIO | SINGLE_FLOAT | DOUBLE_FLOAT | COMPLEX | NOT_NUMBER

datatype Value = Fixnum limb | Bignum_ref var | Other kind nat

datatype type_specifier = S_integer | S_number | S_real | S_fixnum | S_bit | S_integer_between limb limb

datatype operation = S_truncate_2 | S_floor_2 | S_ceiling_2 | S_rem | S_mod

datatype lisp_error =
  Type_error Value type_specifier
| Division_by_zero operation Value Value
| Wrong_number_of_arguments nat
| Cannot_shift

record kernel =
  heap :: store
  avail :: var

type_synonym 'a result = "lisp_error + 'a"
type_synonym kvalue = "(Value \<times> kernel) result"

definition MOST_POSITIVE_FIXNUM :: int where
  "MOST_POSITIVE_FIXNUM = 2305843009213693951"

definition MOST_NEGATIVE_FIXNUM :: int where
  "MOST_NEGATIVE_FIXNUM = -2305843009213693952"

definition fixnum_range :: "int \<Rightarrow> bool" where
  "fixnum_range n \<longleftrightarrow> MOST_NEGATIVE_FIXNUM \<le> n \<and> n \<le> MOST_POSITIVE_FIXNUM"

definition make_fixnum :: "limb \<Rightarrow> Value" where
  "make_fixnum n = Fixnum (push_bit 2 n)"

fun xlong :: "Value \<Rightarrow> limb" where
  "xlong (Fixnum w) = signed_drop_bit 2 w"
| "xlong _ = 0"

fun fixnump :: "Value \<Rightarrow> bool" where
  "fixnump (Fixnum w) \<longleftrightarrow> w AND 3 = 0"
| "fixnump _ \<longleftrightarrow> False"

fun bignump :: "Value \<Rightarrow> bool" where
  "bignump (Bignum_ref z) \<longleftrightarrow> True"
| "bignump _ \<longleftrightarrow> False"

definition integerp :: "Value \<Rightarrow> bool" where
  "integerp v \<longleftrightarrow> fixnump v \<or> bignump v"

fun rationalp :: "Value \<Rightarrow> bool" where
  "rationalp (Other c i) \<longleftrightarrow> c = RATIO"
| "rationalp v \<longleftrightarrow> integerp v"

fun realp :: "Value \<Rightarrow> bool" where
  "realp (Other c i) \<longleftrightarrow> c \<in> {RATIO, SINGLE_FLOAT, DOUBLE_FLOAT}"
| "realp v \<longleftrightarrow> integerp v"

fun numberp :: "Value \<Rightarrow> bool" where
  "numberp (Other c i) \<longleftrightarrow> c \<noteq> NOT_NUMBER"
| "numberp v \<longleftrightarrow> integerp v"

definition fixnum_value :: "Value \<Rightarrow> limb result" where
  "fixnum_value v = (if fixnump v then Inr (xlong v) else Inl (Type_error v S_fixnum))"

definition indexp :: "Value \<Rightarrow> bool" where
  "indexp v \<longleftrightarrow> fixnump v \<and> 0 \<le> sint (xlong v)"

definition check_index :: "Value \<Rightarrow> limb result" where
  "check_index v = (if fixnump v \<and> 0 \<le> sint (xlong v) then Inr (xlong v)
     else Inl (Type_error v (S_integer_between 0 (word_of_int MOST_POSITIVE_FIXNUM))))"

definition check_index_between :: "Value \<Rightarrow> limb \<Rightarrow> limb \<Rightarrow> limb result" where
  "check_index_between v minimum maximum =
     (if fixnump v \<and> 0 \<le> sint (xlong v) \<and> minimum \<le> xlong v \<and> xlong v \<le> maximum then Inr (xlong v)
      else Inl (Type_error v (S_integer_between minimum maximum)))"

definition check_bit :: "Value \<Rightarrow> limb result" where
  "check_bit v = (if v = Fixnum 0 then Inr 0 else if v = Fixnum (push_bit 2 1) then Inr 1 else Inl (Type_error v S_bit))"

subsection \<open>Objects\<close>

definition new_var :: "kernel \<Rightarrow> var \<times> kernel" where
  "new_var k = (avail k, k\<lparr>avail := Suc (avail k)\<rparr>)"

lemma heap_set_avail: "heap (k\<lparr>avail := x\<rparr>) = heap k"
  by simp

text \<open>The four constructors of \<^verbatim>\<open>Bignum\<close>; the last takes the block of \<open>z\<close> over.\<close>

definition Bignum_long :: "kernel \<Rightarrow> limb \<Rightarrow> Value \<times> kernel" where
  "Bignum_long k n = (let (x, k) = new_var k in (Bignum_ref x, k\<lparr>heap := mpz_init_set_si (heap k) x n\<rparr>))"

definition Bignum_ulong :: "kernel \<Rightarrow> limb \<Rightarrow> Value \<times> kernel" where
  "Bignum_ulong k n = (let (x, k) = new_var k in (Bignum_ref x, k\<lparr>heap := mpz_init_set_ui (heap k) x n\<rparr>))"

definition Bignum_copy :: "kernel \<Rightarrow> var \<Rightarrow> Value \<times> kernel" where
  "Bignum_copy k z = (let (x, k) = new_var k in (Bignum_ref x, k\<lparr>heap := mpz_init_set (heap k) x z\<rparr>))"

definition Bignum_move :: "kernel \<Rightarrow> var \<Rightarrow> Value \<times> kernel" where
  "Bignum_move k z =
     (let (x, k) = new_var k;
          h = set_var (heap k) x (vars (heap k) z);
          h = set_var h z \<lparr>mp_alloc = 0, mp_size = 0, mp_d = []\<rparr>
      in (Bignum_ref x, k\<lparr>heap := h\<rparr>))"

definition make_integer :: "kernel \<Rightarrow> limb \<Rightarrow> Value \<times> kernel" where
  "make_integer k n = (if fixnum_range (sint n) then (make_fixnum n, k) else Bignum_long k n)"

definition make_unsigned_integer :: "kernel \<Rightarrow> limb \<Rightarrow> Value \<times> kernel" where
  "make_unsigned_integer k n =
     (if uint n \<le> MOST_POSITIVE_FIXNUM then (make_fixnum n, k) else Bignum_ulong k n)"

definition normalize_mpz :: "kernel \<Rightarrow> var \<Rightarrow> Value \<times> kernel" where
  "normalize_mpz k z =
     (if mpz_fits_slong_p (heap k) z \<and> fixnum_range (sint (mpz_get_si (heap k) z))
      then (make_fixnum (mpz_get_si (heap k) z), k)
      else Bignum_copy k z)"

subsection \<open>Bignum methods\<close>

definition Bignum_plusp :: "kernel \<Rightarrow> var \<Rightarrow> bool" where
  "Bignum_plusp k z \<longleftrightarrow> mpz_sgn (heap k) z > 0"

definition Bignum_minusp :: "kernel \<Rightarrow> var \<Rightarrow> bool" where
  "Bignum_minusp k z \<longleftrightarrow> mpz_sgn (heap k) z < 0"

definition mpz_odd_p :: "store \<Rightarrow> var \<Rightarrow> bool" where
  "mpz_odd_p st z \<longleftrightarrow> (of_bool (SIZ st z \<noteq> 0) AND PTR st z ! 0) \<noteq> 0"

definition mpz_even_p :: "store \<Rightarrow> var \<Rightarrow> bool" where
  "mpz_even_p st z \<longleftrightarrow> \<not> mpz_odd_p st z"

definition Bignum_add_long :: "kernel \<Rightarrow> var \<Rightarrow> limb \<Rightarrow> Value \<times> kernel" where
  "Bignum_add_long k z n =
     (let (res, k) = new_var k;
          h = mpz_init_set (heap k) res z;
          h = (if sint n \<ge> 0 then mpz_add_ui h res res n else mpz_sub_ui h res res (- n));
          k = k\<lparr>heap := h\<rparr>
      in if mpz_fits_slong_p h res \<and> fixnum_range (sint (mpz_get_si h res)) then (make_fixnum (mpz_get_si h res), k)
         else Bignum_move k res)"

definition Bignum_add :: "kernel \<Rightarrow> var \<Rightarrow> var \<Rightarrow> Value \<times> kernel" where
  "Bignum_add k z b =
     (let (res, k) = new_var k;
          h = mpz_init_set (heap k) res z;
          h = mpz_add h res res b
      in normalize_mpz (k\<lparr>heap := h\<rparr>) res)"

definition Bignum_subtract_long :: "kernel \<Rightarrow> var \<Rightarrow> limb \<Rightarrow> Value \<times> kernel" where
  "Bignum_subtract_long k z n =
     (let (res, k) = new_var k;
          h = mpz_init_set (heap k) res z;
          h = (if sint n \<ge> 0 then mpz_sub_ui h res res n else mpz_add_ui h res res (- n))
      in normalize_mpz (k\<lparr>heap := h\<rparr>) res)"

definition Bignum_subtract :: "kernel \<Rightarrow> var \<Rightarrow> var \<Rightarrow> Value \<times> kernel" where
  "Bignum_subtract k z b =
     (let (res, k) = new_var k;
          h = mpz_init_set (heap k) res z;
          h = mpz_sub h res res b
      in normalize_mpz (k\<lparr>heap := h\<rparr>) res)"

definition Bignum_multiply_long :: "kernel \<Rightarrow> var \<Rightarrow> limb \<Rightarrow> Value \<times> kernel" where
  "Bignum_multiply_long k z n =
     (let (res, k) = new_var k;
          h = mpz_init_set (heap k) res z;
          h = mpz_mul_si h res res n
      in normalize_mpz (k\<lparr>heap := h\<rparr>) res)"

definition Bignum_multiply :: "mul_config \<Rightarrow> kernel \<Rightarrow> var \<Rightarrow> var \<Rightarrow> Value \<times> kernel" where
  "Bignum_multiply cfg k z b =
     (let (res, k) = new_var k;
          h = mpz_init_set (heap k) res z;
          h = mpz_mul cfg h res res b
      in normalize_mpz (k\<lparr>heap := h\<rparr>) res)"

definition Bignum_negate :: "kernel \<Rightarrow> var \<Rightarrow> Value \<times> kernel" where
  "Bignum_negate k z =
     (let (res, k) = new_var k;
          h = mpz_init (heap k) res;
          h = mpz_neg h res z
      in normalize_mpz (k\<lparr>heap := h\<rparr>) res)"

fun Bignum_eql :: "kernel \<Rightarrow> var \<Rightarrow> Value \<Rightarrow> bool" where
  "Bignum_eql k z (Bignum_ref b) \<longleftrightarrow> mpz_cmp (heap k) z b = 0"
| "Bignum_eql k z _ \<longleftrightarrow> False"

text \<open>\<open>other_eql\<close> stands for the \<^verbatim>\<open>eql\<close> methods of the other object classes.\<close>

definition eql :: "(kind \<Rightarrow> nat \<Rightarrow> Value \<Rightarrow> bool) \<Rightarrow> kernel \<Rightarrow> Value \<Rightarrow> Value \<Rightarrow> bool" where
  "eql other_eql k x y \<longleftrightarrow>
     x = y \<or> (case x of Fixnum w \<Rightarrow> False | Bignum_ref z \<Rightarrow> Bignum_eql k z y | Other c i \<Rightarrow> other_eql c i y)"

subsection \<open>Fixnum words\<close>

lemma fixnum_range_iff: "fixnum_range n \<longleftrightarrow> - (2 ^ 61) \<le> n \<and> n < 2 ^ 61"
  by (auto simp: fixnum_range_def MOST_NEGATIVE_FIXNUM_def MOST_POSITIVE_FIXNUM_def)

lemma long_eqI: "sint (a :: limb) = sint b \<Longrightarrow> a = b"
  using signed_word_eqI [where ?'a = int] by blast

text \<open>Arithmetic on \<^verbatim>\<open>long\<close> that does not overflow.\<close>

lemma long_exact:
  fixes a b :: limb
  shows "- (2 ^ 63) \<le> k \<Longrightarrow> k < 2 ^ 63 \<Longrightarrow> sint (word_of_int k :: limb) = k"
    and "- (2 ^ 63) \<le> sint a + sint b \<Longrightarrow> sint a + sint b < 2 ^ 63 \<Longrightarrow> sint (a + b) = sint a + sint b"
    and "- (2 ^ 63) \<le> sint a - sint b \<Longrightarrow> sint a - sint b < 2 ^ 63 \<Longrightarrow> sint (a - b) = sint a - sint b"
    and "- (2 ^ 63) \<le> sint a * sint b \<Longrightarrow> sint a * sint b < 2 ^ 63 \<Longrightarrow> sint (a * b) = sint a * sint b"
    and "- (2 ^ 63) < sint a \<Longrightarrow> sint (- a) = - sint a"
  using sint_lt [of a] sint_ge [of a]
  by (simp_all add: sint_sbintrunc' sint_word_add sint_word_diff sint_word_mult sint_word_minus signed_take_bit_int_eq_self)

lemma long_logic:
  fixes a b :: limb
  shows "sint (a AND b) = sint a AND sint b" "sint (a OR b) = sint a OR sint b" "sint (a XOR b) = sint a XOR sint b"
    "sint (NOT a) = NOT (sint a)"
proof -
  have "NOT a = - 1 - a" by (simp add: not_eq_complement)
  then show "sint (NOT a) = NOT (sint a)"
    using long_exact(3) [of "- 1" a] sint_lt [of a] sint_ge [of a] by (simp add: not_eq_complement [of "sint a"])
qed (simp_all add: signed_and_eq signed_or_eq signed_xor_eq)

lemma sint_push_2: "fixnum_range (sint n) \<Longrightarrow> sint (push_bit 2 n :: limb) = sint n * 4"
  using long_exact(4) [of n 4] by (simp add: fixnum_range_iff push_bit_eq_mult)

lemma xlong_make_fixnum: "fixnum_range (sint n) \<Longrightarrow> xlong (make_fixnum n) = n"
  by (rule long_eqI) (simp add: make_fixnum_def sint_push_2 sint_signed_drop_bit_eq drop_bit_eq_div)

lemma and_3_limb: "(w AND 3 = (0 :: limb)) \<longleftrightarrow> take_bit 2 w = 0"
  by (simp add: take_bit_eq_mask mask_eq_exp_minus_1)

lemma fixnump_make_fixnum [simp]: "fixnump (make_fixnum n)"
  by (simp add: make_fixnum_def and_3_limb take_bit_push_bit)

lemma fixnump_range: "fixnump v \<Longrightarrow> fixnum_range (sint (xlong v))"
  using sint_ge [of "case v of Fixnum w \<Rightarrow> w"] sint_lt [of "case v of Fixnum w \<Rightarrow> w"]
  by (cases v) (auto simp: fixnum_range_iff sint_signed_drop_bit_eq drop_bit_eq_div)

lemma xlong_tag: "fixnump (Fixnum w) \<Longrightarrow> sint w = 4 * sint (xlong (Fixnum w))"
proof -
  assume "fixnump (Fixnum w)"
  then have "uint (take_bit 2 w) = 0" by (simp add: and_3_limb)
  then have "uint w mod 4 = 0" by (simp add: uint_take_limb)
  then have "sint w mod 4 = 0" by (auto simp: sint_limb B_def)
  then show ?thesis using mult_div_mod_eq [of 4 "sint w"] by (simp add: sint_signed_drop_bit_eq drop_bit_eq_div)
qed


subsection \<open>The contract of an integer operation\<close>

fun int_of :: "kernel \<Rightarrow> Value \<Rightarrow> int" where
  "int_of k (Fixnum w) = sint (xlong (Fixnum w))"
| "int_of k (Bignum_ref z) = mpz_val (heap k) z"
| "int_of k (Other c i) = 0"

text \<open>An integer of the system: a tagged word, or a well-formed bignum outside the fixnum range.\<close>

fun int_value :: "kernel \<Rightarrow> Value \<Rightarrow> bool" where
  "int_value k (Fixnum w) \<longleftrightarrow> fixnump (Fixnum w)"
| "int_value k (Bignum_ref z) \<longleftrightarrow> z < avail k \<and> mpz_ok (heap k) z \<and> \<not> fixnum_range (mpz_val (heap k) z)"
| "int_value k (Other c i) \<longleftrightarrow> False"

definition extends :: "kernel \<Rightarrow> kernel \<Rightarrow> bool" where
  "extends k k' \<longleftrightarrow> avail k \<le> avail k' \<and> (\<forall>x < avail k. vars (heap k') x = vars (heap k) x)"

definition yields :: "kernel \<Rightarrow> Value \<times> kernel \<Rightarrow> int \<Rightarrow> bool" where
  "yields k r n \<longleftrightarrow> int_value (snd r) (fst r) \<and> int_of (snd r) (fst r) = n \<and> extends k (snd r)"

definition returns :: "kernel \<Rightarrow> kvalue \<Rightarrow> int \<Rightarrow> bool" where
  "returns k res n \<longleftrightarrow> (\<exists>r. res = Inr r \<and> yields k r n)"

lemma returnsI: "yields k r n \<Longrightarrow> returns k (Inr r) n"
  by (simp add: returns_def)

lemma extends_refl [simp]: "extends k k"
  by (simp add: extends_def)

lemma extends_trans: "extends k k1 \<Longrightarrow> extends k1 k2 \<Longrightarrow> extends k k2"
  by (simp add: extends_def)

lemma int_value_integerp: "int_value k v \<Longrightarrow> integerp v"
  by (cases v) (simp_all add: integerp_def)

lemma extends_value:
  assumes "extends k k'" "int_value k v"
  shows "int_value k' v" "int_of k' v = int_of k v"
  using assms mpz_ok_cong [of "heap k'" _ "heap k"] mpz_val_cong [of "heap k'" _ "heap k"]
  by (cases v; auto simp: extends_def)+

lemma yields_trans: "extends k k1 \<Longrightarrow> yields k1 r n \<Longrightarrow> yields k r n"
  using extends_trans by (auto simp: yields_def)

lemma returns_trans: "extends k k1 \<Longrightarrow> returns k1 r n \<Longrightarrow> returns k r n"
  using yields_trans by (auto simp: returns_def)

lemma fixnum_int: "int_value k (Fixnum w) \<Longrightarrow> fixnum_range (int_of k (Fixnum w))"
  using fixnump_range [of "Fixnum w"] by simp

lemma bignum_int: "int_value k (Bignum_ref z) \<Longrightarrow> \<not> fixnum_range (int_of k (Bignum_ref z))"
  by simp

lemma yields_fixnum: "fixnum_range (sint n) \<Longrightarrow> sint n = m \<Longrightarrow> yields k (make_fixnum n, k) m"
  using xlong_make_fixnum [of n] fixnump_make_fixnum [of n] by (simp add: yields_def make_fixnum_def)

text \<open>Two integers are the same object only if they have the same value, and fixnums exactly then.\<close>

lemma fixnum_eq_iff:
  "int_value k (Fixnum a) \<Longrightarrow> int_value k (Fixnum b) \<Longrightarrow> int_of k (Fixnum a) = int_of k (Fixnum b) \<longleftrightarrow> a = b"
  using xlong_tag [of a] xlong_tag [of b] long_eqI [of a b] by auto

subsection \<open>Objects hold what they are made of\<close>

text \<open>A fresh variable is written, all allocated ones are left alone.\<close>

lemma extends_writes:
  assumes "avail k \<le> x" "writes (heap k) h x n"
  shows "extends k (k\<lparr>avail := Suc x, heap := h\<rparr>)"
  using assms by (auto simp: extends_def writes_def)

lemma yields_bignum:
  assumes "writes (heap k) h (avail k) n" "\<not> fixnum_range n"
  shows "yields k (Bignum_ref (avail k), k\<lparr>avail := Suc (avail k), heap := h\<rparr>) n"
  using assms extends_writes [OF le_refl assms(1)] by (simp add: yields_def writes_ok writes_val)

lemma Bignum_long_yields: "\<not> fixnum_range (sint n) \<Longrightarrow> yields k (Bignum_long k n) (sint n)"
  using yields_bignum [OF mpz_init_set_si_writes] by (simp add: Bignum_long_def new_var_def)

lemma Bignum_ulong_yields: "\<not> fixnum_range (uint n) \<Longrightarrow> yields k (Bignum_ulong k n) (uint n)"
  using yields_bignum [OF mpz_init_set_ui_writes] by (simp add: Bignum_ulong_def new_var_def)

lemma make_integer_yields: "yields k (make_integer k n) (sint n)"
  using yields_fixnum [of n "sint n" k] Bignum_long_yields [of n k] by (simp add: make_integer_def)

lemma make_unsigned_integer_yields: "yields k (make_unsigned_integer k n) (uint n)"
proof (cases "uint n \<le> MOST_POSITIVE_FIXNUM")
  case True
  then have "sint n = uint n" by (simp add: sint_limb MOST_POSITIVE_FIXNUM_def)
  moreover from this True have "fixnum_range (sint n)"
    using uint_ge_0 [of n] unfolding fixnum_range_def MOST_NEGATIVE_FIXNUM_def by linarith
  ultimately show ?thesis using True yields_fixnum by (simp add: make_unsigned_integer_def)
next
  case False
  then show ?thesis using Bignum_ulong_yields [of n k] by (simp add: make_unsigned_integer_def fixnum_range_def)
qed

text \<open>A local variable, computed, then normalised or taken over by a new object.\<close>

lemma fits_fixnum:
  assumes "mpz_ok h x"
  shows "mpz_fits_slong_p h x \<and> fixnum_range (sint (mpz_get_si h x)) \<longleftrightarrow> fixnum_range (mpz_val h x)"
    and "fixnum_range (mpz_val h x) \<Longrightarrow> sint (mpz_get_si h x) = mpz_val h x"
  using mpz_get_si_exact [OF assms] mpz_fits_slong_p_iff [OF assms] by (auto simp: fixnum_range_iff)

lemma normalize_yields:
  assumes "mpz_ok (heap k) x" "x < avail k"
  shows "yields k (normalize_mpz k x) (mpz_val (heap k) x)"
proof (cases "fixnum_range (mpz_val (heap k) x)")
  case True
  then show ?thesis
    using fits_fixnum [OF assms(1)] yields_fixnum [of "mpz_get_si (heap k) x"] by (simp add: normalize_mpz_def)
next
  case False
  then have "normalize_mpz k x = Bignum_copy k x" using fits_fixnum [OF assms(1)] by (auto simp: normalize_mpz_def)
  moreover have "writes (heap k) (mpz_init_set (heap k) (avail k) x) (avail k) (mpz_val (heap k) x)"
    using assms by (intro mpz_init_set_writes) auto
  ultimately show ?thesis using yields_bignum False by (simp add: Bignum_copy_def new_var_def)
qed

lemma normalize_local:
  assumes "avail k \<le> x" "writes (heap k) h x n"
  shows "yields k (normalize_mpz (k\<lparr>avail := Suc x, heap := h\<rparr>) x) n"
  using normalize_yields [of "k\<lparr>avail := Suc x, heap := h\<rparr>" x] yields_trans [OF extends_writes [OF assms]] assms(2)
  by (simp add: writes_ok writes_val)

lemma move_local:
  assumes "writes (heap k) h (avail k) n" "\<not> fixnum_range n"
  shows "yields k (Bignum_move (k\<lparr>avail := Suc (avail k), heap := h\<rparr>) (avail k)) n"
proof -
  let ?x = "avail k"
  define h' where "h' = set_var (set_var h (Suc ?x) (vars h ?x)) ?x \<lparr>mp_alloc = 0, mp_size = 0, mp_d = []\<rparr>"
  have "mpz_ok h' (Suc ?x) = mpz_ok h ?x" "mpz_val h' (Suc ?x) = mpz_val h ?x"
    by (simp_all add: h'_def mpz_ok_def mpz_val_def mag_def ABSIZ_def)
  moreover have "\<forall>y < ?x. vars h' y = vars (heap k) y" using assms(1) by (auto simp: h'_def writes_def)
  ultimately show ?thesis
    using assms
    by (simp add: Bignum_move_def new_var_def yields_def extends_def writes_ok writes_val flip: h'_def)
qed

text \<open>An operation in place on a local copy of a bignum, or on a fresh local variable.\<close>

lemma copy_writes_local:
  assumes "int_value k (Bignum_ref z)"
  shows "writes (heap k) (mpz_init_set (heap k) (avail k) z) (avail k) (int_of k (Bignum_ref z))"
  using assms mpz_init_set_writes [of "heap k" z "avail k"] by auto

lemma local_keeps:
  assumes "int_value k (Bignum_ref b)" "writes (heap k) h x n" "avail k \<le> x"
  shows "mpz_ok h b" "mpz_val h b = int_of k (Bignum_ref b)" "b \<noteq> x"
proof -
  show "b \<noteq> x" using assms by auto
  then have "vars h b = vars (heap k) b" using writes_other [OF assms(2)] by simp
  then show "mpz_ok h b" "mpz_val h b = int_of k (Bignum_ref b)"
    using assms(1) mpz_ok_cong [of h b "heap k"] mpz_val_cong [of h b "heap k"] by simp_all
qed


lemma uint_of_nonneg: "0 \<le> sint (n :: limb) \<Longrightarrow> uint n = sint n"
proof -
  assume "0 \<le> sint n"
  then have "uint n < 2 ^ 63" by (rule sint_limb_nonneg_iff [THEN iffD1])
  then show ?thesis by (simp add: sint_limb)
qed

lemma uint_of_negated: "sint (n :: limb) < 0 \<Longrightarrow> uint (- n) = - sint n"
  using uint_neg_of_sint [of n] by simp

lemma add_signed_writes:
  assumes "mpz_ok st w" "mpz_ok st u"
  shows "writes st (if sint n \<ge> 0 then mpz_add_ui st w u n else mpz_sub_ui st w u (- n)) w (mpz_val st u + sint n)"
    and "writes st (if sint n \<ge> 0 then mpz_sub_ui st w u n else mpz_add_ui st w u (- n)) w (mpz_val st u - sint n)"
  using add_ui.op_writes [OF assms, of n] sub_ui.op_writes [OF assms, of "- n"] sub_ui.op_writes [OF assms, of n]
    add_ui.op_writes [OF assms, of "- n"] uint_of_nonneg [of n] uint_of_negated [of n] by auto

lemma writes_in_place:
  assumes "writes st h w m" "\<And>st. mpz_ok st w \<Longrightarrow> writes st (op st) w (f (mpz_val st w))"
  shows "writes st (op h) w (f m)"
  using writes_trans [OF assms(1) assms(2) [OF writes_ok [OF assms(1)]]] writes_val [OF assms(1)] by simp

text \<open>The binary operations: the destination is the local copy, the other operand an older bignum.\<close>

context mpz_binary begin

lemma local_writes:
  assumes "writes (heap k) h x m" "avail k \<le> x" "int_value k (Bignum_ref b)"
  shows "writes (heap k) (op h x x b) x (f m (int_of k (Bignum_ref b)))"
  using writes_trans [OF assms(1) op_writes [of h x x b]] local_keeps [OF assms(3,1,2)] writes_ok [OF assms(1)] writes_val [OF assms(1)]
  by simp

end

lemma Bignum_add_long_yields:
  assumes "int_value k (Bignum_ref z)"
  shows "yields k (Bignum_add_long k z n) (int_of k (Bignum_ref z) + sint n)"
proof -
  let ?x = "avail k"
  define h where "h = (if sint n \<ge> 0 then mpz_add_ui (mpz_init_set (heap k) ?x z) ?x ?x n
                      else mpz_sub_ui (mpz_init_set (heap k) ?x z) ?x ?x (- n))"
  have h: "writes (heap k) h ?x (int_of k (Bignum_ref z) + sint n)"
    unfolding h_def by (rule writes_in_place [OF copy_writes_local [OF assms]]) (rule add_signed_writes)
  note fits = fits_fixnum [OF writes_ok [OF h], unfolded writes_val [OF h]]
  have e: "Bignum_add_long k z n =
      (if fixnum_range (int_of k (Bignum_ref z) + sint n) then (make_fixnum (mpz_get_si h ?x), k\<lparr>avail := Suc ?x, heap := h\<rparr>)
       else Bignum_move (k\<lparr>avail := Suc ?x, heap := h\<rparr>) ?x)"
    unfolding Bignum_add_long_def new_var_def Let_def prod.case heap_set_avail h_def [symmetric] fits(1) ..
  show ?thesis
  proof (cases "fixnum_range (int_of k (Bignum_ref z) + sint n)")
    case True
    then show ?thesis
      using e fits(2) yields_trans [OF extends_writes [OF le_refl h] yields_fixnum] by simp
  next
    case False
    then show ?thesis using e move_local [OF h] by simp
  qed
qed

lemma Bignum_subtract_long_yields:
  assumes "int_value k (Bignum_ref z)"
  shows "yields k (Bignum_subtract_long k z n) (int_of k (Bignum_ref z) - sint n)"
proof -
  let ?x = "avail k"
  have "writes (heap k) (if sint n \<ge> 0 then mpz_sub_ui (mpz_init_set (heap k) ?x z) ?x ?x n
      else mpz_add_ui (mpz_init_set (heap k) ?x z) ?x ?x (- n)) ?x (int_of k (Bignum_ref z) - sint n)"
    by (rule writes_in_place [OF copy_writes_local [OF assms]]) (rule add_signed_writes)
  from normalize_local [OF le_refl this] show ?thesis
    unfolding Bignum_subtract_long_def new_var_def Let_def prod.case heap_set_avail by simp
qed

lemma Bignum_add_yields:
  assumes "int_value k (Bignum_ref z)" "int_value k (Bignum_ref b)"
  shows "yields k (Bignum_add k z b) (int_of k (Bignum_ref z) + int_of k (Bignum_ref b))"
  using normalize_local [OF le_refl add.local_writes [OF copy_writes_local [OF assms(1)] le_refl assms(2)]]
  by (simp add: Bignum_add_def new_var_def)

lemma Bignum_subtract_yields:
  assumes "int_value k (Bignum_ref z)" "int_value k (Bignum_ref b)"
  shows "yields k (Bignum_subtract k z b) (int_of k (Bignum_ref z) - int_of k (Bignum_ref b))"
  using normalize_local [OF le_refl sub.local_writes [OF copy_writes_local [OF assms(1)] le_refl assms(2)]]
  by (simp add: Bignum_subtract_def new_var_def)

lemma Bignum_multiply_long_yields:
  assumes "int_value k (Bignum_ref z)"
  shows "yields k (Bignum_multiply_long k z n) (int_of k (Bignum_ref z) * sint n)"
proof -
  have "writes (heap k) (mpz_mul_si (mpz_init_set (heap k) (avail k) z) (avail k) (avail k) n) (avail k)
      (int_of k (Bignum_ref z) * sint n)"
    by (rule writes_in_place [OF copy_writes_local [OF assms]]) (rule mul_si.op_writes)
  from normalize_local [OF le_refl this] show ?thesis by (simp add: Bignum_multiply_long_def new_var_def)
qed

lemma Bignum_negate_yields:
  assumes "int_value k (Bignum_ref z)"
  shows "yields k (Bignum_negate k z) (- int_of k (Bignum_ref z))"
proof -
  let ?h = "mpz_init (heap k) (avail k)"
  have i: "writes (heap k) ?h (avail k) 0" by (rule mpz_init_writes)
  have "writes (heap k) (mpz_neg ?h (avail k) z) (avail k) (- int_of k (Bignum_ref z))"
    using writes_trans [OF i neg.op_writes [of ?h "avail k" z]] local_keeps [OF assms i le_refl] writes_ok [OF i] by simp
  from normalize_local [OF le_refl this] show ?thesis by (simp add: Bignum_negate_def new_var_def)
qed

text \<open>The number of limbs of an integer, which bounds the operands of a product.\<close>

fun limbs :: "kernel \<Rightarrow> Value \<Rightarrow> nat" where
  "limbs k (Bignum_ref z) = ABSIZ (heap k) z"
| "limbs k _ = 1"

lemma Bignum_multiply_yields:
  assumes "int_value k (Bignum_ref z)" "int_value k (Bignum_ref b)"
    and "below_toom cfg (limbs k (Bignum_ref z) + limbs k (Bignum_ref b))"
  shows "yields k (Bignum_multiply cfg k z b) (int_of k (Bignum_ref z) * int_of k (Bignum_ref b))"
proof -
  let ?x = "avail k"
  let ?h = "mpz_init_set (heap k) ?x z"
  note c = copy_writes_local [OF assms(1)]
  note b = local_keeps [OF assms(2) c le_refl]
  have size: "ABSIZ ?h ?x \<le> ABSIZ (heap k) z" "ABSIZ ?h b = ABSIZ (heap k) b"
    using size_le_iff [OF writes_ok [OF c], of "ABSIZ (heap k) z"] size_le_iff [of "heap k" z "ABSIZ (heap k) z"] assms(1)
      writes_val [OF c] writes_other [OF c b(3)] by (simp, simp add: ABSIZ_def)
  have "writes ?h (mpz_mul cfg ?h ?x ?x b) ?x (mpz_val ?h ?x * mpz_val ?h b)"
    using below_toom_mono [OF assms(3)] size by (intro mpz_mul_below_writes writes_ok [OF c] b(1)) simp
  then have "writes (heap k) (mpz_mul cfg ?h ?x ?x b) ?x (int_of k (Bignum_ref z) * int_of k (Bignum_ref b))"
    using writes_trans [OF c] writes_val [OF c] b(2) by simp
  from normalize_local [OF le_refl this] show ?thesis by (simp add: Bignum_multiply_def new_var_def)
qed

subsection \<open>Predicates\<close>

lemma Bignum_sign:
  assumes "int_value k (Bignum_ref z)"
  shows "Bignum_plusp k z \<longleftrightarrow> 0 < int_of k (Bignum_ref z)" "Bignum_minusp k z \<longleftrightarrow> int_of k (Bignum_ref z) < 0"
  using assms sgn_mpz_val [of "heap k" z]
  by (auto simp: Bignum_plusp_def Bignum_minusp_def mpz_sgn_def sgn_if split: if_splits)

lemma Bignum_above: "int_value k (Bignum_ref z) \<Longrightarrow> fixnum_range n \<Longrightarrow>
    (n < int_of k (Bignum_ref z) \<longleftrightarrow> 0 < int_of k (Bignum_ref z)) \<and> (int_of k (Bignum_ref z) < n \<longleftrightarrow> int_of k (Bignum_ref z) < 0)"
  by (auto simp: fixnum_range_iff)

lemma mpz_odd_p_iff: "mpz_ok st z \<Longrightarrow> mpz_odd_p st z \<longleftrightarrow> odd (mpz_val st z)"
proof (cases "SIZ st z = 0")
  case False
  assume ok: "mpz_ok st z"
  have "mag st z = PTR st z ! 0 # tl (mag st z)"
    using mag_Cons [OF ok False] by simp
  then have "lval (mag st z) = uint (PTR st z ! 0) + B * lval (tl (mag st z))" by (metis lval.simps(2))
  then have "odd (lval (mag st z)) \<longleftrightarrow> odd (uint (PTR st z ! 0))" by (simp add: B_def)
  moreover have "odd (mpz_val st z) \<longleftrightarrow> odd (lval (mag st z))" using lval_mag_abs [OF ok] by simp
  moreover have "(1 AND PTR st z ! 0) \<noteq> 0 \<longleftrightarrow> odd (uint (PTR st z ! 0))"
    by (simp add: one_and_eq limb_ne_0_iff uint_mod odd_iff_mod_2_eq_one) presburger
  ultimately show ?thesis using False by (simp add: mpz_odd_p_def)
qed (simp add: mpz_odd_p_def)

lemma yields_unfold:
  assumes "yields k r n"
  shows "int_value (snd r) (fst r) \<and> int_of (snd r) (fst r) = n \<and> (fixnump (fst r) \<longleftrightarrow> fixnum_range n)
    \<and> (\<forall>u. int_value k u \<longrightarrow> int_value (snd r) u \<and> int_of (snd r) u = int_of k u)"
proof -
  have "fixnump (fst r) \<longleftrightarrow> fixnum_range n"
    using assms fixnump_range [of "fst r"] by (cases "fst r") (auto simp: yields_def)
  then show ?thesis using assms extends_value [of k "snd r"] by (auto simp: yields_def)
qed

lemma returns_unfold:
  assumes "returns k res n"
  shows "\<exists>v k'. res = Inr (v, k') \<and> int_value k' v \<and> int_of k' v = n
    \<and> (fixnump v \<longleftrightarrow> fixnum_range (int_of k' v)) \<and> (\<forall>u. int_value k u \<longrightarrow> int_value k' u \<and> int_of k' u = int_of k u)"
proof -
  obtain v k' where "res = Inr (v, k')" "yields k (v, k') n" using assms by (auto simp: returns_def)
  then show ?thesis using yields_unfold [of k "(v, k')" n] by auto
qed

text \<open>The two kinds of integer, with the facts that hold of each; the representation stays folded.\<close>

lemma int_cases [consumes 1, case_names fixnum bignum]:
  assumes "int_value k a"
  obtains (fixnum) w where "a = Fixnum w" "int_value k (Fixnum w)" "fixnum_range (sint (xlong (Fixnum w)))"
  | (bignum) z where "a = Bignum_ref z" "int_value k (Bignum_ref z)"
  using assms fixnum_int by (cases a) auto

declare xlong.simps(1) [simp del] fixnump.simps(1) [simp del] int_value.simps(1,2) [simp del] int_of.simps(2) [simp del]

end
