(* ===== verification/Kernel_Arith.thy ===== *)
theory Kernel_Arith
  imports Kernel_Value
begin

text \<open>
  Addition, subtraction, multiplication, sign and comparison of Lisp numbers on integers
  (\<^verbatim>\<open>kernel/numbers.cpp\<close>). The branches for ratios, floats and complex numbers are a parameter,
  \<open>rest\<close>, of each function: they call rational and floating point code that is not modelled. The
  branches for fixnums and bignums, the type errors of non-numbers and the n-ary functions are
  translated. The locale \<open>integer_op\<close> is the contract of a two-argument integer function, from
  which its n-ary form follows once.
\<close>

subsection \<open>Sums and differences\<close>

definition negate :: "(kernel \<Rightarrow> Value \<Rightarrow> kvalue) \<Rightarrow> kernel \<Rightarrow> Value \<Rightarrow> kvalue" where
  "negate rest k arg =
     (case arg of
        Fixnum w \<Rightarrow>
          (let n = xlong arg
           in if sint n = MOST_NEGATIVE_FIXNUM then Inr (make_integer k (- n)) else Inr (make_fixnum (- n), k))
      | Bignum_ref z \<Rightarrow> Inr (Bignum_negate k z)
      | Other c i \<Rightarrow> if numberp arg then rest k arg else Inl (Type_error arg S_number))"

definition SYS_negate :: "(kernel \<Rightarrow> Value \<Rightarrow> kvalue) \<Rightarrow> kernel \<Rightarrow> Value \<Rightarrow> kvalue" where
  "SYS_negate rest k arg =
     (case arg of
        Fixnum w \<Rightarrow>
          (let n = xlong arg
           in if sint n = MOST_NEGATIVE_FIXNUM then Inr (make_integer k (- n)) else Inr (make_fixnum (- n), k))
      | Bignum_ref z \<Rightarrow> Inr (Bignum_negate k z)
      | Other c i \<Rightarrow> if numberp arg then rest k arg else Inl (Type_error arg S_number))"

definition SYS_two_arg_plus :: "(kernel \<Rightarrow> Value \<Rightarrow> Value \<Rightarrow> kvalue) \<Rightarrow> kernel \<Rightarrow> Value \<Rightarrow> Value \<Rightarrow> kvalue" where
  "SYS_two_arg_plus rest k v1 v2 =
     (case v1 of
        Fixnum w1 \<Rightarrow>
          (let n1 = xlong v1
           in case v2 of
                Fixnum w2 \<Rightarrow>
                  (let n = n1 + xlong v2
                   in if fixnum_range (sint n) then Inr (make_fixnum n, k) else Inr (Bignum_long k n))
              | Bignum_ref z2 \<Rightarrow> Inr (Bignum_add_long k z2 n1)
              | Other c i \<Rightarrow> if numberp v2 then rest k v1 v2 else Inl (Type_error v2 S_number))
      | Bignum_ref z1 \<Rightarrow>
          (case v2 of
             Fixnum w2 \<Rightarrow> Inr (Bignum_add_long k z1 (xlong v2))
           | Bignum_ref z2 \<Rightarrow> Inr (Bignum_add k z1 z2)
           | Other c i \<Rightarrow> if numberp v2 then rest k v1 v2 else Inl (Type_error v2 S_number))
      | Other c i \<Rightarrow> if numberp v1 then rest k v1 v2 else Inl (Type_error v1 S_number))"

definition SYS_two_arg_minus ::
  "(kernel \<Rightarrow> Value \<Rightarrow> Value \<Rightarrow> kvalue) \<Rightarrow> (kernel \<Rightarrow> Value \<Rightarrow> Value \<Rightarrow> kvalue) \<Rightarrow> kernel \<Rightarrow> Value \<Rightarrow> Value \<Rightarrow> kvalue" where
  "SYS_two_arg_minus plus_rest rest k v1 v2 =
     (case v1 of
        Fixnum w1 \<Rightarrow>
          (case v2 of
             Fixnum w2 \<Rightarrow>
               (let n = xlong v1 - xlong v2
                in if fixnum_range (sint n) then Inr (make_fixnum n, k) else Inr (Bignum_long k n))
           | Bignum_ref z2 \<Rightarrow> (let (m, k) = Bignum_negate k z2 in SYS_two_arg_plus plus_rest k m v1)
           | Other c i \<Rightarrow> if numberp v2 then rest k v1 v2 else Inl (Type_error v2 S_number))
      | Bignum_ref z1 \<Rightarrow>
          (case v2 of
             Fixnum w2 \<Rightarrow> Inr (Bignum_subtract_long k z1 (xlong v2))
           | Bignum_ref z2 \<Rightarrow> Inr (Bignum_subtract k z1 z2)
           | Other c i \<Rightarrow> if numberp v2 then rest k v1 v2 else Inl (Type_error v2 S_number))
      | Other c i \<Rightarrow> if numberp v1 then rest k v1 v2 else Inl (Type_error v1 S_number))"

definition INT_range :: "int \<Rightarrow> bool" where
  "INT_range n \<longleftrightarrow> - (2 ^ 31) \<le> n \<and> n \<le> 2 ^ 31 - 1"

definition SYS_two_arg_star ::
  "mul_config \<Rightarrow> (kernel \<Rightarrow> Value \<Rightarrow> Value \<Rightarrow> kvalue) \<Rightarrow> kernel \<Rightarrow> Value \<Rightarrow> Value \<Rightarrow> kvalue" where
  "SYS_two_arg_star cfg rest k v1 v2 =
     (case v1 of
        Fixnum w1 \<Rightarrow>
          (case v2 of
             Fixnum w2 \<Rightarrow>
               (let n1 = xlong v1; n2 = xlong v2
                in if INT_range (sint n1) \<and> INT_range (sint n2) then
                     (let prd = n1 * n2
                      in if fixnum_range (sint prd) then Inr (make_fixnum prd, k) else Inr (Bignum_long k prd))
                   else
                     (let (res, k) = new_var k;
                          h = mpz_init_set_si (heap k) res (xlong v1);
                          h = mpz_mul_si h res res (xlong v2)
                      in Inr (normalize_mpz (k\<lparr>heap := h\<rparr>) res)))
           | Bignum_ref z2 \<Rightarrow> Inr (Bignum_multiply_long k z2 (xlong v1))
           | Other c i \<Rightarrow> if numberp v2 then rest k v1 v2 else Inl (Type_error v2 S_number))
      | Bignum_ref z1 \<Rightarrow>
          (case v2 of
             Fixnum w2 \<Rightarrow> Inr (Bignum_multiply_long k z1 (xlong v2))
           | Bignum_ref z2 \<Rightarrow> Inr (Bignum_multiply cfg k z1 z2)
           | Other c i \<Rightarrow> if numberp v2 then rest k v1 v2 else Inl (Type_error v2 S_number))
      | Other c i \<Rightarrow> if numberp v1 then rest k v1 v2 else Inl (Type_error v1 S_number))"

text \<open>The loops of the n-ary functions.\<close>

fun fold_args :: "(kernel \<Rightarrow> Value \<Rightarrow> Value \<Rightarrow> kvalue) \<Rightarrow> kernel \<Rightarrow> Value \<Rightarrow> Value list \<Rightarrow> kvalue" where
  "fold_args op k res [] = Inr (res, k)"
| "fold_args op k res (arg # args) =
     (case op k res arg of Inl e \<Rightarrow> Inl e | Inr (res, k) \<Rightarrow> fold_args op k res args)"

definition CL_add :: "(kernel \<Rightarrow> Value \<Rightarrow> Value \<Rightarrow> kvalue) \<Rightarrow> kernel \<Rightarrow> Value list \<Rightarrow> kvalue" where
  "CL_add rest k args =
     (case args of
        [] \<Rightarrow> Inr (Fixnum 0, k)
      | [a] \<Rightarrow> if numberp a then Inr (a, k) else Inl (Type_error a S_number)
      | [a, b] \<Rightarrow> SYS_two_arg_plus rest k a b
      | _ \<Rightarrow> fold_args (SYS_two_arg_plus rest) k (make_fixnum 0) args)"

definition CL_subtract ::
  "(kernel \<Rightarrow> Value \<Rightarrow> kvalue) \<Rightarrow> (kernel \<Rightarrow> Value \<Rightarrow> Value \<Rightarrow> kvalue) \<Rightarrow> (kernel \<Rightarrow> Value \<Rightarrow> Value \<Rightarrow> kvalue)
     \<Rightarrow> kernel \<Rightarrow> Value list \<Rightarrow> kvalue" where
  "CL_subtract neg_rest plus_rest rest k args =
     (case args of
        [] \<Rightarrow> Inl (Wrong_number_of_arguments 0)
      | [a] \<Rightarrow> SYS_negate neg_rest k a
      | [a, b] \<Rightarrow> SYS_two_arg_minus plus_rest rest k a b
      | a # as \<Rightarrow> fold_args (SYS_two_arg_minus plus_rest rest) k a as)"

definition CL_multiply :: "mul_config \<Rightarrow> (kernel \<Rightarrow> Value \<Rightarrow> Value \<Rightarrow> kvalue) \<Rightarrow> kernel \<Rightarrow> Value list \<Rightarrow> kvalue" where
  "CL_multiply cfg rest k args =
     (case args of
        [] \<Rightarrow> Inr (make_fixnum 1, k)
      | [a] \<Rightarrow> if numberp a then Inr (a, k) else Inl (Type_error a S_number)
      | [a, b] \<Rightarrow> SYS_two_arg_star cfg rest k a b
      | a # as \<Rightarrow> fold_args (SYS_two_arg_star cfg rest) k a as)"

definition CL_one_plus :: "(kernel \<Rightarrow> Value \<Rightarrow> Value \<Rightarrow> kvalue) \<Rightarrow> kernel \<Rightarrow> Value \<Rightarrow> kvalue" where
  "CL_one_plus rest k arg = SYS_two_arg_plus rest k arg (make_fixnum 1)"

definition CL_one_minus ::
  "(kernel \<Rightarrow> Value \<Rightarrow> Value \<Rightarrow> kvalue) \<Rightarrow> (kernel \<Rightarrow> Value \<Rightarrow> Value \<Rightarrow> kvalue) \<Rightarrow> kernel \<Rightarrow> Value \<Rightarrow> kvalue" where
  "CL_one_minus plus_rest rest k arg = SYS_two_arg_minus plus_rest rest k arg (make_fixnum 1)"

subsection \<open>The contract of a two-argument function\<close>

text \<open>
  \<open>guard\<close> restricts the operands for which the function is known to be exact; \<open>guarded\<close> asks it of every
  step of a left fold.
\<close>

fun guarded :: "(int \<Rightarrow> int \<Rightarrow> bool) \<Rightarrow> (int \<Rightarrow> int \<Rightarrow> int) \<Rightarrow> int \<Rightarrow> int list \<Rightarrow> bool" where
  "guarded guard f r [] \<longleftrightarrow> True"
| "guarded guard f r (a # as) \<longleftrightarrow> guard r a \<and> guarded guard f (f r a) as"

lemma guarded_True [simp]: "guarded (\<lambda>_ _. True) f r as"
  by (induction as arbitrary: r) simp_all

locale guarded_op =
  fixes op :: "kernel \<Rightarrow> Value \<Rightarrow> Value \<Rightarrow> kvalue" and f :: "int \<Rightarrow> int \<Rightarrow> int" and guard :: "int \<Rightarrow> int \<Rightarrow> bool"
  assumes guarded_returns: "int_value k a \<Longrightarrow> int_value k b \<Longrightarrow> guard (int_of k a) (int_of k b) \<Longrightarrow>
    returns k (op k a b) (f (int_of k a) (int_of k b))"
begin

lemma guarded_fold:
  assumes "int_value k r" "\<And>a. a \<in> set as \<Longrightarrow> int_value k a" "guarded guard f (int_of k r) (map (int_of k) as)"
  shows "returns k (fold_args op k r as) (foldl f (int_of k r) (map (int_of k) as))"
  using assms
proof (induction as arbitrary: k r)
  case Nil
  then show ?case by (simp add: returns_def yields_def)
next
  case (Cons a as)
  obtain r1 k1 where r1: "op k r a = Inr (r1, k1)" "yields k (r1, k1) (f (int_of k r) (int_of k a))"
    using guarded_returns [of k r a] Cons.prems by (auto simp: returns_def)
  then have v: "int_value k1 r1" "int_of k1 r1 = f (int_of k r) (int_of k a)" and e: "extends k k1"
    by (simp_all add: yields_def)
  have m: "map (int_of k1) as = map (int_of k) as" using extends_value(2) [OF e] Cons.prems(2) by simp
  have "returns k1 (fold_args op k1 r1 as) (foldl f (int_of k1 r1) (map (int_of k1) as))"
    using Cons.prems(2,3) extends_value(1) [OF e] v(2) m by (intro Cons.IH v(1)) (simp_all del: map_eq_conv)
  then show ?case using r1(1) v(2) m returns_trans [OF e] by (simp del: map_eq_conv)
qed

lemma arguments_unchanged:
  assumes "int_value k a" "int_value k b" "guard (int_of k a) (int_of k b)" "op k a b = Inr (r, k')" "int_value k v"
  shows "int_of k' v = int_of k v" "int_value k' v"
proof -
  have "extends k k'" using guarded_returns [OF assms(1-3)] assms(4) by (auto simp: returns_def yields_def)
  then show "int_of k' v = int_of k v" "int_value k' v" using extends_value assms(5) by blast+
qed

end

locale integer_op =
  fixes op :: "kernel \<Rightarrow> Value \<Rightarrow> Value \<Rightarrow> kvalue" and f :: "int \<Rightarrow> int \<Rightarrow> int"
  assumes op_returns: "int_value k a \<Longrightarrow> int_value k b \<Longrightarrow> returns k (op k a b) (f (int_of k a) (int_of k b))"

sublocale integer_op \<subseteq> guarded_op op f "\<lambda>_ _. True"
  by unfold_locales (rule op_returns)

context integer_op begin

lemma fold_returns:
  assumes "int_value k r" "\<And>a. a \<in> set as \<Longrightarrow> int_value k a"
  shows "returns k (fold_args op k r as) (foldl f (int_of k r) (map (int_of k) as))"
  using guarded_fold [OF assms] by simp

end

subsection \<open>Sums, differences and products are exact\<close>

lemma long_small: "fixnum_range (sint (a :: limb)) \<Longrightarrow> fixnum_range (sint b) \<Longrightarrow>
    sint (a + b) = sint a + sint b \<and> sint (a - b) = sint a - sint b \<and> sint (- a) = - sint a"
  using long_exact(2,3) [of a b] long_exact(5) [of a] by (simp add: fixnum_range_iff)

lemma yields_long: "sint n = m \<Longrightarrow>
    yields k (if fixnum_range (sint n) then (make_fixnum n, k) else Bignum_long k n) m"
  using make_integer_yields [of k n] by (simp add: make_integer_def)

lemma SYS_negate_returns:
  assumes "int_value k a"
  shows "returns k (SYS_negate rest k a) (- int_of k a)"
  using assms
proof (cases rule: int_cases)
  case (fixnum w)
  let ?n = "xlong (Fixnum w)"
  have n: "sint (- ?n) = - sint ?n" using long_small [of ?n ?n] fixnum by simp
  then have "fixnum_range (sint (- ?n))" if "sint ?n \<noteq> MOST_NEGATIVE_FIXNUM"
    using that fixnum by (auto simp: fixnum_range_def MOST_POSITIVE_FIXNUM_def MOST_NEGATIVE_FIXNUM_def)
  then show ?thesis
    using fixnum n make_integer_yields [of k "- ?n"] yields_fixnum [of "- ?n" "- sint ?n" k]
    by (auto simp: SYS_negate_def Let_def intro!: returnsI)
next
  case (bignum z)
  then show ?thesis using Bignum_negate_yields [of k z] by (simp add: SYS_negate_def returnsI)
qed

lemma negate_eq: "negate = SYS_negate"
  by (intro ext) (simp add: negate_def SYS_negate_def)

lemma SYS_two_arg_plus_returns:
  assumes "int_value k a" "int_value k b"
  shows "returns k (SYS_two_arg_plus rest k a b) (int_of k a + int_of k b)"
  using assms(1)
proof (cases rule: int_cases)
  case a: (fixnum v)
  from assms(2) show ?thesis
  proof (cases rule: int_cases)
    case b: (fixnum w)
    show ?thesis
      using a b long_small yields_long [of "xlong a + xlong b" "int_of k a + int_of k b" k]
      by (auto simp: SYS_two_arg_plus_def Let_def intro!: returnsI split: if_splits)
  next
    case b: (bignum z)
    show ?thesis
      using a b returnsI [OF Bignum_add_long_yields [OF b(2), of "xlong a"]] by (simp add: SYS_two_arg_plus_def add.commute)
  qed
next
  case a: (bignum y)
  from assms(2) show ?thesis
    by (cases rule: int_cases)
      (use a Bignum_add_long_yields [of k y] Bignum_add_yields [of k y] in \<open>simp_all add: SYS_two_arg_plus_def returnsI\<close>)
qed

interpretation plus: integer_op "SYS_two_arg_plus rest" "(+)" for rest
  by unfold_locales (rule SYS_two_arg_plus_returns)

lemma SYS_two_arg_minus_returns:
  assumes "int_value k a" "int_value k b"
  shows "returns k (SYS_two_arg_minus plus_rest rest k a b) (int_of k a - int_of k b)"
  using assms(1)
proof (cases rule: int_cases)
  case a: (fixnum v)
  from assms(2) show ?thesis
  proof (cases rule: int_cases)
    case b: (fixnum w)
    show ?thesis
      using a b long_small yields_long [of "xlong a - xlong b" "int_of k a - int_of k b" k]
      by (auto simp: SYS_two_arg_minus_def Let_def intro!: returnsI split: if_splits)
  next
    case b: (bignum z)
    obtain m k1 where m: "Bignum_negate k z = (m, k1)" by fastforce
    have y: "int_value k1 m" "int_of k1 m = - int_of k b" "extends k k1"
      using Bignum_negate_yields [of k z] b m by (simp_all add: yields_def)
    have "returns k1 (SYS_two_arg_plus plus_rest k1 m a) (- int_of k b + int_of k a)"
      using SYS_two_arg_plus_returns [OF y(1) extends_value(1) [OF y(3) assms(1)]] extends_value(2) [OF y(3) assms(1)] y(2)
      by simp
    then show ?thesis using returns_trans [OF y(3)] m a(1) b(1) by (simp add: SYS_two_arg_minus_def)
  qed
next
  case a: (bignum y)
  from assms(2) show ?thesis
    by (cases rule: int_cases)
      (use a Bignum_subtract_long_yields [of k y] Bignum_subtract_yields [of k y] in \<open>simp_all add: SYS_two_arg_minus_def returnsI\<close>)
qed

interpretation minus: integer_op "SYS_two_arg_minus plus_rest rest" "(-)" for plus_rest rest
  by unfold_locales (rule SYS_two_arg_minus_returns)

lemma INT_product:
  assumes "INT_range (sint (a :: limb))" "INT_range (sint b)"
  shows "sint (a * b) = sint a * sint b"
proof -
  have "\<bar>sint a\<bar> \<le> 2 ^ 31" "\<bar>sint b\<bar> \<le> 2 ^ 31" using assms by (auto simp: INT_range_def)
  then have "\<bar>sint a * sint b\<bar> \<le> 2 ^ 31 * 2 ^ 31" by (simp only: abs_mult) (intro mult_mono; simp)
  then show ?thesis by (intro long_exact(4)) auto
qed

lemma SYS_two_arg_star_returns:
  assumes "int_value k a" "int_value k b" "below_toom cfg (limbs k a + limbs k b)"
  shows "returns k (SYS_two_arg_star cfg rest k a b) (int_of k a * int_of k b)"
  using assms(1)
proof (cases rule: int_cases)
  case a: (fixnum v)
  from assms(2) show ?thesis
  proof (cases rule: int_cases)
    case b: (fixnum w)
    let ?x = "avail k"
    have "writes (heap k) (mpz_mul_si (mpz_init_set_si (heap k) ?x (xlong a)) ?x ?x (xlong b)) ?x (int_of k a * int_of k b)"
      using writes_in_place [OF mpz_init_set_si_writes [of "heap k" ?x "xlong a"] mul_si.op_writes] a(1) b(1) by simp
    note big = normalize_local [OF le_refl this]
    show ?thesis
      using a b INT_product [of "xlong a" "xlong b"] yields_long [of "xlong a * xlong b" "int_of k a * int_of k b" k] big
      by (auto simp: SYS_two_arg_star_def Let_def new_var_def intro!: returnsI split: if_splits)
  next
    case b: (bignum z)
    show ?thesis
      using a b returnsI [OF Bignum_multiply_long_yields [OF b(2), of "xlong a"]] by (simp add: SYS_two_arg_star_def mult.commute)
  qed
next
  case a: (bignum y)
  from assms(2) show ?thesis
    by (cases rule: int_cases)
      (use a assms(3) Bignum_multiply_long_yields [of k y] Bignum_multiply_yields [of k y] in
        \<open>simp_all add: SYS_two_arg_star_def returnsI\<close>)
qed

text \<open>Products whose operands are below \<open>B^m\<close>, with \<open>2 * m\<close> limbs below the Toom sizes.\<close>

definition product_scope :: "mul_config \<Rightarrow> int \<Rightarrow> int \<Rightarrow> bool" where
  "product_scope cfg a b \<longleftrightarrow> (\<exists>m. below_toom cfg (2 * m) \<and> 0 < m \<and> \<bar>a\<bar> < B ^ m \<and> \<bar>b\<bar> < B ^ m)"

lemma limbs_le: "int_value k a \<Longrightarrow> 0 < m \<Longrightarrow> \<bar>int_of k a\<bar> < B ^ m \<Longrightarrow> limbs k a \<le> m"
  using size_le_iff [of "heap k"] by (cases a) (auto simp: int_value.simps int_of.simps)

interpretation star: guarded_op "SYS_two_arg_star cfg rest" "(*)" "product_scope cfg" for cfg rest
proof unfold_locales
  fix k a b
  assume ok: "int_value k a" "int_value k b" and "product_scope cfg (int_of k a) (int_of k b)"
  then obtain m where m: "below_toom cfg (2 * m)" "0 < m" "\<bar>int_of k a\<bar> < B ^ m" "\<bar>int_of k b\<bar> < B ^ m"
    by (auto simp: product_scope_def)
  then have "limbs k a + limbs k b \<le> 2 * m" using limbs_le [OF ok(1) m(2,3)] limbs_le [OF ok(2) m(2,4)] by simp
  with m(1) show "returns k (SYS_two_arg_star cfg rest k a b) (int_of k a * int_of k b)"
    using ok below_toom_mono by (intro SYS_two_arg_star_returns) blast+
qed

subsection \<open>The n-ary functions\<close>

lemma int_value_numberp: "int_value k v \<Longrightarrow> numberp v"
  by (cases v) (simp_all add: integerp_def int_value.simps)

lemma returns_self: "int_value k a \<Longrightarrow> returns k (Inr (a, k)) (int_of k a)"
  by (simp add: returns_def yields_def)

lemma small_fixnum: "fixnum_range (sint n) \<Longrightarrow> int_value k (make_fixnum n) \<and> int_of k (make_fixnum n) = sint n"
  using yields_fixnum [of n "sint n" k] by (simp add: yields_def)

lemma fixnum_constants [simp]:
  "int_value k (make_fixnum 0)" "int_of k (make_fixnum 0) = 0" "int_value k (make_fixnum 1)" "int_of k (make_fixnum 1) = 1"
  "int_value k (make_fixnum (- 1))" "int_of k (make_fixnum (- 1)) = - 1"
  using small_fixnum [of 0 k] small_fixnum [of 1 k] small_fixnum [of "- 1" k] by (simp_all add: fixnum_range_iff)

lemma Fixnum_0: "Fixnum 0 = make_fixnum 0"
  by (simp add: make_fixnum_def)

lemma foldl_sum: "foldl (+) r xs = r + sum_list xs" for r :: int
  by (induction xs arbitrary: r) simp_all

lemma foldl_minus: "foldl (-) r xs = r - sum_list xs" for r :: int
  by (induction xs arbitrary: r) simp_all

lemma foldl_prod: "foldl (*) r xs = r * prod_list xs" for r :: int
  by (induction xs arbitrary: r) (simp_all add: mult.assoc)

lemma CL_add_returns:
  assumes "\<forall>a \<in> set args. int_value k a"
  shows "returns k (CL_add rest k args) (sum_list (map (int_of k) args))"
proof (cases args rule: remdups_adj.cases)
  case 1
  then show ?thesis using returns_self [of k "make_fixnum 0"] by (simp add: CL_add_def Fixnum_0)
next
  case (2 a)
  then show ?thesis using assms returns_self [of k a] int_value_numberp by (simp add: CL_add_def)
next
  case (3 a b as)
  have "returns k (fold_args (SYS_two_arg_plus rest) k (make_fixnum 0) args) (sum_list (map (int_of k) args))"
    using plus.fold_returns [of k "make_fixnum 0" args rest] assms by (simp add: foldl_sum)
  then show ?thesis
    using 3 assms plus.op_returns [of k a b rest] by (cases as) (simp_all add: CL_add_def)
qed

lemma CL_subtract_returns:
  assumes "\<forall>a \<in> set (a # as). int_value k a"
  shows "returns k (CL_subtract neg_rest plus_rest rest k (a # as))
    (if as = [] then - int_of k a else int_of k a - sum_list (map (int_of k) as))"
proof (cases as rule: remdups_adj.cases)
  case 1
  then show ?thesis using assms SYS_negate_returns [of k a neg_rest] by (simp add: CL_subtract_def)
next
  case (2 b)
  then show ?thesis using assms minus.op_returns [of k a b plus_rest rest] by (simp add: CL_subtract_def)
next
  case (3 b c cs)
  have "returns k (fold_args (SYS_two_arg_minus plus_rest rest) k a as) (int_of k a - sum_list (map (int_of k) as))"
    using assms minus.fold_returns [of k a as plus_rest rest] by (simp add: foldl_minus)
  then show ?thesis using 3 by (simp add: CL_subtract_def del: fold_args.simps sum_list.Cons)
qed

lemma CL_multiply_returns:
  assumes "\<forall>a \<in> set args. int_value k a" "args \<noteq> [] \<longrightarrow> guarded (product_scope cfg) (*) (int_of k (hd args)) (map (int_of k) (tl args))"
  shows "returns k (CL_multiply cfg rest k args) (prod_list (map (int_of k) args))"
proof (cases args rule: remdups_adj.cases)
  case 1
  then show ?thesis using returns_self [of k "make_fixnum 1"] by (simp add: CL_multiply_def)
next
  case (2 a)
  then show ?thesis using assms returns_self [of k a] int_value_numberp by (simp add: CL_multiply_def)
next
  case (3 a b as)
  then have "returns k (fold_args (SYS_two_arg_star cfg rest) k a (b # as)) (prod_list (map (int_of k) args))"
    using star.guarded_fold [of k a "b # as" cfg rest] assms by (simp add: foldl_prod mult.assoc)
  then show ?thesis
    using 3 assms star.guarded_returns [of k a b cfg rest] by (cases as) (simp_all add: CL_multiply_def)
qed

end
