(* ===== verification/Kernel_Compare.thy ===== *)
theory Kernel_Compare
  imports Kernel_Arith
begin

text \<open>
  Predicates, sign functions and comparisons of Lisp numbers on integers (\<^verbatim>\<open>kernel/numbers.cpp\<close>). \<^verbatim>\<open>T\<close>
  and \<^verbatim>\<open>NIL\<close> are Booleans. As in \<^verbatim>\<open>Kernel_Arith\<close>, \<open>rest\<close> stands for the branches on ratios, floats and
  complex numbers. A fixnum and a bignum are compared by the sign of the bignum alone: this is
  right because of the invariant that bignums lie outside the fixnum range. Two bignums are
  compared by \<^verbatim>\<open>mpz_cmp\<close>, exact for fewer than \<open>2^30\<close> limbs.
\<close>

subsection \<open>Predicates and sign\<close>

definition zerop :: "(kernel \<Rightarrow> Value \<Rightarrow> bool result) \<Rightarrow> kernel \<Rightarrow> Value \<Rightarrow> bool result" where
  "zerop rest k arg =
     (if arg = Fixnum 0 then Inr True
      else case arg of
        Fixnum w \<Rightarrow> Inr False
      | Bignum_ref z \<Rightarrow> Inr False
      | Other c i \<Rightarrow> if c = RATIO then Inr False else if numberp arg then rest k arg else Inl (Type_error arg S_number))"

definition CL_evenp :: "kernel \<Rightarrow> Value \<Rightarrow> bool result" where
  "CL_evenp k arg =
     (case arg of
        Fixnum w \<Rightarrow> Inr (xlong arg AND 1 = 0)
      | Bignum_ref z \<Rightarrow> Inr (mpz_even_p (heap k) z)
      | Other c i \<Rightarrow> Inl (Type_error arg S_integer))"

definition CL_oddp :: "kernel \<Rightarrow> Value \<Rightarrow> bool result" where
  "CL_oddp k arg =
     (case arg of
        Fixnum w \<Rightarrow> Inr (xlong arg AND 1 \<noteq> 0)
      | Bignum_ref z \<Rightarrow> Inr (mpz_odd_p (heap k) z)
      | Other c i \<Rightarrow> Inl (Type_error arg S_integer))"

definition plusp :: "(kernel \<Rightarrow> Value \<Rightarrow> bool result) \<Rightarrow> kernel \<Rightarrow> Value \<Rightarrow> bool result" where
  "plusp rest k arg =
     (case arg of
        Fixnum w \<Rightarrow> Inr (0 < sint w)
      | Bignum_ref z \<Rightarrow> Inr (Bignum_plusp k z)
      | Other c i \<Rightarrow> if realp arg then rest k arg else Inl (Type_error arg S_real))"

definition minusp :: "(kernel \<Rightarrow> Value \<Rightarrow> bool result) \<Rightarrow> kernel \<Rightarrow> Value \<Rightarrow> bool result" where
  "minusp rest k arg =
     (case arg of
        Fixnum w \<Rightarrow> Inr (sint w < 0)
      | Bignum_ref z \<Rightarrow> Inr (Bignum_minusp k z)
      | Other c i \<Rightarrow> if realp arg then rest k arg else Inl (Type_error arg S_real))"

definition CL_abs :: "(kernel \<Rightarrow> Value \<Rightarrow> kvalue) \<Rightarrow> kernel \<Rightarrow> Value \<Rightarrow> kvalue" where
  "CL_abs rest k arg =
     (case arg of
        Fixnum w \<Rightarrow> (let n = xlong arg in if sint n < 0 then Inr (make_integer k (- n)) else Inr (arg, k))
      | Bignum_ref z \<Rightarrow> if Bignum_minusp k z then Inr (Bignum_negate k z) else Inr (arg, k)
      | Other c i \<Rightarrow> if numberp arg then rest k arg else Inl (Type_error arg S_real))"

text \<open>\<open>nil\<close> is the value \<^verbatim>\<open>NIL\<close>, which \<^verbatim>\<open>CL_signum\<close> returns for an argument that is not a number.\<close>

definition CL_signum :: "Value \<Rightarrow> (kernel \<Rightarrow> Value \<Rightarrow> kvalue) \<Rightarrow> kernel \<Rightarrow> Value \<Rightarrow> kvalue" where
  "CL_signum nil rest k arg =
     (case arg of
        Fixnum w \<Rightarrow>
          (let n = xlong arg
           in if n = 0 then Inr (arg, k) else if sint n < 0 then Inr (make_fixnum (- 1), k) else Inr (make_fixnum 1, k))
      | Bignum_ref z \<Rightarrow> Inr (make_fixnum (word_of_int (mpz_sgn (heap k) z)), k)
      | Other c i \<Rightarrow> if numberp arg then rest k arg else Inr (nil, k))"

subsection \<open>Comparisons of two numbers\<close>

type_synonym comparison = "kernel \<Rightarrow> Value \<Rightarrow> Value \<Rightarrow> bool result"

definition equals :: "comparison \<Rightarrow> comparison" where
  "equals rest k arg1 arg2 =
     (if arg1 = arg2 then Inr True
      else case arg1 of
        Fixnum w1 \<Rightarrow>
          (case arg2 of
             Fixnum w2 \<Rightarrow> Inr False
           | Bignum_ref z2 \<Rightarrow> Inr False
           | Other c i \<Rightarrow>
               if c = RATIO then Inr False else if numberp arg2 then rest k arg1 arg2 else Inl (Type_error arg2 S_number))
      | Bignum_ref z1 \<Rightarrow>
          (case arg2 of
             Fixnum w2 \<Rightarrow> Inr False
           | Bignum_ref z2 \<Rightarrow> Inr (mpz_cmp (heap k) z1 z2 = 0)
           | Other c i \<Rightarrow>
               if c = RATIO then Inr False else if numberp arg2 then rest k arg1 arg2 else Inl (Type_error arg2 S_number))
      | Other c i \<Rightarrow> if numberp arg1 then rest k arg1 arg2 else Inl (Type_error arg1 S_number))"

definition lt :: "comparison \<Rightarrow> comparison" where
  "lt rest k arg1 arg2 =
     (case arg1 of
        Fixnum w1 \<Rightarrow>
          (case arg2 of
             Fixnum w2 \<Rightarrow> Inr (sint (xlong arg1) < sint (xlong arg2))
           | Bignum_ref z2 \<Rightarrow> Inr (Bignum_plusp k z2)
           | Other c i \<Rightarrow> if realp arg2 then rest k arg1 arg2 else Inl (Type_error arg2 S_real))
      | Bignum_ref z1 \<Rightarrow>
          (case arg2 of
             Fixnum w2 \<Rightarrow> Inr (Bignum_minusp k z1)
           | Bignum_ref z2 \<Rightarrow> Inr (mpz_cmp (heap k) z1 z2 < 0)
           | Other c i \<Rightarrow> if realp arg2 then rest k arg1 arg2 else Inl (Type_error arg2 S_real))
      | Other c i \<Rightarrow> if realp arg1 then rest k arg1 arg2 else Inl (Type_error arg1 S_real))"

definition le :: "comparison \<Rightarrow> comparison" where
  "le rest k arg1 arg2 =
     (case arg1 of
        Fixnum w1 \<Rightarrow>
          (case arg2 of
             Fixnum w2 \<Rightarrow> Inr (sint (xlong arg1) \<le> sint (xlong arg2))
           | Bignum_ref z2 \<Rightarrow> Inr (Bignum_plusp k z2)
           | Other c i \<Rightarrow> if realp arg2 then rest k arg1 arg2 else Inl (Type_error arg2 S_real))
      | Bignum_ref z1 \<Rightarrow>
          (case arg2 of
             Fixnum w2 \<Rightarrow> Inr (Bignum_minusp k z1)
           | Bignum_ref z2 \<Rightarrow> Inr (mpz_cmp (heap k) z1 z2 \<le> 0)
           | Other c i \<Rightarrow> if realp arg2 then rest k arg1 arg2 else Inl (Type_error arg2 S_real))
      | Other c i \<Rightarrow> if realp arg1 then rest k arg1 arg2 else Inl (Type_error arg1 S_real))"

definition gt :: "comparison \<Rightarrow> comparison" where
  "gt rest k arg1 arg2 =
     (case arg1 of
        Fixnum w1 \<Rightarrow>
          (case arg2 of
             Fixnum w2 \<Rightarrow> Inr (sint (xlong arg1) > sint (xlong arg2))
           | Bignum_ref z2 \<Rightarrow> Inr (Bignum_minusp k z2)
           | Other c i \<Rightarrow> if realp arg2 then rest k arg1 arg2 else Inl (Type_error arg2 S_real))
      | Bignum_ref z1 \<Rightarrow>
          (case arg2 of
             Fixnum w2 \<Rightarrow> Inr (Bignum_plusp k z1)
           | Bignum_ref z2 \<Rightarrow> Inr (mpz_cmp (heap k) z1 z2 > 0)
           | Other c i \<Rightarrow> if realp arg2 then rest k arg1 arg2 else Inl (Type_error arg2 S_real))
      | Other c i \<Rightarrow> if realp arg1 then rest k arg1 arg2 else Inl (Type_error arg1 S_real))"

definition ge :: "comparison \<Rightarrow> comparison" where
  "ge rest k arg1 arg2 =
     (case arg1 of
        Fixnum w1 \<Rightarrow>
          (case arg2 of
             Fixnum w2 \<Rightarrow> Inr (sint (xlong arg1) \<ge> sint (xlong arg2))
           | Bignum_ref z2 \<Rightarrow> Inr (Bignum_minusp k z2)
           | Other c i \<Rightarrow> if realp arg2 then rest k arg1 arg2 else Inl (Type_error arg2 S_real))
      | Bignum_ref z1 \<Rightarrow>
          (case arg2 of
             Fixnum w2 \<Rightarrow> Inr (Bignum_plusp k z1)
           | Bignum_ref z2 \<Rightarrow> Inr (mpz_cmp (heap k) z1 z2 \<ge> 0)
           | Other c i \<Rightarrow> if realp arg2 then rest k arg1 arg2 else Inl (Type_error arg2 S_real))
      | Other c i \<Rightarrow> if realp arg1 then rest k arg1 arg2 else Inl (Type_error arg1 S_real))"

subsection \<open>Comparisons of several numbers\<close>

text \<open>Error-propagating conjunction and negation of comparisons.\<close>

definition and_also :: "bool result \<Rightarrow> (unit \<Rightarrow> bool result) \<Rightarrow> bool result" where
  "and_also p q = (case p of Inl e \<Rightarrow> Inl e | Inr b \<Rightarrow> if b then q () else Inr False)"

definition if_not :: "bool result \<Rightarrow> (unit \<Rightarrow> bool result) \<Rightarrow> bool result" where
  "if_not p q = (case p of Inl e \<Rightarrow> Inl e | Inr b \<Rightarrow> if b then Inr False else q ())"

fun equals_all :: "comparison \<Rightarrow> kernel \<Rightarrow> Value \<Rightarrow> Value list \<Rightarrow> bool result" where
  "equals_all rest k v [] = Inr True"
| "equals_all rest k v (a # as) = and_also (equals rest k v a) (\<lambda>_. equals_all rest k v as)"

definition CL_equals :: "comparison \<Rightarrow> kernel \<Rightarrow> Value list \<Rightarrow> bool result" where
  "CL_equals rest k args =
     (case args of
        [] \<Rightarrow> Inl (Wrong_number_of_arguments 0)
      | [a] \<Rightarrow> if numberp a then Inr True else Inl (Type_error a S_number)
      | [a, b] \<Rightarrow> equals rest k a b
      | [a, b, c] \<Rightarrow> and_also (equals rest k a b) (\<lambda>_. equals rest k b c)
      | a # as \<Rightarrow> equals_all rest k a as)"

fun none_equal :: "comparison \<Rightarrow> kernel \<Rightarrow> Value \<Rightarrow> Value list \<Rightarrow> bool result" where
  "none_equal rest k v [] = Inr True"
| "none_equal rest k v (a # as) = if_not (equals rest k a v) (\<lambda>_. none_equal rest k v as)"

fun all_different :: "comparison \<Rightarrow> kernel \<Rightarrow> Value list \<Rightarrow> bool result" where
  "all_different rest k [] = Inr True"
| "all_different rest k (a # as) = and_also (none_equal rest k a as) (\<lambda>_. all_different rest k as)"

definition CL_not_equals :: "comparison \<Rightarrow> kernel \<Rightarrow> Value list \<Rightarrow> bool result" where
  "CL_not_equals rest k args =
     (case args of
        [] \<Rightarrow> Inl (Wrong_number_of_arguments 0)
      | [a] \<Rightarrow> if numberp a then Inr True else Inl (Type_error a S_number)
      | [a, b] \<Rightarrow> if_not (equals rest k a b) (\<lambda>_. Inr True)
      | [a, b, c] \<Rightarrow>
          if_not (equals rest k a b) (\<lambda>_. if_not (equals rest k a c) (\<lambda>_. if_not (equals rest k b c) (\<lambda>_. Inr True)))
      | _ \<Rightarrow> all_different rest k args)"

text \<open>
  \<^verbatim>\<open>CL_lt\<close>, \<^verbatim>\<open>CL_le\<close>, \<^verbatim>\<open>CL_gt\<close> and \<^verbatim>\<open>CL_ge\<close> have one shape: for two and three arguments the comparison \<open>test\<close>,
  for more a loop that stops at the first pair for which the opposite comparison \<open>stop\<close> holds. A
  single argument is not checked.
\<close>

fun no_stop :: "comparison \<Rightarrow> kernel \<Rightarrow> Value list \<Rightarrow> bool result" where
  "no_stop stop k (a # b # as) = if_not (stop k a b) (\<lambda>_. no_stop stop k (b # as))"
| "no_stop stop k _ = Inr True"

definition compare_args :: "comparison \<Rightarrow> comparison \<Rightarrow> kernel \<Rightarrow> Value list \<Rightarrow> bool result" where
  "compare_args test stop k args =
     (case args of
        [] \<Rightarrow> Inl (Wrong_number_of_arguments 0)
      | [a] \<Rightarrow> Inr True
      | [a, b] \<Rightarrow> test k a b
      | [a, b, c] \<Rightarrow> and_also (test k a b) (\<lambda>_. test k b c)
      | _ \<Rightarrow> no_stop stop k args)"

definition CL_lt :: "comparison \<Rightarrow> comparison \<Rightarrow> kernel \<Rightarrow> Value list \<Rightarrow> bool result" where
  "CL_lt lt_rest ge_rest = compare_args (lt lt_rest) (ge ge_rest)"

definition CL_le :: "comparison \<Rightarrow> comparison \<Rightarrow> kernel \<Rightarrow> Value list \<Rightarrow> bool result" where
  "CL_le le_rest gt_rest = compare_args (le le_rest) (gt gt_rest)"

definition CL_gt :: "comparison \<Rightarrow> comparison \<Rightarrow> kernel \<Rightarrow> Value list \<Rightarrow> bool result" where
  "CL_gt gt_rest le_rest = compare_args (gt gt_rest) (le le_rest)"

definition CL_ge :: "comparison \<Rightarrow> comparison \<Rightarrow> kernel \<Rightarrow> Value list \<Rightarrow> bool result" where
  "CL_ge ge_rest lt_rest = compare_args (ge ge_rest) (lt lt_rest)"

definition SYS_two_arg_max :: "comparison \<Rightarrow> kernel \<Rightarrow> Value \<Rightarrow> Value \<Rightarrow> Value result" where
  "SYS_two_arg_max rest k arg1 arg2 = map_sum id (\<lambda>b. if b then arg2 else arg1) (lt rest k arg1 arg2)"

definition SYS_two_arg_min :: "comparison \<Rightarrow> kernel \<Rightarrow> Value \<Rightarrow> Value \<Rightarrow> Value result" where
  "SYS_two_arg_min rest k arg1 arg2 = map_sum id (\<lambda>b. if b then arg1 else arg2) (lt rest k arg1 arg2)"

fun max_loop :: "comparison \<Rightarrow> kernel \<Rightarrow> Value \<Rightarrow> Value list \<Rightarrow> Value result" where
  "max_loop rest k res [] = Inr res"
| "max_loop rest k res (a # as) =
     (case lt rest k res a of Inl e \<Rightarrow> Inl e | Inr b \<Rightarrow> max_loop rest k (if b then a else res) as)"

fun min_loop :: "comparison \<Rightarrow> kernel \<Rightarrow> Value \<Rightarrow> Value list \<Rightarrow> Value result" where
  "min_loop rest k res [] = Inr res"
| "min_loop rest k res (a # as) =
     (case lt rest k a res of Inl e \<Rightarrow> Inl e | Inr b \<Rightarrow> min_loop rest k (if b then a else res) as)"

definition CL_max :: "comparison \<Rightarrow> kernel \<Rightarrow> Value list \<Rightarrow> Value result" where
  "CL_max rest k args =
     (case args of
        [] \<Rightarrow> Inl (Wrong_number_of_arguments 0)
      | [a] \<Rightarrow> if realp a then Inr a else Inl (Type_error a S_real)
      | [a, b] \<Rightarrow> SYS_two_arg_max rest k a b
      | a # as \<Rightarrow> if realp a then max_loop rest k a as else Inl (Type_error a S_real))"

definition CL_min :: "comparison \<Rightarrow> kernel \<Rightarrow> Value list \<Rightarrow> Value result" where
  "CL_min rest k args =
     (case args of
        [] \<Rightarrow> Inl (Wrong_number_of_arguments 0)
      | [a] \<Rightarrow> if realp a then Inr a else Inl (Type_error a S_real)
      | [a, b] \<Rightarrow> SYS_two_arg_min rest k a b
      | a # as \<Rightarrow> if realp a then min_loop rest k a as else Inl (Type_error a S_real))"

subsection \<open>Comparisons decide the order of the integers\<close>

definition sized :: "kernel \<Rightarrow> Value \<Rightarrow> bool" where
  "sized k v \<longleftrightarrow> int_value k v \<and> limbs k v < 2 ^ 30"

lemma sized_int_value: "sized k v \<Longrightarrow> int_value k v"
  by (simp add: sized_def)

locale integer_comparison =
  fixes cmp :: comparison and rel :: "int \<Rightarrow> int \<Rightarrow> bool"
  assumes cmp_decides: "sized k a \<Longrightarrow> sized k b \<Longrightarrow> cmp k a b = Inr (rel (int_of k a) (int_of k b))"

locale comparison_pair =
  test: integer_comparison test rel + stop: integer_comparison stop "\<lambda>a b. \<not> rel a b" for test stop rel
begin

lemma no_stop_decides:
  "\<forall>a \<in> set as. sized k a \<Longrightarrow> no_stop stop k as = Inr (successively rel (map (int_of k) as))"
  by (induction as rule: induct_list012) (simp_all add: stop.cmp_decides if_not_def)

lemma compare_args_decides:
  assumes "\<forall>a \<in> set as. sized k a" "as \<noteq> []"
  shows "compare_args test stop k as = Inr (successively rel (map (int_of k) as))"
proof (cases as rule: remdups_adj.cases)
  case (3 a b cs)
  note args = 3
  show ?thesis
  proof (cases cs)
    case Nil
    then show ?thesis using args assms by (simp add: compare_args_def test.cmp_decides)
  next
    case (Cons c ds)
    then show ?thesis
      using args assms no_stop_decides [OF assms(1)]
      by (cases ds) (simp_all add: compare_args_def test.cmp_decides and_also_def)
  qed
qed (use assms in \<open>simp_all add: compare_args_def\<close>)

end

lemma mpz_cmp_decides:
  assumes "sized k (Bignum_ref y)" "sized k (Bignum_ref z)"
  shows "sgn (mpz_cmp (heap k) y z) = sgn (int_of k (Bignum_ref y) - int_of k (Bignum_ref z))"
  using mpz_cmp_sign [of "heap k" y z] assms by (simp add: sized_def int_value.simps int_of.simps)

lemma sgn_decides:
  assumes "sgn (c :: int) = sgn (x - y)"
  shows "c < 0 \<longleftrightarrow> x < y" "c \<le> 0 \<longleftrightarrow> x \<le> y" "c > 0 \<longleftrightarrow> x > y" "c \<ge> 0 \<longleftrightarrow> x \<ge> y" "c = 0 \<longleftrightarrow> x = y"
  using assms by (auto simp: sgn_if split: if_splits)

lemma mixed_order:
  assumes "int_value k (Fixnum v)" "int_value k (Bignum_ref z)"
  shows "Bignum_plusp k z \<longleftrightarrow> sint (xlong (Fixnum v)) < int_of k (Bignum_ref z)"
    and "Bignum_plusp k z \<longleftrightarrow> sint (xlong (Fixnum v)) \<le> int_of k (Bignum_ref z)"
    and "Bignum_minusp k z \<longleftrightarrow> int_of k (Bignum_ref z) < sint (xlong (Fixnum v))"
    and "Bignum_minusp k z \<longleftrightarrow> int_of k (Bignum_ref z) \<le> sint (xlong (Fixnum v))"
    and "sint (xlong (Fixnum v)) \<noteq> int_of k (Bignum_ref z)"
  using Bignum_sign [OF assms(2)] fixnum_int [OF assms(1)] bignum_int [OF assms(2)]
  by (auto simp: fixnum_range_iff)

lemmas compare_facts = mpz_cmp_decides [THEN sgn_decides(1)] mpz_cmp_decides [THEN sgn_decides(2)]
  mpz_cmp_decides [THEN sgn_decides(3)] mpz_cmp_decides [THEN sgn_decides(4)] mpz_cmp_decides [THEN sgn_decides(5)]

interpretation lt: integer_comparison "lt rest" "(<)" for rest
proof unfold_locales
  fix k a b
  assume ab: "sized k a" "sized k b"
  show "lt rest k a b = Inr (int_of k a < int_of k b)"
    using sized_int_value [OF ab(1)] sized_int_value [OF ab(2)] ab
    by (cases rule: int_cases [case_product int_cases]) (simp_all add: lt_def compare_facts mixed_order(1,3))
qed

interpretation le: integer_comparison "le rest" "(\<le>)" for rest
proof unfold_locales
  fix k a b
  assume ab: "sized k a" "sized k b"
  show "le rest k a b = Inr (int_of k a \<le> int_of k b)"
    using sized_int_value [OF ab(1)] sized_int_value [OF ab(2)] ab
    by (cases rule: int_cases [case_product int_cases]) (simp_all add: le_def compare_facts mixed_order(2,4))
qed

interpretation gt: integer_comparison "gt rest" "(>)" for rest
proof unfold_locales
  fix k a b
  assume ab: "sized k a" "sized k b"
  show "gt rest k a b = Inr (int_of k a > int_of k b)"
    using sized_int_value [OF ab(1)] sized_int_value [OF ab(2)] ab
    by (cases rule: int_cases [case_product int_cases]) (simp_all add: gt_def compare_facts mixed_order(1,3))
qed

interpretation ge: integer_comparison "ge rest" "(\<ge>)" for rest
proof unfold_locales
  fix k a b
  assume ab: "sized k a" "sized k b"
  show "ge rest k a b = Inr (int_of k a \<ge> int_of k b)"
    using sized_int_value [OF ab(1)] sized_int_value [OF ab(2)] ab
    by (cases rule: int_cases [case_product int_cases]) (simp_all add: ge_def compare_facts mixed_order(2,4))
qed

interpretation equals: integer_comparison "equals rest" "(=)" for rest
proof unfold_locales
  fix k a b
  assume ab: "sized k a" "sized k b"
  show "equals rest k a b = Inr (int_of k a = int_of k b)"
    using sized_int_value [OF ab(1)] sized_int_value [OF ab(2)] ab
    by (cases rule: int_cases [case_product int_cases])
      (use fixnum_eq_iff in \<open>auto simp: equals_def compare_facts mixed_order(5) mixed_order(5) [THEN not_sym]\<close>)
qed

lemma eql_decides:
  assumes "sized k a" "sized k b"
  shows "eql other k a b \<longleftrightarrow> int_of k a = int_of k b"
  using sized_int_value [OF assms(1)] sized_int_value [OF assms(2)] assms
  by (cases rule: int_cases [case_product int_cases])
    (use fixnum_eq_iff in \<open>auto simp: eql_def compare_facts mixed_order(5) mixed_order(5) [THEN not_sym]\<close>)

interpretation lt_ge: comparison_pair "lt lt_rest" "ge ge_rest" "(<)" for lt_rest ge_rest
  by unfold_locales (simp add: ge.cmp_decides not_less)

interpretation le_gt: comparison_pair "le le_rest" "gt gt_rest" "(\<le>)" for le_rest gt_rest
  by unfold_locales (simp add: gt.cmp_decides not_le)

interpretation gt_le: comparison_pair "gt gt_rest" "le le_rest" "(>)" for gt_rest le_rest
  by unfold_locales (simp add: le.cmp_decides not_less)

interpretation ge_lt: comparison_pair "ge ge_rest" "lt lt_rest" "(\<ge>)" for ge_rest lt_rest
  by unfold_locales (simp add: lt.cmp_decides not_le)

lemma equals_all_decides:
  "sized k v \<Longrightarrow> \<forall>a \<in> set as. sized k a \<Longrightarrow> equals_all rest k v as = Inr (\<forall>a \<in> set as. int_of k a = int_of k v)"
  by (induction as) (auto simp: and_also_def equals.cmp_decides)

lemma none_equal_decides:
  "sized k v \<Longrightarrow> \<forall>a \<in> set as. sized k a \<Longrightarrow> none_equal rest k v as = Inr (int_of k v \<notin> int_of k ` set as)"
  by (induction as) (auto simp: if_not_def equals.cmp_decides)

lemma all_different_decides:
  "\<forall>a \<in> set as. sized k a \<Longrightarrow> all_different rest k as = Inr (distinct (map (int_of k) as))"
  by (induction as) (simp_all add: and_also_def none_equal_decides)

lemma CL_equals_decides:
  assumes "\<forall>a \<in> set as. sized k a" "as \<noteq> []"
  shows "CL_equals rest k as = Inr (\<forall>a \<in> set as. int_of k a = int_of k (hd as))"
proof (cases as rule: remdups_adj.cases)
  case (3 a b cs)
  note args = 3
  show ?thesis
  proof (cases cs)
    case Nil
    then show ?thesis using args assms by (auto simp: CL_equals_def equals.cmp_decides)
  next
    case (Cons c ds)
    then show ?thesis
      using args assms equals_all_decides [of k a "b # cs" rest]
      by (cases ds) (auto simp: CL_equals_def equals.cmp_decides and_also_def)
  qed
qed (use assms int_value_numberp sized_int_value in \<open>auto simp: CL_equals_def\<close>)

lemma CL_not_equals_decides:
  assumes "\<forall>a \<in> set as. sized k a" "as \<noteq> []"
  shows "CL_not_equals rest k as = Inr (distinct (map (int_of k) as))"
proof (cases as rule: remdups_adj.cases)
  case (3 a b cs)
  note args = 3
  show ?thesis
  proof (cases cs)
    case Nil
    then show ?thesis using args assms by (simp add: CL_not_equals_def equals.cmp_decides if_not_def)
  next
    case (Cons c ds)
    then show ?thesis
      using args assms all_different_decides [OF assms(1), of rest]
      by (cases ds) (auto simp: CL_not_equals_def equals.cmp_decides if_not_def)
  qed
qed (use assms int_value_numberp sized_int_value in \<open>auto simp: CL_not_equals_def\<close>)

subsection \<open>Extrema, signs and parity\<close>

lemma max_loop_spec:
  "\<forall>a \<in> set (r # as). sized k a \<Longrightarrow>
   \<exists>m \<in> set (r # as). max_loop rest k r as = Inr m \<and> int_of k m = fold max (map (int_of k) as) (int_of k r)"
proof (induction as arbitrary: r)
  case (Cons a as)
  let ?r = "if int_of k r < int_of k a then a else r"
  have "int_of k ?r = max (int_of k a) (int_of k r)" by simp
  then show ?case using Cons.IH [of ?r] Cons.prems lt.cmp_decides [of k r a rest] by (auto split: if_splits)
qed simp

lemma min_loop_spec:
  "\<forall>a \<in> set (r # as). sized k a \<Longrightarrow>
   \<exists>m \<in> set (r # as). min_loop rest k r as = Inr m \<and> int_of k m = fold min (map (int_of k) as) (int_of k r)"
proof (induction as arbitrary: r)
  case (Cons a as)
  let ?r = "if int_of k a < int_of k r then a else r"
  have "int_of k ?r = min (int_of k a) (int_of k r)" by simp
  then show ?case using Cons.IH [of ?r] Cons.prems lt.cmp_decides [of k a r rest] by (auto split: if_splits)
qed simp

lemma int_value_realp: "int_value k v \<Longrightarrow> realp v"
  by (cases v) (simp_all add: integerp_def int_value.simps)

lemma CL_max_spec:
  assumes "\<forall>a \<in> set as. sized k a" "as \<noteq> []"
  shows "\<exists>m \<in> set as. CL_max rest k as = Inr m \<and> int_of k m = Max (int_of k ` set as)"
proof -
  obtain a bs where as: "as = a # bs" using assms(2) by (cases as) auto
  have loop: "\<exists>m \<in> set as. max_loop rest k a bs = Inr m \<and> int_of k m = Max (int_of k ` set as)"
    using max_loop_spec [of a bs k rest] assms(1) as Max.set_eq_fold [of "int_of k a" "map (int_of k) bs"] by simp
  have "realp a" using assms(1) as int_value_realp sized_int_value by auto
  then have "CL_max rest k as = max_loop rest k a bs"
    using as assms(1) lt.cmp_decides [of k a _ rest]
    by (cases bs rule: remdups_adj.cases) (auto simp: CL_max_def SYS_two_arg_max_def)
  then show ?thesis using loop by simp
qed

lemma CL_min_spec:
  assumes "\<forall>a \<in> set as. sized k a" "as \<noteq> []"
  shows "\<exists>m \<in> set as. CL_min rest k as = Inr m \<and> int_of k m = Min (int_of k ` set as)"
proof (cases "\<exists>a b. as = [a, b]")
  case True
  then show ?thesis using assms(1) by (auto simp: CL_min_def SYS_two_arg_min_def lt.cmp_decides)
next
  case False
  obtain a bs where as: "as = a # bs" using assms(2) by (cases as) auto
  have loop: "\<exists>m \<in> set as. min_loop rest k a bs = Inr m \<and> int_of k m = Min (int_of k ` set as)"
    using min_loop_spec [of a bs k rest] assms(1) as Min.set_eq_fold [of "int_of k a" "map (int_of k) bs"] by simp
  have "realp a" using assms(1) as int_value_realp sized_int_value by auto
  then have "CL_min rest k as = min_loop rest k a bs"
    using as False by (cases bs rule: remdups_adj.cases) (auto simp: CL_min_def)
  then show ?thesis using loop by simp
qed

lemma and_1_limb: "(n AND 1 = (0 :: limb)) \<longleftrightarrow> even (sint n)"
proof -
  have "even (sint n) \<longleftrightarrow> even (uint n)" by (simp add: sint_limb B_def)
  moreover have "uint n mod 2 = 0 \<longleftrightarrow> even (uint n)" by presburger
  ultimately show ?thesis by (simp add: and_one_eq limb_eq_0_iff uint_mod)
qed

lemma parity:
  assumes "int_value k a"
  shows "CL_evenp k a = Inr (even (int_of k a))" "CL_oddp k a = Inr (odd (int_of k a))"
  using assms
  by (cases rule: int_cases; simp add: CL_evenp_def CL_oddp_def and_1_limb mpz_even_p_def mpz_odd_p_iff int_value.simps int_of.simps)+

lemma fixnum_sign: "int_value k (Fixnum w) \<Longrightarrow> (0 < sint w \<longleftrightarrow> 0 < sint (xlong (Fixnum w))) \<and> (sint w < 0 \<longleftrightarrow> sint (xlong (Fixnum w)) < 0)"
  using xlong_tag [of w] by (auto simp: int_value.simps)

lemma signs:
  assumes "int_value k a"
  shows "plusp rest k a = Inr (0 < int_of k a)" "minusp rest k a = Inr (int_of k a < 0)"
    and "zerop rest k a = Inr (int_of k a = 0)"
proof -
  show "plusp rest k a = Inr (0 < int_of k a)" "minusp rest k a = Inr (int_of k a < 0)"
    using assms by (cases rule: int_cases; simp add: plusp_def minusp_def fixnum_sign Bignum_sign)+
  show "zerop rest k a = Inr (int_of k a = 0)"
    using assms
  proof (cases rule: int_cases)
    case (fixnum w)
    have "int_value k (Fixnum 0)" "int_of k (Fixnum 0) = 0" by (simp_all add: Fixnum_0)
    then show ?thesis using fixnum fixnum_eq_iff [of k w 0] by (auto simp: zerop_def)
  next
    case (bignum z)
    then show ?thesis using bignum_int [of k z] by (auto simp: zerop_def fixnum_range_iff)
  qed
qed

lemma CL_abs_returns:
  assumes "int_value k a"
  shows "returns k (CL_abs rest k a) \<bar>int_of k a\<bar>"
  using assms
proof (cases rule: int_cases)
  case (fixnum w)
  then show ?thesis
    using assms make_integer_yields [of k "- xlong a"] long_small [of "xlong a" "xlong a"] returns_self [of k a]
    by (auto simp: CL_abs_def Let_def intro!: returnsI)
next
  case (bignum z)
  then show ?thesis
    using assms Bignum_negate_yields [of k z] Bignum_sign [of k z] returns_self [of k a]
    by (auto simp: CL_abs_def intro!: returnsI)
qed

lemma CL_signum_returns:
  assumes "int_value k a"
  shows "returns k (CL_signum nil rest k a) (sgn (int_of k a))"
  using assms
proof (cases rule: int_cases)
  case (fixnum w)
  have "xlong a = 0 \<longleftrightarrow> sint (xlong a) = 0" using long_eqI [of "xlong a" 0] by auto
  then show ?thesis
    using fixnum assms returns_self [of k a] returns_self [of k "make_fixnum 1"] returns_self [of k "make_fixnum (- 1)"]
    by (auto simp: CL_signum_def Let_def sgn_if)
next
  case (bignum z)
  have "mpz_sgn (heap k) z = sgn (int_of k a)"
    using bignum sgn_mpz_val [of "heap k" z] by (simp add: mpz_sgn_def int_value.simps int_of.simps sgn_if)
  then show ?thesis
    using bignum returns_self [of k "make_fixnum 0"] returns_self [of k "make_fixnum 1"] returns_self [of k "make_fixnum (- 1)"]
    by (auto simp: CL_signum_def sgn_if)
qed

end
