(* ===== verification/Kernel_Logic.thy ===== *)
theory Kernel_Logic
  imports Kernel_Compare
begin

text \<open>
  Bitwise functions, shifts and integer length of Lisp integers (\<^verbatim>\<open>kernel/numbers.cpp\<close>): \<^verbatim>\<open>logand\<close>,
  \<^verbatim>\<open>logior\<close>, \<^verbatim>\<open>logxor\<close>, \<^verbatim>\<open>logeqv\<close>, their complemented forms, \<^verbatim>\<open>logtest\<close>, \<^verbatim>\<open>ash\<close> and \<^verbatim>\<open>integer-length\<close>. The
  functions work on the tagged words where they can, on \<^verbatim>\<open>long\<close> values, and on integer variables
  otherwise; each is an \<open>integer_op\<close>.
\<close>

subsection \<open>Bitwise functions\<close>

definition SYS_two_arg_logand :: "kernel \<Rightarrow> Value \<Rightarrow> Value \<Rightarrow> kvalue" where
  "SYS_two_arg_logand k v1 v2 =
     (case v1 of
        Fixnum w1 \<Rightarrow>
          (case v2 of
             Fixnum w2 \<Rightarrow> Inr (Fixnum (w1 AND w2), k)
           | Bignum_ref z2 \<Rightarrow>
               (let n1 = xlong v1
                in if n1 = 0 then Inr (Fixnum 0, k)
                   else if sint n1 > 0 then Inr (make_fixnum (n1 AND mpz_get_si (heap k) z2), k)
                   else
                     (let (res, k) = new_var k;
                          h = mpz_init_set_si (heap k) res n1;
                          h = mpz_and h res res z2
                      in Inr (normalize_mpz (k\<lparr>heap := h\<rparr>) res)))
           | Other c i \<Rightarrow> Inl (Type_error v2 S_integer))
      | Bignum_ref z1 \<Rightarrow>
          (case v2 of
             Fixnum w2 \<Rightarrow>
               (let n2 = xlong v2
                in if n2 = 0 then Inr (Fixnum 0, k)
                   else if sint n2 > 0 then Inr (make_fixnum (mpz_get_si (heap k) z1 AND n2), k)
                   else
                     (let (res, k) = new_var k;
                          h = mpz_init_set_si (heap k) res n2;
                          h = mpz_and h res res z1
                      in Inr (normalize_mpz (k\<lparr>heap := h\<rparr>) res)))
           | Bignum_ref z2 \<Rightarrow>
               (let (res, k) = new_var k;
                    h = mpz_init_set (heap k) res z1;
                    h = mpz_and h res res z2
                in Inr (normalize_mpz (k\<lparr>heap := h\<rparr>) res))
           | Other c i \<Rightarrow> Inl (Type_error v2 S_integer))
      | Other c i \<Rightarrow> Inl (Type_error v1 S_integer))"

definition CL_logand :: "kernel \<Rightarrow> Value list \<Rightarrow> kvalue" where
  "CL_logand k args =
     (case args of
        [] \<Rightarrow> Inr (make_fixnum (- 1), k)
      | [a] \<Rightarrow> if integerp a then Inr (a, k) else Inl (Type_error a S_integer)
      | [a, b] \<Rightarrow> SYS_two_arg_logand k a b
      | _ \<Rightarrow> fold_args SYS_two_arg_logand k (make_fixnum (- 1)) args)"

definition CL_logtest :: "(kernel \<Rightarrow> Value \<Rightarrow> bool result) \<Rightarrow> kernel \<Rightarrow> Value \<Rightarrow> Value \<Rightarrow> bool result" where
  "CL_logtest zerop_rest k v1 v2 =
     (case SYS_two_arg_logand k v1 v2 of
        Inl e \<Rightarrow> Inl e
      | Inr (v, k) \<Rightarrow> map_sum id Not (zerop zerop_rest k v))"

definition CL_logandc1 :: "kernel \<Rightarrow> Value \<Rightarrow> Value \<Rightarrow> kvalue" where
  "CL_logandc1 k v1 v2 =
     (case v1 of
        Fixnum w1 \<Rightarrow>
          (case v2 of
             Fixnum w2 \<Rightarrow> (let n1 = xlong v1; n2 = xlong v2 in Inr (make_fixnum (NOT n1 AND n2), k))
           | Bignum_ref z2 \<Rightarrow>
               (let (res, k) = new_var k;
                    h = mpz_init_set_si (heap k) res (NOT (xlong v1));
                    h = mpz_and h res res z2
                in Inr (normalize_mpz (k\<lparr>heap := h\<rparr>) res))
           | Other c i \<Rightarrow> Inl (Type_error v2 S_integer))
      | Bignum_ref z1 \<Rightarrow>
          (case v2 of
             Fixnum w2 \<Rightarrow>
               (let (z, k) = new_var k;
                    h = mpz_com (mpz_init (heap k) z) z z1;
                    (res, k) = new_var k;
                    h = mpz_init_set_si h res (xlong v2);
                    h = mpz_and h res z res
                in Inr (normalize_mpz (k\<lparr>heap := h\<rparr>) res))
           | Bignum_ref z2 \<Rightarrow>
               (let (z, k) = new_var k;
                    h = mpz_com (mpz_init (heap k) z) z z1;
                    (res, k) = new_var k;
                    h = mpz_init h res;
                    h = mpz_and h res z z2
                in Inr (normalize_mpz (k\<lparr>heap := h\<rparr>) res))
           | Other c i \<Rightarrow> Inl (Type_error v2 S_integer))
      | Other c i \<Rightarrow> Inl (Type_error v1 S_integer))"

definition CL_logandc2 :: "kernel \<Rightarrow> Value \<Rightarrow> Value \<Rightarrow> kvalue" where
  "CL_logandc2 k v1 v2 =
     (case v1 of
        Fixnum w1 \<Rightarrow>
          (case v2 of
             Fixnum w2 \<Rightarrow> (let n1 = xlong v1; n2 = xlong v2 in Inr (make_fixnum (n1 AND NOT n2), k))
           | Bignum_ref z2 \<Rightarrow>
               (let (z, k) = new_var k;
                    h = mpz_com (mpz_init (heap k) z) z z2;
                    (res, k) = new_var k;
                    h = mpz_init_set_si h res (xlong v1);
                    h = mpz_and h res z res
                in Inr (normalize_mpz (k\<lparr>heap := h\<rparr>) res))
           | Other c i \<Rightarrow> Inl (Type_error v2 S_integer))
      | Bignum_ref z1 \<Rightarrow>
          (case v2 of
             Fixnum w2 \<Rightarrow>
               (let (res, k) = new_var k;
                    h = mpz_init_set_si (heap k) res (NOT (xlong v2));
                    h = mpz_and h res res z1
                in Inr (normalize_mpz (k\<lparr>heap := h\<rparr>) res))
           | Bignum_ref z2 \<Rightarrow>
               (let (z, k) = new_var k;
                    h = mpz_com (mpz_init (heap k) z) z z2;
                    (res, k) = new_var k;
                    h = mpz_init h res;
                    h = mpz_and h res z z1
                in Inr (normalize_mpz (k\<lparr>heap := h\<rparr>) res))
           | Other c i \<Rightarrow> Inl (Type_error v2 S_integer))
      | Other c i \<Rightarrow> Inl (Type_error v1 S_integer))"

definition CL_logorc1 :: "kernel \<Rightarrow> Value \<Rightarrow> Value \<Rightarrow> kvalue" where
  "CL_logorc1 k v1 v2 =
     (case v1 of
        Fixnum w1 \<Rightarrow>
          (case v2 of
             Fixnum w2 \<Rightarrow> (let n1 = xlong v1; n2 = xlong v2 in Inr (make_fixnum (NOT n1 OR n2), k))
           | Bignum_ref z2 \<Rightarrow>
               (let (res, k) = new_var k;
                    h = mpz_init_set_si (heap k) res (NOT (xlong v1));
                    h = mpz_ior h res res z2
                in Inr (normalize_mpz (k\<lparr>heap := h\<rparr>) res))
           | Other c i \<Rightarrow> Inl (Type_error v2 S_integer))
      | Bignum_ref z1 \<Rightarrow>
          (case v2 of
             Fixnum w2 \<Rightarrow>
               (let (z, k) = new_var k;
                    h = mpz_com (mpz_init (heap k) z) z z1;
                    (res, k) = new_var k;
                    h = mpz_init_set_si h res (xlong v2);
                    h = mpz_ior h res z res
                in Inr (normalize_mpz (k\<lparr>heap := h\<rparr>) res))
           | Bignum_ref z2 \<Rightarrow>
               (let (z, k) = new_var k;
                    h = mpz_com (mpz_init (heap k) z) z z1;
                    (res, k) = new_var k;
                    h = mpz_init h res;
                    h = mpz_ior h res z z2
                in Inr (normalize_mpz (k\<lparr>heap := h\<rparr>) res))
           | Other c i \<Rightarrow> Inl (Type_error v2 S_integer))
      | Other c i \<Rightarrow> Inl (Type_error v1 S_integer))"

definition CL_logorc2 :: "kernel \<Rightarrow> Value \<Rightarrow> Value \<Rightarrow> kvalue" where
  "CL_logorc2 k v1 v2 =
     (case v1 of
        Fixnum w1 \<Rightarrow>
          (case v2 of
             Fixnum w2 \<Rightarrow> (let n1 = xlong v1; n2 = xlong v2 in Inr (make_fixnum (n1 OR NOT n2), k))
           | Bignum_ref z2 \<Rightarrow>
               (let (z, k) = new_var k;
                    h = mpz_com (mpz_init (heap k) z) z z2;
                    (res, k) = new_var k;
                    h = mpz_init_set_si h res (xlong v1);
                    h = mpz_ior h res z res
                in Inr (normalize_mpz (k\<lparr>heap := h\<rparr>) res))
           | Other c i \<Rightarrow> Inl (Type_error v2 S_integer))
      | Bignum_ref z1 \<Rightarrow>
          (case v2 of
             Fixnum w2 \<Rightarrow>
               (let (res, k) = new_var k;
                    h = mpz_init_set_si (heap k) res (NOT (xlong v2));
                    h = mpz_ior h res res z1
                in Inr (normalize_mpz (k\<lparr>heap := h\<rparr>) res))
           | Bignum_ref z2 \<Rightarrow>
               (let (z, k) = new_var k;
                    h = mpz_com (mpz_init (heap k) z) z z2;
                    (res, k) = new_var k;
                    h = mpz_init h res;
                    h = mpz_ior h res z z1
                in Inr (normalize_mpz (k\<lparr>heap := h\<rparr>) res))
           | Other c i \<Rightarrow> Inl (Type_error v2 S_integer))
      | Other c i \<Rightarrow> Inl (Type_error v1 S_integer))"

text \<open>The disjunction with a nonnegative fixnum makes a bignum without normalising.\<close>

definition SYS_two_arg_logior :: "kernel \<Rightarrow> Value \<Rightarrow> Value \<Rightarrow> kvalue" where
  "SYS_two_arg_logior k v1 v2 =
     (case v1 of
        Fixnum w1 \<Rightarrow>
          (case v2 of
             Fixnum w2 \<Rightarrow> Inr (Fixnum (w1 OR w2), k)
           | Bignum_ref z2 \<Rightarrow>
               (let n1 = xlong v1
                in if n1 = 0 then Inr (v2, k)
                   else
                     (let (res, k) = new_var k;
                          h = mpz_init_set_si (heap k) res n1;
                          h = mpz_ior h res res z2;
                          k = k\<lparr>heap := h\<rparr>
                      in if sint n1 \<ge> 0 then Inr (Bignum_copy k res) else Inr (normalize_mpz k res)))
           | Other c i \<Rightarrow> Inl (Type_error v2 S_integer))
      | Bignum_ref z1 \<Rightarrow>
          (case v2 of
             Fixnum w2 \<Rightarrow>
               (let n2 = xlong v2
                in if n2 = 0 then Inr (v1, k)
                   else
                     (let (res, k) = new_var k;
                          h = mpz_init_set_si (heap k) res n2;
                          h = mpz_ior h res res z1;
                          k = k\<lparr>heap := h\<rparr>
                      in if sint n2 \<ge> 0 then Inr (Bignum_copy k res) else Inr (normalize_mpz k res)))
           | Bignum_ref z2 \<Rightarrow>
               (let (res, k) = new_var k;
                    h = mpz_init_set (heap k) res z1;
                    h = mpz_ior h res res z2
                in Inr (normalize_mpz (k\<lparr>heap := h\<rparr>) res))
           | Other c i \<Rightarrow> Inl (Type_error v2 S_integer))
      | Other c i \<Rightarrow> Inl (Type_error v1 S_integer))"

definition CL_logior :: "kernel \<Rightarrow> Value list \<Rightarrow> kvalue" where
  "CL_logior k args =
     (case args of
        [] \<Rightarrow> Inr (Fixnum 0, k)
      | [a] \<Rightarrow> if integerp a then Inr (a, k) else Inl (Type_error a S_integer)
      | [a, b] \<Rightarrow> SYS_two_arg_logior k a b
      | _ \<Rightarrow> fold_args SYS_two_arg_logior k (Fixnum 0) args)"

definition SYS_two_arg_logxor :: "kernel \<Rightarrow> Value \<Rightarrow> Value \<Rightarrow> kvalue" where
  "SYS_two_arg_logxor k v1 v2 =
     (case v1 of
        Fixnum w1 \<Rightarrow>
          (case v2 of
             Fixnum w2 \<Rightarrow> (let n1 = xlong v1; n2 = xlong v2 in Inr (make_fixnum (n1 XOR n2), k))
           | Bignum_ref z2 \<Rightarrow>
               (let (res, k) = new_var k;
                    h = mpz_init_set_si (heap k) res (xlong v1);
                    h = mpz_xor h res res z2
                in Inr (normalize_mpz (k\<lparr>heap := h\<rparr>) res))
           | Other c i \<Rightarrow> Inl (Type_error v2 S_integer))
      | Bignum_ref z1 \<Rightarrow>
          (case v2 of
             Fixnum w2 \<Rightarrow>
               (let (res, k) = new_var k;
                    h = mpz_init_set_si (heap k) res (xlong v2);
                    h = mpz_xor h res res z1
                in Inr (normalize_mpz (k\<lparr>heap := h\<rparr>) res))
           | Bignum_ref z2 \<Rightarrow>
               (let (res, k) = new_var k;
                    h = mpz_init_set (heap k) res z1;
                    h = mpz_xor h res res z2
                in Inr (normalize_mpz (k\<lparr>heap := h\<rparr>) res))
           | Other c i \<Rightarrow> Inl (Type_error v2 S_integer))
      | Other c i \<Rightarrow> Inl (Type_error v1 S_integer))"

definition CL_logxor :: "kernel \<Rightarrow> Value list \<Rightarrow> kvalue" where
  "CL_logxor k args =
     (case args of
        [] \<Rightarrow> Inr (Fixnum 0, k)
      | [a] \<Rightarrow> if integerp a then Inr (a, k) else Inl (Type_error a S_integer)
      | [a, b] \<Rightarrow> SYS_two_arg_logxor k a b
      | _ \<Rightarrow> fold_args SYS_two_arg_logxor k (Fixnum 0) args)"

definition logeqv :: "kernel \<Rightarrow> Value \<Rightarrow> Value \<Rightarrow> kvalue" where
  "logeqv k v1 v2 =
     (case v1 of
        Fixnum w1 \<Rightarrow>
          (case v2 of
             Fixnum w2 \<Rightarrow> (let n1 = xlong v1; n2 = xlong v2 in Inr (make_integer k (NOT (n1 XOR n2))))
           | Bignum_ref z2 \<Rightarrow>
               (let (res, k) = new_var k;
                    h = mpz_init_set_si (heap k) res (xlong v1);
                    h = mpz_xor h res res z2;
                    h = mpz_com h res res
                in Inr (normalize_mpz (k\<lparr>heap := h\<rparr>) res))
           | Other c i \<Rightarrow> Inl (Type_error v2 S_integer))
      | Bignum_ref z1 \<Rightarrow>
          (case v2 of
             Fixnum w2 \<Rightarrow>
               (let (res, k) = new_var k;
                    h = mpz_init_set_si (heap k) res (xlong v2);
                    h = mpz_xor h res res z1;
                    h = mpz_com h res res
                in Inr (normalize_mpz (k\<lparr>heap := h\<rparr>) res))
           | Bignum_ref z2 \<Rightarrow>
               (let (res, k) = new_var k;
                    h = mpz_init_set (heap k) res z1;
                    h = mpz_xor h res res z2;
                    h = mpz_com h res res
                in Inr (normalize_mpz (k\<lparr>heap := h\<rparr>) res))
           | Other c i \<Rightarrow> Inl (Type_error v2 S_integer))
      | Other c i \<Rightarrow> Inl (Type_error v1 S_integer))"

definition CL_logeqv :: "kernel \<Rightarrow> Value list \<Rightarrow> kvalue" where
  "CL_logeqv k args =
     (case args of
        [] \<Rightarrow> Inr (make_fixnum (- 1), k)
      | [a] \<Rightarrow> if integerp a then Inr (a, k) else Inl (Type_error a S_integer)
      | [a, b] \<Rightarrow> logeqv k a b
      | a # b # as \<Rightarrow> (case logeqv k a b of Inl e \<Rightarrow> Inl e | Inr (res, k) \<Rightarrow> fold_args logeqv k res as))"

subsection \<open>Tagged words\<close>

text \<open>The bitwise functions of two fixnums stay in the fixnum range, tag included.\<close>

lemma range_bits: "fixnum_range n \<longleftrightarrow> (\<forall>j \<ge> 61. bit n j = bit n 61)"
proof
  assume "fixnum_range n"
  then have e: "signed_take_bit 61 n = n" by (simp add: fixnum_range_iff signed_take_bit_int_eq_self)
  show "\<forall>j \<ge> 61. bit n j = bit n 61"
  proof (intro allI impI)
    fix j :: nat
    assume "61 \<le> j"
    then show "bit n j = bit n 61" using bit_signed_take_bit_iff [of 61 n j, unfolded e] by (simp add: min_def)
  qed
next
  assume high: "\<forall>j \<ge> 61. bit n j = bit n 61"
  have "bit n (min 61 j) = bit n j" for j
    by (cases "j \<le> 61") (simp, metis high min.absorb1 nat_le_linear)
  then have "signed_take_bit 61 n = n" by (intro bit_eqI) (simp add: bit_signed_take_bit_iff)
  then show "fixnum_range n"
    using signed_take_bit_int_greater_eq_minus_exp [of 61 n] signed_take_bit_int_less_exp [of 61 n]
    by (simp add: fixnum_range_iff)
qed

lemma range_logic:
  assumes "fixnum_range a" "fixnum_range b"
  shows "fixnum_range (a AND b)" "fixnum_range (a OR b)" "fixnum_range (a XOR b)" "fixnum_range (NOT a)"
  using assms unfolding range_bits bit_and_iff bit_or_iff bit_xor_iff bit_not_int_iff by metis+

lemma tagged_logic:
  assumes "int_value k (Fixnum v)" "int_value k (Fixnum w)"
  shows "yields k (Fixnum (v AND w), k) (int_of k (Fixnum v) AND int_of k (Fixnum w))"
    and "yields k (Fixnum (v OR w), k) (int_of k (Fixnum v) OR int_of k (Fixnum w))"
proof -
  have "take_bit 2 v = 0" "take_bit 2 w = 0" using assms by (simp_all add: int_value.simps fixnump.simps and_3_limb)
  then have "fixnump (Fixnum (v AND w))" "fixnump (Fixnum (v OR w))" by (simp_all add: fixnump.simps and_3_limb)
  moreover have "sint (signed_drop_bit 2 (v AND w)) = sint (signed_drop_bit 2 v) AND sint (signed_drop_bit 2 w)"
    "sint (signed_drop_bit 2 (v OR w)) = sint (signed_drop_bit 2 v) OR sint (signed_drop_bit 2 w)"
    by (simp_all add: sint_signed_drop_bit_eq long_logic)
  ultimately show "yields k (Fixnum (v AND w), k) (int_of k (Fixnum v) AND int_of k (Fixnum w))"
    "yields k (Fixnum (v OR w), k) (int_of k (Fixnum v) OR int_of k (Fixnum w))"
    by (simp_all add: yields_def int_value.simps xlong.simps)
qed

subsection \<open>Operations on local variables\<close>

lemma copy_local:
  assumes "writes (heap k) h (avail k) n" "\<not> fixnum_range n"
  shows "yields k (Bignum_copy (k\<lparr>avail := Suc (avail k), heap := h\<rparr>) (avail k)) n"
proof -
  let ?k = "k\<lparr>avail := Suc (avail k), heap := h\<rparr>"
  have "writes (heap ?k) (mpz_init_set (heap ?k) (avail ?k) (avail k)) (avail ?k) n"
    using mpz_init_set_writes [of h "avail k" "Suc (avail k)"] assms(1) by (simp add: writes_ok writes_val)
  from yields_bignum [OF this assms(2)] show ?thesis
    using yields_trans [OF extends_writes [OF le_refl assms(1)]] by (simp add: Bignum_copy_def new_var_def)
qed

lemma com_local:
  assumes "int_value k (Bignum_ref z)"
  shows "writes (heap k) (mpz_com (mpz_init (heap k) (avail k)) (avail k) z) (avail k) (NOT (int_of k (Bignum_ref z)))"
proof -
  have i: "writes (heap k) (mpz_init (heap k) (avail k)) (avail k) 0" by (rule mpz_init_writes)
  show ?thesis
    using writes_trans [OF i com.op_writes] local_keeps [OF assms i le_refl] writes_ok [OF i] by fastforce
qed

text \<open>
  The four shapes of a bitwise function on a local variable: a word or a bignum copied and
  combined in place, and the complement of a bignum combined with a word or with a bignum.
\<close>

context mpz_binary begin

lemma word_local:
  assumes "int_value k (Bignum_ref b)"
  shows "writes (heap k) (op (mpz_init_set_si (heap k) (avail k) n) (avail k) (avail k) b) (avail k) (f (sint n) (int_of k (Bignum_ref b)))"
  by (rule local_writes [OF mpz_init_set_si_writes le_refl assms])

lemma copied_local:
  assumes "int_value k (Bignum_ref z)" "int_value k (Bignum_ref b)"
  shows "writes (heap k) (op (mpz_init_set (heap k) (avail k) z) (avail k) (avail k) b) (avail k)
    (f (int_of k (Bignum_ref z)) (int_of k (Bignum_ref b)))"
  by (rule local_writes [OF copy_writes_local [OF assms(1)] le_refl assms(2)])

lemma com_word_local:
  assumes "int_value k (Bignum_ref z)"
  shows "yields k (normalize_mpz (k\<lparr>avail := Suc (Suc (avail k)),
      heap := op (mpz_init_set_si (mpz_com (mpz_init (heap k) (avail k)) (avail k) z) (Suc (avail k)) n)
        (Suc (avail k)) (avail k) (Suc (avail k))\<rparr>) (Suc (avail k))) (f (NOT (int_of k (Bignum_ref z))) (sint n))"
proof -
  define h where "h = mpz_com (mpz_init (heap k) (avail k)) (avail k) z"
  let ?x = "avail k" and ?y = "Suc (avail k)"
  have h: "writes (heap k) h ?x (NOT (int_of k (Bignum_ref z)))" unfolding h_def by (rule com_local [OF assms])
  have i: "writes h (mpz_init_set_si h ?y n) ?y (sint n)" by (rule mpz_init_set_si_writes)
  have "vars (mpz_init_set_si h ?y n) ?x = vars h ?x" by (rule writes_other [OF i]) simp
  then have "writes h (op (mpz_init_set_si h ?y n) ?y ?x ?y) ?y (f (NOT (int_of k (Bignum_ref z))) (sint n))"
    using writes_trans [OF i op_writes [OF writes_ok [OF i] _ writes_ok [OF i], of ?x]] writes_val [OF i] writes_ok [OF h] writes_val [OF h]
      mpz_ok_cong [of "mpz_init_set_si h ?y n" ?x h] mpz_val_cong [of "mpz_init_set_si h ?y n" ?x h] by simp
  then have "yields (k\<lparr>avail := ?y, heap := h\<rparr>)
      (normalize_mpz (k\<lparr>avail := Suc ?y, heap := op (mpz_init_set_si h ?y n) ?y ?x ?y\<rparr>) ?y) (f (NOT (int_of k (Bignum_ref z))) (sint n))"
    using normalize_local [of "k\<lparr>avail := ?y, heap := h\<rparr>" ?y] by simp
  then show ?thesis unfolding h_def [symmetric] by (rule yields_trans [OF extends_writes [OF le_refl h]])
qed

lemma com_bignum_local:
  assumes "int_value k (Bignum_ref z)" "int_value k (Bignum_ref b)"
  shows "yields k (normalize_mpz (k\<lparr>avail := Suc (Suc (avail k)),
      heap := op (mpz_init (mpz_com (mpz_init (heap k) (avail k)) (avail k) z) (Suc (avail k)))
        (Suc (avail k)) (avail k) b\<rparr>) (Suc (avail k))) (f (NOT (int_of k (Bignum_ref z))) (int_of k (Bignum_ref b)))"
proof -
  define h where "h = mpz_com (mpz_init (heap k) (avail k)) (avail k) z"
  let ?x = "avail k" and ?y = "Suc (avail k)"
  let ?k = "k\<lparr>avail := ?y, heap := h\<rparr>"
  have h: "writes (heap k) h ?x (NOT (int_of k (Bignum_ref z)))" unfolding h_def by (rule com_local [OF assms(1)])
  have e: "extends k ?k" by (rule extends_writes [OF le_refl h])
  have i: "writes h (mpz_init h ?y) ?y 0" by (rule mpz_init_writes)
  have "vars (mpz_init h ?y) ?x = vars h ?x" by (rule writes_other [OF i]) simp
  then have x: "mpz_ok (mpz_init h ?y) ?x" "mpz_val (mpz_init h ?y) ?x = NOT (int_of k (Bignum_ref z))"
    using writes_ok [OF h] writes_val [OF h] mpz_ok_cong [of "mpz_init h ?y" ?x h] mpz_val_cong [of "mpz_init h ?y" ?x h] by simp_all
  have b: "mpz_ok (mpz_init h ?y) b" "mpz_val (mpz_init h ?y) b = int_of k (Bignum_ref b)"
    using local_keeps [OF extends_value(1) [OF e assms(2)], of "mpz_init h ?y" ?y 0] i extends_value(2) [OF e assms(2)] by simp_all
  have "writes h (op (mpz_init h ?y) ?y ?x b) ?y (f (NOT (int_of k (Bignum_ref z))) (int_of k (Bignum_ref b)))"
    using writes_trans [OF i op_writes [OF writes_ok [OF i] x(1) b(1)]] x(2) b(2) by simp
  then have "yields ?k (normalize_mpz (k\<lparr>avail := Suc ?y, heap := op (mpz_init h ?y) ?y ?x b\<rparr>) ?y)
      (f (NOT (int_of k (Bignum_ref z))) (int_of k (Bignum_ref b)))"
    using normalize_local [of ?k ?y] by simp
  then show ?thesis unfolding h_def [symmetric] by (rule yields_trans [OF e])
qed

end

lemma yields_logic:
  "fixnum_range (sint (a :: limb)) \<Longrightarrow> fixnum_range (sint b) \<Longrightarrow> n = sint a AND sint b \<Longrightarrow> yields k (make_fixnum (a AND b), k) n"
  "fixnum_range (sint a) \<Longrightarrow> fixnum_range (sint b) \<Longrightarrow> n = sint a OR sint b \<Longrightarrow> yields k (make_fixnum (a OR b), k) n"
  "fixnum_range (sint a) \<Longrightarrow> fixnum_range (sint b) \<Longrightarrow> n = sint a XOR sint b \<Longrightarrow> yields k (make_fixnum (a XOR b), k) n"
  using range_logic [of "sint a" "sint b"] by (simp_all add: yields_fixnum long_logic)

lemma yields_zero: "yields k (Fixnum 0, k) 0"
  using Fixnum_0 by (simp add: yields_def)

lemma range_not: "fixnum_range n \<Longrightarrow> fixnum_range (NOT n)"
  using range_logic(4) by blast

subsection \<open>The bitwise functions compute on two's complement integers\<close>

context mpz_binary begin

lemma word_yields:
  assumes "int_value k (Bignum_ref b)" "m = f (sint n) (int_of k (Bignum_ref b))"
  shows "yields k (normalize_mpz (k\<lparr>avail := Suc (avail k),
      heap := op (mpz_init_set_si (heap k) (avail k) n) (avail k) (avail k) b\<rparr>) (avail k)) m"
  using normalize_local [OF le_refl word_local [OF assms(1), of n]] assms(2) by simp

lemma copied_yields:
  assumes "int_value k (Bignum_ref z)" "int_value k (Bignum_ref b)"
  shows "yields k (normalize_mpz (k\<lparr>avail := Suc (avail k),
      heap := op (mpz_init_set (heap k) (avail k) z) (avail k) (avail k) b\<rparr>) (avail k))
    (f (int_of k (Bignum_ref z)) (int_of k (Bignum_ref b)))"
  by (rule normalize_local [OF le_refl copied_local [OF assms]])

lemmas local_yields = word_yields copied_yields com_word_local com_bignum_local

end

interpretation logandc1: integer_op CL_logandc1 "\<lambda>a b. NOT a AND b"
proof unfold_locales
  fix k a b
  assume ab: "int_value k a" "int_value k b"
  show "returns k (CL_logandc1 k a b) (NOT (int_of k a) AND int_of k b)"
    using ab
    by (cases rule: int_cases [case_product int_cases])
      (simp_all add: CL_logandc1_def new_var_def yields_logic range_not long_logic and_z.local_yields returnsI)
qed

interpretation logandc2: integer_op CL_logandc2 "\<lambda>a b. a AND NOT b"
proof unfold_locales
  fix k a b
  assume ab: "int_value k a" "int_value k b"
  show "returns k (CL_logandc2 k a b) (int_of k a AND NOT (int_of k b))"
    using ab
    by (cases rule: int_cases [case_product int_cases])
      (simp_all add: CL_logandc2_def new_var_def yields_logic range_not long_logic and.commute [of _ "NOT _"]
        and_z.local_yields returnsI)
qed

interpretation logorc1: integer_op CL_logorc1 "\<lambda>a b. NOT a OR b"
proof unfold_locales
  fix k a b
  assume ab: "int_value k a" "int_value k b"
  show "returns k (CL_logorc1 k a b) (NOT (int_of k a) OR int_of k b)"
    using ab
    by (cases rule: int_cases [case_product int_cases])
      (simp_all add: CL_logorc1_def new_var_def yields_logic range_not long_logic ior_z.local_yields returnsI)
qed

interpretation logorc2: integer_op CL_logorc2 "\<lambda>a b. a OR NOT b"
proof unfold_locales
  fix k a b
  assume ab: "int_value k a" "int_value k b"
  show "returns k (CL_logorc2 k a b) (int_of k a OR NOT (int_of k b))"
    using ab
    by (cases rule: int_cases [case_product int_cases])
      (simp_all add: CL_logorc2_def new_var_def yields_logic range_not long_logic or.commute [of _ "NOT _"]
        ior_z.local_yields returnsI)
qed

text \<open>The low bits of a bignum are those that \<^verbatim>\<open>mpz_get_si\<close> returns, sign included.\<close>

lemma get_si_low_bits:
  assumes "mpz_ok st u"
  shows "take_bit 63 (sint (mpz_get_si st u)) = take_bit 63 (mpz_val st u)"
proof (cases "0 \<le> mpz_val st u")
  case True
  then show ?thesis using mpz_get_si_value [OF assms] by (simp add: take_bit_eq_mod)
next
  case False
  then have "sint (mpz_get_si st u) = NOT (take_bit 63 (NOT (mpz_val st u)))"
    using mpz_get_si_value [OF assms] by (simp add: not_eq_complement take_bit_eq_mod)
  then show ?thesis by (auto simp: bit_eq_iff bit_take_bit_iff bit_not_int_iff)
qed

lemma and_get_si:
  assumes "int_value k (Bignum_ref z)" "0 \<le> sint (n :: limb)"
  shows "sint n AND sint (mpz_get_si (heap k) z) = sint n AND int_of k (Bignum_ref z)"
proof -
  have n: "take_bit 63 (sint n) = sint n" using assms(2) sint_lt [of n] by (simp add: take_bit_int_eq_self)
  have "sint n AND x = sint n AND take_bit 63 x" for x
    by (subst (1 2) n [symmetric]) (auto simp: bit_eq_iff bit_and_iff bit_take_bit_iff)
  then show ?thesis using get_si_low_bits [of "heap k" z] assms(1) by (metis int_value.simps(2) int_of.simps(2))
qed

lemma and_fixnum_range:
  assumes "0 \<le> n" "fixnum_range n"
  shows "fixnum_range (n AND x)" "fixnum_range (x AND n)"
proof -
  have "0 \<le> n AND x" "n AND x \<le> n" using assms(1) by (simp_all add: AND_upper1)
  then show "fixnum_range (n AND x)" "fixnum_range (x AND n)"
    using assms(2) unfolding fixnum_range_iff and.commute [of x n] by linarith+
qed

interpretation logand: integer_op SYS_two_arg_logand "(AND)"
proof unfold_locales
  fix k a b
  assume ab: "int_value k a" "int_value k b"
  show "returns k (SYS_two_arg_logand k a b) (int_of k a AND int_of k b)"
    using ab
    by (cases rule: int_cases [case_product int_cases])
      (auto simp: SYS_two_arg_logand_def new_var_def tagged_logic [unfolded int_of.simps(1)] and_z.local_yields Let_def long_logic
         and_get_si and_fixnum_range and.commute intro!: returnsI yields_fixnum yields_zero)
qed

text \<open>
  The disjunction of a bignum with a nonnegative fixnum is outside the fixnum range, so that the
  object made without normalising keeps the invariant.
\<close>

lemma or_nonneg_range:
  assumes "fixnum_range n" "0 \<le> n" "\<not> fixnum_range v"
  shows "\<not> fixnum_range (n OR v)"
proof -
  have "\<not> bit n j" if "61 \<le> j" for j
  proof -
    have "take_bit 61 n = n" using assms(1,2) by (simp add: take_bit_int_eq_self fixnum_range_iff)
    then show ?thesis using that by (metis bit_take_bit_iff not_less)
  qed
  then have "bit (n OR v) j = bit v j" if "61 \<le> j" for j using that by (simp add: bit_or_iff)
  then show ?thesis using assms(3) by (metis le_refl range_bits)
qed

lemma or_word_copied:
  assumes "int_value k (Bignum_ref b)" "0 \<le> sint n" "fixnum_range (sint n)" "m = sint n OR int_of k (Bignum_ref b)"
  shows "yields k (Bignum_copy (k\<lparr>avail := Suc (avail k),
      heap := mpz_ior (mpz_init_set_si (heap k) (avail k) n) (avail k) (avail k) b\<rparr>) (avail k)) m"
  using copy_local [OF ior_z.word_local [OF assms(1), of n]] or_nonneg_range [OF assms(3,2) bignum_int [OF assms(1)]] assms(4) by simp

lemma yields_same: "int_value k v \<Longrightarrow> int_of k v = n \<Longrightarrow> yields k (v, k) n"
  by (simp add: yields_def)

interpretation logior: integer_op SYS_two_arg_logior "(OR)"
proof unfold_locales
  fix k a b
  assume ab: "int_value k a" "int_value k b"
  show "returns k (SYS_two_arg_logior k a b) (int_of k a OR int_of k b)"
    using ab
    by (cases rule: int_cases [case_product int_cases])
      (auto simp: SYS_two_arg_logior_def new_var_def tagged_logic [unfolded int_of.simps(1)] ior_z.local_yields or_word_copied
         Let_def or.commute yields_same intro!: returnsI)
qed

interpretation logxor: integer_op SYS_two_arg_logxor "(XOR)"
proof unfold_locales
  fix k a b
  assume ab: "int_value k a" "int_value k b"
  show "returns k (SYS_two_arg_logxor k a b) (int_of k a XOR int_of k b)"
    using ab
    by (cases rule: int_cases [case_product int_cases])
      (auto simp: SYS_two_arg_logxor_def new_var_def yields_logic xor_z.local_yields Let_def xor.commute intro!: returnsI)
qed

lemma complemented_local:
  assumes "writes st h x n" "m = NOT n"
  shows "writes st (mpz_com h x x) x m"
  using writes_in_place [OF assms(1), of "\<lambda>st. mpz_com st x x" "\<lambda>n. NOT n"] com.op_writes assms(2) by blast

interpretation logeqv: integer_op logeqv "\<lambda>a b. NOT (a XOR b)"
proof unfold_locales
  fix k a b
  assume ab: "int_value k a" "int_value k b"
  show "returns k (logeqv k a b) (NOT (int_of k a XOR int_of k b))"
    using ab
  proof (cases rule: int_cases [case_product int_cases])
    case (fixnum_fixnum v w)
    then show ?thesis
      using make_integer_yields [of k "NOT (xlong a XOR xlong b)"] by (simp add: logeqv_def long_logic returnsI)
  next
    case (fixnum_bignum v z)
    then show ?thesis
      using normalize_local [OF le_refl complemented_local [OF xor_z.word_local [of k z "xlong a"] refl]]
      by (simp add: logeqv_def new_var_def returnsI)
  next
    case (bignum_fixnum z w)
    then show ?thesis
      using normalize_local [OF le_refl complemented_local [OF xor_z.word_local [of k z "xlong b"] refl]]
      by (simp add: logeqv_def new_var_def returnsI xor.commute)
  next
    case (bignum_bignum y z)
    then show ?thesis
      using normalize_local [OF le_refl complemented_local [OF xor_z.copied_local [of k y z] refl]]
      by (simp add: logeqv_def new_var_def returnsI)
  qed
qed

subsection \<open>Any number of arguments\<close>

lemma CL_logand_returns:
  assumes "\<And>a. a \<in> set args \<Longrightarrow> int_value k a"
  shows "returns k (CL_logand k args) (foldl (AND) (- 1) (map (int_of k) args))"
proof (cases args rule: remdups_adj.cases)
  case (3 a b as)
  then show ?thesis
    using logand.fold_returns [of k "make_fixnum (- 1)" args] logand.op_returns [of k a b] assms
    by (cases as) (simp_all add: CL_logand_def)
qed (use assms int_value_integerp in \<open>auto simp: CL_logand_def yields_same intro!: returnsI\<close>)

lemma CL_logior_returns:
  assumes "\<And>a. a \<in> set args \<Longrightarrow> int_value k a"
  shows "returns k (CL_logior k args) (foldl (OR) 0 (map (int_of k) args))"
proof (cases args rule: remdups_adj.cases)
  case (3 a b as)
  then show ?thesis
    using logior.fold_returns [of k "make_fixnum 0" args] logior.op_returns [of k a b] assms
    by (cases as) (simp_all add: CL_logior_def Fixnum_0)
qed (use assms int_value_integerp in \<open>auto simp: CL_logior_def yields_same yields_zero intro!: returnsI\<close>)

lemma CL_logxor_returns:
  assumes "\<And>a. a \<in> set args \<Longrightarrow> int_value k a"
  shows "returns k (CL_logxor k args) (foldl (XOR) 0 (map (int_of k) args))"
proof (cases args rule: remdups_adj.cases)
  case (3 a b as)
  then show ?thesis
    using logxor.fold_returns [of k "make_fixnum 0" args] logxor.op_returns [of k a b] assms
    by (cases as) (simp_all add: CL_logxor_def Fixnum_0)
qed (use assms int_value_integerp in \<open>auto simp: CL_logxor_def yields_same yields_zero intro!: returnsI\<close>)

lemma CL_logeqv_returns:
  assumes "\<And>a. a \<in> set args \<Longrightarrow> int_value k a"
  shows "returns k (CL_logeqv k args) (foldl (\<lambda>a b. NOT (a XOR b)) (- 1) (map (int_of k) args))"
proof (cases args rule: remdups_adj.cases)
  case (3 a b as)
  then show ?thesis
    using logeqv.fold_returns [of k a "b # as"] logeqv.op_returns [of k a b] assms
    by (cases as) (simp_all add: CL_logeqv_def)
qed (use assms int_value_integerp in \<open>auto simp: CL_logeqv_def yields_same intro!: returnsI\<close>)

lemma CL_logtest_decides:
  assumes "int_value k a" "int_value k b"
  shows "CL_logtest rest k a b = Inr (int_of k a AND int_of k b \<noteq> 0)"
proof -
  obtain v k1 where "SYS_two_arg_logand k a b = Inr (v, k1)" "int_value k1 v" "int_of k1 v = int_of k a AND int_of k b"
    using logand.op_returns [OF assms] by (auto simp: returns_def yields_def)
  then show ?thesis by (simp add: CL_logtest_def signs)
qed

end
