(* ===== verification/Kernel_Shift.thy ===== *)
theory Kernel_Shift
  imports Kernel_Logic
begin

text \<open>
  Shifts and lengths of Lisp integers: \<^verbatim>\<open>ash\<close> and \<^verbatim>\<open>integer-length\<close> of \<^verbatim>\<open>kernel/numbers.cpp\<close>, and
  \<^verbatim>\<open>mpz_sizeinbase\<close> (\<^verbatim>\<open>mpz/sizeinbase.c\<close>, \<^verbatim>\<open>MPN_SIZEINBASE\<close> of \<^verbatim>\<open>gmp-impl.h\<close>) on which the length of a bignum
  rests. The branch of \<^verbatim>\<open>MPN_SIZEINBASE\<close> for bases that are not powers of two computes in floating
  point and is the parameter \<open>approx\<close>.
\<close>

subsection \<open>Size in a base\<close>

text \<open>The \<^verbatim>\<open>big_base\<close> column of \<^verbatim>\<open>mp_bases\<close> for the powers of two.\<close>

definition POW2_P :: "nat \<Rightarrow> bool" where
  "POW2_P n \<longleftrightarrow> n AND (n - 1) = 0"

fun mp_bases_lb :: "nat \<Rightarrow> nat" where
  "mp_bases_lb base =
     (if base = 2 then 1 else if base = 4 then 2 else if base = 8 then 3 else if base = 16 then 4
      else if base = 32 then 5 else if base = 64 then 6 else if base = 128 then 7 else if base = 256 then 8 else 0)"

definition MPN_SIZEINBASE :: "(nat \<Rightarrow> nat \<Rightarrow> nat) \<Rightarrow> limb list \<Rightarrow> nat \<Rightarrow> nat \<Rightarrow> nat" where
  "MPN_SIZEINBASE approx ptr n base =
     (if n = 0 then 1
      else
        (let cnt = count_leading_zeros (ptr ! (n - 1));
             totbits = n * 64 - cnt
         in if POW2_P base then (let lb_base = mp_bases_lb base in (totbits + lb_base - 1) div lb_base)
            else approx totbits base + 1))"

definition mpz_sizeinbase :: "(nat \<Rightarrow> nat \<Rightarrow> nat) \<Rightarrow> store \<Rightarrow> var \<Rightarrow> nat \<Rightarrow> nat" where
  "mpz_sizeinbase approx st x base = MPN_SIZEINBASE approx (PTR st x) (ABSIZ st x) base"

subsection \<open>Shifts\<close>

text \<open>The part of \<^verbatim>\<open>CL_ash\<close> on integer variables, then the function with its cases on \<^verbatim>\<open>long\<close> values.\<close>

definition ash_mpz :: "kernel \<Rightarrow> Value \<Rightarrow> Value \<Rightarrow> kvalue" where
  "ash_mpz k arg1 arg2 =
     (let (z, k) = new_var k;
          init = (case arg1 of
                    Fixnum w \<Rightarrow> Inr (mpz_init_set_si (heap k) z (xlong arg1))
                  | Bignum_ref b \<Rightarrow> Inr (mpz_init_set (heap k) z b)
                  | Other c i \<Rightarrow> Inl (Type_error arg1 S_integer))
      in case init of
           Inl e \<Rightarrow> Inl e
         | Inr h \<Rightarrow>
             (case arg2 of
                Fixnum w \<Rightarrow>
                  (let shift = xlong arg2;
                       h = (if sint shift \<ge> 0 then mpz_mul_2exp h z z (unat shift)
                            else mpz_fdiv_q_2exp h z z (unat (- shift)))
                   in Inr (normalize_mpz (k\<lparr>heap := h\<rparr>) z))
              | Bignum_ref b \<Rightarrow>
                  if Bignum_plusp (k\<lparr>heap := h\<rparr>) b then Inl Cannot_shift
                  else Inr (if mpz_sgn h z \<ge> 0 then Fixnum 0 else make_fixnum (- 1), k\<lparr>heap := h\<rparr>)
              | Other c i \<Rightarrow> Inl (Type_error arg2 S_integer)))"

definition CL_ash :: "kernel \<Rightarrow> Value \<Rightarrow> Value \<Rightarrow> kvalue" where
  "CL_ash k arg1 arg2 =
     (if arg2 = Fixnum 0 then (if integerp arg1 then Inr (arg1, k) else Inl (Type_error arg1 S_integer))
      else if arg1 = Fixnum 0 then (if \<not> integerp arg2 then Inl (Type_error arg2 S_integer) else Inr (arg1, k))
      else if fixnump arg1 \<and> fixnump arg2 then
        (let n = xlong arg1; shift = xlong arg2
         in if sint shift > 0 then
              (if sint n > 0 \<and> sint n < 4294967296 \<and> sint shift \<le> 32
               then Inr (make_unsigned_integer k (push_bit (unat shift) n))
               else if sint shift < 3 then Inr (make_integer k (push_bit (unat shift) n))
               else ash_mpz k arg1 arg2)
            else if sint shift > - (64 - 3) then Inr (make_integer k (signed_drop_bit (unat (- shift)) n))
            else Inr (if sint n \<ge> 0 then Fixnum 0 else make_fixnum (- 1), k))
      else ash_mpz k arg1 arg2)"

subsection \<open>Integer length\<close>

text \<open>The loop \<^verbatim>\<open>while (n > 0) { n = n >> 1; ++count; }\<close>.\<close>

function length_loop :: "limb \<Rightarrow> limb \<Rightarrow> limb" where
  "length_loop n count = (if 0 < sint n then length_loop (signed_drop_bit 1 n) (count + 1) else count)"
  by pat_completeness auto

termination
proof (relation "measure (\<lambda>(n, count). nat (sint n))")
  fix n count :: limb
  assume "0 < sint n"
  then show "((signed_drop_bit 1 n, count + 1), n, count) \<in> measure (\<lambda>(n, count). nat (sint n))"
    by (simp add: sint_signed_drop_bit_eq drop_bit_eq_div)
qed simp

declare length_loop.simps [simp del]

definition CL_integer_length :: "(nat \<Rightarrow> nat \<Rightarrow> nat) \<Rightarrow> kernel \<Rightarrow> Value \<Rightarrow> kvalue" where
  "CL_integer_length approx k arg =
     (case arg of
        Fixnum w \<Rightarrow>
          (let n = xlong arg;
               n = (if sint n < 0 then NOT n else n)
           in Inr (make_fixnum (length_loop n 0), k))
      | Bignum_ref b \<Rightarrow>
          (let (z, k) = new_var k;
               h = mpz_init_set (heap k) z b;
               h = (if mpz_sgn h z < 0 then mpz_com h z z else h)
           in Inr (make_integer (k\<lparr>heap := h\<rparr>) (of_nat (mpz_sizeinbase approx h z 2))))
      | Other c i \<Rightarrow> Inl (Type_error arg S_integer))"

subsection \<open>The size in a base that is a power of two is exact\<close>

lemma total_bits:
  assumes "xs \<noteq> []" "last xs \<noteq> 0"
  defines "t \<equiv> length xs * 64 - count_leading_zeros (last xs)"
  shows "0 < t" "2 ^ (t - 1) \<le> lval xs" "lval xs < 2 ^ t"
proof -
  let ?c = "count_leading_zeros (last xs)" and ?n = "length xs - 1"
  note c = count_leading_zeros_spec [of "last xs"]
  have t: "t = 64 * ?n + (64 - ?c)" "t - 1 = 64 * ?n + (63 - ?c)"
    using assms c(1) by (cases xs; simp)+
  show "0 < t" using t(1) c(1) assms(2) by simp
  have pow: "(2 :: int) ^ (64 * ?n + j) = B ^ ?n * 2 ^ j" for j by (simp add: power_add power_mult B_def)
  have v: "lval xs = lval (butlast xs) + B ^ ?n * uint (last xs)" using lval_butlast_last [OF assms(1)] by simp
  have b: "0 \<le> lval (butlast xs)" "lval (butlast xs) < B ^ ?n" using lval_lt [of "butlast xs"] by simp_all
  have "B ^ ?n * 2 ^ (63 - ?c) \<le> B ^ ?n * uint (last xs)" using c(2) assms(2) by simp
  then show "2 ^ (t - 1) \<le> lval xs" unfolding t(2) pow v using b by linarith
  have "B ^ ?n * (uint (last xs) + 1) \<le> B ^ ?n * 2 ^ (64 - ?c)" using c(3) assms(2) by simp
  then show "lval xs < 2 ^ t" unfolding t(1) pow v using b by (simp add: distrib_left)
qed

lemma ceil_div_bounds:
  assumes "0 < l" "0 < t" "2 ^ (t - 1) \<le> v" "v < (2 :: int) ^ t"
  shows "(2 ^ l) ^ ((t + l - 1) div l - 1) \<le> v" "v < (2 ^ l) ^ ((t + l - 1) div l)"
proof -
  let ?q = "(t + l - 1) div l"
  have q: "t \<le> l * ?q" "l * (?q - 1) \<le> t - 1"
  proof -
    have "t + l - 1 < l * (?q + 1)" using assms(1) dividend_less_times_div [of l "t + l - 1"] by simp
    then show "t \<le> l * ?q" by (simp add: algebra_simps)
    have "l * ?q \<le> t + l - 1" by simp
    then have "l * ?q - l \<le> t - 1" using assms(2) by linarith
    then show "l * (?q - 1) \<le> t - 1" by (simp add: right_diff_distrib')
  qed
  have "(2 :: int) ^ (l * (?q - 1)) \<le> 2 ^ (t - 1)" "(2 :: int) ^ t \<le> 2 ^ (l * ?q)"
    by (rule power_increasing [OF q(2)], simp, rule power_increasing [OF q(1)], simp)
  then show "(2 ^ l) ^ (?q - 1) \<le> v" "v < (2 ^ l) ^ ?q" using assms unfolding power_mult [symmetric] by linarith+
qed

lemma mpz_sizeinbase_exact:
  assumes "mpz_ok st x" "mpz_val st x \<noteq> 0" "0 < l" "l \<le> 8"
  shows "(2 ^ l) ^ (mpz_sizeinbase approx st x (2 ^ l) - 1) \<le> \<bar>mpz_val st x\<bar>"
    and "\<bar>mpz_val st x\<bar> < (2 ^ l) ^ mpz_sizeinbase approx st x (2 ^ l)"
    and "mpz_sizeinbase approx st x 2 \<le> 64 * ABSIZ st x"
proof -
  have "l \<in> {1, 2, 3, 4, 5, 6, 7, 8}" using assms(3,4) by auto
  then have base: "POW2_P (2 ^ l)" "mp_bases_lb (2 ^ l) = l" by (auto simp: POW2_P_def)
  have s: "SIZ st x \<noteq> 0" using assms(1,2) mpz_val_eq_0_iff by blast
  then have m: "mag st x \<noteq> []" "last (mag st x) \<noteq> 0" using assms(1) mag_eq_Nil_iff last_mag_ne_0 by auto
  have n: "ABSIZ st x = length (mag st x)" "ABSIZ st x \<noteq> 0" using s length_mag [OF assms(1)] by (simp_all add: ABSIZ_def)
  then have top: "PTR st x ! (ABSIZ st x - 1) = last (mag st x)"
    using m(1) nth_mag [of "ABSIZ st x - 1" st x] by (simp add: last_conv_nth)
  note t = total_bits [OF m]
  let ?t = "length (mag st x) * 64 - count_leading_zeros (last (mag st x))"
  have e: "mpz_sizeinbase approx st x (2 ^ l) = (?t + l - 1) div l"
    using n base top by (simp add: mpz_sizeinbase_def MPN_SIZEINBASE_def Let_def del: mp_bases_lb.simps)
  show "(2 ^ l) ^ (mpz_sizeinbase approx st x (2 ^ l) - 1) \<le> \<bar>mpz_val st x\<bar>"
    "\<bar>mpz_val st x\<bar> < (2 ^ l) ^ mpz_sizeinbase approx st x (2 ^ l)"
    unfolding e lval_mag_abs [OF assms(1), symmetric] by (rule ceil_div_bounds [OF assms(3) t])+
  show "mpz_sizeinbase approx st x 2 \<le> 64 * ABSIZ st x"
    using n top by (simp add: mpz_sizeinbase_def MPN_SIZEINBASE_def POW2_P_def)
qed

subsection \<open>The length of an integer\<close>

definition bits_of :: "int \<Rightarrow> int" where
  "bits_of n = (if n < 0 then NOT n else n)"

text \<open>The length: the least number of bits of a two's complement representation without its sign.\<close>

definition is_length :: "int \<Rightarrow> int \<Rightarrow> bool" where
  "is_length n l \<longleftrightarrow> 0 \<le> l \<and> bits_of n < 2 ^ nat l \<and> (0 < l \<longrightarrow> 2 ^ nat (l - 1) \<le> bits_of n)"

lemma length_loop_spec:
  assumes "0 \<le> sint n" "sint n < 2 ^ j" "0 \<le> sint c" "sint c + int j < 2 ^ 63"
  shows "sint c \<le> sint (length_loop n c) \<and> sint (length_loop n c) \<le> sint c + int j \<and>
    sint n < 2 ^ nat (sint (length_loop n c) - sint c) \<and>
    (0 < sint (length_loop n c) - sint c \<longrightarrow> 2 ^ nat (sint (length_loop n c) - sint c - 1) \<le> sint n)"
  using assms
proof (induction n c arbitrary: j rule: length_loop.induct)
  case (1 n c)
  show ?case
  proof (cases "0 < sint n")
    case True
    let ?n = "signed_drop_bit 1 n" and ?l = "length_loop (signed_drop_bit 1 n) (c + 1)"
    obtain i where j: "j = Suc i" using 1(3) True by (cases j) auto
    have n: "sint ?n = sint n div 2" by (simp add: sint_signed_drop_bit_eq drop_bit_eq_div)
    have c: "sint (c + 1) = sint c + 1" using 1(4,5) j long_exact(2) [of c 1] by simp
    have "sint ?n < 2 ^ i" using 1(3) n j by simp
    then have ih: "sint c + 1 \<le> sint ?l" "sint ?l \<le> sint c + 1 + int i" "sint ?n < 2 ^ nat (sint ?l - (sint c + 1))"
      "0 < sint ?l - (sint c + 1) \<longrightarrow> 2 ^ nat (sint ?l - (sint c + 1) - 1) \<le> sint ?n"
      using 1(1) [OF True, of i] 1(2,4,5) True j n c by auto
    obtain d where d: "sint ?l = sint c + 1 + int d" using ih(1) by (metis zle_iff_zadd)
    have "sint n < 2 ^ Suc d" using ih(3) d n by (simp add: )
    moreover have "2 ^ d \<le> sint n"
    proof (cases d)
      case 0
      then show ?thesis using True by simp
    next
      case (Suc e)
      then have "2 ^ e \<le> sint n div 2" using ih(4) d n by simp
      then show ?thesis using Suc by simp
    qed
    moreover have "length_loop n c = ?l" using True by (subst length_loop.simps) simp
    ultimately show ?thesis using ih(1,2) d j by (simp add: nat_add_distrib)
  next
    case False
    then show ?thesis using 1(2,4) by (simp add: length_loop.simps)
  qed
qed

lemma CL_integer_length_fixnum:
  assumes "int_value k (Fixnum w)"
  shows "\<exists>l. returns k (CL_integer_length approx k (Fixnum w)) l \<and> is_length (int_of k (Fixnum w)) l"
proof -
  let ?x = "xlong (Fixnum w)"
  let ?n = "if sint ?x < 0 then NOT ?x else ?x"
  let ?l = "length_loop ?n 0"
  have x: "sint ?n = bits_of (sint ?x)" by (simp add: bits_of_def long_logic)
  have r: "fixnum_range (sint ?x)" using fixnum_int [OF assms] by simp
  then have b: "0 \<le> sint ?n" "sint ?n < 2 ^ 61"
    unfolding x by (auto simp: bits_of_def fixnum_range_iff not_eq_complement)
  have l: "0 \<le> sint ?l" "sint ?l \<le> 61" "sint ?n < 2 ^ nat (sint ?l)" "0 < sint ?l \<longrightarrow> 2 ^ nat (sint ?l - 1) \<le> sint ?n"
    using length_loop_spec [OF b, of 0] by auto
  have "yields k (make_fixnum ?l, k) (sint ?l)" using l(1,2) by (intro yields_fixnum) (simp_all add: fixnum_range_iff)
  then have "returns k (CL_integer_length approx k (Fixnum w)) (sint ?l)"
    by (simp add: CL_integer_length_def Let_def returnsI)
  moreover have "is_length (int_of k (Fixnum w)) (sint ?l)" using l x by (simp add: is_length_def)
  ultimately show ?thesis by blast
qed

lemma CL_integer_length_bignum:
  assumes "sized k (Bignum_ref b)"
  shows "\<exists>l. returns k (CL_integer_length approx k (Bignum_ref b)) l \<and> is_length (int_of k (Bignum_ref b)) l"
proof -
  let ?v = "int_of k (Bignum_ref b)" and ?z = "avail k"
  have b: "int_value k (Bignum_ref b)" using assms by (rule sized_int_value)
  note c = copy_writes_local [OF b]
  define h0 where "h0 = mpz_init_set (heap k) ?z b"
  define h where "h = (if mpz_sgn h0 ?z < 0 then mpz_com h0 ?z ?z else h0)"
  have sg: "mpz_sgn h0 ?z < 0 \<longleftrightarrow> ?v < 0"
    using sgn_mpz_val [OF writes_ok [OF c]] writes_val [OF c] by (auto simp: h0_def mpz_sgn_def sgn_if split: if_splits)
  have h: "writes (heap k) h ?z (bits_of ?v)"
    using c complemented_local [OF c refl] sg by (simp add: h_def h0_def bits_of_def)
  let ?l = "mpz_sizeinbase approx h ?z 2"
  have v: "mpz_val h ?z = bits_of ?v" by (rule writes_val [OF h])
  have nz: "0 < bits_of ?v" "bits_of ?v \<le> \<bar>?v\<bar>"
    using bignum_int [OF b] by (auto simp: bits_of_def fixnum_range_iff not_eq_complement)
  then have s: "2 ^ (?l - 1) \<le> bits_of ?v" "bits_of ?v < 2 ^ ?l" "?l \<le> 64 * ABSIZ h ?z"
    using mpz_sizeinbase_exact [OF writes_ok [OF h], of 1 approx] v by simp_all
  have "ABSIZ h ?z \<le> ABSIZ (heap k) b"
    using size_le_iff [OF writes_ok [OF h], of "ABSIZ (heap k) b"] size_le_iff [of "heap k" b "ABSIZ (heap k) b"] b nz v
    by (simp add: int_value.simps int_of.simps)
  then have small: "int ?l < 2 ^ 63" using s(3) assms by (simp add: sized_def)
  then have l: "sint (of_nat ?l :: limb) = int ?l" using long_exact(1) [of "int ?l"] by simp
  have "yields k (make_integer (k\<lparr>avail := Suc ?z, heap := h\<rparr>) (of_nat ?l)) (int ?l)"
    using yields_trans [OF extends_writes [OF le_refl h] make_integer_yields [where n = "of_nat ?l"]] l by simp
  moreover have "CL_integer_length approx k (Bignum_ref b) = Inr (make_integer (k\<lparr>avail := Suc ?z, heap := h\<rparr>) (of_nat ?l))"
    unfolding CL_integer_length_def new_var_def Let_def Value.case prod.case heap_set_avail h_def h0_def by simp
  ultimately have "returns k (CL_integer_length approx k (Bignum_ref b)) (int ?l)" by (simp add: returnsI)
  moreover have "is_length ?v (int ?l)" using s(1,2) by (simp add: is_length_def nat_diff_distrib)
  ultimately show ?thesis by blast
qed

lemma CL_integer_length_spec:
  assumes "sized k a"
  shows "\<exists>l. returns k (CL_integer_length approx k a) l \<and> is_length (int_of k a) l"
  using sized_int_value [OF assms] assms CL_integer_length_fixnum CL_integer_length_bignum
  by (cases rule: int_cases) blast+

lemma is_length_unique:
  assumes "is_length n l" "is_length n m"
  shows "l = m"
proof -
  have "l \<le> m" if "is_length n l" "is_length n m" for l m
  proof (rule ccontr)
    assume "\<not> l \<le> m"
    then have "(2 :: int) ^ nat m \<le> 2 ^ nat (l - 1)" using that(2) by (intro power_increasing) (auto simp: is_length_def)
    moreover have "2 ^ nat (l - 1) \<le> bits_of n" "bits_of n < 2 ^ nat m"
      using that \<open>\<not> l \<le> m\<close> unfolding is_length_def by linarith+
    ultimately show False by linarith
  qed
  then show ?thesis using assms by (meson antisym)
qed

lemma is_length_least:
  assumes "is_length n l"
  shows "- (2 ^ nat l) \<le> n \<and> n < 2 ^ nat l \<and> (\<forall>m < nat l. \<not> (- (2 ^ m) \<le> n \<and> n < 2 ^ m))"
proof -
  have b: "- (2 ^ m) \<le> n \<and> n < 2 ^ m \<longleftrightarrow> bits_of n < 2 ^ m" for m :: nat
    using zero_less_power [of "2 :: int" m] by (auto simp: bits_of_def not_eq_complement)
  have "\<not> bits_of n < 2 ^ m" if "m < nat l" for m
  proof -
    have "(2 :: int) ^ m \<le> 2 ^ nat (l - 1)" using that by (intro power_increasing) auto
    then show ?thesis using that assms unfolding is_length_def by linarith
  qed
  then show ?thesis unfolding b conj_assoc [symmetric] using assms by (simp add: is_length_def)
qed

subsection \<open>Arithmetic shifts\<close>

definition shifted :: "int \<Rightarrow> int \<Rightarrow> int" where
  "shifted n s = (if 0 \<le> s then n * 2 ^ nat s else n div 2 ^ nat (- s))"

lemma long_shifts:
  fixes n :: limb
  shows "- (2 ^ 63) \<le> sint n * 2 ^ c \<Longrightarrow> sint n * 2 ^ c < 2 ^ 63 \<Longrightarrow> sint (push_bit c n) = sint n * 2 ^ c"
    and "sint (signed_drop_bit c n) = sint n div 2 ^ c"
    and "0 \<le> sint n \<Longrightarrow> sint n * 2 ^ c < B \<Longrightarrow> uint (push_bit c n) = sint n * 2 ^ c"
proof -
  show "sint (push_bit c n) = sint n * 2 ^ c" if "- (2 ^ 63) \<le> sint n * 2 ^ c" "sint n * 2 ^ c < 2 ^ 63"
  proof -
    have "push_bit c n = word_of_int (sint n * 2 ^ c)" by (simp add: push_bit_eq_mult)
    then show ?thesis using long_exact(1) [OF that] by (simp only:)
  qed
  show "sint (signed_drop_bit c n) = sint n div 2 ^ c" by (simp add: sint_signed_drop_bit_eq drop_bit_eq_div)
  show "uint (push_bit c n) = sint n * 2 ^ c" if "0 \<le> sint n" "sint n * 2 ^ c < B"
    using that by (simp add: uint_push_limb uint_of_nonneg)
qed

lemma div_pow_large:
  assumes "- (2 ^ c) \<le> n" "n < (2 :: int) ^ c"
  shows "n div 2 ^ c = (if 0 \<le> n then 0 else - 1)"
proof (cases "0 \<le> n")
  case False
  then show ?thesis using assms by (intro int_div_pos_eq [where r = "n + 2 ^ c", THEN trans]) auto
qed (use assms in simp)


text \<open>The value a variable is initialised with, and its shift in place.\<close>

definition init_of :: "kernel \<Rightarrow> Value \<Rightarrow> store" where
  "init_of k a = (case a of Bignum_ref b \<Rightarrow> mpz_init_set (heap k) (avail k) b
                  | _ \<Rightarrow> mpz_init_set_si (heap k) (avail k) (xlong a))"

lemma init_of_writes: "int_value k a \<Longrightarrow> writes (heap k) (init_of k a) (avail k) (int_of k a)"
  by (cases rule: int_cases)
    (auto simp: init_of_def copy_writes_local intro: mpz_init_set_si_writes)

lemma nat_sint: "0 \<le> sint s \<Longrightarrow> unat s = nat (sint s)" "sint s < 0 \<Longrightarrow> unat (- s) = nat (- sint s)" for s :: limb
  using uint_of_nonneg [of s] uint_of_negated [of s] by (simp_all add: unat_eq_nat_uint)

context mpz_bitcnt begin

lemma shift_local: "writes st h w m \<Longrightarrow> writes st (op h w w c) w (f m c)"
  by (erule writes_in_place) (rule op_writes)

end

lemma ash_mpz_fixnum:
  assumes "int_value k a"
  shows "returns k (ash_mpz k a (Fixnum w)) (shifted (int_of k a) (int_of k (Fixnum w)))"
proof -
  let ?z = "avail k" and ?s = "xlong (Fixnum w)"
  let ?h = "if sint ?s \<ge> 0 then mpz_mul_2exp (init_of k a) ?z ?z (unat ?s) else mpz_fdiv_q_2exp (init_of k a) ?z ?z (unat (- ?s))"
  note i = init_of_writes [OF assms]
  have "writes (heap k) ?h ?z (shifted (int_of k a) (int_of k (Fixnum w)))"
    using mul_2exp.shift_local [OF i, of "unat ?s"] fdiv_q_2exp.shift_local [OF i, of "unat (- ?s)"] nat_sint [of ?s]
    by (cases "0 \<le> sint ?s") (simp_all add: shifted_def)
  from normalize_local [OF le_refl this] have "returns k (Inr (normalize_mpz (k\<lparr>avail := Suc ?z, heap := ?h\<rparr>) ?z))
      (shifted (int_of k a) (int_of k (Fixnum w)))" by (rule returnsI)
  moreover have "ash_mpz k a (Fixnum w) = Inr (normalize_mpz (k\<lparr>avail := Suc ?z, heap := ?h\<rparr>) ?z)"
    using assms
    by (cases rule: int_cases)
      (simp_all add: ash_mpz_def new_var_def init_of_def)
  ultimately show ?thesis by simp
qed

lemma ash_mpz_bignum:
  assumes "int_value k a" "int_value k (Bignum_ref b)" "int_of k (Bignum_ref b) < 0"
  shows "returns k (ash_mpz k a (Bignum_ref b)) (if 0 \<le> int_of k a then 0 else - 1)"
proof -
  let ?z = "avail k"
  let ?h = "init_of k a"
  let ?k = "k\<lparr>avail := Suc ?z, heap := ?h\<rparr>"
  note i = init_of_writes [OF assms(1)]
  note e = extends_writes [OF le_refl i]
  have b: "\<not> Bignum_plusp ?k b"
    using Bignum_sign [OF extends_value(1) [OF e assms(2)]] extends_value(2) [OF e assms(2)] assms(3) by simp
  have s: "mpz_sgn ?h ?z \<ge> 0 \<longleftrightarrow> 0 \<le> int_of k a"
    using sgn_mpz_val [OF writes_ok [OF i]] writes_val [OF i] by (auto simp: mpz_sgn_def sgn_if split: if_splits)
  have "ash_mpz k a (Bignum_ref b) = Inr (if 0 \<le> int_of k a then Fixnum 0 else make_fixnum (- 1), ?k)"
    using assms(1) b s by (cases rule: int_cases) (simp_all add: ash_mpz_def new_var_def init_of_def)
  moreover have "yields ?k (if 0 \<le> int_of k a then Fixnum 0 else make_fixnum (- 1), ?k) (if 0 \<le> int_of k a then 0 else - 1)"
    by (auto simp: yields_zero intro: yields_same)
  ultimately show ?thesis using yields_trans [OF e] by (simp add: returnsI)
qed

lemma shifted_0 [simp]: "shifted n 0 = n" "shifted 0 s = 0"
  by (simp_all add: shifted_def)

lemma ash_left:
  fixes n s :: limb
  assumes "fixnum_range (sint n)" "0 < sint s"
  shows "0 < sint n \<Longrightarrow> sint n < 4294967296 \<Longrightarrow> sint s \<le> 32 \<Longrightarrow>
      yields k (make_unsigned_integer k (push_bit (unat s) n)) (shifted (sint n) (sint s))"
    and "sint s < 3 \<Longrightarrow> yields k (make_integer k (push_bit (unat s) n)) (shifted (sint n) (sint s))"
proof -
  have c: "shifted (sint n) (sint s) = sint n * 2 ^ unat s" using assms(2) nat_sint [of s] by (simp add: shifted_def)
  show "yields k (make_unsigned_integer k (push_bit (unat s) n)) (shifted (sint n) (sint s))"
    if "0 < sint n" "sint n < 4294967296" "sint s \<le> 32"
  proof -
    have "(2 :: int) ^ unat s \<le> 2 ^ 32" using that(3) assms(2) nat_sint [of s] by (intro power_increasing) auto
    then have "sint n * 2 ^ unat s < 2 ^ 32 * 2 ^ 32" using that(1,2) by (intro mult_less_le_imp_less) auto
    then have "uint (push_bit (unat s) n) = sint n * 2 ^ unat s" using that(1) by (intro long_shifts(3)) (simp_all add: B_def)
    then show ?thesis unfolding c using make_unsigned_integer_yields [of k "push_bit (unat s) n"] by simp
  qed
  show "yields k (make_integer k (push_bit (unat s) n)) (shifted (sint n) (sint s))" if "sint s < 3"
  proof -
    have "unat s = 1 \<or> unat s = 2" using that assms(2) nat_sint [of s] by linarith
    then have "sint (push_bit (unat s) n) = sint n * 2 ^ unat s"
      using assms(1) by (intro long_shifts(1)) (auto simp: fixnum_range_iff)
    then show ?thesis unfolding c using make_integer_yields [of k "push_bit (unat s) n"] by simp
  qed
qed

lemma ash_right:
  fixes n s :: limb
  assumes "sint s < 0"
  shows "yields k (make_integer k (signed_drop_bit (unat (- s)) n)) (shifted (sint n) (sint s))"
  using make_integer_yields [of k "signed_drop_bit (unat (- s)) n"] assms nat_sint [of s]
  by (simp add: shifted_def long_shifts(2))

lemma shifted_out:
  assumes "s \<le> - int c" "\<bar>n\<bar> \<le> 2 ^ c" "n < 2 ^ c" "0 < c"
  shows "shifted n s = (if 0 \<le> n then 0 else - 1)"
proof -
  have "(2 :: int) ^ c \<le> 2 ^ nat (- s)" using assms(1) by (intro power_increasing) auto
  then have "n div 2 ^ nat (- s) = (if 0 \<le> n then 0 else - 1)" using assms(2,3) by (intro div_pow_large) linarith+
  then show ?thesis using assms(1,4) by (simp add: shifted_def)
qed

lemma CL_ash_fixnum:
  assumes "int_value k (Fixnum v)" "int_value k (Fixnum w)"
  shows "returns k (CL_ash k (Fixnum v) (Fixnum w)) (shifted (int_of k (Fixnum v)) (int_of k (Fixnum w)))"
proof -
  let ?n = "xlong (Fixnum v)" and ?s = "xlong (Fixnum w)"
  have r: "fixnum_range (sint ?n)" using fixnum_int [OF assms(1)] by simp
  have z: "w = 0 \<longleftrightarrow> sint ?s = 0" "v = 0 \<Longrightarrow> sint ?n = 0"
    using xlong_tag [of w] xlong_tag [of v] assms long_eqI [of w 0] by (auto simp: int_value.simps)
  have out: "sint ?s \<le> - 61 \<Longrightarrow> shifted (sint ?n) (sint ?s) = (if 0 \<le> sint ?n then 0 else - 1)"
    using r by (intro shifted_out [where c = 61]) (auto simp: fixnum_range_iff)
  consider "w = 0" | "w \<noteq> 0" "v = 0" | "w \<noteq> 0" "v \<noteq> 0" "0 < sint ?s" | "w \<noteq> 0" "v \<noteq> 0" "sint ?s < 0" using z(1) by linarith
  then show ?thesis
  proof cases
    case 1
    then show ?thesis
      using assms(1) z(1) int_value_integerp [OF assms(1)] returns_self [OF assms(1)] by (simp add: CL_ash_def shifted_def)
  next
    case 2
    then show ?thesis
      using assms z(2) int_value_integerp [OF assms(2)] returns_self [OF assms(1)] by (simp add: CL_ash_def shifted_def)
  next
    case 3
    then show ?thesis
      using assms ash_left [OF r, of ?s k] ash_mpz_fixnum [OF assms(1), of w] by (simp add: CL_ash_def Let_def int_value.simps returnsI)
  next
    case 4
    then show ?thesis
      using assms ash_right [of ?s k ?n] out yields_zero [of k] yields_same [of k "make_fixnum (- 1)" "- 1"]
      by (simp add: CL_ash_def Let_def int_value.simps returnsI not_less)
  qed
qed

lemma sized_bound:
  assumes "sized k a"
  shows "\<bar>int_of k a\<bar> < 2 ^ (64 * limbs k a)" "64 * limbs k a < 2 ^ 36" "0 < limbs k a"
proof -
  have pow: "(2 :: int) ^ (64 * limbs k a) = B ^ limbs k a" by (simp add: power_mult B_def)
  have "\<bar>int_of k a\<bar> < B ^ limbs k a"
    using sized_int_value [OF assms]
  proof (cases rule: int_cases)
    case (fixnum w)
    then show ?thesis by (auto simp: fixnum_range_iff B_def)
  next
    case (bignum z)
    then show ?thesis using size_le_iff [of "heap k" z "ABSIZ (heap k) z"] by (simp add: int_value.simps int_of.simps)
  qed
  then show "\<bar>int_of k a\<bar> < 2 ^ (64 * limbs k a)" unfolding pow .
  show "64 * limbs k a < 2 ^ 36" using assms by (simp add: sized_def)
  show "0 < limbs k a"
    using sized_int_value [OF assms]
  proof (cases rule: int_cases)
    case (bignum z)
    have "ABSIZ (heap k) z \<noteq> 0"
    proof
      assume "ABSIZ (heap k) z = 0"
      then have "mpz_val (heap k) z = 0" by (simp add: ABSIZ_def)
      then show False using bignum by (simp add: int_value.simps fixnum_range_iff)
    qed
    then show ?thesis using bignum by simp
  qed simp
qed

lemma CL_ash_bignum_count:
  assumes "sized k a" "int_value k (Bignum_ref z)" "int_of k (Bignum_ref z) < 0"
  shows "returns k (ash_mpz k a (Bignum_ref z)) (shifted (int_of k a) (int_of k (Bignum_ref z)))"
proof -
  have "int_of k (Bignum_ref z) < - (2 ^ 61)" using bignum_int [OF assms(2)] assms(3) by (simp add: fixnum_range_iff)
  then have "shifted (int_of k a) (int_of k (Bignum_ref z)) = (if 0 \<le> int_of k a then 0 else - 1)"
    using sized_bound [OF assms(1)] by (intro shifted_out [where c = "64 * limbs k a"]) auto
  then show ?thesis using ash_mpz_bignum [OF sized_int_value [OF assms(1)] assms(2,3)] by simp
qed

lemma CL_ash_returns:
  assumes "sized k a" "int_value k b" "int_of k a = 0 \<or> int_of k b \<le> MOST_POSITIVE_FIXNUM"
  shows "returns k (CL_ash k a b) (shifted (int_of k a) (int_of k b))"
proof -
  have a: "int_value k a" using assms(1) by (rule sized_int_value)
  note self = returns_self [OF a] int_value_integerp [OF a] int_value_integerp [OF assms(2)]
  show ?thesis
    using a assms(2)
  proof (cases rule: int_cases [case_product int_cases])
    case (bignum_fixnum z w)
    have "w = 0 \<Longrightarrow> sint (xlong (Fixnum w)) = 0" using xlong_tag [of w] bignum_fixnum by (simp add: int_value.simps)
    then show ?thesis
      using bignum_fixnum self ash_mpz_fixnum [OF a, of w] by (auto simp: CL_ash_def fixnump.simps)
  next
    case (fixnum_bignum v z)
    have "v = 0 \<longleftrightarrow> int_of k a = 0"
      using xlong_tag [of v] fixnum_bignum long_eqI [of v 0] by (auto simp: int_value.simps)
    moreover have "int_of k b < 0" if "int_of k b \<le> MOST_POSITIVE_FIXNUM"
      using that fixnum_bignum bignum_int [of k z] by (auto simp: fixnum_range_def MOST_NEGATIVE_FIXNUM_def)
    ultimately show ?thesis
      using fixnum_bignum assms(3) self CL_ash_bignum_count [OF assms(1), of z] by (auto simp: CL_ash_def)
  next
    case (bignum_bignum y z)
    have "int_of k b < 0"
      using assms(3) bignum_bignum bignum_int [of k z] bignum_int [of k y] by (auto simp: fixnum_range_def MOST_NEGATIVE_FIXNUM_def MOST_POSITIVE_FIXNUM_def)
    then show ?thesis
      using bignum_bignum CL_ash_bignum_count [OF assms(1), of z] by (auto simp: CL_ash_def)
  qed (use CL_ash_fixnum in simp)
qed

lemma CL_ash_cannot_shift:
  assumes "int_value k a" "int_of k a \<noteq> 0" "int_value k b" "MOST_POSITIVE_FIXNUM < int_of k b"
  shows "CL_ash k a b = Inl Cannot_shift"
proof -
  obtain z where z: "b = Bignum_ref z" "int_value k (Bignum_ref z)" "0 < int_of k (Bignum_ref z)"
    using assms(3,4) by (cases rule: int_cases) (auto simp: fixnum_range_def MOST_POSITIVE_FIXNUM_def)
  let ?k = "k\<lparr>avail := Suc (avail k), heap := init_of k a\<rparr>"
  note e = extends_writes [OF le_refl init_of_writes [OF assms(1)]]
  have p: "Bignum_plusp ?k z"
    using Bignum_sign [OF extends_value(1) [OF e z(2)]] extends_value(2) [OF e z(2)] z(3) by simp
  have "ash_mpz k a (Bignum_ref z) = Inl Cannot_shift"
    using assms(1) p by (cases rule: int_cases) (simp_all add: ash_mpz_def new_var_def init_of_def)
  moreover have "a \<noteq> Fixnum 0" using assms(2) Fixnum_0 by auto
  ultimately show ?thesis using z(1) by (simp add: CL_ash_def)
qed

end
