(* ===== verification/Kernel_Errors.thy ===== *)
theory Kernel_Errors
  imports Kernel_Shift
begin

text \<open>
  Type errors of the integer functions. The locale \<open>checked_op\<close> is the contract of a two-argument
  function that checks its arguments from left to right; from it follows that an n-ary function
  reports the first offending argument, whatever follows it.
\<close>

definition not_a_number :: "Value \<Rightarrow> bool" where
  "not_a_number v \<longleftrightarrow> (case v of Other c i \<Rightarrow> c = NOT_NUMBER | _ \<Rightarrow> False)"

definition not_an_integer :: "Value \<Rightarrow> bool" where
  "not_an_integer v \<longleftrightarrow> (case v of Other c i \<Rightarrow> True | _ \<Rightarrow> False)"

lemma not_a_number_integer: "not_a_number v \<Longrightarrow> not_an_integer v"
  by (cases v) (simp_all add: not_a_number_def not_an_integer_def)

locale checked_op = integer_op +
  fixes offends :: "Value \<Rightarrow> bool" and expected :: type_specifier
  assumes rejects_first: "offends v \<Longrightarrow> op k v b = Inl (Type_error v expected)"
    and rejects_second: "int_value k a \<Longrightarrow> offends v \<Longrightarrow> op k a v = Inl (Type_error v expected)"
begin

lemma fold_rejects:
  assumes "int_value k r" "\<forall>a \<in> set xs. int_value k a" "offends v"
  shows "fold_args op k r (xs @ v # ys) = Inl (Type_error v expected)"
  using assms
proof (induction xs arbitrary: k r)
  case (Cons a xs)
  obtain r1 k1 where s: "op k r a = Inr (r1, k1)" "yields k (r1, k1) (f (int_of k r) (int_of k a))"
    using op_returns [of k r a] Cons.prems by (auto simp: returns_def)
  then have "int_value k1 r1" "\<forall>a \<in> set xs. int_value k1 a"
    using Cons.prems extends_value(1) [of k k1] by (auto simp: yields_def)
  then show ?case using s(1) Cons.IH [of k1 r1] Cons.prems by simp
qed (simp add: rejects_second)

text \<open>The dispatch on the number of arguments, with a check of a single argument.\<close>

lemma dispatch_rejects:
  assumes "\<forall>a \<in> set xs. int_value k a" "offends v" "int_value k r"
    and one: "\<And>a. offends a \<Longrightarrow> f1 a = Inl (Type_error a expected)"
  shows "(case xs @ v # ys of [] \<Rightarrow> f0 | [a] \<Rightarrow> f1 a | [a, b] \<Rightarrow> op k a b | _ \<Rightarrow> fold_args op k r (xs @ v # ys))
    = Inl (Type_error v expected)"
proof -
  have fold: "fold_args op k r (xs @ v # ys) = Inl (Type_error v expected)" by (rule fold_rejects [OF assms(3,1,2)])
  consider "xs = []" "ys = []" | b where "xs = []" "ys = [b]" | a where "xs = [a]" "ys = []" | "2 < length (xs @ v # ys)"
    by (cases xs rule: remdups_adj.cases; cases ys rule: remdups_adj.cases) auto
  then show ?thesis
  proof cases
    case 4
    define l where "l = xs @ v # ys"
    have "2 < length l" using 4 by (simp add: l_def)
    then obtain a b c as where "l = a # b # c # as" by (auto simp: numeral_2_eq_2 less_eq_Suc_le Suc_le_length_iff)
    then show ?thesis using fold unfolding l_def [symmetric] by simp
  qed (use assms rejects_first rejects_second in simp_all)
qed

end

interpretation plus_checked: checked_op "SYS_two_arg_plus rest" "(+)" not_a_number S_number for rest
  by unfold_locales
    (auto simp: SYS_two_arg_plus_def not_a_number_def split: Value.splits elim: int_cases)

interpretation minus_checked: checked_op "SYS_two_arg_minus plus_rest rest" "(-)" not_a_number S_number for plus_rest rest
  by unfold_locales
    (auto simp: SYS_two_arg_minus_def not_a_number_def split: Value.splits elim: int_cases)

interpretation logand_checked: checked_op SYS_two_arg_logand "(AND)" not_an_integer S_integer
  by unfold_locales
    (auto simp: SYS_two_arg_logand_def not_an_integer_def split: Value.splits elim: int_cases)

interpretation logior_checked: checked_op SYS_two_arg_logior "(OR)" not_an_integer S_integer
  by unfold_locales
    (auto simp: SYS_two_arg_logior_def not_an_integer_def split: Value.splits elim: int_cases)

interpretation logxor_checked: checked_op SYS_two_arg_logxor "(XOR)" not_an_integer S_integer
  by unfold_locales
    (auto simp: SYS_two_arg_logxor_def not_an_integer_def split: Value.splits elim: int_cases)

interpretation logeqv_checked: checked_op logeqv "\<lambda>a b. NOT (a XOR b)" not_an_integer S_integer
  by unfold_locales
    (auto simp: logeqv_def not_an_integer_def split: Value.splits elim: int_cases)

lemma single_argument_rejected:
  "not_a_number a \<Longrightarrow> \<not> numberp a" "not_an_integer a \<Longrightarrow> \<not> integerp a"
  by (cases a; simp add: not_a_number_def not_an_integer_def integerp_def)+

lemma CL_add_rejects:
  assumes "\<forall>a \<in> set xs. int_value k a" "not_a_number v"
  shows "CL_add rest k (xs @ v # ys) = Inl (Type_error v S_number)"
  unfolding CL_add_def by (rule plus_checked.dispatch_rejects) (use assms single_argument_rejected in auto)

lemma CL_logical_rejects:
  assumes "\<forall>a \<in> set xs. int_value k a" "not_an_integer v"
  shows "CL_logand k (xs @ v # ys) = Inl (Type_error v S_integer)"
    and "CL_logior k (xs @ v # ys) = Inl (Type_error v S_integer)"
    and "CL_logxor k (xs @ v # ys) = Inl (Type_error v S_integer)"
  unfolding CL_logand_def CL_logior_def CL_logxor_def Fixnum_0
  by (rule logand_checked.dispatch_rejects logior_checked.dispatch_rejects logxor_checked.dispatch_rejects;
      use assms single_argument_rejected in auto)+

end
