(* ===== verification/Mpn_Sbdiv.thy ===== *)
theory Mpn_Sbdiv
  imports Mpn_Divrem Mpn_Mul
begin

text \<open>
  Schoolbook division by a vector of several limbs: the inverse of two limbs and the division of
  three limbs by two (\<^verbatim>\<open>invert_1\<close>, \<^verbatim>\<open>tdiv_qr_3by2\<close> of \<^verbatim>\<open>gmp-impl.h\<close>) and \<^verbatim>\<open>mpn_sb_div_qr\<close>
  (\<^verbatim>\<open>mpn/generic/sb_div_qr.c\<close>).
\<close>

subsection \<open>Three limbs by two (gmp-impl.h)\<close>

definition invert_1_high :: "limb \<Rightarrow> limb \<Rightarrow> limb \<times> limb" where
  "invert_1_high d1 d0 =
     (let v = invert_limb d1;
          p = d1 * v;
          p = p + d0
      in if p < d0 then
           (let v = v - 1; mask = - of_bool (p \<ge> d1); p = p - d1 in (v + mask, p - (mask AND d1)))
         else (v, p))"

definition invert_1 :: "limb \<Rightarrow> limb \<Rightarrow> limb" where
  "invert_1 d1 d0 =
     (let (v, p) = invert_1_high d1 d0;
          (t1, t0) = umul_ppmm d0 v;
          p = p + t1
      in if p < t1 then
           (let v = v - 1 in if p \<ge> d1 then (if p > d1 \<or> t0 \<ge> d0 then v - 1 else v) else v)
         else v)"

definition tdiv_qr_3by2 :: "limb \<Rightarrow> limb \<Rightarrow> limb \<Rightarrow> limb \<Rightarrow> limb \<Rightarrow> limb \<Rightarrow> limb \<times> limb \<times> limb" where
  "tdiv_qr_3by2 n2 n1 n0 d1 d0 dinv =
     (let (q, q0) = umul_ppmm n2 dinv;
          (q, q0) = add_ssaaaa q q0 n2 n1;
          r1 = n1 - d1 * q;
          r0 = n0;
          (r1, r0) = sub_ddmmss r1 r0 d1 d0;
          (t1, t0) = umul_ppmm d0 q;
          (r1, r0) = sub_ddmmss r1 r0 t1 t0;
          q = q + 1;
          mask = - of_bool (r1 \<ge> q0);
          q = q + mask;
          (r1, r0) = add_ssaaaa r1 r0 (mask AND d1) (mask AND d0)
      in if r1 \<ge> d1 \<and> (r1 > d1 \<or> r0 \<ge> d0) then
           (let (r1, r0) = sub_ddmmss r1 r0 d1 d0 in (q + 1, r1, r0))
         else (q, r1, r0))"

subsection \<open>Schoolbook division (sb\_div\_qr.c)\<close>

text \<open>
  One round on the window \<open>win\<close> of as many limbs as the divisor, with the limb \<open>n1\<close> above it; the top
  limb of the new window is returned apart, as the code keeps it in a variable.
\<close>

definition sb_step :: "limb list \<Rightarrow> limb \<Rightarrow> limb \<Rightarrow> limb list \<Rightarrow> limb \<times> limb list \<times> limb" where
  "sb_step dp dinv n1 win =
     (let dn = length dp - 2; d1 = dp ! (dn + 1); d0 = dp ! dn
      in if n1 = d1 \<and> win ! (dn + 1) = d0 then
           (let q = - 1; win = fst (mpn_submul_1 win dp q) in (q, win, win ! (dn + 1)))
         else
           (let (q, n1, n0) = tdiv_qr_3by2 n1 (win ! (dn + 1)) (win ! dn) d1 d0 dinv;
                (lo, cy) = mpn_submul_1 (take dn win) (take dn dp) q;
                cy1 = of_bool (n0 < cy);
                n0 = n0 - cy;
                borrow = n1 < cy1;
                n1 = n1 - cy1;
                win = lo @ n0 # drop (dn + 1) win
            in if borrow then
                 (let (s, c) = mpn_add_n (take (dn + 1) win) (take (dn + 1) dp)
                  in (q - 1, s @ drop (dn + 1) win, n1 + (d1 + c)))
               else (q, win, n1)))"

fun sb_loop :: "limb list \<Rightarrow> limb \<Rightarrow> nat \<Rightarrow> limb \<Rightarrow> limb list \<Rightarrow> limb list \<times> limb \<times> limb list" where
  "sb_loop dp dinv 0 n1 np = ([], n1, np)"
| "sb_loop dp dinv (Suc i) n1 np =
     (let (q, win, n1) = sb_step dp dinv n1 (take (length dp) (drop i np));
          np = take i np @ win @ drop (i + length dp) np;
          (qp, n1, np) = sb_loop dp dinv i n1 np
      in (qp @ [q], n1, np))"

text \<open>The high quotient limb, the quotient and the dividend with the remainder in its low limbs.\<close>

definition mpn_sb_div_qr :: "limb list \<Rightarrow> limb list \<Rightarrow> limb \<Rightarrow> limb \<times> limb list \<times> limb list" where
  "mpn_sb_div_qr np dp dinv =
     (let nn = length np; dn = length dp;
          qh = mpn_cmp (drop (nn - dn) np) dp dn \<ge> 0;
          np = (if qh then take (nn - dn) np @ fst (mpn_sub_n (drop (nn - dn) np) dp) else np);
          (qp, n1, np) = sb_loop dp dinv (nn - dn) (np ! (nn - 1)) np
      in (of_bool qh, qp, np[dn - 1 := n1]))"

subsection \<open>The inverse of two limbs\<close>

text \<open>\<open>inverts v D\<close>: \<open>v\<close> is the quotient of \<open>B^3 - 1\<close> by \<open>D\<close>, less \<open>B\<close>.\<close>

definition inverts :: "int \<Rightarrow> int \<Rightarrow> bool" where
  "inverts v D \<longleftrightarrow> 0 \<le> v \<and> v < B \<and> B ^ 3 - D \<le> (B + v) * D \<and> (B + v) * D < B ^ 3"

lemma B3: "B ^ 3 = B * B * B"
  by (simp add: power3_eq_cube)

text \<open>First stage: the product with the high limb, and the low limb added.\<close>

lemma invert_1_stage1:
  fixes d1 d0 v p :: int
  assumes d: "B \<le> 2 * d1" "d1 < B" "0 \<le> d0" "d0 < B"
    and v: "(B + v) * d1 = B * B - B + p" "B - d1 \<le> p" "p < B"
  shows "p + d0 < B \<Longrightarrow> (B + v) * d1 + d0 = B * B - B + (p + d0) \<and> B - d1 \<le> p + d0"
    and "B \<le> p + d0 \<Longrightarrow> p + d0 - B < d1 \<Longrightarrow>
      (B + (v - 1)) * d1 + d0 = B * B - B + (p + d0 - d1) \<and> B - d1 \<le> p + d0 - d1 \<and> p + d0 - d1 < B"
    and "B \<le> p + d0 \<Longrightarrow> d1 \<le> p + d0 - B \<Longrightarrow>
      (B + (v - 2)) * d1 + d0 = B * B - B + (p + d0 - 2 * d1) \<and> B - d1 \<le> p + d0 - 2 * d1 \<and> p + d0 - 2 * d1 < B"
proof -
  have e: "(B + (v - k)) * d1 + d0 = B * B - B + (p + d0 - k * d1)" for k
    using v(1) by (simp add: algebra_simps)
  show "p + d0 < B \<Longrightarrow> (B + v) * d1 + d0 = B * B - B + (p + d0) \<and> B - d1 \<le> p + d0"
    using e [of 0] v d by simp
  show "B \<le> p + d0 \<Longrightarrow> p + d0 - B < d1 \<Longrightarrow>
      (B + (v - 1)) * d1 + d0 = B * B - B + (p + d0 - d1) \<and> B - d1 \<le> p + d0 - d1 \<and> p + d0 - d1 < B"
    using e [of 1] by simp
  show "B \<le> p + d0 \<Longrightarrow> d1 \<le> p + d0 - B \<Longrightarrow>
      (B + (v - 2)) * d1 + d0 = B * B - B + (p + d0 - 2 * d1) \<and> B - d1 \<le> p + d0 - 2 * d1 \<and> p + d0 - 2 * d1 < B"
    using e [of 2] d v by simp
qed

text \<open>Second stage: the product with the low limb.\<close>

lemma invert_1_stage2:
  fixes d1 d0 v p t1 t0 :: int
  assumes d: "B \<le> 2 * d1" "d1 < B" "0 \<le> d0" "d0 < B"
    and v: "(B + v) * d1 + d0 = B * B - B + p" "B - d1 \<le> p" "p < B" "0 \<le> v" "v < B"
    and t: "t1 * B + t0 = d0 * v" "0 \<le> t0" "t0 < B" "0 \<le> t1"
  defines "D \<equiv> d1 * B + d0"
  shows "p + t1 < B \<Longrightarrow> B ^ 3 - D \<le> (B + v) * D \<and> (B + v) * D < B ^ 3"
    and "B \<le> p + t1 \<Longrightarrow> (p + t1 - B) * B + t0 < D \<Longrightarrow> B ^ 3 - D \<le> (B + (v - 1)) * D \<and> (B + (v - 1)) * D < B ^ 3"
    and "B \<le> p + t1 \<Longrightarrow> D \<le> (p + t1 - B) * B + t0 \<Longrightarrow> B ^ 3 - D \<le> (B + (v - 2)) * D \<and> (B + (v - 2)) * D < B ^ 3"
proof -
  have "(B + v) * D = B * ((B + v) * d1 + d0) + d0 * v" by (simp add: D_def algebra_simps)
  also have "\<dots> = B * B * B - B * B + B * p + (t1 * B + t0)" unfolding v(1) t(1) by (simp add: algebra_simps)
  finally have e: "(B + (v - k)) * D = B ^ 3 + ((p + t1 - B) * B + t0) - k * D" for k
    by (simp add: B3 algebra_simps)
  have t1: "t1 < B"
  proof -
    have "d0 * v \<le> d0 * B" using d v by (intro mult_left_mono) auto
    also have "\<dots> < B * B" using d by simp
    finally have "t1 * B < B * B" using t by linarith
    then show ?thesis by simp
  qed
  have s: "0 \<le> D" "(B - d1) * B = B * B - (D - d0)" by (simp_all add: D_def d algebra_simps) (use d in simp)
  have "B * B \<le> 2 * d1 * B" by (rule mult_right_mono [OF d(1)]) simp
  then have DB: "B * B \<le> 2 * D" using d(3) unfolding D_def distrib_left mult.assoc by linarith
  {
    assume "p + t1 < B"
    then have "(p + t1 - B) * B \<le> (- 1) * B" by (intro mult_right_mono) auto
    moreover have "(B - d1) * B \<le> (p + t1) * B" using v(2) t(4) by (intro mult_right_mono) auto
    ultimately show "B ^ 3 - D \<le> (B + v) * D \<and> (B + v) * D < B ^ 3"
      using e [of 0] t s d by (simp add: algebra_simps)
  }
  {
    assume "B \<le> p + t1" "(p + t1 - B) * B + t0 < D"
    moreover have "0 \<le> (p + t1 - B) * B" using calculation(1) by simp
    ultimately show "B ^ 3 - D \<le> (B + (v - 1)) * D \<and> (B + (v - 1)) * D < B ^ 3" using e [of 1] t by simp
  }
  assume "B \<le> p + t1" "D \<le> (p + t1 - B) * B + t0"
  moreover have "(p + t1 - B) * B \<le> (B - 1) * B" using v(3) t1 by (intro mult_right_mono) auto
  then have "(p + t1 - B) * B + t0 < B * B" using t(3) by (simp add: left_diff_distrib)
  ultimately show "B ^ 3 - D \<le> (B + (v - 2)) * D \<and> (B + (v - 2)) * D < B ^ 3" using e [of 2] DB by simp
qed

text \<open>The estimates never go below zero.\<close>

lemma stage1_nonneg:
  fixes d1 d0 w :: int
  assumes "B * B - d1 \<le> (B + w) * d1 + d0" "d1 < B" "0 < d1" "d0 < B"
  shows "0 \<le> w"
proof (rule ccontr)
  assume "\<not> 0 \<le> w"
  then have "(B + w) * d1 \<le> (B - 1) * d1" using assms(3) by (intro mult_right_mono) auto
  moreover have "B * d1 \<le> B * (B - 1)" using assms(2) by (intro mult_left_mono) auto
  ultimately show False using assms(1,4) by (simp add: algebra_simps)
qed

lemma stage2_nonneg:
  fixes D w :: int
  assumes "B ^ 3 - D \<le> (B + w) * D" "D < B * B" "0 < D"
  shows "0 \<le> w"
proof (rule ccontr)
  assume "\<not> 0 \<le> w"
  then have "(B + w) * D \<le> (B - 1) * D" using assms(3) by (intro mult_right_mono) auto
  moreover have "B * D < B * (B * B)" using assms(2) by simp
  ultimately show False using assms(1) unfolding B3 by (simp only: algebra_simps)
qed

lemma limb_int: "0 \<le> k \<Longrightarrow> k < B \<Longrightarrow> x = word_of_int k \<Longrightarrow> uint (x :: limb) = k"
  using uint_of_int_limb by blast

lemma uint_minus_lt: "0 \<le> k \<Longrightarrow> uint (v :: limb) - k < B"
  using uint_lt_B [of v] by linarith

lemma limb_wrap: "word_of_int (a + B * k) = (word_of_int a :: limb)"
  by (simp only: eq_limb_iff uint_word_of_int) (simp add: B_def)

lemma limb_int_wrap: "0 \<le> k \<Longrightarrow> k < B \<Longrightarrow> x = word_of_int m \<Longrightarrow> m = k + B * j \<Longrightarrow> uint (x :: limb) = k"
  using limb_int limb_wrap by metis

lemma invert_1_first:
  assumes d: "2 ^ 63 \<le> uint d1"
    and vp: "invert_1_high d1 d0 = (v, p)"
  shows "(B + uint v) * uint d1 + uint d0 = B * B - B + uint p" "B - uint d1 \<le> uint p"
proof -
  define v0 where "v0 = invert_limb d1"
  obtain k where k: "(B + uint v0) * uint d1 = B * B - k" "1 \<le> k" "k \<le> uint d1"
    using invert_limb_value [OF d] unfolding v0_def by blast
  have dB: "B \<le> 2 * uint d1" "uint d1 < B" "0 \<le> uint d0" "uint d0 < B" using d by (simp add: B_def, simp_all)
  define p0 where "p0 = B - k"
  have p0: "(B + uint v0) * uint d1 = B * B - B + p0" "B - uint d1 \<le> p0" "p0 < B" "0 \<le> p0"
    using k dB(1) uint_lt_B [of d1] unfolding p0_def by linarith+
  note st = invert_1_stage1 [OF dB p0(1-3)]
  have pu: "uint (d1 * v0) = p0"
    using p0 by (intro limb_int_wrap [where m = "uint d1 * uint v0" and j = "B - 1 - uint d1"]) (auto simp: algebra_simps)
  have c: "d1 * v0 + d0 < d0 \<longleftrightarrow> B \<le> p0 + uint d0" "uint (d1 * v0 + d0) = p0 + uint d0 - of_bool (B \<le> p0 + uint d0) * B"
    using add_limb_carry_right [of "d1 * v0" d0] add_limb_value [of "d1 * v0" d0] pu by simp_all
  consider "p0 + uint d0 < B" | "B \<le> p0 + uint d0" "p0 + uint d0 - B < uint d1" | "B \<le> p0 + uint d0" "uint d1 \<le> p0 + uint d0 - B"
    by linarith
  then have "(B + uint v) * uint d1 + uint d0 = B * B - B + uint p \<and> B - uint d1 \<le> uint p"
  proof cases
    case 1
    then have "v = v0" "p = d1 * v0 + d0" using vp c(1) by (auto simp: v0_def Let_def invert_1_high_def)
    then show ?thesis using st(1) [OF 1] c(2) 1 by simp
  next
    case 2
    then have "\<not> d1 \<le> d1 * v0 + d0" using c(2) by (simp add: le_limb_iff)
    then have e: "v = v0 - 1" "p = d1 * v0 + d0 - d1" using vp c(1) 2 by (auto simp: v0_def Let_def invert_1_high_def)
    note f = st(2) [OF 2]
    have "0 \<le> uint v0 - 1" using f dB by (intro stage1_nonneg [of "uint d1" _ "uint d0"]) auto
    then have "uint v = uint v0 - 1" using e(1) by (intro limb_int uint_minus_lt) auto
    moreover have "uint p = p0 + uint d0 - uint d1"
    proof (rule limb_int_wrap [where j = "- 1"])
      show "p = word_of_int (uint (d1 * v0 + d0) - uint d1)" using e(2) by simp
      show "0 \<le> p0 + uint d0 - uint d1" using 2(1) dB(2) by linarith
    qed (use c(2) 2 f dB(2) in auto)
    ultimately show ?thesis using f by simp
  next
    case 3
    then have "d1 \<le> d1 * v0 + d0" using c(2) by (simp add: le_limb_iff)
    then have e: "v = v0 - 1 - 1" "p = d1 * v0 + d0 - d1 - d1" using vp c(1) 3 by (auto simp: v0_def Let_def invert_1_high_def)
    note f = st(3) [OF 3]
    have "0 \<le> uint v0 - 2" using f dB by (intro stage1_nonneg [of "uint d1" _ "uint d0"]) auto
    then have "uint v = uint v0 - 2" using e(1) by (intro limb_int uint_minus_lt) auto
    moreover have "uint p = p0 + uint d0 - 2 * uint d1"
    proof (rule limb_int_wrap [where j = "- 1"])
      show "p = word_of_int (uint (d1 * v0 + d0) - 2 * uint d1)" using e(2) by simp
      show "0 \<le> p0 + uint d0 - 2 * uint d1" using 3 dB(2) by linarith
    qed (use c(2) 3 f dB(2) in auto)
    ultimately show ?thesis using f by simp
  qed
  then show "(B + uint v) * uint d1 + uint d0 = B * B - B + uint p" "B - uint d1 \<le> uint p" by simp_all
qed

lemma pair_le_iff: "uint (a :: limb) * B + uint (b :: limb) \<le> uint c * B + uint (d :: limb) \<longleftrightarrow> a < c \<or> a = c \<and> b \<le> d"
proof -
  have "uint a * B + uint b < uint c * B + uint d" if "uint a < uint c"
  proof -
    have "(uint a + 1) * B \<le> uint c * B" using that by (intro mult_right_mono) auto
    then show ?thesis using uint_lt_B [of b] uint_ge_0 [of d] unfolding distrib_right by linarith
  qed
  moreover have "uint c * B + uint d < uint a * B + uint b" if "uint c < uint a"
  proof -
    have "(uint c + 1) * B \<le> uint a * B" using that by (intro mult_right_mono) auto
    then show ?thesis using uint_lt_B [of d] uint_ge_0 [of b] unfolding distrib_right by linarith
  qed
  ultimately show ?thesis by (cases "uint a" "uint c" rule: linorder_cases) (auto simp: less_limb_iff le_limb_iff eq_limb_iff)
qed

lemma invert_1_inverts:
  assumes d: "2 ^ 63 \<le> uint d1"
  shows "inverts (uint (invert_1 d1 d0)) (uint d1 * B + uint d0)"
proof -
  obtain v p where vp: "invert_1_high d1 d0 = (v, p)" by fastforce
  obtain t1 t0 where t: "umul_ppmm d0 v = (t1, t0)" by fastforce
  let ?D = "uint d1 * B + uint d0"
  have dB: "B \<le> 2 * uint d1" "uint d1 < B" "0 \<le> uint d0" "uint d0 < B" using d by (simp add: B_def, simp_all)
  have "0 < uint d1" using d by simp
  then have D: "0 < ?D" "?D < B * B" using two_limbs_lt [of d1 d0] by (auto intro!: add_pos_nonneg)
  note st = invert_1_stage2 [OF dB invert_1_first(1) [OF d vp] invert_1_first(2) [OF d vp] uint_lt_B uint_ge_0 uint_lt_B
      umul_ppmm_value [OF t] uint_ge_0 uint_lt_B uint_ge_0]
  have e: "invert_1 d1 d0 = (if p + t1 < t1 then (if p + t1 \<ge> d1 \<and> (p + t1 > d1 \<or> t0 \<ge> d0) then v - 1 - 1 else v - 1) else v)"
    using vp t by (simp add: invert_1_def Let_def)
  have c: "p + t1 < t1 \<longleftrightarrow> B \<le> uint p + uint t1" "uint (p + t1) = uint p + uint t1 - of_bool (B \<le> uint p + uint t1) * B"
    by (simp_all add: add_limb_carry_right add_limb_value)
  have res: "inverts (uint x) ?D" if "B ^ 3 - ?D \<le> (B + (uint v - k)) * ?D" "(B + (uint v - k)) * ?D < B ^ 3"
      "x = word_of_int (uint v - k)" "0 \<le> k" for x :: limb and k
  proof -
    have "0 \<le> uint v - k" by (rule stage2_nonneg [OF that(1) D(2,1)])
    moreover from this have "uint x = uint v - k" using that(3,4) by (intro limb_int uint_minus_lt) auto
    ultimately show ?thesis using that by (simp add: inverts_def uint_minus_lt)
  qed
  have test: "p + t1 \<ge> d1 \<and> (p + t1 > d1 \<or> t0 \<ge> d0) \<longleftrightarrow> ?D \<le> (uint p + uint t1 - B) * B + uint t0" if "B \<le> uint p + uint t1"
    using pair_le_iff [of d1 d0 "p + t1" t0] c(2) that by (auto simp: le_limb_iff less_limb_iff)
  consider "uint p + uint t1 < B" | "B \<le> uint p + uint t1" "(uint p + uint t1 - B) * B + uint t0 < ?D"
    | "B \<le> uint p + uint t1" "?D \<le> (uint p + uint t1 - B) * B + uint t0" by linarith
  then show ?thesis
  proof cases
    case 1
    then show ?thesis using st(1) res [of 0] e c(1) by simp
  next
    case 2
    then show ?thesis using st(2) res [of 1] e c(1) test by simp
  next
    case 3
    then show ?thesis using st(3) res [of 2] e c(1) test by simp
  qed
qed

subsection \<open>The estimate of the quotient of three limbs by two\<close>

text \<open>
  \<open>k\<close> is what the inverse leaves of \<open>B^3\<close> and \<open>x\<close> what \<open>D\<close> leaves of \<open>B^2\<close>. The sum \<open>S\<close> collects the terms
  by which the estimate misses; its bound needs the inverse exactly where the high limbs agree.
\<close>

lemma estimate_sum:
  fixes d1 d0 k u2 u1 u0 x :: int
  assumes d: "0 < d1" "d1 < B" "0 \<le> d0" "d0 < B" and x: "x = B * B - (d1 * B + d0)"
    and k: "0 \<le> k" "k \<le> d1 * B + d0" "k \<le> B * x"
    and u: "0 \<le> u2" "0 \<le> u1" "u1 < B" "0 \<le> u0" "u0 < B" "u2 * B + u1 < d1 * B + d0"
  shows "B * (u2 * k + u1 * x + u0 * B) < B * B * (d1 * B + d0) + x * x"
proof -
  let ?D = "d1 * B + d0"
  have x0: "0 < x"
  proof -
    have "d1 * B \<le> (B - 1) * B" using d by (intro mult_right_mono) auto
    then show ?thesis using d unfolding x left_diff_distrib by linarith
  qed
  have u0: "u0 * B \<le> (B - 1) * B" using u by (intro mult_right_mono) auto
  have bound: "B * (u2 * k + u1 * x + u0 * B) \<le> B * (m + n + (B - 1) * B)" if "u2 * k \<le> m" "u1 * x \<le> n" for m n
    by (rule mult_left_mono) (use that u0 in linarith, simp)
  have "u2 \<le> d1"
  proof (rule ccontr)
    assume "\<not> u2 \<le> d1"
    then have "(d1 + 1) * B \<le> u2 * B" by (intro mult_right_mono) auto
    then show False using u(2,6) d(4) unfolding distrib_right by linarith
  qed
  then consider "u2 \<le> d1 - 1" | "u2 = d1" "d1 \<le> B - 2" | "u2 = d1" "d1 = B - 1" using d by linarith
  then show ?thesis
  proof cases
    case 1
    have "u2 * k \<le> (d1 - 1) * ?D" using 1 k u by (intro mult_mono) auto
    moreover have "u1 * x \<le> (B - 1) * x" using u x0 by (intro mult_right_mono) auto
    ultimately have "B * (u2 * k + u1 * x + u0 * B) \<le> B * ((d1 - 1) * ?D + (B - 1) * x + (B - 1) * B)" by (rule bound)
    moreover have "B * B * ?D + x * x - B * ((d1 - 1) * ?D + (B - 1) * x + (B - 1) * B) = ?D * d0 + B * B"
      unfolding x by (simp add: algebra_simps)
    moreover have "0 \<le> ?D * d0" "0 < B * B" using d by simp_all
    ultimately show ?thesis by linarith
  next
    case 2
    have u1: "u1 \<le> d0 - 1" using u(6) 2 by simp
    have "u2 * k \<le> d1 * ?D" using 2 k d by (intro mult_mono) auto
    moreover have "u1 * x \<le> (d0 - 1) * x" using u1 x0 by (intro mult_right_mono) auto
    ultimately have b: "B * (u2 * k + u1 * x + u0 * B) \<le> B * (d1 * ?D + (d0 - 1) * x + (B - 1) * B)" by (rule bound)
    have "2 * B \<le> (B - d1) * B" using 2 by (intro mult_right_mono) auto
    then have xB: "B \<le> x" using d unfolding x left_diff_distrib by linarith
    have "B * ((B - d0) * (B + 1)) \<le> x * ((B - d0) * (B + 1))" using xB d by (intro mult_right_mono) auto
    moreover have "B * B * ?D + x * x - B * (d1 * ?D + (d0 - 1) * x + (B - 1) * B)
        = x * ((B - d0) * (B + 1)) - B * B * (B - d0 - 1)"
      unfolding x by (simp add: algebra_simps)
    moreover have "B * ((B - d0) * (B + 1)) - B * B * (B - d0 - 1) = B * (B - d0) + B * B" by (simp add: algebra_simps)
    moreover have "0 < B * (B - d0) + B * B" using d by (simp add: add_pos_pos)
    ultimately show ?thesis using b by linarith
  next
    case 3
    define f where "f = d0 - 1"
    define e where "e = B - d0"
    have xe: "x = e" unfolding x 3(2) e_def by (simp add: algebra_simps)
    have u1: "u1 \<le> f" using u(6) 3 by (simp add: f_def)
    have "u2 * k \<le> (B - 1) * (B * x)" using 3 k d by (intro mult_mono) auto
    moreover have "u1 * x \<le> f * x" using u1 x0 by (intro mult_right_mono) auto
    ultimately have b: "B * (u2 * k + u1 * x + u0 * B) \<le> B * ((B - 1) * (B * x) + f * x + (B - 1) * B)" by (rule bound)
    have D: "?D = B * B - e" using x xe by simp
    have e: "e = B - 1 - f" by (simp add: e_def f_def)
    have "B * B * ?D + x * x - B * ((B - 1) * (B * x) + f * x + (B - 1) * B)
        = B * B * f * (B - 1) + B * (1 + f) * (1 + f) + B * e + e * e"
      unfolding D xe e by (simp add: algebra_simps)
    moreover have "0 \<le> f" "0 < e" using u1 u(2) d by (auto simp: e_def)
    then have "0 \<le> B * B * f * (B - 1)" "0 < B * (1 + f) * (1 + f)" "0 < B * e" "0 < e * e" by simp_all
    ultimately show ?thesis using b by linarith
  qed
qed

lemma estimate_3by2:
  fixes d1 d0 v u2 u1 u0 q1 q0 :: int
  assumes d: "0 < d1" "d1 < B" "0 \<le> d0" "d0 < B" and v: "inverts v (d1 * B + d0)"
    and u: "0 \<le> u2" "0 \<le> u1" "u1 < B" "0 \<le> u0" "u0 < B" "u2 * B + u1 < d1 * B + d0"
    and q: "q1 * B + q0 = (B + v) * u2 + u1" "0 \<le> q0" "q0 < B"
  defines "D \<equiv> d1 * B + d0" and "r \<equiv> (u2 * B + u1) * B + u0 - (q1 + 1) * (d1 * B + d0)"
  shows "- D \<le> r" "q0 * B - B * B \<le> r" "r < max (B * B - D) (q0 * B)"
proof -
  define x where "x = B * B - D"
  define k where "k = B ^ 3 - (B + v) * D"
  have k: "0 \<le> k" "k \<le> D" "k \<le> B * x"
  proof -
    show "0 \<le> k" "k \<le> D" using v unfolding inverts_def k_def D_def by linarith+
    have "B * D \<le> (B + v) * D" using v d unfolding inverts_def D_def by (intro mult_right_mono) auto
    then show "k \<le> B * x" unfolding k_def x_def B3 right_diff_distrib mult.assoc by linarith
  qed
  let ?S = "u2 * k + u1 * x + u0 * B"
  have e: "B * r = ?S + q0 * D - B * D"
  proof -
    have "B * r = B * ((u2 * B + u1) * B + u0) - (q1 * B + q0) * D + q0 * D - B * D"
      unfolding r_def D_def by (simp add: algebra_simps)
    also have "\<dots> = ?S + q0 * D - B * D" unfolding q(1) k_def x_def B3 by (simp add: algebra_simps)
    finally show ?thesis .
  qed
  have x0: "0 < x" using d u
  proof -
    have "d1 * B \<le> (B - 1) * B" using d by (intro mult_right_mono) auto
    then show ?thesis using d unfolding x_def D_def left_diff_distrib by linarith
  qed
  have S0: "0 \<le> ?S" using k(1) x0 u by simp
  have D0: "0 < D" unfolding D_def using d by (intro add_pos_nonneg) auto
  have "0 \<le> q0 * D" using q D0 by simp
  then have "B * (- D) \<le> B * r" using e S0 by simp
  then show "- D \<le> r" by (rule mult_left_le_imp_le) simp
  have "(B - q0) * D \<le> (B - q0) * (B * B)" using q x0 by (intro mult_left_mono) (auto simp: x_def)
  then have "B * (q0 * B - B * B) \<le> B * r" using e S0 by (simp add: algebra_simps)
  then show "q0 * B - B * B \<le> r" by simp
  let ?c = "max x (q0 * B)"
  have "B * ?S < B * B * D + x * x"
    using estimate_sum [OF d _ _ _ _ u, of x k] k unfolding x_def D_def by simp
  moreover have "B * B * r = B * ?S + (B * q0) * D - B * B * D"
    unfolding mult.assoc e by (simp add: algebra_simps)
  moreover have "x * x \<le> ?c * x" "(q0 * B) * D \<le> ?c * D" using x0 D0 by (intro mult_right_mono; simp)+
  ultimately have "B * B * r < ?c * x + ?c * D" by (simp add: mult.commute [of q0])
  also have "\<dots> = B * B * ?c" by (simp add: x_def algebra_simps)
  finally show "r < max (B * B - D) (q0 * B)" by (simp add: x_def)
qed

lemma estimate_fits:
  fixes D v u2 u1 :: int
  assumes "inverts v D" "0 < D" "D < B * B" "0 \<le> u2" "0 \<le> u1" "u2 * B + u1 < D"
  shows "(B + v) * u2 + u1 < B * B"
proof -
  have "u2 * ((B + v) * D) \<le> u2 * B ^ 3" using assms by (intro mult_left_mono) (auto simp: inverts_def)
  moreover have "(u2 * B) * (B * B) \<le> (D - 1 - u1) * (B * B)" using assms by (intro mult_right_mono) auto
  moreover have "u1 * D \<le> u1 * (B * B)" using assms by (intro mult_left_mono) auto
  moreover have "((B + v) * u2 + u1) * D = u2 * ((B + v) * D) + u1 * D" by (simp add: algebra_simps)
  moreover have "(D - 1 - u1) * (B * B) = B * B * D - B * B - u1 * (B * B)" by (simp add: algebra_simps)
  moreover have "u2 * B ^ 3 = (u2 * B) * (B * B)" by (simp add: B3)
  moreover have "0 < B * B" by simp
  ultimately have "((B + v) * u2 + u1) * D < (B * B) * D" by linarith
  then show ?thesis using assms(2) by simp
qed

text \<open>The corrections, on integers: \<open>r\<close> is the remainder of the estimate and \<open>rv\<close> its two limbs.\<close>

lemma correct_3by2:
  fixes D q0 q1 r U rv :: int
  assumes D: "0 < D" "D < B * B" "B * B \<le> 2 * D" and q0: "0 \<le> q0"
    and U: "U = (q1 + 1) * D + r"
    and r: "- D \<le> r" "q0 * B - B * B \<le> r" "r < max (B * B - D) (q0 * B)" "r < B * B"
    and rv: "rv = r mod (B * B)"
  defines "m \<equiv> of_bool (q0 * B \<le> rv)"
  defines "r' \<equiv> (rv + m * D) mod (B * B)"
  shows "U = (q1 + 1 - m + of_bool (D \<le> r')) * D + (r' - of_bool (D \<le> r') * D)"
    and "r' - of_bool (D \<le> r') * D < D" "0 \<le> r' - of_bool (D \<le> r') * D"
proof -
  have "U = (q1 + 1 - m + of_bool (D \<le> r')) * D + (r' - of_bool (D \<le> r') * D) \<and>
    r' - of_bool (D \<le> r') * D < D \<and> 0 \<le> r' - of_bool (D \<le> r') * D"
  proof (cases "r < 0")
    case True
    then have "(r + B * B) mod (B * B) = r + B * B" using r(1) D by (intro mod_pos_pos_trivial) auto
    then have rv': "rv = r + B * B" using rv by simp
    then have m: "m = 1" using r(2) by (simp add: m_def)
    have "rv + m * D = (r + D) + B * B" by (simp add: rv' m)
    then have "r' = (r + D) mod (B * B)" unfolding r'_def by (simp only: mod_add_self2)
    then have "r' = r + D" using True r(1) D by simp
    then show ?thesis using True r(1) U m by (simp add: algebra_simps)
  next
    case False
    then have rv': "rv = r" using rv r(4) by simp
    show ?thesis
    proof (cases "q0 * B \<le> r")
      case True
      then have "r < B * B - D" using r(3) by auto
      then have "r' = r + D" "m = 1" using True False D by (simp_all add: r'_def m_def rv')
      then show ?thesis using False U D \<open>r < B * B - D\<close> by (simp add: algebra_simps)
    next
      case neg: False
      then have "r' = r" "m = 0" using False r(4) by (simp_all add: r'_def m_def rv')
      then show ?thesis using False U D r(4) by (auto simp: algebra_simps)
    qed
  qed
  then show "U = (q1 + 1 - m + of_bool (D \<le> r')) * D + (r' - of_bool (D \<le> r') * D)"
    "r' - of_bool (D \<le> r') * D < D" "0 \<le> r' - of_bool (D \<le> r') * D" by blast+
qed

text \<open>A limb pair as an integer.\<close>

lemma pair_bounds: "0 \<le> uint (a :: limb) * B + uint (b :: limb)" "uint a * B + uint b < B * B"
  using two_limbs_lt [of a b] by simp_all

lemma mod_limbs: "uint (x :: limb) = m mod B \<Longrightarrow> (uint x * B + c) mod (B * B) = (m * B + c) mod (B * B)"
  by (metis mod_add_left_eq mod_mult_mult2)

lemma tdiv_qr_3by2_value:
  assumes d: "2 ^ 63 \<le> uint d1" and v: "inverts (uint dinv) (uint d1 * B + uint d0)"
    and n: "uint n2 * B + uint n1 < uint d1 * B + uint d0"
    and res: "tdiv_qr_3by2 n2 n1 n0 d1 d0 dinv = (q, r1, r0)"
  shows "uint q * (uint d1 * B + uint d0) + (uint r1 * B + uint r0) = (uint n2 * B + uint n1) * B + uint n0"
    and "uint r1 * B + uint r0 < uint d1 * B + uint d0"
proof -
  let ?D = "uint d1 * B + uint d0" and ?U = "(uint n2 * B + uint n1) * B + uint n0"
  have dB: "0 < uint d1" "uint d1 < B" "0 \<le> uint d0" "uint d0 < B" using d by (simp, simp_all)
  have D0: "0 < ?D" using dB by (intro add_pos_nonneg) auto
  have "B * B \<le> (2 * uint d1) * B" using d by (intro mult_right_mono) (simp_all add: B_def)
  then have D2: "B * B \<le> 2 * ?D" using dB(3) unfolding distrib_left mult.assoc by linarith
  obtain p1 p0 where p: "umul_ppmm n2 dinv = (p1, p0)" by fastforce
  obtain q1 q0 where q1: "add_ssaaaa p1 p0 n2 n1 = (q1, q0)" by fastforce
  obtain a1 a0 where a: "sub_ddmmss (n1 - d1 * q1) n0 d1 d0 = (a1, a0)" by fastforce
  obtain t1 t0 where t: "umul_ppmm d0 q1 = (t1, t0)" by fastforce
  obtain s1 s0 where s: "sub_ddmmss a1 a0 t1 t0 = (s1, s0)" by fastforce
  define m :: int where "m = of_bool (q0 \<le> s1)"
  have mask: "- of_bool (q0 \<le> s1) AND x = (if q0 \<le> s1 then x else 0)" for x :: limb by simp
  obtain b1 b0 where b: "add_ssaaaa s1 s0 (if q0 \<le> s1 then d1 else 0) (if q0 \<le> s1 then d0 else 0) = (b1, b0)" by fastforce
  have fits: "(B + uint dinv) * uint n2 + uint n1 < B * B"
    using estimate_fits [OF v D0 pair_bounds(2) _ _ n] by simp
  have qv: "uint q1 * B + uint q0 = (B + uint dinv) * uint n2 + uint n1"
    using add_ssaaaa_value [OF q1] umul_ppmm_value [OF p] fits pair_bounds [of n2 n1] by (simp add: algebra_simps)
  define r where "r = ?U - (uint q1 + 1) * ?D"
  note est = estimate_3by2 [OF dB v uint_ge_0 uint_ge_0 uint_lt_B uint_ge_0 uint_lt_B n qv uint_ge_0 uint_lt_B, of n0, folded r_def]
  have rB: "r < B * B"
  proof -
    have "uint q0 * B < B * B" by simp
    then show ?thesis using est(3) D0 by linarith
  qed
  have rv: "uint s1 * B + uint s0 = r mod (B * B)"
  proof -
    have "uint (n1 - d1 * q1) = (uint n1 - uint d1 * uint q1) mod B"
      by (simp add: uint_word_ariths B_def mod_simps)
    note w = mod_limbs [OF this]
    have "uint a1 * B + uint a0 = (uint (n1 - d1 * q1) * B + (uint n0 - ?D)) mod (B * B)"
      using sub_ddmmss_value [OF a] by (simp only: add_diff_eq)
    also have "\<dots> = ((uint n1 - uint d1 * uint q1) * B + (uint n0 - ?D)) mod (B * B)" by (rule w)
    finally have "uint a1 * B + uint a0 = ((uint n1 - uint d1 * uint q1) * B + uint n0 - ?D) mod (B * B)"
      by (simp only: add_diff_eq)
    then have "uint s1 * B + uint s0 = ((uint n1 - uint d1 * uint q1) * B + uint n0 - ?D - uint d0 * uint q1) mod (B * B)"
      using sub_ddmmss_value [OF s] umul_ppmm_value [OF t] by (metis mod_diff_left_eq)
    also have "(uint n1 - uint d1 * uint q1) * B + uint n0 - ?D - uint d0 * uint q1 = r + (B * B) * (- uint n2)"
      by (simp add: r_def algebra_simps)
    finally show ?thesis by (simp only: mod_mult_self2)
  qed
  have mm: "m = of_bool (uint q0 * B \<le> uint s1 * B + uint s0)"
    using pair_le_iff [of q0 0 s1 s0] by (simp add: m_def le_less [of q0 s1] le_limb_iff [of 0])
  have bv: "uint b1 * B + uint b0 = (uint s1 * B + uint s0 + m * ?D) mod (B * B)"
    using add_ssaaaa_value [OF b] by (simp add: m_def algebra_simps)
  note cor = correct_3by2 [OF D0 pair_bounds(2) D2 uint_ge_0 [of q0] _ est rB rv, of ?U "uint q1",
      folded mm, folded bv]
  let ?f = "of_bool (?D \<le> uint b1 * B + uint b0) :: int"
  have test: "d1 \<le> b1 \<and> (d1 < b1 \<or> d0 \<le> b0) \<longleftrightarrow> ?D \<le> uint b1 * B + uint b0"
    using pair_le_iff [of d1 d0 b1 b0] by auto
  let ?Q = "uint q1 + 1 - m + ?f"
  have UB: "?U < B * ?D"
  proof -
    have "(uint n2 * B + uint n1 + 1) * B \<le> ?D * B" using n by (intro mult_right_mono) auto
    then show ?thesis using uint_lt_B [of n0] unfolding distrib_right mult.commute [of B] by linarith
  qed
  have U: "?U = (uint q1 + 1) * ?D + r" by (simp add: r_def)
  note val = cor [OF U]
  have Q: "0 \<le> ?Q" "?Q < B"
  proof -
    have "?U div ?D = ?Q" using zdiv_mod_unique(1) [OF val(1) val(3,2)] by simp
    then show "0 \<le> ?Q" "?Q < B"
      using D0 UB by (metis pos_imp_zdiv_nonneg_iff add_nonneg_nonneg mult_nonneg_nonneg uint_ge_0 B_ge_0, metis zdiv_lt_iff mult.commute)
  qed
  have q: "q = word_of_int ?Q" "uint r1 * B + uint r0 = uint b1 * B + uint b0 - ?f * ?D"
  proof -
    have "(uint b1 * B + uint b0 - ?D) mod (B * B) = uint b1 * B + uint b0 - ?D" if "?D \<le> uint b1 * B + uint b0"
      using that pair_bounds [of b1 b0] D0 by (intro mod_pos_pos_trivial) linarith+
    then have "q = word_of_int ?Q \<and> uint r1 * B + uint r0 = uint b1 * B + uint b0 - ?f * ?D"
      using res p q1 a t s b mask test sub_ddmmss_value [of b1 b0 d1 d0 r1 r0]
      by (auto simp: tdiv_qr_3by2_def Let_def m_def split: if_splits prod.splits)
    then show "q = word_of_int ?Q" "uint r1 * B + uint r0 = uint b1 * B + uint b0 - ?f * ?D" by blast+
  qed
  have "uint q = ?Q" by (rule limb_int [OF Q q(1)])
  then show "uint q * ?D + (uint r1 * B + uint r0) = ?U" "uint r1 * B + uint r0 < ?D" using val(1,2) q(2) by simp_all
qed

subsection \<open>One round of the schoolbook division\<close>

text \<open>The number above the window, and the remainder a round leaves.\<close>

definition window_value :: "limb list \<Rightarrow> limb \<Rightarrow> int" where
  "window_value win n1 = lval win + B ^ length win * uint n1"

definition remains :: "limb list \<Rightarrow> limb \<Rightarrow> int" where
  "remains win n1 = lval (butlast win) + B ^ (length win - 1) * uint n1"

lemma lval_two: "lval (xs @ [a, b]) = lval xs + B ^ length xs * (uint b * B + uint a)"
  by (simp add: lval_append algebra_simps)

lemma normalized_ge:
  assumes "2 ^ 63 \<le> uint d1"
  shows "B ^ (length dl + 2) \<le> 2 * lval (dl @ [d0, d1])"
proof -
  have "B ^ length dl * (B * B) \<le> B ^ length dl * (2 * (uint d1 * B + uint d0))"
  proof (rule mult_left_mono)
    have "B * B \<le> (2 * uint d1) * B" using assms by (intro mult_right_mono) (simp_all add: B_def)
    then show "B * B \<le> 2 * (uint d1 * B + uint d0)" using uint_ge_0 [of d0] unfolding distrib_left mult.assoc by linarith
  qed simp
  moreover have "B ^ (length dl + 2) = B ^ length dl * (B * B)" by (simp add: power_add power2_eq_square)
  moreover have "2 * lval (dl @ [d0, d1]) = 2 * lval dl + B ^ length dl * (2 * (uint d1 * B + uint d0))"
    by (simp add: lval_two algebra_simps)
  ultimately show ?thesis using lval_nonneg [of dl] by linarith
qed

text \<open>The rare case: the two high limbs agree with those of the divisor, and the quotient limb is all ones.\<close>

lemma sb_step_special:
  assumes d: "2 ^ 63 \<le> uint d1" and len: "length wl = length dl" "dl \<noteq> []"
    and lt: "window_value (wl @ [w0, d0]) d1 < B * lval (dl @ [d0, d1])"
    and win: "win = fst (mpn_submul_1 (wl @ [w0, d0]) (dl @ [d0, d1]) (- 1))"
  shows "uint (- 1 :: limb) * lval (dl @ [d0, d1]) + lval win = window_value (wl @ [w0, d0]) d1" "lval win < lval (dl @ [d0, d1])"
proof -
  let ?D = "lval (dl @ [d0, d1])" and ?n = "length dl + 2"
  let ?m = "length dl" and ?D2 = "uint d1 * B + uint d0"
  define r where "r = window_value (wl @ [w0, d0]) d1 - (B - 1) * ?D"
  have "r = ?D + (lval wl + B ^ ?m * uint w0) - lval dl * B"
    unfolding r_def window_value_def lval_two using len by (simp add: power_add algebra_simps power2_eq_square)
  moreover have "lval dl * B < B ^ ?m * B" by simp
  moreover have "B ^ ?m * B \<le> ?D"
  proof -
    have "2 * (B ^ ?m * B) \<le> B ^ ?m * B * B" by (simp add: B_def)
    also have "\<dots> \<le> 2 * ?D" using normalized_ge [OF d, of dl d0] by (simp add: power_add power2_eq_square ac_simps)
    finally show ?thesis by simp
  qed
  moreover have "0 \<le> lval wl + B ^ ?m * uint w0" by simp
  ultimately have r0: "0 \<le> r" by linarith
  have rD: "r < ?D" using lt unfolding r_def by (simp add: algebra_simps)
  have DB: "?D < B ^ ?n" using lval_lt [of "dl @ [d0, d1]"] by simp
  have "lval win - B ^ ?n * uint (snd (mpn_submul_1 (wl @ [w0, d0]) (dl @ [d0, d1]) (- 1))) = lval (wl @ [w0, d0]) - ?D * (B - 1)"
    using mpn_submul_1_value [of "wl @ [w0, d0]" "dl @ [d0, d1]" "- 1"] len win by (simp add: uint_limb_max)
  then have "lval win = r + B ^ ?n * (uint (snd (mpn_submul_1 (wl @ [w0, d0]) (dl @ [d0, d1]) (- 1))) - uint d1)"
    using len unfolding r_def window_value_def by (simp add: algebra_simps)
  then have "lval win mod B ^ ?n = r mod B ^ ?n" by simp
  moreover have "lval win < B ^ ?n" using lval_lt [of win] win len by simp
  ultimately have "lval win = r" using r0 rD DB by simp
  then show "uint (- 1 :: limb) * ?D + lval win = window_value (wl @ [w0, d0]) d1" "lval win < ?D"
    using rD by (simp_all add: r_def uint_limb_max)
qed

text \<open>The usual case: the estimate from three limbs by two is right or one too large.\<close>

lemma sb_step_estimate:
  fixes q r cy Wl Wl' Dl D2 P :: int
  assumes P: "0 < P" and D: "D = Dl + P * D2" "0 \<le> Dl" "Dl < P"
    and q: "0 \<le> q" "q < B" and r: "0 \<le> r" "r < D2"
    and T: "R = Wl + P * (q * D2 + r)"
    and sub: "Wl' - P * cy = Wl - Dl * q" "0 \<le> Wl'" "Wl' < P" "0 \<le> cy" "cy < D2"
  shows "cy \<le> r \<Longrightarrow> q * D + (Wl' + P * (r - cy)) = R \<and> Wl' + P * (r - cy) < D"
    and "r < cy \<Longrightarrow> (q - 1) * D + (Wl' + P * (r - cy) + D) = R \<and> 0 \<le> Wl' + P * (r - cy) + D \<and> Wl' + P * (r - cy) + D < D"
proof -
  have e: "q * D + (Wl' + P * (r - cy)) = R"
    using T sub(1) unfolding D(1) by (simp add: algebra_simps)
  {
    assume c: "cy \<le> r"
    have "P * (r - cy + 1) \<le> P * D2" using P r sub(4) by (intro mult_left_mono) auto
    then have "Wl' + P * (r - cy) < D" using sub(3) D by (simp add: distrib_left)
    then show "q * D + (Wl' + P * (r - cy)) = R \<and> Wl' + P * (r - cy) < D" using e by simp
  }
  assume c: "r < cy"
  have "P * (r - cy) \<le> P * (- 1)" using P c by (intro mult_left_mono) auto
  moreover have "P * (cy - r) \<le> P * D2" using P sub(5) r by (intro mult_left_mono) auto
  ultimately show "(q - 1) * D + (Wl' + P * (r - cy) + D) = R \<and> 0 \<le> Wl' + P * (r - cy) + D \<and> Wl' + P * (r - cy) + D < D"
    using e sub(2,3) D by (simp add: algebra_simps)
qed

text \<open>The borrow from two limbs, and the addition back over all limbs.\<close>

lemma borrow_two_limbs:
  fixes n1 n0 cy :: limb
  defines "c \<equiv> of_bool (n0 < cy) :: limb"
  shows "n1 < c \<longleftrightarrow> uint n1 * B + uint n0 < uint cy"
    and "uint (n1 - c) * B + uint (n0 - cy) = uint n1 * B + uint n0 - uint cy + of_bool (n1 < c) * (B * B)"
proof -
  have c: "uint c = of_bool (uint n0 < uint cy)" by (simp add: c_def less_limb_iff)
  have n0: "uint (n0 - cy) = uint n0 - uint cy + uint c * B" unfolding c by (simp add: sub_limb_value)
  have n1: "uint (n1 - c) = uint n1 - uint c + of_bool (n1 < c) * B" by (simp add: sub_limb_value less_limb_iff)
  show e: "uint (n1 - c) * B + uint (n0 - cy) = uint n1 * B + uint n0 - uint cy + of_bool (n1 < c) * (B * B)"
    unfolding n0 n1 by (simp add: algebra_simps)
  note b = pair_bounds [of "n1 - c" "n0 - cy"]
  show "n1 < c \<longleftrightarrow> uint n1 * B + uint n0 < uint cy"
  proof (cases "n1 < c")
    case True
    then have "uint n1 * B + uint n0 < uint cy" using e b by simp
    then show ?thesis using True by simp
  next
    case False
    then have "\<not> uint n1 * B + uint n0 < uint cy" using e b by simp
    then show ?thesis using False by simp
  qed
qed

lemma sb_step_usual:
  assumes d: "2 ^ 63 \<le> uint d1" and len: "length wl = length dl" "dl \<noteq> []"
    and v: "inverts (uint dinv) (uint d1 * B + uint d0)"
    and lt: "window_value (wl @ [w0, w1]) n1 < B * lval (dl @ [d0, d1])" and ne: "\<not> (n1 = d1 \<and> w1 = d0)"
    and res: "sb_step (dl @ [d0, d1]) dinv n1 (wl @ [w0, w1]) = (q, win, n)"
  shows "uint q * lval (dl @ [d0, d1]) + remains win n = window_value (wl @ [w0, w1]) n1"
    and "remains win n < lval (dl @ [d0, d1])" "length win = length dl + 2"
proof -
  let ?D = "lval (dl @ [d0, d1])" and ?m = "length dl" and ?D2 = "uint d1 * B + uint d0" and ?R = "window_value (wl @ [w0, w1]) n1"
  have R: "?R = lval wl + B ^ ?m * ((uint n1 * B + uint w1) * B + uint w0)"
    using len by (simp add: window_value_def lval_two power_add algebra_simps power2_eq_square)
  have D: "?D = lval dl + B ^ ?m * ?D2" by (rule lval_two)
  have n: "uint n1 * B + uint w1 < ?D2"
  proof -
    have "B ^ ?m * (B * (uint n1 * B + uint w1)) \<le> ?R" unfolding R by (simp add: algebra_simps)
    also have "\<dots> < B * ?D" by (rule lt)
    also have "\<dots> < B * (B ^ ?m * (?D2 + 1))" unfolding D distrib_left [of "B ^ ?m"] by simp
    finally have "(B ^ ?m * B) * (uint n1 * B + uint w1) < (B ^ ?m * B) * (?D2 + 1)" by (simp add: ac_simps)
    then have "uint n1 * B + uint w1 < ?D2 + 1" by (simp only: mult_less_cancel_left_pos zero_less_mult_iff B_pow_pos B_pos simp_thms)
    moreover have "uint n1 * B + uint w1 \<noteq> ?D2" using ne limb_pair_unique [of n1 w1 "uint d1" "uint d0"] by (auto simp: eq_limb_iff)
    ultimately show ?thesis by linarith
  qed
  obtain q1 r1 r0 where t: "tdiv_qr_3by2 n1 w1 w0 d1 d0 dinv = (q1, r1, r0)" by (cases "tdiv_qr_3by2 n1 w1 w0 d1 d0 dinv") auto
  note T = tdiv_qr_3by2_value [OF d v n t]
  obtain lo cy where s: "mpn_submul_1 wl dl q1 = (lo, cy)" by fastforce
  have lo: "lval lo - B ^ ?m * uint cy = lval wl - lval dl * uint q1" "length lo = ?m"
    using mpn_submul_1_value [of wl dl q1] length_mpn_submul_1 [of wl dl q1] s len by simp_all
  have cyD: "uint cy < ?D2"
  proof -
    have "B \<le> uint d1 * B" using d by (simp add: B_def)
    then show ?thesis using uint_lt_B [of cy] uint_ge_0 [of d0] by linarith
  qed
  have rT: "?R = lval wl + B ^ ?m * (uint q1 * ?D2 + (uint r1 * B + uint r0))" unfolding R T(1) ..
  have lB: "lval lo < B ^ ?m" using lval_lt [of lo] lo(2) by simp
  note est = sb_step_estimate [OF B_pow_pos D lval_nonneg lval_lt uint_ge_0 uint_lt_B pair_bounds(1) T(2) rT lo(1) lval_nonneg lB uint_ge_0 cyD]
  define c where "c = (of_bool (r0 < cy) :: limb)"
  note bor = borrow_two_limbs [of r1 r0 cy, folded c_def]
  have step: "sb_step (dl @ [d0, d1]) dinv n1 (wl @ [w0, w1]) =
      (if r1 < c then (let (s, k) = mpn_add_n (lo @ [r0 - cy]) (dl @ [d0]) in (q1 - 1, s @ [w1], r1 - c + (d1 + k)))
       else (q1, lo @ [r0 - cy, w1], r1 - c))"
    using t s ne len lo(2) by (auto simp: sb_step_def Let_def nth_append c_def)
  have "uint q * ?D + remains win n = ?R \<and> remains win n < ?D \<and> length win = length dl + 2"
  proof (cases "r1 < c")
    case False
    then have "uint cy \<le> uint r1 * B + uint r0" using bor(1) by simp
    note e = est(1) [OF this]
    have w: "win = lo @ [r0 - cy, w1]" "n = r1 - c" "q = q1" using step res False by simp_all
    have "remains win n = lval lo + B ^ ?m * (uint (r1 - c) * B + uint (r0 - cy))"
      using lo(2) by (simp add: remains_def w butlast_append lval_append algebra_simps)
    then have "remains win n = lval lo + B ^ ?m * (uint r1 * B + uint r0 - uint cy)"
      unfolding bor(2) using False by simp
    then show ?thesis using e w lo(2) by simp
  next
    case True
    then have "uint r1 * B + uint r0 < uint cy" using bor(1) by simp
    note e = est(2) [OF this]
    let ?X = "lval lo + B ^ ?m * (uint r1 * B + uint r0 - uint cy) + ?D"
    obtain s' k where a: "mpn_add_n (lo @ [r0 - cy]) (dl @ [d0]) = (s', k)" by fastforce
    then have w: "win = s' @ [w1]" "n = r1 - c + (d1 + k)" "q = q1 - 1" using step res True by simp_all
    have ls: "length s' = ?m + 1" using length_mpn_add_n [of "lo @ [r0 - cy]" "dl @ [d0]"] a lo(2) by simp
    have sv: "lval s' + B ^ (?m + 1) * uint k = lval (lo @ [r0 - cy]) + lval (dl @ [d0])"
      using mpn_add_n_value [of "lo @ [r0 - cy]" "dl @ [d0]"] a lo(2) by simp
    obtain j where j: "uint n = uint (r1 - c) + uint d1 + uint k - B * j"
    proof -
      have "uint n = (uint (r1 - c) + (uint d1 + uint k)) mod B" unfolding w by (simp add: uint_word_ariths B_def mod_simps)
      then have "uint n = uint (r1 - c) + uint d1 + uint k - B * ((uint (r1 - c) + uint d1 + uint k) div B)"
        by (simp add: minus_mult_div_eq_mod [symmetric] add.assoc)
      then show ?thesis by (rule that)
    qed
    have "remains win n = (lval s' + B ^ (?m + 1) * uint k) + B ^ (?m + 1) * (uint (r1 - c) + uint d1 - B * j)"
      unfolding remains_def w(1) j using ls by (simp add: algebra_simps)
    also have "\<dots> = lval lo + B ^ ?m * (uint (r1 - c) * B + uint (r0 - cy)) + ?D + B ^ (?m + 2) * (- j)"
      unfolding sv D by (simp add: lval_append lo(2) algebra_simps)
    also have "\<dots> = ?X + B ^ (?m + 2) * (1 - j)"
      unfolding bor(2) using True by (simp add: algebra_simps)
    finally have "remains win n mod B ^ (?m + 2) = ?X mod B ^ (?m + 2)" by (simp only: mod_mult_self2)
    moreover have "0 \<le> remains win n" "remains win n < B ^ (?m + 2)"
      using lval_lt [of "butlast win @ [n]"] ls by (simp_all add: remains_def w(1) lval_append)
    moreover have "0 \<le> ?X" "?X < B ^ (?m + 2)" using e lval_lt [of "dl @ [d0, d1]"] by simp_all
    ultimately have X: "remains win n = ?X" by simp
    have "0 < uint q1"
    proof (rule ccontr)
      assume "\<not> 0 < uint q1"
      then have "uint q1 = 0" using uint_ge_0 [of q1] by linarith
      then have "?R = ?X - ?D" using e by simp
      moreover have "0 \<le> ?R" by (simp add: window_value_def)
      ultimately show False using e by simp
    qed
    then have "uint q = uint q1 - 1" unfolding w(3) by (intro limb_int uint_minus_lt) auto
    then show ?thesis using e X w(1) ls by simp
  qed
  then show "uint q * ?D + remains win n = ?R" "remains win n < ?D" "length win = length dl + 2" by blast+
qed

lemma two_last:
  assumes "2 \<le> length xs"
  obtains ys a b where "xs = ys @ [a, b]"
proof -
  obtain ys b where ys: "xs = ys @ [b]" using assms by (cases xs rule: rev_cases) auto
  then obtain zs a where "ys = zs @ [a]" using assms by (cases ys rule: rev_cases) auto
  then show thesis using that ys by simp
qed

lemma sb_step_value:
  assumes d: "2 ^ 63 \<le> uint (last dp)" and len: "length win = length dp" "2 < length dp"
    and v: "inverts (uint dinv) (uint (dp ! (length dp - 1)) * B + uint (dp ! (length dp - 2)))"
    and lt: "window_value win n1 < B * lval dp"
    and res: "sb_step dp dinv n1 win = (q, win', n)"
  shows "uint q * lval dp + remains win' n = window_value win n1" "remains win' n < lval dp" "length win' = length dp"
proof -
  obtain dl d0 d1 where dp: "dp = dl @ [d0, d1]" using len(2) two_last [of dp] by auto
  obtain wl w0 w1 where win: "win = wl @ [w0, w1]" using len two_last [of win] by auto
  have l: "length wl = length dl" "dl \<noteq> []" using len dp win by auto
  have d': "2 ^ 63 \<le> uint d1" "inverts (uint dinv) (uint d1 * B + uint d0)" using d v dp by (simp_all add: nth_append)
  have "uint q * lval dp + remains win' n = window_value win n1 \<and> remains win' n < lval dp \<and> length win' = length dp"
  proof (cases "n1 = d1 \<and> w1 = d0")
    case True
    let ?w = "fst (mpn_submul_1 (wl @ [w0, d0]) (dl @ [d0, d1]) (- 1))"
    have w: "q = - 1" "win' = ?w" "n = ?w ! (length dl + 1)"
      using res True l unfolding dp win by (auto simp: sb_step_def Let_def nth_append)
    have lw: "length ?w = length dl + 2" using l by simp
    have ne: "?w \<noteq> []" using lw by (metis add_is_0 list.size(3) zero_neq_numeral)
    then have "last ?w = ?w ! (length dl + 1)" using last_conv_nth [OF ne] lw by simp
    then have "remains win' n = lval ?w"
      using lw lval_butlast_last [OF ne] unfolding remains_def w by simp
    then show ?thesis
      using sb_step_special [OF d'(1) l _ refl, of w0 d0] lt True w(1) lw unfolding dp win w(2) by simp
  next
    case False
    then show ?thesis using sb_step_usual [OF d'(1) l d'(2) lt [unfolded dp win] False res [unfolded dp win]] unfolding dp win by simp
  qed
  then show "uint q * lval dp + remains win' n = window_value win n1" "remains win' n < lval dp" "length win' = length dp" by blast+
qed

subsection \<open>The schoolbook division\<close>

text \<open>What is left of the dividend before round \<open>i\<close>: the limb \<open>n1\<close> stands for the top one.\<close>

definition pending :: "limb list \<Rightarrow> nat \<Rightarrow> limb \<Rightarrow> limb list \<Rightarrow> int" where
  "pending dp i n1 np = lval (take (i + length dp - 1) np) + B ^ (i + length dp - 1) * uint n1"

lemma take_drop_split: "i + j \<le> length xs \<Longrightarrow> take (i + j) xs = take i xs @ take j (drop i xs)"
  by (simp add: take_add)

lemma pending_split:
  assumes "i + length dp \<le> length np" "dp \<noteq> []"
  shows "pending dp i n1 np = lval (take i np) + B ^ i * remains (take (length dp) (drop i np)) n1"
proof -
  have "take (i + length dp - 1) np = take i np @ butlast (take (length dp) (drop i np))"
    using assms by (cases dp) (simp_all add: take_add butlast_take)
  moreover have "B ^ (i + length dp - 1) = B ^ i * B ^ (length dp - 1)"
    using assms(2) by (cases dp) (simp_all add: power_add)
  ultimately show ?thesis
    using assms by (simp add: pending_def remains_def lval_append algebra_simps)
qed

lemma sb_loop_value:
  assumes "2 ^ 63 \<le> uint (last dp)" "2 < length dp"
    and "inverts (uint dinv) (uint (dp ! (length dp - 1)) * B + uint (dp ! (length dp - 2)))"
    and "i + length dp \<le> length np" "remains (take (length dp) (drop i np)) n1 < lval dp"
    and "sb_loop dp dinv i n1 np = (qp, n, np')"
  shows "lval qp * lval dp + pending dp 0 n np' = pending dp i n1 np \<and> pending dp 0 n np' < lval dp \<and>
    length qp = i \<and> length np' = length np"
  using assms(4-6)
proof (induction i arbitrary: n1 np qp n np')
  case 0
  then show ?case using assms(2) by (auto simp: pending_def remains_def butlast_take)
next
  case (Suc i)
  let ?dn = "length dp" and ?win = "take (length dp) (drop i np)"
  have dn: "0 < ?dn" "dp \<noteq> []" using assms(2) by auto
  obtain q win m where st: "sb_step dp dinv n1 ?win = (q, win, m)" by (cases "sb_step dp dinv n1 ?win") auto
  let ?np = "take i np @ win @ drop (i + ?dn) np"
  obtain qs n2 np2 where rec: "sb_loop dp dinv i m ?np = (qs, n2, np2)" by (cases "sb_loop dp dinv i m ?np") auto
  have qp: "qp = qs @ [q]" "n = n2" "np' = np2" using Suc.prems(3) st rec by simp_all
  have lw: "length ?win = ?dn" using Suc.prems(1) by simp
  have win: "?win = np ! i # butlast (take ?dn (drop (Suc i) np))"
  proof -
    have "drop i np = np ! i # drop (Suc i) np" using Suc.prems(1) dn by (simp add: Cons_nth_drop_Suc)
    then show ?thesis using dn Suc.prems(1) by (cases ?dn) (simp_all add: butlast_take)
  qed
  have "window_value ?win n1 = uint (np ! i) + B * remains (take ?dn (drop (Suc i) np)) n1"
    using Suc.prems(1) dn unfolding window_value_def lw by (subst win) (cases ?dn; simp add: remains_def algebra_simps)
  moreover have "B * remains (take ?dn (drop (Suc i) np)) n1 \<le> B * (lval dp - 1)"
    using Suc.prems(2) by (intro mult_left_mono) auto
  ultimately have lt: "window_value ?win n1 < B * lval dp" using uint_lt_B [of "np ! i"] unfolding right_diff_distrib mult_1_right by linarith
  note S = sb_step_value [OF assms(1) lw assms(2,3) lt st]
  have wi: "take ?dn (drop i ?np) = win" "length ?np = length np" "take i ?np = take i np" using S(3) Suc.prems(1) by simp_all
  have IH: "lval qs * lval dp + pending dp 0 n2 np2 = pending dp i m ?np \<and> pending dp 0 n2 np2 < lval dp \<and>
      length qs = i \<and> length np2 = length ?np"
    using Suc.prems(1) S(2) wi by (intro Suc.IH [OF _ _ rec]) simp_all
  have "pending dp (Suc i) n1 np = lval (take i np) + B ^ i * window_value ?win n1"
    using Suc.prems(1) by (simp add: pending_def window_value_def take_add lval_append power_add algebra_simps)
  moreover have "pending dp i m ?np = lval (take i np) + B ^ i * remains win m"
    using pending_split [of i dp ?np m] Suc.prems(1) dn(2) unfolding wi by simp
  ultimately show ?case using IH qp wi(2) unfolding S(1) [symmetric] by (simp add: lval_append algebra_simps)
qed

lemma mpn_sb_div_qr_value:
  assumes "2 ^ 63 \<le> uint (last dp)" "2 < length dp" "length dp \<le> length np"
    and "inverts (uint dinv) (uint (dp ! (length dp - 1)) * B + uint (dp ! (length dp - 2)))"
    and "mpn_sb_div_qr np dp dinv = (qh, qp, np')"
  shows "(uint qh * B ^ (length np - length dp) + lval qp) * lval dp + lval (take (length dp) np') = lval np"
    and "lval (take (length dp) np') < lval dp" "length qp = length np - length dp" "length np' = length np"
proof -
  let ?nn = "length np" and ?dn = "length dp"
  let ?k = "?nn - ?dn" and ?hi = "drop (?nn - ?dn) np"
  define h where "h = (mpn_cmp ?hi dp ?dn \<ge> 0)"
  define np1 where "np1 = (if h then take ?k np @ fst (mpn_sub_n ?hi dp) else np)"
  have dn: "dp \<noteq> []" "np \<noteq> []" using assms(2,3) by auto
  have h: "h \<longleftrightarrow> lval dp \<le> lval ?hi" unfolding h_def using mpn_cmp_value [of ?dn ?hi dp] assms(3) by (auto simp: sgn_if)
  have hiB: "lval ?hi < 2 * lval dp"
  proof -
    obtain dl d0 d1 where dp: "dp = dl @ [d0, d1]" using assms(2) two_last [of dp] by auto
    have "lval ?hi < B ^ ?dn" using lval_lt [of ?hi] assms(3) by simp
    also have "\<dots> \<le> 2 * lval dp" using normalized_ge [of d1 dl d0] assms(1) unfolding dp by simp
    finally show ?thesis .
  qed
  have sub: "lval (fst (mpn_sub_n ?hi dp)) = lval ?hi - lval dp" if h
    using that h mpn_sub_n_exact [of ?hi dp] assms(3) by simp
  have l1: "length np1 = ?nn" using assms(3) by (simp add: np1_def)
  have hi1: "lval (drop ?k np1) = lval ?hi - of_bool h * lval dp" "take ?k np1 = take ?k np"
    using sub assms(3) by (simp_all add: np1_def)
  have whole: "lval np = lval np1 + of_bool h * B ^ ?k * lval dp"
    using lval_take_drop [of np ?k] lval_take_drop [of np1 ?k] hi1 l1 by (simp add: algebra_simps)
  obtain qs n np2 where lp: "sb_loop dp dinv ?k (np1 ! (?nn - 1)) np1 = (qs, n, np2)"
    by (cases "sb_loop dp dinv ?k (np1 ! (?nn - 1)) np1") auto
  have res: "qh = of_bool h" "qp = qs" "np' = np2[?dn - 1 := n]"
    using assms(5) lp by (simp_all add: mpn_sb_div_qr_def Let_def h_def [symmetric] np1_def [symmetric])
  have last: "np1 ! (?nn - 1) = last np1" "last (drop ?k np1) = last np1" "np1 \<noteq> []" "drop ?k np1 \<noteq> []"
  proof -
    show ne: "np1 \<noteq> []" using l1 dn(2) by auto
    have "length (drop ?k np1) = ?dn" using l1 assms(3) by simp
    then show "drop ?k np1 \<noteq> []" using dn(1) by (metis length_0_conv)
    then show "last (drop ?k np1) = last np1" by (simp add: last_drop)
    show "np1 ! (?nn - 1) = last np1" using last_conv_nth [OF ne] l1 by simp
  qed
  have top: "pending dp ?k (np1 ! (?nn - 1)) np1 = lval np1"
    using lval_butlast_last [OF last(3)] l1 assms(3) unfolding last(1) by (simp add: pending_def butlast_conv_take)
  have rem: "remains (take ?dn (drop ?k np1)) (np1 ! (?nn - 1)) = lval (drop ?k np1)"
    using lval_butlast_last [OF last(4)] l1 assms(3) unfolding last(1) by (simp add: remains_def last(2))
  have "lval (drop ?k np1) < lval dp" using hi1(1) h hiB by auto
  then have L: "lval qs * lval dp + pending dp 0 n np2 = pending dp ?k (np1 ! (?nn - 1)) np1 \<and> pending dp 0 n np2 < lval dp \<and>
      length qs = ?k \<and> length np2 = length np1"
    using assms(3) l1 rem by (intro sb_loop_value [OF assms(1,2,4) _ _ lp]) simp_all
  have low: "lval (take ?dn np') = pending dp 0 n np2"
  proof -
    have "?dn - 1 < length np2" "?dn = Suc (?dn - 1)" using L l1 assms(2,3) by auto
    then have "take ?dn np' = take (?dn - 1) np2 @ [n]"
      unfolding res by (metis length_list_update nth_list_update_eq take_Suc_conv_app_nth take_update_cancel order_refl)
    then show ?thesis using \<open>?dn - 1 < length np2\<close> by (simp add: pending_def lval_append)
  qed
  show "(uint qh * B ^ ?k + lval qp) * lval dp + lval (take ?dn np') = lval np"
    using L low whole top res by (simp add: algebra_simps)
  show "lval (take ?dn np') < lval dp" "length qp = ?k" "length np' = ?nn" using L low res l1 by simp_all
qed

end
