(* ===== verification/Mpn_Divrem2.thy ===== *)
theory Mpn_Divrem2
  imports Mpn_Sbdiv "HOL-Library.Monad_Syntax"
begin

text \<open>
  Division of a limb vector by two limbs, \<^verbatim>\<open>mpn_divrem_2\<close> (\<^verbatim>\<open>mpn/generic/divrem_2.c\<close>), with its
  fraction limbs. The backward jump to \<^verbatim>\<open>q_test\<close> may run for ever when the high divisor limb is 0, so the
  model of that loop is partial, and the results say that it returns for a normalized divisor. The
  quotient vector does not overlap the dividend.
\<close>

subsection \<open>The code\<close>

text \<open>The jump to \<^verbatim>\<open>q_test\<close>: the estimate is lowered until the product \<open>n1, n0\<close> fits, or until the remainder overflows a limb.\<close>

partial_function (option) q_test ::
    "limb \<Rightarrow> limb \<Rightarrow> limb \<Rightarrow> limb \<Rightarrow> limb \<Rightarrow> limb \<Rightarrow> limb \<Rightarrow> (limb \<times> limb \<times> limb \<times> limb) option" where
  "q_test d1 d0 n2 q n1 n0 r =
     (if n1 > r \<or> n1 = r \<and> n0 > n2 then
        let q = q - 1; (n1, n0) = sub_ddmmss n1 n0 0 d0; r = r + d1
        in if r \<ge> d1 then q_test d1 d0 n2 q n1 n0 r else Some (q, n1, n0, r)
      else Some (q, n1, n0, r))"

text \<open>One round: the quotient limb and the new remainder, from the remainder \<open>n1, n0\<close> and the next limb.\<close>

definition divrem_2_step ::
    "(limb \<Rightarrow> limb \<Rightarrow> limb \<times> limb) \<Rightarrow> limb \<Rightarrow> limb \<Rightarrow> limb \<Rightarrow> limb \<Rightarrow> limb \<Rightarrow> (limb \<times> limb \<times> limb) option" where
  "divrem_2_step udiv d1 d0 n1 n0 n2 =
     (if n1 = d1 \<and> n0 + d1 < d1 then
        let (n1, n0) = add_ssaaaa (n0 + d1 - d0) n2 0 d0 in Some (- 1, n1, n0)
      else
        let (q, r, n1, n0) =
              (if n1 = d1 then (- 1, n0 + d1, d0 - of_bool (d0 \<noteq> 0), - d0)
               else let (q, r) = udiv n1 n0; (n1, n0) = umul_ppmm d0 q in (q, r, n1, n0))
        in do {
             (q, n1, n0, r) \<leftarrow> q_test d1 d0 n2 q n1 n0 r;
             let (n1, n0) = sub_ddmmss r n2 n1 n0;
             Some (q, n1, n0)
           })"

fun divrem_2_loop ::
    "(limb \<Rightarrow> limb \<Rightarrow> limb \<times> limb) \<Rightarrow> limb \<Rightarrow> limb \<Rightarrow> limb list \<Rightarrow> limb \<Rightarrow> limb \<Rightarrow> (limb list \<times> limb \<times> limb) option" where
  "divrem_2_loop udiv d1 d0 [] n1 n0 = Some ([], n1, n0)"
| "divrem_2_loop udiv d1 d0 (n2 # ns) n1 n0 =
     do {
       (q, n1, n0) \<leftarrow> divrem_2_step udiv d1 d0 n1 n0 n2;
       (qs, n1, n0) \<leftarrow> divrem_2_loop udiv d1 d0 ns n1 n0;
       Some (q # qs, n1, n0)
     }"

text \<open>The high quotient limb, the quotient and the dividend with the remainder in its two low limbs.\<close>

definition mpn_divrem_2 :: "nat \<Rightarrow> nat \<Rightarrow> limb list \<Rightarrow> limb list \<Rightarrow> (limb \<times> limb list \<times> limb list) option" where
  "mpn_divrem_2 threshold qxn np dp =
     (let nn = length np; d1 = dp ! 1; d0 = dp ! 0; n1 = np ! (nn - 1); n0 = np ! (nn - 2);
          qh = n1 \<ge> d1 \<and> (n1 > d1 \<or> n0 \<ge> d0);
          (n1, n0) = (if qh then sub_ddmmss n1 n0 d1 d0 else (n1, n0));
          udiv = (if qxn + nn - 2 < threshold then udiv_plain d1 else udiv_inverse d1)
      in do {
           (qs, n1, n0) \<leftarrow> divrem_2_loop udiv d1 d0 (rev (take (nn - 2) np) @ replicate qxn 0) n1 n0;
           Some (of_bool qh, rev qs, n0 # n1 # drop 2 np)
         })"

subsection \<open>The quotient test returns\<close>

text \<open>
  With \<open>n1, n0\<close> the product of the estimate and the low divisor limb and \<open>T\<close> the number divided, the
  test returns the quotient, and the final subtraction gives the remainder, whether or not it went
  over a limb.
\<close>

lemma q_test_returns:
  fixes d1 d0 n2 :: limb and T :: int
  defines "D \<equiv> uint d1 * B + uint d0"
  assumes d1: "0 < uint d1"
    and P: "uint q * uint d0 = uint n1 * B + uint n0"
    and T: "T = uint q * D + (uint r * B + uint n2) - (uint n1 * B + uint n0)" "0 \<le> T" "T < (uint q + 1) * D"
  shows "\<exists>q' n1' n0' r'. q_test d1 d0 n2 q n1 n0 r = Some (q', n1', n0', r') \<and>
    0 \<le> T - uint q' * D \<and> T - uint q' * D < D \<and>
    (uint r' * B + uint n2 - (uint n1' * B + uint n0')) mod (B * B) = T - uint q' * D"
  using P T
proof (induction "nat (B - uint r)" arbitrary: q n1 n0 r rule: less_induct)
  case less
  let ?P = "uint n1 * B + uint n0" and ?R = "uint r * B + uint n2"
  have DB: "D < B * B" unfolding D_def by (rule pair_bounds)
  show ?case
  proof (cases "n1 > r \<or> n1 = r \<and> n0 > n2")
    case False
    then have le: "?P \<le> ?R" using pair_le_iff [of n1 n0 r n2] by (auto simp: less_limb_iff le_limb_iff eq_limb_iff)
    have "0 \<le> T - uint q * D" "T - uint q * D < D" "?R - ?P = T - uint q * D"
      using less.prems le by (simp_all add: distrib_right)
    moreover have "(?R - ?P) mod (B * B) = ?R - ?P" using calculation DB by (intro mod_pos_pos_trivial) linarith+
    ultimately show ?thesis using False by (subst q_test.simps) auto
  next
    case True
    obtain m1 m0 where s: "sub_ddmmss n1 n0 0 d0 = (m1, m0)" by fastforce
    have gt: "?R < ?P" using True pair_le_iff [of n1 n0 r n2] by (auto simp: less_limb_iff le_limb_iff eq_limb_iff)
    have q1: "1 \<le> uint q"
    proof (rule ccontr)
      assume "\<not> 1 \<le> uint q"
      then have "uint q = 0" using uint_ge_0 [of q] by linarith
      then show False using less.prems(1) gt pair_bounds(1) [of r n2] by simp
    qed
    have uq: "uint (q - 1) = uint q - 1" using q1 by (simp add: uint_sub_limb le_limb_iff)
    have P': "(uint q - 1) * uint d0 = ?P - uint d0" using less.prems(1) by (simp add: algebra_simps)
    have "0 \<le> ?P - uint d0" unfolding P' [symmetric] using q1 by simp
    then have m: "uint m1 * B + uint m0 = ?P - uint d0"
      using sub_ddmmss_value [OF s] pair_bounds(2) [of n1 n0] uint_ge_0 [of d0] by (simp add: mod_pos_pos_trivial)
    have T': "T = (uint q - 1) * D + ((uint r + uint d1) * B + uint n2) - (?P - uint d0)"
      using less.prems(2) by (simp add: D_def algebra_simps)
    have T2: "T < (uint q - 1 + 1) * D" using less.prems(2) gt by simp
    show ?thesis
    proof (cases "r + d1 \<ge> d1")
      case nowrap: True
      then have r: "uint (r + d1) = uint r + uint d1" using uint_lt_B [of r, THEN not_le [THEN iffD2]] by (simp add: uint_add_limb le_limb_iff split: if_splits)
      have "nat (B - uint (r + d1)) < nat (B - uint r)" using r d1 uint_lt_B [of r] by simp
      then show ?thesis
        using less.hyps [of "r + d1" "q - 1" m1 m0] T' T2 less.prems(3) True nowrap s
        unfolding uq r m P' by (subst q_test.simps) simp
    next
      case wrap: False
      then have r: "uint (r + d1) = uint r + uint d1 - B" "B \<le> uint r + uint d1"
        by (simp_all add: uint_add_limb le_limb_iff split: if_splits)
      have "B * B \<le> (uint r + uint d1) * B" using r(2) by (intro mult_right_mono) simp_all
      then have lo: "0 \<le> T - (uint q - 1) * D"
        using T' pair_bounds(2) [of n1 n0] uint_ge_0 [of d0] uint_ge_0 [of n2] by linarith
      have hi: "T - (uint q - 1) * D < D" using T2 by (simp add: algebra_simps)
      have "uint (r + d1) * B + uint n2 - (uint m1 * B + uint m0) = T - (uint q - 1) * D + (B * B) * (- 1)"
        unfolding r(1) m using T' by (simp add: algebra_simps)
      then have "(uint (r + d1) * B + uint n2 - (uint m1 * B + uint m0)) mod (B * B) = T - (uint q - 1) * D"
        using lo hi DB by (simp only: mod_mult_self2) (simp add: mod_pos_pos_trivial)
      then show ?thesis using lo hi True wrap s uq by (subst q_test.simps) auto
    qed
  qed
qed

subsection \<open>One round\<close>

lemma pair_mod: "0 \<le> x \<Longrightarrow> x < B * B \<Longrightarrow> x mod (B * B) = x" for x :: int
  by (rule mod_pos_pos_trivial)

lemma product_of_max:
  "uint (d0 - of_bool (d0 \<noteq> 0)) * B + uint (- d0) = uint (- 1 :: limb) * uint (d0 :: limb)"
proof (cases "d0 = 0")
  case False
  then have "1 \<le> uint d0" using uint_ge_0 [of d0] by (simp add: limb_ne_0_iff)
  then have "uint (d0 - 1) = uint d0 - 1" "uint (- d0) = B - uint d0"
    using uint_lt_B [of d0] uint_sub_limb [of 0 d0] by (simp_all add: uint_sub_limb)
  then show ?thesis using False by (simp add: uint_limb_max left_diff_distrib)
qed simp

lemma divrem_2_step_value:
  fixes d1 d0 n1 n0 n2 :: limb
  defines "D \<equiv> uint d1 * B + uint d0" and "T \<equiv> (uint n1 * B + uint n0) * B + uint n2"
  assumes d1: "0 < uint d1" and u: "udiv_step udiv d1" and lt: "uint n1 * B + uint n0 < D"
  shows "\<exists>q m1 m0. divrem_2_step udiv d1 d0 n1 n0 n2 = Some (q, m1, m0) \<and>
    uint q * D + (uint m1 * B + uint m0) = T \<and> uint m1 * B + uint m0 < D"
proof -
  have D: "D < B * B" "T < B * D" 
  proof -
    show "D < B * B" unfolding D_def by (rule pair_bounds)
    have "(uint n1 * B + uint n0 + 1) * B \<le> D * B" using lt by (intro mult_right_mono) auto
    then show "T < B * D" using uint_lt_B [of n2] unfolding T_def distrib_right mult.commute [of B] by linarith
  qed
  have T0: "0 \<le> T" unfolding T_def by simp
  have same: "uint n0 < uint d0" "T = (B - 1) * D + ((uint n0 + uint d1) * B + uint n2) - (B - 1) * uint d0" if "n1 = d1"
    using lt that by (simp_all add: D_def T_def algebra_simps)
  consider "n1 = d1" "n0 + d1 < d1" | q r p1 p0 where
      "divrem_2_step udiv d1 d0 n1 n0 n2 = do {
         (q, n1, n0, r) \<leftarrow> q_test d1 d0 n2 q p1 p0 r; let (n1, n0) = sub_ddmmss r n2 n1 n0; Some (q, n1, n0) }"
      "uint q * uint d0 = uint p1 * B + uint p0"
      "T = uint q * D + (uint r * B + uint n2) - (uint p1 * B + uint p0)" "T < (uint q + 1) * D"
  proof (cases "n1 = d1")
    case True
    show thesis
    proof (cases "n0 + d1 < d1")
      case False
      then have r: "uint (n0 + d1) = uint n0 + uint d1"
        using uint_lt_B [of n0, THEN not_le [THEN iffD2]] by (simp add: uint_add_limb less_limb_iff split: if_splits)
      have e: "divrem_2_step udiv d1 d0 n1 n0 n2 = do {
         (q, n1, n0, r) \<leftarrow> q_test d1 d0 n2 (- 1) (d0 - of_bool (d0 \<noteq> 0)) (- d0) (n0 + d1);
         let (n1, n0) = sub_ddmmss r n2 n1 n0; Some (q, n1, n0) }"
        using True False by (simp add: divrem_2_step_def)
      show thesis
        by (rule that(2) [OF e]) (use same(2) [OF True] D(2) in \<open>simp_all add: product_of_max r uint_limb_max\<close>)
    qed (use True that(1) in blast)
  next
    case False
    have "uint n1 * B \<le> uint n1 * B + uint n0" by simp
    then have "n1 < d1" using lt False pair_le_iff [of d1 d0 n1 n0] by (auto simp: D_def le_limb_iff eq_limb_iff less_limb_iff)
    obtain q r p1 p0 where u1: "udiv n1 n0 = (q, r)" "umul_ppmm d0 q = (p1, p0)" by fastforce
    note v = udiv_stepD [OF u \<open>n1 < d1\<close> u1(1)] umul_ppmm_value [OF u1(2)]
    have e: "divrem_2_step udiv d1 d0 n1 n0 n2 = do {
       (q, n1, n0, r) \<leftarrow> q_test d1 d0 n2 q p1 p0 r; let (n1, n0) = sub_ddmmss r n2 n1 n0; Some (q, n1, n0) }"
      using False u1 by (simp add: divrem_2_step_def)
    have P: "uint q * uint d0 = uint p1 * B + uint p0" using v by (simp add: mult.commute)
    have T: "T = uint q * D + (uint r * B + uint n2) - uint q * uint d0"
      using v(1) [symmetric] by (simp add: T_def D_def algebra_simps)
    have "(uint r + 1) * B \<le> uint d1 * B" using v(2) by (intro mult_right_mono) (simp_all add: less_limb_iff)
    then have "uint r * B + uint n2 < D" using uint_lt_B [of n2] uint_ge_0 [of d0] unfolding D_def distrib_right by linarith
    moreover have "0 \<le> uint q * uint d0" by simp
    ultimately have "T < (uint q + 1) * D" unfolding T distrib_right by linarith
    then show thesis using that(2) [OF e P] T P by simp
  qed
  then show ?thesis
  proof cases
    case 1
    obtain m1 m0 where m: "add_ssaaaa (n0 + d1 - d0) n2 0 d0 = (m1, m0)" by fastforce
    have c: "uint (n0 + d1) = uint n0 + uint d1 - B" "B \<le> uint n0 + uint d1"
      using 1(2) by (simp_all add: uint_add_limb less_limb_iff split: if_splits)
    define e where "e = uint n0 + uint d1 - uint d0"
    have e: "0 \<le> e" "e + 1 \<le> uint d1" using c same(1) [OF 1(1)] uint_lt_B [of d0] unfolding e_def by linarith+
    have "\<not> uint d0 \<le> uint (n0 + d1)" using c same(1) [OF 1(1)] uint_lt_B [of d1] by linarith
    then have u0: "uint (n0 + d1 - d0) = e" unfolding uint_sub_limb [of "n0 + d1"] c(1) by (simp add: e_def)
    have "(e + 1) * B \<le> uint d1 * B" using e by (intro mult_right_mono) simp_all
    then have lt: "e * B + uint n2 + uint d0 < D" using uint_lt_B [of n2] unfolding D_def distrib_right by linarith
    have "0 \<le> e * B" using e(1) by simp
    then have v: "uint m1 * B + uint m0 = e * B + uint n2 + uint d0"
      using add_ssaaaa_value [OF m] lt D(1) uint_ge_0 [of n2] uint_ge_0 [of d0] unfolding u0 by (simp add: pair_mod)
    have "uint (- 1 :: limb) * D + (uint m1 * B + uint m0) = T"
      unfolding v uint_limb_max same(2) [OF 1(1)] by (simp add: e_def algebra_simps)
    then show ?thesis using 1 m v lt by (simp add: divrem_2_step_def)
  next
    case (2 q r p1 p0)
    obtain q' n1' n0' r' where t: "q_test d1 d0 n2 q p1 p0 r = Some (q', n1', n0', r')"
      "0 \<le> T - uint q' * D" "T - uint q' * D < D"
      "(uint r' * B + uint n2 - (uint n1' * B + uint n0')) mod (B * B) = T - uint q' * D"
      using q_test_returns [OF d1 2(2) 2(3) [unfolded D_def] T0 2(4) [unfolded D_def]] unfolding D_def by blast
    obtain m1 m0 where m: "sub_ddmmss r' n2 n1' n0' = (m1, m0)" by fastforce
    show ?thesis using sub_ddmmss_value [OF m] t m unfolding 2(1) by simp
  qed
qed

subsection \<open>The whole division\<close>

lemma divrem_2_loop_value:
  fixes d1 d0 :: limb
  defines "D \<equiv> uint d1 * B + uint d0"
  assumes d1: "0 < uint d1" and u: "udiv_step udiv d1" and "uint n1 * B + uint n0 < D"
  shows "\<exists>qs m1 m0. divrem_2_loop udiv d1 d0 ns n1 n0 = Some (qs, m1, m0) \<and>
    mval 0 qs * D + (uint m1 * B + uint m0) = mval (uint n1 * B + uint n0) ns \<and>
    uint m1 * B + uint m0 < D \<and> length qs = length ns"
  using assms(4)
proof (induction ns arbitrary: n1 n0)
  case (Cons n2 ns)
  obtain q k1 k0 where s: "divrem_2_step udiv d1 d0 n1 n0 n2 = Some (q, k1, k0)"
    "uint q * D + (uint k1 * B + uint k0) = (uint n1 * B + uint n0) * B + uint n2" "uint k1 * B + uint k0 < D"
    using divrem_2_step_value [OF d1 u, of n1 n0 d0 n2] Cons.prems unfolding D_def by blast
  obtain qs m1 m0 where l: "divrem_2_loop udiv d1 d0 ns k1 k0 = Some (qs, m1, m0)"
    "mval 0 qs * D + (uint m1 * B + uint m0) = mval (uint k1 * B + uint k0) ns"
    "uint m1 * B + uint m0 < D" "length qs = length ns"
    using Cons.IH [OF s(3)] by blast
  have "mval 0 (q # qs) * D + (uint m1 * B + uint m0) = mval (uint n1 * B + uint n0) (n2 # ns)"
  proof -
    have "mval (uint n1 * B + uint n0) (n2 # ns) = (uint q * D + (uint k1 * B + uint k0)) * B ^ length ns + lval (rev ns)"
      unfolding s(2) by (simp add: mval_lval [of _ ns])
    moreover have "mval 0 (q # qs) = uint q * B ^ length ns + mval 0 qs" using l(4) by (simp add: mval_lval [of _ qs])
    moreover have "mval (uint k1 * B + uint k0) ns = (uint k1 * B + uint k0) * B ^ length ns + lval (rev ns)" by (rule mval_lval)
    ultimately show ?thesis using l(2) by (simp add: algebra_simps)
  qed
  then show ?case using s l by simp
qed simp

theorem mpn_divrem_2_quotient:
  fixes np dp :: "limb list"
  assumes nn: "2 \<le> length np" and dp: "length dp = 2" and norm: "2 ^ 63 \<le> uint (dp ! 1)"
  shows "\<exists>qh qp np'. mpn_divrem_2 threshold qxn np dp = Some (qh, qp, np') \<and>
    (uint qh * B ^ (length np - 2 + qxn) + lval qp) * lval dp + lval (take 2 np') = lval np * B ^ qxn \<and>
    lval (take 2 np') < lval dp \<and> length qp = length np - 2 + qxn \<and> length np' = length np \<and> uint qh \<le> 1"
proof -
  obtain ns n0 n1 where np: "np = ns @ [n0, n1]" using two_last [OF nn] by blast
  obtain d0 d1 where dp': "dp = [d0, d1]" using dp by (auto simp: length_Suc_conv numeral_2_eq_2)
  define D where "D = uint d1 * B + uint d0"
  have d1: "2 ^ 63 \<le> uint d1" "0 < uint d1" using norm dp' by auto
  let ?qh = "n1 \<ge> d1 \<and> (n1 > d1 \<or> n0 \<ge> d0)"
  obtain k1 k0 where k: "(if ?qh then sub_ddmmss n1 n0 d1 d0 else (n1, n0)) = (k1, k0)" by fastforce
  have qh: "?qh \<longleftrightarrow> D \<le> uint n1 * B + uint n0"
    unfolding D_def pair_le_iff by (auto simp: le_limb_iff less_limb_iff eq_limb_iff)
  have two: "uint n1 * B + uint n0 < 2 * D"
  proof -
    have "B * B \<le> 2 * (uint d1 * B)" using mult_right_mono [of B "2 * uint d1" B] d1(1) by (simp add: B_def)
    then show ?thesis using pair_bounds(2) [of n1 n0] uint_ge_0 [of d0] unfolding D_def distrib_left by linarith
  qed
  have kv: "uint n1 * B + uint n0 = of_bool ?qh * D + (uint k1 * B + uint k0)" "uint k1 * B + uint k0 < D"
  proof -
    have "uint k1 * B + uint k0 = uint n1 * B + uint n0 - of_bool ?qh * D"
    proof (cases ?qh)
      case True
      then have "sub_ddmmss n1 n0 d1 d0 = (k1, k0)" using k by simp
      from sub_ddmmss_value [OF this] show ?thesis
        using True qh pair_bounds [of n1 n0] pair_bounds(1) [of d1 d0] unfolding D_def [symmetric] by (simp add: pair_mod)
    qed (use k in auto)
    then show "uint n1 * B + uint n0 = of_bool ?qh * D + (uint k1 * B + uint k0)" "uint k1 * B + uint k0 < D"
      using qh two by auto
  qed
  define udiv where "udiv = (if qxn + length np - 2 < threshold then udiv_plain d1 else udiv_inverse d1)"
  obtain qs m1 m0 where l: "divrem_2_loop udiv d1 d0 (rev ns @ replicate qxn 0) k1 k0 = Some (qs, m1, m0)"
    "mval 0 qs * D + (uint m1 * B + uint m0) = mval (uint k1 * B + uint k0) (rev ns @ replicate qxn 0)"
    "uint m1 * B + uint m0 < D" "length qs = length (rev ns @ replicate qxn (0 :: limb))"
    using divrem_2_loop_value [OF d1(2) udiv_steps [OF d1(1)]] kv(2) unfolding D_def udiv_def by blast
  have e: "mpn_divrem_2 threshold qxn np dp = Some (of_bool ?qh, rev qs, m0 # m1 # drop 2 np)"
  proof -
    have a: "np ! (length np - 1) = n1" "np ! (length np - 2) = n0" "take (length np - 2) np = ns" "dp ! 1 = d1" "dp ! 0 = d0"
      unfolding np dp' by (simp_all add: nth_append)
    show ?thesis unfolding mpn_divrem_2_def Let_def a k udiv_def [symmetric] by (simp add: l(1))
  qed
  have rem: "lval (take 2 (m0 # m1 # drop 2 np)) = uint m1 * B + uint m0" "lval dp = D"
    by (simp_all add: dp' D_def)
  have "mval (uint k1 * B + uint k0) (rev ns @ replicate qxn 0) + of_bool ?qh * D * B ^ (length ns + qxn) = lval np * B ^ qxn"
    unfolding np lval_two kv(1) by (simp add: mval_append mval_zeros mval_lval lval_append power_add algebra_simps)
  then have "(uint (of_bool ?qh :: limb) * B ^ (length np - 2 + qxn) + lval (rev qs)) * D + (uint m1 * B + uint m0) = lval np * B ^ qxn"
    using l(2) by (simp add: np mval_lval algebra_simps)
  moreover have "length (rev qs) = length np - 2 + qxn" "length (m0 # m1 # drop 2 np) = length np"
    using l(4) nn by (simp_all add: np)
  moreover have "uint (of_bool ?qh :: limb) \<le> 1" by (simp add: of_bool_def)
  ultimately show ?thesis unfolding e rem(2) using l(3) rem(1) by (metis option.inject)
qed

end
