(* ===== verification/Mpn_Tdiv.thy ===== *)
theory Mpn_Tdiv
  imports Mpn_Divrem2 Mpn_Mul_Top
begin

unbundle bit_operations_syntax

text \<open>
  Division of limb vectors, \<^verbatim>\<open>mpn_tdiv_qr\<close> (\<^verbatim>\<open>mpn/generic/tdiv_qr.c\<close>): a divisor of one limb, of two
  limbs, a dividend at least about twice as long as the divisor, and a quotient shorter than the
  divisor, where the leading limbs give an estimate of the quotient that the rest of the operands
  corrects. The schoolbook division is the verified one; the divide-and-conquer and the inverse-based
  routines, selected for divisors of many limbs, are fields of the configuration, and the results
  assume of them that they divide. \<open>None\<close> is a call that does not return: an \<^verbatim>\<open>ASSERT_ALWAYS\<close> that
  fails, a division by zero, or a loop that goes on for ever.
\<close>

subsection \<open>Configuration\<close>

text \<open>
  \<open>rp_beyond\<close> is the limb in memory above the remainder, which the final borrow propagation includes in its
  range for some operands.
\<close>

record tdiv_config =
  tdiv_mul :: mul_config
  tdiv_div :: div_config
  DIVREM_2_THRESHOLD :: nat
  DC_DIV_QR_THRESHOLD :: nat
  INV_DIV_QR_THRESHOLD :: nat
  dc_div_qr :: "limb list \<Rightarrow> limb list \<Rightarrow> limb \<Rightarrow> limb \<times> limb list \<times> limb list"
  dc_div_qr_n :: "limb list \<Rightarrow> limb list \<Rightarrow> limb \<Rightarrow> limb \<times> limb list \<times> limb list"
  invert_n :: "limb list \<Rightarrow> limb list"
  inv_div_qr :: "limb list \<Rightarrow> limb list \<Rightarrow> limb list \<Rightarrow> limb \<times> limb list \<times> limb list"
  inv_div_qr_n :: "limb list \<Rightarrow> limb list \<Rightarrow> limb list \<Rightarrow> limb \<times> limb list \<times> limb list"
  rp_beyond :: limb

subsection \<open>Divisors of one and two limbs\<close>

definition tdiv_qr_1 :: "tdiv_config \<Rightarrow> limb list \<Rightarrow> limb list \<Rightarrow> limb list \<times> limb list" where
  "tdiv_qr_1 cfg np dp = (let (qp, r) = mpn_divrem_1 (tdiv_div cfg) 0 np (dp ! 0) in (qp, [r]))"

definition tdiv_qr_2 :: "tdiv_config \<Rightarrow> limb list \<Rightarrow> limb list \<Rightarrow> (limb list \<times> limb list) option" where
  "tdiv_qr_2 cfg np dp =
     (let nn = length np
      in if dp ! 1 AND GMP_LIMB_HIGHBIT = 0 then
           let cnt = count_leading_zeros (dp ! 1);
               d2p = [push_bit cnt (dp ! 0), push_bit cnt (dp ! 1) OR drop_bit (64 - cnt) (dp ! 0)];
               (n2p, cy) = mpn_lshift np cnt;
               n2p = n2p @ [cy]
           in do {
                (qhl, qp, n2p) \<leftarrow> mpn_divrem_2 (DIVREM_2_THRESHOLD cfg) 0 (take (nn + of_bool (cy \<noteq> 0)) n2p) d2p;
                Some (if cy = 0 then qp @ [qhl] else qp,
                  [drop_bit cnt (n2p ! 0) OR push_bit (64 - cnt) (n2p ! 1), drop_bit cnt (n2p ! 1)])
              }
         else
           do {
             (qhl, qp, n2p) \<leftarrow> mpn_divrem_2 (DIVREM_2_THRESHOLD cfg) 0 np dp;
             Some (qp @ [qhl], [n2p ! 0, n2p ! 1])
           })"

subsection \<open>A long quotient\<close>

definition tdiv_qr_long :: "tdiv_config \<Rightarrow> bool \<Rightarrow> limb list \<Rightarrow> limb list \<Rightarrow> limb list \<times> limb list" where
  "tdiv_qr_long cfg adjust np dp =
     (let dn = length dp;
          (cnt, d2p, n2p) =
            (if last dp AND GMP_LIMB_HIGHBIT = 0 then
               let cnt = count_leading_zeros (last dp); (n2p, cy) = mpn_lshift np cnt
               in (cnt, fst (mpn_lshift dp cnt), n2p @ [cy])
             else (0, dp, np @ [0]));
          nn = length np + of_bool adjust;
          n2p = take nn n2p;
          dinv = invert_1 (d2p ! (dn - 1)) (d2p ! (dn - 2));
          (_, qp, n2p) =
            (if dn < DC_DIV_QR_THRESHOLD cfg then mpn_sb_div_qr n2p d2p dinv
             else if dn < INV_DIV_QR_THRESHOLD cfg \<or> nn < 2 * INV_DIV_QR_THRESHOLD cfg then dc_div_qr cfg n2p d2p dinv
             else inv_div_qr cfg n2p d2p (invert_n cfg d2p))
      in (if adjust then qp else qp @ [0],
          if cnt \<noteq> 0 then fst (mpn_rshift (take dn n2p) cnt) else take dn n2p))"

subsection \<open>A quotient shorter than the divisor\<close>

text \<open>The shift, and the leading limbs of the shifted divisor (\<open>qn\<close>) and dividend (\<open>2 * qn\<close>).\<close>

definition tdiv_operands :: "bool \<Rightarrow> nat \<Rightarrow> limb list \<Rightarrow> limb list \<Rightarrow> nat \<times> limb list \<times> limb list" where
  "tdiv_operands adjust qn np dp =
     (let nn = length np; i = length dp - qn
      in if last dp AND GMP_LIMB_HIGHBIT = 0 then
           let cnt = count_leading_zeros (last dp);
               d2p = fst (mpn_lshift (drop i dp) cnt);
               d2p = d2p[0 := d2p ! 0 OR drop_bit (64 - cnt) (dp ! (i - 1))];
               (n2p, cy) = mpn_lshift (drop (nn - 2 * qn) np) cnt
           in (cnt, d2p,
               if adjust then tl (n2p @ [cy])
               else n2p[0 := n2p ! 0 OR drop_bit (64 - cnt) (np ! (nn - 2 * qn - 1))])
         else
           (0, drop i dp, let n2p = drop (nn - 2 * qn) np in if adjust then tl (n2p @ [0]) else n2p))"

text \<open>The estimate of the quotient and its partial remainder.\<close>

definition tdiv_estimate :: "tdiv_config \<Rightarrow> limb list \<Rightarrow> limb list \<Rightarrow> (limb list \<times> limb list) option" where
  "tdiv_estimate cfg n2p d2p =
     (let qn = length d2p
      in if qn = 1 then
           let (q0, r0) = udiv_qrnnd_c (n2p ! 1) (n2p ! 0) (d2p ! 0) in Some ([q0], [r0])
         else if qn = 2 then
           do { (_, qp, n2p) \<leftarrow> mpn_divrem_2 (DIVREM_2_THRESHOLD cfg) 0 n2p d2p; Some (qp, take 2 n2p) }
         else
           let dinv = invert_1 (d2p ! (qn - 1)) (d2p ! (qn - 2));
               (_, qp, n2p) =
                 (if qn < DC_DIV_QR_THRESHOLD cfg then mpn_sb_div_qr n2p d2p dinv
                  else if qn < INV_DIV_QR_THRESHOLD cfg then dc_div_qr_n cfg n2p d2p dinv
                  else inv_div_qr_n cfg n2p d2p (invert_n cfg d2p))
           in Some (qp, take qn n2p))"

text \<open>
  The quick test with the first ignored limb of the divisor. The partial remainder has one limb more
  afterwards when the correction carried.
\<close>

definition tdiv_quick_test :: "nat \<Rightarrow> limb list \<Rightarrow> limb list \<Rightarrow> limb list \<Rightarrow> limb list \<Rightarrow> limb list \<times> limb list" where
  "tdiv_quick_test cnt dp d2p qp n2p =
     (let qn = length d2p; i = length dp - qn;
          dl = (if i < 2 then 0 else dp ! (i - 2));
          x = push_bit cnt (dp ! (i - 1)) OR drop_bit (63 - cnt) (drop_bit 1 dl);
          (h, _) = umul_ppmm x (qp ! (qn - 1))
      in if n2p ! (qn - 1) < h then
           let qp = mpn_decr_u qp 1; (n2p, cy) = mpn_add_n n2p d2p
           in (qp, if cy \<noteq> 0 then n2p @ [cy] else n2p)
         else (qp, n2p))"

text \<open>Undoing the shift: the partly used limbs of dividend and divisor are taken into the partial remainder.\<close>

definition tdiv_unshift :: "nat \<Rightarrow> limb list \<Rightarrow> limb list \<Rightarrow> limb list \<Rightarrow> limb list \<Rightarrow> (limb list \<times> bool) option" where
  "tdiv_unshift cnt np dp qp n2p =
     (if cnt \<noteq> 0 then
        let qn = length qp; i = length dp - qn; rn = length n2p;
            mask = drop_bit cnt (- 1);
            (n2p, cy1) = mpn_lshift n2p (64 - cnt);
            n2p = n2p[0 := n2p ! 0 OR (np ! (i - 1) AND mask)];
            (lo, cy2) = mpn_submul_1 (take qn n2p) qp (dp ! (i - 1) AND mask)
        in if qn \<noteq> rn then
             (if n2p ! qn \<ge> cy2 then Some (lo @ [n2p ! qn - cy2], False) else None)
           else Some (lo @ [cy1 - cy2], cy1 < cy2)
      else Some (n2p, False))"

text \<open>The remainder from the partial one and the \<open>i\<close> limbs not used so far, and whether the quotient is too large.\<close>

definition tdiv_remainder ::
    "tdiv_config \<Rightarrow> nat \<Rightarrow> limb list \<Rightarrow> limb list \<Rightarrow> limb list \<Rightarrow> limb list \<Rightarrow> bool \<Rightarrow> (limb list \<times> bool) option" where
  "tdiv_remainder cfg i np dp qp n2p quotient_too_large =
     (let dn = length dp; qn = length qp; rn = length n2p
      in if i < qn \<and> i = 0 then (if rn = dn then Some (n2p, quotient_too_large) else None)
         else
           let tp = (if i < qn then mpn_mul (tdiv_mul cfg) False qp (take i dp)
                     else mpn_mul (tdiv_mul cfg) False (take i dp) qp);
               (n2p, cy) = mpn_sub n2p (drop i tp);
               (lo, cy1) = mpn_sub_n (take i np) (take i tp);
               (hi, cy2) = mpn_sub_1 (take rn (take (dn - i) n2p @ [rp_beyond cfg])) cy1
           in Some (lo @ take (dn - i) hi, quotient_too_large \<or> cy \<noteq> 0 \<or> cy2 \<noteq> 0))"

definition tdiv_qr_short :: "tdiv_config \<Rightarrow> bool \<Rightarrow> limb list \<Rightarrow> limb list \<Rightarrow> (limb list \<times> limb list) option" where
  "tdiv_qr_short cfg adjust np dp =
     (let nn = length np; dn = length dp; qn = nn - dn + of_bool adjust
      in if qn = 0 then Some ([0], take dn np)
         else
           let (cnt, d2p, n2p) = tdiv_operands adjust qn np dp
           in do {
                (qp, n2p) \<leftarrow> tdiv_estimate cfg n2p d2p;
                let (qp, n2p) = tdiv_quick_test cnt dp d2p qp n2p;
                (n2p, too_large) \<leftarrow> tdiv_unshift cnt np dp qp n2p;
                (rp, too_large) \<leftarrow> tdiv_remainder cfg (dn - qn - of_bool (cnt \<noteq> 0)) np dp qp n2p too_large;
                let (qp, rp) = (if too_large then (mpn_decr_u qp 1, fst (mpn_add_n rp dp)) else (qp, rp));
                Some (if adjust then qp else qp @ [0], rp)
              })"

definition mpn_tdiv_qr :: "tdiv_config \<Rightarrow> limb list \<Rightarrow> limb list \<Rightarrow> (limb list \<times> limb list) option" where
  "mpn_tdiv_qr cfg np dp =
     (let nn = length np; dn = length dp
      in if dn = 0 then None
         else if dn = 1 then Some (tdiv_qr_1 cfg np dp)
         else if dn = 2 then tdiv_qr_2 cfg np dp
         else
           let adjust = last np \<ge> last dp
           in if nn + of_bool adjust \<ge> 2 * dn then Some (tdiv_qr_long cfg adjust np dp)
              else tdiv_qr_short cfg adjust np dp)"

subsection \<open>What the routines promise\<close>

text \<open>The quotient is written without its high limb, so it has to fit in the limbs below.\<close>

definition divided :: "limb list \<Rightarrow> limb list \<Rightarrow> limb \<times> limb list \<times> limb list \<Rightarrow> bool" where
  "divided np dp res \<longleftrightarrow> (case res of (qh, qp, np') \<Rightarrow>
     (uint qh * B ^ (length np - length dp) + lval qp) * lval dp + lval (take (length dp) np') = lval np \<and>
     lval (take (length dp) np') < lval dp \<and> length qp = length np - length dp \<and> length np' = length np)"

definition normal_divisor :: "limb list \<Rightarrow> limb list \<Rightarrow> bool" where
  "normal_divisor np dp \<longleftrightarrow> 2 < length dp \<and> length dp \<le> length np \<and> 2 ^ 63 \<le> uint (last dp)"

definition top_inverse :: "limb list \<Rightarrow> limb" where
  "top_inverse dp = invert_1 (dp ! (length dp - 1)) (dp ! (length dp - 2))"

definition tdiv_config_ok :: "tdiv_config \<Rightarrow> bool" where
  "tdiv_config_ok cfg \<longleftrightarrow>
     mul_config_ok (tdiv_mul cfg) \<and>
     (\<forall>np dp. normal_divisor np dp \<longrightarrow>
        divided np dp (dc_div_qr cfg np dp (top_inverse dp)) \<and>
        divided np dp (inv_div_qr cfg np dp (invert_n cfg dp))) \<and>
     (\<forall>np dp. normal_divisor np dp \<and> length np = 2 * length dp \<longrightarrow>
        divided np dp (dc_div_qr_n cfg np dp (top_inverse dp)) \<and>
        divided np dp (inv_div_qr_n cfg np dp (invert_n cfg dp)))"

lemma sb_div_qr_divided:
  assumes "normal_divisor np dp"
  shows "divided np dp (mpn_sb_div_qr np dp (top_inverse dp))"
proof -
  have "last dp = dp ! (length dp - 1)" using assms by (intro last_conv_nth) (auto simp: normal_divisor_def)
  then have "inverts (uint (top_inverse dp)) (uint (dp ! (length dp - 1)) * B + uint (dp ! (length dp - 2)))"
    using assms unfolding top_inverse_def by (intro invert_1_inverts) (auto simp: normal_divisor_def)
  note exact = mpn_sb_div_qr_value [OF _ _ _ this]
  obtain qh qp np' where r: "mpn_sb_div_qr np dp (top_inverse dp) = (qh, qp, np')"
    by (cases "mpn_sb_div_qr np dp (top_inverse dp)") auto
  show ?thesis using exact [OF _ _ _ r] assms unfolding r divided_def normal_divisor_def by simp
qed

text \<open>A quotient that fits: the high limb is 0, and the rest is the quotient.\<close>

lemma dividedD:
  assumes "divided np dp (qh, qp, np')" "lval np < B ^ (length np - length dp) * lval dp"
  shows "lval qp * lval dp + lval (take (length dp) np') = lval np" "lval (take (length dp) np') < lval dp"
    "length qp = length np - length dp" "length np' = length np"
proof -
  let ?k = "length np - length dp" and ?r = "lval (take (length dp) np')"
  have v: "(uint qh * B ^ ?k + lval qp) * lval dp + ?r = lval np" and r: "?r < lval dp"
    using assms(1) by (simp_all add: divided_def)
  have "lval np div lval dp = uint qh * B ^ ?k + lval qp"
    using v r zdiv_mod_unique(1) [of "lval np" "uint qh * B ^ ?k + lval qp" "lval dp" ?r] by simp
  moreover have "lval np div lval dp < B ^ ?k"
  proof -
    have "0 < lval dp" using r lval_nonneg [of "take (length dp) np'"] by linarith
    then show ?thesis using assms(2) by (simp add: zdiv_lt_iff)
  qed
  ultimately have lt: "uint qh * B ^ ?k + lval qp < B ^ ?k" by simp
  have "uint qh = 0"
  proof (rule ccontr)
    assume "uint qh \<noteq> 0"
    then have "1 \<le> uint qh" using uint_ge_0 [of qh] by linarith
    then have "1 * B ^ ?k \<le> uint qh * B ^ ?k" by (rule mult_right_mono) simp
    then show False using lt lval_nonneg [of qp] by linarith
  qed
  then show "lval qp * lval dp + ?r = lval np" using v by simp
  show "?r < lval dp" "length qp = ?k" "length np' = length np" using assms(1) by (simp_all add: divided_def)
qed

subsection \<open>Shifted operands\<close>

definition norm_shift :: "limb \<Rightarrow> nat" where
  "norm_shift d = (if d AND GMP_LIMB_HIGHBIT = 0 then count_leading_zeros d else 0)"

lemma norm_shift:
  assumes "d \<noteq> 0"
  shows "norm_shift d < 64" "2 ^ 63 \<le> uint d * 2 ^ norm_shift d" "(uint d + 1) * 2 ^ norm_shift d \<le> B"
    and "norm_shift d \<noteq> 0 \<longleftrightarrow> d AND GMP_LIMB_HIGHBIT = 0"
proof -
  let ?c = "count_leading_zeros d"
  note c = count_leading_zeros_spec [OF assms] and n = normalized [OF assms]
  have small: "(uint d + 1) * 2 ^ ?c \<le> B"
  proof -
    have "(uint d + 1) * 2 ^ ?c \<le> 2 ^ (64 - ?c) * 2 ^ ?c" using c(3) by (intro mult_right_mono) simp_all
    then show ?thesis using c(1) by (simp add: B_def flip: power_add)
  qed
  show "norm_shift d < 64" using c by (simp add: norm_shift_def)
  show "2 ^ 63 \<le> uint d * 2 ^ norm_shift d" using n highbit_set [of d] by (auto simp: norm_shift_def)
  have "uint d + 1 \<le> B" using uint_lt_B [of d] by linarith
  then show "(uint d + 1) * 2 ^ norm_shift d \<le> B" using small by (simp add: norm_shift_def)
  have "d AND GMP_LIMB_HIGHBIT = 0 \<Longrightarrow> ?c \<noteq> 0" using c(2) highbit_set [of d] by (auto intro: ccontr)
  then show "norm_shift d \<noteq> 0 \<longleftrightarrow> d AND GMP_LIMB_HIGHBIT = 0" by (simp add: norm_shift_def)
qed

text \<open>The divisor, shifted.\<close>

lemma divisor_shifted:
  assumes "dp \<noteq> []" "last dp \<noteq> 0"
  defines "c \<equiv> norm_shift (last dp)"
  shows "B ^ length dp \<le> 2 * (lval dp * 2 ^ c)" "lval dp * 2 ^ c < B ^ length dp"
    "lval dp < (uint (last dp) + 1) * B ^ (length dp - 1)" "uint (last dp) * B ^ (length dp - 1) \<le> lval dp"
proof -
  let ?n = "length dp - 1" and ?t = "uint (last dp)"
  have n: "B ^ length dp = B * B ^ ?n" using assms(1) by (cases dp) simp_all
  have v: "lval dp = lval (butlast dp) + B ^ ?n * ?t" by (rule lval_butlast_last [OF assms(1)])
  have lo: "lval (butlast dp) < B ^ ?n" using lval_lt [of "butlast dp"] by simp
  show up: "lval dp < (?t + 1) * B ^ ?n" "?t * B ^ ?n \<le> lval dp" using v lo by (simp_all add: algebra_simps)
  note t = norm_shift [OF assms(2), folded c_def]
  have "2 ^ 63 * B ^ ?n \<le> (?t * 2 ^ c) * B ^ ?n" using t(2) by (intro mult_right_mono) simp_all
  also have "\<dots> \<le> lval dp * 2 ^ c" using mult_right_mono [OF up(2), of "2 ^ c"] by (simp add: mult_ac)
  finally show "B ^ length dp \<le> 2 * (lval dp * 2 ^ c)" unfolding n by (simp add: B_def)
  have "lval dp * 2 ^ c < (?t + 1) * B ^ ?n * 2 ^ c" using up(1) by (rule mult_strict_right_mono) simp
  also have "\<dots> = (?t + 1) * 2 ^ c * B ^ ?n" by (simp add: mult_ac)
  also have "\<dots> \<le> B * B ^ ?n" using t(3) by (rule mult_right_mono) simp
  finally show "lval dp * 2 ^ c < B ^ length dp" unfolding n .
qed

lemma top_from_value:
  assumes "xs \<noteq> []" "B ^ length xs \<le> 2 * lval xs"
  shows "2 ^ 63 \<le> uint (last xs)"
proof (rule ccontr)
  assume "\<not> 2 ^ 63 \<le> uint (last xs)"
  then have "(uint (last xs) + 1) * B ^ (length xs - 1) \<le> 2 ^ 63 * B ^ (length xs - 1)" by (intro mult_right_mono) simp_all
  moreover have "lval xs < (uint (last xs) + 1) * B ^ (length xs - 1)"
    using lval_butlast_last [OF assms(1)] lval_lt [of "butlast xs"] by (simp add: algebra_simps)
  moreover have "B ^ length xs = 2 * 2 ^ 63 * B ^ (length xs - 1)" using assms(1) by (cases xs) (simp_all add: B_def)
  ultimately show False using assms(2) by linarith
qed

text \<open>The quotient has \<open>nn - dn\<close> limbs, or one more when the top limbs do not decide.\<close>

lemma quotient_fits:
  assumes "dp \<noteq> []" "last dp \<noteq> 0" "length dp \<le> length np"
  defines "qn \<equiv> length np - length dp + of_bool (last np \<ge> last dp)"
  shows "lval np < B ^ qn * lval dp"
proof (cases "last np \<ge> last dp")
  case True
  have "lval np < B ^ length np" by simp
  also have "B ^ length np = B ^ qn * B ^ (length dp - 1)"
    using True assms(1,3) by (cases dp) (simp_all add: qn_def flip: power_add power_Suc)
  also have "\<dots> \<le> B ^ qn * lval dp" using lval_ge_of_last [OF assms(1,2)] by (intro mult_left_mono) simp_all
  finally show ?thesis .
next
  case False
  have np: "np \<noteq> []" using assms(1,3) by auto
  have "lval np < (uint (last np) + 1) * B ^ (length np - 1)"
    using lval_butlast_last [OF np] lval_lt [of "butlast np"] by (simp add: algebra_simps)
  also have "\<dots> \<le> uint (last dp) * B ^ (length np - 1)" using False by (intro mult_right_mono) (simp_all add: le_limb_iff)
  also have "B ^ (length np - 1) = B ^ qn * B ^ (length dp - 1)"
    using False assms(1,3) by (cases dp) (simp_all add: qn_def flip: power_add power_Suc)
  also have "uint (last dp) * (B ^ qn * B ^ (length dp - 1)) \<le> B ^ qn * lval dp"
    using mult_left_mono [OF divisor_shifted(4) [OF assms(1,2)], of "B ^ qn"] by (simp add: mult_ac)
  finally show ?thesis .
qed

text \<open>A shifted vector, and the low limb of a shifted slice with the bits of the limb below it.\<close>

lemma uint_or_low:
  assumes "uint a mod 2 ^ c = 0" "uint (b :: limb) < 2 ^ c"
  shows "uint (a OR b) = uint a + uint b"
proof -
  have "take_bit c (uint a) = 0" "take_bit c (uint b) = uint b"
    using assms by (simp_all add: take_bit_eq_mod mod_pos_pos_trivial)
  moreover have "uint a AND take_bit c (uint b) = take_bit c (uint a) AND uint b" by (auto simp: bit_eq_iff bit_simps)
  ultimately have "uint a AND uint b = 0" by simp
  then have "uint a OR uint b = uint a + uint b" by (rule disjunctive_add_eq_or [symmetric])
  then show ?thesis by (simp add: unsigned_or_eq)
qed

lemma lshift_multiple:
  assumes "0 < c" "c < 64" "xs \<noteq> []"
  shows "uint (fst (mpn_lshift xs c) ! 0) mod 2 ^ c = 0"
proof -
  obtain y ys where y: "fst (mpn_lshift xs c) = y # ys" using assms(3) length_mpn_lshift [of xs c]
    by (cases "fst (mpn_lshift xs c)") auto
  have B: "B = 2 ^ c * 2 ^ (64 - c)" using assms(2) by (simp add: B_def flip: power_add)
  obtain n where n: "length xs = Suc n" using assms(3) by (cases xs) auto
  have "uint y = 2 ^ c * (lval xs - 2 ^ (64 - c) * (lval ys + B ^ n * uint (snd (mpn_lshift xs c))))"
    using mpn_lshift_value [OF assms(1,2), of xs] unfolding y n by (simp add: B algebra_simps)
  then show ?thesis unfolding y by simp
qed

lemma shift_out:
  assumes "0 < c" "c < 64" "0 < k" "k \<le> length xs"
  shows "lval (take k xs) * 2 ^ c div B ^ k = uint (drop_bit (64 - c) (xs ! (k - 1)))"
proof -
  obtain j where k: "k = Suc j" using assms(3) by (cases k) auto
  have t: "lval (take k xs) = lval (take j xs) + B ^ j * uint (xs ! j)"
    using assms(4) k by (simp add: take_Suc_conv_app_nth lval_append)
  have "B ^ k = 2 ^ (64 - c) * B ^ j * 2 ^ c" using assms(2) by (simp add: k B_def flip: power_add)
  then have "lval (take k xs) * 2 ^ c div B ^ k = lval (take k xs) div (B ^ j * 2 ^ (64 - c))"
    by (simp add: mult.commute)
  also have "\<dots> = lval (take k xs) div B ^ j div 2 ^ (64 - c)" by (rule zdiv_zmult2_eq) simp
  also have "lval (take k xs) div B ^ j = uint (xs ! j)"
    using lval_lt [of "take j xs"] assms(4) unfolding t by (simp add: k div_pos_pos_trivial)
  finally show ?thesis unfolding k by (simp add: uint_drop_limb)
qed

lemma shift_slice:
  assumes c: "0 < c" "c < 64" and k: "0 < k" "k < length xs"
  defines "s \<equiv> mpn_lshift (drop k xs) c"
  shows "lval ((fst s)[0 := fst s ! 0 OR drop_bit (64 - c) (xs ! (k - 1))]) + B ^ (length xs - k) * uint (snd s)
    = lval xs * 2 ^ c div B ^ k"
proof -
  have ne: "drop k xs \<noteq> []" using k by simp
  then obtain y ys where y: "fst s = y # ys" using length_mpn_lshift [of "drop k xs" c]
    unfolding s_def by (cases "fst (mpn_lshift (drop k xs) c)") auto
  have "uint y mod 2 ^ c = 0" using lshift_multiple [OF c ne] y by (simp add: s_def)
  moreover have "uint (drop_bit (64 - c) (xs ! (k - 1))) < 2 ^ c"
    using uint_lt_B [of "xs ! (k - 1)"] c by (simp add: uint_drop_limb zdiv_lt_iff B_def flip: power_add)
  ultimately have "lval ((fst s)[0 := fst s ! 0 OR drop_bit (64 - c) (xs ! (k - 1))])
      = lval (fst s) + lval (take k xs) * 2 ^ c div B ^ k"
    using shift_out [OF c k(1), of xs] k unfolding y by (simp add: uint_or_low)
  moreover have "lval (fst s) + B ^ (length xs - k) * uint (snd s) = lval (drop k xs) * 2 ^ c"
    using mpn_lshift_value [OF c, of "drop k xs"] by (simp add: s_def)
  moreover have "lval xs * 2 ^ c = lval (take k xs) * 2 ^ c + B ^ k * (lval (drop k xs) * 2 ^ c)"
    using lval_take_drop [of xs k] k by (simp add: algebra_simps)
  ultimately show ?thesis by simp
qed

lemma shifted_exact:
  assumes "0 < c" "c < 64" "lval xs * 2 ^ c < B ^ length xs"
  shows "lval (fst (mpn_lshift xs c)) = lval xs * 2 ^ c" "snd (mpn_lshift xs c) = 0"
proof -
  note v = mpn_lshift_value [OF assms(1,2), of xs]
  have "\<not> 1 \<le> uint (snd (mpn_lshift xs c))"
  proof
    assume "1 \<le> uint (snd (mpn_lshift xs c))"
    then have "B ^ length xs * 1 \<le> B ^ length xs * uint (snd (mpn_lshift xs c))" by (intro mult_left_mono) simp_all
    then show False using v assms(3) lval_nonneg [of "fst (mpn_lshift xs c)"] by linarith
  qed
  then show "snd (mpn_lshift xs c) = 0" using uint_ge_0 [of "snd (mpn_lshift xs c)"] unfolding limb_eq_0_iff by linarith
  then show "lval (fst (mpn_lshift xs c)) = lval xs * 2 ^ c" using v by simp
qed

text \<open>The remainder of shifted operands is the shifted remainder.\<close>

lemma unshift_division:
  fixes N D q r :: int
  assumes "q * (D * 2 ^ c) + r = N * 2 ^ c" "r < D * 2 ^ c"
  shows "q * D + r div 2 ^ c = N" "r div 2 ^ c < D"
proof -
  have "r = 2 ^ c * (N - q * D)" using assms(1) by (simp add: algebra_simps)
  then show "q * D + r div 2 ^ c = N" "r div 2 ^ c < D" using assms(2) by (simp_all add: mult.commute)
qed

subsection \<open>Divisors of one and two limbs, and long quotients\<close>

definition tdiv_of :: "limb list \<Rightarrow> limb list \<Rightarrow> limb list \<Rightarrow> limb list \<Rightarrow> bool" where
  "tdiv_of np dp qp rp \<longleftrightarrow> lval qp * lval dp + lval rp = lval np \<and> lval rp < lval dp \<and>
     length qp = length np - length dp + 1 \<and> length rp = length dp"

lemma tdiv_qr_1_value:
  assumes "length dp = 1" "last dp \<noteq> 0" "np \<noteq> []" "tdiv_qr_1 cfg np dp = (qp, rp)"
  shows "tdiv_of np dp qp rp"
proof -
  obtain d where d: "dp = [d]" using assms(1) by (auto simp: length_Suc_conv)
  note q = mpn_divrem_1_quotient [of d np 0 "tdiv_div cfg"]
  show ?thesis using q assms d by (auto simp: tdiv_qr_1_def tdiv_of_def quotient_of_def less_limb_iff Suc_leI split: prod.splits)
qed

lemma tdiv_qr_2_value:
  assumes dp: "length dp = 2" "last dp \<noteq> 0" and nn: "2 \<le> length np"
  shows "\<exists>qp rp. tdiv_qr_2 cfg np dp = Some (qp, rp) \<and> tdiv_of np dp qp rp"
proof -
  obtain d0 d1 where d: "dp = [d0, d1]" using dp(1) by (auto simp: length_Suc_conv numeral_2_eq_2)
  define c where "c = norm_shift d1"
  have d1: "d1 \<noteq> 0" using dp(2) d by simp
  note c = norm_shift [OF d1, folded c_def]
  show ?thesis
  proof (cases "d1 AND GMP_LIMB_HIGHBIT = 0")
    case False
    then have "2 ^ 63 \<le> uint (dp ! 1)" using highbit_set d by simp
    from mpn_divrem_2_quotient [OF nn dp(1) this, of "DIVREM_2_THRESHOLD cfg" 0]
    obtain qh qp np' where r: "mpn_divrem_2 (DIVREM_2_THRESHOLD cfg) 0 np dp = Some (qh, qp, np')"
      "(uint qh * B ^ (length np - 2) + lval qp) * lval dp + lval (take 2 np') = lval np"
      "lval (take 2 np') < lval dp" "length qp = length np - 2" "length np' = length np" by auto
    have "take 2 np' = [np' ! 0, np' ! 1]" using r(5) nn by (cases np' rule: list.exhaust; cases "tl np'") auto
    moreover have "lval (qp @ [qh]) = uint qh * B ^ (length np - 2) + lval qp" using r(4) by (simp add: lval_append)
    ultimately show ?thesis using False r nn d by (simp add: tdiv_qr_2_def tdiv_of_def)
  next
    case True
    have c0: "0 < c" "c < 64" "c = count_leading_zeros d1" using c True by (simp_all add: c_def norm_shift_def)
    let ?s = "mpn_lshift np c" and ?d2 = "[push_bit c d0, push_bit c d1 OR drop_bit (64 - c) d0]"
    let ?n2 = "take (length np + of_bool (snd ?s \<noteq> 0)) (fst ?s @ [snd ?s])"
    have D: "B ^ 2 \<le> 2 * (lval dp * 2 ^ c)" "lval dp * 2 ^ c < B ^ 2"
      using divisor_shifted(1,2) [of dp] d1 by (simp_all add: d c_def power2_eq_square)
    have "fst (mpn_lshift dp c) = ?d2" by (simp add: d mpn_lshift_def)
    then have d2: "lval ?d2 = lval dp * 2 ^ c" using shifted_exact(1) [OF c0(1,2), of dp] D(2) dp(1) by simp
    have top: "2 ^ 63 \<le> uint (?d2 ! 1)" using top_from_value [of ?d2] D(1) unfolding d2 by (simp add: power2_eq_square)
    have n2: "lval ?n2 = lval np * 2 ^ c" "length ?n2 = length np + of_bool (snd ?s \<noteq> 0)"
      using mpn_lshift_value [OF c0(1,2), of np] by (auto simp: lval_append)
    have "2 \<le> length ?n2" "length ?d2 = 2" using n2(2) nn by simp_all
    from mpn_divrem_2_quotient [OF this top, of "DIVREM_2_THRESHOLD cfg" 0]
    obtain qh qp np' where r: "mpn_divrem_2 (DIVREM_2_THRESHOLD cfg) 0 ?n2 ?d2 = Some (qh, qp, np')"
      and v: "divided ?n2 ?d2 (qh, qp, np')" by (auto simp: divided_def numeral_2_eq_2)
    let ?q = "if snd ?s = 0 then qp @ [qh] else qp" and ?m = "lval (take 2 np')"
    have q: "lval ?q * (lval dp * 2 ^ c) + ?m = lval np * 2 ^ c \<and> ?m < lval dp * 2 ^ c \<and>
        length ?q = length np - 2 + 1 \<and> length np' = length ?n2"
    proof (cases "snd ?s = 0")
      case True
      then show ?thesis using v nn unfolding divided_def d2 n2 by (simp add: lval_append algebra_simps numeral_2_eq_2)
    next
      case False
      have "lval np < B ^ (length np - 1) * lval dp"
      proof -
        have "lval np < B ^ (length np - 2 + of_bool (last np \<ge> last dp)) * lval dp"
          using quotient_fits [of dp np] dp(2) nn d by (auto simp: numeral_2_eq_2)
        also have "\<dots> \<le> B ^ (length np - 1) * lval dp"
          by (intro mult_right_mono power_increasing) (use nn in auto)
        finally show ?thesis .
      qed
      then have "lval np * 2 ^ c < B ^ (length np - 1) * lval dp * 2 ^ c" by (rule mult_strict_right_mono) simp
      then have "lval ?n2 < B ^ (length ?n2 - length ?d2) * lval ?d2" unfolding d2 n2 using False nn by (simp add: mult.assoc)
      from dividedD [OF v this] show ?thesis unfolding d2 n2 using False nn by (simp add: numeral_2_eq_2)
    qed
    then have l: "2 \<le> length np'" using n2(2) nn by simp
    then obtain m0 m1 ms where m: "np' = m0 # m1 # ms" by (cases np' rule: list.exhaust; cases "tl np'") auto
    have "lval [drop_bit c m0 OR push_bit (64 - c) m1, drop_bit c m1] = ?m div 2 ^ c"
      using mpn_rshift_div(1) [OF c0(1,2), of "[m0, m1]"] by (simp add: m mpn_rshift_def)
    with q unshift_division [of "lval ?q" "lval dp" c ?m "lval np"]
    have "tdiv_of np dp ?q [drop_bit c m0 OR push_bit (64 - c) m1, drop_bit c m1]"
      unfolding tdiv_of_def dp(1) by simp
    moreover have "tdiv_qr_2 cfg np dp = Some (?q, [drop_bit c m0 OR push_bit (64 - c) m1, drop_bit c m1])"
      using True r unfolding tdiv_qr_2_def d by (simp add: c0(3) [symmetric] m split_beta Let_def)
    ultimately show ?thesis by blast
  qed
qed

lemma lval_take_small:
  assumes "lval xs < B ^ n"
  shows "lval (take n xs) = lval xs"
proof (cases "n \<le> length xs")
  case True
  have v: "lval xs = lval (take n xs) + B ^ n * lval (drop n xs)" by (rule lval_split_at [OF True])
  have "\<not> 1 \<le> lval (drop n xs)"
  proof
    assume "1 \<le> lval (drop n xs)"
    then have "B ^ n * 1 \<le> B ^ n * lval (drop n xs)" by (intro mult_left_mono) simp_all
    then show False using v assms lval_nonneg [of "take n xs"] by linarith
  qed
  then have "lval (drop n xs) = 0" using lval_nonneg [of "drop n xs"] by linarith
  then show ?thesis using v by simp
qed simp

lemma divide_by_size:
  assumes ok: "tdiv_config_ok cfg" and n: "normal_divisor np dp"
  shows "divided np dp (if b1 then mpn_sb_div_qr np dp (top_inverse dp)
    else if b2 then dc_div_qr cfg np dp (top_inverse dp) else inv_div_qr cfg np dp (invert_n cfg dp))"
    and "length np = 2 * length dp \<Longrightarrow> divided np dp (if b1 then mpn_sb_div_qr np dp (top_inverse dp)
    else if b2 then dc_div_qr_n cfg np dp (top_inverse dp) else inv_div_qr_n cfg np dp (invert_n cfg dp))"
  using ok n sb_div_qr_divided [OF n] unfolding tdiv_config_ok_def by auto

lemma tdiv_qr_long_value:
  assumes ok: "tdiv_config_ok cfg" and dp: "2 < length dp" "last dp \<noteq> 0" and nn: "length dp \<le> length np"
    and a: "adjust = (last np \<ge> last dp)" and r: "tdiv_qr_long cfg adjust np dp = (qp, rp)"
  shows "tdiv_of np dp qp rp"
proof -
  let ?c = "norm_shift (last dp)" and ?nn = "length np + of_bool adjust" and ?dn = "length dp"
  have ne: "dp \<noteq> []" using dp(1) by auto
  note c = norm_shift [OF dp(2)] and D = divisor_shifted [OF ne dp(2)]
  define d2p where "d2p = (if ?c \<noteq> 0 then fst (mpn_lshift dp ?c) else dp)"
  define n2p where "n2p = take ?nn (if ?c \<noteq> 0 then fst (mpn_lshift np ?c) @ [snd (mpn_lshift np ?c)] else np @ [0])"
  have d2: "lval d2p = lval dp * 2 ^ ?c" "length d2p = ?dn"
    using shifted_exact(1) [OF _ c(1) D(2)] by (auto simp: d2p_def)
  have fits: "lval np * 2 ^ ?c < B ^ (?nn - ?dn) * (lval dp * 2 ^ ?c)"
  proof -
    have "?nn - ?dn = length np - ?dn + of_bool (last np \<ge> last dp)" using nn a by simp
    then have "lval np < B ^ (?nn - ?dn) * lval dp" using quotient_fits [OF ne dp(2) nn] by simp
    from mult_strict_right_mono [OF this, of "2 ^ ?c"] show ?thesis by (simp add: mult.assoc)
  qed
  have n2: "lval n2p = lval np * 2 ^ ?c" "length n2p = ?nn"
  proof -
    let ?f = "if ?c \<noteq> 0 then fst (mpn_lshift np ?c) @ [snd (mpn_lshift np ?c)] else np @ [0]"
    have f: "lval ?f = lval np * 2 ^ ?c" "length ?f = length np + 1"
      using mpn_lshift_value [OF _ c(1), of np] by (auto simp: lval_append)
    show len: "length n2p = ?nn" by (simp add: n2p_def of_bool_def)
    have lt: "lval ?f < B ^ ?nn"
    proof -
      have "lval ?f < B ^ (?nn - ?dn) * (lval dp * 2 ^ ?c)" using fits f(1) by simp
      also have "\<dots> \<le> B ^ (?nn - ?dn) * B ^ ?dn" using D(2) by (intro mult_left_mono) simp_all
      finally show ?thesis using nn by (simp flip: power_add)
    qed
    show "lval n2p = lval np * 2 ^ ?c" using lval_take_small [OF lt] f(1) by (simp add: n2p_def)
  qed
  have "d2p \<noteq> []" using d2(2) ne by auto
  then have normal: "normal_divisor n2p d2p"
    using top_from_value [of d2p] D(1) d2 n2(2) dp(1) nn ne unfolding normal_divisor_def by auto
  obtain qh q n' where v: "(if ?dn < DC_DIV_QR_THRESHOLD cfg then mpn_sb_div_qr n2p d2p (top_inverse d2p)
      else if ?dn < INV_DIV_QR_THRESHOLD cfg \<or> ?nn < 2 * INV_DIV_QR_THRESHOLD cfg then dc_div_qr cfg n2p d2p (top_inverse d2p)
      else inv_div_qr cfg n2p d2p (invert_n cfg d2p)) = (qh, q, n')" (is "?div = _")
    by (cases ?div) auto
  have "lval n2p < B ^ (length n2p - length d2p) * lval d2p" using fits n2 d2 by simp
  note q = dividedD [OF divide_by_size(1) [OF ok normal, of "?dn < DC_DIV_QR_THRESHOLD cfg"
    "?dn < INV_DIV_QR_THRESHOLD cfg \<or> ?nn < 2 * INV_DIV_QR_THRESHOLD cfg", unfolded v] this, unfolded d2 n2]
  have res: "qp = (if adjust then q else q @ [0])" "rp = (if ?c \<noteq> 0 then fst (mpn_rshift (take ?dn n') ?c) else take ?dn n')"
  proof -
    have "(if last dp AND GMP_LIMB_HIGHBIT = 0 then
               let cnt = count_leading_zeros (last dp); (n2p, cy) = mpn_lshift np cnt
               in (cnt, fst (mpn_lshift dp cnt), n2p @ [cy])
             else (0, dp, np @ [0])) = (?c, d2p, (if ?c \<noteq> 0 then fst (mpn_lshift np ?c) @ [snd (mpn_lshift np ?c)] else np @ [0]))"
      using c(4) by (auto simp: d2p_def norm_shift_def split_beta Let_def)
    note start = this
    have "tdiv_qr_long cfg adjust np dp = (if adjust then q else q @ [0],
        if ?c \<noteq> 0 then fst (mpn_rshift (take ?dn n') ?c) else take ?dn n')"
      unfolding tdiv_qr_long_def start
      unfolding Let_def prod.case n2p_def [symmetric] top_inverse_def [of d2p, unfolded d2(2), symmetric] v ..
    then show "qp = (if adjust then q else q @ [0])"
      "rp = (if ?c \<noteq> 0 then fst (mpn_rshift (take ?dn n') ?c) else take ?dn n')" using r by simp_all
  qed
  have "lval rp = lval (take ?dn n') div 2 ^ ?c" "lval qp = lval q" "length rp = ?dn"
    using res mpn_rshift_div(1) [OF _ c(1)] q(4) nn by (auto simp: lval_append)
  moreover have "length qp = length np - ?dn + 1" using res q(3) nn by (simp add: Suc_diff_le)
  ultimately show ?thesis using unshift_division [OF q(1,2)] unfolding tdiv_of_def by simp
qed

end
