(* ===== verification/Mpn_Tdiv_Short.thy ===== *)
theory Mpn_Tdiv_Short
  imports Mpn_Tdiv
begin

unbundle bit_operations_syntax

text \<open>
  Correctness of \<^verbatim>\<open>mpn_tdiv_qr\<close> for a quotient shorter than the divisor, and of the whole function. The
  estimate from the leading limbs is at most two too large; the quick test catches every estimate
  that is two too large, and one that is too large by one if the correction carries; the borrow out of the full
  remainder decides the rest.
\<close>

subsection \<open>The leading limbs\<close>

lemma lval_drop_div: "n \<le> length xs \<Longrightarrow> lval (drop n xs) = lval xs div B ^ n"
  using lval_split_at [of n xs] lval_take_lt [of n xs] by (simp add: div_pos_pos_trivial)

lemma no_carry:
  assumes "lval xs + B ^ n * uint c = V" "V < B ^ n"
  shows "lval xs = V"
proof -
  have "\<not> 1 \<le> uint c"
  proof
    assume "1 \<le> uint c"
    then have "B ^ n * 1 \<le> B ^ n * uint c" by (intro mult_left_mono) simp_all
    then show False using assms lval_nonneg [of xs] by linarith
  qed
  then have "uint c = 0" using uint_ge_0 [of c] by linarith
  then show ?thesis using assms(1) by simp
qed

lemma div_lt_power:
  fixes x :: int
  assumes "x < B ^ (m + n)"
  shows "x div B ^ m < B ^ n"
  using assms by (simp add: zdiv_lt_iff power_add mult.commute)

text \<open>Shifting a slice and dropping its low limb: the limbs below the slice do not matter.\<close>

lemma shift_slice_high:
  assumes c: "0 < c" "c < 64" and k: "k < length xs"
  shows "lval (tl (fst (mpn_lshift (drop k xs) c) @ [snd (mpn_lshift (drop k xs) c)])) = lval xs * 2 ^ c div B ^ (k + 1)"
proof -
  let ?s = "mpn_lshift (drop k xs) c"
  let ?t = "fst ?s @ [snd ?s]"
  have "lval ?t = lval (drop k xs) * 2 ^ c" using mpn_lshift_value [OF c, of "drop k xs"] by (simp add: lval_append)
  moreover have "lval (tl ?t) = lval ?t div B" by (cases ?t) simp_all
  ultimately have "lval (tl ?t) = lval xs div B ^ k * 2 ^ c div (2 ^ (64 - c) * 2 ^ c)"
    using k c by (simp add: lval_drop_div B_def flip: power_add)
  also have "\<dots> = lval xs div B ^ k div 2 ^ (64 - c)" by simp
  also have "\<dots> = lval xs div (B ^ k * 2 ^ (64 - c))" by (rule zdiv_zmult2_eq [symmetric]) simp
  also have "\<dots> = lval xs * 2 ^ c div (B ^ k * 2 ^ (64 - c) * 2 ^ c)" by simp
  also have "B ^ k * 2 ^ (64 - c) * 2 ^ c = B ^ (k + 1)" using c by (simp add: B_def flip: power_add)
  finally show ?thesis .
qed

lemma tdiv_operands_value:
  assumes dp: "dp \<noteq> []" "last dp \<noteq> 0" and nn: "length dp \<le> length np" "length np + of_bool adjust < 2 * length dp"
    and a: "adjust = (last np \<ge> last dp)" and qn: "qn = length np - length dp + of_bool adjust" "0 < qn"
    and r: "tdiv_operands adjust qn np dp = (cnt, d2p, n2p)"
  defines "i \<equiv> length dp - qn"
  shows "cnt = norm_shift (last dp)" "lval d2p = lval dp * 2 ^ cnt div B ^ i" "length d2p = qn"
    "lval n2p = lval np * 2 ^ cnt div B ^ i" "length n2p = 2 * qn"
proof -
  let ?c = "norm_shift (last dp)" and ?k = "length np - 2 * qn"
  note c = norm_shift [OF dp(2)] and D = divisor_shifted [OF dp]
  have i: "0 < i" "i + qn = length dp" "i = ?k + of_bool adjust" "?k + 2 * qn = length np" "i + 2 * qn = length np + of_bool adjust"
    using nn qn unfolding i_def by (cases adjust; simp)+
  have il: "i < length dp" "?k < length np" using i qn(2) by linarith+
  have Db: "lval dp * 2 ^ ?c div B ^ i < B ^ qn" using D(2) i(2) by (intro div_lt_power) simp
  have N: "lval np * 2 ^ ?c < B ^ (i + 2 * qn)"
  proof -
    have "lval np * 2 ^ ?c < B ^ qn * lval dp * 2 ^ ?c"
      using quotient_fits [OF dp nn(1)] a qn(1) by (intro mult_strict_right_mono) simp_all
    also have "\<dots> \<le> B ^ qn * B ^ (i + qn)" using D(2) i(2) by (simp add: mult.assoc)
    also have "\<dots> = B ^ (i + 2 * qn)" by (simp add: mult_2 flip: power_add add.assoc)
    finally show ?thesis .
  qed
  have Nb: "lval np * 2 ^ ?c div B ^ i < B ^ (2 * qn)" using N by (rule div_lt_power)
  let ?d = "mpn_lshift (drop i dp) ?c" and ?n = "mpn_lshift (drop ?k np) ?c"
  show cnt: "cnt = ?c" using r by (auto simp: tdiv_operands_def norm_shift_def Let_def split_beta split: if_splits)
  have d2p: "d2p = (if ?c \<noteq> 0 then (fst ?d)[0 := fst ?d ! 0 OR drop_bit (64 - ?c) (dp ! (i - 1))] else drop i dp)"
    using r c(4) by (auto simp: tdiv_operands_def norm_shift_def Let_def split_beta i_def split: if_splits)
  have n2p: "n2p = (if ?c \<noteq> 0 then (if adjust then tl (fst ?n @ [snd ?n])
      else (fst ?n)[0 := fst ?n ! 0 OR drop_bit (64 - ?c) (np ! (?k - 1))])
      else if adjust then tl (drop ?k np @ [0]) else drop ?k np)"
    using r c(4) by (auto simp: tdiv_operands_def norm_shift_def Let_def split_beta split: if_splits)
  show "length d2p = qn" using i d2p by auto
  show "length n2p = 2 * qn" using i n2p by auto
  show "lval d2p = lval dp * 2 ^ cnt div B ^ i"
  proof (cases "?c = 0")
    case True
    then show ?thesis using d2p cnt il lval_drop_div [of i dp] by simp
  next
    case False
    then have "lval d2p + B ^ qn * uint (snd ?d) = lval dp * 2 ^ ?c div B ^ i"
      using shift_slice [OF _ c(1) i(1) il(1)] i(2) d2p by (auto simp: i_def qn(1))
    from no_carry [OF this Db] show ?thesis unfolding cnt .
  qed
  show "lval n2p = lval np * 2 ^ cnt div B ^ i"
  proof (cases adjust)
    case True
    show ?thesis
    proof (cases "?c = 0")
      case c0: True
      have "tl (drop ?k np @ [0]) = drop (?k + 1) np @ [0]" 
        using Cons_nth_drop_Suc [OF il(2), symmetric] by simp
      then show ?thesis using c0 True n2p cnt i(3) il lval_drop_div [of "?k + 1" np] by (simp add: lval_append)
    next
      case False
      then show ?thesis using shift_slice_high [OF _ c(1) il(2)] True n2p cnt i(3) by simp
    qed
  next
    case False
    show ?thesis
    proof (cases "?c = 0")
      case c0: True
      then show ?thesis using False n2p cnt i il lval_drop_div [of ?k np] by simp
    next
      case c1: False
      have "lval n2p + B ^ (2 * qn) * uint (snd ?n) = lval np * 2 ^ ?c div B ^ i"
        using shift_slice [OF _ c(1), of ?k np] c1 False i il n2p by auto
      from no_carry [OF this Nb] show ?thesis unfolding cnt .
    qed
  qed
qed

text \<open>The leading limbs of the divisor are normalized, and the estimate fits in \<open>qn\<close> limbs.\<close>

lemma leading_limbs:
  assumes dp: "dp \<noteq> []" "last dp \<noteq> 0" and nn: "length dp \<le> length np" "length np + of_bool adjust < 2 * length dp"
    and a: "adjust = (last np \<ge> last dp)" and qn: "qn = length np - length dp + of_bool adjust" "0 < qn"
  defines "i \<equiv> length dp - qn" and "c \<equiv> norm_shift (last dp)"
  shows "B ^ qn \<le> 2 * (lval dp * 2 ^ c div B ^ i)"
    and "lval np * 2 ^ c div B ^ i < B ^ qn * (lval dp * 2 ^ c div B ^ i)"
proof -
  let ?t = "uint (last dp)" and ?D = "lval dp * 2 ^ c div B ^ i" and ?N = "lval np * 2 ^ c"
  note c = norm_shift [OF dp(2), folded c_def] and D = divisor_shifted [OF dp, folded c_def]
  have i: "i + qn = length dp" "i + (qn - 1) = length dp - 1" using nn qn unfolding i_def by (cases adjust; simp)+
  have nq: "length np + of_bool adjust = i + 2 * qn" using nn qn unfolding i_def by (cases adjust; simp)
  have top: "?t * 2 ^ c * B ^ (qn - 1) \<le> ?D"
  proof -
    have "?t * 2 ^ c * B ^ (qn - 1) * B ^ i \<le> lval dp * 2 ^ c"
      using mult_right_mono [OF D(4), of "2 ^ c"] unfolding i(2) [symmetric] by (simp add: power_add mult_ac)
    then have "?t * 2 ^ c * B ^ (qn - 1) * B ^ i div B ^ i \<le> ?D" by (rule zdiv_mono1) simp
    then show ?thesis by simp
  qed
  have Bq: "B ^ qn = B * B ^ (qn - 1)" using qn(2) by (cases qn) simp_all
  have "2 ^ 63 * B ^ (qn - 1) \<le> ?t * 2 ^ c * B ^ (qn - 1)" using c(2) by (rule mult_right_mono) simp
  then have "2 ^ 63 * B ^ (qn - 1) \<le> ?D" using top by linarith
  then show half: "B ^ qn \<le> 2 * ?D" unfolding Bq by (simp add: B_def)
  have "?N < B ^ qn * ?D * B ^ i"
  proof (cases adjust)
    case True
    have "?N < B ^ length np * 2 ^ c" by (intro mult_strict_right_mono) simp_all
    also have "\<dots> \<le> B ^ length np * 2 ^ 63" using c(1) by (intro mult_left_mono power_increasing) simp_all
    finally have "2 * ?N < B ^ (length np + 1)" by (simp add: B_def)
    also have "\<dots> = B ^ qn * B ^ qn * B ^ i" using True nq by (simp add: mult_2 ac_simps flip: power_add)
    also have "\<dots> \<le> B ^ qn * (2 * ?D) * B ^ i" using half by (intro mult_right_mono mult_left_mono) simp_all
    finally show ?thesis by (simp add: mult_ac)
  next
    case False
    have np: "np \<noteq> []" using dp(1) nn(1) by auto
    have "lval np < (uint (last np) + 1) * B ^ (length np - 1)"
      using lval_butlast_last [OF np] lval_lt [of "butlast np"] by (simp add: algebra_simps)
    also have "\<dots> \<le> ?t * B ^ (length np - 1)" using False a by (intro mult_right_mono) (simp_all add: le_limb_iff)
    finally have "?N < ?t * B ^ (length np - 1) * 2 ^ c" by (rule mult_strict_right_mono) simp
    also have "B ^ (length np - 1) = B ^ qn * B ^ (qn - 1) * B ^ i"
      using False nq qn(2) by (simp flip: power_add)
    also have "?t * (B ^ qn * B ^ (qn - 1) * B ^ i) * 2 ^ c = B ^ qn * (?t * 2 ^ c * B ^ (qn - 1)) * B ^ i" by (simp add: mult_ac)
    also have "\<dots> \<le> B ^ qn * ?D * B ^ i" using top by (intro mult_right_mono mult_left_mono) simp_all
    finally show ?thesis .
  qed
  then show "?N div B ^ i < B ^ qn * ?D" by (simp add: zdiv_lt_iff)
qed

lemma tdiv_estimate_value:
  assumes ok: "tdiv_config_ok cfg" and len: "length n2p = 2 * length d2p" "d2p \<noteq> []"
    and d: "B ^ length d2p \<le> 2 * lval d2p" and n: "lval n2p < B ^ length d2p * lval d2p"
  shows "\<exists>qp r. tdiv_estimate cfg n2p d2p = Some (qp, r) \<and> lval qp * lval d2p + lval r = lval n2p \<and> lval r < lval d2p \<and>
    length qp = length d2p \<and> length r = length d2p"
proof -
  have top: "2 ^ 63 \<le> uint (last d2p)" by (rule top_from_value [OF len(2) d])
  have n': "lval n2p < B ^ (length n2p - length d2p) * lval d2p" using n len(1) by simp
  consider "length d2p = 1" | "length d2p = 2" | "2 < length d2p" using len(2) by (cases "length d2p" rule: nat.exhaust) (auto, fastforce)
  then show ?thesis
  proof cases
    case 1
    then obtain d0 where d0: "d2p = [d0]" by (auto simp: length_Suc_conv)
    obtain n0 n1 where n01: "n2p = [n0, n1]" using len(1) 1 by (auto simp: length_Suc_conv numeral_2_eq_2)
    have "n1 < d0"
    proof (rule ccontr)
      assume "\<not> n1 < d0"
      then have "uint d0 * B \<le> uint n1 * B" by (intro mult_right_mono) (simp_all add: less_limb_iff)
      moreover have "uint n1 * B + uint n0 < uint d0 * B" using n d0 n01 by (simp add: mult.commute add.commute)
      ultimately show False using uint_ge_0 [of n0] by linarith
    qed
    obtain q0 r0 where q: "udiv_qrnnd_c n1 n0 d0 = (q0, r0)" by fastforce
    note v = udiv_qrnnd_c_value [OF \<open>n1 < d0\<close> _ q]
    show ?thesis using v top d0 n01 q by (simp add: tdiv_estimate_def less_limb_iff algebra_simps)
  next
    case 2
    then have "2 \<le> length n2p" "2 ^ 63 \<le> uint (d2p ! 1)" using len top last_conv_nth [OF len(2)] by simp_all
    from mpn_divrem_2_quotient [OF this(1) 2 this(2), of "DIVREM_2_THRESHOLD cfg" 0]
    obtain qh qp np' where r: "mpn_divrem_2 (DIVREM_2_THRESHOLD cfg) 0 n2p d2p = Some (qh, qp, np')"
      and v: "divided n2p d2p (qh, qp, np')" using 2 by (auto simp: divided_def)
    note q = dividedD [OF v n']
    show ?thesis using q r 2 len(1) by (simp add: tdiv_estimate_def)
  next
    case 3
    then have "normal_divisor n2p d2p" using top len by (simp add: normal_divisor_def)
    note v = divide_by_size(2) [OF ok this len(1), of "length d2p < DC_DIV_QR_THRESHOLD cfg" "length d2p < INV_DIV_QR_THRESHOLD cfg"]
    obtain qh qp np' where r: "(if length d2p < DC_DIV_QR_THRESHOLD cfg then mpn_sb_div_qr n2p d2p (top_inverse d2p)
      else if length d2p < INV_DIV_QR_THRESHOLD cfg then dc_div_qr_n cfg n2p d2p (top_inverse d2p)
      else inv_div_qr_n cfg n2p d2p (invert_n cfg d2p)) = (qh, qp, np')" (is "?div = _") by (cases ?div) auto
    note q = dividedD [OF v [unfolded r] n']
    have ne: "length d2p \<noteq> 1" "length d2p \<noteq> 2" using 3 by simp_all
    have "tdiv_estimate cfg n2p d2p = Some (qp, take (length d2p) np')"
      unfolding tdiv_estimate_def Let_def top_inverse_def [symmetric] r if_not_P [OF ne(1)] if_not_P [OF ne(2)] prod.case ..
    then show ?thesis using q len(1) by simp
  qed
qed

subsection \<open>The quick test\<close>

text \<open>
  With \<open>q, r\<close> the estimate and its remainder, \<open>D1\<close> and \<open>Dl\<close> the used and the ignored part of the divisor:
  a failed test shows that the estimate is too large, a passed one that it is at most one too large.
\<close>

lemma quick_test_bounds:
  fixes q r D1 Dl Nl I J x y qt q' rt r' h :: int
  assumes Dl: "Dl = x * I + y" "0 \<le> y" "y < I" "0 \<le> x" "x < B"
    and q: "q = qt * J + q'" "0 \<le> q'" "q' < J" "0 \<le> qt" "qt < B"
    and r: "r = rt * J + r'" "0 \<le> r'" "r' < J"
    and h: "h * B \<le> x * qt" "x * qt < (h + 1) * B"
  shows "rt < h \<Longrightarrow> (r + 1) * (B * I) \<le> q * Dl"
    and "\<not> rt < h \<Longrightarrow> B * J \<le> 2 * D1 \<Longrightarrow> 0 \<le> Nl \<Longrightarrow> 0 \<le> r * (B * I) + Nl - q * Dl + (D1 * (B * I) + Dl)"
proof -
  have I: "0 < I" "0 < J" using Dl q by linarith+
  show "(r + 1) * (B * I) \<le> q * Dl" if "rt < h"
  proof -
    have "(rt + 1) * J \<le> h * J" using that I by (intro mult_right_mono) simp_all
    then have "r + 1 \<le> h * J" using r unfolding distrib_right by linarith
    then have "(r + 1) * (B * I) \<le> h * J * (B * I)" using I by (intro mult_right_mono) simp_all
    also have "\<dots> = (h * B) * (J * I)" by (simp add: mult_ac)
    also have "\<dots> \<le> (x * qt) * (J * I)" using h(1) I by (intro mult_right_mono) simp_all
    also have "\<dots> = (qt * J) * (x * I)" by (simp add: mult_ac)
    also have "\<dots> \<le> q * Dl" using Dl q I by (intro mult_mono) simp_all
    finally show ?thesis .
  qed
  show "0 \<le> r * (B * I) + Nl - q * Dl + (D1 * (B * I) + Dl)" if "\<not> rt < h" "B * J \<le> 2 * D1" "0 \<le> Nl"
  proof -
    have q1: "q \<le> (qt + 1) * J" "Dl \<le> (x + 1) * I" using q Dl unfolding distrib_right by linarith+
    have "0 \<le> x * I" using Dl(4) I by simp
    then have D0: "0 \<le> Dl" using Dl by linarith
    have "q * Dl \<le> ((qt + 1) * J) * ((x + 1) * I)" using q1 q D0 I by (intro mult_mono) simp_all
    also have "\<dots> = (x * qt + (qt + x + 1)) * (J * I)" by (simp add: algebra_simps)
    also have "\<dots> \<le> ((h + 3) * B) * (J * I)"
    proof (intro mult_right_mono)
      show "x * qt + (qt + x + 1) \<le> (h + 3) * B" using h(2) Dl(5) q(5) unfolding distrib_right by linarith
    qed (use I in simp)
    finally have a: "q * Dl \<le> (h + 3) * (B * (J * I))" by (simp add: mult.assoc)
    have "h * J \<le> rt * J" using that(1) I by (intro mult_right_mono) simp_all
    then have "h * J \<le> r" using r by linarith
    then have "h * J * (B * I) \<le> r * (B * I)" using I by (intro mult_right_mono) simp_all
    then have b: "h * (B * (J * I)) \<le> r * (B * I)" by (simp add: mult_ac)
    have "6 * J \<le> B * J" using I by (intro mult_right_mono) (simp_all add: B_def)
    then have "3 * J \<le> D1" using that(2) by linarith
    then have "3 * J * (B * I) \<le> D1 * (B * I)" using I by (intro mult_right_mono) simp_all
    then have c: "3 * (B * (J * I)) \<le> D1 * (B * I)" by (simp add: mult_ac)
    have "(h + 3) * (B * (J * I)) = h * (B * (J * I)) + 3 * (B * (J * I))" by (rule distrib_right)
    then show ?thesis using a b c D0 that(3) by linarith
  qed
qed

text \<open>The limb the test uses is the top one of the ignored part of the shifted divisor.\<close>

lemma first_ignored_limb:
  assumes c: "c < 64" and i: "0 < i" "i \<le> length dp"
  defines "dl \<equiv> if i < 2 then 0 else dp ! (i - 2)"
  shows "uint (push_bit c (dp ! (i - 1)) OR drop_bit (63 - c) (drop_bit 1 dl)) = lval dp * 2 ^ c mod B ^ i div B ^ (i - 1)"
proof -
  obtain j where j: "i = Suc j" using i(1) by (cases i) auto
  let ?x = "push_bit c (dp ! j) OR drop_bit (63 - c) (drop_bit 1 dl)" and ?u = "uint (dp ! j)"
  have d: "drop_bit (63 - c) (drop_bit 1 dl) = drop_bit (64 - c) dl" 
  proof -
    have "Suc (63 - c) = 64 - c" using c by simp
    then show ?thesis by (simp add: drop_bit_drop_bit)
  qed
  have low: "lval (take j dp) * 2 ^ c div B ^ j = uint (drop_bit (64 - c) dl)"
  proof (cases "j = 0")
    case True
    then show ?thesis by (simp add: dl_def j)
  next
    case False
    show ?thesis
    proof (cases "c = 0")
      case True
      then show ?thesis using lval_take_lt [of j dp] i(2) j uint_lt_B [of dl]
        by (simp add: div_pos_pos_trivial uint_drop_limb B_def)
    next
      case c0: False
      then show ?thesis using shift_out [of c j dp] c i(2) j False by (simp add: dl_def)
    qed
  qed
  have x: "uint ?x = ?u * 2 ^ c mod B + uint (drop_bit (64 - c) dl)"
  proof (cases "c = 0")
    case True
    have "drop_bit 64 dl = 0"
      using uint_lt_B [of dl] unfolding limb_eq_0_iff uint_drop_limb by (simp add: B_def div_pos_pos_trivial)
    then show ?thesis unfolding d using True by (simp add: mod_pos_pos_trivial)
  next
    case False
    then show ?thesis unfolding d using uint_or_shifted [of c "dp ! j" dl] c by (simp add: uint_push_limb)
  qed
  have "lval dp * 2 ^ c = lval (take j dp) * 2 ^ c + B ^ j * ((?u + B * lval (drop (Suc j) dp)) * 2 ^ c)"
    using lval_split_at [of j dp] i(2) j Cons_nth_drop_Suc [of j dp, symmetric] by (simp add: algebra_simps)
  then have v: "lval dp * 2 ^ c div B ^ j = ?u * 2 ^ c + uint (drop_bit (64 - c) dl) + B * (lval (drop (Suc j) dp) * 2 ^ c)"
    using low by (simp only: div_mult_self2 [OF power_not_zero [OF B_ne_0]]) (simp add: algebra_simps)
  have "lval dp * 2 ^ c mod B ^ i div B ^ j = lval dp * 2 ^ c div B ^ j mod B"
    unfolding j power_Suc2 by (simp add: zmod_zmult2_eq)
  also have "\<dots> = (?u * 2 ^ c mod B + uint (drop_bit (64 - c) dl)) mod B" unfolding v by (simp add: mod_simps)
  also have "\<dots> = uint ?x" unfolding x [symmetric] by (simp add: mod_pos_pos_trivial)
  finally show ?thesis by (simp add: j)
qed

lemma lval_top:
  assumes "length xs = n" "0 < n"
  shows "lval xs = uint (xs ! (n - 1)) * B ^ (n - 1) + lval (butlast xs)" "lval (butlast xs) < B ^ (n - 1)"
  using assms lval_butlast_last [of xs] last_conv_nth [of xs] lval_lt [of "butlast xs"] by (auto simp: mult.commute)

lemma tdiv_quick_test_value:
  fixes dp d2p qp n2p :: "limb list" and Nn :: int
  assumes c: "c < 64" and len: "length d2p = qn" "length qp = qn" "length n2p = qn" "0 < qn" "qn < length dp"
  defines "i \<equiv> length dp - qn" and "Dn \<equiv> lval dp * 2 ^ c"
  assumes d2: "lval d2p = Dn div B ^ i" "B ^ qn \<le> 2 * lval d2p"
    and est: "Nn div B ^ i = lval qp * lval d2p + lval n2p" "lval n2p < lval d2p"
    and res: "tdiv_quick_test c dp d2p qp n2p = (qp', n2p')"
  shows "length qp' = qn" and "lval n2p' = Nn div B ^ i - lval qp' * lval d2p"
    and "- Dn \<le> Nn - lval qp' * Dn \<and> Nn - lval qp' * Dn < Dn"
    and "length n2p' = qn \<or> length n2p' = qn + 1 \<and> B ^ qn \<le> lval n2p' \<and> lval n2p' < 2 * B ^ qn \<and>
      (lval n2p' - lval d2p + 1) * B ^ i \<le> (lval qp' + 1) * (Dn mod B ^ i)"
proof -
  define dl where "dl = (if i < 2 then 0 else dp ! (i - 2))"
  define x where "x = push_bit c (dp ! (i - 1)) OR drop_bit (63 - c) (drop_bit 1 dl)"
  obtain h l where hl: "umul_ppmm x (qp ! (qn - 1)) = (h, l)" by fastforce
  define Dl Nl where "Dl = Dn mod B ^ i" and "Nl = Nn mod B ^ i"
  have i: "0 < i" "i \<le> length dp" using len by (simp_all add: i_def)
  have Bi: "B ^ i = B * B ^ (i - 1)" "B ^ qn = B * B ^ (qn - 1)"
    using i(1) len(4) by (cases i; simp) (use len(4) in \<open>cases qn; simp\<close>)
  have Dn: "Dn = lval d2p * B ^ i + Dl" "0 \<le> Dl" "Dl < B ^ i" unfolding d2 Dl_def by (simp_all only: div_mult_mod_eq) simp_all
  have Nn: "Nn = (lval qp * lval d2p + lval n2p) * B ^ i + Nl" "0 \<le> Nl" "Nl < B ^ i" unfolding est(1) [symmetric] Nl_def by (simp_all only: div_mult_mod_eq) simp_all
  have x: "uint x = Dl div B ^ (i - 1)"
    unfolding x_def dl_def Dl_def Dn_def by (rule first_ignored_limb [OF c i])
  have Dx: "Dl = uint x * B ^ (i - 1) + Dl mod B ^ (i - 1)" unfolding x by (rule div_mult_mod_eq [symmetric])
  have h: "uint h * B \<le> uint x * uint (qp ! (qn - 1))" "uint x * uint (qp ! (qn - 1)) < (uint h + 1) * B"
    using umul_ppmm_value [OF hl] uint_lt_B [of l] uint_ge_0 [of l] unfolding distrib_right by linarith+
  note qb = quick_test_bounds [OF Dx _ _ uint_ge_0 uint_lt_B lval_top(1) [OF len(2,4)] lval_nonneg lval_top(2) [OF len(2,4)]
      uint_ge_0 uint_lt_B lval_top(1) [OF len(3,4)] lval_nonneg lval_top(2) [OF len(3,4)] h, folded Bi, simplified]
  have R: "Nn - lval qp * Dn = lval n2p * B ^ i + Nl - lval qp * Dl" unfolding Dn(1) Nn(1) by (simp add: algebra_simps)
  have Dpos: "0 \<le> lval d2p * B ^ i" by simp
  have "tdiv_quick_test c dp d2p qp n2p = (if n2p ! (qn - 1) < h then
      (mpn_decr_u qp 1, if snd (mpn_add_n n2p d2p) \<noteq> 0 then fst (mpn_add_n n2p d2p) @ [snd (mpn_add_n n2p d2p)] else fst (mpn_add_n n2p d2p))
      else (qp, n2p))"
    using hl unfolding tdiv_quick_test_def Let_def len(1) i_def [symmetric] dl_def [symmetric] x_def [symmetric]
    by (simp add: split_beta)
  note code = this [unfolded res, symmetric]
  have "length qp' = qn \<and> lval n2p' = Nn div B ^ i - lval qp' * lval d2p \<and>
      (- Dn \<le> Nn - lval qp' * Dn \<and> Nn - lval qp' * Dn < Dn) \<and>
      (length n2p' = qn \<or> length n2p' = qn + 1 \<and> B ^ qn \<le> lval n2p' \<and> lval n2p' < 2 * B ^ qn \<and>
      (lval n2p' - lval d2p + 1) * B ^ i \<le> (lval qp' + 1) * Dl)"
  proof (cases "n2p ! (qn - 1) < h")
    case False
    then have r: "qp' = qp" "n2p' = n2p" using code by auto
    have "(lval n2p + 1) * B ^ i \<le> lval d2p * B ^ i" using est(2) by (intro mult_right_mono) simp_all
    moreover have "0 \<le> lval qp * Dl" using Dn(2) by simp
    ultimately have "Nn - lval qp * Dn < Dn" unfolding R using Dn Nn(3) unfolding distrib_right by linarith
    moreover have "- Dn \<le> Nn - lval qp * Dn"
      using qb(2) [of "lval d2p" Nl] False d2(2) Nn(2) Dn(1) unfolding R by (simp add: less_limb_iff)
    ultimately show ?thesis using r len est(1) by simp
  next
    case True
    let ?s = "mpn_add_n n2p d2p"
    have T: "(lval n2p + 1) * B ^ i \<le> lval qp * Dl" using qb(1) True by (simp add: less_limb_iff)
    have q1: "1 \<le> lval qp"
    proof (rule ccontr)
      assume "\<not> 1 \<le> lval qp"
      then have "lval qp = 0" using lval_nonneg [of qp] by linarith
      then have "(lval n2p + 1) * B ^ i \<le> 0" using T by simp
      moreover have "1 * 1 \<le> (lval n2p + 1) * B ^ i" by (intro mult_mono) simp_all
      ultimately show False by linarith
    qed
    have "qp \<noteq> []" using len by auto
    then have qp': "lval qp' = lval qp - 1" "length qp' = qn"
      using mpn_decr_u_value [of qp 1] q1 code True len by auto
    have s: "lval (fst ?s) + B ^ qn * uint (snd ?s) = lval n2p + lval d2p" "length (fst ?s) = qn"
      using mpn_add_n_value [of n2p d2p] len by simp_all
    have n2p': "n2p' = (if snd ?s \<noteq> 0 then fst ?s @ [snd ?s] else fst ?s)" using code True by auto
    then have v: "lval n2p' = lval n2p + lval d2p" using s by (auto simp: lval_append)
    have R': "Nn - lval qp' * Dn = Nn - lval qp * Dn + Dn" unfolding qp' by (simp add: algebra_simps)
    have neg: "Nn - lval qp * Dn < 0" unfolding R using T Nn(3) unfolding distrib_right by linarith
    have low: "- 2 * Dn \<le> Nn - lval qp * Dn"
    proof -
      have "lval qp * Dl \<le> B ^ qn * B ^ i" using Dn lval_lt [of qp] len(2) by (intro mult_mono) simp_all
      also have "\<dots> \<le> 2 * lval d2p * B ^ i" using d2(2) by (intro mult_right_mono) simp_all
      finally have "lval qp * Dl \<le> 2 * (lval d2p * B ^ i)" by simp
      moreover have "0 \<le> lval n2p * B ^ i" by simp
      ultimately show ?thesis unfolding R using Dn(1,2) Nn(2) by linarith
    qed
    have "length n2p' = qn \<or> length n2p' = qn + 1 \<and> B ^ qn \<le> lval n2p' \<and> lval n2p' < 2 * B ^ qn \<and>
      (lval n2p' - lval d2p + 1) * B ^ i \<le> (lval qp' + 1) * Dl"
    proof (cases "snd ?s = 0")
      case False
      then have "1 \<le> uint (snd ?s)" by (simp add: limb_ne_0_iff)
      then have "B ^ qn * 1 \<le> B ^ qn * uint (snd ?s)" by (intro mult_left_mono) simp_all
      then have "B ^ qn \<le> lval n2p'" unfolding v s(1) [symmetric] using lval_nonneg [of "fst ?s"] by linarith
      moreover have "length n2p' = qn + 1" using False n2p' s(2) by simp
      moreover have "lval n2p' < 2 * B ^ qn" unfolding v using lval_lt [of n2p] lval_lt [of d2p] len(1,3) by simp
      ultimately show ?thesis using T unfolding v qp' by simp
    qed (use n2p' s(2) in simp)
    moreover have "lval n2p' = Nn div B ^ i - lval qp' * lval d2p" unfolding v qp' est(1) by (simp add: algebra_simps)
    ultimately show ?thesis using qp'(2) neg low unfolding R' by linarith
  qed
  then show "length qp' = qn" "lval n2p' = Nn div B ^ i - lval qp' * lval d2p"
    "- Dn \<le> Nn - lval qp' * Dn \<and> Nn - lval qp' * Dn < Dn"
    "length n2p' = qn \<or> length n2p' = qn + 1 \<and> B ^ qn \<le> lval n2p' \<and> lval n2p' < 2 * B ^ qn \<and>
      (lval n2p' - lval d2p + 1) * B ^ i \<le> (lval qp' + 1) * (Dn mod B ^ i)" unfolding Dl_def by blast+
qed

subsection \<open>Undoing the shift\<close>

lemma and_low_mask: "c \<le> 64 \<Longrightarrow> uint (x AND drop_bit c (- 1)) = uint (x :: limb) mod 2 ^ (64 - c)"
proof -
  assume "c \<le> 64"
  then have "drop_bit c (- 1) = (mask (64 - c) :: limb)"
    by (intro bit_eqI) (auto simp: bit_simps bit_drop_bit_eq bit_mask_iff)
  then show ?thesis by (simp add: uint_take_limb flip: take_bit_eq_mask)
qed

text \<open>The part of a shifted vector below limb \<open>i\<close>, in terms of the vector.\<close>

lemma shifted_low_part:
  assumes "c \<le> 64" "0 < i" "i \<le> length xs"
  shows "lval xs * 2 ^ c mod B ^ i = 2 ^ c * (uint (xs ! (i - 1)) mod 2 ^ (64 - c) * B ^ (i - 1) + lval (take (i - 1) xs))"
proof -
  obtain j where j: "i = Suc j" using assms(2) by (cases i) auto
  have Bi: "B ^ i = 2 ^ c * (B ^ j * 2 ^ (64 - c))" using assms(1) by (simp add: j B_def flip: power_add)
  have "lval xs * 2 ^ c mod B ^ i = 2 ^ c * (lval xs mod (B ^ j * 2 ^ (64 - c)))"
    unfolding Bi mult.commute [of "lval xs"] by (rule mult_mod_right [symmetric])
  also have "lval xs mod (B ^ j * 2 ^ (64 - c)) = B ^ j * (lval xs div B ^ j mod 2 ^ (64 - c)) + lval xs mod B ^ j"
    by (rule zmod_zmult2_eq) simp
  also have "lval xs div B ^ j = lval (drop j xs)" using assms(3) j by (simp add: lval_drop_div)
  also have "drop j xs = xs ! j # drop (Suc j) xs" using assms(3) j by (simp add: Cons_nth_drop_Suc)
  also have "lval (xs ! j # drop (Suc j) xs) mod 2 ^ (64 - c) = uint (xs ! j) mod 2 ^ (64 - c)"
  proof -
    have "B = 2 ^ (64 - c) * 2 ^ c" using assms(1) by (simp add: B_def flip: power_add)
    then have "lval (xs ! j # drop (Suc j) xs) = uint (xs ! j) + 2 ^ (64 - c) * (2 ^ c * lval (drop (Suc j) xs))" by simp
    then show ?thesis by (simp only: mod_mult_self2)
  qed
  also have "lval xs mod B ^ j = lval (take j xs)"
    using lval_split_at [of j xs] lval_take_lt [of j xs] assms(3) j by (simp add: mod_pos_pos_trivial)
  finally show ?thesis by (simp add: j mult_ac)
qed

lemma tdiv_unshift_value:
  fixes np dp qp n2p :: "limb list"
  assumes c: "c < 64" and i: "0 < i" "i \<le> length dp" "i \<le> length np" "i = length dp - length qp" "qp \<noteq> []"
    and n2p: "lval n2p = lval np * 2 ^ c div B ^ i - lval qp * (lval dp * 2 ^ c div B ^ i)"
    and len: "length n2p = length qp \<or>
      length n2p = length qp + 1 \<and> B ^ length qp \<le> lval n2p \<and> lval n2p < 2 * B ^ length qp"
  defines "k \<equiv> i - of_bool (c \<noteq> 0)"
  shows "\<exists>m too_large. tdiv_unshift c np dp qp n2p = Some (m, too_large) \<and>
    (lval m - of_bool too_large * B ^ length m) * B ^ k + lval (take k np) - lval qp * lval (take k dp)
      = lval np - lval qp * lval dp \<and>
    length m = (if c = 0 then length n2p else length qp + 1) \<and> (c = 0 \<longrightarrow> m = n2p \<and> \<not> too_large)"
proof (cases "c = 0")
  case True
  have "lval xs = lval xs div B ^ i * B ^ i + lval (take i xs)" if "i \<le> length xs" for xs
    using lval_split_at [OF that] lval_drop_div [OF that] by (simp add: mult.commute)
  note v = this
  define a b where "a = lval np div B ^ i" and "b = lval dp div B ^ i"
  have e: "lval np = a * B ^ i + lval (take i np)" "lval dp = b * B ^ i + lval (take i dp)" "lval n2p = a - lval qp * b"
    using v [OF i(3)] v [OF i(2)] n2p True unfolding a_def b_def by simp_all
  have "lval n2p * B ^ i + lval (take i np) - lval qp * lval (take i dp) = lval np - lval qp * lval dp"
    unfolding e by (simp add: algebra_simps)
  then show ?thesis using True by (intro exI [of _ n2p] exI [of _ False]) (simp add: tdiv_unshift_def k_def)
next
  case False
  let ?qn = "length qp" and ?rn = "length n2p" and ?e = "64 - c"
  let ?u = "uint (np ! (i - 1)) mod 2 ^ ?e" and ?w = "uint (dp ! (i - 1)) mod 2 ^ ?e"
  let ?s = "mpn_lshift n2p ?e" and ?um = "np ! (i - 1) AND drop_bit c (- 1)" and ?wm = "dp ! (i - 1) AND drop_bit c (- 1)"
  define n2 where "n2 = (fst ?s)[0 := fst ?s ! 0 OR ?um]"
  let ?t = "mpn_submul_1 (take ?qn n2) qp ?wm"
  have e: "0 < ?e" "?e < 64" "k = i - 1" using c False by (simp_all add: k_def)
  have m: "uint ?um = ?u" "uint ?wm = ?w" by (rule and_low_mask [OF less_imp_le [OF c]])+
  have rn: "n2p \<noteq> []" "?qn \<le> ?rn" using len i(5) by auto
  define W where "W = lval n2p * 2 ^ ?e + ?u - lval qp * ?w"
  have V: "lval n2 + B ^ ?rn * uint (snd ?s) = lval n2p * 2 ^ ?e + ?u" "length n2 = ?rn"
  proof -
    obtain y ys where y: "fst ?s = y # ys" using rn(1) length_mpn_lshift [of n2p ?e] by (cases "fst ?s") auto
    have "uint y mod 2 ^ ?e = 0" using lshift_multiple [OF e(1,2) rn(1)] y by simp
    then have "lval n2 = lval (fst ?s) + ?u" using m(1) y by (simp add: n2_def uint_or_low)
    then show "lval n2 + B ^ ?rn * uint (snd ?s) = lval n2p * 2 ^ ?e + ?u" using mpn_lshift_value [OF e(1,2), of n2p] by simp
    show "length n2 = ?rn" by (simp add: n2_def)
  qed
  have t: "lval (fst ?t) - B ^ ?qn * uint (snd ?t) = lval (take ?qn n2) - lval qp * ?w" "length (fst ?t) = ?qn"
    using mpn_submul_1_value [of "take ?qn n2" qp ?wm] m(2) V(2) rn(2) by simp_all
  have eqW: "W * B ^ k + lval (take k np) - lval qp * lval (take k dp) = lval np - lval qp * lval dp"
  proof -
    define a b where "a = lval np * 2 ^ c div B ^ i" and "b = lval dp * 2 ^ c div B ^ i"
    have Bi: "B ^ i = 2 ^ c * (2 ^ ?e * B ^ k)" using c i(1) e(3) by (cases i) (simp_all add: B_def flip: power_add)
    have "lval np * 2 ^ c = a * B ^ i + 2 ^ c * (?u * B ^ k + lval (take k np))"
      using shifted_low_part [of c i np] c i div_mult_mod_eq [of "lval np * 2 ^ c" "B ^ i"] unfolding a_def e(3) by simp
    then have 1: "2 ^ c * lval np = 2 ^ c * (a * (2 ^ ?e * B ^ k) + (?u * B ^ k + lval (take k np)))"
      unfolding Bi by (simp add: algebra_simps)
    have "lval dp * 2 ^ c = b * B ^ i + 2 ^ c * (?w * B ^ k + lval (take k dp))"
      using shifted_low_part [of c i dp] c i div_mult_mod_eq [of "lval dp * 2 ^ c" "B ^ i"] unfolding b_def e(3) by simp
    then have 2: "2 ^ c * lval dp = 2 ^ c * (b * (2 ^ ?e * B ^ k) + (?w * B ^ k + lval (take k dp)))"
      unfolding Bi by (simp add: algebra_simps)
    have "lval np = a * (2 ^ ?e * B ^ k) + (?u * B ^ k + lval (take k np))"
      "lval dp = b * (2 ^ ?e * B ^ k) + (?w * B ^ k + lval (take k dp))" using 1 2 by simp_all
    note n = this
    have r: "lval n2p = a - lval qp * b" using n2p unfolding a_def b_def .
    show ?thesis unfolding W_def n r by (simp add: algebra_simps)
  qed
  have code: "tdiv_unshift c np dp qp n2p = (if ?qn \<noteq> ?rn then
      (if n2 ! ?qn \<ge> snd ?t then Some (fst ?t @ [n2 ! ?qn - snd ?t], False) else None)
      else Some (fst ?t @ [snd ?s - snd ?t], snd ?s < snd ?t))"
    using False unfolding tdiv_unshift_def Let_def i(4) [symmetric] n2_def by (simp add: split_beta)
  show ?thesis
  proof (cases "?rn = ?qn")
    case True
    then have "W = lval (fst ?t) + B ^ ?qn * (uint (snd ?s) - uint (snd ?t))"
      using V t(1) unfolding W_def by (simp add: algebra_simps)
    then have "lval (fst ?t @ [snd ?s - snd ?t]) - of_bool (snd ?s < snd ?t) * B ^ (?qn + 1) = W"
      using t(2) by (simp add: lval_append sub_limb_value less_limb_iff algebra_simps)
    then show ?thesis using code True False eqW t(2) by simp
  next
    case rn1: False
    then have l: "?rn = ?qn + 1" "B ^ ?qn \<le> lval n2p" "lval n2p + 1 \<le> 2 * B ^ ?qn" using len by auto
    have "lval n2p * 2 ^ ?e + ?u < B ^ ?rn"
    proof -
      have "(lval n2p + 1) * 2 ^ ?e \<le> (2 * B ^ ?qn) * 2 ^ 63"
        using l(3) e(2) by (intro mult_mono power_increasing) simp_all
      moreover have "?u < 2 ^ ?e" by simp
      moreover have "B ^ ?rn = (2 * B ^ ?qn) * 2 ^ 63" unfolding l(1) by (simp add: B_def)
      ultimately show ?thesis unfolding distrib_right by linarith
    qed
    from no_carry [OF V(1) this] have "lval n2 = lval n2p * 2 ^ ?e + ?u" .
    moreover have "lval n2 = lval (take ?qn n2) + B ^ ?qn * uint (n2 ! ?qn)"
      using V(2) l(1) lval_append [of "take ?qn n2" "[n2 ! ?qn]"] take_Suc_conv_app_nth [of ?qn n2] by simp
    ultimately have W: "W = lval (fst ?t) + B ^ ?qn * (uint (n2 ! ?qn) - uint (snd ?t))"
      using t(1) unfolding W_def by (simp add: algebra_simps)
    have "0 \<le> W"
    proof -
      have "lval qp * ?w \<le> B ^ ?qn * 2 ^ ?e" using lval_lt [of qp] by (intro mult_mono) (simp_all add: less_imp_le)
      also have "\<dots> \<le> lval n2p * 2 ^ ?e" using l(2) by (intro mult_right_mono) simp_all
      finally have "lval qp * ?w \<le> lval n2p * 2 ^ ?e" .
      moreover have "0 \<le> ?u" by simp
      ultimately show ?thesis unfolding W_def by linarith
    qed
    have ge: "uint (snd ?t) \<le> uint (n2 ! ?qn)"
    proof (rule ccontr)
      assume "\<not> uint (snd ?t) \<le> uint (n2 ! ?qn)"
      then have "B ^ ?qn * (uint (n2 ! ?qn) - uint (snd ?t)) \<le> B ^ ?qn * - 1" by (intro mult_left_mono) simp_all
      then show False using W \<open>0 \<le> W\<close> lval_lt [of "fst ?t"] t(2) by simp
    qed
    have "lval (fst ?t @ [n2 ! ?qn - snd ?t]) = W" using ge t(2) W by (simp add: lval_append uint_sub_limb)
    moreover have "tdiv_unshift c np dp qp n2p = Some (fst ?t @ [n2 ! ?qn - snd ?t], False)"
      using code l(1) ge by (simp add: le_limb_iff)
    ultimately show ?thesis using False eqW t(2)
      by (intro exI [of _ "fst ?t @ [n2 ! ?qn - snd ?t]"] exI [of _ False]) simp
  qed
qed

subsection \<open>The remainder\<close>

text \<open>
  The high part over as many limbs as it has. The limb \<open>b\<close> above the remainder is in the range
  of the borrow propagation only for a normalized divisor after a correction that carried; the borrow
  does not reach it then.
\<close>

lemma borrow_stops:
  assumes "length m = n + 1" "uint cy \<le> 1" "uint cy \<le> lval (take n m)" "lval m < B ^ n" "0 < n"
  shows "snd (mpn_sub_1 (take n m @ [b]) cy) = 0" "lval (take n (fst (mpn_sub_1 (take n m @ [b]) cy))) = lval m - uint cy"
proof -
  let ?s = "mpn_sub_1 (take n m @ [b]) cy"
  have m: "lval (take n m) = lval m" by (rule lval_take_small [OF assms(4)])
  have ge: "uint cy \<le> lval (take n m @ [b])" using assms(1,3) by (simp add: lval_append add_increasing2)
  have e: "lval (fst ?s) = lval m - uint cy + B ^ n * uint b" "snd ?s = 0"
    using mpn_sub_1_exact [OF _ ge] assms(1) m by (simp_all add: lval_append)
  show "snd ?s = 0" by (rule e(2))
  have len: "length (fst ?s) = n + 1" using assms(1) by simp
  have lt: "lval m - uint cy < B ^ n" using assms(4) uint_ge_0 [of cy] by linarith
  have "lval (take n (fst ?s)) = lval (fst ?s) mod B ^ n"
    using lval_split_at [of n "fst ?s"] lval_take_lt [of n "fst ?s"] len by (simp add: mod_pos_pos_trivial)
  also have "\<dots> = lval m - uint cy" unfolding e(1) using assms(3) m lt by (simp add: mod_pos_pos_trivial)
  finally show "lval (take n (fst ?s)) = lval m - uint cy" .
qed

lemma quotient_fits_flag:
  fixes v R S b :: int
  assumes "v = R + S * b" "0 \<le> v" "v < b" "- b < R" "R < b" "0 \<le> S"
  shows "S = of_bool (R < 0)"
proof (cases "R < 0")
  case True
  have "S \<noteq> 0" using True assms by auto
  moreover have "\<not> 2 \<le> S"
  proof
    assume "2 \<le> S"
    then have "2 * b \<le> S * b" using assms by (intro mult_right_mono) linarith+
    then show False using assms by linarith
  qed
  ultimately show ?thesis using True assms(6) by simp
next
  case False
  have "\<not> 1 \<le> S"
  proof
    assume "1 \<le> S"
    then have "1 * b \<le> S * b" using assms by (intro mult_right_mono) linarith+
    then show False using assms False by linarith
  qed
  then show ?thesis using False assms(6) by simp
qed

lemma tdiv_remainder_value:
  fixes np dp qp m :: "limb list" and R :: int
  assumes ok: "tdiv_config_ok cfg" and k: "k + length qp \<le> length dp" "k \<le> length np" "qp \<noteq> []"
    and len: "length m = length dp - k \<or> length m = length qp + 1 \<and> length dp = k + length qp \<and> 0 < k \<and> \<not> t \<and>
      B ^ length qp \<le> lval m \<and> lval m * B ^ k + 2 * B ^ k \<le> B ^ length dp + (lval qp * lval (take k dp) + lval (take k dp))"
    and R: "R = (lval m - of_bool t * B ^ length m) * B ^ k + lval (take k np) - lval qp * lval (take k dp)"
    and R_bounds: "- (B ^ length dp) < R" "R < B ^ length dp"
  shows "\<exists>rp flag. tdiv_remainder cfg k np dp qp m t = Some (rp, flag) \<and> length rp = length dp \<and>
    flag = (R < 0) \<and> lval rp = R + of_bool flag * B ^ length dp"
proof (cases "k = 0")
  case True
  then have m: "length m = length dp" using len by auto
  then have "R = lval m - of_bool t * B ^ length dp" using True R by simp
  moreover have "lval m < B ^ length dp" using lval_lt [of m] m by simp
  ultimately have "t = (R < 0)" by (cases t) (simp_all add: not_less)
  then show ?thesis using True m k(3) R by (simp add: tdiv_remainder_def)
next
  case False
  let ?dn = "length dp" and ?qn = "length qp" and ?rn = "length m"
  define tp where "tp = (if k < ?qn then mpn_mul (tdiv_mul cfg) False qp (take k dp) else mpn_mul (tdiv_mul cfg) False (take k dp) qp)"
  define Dk Nk where "Dk = lval (take k dp)" and "Nk = lval (take k np)"
  define th tl where "th = lval (drop k tp)" and "tl = lval (take k tp)"
  have mul: "mul_config_ok (tdiv_mul cfg)" using ok by (simp add: tdiv_config_ok_def)
  have kd: "k \<le> ?dn" "length (take k dp) = k" "take k dp \<noteq> []" using k(1) False by auto
  have tp: "lval tp = lval qp * Dk" "length tp = k + ?qn"
    using mpn_mul_product [OF mul, of "take k dp" qp False] mpn_mul_product [OF mul, of qp "take k dp" False] kd k(3)
    unfolding tp_def Dk_def by (auto simp: product_of_def)
  have split: "lval qp * Dk = tl + B ^ k * th" "0 \<le> tl" "tl < B ^ k" "0 \<le> th" "th < B ^ ?qn"
    using tp lval_split_at [of k tp] lval_take_lt [of k tp] lval_lt [of "drop k tp"] unfolding tl_def th_def by simp_all
  obtain m' cy where s1: "mpn_sub m (drop k tp) = (m', cy)" by fastforce
  obtain lo cy1 where s2: "mpn_sub_n (take k np) (take k tp) = (lo, cy1)" by fastforce
  obtain hi cy2 where s3: "mpn_sub_1 (take ?rn (take (?dn - k) m' @ [rp_beyond cfg])) cy1 = (hi, cy2)" by fastforce
  have rn: "?qn \<le> ?rn" using len k(1) by auto
  have v1: "lval m' - B ^ ?rn * uint cy = lval m - th" "length m' = ?rn"
    using mpn_sub_value [of "drop k tp" m] length_mpn_sub [of "drop k tp" m] s1 tp(2) rn unfolding th_def by simp_all
  have v2: "lval lo - B ^ k * uint cy1 = Nk - tl" "length lo = k"
    using mpn_sub_n_value [of "take k np" "take k tp"] length_mpn_sub_n [of "take k np" "take k tp"] s2 tp(2) k(2)
    unfolding Nk_def tl_def by simp_all
  have c1: "uint cy1 \<le> 1" using mpn_sub_n_borrow [of "take k np" "take k tp"] s2 by (simp add: le_limb_iff)
  have code: "tdiv_remainder cfg k np dp qp m t = Some (lo @ take (?dn - k) hi, t \<or> cy \<noteq> 0 \<or> cy2 \<noteq> 0)"
    using False s1 s2 s3 unfolding tdiv_remainder_def Let_def tp_def [symmetric] by simp
  have R': "R = (lval m - of_bool t * B ^ ?rn - th) * B ^ k + Nk - tl"
    unfolding R Dk_def [symmetric] Nk_def [symmetric] split(1) by (simp add: algebra_simps)
  show ?thesis
  proof (cases "?rn = ?dn - k")
    case True
    have ne: "m' \<noteq> []" using v1(2) rn k(3) by auto
    have arg: "take ?rn (take (?dn - k) m' @ [rp_beyond cfg]) = m'" using True v1(2) by simp
    have v3: "lval hi - B ^ ?rn * uint cy2 = lval m' - uint cy1" "length hi = ?rn"
      using mpn_sub_1_value [OF ne, of cy1] length_mpn_sub_1 [of m' cy1] s3 v1(2) unfolding arg by simp_all
    let ?rp = "lo @ hi" and ?S = "of_bool t + uint cy + uint cy2"
    have Bdn: "B ^ ?dn = B ^ k * B ^ ?rn" using True kd(1) by (simp flip: power_add)
    have rp: "length ?rp = ?dn" "lval ?rp = R + ?S * B ^ ?dn"
    proof -
      show "length ?rp = ?dn" using v2(2) v3(2) True kd(1) by simp
      have "lval lo = Nk - tl + B ^ k * uint cy1" "lval hi = lval m - th + B ^ ?rn * uint cy - uint cy1 + B ^ ?rn * uint cy2"
        using v1(1) v2(1) v3(1) by linarith+
      note e = this
      show "lval ?rp = R + ?S * B ^ ?dn" unfolding R' Bdn lval_append v2(2) e by (simp add: algebra_simps)
    qed
    have "lval ?rp < B ^ ?dn" using lval_lt [of ?rp] rp(1) by simp
    then have S: "?S = of_bool (R < 0)" by (rule quotient_fits_flag [OF rp(2) lval_nonneg _ R_bounds]) simp
    then have "(t \<or> cy \<noteq> 0 \<or> cy2 \<noteq> 0) = (R < 0)"
      using uint_ge_0 [of cy] uint_ge_0 [of cy2] unfolding limb_eq_0_iff by (cases t; cases "R < 0") (auto simp: add_nonneg_eq_0_iff)
    then show ?thesis using code rp S v3(2) True by simp
  next
    case rn1: False
    then have l: "?rn = ?qn + 1" "?dn = k + ?qn" "\<not> t" "B ^ ?qn \<le> lval m"
      "lval m * B ^ k + 2 * B ^ k \<le> B ^ ?dn + (lval qp * Dk + Dk)" using len unfolding Dk_def by auto
    have V: "1 \<le> lval m - th" "lval m - th < B ^ ?qn"
    proof -
      show "1 \<le> lval m - th" using l(4) split(5) by linarith
      have "Dk < B ^ k" unfolding Dk_def using lval_lt [of "take k dp"] kd(2) by simp
      moreover have "(lval m - th) * B ^ k = lval m * B ^ k - B ^ k * th" by (simp add: algebra_simps)
      ultimately have "(lval m - th) * B ^ k < B ^ ?qn * B ^ k"
        using l(5) split(1,3) unfolding l(2) power_add mult.commute [of "B ^ ?qn"] by linarith
      then show "lval m - th < B ^ ?qn" by simp
    qed
    have m': "lval m' = lval m - th" "uint cy = 0"
    proof -
      show e: "lval m' = lval m - th"
        using mpn_sub_exact [of "drop k tp" m] s1 tp(2) rn V(1) unfolding th_def by simp
      show "uint cy = 0" using v1(1) e by simp
    qed
    have arg: "take ?rn (take (?dn - k) m' @ [rp_beyond cfg]) = take ?qn m' @ [rp_beyond cfg]" using l v1(2) by simp
    have "lval (take ?qn m') = lval m'" using lval_take_small m'(1) V(2) by simp
    then have hi: "cy2 = 0" "lval (take ?qn hi) = lval m - th - uint cy1"
      using borrow_stops [of m' ?qn cy1 "rp_beyond cfg"] v1(2) l(1) c1 V m'(1) k(3) s3 unfolding arg by simp_all
    have "length hi = ?rn" using length_mpn_sub_1 [of "take ?qn m' @ [rp_beyond cfg]" cy1] s3 l v1(2) unfolding arg by simp
    then have len': "length (lo @ take ?qn hi) = ?dn" using v2(2) l by simp
    have v: "lval (lo @ take ?qn hi) = R"
    proof -
      have lo: "lval lo = Nk - tl + B ^ k * uint cy1" using v2(1) by linarith
      show ?thesis unfolding R' lval_append v2(2) lo hi(2) using l(3) by (simp add: algebra_simps)
    qed
    then have "\<not> R < 0" using lval_nonneg [of "lo @ take ?qn hi"] by linarith
    then show ?thesis using code v len' hi(1) m'(2) l(2,3)
      by (intro exI [of _ "lo @ take ?qn hi"] exI [of _ False]) (simp add: limb_eq_0_iff)
  qed
qed

subsection \<open>The whole division\<close>

lemma tdiv_qr_short_value:
  assumes ok: "tdiv_config_ok cfg" and dp: "2 < length dp" "last dp \<noteq> 0"
    and nn: "length dp \<le> length np" "length np + of_bool adjust < 2 * length dp" and a: "adjust = (last np \<ge> last dp)"
  shows "\<exists>qp rp. tdiv_qr_short cfg adjust np dp = Some (qp, rp) \<and> tdiv_of np dp qp rp"
proof -
  define qn where "qn = length np - length dp + of_bool adjust"
  let ?dn = "length dp" and ?N = "lval np" and ?D = "lval dp"
  have ne: "dp \<noteq> []" using dp(1) by auto
  have fits: "?N < B ^ qn * ?D" using quotient_fits [OF ne dp(2) nn(1)] a by (simp add: qn_def)
  show ?thesis
  proof (cases "qn = 0")
    case True
    then have l: "length np = ?dn" "\<not> adjust" using nn(1) by (auto simp: qn_def split: if_splits)
    then show ?thesis using True fits unfolding tdiv_qr_short_def Let_def qn_def [symmetric] tdiv_of_def by simp
  next
    case False
    define i where "i = ?dn - qn"
    have i: "0 < i" "i \<le> ?dn" "i \<le> length np" "i + qn = ?dn" "qn < ?dn" using nn False by (auto simp: qn_def i_def split: if_splits)
    obtain c d2p n2p where op: "tdiv_operands adjust qn np dp = (c, d2p, n2p)" by (cases "tdiv_operands adjust qn np dp") auto
    note o = tdiv_operands_value [OF ne dp(2) nn a qn_def _ op, folded i_def]
    note ld = leading_limbs [OF ne dp(2) nn a qn_def, folded i_def]
    have qn0: "0 < qn" using False by simp
    have c: "c = norm_shift (last dp)" "c < 64" using o(1) qn0 norm_shift(1) [OF dp(2)] by simp_all
    note d2 = o(2) [OF qn0] o(3) [OF qn0] and n2 = o(4) [OF qn0] o(5) [OF qn0]
    have half: "B ^ qn \<le> 2 * lval d2p" and est: "lval n2p < B ^ qn * lval d2p"
      using ld [OF qn0] unfolding d2(1) n2(1) c(1) by simp_all
    have d2ne: "d2p \<noteq> []" using d2(2) False by auto
    obtain q r where e: "tdiv_estimate cfg n2p d2p = Some (q, r)" "lval q * lval d2p + lval r = lval n2p"
      "lval r < lval d2p" "length q = qn" "length r = qn"
      using tdiv_estimate_value [OF ok _ d2ne, of n2p] n2(2) d2(2) half est by auto
    obtain q1 m where t: "tdiv_quick_test c dp d2p q r = (q1, m)" by fastforce
    note qt = tdiv_quick_test_value [OF c(2) d2(2) e(4,5) qn0 i(5), folded i_def, OF d2(1) half _ e(3) t, of "?N * 2 ^ c"]
    have qt: "length q1 = qn" "lval m = ?N * 2 ^ c div B ^ i - lval q1 * lval d2p"
      "- (?D * 2 ^ c) \<le> ?N * 2 ^ c - lval q1 * (?D * 2 ^ c)" "?N * 2 ^ c - lval q1 * (?D * 2 ^ c) < ?D * 2 ^ c"
      "length m = qn \<or> length m = qn + 1 \<and> B ^ qn \<le> lval m \<and> lval m < 2 * B ^ qn \<and>
        (lval m - lval d2p + 1) * B ^ i \<le> (lval q1 + 1) * (?D * 2 ^ c mod B ^ i)"
      using qt e(2) n2(1) by auto
    have q1ne: "q1 \<noteq> []" using qt(1) False by auto
    define R k where "R = ?N - lval q1 * ?D" and "k = i - of_bool (c \<noteq> 0)"
    have R: "- ?D \<le> R" "R < ?D"
    proof -
      have "?N * 2 ^ c - lval q1 * (?D * 2 ^ c) = R * 2 ^ c" "- (?D * 2 ^ c) = (- ?D) * 2 ^ c"
        by (simp_all add: R_def algebra_simps)
      then have "(- ?D) * 2 ^ c \<le> R * 2 ^ c" "R * 2 ^ c < ?D * 2 ^ c" using qt(3,4) by argo+
      then show "- ?D \<le> R" "R < ?D" by (simp_all only: mult_le_cancel_right_pos mult_less_cancel_right_pos zero_less_power zero_less_numeral)
    qed
    have pre: "i = ?dn - length q1" "lval m = ?N * 2 ^ c div B ^ i - lval q1 * (?D * 2 ^ c div B ^ i)"
      "length m = length q1 \<or> length m = length q1 + 1 \<and> B ^ length q1 \<le> lval m \<and> lval m < 2 * B ^ length q1"
      using qt(1,2,5) d2(1) by (simp_all add: i_def) blast
    obtain m2 t1 where u: "tdiv_unshift c np dp q1 m = Some (m2, t1)"
      "(lval m2 - of_bool t1 * B ^ length m2) * B ^ k + lval (take k np) - lval q1 * lval (take k dp) = R"
      "length m2 = (if c = 0 then length m else qn + 1)" "c = 0 \<longrightarrow> m2 = m \<and> \<not> t1"
      using tdiv_unshift_value [OF c(2) i(1,2,3) pre(1) q1ne pre(2,3)] unfolding k_def R_def qt(1) by blast
    have len: "length m2 = ?dn - k \<or> length m2 = length q1 + 1 \<and> ?dn = k + length q1 \<and> 0 < k \<and> \<not> t1 \<and>
      B ^ length q1 \<le> lval m2 \<and> lval m2 * B ^ k + 2 * B ^ k \<le> B ^ ?dn + (lval q1 * lval (take k dp) + lval (take k dp))"
    proof (cases "c \<noteq> 0 \<or> length m = qn")
      case True
      then show ?thesis using u(3) i by (auto simp: k_def)
    next
      case False
      then have c0: "c = 0" "k = i" and m: "length m = qn + 1" "B ^ qn \<le> lval m"
        "(lval m - lval d2p + 1) * B ^ i \<le> (lval q1 + 1) * (?D mod B ^ i)" using qt(5) by (auto simp: k_def)
      have low: "?D mod B ^ i = lval (take i dp)"
        using lval_split_at [OF i(2)] lval_take_lt [OF i(2)] by (simp add: mod_pos_pos_trivial)
      have "(lval d2p + 1) * B ^ i \<le> B ^ qn * B ^ i" using lval_lt [of d2p] d2(2) by (intro mult_right_mono) simp_all
      then have "lval m * B ^ i + 2 * B ^ i \<le> B ^ ?dn + (lval q1 * lval (take i dp) + lval (take i dp))"
        using m(3) i(4) [symmetric] unfolding low by (simp add: power_add algebra_simps)
      then show ?thesis using c0 m u(4) i qt(1) by simp
    qed
    have DB: "?D < B ^ ?dn" by simp
    obtain rp flag where f: "tdiv_remainder cfg k np dp q1 m2 t1 = Some (rp, flag)" "length rp = ?dn" "flag = (R < 0)"
      "lval rp = R + of_bool flag * B ^ ?dn"
      using tdiv_remainder_value [OF ok _ _ q1ne len u(2) [symmetric]] R DB i qt(1) by (fastforce simp: k_def)
    define q2 r2 where "q2 = (if flag then mpn_decr_u q1 1 else q1)" and "r2 = (if flag then fst (mpn_add_n rp dp) else rp)"
    have code: "tdiv_qr_short cfg adjust np dp = Some (if adjust then q2 else q2 @ [0], r2)"
      using False op e(1) t u(1) f(1)
      unfolding tdiv_qr_short_def Let_def qn_def [symmetric] q2_def r2_def k_def i_def by simp
    have v: "lval q2 * ?D + lval r2 = ?N \<and> lval r2 < ?D \<and> length q2 = qn \<and> length r2 = ?dn"
    proof (cases "R < 0")
      case True
      have "1 \<le> lval q1"
      proof (rule ccontr)
        assume "\<not> 1 \<le> lval q1"
        then have "lval q1 = 0" using lval_nonneg [of q1] by linarith
        then show False using True lval_nonneg [of np] by (simp add: R_def)
      qed
      then have q2: "lval q2 = lval q1 - 1" using True f(3) mpn_decr_u_value [OF q1ne, of 1] by (simp add: q2_def)
      have "lval r2 = (R + ?D + B ^ ?dn) mod B ^ ?dn"
        using mpn_add_n_mod [OF f(2)] True f by (simp add: r2_def algebra_simps)
      then have r2: "lval r2 = R + ?D" using R True DB by (simp add: mod_pos_pos_trivial)
      have "lval q2 * ?D + lval r2 = ?N" unfolding q2 r2 by (simp add: R_def algebra_simps)
      moreover have "length q2 = qn" "length r2 = ?dn" using f qt(1) by (simp_all add: q2_def r2_def)
      ultimately show ?thesis using r2 True by simp
    next
      case False
      then show ?thesis using f qt(1) R by (simp add: R_def q2_def r2_def)
    qed
    have "length (if adjust then q2 else q2 @ [0]) = length np - ?dn + 1" using v by (simp add: qn_def)
    then show ?thesis using code v unfolding tdiv_of_def by (simp add: lval_append)
  qed
qed

theorem mpn_tdiv_qr_value:
  assumes ok: "tdiv_config_ok cfg" and dp: "dp \<noteq> []" "last dp \<noteq> 0" and nn: "length dp \<le> length np"
  shows "\<exists>qp rp. mpn_tdiv_qr cfg np dp = Some (qp, rp) \<and> tdiv_of np dp qp rp"
proof -
  consider "length dp = 1" | "length dp = 2" | "2 < length dp"
    using dp(1) by (cases "length dp" rule: nat.exhaust) (auto, fastforce)
  then show ?thesis
  proof cases
    case 1
    have "np \<noteq> []" using 1 nn by auto
    then show ?thesis using 1 tdiv_qr_1_value [OF 1 dp(2)]
      by (cases "tdiv_qr_1 cfg np dp") (auto simp: mpn_tdiv_qr_def)
  next
    case 2
    then show ?thesis using tdiv_qr_2_value [OF 2 dp(2), of np cfg] nn by (simp add: mpn_tdiv_qr_def)
  next
    case 3
    then have code: "mpn_tdiv_qr cfg np dp = (if length np + of_bool (last np \<ge> last dp) \<ge> 2 * length dp
        then Some (tdiv_qr_long cfg (last np \<ge> last dp) np dp) else tdiv_qr_short cfg (last np \<ge> last dp) np dp)"
      by (auto simp: mpn_tdiv_qr_def Let_def)
    show ?thesis
    proof (cases "length np + of_bool (last np \<ge> last dp) \<ge> 2 * length dp")
      case True
      obtain qp rp where r: "tdiv_qr_long cfg (last np \<ge> last dp) np dp = (qp, rp)" by fastforce
      show ?thesis unfolding code if_P [OF True] r using tdiv_qr_long_value [OF ok 3 dp(2) nn refl r] by simp
    next
      case False
      then show ?thesis unfolding code if_not_P [OF False] by (intro tdiv_qr_short_value [OF ok 3 dp(2) nn _ refl]) simp
    qed
  qed
qed

end
