(* ===== verification/Mpn_Tdiv_Top.thy ===== *)
theory Mpn_Tdiv_Top
  imports Mpn_Tdiv_Short
begin

text \<open>
  Division below the sizes at which \<^verbatim>\<open>mpn_tdiv_qr\<close> consults the divide-and-conquer, inverse-based, Toom
  and Fourier routines: there it behaves as with the schoolbook routines in their place, so its
  result needs no assumption on them.
\<close>

definition tdiv_scope :: "tdiv_config \<Rightarrow> nat \<Rightarrow> bool" where
  "tdiv_scope cfg n \<longleftrightarrow> n < DC_DIV_QR_THRESHOLD cfg \<and> below_toom (tdiv_mul cfg) n"

definition schoolbook_tdiv :: "tdiv_config \<Rightarrow> tdiv_config" where
  "schoolbook_tdiv cfg =
     cfg\<lparr>tdiv_mul := schoolbook_config (tdiv_mul cfg), dc_div_qr := mpn_sb_div_qr, dc_div_qr_n := mpn_sb_div_qr,
         invert_n := (\<lambda>dp. [top_inverse dp]), inv_div_qr := (\<lambda>np dp inv. mpn_sb_div_qr np dp (hd inv)),
         inv_div_qr_n := (\<lambda>np dp inv. mpn_sb_div_qr np dp (hd inv))\<rparr>"

lemma tdiv_scope_mono: "tdiv_scope cfg n \<Longrightarrow> m \<le> n \<Longrightarrow> tdiv_scope cfg m"
  using below_toom_mono by (auto simp: tdiv_scope_def)

lemma schoolbook_tdiv_ok: "tdiv_scope cfg n \<Longrightarrow> tdiv_config_ok (schoolbook_tdiv cfg)"
  using schoolbook_config_ok sb_div_qr_divided by (auto simp: tdiv_scope_def tdiv_config_ok_def schoolbook_tdiv_def)

lemma schoolbook_tdiv_fields:
  "tdiv_div (schoolbook_tdiv cfg) = tdiv_div cfg" "DIVREM_2_THRESHOLD (schoolbook_tdiv cfg) = DIVREM_2_THRESHOLD cfg"
  "DC_DIV_QR_THRESHOLD (schoolbook_tdiv cfg) = DC_DIV_QR_THRESHOLD cfg" "rp_beyond (schoolbook_tdiv cfg) = rp_beyond cfg"
  "tdiv_mul (schoolbook_tdiv cfg) = schoolbook_config (tdiv_mul cfg)"
  by (simp_all add: schoolbook_tdiv_def)

lemma tdiv_qr_long_below:
  "length dp < DC_DIV_QR_THRESHOLD cfg \<Longrightarrow> tdiv_qr_long (schoolbook_tdiv cfg) adjust np dp = tdiv_qr_long cfg adjust np dp"
  by (simp add: tdiv_qr_long_def Let_def schoolbook_tdiv_fields)

lemma tdiv_estimate_below:
  "length d2p < DC_DIV_QR_THRESHOLD cfg \<Longrightarrow> tdiv_estimate (schoolbook_tdiv cfg) n2p d2p = tdiv_estimate cfg n2p d2p"
  by (simp add: tdiv_estimate_def Let_def schoolbook_tdiv_fields)

lemma tdiv_remainder_below:
  assumes "below_toom (tdiv_mul cfg) (i + length qp)" "i \<le> length dp" "qp \<noteq> []"
  shows "tdiv_remainder (schoolbook_tdiv cfg) i np dp qp n2p large = tdiv_remainder cfg i np dp qp n2p large"
proof -
  have "i < length qp \<Longrightarrow> mpn_mul (schoolbook_config (tdiv_mul cfg)) False qp (take i dp) = mpn_mul (tdiv_mul cfg) False qp (take i dp)"
    "\<not> i < length qp \<Longrightarrow> mpn_mul (schoolbook_config (tdiv_mul cfg)) False (take i dp) qp = mpn_mul (tdiv_mul cfg) False (take i dp) qp"
    using assms by (auto intro!: mpn_mul_below simp: add.commute)
  then show ?thesis using assms(3) by (auto simp: tdiv_remainder_def Let_def schoolbook_tdiv_fields)
qed

text \<open>A short division multiplies at most as many limbs as the divisor has.\<close>

lemma short_estimate:
  assumes ok: "tdiv_config_ok cfg" and dp: "dp \<noteq> []" "last dp \<noteq> 0"
    and nn: "length dp \<le> length np" "length np + of_bool adjust < 2 * length dp" and a: "adjust = (last np \<ge> last dp)"
    and qn: "qn = length np - length dp + of_bool adjust" "0 < qn"
  obtains c d2p n2p q r where "tdiv_operands adjust qn np dp = (c, d2p, n2p)" "length d2p = qn"
    "tdiv_estimate cfg n2p d2p = Some (q, r)" "length q = qn"
proof -
  obtain c d2p n2p where op: "tdiv_operands adjust qn np dp = (c, d2p, n2p)" by (cases "tdiv_operands adjust qn np dp") auto
  note o = tdiv_operands_value [OF dp nn a qn(1) qn(2) op]
  have "B ^ qn \<le> 2 * lval d2p" "lval n2p < B ^ qn * lval d2p"
    using leading_limbs [OF dp nn a qn] unfolding o(2,4) o(1) by simp_all
  moreover have "d2p \<noteq> []" using o(3) qn(2) by auto
  ultimately obtain q r where "tdiv_estimate cfg n2p d2p = Some (q, r)" "length q = qn"
    using tdiv_estimate_value [OF ok _ _, of n2p d2p] o(3,5) by auto
  then show thesis using that op o(3) by blast
qed

lemma tdiv_quick_test_length: "length qp = length d2p \<Longrightarrow> d2p \<noteq> [] \<Longrightarrow> length (fst (tdiv_quick_test c dp d2p qp n2p)) = length d2p"
  by (auto simp: tdiv_quick_test_def Let_def split: prod.splits)

lemma tdiv_qr_short_below:
  assumes b: "tdiv_scope cfg (length dp)" and dp: "dp \<noteq> []" "last dp \<noteq> 0"
    and nn: "length dp \<le> length np" "length np + of_bool adjust < 2 * length dp" and a: "adjust = (last np \<ge> last dp)"
  shows "tdiv_qr_short (schoolbook_tdiv cfg) adjust np dp = tdiv_qr_short cfg adjust np dp"
proof (cases "length np - length dp + of_bool adjust = 0")
  case True
  then show ?thesis by (simp add: tdiv_qr_short_def)
next
  case False
  define qn where "qn = length np - length dp + of_bool adjust"
  have qn: "0 < qn" "qn < length dp" using False nn by (auto simp: qn_def split: if_splits)
  obtain c d2p n2p q r where op: "tdiv_operands adjust qn np dp = (c, d2p, n2p)" "length d2p = qn"
    and e: "tdiv_estimate (schoolbook_tdiv cfg) n2p d2p = Some (q, r)" "length q = qn"
    by (rule short_estimate [OF schoolbook_tdiv_ok [OF b] dp nn a qn_def qn(1)])
  have e': "tdiv_estimate cfg n2p d2p = Some (q, r)" using e(1) tdiv_estimate_below b op(2) qn by (simp add: tdiv_scope_def)
  obtain q1 m where t: "tdiv_quick_test c dp d2p q r = (q1, m)" by fastforce
  have q1: "length q1 = qn" using tdiv_quick_test_length [of q d2p c dp r] e(2) op(2) qn(1) t by (cases "d2p = []") auto
  let ?k = "length dp - qn - of_bool (c \<noteq> 0)"
  have "tdiv_remainder (schoolbook_tdiv cfg) ?k np dp q1 n large = tdiv_remainder cfg ?k np dp q1 n large" for n large
    using b qn q1 below_toom_mono [of "tdiv_mul cfg" "length dp"] by (intro tdiv_remainder_below) (auto simp: tdiv_scope_def)
  then show ?thesis
    unfolding tdiv_qr_short_def Let_def qn_def [symmetric] op(1) e(1) e' prod.case Option.bind.bind_lunit t by simp
qed

lemma mpn_tdiv_qr_below:
  assumes b: "tdiv_scope cfg (length dp)" and dp: "dp \<noteq> []" "last dp \<noteq> 0" and nn: "length dp \<le> length np"
  shows "mpn_tdiv_qr (schoolbook_tdiv cfg) np dp = mpn_tdiv_qr cfg np dp"
proof -
  have "length dp = 1 \<Longrightarrow> tdiv_qr_1 (schoolbook_tdiv cfg) np dp = tdiv_qr_1 cfg np dp"
    "tdiv_qr_2 (schoolbook_tdiv cfg) np dp = tdiv_qr_2 cfg np dp"
    by (simp_all add: tdiv_qr_1_def tdiv_qr_2_def schoolbook_tdiv_fields)
  then show ?thesis
    using tdiv_qr_long_below [of dp cfg] b tdiv_qr_short_below [OF b dp nn _ refl]
    by (simp add: mpn_tdiv_qr_def Let_def tdiv_scope_def)
qed

theorem mpn_tdiv_qr_below_value:
  assumes "tdiv_scope cfg (length dp)" "dp \<noteq> []" "last dp \<noteq> 0" "length dp \<le> length np"
  shows "\<exists>qp rp. mpn_tdiv_qr cfg np dp = Some (qp, rp) \<and> tdiv_of np dp qp rp"
  using mpn_tdiv_qr_value [OF schoolbook_tdiv_ok [OF assms(1)] assms(2-4)] mpn_tdiv_qr_below [OF assms] by simp

end
