(* ===== verification/Mpz_Div.thy ===== *)
theory Mpz_Div
  imports Mpz_Program Mpn_Tdiv_Top "HOL-Library.Signed_Division"
begin

unbundle bit_operations_syntax

text \<open>
  Division of integers by integers: \<^verbatim>\<open>mpz_tdiv_qr\<close>, \<^verbatim>\<open>mpz_tdiv_r\<close> and the functions built on them,
  \<^verbatim>\<open>mpz_fdiv_qr\<close>, \<^verbatim>\<open>mpz_fdiv_q\<close>, \<^verbatim>\<open>mpz_fdiv_r\<close>, \<^verbatim>\<open>mpz_cdiv_qr\<close>, \<^verbatim>\<open>mpz_cdiv_q\<close>, \<^verbatim>\<open>mpz_cdiv_r\<close> and \<^verbatim>\<open>mpz_mod\<close>. The
  destinations may be the same variables as the operands. A result \<open>None\<close> is a call that does not
  return; the results show that every call returns.
\<close>

type_synonym qr_result = "(mpz_error + store) option"

subsection \<open>Truncation\<close>

definition mpz_tdiv_qr :: "tdiv_config \<Rightarrow> store \<Rightarrow> var \<Rightarrow> var \<Rightarrow> var \<Rightarrow> var \<Rightarrow> qr_result" where
  "mpz_tdiv_qr cfg st quot rem num den =
     (let ns = SIZ st num; ds = SIZ st den; nl = nat \<bar>ns\<bar>; dl = nat \<bar>ds\<bar>
      in if dl = 0 then Some (Inl DIVIDE_BY_ZERO)
         else
           let st1 = MPZ_REALLOC st rem dl
           in if nl < dl then
                let st2 = (if num \<noteq> rem then set_SIZ (put_limbs st1 rem 0 (take nl (PTR st1 num))) rem (SIZ st1 num) else st1)
                in Some (Inr (set_SIZ st2 quot 0))
              else
                let ql = nl - dl + 1; st2 = MPZ_REALLOC st1 quot ql
                in do {
                     (qp, rp) \<leftarrow> mpn_tdiv_qr cfg (take nl (PTR st2 num)) (take dl (PTR st2 den));
                     let st3 = put_limbs (put_limbs st2 quot 0 qp) rem 0 rp;
                     let qn = ql - of_bool (PTR st3 quot ! (ql - 1) = 0);
                     let rn = mpn_normalize (PTR st3 rem) dl;
                     let st4 = set_SIZ st3 quot (if ns XOR ds \<ge> 0 then int qn else - int qn);
                     Some (Inr (set_SIZ st4 rem (if ns \<ge> 0 then int rn else - int rn)))
                   })"

definition mpz_tdiv_r :: "tdiv_config \<Rightarrow> store \<Rightarrow> var \<Rightarrow> var \<Rightarrow> var \<Rightarrow> qr_result" where
  "mpz_tdiv_r cfg st rem num den =
     (let ns = SIZ st num; ds = SIZ st den; nl = nat \<bar>ns\<bar>; dl = nat \<bar>ds\<bar>
      in if dl = 0 then Some (Inl DIVIDE_BY_ZERO)
         else
           let st1 = MPZ_REALLOC st rem dl
           in if nl < dl then
                Some (Inr (if num \<noteq> rem then set_SIZ (put_limbs st1 rem 0 (take nl (PTR st1 num))) rem (SIZ st1 num) else st1))
              else
                do {
                  (qp, rp) \<leftarrow> mpn_tdiv_qr cfg (take nl (PTR st1 num)) (take dl (PTR st1 den));
                  let st2 = put_limbs st1 rem 0 rp;
                  let rn = mpn_normalize (PTR st2 rem) dl;
                  Some (Inr (set_SIZ st2 rem (if ns \<ge> 0 then int rn else - int rn)))
                })"

subsection \<open>Floor and ceiling\<close>

text \<open>
  A local variable of the C code occupies a name that none of the operands has, and gives it back when
  the function returns. \<^verbatim>\<open>MPZ_TMP_INIT\<close> sets the block, not the size.
\<close>

definition MPZ_TMP_INIT :: "store \<Rightarrow> var \<Rightarrow> nat \<Rightarrow> store" where
  "MPZ_TMP_INIT st x nlimbs = set_var st x ((vars st x)\<lparr>mp_alloc := nlimbs, mp_d := fresh_block st nlimbs\<rparr>)"

definition local_var :: "var list \<Rightarrow> var" where
  "local_var xs = Suc (sum_list xs)"

definition leave :: "store \<Rightarrow> var \<Rightarrow> store \<Rightarrow> store" where
  "leave st x st' = set_var st' x (vars st x)"

definition on_result :: "(store \<Rightarrow> store) \<Rightarrow> qr_result \<Rightarrow> qr_result" where
  "on_result f res = map_option (map_sum id f) res"

definition temp_divisor :: "store \<Rightarrow> var \<Rightarrow> var \<Rightarrow> store" where
  "temp_divisor st t divisor = mpz_set (MPZ_TMP_INIT st t (ABSIZ st divisor)) t divisor"

definition mpz_fdiv_qr :: "tdiv_config \<Rightarrow> store \<Rightarrow> var \<Rightarrow> var \<Rightarrow> var \<Rightarrow> var \<Rightarrow> qr_result" where
  "mpz_fdiv_qr cfg st quot rem dividend divisor =
     (let t = local_var [quot, rem, dividend, divisor];
          divisor_size = SIZ st divisor;
          (st1, d) = (if quot = divisor \<or> rem = divisor then (temp_divisor st t divisor, t) else (st, divisor));
          xsize = SIZ st dividend XOR divisor_size
      in on_result (\<lambda>st2.
           leave st t (if xsize < 0 \<and> SIZ st2 rem \<noteq> 0 then mpz_add (mpz_sub_ui st2 quot quot 1) rem rem d else st2))
           (mpz_tdiv_qr cfg st1 quot rem dividend d))"

definition mpz_cdiv_qr :: "tdiv_config \<Rightarrow> store \<Rightarrow> var \<Rightarrow> var \<Rightarrow> var \<Rightarrow> var \<Rightarrow> qr_result" where
  "mpz_cdiv_qr cfg st quot rem dividend divisor =
     (let t = local_var [quot, rem, dividend, divisor];
          divisor_size = SIZ st divisor;
          (st1, d) = (if quot = divisor \<or> rem = divisor then (temp_divisor st t divisor, t) else (st, divisor));
          xsize = SIZ st dividend XOR divisor_size
      in on_result (\<lambda>st2.
           leave st t (if xsize \<ge> 0 \<and> SIZ st2 rem \<noteq> 0 then mpz_sub (mpz_add_ui st2 quot quot 1) rem rem d else st2))
           (mpz_tdiv_qr cfg st1 quot rem dividend d))"

definition mpz_fdiv_q :: "tdiv_config \<Rightarrow> store \<Rightarrow> var \<Rightarrow> var \<Rightarrow> var \<Rightarrow> qr_result" where
  "mpz_fdiv_q cfg st quot dividend divisor =
     (let rem = local_var [quot, dividend, divisor];
          dividend_size = SIZ st dividend; divisor_size = SIZ st divisor
      in on_result (\<lambda>st2.
           leave st rem (if divisor_size XOR dividend_size < 0 \<and> SIZ st2 rem \<noteq> 0 then mpz_sub_ui st2 quot quot 1 else st2))
           (mpz_tdiv_qr cfg (MPZ_TMP_INIT st rem (ABSIZ st divisor)) quot rem dividend divisor))"

definition mpz_cdiv_q :: "tdiv_config \<Rightarrow> store \<Rightarrow> var \<Rightarrow> var \<Rightarrow> var \<Rightarrow> qr_result" where
  "mpz_cdiv_q cfg st quot dividend divisor =
     (let rem = local_var [quot, dividend, divisor];
          dividend_size = SIZ st dividend; divisor_size = SIZ st divisor
      in on_result (\<lambda>st2.
           leave st rem (if divisor_size XOR dividend_size \<ge> 0 \<and> SIZ st2 rem \<noteq> 0 then mpz_add_ui st2 quot quot 1 else st2))
           (mpz_tdiv_qr cfg (MPZ_TMP_INIT st rem (ABSIZ st divisor)) quot rem dividend divisor))"

text \<open>The size of the dividend is read after the division here, when the remainder may have replaced it.\<close>

definition mpz_fdiv_r :: "tdiv_config \<Rightarrow> store \<Rightarrow> var \<Rightarrow> var \<Rightarrow> var \<Rightarrow> qr_result" where
  "mpz_fdiv_r cfg st rem dividend divisor =
     (let t = local_var [rem, dividend, divisor];
          divisor_size = SIZ st divisor;
          (st1, d) = (if rem = divisor then (temp_divisor st t divisor, t) else (st, divisor))
      in on_result (\<lambda>st2.
           leave st t (if divisor_size XOR SIZ st2 dividend < 0 \<and> SIZ st2 rem \<noteq> 0 then mpz_add st2 rem rem d else st2))
           (mpz_tdiv_r cfg st1 rem dividend d))"

definition mpz_cdiv_r :: "tdiv_config \<Rightarrow> store \<Rightarrow> var \<Rightarrow> var \<Rightarrow> var \<Rightarrow> qr_result" where
  "mpz_cdiv_r cfg st rem dividend divisor =
     (let t = local_var [rem, dividend, divisor];
          divisor_size = SIZ st divisor;
          (st1, d) = (if rem = divisor then (temp_divisor st t divisor, t) else (st, divisor))
      in on_result (\<lambda>st2.
           leave st t (if divisor_size XOR SIZ st2 dividend \<ge> 0 \<and> SIZ st2 rem \<noteq> 0 then mpz_sub st2 rem rem d else st2))
           (mpz_tdiv_r cfg st1 rem dividend d))"

definition mpz_mod :: "tdiv_config \<Rightarrow> store \<Rightarrow> var \<Rightarrow> var \<Rightarrow> var \<Rightarrow> qr_result" where
  "mpz_mod cfg st rem dividend divisor =
     (let t = local_var [rem, dividend, divisor];
          (st1, d) = (if rem = divisor then (temp_divisor st t divisor, t) else (st, divisor))
      in on_result (\<lambda>st2.
           leave st t
             (if SIZ st2 rem \<noteq> 0 \<and> SIZ st2 dividend < 0 then
                (if SIZ st2 d < 0 then mpz_sub st2 rem rem d else mpz_add st2 rem rem d)
              else st2))
           (mpz_tdiv_r cfg st1 rem dividend d))"

subsection \<open>Making room\<close>

lemma room_grow: "room st w 1 \<Longrightarrow> room (MPZ_REALLOC st w n) w n"
  by (auto simp: room_def MPZ_REALLOC_def mpz_realloc_def Let_def)

lemma room_less: "room st w n \<Longrightarrow> m \<le> n \<Longrightarrow> room st w m"
  by (simp add: room_def)

lemma room_cong: "vars st' x = vars st x \<Longrightarrow> room st' x n = room st x n"
  by (simp add: room_def)

lemma room_keep: "room st v 1 \<Longrightarrow> room (MPZ_REALLOC st w n) v 1"
  by (cases "v = w") (auto simp: room_def MPZ_REALLOC_def mpz_realloc_def Let_def)

lemma realloc_operand:
  assumes "mpz_ok st u"
  shows "mpz_ok (MPZ_REALLOC st w n) u" "mag (MPZ_REALLOC st w n) u = mag st u" "SIZ (MPZ_REALLOC st w n) u = SIZ st u"
proof -
  have "mpz_ok (MPZ_REALLOC st w n) u \<and> mag (MPZ_REALLOC st w n) u = mag st u \<and> SIZ (MPZ_REALLOC st w n) u = SIZ st u"
  proof (cases "u = w")
    case True
    then show ?thesis using assms mpz_ok_MPZ_REALLOC by auto
  next
    case False
    then have "vars (MPZ_REALLOC st w n) u = vars st u" by simp
    then show ?thesis using assms mpz_ok_cong mag_cong by metis
  qed
  then show "mpz_ok (MPZ_REALLOC st w n) u" "mag (MPZ_REALLOC st w n) u = mag st u" "SIZ (MPZ_REALLOC st w n) u = SIZ st u" by simp_all
qed

lemma set_var_commute: "x \<noteq> y \<Longrightarrow> set_var (set_var st x a) y b = set_var (set_var st y b) x a"
  by (simp add: set_var_def fun_upd_twist)

lemma set_SIZ_commute: "x \<noteq> y \<Longrightarrow> set_SIZ (put_limbs st y i xs) x k = put_limbs (set_SIZ st x k) y i xs"
  unfolding set_SIZ_def put_limbs_def by (simp add: set_var_commute)

subsection \<open>Truncated division of magnitudes\<close>

text \<open>The specification is the library's truncated division of integers, \<^verbatim>\<open>sdiv\<close> and \<^verbatim>\<open>smod\<close>.\<close>

abbreviation trunc_quot :: "int \<Rightarrow> int \<Rightarrow> int" where
  "trunc_quot n d \<equiv> n sdiv d"

abbreviation trunc_rem :: "int \<Rightarrow> int \<Rightarrow> int" where
  "trunc_rem n d \<equiv> n smod d"

lemmas trunc_quot_def = signed_divide_int_def
lemmas trunc_rem_def = signed_modulo_int_def

lemma trunc_division:
  assumes "d \<noteq> 0"
  shows "trunc_quot n d * d + trunc_rem n d = n" "\<bar>trunc_rem n d\<bar> < \<bar>d\<bar>"
    "trunc_rem n d \<noteq> 0 \<Longrightarrow> sgn (trunc_rem n d) = sgn n"
proof -
  have "trunc_quot n d * d = sgn n * ((\<bar>n\<bar> div \<bar>d\<bar>) * (sgn d * d))" by (simp add: trunc_quot_def mult_ac)
  also have "sgn d * d = \<bar>d\<bar>" by (simp add: sgn_if)
  finally have q: "trunc_quot n d * d = sgn n * ((\<bar>n\<bar> div \<bar>d\<bar>) * \<bar>d\<bar>)" .
  have "trunc_quot n d * d + trunc_rem n d = sgn n * ((\<bar>n\<bar> div \<bar>d\<bar>) * \<bar>d\<bar> + \<bar>n\<bar> mod \<bar>d\<bar>)"
    unfolding q trunc_rem_def by (rule distrib_left [symmetric])
  also have "\<dots> = n" unfolding div_mult_mod_eq by (simp add: sgn_if)
  finally show "trunc_quot n d * d + trunc_rem n d = n" .
  have m: "0 \<le> \<bar>n\<bar> mod \<bar>d\<bar>" "\<bar>n\<bar> mod \<bar>d\<bar> < \<bar>d\<bar>" using assms by simp_all
  then show "\<bar>trunc_rem n d\<bar> < \<bar>d\<bar>" using assms by (simp add: trunc_rem_def abs_mult sgn_if)
  define e where "e = \<bar>n\<bar> mod \<bar>d\<bar>"
  show "sgn (trunc_rem n d) = sgn n" if "trunc_rem n d \<noteq> 0"
    using that m(1) unfolding trunc_rem_def e_def [symmetric] by (cases "e = 0") (auto simp: sgn_mult)
qed

lemma abs_mpz_val: "mpz_ok st u \<Longrightarrow> \<bar>mpz_val st u\<bar> = lval (mag st u)"
  by (simp add: mpz_val_with_sign with_sign_def)

lemma small_quotient:
  assumes "\<bar>n\<bar> < \<bar>d\<bar>"
  shows "trunc_quot n d = 0" "trunc_rem n d = n"
  using assms by (simp_all add: trunc_quot_def trunc_rem_def sgn_mult_abs)

text \<open>The lengths of quotient and remainder, and the quotient in full or one limb shorter.\<close>

lemma quotient_length:
  assumes q: "tdiv_of np dp qp rp" and np: "np \<noteq> []" "last np \<noteq> 0" and len: "dp \<noteq> []" "length dp \<le> length np" "2 \<le> length qp"
  shows "B ^ (length qp - 2) \<le> lval qp"
proof -
  have v: "lval qp * lval dp + lval rp = lval np" "lval rp < lval dp" "length qp = length np - length dp + 1"
    using q by (simp_all add: tdiv_of_def)
  have "B ^ (length qp - 2) * B ^ length dp = B ^ (length np - 1)" using len v(3) by (simp flip: power_add)
  also have "\<dots> \<le> lval np" using np by (rule lval_ge_of_last)
  also have "\<dots> < (lval qp + 1) * lval dp" using v(1,2) by (simp add: distrib_right)
  also have "\<dots> \<le> (lval qp + 1) * B ^ length dp" by (intro mult_left_mono) (simp_all add: less_imp_le)
  finally have "B ^ (length qp - 2) < lval qp + 1" by simp
  then show ?thesis by simp
qed

lemma tdiv_of_div_mod:
  assumes "tdiv_of np dp qp rp"
  shows "lval qp = lval np div lval dp" "lval rp = lval np mod lval dp"
  using assms zdiv_mod_unique [of "lval np" "lval qp" "lval dp" "lval rp"] by (auto simp: tdiv_of_def)

lemma mpn_tdiv_qr_mags:
  assumes ok: "tdiv_scope cfg (ABSIZ st den)" and u: "mpz_ok st num" and v: "mpz_ok st den" "SIZ st den \<noteq> 0" and len: "ABSIZ st den \<le> ABSIZ st num"
  obtains qp rp where "mpn_tdiv_qr cfg (mag st num) (mag st den) = Some (qp, rp)"
    "lval qp = lval (mag st num) div lval (mag st den)" "lval rp = lval (mag st num) mod lval (mag st den)"
    "length qp = ABSIZ st num - ABSIZ st den + 1" "length rp = ABSIZ st den"
    "2 \<le> length qp \<Longrightarrow> B ^ (length qp - 2) \<le> lval qp"
proof -
  have d: "mag st den \<noteq> []" "last (mag st den) \<noteq> 0" using v by (simp_all add: mag_nonempty last_mag_ne_0)
  have n0: "SIZ st num \<noteq> 0" using len v(2) by (auto simp: ABSIZ_def)
  have l: "length (mag st den) \<le> length (mag st num)" using len u v by (simp add: length_mag)
  obtain qp rp where r: "mpn_tdiv_qr cfg (mag st num) (mag st den) = Some (qp, rp)" "tdiv_of (mag st num) (mag st den) qp rp"
    using mpn_tdiv_qr_below_value [of cfg "mag st den" "mag st num"] ok d l length_mag [OF v(1)] by auto
  show thesis
  proof (rule that [OF r(1)])
    show "lval qp = lval (mag st num) div lval (mag st den)" "lval rp = lval (mag st num) mod lval (mag st den)"
      by (rule tdiv_of_div_mod [OF r(2)])+
    show "length qp = ABSIZ st num - ABSIZ st den + 1" "length rp = ABSIZ st den"
      using r(2) u v by (simp_all add: tdiv_of_def length_mag)
    show "B ^ (length qp - 2) \<le> lval qp" if "2 \<le> length qp"
      by (rule quotient_length [OF r(2) mag_nonempty [OF u n0] last_mag_ne_0 [OF u n0] d(1) l that])
  qed
qed

subsection \<open>Results of the truncating functions\<close>

lemma copy_remainder:
  assumes r: "room st rem 1" and u: "mpz_ok st num" and len: "ABSIZ st num \<le> dl"
  defines "st1 \<equiv> MPZ_REALLOC st rem dl"
  shows "writes st (if num \<noteq> rem then set_SIZ (put_limbs st1 rem 0 (take (ABSIZ st num) (PTR st1 num))) rem (SIZ st1 num) else st1)
    rem (mpz_val st num)"
proof (cases "num = rem")
  case True
  then show ?thesis using realloc_operand [OF u] by (auto simp: writes_def st1_def mpz_val_def)
next
  case False
  then have e: "take (ABSIZ st num) (PTR st1 num) = mag st num" "SIZ st1 num = SIZ st num" by (simp_all add: st1_def mag_def)
  have "writes st (set_SIZ (put_limbs st1 rem 0 (mag st num)) rem (SIZ st num)) rem
      (sgn (SIZ st num) * lval (take (nat \<bar>SIZ st num\<bar>) (mag st num)))"
    using room_grow [OF r, of dl] len length_mag [OF u] u
    by (intro writes_put_result) (auto simp: st1_def room_def ABSIZ_def nth_mag mpz_ok_def)
  then show ?thesis using False u unfolding e by (simp add: mpz_val_def ABSIZ_def length_mag)
qed

lemma signed_quotient:
  assumes "mpz_ok st num" "mpz_ok st den" "SIZ st den \<noteq> 0" "SIZ st num \<noteq> 0"
  shows "(if SIZ st num XOR SIZ st den < 0 then - (lval (mag st num) div lval (mag st den)) else lval (mag st num) div lval (mag st den))
      = trunc_quot (mpz_val st num) (mpz_val st den)"
    and "(if SIZ st num < 0 then - (lval (mag st num) mod lval (mag st den)) else lval (mag st num) mod lval (mag st den))
      = trunc_rem (mpz_val st num) (mpz_val st den)"
  unfolding trunc_quot_def trunc_rem_def abs_mpz_val [OF assms(1)] abs_mpz_val [OF assms(2)]
    sgn_mpz_val [OF assms(1)] sgn_mpz_val [OF assms(2)]
  using assms(3,4) by (auto simp: sgn_if)

lemma signed_if: "(if 0 \<le> k then x else - x) = (if k < 0 then - x else x)" for k x :: int
  by simp

lemma mpz_tdiv_qr_writes:
  assumes ok: "tdiv_scope cfg (ABSIZ st den)" and w: "room st quot 1" "room st rem 1" "quot \<noteq> rem"
    and u: "mpz_ok st num" and v: "mpz_ok st den" "mpz_val st den \<noteq> 0"
  shows "\<exists>st'. mpz_tdiv_qr cfg st quot rem num den = Some (Inr st') \<and>
    writes2 st st' quot (trunc_quot (mpz_val st num) (mpz_val st den)) rem (trunc_rem (mpz_val st num) (mpz_val st den))"
proof -
  let ?n = "mpz_val st num" and ?d = "mpz_val st den" and ?nl = "ABSIZ st num" and ?dl = "ABSIZ st den"
  have d0: "SIZ st den \<noteq> 0" "?dl \<noteq> 0" using v mpz_val_eq_0_iff [OF v(1)] by (auto simp: ABSIZ_def)
  define st1 where "st1 = MPZ_REALLOC st rem ?dl"
  show ?thesis
  proof (cases "?nl < ?dl")
    case True
    define st2 where "st2 = (if num \<noteq> rem then set_SIZ (put_limbs st1 rem 0 (take ?nl (PTR st1 num))) rem (SIZ st1 num) else st1)"
    have w2: "writes st st2 rem ?n" unfolding st2_def st1_def using True by (intro copy_remainder [OF w(2) u]) simp
    have "room st2 quot 1" using w(1,3) writes_other [OF w2] room_cong by blast
    then have "writes st2 (set_SIZ st2 quot 0) quot 0" by (auto simp: writes_def room_def mpz_ok_def mpz_val_def ABSIZ_def)
    from writes2I [OF w2 this] w(3) have "writes2 st (set_SIZ st2 quot 0) quot 0 rem ?n" by (auto simp: writes2_def)
    moreover have "\<bar>?n\<bar> < \<bar>?d\<bar>" using mag_less_of_size [OF u v(1)] True abs_mpz_val u v by simp
    moreover have "mpz_tdiv_qr cfg st quot rem num den = Some (Inr (set_SIZ st2 quot 0))"
      using d0 True unfolding mpz_tdiv_qr_def Let_def ABSIZ_def [symmetric] st1_def [symmetric] st2_def by simp
    ultimately show ?thesis by (simp add: small_quotient)
  next
    case False
    then have len: "?dl \<le> ?nl" "SIZ st num \<noteq> 0" using d0 by (auto simp: ABSIZ_def)
    define ql st2 where "ql = ?nl - ?dl + 1" and "st2 = MPZ_REALLOC st1 quot ql"
    obtain qp rp where r: "mpn_tdiv_qr cfg (mag st num) (mag st den) = Some (qp, rp)"
      "lval qp = lval (mag st num) div lval (mag st den)" "lval rp = lval (mag st num) mod lval (mag st den)"
      "length qp = ql" "length rp = ?dl" "2 \<le> length qp \<Longrightarrow> B ^ (length qp - 2) \<le> lval qp"
      using mpn_tdiv_qr_mags [OF ok u v(1) d0(1) len(1)] unfolding ql_def by blast
    have mags: "take ?nl (PTR st2 num) = mag st num" "take ?dl (PTR st2 den) = mag st den"
      using realloc_operand [OF realloc_operand(1) [OF u]] realloc_operand [OF realloc_operand(1) [OF v(1)]]
        realloc_operand [OF u] realloc_operand [OF v(1)] unfolding st2_def st1_def mag_def ABSIZ_def by simp_all
    define st3 where "st3 = put_limbs (put_limbs st2 quot 0 qp) rem 0 rp"
    define kq where "kq = int (ql - of_bool (PTR (put_limbs st2 quot 0 qp) quot ! (ql - 1) = 0))"
    define st4 where "st4 = set_SIZ (put_limbs st2 quot 0 qp) quot (if SIZ st num XOR SIZ st den < 0 then - kq else kq)"
    define kr where "kr = int (mpn_normalize (PTR (put_limbs st4 rem 0 rp) rem) ?dl)"
    define st5 where "st5 = set_SIZ (put_limbs st4 rem 0 rp) rem (if SIZ st num < 0 then - kr else kr)"
    have room1: "room st1 quot 1" "room st1 rem ?dl" unfolding st1_def by (rule room_keep [OF w(1)], rule room_grow [OF w(2)])
    have wq: "writes st2 st4 quot (trunc_quot ?n ?d)"
      unfolding st4_def signed_quotient(1) [OF u v(1) d0(1) len(2), symmetric] r(2) [symmetric]
    proof (rule writes_shrink_nat)
      show "room st2 quot (length qp)" using room_grow [OF room1(1), of ql] r(4) by (simp add: st2_def)
      show "qp \<noteq> []" "2 \<le> length qp \<Longrightarrow> B ^ (length qp - 2) \<le> lval qp" "ql = length qp" using r(4,6) by (auto simp: ql_def)
      show "kq = int (ql - of_bool (PTR (put_limbs st2 quot 0 qp) quot ! (ql - 1) = 0))" by (rule kq_def)
    qed simp
    have "vars st4 rem = vars st2 rem" by (rule writes_other [OF wq w(3) [symmetric]])
    also have "\<dots> = vars st1 rem" using w(3) by (simp add: st2_def)
    finally have "room st4 rem ?dl" using room1(2) room_cong by blast
    then have wr: "writes st4 st5 rem (trunc_rem ?n ?d)"
      unfolding st5_def signed_quotient(2) [OF u v(1) d0(1) len(2), symmetric] r(3) [symmetric] kr_def
      by (intro writes_normalized) (simp_all add: r(5))
    have "writes2 st st5 quot (trunc_quot ?n ?d) rem (trunc_rem ?n ?d)"
      using writes2I [OF wq wr w(3)] by (simp add: writes2_def st2_def st1_def)
    moreover have "mpz_tdiv_qr cfg st quot rem num den = Some (Inr st5)"
    proof -
      have "PTR st3 quot = PTR (put_limbs st2 quot 0 qp) quot" using w(3) by (simp add: st3_def)
      moreover have "PTR st3 rem = PTR (put_limbs st4 rem 0 rp) rem" using w(3) by (simp add: st3_def st4_def)
      moreover have "set_SIZ (set_SIZ st3 quot k) rem j = set_SIZ (put_limbs (set_SIZ (put_limbs st2 quot 0 qp) quot k) rem 0 rp) rem j" for k j
        unfolding st3_def by (simp add: set_SIZ_commute [OF w(3)])
      ultimately show ?thesis
        using d0 False r(1)
        unfolding mpz_tdiv_qr_def Let_def ABSIZ_def [symmetric] st1_def [symmetric] ql_def [symmetric] st2_def [symmetric] mags
        by (simp add: st3_def [symmetric] st5_def st4_def kq_def kr_def signed_if not_less)
    qed
    ultimately show ?thesis by blast
  qed
qed

lemma mpz_tdiv_r_writes:
  assumes ok: "tdiv_scope cfg (ABSIZ st den)" and w: "room st rem 1"
    and u: "mpz_ok st num" and v: "mpz_ok st den" "mpz_val st den \<noteq> 0"
  shows "\<exists>st'. mpz_tdiv_r cfg st rem num den = Some (Inr st') \<and> writes st st' rem (trunc_rem (mpz_val st num) (mpz_val st den))"
proof -
  let ?n = "mpz_val st num" and ?d = "mpz_val st den" and ?nl = "ABSIZ st num" and ?dl = "ABSIZ st den"
  have d0: "SIZ st den \<noteq> 0" "?dl \<noteq> 0" using v mpz_val_eq_0_iff [OF v(1)] by (auto simp: ABSIZ_def)
  define st1 where "st1 = MPZ_REALLOC st rem ?dl"
  show ?thesis
  proof (cases "?nl < ?dl")
    case True
    define st2 where "st2 = (if num \<noteq> rem then set_SIZ (put_limbs st1 rem 0 (take ?nl (PTR st1 num))) rem (SIZ st1 num) else st1)"
    have w2: "writes st st2 rem ?n" unfolding st2_def st1_def using True by (intro copy_remainder [OF w u]) simp
    moreover have "\<bar>?n\<bar> < \<bar>?d\<bar>" using mag_less_of_size [OF u v(1)] True abs_mpz_val u v by simp
    moreover have "mpz_tdiv_r cfg st rem num den = Some (Inr st2)"
      using d0 True unfolding mpz_tdiv_r_def Let_def ABSIZ_def [symmetric] st1_def [symmetric] st2_def by simp
    ultimately show ?thesis by (simp add: small_quotient)
  next
    case False
    then have len: "?dl \<le> ?nl" "SIZ st num \<noteq> 0" using d0 by (auto simp: ABSIZ_def)
    obtain qp rp where r: "mpn_tdiv_qr cfg (mag st num) (mag st den) = Some (qp, rp)"
      "lval rp = lval (mag st num) mod lval (mag st den)" "length rp = ?dl"
      using mpn_tdiv_qr_mags [OF ok u v(1) d0(1) len(1)] by blast
    have mags: "take ?nl (PTR st1 num) = mag st num" "take ?dl (PTR st1 den) = mag st den"
      using realloc_operand [OF u] realloc_operand [OF v(1)] unfolding st1_def mag_def ABSIZ_def by simp_all
    define kr where "kr = int (mpn_normalize (PTR (put_limbs st1 rem 0 rp) rem) ?dl)"
    define st2 where "st2 = set_SIZ (put_limbs st1 rem 0 rp) rem (if SIZ st num < 0 then - kr else kr)"
    have "room st1 rem ?dl" unfolding st1_def by (rule room_grow [OF w])
    then have "writes st1 st2 rem (trunc_rem ?n ?d)"
      unfolding st2_def signed_quotient(2) [OF u v(1) d0(1) len(2), symmetric] r(2) [symmetric] kr_def
      by (intro writes_normalized) (simp_all add: r(3))
    then have "writes st st2 rem (trunc_rem ?n ?d)" by (rule writes_vars_cong) (simp add: st1_def)
    moreover have "mpz_tdiv_r cfg st rem num den = Some (Inr st2)"
      using d0 False r(1)
      unfolding mpz_tdiv_r_def Let_def ABSIZ_def [symmetric] st1_def [symmetric] mags
      by (simp add: st2_def kr_def signed_if not_less)
    ultimately show ?thesis by blast
  qed
qed

lemma tdiv_by_zero:
  "mpz_ok st den \<Longrightarrow> mpz_val st den = 0 \<Longrightarrow> mpz_tdiv_qr cfg st quot rem num den = Some (Inl DIVIDE_BY_ZERO)"
  "mpz_ok st den \<Longrightarrow> mpz_val st den = 0 \<Longrightarrow> mpz_tdiv_r cfg st rem num den = Some (Inl DIVIDE_BY_ZERO)"
  by (simp_all add: mpz_tdiv_qr_def mpz_tdiv_r_def mpz_val_eq_0_iff)

subsection \<open>Rounding the other ways\<close>

definition ceil_quot :: "int \<Rightarrow> int \<Rightarrow> int" where
  "ceil_quot n d = - ((- n) div d)"

definition ceil_rem :: "int \<Rightarrow> int \<Rightarrow> int" where
  "ceil_rem n d = - ((- n) mod d)"

lemma floor_from_trunc:
  fixes n d :: int
  assumes "d \<noteq> 0"
  defines "b \<equiv> (n < 0) \<noteq> (d < 0) \<and> trunc_rem n d \<noteq> 0"
  shows "n div d = trunc_quot n d - of_bool b" "n mod d = trunc_rem n d + of_bool b * d"
proof -
  note t = trunc_division [OF assms(1), of n]
  have e: "n = (trunc_quot n d - of_bool b) * d + (trunc_rem n d + of_bool b * d)" using t(1) by (simp add: algebra_simps)
  have s: "n < 0 \<Longrightarrow> trunc_rem n d \<le> 0" "\<not> n < 0 \<Longrightarrow> 0 \<le> trunc_rem n d"
    using assms(1) by (simp_all add: trunc_rem_def sgn_if)
  have e': "n = d * (trunc_quot n d - of_bool b) + (trunc_rem n d + of_bool b * d)" using e by (simp only: mult.commute)
  have "n div d = trunc_quot n d - of_bool b \<and> n mod d = trunc_rem n d + of_bool b * d"
  proof (cases "0 < d")
    case True
    then have "0 \<le> trunc_rem n d + of_bool b * d" "trunc_rem n d + of_bool b * d < d" using t(2) s by (cases "n < 0"; auto simp: b_def)+
    then show ?thesis using int_div_pos_eq [OF e'] int_mod_pos_eq [OF e'] by blast
  next
    case False
    then have "trunc_rem n d + of_bool b * d \<le> 0" "d < trunc_rem n d + of_bool b * d" using t(2) s assms(1) by (cases "n < 0"; auto simp: b_def)+
    then show ?thesis using int_div_neg_eq [OF e'] int_mod_neg_eq [OF e'] by blast
  qed
  then show "n div d = trunc_quot n d - of_bool b" "n mod d = trunc_rem n d + of_bool b * d" by simp_all
qed

lemma ceil_from_trunc:
  fixes n d :: int
  assumes "d \<noteq> 0"
  defines "b \<equiv> (n < 0) = (d < 0) \<and> trunc_rem n d \<noteq> 0"
  shows "ceil_quot n d = trunc_quot n d + of_bool b" "ceil_rem n d = trunc_rem n d - of_bool b * d"
proof -
  have m: "trunc_quot (- n) d = - trunc_quot n d" "trunc_rem (- n) d = - trunc_rem n d"
    by (simp_all add: trunc_quot_def trunc_rem_def)
  have "trunc_rem n d \<noteq> 0 \<Longrightarrow> n \<noteq> 0" by (auto simp: trunc_rem_def)
  then have "((- n < 0) \<noteq> (d < 0) \<and> - trunc_rem n d \<noteq> 0) = b" unfolding b_def by auto
  then show "ceil_quot n d = trunc_quot n d + of_bool b" "ceil_rem n d = trunc_rem n d - of_bool b * d"
    using floor_from_trunc [OF assms(1), of "- n"] unfolding ceil_quot_def ceil_rem_def m by simp_all
qed

subsection \<open>Local variables\<close>

lemma local_var_fresh: "x \<in> set xs \<Longrightarrow> x \<noteq> local_var xs"
  using member_le_sum_list [of x xs] by (auto simp: local_var_def)

lemma temp_divisor_writes:
  assumes "mpz_ok st d" "SIZ st d \<noteq> 0" "t \<noteq> d"
  shows "writes st (temp_divisor st t d) t (mpz_val st d)"
proof -
  let ?st1 = "MPZ_TMP_INIT st t (ABSIZ st d)"
  have keep: "vars ?st1 d = vars st d" using assms(3) by (simp add: MPZ_TMP_INIT_def)
  have mg: "take (ABSIZ st d) (PTR ?st1 d) = mag st d" unfolding keep mag_def ..
  have "temp_divisor st t d = set_SIZ (put_limbs ?st1 t 0 (mag st d)) t (SIZ st d)"
    unfolding temp_divisor_def mpz_set_def Let_def ABSIZ_def [symmetric] keep mg [unfolded keep]
    using assms(3) by (simp add: MPZ_REALLOC_def MPZ_TMP_INIT_def ABSIZ_def mag_def)
  moreover have "writes st (set_SIZ (put_limbs ?st1 t 0 (mag st d)) t (SIZ st d)) t
      (sgn (SIZ st d) * lval (take (nat \<bar>SIZ st d\<bar>) (mag st d)))"
    using assms length_mag [OF assms(1)]
    by (intro writes_put_result) (auto simp: MPZ_TMP_INIT_def ABSIZ_def nth_mag mpz_ok_def)
  ultimately show ?thesis using length_mag [OF assms(1)] by (simp add: mpz_val_def ABSIZ_def)
qed

lemma writes2_trans:
  assumes "writes2 st st1 w k v j" "writes st1 st2 w k'" "w \<noteq> v"
  shows "writes2 st st2 w k' v j"
  using assms writes_keeps [OF assms(2), of v] by (simp add: writes2_def writes_def)

lemma writes2_trans':
  assumes "writes2 st st1 w k v j" "writes st1 st2 v j'" "w \<noteq> v"
  shows "writes2 st st2 w k v j'"
  using assms writes_keeps [OF assms(2), of w] by (simp add: writes2_def writes_def)

text \<open>A result computed beside a local variable, which is given back.\<close>

lemma leave_writes2:
  assumes "writes2 st1 st2 w k v j" "\<And>x. x \<noteq> t \<Longrightarrow> vars st1 x = vars st x" "t \<noteq> w" "t \<noteq> v"
  shows "writes2 st (leave st t st2) w k v j"
proof -
  have k: "vars (leave st t st2) x = vars st2 x" if "x \<noteq> t" for x using that by (simp add: leave_def)
  have "vars (leave st t st2) t = vars st t" by (simp add: leave_def)
  then show ?thesis
    using assms mpz_ok_cong [OF k, of w] mpz_ok_cong [OF k, of v] mpz_val_cong [OF k, of w] mpz_val_cong [OF k, of v] k
    unfolding writes2_def by metis
qed

lemma leave_writes:
  assumes "writes st1 st2 w k" "\<And>x. x \<noteq> t \<Longrightarrow> vars st1 x = vars st x" "t \<noteq> w"
  shows "writes st (leave st t st2) w k"
proof -
  have k: "vars (leave st t st2) x = vars st2 x" if "x \<noteq> t" for x using that by (simp add: leave_def)
  have "vars (leave st t st2) t = vars st t" by (simp add: leave_def)
  then show ?thesis
    using assms mpz_ok_cong [OF k, of w] mpz_val_cong [OF k, of w] k unfolding writes_def by metis
qed

subsection \<open>Results of the rounding functions\<close>

text \<open>The divisor to use, and its copy when a destination is the same variable.\<close>

definition kept_divisor :: "store \<Rightarrow> var \<Rightarrow> bool \<Rightarrow> var \<Rightarrow> store \<times> var" where
  "kept_divisor st t same divisor = (if same then (temp_divisor st t divisor, t) else (st, divisor))"

lemma ABSIZ_unique: "mpz_ok st x \<Longrightarrow> mpz_ok st' y \<Longrightarrow> mpz_val st x = mpz_val st' y \<Longrightarrow> ABSIZ st x = ABSIZ st' y"
  using size_le_iff [of st x] size_le_iff [of st' y] by (metis order_antisym order_refl)

lemma kept_divisor_ok:
  assumes k: "kept_divisor st t same den = (st1, d)" and v: "mpz_ok st den" "mpz_val st den \<noteq> 0" "t \<noteq> den"
  shows "mpz_ok st1 d" "mpz_val st1 d = mpz_val st den" "\<And>x. x \<noteq> t \<Longrightarrow> vars st1 x = vars st x" "d = (if same then t else den)"
    "ABSIZ st1 d = ABSIZ st den"
proof -
  have "SIZ st den \<noteq> 0" using v mpz_val_eq_0_iff by blast
  note w = temp_divisor_writes [OF v(1) this v(3)]
  show "d = (if same then t else den)" using k by (auto simp: kept_divisor_def)
  show ok: "mpz_ok st1 d" and val: "mpz_val st1 d = mpz_val st den" and "\<And>x. x \<noteq> t \<Longrightarrow> vars st1 x = vars st x"
    using k w v by (auto simp: kept_divisor_def writes_def split: if_splits)
  show "ABSIZ st1 d = ABSIZ st den" by (rule ABSIZ_unique [OF ok v(1) val])
qed

lemma rounded_qr:
  fixes st :: store
  assumes ok: "tdiv_scope cfg (ABSIZ st den)" and w: "mpz_ok st quot" "mpz_ok st rem" "quot \<noteq> rem"
    and u: "mpz_ok st num" and v: "mpz_ok st den" "mpz_val st den \<noteq> 0"
    and t: "t = local_var [quot, rem, num, den]" and k: "kept_divisor st t (quot = den \<or> rem = den) den = (st1, d)"
    and adj: "\<And>st2. \<lbrakk>writes2 st1 st2 quot (trunc_quot (mpz_val st num) (mpz_val st den)) rem (trunc_rem (mpz_val st num) (mpz_val st den));
      mpz_ok st2 d; mpz_val st2 d = mpz_val st den\<rbrakk> \<Longrightarrow> writes2 st1 (adj st2) quot q rem r"
  shows "\<exists>st'. on_result (\<lambda>st2. leave st t (adj st2)) (mpz_tdiv_qr cfg st1 quot rem num d) = Some (Inr st') \<and> writes2 st st' quot q rem r"
proof -
  have f: "t \<noteq> quot" "t \<noteq> rem" "t \<noteq> num" "t \<noteq> den" unfolding t by (rule local_var_fresh [symmetric], simp)+
  note d = kept_divisor_ok [OF k v f(4)]
  have dq: "d \<noteq> quot" "d \<noteq> rem" using d(4) f by (auto split: if_splits)
  have keep: "vars st1 quot = vars st quot" "vars st1 rem = vars st rem" "vars st1 num = vars st num" using d(3) f by metis+
  have r: "room st1 quot 1" "room st1 rem 1" using room_ok [OF w(1)] room_ok [OF w(2)] room_cong keep by blast+
  have n: "mpz_ok st1 num" "mpz_val st1 num = mpz_val st num" using u keep(3) mpz_ok_cong mpz_val_cong by metis+
  obtain st2 where s: "mpz_tdiv_qr cfg st1 quot rem num d = Some (Inr st2)"
    "writes2 st1 st2 quot (trunc_quot (mpz_val st num) (mpz_val st den)) rem (trunc_rem (mpz_val st num) (mpz_val st den))"
    using mpz_tdiv_qr_writes [OF ok [folded d(5)] r w(3) n(1) d(1)] v(2) unfolding n d(2) by blast
  have "vars st2 d = vars st1 d" using s(2) dq by (simp add: writes2_def)
  then have "mpz_ok st2 d" "mpz_val st2 d = mpz_val st den" using d(1,2) mpz_ok_cong mpz_val_cong by metis+
  then have "writes2 st (leave st t (adj st2)) quot q rem r"
    using leave_writes2 [OF adj [OF s(2)] d(3)] f by blast
  then show ?thesis using s(1) by (simp add: on_result_def)
qed

text \<open>The sign condition of the code, over sizes and over values.\<close>

lemma xor_size_neg:
  assumes "mpz_ok st u" "mpz_ok st v"
  shows "SIZ st u XOR SIZ st v < 0 \<longleftrightarrow> (mpz_val st u < 0) \<noteq> (mpz_val st v < 0)"
    and "SIZ st u < 0 \<longleftrightarrow> mpz_val st u < 0"
proof -
  have s: "(SIZ st x < 0) = (mpz_val st x < 0)" if "mpz_ok st x" for x using sgn_mpz_val [OF that] by (metis sgn_less)
  show "SIZ st u < 0 \<longleftrightarrow> mpz_val st u < 0" "SIZ st u XOR SIZ st v < 0 \<longleftrightarrow> (mpz_val st u < 0) \<noteq> (mpz_val st v < 0)"
    using s [OF assms(1)] s [OF assms(2)] by simp_all
qed

lemma adjust_qr:
  assumes w: "writes2 st1 st2 quot q rem r" "quot \<noteq> rem" "mpz_ok st2 d" "d \<noteq> quot"
  shows "writes2 st1 (mpz_add (mpz_sub_ui st2 quot quot 1) rem rem d) quot (q - 1) rem (r + mpz_val st2 d)"
    and "writes2 st1 (mpz_sub (mpz_add_ui st2 quot quot 1) rem rem d) quot (q + 1) rem (r - mpz_val st2 d)"
proof -
  have ok: "mpz_ok st2 quot" "mpz_val st2 quot = q" "mpz_ok st2 rem" "mpz_val st2 rem = r" using w(1) by (simp_all add: writes2_def)
  have step: "writes2 st1 st4 quot q' rem r'"
    if a: "writes st2 st3 quot q'" and b: "\<lbrakk>mpz_ok st3 rem; mpz_ok st3 d; mpz_val st3 rem = r; mpz_val st3 d = mpz_val st2 d\<rbrakk> \<Longrightarrow> writes st3 st4 rem r'"
    for st3 st4 q' r'
  proof -
    have "mpz_ok st3 rem" "mpz_ok st3 d" "mpz_val st3 rem = r" "mpz_val st3 d = mpz_val st2 d"
      using writes_keeps [OF a ok(3)] writes_keeps [OF a w(3)] by (simp_all only: ok(4) w(2) [symmetric] w(4) if_False)
    from b [OF this] show ?thesis by (rule writes2_trans' [OF writes2_trans [OF w(1) a w(2)] _ w(2)])
  qed
  show "writes2 st1 (mpz_add (mpz_sub_ui st2 quot quot 1) rem rem d) quot (q - 1) rem (r + mpz_val st2 d)"
  proof (rule step)
    show "writes st2 (mpz_sub_ui st2 quot quot 1) quot (q - 1)" using sub_ui.op_writes [OF ok(1,1), of 1] ok(2) by simp
  qed (metis add.op_writes)
  show "writes2 st1 (mpz_sub (mpz_add_ui st2 quot quot 1) rem rem d) quot (q + 1) rem (r - mpz_val st2 d)"
  proof (rule step)
    show "writes st2 (mpz_add_ui st2 quot quot 1) quot (q + 1)" using add_ui.op_writes [OF ok(1,1), of 1] ok(2) by simp
  qed (metis sub.op_writes)
qed

lemma mpz_fdiv_qr_writes:
  assumes ok: "tdiv_scope cfg (ABSIZ st den)" and w: "mpz_ok st quot" "mpz_ok st rem" "quot \<noteq> rem"
    and u: "mpz_ok st num" and v: "mpz_ok st den" "mpz_val st den \<noteq> 0"
  shows "\<exists>st'. mpz_fdiv_qr cfg st quot rem num den = Some (Inr st') \<and>
    writes2 st st' quot (mpz_val st num div mpz_val st den) rem (mpz_val st num mod mpz_val st den)"
proof -
  let ?n = "mpz_val st num" and ?d = "mpz_val st den"
  define t where "t = local_var [quot, rem, num, den]"
  obtain st1 d where k: "kept_divisor st t (quot = den \<or> rem = den) den = (st1, d)" by fastforce
  define adj where "adj st2 = (if SIZ st num XOR SIZ st den < 0 \<and> SIZ st2 rem \<noteq> 0
    then mpz_add (mpz_sub_ui st2 quot quot 1) rem rem d else st2)" for st2
  have code: "mpz_fdiv_qr cfg st quot rem num den = on_result (\<lambda>st2. leave st t (adj st2)) (mpz_tdiv_qr cfg st1 quot rem num d)"
    using k unfolding mpz_fdiv_qr_def Let_def kept_divisor_def adj_def t_def [symmetric] by simp
  have "t \<noteq> quot" unfolding t_def by (rule local_var_fresh [symmetric]) simp
  then have dq: "d \<noteq> quot" using k by (auto simp: kept_divisor_def split: if_splits)
  show ?thesis unfolding code
  proof (rule rounded_qr [OF ok w u v t_def k])
    fix st2
    assume w2: "writes2 st1 st2 quot (trunc_quot ?n ?d) rem (trunc_rem ?n ?d)" and d: "mpz_ok st2 d" "mpz_val st2 d = ?d"
    have "SIZ st2 rem \<noteq> 0 \<longleftrightarrow> trunc_rem ?n ?d \<noteq> 0" using w2 mpz_val_eq_0_iff [of st2 rem] by (auto simp: writes2_def)
    then show "writes2 st1 (adj st2) quot (?n div ?d) rem (?n mod ?d)"
      using adjust_qr(1) [OF w2 w(3) d(1) dq] w2 unfolding adj_def floor_from_trunc [OF v(2)] d(2) xor_size_neg(1) [OF u v(1)]
      by (cases "trunc_rem ?n ?d = 0") simp_all
  qed
qed

lemma mpz_cdiv_qr_writes:
  assumes ok: "tdiv_scope cfg (ABSIZ st den)" and w: "mpz_ok st quot" "mpz_ok st rem" "quot \<noteq> rem"
    and u: "mpz_ok st num" and v: "mpz_ok st den" "mpz_val st den \<noteq> 0"
  shows "\<exists>st'. mpz_cdiv_qr cfg st quot rem num den = Some (Inr st') \<and>
    writes2 st st' quot (ceil_quot (mpz_val st num) (mpz_val st den)) rem (ceil_rem (mpz_val st num) (mpz_val st den))"
proof -
  let ?n = "mpz_val st num" and ?d = "mpz_val st den"
  define t where "t = local_var [quot, rem, num, den]"
  obtain st1 d where k: "kept_divisor st t (quot = den \<or> rem = den) den = (st1, d)" by fastforce
  define adj where "adj st2 = (if SIZ st num XOR SIZ st den \<ge> 0 \<and> SIZ st2 rem \<noteq> 0
    then mpz_sub (mpz_add_ui st2 quot quot 1) rem rem d else st2)" for st2
  have code: "mpz_cdiv_qr cfg st quot rem num den = on_result (\<lambda>st2. leave st t (adj st2)) (mpz_tdiv_qr cfg st1 quot rem num d)"
    using k unfolding mpz_cdiv_qr_def Let_def kept_divisor_def adj_def t_def [symmetric] by simp
  have "t \<noteq> quot" unfolding t_def by (rule local_var_fresh [symmetric]) simp
  then have dq: "d \<noteq> quot" using k by (auto simp: kept_divisor_def split: if_splits)
  show ?thesis unfolding code
  proof (rule rounded_qr [OF ok w u v t_def k])
    fix st2
    assume w2: "writes2 st1 st2 quot (trunc_quot ?n ?d) rem (trunc_rem ?n ?d)" and d: "mpz_ok st2 d" "mpz_val st2 d = ?d"
    have "SIZ st2 rem \<noteq> 0 \<longleftrightarrow> trunc_rem ?n ?d \<noteq> 0" using w2 mpz_val_eq_0_iff [of st2 rem] by (auto simp: writes2_def)
    moreover have "SIZ st num XOR SIZ st den \<ge> 0 \<longleftrightarrow> (?n < 0) = (?d < 0)" using xor_size_neg(1) [OF u v(1)] by linarith
    ultimately show "writes2 st1 (adj st2) quot (ceil_quot ?n ?d) rem (ceil_rem ?n ?d)"
      using adjust_qr(2) [OF w2 w(3) d(1) dq] w2 unfolding adj_def ceil_from_trunc [OF v(2)] d(2)
      by (cases "trunc_rem ?n ?d = 0") simp_all
  qed
qed

text \<open>The quotient alone: the remainder is a local variable.\<close>

lemma leave_local:
  assumes "writes2 st1 st2 w k t j" "\<And>x. x \<noteq> t \<Longrightarrow> vars st1 x = vars st x" "t \<noteq> w"
  shows "writes st (leave st t st2) w k"
proof -
  have k: "vars (leave st t st2) x = vars st2 x" if "x \<noteq> t" for x using that by (simp add: leave_def)
  have "vars (leave st t st2) t = vars st t" by (simp add: leave_def)
  then show ?thesis
    using assms mpz_ok_cong [OF k, of w] mpz_val_cong [OF k, of w] k unfolding writes_def writes2_def by metis
qed

lemma rounded_q:
  fixes st :: store
  assumes ok: "tdiv_scope cfg (ABSIZ st den)" and w: "mpz_ok st quot" and u: "mpz_ok st num" and v: "mpz_ok st den" "mpz_val st den \<noteq> 0"
    and t: "t = local_var [quot, num, den]" and st1: "st1 = MPZ_TMP_INIT st t (ABSIZ st den)"
    and adj: "\<And>st2. writes2 st1 st2 quot (trunc_quot (mpz_val st num) (mpz_val st den)) t (trunc_rem (mpz_val st num) (mpz_val st den))
      \<Longrightarrow> writes2 st1 (adj st2) quot q t r"
  shows "\<exists>st'. on_result (\<lambda>st2. leave st t (adj st2)) (mpz_tdiv_qr cfg st1 quot t num den) = Some (Inr st') \<and> writes st st' quot q"
proof -
  have f: "t \<noteq> quot" "t \<noteq> num" "t \<noteq> den" unfolding t by (rule local_var_fresh [symmetric], simp)+
  have keep: "vars st1 x = vars st x" if "x \<noteq> t" for x using that by (simp add: st1 MPZ_TMP_INIT_def)
  have "ABSIZ st den \<noteq> 0" using v mpz_val_eq_0_iff [OF v(1)] by (simp add: ABSIZ_def)
  then have r: "room st1 t 1" by (simp add: room_def st1 MPZ_TMP_INIT_def)
  have rq: "room st1 quot 1" using room_ok [OF w] room_cong [OF keep [of quot]] f(1) by simp
  have n: "mpz_ok st1 num" "mpz_val st1 num = mpz_val st num" "mpz_ok st1 den" "mpz_val st1 den = mpz_val st den"
    using u v keep f mpz_ok_cong mpz_val_cong by metis+
  obtain st2 where s: "mpz_tdiv_qr cfg st1 quot t num den = Some (Inr st2)"
    "writes2 st1 st2 quot (trunc_quot (mpz_val st num) (mpz_val st den)) t (trunc_rem (mpz_val st num) (mpz_val st den))"
    using mpz_tdiv_qr_writes [OF _ rq r f(1) [symmetric] n(1,3)] ok ABSIZ_unique [OF n(3) v(1) n(4)] v(2) unfolding n by metis
  then show ?thesis using leave_local [OF adj [OF s(2)] keep f(1)] by (simp add: on_result_def)
qed

lemma mpz_fdiv_q_writes:
  assumes ok: "tdiv_scope cfg (ABSIZ st den)" and w: "mpz_ok st quot" and u: "mpz_ok st num" and v: "mpz_ok st den" "mpz_val st den \<noteq> 0"
  shows "\<exists>st'. mpz_fdiv_q cfg st quot num den = Some (Inr st') \<and> writes st st' quot (mpz_val st num div mpz_val st den)"
proof -
  let ?n = "mpz_val st num" and ?d = "mpz_val st den"
  define t where "t = local_var [quot, num, den]"
  define st1 where "st1 = MPZ_TMP_INIT st t (ABSIZ st den)"
  define adj where "adj st2 = (if SIZ st den XOR SIZ st num < 0 \<and> SIZ st2 t \<noteq> 0 then mpz_sub_ui st2 quot quot 1 else st2)" for st2
  have code: "mpz_fdiv_q cfg st quot num den = on_result (\<lambda>st2. leave st t (adj st2)) (mpz_tdiv_qr cfg st1 quot t num den)"
    unfolding mpz_fdiv_q_def Let_def adj_def t_def st1_def by simp
  have tq: "quot \<noteq> t" unfolding t_def by (rule local_var_fresh) simp
  show ?thesis unfolding code
  proof (rule rounded_q [OF ok w u v t_def st1_def])
    fix st2
    assume w2: "writes2 st1 st2 quot (trunc_quot ?n ?d) t (trunc_rem ?n ?d)"
    then have o: "mpz_ok st2 quot" "mpz_val st2 quot = trunc_quot ?n ?d" "mpz_ok st2 t" "mpz_val st2 t = trunc_rem ?n ?d"
      by (simp_all add: writes2_def)
    have "writes2 st1 (mpz_sub_ui st2 quot quot 1) quot (trunc_quot ?n ?d - 1) t (trunc_rem ?n ?d)"
      using writes2_trans [OF w2 sub_ui.op_writes [OF o(1,1), of 1] tq] o(2) by simp
    then show "writes2 st1 (adj st2) quot (?n div ?d) t (trunc_rem ?n ?d)"
      using w2 mpz_val_eq_0_iff [OF o(3)] unfolding adj_def floor_from_trunc(1) [OF v(2)] xor_size_neg(1) [OF v(1) u] o(4)
      by (cases "(?d < 0) \<noteq> (?n < 0) \<and> trunc_rem ?n ?d \<noteq> 0") auto
  qed
qed

lemma mpz_cdiv_q_writes:
  assumes ok: "tdiv_scope cfg (ABSIZ st den)" and w: "mpz_ok st quot" and u: "mpz_ok st num" and v: "mpz_ok st den" "mpz_val st den \<noteq> 0"
  shows "\<exists>st'. mpz_cdiv_q cfg st quot num den = Some (Inr st') \<and> writes st st' quot (ceil_quot (mpz_val st num) (mpz_val st den))"
proof -
  let ?n = "mpz_val st num" and ?d = "mpz_val st den"
  define t where "t = local_var [quot, num, den]"
  define st1 where "st1 = MPZ_TMP_INIT st t (ABSIZ st den)"
  define adj where "adj st2 = (if SIZ st den XOR SIZ st num \<ge> 0 \<and> SIZ st2 t \<noteq> 0 then mpz_add_ui st2 quot quot 1 else st2)" for st2
  have code: "mpz_cdiv_q cfg st quot num den = on_result (\<lambda>st2. leave st t (adj st2)) (mpz_tdiv_qr cfg st1 quot t num den)"
    unfolding mpz_cdiv_q_def Let_def adj_def t_def st1_def by simp
  have tq: "quot \<noteq> t" unfolding t_def by (rule local_var_fresh) simp
  show ?thesis unfolding code
  proof (rule rounded_q [OF ok w u v t_def st1_def])
    fix st2
    assume w2: "writes2 st1 st2 quot (trunc_quot ?n ?d) t (trunc_rem ?n ?d)"
    then have o: "mpz_ok st2 quot" "mpz_val st2 quot = trunc_quot ?n ?d" "mpz_ok st2 t" "mpz_val st2 t = trunc_rem ?n ?d"
      by (simp_all add: writes2_def)
    have "writes2 st1 (mpz_add_ui st2 quot quot 1) quot (trunc_quot ?n ?d + 1) t (trunc_rem ?n ?d)"
      using writes2_trans [OF w2 add_ui.op_writes [OF o(1,1), of 1] tq] o(2) by simp
    moreover have "SIZ st den XOR SIZ st num \<ge> 0 \<longleftrightarrow> (?d < 0) = (?n < 0)" using xor_size_neg(1) [OF v(1) u] by linarith
    ultimately show "writes2 st1 (adj st2) quot (ceil_quot ?n ?d) t (trunc_rem ?n ?d)"
      using w2 mpz_val_eq_0_iff [OF o(3)] unfolding adj_def ceil_from_trunc(1) [OF v(2)] o(4)
      by (cases "(?d < 0) = (?n < 0) \<and> trunc_rem ?n ?d \<noteq> 0") auto
  qed
qed

text \<open>The remainder alone.\<close>

lemma rounded_r:
  fixes st :: store
  assumes ok: "tdiv_scope cfg (ABSIZ st den)" and w: "mpz_ok st rem" and u: "mpz_ok st num" and v: "mpz_ok st den" "mpz_val st den \<noteq> 0"
    and t: "t = local_var [rem, num, den]" and k: "kept_divisor st t (rem = den) den = (st1, d)"
    and adj: "\<And>st2. \<lbrakk>writes st1 st2 rem (trunc_rem (mpz_val st num) (mpz_val st den)); mpz_ok st2 d; mpz_val st2 d = mpz_val st den;
      trunc_rem (mpz_val st num) (mpz_val st den) \<noteq> 0 \<Longrightarrow> (SIZ st2 num < 0) = (mpz_val st num < 0)\<rbrakk> \<Longrightarrow> writes st1 (adj st2) rem r"
  shows "\<exists>st'. on_result (\<lambda>st2. leave st t (adj st2)) (mpz_tdiv_r cfg st1 rem num d) = Some (Inr st') \<and> writes st st' rem r"
proof -
  let ?r = "trunc_rem (mpz_val st num) (mpz_val st den)"
  have f: "t \<noteq> rem" "t \<noteq> num" "t \<noteq> den" unfolding t by (rule local_var_fresh [symmetric], simp)+
  note d = kept_divisor_ok [OF k v f(3)]
  have dq: "d \<noteq> rem" using d(4) f by (auto split: if_splits)
  have keep: "vars st1 rem = vars st rem" "vars st1 num = vars st num" using d(3) f by metis+
  have r: "room st1 rem 1" using room_ok [OF w] room_cong [OF keep(1)] by simp
  have n: "mpz_ok st1 num" "mpz_val st1 num = mpz_val st num" using u keep(2) mpz_ok_cong mpz_val_cong by metis+
  obtain st2 where s: "mpz_tdiv_r cfg st1 rem num d = Some (Inr st2)" "writes st1 st2 rem ?r"
    using mpz_tdiv_r_writes [OF ok [folded d(5)] r n(1) d(1)] v(2) unfolding n d(2) by blast
  have d2: "mpz_ok st2 d" "mpz_val st2 d = mpz_val st den" using writes_keeps [OF s(2) d(1)] d(2) dq by simp_all
  have "(SIZ st2 num < 0) = (mpz_val st num < 0)" if "?r \<noteq> 0"
  proof (cases "num = rem")
    case True
    have o: "mpz_ok st2 num" "mpz_val st2 num = ?r" using s(2) True by (simp_all add: writes_def)
    have "(?r < 0) = (mpz_val st num < 0)" using trunc_division(3) [OF v(2) that] by (metis sgn_less)
    then show ?thesis using xor_size_neg(2) [OF o(1,1)] o(2) by simp
  next
    case False
    then have "vars st2 num = vars st num" using writes_other [OF s(2)] keep(2) by simp
    then show ?thesis using xor_size_neg(2) [OF u u] by simp
  qed
  from adj [OF s(2) d2 this] leave_writes [OF _ d(3)] f(1) s(1) show ?thesis by (auto simp: on_result_def)
qed

lemma adjust_r:
  assumes w: "writes st1 st2 rem r" and d: "mpz_ok st2 d"
  shows "writes st1 (mpz_add st2 rem rem d) rem (r + mpz_val st2 d)" "writes st1 (mpz_sub st2 rem rem d) rem (r - mpz_val st2 d)"
  using writes_trans [OF w add.op_writes [OF writes_ok [OF w] writes_ok [OF w] d]]
    writes_trans [OF w sub.op_writes [OF writes_ok [OF w] writes_ok [OF w] d]] writes_val [OF w] by simp_all

lemma SIZ_writes: "writes st1 st2 w k \<Longrightarrow> SIZ st2 w \<noteq> 0 \<longleftrightarrow> k \<noteq> 0"
  using mpz_val_eq_0_iff [of st2 w] by (auto simp: writes_def)

lemma mpz_fdiv_r_writes:
  assumes ok: "tdiv_scope cfg (ABSIZ st den)" and w: "mpz_ok st rem" and u: "mpz_ok st num" and v: "mpz_ok st den" "mpz_val st den \<noteq> 0"
  shows "\<exists>st'. mpz_fdiv_r cfg st rem num den = Some (Inr st') \<and> writes st st' rem (mpz_val st num mod mpz_val st den)"
proof -
  let ?n = "mpz_val st num" and ?d = "mpz_val st den"
  define t where "t = local_var [rem, num, den]"
  obtain st1 d where k: "kept_divisor st t (rem = den) den = (st1, d)" by fastforce
  define adj where "adj st2 = (if SIZ st den XOR SIZ st2 num < 0 \<and> SIZ st2 rem \<noteq> 0 then mpz_add st2 rem rem d else st2)" for st2
  have code: "mpz_fdiv_r cfg st rem num den = on_result (\<lambda>st2. leave st t (adj st2)) (mpz_tdiv_r cfg st1 rem num d)"
    using k unfolding mpz_fdiv_r_def Let_def kept_divisor_def adj_def t_def [symmetric] by simp
  show ?thesis unfolding code
  proof (rule rounded_r [OF ok w u v t_def k])
    fix st2
    assume w2: "writes st1 st2 rem (trunc_rem ?n ?d)" and d: "mpz_ok st2 d" "mpz_val st2 d = ?d"
      and n: "trunc_rem ?n ?d \<noteq> 0 \<Longrightarrow> (SIZ st2 num < 0) = (?n < 0)"
    show "writes st1 (adj st2) rem (?n mod ?d)"
      using w2 n adjust_r(1) [OF w2 d(1)] xor_size_neg(2) [OF v(1,1)] SIZ_writes [OF w2]
      unfolding adj_def floor_from_trunc(2) [OF v(2)] d(2) by (cases "trunc_rem ?n ?d = 0") auto
  qed
qed

lemma mpz_cdiv_r_writes:
  assumes ok: "tdiv_scope cfg (ABSIZ st den)" and w: "mpz_ok st rem" and u: "mpz_ok st num" and v: "mpz_ok st den" "mpz_val st den \<noteq> 0"
  shows "\<exists>st'. mpz_cdiv_r cfg st rem num den = Some (Inr st') \<and> writes st st' rem (ceil_rem (mpz_val st num) (mpz_val st den))"
proof -
  let ?n = "mpz_val st num" and ?d = "mpz_val st den"
  define t where "t = local_var [rem, num, den]"
  obtain st1 d where k: "kept_divisor st t (rem = den) den = (st1, d)" by fastforce
  define adj where "adj st2 = (if SIZ st den XOR SIZ st2 num \<ge> 0 \<and> SIZ st2 rem \<noteq> 0 then mpz_sub st2 rem rem d else st2)" for st2
  have code: "mpz_cdiv_r cfg st rem num den = on_result (\<lambda>st2. leave st t (adj st2)) (mpz_tdiv_r cfg st1 rem num d)"
    using k unfolding mpz_cdiv_r_def Let_def kept_divisor_def adj_def t_def [symmetric] by simp
  show ?thesis unfolding code
  proof (rule rounded_r [OF ok w u v t_def k])
    fix st2
    assume w2: "writes st1 st2 rem (trunc_rem ?n ?d)" and d: "mpz_ok st2 d" "mpz_val st2 d = ?d"
      and n: "trunc_rem ?n ?d \<noteq> 0 \<Longrightarrow> (SIZ st2 num < 0) = (?n < 0)"
    have "SIZ st den XOR SIZ st2 num \<ge> 0 \<longleftrightarrow> (SIZ st den < 0) = (SIZ st2 num < 0)" by auto
    then show "writes st1 (adj st2) rem (ceil_rem ?n ?d)"
      using w2 n adjust_r(2) [OF w2 d(1)] xor_size_neg(2) [OF v(1,1)] SIZ_writes [OF w2]
      unfolding adj_def ceil_from_trunc(2) [OF v(2)] d(2) by (cases "trunc_rem ?n ?d = 0") auto
  qed
qed

lemma mpz_mod_writes:
  assumes ok: "tdiv_scope cfg (ABSIZ st den)" and w: "mpz_ok st rem" and u: "mpz_ok st num" and v: "mpz_ok st den" "mpz_val st den \<noteq> 0"
  shows "\<exists>st'. mpz_mod cfg st rem num den = Some (Inr st') \<and> writes st st' rem (mpz_val st num mod \<bar>mpz_val st den\<bar>)"
proof -
  let ?n = "mpz_val st num" and ?d = "mpz_val st den"
  define t where "t = local_var [rem, num, den]"
  obtain st1 d where k: "kept_divisor st t (rem = den) den = (st1, d)" by fastforce
  define adj where "adj st2 = (if SIZ st2 rem \<noteq> 0 \<and> SIZ st2 num < 0 then
      (if SIZ st2 d < 0 then mpz_sub st2 rem rem d else mpz_add st2 rem rem d) else st2)" for st2
  have code: "mpz_mod cfg st rem num den = on_result (\<lambda>st2. leave st t (adj st2)) (mpz_tdiv_r cfg st1 rem num d)"
    using k unfolding mpz_mod_def Let_def kept_divisor_def adj_def t_def [symmetric] by simp
  show ?thesis unfolding code
  proof (rule rounded_r [OF ok w u v t_def k])
    fix st2
    assume w2: "writes st1 st2 rem (trunc_rem ?n ?d)" and d: "mpz_ok st2 d" "mpz_val st2 d = ?d"
      and n: "trunc_rem ?n ?d \<noteq> 0 \<Longrightarrow> (SIZ st2 num < 0) = (?n < 0)"
    have "trunc_rem ?n \<bar>?d\<bar> = trunc_rem ?n ?d" by (simp add: trunc_rem_def)
    then have m: "?n mod \<bar>?d\<bar> = trunc_rem ?n ?d + of_bool (?n < 0 \<and> trunc_rem ?n ?d \<noteq> 0) * \<bar>?d\<bar>"
      using floor_from_trunc(2) [of "\<bar>?d\<bar>" ?n] v(2) by simp
    show "writes st1 (adj st2) rem (?n mod \<bar>?d\<bar>)"
      using w2 n adjust_r [OF w2 d(1)] xor_size_neg(2) [OF d(1,1)] SIZ_writes [OF w2]
      unfolding adj_def m d(2) by (cases "trunc_rem ?n ?d = 0"; cases "?d < 0") auto
  qed
qed

text \<open>A zero divisor raises the error in every function.\<close>

lemma rounding_by_zero:
  assumes "mpz_ok st den" "mpz_val st den = 0"
  shows "mpz_fdiv_qr cfg st quot rem num den = Some (Inl DIVIDE_BY_ZERO)" "mpz_cdiv_qr cfg st quot rem num den = Some (Inl DIVIDE_BY_ZERO)"
    "mpz_fdiv_q cfg st quot num den = Some (Inl DIVIDE_BY_ZERO)" "mpz_cdiv_q cfg st quot num den = Some (Inl DIVIDE_BY_ZERO)"
    "mpz_fdiv_r cfg st rem num den = Some (Inl DIVIDE_BY_ZERO)" "mpz_cdiv_r cfg st rem num den = Some (Inl DIVIDE_BY_ZERO)"
    "mpz_mod cfg st rem num den = Some (Inl DIVIDE_BY_ZERO)"
proof -
  have z: "SIZ st den = 0" using assms mpz_val_eq_0_iff by blast
  have qr: "mpz_tdiv_qr cfg st1 q r n d = Some (Inl DIVIDE_BY_ZERO)" and r: "mpz_tdiv_r cfg st1 r n d = Some (Inl DIVIDE_BY_ZERO)"
    if "SIZ st1 d = 0" for st1 q r n d using that by (simp_all add: mpz_tdiv_qr_def mpz_tdiv_r_def)
  have t: "SIZ (temp_divisor st t den) t = 0" "SIZ (MPZ_TMP_INIT st t k) den = 0" for t k
    using z by (auto simp: temp_divisor_def mpz_set_def Let_def MPZ_TMP_INIT_def)
  show "mpz_fdiv_qr cfg st quot rem num den = Some (Inl DIVIDE_BY_ZERO)" "mpz_cdiv_qr cfg st quot rem num den = Some (Inl DIVIDE_BY_ZERO)"
    "mpz_fdiv_q cfg st quot num den = Some (Inl DIVIDE_BY_ZERO)" "mpz_cdiv_q cfg st quot num den = Some (Inl DIVIDE_BY_ZERO)"
    "mpz_fdiv_r cfg st rem num den = Some (Inl DIVIDE_BY_ZERO)" "mpz_cdiv_r cfg st rem num den = Some (Inl DIVIDE_BY_ZERO)"
    "mpz_mod cfg st rem num den = Some (Inl DIVIDE_BY_ZERO)"
    using z t qr r
    by (simp_all add: mpz_fdiv_qr_def mpz_cdiv_qr_def mpz_fdiv_q_def mpz_cdiv_q_def mpz_fdiv_r_def mpz_cdiv_r_def mpz_mod_def on_result_def Let_def)
qed

subsection \<open>The contract of a division\<close>

locale mpz_division =
  fixes qr_op :: "tdiv_config \<Rightarrow> store \<Rightarrow> var \<Rightarrow> var \<Rightarrow> var \<Rightarrow> var \<Rightarrow> qr_result"
    and r_op :: "tdiv_config \<Rightarrow> store \<Rightarrow> var \<Rightarrow> var \<Rightarrow> var \<Rightarrow> qr_result"
    and q r :: "int \<Rightarrow> int \<Rightarrow> int"
  assumes by_zero: "mpz_ok st d \<Longrightarrow> mpz_val st d = 0 \<Longrightarrow> qr_op cfg st w v u d = Some (Inl DIVIDE_BY_ZERO)"
      "mpz_ok st d \<Longrightarrow> mpz_val st d = 0 \<Longrightarrow> r_op cfg st v u d = Some (Inl DIVIDE_BY_ZERO)"
    and qr_law: "\<lbrakk>tdiv_scope cfg (ABSIZ st d); mpz_ok st w; mpz_ok st v; w \<noteq> v; mpz_ok st u; mpz_ok st d; mpz_val st d \<noteq> 0\<rbrakk> \<Longrightarrow>
      \<exists>st'. qr_op cfg st w v u d = Some (Inr st') \<and>
        writes2 st st' w (q (mpz_val st u) (mpz_val st d)) v (r (mpz_val st u) (mpz_val st d))"
    and r_law: "\<lbrakk>tdiv_scope cfg (ABSIZ st d); mpz_ok st v; mpz_ok st u; mpz_ok st d; mpz_val st d \<noteq> 0\<rbrakk> \<Longrightarrow>
      \<exists>st'. r_op cfg st v u d = Some (Inr st') \<and> writes st st' v (r (mpz_val st u) (mpz_val st d))"
    and division: "e \<noteq> 0 \<Longrightarrow> q n e * e + r n e = n" and remainder: "e \<noteq> 0 \<Longrightarrow> \<bar>r n e\<bar> < \<bar>e\<bar>"
begin

text \<open>The only error is a zero divisor, and every call returns.\<close>

lemma qr_total:
  assumes "tdiv_scope cfg (ABSIZ st d)" "mpz_ok st w" "mpz_ok st v" "w \<noteq> v" "mpz_ok st u" "mpz_ok st d"
  shows "qr_op cfg st w v u d \<noteq> None" "qr_op cfg st w v u d = Some (Inl e) \<longleftrightarrow> mpz_val st d = 0"
  using by_zero(1) [OF assms(6)] qr_law [OF assms] by (cases e; cases "mpz_val st d = 0"; auto)+

lemma qr_identity:
  assumes "tdiv_scope cfg (ABSIZ st d)" "mpz_ok st w" "mpz_ok st v" "w \<noteq> v" "mpz_ok st u" "mpz_ok st d"
    and res: "qr_op cfg st w v u d = Some (Inr st')"
  shows "mpz_val st' w * mpz_val st d + mpz_val st' v = mpz_val st u" "\<bar>mpz_val st' v\<bar> < \<bar>mpz_val st d\<bar>"
proof -
  have e: "mpz_val st d \<noteq> 0" using res by_zero(1) [OF assms(6)] by auto
  have "writes2 st st' w (q (mpz_val st u) (mpz_val st d)) v (r (mpz_val st u) (mpz_val st d))"
    using qr_law [OF assms(1-6) e] res by auto
  then show "mpz_val st' w * mpz_val st d + mpz_val st' v = mpz_val st u" "\<bar>mpz_val st' v\<bar> < \<bar>mpz_val st d\<bar>"
    using division [OF e] remainder [OF e] by (simp_all add: writes2_def)
qed

text \<open>Dividing in place: the destinations may be the operands themselves.\<close>

lemma qr_in_place:
  assumes "tdiv_scope cfg (ABSIZ st d)" "mpz_ok st u" "mpz_ok st d" "u \<noteq> d" "mpz_val st d \<noteq> 0"
  shows "\<exists>st'. qr_op cfg st u d u d = Some (Inr st') \<and> mpz_val st' u = q (mpz_val st u) (mpz_val st d)
    \<and> mpz_val st' d = r (mpz_val st u) (mpz_val st d)"
  using qr_law [OF assms(1,2,3,4,2,3,5)] by (auto simp: writes2_def)

end

interpretation tdiv_int: mpz_division mpz_tdiv_qr mpz_tdiv_r trunc_quot trunc_rem
proof
  show "\<And>cfg st w v u d. \<lbrakk>tdiv_scope cfg (ABSIZ st d); mpz_ok st w; mpz_ok st v; w \<noteq> v; mpz_ok st u; mpz_ok st d; mpz_val st d \<noteq> 0\<rbrakk> \<Longrightarrow>
      \<exists>st'. mpz_tdiv_qr cfg st w v u d = Some (Inr st') \<and>
        writes2 st st' w (trunc_quot (mpz_val st u) (mpz_val st d)) v (trunc_rem (mpz_val st u) (mpz_val st d))"
    by (intro mpz_tdiv_qr_writes room_ok) auto
  show "\<And>cfg st v u d. \<lbrakk>tdiv_scope cfg (ABSIZ st d); mpz_ok st v; mpz_ok st u; mpz_ok st d; mpz_val st d \<noteq> 0\<rbrakk> \<Longrightarrow>
      \<exists>st'. mpz_tdiv_r cfg st v u d = Some (Inr st') \<and> writes st st' v (trunc_rem (mpz_val st u) (mpz_val st d))"
    by (intro mpz_tdiv_r_writes room_ok) auto
qed (use tdiv_by_zero trunc_division in auto)

interpretation fdiv_int: mpz_division mpz_fdiv_qr mpz_fdiv_r "(div)" "(mod)"
  using mpz_fdiv_qr_writes mpz_fdiv_r_writes rounding_by_zero abs_mod_less by unfold_locales auto

interpretation cdiv_int: mpz_division mpz_cdiv_qr mpz_cdiv_r ceil_quot ceil_rem
proof
  show "ceil_quot n e * e + ceil_rem n e = n" if "e \<noteq> 0" for n e
  proof -
    have "ceil_quot n e * e + ceil_rem n e = - ((- n) div e * e + (- n) mod e)"
      unfolding ceil_quot_def ceil_rem_def by (simp only: mult_minus_left minus_add_distrib)
    then show ?thesis unfolding div_mult_mod_eq by simp
  qed
  show "\<bar>ceil_rem n e\<bar> < \<bar>e\<bar>" if "e \<noteq> 0" for n e using abs_mod_less [OF that, of "- n"] by (simp add: ceil_rem_def)
qed (use rounding_by_zero mpz_cdiv_qr_writes mpz_cdiv_r_writes in auto)

end
