(* ===== verification/Kernel_Div.thy ===== *)
theory Kernel_Div
  imports Kernel_Errors Mpz_Div
begin

text \<open>
  Truncation, floor, ceiling, \<^verbatim>\<open>rem\<close> and \<^verbatim>\<open>mod\<close> of Lisp integers (\<^verbatim>\<open>kernel/numbers.cpp\<close>): on words for two
  fixnums, through \<^verbatim>\<open>mpz_tdiv_qr\<close>, \<^verbatim>\<open>mpz_fdiv_qr\<close> and \<^verbatim>\<open>mpz_cdiv_qr\<close> for a bignum divided by an integer. The
  branches that divide through a ratio or a float (for integers: a fixnum divided by a bignum, and
  the truncation of a bignum by a bignum) are the parameter \<open>rest\<close>. A result is the two values the
  function sets; \<open>None\<close> is a call that does not return, as when the arithmetic library raises its own
  exception.
\<close>

type_synonym kvalues = "(Value \<times> Value \<times> kernel) result option"

subsection \<open>Signed words\<close>

definition long_abs :: "limb \<Rightarrow> limb" where
  "long_abs x = (if sint x \<ge> 0 then x else - x)"

definition same_sign_p :: "limb \<Rightarrow> limb \<Rightarrow> bool" where
  "same_sign_p x y \<longleftrightarrow> x = y \<or> (sint x > 0 \<and> sint y > 0) \<or> (sint x < 0 \<and> sint y < 0)"

text \<open>The operators \<^verbatim>\<open>/\<close> and \<^verbatim>\<open>%\<close> of C on \<^verbatim>\<open>long\<close>.\<close>

definition long_div :: "limb \<Rightarrow> limb \<Rightarrow> limb" where
  "long_div a b = word_of_int (sint a sdiv sint b)"

definition long_mod :: "limb \<Rightarrow> limb \<Rightarrow> limb" where
  "long_mod a b = word_of_int (sint a smod sint b)"

subsection \<open>The code\<close>

definition two_integers :: "kernel \<Rightarrow> limb \<Rightarrow> limb \<Rightarrow> kvalues" where
  "two_integers k q r =
     (let (quotient, k) = make_integer k q; (remainder, k) = make_integer k r in Some (Inr (quotient, remainder, k)))"

text \<open>The quotient and remainder of integer variables, in fresh local variables, normalised.\<close>

definition mpz_values :: "(store \<Rightarrow> var \<Rightarrow> var \<Rightarrow> var \<Rightarrow> var \<Rightarrow> qr_result) \<Rightarrow> kernel \<Rightarrow> var \<Rightarrow> var \<Rightarrow> kvalues" where
  "mpz_values qr k num den =
     (let (quotient, k) = new_var k; (remainder, k) = new_var k;
          h = mpz_init (mpz_init (heap k) quotient) remainder
      in case qr h quotient remainder num den of
           Some (Inr h) \<Rightarrow>
             (let (value1, k) = normalize_mpz (k\<lparr>heap := h\<rparr>) quotient; (value2, k) = normalize_mpz k remainder
              in Some (Inr (value1, value2, k)))
         | _ \<Rightarrow> None)"

definition mpz_values_long :: "(store \<Rightarrow> var \<Rightarrow> var \<Rightarrow> var \<Rightarrow> var \<Rightarrow> qr_result) \<Rightarrow> kernel \<Rightarrow> var \<Rightarrow> limb \<Rightarrow> kvalues" where
  "mpz_values_long qr k num d =
     (let (z2, k) = new_var k in mpz_values qr (k\<lparr>heap := mpz_init_set_si (heap k) z2 d\<rparr>) num z2)"

definition real_operands :: "(kernel \<Rightarrow> Value \<Rightarrow> Value \<Rightarrow> kvalues) \<Rightarrow> kernel \<Rightarrow> Value \<Rightarrow> Value \<Rightarrow> kvalues" where
  "real_operands rest k number divisor =
     (if realp number then (if realp divisor then rest k number divisor else Some (Inl (Type_error divisor S_real)))
      else Some (Inl (Type_error number S_real)))"

definition SYS_truncate_1 :: "(kernel \<Rightarrow> Value \<Rightarrow> kvalues) \<Rightarrow> kernel \<Rightarrow> Value \<Rightarrow> kvalues" where
  "SYS_truncate_1 rest k number =
     (if fixnump number \<or> bignump number then Some (Inr (number, Fixnum 0, k))
      else if realp number then rest k number
      else Some (Inl (Type_error number S_real)))"

definition SYS_truncate_2 :: "tdiv_config \<Rightarrow> (kernel \<Rightarrow> Value \<Rightarrow> Value \<Rightarrow> kvalues) \<Rightarrow> kernel \<Rightarrow> Value \<Rightarrow> Value \<Rightarrow> kvalues" where
  "SYS_truncate_2 cfg rest k number divisor =
     (case number of
        Fixnum n \<Rightarrow>
          (case divisor of
             Fixnum d \<Rightarrow>
               (if divisor = Fixnum 0 then Some (Inl (Division_by_zero S_truncate_2 number divisor))
                else
                  let n = xlong number; d = xlong divisor;
                      n_abs = long_abs n; d_abs = long_abs d;
                      q = long_div n_abs d_abs;
                      r = long_mod n_abs d_abs;
                      r = (if sint n < 0 then - r else r);
                      q = (if \<not> same_sign_p n d then - q else q)
                  in two_integers k q r)
           | _ \<Rightarrow> real_operands rest k number divisor)
      | Bignum_ref z \<Rightarrow>
          (case divisor of
             Fixnum d \<Rightarrow>
               (if divisor = Fixnum 0 then Some (Inl (Division_by_zero S_truncate_2 number divisor))
                else mpz_values_long (mpz_tdiv_qr cfg) k z (xlong divisor))
           | _ \<Rightarrow> real_operands rest k number divisor)
      | Other c i \<Rightarrow> real_operands rest k number divisor)"

definition CL_truncate :: "tdiv_config \<Rightarrow> (kernel \<Rightarrow> Value \<Rightarrow> kvalues) \<Rightarrow> (kernel \<Rightarrow> Value \<Rightarrow> Value \<Rightarrow> kvalues) \<Rightarrow> kernel \<Rightarrow> Value list \<Rightarrow> kvalues" where
  "CL_truncate cfg rest1 rest k args =
     (case args of
        [a] \<Rightarrow> SYS_truncate_1 rest1 k a
      | [a, b] \<Rightarrow> SYS_truncate_2 cfg rest k a b
      | _ \<Rightarrow> Some (Inl (Wrong_number_of_arguments (length args))))"

definition SYS_floor_1 :: "(kernel \<Rightarrow> Value \<Rightarrow> kvalues) \<Rightarrow> kernel \<Rightarrow> Value \<Rightarrow> kvalues" where
  "SYS_floor_1 rest k arg =
     (case arg of
        Fixnum w \<Rightarrow> Some (Inr (arg, Fixnum 0, k))
      | Bignum_ref z \<Rightarrow> Some (Inr (arg, Fixnum 0, k))
      | Other c i \<Rightarrow> if realp arg then rest k arg else Some (Inl (Type_error arg S_real)))"

definition SYS_floor_2 :: "tdiv_config \<Rightarrow> (kernel \<Rightarrow> Value \<Rightarrow> Value \<Rightarrow> kvalues) \<Rightarrow> kernel \<Rightarrow> Value \<Rightarrow> Value \<Rightarrow> kvalues" where
  "SYS_floor_2 cfg rest k number divisor =
     (case number of
        Fixnum n \<Rightarrow>
          (case divisor of
             Fixnum d \<Rightarrow>
               (if divisor = Fixnum 0 then Some (Inl (Division_by_zero S_floor_2 number divisor))
                else
                  let x = xlong number; y = xlong divisor;
                      x_abs = long_abs x; y_abs = long_abs y;
                      q = long_div x_abs y_abs;
                      r = long_mod x_abs y_abs;
                      (q, r) =
                        (if \<not> same_sign_p x y then
                           let (q, r) = (if r \<noteq> 0 then (q + 1, r - y_abs) else (q, r)) in (- q, r)
                         else (q, r));
                      r = (if sint x < 0 then - r else r)
                  in two_integers k q r)
           | _ \<Rightarrow> real_operands rest k number divisor)
      | Bignum_ref z \<Rightarrow>
          (case divisor of
             Fixnum d \<Rightarrow>
               (if divisor = Fixnum 0 then Some (Inl (Division_by_zero S_floor_2 number divisor))
                else mpz_values_long (mpz_fdiv_qr cfg) k z (xlong divisor))
           | Bignum_ref z2 \<Rightarrow> mpz_values (mpz_fdiv_qr cfg) k z z2
           | _ \<Rightarrow> real_operands rest k number divisor)
      | Other c i \<Rightarrow> real_operands rest k number divisor)"

definition CL_floor :: "tdiv_config \<Rightarrow> (kernel \<Rightarrow> Value \<Rightarrow> kvalues) \<Rightarrow> (kernel \<Rightarrow> Value \<Rightarrow> Value \<Rightarrow> kvalues) \<Rightarrow> kernel \<Rightarrow> Value list \<Rightarrow> kvalues" where
  "CL_floor cfg rest1 rest k args =
     (case args of
        [a] \<Rightarrow> SYS_floor_1 rest1 k a
      | [a, b] \<Rightarrow> SYS_floor_2 cfg rest k a b
      | _ \<Rightarrow> Some (Inl (Wrong_number_of_arguments (length args))))"

definition SYS_ceiling_1 :: "(kernel \<Rightarrow> Value \<Rightarrow> kvalues) \<Rightarrow> kernel \<Rightarrow> Value \<Rightarrow> kvalues" where
  "SYS_ceiling_1 rest k number =
     (if fixnump number \<or> bignump number then Some (Inr (number, Fixnum 0, k))
      else if realp number then rest k number
      else Some (Inl (Type_error number S_real)))"

definition SYS_ceiling_2 :: "tdiv_config \<Rightarrow> (kernel \<Rightarrow> Value \<Rightarrow> Value \<Rightarrow> kvalues) \<Rightarrow> kernel \<Rightarrow> Value \<Rightarrow> Value \<Rightarrow> kvalues" where
  "SYS_ceiling_2 cfg rest k number divisor =
     (case number of
        Fixnum n \<Rightarrow>
          (case divisor of
             Fixnum d \<Rightarrow>
               (if divisor = Fixnum 0 then Some (Inl (Division_by_zero S_ceiling_2 number divisor))
                else
                  let n = xlong number; d = xlong divisor;
                      n_abs = long_abs n; d_abs = long_abs d;
                      q = long_div n_abs d_abs;
                      r = long_mod n_abs d_abs;
                      (q, r) = (if same_sign_p n d \<and> r \<noteq> 0 then (q + 1, r - d_abs) else (q, r));
                      r = (if sint n < 0 then - r else r);
                      q = (if \<not> same_sign_p n d then - q else q)
                  in two_integers k q r)
           | _ \<Rightarrow> real_operands rest k number divisor)
      | Bignum_ref z \<Rightarrow>
          (case divisor of
             Fixnum d \<Rightarrow>
               (if divisor = Fixnum 0 then Some (Inl (Division_by_zero S_ceiling_2 number divisor))
                else mpz_values_long (mpz_cdiv_qr cfg) k z (xlong divisor))
           | Bignum_ref z2 \<Rightarrow> mpz_values (mpz_cdiv_qr cfg) k z z2
           | _ \<Rightarrow> real_operands rest k number divisor)
      | Other c i \<Rightarrow> real_operands rest k number divisor)"

definition CL_ceiling :: "tdiv_config \<Rightarrow> (kernel \<Rightarrow> Value \<Rightarrow> kvalues) \<Rightarrow> (kernel \<Rightarrow> Value \<Rightarrow> Value \<Rightarrow> kvalues) \<Rightarrow> kernel \<Rightarrow> Value list \<Rightarrow> kvalues" where
  "CL_ceiling cfg rest1 rest k args =
     (case args of
        [a] \<Rightarrow> SYS_ceiling_1 rest1 k a
      | [a, b] \<Rightarrow> SYS_ceiling_2 cfg rest k a b
      | _ \<Rightarrow> Some (Inl (Wrong_number_of_arguments (length args))))"

text \<open>The second of the two values of a call.\<close>

definition second_value :: "kvalues \<Rightarrow> kvalue option" where
  "second_value res = map_option (map_sum id (\<lambda>(v1, v2, k). (v2, k))) res"

definition CL_rem :: "tdiv_config \<Rightarrow> (kernel \<Rightarrow> Value \<Rightarrow> Value \<Rightarrow> kvalues) \<Rightarrow> kernel \<Rightarrow> Value \<Rightarrow> Value \<Rightarrow> kvalue option" where
  "CL_rem cfg rest k number divisor =
     (if fixnump number \<and> fixnump divisor then
        (if divisor = Fixnum 0 then Some (Inl (Division_by_zero S_rem number divisor))
         else
           let n = xlong number; d = xlong divisor;
               n_abs = long_abs n; d_abs = long_abs d;
               r = long_mod n_abs d_abs;
               r = (if sint n < 0 then - r else r)
           in Some (Inr (make_fixnum r, k)))
      else second_value (SYS_truncate_2 cfg rest k number divisor))"

definition CL_mod :: "tdiv_config \<Rightarrow> (kernel \<Rightarrow> Value \<Rightarrow> Value \<Rightarrow> kvalues) \<Rightarrow> kernel \<Rightarrow> Value \<Rightarrow> Value \<Rightarrow> kvalue option" where
  "CL_mod cfg rest k number divisor =
     (if fixnump number \<and> fixnump divisor then
        (if divisor = Fixnum 0 then Some (Inl (Division_by_zero S_mod number divisor))
         else
           let n = xlong number; d = xlong divisor;
               n_abs = long_abs n; d_abs = long_abs d;
               r = long_mod n_abs d_abs;
               r = (if \<not> same_sign_p n d \<and> r \<noteq> 0 then r - d_abs else r);
               r = (if sint n < 0 then - r else r)
           in Some (Inr (make_fixnum r, k)))
      else second_value (SYS_floor_2 cfg rest k number divisor))"

subsection \<open>Two results\<close>

definition returns2 :: "kernel \<Rightarrow> kvalues \<Rightarrow> int \<Rightarrow> int \<Rightarrow> bool" where
  "returns2 k res q r \<longleftrightarrow> (\<exists>v1 v2 k'. res = Some (Inr (v1, v2, k')) \<and> int_value k' v1 \<and> int_of k' v1 = q
     \<and> int_value k' v2 \<and> int_of k' v2 = r \<and> extends k k')"

text \<open>The first value is an older integer when the second is made.\<close>

lemma returns2I:
  assumes "yields k (v1, k1) q" "yields k1 (v2, k2) r"
  shows "returns2 k (Some (Inr (v1, v2, k2))) q r"
  using assms extends_value [of k1 k2 v1] extends_trans [of k k1 k2] by (auto simp: returns2_def yields_def)

lemma returns2_trans: "extends k k1 \<Longrightarrow> returns2 k1 res q r \<Longrightarrow> returns2 k res q r"
  using extends_trans unfolding returns2_def by blast

lemma returns2_unfold:
  assumes "returns2 k res q r"
  shows "\<exists>v1 v2 k'. res = Some (Inr (v1, v2, k')) \<and> int_value k' v1 \<and> int_of k' v1 = q \<and> int_value k' v2 \<and> int_of k' v2 = r
    \<and> (fixnump v1 \<longleftrightarrow> fixnum_range (int_of k' v1)) \<and> (fixnump v2 \<longleftrightarrow> fixnum_range (int_of k' v2))
    \<and> (\<forall>u. int_value k u \<longrightarrow> int_value k' u \<and> int_of k' u = int_of k u)"
proof -
  obtain v1 v2 k' where v: "res = Some (Inr (v1, v2, k'))" "int_value k' v1" "int_of k' v1 = q" "int_value k' v2" "int_of k' v2 = r"
    "extends k k'" using assms by (auto simp: returns2_def)
  have "yields k (v1, k') q" "yields k (v2, k') r" using v by (simp_all add: yields_def)
  from yields_unfold [OF this(1)] yields_unfold [OF this(2)] show ?thesis using v by simp
qed

lemma two_integers_returns: "returns2 k (two_integers k q r) (sint q) (sint r)"
  using returns2I [of k "fst (make_integer k q)" "snd (make_integer k q)" "sint q"
      "fst (make_integer (snd (make_integer k q)) r)" "snd (make_integer (snd (make_integer k q)) r)" "sint r"]
    make_integer_yields by (simp add: two_integers_def split_beta Let_def)

lemma second_value_returns:
  assumes "returns2 k res q r"
  shows "\<exists>w. second_value res = Some w \<and> returns k w r"
  using assms by (force simp: returns2_def second_value_def returns_def yields_def)

subsection \<open>Division of words\<close>

lemma long_abs_value: "fixnum_range (sint x) \<Longrightarrow> sint (long_abs x) = \<bar>sint x\<bar>"
  using long_exact(5) [of x] by (auto simp: long_abs_def fixnum_range_iff)

lemma same_sign_iff: "sint d \<noteq> 0 \<Longrightarrow> same_sign_p n d \<longleftrightarrow> sint n \<noteq> 0 \<and> (sint n < 0) = (sint d < 0)"
  using long_eqI [of n d] by (auto simp: same_sign_p_def)

lemma small_long:
  fixes q :: limb
  assumes "sint q = m" "0 \<le> m" "m \<le> 2 ^ 61"
  shows "sint (- q) = - m" "sint (q + 1) = m + 1" "sint (- (q + 1)) = - m - 1"
proof -
  show "sint (- q) = - m" using assms long_exact(5) [of q] by simp
  show a: "sint (q + 1) = m + 1" using assms long_exact(2) [of q 1] by simp
  show "sint (- (q + 1)) = - m - 1" using assms a long_exact(5) [of "q + 1"] by simp
qed

lemma small_long_diff:
  fixes r d :: limb
  assumes "sint r = m" "sint d = e" "0 \<le> m" "m < e" "e \<le> 2 ^ 61"
  shows "sint (r - d) = m - e" "sint (- (r - d)) = e - m"
proof -
  show a: "sint (r - d) = m - e" using assms long_exact(3) [of r d] by simp
  show "sint (- (r - d)) = e - m" using assms a long_exact(5) [of "r - d"] by simp
qed

lemma small_word_of_int: "0 \<le> m \<Longrightarrow> m \<le> 2 ^ 61 \<Longrightarrow> sint (word_of_int m :: limb) = m"
  by (rule long_exact(1)) simp_all

lemma long_divmod:
  assumes "fixnum_range (sint n)" "fixnum_range (sint d)" "sint d \<noteq> 0"
  shows "sint (long_div (long_abs n) (long_abs d)) = \<bar>sint n\<bar> div \<bar>sint d\<bar>"
    and "sint (long_mod (long_abs n) (long_abs d)) = \<bar>sint n\<bar> mod \<bar>sint d\<bar>"
    and "0 \<le> \<bar>sint n\<bar> div \<bar>sint d\<bar>" "\<bar>sint n\<bar> div \<bar>sint d\<bar> \<le> 2 ^ 61"
    and "0 \<le> \<bar>sint n\<bar> mod \<bar>sint d\<bar>" "\<bar>sint n\<bar> mod \<bar>sint d\<bar> < \<bar>sint d\<bar>" "\<bar>sint d\<bar> \<le> 2 ^ 61"
proof -
  let ?N = "\<bar>sint n\<bar>" and ?D = "\<bar>sint d\<bar>"
  have b: "?N \<le> 2 ^ 61" "?D \<le> 2 ^ 61" "0 < ?D" using assms by (auto simp: fixnum_range_iff)
  have "?N div ?D \<le> ?N" using zdiv_mono2 [of ?N 1 ?D] b(3) by simp
  then show q2: "?N div ?D \<le> 2 ^ 61" using b(1) by linarith
  show q1: "0 \<le> ?N div ?D" unfolding pos_imp_zdiv_nonneg_iff [OF b(3)] by simp
  show r: "0 \<le> ?N mod ?D" "?N mod ?D < ?D" "?D \<le> 2 ^ 61" using b by simp_all
  have "?N sdiv ?D = ?N div ?D" "?N smod ?D = ?N mod ?D"
    using b(3) by (auto simp: signed_divide_int_def signed_modulo_int_def sgn_if)
  then show "sint (long_div (long_abs n) (long_abs d)) = ?N div ?D" "sint (long_mod (long_abs n) (long_abs d)) = ?N mod ?D"
    unfolding long_div_def long_mod_def long_abs_value [OF assms(1)] long_abs_value [OF assms(2)]
    using small_word_of_int [OF q1 q2] small_word_of_int [OF r(1) order_trans [OF less_imp_le [OF r(2)] r(3)]]
    by (simp_all only:)
qed

text \<open>The truncated quotient and remainder from those of the magnitudes.\<close>

lemma trunc_words:
  assumes "sint d \<noteq> 0"
  shows "(if \<not> same_sign_p n d then - (\<bar>sint n\<bar> div \<bar>sint d\<bar>) else \<bar>sint n\<bar> div \<bar>sint d\<bar>) = trunc_quot (sint n) (sint d)"
    and "(if sint n < 0 then - (\<bar>sint n\<bar> mod \<bar>sint d\<bar>) else \<bar>sint n\<bar> mod \<bar>sint d\<bar>) = trunc_rem (sint n) (sint d)"
  using assms by (auto simp: same_sign_iff trunc_quot_def trunc_rem_def sgn_if)

lemma trunc_rem_0_words: "trunc_rem (sint n) (sint d) = 0 \<longleftrightarrow> \<bar>sint n\<bar> mod \<bar>sint d\<bar> = 0"
  by (auto simp: trunc_rem_def sgn_if)

lemma truncate_words:
  assumes f: "fixnum_range (sint n)" "fixnum_range (sint d)" "sint d \<noteq> 0"
  defines "q \<equiv> long_div (long_abs n) (long_abs d)" and "r \<equiv> long_mod (long_abs n) (long_abs d)"
  shows "sint (if \<not> same_sign_p n d then - q else q) = trunc_quot (sint n) (sint d)"
    and "sint (if sint n < 0 then - r else r) = trunc_rem (sint n) (sint d)"
proof -
  note dm = long_divmod [OF f, folded q_def r_def]
  have "sint (- q) = - sint q" by (rule small_long(1) [OF refl]; simp only: dm)
  moreover have "sint (- r) = - sint r"
    by (rule small_long(1) [OF refl]; simp only: dm(2,5) order_trans [OF less_imp_le [OF dm(6)] dm(7)])
  ultimately show "sint (if \<not> same_sign_p n d then - q else q) = trunc_quot (sint n) (sint d)"
    "sint (if sint n < 0 then - r else r) = trunc_rem (sint n) (sint d)"
    unfolding trunc_words [OF f(3), of n, symmetric] dm(1,2) [symmetric] by (simp_all only: if_distrib [of sint])
qed

text \<open>The adjusted magnitudes: the quotient one larger, the remainder less the divisor.\<close>

lemma adjusted_words:
  assumes f: "fixnum_range (sint n)" "fixnum_range (sint d)" "sint d \<noteq> 0"
  defines "q \<equiv> long_div (long_abs n) (long_abs d)" and "r \<equiv> long_mod (long_abs n) (long_abs d)"
  shows "sint (q + 1) = \<bar>sint n\<bar> div \<bar>sint d\<bar> + 1" "sint (- (q + 1)) = - (\<bar>sint n\<bar> div \<bar>sint d\<bar>) - 1"
    "sint (r - long_abs d) = \<bar>sint n\<bar> mod \<bar>sint d\<bar> - \<bar>sint d\<bar>" "sint (- (r - long_abs d)) = \<bar>sint d\<bar> - \<bar>sint n\<bar> mod \<bar>sint d\<bar>"
    "r = 0 \<longleftrightarrow> \<bar>sint n\<bar> mod \<bar>sint d\<bar> = 0"
proof -
  note dm = long_divmod [OF f, folded q_def r_def] and d = long_abs_value [OF f(2)]
  show "sint (q + 1) = \<bar>sint n\<bar> div \<bar>sint d\<bar> + 1" "sint (- (q + 1)) = - (\<bar>sint n\<bar> div \<bar>sint d\<bar>) - 1"
    by (rule small_long(2,3) [OF dm(1,3,4)])+
  show "sint (r - long_abs d) = \<bar>sint n\<bar> mod \<bar>sint d\<bar> - \<bar>sint d\<bar>"
    "sint (- (r - long_abs d)) = \<bar>sint d\<bar> - \<bar>sint n\<bar> mod \<bar>sint d\<bar>"
    by (rule small_long_diff [OF dm(2) d dm(5-7)])+
  show "r = 0 \<longleftrightarrow> \<bar>sint n\<bar> mod \<bar>sint d\<bar> = 0" unfolding dm(2) [symmetric] using long_eqI [of r 0] by auto
qed

lemma floor_words:
  assumes f: "fixnum_range (sint n)" "fixnum_range (sint d)" "sint d \<noteq> 0"
  defines "q \<equiv> long_div (long_abs n) (long_abs d)" and "r \<equiv> long_mod (long_abs n) (long_abs d)"
  shows "sint (if same_sign_p n d then q else if r = 0 then - q else - (q + 1)) = sint n div sint d"
    and "sint (if sint n < 0 then - (if \<not> same_sign_p n d \<and> r \<noteq> 0 then r - long_abs d else r)
      else if \<not> same_sign_p n d \<and> r \<noteq> 0 then r - long_abs d else r) = sint n mod sint d"
proof -
  note t = truncate_words [OF f, folded q_def r_def] and a = adjusted_words [OF f, folded q_def r_def]
    and w = trunc_words [OF f(3), of n] and z = trunc_rem_0_words [of n d]
  have s: "(sint n < 0) \<noteq> (sint d < 0) \<and> \<bar>sint n\<bar> mod \<bar>sint d\<bar> \<noteq> 0 \<longleftrightarrow> \<not> same_sign_p n d \<and> \<bar>sint n\<bar> mod \<bar>sint d\<bar> \<noteq> 0"
    unfolding same_sign_iff [OF f(3)] by (cases "sint n = 0") auto
  show "sint (if same_sign_p n d then q else if r = 0 then - q else - (q + 1)) = sint n div sint d"
    unfolding floor_from_trunc(1) [OF f(3)] z s a(5)
    using t(1) w(1) a(2) by (cases "same_sign_p n d"; cases "\<bar>sint n\<bar> mod \<bar>sint d\<bar> = 0") (simp_all only: if_True if_False simp_thms of_bool_eq)
  show "sint (if sint n < 0 then - (if \<not> same_sign_p n d \<and> r \<noteq> 0 then r - long_abs d else r)
      else if \<not> same_sign_p n d \<and> r \<noteq> 0 then r - long_abs d else r) = sint n mod sint d"
    unfolding floor_from_trunc(2) [OF f(3)] z s a(5)
  proof (cases "\<not> same_sign_p n d \<and> \<bar>sint n\<bar> mod \<bar>sint d\<bar> \<noteq> 0")
    case True
    then have "sint n < 0 \<Longrightarrow> \<bar>sint d\<bar> = sint d" "\<not> sint n < 0 \<Longrightarrow> \<bar>sint d\<bar> = - sint d" using s f(3) by linarith+
    then show "sint (if sint n < 0 then - (if \<not> same_sign_p n d \<and> \<bar>sint n\<bar> mod \<bar>sint d\<bar> \<noteq> 0 then r - long_abs d else r)
        else if \<not> same_sign_p n d \<and> \<bar>sint n\<bar> mod \<bar>sint d\<bar> \<noteq> 0 then r - long_abs d else r)
      = trunc_rem (sint n) (sint d) + of_bool (\<not> same_sign_p n d \<and> \<bar>sint n\<bar> mod \<bar>sint d\<bar> \<noteq> 0) * sint d"
      unfolding if_P [OF True] using True w(2) a(3,4) by (cases "sint n < 0") simp_all
  qed (use t(2) in \<open>simp_all only: if_False if_True simp_thms of_bool_eq mult_zero_left add_0_right\<close>)
qed

lemma ceiling_words:
  assumes f: "fixnum_range (sint n)" "fixnum_range (sint d)" "sint d \<noteq> 0"
  defines "q \<equiv> long_div (long_abs n) (long_abs d)" and "r \<equiv> long_mod (long_abs n) (long_abs d)"
  shows "sint (if same_sign_p n d then (if r = 0 then q else q + 1) else - q) = ceil_quot (sint n) (sint d)"
    and "sint (if sint n < 0 then - (if same_sign_p n d \<and> r \<noteq> 0 then r - long_abs d else r)
      else if same_sign_p n d \<and> r \<noteq> 0 then r - long_abs d else r) = ceil_rem (sint n) (sint d)"
proof -
  note t = truncate_words [OF f, folded q_def r_def] and a = adjusted_words [OF f, folded q_def r_def]
    and w = trunc_words [OF f(3), of n] and z = trunc_rem_0_words [of n d]
  have s: "(sint n < 0) = (sint d < 0) \<and> \<bar>sint n\<bar> mod \<bar>sint d\<bar> \<noteq> 0 \<longleftrightarrow> same_sign_p n d \<and> \<bar>sint n\<bar> mod \<bar>sint d\<bar> \<noteq> 0"
    unfolding same_sign_iff [OF f(3)] by (cases "sint n = 0") auto
  show "sint (if same_sign_p n d then (if r = 0 then q else q + 1) else - q) = ceil_quot (sint n) (sint d)"
    unfolding ceil_from_trunc(1) [OF f(3)] z s a(5)
    using t(1) w(1) a(1) by (cases "same_sign_p n d"; cases "\<bar>sint n\<bar> mod \<bar>sint d\<bar> = 0") (simp_all only: if_True if_False simp_thms of_bool_eq)
  show "sint (if sint n < 0 then - (if same_sign_p n d \<and> r \<noteq> 0 then r - long_abs d else r)
      else if same_sign_p n d \<and> r \<noteq> 0 then r - long_abs d else r) = ceil_rem (sint n) (sint d)"
    unfolding ceil_from_trunc(2) [OF f(3)] z s a(5)
  proof (cases "same_sign_p n d \<and> \<bar>sint n\<bar> mod \<bar>sint d\<bar> \<noteq> 0")
    case True
    then have "sint n < 0 \<Longrightarrow> \<bar>sint d\<bar> = - sint d" "\<not> sint n < 0 \<Longrightarrow> \<bar>sint d\<bar> = sint d" using s f(3) by linarith+
    then show "sint (if sint n < 0 then - (if same_sign_p n d \<and> \<bar>sint n\<bar> mod \<bar>sint d\<bar> \<noteq> 0 then r - long_abs d else r)
        else if same_sign_p n d \<and> \<bar>sint n\<bar> mod \<bar>sint d\<bar> \<noteq> 0 then r - long_abs d else r)
      = trunc_rem (sint n) (sint d) - of_bool (same_sign_p n d \<and> \<bar>sint n\<bar> mod \<bar>sint d\<bar> \<noteq> 0) * sint d"
      unfolding if_P [OF True] using True w(2) a(3,4) by (cases "sint n < 0") simp_all
  qed (use t(2) in \<open>simp_all only: if_False if_True simp_thms of_bool_eq mult_zero_left diff_zero\<close>)
qed

subsection \<open>Division of bignums\<close>

text \<open>Both destinations are fresh, so the operands and all other integers stay as they are.\<close>

lemma normalize_two:
  assumes w: "writes2 (heap k) h x q y r" and x: "avail k \<le> x" "x < y"
  shows "returns2 k (let (value1, k) = normalize_mpz (k\<lparr>avail := Suc y, heap := h\<rparr>) x; (value2, k) = normalize_mpz k y
    in Some (Inr (value1, value2, k))) q r"
proof -
  let ?k = "k\<lparr>avail := Suc y, heap := h\<rparr>"
  obtain v1 k1 where n1: "normalize_mpz ?k x = (v1, k1)" by fastforce
  obtain v2 k2 where n2: "normalize_mpz k1 y = (v2, k2)" by fastforce
  have o: "mpz_ok h x" "mpz_val h x = q" "mpz_ok h y" "mpz_val h y = r" using w by (simp_all add: writes2_def)
  have e: "extends k ?k" using w x by (auto simp: extends_def writes2_def)
  have y1: "yields ?k (v1, k1) q" using normalize_yields [of ?k x] o x n1 by simp
  then have "vars (heap k1) y = vars h y" "y < avail k1" by (auto simp: yields_def extends_def)
  then have "yields k1 (v2, k2) r"
    using normalize_yields [of k1 y] n2 o mpz_ok_cong [of "heap k1" y h] mpz_val_cong [of "heap k1" y h] by simp
  from returns2I [OF y1 this] returns2_trans [OF e] show ?thesis unfolding n1 Let_def prod.case n2 by blast
qed

context mpz_division begin

lemma values_return:
  assumes num: "num < avail k" "mpz_ok (heap k) num" and den: "den < avail k" "mpz_ok (heap k) den" "mpz_val (heap k) den \<noteq> 0"
    and scope: "tdiv_scope cfg (ABSIZ (heap k) den)"
  shows "returns2 k (mpz_values (qr_op cfg) k num den) (q (mpz_val (heap k) num) (mpz_val (heap k) den))
    (r (mpz_val (heap k) num) (mpz_val (heap k) den))"
proof -
  let ?x = "avail k" and ?y = "Suc (avail k)"
  define h where "h = mpz_init (mpz_init (heap k) ?x) ?y"
  have i: "writes2 (heap k) h ?x 0 ?y 0"
    unfolding h_def by (rule writes2I [OF mpz_init_writes mpz_init_writes]) simp
  have keep: "vars h num = vars (heap k) num" "vars h den = vars (heap k) den" using i num den by (simp_all add: writes2_def)
  have o: "mpz_ok h num" "mpz_val h num = mpz_val (heap k) num" "mpz_ok h den" "mpz_val h den = mpz_val (heap k) den"
    "ABSIZ h den = ABSIZ (heap k) den"
    using num(2) den(2) mpz_ok_cong [OF keep(1)] mpz_val_cong [OF keep(1)] mpz_ok_cong [OF keep(2)] mpz_val_cong [OF keep(2)]
    by (simp_all add: ABSIZ_def keep)
  obtain h' where h': "qr_op cfg h ?x ?y num den = Some (Inr h')"
    "writes2 h h' ?x (q (mpz_val (heap k) num) (mpz_val (heap k) den)) ?y (r (mpz_val (heap k) num) (mpz_val (heap k) den))"
    using qr_law [of cfg h den ?x ?y num] scope i o den(3) by (auto simp: writes2_def)
  then have "writes2 (heap k) h' ?x (q (mpz_val (heap k) num) (mpz_val (heap k) den)) ?y (r (mpz_val (heap k) num) (mpz_val (heap k) den))"
    using i by (simp add: writes2_def)
  from normalize_two [OF this] show ?thesis
    using h'(1) by (simp add: mpz_values_def new_var_def h_def [symmetric])
qed

lemma values_long_return:
  assumes num: "num < avail k" "mpz_ok (heap k) num" and d: "sint d \<noteq> 0" and scope: "tdiv_scope cfg 1"
  shows "returns2 k (mpz_values_long (qr_op cfg) k num d) (q (mpz_val (heap k) num) (sint d)) (r (mpz_val (heap k) num) (sint d))"
proof -
  let ?x = "avail k"
  define h where "h = mpz_init_set_si (heap k) ?x d"
  let ?k = "k\<lparr>avail := Suc ?x, heap := h\<rparr>"
  have w: "writes (heap k) h ?x (sint d)" unfolding h_def by (rule mpz_init_set_si_writes)
  have e: "extends k ?k" using extends_writes [OF le_refl w] .
  have n: "vars h num = vars (heap k) num" using writes_other [OF w] num by simp
  have "\<bar>sint d\<bar> < B ^ 1" using sint_lt [of d] sint_ge [of d] by (simp add: B_def)
  then have "ABSIZ h ?x \<le> 1" using size_le_iff [OF writes_ok [OF w], of 1] writes_val [OF w] by simp
  then have s: "tdiv_scope cfg (ABSIZ h ?x)" using scope tdiv_scope_mono by blast
  have "returns2 ?k (mpz_values (qr_op cfg) ?k num ?x) (q (mpz_val h num) (mpz_val h ?x)) (r (mpz_val h num) (mpz_val h ?x))"
    using values_return [of num ?k ?x cfg] num n w d s mpz_ok_cong [of h num "heap k"] by (simp add: writes_ok writes_val)
  from returns2_trans [OF e this] show ?thesis
    using n w mpz_val_cong [of h num "heap k"] by (simp add: mpz_values_long_def new_var_def h_def [symmetric] writes_val)
qed

end

subsection \<open>The Lisp functions\<close>

text \<open>
  The contract of a division: on the operands it handles itself (\<open>direct\<close>) it returns quotient and
  remainder, it signals a zero divisor, and it checks the types of its operands from left to right.
\<close>

definition not_a_real :: "Value \<Rightarrow> bool" where
  "not_a_real v \<longleftrightarrow> (case v of Other c i \<Rightarrow> c \<in> {COMPLEX, NOT_NUMBER} | _ \<Rightarrow> False)"

locale rounding_op =
  fixes op :: "kernel \<Rightarrow> Value \<Rightarrow> Value \<Rightarrow> kvalues" and direct :: "kernel \<Rightarrow> Value \<Rightarrow> Value \<Rightarrow> bool"
    and name :: operation and q r :: "int \<Rightarrow> int \<Rightarrow> int"
  assumes op_returns2: "\<lbrakk>int_value k a; int_value k b; int_of k b \<noteq> 0; direct k a b\<rbrakk> \<Longrightarrow>
      returns2 k (op k a b) (q (int_of k a) (int_of k b)) (r (int_of k a) (int_of k b))"
    and op_by_zero: "int_value k a \<Longrightarrow> op k a (Fixnum 0) = Some (Inl (Division_by_zero name a (Fixnum 0)))"
    and op_number: "not_a_real a \<Longrightarrow> op k a b = Some (Inl (Type_error a S_real))"
    and op_divisor: "int_value k a \<Longrightarrow> not_a_real b \<Longrightarrow> op k a b = Some (Inl (Type_error b S_real))"
    and op_identity: "e \<noteq> 0 \<Longrightarrow> q n e * e + r n e = n" and op_remainder: "e \<noteq> 0 \<Longrightarrow> \<bar>r n e\<bar> < \<bar>e\<bar>"
begin

text \<open>The two values reconstruct the number, whichever of them are bignums.\<close>

lemma values_reconstruct:
  assumes "int_value k a" "int_value k b" "int_of k b \<noteq> 0" "direct k a b"
  shows "\<exists>v1 v2 k'. op k a b = Some (Inr (v1, v2, k')) \<and> int_value k' v1 \<and> int_value k' v2 \<and>
    int_of k' v1 * int_of k' b + int_of k' v2 = int_of k' a \<and> \<bar>int_of k' v2\<bar> < \<bar>int_of k' b\<bar>"
proof -
  obtain v1 v2 k' where v: "op k a b = Some (Inr (v1, v2, k'))" "int_value k' v1" "int_of k' v1 = q (int_of k a) (int_of k b)"
    "int_value k' v2" "int_of k' v2 = r (int_of k a) (int_of k b)" "extends k k'"
    using op_returns2 [OF assms] by (auto simp: returns2_def)
  have "int_of k' a = int_of k a" "int_of k' b = int_of k b" using extends_value(2) [OF v(6)] assms by blast+
  then show ?thesis using v op_identity [OF assms(3)] op_remainder [OF assms(3)] by auto
qed

end

lemma fixnum_zero_iff: "int_value k (Fixnum w) \<Longrightarrow> Fixnum w = Fixnum 0 \<longleftrightarrow> sint (xlong (Fixnum w)) = 0"
proof -
  assume "int_value k (Fixnum w)"
  then have "sint w = 4 * sint (xlong (Fixnum w))" using xlong_tag by (simp add: int_value.simps)
  then show ?thesis using long_eqI [of w 0] by auto
qed

lemma fixnump_not_bignump: "fixnump v \<Longrightarrow> \<not> bignump v"
  by (cases v) simp_all

lemma bignum_facts:
  assumes "int_value k (Bignum_ref z)"
  shows "z < avail k" "mpz_ok (heap k) z" "int_of k (Bignum_ref z) = mpz_val (heap k) z"
  using assms by (simp_all add: int_value.simps int_of.simps)

text \<open>Both kinds of operands at once, from the result on words and the result on integer variables.\<close>

lemma direct_division:
  assumes a: "int_value k a" and b: "int_value k b" "int_of k b \<noteq> 0"
    and fixnums: "\<And>v w. \<lbrakk>a = Fixnum v; b = Fixnum w; fixnum_range (sint (xlong a)); fixnum_range (sint (xlong b)); sint (xlong b) \<noteq> 0;
      b \<noteq> Fixnum 0\<rbrakk> \<Longrightarrow> returns2 k res (q (sint (xlong a)) (sint (xlong b))) (r (sint (xlong a)) (sint (xlong b)))"
    and long: "\<And>z w. \<lbrakk>a = Bignum_ref z; b = Fixnum w; z < avail k; mpz_ok (heap k) z; sint (xlong b) \<noteq> 0; b \<noteq> Fixnum 0\<rbrakk> \<Longrightarrow>
      returns2 k res (q (mpz_val (heap k) z) (sint (xlong b))) (r (mpz_val (heap k) z) (sint (xlong b)))"
    and bignums: "\<And>y z. \<lbrakk>a = Bignum_ref y; b = Bignum_ref z; y < avail k; mpz_ok (heap k) y; z < avail k; mpz_ok (heap k) z;
      mpz_val (heap k) z \<noteq> 0\<rbrakk> \<Longrightarrow> returns2 k res (q (mpz_val (heap k) y) (mpz_val (heap k) z)) (r (mpz_val (heap k) y) (mpz_val (heap k) z))"
    and mixed: "\<not> (fixnump a \<and> bignump b)"
  shows "returns2 k res (q (int_of k a) (int_of k b)) (r (int_of k a) (int_of k b))"
  using b(1)
proof (cases rule: int_cases)
  case bw: (fixnum w)
  have nz: "sint (xlong b) \<noteq> 0" "b \<noteq> Fixnum 0" using b(2) bw fixnum_zero_iff [of k w] by simp_all
  from a show ?thesis
  proof (cases rule: int_cases)
    case (fixnum v)
    then show ?thesis using fixnums [of v w] bw nz by simp
  next
    case (bignum z)
    then show ?thesis using long [of z w] bw nz bignum_facts [OF bignum(2)] by simp
  qed
next
  case bz: (bignum z)
  from a show ?thesis
  proof (cases rule: int_cases)
    case (fixnum v)
    then show ?thesis using mixed bz by (simp add: int_value.simps)
  next
    case (bignum y)
    then show ?thesis using bignums [of y z] bz b(2) bignum_facts [OF bignum(2)] bignum_facts [OF bz(2)] by simp
  qed
qed

lemma SYS_truncate_2_returns:
  assumes "int_value k a" "int_value k b" "int_of k b \<noteq> 0" "fixnump b" "tdiv_scope cfg 1"
  shows "returns2 k (SYS_truncate_2 cfg rest k a b) (trunc_quot (int_of k a) (int_of k b)) (trunc_rem (int_of k a) (int_of k b))"
  using assms(1-3)
proof (rule direct_division)
  fix v w
  assume f: "a = Fixnum v" "b = Fixnum w" "fixnum_range (sint (xlong a))" "fixnum_range (sint (xlong b))" "sint (xlong b) \<noteq> 0" "b \<noteq> Fixnum 0"
  show "returns2 k (SYS_truncate_2 cfg rest k a b) (trunc_quot (sint (xlong a)) (sint (xlong b))) (trunc_rem (sint (xlong a)) (sint (xlong b)))"
    unfolding truncate_words [OF f(3-5), symmetric]
    using f(1,2,6) two_integers_returns by (simp add: SYS_truncate_2_def Let_def)
qed (use assms(4,5) tdiv_int.values_long_return fixnump_not_bignump in \<open>auto simp: SYS_truncate_2_def\<close>)

lemma SYS_floor_2_returns:
  assumes "int_value k a" "int_value k b" "int_of k b \<noteq> 0" "fixnump b \<or> bignump a" "tdiv_scope cfg (limbs k b)"
  shows "returns2 k (SYS_floor_2 cfg rest k a b) (int_of k a div int_of k b) (int_of k a mod int_of k b)"
  using assms(1-3)
proof (rule direct_division)
  fix v w
  assume f: "a = Fixnum v" "b = Fixnum w" "fixnum_range (sint (xlong a))" "fixnum_range (sint (xlong b))" "sint (xlong b) \<noteq> 0" "b \<noteq> Fixnum 0"
  let ?n = "xlong a" and ?d = "xlong b"
  let ?q = "long_div (long_abs ?n) (long_abs ?d)" and ?r = "long_mod (long_abs ?n) (long_abs ?d)"
  have "SYS_floor_2 cfg rest k a b = two_integers k
      (if same_sign_p ?n ?d then ?q else if ?r = 0 then - ?q else - (?q + 1))
      (if sint ?n < 0 then - (if \<not> same_sign_p ?n ?d \<and> ?r \<noteq> 0 then ?r - long_abs ?d else ?r)
       else if \<not> same_sign_p ?n ?d \<and> ?r \<noteq> 0 then ?r - long_abs ?d else ?r)"
    using f(1,2,6) by (simp add: SYS_floor_2_def Let_def)
  then show "returns2 k (SYS_floor_2 cfg rest k a b) (sint ?n div sint ?d) (sint ?n mod sint ?d)"
    unfolding floor_words [OF f(3-5), symmetric] using two_integers_returns by simp
qed (use assms(4,5) fdiv_int.values_long_return fdiv_int.values_return fixnump_not_bignump in \<open>auto simp: SYS_floor_2_def\<close>)

lemma SYS_ceiling_2_returns:
  assumes "int_value k a" "int_value k b" "int_of k b \<noteq> 0" "fixnump b \<or> bignump a" "tdiv_scope cfg (limbs k b)"
  shows "returns2 k (SYS_ceiling_2 cfg rest k a b) (ceil_quot (int_of k a) (int_of k b)) (ceil_rem (int_of k a) (int_of k b))"
  using assms(1-3)
proof (rule direct_division)
  fix v w
  assume f: "a = Fixnum v" "b = Fixnum w" "fixnum_range (sint (xlong a))" "fixnum_range (sint (xlong b))" "sint (xlong b) \<noteq> 0" "b \<noteq> Fixnum 0"
  let ?n = "xlong a" and ?d = "xlong b"
  let ?q = "long_div (long_abs ?n) (long_abs ?d)" and ?r = "long_mod (long_abs ?n) (long_abs ?d)"
  have "SYS_ceiling_2 cfg rest k a b = two_integers k
      (if same_sign_p ?n ?d then (if ?r = 0 then ?q else ?q + 1) else - ?q)
      (if sint ?n < 0 then - (if same_sign_p ?n ?d \<and> ?r \<noteq> 0 then ?r - long_abs ?d else ?r)
       else if same_sign_p ?n ?d \<and> ?r \<noteq> 0 then ?r - long_abs ?d else ?r)"
    using f(1,2,6) by (simp add: SYS_ceiling_2_def Let_def)
  then show "returns2 k (SYS_ceiling_2 cfg rest k a b) (ceil_quot (sint ?n) (sint ?d)) (ceil_rem (sint ?n) (sint ?d))"
    unfolding ceiling_words [OF f(3-5), symmetric] using two_integers_returns by simp
qed (use assms(4,5) cdiv_int.values_long_return cdiv_int.values_return fixnump_not_bignump in \<open>auto simp: SYS_ceiling_2_def\<close>)

text \<open>Errors: a zero divisor, and operands that are not real numbers.\<close>

lemma division_by_zero:
  assumes "int_value k a"
  shows "SYS_truncate_2 cfg rest k a (Fixnum 0) = Some (Inl (Division_by_zero S_truncate_2 a (Fixnum 0)))"
    "SYS_floor_2 cfg rest k a (Fixnum 0) = Some (Inl (Division_by_zero S_floor_2 a (Fixnum 0)))"
    "SYS_ceiling_2 cfg rest k a (Fixnum 0) = Some (Inl (Division_by_zero S_ceiling_2 a (Fixnum 0)))"
  using assms by (cases a; simp add: SYS_truncate_2_def SYS_floor_2_def SYS_ceiling_2_def)+

lemma division_rejects:
  assumes "not_a_real v"
  shows "SYS_truncate_2 cfg rest k v b = Some (Inl (Type_error v S_real))"
    "SYS_floor_2 cfg rest k v b = Some (Inl (Type_error v S_real))" "SYS_ceiling_2 cfg rest k v b = Some (Inl (Type_error v S_real))"
    and "int_value k a \<Longrightarrow> SYS_truncate_2 cfg rest k a v = Some (Inl (Type_error v S_real))"
    "int_value k a \<Longrightarrow> SYS_floor_2 cfg rest k a v = Some (Inl (Type_error v S_real))"
    "int_value k a \<Longrightarrow> SYS_ceiling_2 cfg rest k a v = Some (Inl (Type_error v S_real))"
proof -
  obtain c i where v: "v = Other c i" "\<not> realp v" using assms by (cases v) (auto simp: not_a_real_def)
  have a: "realp a" if "int_value k a" using that int_value_integerp [OF that] by (cases a) simp_all
  have r: "real_operands rest k v b = Some (Inl (Type_error v S_real))" for b using v by (simp add: real_operands_def)
  have l: "real_operands rest k a v = Some (Inl (Type_error v S_real))" if "int_value k a" using v a [OF that] by (simp add: real_operands_def)
  show "SYS_truncate_2 cfg rest k v b = Some (Inl (Type_error v S_real))"
    "SYS_floor_2 cfg rest k v b = Some (Inl (Type_error v S_real))" "SYS_ceiling_2 cfg rest k v b = Some (Inl (Type_error v S_real))"
    using r [of b] v(1) by (simp_all add: SYS_truncate_2_def SYS_floor_2_def SYS_ceiling_2_def)
  show "SYS_truncate_2 cfg rest k a v = Some (Inl (Type_error v S_real))" "SYS_floor_2 cfg rest k a v = Some (Inl (Type_error v S_real))"
    "SYS_ceiling_2 cfg rest k a v = Some (Inl (Type_error v S_real))" if "int_value k a"
    using l [OF that] v(1) that by (cases a; simp add: SYS_truncate_2_def SYS_floor_2_def SYS_ceiling_2_def)+
qed

interpretation truncate: rounding_op "SYS_truncate_2 cfg rest" "\<lambda>k a b. fixnump b \<and> tdiv_scope cfg 1" S_truncate_2 trunc_quot trunc_rem
  for cfg rest
  using SYS_truncate_2_returns division_by_zero division_rejects tdiv_int.division tdiv_int.remainder by unfold_locales auto

interpretation floor: rounding_op "SYS_floor_2 cfg rest" "\<lambda>k a b. (fixnump b \<or> bignump a) \<and> tdiv_scope cfg (limbs k b)"
    S_floor_2 "(div)" "(mod)" for cfg rest
  using SYS_floor_2_returns division_by_zero division_rejects fdiv_int.division fdiv_int.remainder by unfold_locales auto

interpretation ceiling: rounding_op "SYS_ceiling_2 cfg rest" "\<lambda>k a b. (fixnump b \<or> bignump a) \<and> tdiv_scope cfg (limbs k b)"
    S_ceiling_2 ceil_quot ceil_rem for cfg rest
  using SYS_ceiling_2_returns division_by_zero division_rejects cdiv_int.division cdiv_int.remainder by unfold_locales auto

text \<open>The remainders alone, with a shortcut for two fixnums.\<close>

lemma fixnum_remainder: "fixnum_range e \<Longrightarrow> \<bar>m\<bar> < \<bar>e\<bar> \<Longrightarrow> fixnum_range m"
  by (auto simp: fixnum_range_iff)

lemma CL_rem_returns:
  assumes "int_value k a" "int_value k b" "int_of k b \<noteq> 0" "fixnump b" "tdiv_scope cfg 1"
  shows "\<exists>w. CL_rem cfg rest k a b = Some w \<and> returns k w (trunc_rem (int_of k a) (int_of k b))"
proof (cases "fixnump a")
  case True
  then obtain v w where f: "a = Fixnum v" "b = Fixnum w" using assms(4) by (cases a; cases b) auto
  let ?n = "xlong a" and ?d = "xlong b" and ?r = "long_mod (long_abs (xlong a)) (long_abs (xlong b))"
  have r: "fixnum_range (sint ?n)" "fixnum_range (sint ?d)" "sint ?d \<noteq> 0" "b \<noteq> Fixnum 0"
    using fixnump_range True assms(3,4) fixnum_zero_iff [of k w] assms(2) f by auto
  have s: "sint (if sint ?n < 0 then - ?r else ?r) = trunc_rem (sint ?n) (sint ?d)" by (rule truncate_words(2) [OF r(1-3)])
  have "yields k (make_fixnum (if sint ?n < 0 then - ?r else ?r), k) (trunc_rem (sint ?n) (sint ?d))"
    unfolding s [symmetric]
    by (rule yields_fixnum [OF _ refl]) (unfold s, rule fixnum_remainder [OF r(2) trunc_division(2) [OF r(3)]])
  then show ?thesis using True assms(4) r(4) f by (auto simp: CL_rem_def Let_def intro!: returnsI)
next
  case False
  then show ?thesis using second_value_returns [OF truncate.op_returns2 [OF assms(1-3), of cfg rest]] assms(4,5) by (simp add: CL_rem_def)
qed

lemma CL_mod_returns:
  assumes "int_value k a" "int_value k b" "int_of k b \<noteq> 0" "fixnump b \<or> bignump a" "tdiv_scope cfg (limbs k b)"
  shows "\<exists>w. CL_mod cfg rest k a b = Some w \<and> returns k w (int_of k a mod int_of k b)"
proof (cases "fixnump a \<and> fixnump b")
  case True
  then obtain v w where f: "a = Fixnum v" "b = Fixnum w" by (cases a; cases b) auto
  let ?n = "xlong a" and ?d = "xlong b" and ?r = "long_mod (long_abs (xlong a)) (long_abs (xlong b))"
  let ?m = "if sint ?n < 0 then - (if \<not> same_sign_p ?n ?d \<and> ?r \<noteq> 0 then ?r - long_abs ?d else ?r)
    else if \<not> same_sign_p ?n ?d \<and> ?r \<noteq> 0 then ?r - long_abs ?d else ?r"
  have r: "fixnum_range (sint ?n)" "fixnum_range (sint ?d)" "sint ?d \<noteq> 0" "b \<noteq> Fixnum 0"
    using fixnump_range True assms(3,4) fixnum_zero_iff [of k w] assms(2) f by auto
  have s: "sint ?m = sint ?n mod sint ?d" by (rule floor_words(2) [OF r(1-3)])
  have y: "yields k (make_fixnum ?m, k) (sint ?n mod sint ?d)"
    unfolding s [symmetric]
    by (rule yields_fixnum [OF _ refl]) (unfold s, rule fixnum_remainder [OF r(2) fdiv_int.remainder [OF r(3)]])
  have "int_of k a = sint ?n" "int_of k b = sint ?d" using f by simp_all
  moreover have "CL_mod cfg rest k a b = Some (Inr (make_fixnum ?m, k))" using True r(4) by (simp add: CL_mod_def Let_def)
  ultimately show ?thesis using returnsI [OF y] by (simp only: option.inject ex_simps simp_thms)
next
  case False
  then have "CL_mod cfg rest k a b = second_value (SYS_floor_2 cfg rest k a b)" unfolding CL_mod_def by (rule if_not_P)
  then show ?thesis using second_value_returns [OF floor.op_returns2 [OF assms(1-3), of cfg rest]] assms(4,5) by simp
qed

lemma rem_mod_by_zero:
  assumes "int_value k a"
  shows "\<exists>op. CL_rem cfg rest k a (Fixnum 0) = Some (Inl (Division_by_zero op a (Fixnum 0)))"
    "\<exists>op. CL_mod cfg rest k a (Fixnum 0) = Some (Inl (Division_by_zero op a (Fixnum 0)))"
  using division_by_zero [OF assms] by (auto simp: CL_rem_def CL_mod_def second_value_def)

end
