(* ===== verification/Hash_Table.thy ===== *)
theory Hash_Table
  imports Limb_Prelude "HOL-Library.Monad_Syntax"
begin

unbundle bit_operations_syntax

text \<open>
  The chained hash tables of the kernel (\<^verbatim>\<open>kernel/HashTable.hpp\<close>, \<^verbatim>\<open>HashTable.cpp\<close>, \<^verbatim>\<open>EqlHashTable.cpp\<close>,
  \<^verbatim>\<open>EqualHashTable.cpp\<close>, \<^verbatim>\<open>EqualpHashTable.cpp\<close>). The three classes differ in the test of keys and the
  hash function only, which are arguments of the operations. A bucket is the list of its entries in
  the order of their links; \<^verbatim>\<open>NULL_VALUE\<close> is \<open>None\<close>. Indices are natural numbers, except in the loop that
  computes the initial capacity, where the code says that overflow is not checked.
\<close>

record ('k, 'v) hash_table =
  ht_capacity :: nat
  ht_count :: nat
  ht_threshold :: nat
  ht_buckets :: "('k \<times> 'v) list list"
  ht_mask :: nat

subsection \<open>Creation\<close>

partial_function (option) capacity_loop :: "limb \<Rightarrow> limb \<Rightarrow> limb option" where
  "capacity_loop req capacity =
     (if capacity < req then capacity_loop req (push_bit 1 capacity) else Some capacity)"

definition calculate_initial_capacity :: "limb \<Rightarrow> limb option" where
  "calculate_initial_capacity req = capacity_loop req 1"

text \<open>The product with the load factor 0.75 is exact in single precision, since capacities are powers of two.\<close>

definition load_threshold :: "nat \<Rightarrow> nat" where
  "load_threshold capacity = capacity * 3 div 4"

definition ht_init :: "limb \<Rightarrow> ('k, 'v) hash_table option" where
  "ht_init req = do {
     c \<leftarrow> calculate_initial_capacity req;
     let capacity = unat c;
     Some \<lparr>ht_capacity = capacity, ht_count = 0, ht_threshold = load_threshold capacity,
           ht_buckets = replicate capacity [], ht_mask = capacity - 1\<rparr>
   }"

subsection \<open>Buckets\<close>

fun bucket_get :: "('k \<Rightarrow> 'k \<Rightarrow> bool) \<Rightarrow> 'k \<Rightarrow> ('k \<times> 'v) list \<Rightarrow> 'v option" where
  "bucket_get test key [] = None"
| "bucket_get test key ((k, v) # es) = (if test key k then Some v else bucket_get test key es)"

fun bucket_set :: "('k \<Rightarrow> 'k \<Rightarrow> bool) \<Rightarrow> 'k \<Rightarrow> 'v \<Rightarrow> ('k \<times> 'v) list \<Rightarrow> ('k \<times> 'v) list option" where
  "bucket_set test key val [] = None"
| "bucket_set test key val ((k, v) # es) =
     (if test key k then Some ((k, val) # es) else map_option ((#) (k, v)) (bucket_set test key val es))"

fun bucket_remove :: "('k \<Rightarrow> 'k \<Rightarrow> bool) \<Rightarrow> 'k \<Rightarrow> ('k \<times> 'v) list \<Rightarrow> ('v \<times> ('k \<times> 'v) list) option" where
  "bucket_remove test key [] = None"
| "bucket_remove test key ((k, v) # es) =
     (if test key k then Some (v, es) else map_option (\<lambda>(w, es). (w, (k, v) # es)) (bucket_remove test key es))"

subsection \<open>Operations\<close>

definition bucket_index :: "('k \<Rightarrow> limb) \<Rightarrow> nat \<Rightarrow> 'k \<Rightarrow> nat" where
  "bucket_index h msk key = unat (h key) AND msk"

definition ht_get :: "('k \<Rightarrow> 'k \<Rightarrow> bool) \<Rightarrow> ('k \<Rightarrow> limb) \<Rightarrow> ('k, 'v, 'z) hash_table_scheme \<Rightarrow> 'k \<Rightarrow> 'v option" where
  "ht_get test h t key = bucket_get test key (ht_buckets t ! bucket_index h (ht_mask t) key)"

text \<open>Entries move to the end of their new bucket, from the last old bucket to the first.\<close>

definition rehash_entry :: "('k \<Rightarrow> limb) \<Rightarrow> nat \<Rightarrow> 'k \<times> 'v \<Rightarrow> ('k \<times> 'v) list list \<Rightarrow> ('k \<times> 'v) list list" where
  "rehash_entry h msk e bs = (let index = bucket_index h msk (fst e) in bs[index := bs ! index @ [e]])"

definition rehash1 :: "('k \<Rightarrow> limb) \<Rightarrow> ('k, 'v, 'z) hash_table_scheme \<Rightarrow> ('k, 'v, 'z) hash_table_scheme" where
  "rehash1 h t =
     (let new_capacity = ht_capacity t * 2; msk = new_capacity - 1
      in t\<lparr>ht_threshold := load_threshold new_capacity,
           ht_mask := msk,
           ht_buckets := fold (fold (rehash_entry h msk)) (rev (ht_buckets t)) (replicate new_capacity []),
           ht_capacity := new_capacity\<rparr>)"

definition ht_insert :: "('k \<Rightarrow> limb) \<Rightarrow> ('k, 'v, 'z) hash_table_scheme \<Rightarrow> 'k \<Rightarrow> 'v \<Rightarrow> ('k, 'v, 'z) hash_table_scheme" where
  "ht_insert h t key val =
     (let index = bucket_index h (ht_mask t) key
      in t\<lparr>ht_buckets := (ht_buckets t)[index := (key, val) # ht_buckets t ! index]\<rparr>)"

definition ht_put :: "('k \<Rightarrow> 'k \<Rightarrow> bool) \<Rightarrow> ('k \<Rightarrow> limb) \<Rightarrow> ('k, 'v, 'z) hash_table_scheme \<Rightarrow> 'k \<Rightarrow> 'v \<Rightarrow> ('k, 'v, 'z) hash_table_scheme" where
  "ht_put test h t key val =
     (let index = bucket_index h (ht_mask t) key
      in case bucket_set test key val (ht_buckets t ! index) of
           Some es \<Rightarrow> t\<lparr>ht_buckets := (ht_buckets t)[index := es]\<rparr>
         | None \<Rightarrow>
             let t = t\<lparr>ht_count := ht_count t + 1\<rparr>;
                 t = (if ht_count t > ht_threshold t then rehash1 h t else t)
             in ht_insert h t key val)"

definition ht_remove :: "('k \<Rightarrow> 'k \<Rightarrow> bool) \<Rightarrow> ('k \<Rightarrow> limb) \<Rightarrow> ('k, 'v, 'z) hash_table_scheme \<Rightarrow> 'k \<Rightarrow> 'v option \<times> ('k, 'v, 'z) hash_table_scheme" where
  "ht_remove test h t key =
     (let index = bucket_index h (ht_mask t) key
      in case bucket_remove test key (ht_buckets t ! index) of
           Some (v, es) \<Rightarrow> (Some v, t\<lparr>ht_buckets := (ht_buckets t)[index := es], ht_count := ht_count t - 1\<rparr>)
         | None \<Rightarrow> (None, t))"

definition ht_clear :: "('k, 'v, 'z) hash_table_scheme \<Rightarrow> ('k, 'v, 'z) hash_table_scheme" where
  "ht_clear t = t\<lparr>ht_buckets := replicate (ht_capacity t) [], ht_count := 0\<rparr>"

definition ht_entries :: "('k, 'v, 'z) hash_table_scheme \<Rightarrow> ('k \<times> 'v) list" where
  "ht_entries t = fold (fold (#)) (rev (ht_buckets t)) []"

definition ht_maphash :: "('k \<Rightarrow> 'v \<Rightarrow> 's \<Rightarrow> 's) \<Rightarrow> ('k, 'v, 'z) hash_table_scheme \<Rightarrow> 's \<Rightarrow> 's" where
  "ht_maphash f t s = fold (fold (\<lambda>(k, v). f k v)) (rev (ht_buckets t)) s"

text \<open>The Lisp functions, on a table that has passed the type check.\<close>

definition SYS_gethash3 :: "('k \<Rightarrow> 'k \<Rightarrow> bool) \<Rightarrow> ('k \<Rightarrow> limb) \<Rightarrow> 'k \<Rightarrow> ('k, 'v, 'z) hash_table_scheme \<Rightarrow> 'v \<Rightarrow> 'v \<times> bool" where
  "SYS_gethash3 test h key t dflt =
     (case ht_get test h t key of None \<Rightarrow> (dflt, False) | Some v \<Rightarrow> (v, True))"

definition CL_remhash :: "('k \<Rightarrow> 'k \<Rightarrow> bool) \<Rightarrow> ('k \<Rightarrow> limb) \<Rightarrow> 'k \<Rightarrow> ('k, 'v, 'z) hash_table_scheme \<Rightarrow> bool \<times> ('k, 'v, 'z) hash_table_scheme" where
  "CL_remhash test h key t = (let (v, t) = ht_remove test h t key in (v \<noteq> None, t))"

text \<open>Equations to evaluate by; an index is computed from the masked word, which is small.\<close>

declare capacity_loop.simps [code]

lemma bucket_index_code [code]: "bucket_index h msk key = unat (h key AND of_nat msk)"
  by (rule bit_eqI) (auto simp: bucket_index_def bit_simps dest: bit_imp_le_length)

subsection \<open>The initial capacity\<close>

text \<open>The least power of two that is not below the requested size, as long as there is one in a word.\<close>

lemma capacity_loop_returns:
  assumes "uint req \<le> 2 ^ 63" "uint capacity = 2 ^ n" "n \<le> 63"
  shows "\<exists>m c. capacity_loop req capacity = Some c \<and> uint c = 2 ^ m \<and> n \<le> m \<and> m \<le> 63 \<and> uint req \<le> 2 ^ m \<and> (n < m \<longrightarrow> 2 ^ (m - 1) < uint req)"
  using assms(2,3)
proof (induction "63 - n" arbitrary: n capacity)
  case 0
  then have "n = 63" by simp
  then have "\<not> capacity < req" using 0 assms(1) by (simp add: less_limb_iff)
  then show ?case using 0 assms(1) by (subst capacity_loop.simps) (auto intro!: exI [of _ 63])
next
  case (Suc d)
  show ?case
  proof (cases "capacity < req")
    case True
    have "uint (push_bit 1 capacity) = 2 ^ Suc n"
    proof -
      have "(2 :: int) ^ Suc n < 2 ^ 64" using Suc by (intro power_strict_increasing) auto
      then show ?thesis using Suc.prems by (simp add: push_bit_eq_mult uint_word_ariths mod_pos_pos_trivial)
    qed
    moreover have d: "d = 63 - Suc n" "Suc n \<le> 63" using Suc.hyps(2) by linarith+
    ultimately obtain m c where "capacity_loop req (push_bit 1 capacity) = Some c" "uint c = 2 ^ m" "Suc n \<le> m" "m \<le> 63" "uint req \<le> 2 ^ m"
      "Suc n < m \<longrightarrow> 2 ^ (m - 1) < uint req"
      using Suc.hyps(1) [OF d(1) _ d(2), of "push_bit 1 capacity"] by blast
    moreover have "2 ^ n < uint req" using True Suc.prems by (simp add: less_limb_iff)
    moreover have "capacity_loop req capacity = capacity_loop req (push_bit 1 capacity)" using True by (subst capacity_loop.simps) simp
    ultimately show ?thesis by (cases "m = Suc n") (auto intro!: exI [of _ m])
  next
    case False
    then show ?thesis using Suc.prems by (subst capacity_loop.simps) (auto intro!: exI [of _ n] simp: less_limb_iff)
  qed
qed

theorem calculate_initial_capacity_returns:
  assumes "uint req \<le> 2 ^ 63"
  shows "\<exists>m c. calculate_initial_capacity req = Some c \<and> uint c = 2 ^ m \<and> m \<le> 63 \<and> uint req \<le> 2 ^ m \<and> (0 < m \<longrightarrow> 2 ^ (m - 1) < uint req)"
  using capacity_loop_returns [OF assms, of 1 0] by (auto simp: calculate_initial_capacity_def)

text \<open>Beyond that the capacity is shifted out of the word, and the loop goes on for ever.\<close>

definition doubling :: "limb \<Rightarrow> bool" where
  "doubling c \<longleftrightarrow> c = 0 \<or> (\<exists>n \<le> 63. uint c = 2 ^ n)"

lemma doubling_step: "doubling c \<Longrightarrow> doubling (push_bit 1 c) \<and> uint c \<le> 2 ^ 63"
proof (cases "c = 0")
  case False
  assume "doubling c"
  then obtain n where n: "n \<le> 63" "uint c = 2 ^ n" using False by (auto simp: doubling_def)
  have le: "uint c \<le> 2 ^ 63" unfolding n(2) using n(1) by (intro power_increasing) simp_all
  have p: "uint (push_bit 1 c) = 2 ^ Suc n mod 2 ^ 64" using n(2) by (simp add: push_bit_eq_mult uint_word_ariths mult.commute)
  show ?thesis
  proof (cases "n = 63")
    case True
    then have "push_bit 1 c = 0" using p limb_eq_0_iff [of "push_bit 1 c"] by simp
    then show ?thesis using le by (simp add: doubling_def)
  next
    case False
    then have "(2 :: int) ^ Suc n < 2 ^ 64" using n(1) by (intro power_strict_increasing) auto
    then have "uint (push_bit 1 c) = 2 ^ Suc n" using p by (simp add: mod_pos_pos_trivial)
    then show ?thesis using le n(1) False unfolding doubling_def by (metis Suc_leI le_neq_implies_less)
  qed
qed (simp add: doubling_def)

lemma capacity_loop_diverges:
  assumes "2 ^ 63 < uint req" "doubling capacity"
  shows "capacity_loop req capacity = None"
proof (rule ccontr)
  assume "capacity_loop req capacity \<noteq> None"
  then obtain c where ret: "capacity_loop req capacity = Some c" by blast
  have "2 ^ 63 < uint req \<longrightarrow> \<not> doubling capacity"
  proof (rule capacity_loop.raw_induct [where P = "\<lambda>req capacity c. 2 ^ 63 < uint req \<longrightarrow> \<not> doubling capacity", OF _ ret])
    fix loop :: "limb \<Rightarrow> limb \<Rightarrow> limb option" and req capacity c :: limb
    assume ih: "\<And>req capacity c. loop req capacity = Some c \<Longrightarrow> 2 ^ 63 < uint req \<longrightarrow> \<not> doubling capacity"
      and step: "(if capacity < req then loop req (push_bit 1 capacity) else Some capacity) = Some c"
    show "2 ^ 63 < uint req \<longrightarrow> \<not> doubling capacity"
    proof (intro impI notI)
      assume r: "2 ^ 63 < uint req" and d: "doubling capacity"
      have "capacity < req" using doubling_step [OF d] r by (simp add: less_limb_iff)
      then have "loop req (push_bit 1 capacity) = Some c" using step by simp
      then show False using ih r doubling_step [OF d] by blast
    qed
  qed
  then show False using assms by blast
qed

theorem calculate_initial_capacity_diverges: "2 ^ 63 < uint req \<Longrightarrow> calculate_initial_capacity req = None"
  unfolding calculate_initial_capacity_def
  by (rule capacity_loop_diverges) (auto simp: doubling_def intro!: exI [of _ 0])

subsection \<open>The invariant\<close>

text \<open>
  \<open>K\<close> is the set of keys that are used. Every entry is in the bucket of its key, no two keys of a bucket
  pass the test, the count is the number of entries and does not exceed the load threshold.
\<close>

definition placed :: "('k \<Rightarrow> 'k \<Rightarrow> bool) \<Rightarrow> ('k \<Rightarrow> limb) \<Rightarrow> ('k \<Rightarrow> bool) \<Rightarrow> nat \<Rightarrow> nat \<Rightarrow> ('k \<times> 'v) list \<Rightarrow> bool" where
  "placed test h K msk i es \<longleftrightarrow>
     (\<forall>e \<in> set es. K (fst e) \<and> bucket_index h msk (fst e) = i) \<and> sorted_wrt (\<lambda>e e'. \<not> test (fst e) (fst e')) es"

definition ht_ok :: "('k \<Rightarrow> 'k \<Rightarrow> bool) \<Rightarrow> ('k \<Rightarrow> limb) \<Rightarrow> ('k \<Rightarrow> bool) \<Rightarrow> ('k, 'v, 'z) hash_table_scheme \<Rightarrow> bool" where
  "ht_ok test h K t \<longleftrightarrow>
     (\<exists>n. ht_capacity t = 2 ^ n) \<and> ht_mask t = ht_capacity t - 1 \<and> length (ht_buckets t) = ht_capacity t \<and>
     ht_threshold t = load_threshold (ht_capacity t) \<and>
     ht_count t = length (concat (ht_buckets t)) \<and> ht_count t \<le> ht_threshold t \<and>
     (\<forall>i < ht_capacity t. placed test h K (ht_mask t) i (ht_buckets t ! i))"

definition entry_set :: "('k, 'v, 'z) hash_table_scheme \<Rightarrow> ('k \<times> 'v) set" where
  "entry_set t = set (concat (ht_buckets t))"

lemma bucket_index_less: "bucket_index h (2 ^ n - 1) key < 2 ^ n"
proof -
  have "unat (h key) AND (2 ^ n - 1) = take_bit n (unat (h key))" by (simp add: take_bit_eq_mask mask_eq_exp_minus_1)
  then show ?thesis by (simp add: bucket_index_def)
qed

lemma length_concat_update:
  "i < length bs \<Longrightarrow> length (concat (bs[i := es])) + length (bs ! i) = length (concat bs) + length es"
  by (induction bs arbitrary: i) (auto split: nat.splits)

lemma set_concat_nth: "set (concat bs) = (\<Union>j < length bs. set (bs ! j))"
proof -
  have "set bs = (!) bs ` {..<length bs}" by (auto simp: set_conv_nth)
  then show ?thesis by simp
qed

lemma set_concat_update:
  assumes "i < length bs"
  shows "set (concat (bs[i := es])) = (\<Union>j \<in> {..<length bs} - {i}. set (bs ! j)) \<union> set es"
proof -
  have "set (bs[i := es] ! j) = (if j = i then set es else set (bs ! j))" for j using assms by simp
  then show ?thesis unfolding set_concat_nth using assms by (auto split: if_splits)
qed

lemma set_concat_split: "i < length bs \<Longrightarrow> set (concat bs) = (\<Union>j \<in> {..<length bs} - {i}. set (bs ! j)) \<union> set (bs ! i)"
  using set_concat_update [of i bs "bs ! i"] by simp

lemma sorted_wrt_distinct: "sorted_wrt P xs \<Longrightarrow> \<forall>x \<in> set xs. \<not> P x x \<Longrightarrow> distinct xs"
  by (induction xs) auto

lemma fold_fold: "fold (fold f) xss a = fold f (concat xss) a"
  by (induction xss arbitrary: a) simp_all

lemma sorted_wrt_concat:
  assumes "\<And>xs. xs \<in> set xss \<Longrightarrow> sorted_wrt P xs" "sorted_wrt (\<lambda>xs ys. \<forall>x \<in> set xs. \<forall>y \<in> set ys. P x y) xss"
  shows "sorted_wrt P (concat xss)"
  using assms by (induction xss) (auto simp: sorted_wrt_append)

lemma length_concat_rev: "length (concat (rev xss)) = length (concat xss)"
  by (simp add: length_concat rev_map [symmetric] sum_list_rev)

lemma threshold_grows: "0 < c \<Longrightarrow> load_threshold c < load_threshold (c * 2)"
  unfolding load_threshold_def by presburger

subsection \<open>The contract of a test and its hash function\<close>

locale hash_test =
  fixes test :: "'k \<Rightarrow> 'k \<Rightarrow> bool" and h :: "'k \<Rightarrow> limb" and K :: "'k \<Rightarrow> bool"
  assumes test_refl: "K a \<Longrightarrow> test a a"
    and test_sym: "K a \<Longrightarrow> K b \<Longrightarrow> test a b \<Longrightarrow> test b a"
    and test_trans: "K a \<Longrightarrow> K b \<Longrightarrow> K c \<Longrightarrow> test a b \<Longrightarrow> test b c \<Longrightarrow> test a c"
    and test_hash: "K a \<Longrightarrow> K b \<Longrightarrow> test a b \<Longrightarrow> h a = h b"
begin

lemma bucket_get_iff:
  assumes "placed test h K m i es" "K key"
  shows "bucket_get test key es = Some v \<longleftrightarrow> (\<exists>k. (k, v) \<in> set es \<and> test key k)"
  using assms
proof (induction es)
  case (Cons e es)
  obtain k w where e: "e = (k, w)" by fastforce
  have p: "placed test h K m i es" "K k" and apart: "\<And>k' v'. (k', v') \<in> set es \<Longrightarrow> K k' \<and> \<not> test k k'"
    using Cons.prems(1) unfolding e by (auto simp: placed_def)
  show ?case
  proof (cases "test key k")
    case True
    have "\<not> test key k'" if "(k', v') \<in> set es" for k' v'
      using apart [OF that] True test_trans [of k key k'] test_sym [of key k] p(2) Cons.prems(2) by blast
    then show ?thesis using True by (auto simp: e)
  next
    case False
    then show ?thesis using Cons.IH [OF p(1) Cons.prems(2)] by (auto simp: e)
  qed
qed (simp add: placed_def)

lemma bucket_set_None: "bucket_set test key v es = None \<longleftrightarrow> (\<forall>e \<in> set es. \<not> test key (fst e))"
  by (induction test key v es rule: bucket_set.induct) auto

lemma bucket_set_Some:
  assumes "bucket_set test key v es = Some es'"
  shows "\<exists>as k w bs. es = as @ (k, w) # bs \<and> es' = as @ (k, v) # bs \<and> test key k"
  using assms
proof (induction es arbitrary: es')
  case (Cons e es)
  obtain k w where e: "e = (k, w)" by fastforce
  show ?case
  proof (cases "test key k")
    case False
    then obtain es1 where "bucket_set test key v es = Some es1" "es' = e # es1" using Cons.prems e by auto
    then show ?thesis using Cons.IH [of es1] by (metis append_Cons)
  qed (use Cons.prems e in force)
qed simp

lemma bucket_remove_None: "bucket_remove test key es = None \<longleftrightarrow> (\<forall>e \<in> set es. \<not> test key (fst e))"
  by (induction test key es rule: bucket_remove.induct) auto

lemma bucket_remove_Some:
  assumes "bucket_remove test key es = Some (v, es')"
  shows "\<exists>as k bs. es = as @ (k, v) # bs \<and> es' = as @ bs \<and> test key k"
  using assms
proof (induction es arbitrary: es')
  case (Cons e es)
  obtain k w where e: "e = (k, w)" by fastforce
  show ?case
  proof (cases "test key k")
    case False
    then obtain es1 where "bucket_remove test key es = Some (v, es1)" "es' = e # es1" using Cons.prems e by auto
    then show ?thesis using Cons.IH [of es1] by (metis append_Cons)
  qed (use Cons.prems e in force)
qed simp

text \<open>In a bucket at most one entry passes the test with a key.\<close>

lemma others_fail:
  assumes "placed test h K m i (as @ (k, w) # bs)" "K key" "test key k" "e \<in> set as \<union> set bs"
  shows "\<not> test key (fst e)"
proof
  assume t: "test key (fst e)"
  have K: "K k" "K (fst e)" using assms(1,4) by (auto simp: placed_def)
  have "\<not> test k (fst e) \<or> \<not> test (fst e) k" using assms(1,4) by (auto simp: placed_def sorted_wrt_append)
  moreover have "test k (fst e)" "test (fst e) k"
    using test_trans [of k key "fst e"] test_sym [of key k] test_trans [of "fst e" key k] test_sym [of key "fst e"] K assms(2,3) t by blast+
  ultimately show False by blast
qed

lemma placed_replace: "placed test h K m i (as @ (k, w) # bs) \<Longrightarrow> placed test h K m i (as @ (k, v) # bs)"
  by (auto simp: placed_def sorted_wrt_append)

lemma placed_drop: "placed test h K m i (as @ e # bs) \<Longrightarrow> placed test h K m i (as @ bs)"
  by (auto simp: placed_def sorted_wrt_append)

end

subsection \<open>Tables\<close>

context hash_test begin

lemma ok_index:
  assumes "ht_ok test h K t"
  shows "bucket_index h (ht_mask t) key < length (ht_buckets t)" "bucket_index h (ht_mask t) key < ht_capacity t"
  using assms bucket_index_less [of h _ key] by (auto simp: ht_ok_def)

lemma ok_bucket: "ht_ok test h K t \<Longrightarrow> i < ht_capacity t \<Longrightarrow> placed test h K (ht_mask t) i (ht_buckets t ! i)"
  unfolding ht_ok_def by blast

lemma ok_keys:
  assumes "ht_ok test h K t" "e \<in> entry_set t"
  shows "K (fst e)"
proof -
  obtain i where "i < ht_capacity t" "e \<in> set (ht_buckets t ! i)"
    using assms by (auto simp: entry_set_def set_concat_nth ht_ok_def simp del: set_concat)
  then show ?thesis using ok_bucket [OF assms(1)] by (auto simp: placed_def)
qed

lemma other_bucket:
  assumes "ht_ok test h K t" "K key" "j < ht_capacity t" "j \<noteq> bucket_index h (ht_mask t) key" "e \<in> set (ht_buckets t ! j)"
  shows "\<not> test key (fst e)"
  using ok_bucket [OF assms(1,3)] test_hash [of key "fst e"] assms(2,4,5) by (auto simp: placed_def bucket_index_def)

lemma get_iff:
  assumes "ht_ok test h K t" "K key"
  shows "ht_get test h t key = Some v \<longleftrightarrow> (\<exists>k. (k, v) \<in> entry_set t \<and> test key k)"
proof -
  let ?i = "bucket_index h (ht_mask t) key"
  have len: "length (ht_buckets t) = ht_capacity t" using assms(1) by (simp add: ht_ok_def)
  have "ht_get test h t key = Some v \<longleftrightarrow> (\<exists>k. (k, v) \<in> set (ht_buckets t ! ?i) \<and> test key k)"
    unfolding ht_get_def by (rule bucket_get_iff [OF ok_bucket [OF assms(1) ok_index(2) [OF assms(1)]] assms(2)])
  also have "\<dots> \<longleftrightarrow> (\<exists>k. (k, v) \<in> entry_set t \<and> test key k)"
    using set_concat_split [OF ok_index(1) [OF assms(1), of key]] other_bucket [OF assms, of _ "(_, v)"] len
    unfolding entry_set_def by auto
  finally show ?thesis .
qed

lemma ok_update:
  assumes "ht_ok test h K t" "i < ht_capacity t" "placed test h K (ht_mask t) i es"
    and "c + length (ht_buckets t ! i) = ht_count t + length es" "c \<le> ht_threshold t"
  shows "ht_ok test h K (t\<lparr>ht_buckets := (ht_buckets t)[i := es], ht_count := c\<rparr>)"
proof -
  have "length (ht_buckets t) = ht_capacity t" "ht_count t = length (concat (ht_buckets t))" using assms(1) by (simp_all add: ht_ok_def)
  then have "c = length (concat ((ht_buckets t)[i := es]))" using length_concat_update [of i "ht_buckets t" es] assms(2,4) by simp
  then show ?thesis using assms by (auto simp: ht_ok_def nth_list_update)
qed

text \<open>The entries that fail the test with a key, from the bucket of the key and the others.\<close>

lemma failing_entries:
  assumes "ht_ok test h K t" "K key"
  defines "i \<equiv> bucket_index h (ht_mask t) key"
  shows "{e \<in> entry_set t. \<not> test key (fst e)} =
    (\<Union>j \<in> {..<length (ht_buckets t)} - {i}. set (ht_buckets t ! j)) \<union> {e \<in> set (ht_buckets t ! i). \<not> test key (fst e)}"
proof -
  have "length (ht_buckets t) = ht_capacity t" using assms(1) by (simp add: ht_ok_def)
  then show ?thesis
    using set_concat_split [OF ok_index(1) [OF assms(1), of key]] other_bucket [OF assms(1,2)] unfolding entry_set_def i_def by auto
qed

text \<open>Moving the entries to a table of twice the size.\<close>

lemma rehash_entries:
  assumes "length bs = 2 ^ n" "m = 2 ^ n - 1" "\<forall>i < 2 ^ n. placed test h K m i (bs ! i)"
    and "\<forall>e \<in> set es. K (fst e)" "sorted_wrt (\<lambda>e e'. \<not> test (fst e) (fst e')) es"
    and "\<forall>e' \<in> set (concat bs). \<forall>e \<in> set es. \<not> test (fst e') (fst e)"
  shows "length (fold (rehash_entry h m) es bs) = 2 ^ n \<and> (\<forall>i < 2 ^ n. placed test h K m i (fold (rehash_entry h m) es bs ! i)) \<and>
    set (concat (fold (rehash_entry h m) es bs)) = set (concat bs) \<union> set es \<and>
    length (concat (fold (rehash_entry h m) es bs)) = length (concat bs) + length es"
  using assms(1,3-6)
proof (induction es arbitrary: bs)
  case (Cons e es)
  let ?i = "bucket_index h m (fst e)"
  define bs1 where "bs1 = rehash_entry h m e bs"
  have b1: "bs1 = bs[?i := bs ! ?i @ [e]]" by (simp add: bs1_def rehash_entry_def Let_def)
  have i: "?i < length bs" "?i < 2 ^ n" using bucket_index_less [of h n "fst e"] Cons.prems(1) assms(2) by simp_all
  have s1: "set (concat bs1) = insert e (set (concat bs))"
    unfolding b1 set_concat_update [OF i(1)] set_concat_split [OF i(1)] by auto
  have "\<forall>e' \<in> set (bs ! ?i). \<not> test (fst e') (fst e)"
    using Cons.prems(5) i(1) by auto
  then have "placed test h K m ?i (bs ! ?i @ [e])"
    using Cons.prems(2,3) i(2) by (auto simp: placed_def sorted_wrt_append)
  then have "placed test h K m j (bs1 ! j)" if "j < 2 ^ n" for j
    using Cons.prems(2) i(1) that unfolding b1 by (cases "j = ?i") simp_all
  then have "\<forall>i < 2 ^ n. placed test h K m i (bs1 ! i)" by blast
  moreover have "\<forall>e' \<in> set (concat bs1). \<forall>e \<in> set es. \<not> test (fst e') (fst e)" using Cons.prems(4,5) unfolding s1 by simp
  ultimately have IH: "length (fold (rehash_entry h m) es bs1) = 2 ^ n \<and> (\<forall>i < 2 ^ n. placed test h K m i (fold (rehash_entry h m) es bs1 ! i)) \<and>
      set (concat (fold (rehash_entry h m) es bs1)) = set (concat bs1) \<union> set es \<and>
      length (concat (fold (rehash_entry h m) es bs1)) = length (concat bs1) + length es"
    using Cons.prems(1,3,4) by (intro Cons.IH) (simp_all add: b1)
  moreover have "length (concat bs1) = Suc (length (concat bs))" using length_concat_update [OF i(1), of "bs ! ?i @ [e]"] unfolding b1 by simp
  ultimately show ?case unfolding fold_Cons o_apply bs1_def [symmetric] s1 by simp
qed simp

lemma entries_apart:
  assumes "ht_ok test h K t"
  shows "sorted_wrt (\<lambda>e e'. \<not> test (fst e) (fst e')) (concat (rev (ht_buckets t)))"
proof (rule sorted_wrt_concat)
  have len: "length (ht_buckets t) = ht_capacity t" using assms by (simp add: ht_ok_def)
  show "sorted_wrt (\<lambda>e e'. \<not> test (fst e) (fst e')) es" if "es \<in> set (rev (ht_buckets t))" for es
    using that ok_bucket [OF assms] len by (auto simp: in_set_conv_nth placed_def)
  have apart: "\<not> test (fst e) (fst e')"
    if "i < ht_capacity t" "j < ht_capacity t" "i \<noteq> j" "e \<in> set (ht_buckets t ! i)" "e' \<in> set (ht_buckets t ! j)" for i j e e'
    using ok_bucket [OF assms that(1)] ok_bucket [OF assms that(2)] test_hash [of "fst e" "fst e'"] that(3-5)
    by (auto simp: placed_def bucket_index_def)
  show "sorted_wrt (\<lambda>xs ys. \<forall>e \<in> set xs. \<forall>e' \<in> set ys. \<not> test (fst e) (fst e')) (rev (ht_buckets t))"
    unfolding sorted_wrt_iff_nth_less length_rev len
  proof (intro allI impI ballI)
    fix i j e e'
    assume "i < j" "j < ht_capacity t" "e \<in> set (rev (ht_buckets t) ! i)" "e' \<in> set (rev (ht_buckets t) ! j)"
    then show "\<not> test (fst e) (fst e')"
      using apart [of "ht_capacity t - Suc i" "ht_capacity t - Suc j" e e'] len by (simp add: rev_nth)
  qed
qed

text \<open>After an insertion the count may exceed the threshold by one; then the table is doubled.\<close>

lemma rehash_ok:
  assumes "ht_ok test h K (t\<lparr>ht_count := c\<rparr>)" "ht_count t = c + 1" "c = ht_threshold t"
  shows "ht_ok test h K ((rehash1 h t)\<lparr>ht_count := c\<rparr>)" "entry_set (rehash1 h t) = entry_set t"
    "c < ht_threshold (rehash1 h t)"
proof -
  let ?t = "t\<lparr>ht_count := c\<rparr>"
  obtain n where n: "ht_capacity t = 2 ^ n" using assms(1) by (auto simp: ht_ok_def)
  let ?m = "ht_capacity t * 2 - 1" and ?es = "concat (rev (ht_buckets t))"
  define bs0 bs where "bs0 = replicate (ht_capacity t * 2) []" and "bs = fold (rehash_entry h ?m) ?es bs0"
  have K: "\<forall>e \<in> set ?es. K (fst e)" using ok_keys [OF assms(1)] by (simp add: entry_set_def)
  have "length bs = 2 ^ Suc n \<and> (\<forall>i < 2 ^ Suc n. placed test h K ?m i (bs ! i)) \<and> set (concat bs) = set (concat bs0) \<union> set ?es \<and>
      length (concat bs) = length (concat bs0) + length ?es"
    unfolding bs_def using entries_apart [OF assms(1)] K n
    by (intro rehash_entries) (simp_all add: placed_def mult.commute bs0_def)
  then have r: "length bs = 2 ^ Suc n" "\<forall>i < 2 ^ Suc n. placed test h K ?m i (bs ! i)" "set (concat bs) = set (concat (ht_buckets t))"
    "length (concat bs) = length (concat (ht_buckets t))" by (auto simp: length_concat_rev bs0_def)
  have e: "rehash1 h t = t\<lparr>ht_threshold := load_threshold (ht_capacity t * 2), ht_mask := ?m, ht_buckets := bs, ht_capacity := ht_capacity t * 2\<rparr>"
    by (simp add: rehash1_def Let_def bs_def bs0_def fold_fold)
  show "entry_set (rehash1 h t) = entry_set t" using r(3) by (simp add: e entry_set_def)
  show lt: "c < ht_threshold (rehash1 h t)" using assms(1,3) threshold_grows [of "ht_capacity t"] n by (simp add: e ht_ok_def)
  show "ht_ok test h K ((rehash1 h t)\<lparr>ht_count := c\<rparr>)"
    unfolding ht_ok_def using r n assms(1) lt by (auto simp: e ht_ok_def mult.commute intro!: exI [of _ "Suc n"])
qed

subsection \<open>What the operations do\<close>

lemma put_found:
  assumes ok: "ht_ok test h K t" and key: "K key" and f: "bucket_set test key v (ht_buckets t ! bucket_index h (ht_mask t) key) = Some es"
  shows "ht_ok test h K (ht_put test h t key v)" "ht_count (ht_put test h t key v) = ht_count t"
    "\<exists>k w. (k, w) \<in> entry_set t \<and> test key k \<and> entry_set (ht_put test h t key v) = insert (k, v) {e \<in> entry_set t. \<not> test key (fst e)}"
proof -
  let ?i = "bucket_index h (ht_mask t) key"
  obtain as k w bs where b: "ht_buckets t ! ?i = as @ (k, w) # bs" "es = as @ (k, v) # bs" "test key k"
    using bucket_set_Some [OF f] by blast
  have p: "placed test h K (ht_mask t) ?i (as @ (k, w) # bs)" using ok_bucket [OF ok ok_index(2) [OF ok]] b(1) by metis
  have put: "ht_put test h t key v = t\<lparr>ht_buckets := (ht_buckets t)[?i := es]\<rparr>" by (simp add: ht_put_def Let_def f)
  show "ht_count (ht_put test h t key v) = ht_count t" by (simp add: put)
  have "ht_ok test h K (t\<lparr>ht_buckets := (ht_buckets t)[?i := es], ht_count := ht_count t\<rparr>)"
    using ok_update [OF ok ok_index(2) [OF ok, of key], of es "ht_count t"] placed_replace [OF p, of v] b ok by (simp add: ht_ok_def)
  then show "ht_ok test h K (ht_put test h t key v)" by (simp add: put)
  have "{e \<in> set (ht_buckets t ! ?i). \<not> test key (fst e)} = set as \<union> set bs"
    using others_fail [OF p key b(3)] b(1,3) by auto
  moreover have "entry_set (ht_put test h t key v) = (\<Union>j \<in> {..<length (ht_buckets t)} - {?i}. set (ht_buckets t ! j)) \<union> set es"
    unfolding put entry_set_def using set_concat_update [OF ok_index(1) [OF ok, of key]] by simp
  moreover have "(k, w) \<in> entry_set t"
    using set_concat_split [OF ok_index(1) [OF ok, of key]] b(1) unfolding entry_set_def by simp
  ultimately show "\<exists>k w. (k, w) \<in> entry_set t \<and> test key k \<and> entry_set (ht_put test h t key v) = insert (k, v) {e \<in> entry_set t. \<not> test key (fst e)}"
    unfolding failing_entries [OF ok key] using b(2,3) by auto
qed

lemma insert_ok:
  assumes ok: "ht_ok test h K (t\<lparr>ht_count := c\<rparr>)" and key: "K key" and c: "ht_count t = c + 1" "c < ht_threshold t"
    and new: "\<forall>e \<in> entry_set t. \<not> test key (fst e)"
  shows "ht_ok test h K (ht_insert h t key v)" "entry_set (ht_insert h t key v) = insert (key, v) (entry_set t)"
proof -
  let ?t = "t\<lparr>ht_count := c\<rparr>"
  let ?i = "bucket_index h (ht_mask t) key"
  note i = ok_index [OF ok, of key, simplified]
  have "\<forall>e \<in> set (ht_buckets t ! ?i). \<not> test key (fst e)"
    using new set_concat_split [OF i(1)] unfolding entry_set_def by blast
  moreover have "placed test h K (ht_mask t) ?i (ht_buckets t ! ?i)" using ok_bucket [OF ok] i(2) by simp
  ultimately have "placed test h K (ht_mask t) ?i ((key, v) # ht_buckets t ! ?i)" using key by (auto simp: placed_def)
  then have "ht_ok test h K (?t\<lparr>ht_buckets := (ht_buckets ?t)[?i := (key, v) # ht_buckets t ! ?i], ht_count := c + 1\<rparr>)"
    using c i by (intro ok_update [OF ok]) simp_all
  moreover have "ht_insert h t key v = ?t\<lparr>ht_buckets := (ht_buckets ?t)[?i := (key, v) # ht_buckets t ! ?i], ht_count := c + 1\<rparr>"
    using c(1) by (cases t) (simp add: ht_insert_def Let_def)
  ultimately show "ht_ok test h K (ht_insert h t key v)" by simp
  show "entry_set (ht_insert h t key v) = insert (key, v) (entry_set t)"
    unfolding ht_insert_def Let_def entry_set_def using set_concat_update [OF i(1)] set_concat_split [OF i(1)] by simp
qed

lemma put_new:
  assumes ok: "ht_ok test h K t" and key: "K key" and f: "bucket_set test key v (ht_buckets t ! bucket_index h (ht_mask t) key) = None"
  shows "ht_ok test h K (ht_put test h t key v)" "ht_count (ht_put test h t key v) = ht_count t + 1"
    "entry_set (ht_put test h t key v) = insert (key, v) (entry_set t)" "\<forall>e \<in> entry_set t. \<not> test key (fst e)"
proof -
  define t1 t2 where "t1 = t\<lparr>ht_count := ht_count t + 1\<rparr>" and "t2 = (if ht_count t1 > ht_threshold t1 then rehash1 h t1 else t1)"
  have put: "ht_put test h t key v = ht_insert h t2 key v" by (simp add: ht_put_def Let_def f t1_def t2_def)
  show new: "\<forall>e \<in> entry_set t. \<not> test key (fst e)"
    using f failing_entries [OF ok key] set_concat_split [OF ok_index(1) [OF ok, of key]] unfolding bucket_set_None entry_set_def by auto
  have ok1: "ht_ok test h K (t1\<lparr>ht_count := ht_count t\<rparr>)" using ok by (simp add: t1_def)
  have le: "ht_count t \<le> ht_threshold t" using ok by (simp add: ht_ok_def)
  have "ht_ok test h K (t2\<lparr>ht_count := ht_count t\<rparr>) \<and> entry_set t2 = entry_set t \<and> ht_count t < ht_threshold t2 \<and> ht_count t2 = ht_count t + 1"
  proof (cases "ht_count t1 > ht_threshold t1")
    case True
    then have "ht_count t = ht_threshold t1" "ht_count t1 = ht_count t + 1" using le by (simp_all add: t1_def)
    from rehash_ok [OF ok1 this(2,1)] True show ?thesis by (simp add: t2_def entry_set_def t1_def rehash1_def Let_def)
  next
    case False
    then show ?thesis using ok1 by (simp add: t2_def t1_def entry_set_def)
  qed
  then show "ht_ok test h K (ht_put test h t key v)" "entry_set (ht_put test h t key v) = insert (key, v) (entry_set t)"
    "ht_count (ht_put test h t key v) = ht_count t + 1"
    using insert_ok [where t = t2 and c = "ht_count t" and key = key and v = v] key new unfolding put by (simp_all add: ht_insert_def Let_def)
qed

theorem put_ok: "ht_ok test h K t \<Longrightarrow> K key \<Longrightarrow> ht_ok test h K (ht_put test h t key v)"
  by (cases "bucket_set test key v (ht_buckets t ! bucket_index h (ht_mask t) key)") (rule put_new(1) put_found(1); assumption)+

theorem get_put:
  assumes ok: "ht_ok test h K t" and key: "K key" "K key'"
  shows "ht_get test h (ht_put test h t key v) key' = (if test key' key then Some v else ht_get test h t key')"
proof -
  obtain k where k: "K k" "test key k" "entry_set (ht_put test h t key v) = insert (k, v) {e \<in> entry_set t. \<not> test key (fst e)}"
  proof (cases "bucket_set test key v (ht_buckets t ! bucket_index h (ht_mask t) key)")
    case None
    from put_new(3,4) [OF ok key(1) this] have "entry_set (ht_put test h t key v) = insert (key, v) {e \<in> entry_set t. \<not> test key (fst e)}" by auto
    then show thesis using that [of key] key(1) test_refl by blast
  next
    case (Some es)
    from put_found(3) [OF ok key(1) this] obtain k w where "(k, w) \<in> entry_set t" "test key k"
      "entry_set (ht_put test h t key v) = insert (k, v) {e \<in> entry_set t. \<not> test key (fst e)}" by blast
    then show thesis using that ok_keys [OF ok, of "(k, w)"] by simp
  qed
  have same: "test key' e \<longleftrightarrow> test key e" if "K e" "test key' key" for e
    using test_trans test_sym key that by metis
  have diff: "\<not> test key' e" if "K e" "\<not> test key' key" "test key e" for e
    using test_trans test_sym key that by metis
  have iff: "ht_get test h (ht_put test h t key v) key' = Some x \<longleftrightarrow> (\<exists>l. (l, x) \<in> entry_set (ht_put test h t key v) \<and> test key' l)" for x
    by (rule get_iff [OF put_ok [OF ok key(1)] key(2)])
  show ?thesis
  proof (cases "test key' key")
    case True
    then have "test key' k" using same k(1,2) by blast
    then have "ht_get test h (ht_put test h t key v) key' = Some v" unfolding iff k(3) by blast
    then show ?thesis using True by simp
  next
    case False
    have "ht_get test h (ht_put test h t key v) key' = Some x \<longleftrightarrow> ht_get test h t key' = Some x" for x
    proof -
      have "\<not> test key' k" using diff [OF _ False] k(1,2) by blast
      moreover have "\<not> test key l" if "(l, x) \<in> entry_set t" "test key' l" for l
        using diff [OF _ False] ok_keys [OF ok that(1)] that(2) by auto
      ultimately show ?thesis unfolding iff k(3) get_iff [OF ok key(2)] by auto
    qed
    then show ?thesis using False by (metis option.exhaust)
  qed
qed

lemma bucket_remove_get: "map_option fst (bucket_remove test key es) = bucket_get test key es"
  by (induction test key es rule: bucket_remove.induct) (auto simp: option.map_comp comp_def split_beta)

lemma remove_effect:
  assumes ok: "ht_ok test h K t" and key: "K key" and r: "ht_remove test h t key = (res, t')"
  shows "res = ht_get test h t key" "ht_ok test h K t'" "entry_set t' = {e \<in> entry_set t. \<not> test key (fst e)}"
    "ht_count t = ht_count t' + of_bool (res \<noteq> None)"
proof -
  let ?i = "bucket_index h (ht_mask t) key"
  have p: "placed test h K (ht_mask t) ?i (ht_buckets t ! ?i)" by (rule ok_bucket [OF ok ok_index(2) [OF ok]])
  have res: "res = map_option fst (bucket_remove test key (ht_buckets t ! ?i))"
    using r by (auto simp: ht_remove_def Let_def split: option.splits prod.splits)
  then show "res = ht_get test h t key" by (simp add: bucket_remove_get ht_get_def)
  have "ht_ok test h K t' \<and> entry_set t' = {e \<in> entry_set t. \<not> test key (fst e)} \<and> ht_count t = ht_count t' + of_bool (res \<noteq> None)"
  proof (cases "bucket_remove test key (ht_buckets t ! ?i)")
    case None
    then have t': "t' = t" "res = None" using r by (simp_all add: ht_remove_def)
    have "\<forall>e \<in> entry_set t. \<not> test key (fst e)"
      using None failing_entries [OF ok key] set_concat_split [OF ok_index(1) [OF ok, of key]] unfolding bucket_remove_None entry_set_def by auto
    then show ?thesis using ok t' by auto
  next
    case (Some w)
    obtain v es where w: "w = (v, es)" by fastforce
    obtain as k bs where b: "ht_buckets t ! ?i = as @ (k, v) # bs" "es = as @ bs" "test key k"
      using bucket_remove_Some [OF Some [unfolded w]] by blast
    have t': "t' = t\<lparr>ht_buckets := (ht_buckets t)[?i := es], ht_count := ht_count t - 1\<rparr>" "res = Some v"
      using r Some by (simp_all add: ht_remove_def Let_def w)
    have c: "ht_count t \<le> ht_threshold t" "length (ht_buckets t ! ?i) \<le> ht_count t"
      using ok length_concat_update [OF ok_index(1) [OF ok, of key], of "[]"] by (simp_all add: ht_ok_def)
    have "ht_ok test h K t'"
      unfolding t'
    proof (rule ok_update [OF ok ok_index(2) [OF ok]])
      show "placed test h K (ht_mask t) ?i es" using placed_drop [OF p [unfolded b(1)]] b(2) by simp
      show "ht_count t - 1 + length (ht_buckets t ! ?i) = ht_count t + length es" using c(2) unfolding b(1,2) by simp
      show "ht_count t - 1 \<le> ht_threshold t" using c(1) by simp
    qed
    moreover have "{e \<in> set (ht_buckets t ! ?i). \<not> test key (fst e)} = set as \<union> set bs"
      using others_fail [OF p [unfolded b(1)] key b(3)] b(1,3) by auto
    then have "entry_set t' = {e \<in> entry_set t. \<not> test key (fst e)}"
      unfolding failing_entries [OF ok key] using set_concat_update [OF ok_index(1) [OF ok, of key], of es] b(2) by (simp add: t' entry_set_def)
    ultimately show ?thesis using t' c(2) b(1) by simp
  qed
  then show "ht_ok test h K t'" "entry_set t' = {e \<in> entry_set t. \<not> test key (fst e)}" "ht_count t = ht_count t' + of_bool (res \<noteq> None)"
    by blast+
qed

theorem get_remove:
  assumes ok: "ht_ok test h K t" and key: "K key" "K key'"
  shows "ht_get test h (snd (ht_remove test h t key)) key' = (if test key' key then None else ht_get test h t key')"
proof -
  obtain res t' where r: "ht_remove test h t key = (res, t')" by fastforce
  note e = remove_effect [OF ok key(1) r]
  have "ht_get test h t' key' = Some x \<longleftrightarrow> \<not> test key' key \<and> ht_get test h t key' = Some x" for x
  proof -
    have "test key l \<longleftrightarrow> test key' key" if "(l, x) \<in> entry_set t" "test key' l" for l
    proof
      have l: "K l" "test l key'" using ok_keys [OF ok that(1)] test_sym [OF key(2) _ that(2)] by simp_all
      show "test key' key" if "test key l" using test_trans [OF key(2) l(1) key(1) \<open>test key' l\<close> test_sym [OF key(1) l(1) that]] .
      show "test key l" if "test key' key" using test_trans [OF key(1) key(2) l(1) test_sym [OF key(2) key(1) that] \<open>test key' l\<close>] .
    qed
    then show ?thesis unfolding get_iff [OF e(2) key(2)] get_iff [OF ok key(2)] e(3) by auto
  qed
  then show ?thesis unfolding r by (metis option.exhaust snd_conv)
qed

lemma clear_ok:
  assumes "ht_ok test h K t"
  shows "ht_ok test h K (ht_clear t)" "ht_get test h (ht_clear t) key = None" "ht_count (ht_clear t) = 0"
proof -
  have "concat (replicate n []) = ([] :: 'x list)" for n by (induction n) simp_all
  then show "ht_ok test h K (ht_clear t)" using assms by (auto simp: ht_ok_def ht_clear_def placed_def)
  show "ht_get test h (ht_clear t) key = None" using ok_index(2) [OF assms, of key] by (simp add: ht_get_def ht_clear_def)
qed (simp add: ht_clear_def)

lemma init_ok:
  assumes "ht_init req = Some t" "uint req \<le> 2 ^ 63"
  shows "ht_ok test h K t" "ht_get test h t key = None" "uint req \<le> int (ht_capacity t)" "ht_count t = 0"
proof -
  obtain m c where c: "calculate_initial_capacity req = Some c" "uint c = 2 ^ m" "uint req \<le> 2 ^ m"
    using calculate_initial_capacity_returns [OF assms(2)] by blast
  have u: "unat c = 2 ^ m" using c(2) by (metis nat_power_eq nat_numeral unat_eq_nat_uint zero_le_numeral)
  have t: "t = \<lparr>ht_capacity = 2 ^ m, ht_count = 0, ht_threshold = load_threshold (2 ^ m), ht_buckets = replicate (2 ^ m) [], ht_mask = 2 ^ m - 1\<rparr>"
    using assms(1) by (simp add: ht_init_def c(1) u Let_def)
  have "concat (replicate n []) = ([] :: 'x list)" for n by (induction n) simp_all
  then show "ht_ok test h K t" by (auto simp: t ht_ok_def placed_def)
  from ok_index(2) [OF this, of key] show "ht_get test h t key = None" by (simp add: ht_get_def t)
  show "uint req \<le> int (ht_capacity t)" using c(3) by (simp add: t)
  show "ht_count t = 0" by (simp add: t)
qed

text \<open>The list of entries has every entry once, and \<^verbatim>\<open>maphash\<close> visits the same entries.\<close>

lemma entries_rev: "rev (ht_entries t) = concat (rev (ht_buckets t))"
  by (simp add: ht_entries_def fold_fold fold_Cons_rev)

lemma maphash_entries: "ht_maphash f t s = fold (\<lambda>(k, v). f k v) (rev (ht_entries t)) s"
  by (simp add: ht_maphash_def fold_fold entries_rev)

lemma entries_ok:
  assumes "ht_ok test h K t"
  shows "set (ht_entries t) = entry_set t" "length (ht_entries t) = ht_count t" "distinct (ht_entries t)"
    "sorted_wrt (\<lambda>e e'. \<not> test (fst e) (fst e')) (rev (ht_entries t))"
proof -
  have "set (rev (ht_entries t)) = set (concat (rev (ht_buckets t)))" "length (rev (ht_entries t)) = length (concat (rev (ht_buckets t)))"
    by (simp_all only: entries_rev)
  then show "set (ht_entries t) = entry_set t" "length (ht_entries t) = ht_count t"
    using assms by (simp_all add: entry_set_def length_concat_rev ht_ok_def)
  show s: "sorted_wrt (\<lambda>e e'. \<not> test (fst e) (fst e')) (rev (ht_entries t))" unfolding entries_rev by (rule entries_apart [OF assms])
  have "\<forall>e \<in> set (rev (ht_entries t)). test (fst e) (fst e)"
    using ok_keys [OF assms] test_refl \<open>set (ht_entries t) = entry_set t\<close> by auto
  then have "distinct (rev (ht_entries t))"
    using sorted_wrt_distinct [OF s] by blast
  then show "distinct (ht_entries t)" by simp
qed

end

subsection \<open>Sequences of operations\<close>

datatype ('k, 'v) ht_op = Gethash 'k | Puthash 'k 'v | Remhash 'k | Clrhash | Hash_count

datatype 'v ht_output = Val "'v option" | Num nat | Done

fun ht_step :: "('k \<Rightarrow> 'k \<Rightarrow> bool) \<Rightarrow> ('k \<Rightarrow> limb) \<Rightarrow> ('k, 'v) ht_op \<Rightarrow> ('k, 'v, 'z) hash_table_scheme
    \<Rightarrow> 'v ht_output \<times> ('k, 'v, 'z) hash_table_scheme" where
  "ht_step test h (Gethash k) t = (Val (ht_get test h t k), t)"
| "ht_step test h (Puthash k v) t = (Done, ht_put test h t k v)"
| "ht_step test h (Remhash k) t = (let (r, t) = ht_remove test h t k in (Val r, t))"
| "ht_step test h Clrhash t = (Done, ht_clear t)"
| "ht_step test h Hash_count t = (Num (ht_count t), t)"

text \<open>The specification: a map modulo the test, and the number of its classes.\<close>

fun map_step :: "('k \<Rightarrow> 'k \<Rightarrow> bool) \<Rightarrow> ('k, 'v) ht_op \<Rightarrow> ('k \<Rightarrow> 'v option) \<times> nat \<Rightarrow> 'v ht_output \<times> ('k \<Rightarrow> 'v option) \<times> nat" where
  "map_step test (Gethash k) (m, n) = (Val (m k), m, n)"
| "map_step test (Puthash k v) (m, n) = (Done, (\<lambda>k'. if test k' k then Some v else m k'), n + of_bool (m k = None))"
| "map_step test (Remhash k) (m, n) = (Val (m k), (\<lambda>k'. if test k' k then None else m k'), n - of_bool (m k \<noteq> None))"
| "map_step test Clrhash (m, n) = (Done, (\<lambda>k. None), 0)"
| "map_step test Hash_count (m, n) = (Num n, m, n)"

fun outputs :: "('o \<Rightarrow> 's \<Rightarrow> 'r \<times> 's) \<Rightarrow> 'o list \<Rightarrow> 's \<Rightarrow> 'r list" where
  "outputs step [] s = []"
| "outputs step (i # is) s = (let (r, s) = step i s in r # outputs step is s)"

fun op_keys :: "('k, 'v) ht_op \<Rightarrow> 'k set" where
  "op_keys (Gethash k) = {k}"
| "op_keys (Puthash k v) = {k}"
| "op_keys (Remhash k) = {k}"
| "op_keys Clrhash = {}"
| "op_keys Hash_count = {}"

lemma outputs_simulation:
  assumes "\<And>i s a. i \<in> set is \<Longrightarrow> R s a \<Longrightarrow> fst (step i s) = fst (astep i a) \<and> R (snd (step i s)) (snd (astep i a))" "R s a"
  shows "outputs step is s = outputs astep is a"
  using assms by (induction "is" arbitrary: s a) (auto simp: split_beta Let_def)

definition ht_represents :: "('k \<Rightarrow> 'k \<Rightarrow> bool) \<Rightarrow> ('k \<Rightarrow> limb) \<Rightarrow> ('k \<Rightarrow> bool) \<Rightarrow> ('k, 'v, 'z) hash_table_scheme \<Rightarrow> ('k \<Rightarrow> 'v option) \<times> nat \<Rightarrow> bool" where
  "ht_represents test h K t a \<longleftrightarrow> ht_ok test h K t \<and> (\<forall>k. K k \<longrightarrow> fst a k = ht_get test h t k) \<and> snd a = ht_count t"

context hash_test begin

lemma put_count:
  assumes "ht_ok test h K t" "K key"
  shows "ht_count (ht_put test h t key v) = ht_count t + of_bool (ht_get test h t key = None)"
proof (cases "bucket_set test key v (ht_buckets t ! bucket_index h (ht_mask t) key)")
  case None
  have "ht_get test h t key = None"
    using put_new(4) [OF assms None] get_iff [OF assms] by (metis fst_conv not_None_eq)
  then show ?thesis using put_new(2) [OF assms None] by simp
next
  case (Some es)
  have "ht_get test h t key \<noteq> None" using put_found(3) [OF assms Some] get_iff [OF assms] by (metis option.distinct(1))
  then show ?thesis using put_found(2) [OF assms Some] by simp
qed

lemma step_represents:
  assumes R: "ht_represents test h K t a" and k: "\<And>k. k \<in> op_keys i \<Longrightarrow> K k"
  shows "fst (ht_step test h i t) = fst (map_step test i a) \<and> ht_represents test h K (snd (ht_step test h i t)) (snd (map_step test i a))"
proof -
  obtain m n where a: "a = (m, n)" by fastforce
  have ok: "ht_ok test h K t" and m: "\<And>k. K k \<Longrightarrow> m k = ht_get test h t k" and n: "n = ht_count t"
    using R by (simp_all add: ht_represents_def a)
  show ?thesis
  proof (cases i)
    case (Puthash key v)
    then show ?thesis using put_ok [OF ok] get_put [OF ok] put_count [OF ok] m n k a by (simp add: ht_represents_def)
  next
    case (Remhash key)
    obtain r t' where r: "ht_remove test h t key = (r, t')" by fastforce
    have key: "K key" using k Remhash by simp
    note e = remove_effect [OF ok key r]
    have "ht_get test h t' k' = (if test k' key then None else ht_get test h t k')" if "K k'" for k'
      using get_remove [OF ok key that] r by simp
    then show ?thesis using Remhash r e m n key a by (simp add: ht_represents_def)
  next
    case Clrhash
    then show ?thesis using clear_ok [OF ok] by (simp add: ht_represents_def a)
  qed (use m n ok k a in \<open>auto simp: ht_represents_def\<close>)
qed

theorem table_refines_map:
  assumes "ht_represents test h K t a" "\<And>i k. i \<in> set is \<Longrightarrow> k \<in> op_keys i \<Longrightarrow> K k"
  shows "outputs (ht_step test h) is t = outputs (map_step test) is a"
  using assms by (intro outputs_simulation [where R = "ht_represents test h K"] step_represents) blast+

end

lemma ht_init_returns: "uint req \<le> 2 ^ 63 \<Longrightarrow> \<exists>t. ht_init req = Some t"
  using calculate_initial_capacity_returns [of req] by (auto simp: ht_init_def Let_def)

definition ht_run :: "('k \<Rightarrow> 'k \<Rightarrow> bool) \<Rightarrow> ('k \<Rightarrow> limb) \<Rightarrow> ('k, 'v) ht_op list \<Rightarrow> ('k, 'v, 'z) hash_table_scheme \<Rightarrow> ('k, 'v, 'z) hash_table_scheme" where
  "ht_run test h is t = fold (\<lambda>i t. snd (ht_step test h i t)) is t"

lemma ok_load: "ht_ok test h K t \<Longrightarrow> 4 * ht_count t \<le> 3 * ht_capacity t"
  unfolding ht_ok_def load_threshold_def by linarith

context hash_test begin

lemma init_represents: "ht_init req = Some t \<Longrightarrow> uint req \<le> 2 ^ 63 \<Longrightarrow> ht_represents test h K t (\<lambda>_. None, 0)"
  using init_ok [of req t] by (simp add: ht_represents_def)

lemma run_ok:
  assumes "ht_ok test h K t" "\<And>i k. i \<in> set is \<Longrightarrow> k \<in> op_keys i \<Longrightarrow> K k"
  shows "ht_ok test h K (ht_run test h is t)"
  using assms
proof (induction "is" arbitrary: t)
  case (Cons i "is")
  have "ht_represents test h K t (ht_get test h t, ht_count t)" using Cons.prems(1) by (simp add: ht_represents_def)
  then have "ht_ok test h K (snd (ht_step test h i t))"
    using step_represents [of t _ i] Cons.prems(2) by (fastforce simp: ht_represents_def)
  then have "ht_ok test h K (ht_run test h is (snd (ht_step test h i t)))" by (rule Cons.IH) (blast intro: Cons.prems(2) [OF list.set_intros(2)])
  then show ?case by (simp add: ht_run_def)
qed (simp add: ht_run_def)

end

text \<open>Two tests that agree on the keys of a sequence give the same outputs of the specification.\<close>

lemma map_outputs_cong:
  assumes "\<And>a b. K a \<Longrightarrow> K b \<Longrightarrow> test a b = test' a b" "\<And>i k. i \<in> set is \<Longrightarrow> k \<in> op_keys i \<Longrightarrow> K k"
  shows "outputs (map_step test) is a = outputs (map_step test') is a"
proof -
  let ?R = "\<lambda>s a. snd s = snd a \<and> (\<forall>k. K k \<longrightarrow> fst s k = fst a k)"
  have "fst (map_step test i s) = fst (map_step test' i a) \<and> ?R (snd (map_step test i s)) (snd (map_step test' i a))"
    if "i \<in> set is" "?R s a" for i s a
  proof -
    obtain m n m' n' where sa: "s = (m, n)" "a = (m', n')" by fastforce
    have K: "k \<in> op_keys i \<Longrightarrow> K k" for k using assms(2) that(1) by blast
    show ?thesis by (cases i) (use that(2) assms(1) K sa in auto)
  qed
  then show ?thesis by (rule outputs_simulation [where R = ?R]) simp_all
qed

interpretation eq_test: hash_test "(=)" h "\<lambda>_. True" for h
  by unfold_locales auto

end
