(* ===== verification/Kernel_Hash.thy ===== *)
theory Kernel_Hash
  imports Hash_Table Kernel_Errors
begin

unbundle bit_operations_syntax

text \<open>
  The hash tables of the test \<^verbatim>\<open>eq\<close>, which remember the bucket of the last key (\<^verbatim>\<open>kernel/EqHashTable.cpp\<close>,
  \<^verbatim>\<open>HashTable.hpp\<close>), and the hash function of Lisp integers (\<^verbatim>\<open>kernel/sxhash.cpp\<close>, \<^verbatim>\<open>Bignum.cpp\<close>), with which tables
  of the test \<^verbatim>\<open>eql\<close> find an integer by its value. The hash values of other objects are a parameter.
\<close>

subsection \<open>Hash values of integers\<close>

definition mix :: "limb \<Rightarrow> limb \<Rightarrow> limb" where
  "mix x y =
     (let xy = x * 3 + y
      in word_of_int MOST_POSITIVE_FIXNUM AND (441516657 XOR xy XOR signed_drop_bit 5 xy))"

definition Bignum_hash :: "kernel \<Rightarrow> var \<Rightarrow> limb" where
  "Bignum_hash k z = mix (word_of_int (mpz_sgn (heap k) z)) (mpz_get_ui (heap k) z)"

text \<open>
  The hash values of objects other than integers are a parameter of class and identity, fixed while a table is used. In the
  code that of a cons depends on its contents (\<^verbatim>\<open>compute_hash\<close>), so the results on sequences of table operations are for
  keys that are not modified meanwhile.
\<close>

definition hash :: "(kind \<Rightarrow> nat \<Rightarrow> limb) \<Rightarrow> kernel \<Rightarrow> Value \<Rightarrow> limb" where
  "hash other k v =
     (case v of
        Fixnum w \<Rightarrow> xlong v AND word_of_int MOST_POSITIVE_FIXNUM
      | Bignum_ref z \<Rightarrow> Bignum_hash k z
      | Other c i \<Rightarrow> other c i)"

lemma hash_integer:
  assumes "int_value k a" "int_value k b" "int_of k a = int_of k b"
  shows "hash other k a = hash other k b"
  using assms(1)
proof (cases rule: int_cases)
  case a: (fixnum v)
  from assms(2) show ?thesis
  proof (cases rule: int_cases)
    case (fixnum w)
    then show ?thesis using a assms(3) fixnum_eq_iff [of k v w] by simp
  next
    case (bignum z)
    then show ?thesis using a assms(3) bignum_int by simp
  qed
next
  case a: (bignum y)
  from assms(2) show ?thesis
  proof (cases rule: int_cases)
    case (fixnum w)
    then show ?thesis using assms(3) a(1) bignum_int [of k y] a(2) by auto
  next
    case (bignum z)
    have ok: "mpz_ok (heap k) y" "mpz_ok (heap k) z" and v: "mpz_val (heap k) y = mpz_val (heap k) z"
      using a bignum assms(3) by (simp_all add: int_value.simps int_of.simps)
    have "sgn (SIZ (heap k) y) = sgn (SIZ (heap k) z)" using sgn_mpz_val [OF ok(1)] sgn_mpz_val [OF ok(2)] v by simp
    then have "mpz_sgn (heap k) y = mpz_sgn (heap k) z" by (auto simp: mpz_sgn_def sgn_if split: if_splits)
    moreover have "mpz_get_ui (heap k) y = mpz_get_ui (heap k) z"
      using mpz_get_ui_value [OF ok(1)] mpz_get_ui_value [OF ok(2)] v by (simp add: eq_limb_iff)
    ultimately show ?thesis using a bignum by (simp add: hash_def Bignum_hash_def)
  qed
qed

text \<open>On integers \<^verbatim>\<open>eql\<close> and this hash function satisfy the contract of a hash table.\<close>

interpretation eql_test: hash_test "eql other_eql k" "hash other k" "sized k" for other_eql other k
proof
  show "hash other k a = hash other k b" if "sized k a" "sized k b" "eql other_eql k a b" for a b
    using that eql_decides hash_integer sized_int_value by blast
qed (auto simp: eql_decides)

subsection \<open>The table with a cached index\<close>

text \<open>\<open>None\<close> is the cached key \<^verbatim>\<open>NULL_VALUE\<close>, which no key equals. New objects are filled with zeros by the collector.\<close>

record ('k, 'v) eq_hash_table = "('k, 'v) hash_table" +
  cached_key :: "'k option"
  cached_index :: nat

definition EqHashTable_init :: "'k \<Rightarrow> limb \<Rightarrow> ('k, 'v) eq_hash_table option" where
  "EqHashTable_init zero req =
     map_option (\<lambda>t. \<lparr>ht_capacity = ht_capacity t, ht_count = ht_count t, ht_threshold = ht_threshold t,
       ht_buckets = ht_buckets t, ht_mask = ht_mask t, cached_key = Some zero, cached_index = 0\<rparr>) (ht_init req)"

definition EqHashTable_index :: "('k \<Rightarrow> limb) \<Rightarrow> ('k, 'v) eq_hash_table \<Rightarrow> 'k \<Rightarrow> nat \<times> ('k, 'v) eq_hash_table" where
  "EqHashTable_index h t key =
     (if Some key = cached_key t then (cached_index t, t)
      else let index = bucket_index h (ht_mask t) key in (index, t\<lparr>cached_key := Some key, cached_index := index\<rparr>))"

definition EqHashTable_get :: "('k \<Rightarrow> limb) \<Rightarrow> ('k, 'v) eq_hash_table \<Rightarrow> 'k \<Rightarrow> 'v option \<times> ('k, 'v) eq_hash_table" where
  "EqHashTable_get h t key =
     (let (index, t) = EqHashTable_index h t key in (bucket_get (=) key (ht_buckets t ! index), t))"

definition EqHashTable_rehash :: "('k \<Rightarrow> limb) \<Rightarrow> ('k, 'v) eq_hash_table \<Rightarrow> ('k, 'v) eq_hash_table" where
  "EqHashTable_rehash h t = rehash1 h (t\<lparr>cached_key := None\<rparr>)"

definition EqHashTable_put :: "('k \<Rightarrow> limb) \<Rightarrow> ('k, 'v) eq_hash_table \<Rightarrow> 'k \<Rightarrow> 'v \<Rightarrow> ('k, 'v) eq_hash_table" where
  "EqHashTable_put h t key val =
     (let (index, t) = EqHashTable_index h t key
      in case bucket_set (=) key val (ht_buckets t ! index) of
           Some es \<Rightarrow> t\<lparr>ht_buckets := (ht_buckets t)[index := es]\<rparr>
         | None \<Rightarrow>
             let t = t\<lparr>ht_count := ht_count t + 1\<rparr>;
                 (index, t) =
                   (if ht_count t > ht_threshold t then
                      let t = EqHashTable_rehash h t; index = bucket_index h (ht_mask t) key
                      in (index, t\<lparr>cached_key := Some key, cached_index := index\<rparr>)
                    else (index, t))
             in t\<lparr>ht_buckets := (ht_buckets t)[index := (key, val) # ht_buckets t ! index]\<rparr>)"

definition EqHashTable_remove :: "('k \<Rightarrow> limb) \<Rightarrow> ('k, 'v) eq_hash_table \<Rightarrow> 'k \<Rightarrow> 'v option \<times> ('k, 'v) eq_hash_table" where
  "EqHashTable_remove h t key =
     (let (index, t) = EqHashTable_index h t key
      in case bucket_remove (=) key (ht_buckets t ! index) of
           Some (v, es) \<Rightarrow> (Some v, t\<lparr>ht_buckets := (ht_buckets t)[index := es], ht_count := ht_count t - 1\<rparr>)
         | None \<Rightarrow> (None, t))"

text \<open>The cached index is the bucket of the cached key.\<close>

definition cache_ok :: "('k \<Rightarrow> limb) \<Rightarrow> ('k, 'v) eq_hash_table \<Rightarrow> bool" where
  "cache_ok h t \<longleftrightarrow> (\<forall>key. cached_key t = Some key \<longrightarrow> cached_index t = bucket_index h (ht_mask t) key)"

lemma EqHashTable_index_ok:
  assumes "cache_ok h t" "EqHashTable_index h t key = (index, t')"
  shows "index = bucket_index h (ht_mask t) key" "hash_table.truncate t' = hash_table.truncate t" "cache_ok h t'"
    "ht_mask t' = ht_mask t" "ht_buckets t' = ht_buckets t" "ht_count t' = ht_count t" "ht_threshold t' = ht_threshold t"
  using assms by (auto simp: EqHashTable_index_def cache_ok_def Let_def hash_table.defs split: if_splits)

text \<open>
  The operations of the plain table for the test \<^verbatim>\<open>eq\<close> are the specification: forgetting the cache, every
  operation does what they do.
\<close>

definition eq_refines :: "('k \<Rightarrow> limb) \<Rightarrow> ('k, 'v) eq_hash_table \<Rightarrow> ('k, 'v) hash_table \<Rightarrow> bool" where
  "eq_refines h t s \<longleftrightarrow> cache_ok h t \<and> hash_table.truncate t = s"

lemma truncate_sel [simp]:
  "ht_capacity (hash_table.truncate t) = ht_capacity t" "ht_count (hash_table.truncate t) = ht_count t"
  "ht_threshold (hash_table.truncate t) = ht_threshold t" "ht_buckets (hash_table.truncate t) = ht_buckets t"
  "ht_mask (hash_table.truncate t) = ht_mask t"
  by (simp_all add: hash_table.defs)

lemma EqHashTable_get_refines:
  assumes "eq_refines h t s"
  shows "fst (EqHashTable_get h t key) = ht_get (=) h s key" "eq_refines h (snd (EqHashTable_get h t key)) s"
proof -
  obtain index t' where i: "EqHashTable_index h t key = (index, t')" by fastforce
  have "cache_ok h t" "s = hash_table.truncate t" using assms by (simp_all add: eq_refines_def)
  note e = EqHashTable_index_ok [OF this(1) i] this
  show "fst (EqHashTable_get h t key) = ht_get (=) h s key" "eq_refines h (snd (EqHashTable_get h t key)) s"
    using e by (simp_all add: EqHashTable_get_def i ht_get_def eq_refines_def)
qed

lemma EqHashTable_put_refines:
  assumes "eq_refines h t s"
  shows "eq_refines h (EqHashTable_put h t key v) (ht_put (=) h s key v)"
proof -
  obtain index t' where i: "EqHashTable_index h t key = (index, t')" by fastforce
  have "cache_ok h t" "s = hash_table.truncate t" using assms by (simp_all add: eq_refines_def)
  note e = EqHashTable_index_ok [OF this(1) i] this
  have "hash_table.truncate t' = s" "cache_ok h t'" "index = bucket_index h (ht_mask t') key" using e by simp_all
  then show ?thesis
    by (cases "bucket_set (=) key v (ht_buckets t' ! index)")
      (auto simp: EqHashTable_put_def i ht_put_def eq_refines_def Let_def ht_insert_def EqHashTable_rehash_def rehash1_def
        cache_ok_def hash_table.defs)
qed

lemma EqHashTable_remove_refines:
  assumes "eq_refines h t s"
  shows "fst (EqHashTable_remove h t key) = fst (ht_remove (=) h s key)"
    "eq_refines h (snd (EqHashTable_remove h t key)) (snd (ht_remove (=) h s key))"
proof -
  obtain index t' where i: "EqHashTable_index h t key = (index, t')" by fastforce
  have "cache_ok h t" "s = hash_table.truncate t" using assms by (simp_all add: eq_refines_def)
  note e = EqHashTable_index_ok [OF this(1) i] this
  show "fst (EqHashTable_remove h t key) = fst (ht_remove (=) h s key)"
    "eq_refines h (snd (EqHashTable_remove h t key)) (snd (ht_remove (=) h s key))"
    using e by (auto simp: EqHashTable_remove_def i ht_remove_def eq_refines_def cache_ok_def hash_table.defs
        split: option.splits)
qed

lemma EqHashTable_clear_refines: "eq_refines h t s \<Longrightarrow> eq_refines h (ht_clear t) (ht_clear s)"
  by (auto simp: eq_refines_def cache_ok_def ht_clear_def hash_table.defs)

lemma EqHashTable_init_refines:
  assumes "EqHashTable_init zero req = Some t" "h zero = 0"
  shows "\<exists>s. ht_init req = Some s \<and> eq_refines h t s"
  using assms
  by (auto simp: EqHashTable_init_def eq_refines_def cache_ok_def bucket_index_def hash_table.defs)

text \<open>Any sequence of operations of the class behaves as on a map.\<close>

fun eq_step :: "('k \<Rightarrow> limb) \<Rightarrow> ('k, 'v) ht_op \<Rightarrow> ('k, 'v) eq_hash_table \<Rightarrow> 'v ht_output \<times> ('k, 'v) eq_hash_table" where
  "eq_step h (Gethash k) t = (let (r, t) = EqHashTable_get h t k in (Val r, t))"
| "eq_step h (Puthash k v) t = (Done, EqHashTable_put h t k v)"
| "eq_step h (Remhash k) t = (let (r, t) = EqHashTable_remove h t k in (Val r, t))"
| "eq_step h Clrhash t = (Done, ht_clear t)"
| "eq_step h Hash_count t = (Num (ht_count t), t)"

lemma eq_step_refines:
  assumes "eq_refines h t s"
  shows "fst (eq_step h i t) = fst (ht_step (=) h i s) \<and> eq_refines h (snd (eq_step h i t)) (snd (ht_step (=) h i s))"
  using assms EqHashTable_get_refines [OF assms] EqHashTable_put_refines [OF assms] EqHashTable_remove_refines [OF assms]
    EqHashTable_clear_refines [OF assms]
  by (cases i) (auto simp: split_beta Let_def eq_refines_def)

lemma eq_outputs: "eq_refines h t s \<Longrightarrow> outputs (eq_step h) is t = outputs (ht_step (=) h) is s"
  by (rule outputs_simulation [where R = "eq_refines h"]) (rule eq_step_refines)

lemma hash_zero: "hash other k (Fixnum 0) = 0"
  by (simp add: hash_def xlong.simps)

lemma EqHashTable_init_represents:
  fixes h :: "'k \<Rightarrow> limb"
  assumes "uint req \<le> 2 ^ 63" "h zero = 0"
  shows "\<exists>(t :: ('k, 'v) eq_hash_table) s. EqHashTable_init zero req = Some t \<and> eq_refines h t s \<and> ht_represents (=) h (\<lambda>_. True) s (\<lambda>_. None, 0)"
proof -
  obtain s :: "('k, 'v) hash_table" where s: "ht_init req = Some s" using ht_init_returns [OF assms(1)] by blast
  then have "EqHashTable_init zero req \<noteq> (None :: ('k, 'v) eq_hash_table option)" by (simp add: EqHashTable_init_def)
  then obtain t :: "('k, 'v) eq_hash_table" where t: "EqHashTable_init zero req = Some t" by blast
  then have "eq_refines h t s" using EqHashTable_init_refines [where h = h, OF t assms(2)] s by simp
  then show ?thesis using t eq_test.init_represents [OF s assms(1)] by blast
qed

end
