(* ===== verification/Symbol_Table.thy ===== *)
theory Symbol_Table
  imports Hash_Table Kernel_Value "HOL-Library.Multiset"
begin

unbundle bit_operations_syntax

text \<open>
  The tables of the symbols of a package (\<^verbatim>\<open>kernel/SymbolHashTable.hpp\<close>, \<^verbatim>\<open>SymbolHashTable.cpp\<close>, with
  \<^verbatim>\<open>SYMBOL_HASH_TABLE_OPEN_ADDRESSING\<close> as the header defines it): open addressing with linear probing, in which a
  removed symbol leaves the mark \<^verbatim>\<open>DELETED\<close>. A symbol is its address and its name; the field in which a symbol keeps
  the hash value of its name, computed on first use, is not part of the model.
\<close>

type_synonym symbol_name = "8 word list"

datatype symbol = Symbol (sym_address: nat) (sym_name: symbol_name)

datatype slot = NULL | DELETED | Sym symbol

record symbol_table =
  st_threshold :: nat
  st_buckets :: "slot list"
  st_capacity :: nat
  st_count :: nat
  st_mask :: nat

subsection \<open>Hash values\<close>

definition hash_char :: "limb \<Rightarrow> 8 word \<Rightarrow> limb" where
  "hash_char hashcode c =
     (let hashcode = hashcode + ucast c;
          hashcode = hashcode + push_bit 10 hashcode
      in hashcode XOR signed_drop_bit 6 hashcode)"

definition SimpleString_hash :: "symbol_name \<Rightarrow> limb" where
  "SimpleString_hash chars =
     (let hashcode = foldl hash_char 0 chars;
          hashcode = hashcode + push_bit 3 hashcode;
          hashcode = hashcode XOR signed_drop_bit 11 hashcode;
          hashcode = hashcode + push_bit 15 hashcode
      in hashcode AND word_of_int MOST_POSITIVE_FIXNUM)"

definition Symbol_hash :: "symbol \<Rightarrow> limb" where
  "Symbol_hash s = SimpleString_hash (sym_name s)"

subsection \<open>Operations\<close>

definition st_init :: "limb \<Rightarrow> symbol_table option" where
  "st_init req = do {
     c \<leftarrow> calculate_initial_capacity req;
     let capacity = unat c;
     Some \<lparr>st_threshold = load_threshold capacity, st_buckets = replicate capacity NULL, st_capacity = capacity,
           st_count = 0, st_mask = capacity - 1\<rparr>
   }"

text \<open>The slots in the order in which a loop visits them.\<close>

definition probe :: "nat \<Rightarrow> nat \<Rightarrow> nat list" where
  "probe index limit = map (\<lambda>i. (index + i) mod limit) [0..<limit]"

fun get_loop :: "symbol_name \<Rightarrow> slot list \<Rightarrow> nat list \<Rightarrow> symbol option" where
  "get_loop key buckets [] = None"
| "get_loop key buckets (j # js) =
     (case buckets ! j of
        NULL \<Rightarrow> None
      | DELETED \<Rightarrow> get_loop key buckets js
      | Sym sy \<Rightarrow> if key = sym_name sy then Some sy else get_loop key buckets js)"

definition st_get :: "symbol_table \<Rightarrow> symbol_name \<Rightarrow> symbol option" where
  "st_get t key =
     get_loop key (st_buckets t) (probe (bucket_index SimpleString_hash (st_mask t) key) (st_capacity t))"

text \<open>The buckets after the loop, and whether the count goes up.\<close>

fun put_loop :: "symbol \<Rightarrow> slot list \<Rightarrow> nat list \<Rightarrow> slot list \<times> bool" where
  "put_loop s buckets [] = (buckets, False)"
| "put_loop s buckets (j # js) =
     (case buckets ! j of
        Sym sy \<Rightarrow>
          if sym_name s = sym_name sy then (if sy \<noteq> s then buckets[j := Sym s] else buckets, False)
          else put_loop s buckets js
      | _ \<Rightarrow> (buckets[j := Sym s], True))"

fun rehash_loop :: "symbol \<Rightarrow> slot list \<Rightarrow> nat list \<Rightarrow> slot list" where
  "rehash_loop s buckets [] = buckets"
| "rehash_loop s buckets (k # ks) =
     (case buckets ! k of Sym sy \<Rightarrow> rehash_loop s buckets ks | _ \<Rightarrow> buckets[k := Sym s])"

definition rehash_slot :: "nat \<Rightarrow> slot \<Rightarrow> slot list \<Rightarrow> slot list" where
  "rehash_slot new_capacity sl buckets =
     (case sl of
        Sym s \<Rightarrow> rehash_loop s buckets (probe (bucket_index Symbol_hash (new_capacity - 1) s) new_capacity)
      | _ \<Rightarrow> buckets)"

definition st_rehash :: "symbol_table \<Rightarrow> symbol_table" where
  "st_rehash t =
     (let new_capacity = st_capacity t * 2
      in t\<lparr>st_buckets := fold (rehash_slot new_capacity) (rev (st_buckets t)) (replicate new_capacity NULL),
           st_capacity := new_capacity,
           st_threshold := load_threshold new_capacity,
           st_mask := new_capacity - 1\<rparr>)"

definition st_put :: "symbol_table \<Rightarrow> symbol \<Rightarrow> symbol_table" where
  "st_put t s =
     (let t = (if st_count t \<ge> st_threshold t then st_rehash t else t);
          index = bucket_index Symbol_hash (st_mask t) s;
          (buckets, added) = put_loop s (st_buckets t) (probe index (st_capacity t))
      in t\<lparr>st_buckets := buckets, st_count := st_count t + of_bool added\<rparr>)"

fun remove_loop :: "symbol_name \<Rightarrow> slot list \<Rightarrow> nat list \<Rightarrow> (symbol \<times> slot list) option" where
  "remove_loop key buckets [] = None"
| "remove_loop key buckets (j # js) =
     (case buckets ! j of
        NULL \<Rightarrow> None
      | DELETED \<Rightarrow> remove_loop key buckets js
      | Sym sy \<Rightarrow> if key = sym_name sy then Some (sy, buckets[j := DELETED]) else remove_loop key buckets js)"

definition st_remove :: "symbol_table \<Rightarrow> symbol \<Rightarrow> symbol option \<times> symbol_table" where
  "st_remove t s =
     (case remove_loop (sym_name s) (st_buckets t) (probe (bucket_index Symbol_hash (st_mask t) s) (st_capacity t)) of
        Some (sy, buckets) \<Rightarrow> (Some sy, t\<lparr>st_buckets := buckets, st_count := st_count t - 1\<rparr>)
      | None \<Rightarrow> (None, t))"

definition st_symbols :: "symbol_table \<Rightarrow> symbol list" where
  "st_symbols t = fold (\<lambda>sl list. case sl of Sym s \<Rightarrow> s # list | _ \<Rightarrow> list) (rev (st_buckets t)) []"

subsection \<open>The probe sequence\<close>

lemma set_probe: "0 < n \<Longrightarrow> set (probe i n) = {..<n}"
proof -
  assume n: "0 < n"
  have "j \<in> set (probe i n)" if "j < n" for j
  proof -
    have "(i + (j + n - i mod n) mod n) mod n = (i mod n + (j + n - i mod n)) mod n" by (simp add: mod_add_eq mod_simps)
    also have "i mod n + (j + n - i mod n) = j + n" using mod_less_divisor [OF n, of i] by linarith
    finally have "(i + (j + n - i mod n) mod n) mod n = j" using that by simp
    then show ?thesis unfolding probe_def using n by (auto intro!: image_eqI [of _ _ "(j + n - i mod n) mod n"])
  qed
  then show ?thesis using n by (auto simp: probe_def)
qed

lemma distinct_probe: "distinct (probe i n)"
proof (cases "n = 0")
  case False
  have "card (set (probe i n)) = length (probe i n)" using set_probe [of n i] False by (simp add: probe_def)
  then show ?thesis by (rule card_distinct)
qed (simp add: probe_def)

subsection \<open>What the loops do\<close>

lemma get_loop_Some:
  "get_loop key bs js = Some s \<longleftrightarrow>
     (\<exists>as j cs. js = as @ j # cs \<and> bs ! j = Sym s \<and> sym_name s = key \<and>
        (\<forall>i \<in> set as. bs ! i \<noteq> NULL \<and> (\<forall>s'. bs ! i = Sym s' \<longrightarrow> sym_name s' \<noteq> key)))" (is "_ \<longleftrightarrow> ?R js")
proof (induction js)
  case (Cons j js)
  have R: "?R (j # js) \<longleftrightarrow> bs ! j = Sym s \<and> sym_name s = key \<or>
      bs ! j \<noteq> NULL \<and> (\<forall>s'. bs ! j = Sym s' \<longrightarrow> sym_name s' \<noteq> key) \<and> ?R js"
    by (subst Cons_eq_append_conv) (auto 0 4)
  show ?case unfolding R Cons.IH [symmetric] by (auto split: slot.splits)
qed simp

lemma remove_loop_get:
  "map_option fst (remove_loop key bs js) = get_loop key bs js"
  by (induction js) (auto split: slot.splits)

lemma remove_loop_Some:
  "remove_loop key bs js = Some (s, bs') \<Longrightarrow> \<exists>j \<in> set js. bs ! j = Sym s \<and> sym_name s = key \<and> bs' = bs[j := DELETED]"
  by (induction js) (auto split: slot.splits if_splits)

definition free :: "slot \<Rightarrow> bool" where
  "free sl \<longleftrightarrow> sl = NULL \<or> sl = DELETED"

lemma free_iff: "free sl \<longleftrightarrow> (\<forall>s. sl \<noteq> Sym s)"
  by (cases sl) (simp_all add: free_def)

text \<open>A new symbol goes to the first free slot, or over a symbol of its name.\<close>

lemma put_loop_split:
  assumes "\<exists>j \<in> set js. free (bs ! j)"
  shows "\<exists>as j cs added. js = as @ j # cs \<and> (\<forall>i \<in> set as. \<exists>s'. bs ! i = Sym s' \<and> sym_name s' \<noteq> sym_name s) \<and>
    put_loop s bs js = (bs[j := Sym s], added) \<and>
    (if added then free (bs ! j) else \<exists>s'. bs ! j = Sym s' \<and> sym_name s' = sym_name s)"
  using assms
proof (induction js)
  case (Cons j js)
  show ?case
  proof (cases "\<exists>s'. bs ! j = Sym s' \<and> sym_name s' \<noteq> sym_name s")
    case True
    then obtain s' where s': "bs ! j = Sym s'" "sym_name s' \<noteq> sym_name s" by blast
    then have "\<exists>j \<in> set js. free (bs ! j)" using Cons.prems by (simp add: free_iff)
    from Cons.IH [OF this] obtain as i cs added where IH: "js = as @ i # cs"
      "\<forall>i \<in> set as. \<exists>s'. bs ! i = Sym s' \<and> sym_name s' \<noteq> sym_name s" "put_loop s bs js = (bs[i := Sym s], added)"
      "if added then free (bs ! i) else \<exists>s'. bs ! i = Sym s' \<and> sym_name s' = sym_name s" by blast
    then show ?thesis using s' by (intro exI [of _ "j # as"] exI [of _ i] exI [of _ cs] exI [of _ added]) simp
  next
    case False
    have "put_loop s bs (j # js) = (bs[j := Sym s], free (bs ! j))"
    proof (cases "bs ! j")
      case (Sym s')
      then show ?thesis using False list_update_id [of bs j] by (auto simp: free_def)
    qed (simp_all add: free_def)
    then show ?thesis using False by (intro exI [of _ "[]"] exI [of _ j] exI [of _ js] exI [of _ "free (bs ! j)"]) (auto simp: free_iff)
  qed
qed simp

lemma rehash_loop_split:
  assumes "\<exists>j \<in> set js. free (bs ! j)"
  shows "\<exists>as j cs. js = as @ j # cs \<and> (\<forall>i \<in> set as. \<not> free (bs ! i)) \<and> free (bs ! j) \<and> rehash_loop s bs js = bs[j := Sym s]"
  using assms
proof (induction js)
  case (Cons j js)
  show ?case
  proof (cases "free (bs ! j)")
    case True
    then show ?thesis by (intro exI [of _ "[]"] exI [of _ j] exI [of _ js]) (auto simp: free_def)
  next
    case False
    then have "\<exists>j \<in> set js. free (bs ! j)" using Cons.prems by simp
    from Cons.IH [OF this] obtain as i cs where "js = as @ i # cs" "\<forall>i \<in> set as. \<not> free (bs ! i)" "free (bs ! i)"
      "rehash_loop s bs js = bs[i := Sym s]" by blast
    then show ?thesis using False by (intro exI [of _ "j # as"] exI [of _ i] exI [of _ cs]) (auto simp: free_iff)
  qed
qed simp

subsection \<open>The invariant\<close>

fun slot_symbols :: "slot \<Rightarrow> symbol list" where
  "slot_symbols (Sym s) = [s]"
| "slot_symbols _ = []"

definition lives :: "slot list \<Rightarrow> symbol multiset" where
  "lives bs = mset (concat (map slot_symbols bs))"

text \<open>No slot on the way to a symbol has never been used, so a search does not stop before it.\<close>

definition reached :: "nat \<Rightarrow> slot list \<Rightarrow> bool" where
  "reached n bs \<longleftrightarrow>
     (\<forall>j s. j < length bs \<and> bs ! j = Sym s \<longrightarrow>
       (\<exists>as cs. probe (bucket_index Symbol_hash (n - 1) s) n = as @ j # cs \<and> (\<forall>i \<in> set as. bs ! i \<noteq> NULL)))"

definition st_ok :: "symbol_table \<Rightarrow> bool" where
  "st_ok t \<longleftrightarrow>
     (\<exists>n. st_capacity t = 2 ^ n) \<and> st_mask t = st_capacity t - 1 \<and> length (st_buckets t) = st_capacity t \<and>
     st_threshold t = load_threshold (st_capacity t) \<and> st_count t = size (lives (st_buckets t)) \<and>
     st_count t \<le> st_threshold t \<and> reached (st_capacity t) (st_buckets t)"

definition unique_names :: "slot list \<Rightarrow> bool" where
  "unique_names bs \<longleftrightarrow> (\<forall>k. count (image_mset sym_name (lives bs)) k \<le> 1)"

lemma symbols_lives: "mset (st_symbols t) = lives (st_buckets t)"
proof -
  have "fold (\<lambda>sl list. case sl of Sym s \<Rightarrow> s # list | _ \<Rightarrow> list) (rev bs) [] = concat (map slot_symbols bs)" for bs
    by (induction bs) (auto split: slot.splits)
  then show ?thesis by (simp add: st_symbols_def lives_def)
qed

lemma lives_simps [simp]: "lives [] = {#}" "lives (sl # bs) = mset (slot_symbols sl) + lives bs" "lives (as @ bs) = lives as + lives bs"
  by (simp_all add: lives_def)

lemma lives_replicate [simp]: "lives (replicate n NULL) = {#}"
  by (induction n) simp_all

lemma in_lives: "s \<in># lives bs \<longleftrightarrow> (\<exists>j < length bs. bs ! j = Sym s)"
proof -
  have "s \<in> set (slot_symbols sl) \<longleftrightarrow> sl = Sym s" for sl by (cases sl) auto
  then show ?thesis by (auto simp: lives_def in_set_conv_nth)
qed

lemma lives_update:
  "j < length bs \<Longrightarrow> lives (bs[j := sl]) + mset (slot_symbols (bs ! j)) = lives bs + mset (slot_symbols sl)"
  by (induction bs arbitrary: j) (auto split: nat.splits)

lemma free_symbols: "free sl \<Longrightarrow> slot_symbols sl = []"
  by (auto simp: free_def)

lemma lives_full: "\<forall>j < length bs. \<not> free (bs ! j) \<Longrightarrow> size (lives bs) = length bs"
proof (induction bs)
  case (Cons sl bs)
  have "\<not> free sl" using Cons.prems by (metis length_Cons nth_Cons_0 zero_less_Suc)
  then have "size (mset (slot_symbols sl)) = 1" by (cases sl) (auto simp: free_def)
  moreover have "\<forall>j < length bs. \<not> free (bs ! j)" using Cons.prems by (metis Suc_less_eq length_Cons nth_Cons_Suc)
  ultimately show ?case using Cons.IH by simp
qed simp

lemma unique_slot:
  assumes "unique_names bs" "i < length bs" "j < length bs" "bs ! i = Sym s" "bs ! j = Sym s'" "sym_name s = sym_name s'"
  shows "i = j"
proof (rule ccontr)
  assume "i \<noteq> j"
  let ?b = "bs[i := NULL]"
  have "s' \<in># lives ?b" using in_lives [of s' ?b] assms(3,5) \<open>i \<noteq> j\<close> by auto
  then have "1 \<le> count (image_mset sym_name (lives ?b)) (sym_name s)" using assms(6) by (simp add: Suc_le_eq)
  moreover have "lives bs = add_mset s (lives ?b)" using lives_update [OF assms(2), of NULL] assms(4) by simp
  then have "count (image_mset sym_name (lives bs)) (sym_name s) = Suc (count (image_mset sym_name (lives ?b)) (sym_name s))" by simp
  moreover have "count (image_mset sym_name (lives bs)) (sym_name s) \<le> 1" using assms(1) unfolding unique_names_def by blast
  ultimately show False by linarith
qed

lemma reached_update:
  assumes "reached n bs" "j < length bs" "sl \<noteq> NULL"
    and "\<And>s. sl = Sym s \<Longrightarrow> \<exists>as cs. probe (bucket_index Symbol_hash (n - 1) s) n = as @ j # cs \<and> (\<forall>i \<in> set as. bs ! i \<noteq> NULL)"
  shows "reached n (bs[j := sl])"
  unfolding reached_def
proof (intro allI impI)
  fix i s
  assume "i < length (bs[j := sl]) \<and> bs[j := sl] ! i = Sym s"
  then have i: "i < length bs" "if i = j then sl = Sym s else bs ! i = Sym s" using assms(2) by (auto split: if_splits)
  have "\<exists>as cs. probe (bucket_index Symbol_hash (n - 1) s) n = as @ i # cs \<and> (\<forall>l \<in> set as. bs ! l \<noteq> NULL)"
  proof (cases "i = j")
    case True
    then show ?thesis using i(2) assms(4) by simp
  next
    case False
    then show ?thesis using i assms(1) unfolding reached_def by auto
  qed
  moreover have "bs[j := sl] ! l \<noteq> NULL" if "bs ! l \<noteq> NULL" for l using that assms(2,3) by (cases "l = j") auto
  ultimately show "\<exists>as cs. probe (bucket_index Symbol_hash (n - 1) s) n = as @ i # cs \<and> (\<forall>l \<in> set as. bs[j := sl] ! l \<noteq> NULL)" by blast
qed

lemma free_slot:
  assumes "size (lives bs) < length bs" "length bs = n"
  shows "\<exists>j \<in> set (probe i n). free (bs ! j)"
proof -
  obtain j where "j < n" "free (bs ! j)" using assms lives_full [of bs] by (metis nat_neq_iff)
  then show ?thesis using set_probe [of n i] by auto
qed

subsection \<open>Doubling a table\<close>

lemma rehash_slot_ok:
  assumes "reached n bs" "length bs = n" "size (lives bs) < n"
  shows "reached n (rehash_slot n sl bs)" "length (rehash_slot n sl bs) = n"
    "lives (rehash_slot n sl bs) = lives bs + mset (slot_symbols sl)"
proof -
  have "reached n (rehash_slot n sl bs) \<and> length (rehash_slot n sl bs) = n \<and> lives (rehash_slot n sl bs) = lives bs + mset (slot_symbols sl)"
  proof (cases sl)
    case (Sym s)
    let ?p = "probe (bucket_index Symbol_hash (n - 1) s) n"
    obtain as j cs where p: "?p = as @ j # cs" "\<forall>i \<in> set as. \<not> free (bs ! i)" "free (bs ! j)" "rehash_loop s bs ?p = bs[j := Sym s]"
      using rehash_loop_split [OF free_slot, of bs n "bucket_index Symbol_hash (n - 1) s" s] assms by blast
    have j: "j < length bs" using set_probe [of n] p(1) assms(2,3) by (metis gr_implies_not0 in_set_conv_decomp lessThan_iff neq0_conv)
    have "reached n (bs[j := Sym s])" using p(1,2) by (intro reached_update [OF assms(1) j]) (auto simp: free_def)
    then show ?thesis using lives_update [OF j, of "Sym s"] assms(2) p by (simp add: rehash_slot_def Sym free_symbols)
  qed (use assms in \<open>simp_all add: rehash_slot_def\<close>)
  then show "reached n (rehash_slot n sl bs)" "length (rehash_slot n sl bs) = n"
    "lives (rehash_slot n sl bs) = lives bs + mset (slot_symbols sl)" by simp_all
qed

lemma rehash_slots_ok:
  assumes "reached n bs" "length bs = n" "size (lives bs + lives sls) < n"
  shows "reached n (fold (rehash_slot n) sls bs) \<and> length (fold (rehash_slot n) sls bs) = n \<and>
    lives (fold (rehash_slot n) sls bs) = lives bs + lives sls"
  using assms
proof (induction sls arbitrary: bs)
  case (Cons sl sls)
  note r = rehash_slot_ok [OF Cons.prems(1,2), of sl]
  have "size (lives bs) < n" using Cons.prems(3) by simp
  then show ?case using Cons.IH [of "rehash_slot n sl bs"] r Cons.prems(3) by (simp add: add_ac)
qed simp

lemma lives_rev: "lives (rev bs) = lives bs"
  by (induction bs) simp_all

lemma threshold_less: "0 < c \<Longrightarrow> load_threshold c < c"
  by (simp add: load_threshold_def)

lemma st_rehash_ok:
  assumes "st_ok t"
  shows "st_ok (st_rehash t)" "lives (st_buckets (st_rehash t)) = lives (st_buckets t)" "st_count (st_rehash t) = st_count t"
    "st_count t < st_threshold (st_rehash t)"
proof -
  let ?n = "st_capacity t * 2"
  obtain e where e: "st_capacity t = 2 ^ e" using assms by (auto simp: st_ok_def)
  have "reached ?n (replicate ?n NULL)" by (auto simp: reached_def)
  moreover have "size (lives (st_buckets t)) < ?n"
    using assms threshold_less [of "st_capacity t"] e by (simp add: st_ok_def)
  ultimately have r: "reached ?n (st_buckets (st_rehash t)) \<and> length (st_buckets (st_rehash t)) = ?n \<and>
      lives (st_buckets (st_rehash t)) = lives (st_buckets t)"
    using rehash_slots_ok [of ?n "replicate ?n NULL" "rev (st_buckets t)"] by (simp add: lives_rev st_rehash_def Let_def)
  then show "lives (st_buckets (st_rehash t)) = lives (st_buckets t)" by simp
  show c: "st_count (st_rehash t) = st_count t" by (simp add: st_rehash_def Let_def)
  have s: "st_capacity (st_rehash t) = ?n" "st_threshold (st_rehash t) = load_threshold ?n" "st_mask (st_rehash t) = ?n - 1"
    by (simp_all add: st_rehash_def Let_def)
  show lt: "st_count t < st_threshold (st_rehash t)"
    using assms threshold_grows [of "st_capacity t"] e s by (simp add: st_ok_def)
  show "st_ok (st_rehash t)"
    using r s c lt e assms unfolding st_ok_def by (auto intro!: exI [of _ "Suc e"])
qed

subsection \<open>What the operations do\<close>

lemma st_get_Some: "st_ok t \<Longrightarrow> st_get t k = Some s \<Longrightarrow> s \<in># lives (st_buckets t) \<and> sym_name s = k"
proof -
  assume ok: "st_ok t" and "st_get t k = Some s"
  then obtain as j cs where "probe (bucket_index SimpleString_hash (st_mask t) k) (st_capacity t) = as @ j # cs"
    "st_buckets t ! j = Sym s" "sym_name s = k"
    unfolding st_get_def get_loop_Some by blast
  moreover from this(1) have "j \<in> set (probe (bucket_index SimpleString_hash (st_mask t) k) (st_capacity t))" by simp
  then have "j < length (st_buckets t)" using ok set_probe [of "st_capacity t"] by (auto simp: st_ok_def)
  ultimately show ?thesis using in_lives by blast
qed

lemma symbol_index: "bucket_index Symbol_hash m s = bucket_index SimpleString_hash m (sym_name s)"
  by (simp add: bucket_index_def Symbol_hash_def)

lemma get_loop_finds:
  assumes "js = as @ j # cs" "bs ! j = Sym s" "\<forall>i \<in> set as. bs ! i \<noteq> NULL" "sym_name s = key"
  shows "get_loop key bs js \<noteq> None"
  unfolding assms(1) using assms(2-) by (induction as) (auto split: slot.splits)

lemma st_get_None:
  assumes "st_ok t"
  shows "st_get t k = None \<longleftrightarrow> (\<forall>s. s \<in># lives (st_buckets t) \<longrightarrow> sym_name s \<noteq> k)"
proof
  assume n: "st_get t k = None"
  show "\<forall>s. s \<in># lives (st_buckets t) \<longrightarrow> sym_name s \<noteq> k"
  proof (intro allI impI notI)
    fix s assume "s \<in># lives (st_buckets t)" and k: "sym_name s = k"
    then obtain j where j: "j < length (st_buckets t)" "st_buckets t ! j = Sym s" using in_lives by blast
    then obtain as cs where "probe (bucket_index Symbol_hash (st_mask t) s) (st_capacity t) = as @ j # cs" "\<forall>i \<in> set as. st_buckets t ! i \<noteq> NULL"
      using assms unfolding st_ok_def reached_def by metis
    from get_loop_finds [OF this(1) j(2) this(2) k] n show False by (simp add: st_get_def symbol_index k)
  qed
next
  show "\<forall>s. s \<in># lives (st_buckets t) \<longrightarrow> sym_name s \<noteq> k \<Longrightarrow> st_get t k = None"
    using st_get_Some [OF assms] by (metis not_None_eq)
qed

lemma unique_symbol:
  assumes "unique_names bs" "s \<in># lives bs" "s' \<in># lives bs" "sym_name s = sym_name s'"
  shows "s = s'"
  using assms unique_slot [OF assms(1)] unfolding in_lives by (metis slot.inject)

lemma st_get_iff:
  assumes "st_ok t" "unique_names (st_buckets t)"
  shows "st_get t k = Some s \<longleftrightarrow> s \<in># lives (st_buckets t) \<and> sym_name s = k"
  using st_get_Some [OF assms(1)] st_get_None [OF assms(1)] unique_symbol [OF assms(2)] by (metis not_None_eq)

definition st_grown :: "symbol_table \<Rightarrow> symbol_table" where
  "st_grown t = (if st_count t \<ge> st_threshold t then st_rehash t else t)"

lemma st_grown_ok:
  assumes "st_ok t"
  shows "st_ok (st_grown t)" "lives (st_buckets (st_grown t)) = lives (st_buckets t)" "st_count (st_grown t) < st_threshold (st_grown t)"
  using st_rehash_ok [OF assms] assms by (simp_all add: st_grown_def)

text \<open>The slot in which a symbol is stored: all slots before it hold symbols of other names.\<close>

lemma st_put_slot:
  assumes "st_ok t"
  shows "\<exists>as j cs added. probe (bucket_index Symbol_hash (st_mask (st_grown t)) s) (st_capacity (st_grown t)) = as @ j # cs \<and>
    j < length (st_buckets (st_grown t)) \<and>
    (\<forall>i \<in> set as. \<exists>s'. st_buckets (st_grown t) ! i = Sym s' \<and> sym_name s' \<noteq> sym_name s) \<and>
    (if added then free (st_buckets (st_grown t) ! j) else \<exists>s'. st_buckets (st_grown t) ! j = Sym s' \<and> sym_name s' = sym_name s) \<and>
    st_put t s = (st_grown t)\<lparr>st_buckets := (st_buckets (st_grown t))[j := Sym s], st_count := st_count (st_grown t) + of_bool added\<rparr>"
proof -
  let ?t = "st_grown t"
  let ?p = "probe (bucket_index Symbol_hash (st_mask ?t) s) (st_capacity ?t)"
  note g = st_grown_ok [OF assms]
  have ok: "0 < st_capacity ?t" "length (st_buckets ?t) = st_capacity ?t" "size (lives (st_buckets ?t)) < length (st_buckets ?t)"
    using g(1,3) threshold_less [of "st_capacity ?t"] by (auto simp: st_ok_def)
  obtain as j cs added where p: "?p = as @ j # cs" "\<forall>i \<in> set as. \<exists>s'. st_buckets ?t ! i = Sym s' \<and> sym_name s' \<noteq> sym_name s"
    "put_loop s (st_buckets ?t) ?p = ((st_buckets ?t)[j := Sym s], added)"
    "if added then free (st_buckets ?t ! j) else \<exists>s'. st_buckets ?t ! j = Sym s' \<and> sym_name s' = sym_name s"
    using put_loop_split [OF free_slot [OF ok(3,2)]] by blast
  have "j \<in> set ?p" using p(1) by simp
  then have "j < length (st_buckets ?t)" using set_probe [OF ok(1)] ok(2) by auto
  moreover have "st_put t s = ?t\<lparr>st_buckets := (st_buckets ?t)[j := Sym s], st_count := st_count ?t + of_bool added\<rparr>"
    unfolding st_put_def Let_def st_grown_def [symmetric] p(3) by simp
  ultimately show ?thesis using p(1,2,4) by blast
qed

lemma stored_lives:
  assumes j: "j < length bs" and a: "if added then free (bs ! j) else \<exists>s'. bs ! j = Sym s' \<and> sym_name s' = sym_name s"
  shows "if added then lives (bs[j := Sym s]) = add_mset s (lives bs)
      else \<exists>s' \<in># lives bs. sym_name s' = sym_name s \<and> add_mset s' (lives (bs[j := Sym s])) = add_mset s (lives bs)"
    "size (lives (bs[j := Sym s])) = size (lives bs) + of_bool added"
proof -
  note u = lives_update [OF j, of "Sym s"]
  show "if added then lives (bs[j := Sym s]) = add_mset s (lives bs)
      else \<exists>s' \<in># lives bs. sym_name s' = sym_name s \<and> add_mset s' (lives (bs[j := Sym s])) = add_mset s (lives bs)"
  proof (cases added)
    case False
    then obtain s' where s': "bs ! j = Sym s'" "sym_name s' = sym_name s" using a by auto
    then have "s' \<in># lives bs" using in_lives j by blast
    then show ?thesis using False s' u by (auto intro!: bexI [of _ s'])
  qed (use a u in \<open>simp add: free_symbols\<close>)
  have "length (slot_symbols (bs ! j)) = of_bool (\<not> added)" using a by (auto simp: free_symbols)
  then show "size (lives (bs[j := Sym s])) = size (lives bs) + of_bool added"
    using arg_cong [OF u, of size] by (cases added) simp_all
qed

lemma st_put_ok:
  assumes "st_ok t"
  shows "st_ok (st_put t s)" "st_get (st_put t s) (sym_name s) = Some s"
    "lives (st_buckets (st_put t s)) = add_mset s (lives (st_buckets t)) \<or>
     (\<exists>s' \<in># lives (st_buckets t). sym_name s' = sym_name s \<and> add_mset s' (lives (st_buckets (st_put t s))) = add_mset s (lives (st_buckets t)))"
proof -
  let ?t = "st_grown t"
  note g = st_grown_ok [OF assms]
  obtain as j cs added where p: "probe (bucket_index Symbol_hash (st_mask ?t) s) (st_capacity ?t) = as @ j # cs"
    and j: "j < length (st_buckets ?t)" and as: "\<forall>i \<in> set as. \<exists>s'. st_buckets ?t ! i = Sym s' \<and> sym_name s' \<noteq> sym_name s"
    and a: "if added then free (st_buckets ?t ! j) else \<exists>s'. st_buckets ?t ! j = Sym s' \<and> sym_name s' = sym_name s"
    and put: "st_put t s = ?t\<lparr>st_buckets := (st_buckets ?t)[j := Sym s], st_count := st_count ?t + of_bool added\<rparr>"
    using st_put_slot [OF assms, of s] by blast
  let ?b = "(st_buckets ?t)[j := Sym s]"
  note l = stored_lives [OF j a, unfolded g(2)]
  show "lives (st_buckets (st_put t s)) = add_mset s (lives (st_buckets t)) \<or>
     (\<exists>s' \<in># lives (st_buckets t). sym_name s' = sym_name s \<and> add_mset s' (lives (st_buckets (st_put t s))) = add_mset s (lives (st_buckets t)))"
    unfolding put using l(1) by (auto split: if_splits)
  have "reached (st_capacity ?t) ?b"
  proof (rule reached_update [OF _ j])
    show "reached (st_capacity ?t) (st_buckets ?t)" using g(1) by (simp add: st_ok_def)
    show "\<exists>as cs. probe (bucket_index Symbol_hash (st_capacity ?t - 1) s') (st_capacity ?t) = as @ j # cs \<and> (\<forall>i \<in> set as. st_buckets ?t ! i \<noteq> NULL)"
      if "Sym s = Sym s'" for s' using that p as g(1) by (intro exI [of _ as] exI [of _ cs]) (auto simp: st_ok_def)
  qed simp
  moreover have "st_count ?t + of_bool added = size (lives ?b)" using l(2) g(1,2) by (simp add: st_ok_def)
  moreover have "st_count ?t + of_bool added \<le> st_threshold ?t" using g(3) by (cases added) simp_all
  ultimately show "st_ok (st_put t s)" using g(1) unfolding put by (auto simp: st_ok_def)
  have "distinct (as @ j # cs)" using distinct_probe p by metis
  then have "j \<notin> set as" by simp
  then have "\<forall>i \<in> set as. ?b ! i \<noteq> NULL \<and> (\<forall>s'. ?b ! i = Sym s' \<longrightarrow> sym_name s' \<noteq> sym_name s)"
    using as by (metis nth_list_update_neq slot.distinct(3) slot.inject)
  then show "st_get (st_put t s) (sym_name s) = Some s"
    unfolding st_get_def get_loop_Some put using p j by (intro exI [of _ as] exI [of _ j] exI [of _ cs]) (simp add: symbol_index)
qed

lemma st_remove_ok:
  assumes "st_ok t" "st_remove t s = (r, t')"
  shows "r = st_get t (sym_name s)" "st_ok t'"
    "lives (st_buckets t) = (case r of None \<Rightarrow> lives (st_buckets t') | Some s' \<Rightarrow> add_mset s' (lives (st_buckets t')))"
proof -
  let ?p = "probe (bucket_index Symbol_hash (st_mask t) s) (st_capacity t)"
  have get: "st_get t (sym_name s) = map_option fst (remove_loop (sym_name s) (st_buckets t) ?p)"
    by (simp add: st_get_def symbol_index remove_loop_get)
  have "r = st_get t (sym_name s) \<and> st_ok t' \<and>
    lives (st_buckets t) = (case r of None \<Rightarrow> lives (st_buckets t') | Some s' \<Rightarrow> add_mset s' (lives (st_buckets t')))"
  proof (cases "remove_loop (sym_name s) (st_buckets t) ?p")
    case None
    then show ?thesis using assms get by (simp add: st_remove_def)
  next
    case (Some sb)
    obtain s' b where sb: "sb = (s', b)" by fastforce
    obtain j where j: "j \<in> set ?p" "st_buckets t ! j = Sym s'" "b = (st_buckets t)[j := DELETED]"
      using remove_loop_Some Some unfolding sb by blast
    have "j < length (st_buckets t)" using j(1) assms(1) set_probe [of "st_capacity t"] by (auto simp: st_ok_def)
    note u = lives_update [OF this, of DELETED] reached_update [OF _ this, of _ DELETED] j
    have r: "r = Some s'" "t' = t\<lparr>st_buckets := b, st_count := st_count t - 1\<rparr>" using assms(2) Some sb by (simp_all add: st_remove_def)
    have l: "lives (st_buckets t) = add_mset s' (lives b)" using u by simp
    have "reached (st_capacity t) b" using u assms(1) by (simp add: st_ok_def)
    then have "st_ok t'" using r l assms(1) u by (auto simp: st_ok_def)
    then show ?thesis using r l get Some sb by simp
  qed
  then show "r = st_get t (sym_name s)" "st_ok t'"
    "lives (st_buckets t) = (case r of None \<Rightarrow> lives (st_buckets t') | Some s' \<Rightarrow> add_mset s' (lives (st_buckets t')))" by simp_all
qed

lemma st_init_ok:
  assumes "st_init req = Some t" "uint req \<le> 2 ^ 63"
  shows "st_ok t" "lives (st_buckets t) = {#}" "uint req \<le> int (st_capacity t)"
proof -
  obtain m c where c: "calculate_initial_capacity req = Some c" "uint c = 2 ^ m" "uint req \<le> 2 ^ m"
    using calculate_initial_capacity_returns [OF assms(2)] by blast
  have "unat c = 2 ^ m" using c(2) by (simp add: unat_eq_nat_uint nat_power_eq)
  then have t: "t = \<lparr>st_threshold = load_threshold (2 ^ m), st_buckets = replicate (2 ^ m) NULL, st_capacity = 2 ^ m, st_count = 0, st_mask = 2 ^ m - 1\<rparr>"
    using assms(1) c(1) by (simp add: st_init_def Let_def)
  show "st_ok t" "lives (st_buckets t) = {#}" "uint req \<le> int (st_capacity t)"
    using c(3) by (auto simp: t st_ok_def reached_def)
qed

subsection \<open>A table is a map from names to symbols\<close>

datatype st_op = Find symbol_name | Add symbol | Delete symbol

fun st_step :: "st_op \<Rightarrow> symbol_table \<Rightarrow> symbol option \<times> symbol_table" where
  "st_step (Find k) t = (st_get t k, t)"
| "st_step (Add s) t = (None, st_put t s)"
| "st_step (Delete s) t = st_remove t s"

fun names_step :: "st_op \<Rightarrow> (symbol_name \<Rightarrow> symbol option) \<Rightarrow> symbol option \<times> (symbol_name \<Rightarrow> symbol option)" where
  "names_step (Find k) m = (m k, m)"
| "names_step (Add s) m = (None, m(sym_name s \<mapsto> s))"
| "names_step (Delete s) m = (m (sym_name s), m(sym_name s := None))"

text \<open>The discipline of the callers: a symbol is added when no symbol of its name is there.\<close>

fun fresh_adds :: "st_op list \<Rightarrow> (symbol_name \<Rightarrow> symbol option) \<Rightarrow> bool" where
  "fresh_adds [] m \<longleftrightarrow> True"
| "fresh_adds (Add s # is) m \<longleftrightarrow> m (sym_name s) = None \<and> fresh_adds is (snd (names_step (Add s) m))"
| "fresh_adds (i # is) m \<longleftrightarrow> fresh_adds is (snd (names_step i m))"

definition st_represents :: "symbol_table \<Rightarrow> (symbol_name \<Rightarrow> symbol option) \<Rightarrow> bool" where
  "st_represents t m \<longleftrightarrow> st_ok t \<and> unique_names (st_buckets t) \<and> st_get t = m"

lemma option_eqI: "(\<And>x. a = Some x \<longleftrightarrow> b = Some x) \<Longrightarrow> a = b"
  by (metis not_None_eq)

lemma unique_add:
  assumes "unique_names bs" "lives bs' = add_mset s (lives bs)" "\<forall>s'. s' \<in># lives bs \<longrightarrow> sym_name s' \<noteq> sym_name s"
  shows "unique_names bs'"
  unfolding unique_names_def
proof
  fix k
  have "count (image_mset sym_name (lives bs)) (sym_name s) = 0" using assms(3) by (auto simp: count_eq_zero_iff)
  moreover have "count (image_mset sym_name (lives bs)) k \<le> 1" using assms(1) by (simp add: unique_names_def)
  ultimately show "count (image_mset sym_name (lives bs')) k \<le> 1" by (cases "k = sym_name s") (simp_all add: assms(2))
qed

lemma unique_drop:
  assumes "unique_names bs" "lives bs = add_mset s (lives bs')"
  shows "unique_names bs'" "\<forall>s'. s' \<in># lives bs' \<longrightarrow> sym_name s' \<noteq> sym_name s"
proof -
  have le: "count (image_mset sym_name (lives bs)) k \<le> 1" for k using assms(1) by (simp add: unique_names_def)
  show "unique_names bs'" unfolding unique_names_def
  proof
    fix k
    show "count (image_mset sym_name (lives bs')) k \<le> 1" using le [of k] by (simp add: assms(2) split: if_splits)
  qed
  have "count (image_mset sym_name (lives bs')) (sym_name s) = 0" using le [of "sym_name s"] by (simp add: assms(2))
  then have "sym_name s \<notin> sym_name ` set_mset (lives bs')" by (simp add: count_eq_zero_iff)
  then show "\<forall>s'. s' \<in># lives bs' \<longrightarrow> sym_name s' \<noteq> sym_name s" by (metis imageI)
qed

lemma st_put_represents:
  assumes "st_represents t m" "m (sym_name s) = None"
  shows "st_represents (st_put t s) (m(sym_name s \<mapsto> s))"
proof -
  have ok: "st_ok t" "unique_names (st_buckets t)" "st_get t = m" using assms(1) by (simp_all add: st_represents_def)
  have new: "\<forall>s'. s' \<in># lives (st_buckets t) \<longrightarrow> sym_name s' \<noteq> sym_name s" using st_get_None [OF ok(1)] ok(3) assms(2) by simp
  note p = st_put_ok [OF ok(1), of s]
  have l: "lives (st_buckets (st_put t s)) = add_mset s (lives (st_buckets t))" using p(3) new by blast
  have u: "unique_names (st_buckets (st_put t s))" by (rule unique_add [OF ok(2) l new])
  have "st_get (st_put t s) k = (m(sym_name s \<mapsto> s)) k" for k
  proof (rule option_eqI)
    fix x
    show "st_get (st_put t s) k = Some x \<longleftrightarrow> (m(sym_name s \<mapsto> s)) k = Some x"
      unfolding st_get_iff [OF p(1) u] using new st_get_iff [OF ok(1,2), of k x] ok(3) l by auto
  qed
  then show ?thesis using p(1) u by (auto simp: st_represents_def)
qed

lemma st_remove_represents:
  assumes "st_represents t m" "st_remove t s = (r, t')"
  shows "r = m (sym_name s)" "st_represents t' (m(sym_name s := None))"
proof -
  have ok: "st_ok t" "unique_names (st_buckets t)" "st_get t = m" using assms(1) by (simp_all add: st_represents_def)
  note r = st_remove_ok [OF ok(1) assms(2)]
  show m: "r = m (sym_name s)" using r(1) ok(3) by simp
  have u: "unique_names (st_buckets t') \<and> (\<forall>k x. x \<in># lives (st_buckets t') \<and> sym_name x = k \<longleftrightarrow> (m(sym_name s := None)) k = Some x)"
  proof (cases r)
    case None
    then have "lives (st_buckets t') = lives (st_buckets t)" "m (sym_name s) = None" using r(3) m by simp_all
    then show ?thesis using ok(2,3) st_get_iff [OF ok(1,2)] by (auto simp: unique_names_def fun_upd_idem)
  next
    case (Some s')
    then have l: "lives (st_buckets t) = add_mset s' (lives (st_buckets t'))" using r(3) by simp
    have "sym_name s' = sym_name s" using r(1) Some st_get_Some [OF ok(1)] by metis
    then show ?thesis using unique_drop [OF ok(2) l] l st_get_iff [OF ok(1,2)] ok(3) by auto
  qed
  have "st_get t' k = (m(sym_name s := None)) k" for k
    by (rule option_eqI) (simp only: st_get_iff [OF r(2) u [THEN conjunct1]] u [THEN conjunct2, rule_format])
  then show "st_represents t' (m(sym_name s := None))" using u r(2) by (auto simp: st_represents_def)
qed

theorem symbol_table_refines_names:
  assumes "st_represents t m" "fresh_adds is m"
  shows "outputs st_step is t = outputs names_step is m"
  using assms
proof (induction "is" arbitrary: t m)
  case (Cons i "is")
  show ?case
  proof (cases i)
    case (Find k)
    then show ?thesis using Cons by (simp add: st_represents_def)
  next
    case (Add s)
    then show ?thesis using st_put_represents [OF Cons.prems(1), of s] Cons.IH [of "st_put t s" "m(sym_name s \<mapsto> s)"] Cons.prems(2)
      by (simp add: fun_upd_def)
  next
    case (Delete s)
    obtain r t' where r: "st_remove t s = (r, t')" by fastforce
    show ?thesis
      using st_remove_represents [OF Cons.prems(1) r] Cons.IH [of t' "m(sym_name s := None)"] Cons.prems(2) r Delete
      by (simp add: fun_upd_def)
  qed
qed simp

text \<open>
  \<^verbatim>\<open>put\<close> takes the first slot that is free and does not look further for the symbol. When a mark is met
  before the symbol the symbol is stored twice, and one call of \<^verbatim>\<open>remove\<close> does not remove it.
\<close>

theorem put_behind_mark:
  assumes ok: "st_ok t" "unique_names (st_buckets t)" and s: "s \<in> set (st_symbols t)" and room: "st_count t < st_threshold t"
    and p: "probe (bucket_index Symbol_hash (st_mask t) s) (st_capacity t) = as @ j # cs" "st_buckets t ! j = DELETED"
    and before: "\<forall>i \<in> set as. st_buckets t ! i \<noteq> Sym s"
  shows "st_count (st_put t s) = st_count t + 1 \<and> st_get (snd (st_remove (st_put t s) s)) (sym_name s) = Some s"
proof -
  have s': "s \<in># lives (st_buckets t)" using s by (simp add: symbols_lives [symmetric])
  have g: "st_grown t = t" using room by (simp add: st_grown_def)
  obtain as' j' cs' added where q: "probe (bucket_index Symbol_hash (st_mask t) s) (st_capacity t) = as' @ j' # cs'" "j' < length (st_buckets t)"
    "\<forall>i \<in> set as'. \<exists>s'. st_buckets t ! i = Sym s' \<and> sym_name s' \<noteq> sym_name s"
    "if added then free (st_buckets t ! j') else \<exists>s'. st_buckets t ! j' = Sym s' \<and> sym_name s' = sym_name s"
    "st_put t s = t\<lparr>st_buckets := (st_buckets t)[j' := Sym s], st_count := st_count t + of_bool added\<rparr>"
    using st_put_slot [OF ok(1), of s] unfolding g by blast
  have added
  proof (rule ccontr)
    assume "\<not> added"
    then have j': "st_buckets t ! j' = Sym s" using q(2,4) unique_symbol [OF ok(2) s'] in_lives by (metis (full_types))
    have "j \<notin> set as'" using q(3) p(2) by auto
    moreover have "j \<noteq> j'" using j' p(2) by auto
    ultimately have "j' \<in> set as"
      using p(1) unfolding q(1) by (auto simp: append_eq_append_conv2 Cons_eq_append_conv append_eq_Cons_conv)
    then show False using before j' by blast
  qed
  have l: "lives (st_buckets (st_put t s)) = add_mset s (lives (st_buckets t))"
    using lives_update [OF q(2), of "Sym s"] q(4,5) \<open>added\<close> by (simp add: free_symbols)
  obtain r t' where r: "st_remove (st_put t s) s = (r, t')" by fastforce
  note p1 = st_put_ok [OF ok(1), of s] and r1 = st_remove_ok [OF st_put_ok(1) [OF ok(1)] r]
  have "r = Some s" using r1(1) p1(2) by simp
  then have "lives (st_buckets t') = lives (st_buckets t)" using r1(3) l by simp
  then have "st_get t' (sym_name s) = Some s" using st_get_iff [OF r1(2)] ok(2) s' by (simp add: unique_names_def)
  then show ?thesis using q(5) \<open>added\<close> r by simp
qed

lemma st_init_returns: "uint req \<le> 2 ^ 63 \<Longrightarrow> \<exists>t. st_init req = Some t"
  using calculate_initial_capacity_returns [of req] by (auto simp: st_init_def Let_def)

lemma st_init_represents:
  assumes "st_init req = Some t" "uint req \<le> 2 ^ 63"
  shows "st_represents t (\<lambda>_. None)"
proof -
  note i = st_init_ok [OF assms]
  have "st_get t k = None" for k using st_get_None [OF i(1), of k] i(2) by simp
  then show ?thesis using i by (auto simp: st_represents_def unique_names_def)
qed

subsection \<open>Tables without marks\<close>

text \<open>In a table from which nothing has been removed \<^verbatim>\<open>put\<close> replaces the symbol of the name.\<close>

definition mark_free :: "symbol_table \<Rightarrow> bool" where
  "mark_free t \<longleftrightarrow> DELETED \<notin> set (st_buckets t)"

lemma rehash_loop_marks: "DELETED \<notin> set bs \<Longrightarrow> DELETED \<notin> set (rehash_loop s bs js)"
  by (induction js) (auto split: slot.splits dest!: set_update_subset_insert [THEN subsetD])

lemma rehash_slot_marks: "DELETED \<notin> set bs \<Longrightarrow> DELETED \<notin> set (rehash_slot n sl bs)"
  by (auto simp: rehash_slot_def rehash_loop_marks split: slot.splits)

lemma st_rehash_mark_free: "mark_free (st_rehash t)"
proof -
  have "DELETED \<notin> set (fold (rehash_slot n) sls bs)" if "DELETED \<notin> set bs" for n sls bs
    using that by (induction sls arbitrary: bs) (simp_all add: rehash_slot_marks)
  then show ?thesis by (simp add: mark_free_def st_rehash_def Let_def)
qed

lemma replaced_represents:
  assumes "st_represents t m" and s': "sym_name s' = sym_name s" "s' \<in># lives (st_buckets t)" and t': "st_ok t'"
    and eq: "add_mset s' (lives (st_buckets t')) = add_mset s (lives (st_buckets t))"
  shows "st_represents t' (m(sym_name s \<mapsto> s))"
proof -
  have ok: "st_ok t" "unique_names (st_buckets t)" "st_get t = m" using assms(1) by (simp_all add: st_represents_def)
  obtain L where L: "lives (st_buckets t) = add_mset s' L" using s'(2) by (metis multi_member_split)
  then have l: "lives (st_buckets t') = add_mset s L" using eq by (simp add: add_mset_commute)
  have rest: "sym_name x \<noteq> sym_name s" if "x \<in># L" for x
  proof
    assume "sym_name x = sym_name s"
    then have "0 < count (image_mset sym_name L) (sym_name s)" using that by (auto intro: image_eqI [of _ _ x])
    moreover have "count (image_mset sym_name (lives (st_buckets t))) (sym_name s) \<le> 1" using ok(2) by (simp add: unique_names_def)
    ultimately show False by (simp add: L s'(1) count_eq_zero_iff)
  qed
  have u: "unique_names (st_buckets t')" using ok(2) by (simp add: unique_names_def l L s'(1))
  have "st_get t' k = (m(sym_name s \<mapsto> s)) k" for k
  proof (rule option_eqI)
    fix x
    show "st_get t' k = Some x \<longleftrightarrow> (m(sym_name s \<mapsto> s)) k = Some x"
      unfolding st_get_iff [OF t' u] using rest st_get_iff [OF ok(1,2), of k x] ok(3) l L s'(1) by auto
  qed
  then show ?thesis using t' u by (auto simp: st_represents_def)
qed

lemma st_put_replaces:
  assumes "st_represents t m" "mark_free t"
  shows "st_represents (st_put t s) (m(sym_name s \<mapsto> s))" "mark_free (st_put t s)"
proof -
  let ?t = "st_grown t"
  have ok: "st_ok t" "unique_names (st_buckets t)" "st_get t = m" using assms(1) by (simp_all add: st_represents_def)
  have free: "DELETED \<notin> set (st_buckets ?t)" using assms(2) st_rehash_mark_free by (auto simp: st_grown_def mark_free_def)
  note g = st_grown_ok [OF ok(1)] and p = st_put_ok [OF ok(1), of s]
  obtain as j cs added where q: "probe (bucket_index Symbol_hash (st_mask ?t) s) (st_capacity ?t) = as @ j # cs" "j < length (st_buckets ?t)"
    "\<forall>i \<in> set as. \<exists>s'. st_buckets ?t ! i = Sym s' \<and> sym_name s' \<noteq> sym_name s"
    "if added then free (st_buckets ?t ! j) else \<exists>s'. st_buckets ?t ! j = Sym s' \<and> sym_name s' = sym_name s"
    "st_put t s = ?t\<lparr>st_buckets := (st_buckets ?t)[j := Sym s], st_count := st_count ?t + of_bool added\<rparr>"
    using st_put_slot [OF ok(1), of s] by blast
  show "mark_free (st_put t s)" unfolding q(5) mark_free_def using free by (auto dest!: set_update_subset_insert [THEN subsetD])
  show "st_represents (st_put t s) (m(sym_name s \<mapsto> s))"
  proof (cases "m (sym_name s)")
    case None
    then show ?thesis by (rule st_put_represents [OF assms(1)])
  next
    case (Some s')
    then have s': "s' \<in># lives (st_buckets t)" "sym_name s' = sym_name s" using st_get_iff [OF ok(1,2)] ok(3) by blast+
    have "\<not> added"
    proof
      assume added
      then have j: "st_buckets ?t ! j = NULL" using q(2,4) free by (metis free_def nth_mem)
      obtain k where k: "k < length (st_buckets ?t)" "st_buckets ?t ! k = Sym s'" using s'(1) g(2) in_lives by metis
      then obtain as' cs' where "probe (bucket_index Symbol_hash (st_mask ?t) s) (st_capacity ?t) = as' @ k # cs'" "\<forall>i \<in> set as'. st_buckets ?t ! i \<noteq> NULL"
        using g(1) s'(2) unfolding st_ok_def reached_def by (metis symbol_index)
      then show False using q(1,3) j k(2) s'(2) by (auto simp: append_eq_append_conv2 Cons_eq_append_conv append_eq_Cons_conv)
    qed
    then obtain x where x: "st_buckets ?t ! j = Sym x" "sym_name x = sym_name s" using q(4) by auto
    have "x = s'" using unique_symbol [OF ok(2) _ s'(1)] in_lives g(2) q(2) x s'(2) by metis
    then have "add_mset s' (lives (st_buckets (st_put t s))) = add_mset s (lives (st_buckets t))"
      using lives_update [OF q(2), of "Sym s"] x(1) g(2) by (simp add: q(5))
    then show ?thesis by (rule replaced_represents [OF assms(1) s'(2,1) p(1)])
  qed
qed

end
