(* ===== verification/Packages.thy ===== *)
theory Packages
  imports Symbol_Table
begin

text \<open>
  Packages (\<^verbatim>\<open>kernel/Package.hpp\<close>, \<^verbatim>\<open>Package.cpp\<close>): the symbols present in a package, in a table of internal
  and a table of external symbols, the shadowing symbols, and the packages it uses and is used by. Packages
  and symbols are objects that operations change in place, so the operations work on a world that holds all
  of them. As in the build without debugging (\<^verbatim>\<open>-DNDEBUG\<close>), assertions have no effect. Package names are not
  modelled.
\<close>

record package =
  internal_symbols :: symbol_table
  external_symbols :: symbol_table
  shadowing_symbols :: "symbol_table option"
  use_list :: "nat list"
  used_by_list :: "nat list"

record world =
  packages :: "nat \<Rightarrow> package"
  symbol_package :: "symbol \<Rightarrow> nat option"
  constant_value :: "symbol \<Rightarrow> symbol option"
  next_symbol :: nat

datatype status = External | Internal | Inherited

datatype package_error =
    Already_accessible symbol nat
  | Already_exported symbol nat nat
  | Not_accessible symbol nat
  | Name_conflict symbol symbol symbol

subsection \<open>Creation and used packages\<close>

definition SymbolHashTable_new :: symbol_table where
  "SymbolHashTable_new = the (st_init 16)"

definition Package_new :: package where
  "Package_new = \<lparr>internal_symbols = SymbolHashTable_new, external_symbols = SymbolHashTable_new,
     shadowing_symbols = None, use_list = [], used_by_list = []\<rparr>"

definition upd_package :: "nat \<Rightarrow> (package \<Rightarrow> package) \<Rightarrow> world \<Rightarrow> world" where
  "upd_package p f w = w\<lparr>packages := (packages w)(p := f (packages w p))\<rparr>"

definition use_package :: "nat \<Rightarrow> nat \<Rightarrow> world \<Rightarrow> world" where
  "use_package p q w =
     (if q \<notin> set (use_list (packages w p)) then
        upd_package q (used_by_list_update ((#) p)) (upd_package p (use_list_update ((#) q)) w)
      else w)"

text \<open>\<^verbatim>\<open>SYS_list_delete_eq\<close> deletes every occurrence.\<close>

definition unuse_package :: "nat \<Rightarrow> nat \<Rightarrow> world \<Rightarrow> world" where
  "unuse_package p q w =
     (if q \<in> set (use_list (packages w p)) then
        upd_package q (used_by_list_update (removeAll p)) (upd_package p (use_list_update (removeAll q)) w)
      else w)"

definition package_uses :: "nat \<Rightarrow> nat \<Rightarrow> world \<Rightarrow> bool" where
  "package_uses p q w \<longleftrightarrow> q \<in> set (use_list (packages w p))"

subsection \<open>Finding symbols\<close>

definition find_internal :: "world \<Rightarrow> nat \<Rightarrow> symbol_name \<Rightarrow> symbol option" where
  "find_internal w p k = st_get (internal_symbols (packages w p)) k"

definition find_external :: "world \<Rightarrow> nat \<Rightarrow> symbol_name \<Rightarrow> symbol option" where
  "find_external w p k = st_get (external_symbols (packages w p)) k"

fun find_used :: "world \<Rightarrow> nat list \<Rightarrow> symbol_name \<Rightarrow> symbol option" where
  "find_used w [] k = None"
| "find_used w (q # qs) k =
     (case find_external w q k of Some s \<Rightarrow> Some s | None \<Rightarrow> find_used w qs k)"

definition find_accessible_symbol :: "world \<Rightarrow> nat \<Rightarrow> symbol_name \<Rightarrow> symbol option" where
  "find_accessible_symbol w p k =
     (case find_external w p k of
        Some s \<Rightarrow> Some s
      | None \<Rightarrow>
          (case find_internal w p k of
             Some s \<Rightarrow> Some s
           | None \<Rightarrow> find_used w (use_list (packages w p)) k))"

definition find_symbol :: "world \<Rightarrow> nat \<Rightarrow> symbol_name \<Rightarrow> (symbol \<times> status) option" where
  "find_symbol w p k =
     (case find_external w p k of
        Some s \<Rightarrow> Some (s, External)
      | None \<Rightarrow>
          (case find_internal w p k of
             Some s \<Rightarrow> Some (s, Internal)
           | None \<Rightarrow> map_option (\<lambda>s. (s, Inherited)) (find_used w (use_list (packages w p)) k)))"

subsection \<open>Adding symbols\<close>

definition new_symbol :: "symbol_name \<Rightarrow> nat \<Rightarrow> world \<Rightarrow> symbol \<times> world" where
  "new_symbol k p w =
     (let s = Symbol (next_symbol w) k
      in (s, w\<lparr>next_symbol := next_symbol w + 1, symbol_package := (symbol_package w)(s \<mapsto> p)\<rparr>))"

definition put_internal :: "nat \<Rightarrow> symbol \<Rightarrow> world \<Rightarrow> world" where
  "put_internal p s = upd_package p (internal_symbols_update (\<lambda>t. st_put t s))"

definition put_external :: "nat \<Rightarrow> symbol \<Rightarrow> world \<Rightarrow> world" where
  "put_external p s = upd_package p (external_symbols_update (\<lambda>t. st_put t s))"

definition remove_internal :: "nat \<Rightarrow> symbol \<Rightarrow> world \<Rightarrow> world" where
  "remove_internal p s = upd_package p (internal_symbols_update (\<lambda>t. snd (st_remove t s)))"

definition remove_external :: "nat \<Rightarrow> symbol \<Rightarrow> world \<Rightarrow> world" where
  "remove_external p s = upd_package p (external_symbols_update (\<lambda>t. snd (st_remove t s)))"

definition put_shadowing :: "nat \<Rightarrow> symbol \<Rightarrow> world \<Rightarrow> world" where
  "put_shadowing p s = upd_package p (shadowing_symbols_update (map_option (\<lambda>t. st_put t s)))"

definition intern :: "nat \<Rightarrow> nat \<Rightarrow> symbol_name \<Rightarrow> world \<Rightarrow> (symbol \<times> status option) \<times> world" where
  "intern keyword p k w =
     (case find_symbol w p k of
        Some (s, st) \<Rightarrow> ((s, Some st), w)
      | None \<Rightarrow>
          let (s, w) = new_symbol k p w
          in if p = keyword then
               ((s, None), put_external p s (w\<lparr>constant_value := (constant_value w)(s \<mapsto> s)\<rparr>))
             else ((s, None), put_internal p s w))"

definition intern_exported :: "nat \<Rightarrow> nat \<Rightarrow> symbol_name \<Rightarrow> bool \<Rightarrow> world \<Rightarrow> symbol \<times> world" where
  "intern_exported keyword p k exportp w =
     (case find_accessible_symbol w p k of
        Some s \<Rightarrow> (s, w)
      | None \<Rightarrow>
          let (s, w) = new_symbol k p w
          in if p = keyword then
               (s, put_external p s (w\<lparr>constant_value := (constant_value w)(s \<mapsto> s)\<rparr>))
             else if exportp then (s, put_external p s w)
             else (s, put_internal p s w))"

definition import_symbol :: "nat \<Rightarrow> symbol \<Rightarrow> world \<Rightarrow> package_error + world" where
  "import_symbol p s w =
     (if symbol_package w s = Some p then Inr w
      else
        let sy = find_accessible_symbol w p (sym_name s)
        in if sy \<noteq> None \<and> sy \<noteq> Some s then Inl (Already_accessible (the sy) p)
           else
             let w = put_internal p s w
             in Inr (if symbol_package w s = None then w\<lparr>symbol_package := (symbol_package w)(s \<mapsto> p)\<rparr> else w))"

subsection \<open>Exporting\<close>

fun export_conflict :: "world \<Rightarrow> symbol \<Rightarrow> nat list \<Rightarrow> nat option" where
  "export_conflict w s [] = None"
| "export_conflict w s (q # qs) =
     (case find_external w q (sym_name s) of
        Some sy \<Rightarrow> if sy \<noteq> s then Some q else export_conflict w s qs
      | None \<Rightarrow> export_conflict w s qs)"

definition export_symbol :: "nat \<Rightarrow> symbol \<Rightarrow> world \<Rightarrow> package_error + world" where
  "export_symbol p s w =
     (case export_conflict w s (used_by_list (packages w p)) of
        Some q \<Rightarrow> Inl (Already_exported s q p)
      | None \<Rightarrow>
          if symbol_package w s = Some p then
            if find_external w p (sym_name s) = Some s then Inr w
            else Inr (put_external p s (remove_internal p s w))
          else if find_accessible_symbol w p (sym_name s) \<noteq> Some s then Inl (Not_accessible s p)
          else Inr (put_external p s (remove_internal p s w)))"

definition unexport_symbol :: "nat \<Rightarrow> symbol \<Rightarrow> world \<Rightarrow> package_error + world" where
  "unexport_symbol p s w =
     (if symbol_package w s = Some p then
        if find_external w p (sym_name s) = Some s then Inr (put_internal p s (remove_external p s w))
        else Inr w
      else if \<exists>q \<in> set (use_list (packages w p)). find_external w q (sym_name s) = Some s then Inr w
      else Inl (Not_accessible s p))"

subsection \<open>Removing and shadowing\<close>

fun name_conflict :: "world \<Rightarrow> symbol_name \<Rightarrow> symbol option \<Rightarrow> nat list \<Rightarrow> (symbol \<times> symbol) option" where
  "name_conflict w k sy [] = None"
| "name_conflict w k sy (q # qs) =
     (case find_external w q k of
        None \<Rightarrow> name_conflict w k sy qs
      | Some s \<Rightarrow>
          (case sy of
             None \<Rightarrow> name_conflict w k (Some s) qs
           | Some s' \<Rightarrow> if s' \<noteq> s then Some (s', s) else name_conflict w k sy qs))"

definition find_shadowing :: "world \<Rightarrow> nat \<Rightarrow> symbol_name \<Rightarrow> symbol option" where
  "find_shadowing w p k = Option.bind (shadowing_symbols (packages w p)) (\<lambda>t. st_get t k)"

definition remove_home :: "nat \<Rightarrow> symbol \<Rightarrow> world \<Rightarrow> world" where
  "remove_home p s w = (if symbol_package w s = Some p then w\<lparr>symbol_package := (symbol_package w)(s := None)\<rparr> else w)"

definition unintern_symbol :: "nat \<Rightarrow> symbol \<Rightarrow> world \<Rightarrow> package_error + bool \<times> world" where
  "unintern_symbol p s w =
     (let k = sym_name s;
          conflict =
            (if find_shadowing w p k = Some s then name_conflict w k None (use_list (packages w p)) else None)
      in case conflict of
           Some (s1, s2) \<Rightarrow> Inl (Name_conflict s s1 s2)
         | None \<Rightarrow>
             if find_internal w p k = Some s then Inr (True, remove_home p s (remove_internal p s w))
             else if find_external w p k = Some s then Inr (True, remove_home p s (remove_external p s w))
             else Inr (False, w))"

definition ensure_shadowing :: "nat \<Rightarrow> world \<Rightarrow> world" where
  "ensure_shadowing p =
     upd_package p (shadowing_symbols_update (\<lambda>t. case t of None \<Rightarrow> Some SymbolHashTable_new | Some t \<Rightarrow> Some t))"

definition shadow :: "nat \<Rightarrow> symbol_name \<Rightarrow> world \<Rightarrow> world" where
  "shadow p k w =
     (let w = ensure_shadowing p w
      in case find_external w p k of
           Some s \<Rightarrow> put_shadowing p s w
         | None \<Rightarrow>
             (case find_internal w p k of
                Some s \<Rightarrow> put_shadowing p s w
              | None \<Rightarrow>
                  if find_shadowing w p k \<noteq> None then w
                  else let (s, w) = new_symbol k p w in put_shadowing p s (put_internal p s w)))"

definition shadowing_import :: "nat \<Rightarrow> symbol \<Rightarrow> world \<Rightarrow> world" where
  "shadowing_import p s w =
     (let w = ensure_shadowing p w;
          w = (case find_internal w p (sym_name s) of
                 Some sy \<Rightarrow> remove_internal p sy w
               | None \<Rightarrow>
                   (case find_external w p (sym_name s) of
                      Some sy \<Rightarrow> remove_external p sy w
                    | None \<Rightarrow> w))
      in put_shadowing p s (put_internal p s w))"

subsection \<open>The contract of a table of symbols\<close>

text \<open>What packages rely on; a symbol is stored only when its name is not there.\<close>

locale name_table =
  fixes ok :: "'t \<Rightarrow> bool" and get :: "'t \<Rightarrow> symbol_name \<Rightarrow> symbol option"
    and put :: "'t \<Rightarrow> symbol \<Rightarrow> 't" and rem :: "'t \<Rightarrow> symbol \<Rightarrow> 't"
  assumes put_ok: "ok t \<Longrightarrow> get t (sym_name s) = None \<Longrightarrow> ok (put t s)"
    and get_put: "ok t \<Longrightarrow> get t (sym_name s) = None \<Longrightarrow> get (put t s) = (get t)(sym_name s \<mapsto> s)"
    and rem_ok: "ok t \<Longrightarrow> ok (rem t s)"
    and get_rem: "ok t \<Longrightarrow> get (rem t s) = (get t)(sym_name s := None)"
    and get_name: "ok t \<Longrightarrow> get t k = Some s \<Longrightarrow> sym_name s = k"

text \<open>The symbols present in a package, from its two tables.\<close>

definition present :: "(symbol_name \<Rightarrow> symbol option) \<Rightarrow> (symbol_name \<Rightarrow> symbol option) \<Rightarrow> symbol_name \<Rightarrow> (symbol \<times> status) option" where
  "present inn ext k =
     (case ext k of Some s \<Rightarrow> Some (s, External) | None \<Rightarrow> map_option (\<lambda>s. (s, Internal)) (inn k))"

definition disjoint :: "(symbol_name \<Rightarrow> symbol option) \<Rightarrow> (symbol_name \<Rightarrow> symbol option) \<Rightarrow> bool" where
  "disjoint inn ext \<longleftrightarrow> (\<forall>k. inn k = None \<or> ext k = None)"

lemma present_None: "present inn ext k = None \<longleftrightarrow> inn k = None \<and> ext k = None"
  by (auto simp: present_def split: option.splits)

lemma present_Some:
  "disjoint inn ext \<Longrightarrow> present inn ext k = Some (s, External) \<longleftrightarrow> ext k = Some s"
  "disjoint inn ext \<Longrightarrow> present inn ext k = Some (s, Internal) \<longleftrightarrow> inn k = Some s"
  "present inn ext k \<noteq> Some (s, Inherited)"
  by (auto simp: present_def disjoint_def split: option.splits dest: spec [of _ k])

lemma present_internal:
  "ext k = None \<Longrightarrow> present (inn(k := v)) ext = (present inn ext)(k := map_option (\<lambda>s. (s, Internal)) v)"
  by (auto simp: present_def fun_eq_iff split: option.splits)

lemma present_external:
  "inn k = None \<Longrightarrow> present inn (ext(k := v)) = (present inn ext)(k := map_option (\<lambda>s. (s, External)) v)"
  by (auto simp: present_def fun_eq_iff split: option.splits)

context name_table begin

lemma add_internal:
  assumes "ok a" "ok b" "disjoint (get a) (get b)" "present (get a) (get b) (sym_name s) = None"
  shows "ok (put a s)" "disjoint (get (put a s)) (get b)"
    "present (get (put a s)) (get b) = (present (get a) (get b))(sym_name s \<mapsto> (s, Internal))"
  using assms by (auto simp: present_None put_ok get_put disjoint_def present_internal present_external)

lemma add_external:
  assumes "ok a" "ok b" "disjoint (get a) (get b)" "present (get a) (get b) (sym_name s) = None"
  shows "ok (put b s)" "disjoint (get a) (get (put b s))"
    "present (get a) (get (put b s)) = (present (get a) (get b))(sym_name s \<mapsto> (s, External))"
  using assms by (auto simp: present_None put_ok get_put disjoint_def present_internal present_external)

lemma drop_internal:
  assumes "ok a" "ok b" "disjoint (get a) (get b)" "get b (sym_name s) = None"
  shows "ok (rem a s)" "disjoint (get (rem a s)) (get b)"
    "present (get (rem a s)) (get b) = (present (get a) (get b))(sym_name s := None)"
  using assms by (auto simp: rem_ok get_rem disjoint_def present_internal present_external)

lemma drop_external:
  assumes "ok a" "ok b" "disjoint (get a) (get b)" "get a (sym_name s) = None"
  shows "ok (rem b s)" "disjoint (get a) (get (rem b s))"
    "present (get a) (get (rem b s)) = (present (get a) (get b))(sym_name s := None)"
  using assms by (auto simp: rem_ok get_rem disjoint_def present_internal present_external)

lemma present_name:
  assumes "ok a" "ok b" "present (get a) (get b) k = Some (s, st)"
  shows "sym_name s = k"
  using assms get_name by (auto simp: present_def split: option.splits)

end

definition table_ok :: "symbol_table \<Rightarrow> bool" where
  "table_ok t \<longleftrightarrow> st_ok t \<and> unique_names (st_buckets t)"

lemma table_represents: "table_ok t \<longleftrightarrow> st_represents t (st_get t)"
  by (simp add: table_ok_def st_represents_def)

interpretation nt: name_table table_ok st_get st_put "\<lambda>t s. snd (st_remove t s)"
proof
  fix t s
  show "table_ok (st_put t s)" "st_get (st_put t s) = (st_get t)(sym_name s \<mapsto> s)" if "table_ok t" "st_get t (sym_name s) = None"
    using st_put_represents [of t "st_get t" s] that by (auto simp: table_ok_def st_represents_def)
  show "table_ok (snd (st_remove t s))" "st_get (snd (st_remove t s)) = (st_get t)(sym_name s := None)" if "table_ok t"
    using st_remove_represents [of t "st_get t" s] that by (cases "st_remove t s"; auto simp: table_ok_def st_represents_def)+
  show "sym_name s = k" if "table_ok t" "st_get t k = Some s" for k
    using st_get_Some [of t k s] that by (simp add: table_ok_def)
qed

lemma SymbolHashTable_new_ok: "table_ok SymbolHashTable_new" "st_get SymbolHashTable_new k = None" "mark_free SymbolHashTable_new"
proof -
  have "calculate_initial_capacity 16 \<noteq> None" using calculate_initial_capacity_returns [of 16] by auto
  then obtain t where t: "st_init 16 = Some t" by (auto simp: st_init_def Let_def)
  have n: "SymbolHashTable_new = t" using t by (simp add: SymbolHashTable_new_def)
  note i = st_init_ok [OF t]
  show "table_ok SymbolHashTable_new" using i by (simp add: n table_ok_def unique_names_def)
  show "st_get SymbolHashTable_new k = None" using i st_get_None [of t k] by (simp add: n)
  show "mark_free SymbolHashTable_new" using t by (auto simp: n mark_free_def st_init_def Let_def split: bind_splits)
qed

subsection \<open>The invariant\<close>

definition package_view :: "package \<Rightarrow> symbol_name \<Rightarrow> (symbol \<times> status) option" where
  "package_view P = present (st_get (internal_symbols P)) (st_get (external_symbols P))"

definition package_ok :: "package \<Rightarrow> bool" where
  "package_ok P \<longleftrightarrow>
     table_ok (internal_symbols P) \<and> table_ok (external_symbols P) \<and>
     disjoint (st_get (internal_symbols P)) (st_get (external_symbols P)) \<and>
     (\<forall>t. shadowing_symbols P = Some t \<longrightarrow> table_ok t \<and> mark_free t)"

text \<open>The symbols that are present in a package, with their status: the abstract state of the package.\<close>

definition view :: "world \<Rightarrow> nat \<Rightarrow> symbol_name \<Rightarrow> (symbol \<times> status) option" where
  "view w p = package_view (packages w p)"

text \<open>
  The tables are in order, no symbol has the address of the next new one, a symbol is present in its home package,
  and the two lists of used packages agree.
\<close>

definition world_ok :: "world \<Rightarrow> bool" where
  "world_ok w \<longleftrightarrow>
     (\<forall>p. package_ok (packages w p)) \<and>
     (\<forall>p k s st. view w p k = Some (s, st) \<longrightarrow> sym_address s < next_symbol w) \<and>
     (\<forall>s p. symbol_package w s = Some p \<longrightarrow> (\<exists>st. view w p (sym_name s) = Some (s, st))) \<and>
     (\<forall>p q. q \<in> set (use_list (packages w p)) \<longleftrightarrow> p \<in> set (used_by_list (packages w q)))"

named_theorems pkg_simps

lemma upd_package_sel [pkg_simps]:
  "packages (upd_package p f w) = (packages w)(p := f (packages w p))"
  "symbol_package (upd_package p f w) = symbol_package w" "next_symbol (upd_package p f w) = next_symbol w"
  "constant_value (upd_package p f w) = constant_value w"
  by (simp_all add: upd_package_def)

lemma find_view:
  "package_ok (packages w p) \<Longrightarrow> find_external w p k = Some s \<longleftrightarrow> view w p k = Some (s, External)"
  "package_ok (packages w p) \<Longrightarrow> find_internal w p k = Some s \<longleftrightarrow> view w p k = Some (s, Internal)"
  by (simp_all add: find_external_def find_internal_def view_def package_view_def present_Some package_ok_def)

lemma view_None: "view w p k = None \<longleftrightarrow> find_external w p k = None \<and> find_internal w p k = None"
  by (auto simp: view_def package_view_def present_None find_external_def find_internal_def)

text \<open>\<^verbatim>\<open>find_symbol\<close> looks at the symbols present in the package, then at those it inherits.\<close>

lemma find_symbol_view:
  "find_symbol w p k =
     (case view w p k of
        Some x \<Rightarrow> Some x
      | None \<Rightarrow> map_option (\<lambda>s. (s, Inherited)) (find_used w (use_list (packages w p)) k))"
  by (simp add: find_symbol_def view_def package_view_def present_def find_external_def find_internal_def split: option.splits)

lemma find_accessible_find_symbol: "find_accessible_symbol w p k = map_option fst (find_symbol w p k)"
  by (simp add: find_accessible_symbol_def find_symbol_def option.map_comp comp_def option.map_ident split: option.splits)

lemma view_name: "package_ok (packages w p) \<Longrightarrow> view w p k = Some (s, st) \<Longrightarrow> sym_name s = k"
  unfolding view_def package_view_def package_ok_def using nt.present_name by blast

subsection \<open>Effects on one package\<close>

text \<open>The operation \<open>f\<close> keeps the package in order and the lists of packages, and gives it the symbols \<open>v\<close>.\<close>

definition becomes :: "(package \<Rightarrow> package) \<Rightarrow> package \<Rightarrow> (symbol_name \<Rightarrow> (symbol \<times> status) option) \<Rightarrow> bool" where
  "becomes f P v \<longleftrightarrow>
     package_ok (f P) \<and> package_view (f P) = v \<and> use_list (f P) = use_list P \<and> used_by_list (f P) = used_by_list P"

lemma put_internal_becomes:
  "package_ok P \<Longrightarrow> package_view P (sym_name s) = None \<Longrightarrow>
   becomes (internal_symbols_update (\<lambda>t. st_put t s)) P ((package_view P)(sym_name s \<mapsto> (s, Internal)))"
  using nt.add_internal [of "internal_symbols P" "external_symbols P" s]
  by (simp add: becomes_def package_ok_def package_view_def)

lemma put_external_becomes:
  "package_ok P \<Longrightarrow> package_view P (sym_name s) = None \<Longrightarrow>
   becomes (external_symbols_update (\<lambda>t. st_put t s)) P ((package_view P)(sym_name s \<mapsto> (s, External)))"
  using nt.add_external [of "internal_symbols P" "external_symbols P" s]
  by (simp add: becomes_def package_ok_def package_view_def)

lemma remove_internal_becomes:
  "package_ok P \<Longrightarrow> st_get (external_symbols P) (sym_name s) = None \<Longrightarrow>
   becomes (internal_symbols_update (\<lambda>t. snd (st_remove t s))) P ((package_view P)(sym_name s := None))"
  using nt.drop_internal [of "internal_symbols P" "external_symbols P" s]
  by (simp add: becomes_def package_ok_def package_view_def)

lemma remove_external_becomes:
  "package_ok P \<Longrightarrow> st_get (internal_symbols P) (sym_name s) = None \<Longrightarrow>
   becomes (external_symbols_update (\<lambda>t. snd (st_remove t s))) P ((package_view P)(sym_name s := None))"
  using nt.drop_external [of "internal_symbols P" "external_symbols P" s]
  by (simp add: becomes_def package_ok_def package_view_def)

lemma put_shadowing_becomes:
  assumes "package_ok P"
  shows "becomes (shadowing_symbols_update (map_option (\<lambda>t. st_put t s))) P (package_view P)"
proof -
  have "table_ok (st_put t s) \<and> mark_free (st_put t s)" if "table_ok t" "mark_free t" for t
    using st_put_replaces [of t "st_get t" s] that by (auto simp: table_represents st_represents_def)
  then show ?thesis using assms by (auto simp: becomes_def package_ok_def package_view_def)
qed

lemma ensure_shadowing_becomes:
  "package_ok P \<Longrightarrow>
   becomes (shadowing_symbols_update (\<lambda>t. case t of None \<Rightarrow> Some SymbolHashTable_new | Some t \<Rightarrow> Some t)) P (package_view P)"
  using SymbolHashTable_new_ok(1,3) by (auto simp: becomes_def package_ok_def package_view_def split: option.splits)

lemma becomes_comp:
  "becomes f P v \<Longrightarrow> (package_ok (f P) \<Longrightarrow> package_view (f P) = v \<Longrightarrow> becomes g (f P) v') \<Longrightarrow> becomes (g \<circ> f) P v'"
  by (simp add: becomes_def)

lemma upd_package_comp: "upd_package p g (upd_package p f w) = upd_package p (g \<circ> f) w"
  by (simp add: upd_package_def)

subsection \<open>Effects on the world\<close>

text \<open>One package is changed; a symbol keeps its home unless it gets or loses \<open>p\<close> as its home.\<close>

lemma world_update:
  assumes ok: "world_ok w" and f: "becomes f (packages w p) v" and w': "packages w' = (packages w)(p := f (packages w p))"
    and nx: "next_symbol w \<le> next_symbol w'"
    and v: "\<And>k s st. v k = Some (s, st) \<Longrightarrow> sym_address s < next_symbol w'"
    and home: "\<And>s q. symbol_package w' s = Some q \<Longrightarrow>
      if q = p then \<exists>st. v (sym_name s) = Some (s, st) else symbol_package w s = Some q"
  shows "world_ok w'" "view w' = (view w)(p := v)"
proof -
  have f': "package_ok (f (packages w p))" "package_view (f (packages w p)) = v" "use_list (f (packages w p)) = use_list (packages w p)"
    "used_by_list (f (packages w p)) = used_by_list (packages w p)" using f by (simp_all add: becomes_def)
  show view: "view w' = (view w)(p := v)" by (auto simp: view_def w' f')
  have lists: "use_list (packages w' q) = use_list (packages w q)" "used_by_list (packages w' q) = used_by_list (packages w q)" for q
    by (simp_all add: w' f')
  show "world_ok w'"
    unfolding world_ok_def
  proof (intro conjI allI impI)
    show "package_ok (packages w' q)" for q using ok f'(1) by (simp add: w' world_ok_def)
    show "sym_address s < next_symbol w'" if "view w' q k = Some (s, st)" for q k s st
    proof (cases "q = p")
      case False
      then have "view w q k = Some (s, st)" using that view by simp
      then show ?thesis using ok nx unfolding world_ok_def by (meson order_less_le_trans)
    qed (use that view v in auto)
    show "\<exists>st. view w' q (sym_name s) = Some (s, st)" if "symbol_package w' s = Some q" for s q
      using home [OF that] ok by (auto simp: view world_ok_def split: if_splits)
    show "r \<in> set (use_list (packages w' q)) \<longleftrightarrow> q \<in> set (used_by_list (packages w' r))" for q r
      using ok by (simp add: lists world_ok_def)
  qed
qed

lemma world_package: "world_ok w \<Longrightarrow> package_ok (packages w p)"
  by (simp add: world_ok_def)

lemma world_home: "world_ok w \<Longrightarrow> symbol_package w s = Some p \<Longrightarrow> \<exists>st. view w p (sym_name s) = Some (s, st)"
  by (simp add: world_ok_def)

lemma world_fresh: "world_ok w \<Longrightarrow> view w p k = Some (s, st) \<Longrightarrow> sym_address s < next_symbol w"
  unfolding world_ok_def by blast

lemma view_package: "view w p = package_view (packages w p)"
  by (simp add: view_def)

text \<open>Operations that leave the homes of symbols alone and those that change the home of one symbol.\<close>

lemma world_put:
  assumes ok: "world_ok w" and f: "becomes f (packages w p) ((view w p)(sym_name s \<mapsto> (s, st)))"
    and w': "packages w' = (packages w)(p := f (packages w p))" and s: "sym_address s < next_symbol w'" "next_symbol w \<le> next_symbol w'"
    and home: "symbol_package w' = symbol_package w \<or> symbol_package w' = (symbol_package w)(s \<mapsto> p)"
    and old: "\<And>s' st'. view w p (sym_name s) = Some (s', st') \<Longrightarrow> s' = s \<or> symbol_package w s' \<noteq> Some p"
  shows "world_ok w'" "view w' = (view w)(p := (view w p)(sym_name s \<mapsto> (s, st)))"
proof -
  have v: "sym_address s' < next_symbol w'" if "((view w p)(sym_name s \<mapsto> (s, st))) k = Some (s', st')" for k s' st'
  proof (cases "k = sym_name s")
    case False
    then show ?thesis using that world_fresh [OF ok, of p k s' st'] s(2) by simp
  qed (use that s in simp)
  have h: "if q = p then \<exists>st'. ((view w p)(sym_name s \<mapsto> (s, st))) (sym_name s') = Some (s', st') else symbol_package w s' = Some q"
    if "symbol_package w' s' = Some q" for s' q
  proof (cases "s' = s")
    case False
    then have q: "symbol_package w s' = Some q" using that home by (auto split: if_splits)
    then have "sym_name s' \<noteq> sym_name s" if "q = p" using world_home [OF ok q] old False that by auto
    then show ?thesis using q world_home [OF ok q] by auto
  qed (use that home in \<open>auto split: if_splits\<close>)
  show "world_ok w'" "view w' = (view w)(p := (view w p)(sym_name s \<mapsto> (s, st)))"
    using world_update [OF ok f w' s(2)] v h by blast+
qed

lemma world_put_package:
  assumes "world_ok w" "becomes f (packages w p) ((view w p)(sym_name s \<mapsto> (s, st)))" "sym_address s < next_symbol w"
    "\<And>s' st'. view w p (sym_name s) = Some (s', st') \<Longrightarrow> s' = s \<or> symbol_package w s' \<noteq> Some p"
  shows "world_ok (upd_package p f w)" "view (upd_package p f w) = (view w)(p := (view w p)(sym_name s \<mapsto> (s, st)))"
  using world_put [OF assms(1,2), of "upd_package p f w"] assms(3,4) by (simp_all add: pkg_simps)

lemma world_drop:
  assumes ok: "world_ok w" and f: "becomes f (packages w p) ((view w p)(sym_name s := None))"
    and w': "packages w' = (packages w)(p := f (packages w p))" and n: "next_symbol w' = next_symbol w"
    and home: "symbol_package w' = (if symbol_package w s = Some p then (symbol_package w)(s := None) else symbol_package w)"
    and s: "view w p (sym_name s) = Some (s, st)"
  shows "world_ok w'" "view w' = (view w)(p := (view w p)(sym_name s := None))"
proof -
  have v: "sym_address s' < next_symbol w'" if "((view w p)(sym_name s := None)) k = Some (s', st')" for k s' st'
    using that world_fresh [OF ok, of p k s' st'] n by (simp split: if_splits)
  have h: "if q = p then \<exists>st'. ((view w p)(sym_name s := None)) (sym_name s') = Some (s', st') else symbol_package w s' = Some q"
    if "symbol_package w' s' = Some q" for s' q
  proof -
    have q: "symbol_package w s' = Some q" and ne: "q = p \<Longrightarrow> s' \<noteq> s" using that home by (auto split: if_splits)
    have "sym_name s' \<noteq> sym_name s" if "q = p" using world_home [OF ok q] s ne that by auto
    then show ?thesis using q world_home [OF ok q] by auto
  qed
  show "world_ok w'" "view w' = (view w)(p := (view w p)(sym_name s := None))"
    using world_update [OF ok f w' eq_refl [OF n [symmetric]]] v h by blast+
qed

lemma world_shadowing:
  assumes ok: "world_ok w" and f: "becomes f (packages w p) (view w p)"
  shows "world_ok (upd_package p f w)" "view (upd_package p f w) = view w"
proof -
  have h: "if q = p then \<exists>st'. view w p (sym_name s') = Some (s', st') else symbol_package w s' = Some q"
    if "symbol_package (upd_package p f w) s' = Some q" for s' q
    using that world_home [OF ok, of s' q] by (auto simp: pkg_simps)
  have v: "sym_address s' < next_symbol (upd_package p f w)" if "view w p k = Some (s', st')" for k s' st'
    using that world_fresh [OF ok] by (simp add: pkg_simps)
  note u = world_update [OF ok f upd_package_sel(1) _ v h]
  show "world_ok (upd_package p f w)" by (rule u(1)) (simp_all add: pkg_simps)
  have "view (upd_package p f w) = (view w)(p := view w p)" by (rule u(2)) (simp_all add: pkg_simps)
  then show "view (upd_package p f w) = view w" by simp
qed

subsection \<open>What the operations do\<close>

text \<open>\<^verbatim>\<open>intern\<close> and its variant: a name that is not accessible gets a new symbol.\<close>

lemma new_symbol_eq:
  "new_symbol k p w =
     (Symbol (next_symbol w) k, w\<lparr>next_symbol := next_symbol w + 1, symbol_package := (symbol_package w)(Symbol (next_symbol w) k \<mapsto> p)\<rparr>)"
  by (simp add: new_symbol_def Let_def)

lemma put_new_symbol:
  assumes ok: "world_ok w" and none: "view w p k = None" and st: "st \<noteq> Inherited"
    and f: "f = (if st = External then external_symbols_update (\<lambda>t. st_put t (Symbol (next_symbol w) k))
      else internal_symbols_update (\<lambda>t. st_put t (Symbol (next_symbol w) k)))"
    and w': "packages w' = (packages w)(p := f (packages w p))" "next_symbol w' = next_symbol w + 1"
      "symbol_package w' = (symbol_package w)(Symbol (next_symbol w) k \<mapsto> p)"
  shows "world_ok w'" "view w' = (view w)(p := (view w p)(k \<mapsto> (Symbol (next_symbol w) k, st)))"
proof -
  let ?s = "Symbol (next_symbol w) k"
  have "becomes f (packages w p) ((view w p)(sym_name ?s \<mapsto> (?s, st)))"
    using put_internal_becomes [OF world_package [OF ok], of p ?s] put_external_becomes [OF world_package [OF ok], of p ?s] none st
    by (cases st) (simp_all add: f view_package)
  note u = world_put [OF ok this w'(1)]
  show "world_ok w'" "view w' = (view w)(p := (view w p)(k \<mapsto> (?s, st)))"
    using u none w'(2,3) by simp_all
qed

lemma intern_found: "find_symbol w p k = Some (s, st) \<Longrightarrow> intern keyword p k w = ((s, Some st), w)"
  by (simp add: intern_def)

lemma intern_new:
  assumes "world_ok w" "find_symbol w p k = None"
  obtains w' where "intern keyword p k w = ((Symbol (next_symbol w) k, None), w')" "world_ok w'"
    "view w' = (view w)(p := (view w p)(k \<mapsto> (Symbol (next_symbol w) k, if p = keyword then External else Internal)))"
proof -
  have none: "view w p k = None" using assms(2) by (auto simp: find_symbol_view split: option.splits)
  define w' where "w' = snd (intern keyword p k w)"
  have w': "intern keyword p k w = ((Symbol (next_symbol w) k, None), w')"
    by (cases "p = keyword") (use assms(2) in \<open>simp_all add: w'_def intern_def new_symbol_eq\<close>)
  show ?thesis
    using w' put_new_symbol [OF assms(1) none, of "if p = keyword then External else Internal" _ w']
    by (intro that [of w']) (auto simp: intern_def assms(2) new_symbol_eq put_external_def put_internal_def pkg_simps split: if_splits)
qed

lemma intern_exported_new:
  assumes "world_ok w" "find_symbol w p k = None"
  obtains w' where "intern_exported keyword p k exportp w = (Symbol (next_symbol w) k, w')" "world_ok w'"
    "view w' = (view w)(p := (view w p)(k \<mapsto> (Symbol (next_symbol w) k, if p = keyword \<or> exportp then External else Internal)))"
proof -
  have none: "view w p k = None" using assms(2) by (auto simp: find_symbol_view split: option.splits)
  have acc: "find_accessible_symbol w p k = None" by (simp add: find_accessible_find_symbol assms(2))
  define w' where "w' = snd (intern_exported keyword p k exportp w)"
  have w': "intern_exported keyword p k exportp w = (Symbol (next_symbol w) k, w')"
    by (cases "p = keyword"; cases exportp) (use acc in \<open>simp_all add: w'_def intern_exported_def new_symbol_eq\<close>)
  show ?thesis
    using w' put_new_symbol [OF assms(1) none, of "if p = keyword \<or> exportp then External else Internal" _ w']
    by (intro that [of w']) (auto simp: intern_exported_def acc new_symbol_eq put_external_def put_internal_def pkg_simps split: if_splits)
qed

text \<open>Importing a symbol that is not present.\<close>

lemma import_symbol_ok:
  assumes ok: "world_ok w" and s: "sym_address s < next_symbol w" and w': "import_symbol p s w = Inr w'"
    and absent: "symbol_package w s = Some p \<or> view w p (sym_name s) = None"
  shows "world_ok w'"
    "view w' = (if symbol_package w s = Some p then view w else (view w)(p := (view w p)(sym_name s \<mapsto> (s, Internal))))"
proof -
  have "world_ok w' \<and> view w' = (if symbol_package w s = Some p then view w else (view w)(p := (view w p)(sym_name s \<mapsto> (s, Internal))))"
  proof (cases "symbol_package w s = Some p")
    case True
    then show ?thesis using w' ok by (simp add: import_symbol_def)
  next
    case False
    then have none: "view w p (sym_name s) = None" using absent by simp
    have e: "packages w' = (packages w)(p := internal_symbols_update (\<lambda>t. st_put t s) (packages w p))" "next_symbol w' = next_symbol w"
      "symbol_package w' = symbol_package w \<or> symbol_package w' = (symbol_package w)(s \<mapsto> p)"
      using w' False by (auto simp: import_symbol_def Let_def put_internal_def pkg_simps split: if_splits)
    have "becomes (internal_symbols_update (\<lambda>t. st_put t s)) (packages w p) ((view w p)(sym_name s \<mapsto> (s, Internal)))"
      using put_internal_becomes [OF world_package [OF ok], of p s] none by (simp add: view_package)
    from world_put [OF ok this e(1) _ _ e(3)] show ?thesis using s e(2) none False by simp
  qed
  then show "world_ok w'"
    "view w' = (if symbol_package w s = Some p then view w else (view w)(p := (view w p)(sym_name s \<mapsto> (s, Internal))))" by simp_all
qed

text \<open>Moving a symbol to the external and to the internal symbols.\<close>

lemma publish_becomes:
  assumes P: "package_ok P" and e: "st_get (external_symbols P) (sym_name s) = None"
  shows "becomes (external_symbols_update (\<lambda>t. st_put t s) \<circ> internal_symbols_update (\<lambda>t. snd (st_remove t s))) P
    ((package_view P)(sym_name s \<mapsto> (s, External)))" (is "becomes (?f \<circ> ?g) P _")
proof (rule becomes_comp [OF remove_internal_becomes [OF P e]])
  assume "package_ok (?g P)" "package_view (?g P) = (package_view P)(sym_name s := None)"
  then show "becomes ?f (?g P) ((package_view P)(sym_name s \<mapsto> (s, External)))"
    using put_external_becomes [of "?g P" s] by simp
qed

lemma withdraw_becomes:
  assumes P: "package_ok P" and e: "st_get (internal_symbols P) (sym_name s) = None"
  shows "becomes (internal_symbols_update (\<lambda>t. st_put t s) \<circ> external_symbols_update (\<lambda>t. snd (st_remove t s))) P
    ((package_view P)(sym_name s \<mapsto> (s, Internal)))" (is "becomes (?f \<circ> ?g) P _")
proof (rule becomes_comp [OF remove_external_becomes [OF P e]])
  assume "package_ok (?g P)" "package_view (?g P) = (package_view P)(sym_name s := None)"
  then show "becomes ?f (?g P) ((package_view P)(sym_name s \<mapsto> (s, Internal)))"
    using put_internal_becomes [of "?g P" s] by simp
qed

lemma moves:
  "put_external p s (remove_internal p s w) =
     upd_package p (external_symbols_update (\<lambda>t. st_put t s) \<circ> internal_symbols_update (\<lambda>t. snd (st_remove t s))) w"
  "put_internal p s (remove_external p s w) =
     upd_package p (internal_symbols_update (\<lambda>t. st_put t s) \<circ> external_symbols_update (\<lambda>t. snd (st_remove t s))) w"
  by (simp_all add: put_external_def put_internal_def remove_internal_def remove_external_def upd_package_comp)

lemma publish:
  assumes ok: "world_ok w" and s: "sym_address s < next_symbol w" and e: "find_external w p (sym_name s) = None"
    and i: "\<And>s'. find_internal w p (sym_name s) = Some s' \<Longrightarrow> s' = s"
  shows "world_ok (put_external p s (remove_internal p s w))"
    "view (put_external p s (remove_internal p s w)) = (view w)(p := (view w p)(sym_name s \<mapsto> (s, External)))"
proof -
  have old: "s' = s" if "view w p (sym_name s) = Some (s', st')" for s' st'
    using that e i find_view [OF world_package [OF ok], of p "sym_name s" s'] by (cases st') (auto simp: view_def package_view_def present_Some)
  show "world_ok (put_external p s (remove_internal p s w))"
    "view (put_external p s (remove_internal p s w)) = (view w)(p := (view w p)(sym_name s \<mapsto> (s, External)))"
    unfolding moves using old
    by (intro world_put_package [OF ok publish_becomes [OF world_package [OF ok], folded view_package] s],
        use e in \<open>simp_all add: find_external_def\<close>)+
qed

lemma withdraw:
  assumes ok: "world_ok w" and e: "find_external w p (sym_name s) = Some s"
  shows "world_ok (put_internal p s (remove_external p s w))"
    "view (put_internal p s (remove_external p s w)) = (view w)(p := (view w p)(sym_name s \<mapsto> (s, Internal)))"
proof -
  have v: "view w p (sym_name s) = Some (s, External)" using e find_view(1) [OF world_package [OF ok]] by blast
  have i: "find_internal w p (sym_name s) = None"
    using e world_package [OF ok, of p] by (auto simp: package_ok_def disjoint_def find_external_def find_internal_def dest: spec [of _ "sym_name s"])
  show "world_ok (put_internal p s (remove_external p s w))"
    "view (put_internal p s (remove_external p s w)) = (view w)(p := (view w p)(sym_name s \<mapsto> (s, Internal)))"
    unfolding moves
    by (intro world_put_package [OF ok withdraw_becomes [OF world_package [OF ok], folded view_package] world_fresh [OF ok v]],
        use v i in \<open>simp_all add: find_internal_def\<close>)+
qed

text \<open>A symbol that can be exported is present in the package as an internal symbol, or inherited.\<close>

lemma export_symbol_ok:
  assumes ok: "world_ok w" and s: "sym_address s < next_symbol w" and w': "export_symbol p s w = Inr w'"
    and new: "symbol_package w s = Some p \<or> find_external w p (sym_name s) \<noteq> Some s"
  shows "world_ok w'" "view w' = (view w)(p := (view w p)(sym_name s \<mapsto> (s, External)))"
proof -
  note fv = find_view [OF world_package [OF ok], of p "sym_name s"]
  have "world_ok w' \<and> view w' = (view w)(p := (view w p)(sym_name s \<mapsto> (s, External)))"
  proof (cases "find_external w p (sym_name s) = Some s")
    case True
    then have "w' = w" using w' new by (auto simp: export_symbol_def split: option.splits if_splits)
    then show ?thesis using ok True fv by (simp add: fun_upd_idem)
  next
    case False
    then have e: "w' = put_external p s (remove_internal p s w)"
      and acc: "symbol_package w s = Some p \<or> find_accessible_symbol w p (sym_name s) = Some s"
      using w' by (auto simp: export_symbol_def split: option.splits if_splits)
    have "find_external w p (sym_name s) = None" "\<And>s'. find_internal w p (sym_name s) = Some s' \<Longrightarrow> s' = s"
    proof -
      have "(find_external w p (sym_name s) = None) \<and> (\<forall>s'. find_internal w p (sym_name s) = Some s' \<longrightarrow> s' = s)"
      proof (cases "symbol_package w s = Some p")
        case True
        then obtain st where "view w p (sym_name s) = Some (s, st)" using world_home [OF ok] by blast
        then show ?thesis using False fv by (cases "find_external w p (sym_name s)") auto
      next
        case False
        then show ?thesis using acc \<open>find_external w p (sym_name s) \<noteq> Some s\<close>
          by (auto simp: find_accessible_symbol_def split: option.splits)
      qed
      then show "find_external w p (sym_name s) = None" "\<And>s'. find_internal w p (sym_name s) = Some s' \<Longrightarrow> s' = s" by blast+
    qed
    from publish [OF ok s this] show ?thesis unfolding e by blast
  qed
  then show "world_ok w'" "view w' = (view w)(p := (view w p)(sym_name s \<mapsto> (s, External)))" by simp_all
qed

lemma unexport_symbol_ok:
  assumes ok: "world_ok w" and w': "unexport_symbol p s w = Inr w'"
  shows "world_ok w'"
    "view w' = (if symbol_package w s = Some p then (view w)(p := (view w p)(sym_name s \<mapsto> (s, Internal))) else view w)"
proof -
  note fv = find_view [OF world_package [OF ok], of p "sym_name s"]
  have "world_ok w' \<and> view w' = (if symbol_package w s = Some p then (view w)(p := (view w p)(sym_name s \<mapsto> (s, Internal))) else view w)"
  proof (cases "symbol_package w s = Some p")
    case True
    show ?thesis
    proof (cases "find_external w p (sym_name s) = Some s")
      case e: True
      then have "w' = put_internal p s (remove_external p s w)" using True w' by (simp add: unexport_symbol_def)
      then show ?thesis using withdraw [OF ok e] True by simp
    next
      case False
      obtain st where st: "view w p (sym_name s) = Some (s, st)" using world_home [OF ok True] by blast
      then have "st = Internal" using False fv present_Some(3) by (cases st) (auto simp: view_def package_view_def)
      then show ?thesis using False True w' ok st by (simp add: unexport_symbol_def fun_upd_idem)
    qed
  next
    case False
    then have "w' = w" using w' by (auto simp: unexport_symbol_def split: if_splits)
    then show ?thesis using ok False by simp
  qed
  then show "world_ok w'"
    "view w' = (if symbol_package w s = Some p then (view w)(p := (view w p)(sym_name s \<mapsto> (s, Internal))) else view w)" by simp_all
qed

text \<open>Removing a symbol, which loses its home when that is the package.\<close>

lemma unintern_symbol_ok:
  assumes ok: "world_ok w" and w': "unintern_symbol p s w = Inr (b, w')"
  shows "world_ok w'" "b \<longleftrightarrow> (\<exists>st. view w p (sym_name s) = Some (s, st))"
    "view w' = (if b then (view w)(p := (view w p)(sym_name s := None)) else view w)"
proof -
  let ?k = "sym_name s"
  note fv = find_view [OF world_package [OF ok], of p ?k]
  have P: "find_internal w p ?k = None \<or> find_external w p ?k = None"
    using world_package [OF ok, of p] by (simp add: package_ok_def disjoint_def find_external_def find_internal_def)
  have "world_ok w' \<and> (b \<longleftrightarrow> (\<exists>st. view w p ?k = Some (s, st))) \<and>
      view w' = (if b then (view w)(p := (view w p)(?k := None)) else view w)"
  proof (cases "\<exists>st. view w p ?k = Some (s, st)")
    case True
    then obtain st where st: "view w p ?k = Some (s, st)" by blast
    let ?f = "if st = Internal then internal_symbols_update (\<lambda>t. snd (st_remove t s)) else external_symbols_update (\<lambda>t. snd (st_remove t s))"
    have "st \<noteq> Inherited" using st present_Some(3) by (auto simp: view_def package_view_def)
    then have f: "find_internal w p ?k = Some s \<and> find_external w p ?k = None \<and> st = Internal \<or>
        find_external w p ?k = Some s \<and> find_internal w p ?k = None \<and> st = External"
      using st fv P by (cases st) auto
    then have "becomes ?f (packages w p) ((view w p)(?k := None))"
      using remove_internal_becomes [OF world_package [OF ok], of p s] remove_external_becomes [OF world_package [OF ok], of p s]
      by (auto simp: view_package find_internal_def find_external_def)
    moreover have b: "b" and e: "w' = remove_home p s (upd_package p ?f w)"
      using w' f by (auto simp: unintern_symbol_def Let_def remove_internal_def remove_external_def split: option.splits)
    ultimately show ?thesis
      using world_drop [OF ok, of ?f p s w' st] st by (auto simp: remove_home_def pkg_simps)
  next
    case False
    then have "find_internal w p ?k \<noteq> Some s" "find_external w p ?k \<noteq> Some s" using fv by auto
    then have "w' = w" "\<not> b" using w' by (auto simp: unintern_symbol_def Let_def split: option.splits)
    then show ?thesis using False ok by simp
  qed
  then show "world_ok w'" "b \<longleftrightarrow> (\<exists>st. view w p ?k = Some (s, st))"
    "view w' = (if b then (view w)(p := (view w p)(?k := None)) else view w)" by blast+
qed

text \<open>Shadowing symbols.\<close>

lemma ensure_shadowing_ok:
  assumes "world_ok w"
  shows "world_ok (ensure_shadowing p w)" "view (ensure_shadowing p w) = view w"
  using world_shadowing [OF assms ensure_shadowing_becomes [OF world_package [OF assms, of p], folded view_package]]
  by (simp_all add: ensure_shadowing_def)

lemma put_shadowing_ok:
  assumes "world_ok w"
  shows "world_ok (put_shadowing p s w)" "view (put_shadowing p s w) = view w"
  using world_shadowing [OF assms put_shadowing_becomes [OF world_package [OF assms, of p], of s, folded view_package]]
  by (simp_all add: put_shadowing_def)

lemma find_ensure [simp]:
  "find_external (ensure_shadowing p w) q k = find_external w q k" "find_internal (ensure_shadowing p w) q k = find_internal w q k"
  "next_symbol (ensure_shadowing p w) = next_symbol w" "symbol_package (ensure_shadowing p w) = symbol_package w"
  by (simp_all add: find_external_def find_internal_def ensure_shadowing_def pkg_simps)

lemma shadow_ok:
  assumes ok: "world_ok w"
  shows "world_ok (shadow p k w)"
    "view (shadow p k w) =
       (if view w p k = None \<and> find_shadowing w p k = None
        then (view w)(p := (view w p)(k \<mapsto> (Symbol (next_symbol w) k, Internal))) else view w)"
proof -
  let ?w = "ensure_shadowing p w" and ?s = "Symbol (next_symbol w) k"
  note e = ensure_shadowing_ok [OF ok, of p]
  have sh: "find_shadowing ?w p k = find_shadowing w p k"
    using SymbolHashTable_new_ok(2) by (auto simp: find_shadowing_def ensure_shadowing_def pkg_simps split: option.splits)
  have "world_ok (shadow p k w) \<and> view (shadow p k w) =
       (if view w p k = None \<and> find_shadowing w p k = None then (view w)(p := (view w p)(k \<mapsto> (?s, Internal))) else view w)"
  proof (cases "view w p k = None \<and> find_shadowing w p k = None")
    case True
    define w1 where "w1 = put_internal p ?s (snd (new_symbol k p ?w))"
    have n: "find_external w p k = None" "find_internal w p k = None" using True view_None by blast+
    have "shadow p k w = put_shadowing p ?s w1" using True n sh by (simp add: shadow_def w1_def new_symbol_eq)
    moreover have "world_ok w1 \<and> view w1 = (view w)(p := (view w p)(k \<mapsto> (?s, Internal)))"
      using put_new_symbol [OF e(1), of p k Internal _ w1] True e(2) by (auto simp: w1_def put_internal_def new_symbol_eq pkg_simps)
    ultimately show ?thesis using put_shadowing_ok [of w1] True by simp
  next
    case False
    have "shadow p k w = ?w \<or> (\<exists>s. shadow p k w = put_shadowing p s ?w)"
    proof (cases "find_external w p k")
      case None
      then show ?thesis using False sh view_None [of w p k] by (cases "find_internal w p k") (auto simp: shadow_def Let_def)
    qed (simp add: shadow_def Let_def exI)
    then show ?thesis using False e put_shadowing_ok [OF e(1)] by auto
  qed
  then show "world_ok (shadow p k w)" "view (shadow p k w) =
       (if view w p k = None \<and> find_shadowing w p k = None then (view w)(p := (view w p)(k \<mapsto> (?s, Internal))) else view w)" by blast+
qed

lemma displace_becomes:
  assumes P: "package_ok P"
  shows "becomes (internal_symbols_update (\<lambda>t. st_put t s) \<circ>
      (case st_get (internal_symbols P) (sym_name s) of
         Some sy \<Rightarrow> internal_symbols_update (\<lambda>t. snd (st_remove t sy))
       | None \<Rightarrow>
           (case st_get (external_symbols P) (sym_name s) of
              Some sy \<Rightarrow> external_symbols_update (\<lambda>t. snd (st_remove t sy))
            | None \<Rightarrow> id))) P ((package_view P)(sym_name s \<mapsto> (s, Internal)))" (is "becomes (?f \<circ> ?g) P _")
proof (rule becomes_comp)
  let ?k = "sym_name s"
  have d: "st_get (internal_symbols P) ?k = None \<or> st_get (external_symbols P) ?k = None"
    using P by (simp add: package_ok_def disjoint_def)
  have name: "sym_name sy = ?k" if "st_get (internal_symbols P) ?k = Some sy \<or> st_get (external_symbols P) ?k = Some sy" for sy
    using that P nt.get_name by (auto simp: package_ok_def)
  show "becomes ?g P ((package_view P)(?k := None))"
  proof (cases "st_get (internal_symbols P) ?k")
    case (Some sy)
    then show ?thesis using remove_internal_becomes [OF P, of sy] d name [of sy] by simp
  next
    case i: None
    show ?thesis
    proof (cases "st_get (external_symbols P) ?k")
      case (Some sy)
      then show ?thesis using remove_external_becomes [OF P, of sy] i name [of sy] by simp
    next
      case None
      then have "package_view P ?k = None" using i by (simp add: package_view_def present_None)
      then show ?thesis using i None P by (simp add: becomes_def fun_upd_idem)
    qed
  qed
  assume "package_ok (?g P)" "package_view (?g P) = (package_view P)(?k := None)"
  then show "becomes ?f (?g P) ((package_view P)(?k \<mapsto> (s, Internal)))" using put_internal_becomes [of "?g P" s] by simp
qed

lemma shadowing_import_becomes:
  assumes P: "package_ok (packages w p)"
  shows "\<exists>F. becomes F (packages w p) ((view w p)(sym_name s \<mapsto> (s, Internal))) \<and> shadowing_import p s w = upd_package p F w"
proof -
  let ?e = "shadowing_symbols_update (\<lambda>t. case t of None \<Rightarrow> Some SymbolHashTable_new | Some t \<Rightarrow> Some t)" and ?P = "packages w p"
  let ?h = "shadowing_symbols_update (map_option (\<lambda>t. st_put t s))" and ?v = "(view w p)(sym_name s \<mapsto> (s, Internal))"
  define g :: "package \<Rightarrow> package" where "g = internal_symbols_update (\<lambda>t. st_put t s) \<circ>
      (case st_get (internal_symbols (?e ?P)) (sym_name s) of
         Some sy \<Rightarrow> internal_symbols_update (\<lambda>t. snd (st_remove t sy))
       | None \<Rightarrow>
           (case st_get (external_symbols (?e ?P)) (sym_name s) of
              Some sy \<Rightarrow> external_symbols_update (\<lambda>t. snd (st_remove t sy))
            | None \<Rightarrow> id))"
  have e: "becomes ?e ?P (view w p)" unfolding view_package by (rule ensure_shadowing_becomes [OF P])
  then have "becomes g (?e ?P) ?v" using displace_becomes [of "?e ?P" s] by (simp add: g_def becomes_def)
  then have g: "becomes (g \<circ> ?e) ?P ?v" using becomes_comp [OF e] by blast
  then have "becomes ?h ((g \<circ> ?e) ?P) ?v" using put_shadowing_becomes [of "(g \<circ> ?e) ?P" s] by (simp add: becomes_def)
  then have "becomes (?h \<circ> (g \<circ> ?e)) ?P ?v" using becomes_comp [OF g] by blast
  moreover have "shadowing_import p s w = upd_package p (?h \<circ> (g \<circ> ?e)) w"
    by (auto simp: shadowing_import_def Let_def g_def put_internal_def put_shadowing_def ensure_shadowing_def remove_internal_def
        remove_external_def upd_package_comp comp_assoc find_internal_def find_external_def pkg_simps split: option.splits)
  ultimately show ?thesis by blast
qed

lemma shadowing_import_ok:
  assumes ok: "world_ok w" and s: "sym_address s < next_symbol w"
    and old: "\<And>s' st. view w p (sym_name s) = Some (s', st) \<Longrightarrow> s' = s \<or> symbol_package w s' \<noteq> Some p"
  shows "world_ok (shadowing_import p s w)"
    "view (shadowing_import p s w) = (view w)(p := (view w p)(sym_name s \<mapsto> (s, Internal)))"
proof -
  obtain F where "becomes F (packages w p) ((view w p)(sym_name s \<mapsto> (s, Internal)))" "shadowing_import p s w = upd_package p F w"
    using shadowing_import_becomes [OF world_package [OF ok]] by blast
  then show "world_ok (shadowing_import p s w)"
    "view (shadowing_import p s w) = (view w)(p := (view w p)(sym_name s \<mapsto> (s, Internal)))"
    using world_put_package [OF ok _ s, of F p Internal] old by simp_all
qed

text \<open>Using a package changes what is inherited, not what is present.\<close>

lemma use_lists_ok:
  assumes ok: "world_ok w"
    and w': "w' = upd_package q (used_by_list_update g) (upd_package p (use_list_update f) w)"
    and fg: "\<And>r r'. r' \<in> set ((if r = p then f else id) (use_list (packages w r))) \<longleftrightarrow>
      r \<in> set ((if r' = q then g else id) (used_by_list (packages w r')))"
  shows "world_ok w'" "view w' = view w"
proof -
  have P: "internal_symbols (packages w' r) = internal_symbols (packages w r)" "external_symbols (packages w' r) = external_symbols (packages w r)"
    "shadowing_symbols (packages w' r) = shadowing_symbols (packages w r)"
    "use_list (packages w' r) = (if r = p then f else id) (use_list (packages w r))"
    "used_by_list (packages w' r) = (if r = q then g else id) (used_by_list (packages w r))" for r
    by (simp_all add: w' pkg_simps)
  show v: "view w' = view w" by (simp add: view_def package_view_def P fun_eq_iff)
  have s: "symbol_package w' = symbol_package w" "next_symbol w' = next_symbol w" by (simp_all add: w' pkg_simps)
  show "world_ok w'" using ok fg unfolding world_ok_def v s P package_ok_def by blast
qed

lemma use_package_ok:
  assumes "world_ok w"
  shows "world_ok (use_package p q w)" "view (use_package p q w) = view w"
    "package_uses p' q' (use_package p q w) \<longleftrightarrow> package_uses p' q' w \<or> p' = p \<and> q' = q"
proof -
  have "world_ok (use_package p q w) \<and> view (use_package p q w) = view w"
    using use_lists_ok [OF assms refl, of p "(#) q" q "(#) p"] assms by (auto simp: use_package_def world_ok_def)
  then show "world_ok (use_package p q w)" "view (use_package p q w) = view w" by simp_all
  show "package_uses p' q' (use_package p q w) \<longleftrightarrow> package_uses p' q' w \<or> p' = p \<and> q' = q"
    by (auto simp: use_package_def package_uses_def pkg_simps)
qed

lemma unuse_package_ok:
  assumes "world_ok w"
  shows "world_ok (unuse_package p q w)" "view (unuse_package p q w) = view w"
    "package_uses p' q' (unuse_package p q w) \<longleftrightarrow> package_uses p' q' w \<and> \<not> (p' = p \<and> q' = q)"
proof -
  have "world_ok (unuse_package p q w) \<and> view (unuse_package p q w) = view w"
    using use_lists_ok [OF assms refl, of p "removeAll q" q "removeAll p"] assms by (auto simp: unuse_package_def world_ok_def)
  then show "world_ok (unuse_package p q w)" "view (unuse_package p q w) = view w" by simp_all
  show "package_uses p' q' (unuse_package p q w) \<longleftrightarrow> package_uses p' q' w \<and> \<not> (p' = p \<and> q' = q)"
    by (auto simp: unuse_package_def package_uses_def pkg_simps)
qed

subsection \<open>Reachable worlds\<close>

definition initial_world :: "nat \<Rightarrow> world" where
  "initial_world n = \<lparr>packages = \<lambda>_. Package_new, symbol_package = \<lambda>_. None, constant_value = \<lambda>_. None, next_symbol = n\<rparr>"

text \<open>
  The calls of a careful program, which keeps to three rules the code does not check: a symbol whose home is not the
  package is imported only when no symbol of its name is present, and exported only when it is not external yet, and
  \<^verbatim>\<open>shadowing_import\<close> does not displace a symbol whose home is the package. \<open>make\<close> is the creation of a symbol without a
  package. The relation \<open>pkg_call\<close> below has all calls.
\<close>

inductive pkg_step :: "nat \<Rightarrow> world \<Rightarrow> world \<Rightarrow> bool" for keyword where
  make: "pkg_step keyword w (w\<lparr>next_symbol := next_symbol w + 1\<rparr>)"
| intern: "pkg_step keyword w (snd (intern keyword p k w))"
| intern_exported: "pkg_step keyword w (snd (intern_exported keyword p k exportp w))"
| import_symbol: "import_symbol p s w = Inr w' \<Longrightarrow> sym_address s < next_symbol w \<Longrightarrow>
    symbol_package w s = Some p \<or> view w p (sym_name s) = None \<Longrightarrow> pkg_step keyword w w'"
| export_symbol: "export_symbol p s w = Inr w' \<Longrightarrow> sym_address s < next_symbol w \<Longrightarrow>
    symbol_package w s = Some p \<or> find_external w p (sym_name s) \<noteq> Some s \<Longrightarrow> pkg_step keyword w w'"
| unexport_symbol: "unexport_symbol p s w = Inr w' \<Longrightarrow> pkg_step keyword w w'"
| unintern_symbol: "unintern_symbol p s w = Inr (b, w') \<Longrightarrow> pkg_step keyword w w'"
| shadow: "pkg_step keyword w (shadow p k w)"
| shadowing_import: "sym_address s < next_symbol w \<Longrightarrow>
    (\<And>s' st. view w p (sym_name s) = Some (s', st) \<Longrightarrow> s' = s \<or> symbol_package w s' \<noteq> Some p) \<Longrightarrow>
    pkg_step keyword w (shadowing_import p s w)"
| use_package: "pkg_step keyword w (use_package p q w)"
| unuse_package: "pkg_step keyword w (unuse_package p q w)"

lemma intern_ok: "world_ok w \<Longrightarrow> world_ok (snd (intern keyword p k w))"
  by (cases "find_symbol w p k") (auto simp: intern_found elim: intern_new [of w p k keyword])

lemma intern_exported_ok: "world_ok w \<Longrightarrow> world_ok (snd (intern_exported keyword p k exportp w))"
  by (cases "find_symbol w p k")
    (auto simp: intern_exported_def find_accessible_find_symbol elim: intern_exported_new [of w p k keyword exportp])

lemma pkg_step_ok: "pkg_step keyword w w' \<Longrightarrow> world_ok w \<Longrightarrow> world_ok w'"
proof (induction rule: pkg_step.induct)
  case (make w)
  have "view (w\<lparr>next_symbol := next_symbol w + 1\<rparr>) = view w" by (simp add: view_def fun_eq_iff)
  then show ?case using make unfolding world_ok_def by (simp add: less_Suc_eq)
qed (auto intro: intern_ok intern_exported_ok import_symbol_ok export_symbol_ok unexport_symbol_ok unintern_symbol_ok shadow_ok
    shadowing_import_ok use_package_ok unuse_package_ok)

lemma initial_world_ok: "world_ok (initial_world n)"
proof -
  have "package_view Package_new k = None" for k
    using SymbolHashTable_new_ok(2) by (simp add: package_view_def present_None Package_new_def)
  then show ?thesis using SymbolHashTable_new_ok
    by (simp add: world_ok_def initial_world_def view_def package_ok_def disjoint_def Package_new_def)
qed

lemma reachable_ok: "(pkg_step keyword)\<^sup>*\<^sup>* (initial_world n) w \<Longrightarrow> world_ok w"
  by (induction rule: rtranclp_induct) (auto intro: initial_world_ok pkg_step_ok)

subsection \<open>Unrestricted calls\<close>

text \<open>All calls, as the code accepts them.\<close>

inductive pkg_call :: "nat \<Rightarrow> world \<Rightarrow> world \<Rightarrow> bool" for keyword where
  make_call: "pkg_call keyword w (w\<lparr>next_symbol := next_symbol w + 1\<rparr>)"
| intern_call: "pkg_call keyword w (snd (intern keyword p k w))"
| intern_exported_call: "pkg_call keyword w (snd (intern_exported keyword p k exportp w))"
| import_call: "import_symbol p s w = Inr w' \<Longrightarrow> pkg_call keyword w w'"
| export_call: "export_symbol p s w = Inr w' \<Longrightarrow> pkg_call keyword w w'"
| unexport_call: "unexport_symbol p s w = Inr w' \<Longrightarrow> pkg_call keyword w w'"
| unintern_call: "unintern_symbol p s w = Inr (b, w') \<Longrightarrow> pkg_call keyword w w'"
| shadow_call: "pkg_call keyword w (shadow p k w)"
| shadowing_import_call: "pkg_call keyword w (shadowing_import p s w)"
| use_call: "pkg_call keyword w (use_package p q w)"
| unuse_call: "pkg_call keyword w (unuse_package p q w)"

lemma pkg_step_call: "pkg_step keyword w w' \<Longrightarrow> pkg_call keyword w w'"
  by (induction rule: pkg_step.induct) (rule pkg_call.intros; assumption?)+

text \<open>What they keep: tables in which every search ends at the right bucket, and lists of packages that agree.\<close>

definition tables_ok :: "package \<Rightarrow> bool" where
  "tables_ok P \<longleftrightarrow> st_ok (internal_symbols P) \<and> st_ok (external_symbols P) \<and> (\<forall>t. shadowing_symbols P = Some t \<longrightarrow> st_ok t)"

definition sound :: "world \<Rightarrow> bool" where
  "sound w \<longleftrightarrow> (\<forall>p. tables_ok (packages w p)) \<and>
     (\<forall>p q. q \<in> set (use_list (packages w p)) \<longleftrightarrow> p \<in> set (used_by_list (packages w q)))"

lemma st_remove_keeps: "st_ok t \<Longrightarrow> st_ok (snd (st_remove t s))"
  using st_remove_ok(2) [of t s] by (cases "st_remove t s") simp

lemma sound_fields [simp]:
  "sound (symbol_package_update h w) = sound w" "sound (constant_value_update c w) = sound w" "sound (next_symbol_update n w) = sound w"
  by (simp_all add: sound_def)

lemma sound_upd:
  assumes "sound w" "\<And>P. tables_ok P \<Longrightarrow> tables_ok (f P)" "\<And>P. use_list (f P) = use_list P" "\<And>P. used_by_list (f P) = used_by_list P"
  shows "sound (upd_package p f w)"
  using assms by (simp add: sound_def pkg_simps)

lemma sound_tables [intro!]:
  assumes "sound w"
  shows "sound (put_internal p s w)" "sound (put_external p s w)" "sound (remove_internal p s w)" "sound (remove_external p s w)"
    "sound (put_shadowing p s w)" "sound (ensure_shadowing p w)"
  unfolding put_internal_def put_external_def remove_internal_def remove_external_def put_shadowing_def ensure_shadowing_def
  using SymbolHashTable_new_ok(1)
  by (auto intro!: sound_upd [OF assms] simp: tables_ok_def table_ok_def st_put_ok(1) st_remove_keeps split: option.splits)

lemma sound_home [simp]: "sound (remove_home p s w) = sound w"
  by (simp add: remove_home_def)

lemma sound_lists:
  assumes "sound w"
  shows "sound (use_package p q w)" "sound (unuse_package p q w)"
  using assms by (auto simp: sound_def use_package_def unuse_package_def pkg_simps tables_ok_def)

lemma pkg_call_sound: "pkg_call keyword w w' \<Longrightarrow> sound w \<Longrightarrow> sound w'"
proof (induction rule: pkg_call.induct)
  case (intern_call w p k)
  then show ?case by (auto simp: intern_def Let_def new_symbol_def split: option.splits)
next
  case (intern_exported_call w p k exportp)
  then show ?case by (auto simp: intern_exported_def Let_def new_symbol_def split: option.splits)
next
  case (import_call p s w w')
  then show ?case by (auto simp: import_symbol_def Let_def split: if_splits)
next
  case (export_call p s w w')
  then show ?case by (auto simp: export_symbol_def split: if_splits option.splits)
next
  case (unexport_call p s w w')
  then show ?case by (auto simp: unexport_symbol_def split: if_splits)
next
  case (unintern_call p s w b w')
  then show ?case by (auto simp: unintern_symbol_def Let_def split: if_splits option.splits)
next
  case (shadow_call w p k)
  then show ?case by (auto simp: shadow_def Let_def new_symbol_def split: option.splits)
next
  case (shadowing_import_call w p s)
  then show ?case by (auto simp: shadowing_import_def Let_def split: option.splits)
qed (auto intro: sound_lists)

lemma initial_world_sound: "sound (initial_world n)"
  using SymbolHashTable_new_ok(1) by (simp add: sound_def initial_world_def tables_ok_def table_ok_def Package_new_def)

lemma reachable_sound: "(pkg_call keyword)\<^sup>*\<^sup>* (initial_world n) w \<Longrightarrow> sound w"
  by (induction rule: rtranclp_induct) (auto intro: initial_world_sound pkg_call_sound)

text \<open>The names a package gives access to.\<close>

definition internal_names :: "world \<Rightarrow> nat \<Rightarrow> symbol_name set" where
  "internal_names w p = sym_name ` set (st_symbols (internal_symbols (packages w p)))"

definition external_names :: "world \<Rightarrow> nat \<Rightarrow> symbol_name set" where
  "external_names w p = sym_name ` set (st_symbols (external_symbols (packages w p)))"

lemma set_symbols: "s \<in> set (st_symbols t) \<longleftrightarrow> s \<in># lives (st_buckets t)"
  unfolding symbols_lives [symmetric] by simp

lemma sound_tables_ok: "sound w \<Longrightarrow> tables_ok (packages w p)"
  by (simp add: sound_def)

lemma st_get_names: "st_ok t \<Longrightarrow> st_get t k = None \<longleftrightarrow> k \<notin> sym_name ` set (st_symbols t)"
  by (auto simp: st_get_None set_symbols image_iff)

lemma sound_find_None:
  assumes "sound w"
  shows "find_internal w p k = None \<longleftrightarrow> k \<notin> internal_names w p" "find_external w p k = None \<longleftrightarrow> k \<notin> external_names w p"
  using sound_tables_ok [OF assms, of p] st_get_names
  by (simp_all add: tables_ok_def find_internal_def find_external_def internal_names_def external_names_def)

lemma sound_find_name:
  assumes "sound w"
  shows "find_internal w p k = Some s \<Longrightarrow> sym_name s = k" "find_external w p k = Some s \<Longrightarrow> sym_name s = k"
  using sound_tables_ok [OF assms, of p] st_get_Some by (auto simp: tables_ok_def find_internal_def find_external_def)

lemma sound_find_used:
  assumes "sound w"
  shows "find_used w qs k = None \<longleftrightarrow> (\<forall>q \<in> set qs. k \<notin> external_names w q)" "find_used w qs k = Some s \<Longrightarrow> sym_name s = k"
  by (induction qs) (auto simp flip: sound_find_None(2) [OF assms] dest: sound_find_name(2) [OF assms] split: option.splits)

lemma sound_find_symbol:
  assumes "sound w"
  shows "find_symbol w p k = None \<longleftrightarrow> k \<notin> internal_names w p \<union> external_names w p \<union> (\<Union>q \<in> set (use_list (packages w p)). external_names w q)"
    "find_symbol w p k = Some (s, st) \<Longrightarrow> sym_name s = k"
  using sound_find_None [OF assms, of p k] sound_find_used(1) [OF assms, of "use_list (packages w p)" k]
    sound_find_name [OF assms, of p k] sound_find_used(2) [OF assms, of "use_list (packages w p)" k]
  by (auto simp: find_symbol_def split: option.splits)

subsection \<open>Inherited symbols\<close>

lemma find_used_name:
  assumes "world_ok w" "find_used w qs k = Some s"
  shows "sym_name s = k"
  using assms(2)
proof (induction qs)
  case (Cons q qs)
  then show ?case using find_view(1) [OF world_package [OF assms(1)], of q k s] view_name [OF world_package [OF assms(1)], of q k s External]
    by (auto split: option.splits)
qed simp

lemma find_symbol_name: "world_ok w \<Longrightarrow> find_symbol w p k = Some (s, st) \<Longrightarrow> sym_name s = k"
  using find_used_name view_name [OF world_package] by (auto simp: find_symbol_view split: option.splits)

lemma find_used_exported: "q \<in> set qs \<Longrightarrow> find_external w q k = Some s \<Longrightarrow> find_used w qs k \<noteq> None"
  by (induction qs) (auto split: option.splits)

text \<open>An external symbol is accessible in the packages that use the package, unless another symbol is found first.\<close>

lemma exported_accessible:
  assumes "package_uses q p w" "find_external w p k = Some s"
  shows "find_accessible_symbol w q k \<noteq> None"
  using assms find_used_exported [of p "use_list (packages w q)" w k s]
  by (auto simp: find_accessible_symbol_def package_uses_def split: option.splits)

lemma export_lists: "export_symbol p s w = Inr w' \<Longrightarrow> use_list (packages w' q) = use_list (packages w q)"
  by (auto simp: export_symbol_def put_external_def remove_internal_def pkg_simps split: option.splits if_splits)

lemma export_returns:
  assumes "export_conflict w s (used_by_list (packages w p)) = None" "find_accessible_symbol w p (sym_name s) = Some s"
  shows "\<exists>w'. export_symbol p s w = Inr w'"
  using assms by (auto simp: export_symbol_def)

subsection \<open>Calls that break the rules\<close>

text \<open>Importing a symbol that has been imported and exported stores it among the internal symbols too; then \<^verbatim>\<open>unintern\<close> leaves it.\<close>

lemma import_external:
  assumes ok: "world_ok w" and e: "find_external w p (sym_name s) = Some s" and home: "symbol_package w s \<noteq> Some p"
  shows "\<exists>w'. import_symbol p s w = Inr w' \<and> find_internal w' p (sym_name s) = Some s \<and> find_external w' p (sym_name s) = Some s \<and>
    find_shadowing w' p = find_shadowing w p \<and> use_list (packages w' p) = use_list (packages w p) \<and> table_ok (internal_symbols (packages w' p))"
proof -
  have acc: "find_accessible_symbol w p (sym_name s) = Some s" using e by (simp add: find_accessible_symbol_def)
  have P: "table_ok (internal_symbols (packages w p))" "st_get (internal_symbols (packages w p)) (sym_name s) = None"
    using world_package [OF ok, of p] e by (auto simp: package_ok_def disjoint_def find_external_def dest: spec [of _ "sym_name s"])
  show ?thesis using nt.get_put [OF P] nt.put_ok [OF P] e
    by (auto simp: import_symbol_def home acc Let_def put_internal_def pkg_simps find_internal_def find_external_def find_shadowing_def fun_eq_iff)
qed

lemma unintern_doubled:
  assumes "find_internal w p (sym_name s) = Some s" "find_external w p (sym_name s) = Some s" "find_shadowing w p (sym_name s) \<noteq> Some s"
  shows "\<exists>w'. unintern_symbol p s w = Inr (True, w') \<and> find_symbol w' p (sym_name s) = Some (s, External)"
  using assms by (auto simp: unintern_symbol_def find_symbol_def find_external_def remove_home_def remove_internal_def pkg_simps)

text \<open>\<^verbatim>\<open>unintern\<close> keeps a symbol in the shadowing symbols, so that \<^verbatim>\<open>shadow\<close> takes it to be there.\<close>

lemma unintern_shadowing:
  assumes ok: "world_ok w" and v: "view w p (sym_name s) = Some (s, st)" and sh: "find_shadowing w p (sym_name s) = Some s"
    and used: "use_list (packages w p) = []"
  shows "\<exists>w'. unintern_symbol p s w = Inr (True, w') \<and> find_shadowing w' p (sym_name s) = Some s \<and>
    find_symbol (shadow p (sym_name s) w') p (sym_name s) = None"
proof -
  have "name_conflict w (sym_name s) None (use_list (packages w p)) = None" by (simp add: used)
  then have "\<exists>b w'. unintern_symbol p s w = Inr (b, w')" by (auto simp: unintern_symbol_def Let_def)
  then obtain b w' where u: "unintern_symbol p s w = Inr (b, w')" by blast
  note r = unintern_symbol_ok [OF ok u]
  have b: b using r(2) v by blast
  have s': "find_shadowing w' p = find_shadowing w p" "use_list (packages w' p) = []"
    using u used by (auto simp: unintern_symbol_def Let_def remove_home_def remove_internal_def remove_external_def find_shadowing_def pkg_simps
        fun_eq_iff split: option.splits if_splits)
  have l: "use_list (packages (shadow p (sym_name s) w') p) = []"
    using s' by (auto simp: shadow_def Let_def new_symbol_def put_shadowing_def put_internal_def ensure_shadowing_def pkg_simps split: option.splits)
  have "view (shadow p (sym_name s) w') p (sym_name s) = None" using shadow_ok(2) [OF r(1), of p "sym_name s"] s' sh r(3) b by simp
  then have "find_symbol (shadow p (sym_name s) w') p (sym_name s) = None" by (simp add: find_symbol_view l)
  then show ?thesis using u b s' sh by auto
qed

text \<open>A displaced symbol keeps the package as its home: importing it does nothing, exporting it puts it in the place of the other.\<close>

lemma displaced_symbol:
  assumes ok: "world_ok w" and v: "view w p (sym_name s) = Some (s0, st)" and home: "symbol_package w s0 = Some p" and ne: "s \<noteq> s0"
    and used: "used_by_list (packages w p) = []"
  defines "w1 \<equiv> shadowing_import p s w"
  shows "symbol_package w1 s0 = Some p" "find_symbol w1 p (sym_name s) = Some (s, Internal)" "import_symbol p s0 w1 = Inr w1"
    "\<exists>w2. export_symbol p s0 w1 = Inr w2 \<and> find_symbol w2 p (sym_name s) = Some (s0, External)"
proof -
  let ?k = "sym_name s"
  obtain F where F: "becomes F (packages w p) ((view w p)(?k \<mapsto> (s, Internal)))" "w1 = upd_package p F w"
    using shadowing_import_becomes [OF world_package [OF ok]] unfolding w1_def by blast
  have P: "package_ok (packages w1 p)" and v1: "view w1 p = (view w p)(?k \<mapsto> (s, Internal))" and u1: "used_by_list (packages w1 p) = []"
    using F used by (simp_all add: becomes_def pkg_simps view_def)
  have name: "sym_name s0 = ?k" using view_name [OF world_package [OF ok] v] .
  show h: "symbol_package w1 s0 = Some p" using home F(2) by (simp add: pkg_simps)
  show "find_symbol w1 p ?k = Some (s, Internal)" by (simp add: find_symbol_view v1)
  show "import_symbol p s0 w1 = Inr w1" using h by (simp add: import_symbol_def)
  have e: "find_external w1 p ?k = None"
    using find_view(1) [OF P, of ?k] v1 by (cases "find_external w1 p ?k") auto
  then have "export_symbol p s0 w1 = Inr (put_external p s0 (remove_internal p s0 w1))"
    using h u1 name by (simp add: export_symbol_def)
  moreover have "view (put_external p s0 (remove_internal p s0 w1)) p ?k = Some (s0, External)"
    using publish_becomes [OF P, of s0] e name unfolding moves view_def
    by (simp add: becomes_def pkg_simps find_external_def)
  ultimately show "\<exists>w2. export_symbol p s0 w1 = Inr w2 \<and> find_symbol w2 p ?k = Some (s0, External)"
    by (simp add: find_symbol_view)
qed

end
