(* ===== verification/Spec2Isabelle.thy ===== *)
theory Spec2Isabelle
  imports Kernel_Div Kernel_Hash Packages
begin

text \<open>
  \<^bold>\<open>Integer arithmetic, hash tables and packages of XCL.\<close>

  XCL is a Common Lisp system: a kernel in C++ (\<^verbatim>\<open>kernel/\<close>), a compiler and library in Lisp, a
  garbage collector (\<^verbatim>\<open>gc/\<close>) and the multi-precision libraries \<^verbatim>\<open>mpir/\<close> and \<^verbatim>\<open>mpfr/\<close> in C. Every
  integer operation of the Lisp system that leaves the fixnum range ends in the integer functions
  of \<^verbatim>\<open>mpir/mpz\<close>, which work on limb vectors through \<^verbatim>\<open>mpir/mpn/generic\<close>, which in turn are written
  over the double-limb macros of \<^verbatim>\<open>mpir/longlong.h\<close> and \<^verbatim>\<open>mpir/gmp-impl.h\<close>. This development models
  these three layers from the C sources, and on top of them the integer functions of the Lisp
  kernel (\<^verbatim>\<open>kernel/lisp.hpp\<close>, \<^verbatim>\<open>Bignum.hpp\<close>, \<^verbatim>\<open>Bignum.cpp\<close>, \<^verbatim>\<open>numbers.cpp\<close>), and proves that they compute
  exact integer arithmetic. Two further parts of the kernel are modelled beside it: the hash tables
  (\<^verbatim>\<open>HashTable.cpp\<close> and the classes of the four tests), which meet the arithmetic in the test \<^verbatim>\<open>eql\<close> and the hash
  values of integers, and the symbol tables and packages (\<^verbatim>\<open>SymbolHashTable.cpp\<close>, \<^verbatim>\<open>Package.cpp\<close>).

  \<^bold>\<open>Layers and theories.\<close>

  \<^item> \<^verbatim>\<open>Limb_Prelude\<close>: a limb is a 64-bit word (\<open>limb\<close>), the base \<open>B = 2^64\<close>, the value \<open>lval\<close> of a limb
    vector (least significant limb first), the bridge from word operations to integers.
  \<^item> \<^verbatim>\<open>Longlong\<close> (\<^verbatim>\<open>longlong.h\<close>): \<^verbatim>\<open>add_ssaaaa\<close>, \<^verbatim>\<open>sub_ddmmss\<close>, \<^verbatim>\<open>umul_ppmm\<close> from half-limb products, and the
    counts of leading and trailing zeros.
  \<^item> \<^verbatim>\<open>Mpn_Arith\<close> (\<^verbatim>\<open>add_n.c\<close>, \<^verbatim>\<open>sub_n.c\<close>, the inline functions of \<^verbatim>\<open>gmp-h.in\<close>, \<^verbatim>\<open>com_n.c\<close>, \<^verbatim>\<open>neg_n.c\<close>): addition,
    subtraction with carry, comparison, normalisation, complement, negation.
  \<^item> \<^verbatim>\<open>Mpn_Bits\<close> (\<^verbatim>\<open>lshift.c\<close>, \<^verbatim>\<open>rshift.c\<close>, \<^verbatim>\<open>scan0.c\<close>, \<^verbatim>\<open>scan1.c\<close>, the logic macros): shifts, bitwise
    operations and bit scans of vectors.
  \<^item> \<^verbatim>\<open>Mpn_Mul\<close>, \<^verbatim>\<open>Mpn_Karatsuba\<close>, \<^verbatim>\<open>Mpn_Sqr\<close>, \<^verbatim>\<open>Mpn_Mul_Top\<close> (\<^verbatim>\<open>mul_1.c\<close>, \<^verbatim>\<open>addmul_1.c\<close>, \<^verbatim>\<open>submul_1.c\<close>,
    \<^verbatim>\<open>mul_basecase.c\<close>, \<^verbatim>\<open>sqr_basecase.c\<close>, \<^verbatim>\<open>mul_n.c\<close>, \<^verbatim>\<open>mul.c\<close>): products by a limb, the schoolbook
    product and square, Karatsuba's product and square, and the choice among them.
  \<^item> \<^verbatim>\<open>Mpn_Div\<close>, \<^verbatim>\<open>Mpn_Hensel\<close>, \<^verbatim>\<open>Mpn_Mod\<close>, \<^verbatim>\<open>Mpn_Divrem\<close> (\<^verbatim>\<open>longlong.h\<close>, \<^verbatim>\<open>gmp-impl.h\<close>,
    \<^verbatim>\<open>rsh_divrem_hensel_qr_1*.c\<close>, \<^verbatim>\<open>mod_1_*.c\<close>, \<^verbatim>\<open>divrem_euclidean_r_1.c\<close>, \<^verbatim>\<open>divrem_1.c\<close>, \<^verbatim>\<open>mod_1.c\<close>): division
    of two limbs by one, with and without a precomputed inverse, inverses modulo \<open>2^64\<close>, and
    division of a vector by a limb from either end.
  \<^item> \<^verbatim>\<open>Mpn_Sbdiv\<close>, \<^verbatim>\<open>Mpn_Divrem2\<close>, \<^verbatim>\<open>Mpn_Tdiv\<close>, \<^verbatim>\<open>Mpn_Tdiv_Short\<close>, \<^verbatim>\<open>Mpn_Tdiv_Top\<close> (\<^verbatim>\<open>sb_div_qr.c\<close>, \<^verbatim>\<open>divrem_2.c\<close>,
    \<^verbatim>\<open>tdiv_qr.c\<close>): the inverse of two limbs and three limbs by two, schoolbook division, division by two
    limbs, and \<^verbatim>\<open>mpn_tdiv_qr\<close> with its long and short quotients; the sizes at which other routines
    take over (\<open>tdiv_scope\<close>).
  \<^item> \<^verbatim>\<open>Mpz_Store\<close>, \<^verbatim>\<open>Mpz_Basic\<close> (\<^verbatim>\<open>mpz/init*.c\<close>, \<^verbatim>\<open>iset*.c\<close>, \<^verbatim>\<open>realloc*.c\<close>, \<^verbatim>\<open>set*.c\<close>, \<^verbatim>\<open>neg.c\<close>, \<^verbatim>\<open>abs.c\<close>,
    \<^verbatim>\<open>swap.c\<close>, \<^verbatim>\<open>cmp*.c\<close>, \<^verbatim>\<open>get_si.c\<close>, \<^verbatim>\<open>fits_*\<close>): the \<^verbatim>\<open>__mpz_struct\<close> record, the store of all
    variables, allocation, assignment, comparison, conversion to machine words.
  \<^item> \<^verbatim>\<open>Mpz_Arith\<close>, \<^verbatim>\<open>Mpz_Mul\<close>, \<^verbatim>\<open>Mpz_Shift\<close>, \<^verbatim>\<open>Mpz_Logic\<close>, \<^verbatim>\<open>Mpz_Div_Ui\<close> (\<^verbatim>\<open>mpz/aors.h\<close>, \<^verbatim>\<open>aors_ui.h\<close>,
    \<^verbatim>\<open>ui_sub.c\<close>, \<^verbatim>\<open>mul_i.h\<close>; \<^verbatim>\<open>mul.c\<close>, \<^verbatim>\<open>aorsmul.c\<close>, \<^verbatim>\<open>aorsmul_i.c\<close>; \<^verbatim>\<open>mul_2exp.c\<close>, \<^verbatim>\<open>tdiv_*_2exp.c\<close>,
    \<^verbatim>\<open>cfdiv_*_2exp.c\<close>; \<^verbatim>\<open>and.c\<close>, \<^verbatim>\<open>ior.c\<close>, \<^verbatim>\<open>xor.c\<close>, \<^verbatim>\<open>com.c\<close>; \<^verbatim>\<open>{t,f,c}div_{q,r,qr,}_ui.c\<close>): the
    arithmetic of integer variables.
  \<^item> \<^verbatim>\<open>Mpz_Div\<close> (\<^verbatim>\<open>mpz/tdiv_qr.c\<close>, \<^verbatim>\<open>tdiv_r.c\<close>, \<^verbatim>\<open>{f,c}div_{qr,q,r}.c\<close>, \<^verbatim>\<open>mod.c\<close>): division of integers by integers
    with the three roundings.
  \<^item> \<^verbatim>\<open>Mpz_Program\<close> (\<^verbatim>\<open>mpz/clear.c\<close>, \<^verbatim>\<open>inits.c\<close>, \<^verbatim>\<open>clears.c\<close>): sequences of calls (\<open>call\<close>) run on the store by
    \<open>exec\<close> and \<open>run\<close>, on integers by \<open>aexec\<close> and \<open>arun\<close>, and call by call by the step relation \<open>pstep\<close>; the
    discipline \<open>disciplined\<close> that variables are initialised before use and not used once cleared.
  \<^item> \<^verbatim>\<open>Kernel_Value\<close> (\<^verbatim>\<open>kernel/lisp.hpp\<close>, \<^verbatim>\<open>Bignum.hpp\<close>, \<^verbatim>\<open>Bignum.cpp\<close>): tagged values, bignum objects and their
    methods, \<^verbatim>\<open>normalize\<close>, the invariant of integers and the contract of an operation.
  \<^item> \<^verbatim>\<open>Kernel_Arith\<close>, \<^verbatim>\<open>Kernel_Compare\<close>, \<^verbatim>\<open>Kernel_Logic\<close>, \<^verbatim>\<open>Kernel_Shift\<close>, \<^verbatim>\<open>Kernel_Errors\<close>, \<^verbatim>\<open>Kernel_Div\<close> (\<^verbatim>\<open>kernel/numbers.cpp\<close>,
    \<^verbatim>\<open>mpz/sizeinbase.c\<close>): sums, differences, products; signs, comparisons and extrema; bitwise functions;
    shifts and lengths; type errors; division.
  \<^item> \<^verbatim>\<open>Hash_Table\<close>, \<^verbatim>\<open>Kernel_Hash\<close> (\<^verbatim>\<open>kernel/HashTable.hpp\<close>, \<^verbatim>\<open>HashTable.cpp\<close>, \<^verbatim>\<open>EqHashTable.cpp\<close>, \<^verbatim>\<open>EqlHashTable.cpp\<close>,
    \<^verbatim>\<open>EqualHashTable.cpp\<close>, \<^verbatim>\<open>EqualpHashTable.cpp\<close>, \<^verbatim>\<open>sxhash.cpp\<close>): chained hash tables, hash values of integers, and the
    cached index of tables of the test \<^verbatim>\<open>eq\<close>.
  \<^item> \<^verbatim>\<open>Symbol_Table\<close>, \<^verbatim>\<open>Packages\<close> (\<^verbatim>\<open>kernel/SymbolHashTable.cpp\<close>, \<^verbatim>\<open>SimpleString.cpp\<close>, \<^verbatim>\<open>Package.cpp\<close>): open addressing
    tables of symbols by name, and the operations of packages.

  \<^bold>\<open>State and aliasing.\<close> A variable (\<open>mpz\<close>) has its allocation, its signed size and all limbs of its
  block. The \<open>store\<close> maps variable names to them, and an operation takes names, so a destination may
  be one of its sources, as every caller in the C code is allowed to arrange; the model re-reads a
  block where the C code re-reads a pointer after a reallocation. Fresh memory holds arbitrary
  limbs, supplied by the field \<open>fresh\<close>. Writing past a block makes the block longer than its
  allocation, which \<open>mpz_ok\<close> excludes, so each \<open>writes\<close> result includes that the operation stays
  inside its block.

  \<^bold>\<open>Contracts.\<close> \<open>writes st st' w k\<close> says that \<open>w\<close> is well formed and holds \<open>k\<close> in \<open>st'\<close>, and that every other
  variable is untouched. The locales \<open>mpz_unary\<close>, \<open>mpz_binary\<close>, \<open>mpz_word\<close> (in \<^verbatim>\<open>Mpz_Basic\<close>), \<open>mpz_bitcnt\<close>
  (in \<^verbatim>\<open>Mpz_Shift\<close>) \<open>mpz_div_word\<close> (in \<^verbatim>\<open>Mpz_Div_Ui\<close>) and \<open>mpz_division\<close> (in \<^verbatim>\<open>Mpz_Div\<close>) state it for a family of operations and derive
  what clients use: in-place updates, folds of updates, agreement of the quotient, remainder and
  combined forms. Each C operation is an interpretation. \<open>mod_1_fold\<close> (in \<^verbatim>\<open>Mpn_Mod\<close>) is the shared
  argument of the three folding remainder loops.

  \<^bold>\<open>The kernel.\<close> A Lisp value is a tagged word, a reference to a bignum object, or another object,
  opaque here. The kernel state is the store of integer variables and the first variable not yet
  allocated; a bignum object holds one variable, and so does every local \<^verbatim>\<open>mpz_t\<close>. \<open>int_value k v\<close> says
  that \<open>v\<close> is an integer in state \<open>k\<close>: a tagged word, or a well-formed bignum outside the fixnum range.
  \<open>returns k res n\<close> says that an operation ended without error in an integer of value \<open>n\<close> and that every
  integer of \<open>k\<close> is unchanged. The locales \<open>integer_op\<close>, \<open>guarded_op\<close> (in \<^verbatim>\<open>Kernel_Arith\<close>) and \<open>checked_op\<close> (in
  \<^verbatim>\<open>Kernel_Errors\<close>) derive the n-ary functions and their errors from the two-argument functions, and
  \<open>integer_comparison\<close>, \<open>comparison_pair\<close> (in \<^verbatim>\<open>Kernel_Compare\<close>) do so for the comparisons; \<open>rounding_op\<close> (in
  \<^verbatim>\<open>Kernel_Div\<close>) is the contract of a division with two values, \<open>returns2\<close>. The branches on
  ratios, floats and complex numbers are parameters (\<open>rest\<close>), over which the theorems quantify. The divisions of a fixnum by
  a bignum, and truncation of a bignum by a bignum, are among them: the code forms a ratio first.

  \<^bold>\<open>Tables and packages.\<close> A hash table takes its test and its hash function as arguments; the locale \<open>hash_test\<close> (in
  \<^verbatim>\<open>Hash_Table\<close>) is what the table relies on, an equivalence on the keys that the hash function respects, and
  derives the invariant \<open>ht_ok\<close>, the effect of every operation and the refinement of a map. It is interpreted for \<^verbatim>\<open>eq\<close>, and
  for \<^verbatim>\<open>eql\<close> with the hash values of integers (in \<^verbatim>\<open>Kernel_Hash\<close>), where the table with a cached index is shown to refine
  the plain one. A symbol table (in \<^verbatim>\<open>Symbol_Table\<close>) is a list of slots; \<open>st_ok\<close> says that a search for any symbol of the table
  reaches it, \<open>unique_names\<close> that no name is stored twice. What packages use of it is the locale \<open>name_table\<close> (in
  \<^verbatim>\<open>Packages\<close>). Packages and symbols are in a \<open>world\<close>; \<open>view w p\<close> is the abstract state of a package, the symbols
  present in it with their status. Any call of a program is a \<open>pkg_call\<close>; all of them keep \<open>sound\<close>, that searches in all tables
  are right and the lists of used packages agree. The stronger invariant \<open>world_ok\<close> is kept by \<open>pkg_step\<close>, the calls that keep
  to three rules the code does not check; the calls that break it have theorems of their own.

  \<^bold>\<open>Build configuration.\<close> 64-bit limbs without nail bits, no native \<^verbatim>\<open>mpn_mul_2\<close>, \<^verbatim>\<open>mpn_addmul_2\<close> or
  \<^verbatim>\<open>mpn_addsub_n\<close>, \<^verbatim>\<open>unsigned long\<close> as wide as a limb, \<^verbatim>\<open>UDIV_NEEDS_NORMALIZATION\<close>, the generic C code
  everywhere. Thresholds between algorithms are fields of \<open>mul_config\<close>, \<open>div_config\<close> and \<open>tdiv_config\<close>, over which the
  theorems quantify. The vector routines read their operands before they write their result; the
  overlaps the integer layer uses (same start) are the ones for which the C loops do that.

  \<^bold>\<open>Sizes.\<close> The fields \<^verbatim>\<open>_mp_alloc\<close> and \<^verbatim>\<open>_mp_size\<close> are \<^verbatim>\<open>int\<close> in C and unbounded in the record \<open>mpz\<close>, and the
  operations on single variables do not truncate what they store in them, nor the byte count that \<^verbatim>\<open>mpz_init_set\<close> computes
  as \<^verbatim>\<open>int\<close>; bit counts of these operations are natural numbers. The theorems about single operations therefore speak of
  numbers whose sizes fit: up to \<open>INT_LIMBS = 2^28 - 1\<close> limbs (2 GiB), with a result of that size, no size, allocation or byte
  count exceeds \<^verbatim>\<open>int\<close>. Where small operands can lead beyond it, by shifts, the bound is a hypothesis (\<open>int_sized\<close>, for
  \<^verbatim>\<open>ash\<close>). The truncation to \<^verbatim>\<open>int\<close> is written out (\<open>c_int\<close>) in two places: in what the comparison functions return, and in
  the interpreter \<open>exec\<close> of sequences of calls, which reduces the sizes that a call stores and takes 64-bit counts; its
  theorems are for values of at most \<open>INT_LIMBS\<close> limbs.

  \<^bold>\<open>Recursion.\<close> The loops are structural recursions over the vectors; Karatsuba's recursion, the slice
  and block loops of \<^verbatim>\<open>mpn_mul\<close>, the leading zero loop and the loop of \<^verbatim>\<open>integer-length\<close> have termination
  proofs; there is no fuel. The capacity loop of a new table is a partial function
  (\<open>capacity_loop\<close>), with the exact condition under which it returns. The backward jump of \<^verbatim>\<open>mpn_divrem_2\<close>, which would not end for a divisor that is not
  normalised, is a partial function (\<open>q_test\<close>), so the divisions have results of option type, in which
  \<open>None\<close> also stands for a failed \<^verbatim>\<open>ASSERT_ALWAYS\<close>; the theorems state that the calls return.

  \<^bold>\<open>Properties.\<close> The sections below give the results that span the theories: exactness, canonical form
  and type errors of the Lisp integer functions, exactness of the integer operations under aliasing, two's complement semantics of the logic, rounding of the divisions,
  errors, comparison and conversion, storage, agreement of the fast vector algorithms with the
  schoolbook ones, the single limb building blocks, hash tables and symbol tables as maps, and what the package
  operations keep and where they fail to.

  \<^bold>\<open>Not modelled.\<close> The Toom-Cook and Fourier products (fields of \<open>mul_config\<close>; the product theorems cover
  the sizes below them), the divide-and-conquer and inverse-based divisions (fields of \<open>tdiv_config\<close>; the
  division theorems cover the divisors below them), \<^verbatim>\<open>mpn_tdiv_q\<close>, exact division, roots, gcd, modular powers, primality, number theory, radix conversion, rationals (\<^verbatim>\<open>mpq\<close>), floats
  (\<^verbatim>\<open>mpf\<close>, \<^verbatim>\<open>mpfr\<close>), random numbers, formatted input and output, the assembly routines and the assembler
  (\<^verbatim>\<open>yasm\<close>), the garbage collector, package names, hash values of objects other than
  integers (a fixed function here, while the code hashes conses by their present contents), the division of integers through
  ratios, the rest of the Lisp kernel, its compiler and library. Memory is
  unbounded, and the assertions of the kernel are not checked at run time.
\<close>

section \<open>Concrete inputs\<close>

text \<open>The store, the configurations and the limb lists at which the witnesses apply the theorems.\<close>

definition example_mpz :: "int \<Rightarrow> limb list \<Rightarrow> mpz" where
  "example_mpz n d = \<lparr>mp_alloc = length d, mp_size = n, mp_d = d\<rparr>"

definition example_store :: store where
  "example_store =
     \<lparr>vars = (\<lambda>x. if x = 0 then example_mpz 0 [7]
                else if x = 1 then example_mpz 1 [- 1]
                else if x = 2 then example_mpz 1 [1, 5]
                else if x = 3 then example_mpz (- 2) [3, 9]
                else example_mpz (- 1) [12]),
      fresh = (\<lambda>i. 0)\<rparr>"

definition example_mul_config :: mul_config where
  "example_mul_config =
     \<lparr>mul_karatsuba_threshold = 17, mul_toom3_threshold = 84, mul_toom4_threshold = 196,
      mul_toom8h_threshold = 236, mul_fft_full_threshold = 2000, sqr_basecase_threshold = 4,
      sqr_karatsuba_threshold = 34, sqr_toom3_threshold = 101, sqr_toom4_threshold = 280,
      sqr_toom8_threshold = 410, sqr_fft_full_threshold = 2000,
      toom3_mul_n = mpn_mul_basecase, toom4_mul_n = mpn_mul_basecase, toom8h_mul = mpn_mul_basecase,
      toom4_mul = mpn_mul_basecase, toom53_mul = mpn_mul_basecase, toom42_mul = mpn_mul_basecase,
      toom3_mul = mpn_mul_basecase, toom32_mul = mpn_mul_basecase, mul_fft_full = mpn_mul_basecase,
      toom3_sqr_n = mpn_sqr_basecase, toom4_sqr_n = mpn_sqr_basecase, toom8_sqr_n = mpn_sqr_basecase\<rparr>"

definition example_div_config :: div_config where
  "example_div_config =
     \<lparr>MOD_1_1_THRESHOLD = 4, MOD_1_2_THRESHOLD = 6, MOD_1_3_THRESHOLD = 10, MOD_1_NORM_THRESHOLD = 0,
      MOD_1_UNNORM_THRESHOLD = 0, DIVREM_1_NORM_THRESHOLD = 0, DIVREM_1_UNNORM_THRESHOLD = 0,
      DIVREM_EUCLID_HENSEL_THRESHOLD = 8, RSH_DIVREM_HENSEL_QR_1_THRESHOLD = 7\<rparr>"

definition example_tdiv_config :: tdiv_config where
  "example_tdiv_config =
     \<lparr>tdiv_mul = example_mul_config, tdiv_div = example_div_config, DIVREM_2_THRESHOLD = 0,
      DC_DIV_QR_THRESHOLD = 44, INV_DIV_QR_THRESHOLD = 1500, dc_div_qr = mpn_sb_div_qr, dc_div_qr_n = mpn_sb_div_qr,
      invert_n = id, inv_div_qr = (\<lambda>np dp inv. mpn_sb_div_qr np dp 0), inv_div_qr_n = (\<lambda>np dp inv. mpn_sb_div_qr np dp 0),
      rp_beyond = 0\<rparr>"

lemma example_vars [simp]:
  "vars example_store 0 = example_mpz 0 [7]" "vars example_store (Suc 0) = example_mpz 1 [- 1]"
  "vars example_store 2 = example_mpz 1 [1, 5]" "vars example_store 3 = example_mpz (- 2) [3, 9]"
  "vars example_store 4 = example_mpz (- 1) [12]"
  by (simp_all add: example_store_def)

lemma example_ok [simp]: "mpz_ok example_store x"
  by (simp add: mpz_ok_def ABSIZ_def example_mpz_def example_store_def)

lemma example_size [simp]:
  "ABSIZ example_store 0 = 0" "ABSIZ example_store (Suc 0) = 1" "ABSIZ example_store 2 = 1"
  "ABSIZ example_store 3 = 2" "ABSIZ example_store 4 = 1"
  by (simp_all add: ABSIZ_def example_mpz_def)

lemma example_val [simp]:
  "mpz_val example_store 0 = 0" "mpz_val example_store (Suc 0) = 2 ^ 64 - 1"
  "mpz_val example_store 2 = 1" "mpz_val example_store 3 = - (3 + 2 ^ 64 * 9)"
  "mpz_val example_store 4 = - 12"
  by (simp_all add: mpz_val_def mag_def ABSIZ_def example_mpz_def B_def uint_limb_max)

lemma example_below [simp]: "n \<le> 100 \<Longrightarrow> below_toom example_mul_config n"
  by (simp add: below_toom_def example_mul_config_def)

lemma example_division [simp]: "n \<le> 40 \<Longrightarrow> tdiv_scope example_tdiv_config n"
  by (simp add: tdiv_scope_def example_tdiv_config_def)

text \<open>A kernel state with the bignums 1 and 3 of the store, and the branches on other numbers left open.\<close>

definition example_kernel :: kernel where
  "example_kernel = \<lparr>heap = example_store, avail = 5\<rparr>"

definition other_numbers :: "kernel \<Rightarrow> Value \<Rightarrow> Value \<Rightarrow> kvalue" where
  "other_numbers k a b = Inl (Type_error a S_integer)"

definition other_comparison :: comparison where
  "other_comparison k a b = Inl (Type_error a S_integer)"

lemma example_integers [simp]:
  "int_value example_kernel (Bignum_ref (Suc 0))" "int_value example_kernel (Bignum_ref 3)"
  "int_of example_kernel (Bignum_ref (Suc 0)) = 2 ^ 64 - 1" "int_of example_kernel (Bignum_ref 3) = - (3 + 2 ^ 64 * 9)"
  by (simp_all add: example_kernel_def int_value.simps int_of.simps fixnum_range_iff)

lemma example_fixnum [simp]:
  "int_value example_kernel (Fixnum 28)" "sint (xlong (Fixnum 28)) = 7"
  "int_value example_kernel (Fixnum (- 8))" "sint (xlong (Fixnum (- 8))) = - 2"
  using small_fixnum [of 7 example_kernel] small_fixnum [of "- 2" example_kernel]
  by (simp_all add: make_fixnum_def fixnum_range_iff)

lemma example_heap [simp]: "heap example_kernel = example_store"
  by (simp add: example_kernel_def)

lemma example_fixnump [simp]: "fixnump (Fixnum 28)" "fixnump (Fixnum (- 8))"
  using example_fixnum(1,3) by (simp_all add: int_value.simps)

lemma example_sized [simp]:
  "sized example_kernel (Fixnum 28)" "sized example_kernel (Fixnum (- 8))"
  "sized example_kernel (Bignum_ref (Suc 0))" "sized example_kernel (Bignum_ref 3)"
  by (simp_all add: sized_def)

section \<open>Integers of the Lisp kernel\<close>

text \<open>
  C1: \<^verbatim>\<open>CL_add\<close> on any number of integers returns their exact sum, as a fixnum when it is in
  the fixnum range and as a bignum otherwise, and leaves every integer that existed before
  unchanged, whichever mixture of fixnums and bignums the intermediate sums go through.
\<close>

theorem lisp_add_exact:
  assumes "\<forall>a \<in> set args. int_value k a"
  shows "\<exists>v k'. CL_add rest k args = Inr (v, k') \<and> int_value k' v \<and> int_of k' v = sum_list (map (int_of k) args)
     \<and> (fixnump v \<longleftrightarrow> fixnum_range (int_of k' v)) \<and> (\<forall>u. int_value k u \<longrightarrow> int_value k' u \<and> int_of k' u = int_of k u)"
  using CL_add_returns [OF assms, of rest] by (rule returns_unfold)

theorem lisp_add_exact_witness:
  "\<exists>v k'. CL_add other_numbers example_kernel [Fixnum 28, Bignum_ref 1, Bignum_ref 3] = Inr (v, k')
     \<and> int_of k' v = 6 - (3 + 2 ^ 64 * 8)"
  using lisp_add_exact [of "[Fixnum 28, Bignum_ref 1, Bignum_ref 3]" example_kernel other_numbers] by auto

text \<open>
  C2: \<^verbatim>\<open>CL_subtract\<close> negates a single integer and otherwise subtracts all following ones
  from the first, exactly; the fixnum \<open>-2^61\<close>, whose negation is no fixnum, included.
\<close>

theorem lisp_subtract_exact:
  assumes "\<forall>a \<in> set (a # as). int_value k a"
  shows "returns k (CL_subtract neg_rest plus_rest rest k (a # as))
    (if as = [] then - int_of k a else int_of k a - sum_list (map (int_of k) as))"
  by (rule CL_subtract_returns [OF assms])

theorem lisp_subtract_exact_witness:
  "returns example_kernel (CL_subtract (\<lambda>k a. Inr (a, k)) other_numbers other_numbers example_kernel
     [Bignum_ref 1, Fixnum 28, Bignum_ref 3]) (2 ^ 64 - 8 + (3 + 2 ^ 64 * 9))"
  using lisp_subtract_exact [of "Bignum_ref 1" "[Fixnum 28, Bignum_ref 3]" example_kernel "\<lambda>k a. Inr (a, k)" other_numbers other_numbers]
  by simp

text \<open>
  C3: \<^verbatim>\<open>CL_multiply\<close> returns the exact product of its arguments as long as the operands
  of each step are below the sizes of the Toom products; products of fixnums are computed on
  words only when neither factor needs more than 32 bits.
\<close>

theorem lisp_multiply_exact:
  assumes "\<forall>a \<in> set args. int_value k a"
    and "args \<noteq> [] \<longrightarrow> guarded (product_scope cfg) (*) (int_of k (hd args)) (map (int_of k) (tl args))"
  shows "returns k (CL_multiply cfg rest k args) (prod_list (map (int_of k) args))"
  by (rule CL_multiply_returns [OF assms])

theorem lisp_multiply_exact_witness:
  "returns example_kernel (CL_multiply example_mul_config other_numbers example_kernel [Bignum_ref 1, Bignum_ref 1])
     ((2 ^ 64 - 1) * (2 ^ 64 - 1))"
proof -
  have "product_scope example_mul_config (2 ^ 64 - 1) (2 ^ 64 - 1)"
    unfolding product_scope_def by (rule exI [of _ 1]) (simp add: B_def)
  then show ?thesis
    using lisp_multiply_exact [of "[Bignum_ref 1, Bignum_ref 1]" example_kernel example_mul_config other_numbers] by simp
qed

text \<open>
  C4: every integer value has one representation. \<^verbatim>\<open>normalize\<close> makes a fixnum exactly
  for the values in the fixnum range, and \<^verbatim>\<open>eql\<close>, which compares words and bignums but never a fixnum
  with a bignum, is equality of the integers.
\<close>

theorem lisp_integers_canonical:
  assumes "sized k a" "sized k b" "mpz_ok (heap k) x" "x < avail k"
  shows "(eql other k a b \<longleftrightarrow> int_of k a = int_of k b)
    \<and> (fixnump (fst (normalize_mpz k x)) \<longleftrightarrow> fixnum_range (mpz_val (heap k) x))
    \<and> int_of (snd (normalize_mpz k x)) (fst (normalize_mpz k x)) = mpz_val (heap k) x"
  using eql_decides [OF assms(1,2)] yields_unfold [OF normalize_yields [OF assms(3,4)]] by simp

theorem lisp_integers_canonical_witness:
  "(eql (\<lambda>_ _ _. False) example_kernel (Bignum_ref 1) (Bignum_ref 3) \<longleftrightarrow> False)
    \<and> fixnump (fst (normalize_mpz example_kernel 4)) \<and> \<not> fixnump (fst (normalize_mpz example_kernel 3))"
proof -
  have "mpz_ok (heap example_kernel) 4" "4 < avail example_kernel" "mpz_ok (heap example_kernel) 3" "3 < avail example_kernel"
    "mpz_val (heap example_kernel) 4 = - 12" "mpz_val (heap example_kernel) 3 = - (3 + 2 ^ 64 * 9)"
    by (simp_all add: example_kernel_def)
  then show ?thesis
    using lisp_integers_canonical [of example_kernel "Bignum_ref 1" "Bignum_ref 3" 4 "\<lambda>_ _ _. False"]
      lisp_integers_canonical [of example_kernel "Bignum_ref 1" "Bignum_ref 3" 3 "\<lambda>_ _ _. False"]
    by (simp add: fixnum_range_iff)
qed

text \<open>
  C5: \<^verbatim>\<open>logand\<close>, \<^verbatim>\<open>logior\<close>, \<^verbatim>\<open>logxor\<close> and \<^verbatim>\<open>logeqv\<close> of any number of integers fold the bitwise
  operation over their two's complement values, starting from its neutral element; a result made
  without normalising (\<^verbatim>\<open>logior\<close> with a nonnegative fixnum) is a proper bignum too.
\<close>

theorem lisp_bitwise_exact:
  assumes "\<forall>a \<in> set args. int_value k a"
  shows "returns k (CL_logand k args) (foldl (AND) (- 1) (map (int_of k) args))
    \<and> returns k (CL_logior k args) (foldl (OR) 0 (map (int_of k) args))
    \<and> returns k (CL_logxor k args) (foldl (XOR) 0 (map (int_of k) args))
    \<and> returns k (CL_logeqv k args) (foldl (\<lambda>a b. NOT (a XOR b)) (- 1) (map (int_of k) args))"
  using assms by (intro conjI CL_logand_returns CL_logior_returns CL_logxor_returns CL_logeqv_returns) blast+

theorem lisp_bitwise_exact_witness:
  "returns example_kernel (CL_logior example_kernel [Fixnum 28, Bignum_ref 3, Fixnum (- 8)])
     (foldl (OR) 0 [7, - (3 + 2 ^ 64 * 9), - 2])"
  using lisp_bitwise_exact [of "[Fixnum 28, Bignum_ref 3, Fixnum (- 8)]" example_kernel] by simp

text \<open>
  The functions with one complemented argument, and \<^verbatim>\<open>logtest\<close>, which decides
  whether two integers have a one bit in common.
\<close>

lemma lisp_complemented_logic:
  assumes "int_value k a" "int_value k b"
  shows "returns k (CL_logandc1 k a b) (NOT (int_of k a) AND int_of k b)
    \<and> returns k (CL_logandc2 k a b) (int_of k a AND NOT (int_of k b))
    \<and> returns k (CL_logorc1 k a b) (NOT (int_of k a) OR int_of k b)
    \<and> returns k (CL_logorc2 k a b) (int_of k a OR NOT (int_of k b))
    \<and> CL_logtest rest k a b = Inr (int_of k a AND int_of k b \<noteq> 0)"
  using assms
  by (intro conjI logandc1.op_returns logandc2.op_returns logorc1.op_returns logorc2.op_returns CL_logtest_decides)

text \<open>
  C6: \<^verbatim>\<open>ash\<close> multiplies by a power of two or takes the floor of the quotient, for every fixnum
  or negative bignum count, as long as the shifted integer and the result have at most \<open>INT_LIMBS\<close> limbs (2 GiB, so
  that the sizes the \<^verbatim>\<open>mpz\<close> functions store and the byte count of \<^verbatim>\<open>mpz_init_set\<close> fit \<^verbatim>\<open>int\<close>); a nonzero integer shifted
  left by a bignum count is refused.
\<close>

theorem lisp_ash_exact:
  assumes "sized k a" "int_value k b"
  shows "(let result = (if 0 \<le> int_of k b then int_of k a * 2 ^ nat (int_of k b) else int_of k a div 2 ^ nat (- int_of k b)) in
      (int_of k a = 0 \<or> int_of k b \<le> MOST_POSITIVE_FIXNUM) \<and> int_sized (int_of k a) \<and> int_sized result
        \<longrightarrow> returns k (CL_ash k a b) result)
    \<and> (int_of k a \<noteq> 0 \<and> MOST_POSITIVE_FIXNUM < int_of k b \<longrightarrow> CL_ash k a b = Inl Cannot_shift)"
proof (cases "int_of k a = 0 \<or> int_of k b \<le> MOST_POSITIVE_FIXNUM")
  case True
  then show ?thesis using CL_ash_returns [OF assms True] unfolding shifted_def Let_def by (meson not_le)
next
  case False
  then show ?thesis using CL_ash_cannot_shift [OF sized_int_value [OF assms(1)] _ assms(2)] by simp
qed

theorem lisp_ash_exact_witness:
  "returns example_kernel (CL_ash example_kernel (Bignum_ref 3) (Fixnum (- 8))) (- (3 + 2 ^ 64 * 9) div 4)
    \<and> CL_ash example_kernel (Fixnum 28) (Bignum_ref 1) = Inl Cannot_shift"
proof -
  have "int_sized (- (3 + 2 ^ 64 * 9))" "int_sized (- (3 + 2 ^ 64 * 9) div 4)"
    by (rule int_sized_small [of _ 2]; simp add: B_def)+
  then show ?thesis
    using conjunct1 [OF lisp_ash_exact [of example_kernel "Bignum_ref 3" "Fixnum (- 8)"]]
      conjunct2 [OF lisp_ash_exact [of example_kernel "Fixnum 28" "Bignum_ref 1"]]
    by (simp add: MOST_POSITIVE_FIXNUM_def)
qed

text \<open>
  \<^verbatim>\<open>integer-length\<close> returns the number of bits of the two's complement form without the
  sign: the least \<open>l\<close> with \<open>-2^l \<le> n < 2^l\<close>.
\<close>

lemma lisp_integer_length:
  assumes "sized k a"
  shows "\<exists>l. returns k (CL_integer_length approx k a) (int l) \<and> - (2 ^ l) \<le> int_of k a \<and> int_of k a < 2 ^ l
    \<and> (\<forall>m < l. \<not> (- (2 ^ m) \<le> int_of k a \<and> int_of k a < 2 ^ m))"
proof -
  obtain l where l: "returns k (CL_integer_length approx k a) l" "is_length (int_of k a) l"
    using CL_integer_length_spec [OF assms] by blast
  then show ?thesis using is_length_least [OF l(2)] by (intro exI [of _ "nat l"]) (simp add: is_length_def)
qed

text \<open>
  C7: \<^verbatim>\<open>CL_lt\<close>, \<^verbatim>\<open>CL_le\<close>, \<^verbatim>\<open>CL_gt\<close> and \<^verbatim>\<open>CL_ge\<close> on one or more integers decide whether the
  sequence is strictly increasing, nondecreasing, strictly decreasing or nonincreasing; a fixnum
  and a bignum are compared by the sign of the bignum alone.
\<close>

theorem lisp_compare_chain:
  assumes "\<forall>a \<in> set args. sized k a" "args \<noteq> []"
  shows "CL_lt r1 r2 k args = Inr (sorted_wrt (<) (map (int_of k) args))
    \<and> CL_le r2 r3 k args = Inr (sorted_wrt (\<le>) (map (int_of k) args))
    \<and> CL_gt r3 r2 k args = Inr (sorted_wrt (>) (map (int_of k) args))
    \<and> CL_ge r2 r1 k args = Inr (sorted_wrt (\<ge>) (map (int_of k) args))"
  using lt_ge.compare_args_decides [OF assms] le_gt.compare_args_decides [OF assms]
    gt_le.compare_args_decides [OF assms] ge_lt.compare_args_decides [OF assms]
  by (simp add: CL_lt_def CL_le_def CL_gt_def CL_ge_def successively_conv_sorted_wrt transp_def)

theorem lisp_compare_chain_witness:
  "CL_lt other_comparison other_comparison example_kernel [Bignum_ref 3, Fixnum (- 8), Fixnum 28, Bignum_ref 1] = Inr True"
  using lisp_compare_chain [of "[Bignum_ref 3, Fixnum (- 8), Fixnum 28, Bignum_ref 1]" example_kernel
      other_comparison other_comparison other_comparison] by simp

text \<open>
  \<^verbatim>\<open>CL_equals\<close> decides whether all arguments have the same value, \<^verbatim>\<open>CL_not_equals\<close> whether
  they are pairwise different, and \<^verbatim>\<open>CL_max\<close> and \<^verbatim>\<open>CL_min\<close> return one of the arguments with the extreme
  value.
\<close>

lemma lisp_equality_chain:
  assumes "\<forall>a \<in> set args. sized k a" "args \<noteq> []"
  shows "CL_equals rest k args = Inr (\<forall>a \<in> set args. \<forall>b \<in> set args. int_of k a = int_of k b)
    \<and> CL_not_equals rest k args = Inr (distinct (map (int_of k) args))
    \<and> (\<exists>m \<in> set args. CL_max rest k args = Inr m \<and> (\<forall>a \<in> set args. int_of k a \<le> int_of k m))
    \<and> (\<exists>m \<in> set args. CL_min rest k args = Inr m \<and> (\<forall>a \<in> set args. int_of k m \<le> int_of k a))"
proof (intro conjI)
  have "(\<forall>a \<in> set args. int_of k a = int_of k (hd args)) \<longleftrightarrow> (\<forall>a \<in> set args. \<forall>b \<in> set args. int_of k a = int_of k b)"
    using hd_in_set [OF assms(2)] by metis
  then show "CL_equals rest k args = Inr (\<forall>a \<in> set args. \<forall>b \<in> set args. int_of k a = int_of k b)"
    using CL_equals_decides [OF assms] by simp
  show "\<exists>m \<in> set args. CL_max rest k args = Inr m \<and> (\<forall>a \<in> set args. int_of k a \<le> int_of k m)"
    using CL_max_spec [OF assms, of rest] by force
  show "\<exists>m \<in> set args. CL_min rest k args = Inr m \<and> (\<forall>a \<in> set args. int_of k m \<le> int_of k a)"
    using CL_min_spec [OF assms, of rest] by force
qed (rule CL_not_equals_decides [OF assms])

text \<open>
  C8: an argument that is not a number, after any integers and whatever follows it, makes \<^verbatim>\<open>CL_add\<close> signal a
  type error that expects a number, and \<^verbatim>\<open>CL_logand\<close>, \<^verbatim>\<open>CL_logior\<close> and \<^verbatim>\<open>CL_logxor\<close> one that expects an integer, with that
  argument as its datum.
\<close>

theorem lisp_type_errors:
  assumes "\<forall>a \<in> set xs. int_value k a" "not_a_number v"
  shows "CL_add rest k (xs @ v # ys) = Inl (Type_error v S_number)
    \<and> CL_logand k (xs @ v # ys) = Inl (Type_error v S_integer)
    \<and> CL_logior k (xs @ v # ys) = Inl (Type_error v S_integer)
    \<and> CL_logxor k (xs @ v # ys) = Inl (Type_error v S_integer)"
  using CL_add_rejects [OF assms] CL_logical_rejects [OF assms(1) not_a_number_integer [OF assms(2)]] by simp

theorem lisp_type_errors_witness:
  "CL_add other_numbers example_kernel [Fixnum 28, Bignum_ref 1, Other NOT_NUMBER 9, Fixnum 28] = Inl (Type_error (Other NOT_NUMBER 9) S_number)"
  using lisp_type_errors [of "[Fixnum 28, Bignum_ref 1]" example_kernel "Other NOT_NUMBER 9" other_numbers "[Fixnum 28]"]
  by (simp add: not_a_number_def)

text \<open>
  \<^verbatim>\<open>abs\<close> and \<^verbatim>\<open>signum\<close> return the absolute value and the sign as integers, and the
  predicates \<^verbatim>\<open>plusp\<close>, \<^verbatim>\<open>minusp\<close>, \<^verbatim>\<open>zerop\<close>, \<^verbatim>\<open>evenp\<close>, \<^verbatim>\<open>oddp\<close> decide sign and parity; the sign of a fixnum is
  read off its tagged word.
\<close>

lemma lisp_sign_parity:
  assumes "int_value k a"
  shows "returns k (CL_abs rest k a) \<bar>int_of k a\<bar> \<and> returns k (CL_signum nil rest k a) (sgn (int_of k a))
    \<and> plusp prest k a = Inr (0 < int_of k a) \<and> minusp prest k a = Inr (int_of k a < 0) \<and> zerop prest k a = Inr (int_of k a = 0)
    \<and> CL_evenp k a = Inr (even (int_of k a)) \<and> CL_oddp k a = Inr (odd (int_of k a))"
  by (simp only: CL_abs_returns [OF assms] CL_signum_returns [OF assms] signs [OF assms] parity [OF assms] simp_thms)
section \<open>Division of Lisp integers\<close>

definition other_division :: "kernel \<Rightarrow> Value \<Rightarrow> Value \<Rightarrow> kvalues" where
  "other_division k a b = None"

text \<open>
  C9: \<^verbatim>\<open>floor\<close> of two fixnums, of a bignum by a fixnum or of a bignum by a bignum, when the divisor is
  not zero and has fewer limbs than \<^verbatim>\<open>DC_DIV_QR_THRESHOLD\<close> and than the Toom sizes (\<open>tdiv_scope\<close>), returns the floor of the
  quotient and the remainder with the sign of the divisor as its two values, each a fixnum exactly
  when it is in the fixnum range, and leaves every integer that existed before unchanged. The
  quotient of the most negative fixnum by -1 is a bignum. A fixnum by a bignum is not covered: the code divides it as a
  ratio, which is the parameter \<open>rest\<close>.
\<close>

theorem lisp_floor_exact:
  assumes "int_value k a" "int_value k b" "int_of k b \<noteq> 0" "fixnump b \<or> bignump a" "tdiv_scope cfg (limbs k b)"
  shows "\<exists>v1 v2 k'. CL_floor cfg rest1 rest k [a, b] = Some (Inr (v1, v2, k'))
    \<and> int_value k' v1 \<and> int_of k' v1 = int_of k a div int_of k b
    \<and> int_value k' v2 \<and> int_of k' v2 = int_of k a mod int_of k b
    \<and> (fixnump v1 \<longleftrightarrow> fixnum_range (int_of k' v1)) \<and> (fixnump v2 \<longleftrightarrow> fixnum_range (int_of k' v2))
    \<and> (\<forall>u. int_value k u \<longrightarrow> int_value k' u \<and> int_of k' u = int_of k u)"
  using returns2_unfold [OF SYS_floor_2_returns [OF assms, of rest]] by (simp add: CL_floor_def)

theorem lisp_floor_exact_witness:
  "\<exists>v1 v2 k'. CL_floor example_tdiv_config (\<lambda>k a. None) other_division example_kernel [Bignum_ref 3, Bignum_ref 1] = Some (Inr (v1, v2, k'))
    \<and> int_of k' v1 = - 10 \<and> int_of k' v2 = 2 ^ 64 - 13"
  using lisp_floor_exact [of example_kernel "Bignum_ref 3" "Bignum_ref 1" example_tdiv_config "\<lambda>k a. None" other_division] by auto

text \<open>
  C10: let the divisor be nonzero, with fewer limbs than \<^verbatim>\<open>DC_DIV_QR_THRESHOLD\<close> and than the Toom
  sizes. \<^verbatim>\<open>truncate\<close> of an integer by a fixnum returns the quotient rounded towards zero and the remainder with the sign of
  the number, smaller than the divisor in magnitude; \<^verbatim>\<open>ceiling\<close> of an integer by a fixnum or of a bignum by a bignum returns
  the quotient rounded up and the remainder \<open>a - q * b\<close>. \<^verbatim>\<open>truncate\<close> by a bignum and \<^verbatim>\<open>ceiling\<close> of a fixnum by a bignum are
  not covered: the code divides them as ratios, which is the parameter \<open>rest\<close>.
\<close>

theorem lisp_truncate_ceiling_exact:
  assumes "int_value k a" "int_value k b" "int_of k b \<noteq> 0" "tdiv_scope cfg (limbs k b)"
  shows "(fixnump b \<longrightarrow> returns2 k (CL_truncate cfg rest1 rest k [a, b]) (int_of k a sdiv int_of k b) (int_of k a smod int_of k b))
    \<and> (fixnump b \<or> bignump a \<longrightarrow> returns2 k (CL_ceiling cfg rest1 rest k [a, b])
         (- (- int_of k a div int_of k b)) (int_of k a - - (- int_of k a div int_of k b) * int_of k b))
    \<and> int_of k a sdiv int_of k b * int_of k b + int_of k a smod int_of k b = int_of k a
    \<and> \<bar>int_of k a smod int_of k b\<bar> < \<bar>int_of k b\<bar>
    \<and> (int_of k a smod int_of k b \<noteq> 0 \<longrightarrow> sgn (int_of k a smod int_of k b) = sgn (int_of k a))"
proof (intro conjI impI)
  show "returns2 k (CL_truncate cfg rest1 rest k [a, b]) (int_of k a sdiv int_of k b) (int_of k a smod int_of k b)" if "fixnump b"
    using SYS_truncate_2_returns [OF assms(1-3) that] assms(4) that by (cases b) (simp_all add: CL_truncate_def)
  show "returns2 k (CL_ceiling cfg rest1 rest k [a, b]) (- (- int_of k a div int_of k b)) (int_of k a - - (- int_of k a div int_of k b) * int_of k b)"
    if "fixnump b \<or> bignump a"
  proof -
    have "ceil_rem (int_of k a) (int_of k b) = int_of k a - - (- int_of k a div int_of k b) * int_of k b"
      using cdiv_int.division [OF assms(3), of "int_of k a"] unfolding ceil_quot_def by linarith
    then show ?thesis
      using SYS_ceiling_2_returns [OF assms(1-3) that assms(4), of rest] by (simp only: CL_ceiling_def ceil_quot_def list.case)
  qed
qed (rule trunc_division [OF assms(3)]; assumption?)+

theorem lisp_truncate_ceiling_exact_witness:
  "returns2 example_kernel (CL_truncate example_tdiv_config (\<lambda>k a. None) other_division example_kernel [Bignum_ref 3, Fixnum 28])
     (- (2 ^ 64 * 9 + 3) sdiv 7) (- (2 ^ 64 * 9 + 3) smod 7)"
  using lisp_truncate_ceiling_exact [of example_kernel "Bignum_ref 3" "Fixnum 28" example_tdiv_config "\<lambda>k a. None" other_division]
    by simp

text \<open>
  C11: let the divisor be nonzero, with fewer limbs than \<^verbatim>\<open>DC_DIV_QR_THRESHOLD\<close> and than the Toom sizes.
  \<^verbatim>\<open>rem\<close> of an integer by a fixnum returns the remainder of truncation, and \<^verbatim>\<open>mod\<close> of an integer by a fixnum or of a bignum by
  a bignum the remainder of the floor, whether they come from the shortcut for fixnums or from the second value of \<^verbatim>\<open>truncate\<close>
  and \<^verbatim>\<open>floor\<close>. \<^verbatim>\<open>rem\<close> by a bignum and \<^verbatim>\<open>mod\<close> of a fixnum by a bignum, which the code takes from a division of ratios, are not
  covered.
\<close>

theorem lisp_rem_mod_exact:
  assumes "int_value k a" "int_value k b" "int_of k b \<noteq> 0" "tdiv_scope cfg (limbs k b)"
  shows "(fixnump b \<longrightarrow> (\<exists>w. CL_rem cfg rest k a b = Some w \<and> returns k w (int_of k a smod int_of k b)))
    \<and> (fixnump b \<or> bignump a \<longrightarrow> (\<exists>w. CL_mod cfg rest k a b = Some w \<and> returns k w (int_of k a mod int_of k b)))"
proof (intro conjI impI)
  show "\<exists>w. CL_rem cfg rest k a b = Some w \<and> returns k w (int_of k a smod int_of k b)" if "fixnump b"
    using CL_rem_returns [OF assms(1-3) that] assms(4) that by (cases b) simp_all
qed (rule CL_mod_returns [OF assms(1-3) _ assms(4)])

theorem lisp_rem_mod_exact_witness:
  "\<exists>w. CL_mod example_tdiv_config other_division example_kernel (Bignum_ref 3) (Bignum_ref 1) = Some w \<and> returns example_kernel w (2 ^ 64 - 13)"
  using lisp_rem_mod_exact [of example_kernel "Bignum_ref 3" "Bignum_ref 1" example_tdiv_config other_division] by simp

text \<open>
  C12: dividing an integer by zero signals a division by zero with the operands, an operand
  that is not a real number a type error, the number before the divisor, and a wrong number of
  arguments its own error.
\<close>

theorem lisp_division_errors:
  assumes "int_value k a" "not_a_real v" "length args \<notin> {1, 2}"
  shows "CL_truncate cfg rest1 rest k [a, Fixnum 0] = Some (Inl (Division_by_zero S_truncate_2 a (Fixnum 0)))
    \<and> CL_floor cfg rest1 rest k [a, Fixnum 0] = Some (Inl (Division_by_zero S_floor_2 a (Fixnum 0)))
    \<and> CL_ceiling cfg rest1 rest k [a, Fixnum 0] = Some (Inl (Division_by_zero S_ceiling_2 a (Fixnum 0)))
    \<and> CL_floor cfg rest1 rest k [v, b] = Some (Inl (Type_error v S_real))
    \<and> CL_floor cfg rest1 rest k [a, v] = Some (Inl (Type_error v S_real))
    \<and> CL_truncate cfg rest1 rest k [v, b] = Some (Inl (Type_error v S_real))
    \<and> CL_ceiling cfg rest1 rest k [a, v] = Some (Inl (Type_error v S_real))
    \<and> CL_floor cfg rest1 rest k args = Some (Inl (Wrong_number_of_arguments (length args)))"
  using division_by_zero [OF assms(1)] division_rejects [OF assms(2)] assms(1,3)
  by (auto simp: CL_truncate_def CL_floor_def CL_ceiling_def split: list.splits)

theorem lisp_division_errors_witness:
  "CL_floor example_tdiv_config (\<lambda>k a. None) other_division example_kernel [Bignum_ref 3, Other NOT_NUMBER 2]
    = Some (Inl (Type_error (Other NOT_NUMBER 2) S_real))"
  using lisp_division_errors [of example_kernel "Bignum_ref 3" "Other NOT_NUMBER 2" "[]" example_tdiv_config "\<lambda>k a. None" other_division]
  by (simp add: not_a_real_def)

section \<open>Addition, subtraction and multiplication of integers\<close>

text \<open>
  C13: \<^verbatim>\<open>mpz_add\<close> leaves the exact sum in its destination, in normalised
  form and inside its block, whichever of the three arguments coincide, and changes no other
  variable.
\<close>

theorem mpz_add_exact:
  assumes "mpz_ok st w" "mpz_ok st u" "mpz_ok st v"
  shows "writes st (mpz_add st w u v) w (mpz_val st u + mpz_val st v)"
  using assms by (rule add.op_writes)

theorem mpz_add_exact_witness:
  "writes example_store (mpz_add example_store 1 1 2) 1 (2 ^ 64)"
  using mpz_add_exact [of example_store 1 1 2] by simp

text \<open>
  C14: \<^verbatim>\<open>mpz_mul\<close> writes the exact product, for operands below the sizes at which
  the Toom and Fourier routines take over, whichever arguments coincide.
\<close>

theorem mpz_mul_exact:
  assumes "below_toom cfg (ABSIZ st u + ABSIZ st v)" "mpz_ok st w" "mpz_ok st u" "mpz_ok st v"
  shows "writes st (mpz_mul cfg st w u v) w (mpz_val st u * mpz_val st v)"
  using assms by (rule mpz_mul_below_writes)

theorem mpz_mul_exact_witness:
  "writes example_store (mpz_mul example_mul_config example_store 3 3 4) 3 (12 * (3 + 2 ^ 64 * 9))"
  using mpz_mul_exact [of example_mul_config example_store 3 4 3] by simp

text \<open>
  Subtracting \<open>v\<close> from \<open>u\<close> into \<open>w\<close> and adding \<open>v\<close> back in place restores
  the value of \<open>u\<close>, and leaves every variable other than \<open>w\<close> as it was.
\<close>

lemma mpz_sub_add_cancel:
  assumes "mpz_ok st w" "mpz_ok st u" "mpz_ok st v" "v \<noteq> w"
  shows "writes st (mpz_add (mpz_sub st w u v) w w v) w (mpz_val st u)"
proof -
  let ?s = "mpz_sub st w u v"
  have s: "writes st ?s w (mpz_val st u - mpz_val st v)" by (rule sub.op_writes [OF assms(1-3)])
  note v = writes_other [OF s assms(4)]
  have "writes ?s (mpz_add ?s w w v) w (mpz_val st u - mpz_val st v + mpz_val st v)"
    using add.op_writes [of ?s w w v] writes_ok [OF s] writes_val [OF s] assms(3) mpz_ok_cong [OF v] mpz_val_cong [OF v]
    by simp
  with writes_trans [OF s] show ?thesis by simp
qed

text \<open>
  The fused \<^verbatim>\<open>mpz_addmul\<close> and \<^verbatim>\<open>mpz_submul\<close> compute in place what a product
  into a temporary followed by an addition or a subtraction computes.
\<close>

lemma mpz_addmul_fused:
  assumes "below_toom cfg (ABSIZ st x + ABSIZ st y)" "mpz_ok st w" "mpz_ok st x" "mpz_ok st y" "mpz_ok st t" "t \<noteq> w"
  shows "mpz_val (mpz_addmul cfg st w x y) w = mpz_val (mpz_add (mpz_mul cfg st t x y) w w t) w
       \<and> mpz_val (mpz_submul cfg st w x y) w = mpz_val (mpz_sub (mpz_mul cfg st t x y) w w t) w"
proof (intro conjI)
  let ?m = "mpz_mul cfg st t x y"
  have m: "writes st ?m t (mpz_val st x * mpz_val st y)" by (rule mpz_mul_below_writes [OF assms(1,5,3,4)])
  note w = writes_other [OF m assms(6) [symmetric]]
  have ok: "mpz_ok ?m w" "mpz_ok ?m t" and val: "mpz_val ?m w = mpz_val st w" "mpz_val ?m t = mpz_val st x * mpz_val st y"
    using assms(2) mpz_ok_cong [OF w] mpz_val_cong [OF w] writes_ok [OF m] writes_val [OF m] by simp_all
  show "mpz_val (mpz_addmul cfg st w x y) w = mpz_val (mpz_add ?m w w t) w"
    using writes_val [OF mpz_aorsmul_below_writes(1) [OF assms(1-4)]] writes_val [OF add.op_writes [OF ok(1,1,2)]] val by simp
  show "mpz_val (mpz_submul cfg st w x y) w = mpz_val (mpz_sub ?m w w t) w"
    using writes_val [OF mpz_aorsmul_below_writes(2) [OF assms(1-4)]] writes_val [OF sub.op_writes [OF ok(1,1,2)]] val by simp
qed

text \<open>
  \<^verbatim>\<open>mpz_addmul_ui\<close> and \<^verbatim>\<open>mpz_submul_ui\<close> are exact, also when the
  destination is the multiplicand and when the subtraction borrows past the top limb and the
  sign turns.
\<close>

lemma mpz_submul_ui_exact:
  assumes "mpz_ok st w" "mpz_ok st x"
  shows "writes st (mpz_addmul_ui st w x y) w (mpz_val st w + mpz_val st x * uint y)
       \<and> writes st (mpz_submul_ui st w x y) w (mpz_val st w - mpz_val st x * uint y)"
  using mpz_addmul_ui_writes [OF assms] mpz_submul_ui_writes [OF assms] by (rule conjI)

lemma foldl_times_uint: "foldl (\<lambda>k v. k * uint (v :: limb)) k vs = k * prod_list (map uint vs)"
  by (induction vs arbitrary: k) (simp_all add: mult.assoc)

text \<open>
  A run of in-place \<^verbatim>\<open>mpz_mul_ui\<close> calls, of any length, multiplies the variable by the
  product of all the words: no intermediate block overflows and no carry is lost.
\<close>

lemma mpz_mul_ui_run:
  assumes "mpz_ok st w"
  shows "writes st (foldl (\<lambda>s v. mpz_mul_ui s w w v) st vs) w (mpz_val st w * prod_list (map uint vs))"
  using mul_ui.op_fold [OF assms, of vs] by (simp add: foldl_times_uint)
section \<open>Division of integers by integers\<close>

text \<open>
  C15: for a nonzero divisor with fewer limbs than \<^verbatim>\<open>DC_DIV_QR_THRESHOLD\<close> and than the Toom sizes
  (\<open>tdiv_scope\<close>) and two distinct destinations, \<^verbatim>\<open>mpz_tdiv_qr\<close> returns, with the quotient rounded towards zero
  and a remainder of the sign of the dividend, in normalised form inside their blocks, also when the
  destinations are the dividend or the divisor themselves; no other variable changes.
\<close>

theorem mpz_tdiv_qr_exact:
  assumes "tdiv_scope cfg (ABSIZ st den)" "mpz_ok st quot" "mpz_ok st rem" "quot \<noteq> rem" "mpz_ok st num" "mpz_ok st den"
    "mpz_val st den \<noteq> 0"
  shows "\<exists>st'. mpz_tdiv_qr cfg st quot rem num den = Some (Inr st') \<and> mpz_ok st' quot \<and> mpz_ok st' rem
    \<and> mpz_val st' quot * mpz_val st den + mpz_val st' rem = mpz_val st num \<and> \<bar>mpz_val st' rem\<bar> < \<bar>mpz_val st den\<bar>
    \<and> (mpz_val st' rem \<noteq> 0 \<longrightarrow> sgn (mpz_val st' rem) = sgn (mpz_val st num))
    \<and> (\<forall>x. x \<noteq> quot \<longrightarrow> x \<noteq> rem \<longrightarrow> vars st' x = vars st x)"
proof -
  obtain st' where "mpz_tdiv_qr cfg st quot rem num den = Some (Inr st')"
    "writes2 st st' quot (trunc_quot (mpz_val st num) (mpz_val st den)) rem (trunc_rem (mpz_val st num) (mpz_val st den))"
    using tdiv_int.qr_law [OF assms] by blast
  then show ?thesis using trunc_division [OF assms(7), of "mpz_val st num"] unfolding writes2_def by metis
qed

theorem mpz_tdiv_qr_exact_witness:
  "\<exists>st'. mpz_tdiv_qr example_tdiv_config example_store 3 1 3 1 = Some (Inr st')
    \<and> mpz_val st' 3 * (2 ^ 64 - 1) + mpz_val st' 1 = - (3 + 2 ^ 64 * 9) \<and> \<bar>mpz_val st' 1\<bar> < 2 ^ 64 - 1"
  using mpz_tdiv_qr_exact [of example_tdiv_config example_store 1 3 1 3] by auto

text \<open>
  C16: for a nonzero divisor with fewer limbs than \<^verbatim>\<open>DC_DIV_QR_THRESHOLD\<close> and than the Toom sizes
  (\<open>tdiv_scope\<close>) and two distinct destinations, \<^verbatim>\<open>mpz_fdiv_qr\<close> rounds the quotient down and \<^verbatim>\<open>mpz_cdiv_qr\<close> up, and the
  remainder goes with it, also in place: both adjust the truncated results with the divisor, of which they keep a
  copy when a destination replaces it.
\<close>

theorem mpz_rounded_qr_exact:
  assumes "tdiv_scope cfg (ABSIZ st den)" "mpz_ok st quot" "mpz_ok st rem" "quot \<noteq> rem" "mpz_ok st num" "mpz_ok st den"
    "mpz_val st den \<noteq> 0"
  shows "(\<exists>st'. mpz_fdiv_qr cfg st quot rem num den = Some (Inr st')
      \<and> writes2 st st' quot (mpz_val st num div mpz_val st den) rem (mpz_val st num mod mpz_val st den))
    \<and> (\<exists>st'. mpz_cdiv_qr cfg st quot rem num den = Some (Inr st')
      \<and> writes2 st st' quot (- (- mpz_val st num div mpz_val st den)) rem (- (- mpz_val st num mod mpz_val st den)))"
  using fdiv_int.qr_law [OF assms] cdiv_int.qr_law [OF assms] unfolding ceil_quot_def ceil_rem_def by blast

theorem mpz_rounded_qr_exact_witness:
  "(\<exists>st'. mpz_fdiv_qr example_tdiv_config example_store 3 1 3 1 = Some (Inr st') \<and> mpz_val st' 3 = - 10 \<and> mpz_val st' 1 = 2 ^ 64 - 13)
    \<and> (\<exists>st'. mpz_cdiv_qr example_tdiv_config example_store 3 1 3 1 = Some (Inr st') \<and> mpz_val st' 3 = - 9 \<and> mpz_val st' 1 = - 12)"
  using mpz_rounded_qr_exact [of example_tdiv_config example_store 1 3 1 3] by (auto simp: writes2_def)

text \<open>
  C17: for a nonzero divisor with fewer limbs than \<^verbatim>\<open>DC_DIV_QR_THRESHOLD\<close> and than the Toom sizes
  (\<open>tdiv_scope\<close>), each of \<^verbatim>\<open>mpz_tdiv_r\<close>, \<^verbatim>\<open>mpz_fdiv_q\<close>, \<^verbatim>\<open>mpz_fdiv_r\<close>, \<^verbatim>\<open>mpz_cdiv_q\<close> and \<^verbatim>\<open>mpz_cdiv_r\<close> computes its part of the
  combined result, although they divide into a temporary or look at the size of the dividend after
  it may have been replaced; \<^verbatim>\<open>mpz_mod\<close> is the nonnegative remainder for divisors of either sign. (\<^verbatim>\<open>mpz_tdiv_q\<close>, which has
  a quotient-only routine of its own below it, is not modelled.)
\<close>

theorem mpz_division_parts_agree:
  assumes "tdiv_scope cfg (ABSIZ st den)" "mpz_ok st w" "mpz_ok st num" "mpz_ok st den" "mpz_val st den \<noteq> 0"
  shows "(\<exists>st'. mpz_tdiv_r cfg st w num den = Some (Inr st') \<and> writes st st' w (mpz_val st num smod mpz_val st den))
    \<and> (\<exists>st'. mpz_fdiv_q cfg st w num den = Some (Inr st') \<and> writes st st' w (mpz_val st num div mpz_val st den))
    \<and> (\<exists>st'. mpz_fdiv_r cfg st w num den = Some (Inr st') \<and> writes st st' w (mpz_val st num mod mpz_val st den))
    \<and> (\<exists>st'. mpz_cdiv_q cfg st w num den = Some (Inr st') \<and> writes st st' w (- (- mpz_val st num div mpz_val st den)))
    \<and> (\<exists>st'. mpz_cdiv_r cfg st w num den = Some (Inr st') \<and> writes st st' w (- (- mpz_val st num mod mpz_val st den)))
    \<and> (\<exists>st'. mpz_mod cfg st w num den = Some (Inr st') \<and> writes st st' w (mpz_val st num mod \<bar>mpz_val st den\<bar>))"
  using tdiv_int.r_law [OF assms] mpz_fdiv_q_writes [OF assms] mpz_fdiv_r_writes [OF assms] mpz_cdiv_q_writes [OF assms]
    mpz_cdiv_r_writes [OF assms] mpz_mod_writes [OF assms]
  unfolding ceil_quot_def ceil_rem_def by (intro conjI)

theorem mpz_division_parts_agree_witness:
  "\<exists>st'. mpz_mod example_tdiv_config example_store 3 1 3 = Some (Inr st') \<and> writes example_store st' 3 ((2 ^ 64 - 1) mod (3 + 2 ^ 64 * 9))"
  using mpz_division_parts_agree [of example_tdiv_config example_store 3 3 1] by simp

text \<open>
  C18: for a divisor with fewer limbs than \<^verbatim>\<open>DC_DIV_QR_THRESHOLD\<close> and than the Toom sizes (\<open>tdiv_scope\<close>) and
  two distinct destinations, \<^verbatim>\<open>mpz_tdiv_qr\<close>, \<^verbatim>\<open>mpz_fdiv_qr\<close> and \<^verbatim>\<open>mpz_cdiv_qr\<close> return, and they raise the arithmetic
  exception exactly when the divisor is zero.
\<close>

theorem mpz_division_error:
  assumes "tdiv_scope cfg (ABSIZ st den)" "mpz_ok st quot" "mpz_ok st rem" "quot \<noteq> rem" "mpz_ok st num" "mpz_ok st den"
  shows "(mpz_tdiv_qr cfg st quot rem num den = Some (Inl DIVIDE_BY_ZERO) \<longleftrightarrow> mpz_val st den = 0)
    \<and> (mpz_fdiv_qr cfg st quot rem num den = Some (Inl DIVIDE_BY_ZERO) \<longleftrightarrow> mpz_val st den = 0)
    \<and> (mpz_cdiv_qr cfg st quot rem num den = Some (Inl DIVIDE_BY_ZERO) \<longleftrightarrow> mpz_val st den = 0)
    \<and> mpz_tdiv_qr cfg st quot rem num den \<noteq> None \<and> mpz_fdiv_qr cfg st quot rem num den \<noteq> None
    \<and> mpz_cdiv_qr cfg st quot rem num den \<noteq> None"
  using tdiv_int.qr_total [OF assms] fdiv_int.qr_total [OF assms] cdiv_int.qr_total [OF assms] by blast

theorem mpz_division_error_witness:
  "mpz_fdiv_qr example_tdiv_config example_store 3 1 3 0 = Some (Inl DIVIDE_BY_ZERO)"
  using mpz_division_error [of example_tdiv_config example_store 0 3 1 3] by simp


section \<open>Sequences of calls\<close>

definition example_config :: config where
  "example_config = \<lparr>mul_cfg = example_mul_config, div_cfg = example_div_config\<rparr>"

definition example_program :: "call list" where
  "example_program =
     [Init 5, Init_set 6 3, Init_set_si 7 (- 7), Binary MUL 5 6 4, Acc SUBMUL 5 7 7, Div_qr FDIV 6 7 5 10,
      Clear 7, Bitc FDIV_Q_2EXP 5 5 3, Unary COM 6 5]"

definition example_live :: "var set" where
  "example_live = {0, 1, 2, 3, 4}"

definition example_failing :: "call list" where
  "example_failing = [Binary SUB 1 1 2, Div_q TDIV 2 1 0, Clear 1]"

lemma example_config_below [simp]: "n \<le> 100 \<Longrightarrow> below_toom (mul_cfg example_config) n"
  by (simp add: example_config_def)

lemma example_fits [simp]: "x \<in> example_live \<Longrightarrow> ABSIZ example_store x \<le> INT_LIMBS"
  by (auto simp: example_live_def INT_LIMBS_def)

lemma example_represents [simp]: "represents example_live example_store (mpz_val example_store)"
  by (simp add: represents_def)

lemma example_disciplined [simp]: "disciplined example_live example_program" "disciplined example_live example_failing"
  by (simp_all add: example_program_def example_failing_def example_live_def)

lemma example_scoped [simp]: "ascoped 4 example_program (mpz_val example_store)" "ascoped 4 example_failing (mpz_val example_store)"
  by (simp_all add: example_program_def example_failing_def B_def ascope_def small_result_def int_sized_small [of _ 4])

lemma example_arun:
  "\<exists>f. arun example_program (mpz_val example_store) = Inr f \<and> f 5 = (12 * (3 + 2 ^ 64 * 9) - 49) div 8"
  "arun example_failing (mpz_val example_store) = Inl DIVIDE_BY_ZERO"
  by (simp_all add: example_program_def example_failing_def)

text \<open>
  C19: consider a sequence of calls that initialises its variables before use, does not use
  them after \<^verbatim>\<open>mpz_clear\<close>, has distinct destinations in its divisions, multiplies operands below the Toom sizes, and
  whose starting values and results have at most \<open>INT_LIMBS\<close> limbs, 2 GiB. Bit counts are 64-bit words and every size a
  call stores is reduced to \<^verbatim>\<open>int\<close>. The sequence computes on the store what the same sequence computes on mathematical
  integers: the same exception, or the same value in every live variable, all of them well formed at the end.
\<close>

theorem program_refines_integers:
  assumes "represents L st f" "disciplined L is" "ascoped n is f" "below_toom (mul_cfg c) (2 * n)"
  shows "case arun is f of Inl e \<Rightarrow> run c is st = Inl e
         | Inr f' \<Rightarrow> \<exists>st'. run c is st = Inr st' \<and> represents (live_end L is) st' f'"
  using run_refines [OF assms] by (auto split: sum.splits)

theorem program_refines_integers_witness:
  "run example_config example_failing example_store = Inl DIVIDE_BY_ZERO
     \<and> (\<exists>st'. run example_config example_program example_store = Inr st'
          \<and> mpz_val st' 5 = (12 * (3 + 2 ^ 64 * 9) - 49) div 8)"
proof -
  obtain f where f: "arun example_program (mpz_val example_store) = Inr f" "f 5 = (12 * (3 + 2 ^ 64 * 9) - 49) div 8"
    using example_arun(1) by blast
  have "5 \<in> live_end example_live example_program" by (simp add: example_program_def live_end_def example_live_def)
  then show ?thesis
    using program_refines_integers [of "example_live" example_store "mpz_val example_store" example_program 4 example_config]
      program_refines_integers [of "example_live" example_store "mpz_val example_store" example_failing 4 example_config]
      f example_arun(2)
    by (auto simp: representsD(2) simp del: example_val)
qed

text \<open>
  C20: a step runs a call whose variables are used as they should be, whose product operands
  are below the Toom sizes and whose results have at most \<open>INT_LIMBS\<close> limbs. In every state reachable by such steps from
  a well-formed one, every live variable is well formed: its block has the allocated length, its size fits the block and
  is at most \<open>INT_LIMBS\<close>, and its top limb is not zero; and the only exception that can be raised is the division by zero.
\<close>

theorem program_keeps_well_formed:
  assumes "below_toom (mul_cfg c) (2 * n)" "well_formed s" "psteps n c s s'"
  shows "well_formed s'"
  using assms(1,3,2) by (rule psteps_well_formed)

theorem program_keeps_well_formed_witness:
  "\<exists>st'. psteps 4 example_config (Running example_program example_live example_store)
            (Running [] (live_end example_live example_program) st')
        \<and> well_formed (Running [] (live_end example_live example_program) st')"
proof -
  obtain st' where "psteps 4 example_config (Running example_program example_live example_store)
      (Running [] (live_end example_live example_program) st')"
    using run_psteps [of example_live example_store "mpz_val example_store" example_program 4 example_config]
      run_refines [of example_live example_store "mpz_val example_store" example_program 4 example_config] example_arun(1)
    by (auto simp del: example_val split: sum.splits)
  moreover from this have "well_formed (Running [] (live_end example_live example_program) st')"
    by (rule program_keeps_well_formed [rotated 2]) simp_all
  ultimately show ?thesis by blast
qed

text \<open>
  C21: a sequence that uses its variables as it should, with products below the Toom sizes and results
  of at most \<open>INT_LIMBS\<close> limbs, never gets stuck: it reaches its end with the values the integers prescribe, or raises the
  exception they prescribe.
\<close>

theorem program_completes:
  assumes "represents L st f" "disciplined L is" "ascoped n is f" "below_toom (mul_cfg c) (2 * n)"
  shows "case arun is f of Inl e \<Rightarrow> psteps n c (Running is L st) (Raised e)
         | Inr f' \<Rightarrow> \<exists>st'. psteps n c (Running is L st) (Running [] (live_end L is) st') \<and> represents (live_end L is) st' f'"
  using run_refines [OF assms] run_psteps [OF assms] by (auto split: sum.splits)

theorem program_completes_witness:
  "psteps 4 example_config (Running example_failing example_live example_store) (Raised DIVIDE_BY_ZERO)"
  using program_completes [of "example_live" example_store "mpz_val example_store" example_failing 4 example_config] example_arun(2)
  by (simp del: example_val)

text \<open>
  No execution of a sequence takes more steps than the sequence has calls.
\<close>

lemma program_steps_bounded:
  assumes "(pstep n c ^^ k) (Running is L st) s"
  shows "k \<le> length is"
  using assms by (rule psteps_bounded)

text \<open>
  C22: let a sequence use its variables as it should, with products below the Toom sizes and values of at
  most \<open>INT_LIMBS\<close> limbs. A variable that is not a destination of any of its calls, live or not, keeps its very block,
  allocation and size through the whole run.
\<close>

theorem program_frame:
  assumes "represents L st f" "disciplined L is" "ascoped n is f" "below_toom (mul_cfg c) (2 * n)"
    and "run c is st = Inr st'" "\<forall>i \<in> set is. x \<notin> targets i"
  shows "vars st' x = vars st x"
  using run_refines [OF assms(1-4)] assms(5,6) by (auto simp: only_changes_def split: sum.splits)

theorem program_frame_witness:
  "\<exists>st'. run example_config example_program example_store = Inr st' \<and> vars st' 3 = example_mpz (- 2) [3, 9]"
proof -
  obtain st' where st': "run example_config example_program example_store = Inr st'"
    using run_refines [of "example_live" example_store "mpz_val example_store" example_program 4 example_config] example_arun(1)
    by (auto simp del: example_val)
  have "\<forall>i \<in> set example_program. 3 \<notin> targets i" by (simp add: example_program_def)
  then show ?thesis
    using program_frame [of "example_live" example_store "mpz_val example_store" example_program 4 example_config st' 3] st'
    by (simp del: example_val)
qed

section \<open>Two's complement logic\<close>

text \<open>
  C23: bit by bit, \<^verbatim>\<open>mpz_and\<close>, \<^verbatim>\<open>mpz_ior\<close> and \<^verbatim>\<open>mpz_xor\<close> act on the infinite
  two's complement forms of their operands, for every combination of signs, although the
  representation is sign and magnitude.
\<close>

theorem mpz_logic_twos_complement:
  assumes "mpz_ok st w" "mpz_ok st u" "mpz_ok st v"
  shows "(bit (mpz_val (mpz_and st w u v) w) n \<longleftrightarrow> bit (mpz_val st u) n \<and> bit (mpz_val st v) n)
       \<and> (bit (mpz_val (mpz_ior st w u v) w) n \<longleftrightarrow> bit (mpz_val st u) n \<or> bit (mpz_val st v) n)
       \<and> (bit (mpz_val (mpz_xor st w u v) w) n \<longleftrightarrow> (bit (mpz_val st u) n \<noteq> bit (mpz_val st v) n))"
  using writes_val [OF and_z.op_writes [OF assms]] writes_val [OF ior_z.op_writes [OF assms]]
    writes_val [OF xor_z.op_writes [OF assms]]
  by (simp_all add: bit_and_iff bit_or_iff bit_xor_iff)

theorem mpz_logic_twos_complement_witness:
  "\<not> bit (mpz_val (mpz_and example_store 0 3 4) 0) 1 \<and> bit (mpz_val (mpz_ior example_store 0 3 4) 0) 2"
  using mpz_logic_twos_complement [of example_store 0 3 4 1] mpz_logic_twos_complement [of example_store 0 3 4 2]
  by (simp add: bit_iff_odd)

text \<open>
  The complement of a conjunction is the disjunction of the complements, as
  computed by \<^verbatim>\<open>mpz_com\<close>, \<^verbatim>\<open>mpz_and\<close> and \<^verbatim>\<open>mpz_ior\<close> over separate variables.
\<close>

lemma mpz_de_morgan:
  assumes "mpz_ok st w" "mpz_ok st u" "mpz_ok st v" "mpz_ok st t" "t \<noteq> w" "v \<noteq> w"
  shows "mpz_val (mpz_com (mpz_and st w u v) w w) w
       = mpz_val (mpz_ior (mpz_com (mpz_com st w u) t v) w w t) w"
proof -
  have a: "writes st (mpz_and st w u v) w (mpz_val st u AND mpz_val st v)" by (rule and_z.op_writes [OF assms(1-3)])
  have c: "writes st (mpz_com st w u) w (NOT (mpz_val st u))" by (rule com.op_writes [OF assms(1,2)])
  let ?s = "mpz_com st w u"
  have d: "writes ?s (mpz_com ?s t v) t (NOT (mpz_val st v))"
    using com.op_writes [of ?s t v] writes_keeps [OF c] assms mpz_val_cong [OF writes_other [OF c assms(6)]] by simp
  have "mpz_val (mpz_ior (mpz_com ?s t v) w w t) w = NOT (mpz_val st u) OR NOT (mpz_val st v)"
    using ior_z.op_writes [of "mpz_com ?s t v" w w t, THEN writes_val] writes_ok [OF d] writes_val [OF d]
      mpz_ok_cong [OF writes_other [OF d]] mpz_val_cong [OF writes_other [OF d]] writes_ok [OF c] writes_val [OF c] assms(5)
    by simp
  moreover have "mpz_val (mpz_com (mpz_and st w u v) w w) w = NOT (mpz_val st u AND mpz_val st v)"
    using com.op_in_place [OF writes_ok [OF a]] writes_val [OF a] by simp
  ultimately show ?thesis by (simp add: bit_eq_iff bit_simps)
qed

section \<open>Division by powers of two\<close>

text \<open>
  \<^verbatim>\<open>mpz_fdiv_q_2exp\<close> rounds towards minus infinity and \<^verbatim>\<open>mpz_fdiv_r_2exp\<close>
  gives the matching remainder in \<open>[0, 2^cnt)\<close>.
\<close>

lemma mpz_fdiv_2exp_floor:
  assumes "mpz_ok st q" "mpz_ok st r" "mpz_ok st u"
  shows "writes st (mpz_fdiv_q_2exp st q u cnt) q (mpz_val st u div 2 ^ cnt)
       \<and> writes st (mpz_fdiv_r_2exp st r u cnt) r (mpz_val st u mod 2 ^ cnt)"
  using fdiv_q_2exp.op_writes [OF assms(1,3)] fdiv_r_2exp.op_writes [OF assms(2,3)] by (rule conjI)

text \<open>
  The quotient of \<^verbatim>\<open>mpz_cdiv_q_2exp\<close> and the remainder of
  \<^verbatim>\<open>mpz_cdiv_r_2exp\<close> recombine to the dividend, and the remainder lies in \<open>(-2^cnt, 0]\<close>: the
  quotient is the ceiling.
\<close>

lemma mpz_cdiv_2exp_ceiling:
  assumes "mpz_ok st q" "mpz_ok st r" "mpz_ok st u"
  shows "mpz_val (mpz_cdiv_q_2exp st q u cnt) q * 2 ^ cnt + mpz_val (mpz_cdiv_r_2exp st r u cnt) r = mpz_val st u
       \<and> - (2 ^ cnt) < mpz_val (mpz_cdiv_r_2exp st r u cnt) r
       \<and> mpz_val (mpz_cdiv_r_2exp st r u cnt) r \<le> 0"
proof (intro conjI)
  have q: "mpz_val (mpz_cdiv_q_2exp st q u cnt) q = - (- mpz_val st u div 2 ^ cnt)"
    using cdiv_q_2exp.op_writes [OF assms(1,3)] by (rule writes_val)
  have r: "mpz_val (mpz_cdiv_r_2exp st r u cnt) r = - (- mpz_val st u mod 2 ^ cnt)"
    using cdiv_r_2exp.op_writes [OF assms(2,3)] by (rule writes_val)
  show "mpz_val (mpz_cdiv_q_2exp st q u cnt) q * 2 ^ cnt + mpz_val (mpz_cdiv_r_2exp st r u cnt) r = mpz_val st u"
    using div_mult_mod_eq [of "- mpz_val st u" "2 ^ cnt"] unfolding q r by linarith
  show "- (2 ^ cnt) < mpz_val (mpz_cdiv_r_2exp st r u cnt) r" "mpz_val (mpz_cdiv_r_2exp st r u cnt) r \<le> 0"
    unfolding r by simp_all
qed

text \<open>
  The truncating \<^verbatim>\<open>mpz_tdiv_q_2exp\<close> and \<^verbatim>\<open>mpz_tdiv_r_2exp\<close> recombine to
  the dividend, with a remainder below \<open>2^cnt\<close> in magnitude that never has the opposite sign.
\<close>

lemma mpz_tdiv_2exp_identity:
  assumes "mpz_ok st q" "mpz_ok st r" "mpz_ok st u"
  shows "mpz_val (mpz_tdiv_q_2exp st q u cnt) q * 2 ^ cnt + mpz_val (mpz_tdiv_r_2exp st r u cnt) r = mpz_val st u
       \<and> \<bar>mpz_val (mpz_tdiv_r_2exp st r u cnt) r\<bar> < 2 ^ cnt
       \<and> 0 \<le> mpz_val (mpz_tdiv_r_2exp st r u cnt) r * mpz_val st u"
proof (intro conjI)
  let ?n = "mpz_val st u"
  have q: "mpz_val (mpz_tdiv_q_2exp st q u cnt) q = tdiv_quot ?n (2 ^ cnt)"
    using tdiv_q_2exp.op_writes [OF assms(1,3), of cnt, THEN writes_val] by (simp add: tdiv_quot_def)
  have r: "mpz_val (mpz_tdiv_r_2exp st r u cnt) r = tdiv_rem ?n (2 ^ cnt)"
    using tdiv_r_2exp.op_writes [OF assms(2,3), of cnt, THEN writes_val] by (simp add: tdiv_rem_def)
  show "mpz_val (mpz_tdiv_q_2exp st q u cnt) q * 2 ^ cnt + mpz_val (mpz_tdiv_r_2exp st r u cnt) r = ?n"
    "\<bar>mpz_val (mpz_tdiv_r_2exp st r u cnt) r\<bar> < 2 ^ cnt"
    unfolding q r by (rule tdiv_law; simp)+
  show "0 \<le> mpz_val (mpz_tdiv_r_2exp st r u cnt) r * ?n"
    unfolding r by (cases ?n "0 :: int" rule: linorder_cases) (simp_all add: tdiv_rem_def mult_nonneg_nonpos)
qed

text \<open>
  Multiplying by \<open>2^cnt\<close> and dividing the result by \<open>2^cnt\<close> in place
  restores the value, under each of the three roundings.
\<close>

lemma mpz_shift_round_trip:
  assumes "mpz_ok st w" "mpz_ok st u"
  shows "writes st (mpz_fdiv_q_2exp (mpz_mul_2exp st w u cnt) w w cnt) w (mpz_val st u)
       \<and> writes st (mpz_cdiv_q_2exp (mpz_mul_2exp st w u cnt) w w cnt) w (mpz_val st u)
       \<and> writes st (mpz_tdiv_q_2exp (mpz_mul_2exp st w u cnt) w w cnt) w (mpz_val st u)"
proof -
  let ?s = "mpz_mul_2exp st w u cnt"
  have m: "writes st ?s w (mpz_val st u * 2 ^ cnt)" by (rule mul_2exp.op_writes [OF assms])
  note ok = writes_ok [OF m] and val = writes_val [OF m]
  have "writes ?s (mpz_fdiv_q_2exp ?s w w cnt) w (mpz_val st u)" "writes ?s (mpz_cdiv_q_2exp ?s w w cnt) w (mpz_val st u)"
    "writes ?s (mpz_tdiv_q_2exp ?s w w cnt) w (mpz_val st u)"
    using fdiv_q_2exp.op_writes [OF ok ok, of cnt] cdiv_q_2exp.op_writes [OF ok ok, of cnt]
      tdiv_q_2exp.op_writes [OF ok ok, of cnt] val
    by (simp_all add: sgn_mult abs_mult sgn_mult_abs flip: mult_minus_left)
  then show ?thesis using writes_trans [OF m] by blast
qed

section \<open>Division by a machine word\<close>

text \<open>
  \<^verbatim>\<open>mpz_fdiv_qr_ui\<close> with a nonzero divisor returns the floor quotient and
  the remainder in \<open>[0, d)\<close>, writes them to two distinct variables and nothing else, and
  returns the remainder, for every setting of the algorithm thresholds.
\<close>

lemma mpz_fdiv_qr_ui_floor:
  assumes "mpz_ok st q" "mpz_ok st r" "mpz_ok st u" "q \<noteq> r" "d \<noteq> 0"
  shows "\<exists>st' rl. mpz_fdiv_qr_ui cfg st q r u d = Inr (st', rl)
    \<and> writes2 st st' q (mpz_val st u div uint d) r (mpz_val st u mod uint d) \<and> uint rl = mpz_val st u mod uint d"
  using fdiv.qr_law [OF assms, of cfg] assms(5) by (simp add: limb_ne_0_iff)

text \<open>
  The one failure of the division functions is a zero divisor: quotient,
  remainder and remainder-only forms, in all three roundings, return an error exactly then, and
  otherwise a result.
\<close>

lemma mpz_div_ui_error:
  assumes "mpz_ok st w" "mpz_ok st u"
  shows "((mpz_tdiv_q_ui cfg st w u d = Inl e \<longleftrightarrow> d = 0) \<and> (mpz_tdiv_r_ui cfg st w u d = Inl e \<longleftrightarrow> d = 0)
       \<and> (mpz_tdiv_ui cfg st u d = Inl e \<longleftrightarrow> d = 0))
       \<and> ((mpz_fdiv_q_ui cfg st w u d = Inl e \<longleftrightarrow> d = 0) \<and> (mpz_fdiv_r_ui cfg st w u d = Inl e \<longleftrightarrow> d = 0)
       \<and> (mpz_fdiv_ui cfg st u d = Inl e \<longleftrightarrow> d = 0))
       \<and> ((mpz_cdiv_q_ui cfg st w u d = Inl e \<longleftrightarrow> d = 0) \<and> (mpz_cdiv_r_ui cfg st w u d = Inl e \<longleftrightarrow> d = 0)
       \<and> (mpz_cdiv_ui cfg st u d = Inl e \<longleftrightarrow> d = 0))"
  by (simp_all only: tdiv.error_iff [OF assms] fdiv.error_iff [OF assms] cdiv.error_iff [OF assms] simp_thms)

text \<open>
  Whatever \<^verbatim>\<open>mpz_tdiv_qr_ui\<close> returns satisfies the division identity
  with a remainder of magnitude below the divisor, and the word it returns is that magnitude.
\<close>

lemma mpz_tdiv_qr_ui_identity:
  assumes "mpz_ok st q" "mpz_ok st r" "mpz_ok st u" "q \<noteq> r" "mpz_tdiv_qr_ui cfg st q r u d = Inr (st', rl)"
  shows "mpz_val st' q * uint d + mpz_val st' r = mpz_val st u
       \<and> \<bar>mpz_val st' r\<bar> < uint d
       \<and> uint rl = \<bar>mpz_val st' r\<bar>"
  using tdiv.qr_identity [OF assms] by auto

text \<open>
  The combined \<^verbatim>\<open>mpz_cdiv_qr_ui\<close> computes the same quotient, remainder and
  returned word as \<^verbatim>\<open>mpz_cdiv_q_ui\<close> and \<^verbatim>\<open>mpz_cdiv_r_ui\<close>, which take different code paths (the
  remainder-only path never computes a quotient).
\<close>

lemma mpz_cdiv_ui_agree:
  assumes "mpz_ok st q" "mpz_ok st r" "mpz_ok st u" "q \<noteq> r"
    and "mpz_cdiv_qr_ui cfg st q r u d = Inr (st', rl)"
    and "mpz_cdiv_q_ui cfg' st q u d = Inr (st1, rl1)" "mpz_cdiv_r_ui cfg'' st r u d = Inr (st2, rl2)"
  shows "mpz_val st' q = mpz_val st1 q \<and> mpz_val st' r = mpz_val st2 r \<and> rl1 = rl \<and> rl2 = rl"
proof -
  have "d \<noteq> 0" using assms(5) cdiv.by_zero(3) by auto
  then show ?thesis
    using cdiv.qr_law [OF assms(1-4), of d cfg] cdiv.q_law [OF assms(1,3), of d cfg'] cdiv.r_law [OF assms(2,3), of d cfg''] assms(5-7)
    by (auto simp: writes2_def writes_def eq_limb_iff)
qed

section \<open>Comparison, conversion and storage of integers\<close>

text \<open>
  The comparison functions return a number whose sign is the sign of the
  difference, against a variable, an unsigned and a signed word; the size bound is what makes
  the difference of sizes fit in the C \<^verbatim>\<open>int\<close> the functions return.
\<close>

lemma mpz_compare_sign:
  assumes "mpz_ok st u" "mpz_ok st v" "ABSIZ st u < 2 ^ 30" "ABSIZ st v < 2 ^ 30"
  shows "sgn (mpz_cmp st u v) = sgn (mpz_val st u - mpz_val st v)
       \<and> sgn (mpz_cmpabs st u v) = sgn (\<bar>mpz_val st u\<bar> - \<bar>mpz_val st v\<bar>)
       \<and> sgn (mpz_cmp_si st u k) = sgn (mpz_val st u - sint k)
       \<and> sgn (mpz_cmp_ui st u k) = sgn (mpz_val st u - uint k)"
  using mpz_cmp_sign [OF assms] mpz_cmpabs_sign [OF assms] mpz_cmp_si_sign [OF assms(1,3)]
    mpz_cmp_ui_sign [OF assms(1)] by simp_all

definition huge_store :: "nat \<Rightarrow> store" where
  "huge_store n =
     \<lparr>vars = (\<lambda>x. example_mpz (if x = 0 then - int n else int n) (replicate n 1)), fresh = (\<lambda>i. 0)\<rparr>"

lemma huge_store_ok: "0 < n \<Longrightarrow> mpz_ok (huge_store n) x"
  by (simp add: mpz_ok_def ABSIZ_def example_mpz_def huge_store_def)

lemma huge_store_size: "SIZ (huge_store n) 0 = - int n" "SIZ (huge_store n) 1 = int n"
  by (simp_all add: huge_store_def example_mpz_def)

text \<open>
  C24: for variables whose sizes are of type \<^verbatim>\<open>int\<close>, as the fields are declared, the sign of what
  \<^verbatim>\<open>mpz_cmp\<close> returns is the sign of the difference of the values if and only if the difference of the two sizes is itself
  an \<^verbatim>\<open>int\<close>: the function computes it as \<^verbatim>\<open>mp_size_t\<close> and returns it as \<^verbatim>\<open>int\<close>. Two numbers of opposite signs that have
  \<open>2^31\<close> limbs together are therefore reported in the wrong order.
\<close>

theorem mpz_cmp_exact_iff:
  assumes "mpz_ok st u" "mpz_ok st v"
    and "- (2 ^ 31) \<le> SIZ st u" "SIZ st u < 2 ^ 31" "- (2 ^ 31) \<le> SIZ st v" "SIZ st v < 2 ^ 31"
  shows "sgn (mpz_cmp st u v) = sgn (mpz_val st u - mpz_val st v)
    \<longleftrightarrow> - (2 ^ 31) \<le> SIZ st u - SIZ st v \<and> SIZ st u - SIZ st v < 2 ^ 31"
  using mpz_cmp_sign_iff [OF assms(1,2)] assms(3-6) c_int_small c_int_range [of "SIZ st u - SIZ st v"] by metis

theorem mpz_cmp_exact_iff_witness:
  "sgn (mpz_cmp (huge_store (2 ^ 29)) 1 0) = 1 \<and> sgn (mpz_cmp (huge_store (2 ^ 30)) 1 0) \<noteq> 1"
proof -
  have "sgn (mpz_val (huge_store n) 1 - mpz_val (huge_store n) 0) = 1" if "0 < n" for n
    using val_less_of_size [OF huge_store_ok huge_store_ok, of n 0 1] huge_store_size [of n] that by simp
  then show ?thesis
    using mpz_cmp_exact_iff [of "huge_store (2 ^ 29)" 1 0, OF huge_store_ok huge_store_ok]
      mpz_cmp_exact_iff [of "huge_store (2 ^ 30)" 1 0, OF huge_store_ok huge_store_ok]
    by (simp add: huge_store_size [unfolded One_nat_def])
qed

text \<open>
  Each \<^verbatim>\<open>mpz_fits_*_p\<close> predicate decides exactly the range of its C type,
  including both ends of the signed ranges.
\<close>

lemma mpz_fits_ranges:
  assumes "mpz_ok st u"
  shows "(mpz_fits_slong_p st u \<longleftrightarrow> - (2 ^ 63) \<le> mpz_val st u \<and> mpz_val st u < 2 ^ 63)
       \<and> (mpz_fits_sint_p st u \<longleftrightarrow> - (2 ^ 31) \<le> mpz_val st u \<and> mpz_val st u < 2 ^ 31)
       \<and> (mpz_fits_sshort_p st u \<longleftrightarrow> - (2 ^ 15) \<le> mpz_val st u \<and> mpz_val st u < 2 ^ 15)
       \<and> (mpz_fits_ulong_p st u \<longleftrightarrow> 0 \<le> mpz_val st u \<and> mpz_val st u < 2 ^ 64)
       \<and> (mpz_fits_uint_p st u \<longleftrightarrow> 0 \<le> mpz_val st u \<and> mpz_val st u < 2 ^ 32)
       \<and> (mpz_fits_ushort_p st u \<longleftrightarrow> 0 \<le> mpz_val st u \<and> mpz_val st u < 2 ^ 16)"
  using assms mpz_fits_slong_p_iff mpz_fits_sint_p_iff mpz_fits_sshort_p_iff mpz_fits_ulong_p_iff
    mpz_fits_uint_p_iff mpz_fits_ushort_p_iff by (simp_all add: B_def)

text \<open>
  A signed word stored with \<^verbatim>\<open>mpz_set_si\<close> fits \<^verbatim>\<open>long\<close> and is read back unchanged by
  \<^verbatim>\<open>mpz_get_si\<close>, the most negative word included; an unsigned word survives \<^verbatim>\<open>mpz_set_ui\<close> and
  \<^verbatim>\<open>mpz_get_ui\<close>.
\<close>

lemma mpz_si_round_trip:
  assumes "mpz_ok st w"
  shows "mpz_fits_slong_p (mpz_set_si st w k) w \<and> mpz_get_si (mpz_set_si st w k) w = k
       \<and> mpz_get_ui (mpz_set_ui st w k) w = k"
proof -
  have s: "writes st (mpz_set_si st w k) w (sint k)" and u: "writes st (mpz_set_ui st w k) w (uint k)"
    using assms by (rule mpz_set_si_writes mpz_set_ui_writes)+
  have fits: "mpz_fits_slong_p (mpz_set_si st w k) w"
    using mpz_fits_slong_p_iff [OF writes_ok [OF s]] writes_val [OF s] sint_ge [of k] sint_lt [of k] by simp
  have "sint (mpz_get_si (mpz_set_si st w k) w) = sint k"
    using mpz_get_si_exact [OF writes_ok [OF s] fits] writes_val [OF s] by simp
  moreover have "uint (mpz_get_ui (mpz_set_ui st w k) w) = uint k"
    using mpz_get_ui_value [OF writes_ok [OF u]] writes_val [OF u] by simp
  ultimately show ?thesis using fits by (auto intro: signed_word_eqI simp: word_uint_eq_iff [of "mpz_get_ui _ _"])
qed

text \<open>
  Every initialising function leaves a well-formed variable holding the
  promised value over any previous contents and any contents of the fresh memory.
\<close>

lemma mpz_init_well_formed:
  shows "writes st (mpz_init st w) w 0 \<and> writes st (mpz_init2 st w bits) w 0
       \<and> writes st (mpz_init_set_ui st w k) w (uint k) \<and> writes st (mpz_init_set_si st w k) w (sint k)"
  using mpz_init_writes mpz_init2_writes mpz_init_set_ui_writes mpz_init_set_si_writes by blast

text \<open>
  Changing the allocation of a variable keeps its value when the new block
  holds its limbs, and stores zero when it does not; in both cases the variable stays well
  formed and the block has the requested size, at least one limb.
\<close>

lemma mpz_realloc_value:
  assumes "mpz_ok st w"
  shows "writes st (mpz_realloc st w n) w (if ABSIZ st w \<le> max n 1 then mpz_val st w else 0)
       \<and> ALLOC (mpz_realloc st w n) w = max n 1"
proof (cases "ABSIZ st w \<le> n")
  case True
  then have "ABSIZ st w \<le> max n 1" by simp
  then show ?thesis using mpz_realloc_grow_writes [OF assms True] by (simp only: if_True simp_thms)
next
  case False
  show ?thesis
  proof (cases "1 < ABSIZ st w")
    case True
    then show ?thesis using mpz_realloc_shrink_writes [OF assms _ True, of n] False
      by (auto simp: mpz_realloc_def Let_def)
  next
    case one: False
    then have "ABSIZ st w \<le> 1" "mpz_realloc st w n = mpz_realloc st w 1" using False by (auto simp: mpz_realloc_def Let_def)
    then show ?thesis using mpz_realloc_grow_writes [OF assms, of 1] False by simp
  qed
qed

text \<open>
  \<^verbatim>\<open>mpz_swap\<close> exchanges two variables, blocks included, touches no third one and
  undoes itself, also when both arguments are the same variable.
\<close>

lemma mpz_swap_exchanges:
  shows "mpz_val (mpz_swap st u v) u = mpz_val st v \<and> mpz_val (mpz_swap st u v) v = mpz_val st u
       \<and> vars (mpz_swap (mpz_swap st u v) u v) = vars st"
proof -
  have "mpz_val (mpz_swap st u v) u = mpz_val st v" "mpz_val (mpz_swap st u v) v = mpz_val st u"
    by (auto simp: mpz_val_def mag_def ABSIZ_def mpz_swap_vars)
  then show ?thesis using mpz_swap_involutive by blast
qed

section \<open>Limb vectors\<close>

text \<open>
  C25: Karatsuba's product, with its odd and even splittings, absolute
  differences and in-place interpolation, delivers limb for limb the schoolbook product, for
  every threshold of at least 2 at which the recursion hands over to the schoolbook code.
\<close>

theorem mpn_kara_mul_n_basecase:
  assumes "length a = n" "length b = n" "2 \<le> n" "2 \<le> thr"
  shows "mpn_kara_mul_n thr a b n = mpn_mul_basecase a b"
  using mpn_kara_mul_n_product [OF assms] is_product_basecase [OF assms(1,2)] assms(3) lval_cong_length
  by (simp add: is_product_def)

theorem mpn_kara_mul_n_basecase_witness:
  "mpn_kara_mul_n 2 [1, 2, - 1, 4, 5] [6, - 7, 8, 9, 10] 5 = mpn_mul_basecase [1, 2, - 1, 4, 5] [6, - 7, 8, 9, 10]"
  by (rule mpn_kara_mul_n_basecase) simp_all

text \<open>
  The three ways to square, the diagonal-and-triangle \<^verbatim>\<open>mpn_sqr_basecase\<close>,
  \<^verbatim>\<open>mpn_kara_sqr_n\<close> and the schoolbook product of a vector with itself, deliver the same limbs.
\<close>

lemma mpn_sqr_agree:
  assumes "length a = n" "2 \<le> n" "2 \<le> thr"
  shows "mpn_sqr_basecase a = mpn_mul_basecase a a
       \<and> mpn_kara_sqr_n bthr thr a n = mpn_mul_basecase a a"
  using mpn_kara_sqr_n_product [OF assms] mpn_sqr_basecase_product [of a n] is_product_basecase [OF assms(1,1)] assms
    lval_cong_length
  by (simp_all add: is_product_def)

text \<open>
  C26: for operands below the Toom and Fourier sizes (\<open>below_toom\<close>), the general \<^verbatim>\<open>mpn_mul\<close>, with its choice
  between basecase and Karatsuba, its slicing of long operands and the running carry of its block loop, returns the full
  product in exactly as many limbs as both operands have together.
\<close>

theorem mpn_mul_exact:
  assumes "below_toom cfg (length up + length vp)" "vp \<noteq> []" "length vp \<le> length up"
  shows "lval (mpn_mul cfg False up vp) = lval up * lval vp \<and> length (mpn_mul cfg False up vp) = length up + length vp"
  using mpn_mul_below_product [OF assms, of False] by (simp add: product_of_def)

theorem mpn_mul_exact_witness:
  "lval (mpn_mul example_mul_config False [1, - 1, 3] [- 1, 2]) = lval [1, - 1, 3] * lval [- 1, 2]"
  using mpn_mul_exact [of example_mul_config "[1, - 1, 3]" "[- 1, 2]"] by simp

text \<open>
  The three multiply-by-a-limb loops are exact: low limbs and returned carry
  together are the product, the sum with it, or the difference from it.
\<close>

lemma mpn_mul_1_family:
  assumes "length rp = length up"
  shows "lval (fst (mpn_mul_1 up vl)) + B ^ length up * uint (snd (mpn_mul_1 up vl)) = lval up * uint vl
       \<and> lval (fst (mpn_addmul_1 rp up vl)) + B ^ length up * uint (snd (mpn_addmul_1 rp up vl)) = lval rp + lval up * uint vl
       \<and> lval (fst (mpn_submul_1 rp up vl)) - B ^ length up * uint (snd (mpn_submul_1 rp up vl)) = lval rp - lval up * uint vl"
  using mpn_mul_1_value mpn_addmul_1_value [OF assms] mpn_submul_1_value [OF assms] by blast+

text \<open>
  The borrow of \<^verbatim>\<open>mpn_submul_1\<close> can be the largest limb: with
  the destination \<open>B\<close> and both factors all ones it returns \<open>B - 1\<close>.
\<close>

theorem mpn_submul_1_full_borrow: "snd (mpn_submul_1 [0, 1] [- 1, - 1] (- 1)) = - 1"
proof -
  let ?f = "lval (fst (mpn_submul_1 [0, 1] [- 1, - 1] (- 1)))" and ?s = "uint (snd (mpn_submul_1 [0, 1] [- 1, - 1] (- 1)))"
  have "?s * (B * B) + (2 * B - 1) = (B - 1) * (B * B) + ?f"
    using mpn_submul_1_value [of "[0, 1]" "[- 1, - 1]" "- 1"] by (simp add: uint_limb_max algebra_simps)
  moreover have "?f < B * B" using lval_lt [of "fst (mpn_submul_1 [0, 1] [- 1, - 1] (- 1))"] by simp
  ultimately have "?s = B - 1"
    using zdiv_mod_unique(1) [OF refl, of "2 * B - 1" "B * B" ?s] zdiv_mod_unique(1) [OF refl, of ?f "B * B" "B - 1"]
    by (simp add: B_def)
  then show ?thesis by (simp add: eq_limb_iff uint_limb_max)
qed

lemma carried_unique:
  assumes "length xs = length ys" "uint c * B ^ length ys + lval xs = uint b * B ^ length ys + lval ys"
  shows "xs = ys" "c = (b :: limb)"
proof -
  let ?P = "B ^ length ys"
  note x = zdiv_mod_unique [of _ "uint c" ?P "lval xs", OF refl lval_nonneg lval_lt [of xs, unfolded assms(1)]]
  note y = zdiv_mod_unique [of _ "uint b" ?P "lval ys", OF refl lval_nonneg lval_lt]
  show "xs = ys" using x(2) y(2) assms lval_cong_length [of xs ys] by simp
  show "c = b" using x(1) y(1) assms by (simp add: eq_limb_iff)
qed

text \<open>
  Subtracting what was added restores every limb, and the borrow equals the
  carry, which is 0 or 1.
\<close>

lemma mpn_add_sub_round_trip:
  assumes "length up = length vp"
  shows "mpn_sub_n (fst (mpn_add_n up vp)) vp = (up, snd (mpn_add_n up vp))
       \<and> snd (mpn_add_n up vp) \<le> 1"
proof (intro conjI)
  obtain rp c where a: "mpn_add_n up vp = (rp, c)" by fastforce
  obtain sp b where s: "mpn_sub_n rp vp = (sp, b)" by fastforce
  have len: "length rp = length vp" "length sp = length up"
    using length_mpn_add_n [of up vp] length_mpn_sub_n [of rp vp] assms a s by simp_all
  have "lval rp + B ^ length up * uint c = lval up + lval vp" "lval sp - B ^ length rp * uint b = lval rp - lval vp"
    using mpn_add_n_value [OF assms] mpn_sub_n_value [OF len(1)] a s by simp_all
  then have eq: "uint c * B ^ length up + (lval sp) = uint b * B ^ length up + lval up"
    using len assms by (simp add: mult.commute)
  have "sp = up" "c = b" by (rule carried_unique [OF len(2) eq])+
  then show "mpn_sub_n (fst (mpn_add_n up vp)) vp = (up, snd (mpn_add_n up vp))" "snd (mpn_add_n up vp) \<le> 1"
    using a s mpn_add_n_carry [of up vp] by simp_all
qed

text \<open>
  Shifting a vector left and right by the same count, with the bits that fell
  off the top, restores it.
\<close>

lemma mpn_shift_round_trip:
  assumes "0 < cnt" "cnt < 64"
  shows "lval (fst (mpn_rshift (fst (mpn_lshift up cnt) @ [snd (mpn_lshift up cnt)]) cnt)) = lval up"
  using mpn_lshift_value [OF assms, of up] mpn_rshift_div(1) [OF assms] by (simp add: lval_snoc)

text \<open>
  \<^verbatim>\<open>mpn_scan1\<close> returns the position of the first one bit at or after its start,
  and reads past the vector (no result) exactly when there is none.
\<close>

lemma mpn_scan1_first:
  "mpn_scan1 up s =
     (if \<exists>j. s \<le> j \<and> bit (lval up) j then Some (LEAST j. s \<le> j \<and> bit (lval up) j) else None)"
proof -
  have spec: "case mpn_scan1 up s of Some r \<Rightarrow> first_at (bit (lval up)) s r | None \<Rightarrow> \<forall>j \<ge> s. \<not> bit (lval up) j"
    by (rule mpn_scan1_spec)
  have "mpn_scan1 up s = Some (LEAST j. s \<le> j \<and> bit (lval up) j)" if "\<exists>j \<ge> s. bit (lval up) j"
    using spec that
    by (auto simp: first_at_def split: option.splits intro!: Least_equality [symmetric] not_less [THEN iffD1])
  moreover have "mpn_scan1 up s = None" if "\<nexists>j. s \<le> j \<and> bit (lval up) j"
    using spec that by (auto simp: first_at_def split: option.splits)
  ultimately show ?thesis by simp
qed

section \<open>Division of limb vectors\<close>

text \<open>
  C27: \<^verbatim>\<open>mpn_divrem_1\<close> returns the quotient, with \<open>qxn\<close> fraction limbs, and the
  remainder below the divisor, on every path: normalised or shifted divisor, plain or
  precomputed inverse division, and the early quotient limb of a small top limb.
\<close>

theorem mpn_divrem_1_exact:
  assumes "d \<noteq> 0"
  shows "lval (fst (mpn_divrem_1 cfg qxn up d)) = lval up * B ^ qxn div uint d
       \<and> uint (snd (mpn_divrem_1 cfg qxn up d)) = lval up * B ^ qxn mod uint d
       \<and> length (fst (mpn_divrem_1 cfg qxn up d)) = length up + qxn"
proof (intro conjI)
  have q: "quotient_of up qxn d (mpn_divrem_1 cfg qxn up d)" by (rule mpn_divrem_1_quotient [OF assms])
  note u = zdiv_mod_unique [of "lval up * B ^ qxn" "lval (fst (mpn_divrem_1 cfg qxn up d))" "uint d" "uint (snd (mpn_divrem_1 cfg qxn up d))"]
  show "lval (fst (mpn_divrem_1 cfg qxn up d)) = lval up * B ^ qxn div uint d"
    "uint (snd (mpn_divrem_1 cfg qxn up d)) = lval up * B ^ qxn mod uint d"
    using q u by (simp_all add: quotient_of_def less_limb_iff)
  show "length (fst (mpn_divrem_1 cfg qxn up d)) = length up + qxn" using q by (simp add: quotient_of_def)
qed

theorem mpn_divrem_1_exact_witness:
  "uint (snd (mpn_divrem_1 example_div_config 1 [5, 3] 10)) = lval [5, 3] * B mod 10"
  using mpn_divrem_1_exact [of 10 example_div_config 1 "[5, 3]"] by simp

text \<open>
  \<^verbatim>\<open>mpn_mod_1\<close> gives the same remainder whatever the thresholds, that is
  whichever of its five algorithms runs, and it is the remainder of \<^verbatim>\<open>mpn_divrem_1\<close>.
\<close>

lemma mpn_mod_1_threshold_free:
  assumes "d \<noteq> 0"
  shows "mpn_mod_1 cfg up d = snd (mpn_divrem_1 cfg' 0 up d)
       \<and> mpn_divrem_euclidean_r_1 cfg'' up d = mpn_mod_1 cfg up d"
  using mpn_mod_1_value [OF assms] mpn_divrem_euclidean_r_1_value [OF assms]
    quotient_of_div_mod(2) [OF mpn_divrem_1_quotient [OF assms]] by (simp_all add: eq_limb_iff)

text \<open>
  When the odd divisor divides the vector, the right-to-left Hensel division
  returns limb for limb the quotient of the left-to-right \<^verbatim>\<open>mpn_divrem_1\<close>.
\<close>

lemma hensel_exact_division:
  assumes "odd d" "xp \<noteq> []" "uint d dvd lval xp"
  shows "fst (mpn_rsh_divrem_hensel_qr_1 threshold xp d 0 0) = fst (mpn_divrem_1 cfg 0 xp d)"
proof -
  have d: "d \<noteq> 0" using assms(1) by auto
  have h: "lval (fst (mpn_rsh_divrem_hensel_qr_1 threshold xp d 0 0)) = lval xp div uint d"
    "length (fst (mpn_rsh_divrem_hensel_qr_1 threshold xp d 0 0)) = length xp"
    using mpn_rsh_divrem_hensel_qr_1_exact [OF assms(1) _ assms(2), of 0 0 threshold] assms(3) by simp_all
  show ?thesis
    using h quotient_of_div_mod(1,3) [OF mpn_divrem_1_quotient [OF d, where up = xp and cfg = cfg]] by (intro lval_cong_length) simp_all
qed

section \<open>Single limb arithmetic\<close>

text \<open>
  Dividing two limbs by a normalised limb with the precomputed inverse and
  the branch-free correction gives the same quotient and remainder as the schoolbook division by
  half limbs.
\<close>

lemma udiv_preinv2_equivalent:
  assumes "nh < d" "2 ^ 63 \<le> uint d"
  shows "udiv_qrnnd_preinv2 nh nl d (invert_limb d) = udiv_qrnnd_c nh nl d"
proof -
  obtain q r where p: "udiv_qrnnd_preinv2 nh nl d (invert_limb d) = (q, r)" by fastforce
  obtain q' r' where c: "udiv_qrnnd_c nh nl d = (q', r')" by fastforce
  note P = udiv_qrnnd_preinv2_value [OF assms p] and C = udiv_qrnnd_c_value [OF assms c]
  have "uint q = uint q'" "uint r = uint r'"
    using zdiv_mod_unique [OF P(1) [symmetric]] zdiv_mod_unique [OF C(1) [symmetric]] P(2) C(2) by (simp_all add: less_limb_iff)
  then show ?thesis using p c by (simp add: eq_limb_iff)
qed

text \<open>
  The two limbs of \<^verbatim>\<open>umul_ppmm\<close>, built from four half-limb products, are the exact
  product; in particular no carry between the halves is lost.
\<close>

lemma umul_ppmm_exact:
  shows "uint (fst (umul_ppmm u v)) = uint u * uint v div B
       \<and> uint (snd (umul_ppmm u v)) = uint u * uint v mod B"
  using umul_ppmm_value [of u v] zdiv_mod_unique [OF _ uint_ge_0 uint_lt_B, of "uint u * uint v"]
  by (metis prod.collapse)+

text \<open>
  The table look-up and Newton steps of \<^verbatim>\<open>modlimb_invert\<close> give the inverse of
  every odd limb modulo \<open>2^64\<close>.
\<close>

lemma modlimb_invert_inverse:
  assumes "odd n"
  shows "n * modlimb_invert n = 1"
  using modlimb_invert_value(2) [OF assms] by (simp add: mult.commute)

text \<open>
  For a nonzero limb \<^verbatim>\<open>count_leading_zeros\<close> locates the top bit and
  \<^verbatim>\<open>count_trailing_zeros\<close> the lowest, both below 64.
\<close>

lemma count_zeros_bounds:
  assumes "x \<noteq> 0"
  shows "(2 ^ (63 - count_leading_zeros x) \<le> uint x \<and> uint x < 2 ^ (64 - count_leading_zeros x) \<and> count_leading_zeros x < 64)
       \<and> (bit x (count_trailing_zeros x) \<and> (\<forall>j < count_trailing_zeros x. \<not> bit x j) \<and> count_trailing_zeros x < 64)"
  using count_leading_zeros_spec [OF assms] count_trailing_zeros_spec [OF assms] by blast+
section \<open>Division by limb vectors\<close>

text \<open>
  C28: \<^verbatim>\<open>mpn_tdiv_qr\<close> returns, with quotient and remainder of exactly the lengths its callers
  allocate, on every path below the divide-and-conquer sizes: one and two limb divisors, long
  quotients, and quotients shorter than the divisor, where an estimate from the leading limbs is
  corrected at most twice and its assertions hold.
\<close>

theorem mpn_tdiv_qr_exact:
  assumes "tdiv_scope cfg (length dp)" "dp \<noteq> []" "last dp \<noteq> 0" "length dp \<le> length np"
  shows "\<exists>qp rp. mpn_tdiv_qr cfg np dp = Some (qp, rp) \<and> lval qp = lval np div lval dp \<and> lval rp = lval np mod lval dp
    \<and> length qp = length np - length dp + 1 \<and> length rp = length dp"
proof -
  obtain qp rp where r: "mpn_tdiv_qr cfg np dp = Some (qp, rp)" "tdiv_of np dp qp rp"
    using mpn_tdiv_qr_below_value [OF assms] by blast
  then show ?thesis using tdiv_of_div_mod [OF r(2)] by (simp add: tdiv_of_def)
qed

theorem mpn_tdiv_qr_exact_witness:
  "\<exists>qp rp. mpn_tdiv_qr example_tdiv_config [0, 0, 1, 7] [5, - 1, 2] = Some (qp, rp) \<and> length qp = 2 \<and> length rp = 3
    \<and> lval qp = lval [0, 0, 1, 7] div lval [5, - 1, 2]"
  using mpn_tdiv_qr_exact [of example_tdiv_config "[5, - 1, 2]" "[0, 0, 1, 7]"] by auto

text \<open>
  The schoolbook loop, with the inverse that \<^verbatim>\<open>invert_1\<close> computes from the two leading
  limbs of a normalised divisor, divides exactly: each round estimates a quotient limb from three
  limbs by two, at most one too large, and corrects it.
\<close>

lemma mpn_sb_div_qr_exact:
  assumes "2 < length dp" "length dp \<le> length np" "2 ^ 63 \<le> uint (last dp)"
  shows "\<exists>qh qp np'. mpn_sb_div_qr np dp (invert_1 (dp ! (length dp - 1)) (dp ! (length dp - 2))) = (qh, qp, np')
    \<and> uint qh * B ^ (length np - length dp) + lval qp = lval np div lval dp
    \<and> lval (take (length dp) np') = lval np mod lval dp \<and> length qp = length np - length dp \<and> length np' = length np"
proof -
  let ?res = "mpn_sb_div_qr np dp (invert_1 (dp ! (length dp - 1)) (dp ! (length dp - 2)))"
  obtain qh qp np' where r: "?res = (qh, qp, np')" by (cases ?res) auto
  have "divided np dp ?res" using sb_div_qr_divided [of np dp] assms unfolding normal_divisor_def top_inverse_def by blast
  then have d: "(uint qh * B ^ (length np - length dp) + lval qp) * lval dp + lval (take (length dp) np') = lval np"
    "lval (take (length dp) np') < lval dp" "length qp = length np - length dp" "length np' = length np"
    unfolding r divided_def by simp_all
  then show ?thesis using r zdiv_mod_unique [OF d(1) [symmetric] lval_nonneg d(2)] by simp
qed

text \<open>
  For a normalised divisor of two limbs the backward jump of \<^verbatim>\<open>mpn_divrem_2\<close> ends in every
  round, and the function returns the quotient, with \<open>qxn\<close> fraction limbs, and the remainder.
\<close>

lemma mpn_divrem_2_returns:
  assumes "length dp = 2" "2 ^ 63 \<le> uint (last dp)" "2 \<le> length np"
  shows "\<exists>qh qp np'. mpn_divrem_2 threshold qxn np dp = Some (qh, qp, np')
    \<and> uint qh * B ^ (length np - 2 + qxn) + lval qp = lval np * B ^ qxn div lval dp
    \<and> lval (take 2 np') = lval np * B ^ qxn mod lval dp \<and> length qp = length np - 2 + qxn"
proof -
  have "2 ^ 63 \<le> uint (dp ! 1)" using assms(1,2) by (simp add: last_conv_nth numeral_2_eq_2 flip: length_greater_0_conv)
  from mpn_divrem_2_quotient [OF assms(3,1) this, of threshold qxn] obtain qh qp np' where
    r: "mpn_divrem_2 threshold qxn np dp = Some (qh, qp, np')" "length qp = length np - 2 + qxn"
    and d: "lval np * B ^ qxn = (uint qh * B ^ (length np - 2 + qxn) + lval qp) * lval dp + lval (take 2 np')" "lval (take 2 np') < lval dp"
    by metis
  then show ?thesis using zdiv_mod_unique [OF d(1) lval_nonneg d(2)] by simp
qed
section \<open>Hash tables\<close>

text \<open>
  C29: the loop that computes the capacity of a new table returns exactly for sizes up to
  \<open>2^63\<close>, and then gives the least power of two that is not below the size. For larger sizes the capacity
  is shifted out of the word and the loop does not end.
\<close>

theorem hash_table_capacity:
  "(calculate_initial_capacity req = None \<longleftrightarrow> 2 ^ 63 < uint req)
    \<and> (\<forall>c. calculate_initial_capacity req = Some c \<longrightarrow>
         (\<exists>m \<le> 63. uint c = 2 ^ m \<and> uint req \<le> 2 ^ m \<and> (0 < m \<longrightarrow> 2 ^ (m - 1) < uint req)))"
proof (cases "2 ^ 63 < uint req")
  case False
  then show ?thesis using calculate_initial_capacity_returns [of req] by auto
qed (simp add: calculate_initial_capacity_diverges)

theorem hash_table_capacity_witness:
  "calculate_initial_capacity 9223372036854775809 = None \<and> (\<exists>c. calculate_initial_capacity 100 = Some c \<and> 100 \<le> uint c)"
  using hash_table_capacity [of 9223372036854775809] hash_table_capacity [of 100] by auto

text \<open>
  C30: any sequence of lookups, insertions, removals, clearings and counts on a new table of
  the test \<^verbatim>\<open>eq\<close> gives the results of the same sequence on a map that is empty at first, whatever the hash values
  of the objects are, as long as they stay the same during the sequence (the code hashes a cons by its contents, so keys
  that are modified while they are in the table are outside the claim). The cached bucket index never leads a search to the wrong bucket: doubling the table forgets it,
  and the zero bits of a new object are the fixnum 0, which belongs to bucket 0.
\<close>

theorem eq_hash_table_refines_map:
  fixes "is" :: "(Value, 'v) ht_op list"
  assumes "uint req \<le> 2 ^ 63"
  shows "\<exists>t :: (Value, 'v) eq_hash_table. EqHashTable_init (Fixnum 0) req = Some t
    \<and> outputs (eq_step (hash other k)) is t = outputs (map_step (=)) is (\<lambda>_. None, 0)"
proof -
  obtain t :: "(Value, 'v) eq_hash_table" and s where "EqHashTable_init (Fixnum 0) req = Some t" and e: "eq_refines (hash other k) t s"
    and r: "ht_represents (=) (hash other k) (\<lambda>_. True) s (\<lambda>_. None, 0)"
    using EqHashTable_init_represents [of req "hash other k" "Fixnum 0"] assms hash_zero by blast
  moreover have "outputs (eq_step (hash other k)) is t = outputs (map_step (=)) is (\<lambda>_. None, 0)"
    using eq_outputs [OF e] eq_test.table_refines_map [OF r] by simp
  ultimately show ?thesis by blast
qed

theorem eq_hash_table_refines_map_witness:
  "\<exists>t. EqHashTable_init (Fixnum 0) 1 = Some t
    \<and> outputs (eq_step (hash (\<lambda>c i. of_nat i) example_kernel))
        [Puthash (Fixnum 4) True, Puthash (Bignum_ref 1) False, Remhash (Fixnum 4), Gethash (Bignum_ref 1), Gethash (Fixnum 4), Hash_count] t
      = [Done, Done, Val (Some True), Val (Some False), Val None, Num 1]"
  using eq_hash_table_refines_map [of 1 "\<lambda>c i. of_nat i" example_kernel
      "[Puthash (Fixnum 4) True, Puthash (Bignum_ref 1) False, Remhash (Fixnum 4), Gethash (Bignum_ref 1), Gethash (Fixnum 4), Hash_count]"]
  by simp

text \<open>
  C31: in a table of the test \<^verbatim>\<open>eql\<close> integers are keys by their value: every sequence of
  operations gives the results of a map in which two integers are the same key exactly when they are the same
  number, although equal bignums are different objects.
\<close>

theorem eql_hash_table_by_value:
  fixes "is" :: "(Value, 'v) ht_op list"
  assumes "uint req \<le> 2 ^ 63" "\<forall>i \<in> set is. \<forall>key \<in> op_keys i. sized k key"
  shows "\<exists>t :: (Value, 'v) hash_table. ht_init req = Some t
    \<and> outputs (ht_step (eql other_eql k) (hash other k)) is t
      = outputs (map_step (\<lambda>a b. int_of k a = int_of k b)) is (\<lambda>_. None, 0)"
proof -
  obtain t :: "(Value, 'v) hash_table" where t: "ht_init req = Some t" using ht_init_returns [OF assms(1)] by blast
  have "outputs (ht_step (eql other_eql k) (hash other k)) is t = outputs (map_step (eql other_eql k)) is (\<lambda>_. None, 0)"
    using eql_test.table_refines_map [OF eql_test.init_represents [OF t assms(1)]] assms(2) by blast
  also have "\<dots> = outputs (map_step (\<lambda>a b. int_of k a = int_of k b)) is (\<lambda>_. None, 0)"
    using assms(2) eql_decides by (intro map_outputs_cong [where K = "sized k"]) blast+
  finally show ?thesis using t by blast
qed

definition example_hash_ops :: "(Value, bool) ht_op list" where
  "example_hash_ops = [Puthash (Bignum_ref 1) True, Puthash (Fixnum 28) False, Remhash (Fixnum (- 8)), Gethash (Bignum_ref 1), Gethash (Bignum_ref 3), Hash_count]"

lemma example_hash_keys: "\<forall>i \<in> set example_hash_ops. \<forall>key \<in> op_keys i. sized example_kernel key"
  by (simp add: example_hash_ops_def)

theorem eql_hash_table_by_value_witness:
  "\<exists>t. ht_init 1 = Some t
    \<and> outputs (ht_step (eql (\<lambda>c i v. False) example_kernel) (hash (\<lambda>c i. 0) example_kernel)) example_hash_ops t
      = [Done, Done, Val None, Val (Some True), Val None, Num 2]"
proof -
  have "outputs (map_step (\<lambda>a b. int_of example_kernel a = int_of example_kernel b)) example_hash_ops (\<lambda>_. None, 0)
      = [Done, Done, Val None, Val (Some True), Val None, Num 2]"
    by (simp add: example_hash_ops_def)
  then show ?thesis
    using eql_hash_table_by_value [OF _ example_hash_keys, of 1 "\<lambda>c i v. False" "\<lambda>c i. 0"] by simp
qed

text \<open>
  C32: after any operations on a table of the test \<^verbatim>\<open>eql\<close> with integer keys at most three
  quarters as many entries as buckets are in the table, the count is the length of the list of entries, which
  has no entry twice and no two keys of the same value, and \<^verbatim>\<open>maphash\<close> visits these entries.
\<close>

theorem hash_table_load:
  assumes "uint req \<le> 2 ^ 63" "ht_init req = Some t0" "\<forall>i \<in> set is. \<forall>key \<in> op_keys i. sized k key"
    "t = ht_run (eql other_eql k) (hash other k) is t0"
  shows "4 * ht_count t \<le> 3 * ht_capacity t \<and> length (ht_entries t) = ht_count t
    \<and> distinct (map (\<lambda>e. int_of k (fst e)) (ht_entries t))
    \<and> ht_maphash f t s = fold (\<lambda>(key, v). f key v) (rev (ht_entries t)) s"
proof -
  have ok: "ht_ok (eql other_eql k) (hash other k) (sized k) t"
    unfolding assms(4) using assms(3) eql_test.init_ok(1) [OF assms(2,1)] by (intro eql_test.run_ok) blast+
  note e = eql_test.entries_ok [OF ok]
  have "\<forall>e \<in> set (ht_entries t). sized k (fst e)" using e(1) eql_test.ok_keys [OF ok] by simp
  then have "sorted_wrt (\<lambda>a b. int_of k (fst a) \<noteq> int_of k (fst b)) (rev (ht_entries t))"
    using e(4) eql_decides by (intro sorted_wrt_mono_rel [OF _ e(4)]) auto
  then have "distinct (map (\<lambda>e. int_of k (fst e)) (rev (ht_entries t)))"
    by (simp add: distinct_conv_nth sorted_wrt_iff_nth_less) (metis nat_neq_iff)
  then show ?thesis using ok_load [OF ok] e(2) eql_test.maphash_entries by (simp add: rev_map [symmetric])
qed

theorem hash_table_load_witness:
  "4 * ht_count (ht_run (eql (\<lambda>c i v. False) example_kernel) (hash (\<lambda>c i. 0) example_kernel) example_hash_ops (the (ht_init 1)))
     \<le> 3 * ht_capacity (ht_run (eql (\<lambda>c i v. False) example_kernel) (hash (\<lambda>c i. 0) example_kernel) example_hash_ops (the (ht_init 1)))"
proof -
  obtain t :: "(Value, bool) hash_table" where "ht_init 1 = Some t" using ht_init_returns [of 1] by auto
  then show ?thesis
    using hash_table_load [OF _ _ example_hash_keys refl, of 1 t "\<lambda>c i v. False" "\<lambda>c i. 0", THEN conjunct1] by simp
qed

section \<open>Symbol tables and packages\<close>

text \<open>
  C33: every sequence of searches, additions and removals on a new symbol table gives the results
  of a map from names to symbols, as long as a symbol is added only when no symbol of its name is there. Marks
  of removed symbols, doubling and wrapping around the end of the table do not show.
\<close>

theorem symbol_table_refines_map:
  assumes "uint req \<le> 2 ^ 63" "fresh_adds is (\<lambda>_. None)"
  shows "\<exists>t. st_init req = Some t \<and> outputs st_step is t = outputs names_step is (\<lambda>_. None)"
proof -
  obtain t where t: "st_init req = Some t" using st_init_returns [OF assms(1)] by blast
  then show ?thesis using symbol_table_refines_names [OF st_init_represents [OF t assms(1)] assms(2)] by blast
qed

definition sym_C :: symbol where
  "sym_C = Symbol 0 [67]"

definition sym_D :: symbol where
  "sym_D = Symbol 1 [68]"

theorem symbol_table_refines_map_witness:
  "\<exists>t. st_init 1 = Some t \<and>
     outputs st_step [Add sym_C, Add sym_D, Delete sym_C, Find [68], Find [67], Add sym_C, Find [67]] t
     = [None, None, Some sym_C, Some sym_D, None, None, Some sym_C]"
  using symbol_table_refines_map [of 1 "[Add sym_C, Add sym_D, Delete sym_C, Find [68], Find [67], Add sym_C, Find [67]]"]
  by (simp add: sym_C_def sym_D_def)

text \<open>
  C34: \<^verbatim>\<open>put\<close> does not look behind the mark of a removed symbol. When a symbol of the table is put
  again and a mark lies before it, it is stored a second time, the count goes up, and after one \<^verbatim>\<open>remove\<close> it is still
  found.
\<close>

theorem symbol_stored_twice:
  assumes "st_ok t" "unique_names (st_buckets t)" "s \<in> set (st_symbols t)" "st_count t < st_threshold t"
    and "probe (bucket_index Symbol_hash (st_mask t) s) (st_capacity t) = as @ j # cs" "st_buckets t ! j = DELETED"
    and "\<forall>i \<in> set as. st_buckets t ! i \<noteq> Sym s"
  shows "st_count (st_put t s) = st_count t + 1 \<and> st_get (snd (st_remove (st_put t s) s)) (sym_name s) = Some s"
  by (rule put_behind_mark [OF assms])

definition marked_table :: symbol_table where
  "marked_table = snd (st_remove (st_put (st_put SymbolHashTable_new sym_C) sym_D) sym_C)"

lemma marked_table_ok: "table_ok marked_table"
proof -
  have "table_ok (st_put SymbolHashTable_new sym_C)" "st_get (st_put SymbolHashTable_new sym_C) = [[67] \<mapsto> sym_C]"
    using nt.put_ok [of SymbolHashTable_new sym_C] nt.get_put [of SymbolHashTable_new sym_C] SymbolHashTable_new_ok
    by (auto simp: sym_C_def fun_eq_iff)
  then have "table_ok (st_put (st_put SymbolHashTable_new sym_C) sym_D)" by (intro nt.put_ok [of "st_put _ _"]) (simp_all add: sym_D_def)
  then show ?thesis unfolding marked_table_def by (rule nt.rem_ok)
qed

theorem symbol_stored_twice_witness: "st_get (snd (st_remove (st_put marked_table sym_D) sym_D)) [68] = Some sym_D"
proof -
  have "sym_D \<in> set (st_symbols marked_table)" "st_count marked_table < st_threshold marked_table"
    "probe (bucket_index Symbol_hash (st_mask marked_table) sym_D) (st_capacity marked_table) = [] @ 11 # [12, 13, 14, 15, 0, 1, 2, 3, 4, 5, 6, 7, 8, 9, 10]"
    "st_buckets marked_table ! 11 = DELETED"
    by code_simp+
  from symbol_stored_twice [OF _ _ this] marked_table_ok show ?thesis by (simp add: table_ok_def sym_D_def)
qed

text \<open>
  C35: in every world that is reached from new packages by any calls (\<open>pkg_call\<close>), a search finds nothing
  exactly when no table it looks at holds a symbol of the name, it returns a symbol of the name asked for, and a package is
  in the list of users of another exactly when it uses it. If moreover the calls keep to three rules that the code does not
  check (\<open>pkg_step\<close>: a symbol whose home is not the package is imported only when no symbol of its name is present, and
  exported only when it is not external yet, and \<^verbatim>\<open>shadowing_import\<close> does not displace a symbol whose home is the package),
  then no name is both an internal and an external symbol of a package, and a symbol is accessible in its home package.
  Without the rules these two fail.
\<close>

theorem package_invariant:
  assumes "(pkg_call keyword)\<^sup>*\<^sup>* (initial_world n) w"
  shows "(\<forall>p k. find_symbol w p k = None \<longleftrightarrow>
        k \<notin> internal_names w p \<union> external_names w p \<union> (\<Union>q \<in> set (use_list (packages w p)). external_names w q))
    \<and> (\<forall>p k s st. find_symbol w p k = Some (s, st) \<longrightarrow> sym_name s = k)
    \<and> (\<forall>p q. package_uses p q w \<longleftrightarrow> p \<in> set (used_by_list (packages w q)))
    \<and> ((pkg_step keyword)\<^sup>*\<^sup>* (initial_world n) w \<longrightarrow>
         (\<forall>p. internal_names w p \<inter> external_names w p = {})
         \<and> (\<forall>s p. symbol_package w s = Some p \<longrightarrow> find_accessible_symbol w p (sym_name s) = Some s))"
proof (intro conjI allI impI)
  note w = reachable_sound [OF assms]
  show "find_symbol w p k = None \<longleftrightarrow>
      k \<notin> internal_names w p \<union> external_names w p \<union> (\<Union>q \<in> set (use_list (packages w p)). external_names w q)" for p k
    by (rule sound_find_symbol(1) [OF w])
  show "sym_name s = k" if "find_symbol w p k = Some (s, st)" for p k s st by (rule sound_find_symbol(2) [OF w that])
  show "package_uses p q w \<longleftrightarrow> p \<in> set (used_by_list (packages w q))" for p q
    using w by (simp add: package_uses_def sound_def)
  assume "(pkg_step keyword)\<^sup>*\<^sup>* (initial_world n) w"
  note ok = reachable_ok [OF this]
  show "internal_names w p \<inter> external_names w p = {}" for p
  proof -
    have "find_internal w p k = None \<or> find_external w p k = None" for k
      using world_package [OF ok, of p] by (simp add: package_ok_def disjoint_def find_internal_def find_external_def)
    then show ?thesis using sound_find_None [OF w, of p] by blast
  qed
  show "find_accessible_symbol w p (sym_name s) = Some s" if "symbol_package w s = Some p" for s p
    using world_home [OF ok that] by (auto simp: find_accessible_find_symbol find_symbol_view)
qed

definition world1 :: world where
  "world1 = snd (intern 9 1 [67] (initial_world 0))"

lemma world1_ok: "world_ok world1"
  unfolding world1_def by (rule intern_ok [OF initial_world_ok])

theorem package_invariant_witness:
  "find_accessible_symbol world1 1 [67] = Some sym_C
     \<and> find_symbol (projr (import_symbol 2 sym_C (projr (export_symbol 2 sym_C (projr (import_symbol 2 sym_C world1)))))) 2 [67] \<noteq> None"
proof -
  let ?w2 = "projr (import_symbol 2 sym_C world1)"
  let ?w3 = "projr (export_symbol 2 sym_C ?w2)"
  let ?w4 = "projr (import_symbol 2 sym_C ?w3)"
  have step: "(pkg_step 9)\<^sup>*\<^sup>* (initial_world 0) world1" unfolding world1_def by (intro r_into_rtranclp pkg_step.intern)
  have r1: "(pkg_call 9)\<^sup>*\<^sup>* (initial_world 0) world1" unfolding world1_def by (intro r_into_rtranclp pkg_call.intern_call)
  have "\<not> isl (import_symbol 2 sym_C world1)" "\<not> isl (export_symbol 2 sym_C ?w2)" "\<not> isl (import_symbol 2 sym_C ?w3)" by code_simp+
  then have "pkg_call 9 world1 ?w2" "pkg_call 9 ?w2 ?w3" "pkg_call 9 ?w3 ?w4"
    by (auto intro: pkg_call.import_call pkg_call.export_call)
  with r1 have r4: "(pkg_call 9)\<^sup>*\<^sup>* (initial_world 0) ?w4" by (meson rtranclp.rtrancl_into_rtrancl)
  have "[67] \<in> internal_names ?w4 2 \<union> external_names ?w4 2" "symbol_package world1 sym_C = Some 1" "sym_name sym_C = [67]" by code_simp+
  then show ?thesis using package_invariant [OF r4] package_invariant [OF r1] step by (metis UnI1)
qed

text \<open>
  C36: \<^verbatim>\<open>intern\<close> returns a symbol of the name, which \<^verbatim>\<open>find_symbol\<close> and a second \<^verbatim>\<open>intern\<close> then find; the
  status of a new symbol is internal, and external in the keyword package. A new symbol was present in no package
  before. Nothing changes for other names and packages.
\<close>

theorem package_intern_find:
  assumes "world_ok w" "intern keyword p k w = ((s, st), w')"
  shows "world_ok w' \<and> sym_name s = k
    \<and> find_symbol w' p k = Some (s, case st of Some x \<Rightarrow> x | None \<Rightarrow> if p = keyword then External else Internal)
    \<and> fst (intern keyword p k w') = (s, map_option snd (find_symbol w' p k)) \<and> snd (intern keyword p k w') = w'
    \<and> (st = None \<longrightarrow> (\<forall>q k' x. view w q k' \<noteq> Some (s, x)))
    \<and> (\<forall>q k'. q \<noteq> p \<or> k' \<noteq> k \<longrightarrow> view w' q k' = view w q k')"
proof (cases "find_symbol w p k")
  case (Some x)
  obtain s' st' where x: "x = (s', st')" by fastforce
  have "s = s'" "st = Some st'" "w' = w" using assms(2) intern_found [OF Some [unfolded x]] by simp_all
  then show ?thesis using Some x assms(1) find_symbol_name [OF assms(1)] by (simp add: intern_found)
next
  case None
  obtain w1 where n: "intern keyword p k w = ((Symbol (next_symbol w) k, None), w1)" "world_ok w1"
    "view w1 = (view w)(p := (view w p)(k \<mapsto> (Symbol (next_symbol w) k, if p = keyword then External else Internal)))"
    by (rule intern_new [OF assms(1) None])
  have e: "s = Symbol (next_symbol w) k" "st = None" "w' = w1" using n(1) assms(2) by simp_all
  have f: "find_symbol w' p k = Some (s, if p = keyword then External else Internal)" by (simp add: find_symbol_view n(3) e)
  have "view w q k' \<noteq> Some (s, x)" for q k' x using world_fresh [OF assms(1), of q k' s x] by (auto simp: e(1))
  then show ?thesis using n(2,3) e f intern_found [OF f, of keyword] by simp
qed

theorem package_intern_find_witness: "find_symbol world1 1 [67] = Some (sym_C, Internal)"
proof -
  have "fst (intern 9 1 [67] (initial_world 0)) = (sym_C, None)" by code_simp
  then have "intern 9 1 [67] (initial_world 0) = ((sym_C, None), world1)" by (simp add: world1_def prod_eq_iff)
  then show ?thesis using package_intern_find [OF initial_world_ok, of 9 1 "[67]" 0 sym_C None world1] by simp
qed

text \<open>
  C37: exporting a symbol that is accessible, causes no conflict and, when its home is not the package, is not
  yet an external symbol of this one, makes it an external symbol of the package, whether it was internal or inherited, keeps
  the invariant and the other symbols, and makes the name accessible in every package that uses this one.
\<close>

theorem package_export:
  assumes "world_ok w" "sym_address s < next_symbol w" "find_accessible_symbol w p (sym_name s) = Some s"
    and "export_conflict w s (used_by_list (packages w p)) = None"
    and "symbol_package w s = Some p \<or> find_external w p (sym_name s) \<noteq> Some s"
  shows "\<exists>w'. export_symbol p s w = Inr w' \<and> world_ok w' \<and> find_symbol w' p (sym_name s) = Some (s, External)
    \<and> (\<forall>q k. q \<noteq> p \<or> k \<noteq> sym_name s \<longrightarrow> view w' q k = view w q k)
    \<and> (\<forall>q. package_uses q p w \<longrightarrow> find_accessible_symbol w' q (sym_name s) \<noteq> None)"
proof -
  obtain w' where w': "export_symbol p s w = Inr w'" using export_returns [OF assms(4,3)] by blast
  note e = export_symbol_ok [OF assms(1,2) w' assms(5)]
  have f: "find_external w' p (sym_name s) = Some s" using find_view(1) [OF world_package [OF e(1)]] e(2) by simp
  then have "find_accessible_symbol w' q (sym_name s) \<noteq> None" if "package_uses q p w" for q
    using exported_accessible [of q p w'] that export_lists [OF w', of q] by (simp add: package_uses_def)
  moreover have "find_symbol w' p (sym_name s) = Some (s, External)" using f by (simp add: find_symbol_def)
  ultimately show ?thesis using w' e by auto
qed

definition world2 :: world where
  "world2 = use_package 2 1 world1"

theorem package_export_witness:
  "\<exists>w'. export_symbol 1 sym_C world2 = Inr w' \<and> find_symbol w' 1 [67] = Some (sym_C, External) \<and> find_accessible_symbol w' 2 [67] \<noteq> None"
proof -
  have "world_ok world2" unfolding world2_def by (rule use_package_ok(1) [OF world1_ok])
  moreover have "sym_address sym_C < next_symbol world2" "find_accessible_symbol world2 1 (sym_name sym_C) = Some sym_C"
    "export_conflict world2 sym_C (used_by_list (packages world2 1)) = None" "symbol_package world2 sym_C = Some 1"
    "package_uses 2 1 world2" "sym_name sym_C = [67]"
    by code_simp+
  ultimately show ?thesis using package_export [of world2 sym_C 1] by metis
qed

text \<open>
  C38: a symbol of another package that has been imported and exported can be imported again, which
  stores it among the internal symbols as well. After that \<^verbatim>\<open>unintern\<close> reports success, and the symbol is still an
  external symbol of the package.
\<close>

theorem import_exported_twice:
  assumes "world_ok w" "find_external w p (sym_name s) = Some s" "symbol_package w s \<noteq> Some p"
    and "find_shadowing w p (sym_name s) \<noteq> Some s"
  shows "\<exists>w1 w2. import_symbol p s w = Inr w1 \<and> find_internal w1 p (sym_name s) = Some s \<and> find_external w1 p (sym_name s) = Some s
    \<and> unintern_symbol p s w1 = Inr (True, w2) \<and> find_symbol w2 p (sym_name s) = Some (s, External)"
proof -
  obtain w1 where w1: "import_symbol p s w = Inr w1" "find_internal w1 p (sym_name s) = Some s" "find_external w1 p (sym_name s) = Some s"
    "find_shadowing w1 p = find_shadowing w p"
    using import_external [OF assms(1-3)] by blast
  then obtain w2 where "unintern_symbol p s w1 = Inr (True, w2)" "find_symbol w2 p (sym_name s) = Some (s, External)"
    using unintern_doubled [of w1 p s] assms(4) by auto
  then show ?thesis using w1 by blast
qed

definition world3 :: world where
  "world3 = projr (export_symbol 2 sym_C (projr (import_symbol 2 sym_C world1)))"

lemma world3_ok: "world_ok world3"
proof -
  have "\<not> isl (import_symbol 2 sym_C world1)" by code_simp
  then have i: "import_symbol 2 sym_C world1 = Inr (projr (import_symbol 2 sym_C world1))" by simp
  have "view world1 2 (sym_name sym_C) = None" "sym_address sym_C < next_symbol world1" by code_simp+
  then have ok: "world_ok (projr (import_symbol 2 sym_C world1))" using import_symbol_ok(1) [OF world1_ok _ i] by simp
  have "\<not> isl (export_symbol 2 sym_C (projr (import_symbol 2 sym_C world1)))" by code_simp
  then have e: "export_symbol 2 sym_C (projr (import_symbol 2 sym_C world1)) = Inr world3" by (simp add: world3_def)
  have "sym_address sym_C < next_symbol (projr (import_symbol 2 sym_C world1))"
    "find_external (projr (import_symbol 2 sym_C world1)) 2 (sym_name sym_C) \<noteq> Some sym_C" by code_simp+
  then show ?thesis using export_symbol_ok(1) [OF ok _ e] by simp
qed

theorem import_exported_twice_witness:
  "\<exists>w1 w2. import_symbol 2 sym_C world3 = Inr w1 \<and> unintern_symbol 2 sym_C w1 = Inr (True, w2) \<and> find_symbol w2 2 (sym_name sym_C) = Some (sym_C, External)"
proof -
  have "find_external world3 2 (sym_name sym_C) = Some sym_C" "symbol_package world3 sym_C \<noteq> Some 2"
    "find_shadowing world3 2 (sym_name sym_C) \<noteq> Some sym_C" by code_simp+
  then show ?thesis using import_exported_twice [OF world3_ok] by blast
qed

text \<open>
  C39: \<^verbatim>\<open>unintern\<close> does not take a symbol out of the shadowing symbols of the package. A following
  \<^verbatim>\<open>shadow\<close> of the name then finds it there and creates no symbol, so that the name is not accessible.
\<close>

theorem unintern_keeps_shadowing:
  assumes "world_ok w" "view w p (sym_name s) = Some (s, st)" "find_shadowing w p (sym_name s) = Some s" "use_list (packages w p) = []"
  shows "\<exists>w'. unintern_symbol p s w = Inr (True, w') \<and> find_shadowing w' p (sym_name s) = Some s
    \<and> find_symbol (shadow p (sym_name s) w') p (sym_name s) = None"
  by (rule unintern_shadowing [OF assms])

theorem unintern_keeps_shadowing_witness:
  "\<exists>w'. unintern_symbol 1 sym_C (shadow 1 [67] (initial_world 0)) = Inr (True, w')
     \<and> find_symbol (shadow 1 (sym_name sym_C) w') 1 (sym_name sym_C) = None"
proof -
  have "view (shadow 1 [67] (initial_world 0)) 1 (sym_name sym_C) = Some (sym_C, Internal)"
    "find_shadowing (shadow 1 [67] (initial_world 0)) 1 (sym_name sym_C) = Some sym_C"
    "use_list (packages (shadow 1 [67] (initial_world 0)) 1) = []" by code_simp+
  then show ?thesis using unintern_keeps_shadowing [OF shadow_ok(1) [OF initial_world_ok]] by blast
qed

text \<open>
  C40: a symbol that \<^verbatim>\<open>shadowing_import\<close> displaces keeps the package as its home. Importing it
  then does nothing, although it is not accessible, and exporting it removes the symbol that took its place, because symbols
  are removed by name.
\<close>

theorem displaced_symbol_keeps_home:
  assumes "world_ok w" "view w p (sym_name s) = Some (s0, st)" "symbol_package w s0 = Some p" "s \<noteq> s0" "used_by_list (packages w p) = []"
    and "w1 = shadowing_import p s w"
  shows "find_symbol w1 p (sym_name s) = Some (s, Internal) \<and> import_symbol p s0 w1 = Inr w1
    \<and> (\<exists>w2. export_symbol p s0 w1 = Inr w2 \<and> find_symbol w2 p (sym_name s) = Some (s0, External))"
  using displaced_symbol [OF assms(1-5)] by (simp add: assms(6))

theorem displaced_symbol_keeps_home_witness:
  "\<exists>w2. export_symbol 1 sym_C (shadowing_import 1 (Symbol 1 [67]) (snd (intern 9 2 [67] world1))) = Inr w2
     \<and> find_symbol w2 1 (sym_name (Symbol 1 [67])) = Some (sym_C, External)"
proof -
  let ?w = "snd (intern 9 2 [67] world1)" and ?s = "Symbol 1 [67]"
  have "view ?w 1 (sym_name ?s) = Some (sym_C, Internal)" "symbol_package ?w sym_C = Some 1" "?s \<noteq> sym_C"
    "used_by_list (packages ?w 1) = []" by code_simp+
  then show ?thesis using displaced_symbol_keeps_home [OF intern_ok [OF world1_ok] _ _ _ _ refl] by blast
qed


end
